(* ===== verification/UMF_Prelude.thy ===== *)
theory UMF_Prelude
  imports Main "HOL-Library.Word" "HOL-Library.Monad_Syntax"
begin

text \<open>
  Shared ground of the development: the names of the machine types, the result codes of the
  public API, the error monad in which the code is written, and generic facts on partial
  stores, options and 64-bit words.

  The C code is modelled over explicit stores. An object of a C type lives at an address of
  type \<open>ptr\<close>, a natural number whose value 0 is the null pointer; a store is a
  partial map from addresses to records. Every function that follows a pointer lives in the
  option monad: \<open>None\<close> stands for an access to an address where no object of the expected
  type lives, for a failed assertion of the debug build, or for a loop that does not end. A
  theorem that an operation returns \<open>Some\<close> therefore shows memory safety, the absence of
  assertion failures and termination together.
\<close>

unbundle bit_operations_syntax

section \<open>Names of the machine types\<close>

type_synonym ptr = nat
type_synonym u64 = "64 word"

abbreviation NULL :: ptr where "NULL \<equiv> 0"

named_theorems store_simps \<open>frame facts of stores\<close>
named_theorems word_facts \<open>facts on 64-bit words\<close>

section \<open>Result codes: include/umf/base.h and errno.h\<close>

datatype umf_result =
    UMF_RESULT_SUCCESS
  | UMF_RESULT_ERROR_OUT_OF_HOST_MEMORY
  | UMF_RESULT_ERROR_MEMORY_PROVIDER_SPECIFIC
  | UMF_RESULT_ERROR_INVALID_ARGUMENT
  | UMF_RESULT_ERROR_INVALID_ALIGNMENT
  | UMF_RESULT_ERROR_NOT_SUPPORTED
  | UMF_RESULT_ERROR_USER_SPECIFIC
  | UMF_RESULT_ERROR_UNKNOWN

datatype errno = OK | EEXIST | ENOMEM

section \<open>Assertions in the option monad\<close>

definition guard :: "bool \<Rightarrow> unit option" where
  "guard b = (if b then Some () else None)"

lemma guard_simps [simp]: "guard True = Some ()" "guard False = None"
  by (simp_all add: guard_def)

lemma guard_eq_Some [simp]: "guard b = Some u \<longleftrightarrow> b"
  by (simp add: guard_def)

lemma bind_guard [simp]: "Option.bind (guard b) f = (if b then f () else None)"
  by (simp add: guard_def)

end
