(* ===== verification/Pm_Machine.thy ===== *)
theory Pm_Machine
  imports UMF_Prelude
begin

text \<open>
  The machine on which the persistent type library of src/persistentLib runs: a memory whose
  part inside the pool survives the process, the exceptions of C++ as outcomes, and the
  functions of libpmemobj that the library calls as a record of parameters.

  Offsets into the pool name persistent cells, addresses name cells of the process. The pool
  is mapped at the address \<^term>\<open>global_pool s\<close> (0 while no pool is open), so that the same
  image can be mapped elsewhere by the next process. A cell holds one scalar of the program;
  \<open>VZero\<close> is memory that was zeroed and reads as zero at every type.

  A computation returns its outcome, the state afterwards and the list of all states that it
  went through, one for every store and for every call of libpmemobj that changes something.
  These are the states in which the process can be killed.
\<close>

section \<open>Values and the image of the pool\<close>

datatype oid = OID_NULL | OID nat

datatype pval = VZero | VInt "32 word" | VOid oid | VChar char | VSize nat

type_synonym image = "nat \<rightharpoonup> pval"

fun get_int :: "pval \<Rightarrow> 32 word option" where
  "get_int VZero = Some 0"
| "get_int (VInt w) = Some w"
| "get_int _ = None"

fun get_oid :: "pval \<Rightarrow> oid option" where
  "get_oid VZero = Some OID_NULL"
| "get_oid (VOid x) = Some x"
| "get_oid _ = None"

fun get_char :: "pval \<Rightarrow> char option" where
  "get_char VZero = Some (CHR 0x00)"
| "get_char (VChar c) = Some c"
| "get_char _ = None"

fun get_size :: "pval \<Rightarrow> nat option" where
  "get_size VZero = Some 0"
| "get_size (VSize n) = Some n"
| "get_size _ = None"

section \<open>The functions of libpmemobj and libpmemobj++ that the library calls\<close>

text \<open>
  libpmemobj is not part of the repository; its functions are the fields of this record, over
  a state \<open>'p\<close> of their own. A call gets the image of the pool and may change it. The
  three last fields are what \<open>transaction::run\<close> does before its closure, after a normal return
  of it, and when an exception leaves it.
\<close>

datatype tx_stage = TX_STAGE_NONE | TX_STAGE_WORK | TX_STAGE_ONABORT

record 'p pmdk =
  pool_access :: "string \<Rightarrow> 'p \<Rightarrow> bool"
  pmemobj_open :: "string \<Rightarrow> string \<Rightarrow> image \<Rightarrow> 'p \<Rightarrow> ptr \<times> image \<times> 'p"
  pmemobj_create :: "string \<Rightarrow> string \<Rightarrow> nat \<Rightarrow> image \<Rightarrow> 'p \<Rightarrow> ptr \<times> image \<times> 'p"
  pmemobj_close :: "image \<Rightarrow> 'p \<Rightarrow> unit \<times> image \<times> 'p"
  pmemobj_root :: "nat \<Rightarrow> image \<Rightarrow> 'p \<Rightarrow> oid \<times> image \<times> 'p"
  pmemobj_direct :: "ptr \<Rightarrow> oid \<Rightarrow> ptr"
  pmemobj_oid :: "ptr \<Rightarrow> ptr \<Rightarrow> oid"
  pmemobj_pool_by_ptr :: "ptr \<Rightarrow> ptr \<Rightarrow> ptr"
  pmemobj_tx_stage :: "'p \<Rightarrow> tx_stage"
  pmemobj_tx_add_range_direct :: "ptr \<Rightarrow> ptr \<Rightarrow> nat \<Rightarrow> image \<Rightarrow> 'p \<Rightarrow> int \<times> image \<times> 'p"
  pmemobj_tx_alloc :: "nat \<Rightarrow> image \<Rightarrow> 'p \<Rightarrow> oid \<times> image \<times> 'p"
  pmemobj_tx_free :: "oid \<Rightarrow> image \<Rightarrow> 'p \<Rightarrow> int \<times> image \<times> 'p"
  pmemobj_alloc :: "nat \<Rightarrow> image \<Rightarrow> 'p \<Rightarrow> (int \<times> oid) \<times> image \<times> 'p"
  pmemobj_free :: "oid \<Rightarrow> image \<Rightarrow> 'p \<Rightarrow> unit \<times> image \<times> 'p"
  tx_enter :: "image \<Rightarrow> 'p \<Rightarrow> bool \<times> image \<times> 'p"
  tx_leave :: "image \<Rightarrow> 'p \<Rightarrow> unit \<times> image \<times> 'p"
  tx_unwind :: "image \<Rightarrow> 'p \<Rightarrow> unit \<times> image \<times> 'p"

section \<open>States and computations\<close>

record 'p mach =
  img :: image
  vol :: image
  global_pool :: ptr
  env_pool_path :: "string option"
  empty_literal :: ptr
  px :: 'p

datatype 'a outcome = Ret 'a | Throw string | Terminate | Fault

type_synonym ('p, 'a) pm = "'p mach \<Rightarrow> 'a outcome \<times> 'p mach \<times> 'p mach list"

definition ret :: "'a \<Rightarrow> ('p, 'a) pm" where
  "ret a s = (Ret a, s, [])"

definition raise :: "string \<Rightarrow> ('p, 'a) pm" where
  "raise e s = (Throw e, s, [])"

definition faulty :: "('p, 'a) pm" where
  "faulty s = (Fault, s, [])"

definition andthen :: "('p, 'a) pm \<Rightarrow> ('a \<Rightarrow> ('p, 'b) pm) \<Rightarrow> ('p, 'b) pm" where
  "andthen m f s = (case m s of
     (Ret a, s1, t1) \<Rightarrow> (case f a s1 of (r, s2, t2) \<Rightarrow> (r, s2, t1 @ t2))
   | (Throw e, s1, t1) \<Rightarrow> (Throw e, s1, t1)
   | (Terminate, s1, t1) \<Rightarrow> (Terminate, s1, t1)
   | (Fault, s1, t1) \<Rightarrow> (Fault, s1, t1))"

text \<open>
  An exception that leaves \<open>m\<close> runs the clean-up \<open>h\<close> and goes on. An exception out of
  the clean-up itself ends the process by \<open>std::terminate\<close>, and so does one out of a function
  that must not throw.
\<close>

definition on_throw :: "('p, 'a) pm \<Rightarrow> ('p, 'b) pm \<Rightarrow> ('p, 'a) pm" where
  "on_throw m h s = (case m s of
     (Throw e, s1, t1) \<Rightarrow> (case h s1 of
        (Ret b, s2, t2) \<Rightarrow> (Throw e, s2, t1 @ t2)
      | (Throw e', s2, t2) \<Rightarrow> (Terminate, s2, t1 @ t2)
      | (Terminate, s2, t2) \<Rightarrow> (Terminate, s2, t1 @ t2)
      | (Fault, s2, t2) \<Rightarrow> (Fault, s2, t1 @ t2))
   | (r, s1, t1) \<Rightarrow> (r, s1, t1))"

definition pmdk_call :: "(image \<Rightarrow> 'p \<Rightarrow> 'a \<times> image \<times> 'p) \<Rightarrow> ('p, 'a) pm" where
  "pmdk_call f s = (case f (img s) (px s) of (r, i, p) \<Rightarrow>
     (let s1 = s\<lparr>img := i, px := p\<rparr> in (Ret r, s1, [s1])))"

definition ask :: "('p mach \<Rightarrow> 'a) \<Rightarrow> ('p, 'a) pm" where
  "ask f s = (Ret (f s), s, [])"

definition terminated :: "('p, unit) pm" where
  "terminated s = (Terminate, s, [])"

definition no_throw :: "('p, 'a) pm \<Rightarrow> ('p, 'a) pm" where
  "no_throw m = on_throw m terminated"

section \<open>Loads and stores\<close>

definition peek :: "'p pmdk \<Rightarrow> 'p mach \<Rightarrow> ptr \<Rightarrow> pval option" where
  "peek P s a = (case pmemobj_oid P (global_pool s) a of
     OID x \<Rightarrow> img s x
   | OID_NULL \<Rightarrow> if a = NULL then None else vol s a)"

definition poke :: "'p pmdk \<Rightarrow> ptr \<Rightarrow> pval \<Rightarrow> 'p mach \<Rightarrow> 'p mach" where
  "poke P a v s = (case pmemobj_oid P (global_pool s) a of
     OID x \<Rightarrow> s\<lparr>img := (img s)(x \<mapsto> v)\<rparr>
   | OID_NULL \<Rightarrow> s\<lparr>vol := (vol s)(a \<mapsto> v)\<rparr>)"

definition pm_read :: "'p pmdk \<Rightarrow> (pval \<Rightarrow> 'a option) \<Rightarrow> ptr \<Rightarrow> ('p, 'a) pm" where
  "pm_read P g a s = (case Option.bind (peek P s a) g of
     Some x \<Rightarrow> (Ret x, s, [])
   | None \<Rightarrow> (Fault, s, []))"

definition pm_write :: "'p pmdk \<Rightarrow> ptr \<Rightarrow> pval \<Rightarrow> ('p, unit) pm" where
  "pm_write P a v s = (if a = NULL then (Fault, s, [])
     else let s1 = poke P a v s in (Ret (), s1, [s1]))"

text \<open>
  The functions \<open>strlen\<close>, \<open>strcmp\<close> (whether it returns 0) and \<open>memcpy\<close> of the C library.
  \<open>None\<close> stands for a read of memory that holds no character, and for a string that does
  not end.
\<close>

partial_function (option) strlen_at :: "'p pmdk \<Rightarrow> 'p mach \<Rightarrow> ptr \<Rightarrow> nat option" where
  "strlen_at P s a = (case Option.bind (peek P s a) get_char of
     None \<Rightarrow> None
   | Some c \<Rightarrow> if c = CHR 0x00 then Some 0
      else Option.bind (strlen_at P s (a + 1)) (\<lambda>n. Some (Suc n)))"

definition pm_strlen :: "'p pmdk \<Rightarrow> ptr \<Rightarrow> ('p, nat) pm" where
  "pm_strlen P a s = (case strlen_at P s a of
     Some n \<Rightarrow> (Ret n, s, [])
   | None \<Rightarrow> (Fault, s, []))"

partial_function (option) strcmp_at :: "'p pmdk \<Rightarrow> 'p mach \<Rightarrow> ptr \<Rightarrow> ptr \<Rightarrow> bool option" where
  "strcmp_at P s a b = (case Option.bind (peek P s a) get_char of
     None \<Rightarrow> None
   | Some c \<Rightarrow> (case Option.bind (peek P s b) get_char of
        None \<Rightarrow> None
      | Some d \<Rightarrow> if c \<noteq> d then Some False
         else if c = CHR 0x00 then Some True
         else strcmp_at P s (a + 1) (b + 1)))"

definition pm_strcmp :: "'p pmdk \<Rightarrow> ptr \<Rightarrow> ptr \<Rightarrow> ('p, bool) pm" where
  "pm_strcmp P a b s = (case strcmp_at P s a b of
     Some r \<Rightarrow> (Ret r, s, [])
   | None \<Rightarrow> (Fault, s, []))"

fun peek_many :: "'p pmdk \<Rightarrow> 'p mach \<Rightarrow> ptr \<Rightarrow> nat \<Rightarrow> pval list option" where
  "peek_many P s a 0 = Some []"
| "peek_many P s a (Suc n) = Option.bind (peek P s a) (\<lambda>v.
     Option.bind (peek_many P s (a + 1) n) (\<lambda>vs. Some (v # vs)))"

fun poke_many :: "'p pmdk \<Rightarrow> ptr \<Rightarrow> pval list \<Rightarrow> 'p mach \<Rightarrow> 'p mach" where
  "poke_many P a [] s = s"
| "poke_many P a (v # vs) s = poke_many P (a + 1) vs (poke P a v s)"

definition pm_memcpy :: "'p pmdk \<Rightarrow> ptr \<Rightarrow> ptr \<Rightarrow> nat \<Rightarrow> ('p, unit) pm" where
  "pm_memcpy P dst src n s = (case peek_many P s src n of
     None \<Rightarrow> (Fault, s, [])
   | Some vs \<Rightarrow> if dst = NULL then (Fault, s, [])
      else let s1 = poke_many P dst vs s in (Ret (), s1, [s1]))"

section \<open>Transactions\<close>

text \<open>
  \<open>pmem::obj::transaction::run\<close>: it enters the transaction, runs the closure, and leaves the
  transaction after a normal return or unwinds it when an exception passes.
\<close>

definition transaction_run :: "'p pmdk \<Rightarrow> ('p, 'a) pm \<Rightarrow> ('p, 'a) pm" where
  "transaction_run P body =
     andthen (pmdk_call (tx_enter P)) (\<lambda>ok.
       if ok then
         andthen (on_throw body (pmdk_call (tx_unwind P))) (\<lambda>a.
         andthen (pmdk_call (tx_leave P)) (\<lambda>_. ret a))
       else raise ''transaction_error'')"

end
