(* ===== verification/Pm_Library.thy ===== *)
theory Pm_Library
  imports Pm_Machine "HOL-Library.Signed_Division"
begin

text \<open>
  The library of persistent types: pool management, allocation and \<open>pmem_ptr\<close> of
  src/persistentLib/pmem_allocator.hpp, and \<open>PersistentAllocator\<close> and \<open>persistent<T>\<close> for
  scalar types of src/persistentLib/persistenttype.hpp. An object is given by its address; a
  member function gets the address of \<open>*this\<close>. The integer type is \<open>int\<close>, a 32-bit word;
  what the language leaves undefined (a result the type does not hold, division by zero, shifts
  by too many bits) is a fault.
\<close>

section \<open>The pool\<close>

definition PMEM_POOL_SIZE :: nat where
  "PMEM_POOL_SIZE = 1024 * 1024 * 1024"

definition PMEM_POOL_PATH :: string where
  "PMEM_POOL_PATH = ''/mnt/pmem-emu/global_persistent_pool''"

definition get_pool_path :: "'p mach \<Rightarrow> string" where
  "get_pool_path s = (case env_pool_path s of Some p \<Rightarrow> p | None \<Rightarrow> PMEM_POOL_PATH)"

definition map_pool :: "(image \<Rightarrow> 'p \<Rightarrow> ptr \<times> image \<times> 'p) \<Rightarrow> string \<Rightarrow> ('p, unit) pm" where
  "map_pool f e = andthen (pmdk_call f) (\<lambda>b.
     if b = NULL then raise e else (\<lambda>s. (Ret (), s\<lparr>global_pool := b\<rparr>, [])))"

definition pmem_alloc_init :: "'p pmdk \<Rightarrow> ('p, unit) pm" where
  "pmem_alloc_init P s =
    (if global_pool s \<noteq> NULL then ret () s
     else if pool_access P (get_pool_path s) (px s)
     then map_pool (pmemobj_open P (get_pool_path s) ''pmem_pool'')
            ''Failed to open existing PMEM pool'' s
     else map_pool (pmemobj_create P (get_pool_path s) ''pmem_pool'' PMEM_POOL_SIZE)
            ''Failed to create PMEM pool'' s)"

definition pmem_alloc_fini :: "'p pmdk \<Rightarrow> ('p, unit) pm" where
  "pmem_alloc_fini P s =
    (if global_pool s \<noteq> NULL
     then andthen (pmdk_call (pmemobj_close P)) (\<lambda>_ s. (Ret (), s\<lparr>global_pool := NULL\<rparr>, [])) s
     else ret () s)"

definition pmem_pool :: "('p, unit) pm" where
  "pmem_pool s = (if global_pool s = NULL then raise ''PMEM pool is not initialized'' s
     else ret () s)"

definition direct :: "'p pmdk \<Rightarrow> oid \<Rightarrow> ('p, ptr) pm" where
  "direct P x = ask (\<lambda>s. pmemobj_direct P (global_pool s) x)"

definition pmem_root :: "'p pmdk \<Rightarrow> nat \<Rightarrow> ('p, ptr) pm" where
  "pmem_root P sz = andthen pmem_pool (\<lambda>_.
     andthen (pmdk_call (pmemobj_root P sz)) (\<lambda>root_oid. direct P root_oid))"

section \<open>Allocation\<close>

definition in_work :: "'p pmdk \<Rightarrow> ('p, bool) pm" where
  "in_work P = ask (\<lambda>s. pmemobj_tx_stage P (px s) = TX_STAGE_WORK)"

definition pmem_alloc :: "'p pmdk \<Rightarrow> nat \<Rightarrow> nat \<Rightarrow> ('p, ptr) pm" where
  "pmem_alloc P sz al = andthen pmem_pool (\<lambda>_. andthen (in_work P) (\<lambda>work.
     if work then
       andthen (pmdk_call (pmemobj_tx_alloc P sz)) (\<lambda>x.
         if x = OID_NULL
         then raise ''Failed to allocate memory from PMEM pool (transactional)''
         else direct P x)
     else
       andthen (pmdk_call (pmemobj_alloc P sz)) (\<lambda>(succ, x).
         if succ \<noteq> 0 then raise ''Failed to allocate memory from PMEM pool''
         else direct P x)))"

definition pmem_free :: "'p pmdk \<Rightarrow> ptr \<Rightarrow> ('p, unit) pm" where
  "pmem_free P p = andthen pmem_pool (\<lambda>_.
     andthen (ask (\<lambda>s. pmemobj_oid P (global_pool s) p)) (\<lambda>x. andthen (in_work P) (\<lambda>work.
       if work then
         andthen (pmdk_call (pmemobj_tx_free P x)) (\<lambda>rc.
           if rc \<noteq> 0 then raise ''Failed to free memory from PMEM pool within transaction''
           else ret ())
       else pmdk_call (pmemobj_free P x))))"

definition pmem_contains :: "'p pmdk \<Rightarrow> ptr \<Rightarrow> ('p, bool) pm" where
  "pmem_contains P p = ask (\<lambda>s. global_pool s \<noteq> NULL
     \<and> pmemobj_pool_by_ptr P (global_pool s) p = global_pool s)"

definition add_range :: "'p pmdk \<Rightarrow> ptr \<Rightarrow> nat \<Rightarrow> ('p, int) pm" where
  "add_range P a n s = pmdk_call (pmemobj_tx_add_range_direct P (global_pool s) a n) s"

text \<open>
  The member \<open>operator delete\<close> of a class: a deallocation function must not throw, so that an
  exception of \<open>pmem_free\<close> ends the process. The functions \<open>deallocate\<close> and destructors are
  the same.
\<close>

definition operator_delete :: "'p pmdk \<Rightarrow> ptr \<Rightarrow> ('p, unit) pm" where
  "operator_delete P p = no_throw (pmem_free P p)"

text \<open>
  The expression \<open>new T(...)\<close> of a class with these operators: a constructor that throws
  makes the language release the memory and pass the exception on.
\<close>

definition new_object :: "'p pmdk \<Rightarrow> nat \<Rightarrow> nat \<Rightarrow> (ptr \<Rightarrow> ('p, unit) pm) \<Rightarrow> ('p, ptr) pm" where
  "new_object P sz al ctor = andthen (pmem_alloc P sz al) (\<lambda>p.
     andthen (on_throw (ctor p) (operator_delete P p)) (\<lambda>_. ret p))"

definition PersistentAllocator_allocate :: "'p pmdk \<Rightarrow> nat \<Rightarrow> nat \<Rightarrow> u64 \<Rightarrow> ('p, ptr) pm" where
  "PersistentAllocator_allocate P szT alT n = pmem_alloc P (unat (n * of_nat szT)) alT"

definition PersistentAllocator_deallocate :: "'p pmdk \<Rightarrow> ptr \<Rightarrow> u64 \<Rightarrow> ('p, unit) pm" where
  "PersistentAllocator_deallocate P p n = no_throw (pmem_free P p)"

section \<open>Pointers that survive the process: pmem_ptr\<close>

definition sizeof_PMEMoid :: nat where "sizeof_PMEMoid = 16"

definition pmem_ptr_init :: "'p pmdk \<Rightarrow> ptr \<Rightarrow> ('p, unit) pm" where
  "pmem_ptr_init P this = pm_write P this (VOid OID_NULL)"

definition pmem_ptr_of_raw :: "'p pmdk \<Rightarrow> ptr \<Rightarrow> ptr \<Rightarrow> ('p, unit) pm" where
  "pmem_ptr_of_raw P this raw =
     andthen (ask (\<lambda>s. pmemobj_oid P (global_pool s) raw)) (\<lambda>x. pm_write P this (VOid x))"

definition oid_of :: "'p pmdk \<Rightarrow> ptr \<Rightarrow> ('p, oid) pm" where
  "oid_of P this = pm_read P get_oid this"

definition pmem_ptr_get :: "'p pmdk \<Rightarrow> ptr \<Rightarrow> ('p, ptr) pm" where
  "pmem_ptr_get P this = andthen (oid_of P this) (direct P)"

definition pmem_ptr_bool :: "'p pmdk \<Rightarrow> ptr \<Rightarrow> ('p, bool) pm" where
  "pmem_ptr_bool P this = andthen (oid_of P this) (\<lambda>x. ret (x \<noteq> OID_NULL))"

definition ptr_snapshot_if_pmem :: "'p pmdk \<Rightarrow> ptr \<Rightarrow> ('p, unit) pm" where
  "ptr_snapshot_if_pmem P this = andthen (pmem_contains P this) (\<lambda>b.
     if b then andthen (add_range P this sizeof_PMEMoid) (\<lambda>succ.
       if succ \<noteq> 0 then raise ''pmem_ptr assignment outside txn.'' else ret ())
     else ret ())"

definition pmem_ptr_assign_raw :: "'p pmdk \<Rightarrow> ptr \<Rightarrow> ptr \<Rightarrow> ('p, unit) pm" where
  "pmem_ptr_assign_raw P this raw = andthen (ptr_snapshot_if_pmem P this) (\<lambda>_.
     andthen (ask (\<lambda>s. pmemobj_oid P (global_pool s) raw)) (\<lambda>x. pm_write P this (VOid x)))"

definition pmem_ptr_assign_null :: "'p pmdk \<Rightarrow> ptr \<Rightarrow> ('p, unit) pm" where
  "pmem_ptr_assign_null P this = andthen (ptr_snapshot_if_pmem P this) (\<lambda>_.
     pm_write P this (VOid OID_NULL))"

definition pmem_ptr_assign :: "'p pmdk \<Rightarrow> ptr \<Rightarrow> ptr \<Rightarrow> ('p, unit) pm" where
  "pmem_ptr_assign P this other = andthen (ptr_snapshot_if_pmem P this) (\<lambda>_.
     andthen (oid_of P other) (\<lambda>x. pm_write P this (VOid x)))"

definition pmem_ptr_eq :: "'p pmdk \<Rightarrow> ptr \<Rightarrow> ptr \<Rightarrow> ('p, bool) pm" where
  "pmem_ptr_eq P this other =
     andthen (oid_of P this) (\<lambda>x. andthen (oid_of P other) (\<lambda>y. ret (x = y)))"

definition pmem_ptr_ne :: "'p pmdk \<Rightarrow> ptr \<Rightarrow> ptr \<Rightarrow> ('p, bool) pm" where
  "pmem_ptr_ne P this other = andthen (pmem_ptr_eq P this other) (\<lambda>b. ret (\<not> b))"

definition pmem_ptr_is_null :: "'p pmdk \<Rightarrow> ptr \<Rightarrow> ('p, bool) pm" where
  "pmem_ptr_is_null P this = andthen (oid_of P this) (\<lambda>x. ret (x = OID_NULL))"

definition pmem_ptr_not_null :: "'p pmdk \<Rightarrow> ptr \<Rightarrow> ('p, bool) pm" where
  "pmem_ptr_not_null P this = andthen (oid_of P this) (\<lambda>x. ret (x \<noteq> OID_NULL))"

definition pmem_get_or_create ::
  "'p pmdk \<Rightarrow> nat \<Rightarrow> nat \<Rightarrow> (ptr \<Rightarrow> ('p, unit) pm) \<Rightarrow> ptr \<Rightarrow> ('p, ptr) pm" where
  "pmem_get_or_create P sz al ctor slot = andthen (pmem_ptr_bool P slot) (\<lambda>b.
     if b then pmem_ptr_get P slot
     else andthen pmem_pool (\<lambda>_. transaction_run P
       (andthen (new_object P sz al ctor) (\<lambda>obj.
        andthen (pmem_ptr_assign_raw P slot obj) (\<lambda>_. ret obj)))))"

section \<open>Scalars whose stores are logged: persistent<int>\<close>

definition sizeof_int :: nat where "sizeof_int = 4"

definition persistent_load :: "'p pmdk \<Rightarrow> ptr \<Rightarrow> ('p, 32 word) pm" where
  "persistent_load P this = pm_read P get_int this"

definition persistent_store :: "'p pmdk \<Rightarrow> ptr \<Rightarrow> 32 word \<Rightarrow> ('p, unit) pm" where
  "persistent_store P this data = andthen (add_range P this sizeof_int) (\<lambda>succ.
     if succ \<noteq> 0 then raise ''Failed to add range to transaction''
     else pm_write P this (VInt data))"

definition persistent_default :: "'p pmdk \<Rightarrow> ptr \<Rightarrow> ('p, unit) pm" where
  "persistent_default P this = persistent_store P this 0"

definition persistent_init :: "'p pmdk \<Rightarrow> 32 word \<Rightarrow> ptr \<Rightarrow> ('p, unit) pm" where
  "persistent_init P data this = persistent_store P this data"

definition persistent_assign :: "'p pmdk \<Rightarrow> ptr \<Rightarrow> 32 word \<Rightarrow> ('p, unit) pm" where
  "persistent_assign P this data = persistent_store P this data"

definition persistent_copy :: "'p pmdk \<Rightarrow> ptr \<Rightarrow> ptr \<Rightarrow> ('p, unit) pm" where
  "persistent_copy P this o' = andthen (persistent_load P o') (persistent_store P this)"

text \<open>Arithmetic on \<open>int\<close>: a result that the type does not hold is undefined in the language, and so
  are a division by zero and a shift of or by a negative number or by all the bits.\<close>

definition int_result :: "int \<Rightarrow> 32 word option" where
  "int_result z = (if - (2 ^ 31) \<le> z \<and> z < 2 ^ 31 then Some (word_of_int z) else None)"

definition store_result :: "'p pmdk \<Rightarrow> ptr \<Rightarrow> 32 word option \<Rightarrow> ('p, unit) pm" where
  "store_result P this r = (case r of Some y \<Rightarrow> persistent_store P this y | None \<Rightarrow> faulty)"

definition pre_increment :: "'p pmdk \<Rightarrow> ptr \<Rightarrow> ('p, unit) pm" where
  "pre_increment P this = andthen (persistent_load P this) (\<lambda>x. store_result P this (int_result (sint x + 1)))"

definition post_increment :: "'p pmdk \<Rightarrow> ptr \<Rightarrow> ('p, 32 word) pm" where
  "post_increment P this = andthen (persistent_load P this) (\<lambda>old.
     andthen (store_result P this (int_result (sint old + 1))) (\<lambda>_. ret old))"

definition pre_decrement :: "'p pmdk \<Rightarrow> ptr \<Rightarrow> ('p, unit) pm" where
  "pre_decrement P this = andthen (persistent_load P this) (\<lambda>x. store_result P this (int_result (sint x - 1)))"

definition post_decrement :: "'p pmdk \<Rightarrow> ptr \<Rightarrow> ('p, 32 word) pm" where
  "post_decrement P this = andthen (persistent_load P this) (\<lambda>old.
     andthen (store_result P this (int_result (sint old - 1))) (\<lambda>_. ret old))"

datatype compound_op = Add | Sub | Mul | Div | Mod | BitAnd | BitOr | BitXor | Shl | Shr

fun apply_op :: "compound_op \<Rightarrow> 32 word \<Rightarrow> 32 word \<Rightarrow> 32 word option" where
  "apply_op Add x v = int_result (sint x + sint v)"
| "apply_op Sub x v = int_result (sint x - sint v)"
| "apply_op Mul x v = int_result (sint x * sint v)"
| "apply_op Div x v = (if v = 0 then None else int_result (sint x sdiv sint v))"
| "apply_op Mod x v = (if v = 0 \<or> sint x = - (2 ^ 31) \<and> sint v = - 1 then None
     else Some (word_of_int (sint x smod sint v)))"
| "apply_op BitAnd x v = Some (x AND v)"
| "apply_op BitOr x v = Some (x OR v)"
| "apply_op BitXor x v = Some (x XOR v)"
| "apply_op Shl x v = (if v < 32 \<and> 0 \<le> sint x \<and> sint x * 2 ^ unat v < 2 ^ 32
     then Some (push_bit (unat v) x) else None)"
| "apply_op Shr x v = (if v < 32 then Some (signed_drop_bit (unat v) x) else None)"

definition compound_assign :: "'p pmdk \<Rightarrow> compound_op \<Rightarrow> ptr \<Rightarrow> 32 word \<Rightarrow> ('p, unit) pm" where
  "compound_assign P f this v = andthen (persistent_load P this) (\<lambda>x. store_result P this (apply_op f x v))"

end
