(* ===== verification/Pm_Laws.thy ===== *)
theory Pm_Laws
  imports Pm_Library
begin

text \<open>
  What the library relies on from libpmemobj, as named hypotheses on the record of its
  functions. They are stated over a view of the state of libpmemobj: the stage and the depth
  of the transaction, the objects that existed when the outermost transaction began and the
  objects that exist now, the undo log (old contents by offset) and the root object. The laws
  are the documented ones: a range that was added to a transaction is restored when it is
  aborted or when the pool is opened after a crash, objects allocated in it disappear and
  objects freed in it come back; a failing call aborts the transaction; a commit keeps
  everything. Nothing is said of memory that belongs to no object.
\<close>

section \<open>Views\<close>

record view =
  v_file :: bool
  v_stage :: tx_stage
  v_depth :: nat
  v_old :: "nat \<rightharpoonup> nat"
  v_now :: "nat \<rightharpoonup> nat"
  v_undo :: "nat \<rightharpoonup> pval option"
  v_root :: "nat option"

definition span :: "nat \<Rightarrow> nat \<Rightarrow> nat set" where
  "span x n = {x..<x + n}"

definition bytes :: "(nat \<rightharpoonup> nat) \<Rightarrow> nat set" where
  "bytes m = {a. \<exists>x n. m x = Some n \<and> a \<in> span x n}"

definition objects_ok :: "(nat \<rightharpoonup> nat) \<Rightarrow> bool" where
  "objects_ok m \<longleftrightarrow>
     (\<forall>x n. m x = Some n \<longrightarrow> 0 < x \<and> 0 < n \<and> x + n \<le> PMEM_POOL_SIZE)
   \<and> (\<forall>x n y k. m x = Some n \<longrightarrow> m y = Some k \<longrightarrow> x \<noteq> y \<longrightarrow> span x n \<inter> span y k = {})"

definition idle :: "view \<Rightarrow> bool" where
  "idle v \<longleftrightarrow> v_stage v = TX_STAGE_NONE \<and> v_depth v = 0 \<and> v_old v = v_now v
     \<and> v_undo v = Map.empty"

definition rollback :: "view \<Rightarrow> image \<Rightarrow> image" where
  "rollback v i a = (case v_undo v a of Some old \<Rightarrow> old | None \<Rightarrow> i a)"

definition snapshot :: "view \<Rightarrow> image \<Rightarrow> nat set \<Rightarrow> (nat \<rightharpoonup> pval option)" where
  "snapshot v i S a = (case v_undo v a of
     Some old \<Rightarrow> Some old
   | None \<Rightarrow> if a \<in> S then Some (i a) else None)"

definition kept :: "nat set \<Rightarrow> image \<Rightarrow> image \<Rightarrow> bool" where
  "kept S i j \<longleftrightarrow> (\<forall>a\<in>S. j a = i a)"

definition aborted :: "view \<Rightarrow> view" where
  "aborted v = v\<lparr>v_stage := TX_STAGE_ONABORT, v_now := v_old v, v_undo := Map.empty\<rparr>"

definition rested :: "view \<Rightarrow> (nat \<rightharpoonup> nat) \<Rightarrow> view" where
  "rested v m = v\<lparr>v_stage := TX_STAGE_NONE, v_depth := 0, v_old := m, v_now := m,
     v_undo := Map.empty\<rparr>"

definition fresh_object :: "view \<Rightarrow> nat \<Rightarrow> nat \<Rightarrow> bool" where
  "fresh_object v x n \<longleftrightarrow> 0 < x \<and> x + n \<le> PMEM_POOL_SIZE
     \<and> span x n \<inter> (bytes (v_old v) \<union> bytes (v_now v)) = {}"

section \<open>The laws\<close>

definition pmdk_addressing :: "'p pmdk \<Rightarrow> bool" where
  "pmdk_addressing P \<longleftrightarrow> (\<forall>b a x. b \<noteq> NULL \<longrightarrow>
      pmemobj_direct P b OID_NULL = NULL
    \<and> pmemobj_direct P b (OID x) = b + x
    \<and> pmemobj_oid P b a = (if b < a \<and> a < b + PMEM_POOL_SIZE then OID (a - b) else OID_NULL)
    \<and> (pmemobj_pool_by_ptr P b a = b \<longleftrightarrow> b \<le> a \<and> a < b + PMEM_POOL_SIZE))"

definition pmdk_stage :: "'p pmdk \<Rightarrow> ('p \<Rightarrow> view) \<Rightarrow> bool" where
  "pmdk_stage P V \<longleftrightarrow> (\<forall>p. pmemobj_tx_stage P p = v_stage (V p))"

definition pmdk_snapshot :: "'p pmdk \<Rightarrow> ('p \<Rightarrow> view) \<Rightarrow> bool" where
  "pmdk_snapshot P V \<longleftrightarrow> (\<forall>b a x n i p r j q.
      b \<noteq> NULL \<longrightarrow> pmemobj_oid P b a = OID x \<longrightarrow> 0 < n \<longrightarrow> span x n \<subseteq> bytes (v_now (V p)) \<longrightarrow>
      pmemobj_tx_add_range_direct P b a n i p = (r, j, q) \<longrightarrow>
      v_stage (V p) = TX_STAGE_WORK \<longrightarrow>
         (if r = 0 then V q = (V p)\<lparr>v_undo := snapshot (V p) i (span x n)\<rparr> \<and> j = i
          else V q = aborted (V p) \<and> kept (bytes (v_old (V p))) (rollback (V p) i) j)
       \<and> (span x n \<inter> bytes (v_old (V p)) = {} \<longrightarrow> r = 0))"

definition pmdk_tx_objects :: "'p pmdk \<Rightarrow> ('p \<Rightarrow> view) \<Rightarrow> bool" where
  "pmdk_tx_objects P V \<longleftrightarrow> (\<forall>i p. v_stage (V p) = TX_STAGE_WORK \<longrightarrow>
      (\<forall>n x j q. 0 < n \<longrightarrow> pmemobj_tx_alloc P n i p = (x, j, q) \<longrightarrow>
        (case x of
           OID_NULL \<Rightarrow> V q = aborted (V p) \<and> kept (bytes (v_old (V p))) (rollback (V p) i) j
         | OID y \<Rightarrow> fresh_object (V p) y n \<and> V q = (V p)\<lparr>v_now := (v_now (V p))(y \<mapsto> n)\<rparr>
             \<and> kept (bytes (v_old (V p)) \<union> bytes (v_now (V p))) i j))
    \<and> (\<forall>y r j q. y \<in> dom (v_now (V p)) \<longrightarrow> pmemobj_tx_free P (OID y) i p = (r, j, q) \<longrightarrow>
        (if r = 0 then V q = (V p)\<lparr>v_now := (v_now (V p))(y := None)\<rparr>
             \<and> kept (bytes (v_old (V p)) \<union> bytes ((v_now (V p))(y := None))) i j
         else V q = aborted (V p) \<and> kept (bytes (v_old (V p))) (rollback (V p) i) j)))"

definition pmdk_root :: "'p pmdk \<Rightarrow> ('p \<Rightarrow> view) \<Rightarrow> bool" where
  "pmdk_root P V \<longleftrightarrow> (\<forall>n i p x j q. 0 < n \<longrightarrow> idle (V p) \<longrightarrow>
      pmemobj_root P n i p = (x, j, q) \<longrightarrow>
      (case v_root (V p) of
         Some y \<Rightarrow> v_now (V p) y = Some n \<longrightarrow>
           x = OID y \<and> V q = V p \<and> kept (bytes (v_now (V p))) i j
       | None \<Rightarrow> (case x of
           OID_NULL \<Rightarrow> V q = V p \<and> kept (bytes (v_now (V p))) i j
         | OID y \<Rightarrow> fresh_object (V p) y n
             \<and> V q = (rested (V p) ((v_now (V p))(y \<mapsto> n)))\<lparr>v_root := Some y\<rparr>
             \<and> kept (bytes (v_now (V p))) i j \<and> (\<forall>a\<in>span y n. j a = Some VZero))))"

definition pmdk_transactions :: "'p pmdk \<Rightarrow> ('p \<Rightarrow> view) \<Rightarrow> bool" where
  "pmdk_transactions P V \<longleftrightarrow> (\<forall>i p.
      (\<forall>ok j q. tx_enter P i p = (ok, j, q) \<longrightarrow>
         (idle (V p) \<longrightarrow> j = i \<and>
            V q = (if ok then (V p)\<lparr>v_stage := TX_STAGE_WORK, v_depth := 1\<rparr> else V p))
       \<and> (v_stage (V p) = TX_STAGE_WORK \<longrightarrow>
            (if ok then j = i \<and> V q = (V p)\<lparr>v_depth := Suc (v_depth (V p))\<rparr>
             else V q = aborted (V p) \<and> kept (bytes (v_old (V p))) (rollback (V p) i) j)))
    \<and> (\<forall>u j q. tx_leave P i p = (u, j, q) \<longrightarrow> v_stage (V p) = TX_STAGE_WORK \<longrightarrow> 0 < v_depth (V p) \<longrightarrow>
         (if v_depth (V p) = 1 then V q = rested (V p) (v_now (V p)) \<and> kept (bytes (v_now (V p))) i j
          else j = i \<and> V q = (V p)\<lparr>v_depth := v_depth (V p) - 1\<rparr>))
    \<and> (\<forall>u j q. tx_unwind P i p = (u, j, q) \<longrightarrow> v_stage (V p) \<noteq> TX_STAGE_NONE \<longrightarrow> 0 < v_depth (V p) \<longrightarrow>
         kept (bytes (v_old (V p))) (rollback (V p) i) j
       \<and> V q = (if v_depth (V p) = 1 then rested (V p) (v_old (V p))
                else (aborted (V p))\<lparr>v_depth := v_depth (V p) - 1\<rparr>)))"

definition pmdk_pool :: "'p pmdk \<Rightarrow> ('p \<Rightarrow> view) \<Rightarrow> bool" where
  "pmdk_pool P V \<longleftrightarrow> (\<forall>path layout i p.
      (pool_access P path p \<longleftrightarrow> v_file (V p))
    \<and> (\<forall>b j q. v_file (V p) \<longrightarrow> pmemobj_open P path layout i p = (b, j, q) \<longrightarrow>
         (if b = NULL then V q = V p \<and> j = i
          else V q = rested (V p) (v_old (V p))
             \<and> kept (bytes (v_old (V p))) (rollback (V p) i) j))
    \<and> (\<forall>b j q. \<not> v_file (V p) \<longrightarrow>
         pmemobj_create P path layout PMEM_POOL_SIZE i p = (b, j, q) \<longrightarrow>
         (if b = NULL then V q = V p
          else V q = (rested (V p) Map.empty)\<lparr>v_file := True, v_root := None\<rparr>))
    \<and> (\<forall>u j q. idle (V p) \<longrightarrow> pmemobj_close P i p = (u, j, q) \<longrightarrow>
         V q = V p \<and> kept (bytes (v_now (V p))) i j))"

definition pmdk_ok :: "'p pmdk \<Rightarrow> ('p \<Rightarrow> view) \<Rightarrow> bool" where
  "pmdk_ok P V \<longleftrightarrow> pmdk_addressing P \<and> pmdk_stage P V \<and> pmdk_snapshot P V \<and> pmdk_tx_objects P V
     \<and> pmdk_root P V \<and> pmdk_transactions P V \<and> pmdk_pool P V"

section \<open>Facts on objects and images\<close>

lemma bytes_iff: "a \<in> bytes m \<longleftrightarrow> (\<exists>x n. m x = Some n \<and> a \<in> span x n)"
  by (simp add: bytes_def)

lemma bytesI: "m x = Some n \<Longrightarrow> a \<in> span x n \<Longrightarrow> a \<in> bytes m"
  unfolding bytes_iff by blast

lemma bytesE:
  assumes "a \<in> bytes m"
  obtains x n where "m x = Some n" "a \<in> span x n"
  using assms unfolding bytes_iff by blast

lemma start_in_bytes: "M x = Some n \<Longrightarrow> 0 < n \<Longrightarrow> x \<in> bytes M"
  by (rule bytesI, assumption) (simp add: span_def)

lemma bytes_empty [simp]: "bytes Map.empty = {}"
  by (simp add: bytes_def)

lemma bytes_upd: "m x = None \<Longrightarrow> bytes (m(x \<mapsto> n)) = bytes m \<union> span x n"
proof (intro equalityI subsetI)
  fix a assume new: "m x = None" and a: "a \<in> bytes m \<union> span x n"
  show "a \<in> bytes (m(x \<mapsto> n))"
  proof (cases "a \<in> span x n")
    case True
    then show ?thesis by (intro bytesI [of "m(x \<mapsto> n)" x n a]) simp_all
  next
    case False
    then obtain y k where "m y = Some k" "a \<in> span y k" using a by (auto elim: bytesE)
    then show ?thesis using new by (intro bytesI [of "m(x \<mapsto> n)" y k a]) auto
  qed
qed (auto elim!: bytesE intro: bytesI split: if_splits)

lemma bytes_del_subset: "bytes (m(x := None)) \<subseteq> bytes m"
  by (auto elim!: bytesE intro: bytesI split: if_splits)

lemma span_subset_bytes: "m x = Some n \<Longrightarrow> k + l \<le> n \<Longrightarrow> span (x + k) l \<subseteq> bytes m"
  by (rule subsetI, rule bytesI, assumption) (auto simp: span_def)

lemma kept_refl [simp]: "kept S i i"
  by (simp add: kept_def)

lemma kept_trans: "kept S i j \<Longrightarrow> kept S j k \<Longrightarrow> kept S i k"
  by (simp add: kept_def)

lemma kept_mono: "kept S i j \<Longrightarrow> T \<subseteq> S \<Longrightarrow> kept T i j"
  by (auto simp: kept_def)

lemma kept_upd: "x \<notin> S \<Longrightarrow> kept S i (i(x := v))"
  by (auto simp: kept_def)

lemma rollback_no_undo [simp]: "v_undo v = Map.empty \<Longrightarrow> rollback v i = i"
  by (auto simp: rollback_def fun_eq_iff)

lemma rested_simps [simp]:
  "v_now (rested v m) = m" "v_old (rested v m) = m" "v_undo (rested v m) = Map.empty"
  "v_root (rested v m) = v_root v" "v_file (rested v m) = v_file v" "idle (rested v m)"
  "v_stage (rested v m) = TX_STAGE_NONE" "v_depth (rested v m) = 0"
  by (simp_all add: rested_def idle_def)

lemma aborted_simps [simp]:
  "v_now (aborted v) = v_old v" "v_old (aborted v) = v_old v" "v_undo (aborted v) = Map.empty"
  "v_root (aborted v) = v_root v" "v_file (aborted v) = v_file v"
  "v_stage (aborted v) = TX_STAGE_ONABORT" "v_depth (aborted v) = v_depth v"
  by (simp_all add: aborted_def)

lemma objects_ok_disjoint:
  "objects_ok m \<Longrightarrow> m x = Some n \<Longrightarrow> m y = Some k \<Longrightarrow> x \<noteq> y \<Longrightarrow> span x n \<inter> span y k = {}"
  by (simp add: objects_ok_def)

lemma objects_ok_upd:
  assumes ok: "objects_ok m" and new: "0 < x" "0 < n" "x + n \<le> PMEM_POOL_SIZE"
    and apart: "span x n \<inter> bytes m = {}"
  shows "objects_ok (m(x \<mapsto> n))"
proof -
  have away: "span x n \<inter> span y k = {}" if "m y = Some k" for y k
    using apart bytesI [of m y k] that by auto
  show ?thesis
    using ok new away unfolding objects_ok_def by (auto simp: Int_commute split: if_splits)
qed

lemma objects_ok_del: "objects_ok m \<Longrightarrow> objects_ok (m(x := None))"
  by (auto simp: objects_ok_def split: if_splits)

lemma objects_ok_empty [simp]: "objects_ok Map.empty"
  by (simp add: objects_ok_def)

lemma objects_ok_in_pool: "objects_ok m \<Longrightarrow> a \<in> bytes m \<Longrightarrow> 0 < a \<and> a < PMEM_POOL_SIZE"
  by (fastforce simp: objects_ok_def bytes_iff span_def)


section \<open>The laws as rules\<close>

lemma pmdk_ok_parts:
  assumes "pmdk_ok P V"
  shows "pmdk_addressing P" "pmdk_stage P V" "pmdk_snapshot P V" "pmdk_tx_objects P V"
    "pmdk_root P V" "pmdk_transactions P V" "pmdk_pool P V"
  using assms by (simp_all add: pmdk_ok_def)

lemma oid_in_pool:
  assumes "pmdk_ok P V" "b \<noteq> NULL" "0 < x" "x < PMEM_POOL_SIZE"
  shows "pmemobj_oid P b (b + x) = OID x" "pmemobj_pool_by_ptr P b (b + x) = b"
    "pmemobj_direct P b (OID x) = b + x"
  using pmdk_ok_parts(1) [OF assms(1), unfolded pmdk_addressing_def, rule_format, OF assms(2),
      of x "b + x"] assms by simp_all

lemma direct_null: "pmdk_ok P V \<Longrightarrow> b \<noteq> NULL \<Longrightarrow> pmemobj_direct P b OID_NULL = NULL"
  by (simp add: pmdk_ok_def pmdk_addressing_def)

lemma law_add_range:
  assumes "pmdk_ok P V" "b \<noteq> NULL" "pmemobj_oid P b a = OID x" "0 < n"
    "span x n \<subseteq> bytes (v_now (V p))" "pmemobj_tx_add_range_direct P b a n i p = (r, j, q)"
    "v_stage (V p) = TX_STAGE_WORK"
  shows "r = 0 \<Longrightarrow> V q = (V p)\<lparr>v_undo := snapshot (V p) i (span x n)\<rparr>" "r = 0 \<Longrightarrow> j = i"
    "r \<noteq> 0 \<Longrightarrow> V q = aborted (V p)"
    "r \<noteq> 0 \<Longrightarrow> kept (bytes (v_old (V p))) (rollback (V p) i) j"
    "r \<noteq> 0 \<Longrightarrow> span x n \<inter> bytes (v_old (V p)) \<noteq> {}"
  using pmdk_ok_parts(3) [OF assms(1), unfolded pmdk_snapshot_def, rule_format, OF assms(2-6)]
    assms(7) by (auto split: if_splits)

lemma law_tx_alloc:
  assumes "pmdk_ok P V" "v_stage (V p) = TX_STAGE_WORK" "0 < n"
    "pmemobj_tx_alloc P n i p = (x, j, q)"
  shows "x = OID_NULL \<Longrightarrow> V q = aborted (V p)"
    "x = OID_NULL \<Longrightarrow> kept (bytes (v_old (V p))) (rollback (V p) i) j"
    "x = OID y \<Longrightarrow> fresh_object (V p) y n"
    "x = OID y \<Longrightarrow> V q = (V p)\<lparr>v_now := (v_now (V p))(y \<mapsto> n)\<rparr>"
    "x = OID y \<Longrightarrow> kept (bytes (v_old (V p)) \<union> bytes (v_now (V p))) i j"
  using conjunct1 [OF pmdk_ok_parts(4) [OF assms(1), unfolded pmdk_tx_objects_def, rule_format,
        OF assms(2)], rule_format, OF assms(3,4)] by auto

lemma law_tx_free:
  assumes "pmdk_ok P V" "v_stage (V p) = TX_STAGE_WORK" "y \<in> dom (v_now (V p))"
    "pmemobj_tx_free P (OID y) i p = (r, j, q)"
  shows "r = 0 \<Longrightarrow> V q = (V p)\<lparr>v_now := (v_now (V p))(y := None)\<rparr>"
    "r = 0 \<Longrightarrow> kept (bytes (v_old (V p)) \<union> bytes ((v_now (V p))(y := None))) i j"
    "r \<noteq> 0 \<Longrightarrow> V q = aborted (V p)"
    "r \<noteq> 0 \<Longrightarrow> kept (bytes (v_old (V p))) (rollback (V p) i) j"
  using conjunct2 [OF pmdk_ok_parts(4) [OF assms(1), unfolded pmdk_tx_objects_def, rule_format,
        OF assms(2)], rule_format, OF assms(3,4)] by (auto split: if_splits)

end
