(* ===== verification/Pm_Logic.thy ===== *)
theory Pm_Logic
  imports Pm_Laws
begin

text \<open>
  Rules for computations of the persistent machine. A triple has a precondition, a
  postcondition for a normal return, one for an exception, and an assertion on every state on
  the way; it also says that the computation does not fault. A process that is ended by
  \<open>std::terminate\<close> is in one of the states on the way, like one that is killed. Inside a
  transaction the assertion on the way is \<open>intact\<close>: undoing the log gives back the image that the outermost
  transaction began with. The rules for the operations of the library say that they keep it.
\<close>

section \<open>Triples\<close>

definition triple :: "('p mach \<Rightarrow> bool) \<Rightarrow> ('p mach \<Rightarrow> bool) \<Rightarrow> ('p, 'a) pm \<Rightarrow>
    ('a \<Rightarrow> 'p mach \<Rightarrow> bool) \<Rightarrow> ('p mach \<Rightarrow> bool) \<Rightarrow> bool" where
  "triple I A m Q E \<longleftrightarrow> (\<forall>s. A s \<longrightarrow> (case m s of (r, s1, t) \<Rightarrow>
     (\<forall>u\<in>set t. I u) \<and> (case r of Ret a \<Rightarrow> Q a s1 | Throw e \<Rightarrow> E s1 | Terminate \<Rightarrow> True | Fault \<Rightarrow> False)))"

lemma triple_conseq:
  assumes "triple I A m Q E" "\<And>s. B s \<Longrightarrow> A s" "\<And>a s. Q a s \<Longrightarrow> R a s" "\<And>s. E s \<Longrightarrow> F s"
  shows "triple I B m R F"
  using assms unfolding triple_def by (fastforce split: outcome.splits)

lemma triple_pre: "triple I A m Q E \<Longrightarrow> (\<And>s. B s \<Longrightarrow> A s) \<Longrightarrow> triple I B m Q E"
  by (rule triple_conseq)

lemma triple_post: "triple I A m Q E \<Longrightarrow> (\<And>a s. Q a s \<Longrightarrow> R a s) \<Longrightarrow> triple I A m R E"
  by (rule triple_conseq)

lemma triple_way: "triple I A m Q E \<Longrightarrow> (\<And>u. I u \<Longrightarrow> J u) \<Longrightarrow> triple J A m Q E"
  unfolding triple_def by fastforce

lemma triple_pure: "(b \<Longrightarrow> triple I A m Q E) \<Longrightarrow> triple I (\<lambda>s. b \<and> A s) m Q E"
  by (simp add: triple_def)

lemma triple_ex:
  assumes "\<And>x. triple I (A x) m Q E"
  shows "triple I (\<lambda>s. \<exists>x. A x s) m Q E"
  unfolding triple_def
proof (intro allI impI, elim exE)
  fix s x assume "A x s"
  with assms [of x] show "case m s of (r, s1, t) \<Rightarrow>
     (\<forall>u\<in>set t. I u) \<and> (case r of Ret a \<Rightarrow> Q a s1 | Throw e \<Rightarrow> E s1 | Terminate \<Rightarrow> True | Fault \<Rightarrow> False)"
    by (simp add: triple_def)
qed

lemma triple_state: "(\<And>z. A z \<Longrightarrow> triple I (\<lambda>s. s = z) m Q E) \<Longrightarrow> triple I A m Q E"
  by (simp add: triple_def)

lemma triple_ret: "(\<And>s. A s \<Longrightarrow> Q a s) \<Longrightarrow> triple I A (ret a) Q E"
  by (simp add: triple_def ret_def)

lemma triple_raise: "(\<And>s. A s \<Longrightarrow> E s) \<Longrightarrow> triple I A (raise e) Q E"
  by (simp add: triple_def raise_def)

lemma triple_ask: "(\<And>s. A s \<Longrightarrow> Q (f s) s) \<Longrightarrow> triple I A (ask f) Q E"
  by (simp add: triple_def ask_def)

lemma triple_andthen:
  assumes m: "triple I A m R E" and f: "\<And>a. triple I (R a) (f a) Q E"
  shows "triple I A (andthen m f) Q E"
  unfolding triple_def
proof (intro allI impI)
  fix s assume A: "A s"
  obtain r s1 t where run: "m s = (r, s1, t)" by (cases "m s") auto
  with m A have way: "\<forall>u\<in>set t. I u"
    and after: "case r of Ret a \<Rightarrow> R a s1 | Throw e \<Rightarrow> E s1 | Terminate \<Rightarrow> True | Fault \<Rightarrow> False"
    unfolding triple_def by force+
  show "case andthen m f s of (r, s1, t) \<Rightarrow>
     (\<forall>u\<in>set t. I u) \<and> (case r of Ret a \<Rightarrow> Q a s1 | Throw e \<Rightarrow> E s1 | Terminate \<Rightarrow> True | Fault \<Rightarrow> False)"
  proof (cases r)
    case (Ret a)
    with f [of a] after show ?thesis
      unfolding triple_def using way run
      by (fastforce simp: andthen_def split: prod.splits)
  qed (use way after run in \<open>simp_all add: andthen_def\<close>)
qed

lemma triple_seq:
  assumes "triple I A m R E" and "\<And>a. triple I (R a) k Q E"
  shows "triple I A (andthen m (\<lambda>_. k)) Q E"
  by (rule triple_andthen [OF assms])

lemma triple_eq:
  assumes "triple I A m (\<lambda>r s. r = z \<and> R s) E" and "triple I R (f z) Q E"
  shows "triple I A (andthen m f) Q E"
  by (rule triple_andthen [OF assms(1)]) (use assms(2) in \<open>auto intro: triple_pure\<close>)

lemma triple_true:
  assumes "triple I A m (\<lambda>b s. b \<and> R s) E" and "triple I R (f True) Q E"
  shows "triple I A (andthen m f) Q E"
  by (rule triple_andthen [OF assms(1)]) (use assms(2) in \<open>auto intro: triple_pure\<close>)

lemma triple_if:
  "(b \<Longrightarrow> triple I A m Q E) \<Longrightarrow> (\<not> b \<Longrightarrow> triple I A k Q E) \<Longrightarrow> triple I A (if b then m else k) Q E"
  by simp

lemma triple_on_throw:
  assumes m: "triple I A m Q F" and h: "triple I F h (\<lambda>_. E) G"
  shows "triple I A (on_throw m h) Q E"
  unfolding triple_def
proof (intro allI impI)
  fix s assume A: "A s"
  obtain r s1 t where run: "m s = (r, s1, t)" by (cases "m s") auto
  with m A have way: "\<forall>u\<in>set t. I u"
    and after: "case r of Ret a \<Rightarrow> Q a s1 | Throw e \<Rightarrow> F s1 | Terminate \<Rightarrow> True | Fault \<Rightarrow> False"
    unfolding triple_def by force+
  show "case on_throw m h s of (r, s1, t) \<Rightarrow>
     (\<forall>u\<in>set t. I u) \<and> (case r of Ret a \<Rightarrow> Q a s1 | Throw e \<Rightarrow> E s1 | Terminate \<Rightarrow> True | Fault \<Rightarrow> False)"
  proof (cases r)
    case (Throw e)
    obtain r2 s2 t2 where clean: "h s1 = (r2, s2, t2)" by (cases "h s1") auto
    have "\<forall>u\<in>set t2. I u" "case r2 of Ret b \<Rightarrow> E s2 | Throw e' \<Rightarrow> True | Terminate \<Rightarrow> True | Fault \<Rightarrow> False"
      using h after Throw clean unfolding triple_def by (fastforce split: outcome.splits)+
    then show ?thesis using way run clean Throw by (cases r2) (auto simp: on_throw_def)
  qed (use way after run in \<open>simp_all add: on_throw_def\<close>)
qed

lemma triple_no_throw:
  assumes "triple I A m Q F"
  shows "triple I A (no_throw m) Q E"
  unfolding no_throw_def by (rule triple_on_throw [OF assms]) (simp add: triple_def terminated_def)

lemma triple_call:
  assumes "\<And>s r j q. A s \<Longrightarrow> f (img s) (px s) = (r, j, q) \<Longrightarrow>
    I (s\<lparr>img := j, px := q\<rparr>) \<and> Q r (s\<lparr>img := j, px := q\<rparr>)"
  shows "triple I A (pmdk_call f) Q E"
  using assms unfolding triple_def pmdk_call_def by (fastforce simp: Let_def split: prod.splits)

lemma triple_read:
  "(\<And>s. A s \<Longrightarrow> Option.bind (peek P s a) g = Some x \<and> Q x s) \<Longrightarrow> triple I A (pm_read P g a) Q E"
  by (simp add: triple_def pm_read_def)

lemma triple_write:
  "(\<And>s. A s \<Longrightarrow> a \<noteq> NULL \<and> I (poke P a v s) \<and> Q () (poke P a v s)) \<Longrightarrow>
   triple I A (pm_write P a v) Q E"
  by (fastforce simp: triple_def pm_write_def Let_def)

section \<open>States inside a transaction\<close>

record ctx =
  c_pool :: ptr
  c_root :: "nat option"
  c_objs :: "nat \<rightharpoonup> nat"
  c_img :: image

definition intact :: "('p \<Rightarrow> view) \<Rightarrow> ctx \<Rightarrow> 'p mach \<Rightarrow> bool" where
  "intact V C s \<longleftrightarrow> global_pool s = c_pool C \<and> c_pool C \<noteq> NULL \<and> v_file (V (px s))
     \<and> v_root (V (px s)) = c_root C \<and> v_old (V (px s)) = c_objs C \<and> objects_ok (c_objs C)
     \<and> kept (bytes (c_objs C)) (c_img C) (rollback (V (px s)) (img s))"

definition wrk :: "('p \<Rightarrow> view) \<Rightarrow> ctx \<Rightarrow> nat \<Rightarrow> nat set \<Rightarrow> (nat \<rightharpoonup> nat) \<Rightarrow> image \<Rightarrow> image \<Rightarrow>
    'p mach \<Rightarrow> bool" where
  "wrk V C d L M i w s \<longleftrightarrow> intact V C s \<and> v_stage (V (px s)) = TX_STAGE_WORK
     \<and> v_depth (V (px s)) = d \<and> 0 < d \<and> v_now (V (px s)) = M \<and> objects_ok M
     \<and> L \<subseteq> dom (v_undo (V (px s))) \<and> img s = i \<and> vol s = w"

definition stopping :: "('p \<Rightarrow> view) \<Rightarrow> ctx \<Rightarrow> nat \<Rightarrow> 'p mach \<Rightarrow> bool" where
  "stopping V C d s \<longleftrightarrow> intact V C s \<and> v_stage (V (px s)) \<noteq> TX_STAGE_NONE
     \<and> v_depth (V (px s)) = d \<and> 0 < d"

lemma wrk_intact: "wrk V C d L M i w s \<Longrightarrow> intact V C s"
  by (simp add: wrk_def)

lemma wrk_stopping: "wrk V C d L M i w s \<Longrightarrow> stopping V C d s"
  by (simp add: wrk_def stopping_def)

lemma wrk_less_logged: "wrk V C d L M i w s \<Longrightarrow> K \<subseteq> L \<Longrightarrow> wrk V C d K M i w s"
  by (auto simp: wrk_def)

lemma intact_aborted:
  assumes "intact V C s" "V q = aborted (V (px s))"
    "kept (bytes (v_old (V (px s)))) (rollback (V (px s)) (img s)) j"
  shows "intact V C (s\<lparr>img := j, px := q\<rparr>)"
  using assms by (auto simp: intact_def kept_def)

lemma stopping_aborted:
  assumes "wrk V C d L M i w s" "V q = aborted (V (px s))"
    "kept (bytes (v_old (V (px s)))) (rollback (V (px s)) (img s)) j"
  shows "stopping V C d (s\<lparr>img := j, px := q\<rparr>)"
  using assms intact_aborted [of V C s q j] by (simp add: stopping_def wrk_def)

definition cell :: "image \<Rightarrow> nat \<Rightarrow> (pval \<Rightarrow> 'a option) \<Rightarrow> 'a \<Rightarrow> bool" where
  "cell i x g z \<longleftrightarrow> Option.bind (i x) g = Some z"

lemma cell_upd [simp]: "cell (i(x \<mapsto> v)) y g z \<longleftrightarrow> (if y = x then g v = Some z else cell i y g z)"
  by (simp add: cell_def)

lemma cell_kept: "kept S i j \<Longrightarrow> x \<in> S \<Longrightarrow> cell j x g z \<longleftrightarrow> cell i x g z"
  by (simp add: cell_def kept_def)

section \<open>Addresses\<close>

lemma wrk_in_pool:
  assumes "wrk V C d L M i w s" "x \<in> bytes M"
  shows "0 < x" "x < PMEM_POOL_SIZE" "global_pool s = c_pool C" "c_pool C \<noteq> NULL"
  using assms objects_ok_in_pool [of M x] by (auto simp: wrk_def intact_def)

lemma wrk_peek:
  assumes "pmdk_ok P V" "wrk V C d L M i w s" "x \<in> bytes M"
  shows "peek P s (c_pool C + x) = i x"
  using assms wrk_in_pool [OF assms(2,3)] oid_in_pool [OF assms(1)]
  by (simp add: peek_def wrk_def)

lemma wrk_poke:
  assumes ok: "pmdk_ok P V" and s: "wrk V C d L M i w s" and x: "x \<in> bytes M"
    and logged: "x \<in> L \<or> x \<notin> bytes (c_objs C)"
  shows "wrk V C d L M (i(x \<mapsto> v)) w (poke P (c_pool C + x) v s)"
proof -
  have eq: "poke P (c_pool C + x) v s = s\<lparr>img := i(x \<mapsto> v)\<rparr>"
    using wrk_in_pool [OF s x] oid_in_pool [OF ok] s by (simp add: poke_def wrk_def)
  have "x \<in> bytes (c_objs C) \<Longrightarrow> v_undo (V (px s)) x \<noteq> None"
    using s logged by (auto simp: wrk_def)
  then have "rollback (V (px s)) (i(x \<mapsto> v)) a = rollback (V (px s)) i a"
    if "a \<in> bytes (c_objs C)" for a
    using that by (auto simp: rollback_def split: option.splits)
  then show ?thesis using s unfolding eq by (auto simp: wrk_def intact_def kept_def)
qed

section \<open>The library inside a transaction\<close>

lemma triple_read_cell:
  assumes "pmdk_ok P V" "x \<in> bytes M" "cell i x g z"
  shows "triple I (wrk V C d L M i w) (pm_read P g (c_pool C + x))
    (\<lambda>r s. r = z \<and> wrk V C d L M i w s) E"
  by (rule triple_read) (use assms(3) in \<open>simp add: cell_def wrk_peek [OF assms(1) _ assms(2)]\<close>)

lemma triple_write_cell:
  assumes ok: "pmdk_ok P V" and x: "x \<in> bytes M" and logged: "x \<in> L \<or> x \<notin> bytes (c_objs C)"
  shows "triple (intact V C) (wrk V C d L M i w) (pm_write P (c_pool C + x) v)
    (\<lambda>_. wrk V C d L M (i(x \<mapsto> v)) w) E"
proof (rule triple_write)
  fix s assume s: "wrk V C d L M i w s"
  have "wrk V C d L M (i(x \<mapsto> v)) w (poke P (c_pool C + x) v s)"
    by (rule wrk_poke [OF ok s x logged])
  then show "c_pool C + x \<noteq> NULL \<and> intact V C (poke P (c_pool C + x) v s)
      \<and> wrk V C d L M (i(x \<mapsto> v)) w (poke P (c_pool C + x) v s)"
    using wrk_in_pool [OF s x] wrk_intact by auto
qed

lemma triple_pool: "triple I (wrk V C d L M i w) pmem_pool (\<lambda>_. wrk V C d L M i w) E"
  by (auto simp: triple_def pmem_pool_def ret_def wrk_def intact_def)

lemma triple_in_work:
  assumes "pmdk_ok P V"
  shows "triple I (wrk V C d L M i w) (in_work P) (\<lambda>b s. b \<and> wrk V C d L M i w s) E"
  unfolding in_work_def
  by (rule triple_ask) (use assms in \<open>simp add: pmdk_ok_def pmdk_stage_def wrk_def\<close>)

lemma triple_direct:
  assumes "pmdk_ok P V"
  shows "triple I (wrk V C d L M i w) (direct P (OID x))
    (\<lambda>r s. r = c_pool C + x \<and> wrk V C d L M i w s) E"
  unfolding direct_def
  by (rule triple_ask)
    (use assms in \<open>auto simp: pmdk_ok_def pmdk_addressing_def wrk_def intact_def\<close>)

lemma triple_ask_oid:
  assumes "pmdk_ok P V" "x \<in> bytes M"
  shows "triple I (wrk V C d L M i w) (ask (\<lambda>s. pmemobj_oid P (global_pool s) (c_pool C + x)))
    (\<lambda>r s. r = OID x \<and> wrk V C d L M i w s) E"
  by (rule triple_ask)
    (simp add: wrk_in_pool [OF _ assms(2)] oid_in_pool [OF assms(1)])

lemma triple_contains:
  assumes "pmdk_ok P V" "x \<in> bytes M"
  shows "triple I (wrk V C d L M i w) (pmem_contains P (c_pool C + x))
    (\<lambda>b s. b \<and> wrk V C d L M i w s) E"
  unfolding pmem_contains_def
  by (rule triple_ask)
    (simp add: wrk_in_pool [OF _ assms(2)] oid_in_pool [OF assms(1)])

lemma triple_add_range:
  assumes ok: "pmdk_ok P V" and n: "0 < n" and inside: "span x n \<subseteq> bytes M"
  shows "triple (intact V C) (wrk V C d L M i w) (add_range P (c_pool C + x) n)
    (\<lambda>rc s. (rc = 0 \<and> wrk V C d (L \<union> span x n) M i w s)
      \<or> (rc \<noteq> 0 \<and> span x n \<inter> bytes (c_objs C) \<noteq> {} \<and> stopping V C d s)) E"
proof (rule triple_state)
  fix z assume z: "wrk V C d L M i w z"
  have x: "x \<in> bytes M" using inside n by (auto simp: span_def)
  note pool = wrk_in_pool [OF z x]
  have new: "wrk V C d (L \<union> span x n) M i w (z\<lparr>img := i, px := q\<rparr>)"
    if "V q = (V (px z))\<lparr>v_undo := snapshot (V (px z)) i (span x n)\<rparr>" for q
  proof -
    have "rollback (V q) i a = rollback (V (px z)) i a" for a
      unfolding that by (simp add: rollback_def snapshot_def split: option.splits)
    moreover have "L \<union> span x n \<subseteq> dom (v_undo (V q))"
      using z unfolding that by (auto simp: snapshot_def wrk_def split: option.splits)
    ultimately show ?thesis using z by (auto simp: wrk_def intact_def kept_def that)
  qed
  show "triple (intact V C) (\<lambda>s. s = z) (add_range P (c_pool C + x) n)
    (\<lambda>rc s. (rc = 0 \<and> wrk V C d (L \<union> span x n) M i w s)
      \<or> (rc \<noteq> 0 \<and> span x n \<inter> bytes (c_objs C) \<noteq> {} \<and> stopping V C d s)) E"
  proof (cases "pmemobj_tx_add_range_direct P (c_pool C) (c_pool C + x) n i (px z)")
    case (fields r j q)
    note l = law_add_range [OF ok pool(4) oid_in_pool(1) [OF ok pool(4,1,2)] n _ fields]
    have stage: "v_stage (V (px z)) = TX_STAGE_WORK" "v_now (V (px z)) = M"
        "v_old (V (px z)) = c_objs C" "img z = i"
      using z by (simp_all add: wrk_def intact_def)
    have "r = 0 \<Longrightarrow> wrk V C d (L \<union> span x n) M i w (z\<lparr>img := j, px := q\<rparr>)"
      using l(1,2) new inside stage by simp
    moreover have "stopping V C d (z\<lparr>img := j, px := q\<rparr>)" if "r \<noteq> 0"
      using l(3,4) that stopping_aborted [OF z, of q j] inside stage by simp
    moreover have "r \<noteq> 0 \<Longrightarrow> span x n \<inter> bytes (c_objs C) \<noteq> {}"
      using l(5) inside stage by simp
    ultimately show ?thesis
      using fields pool z wrk_intact [of V C d "L \<union> span x n" M i w]
      by (cases "r = 0")
        (auto simp: triple_def add_range_def pmdk_call_def Let_def stopping_def wrk_def)
  qed
qed

end
