(* ===== verification/Pm_Rules.thy ===== *)
theory Pm_Rules
  imports Pm_Logic
begin

text \<open>
  Rules for the operations of the library inside a transaction (stores, pointer assignments,
  allocation, release, \<open>new\<close>), for nested transactions, and for the outermost transaction,
  where the log meets recovery: whenever the process is killed in a transaction whose steps
  are intact, and however much of the memory that the log covers reached the medium, opening
  the pool again gives the objects and contents that the transaction began with.
\<close>

section \<open>Logged stores\<close>

lemma triple_logged:
  assumes ok: "pmdk_ok P V" and n: "0 < n" and inside: "span x n \<subseteq> bytes M"
    and stop: "\<And>s. span x n \<inter> bytes (c_objs C) \<noteq> {} \<Longrightarrow> stopping V C d s \<Longrightarrow> E s"
    and k: "triple (intact V C) (wrk V C d (L \<union> span x n) M i w) k Q E"
  shows "triple (intact V C) (wrk V C d L M i w)
    (andthen (add_range P (c_pool C + x) n) (\<lambda>rc. if rc \<noteq> 0 then raise e else k)) Q E"
proof (rule triple_andthen [OF triple_add_range [OF ok n inside]])
  fix rc
  show "triple (intact V C)
     (\<lambda>s. rc = 0 \<and> wrk V C d (L \<union> span x n) M i w s \<or>
          rc \<noteq> 0 \<and> span x n \<inter> bytes (c_objs C) \<noteq> {} \<and> stopping V C d s)
     (if rc \<noteq> 0 then raise e else k) Q E"
    by (cases "rc = 0") (use k stop in \<open>auto intro: triple_raise\<close>)
qed

lemma triple_store:
  assumes ok: "pmdk_ok P V" and inside: "span x sizeof_int \<subseteq> bytes M"
    and stop: "\<And>s. span x sizeof_int \<inter> bytes (c_objs C) \<noteq> {} \<Longrightarrow> stopping V C d s \<Longrightarrow> E s"
  shows "triple (intact V C) (wrk V C d L M i w) (persistent_store P (c_pool C + x) v)
    (\<lambda>_. wrk V C d L M (i(x \<mapsto> VInt v)) w) E"
  unfolding persistent_store_def
proof (rule triple_logged [OF ok _ inside stop])
  have x: "x \<in> span x sizeof_int" by (simp add: span_def sizeof_int_def)
  show "triple (intact V C) (wrk V C d (L \<union> span x sizeof_int) M i w)
     (pm_write P (c_pool C + x) (VInt v)) (\<lambda>_. wrk V C d L M (i(x \<mapsto> VInt v)) w) E"
    by (rule triple_post [OF triple_write_cell [OF ok]])
      (use x inside wrk_less_logged in blast)+
qed (simp_all add: sizeof_int_def)

lemma triple_load:
  assumes "pmdk_ok P V" "x \<in> bytes M" "cell i x get_int v"
  shows "triple I (wrk V C d L M i w) (persistent_load P (c_pool C + x))
    (\<lambda>r s. r = v \<and> wrk V C d L M i w s) E"
  unfolding persistent_load_def by (rule triple_read_cell [OF assms])

lemma triple_oid_of:
  assumes "pmdk_ok P V" "x \<in> bytes M" "cell i x get_oid y"
  shows "triple I (wrk V C d L M i w) (oid_of P (c_pool C + x))
    (\<lambda>r s. r = y \<and> wrk V C d L M i w s) E"
  unfolding oid_of_def by (rule triple_read_cell [OF assms])

lemma triple_ptr_snapshot:
  assumes ok: "pmdk_ok P V" and inside: "span x sizeof_PMEMoid \<subseteq> bytes M"
    and stop: "\<And>s. span x sizeof_PMEMoid \<inter> bytes (c_objs C) \<noteq> {} \<Longrightarrow> stopping V C d s \<Longrightarrow> E s"
  shows "triple (intact V C) (wrk V C d L M i w) (ptr_snapshot_if_pmem P (c_pool C + x))
    (\<lambda>_. wrk V C d (L \<union> span x sizeof_PMEMoid) M i w) E"
  unfolding ptr_snapshot_if_pmem_def
proof (rule triple_true [OF triple_contains [OF ok]], goal_cases)
  case 1
  show "x \<in> bytes M" using inside by (auto simp: span_def sizeof_PMEMoid_def)
next
  case 2
  show ?case
    by (subst if_True, rule triple_logged [OF ok _ inside stop])
      (auto intro: triple_ret simp: sizeof_PMEMoid_def)
qed

lemma triple_ptr_write:
  assumes ok: "pmdk_ok P V" and inside: "span x sizeof_PMEMoid \<subseteq> bytes M"
  shows "triple (intact V C) (wrk V C d (L \<union> span x sizeof_PMEMoid) M i w)
     (pm_write P (c_pool C + x) (VOid y)) (\<lambda>_. wrk V C d L M (i(x \<mapsto> VOid y)) w) E"
proof -
  have "x \<in> span x sizeof_PMEMoid" by (simp add: span_def sizeof_PMEMoid_def)
  then show ?thesis
    by (intro triple_post [OF triple_write_cell [OF ok]])
      (use inside wrk_less_logged in blast)+
qed

lemma triple_assign_raw:
  assumes ok: "pmdk_ok P V" and inside: "span x sizeof_PMEMoid \<subseteq> bytes M" and y: "y \<in> bytes M"
    and stop: "\<And>s. span x sizeof_PMEMoid \<inter> bytes (c_objs C) \<noteq> {} \<Longrightarrow> stopping V C d s \<Longrightarrow> E s"
  shows "triple (intact V C) (wrk V C d L M i w)
    (pmem_ptr_assign_raw P (c_pool C + x) (c_pool C + y))
    (\<lambda>_. wrk V C d L M (i(x \<mapsto> VOid (OID y))) w) E"
  unfolding pmem_ptr_assign_raw_def
  by (rule triple_seq [OF triple_ptr_snapshot [OF ok inside stop]], assumption+,
      rule triple_eq [OF triple_ask_oid [OF ok y]],
      rule triple_ptr_write [OF ok inside])

lemma triple_assign_null:
  assumes ok: "pmdk_ok P V" and inside: "span x sizeof_PMEMoid \<subseteq> bytes M"
    and stop: "\<And>s. span x sizeof_PMEMoid \<inter> bytes (c_objs C) \<noteq> {} \<Longrightarrow> stopping V C d s \<Longrightarrow> E s"
  shows "triple (intact V C) (wrk V C d L M i w) (pmem_ptr_assign_null P (c_pool C + x))
    (\<lambda>_. wrk V C d L M (i(x \<mapsto> VOid OID_NULL)) w) E"
  unfolding pmem_ptr_assign_null_def
  by (rule triple_seq [OF triple_ptr_snapshot [OF ok inside stop]], assumption+,
      rule triple_ptr_write [OF ok inside])

lemma triple_assign:
  assumes ok: "pmdk_ok P V" and inside: "span x sizeof_PMEMoid \<subseteq> bytes M"
    and y: "y \<in> bytes M" "cell i y get_oid z"
    and stop: "\<And>s. span x sizeof_PMEMoid \<inter> bytes (c_objs C) \<noteq> {} \<Longrightarrow> stopping V C d s \<Longrightarrow> E s"
  shows "triple (intact V C) (wrk V C d L M i w)
    (pmem_ptr_assign P (c_pool C + x) (c_pool C + y)) (\<lambda>_. wrk V C d L M (i(x \<mapsto> VOid z)) w) E"
  unfolding pmem_ptr_assign_def
  by (rule triple_seq [OF triple_ptr_snapshot [OF ok inside stop]], assumption+,
      rule triple_eq [OF triple_oid_of [OF ok y]],
      rule triple_ptr_write [OF ok inside])

section \<open>Objects\<close>

definition new_at :: "ctx \<Rightarrow> (nat \<rightharpoonup> nat) \<Rightarrow> nat \<Rightarrow> nat \<Rightarrow> bool" where
  "new_at C M x n \<longleftrightarrow> 0 < x \<and> 0 < n \<and> x + n \<le> PMEM_POOL_SIZE \<and> M x = None
     \<and> span x n \<inter> bytes M = {} \<and> span x n \<inter> bytes (c_objs C) = {}"

lemma new_at_out:
  assumes "new_at C M x n" "k < n"
  shows "x + k \<notin> bytes M" "x + k \<notin> bytes (c_objs C)"
proof -
  have "x + k \<in> span x n" using assms(2) by (simp add: span_def)
  then show "x + k \<notin> bytes M" "x + k \<notin> bytes (c_objs C)"
    using assms(1) by (auto simp: new_at_def)
qed

lemma new_at_apart:
  assumes "new_at C M x n" "k + l \<le> n"
  shows "span (x + k) l \<inter> bytes (c_objs C) = {}"
proof -
  have "span (x + k) l \<subseteq> span x n" using assms(2) by (auto simp: span_def)
  then show ?thesis using assms(1) by (auto simp: new_at_def)
qed

lemma objects_ok_bytes: "objects_ok m \<Longrightarrow> m x = Some n \<Longrightarrow> x \<in> bytes m"
  by (rule bytesI, assumption) (auto simp: objects_ok_def span_def)

lemma fresh_new_at:
  assumes "intact V C s" "objects_ok (v_now (V (px s)))" "fresh_object (V (px s)) x n" "0 < n"
  shows "new_at C (v_now (V (px s))) x n"
proof -
  have "x \<in> span x n" using assms(4) by (simp add: span_def)
  then have "x \<notin> bytes (v_now (V (px s)))" using assms(3) by (auto simp: fresh_object_def)
  then have "v_now (V (px s)) x = None"
    using objects_ok_bytes [OF assms(2), of x] by (cases "v_now (V (px s)) x") auto
  then show ?thesis using assms by (auto simp: new_at_def fresh_object_def intact_def)
qed

lemma wrk_alloc:
  assumes s: "wrk V C d L M i w s" and x: "new_at C M x n"
    and q: "V q = (V (px s))\<lparr>v_now := M(x \<mapsto> n)\<rparr>" and j: "kept (bytes (c_objs C) \<union> bytes M) i j"
  shows "wrk V C d L (M(x \<mapsto> n)) j w (s\<lparr>img := j, px := q\<rparr>)"
proof -
  have "rollback (V q) j a = rollback (V (px s)) i a" if "a \<in> bytes (c_objs C)" for a
    using that j unfolding q by (auto simp: rollback_def kept_def split: option.splits)
  moreover have "objects_ok (M(x \<mapsto> n))"
    using s x by (auto simp: wrk_def new_at_def intro!: objects_ok_upd)
  ultimately show ?thesis using s by (auto simp: wrk_def intact_def kept_def q)
qed

lemma triple_tx_alloc:
  assumes ok: "pmdk_ok P V" and n: "0 < n"
  shows "triple (intact V C) (wrk V C d L M i w) (pmdk_call (pmemobj_tx_alloc P n))
    (\<lambda>r s. (r = OID_NULL \<and> stopping V C d s) \<or> (\<exists>x j. (r = OID x \<and> new_at C M x n
      \<and> kept (bytes (c_objs C) \<union> bytes M) i j) \<and> wrk V C d L (M(x \<mapsto> n)) j w s)) E"
proof (rule triple_call)
  fix s r j q
  assume s: "wrk V C d L M i w s" and run: "pmemobj_tx_alloc P n (img s) (px s) = (r, j, q)"
  have facts: "intact V C s" "v_now (V (px s)) = M" "v_old (V (px s)) = c_objs C" "img s = i"
      "v_stage (V (px s)) = TX_STAGE_WORK" "objects_ok M"
    using s by (auto simp: wrk_def intact_def)
  note law = law_tx_alloc [OF ok facts(5) n run]
  let ?s = "s\<lparr>img := j, px := q\<rparr>"
  show "intact V C ?s \<and> (r = OID_NULL \<and> stopping V C d ?s \<or> (\<exists>x j. (r = OID x \<and> new_at C M x n
      \<and> kept (bytes (c_objs C) \<union> bytes M) i j) \<and> wrk V C d L (M(x \<mapsto> n)) j w ?s))"
  proof (cases r)
    case OID_NULL
    have "stopping V C d ?s" by (rule stopping_aborted [OF s law(1,2)]) (simp_all add: OID_NULL)
    then show ?thesis using OID_NULL by (simp add: stopping_def)
  next
    case (OID x)
    have "new_at C M x n" using fresh_new_at [OF facts(1) _ law(3) [OF OID] n] facts by simp
    moreover have "kept (bytes (c_objs C) \<union> bytes M) i j" using law(5) [OF OID] facts by simp
    moreover from calculation have "wrk V C d L (M(x \<mapsto> n)) j w ?s"
      by (intro wrk_alloc [OF s]) (use law(4) [OF OID] facts in simp_all)
    ultimately show ?thesis using OID wrk_intact by blast
  qed
qed

lemma triple_alloc:
  assumes ok: "pmdk_ok P V" and n: "0 < n"
  shows "triple (intact V C) (wrk V C d L M i w) (pmem_alloc P n al)
    (\<lambda>r s. \<exists>x j. (r = c_pool C + x \<and> new_at C M x n \<and> kept (bytes (c_objs C) \<union> bytes M) i j)
      \<and> wrk V C d L (M(x \<mapsto> n)) j w s) (stopping V C d)"
  unfolding pmem_alloc_def
proof (rule triple_seq [OF triple_pool], rule triple_true [OF triple_in_work [OF ok]],
    subst if_True, rule triple_andthen [OF triple_tx_alloc [OF ok n]])
  fix r
  show "triple (intact V C) (\<lambda>s. r = OID_NULL \<and> stopping V C d s \<or> (\<exists>x j. (r = OID x \<and> new_at C M x n
      \<and> kept (bytes (c_objs C) \<union> bytes M) i j) \<and> wrk V C d L (M(x \<mapsto> n)) j w s))
    (if r = OID_NULL then raise ''Failed to allocate memory from PMEM pool (transactional)''
      else direct P r)
    (\<lambda>r s. \<exists>x j. (r = c_pool C + x \<and> new_at C M x n \<and> kept (bytes (c_objs C) \<union> bytes M) i j)
      \<and> wrk V C d L (M(x \<mapsto> n)) j w s) (stopping V C d)"
  proof (cases r)
    case OID_NULL
    then show ?thesis by (auto intro: triple_raise)
  next
    case (OID x)
    show ?thesis
      unfolding OID
      by (simp, intro triple_ex triple_pure triple_post [OF triple_direct [OF ok]]) auto
  qed
qed

lemma triple_tx_free:
  assumes ok: "pmdk_ok P V" and x: "M x = Some n"
  shows "triple (intact V C) (wrk V C d L M i w) (pmdk_call (pmemobj_tx_free P (OID x)))
    (\<lambda>rc s. (rc \<noteq> 0 \<and> stopping V C d s) \<or> (rc = 0 \<and> (\<exists>j.
      kept (bytes (c_objs C) \<union> bytes (M(x := None))) i j \<and> wrk V C d L (M(x := None)) j w s))) E"
proof (rule triple_call)
  fix s r j q
  assume s: "wrk V C d L M i w s" and run: "pmemobj_tx_free P (OID x) (img s) (px s) = (r, j, q)"
  have facts: "intact V C s" "v_now (V (px s)) = M" "v_old (V (px s)) = c_objs C" "img s = i"
      "v_stage (V (px s)) = TX_STAGE_WORK" "objects_ok M"
    using s by (auto simp: wrk_def intact_def)
  note law = law_tx_free [OF ok facts(5) _ run]
  let ?s = "s\<lparr>img := j, px := q\<rparr>"
  have "stopping V C d ?s" if "r \<noteq> 0"
    by (rule stopping_aborted [OF s law(3,4)]) (use that x facts in auto)
  moreover have "kept (bytes (c_objs C) \<union> bytes (M(x := None))) i j
      \<and> wrk V C d L (M(x := None)) j w ?s" if "r = 0"
  proof -
    have q: "V q = (V (px s))\<lparr>v_now := M(x := None)\<rparr>"
      and j: "kept (bytes (c_objs C) \<union> bytes (M(x := None))) i j"
      using law(1,2) that x facts by auto
    have "rollback (V q) j a = rollback (V (px s)) i a" if "a \<in> bytes (c_objs C)" for a
      using that j unfolding q by (auto simp: rollback_def kept_def split: option.splits)
    then show ?thesis
      using s j objects_ok_del [OF facts(6)] by (auto simp: wrk_def intact_def kept_def q)
  qed
  ultimately show "intact V C ?s \<and> (r \<noteq> 0 \<and> stopping V C d ?s \<or> r = 0 \<and> (\<exists>j.
      kept (bytes (c_objs C) \<union> bytes (M(x := None))) i j \<and> wrk V C d L (M(x := None)) j w ?s))"
    using wrk_intact by (cases "r = 0") (auto simp: stopping_def)
qed

lemma triple_free:
  assumes ok: "pmdk_ok P V" and M: "objects_ok M" and x: "M x = Some n"
  shows "triple (intact V C) (wrk V C d L M i w) (pmem_free P (c_pool C + x))
    (\<lambda>_ s. \<exists>j. kept (bytes (c_objs C) \<union> bytes (M(x := None))) i j
      \<and> wrk V C d L (M(x := None)) j w s) (stopping V C d)"
  unfolding pmem_free_def
proof (rule triple_seq [OF triple_pool], rule triple_eq [OF triple_ask_oid [OF ok]],
    rule objects_ok_bytes [OF M, of x n], rule x,
    rule triple_true [OF triple_in_work [OF ok]], subst if_True,
    rule triple_andthen [OF triple_tx_free [OF ok, of M x n]], rule x)
  fix r :: int
  show "triple (intact V C) (\<lambda>s. r \<noteq> 0 \<and> stopping V C d s \<or> r = 0 \<and> (\<exists>j.
      kept (bytes (c_objs C) \<union> bytes (M(x := None))) i j \<and> wrk V C d L (M(x := None)) j w s))
    (if r \<noteq> 0 then raise ''Failed to free memory from PMEM pool within transaction'' else ret ())
    (\<lambda>_ s. \<exists>j. kept (bytes (c_objs C) \<union> bytes (M(x := None))) i j
      \<and> wrk V C d L (M(x := None)) j w s) (stopping V C d)"
    by (cases "r = 0") (auto intro: triple_raise triple_ret)
qed

lemma triple_new:
  assumes ok: "pmdk_ok P V" and n: "0 < n"
    and ctor: "\<And>x j. new_at C M x n \<Longrightarrow> kept (bytes (c_objs C) \<union> bytes M) i j \<Longrightarrow>
      triple (intact V C) (wrk V C d L (M(x \<mapsto> n)) j w) (ctor (c_pool C + x))
        (\<lambda>_. wrk V C d L (M(x \<mapsto> n)) (g x j) w) (\<lambda>_. False)"
  shows "triple (intact V C) (wrk V C d L M i w) (new_object P n al ctor)
    (\<lambda>r s. \<exists>x j. (r = c_pool C + x \<and> new_at C M x n \<and> kept (bytes (c_objs C) \<union> bytes M) i j)
      \<and> wrk V C d L (M(x \<mapsto> n)) (g x j) w s) (stopping V C d)"
  unfolding new_object_def
proof (rule triple_andthen [OF triple_alloc [OF ok n]], intro triple_ex triple_pure, elim conjE)
  fix p x j
  assume p: "p = c_pool C + x" and x: "new_at C M x n" "kept (bytes (c_objs C) \<union> bytes M) i j"
  show "triple (intact V C) (wrk V C d L (M(x \<mapsto> n)) j w)
     (andthen (on_throw (ctor p) (operator_delete P p)) (\<lambda>_. ret p))
     (\<lambda>r s. \<exists>x j. (r = c_pool C + x \<and> new_at C M x n \<and> kept (bytes (c_objs C) \<union> bytes M) i j)
      \<and> wrk V C d L (M(x \<mapsto> n)) (g x j) w s) (stopping V C d)"
    unfolding p
    by (rule triple_seq [OF triple_on_throw [OF ctor [OF x]]])
      (use x in \<open>auto simp: triple_def ret_def\<close>)
qed

end
