(* ===== verification/Pm_Recovery.thy ===== *)
theory Pm_Recovery
  imports Pm_Rules
begin

text \<open>
  Transactions and recovery. A process may be killed in any state that its computation goes
  through; memory that the running transaction logged or allocated may then hold anything. The
  next process opens the pool. \<open>recovers P V f u\<close> says that this gives objects and contents
  with the property \<open>f\<close>, whatever the torn memory holds.
\<close>

section \<open>States outside transactions, crashes\<close>

definition rest :: "('p \<Rightarrow> view) \<Rightarrow> ptr \<Rightarrow> nat option \<Rightarrow> (nat \<rightharpoonup> nat) \<Rightarrow> image \<Rightarrow> image \<Rightarrow>
    'p mach \<Rightarrow> bool" where
  "rest V b rt M i w s \<longleftrightarrow> global_pool s = b \<and> b \<noteq> NULL \<and> v_file (V (px s)) \<and> idle (V (px s))
     \<and> v_root (V (px s)) = rt \<and> v_now (V (px s)) = M \<and> objects_ok M \<and> img s = i \<and> vol s = w"

definition torn :: "('p \<Rightarrow> view) \<Rightarrow> 'p mach \<Rightarrow> image \<Rightarrow> bool" where
  "torn V u j \<longleftrightarrow> kept (bytes (v_old (V (px u))) - dom (v_undo (V (px u)))) (img u) j"

definition recovers :: "'p pmdk \<Rightarrow> ('p \<Rightarrow> view) \<Rightarrow>
    (nat option \<Rightarrow> (nat \<rightharpoonup> nat) \<Rightarrow> image \<Rightarrow> bool) \<Rightarrow> 'p mach \<Rightarrow> bool" where
  "recovers P V f u \<longleftrightarrow> (if v_file (V (px u)) then
     (\<forall>path layout j b i q. torn V u j \<longrightarrow> pmemobj_open P path layout j (px u) = (b, i, q) \<longrightarrow>
        b \<noteq> NULL \<longrightarrow> v_file (V q) \<and> idle (V q) \<and> objects_ok (v_now (V q))
          \<and> f (v_root (V q)) (v_now (V q)) i)
     else f None Map.empty Map.empty)"

definition on_objects :: "(nat option \<Rightarrow> (nat \<rightharpoonup> nat) \<Rightarrow> image \<Rightarrow> bool) \<Rightarrow> bool" where
  "on_objects f \<longleftrightarrow> (\<forall>rt M i j. objects_ok M \<longrightarrow> kept (bytes M) i j \<longrightarrow> f rt M i \<longrightarrow> f rt M j)"

lemma on_objectsD:
  "on_objects f \<Longrightarrow> objects_ok M \<Longrightarrow> kept (bytes M) i j \<Longrightarrow> f rt M i \<Longrightarrow> f rt M j"
  by (auto simp: on_objects_def)

lemma on_objects_or: "on_objects f \<Longrightarrow> on_objects g \<Longrightarrow> on_objects (\<lambda>rt M i. f rt M i \<or> g rt M i)"
  by (auto simp: on_objects_def)

lemma law_open:
  assumes "pmdk_ok P V" "v_file (V p)" "pmemobj_open P path layout i p = (b, j, q)"
  shows "b \<noteq> NULL \<Longrightarrow> V q = rested (V p) (v_old (V p))"
    "b \<noteq> NULL \<Longrightarrow> kept (bytes (v_old (V p))) (rollback (V p) i) j"
    "b = NULL \<Longrightarrow> V q = V p" "b = NULL \<Longrightarrow> j = i"
  using pmdk_ok_parts(7) [OF assms(1), unfolded pmdk_pool_def, THEN spec [of _ path],
      THEN spec [of _ layout], THEN spec [of _ i], THEN spec [of _ p], THEN conjunct2, THEN conjunct1, rule_format, OF assms(2,3)]
  by (simp_all split: if_splits)

lemma torn_rollback:
  assumes "torn V u j" "a \<in> bytes (v_old (V (px u)))"
  shows "rollback (V (px u)) j a = rollback (V (px u)) (img u) a"
  using assms by (auto simp: torn_def kept_def rollback_def split: option.splits)

text \<open>
  \<open>durable V f u\<close> is the same in terms of the view: undoing the log gives the property. It is
  what the rules carry from state to state.
\<close>

definition durable :: "('p \<Rightarrow> view) \<Rightarrow> (nat option \<Rightarrow> (nat \<rightharpoonup> nat) \<Rightarrow> image \<Rightarrow> bool) \<Rightarrow>
    'p mach \<Rightarrow> bool" where
  "durable V f u \<longleftrightarrow> (if v_file (V (px u))
     then objects_ok (v_old (V (px u)))
       \<and> f (v_root (V (px u))) (v_old (V (px u))) (rollback (V (px u)) (img u))
     else f None Map.empty Map.empty)"

lemma durable_mono: "durable V f u \<Longrightarrow> (\<And>rt M i. f rt M i \<Longrightarrow> g rt M i) \<Longrightarrow> durable V g u"
  by (auto simp: durable_def split: if_splits)

lemma durable_idle:
  assumes "v_file (V (px u))" "idle (V (px u))" "objects_ok (v_now (V (px u)))"
    "f (v_root (V (px u))) (v_now (V (px u))) (img u)"
  shows "durable V f u"
  using assms by (simp add: durable_def idle_def)

lemma durable_torn:
  assumes "durable V f u" "on_objects f" "torn V u j" "v_file (V (px u))"
  shows "objects_ok (v_old (V (px u)))
    \<and> f (v_root (V (px u))) (v_old (V (px u))) (rollback (V (px u)) j)"
proof -
  have "kept (bytes (v_old (V (px u)))) (rollback (V (px u)) (img u)) (rollback (V (px u)) j)"
    using torn_rollback [OF assms(3)] by (simp add: kept_def)
  then show ?thesis
    using assms(1,4) on_objectsD [OF assms(2)] by (auto simp: durable_def)
qed

lemma durable_recovers:
  assumes ok: "pmdk_ok P V" and u: "durable V f u" and f: "on_objects f"
  shows "recovers P V f u"
proof (cases "v_file (V (px u))")
  case True
  have "v_file (V q) \<and> idle (V q) \<and> objects_ok (v_now (V q)) \<and> f (v_root (V q)) (v_now (V q)) i"
    if j: "torn V u j" and run: "pmemobj_open P path layout j (px u) = (b, i, q)" "b \<noteq> NULL"
    for path layout j b i q
    using law_open(1,2) [OF ok True run(1) run(2)] durable_torn [OF u f j True] True
      on_objectsD [OF f] by auto
  then show ?thesis using True unfolding recovers_def by simp
qed (use u in \<open>simp add: recovers_def durable_def\<close>)

text \<open>A process that is killed, and the state in which the next one starts.\<close>

definition killed :: "'p mach \<Rightarrow> image \<Rightarrow> image \<Rightarrow> 'p mach" where
  "killed u j w = u\<lparr>img := j, vol := w, global_pool := NULL\<rparr>"

lemma durable_killed:
  assumes "durable V f u" "on_objects f" "torn V u j"
  shows "durable V f (killed u j w)"
  using durable_torn [OF assms] assms(1) by (auto simp: durable_def killed_def)

lemma intact_durable:
  assumes u: "intact V C u" and f: "on_objects f" and start: "f (c_root C) (c_objs C) (c_img C)"
  shows "durable V f u"
  using u on_objectsD [OF f _ _ start] by (auto simp: intact_def durable_def)

definition ctx_of :: "ptr \<Rightarrow> nat option \<Rightarrow> (nat \<rightharpoonup> nat) \<Rightarrow> image \<Rightarrow> ctx" where
  "ctx_of b rt M i = \<lparr>c_pool = b, c_root = rt, c_objs = M, c_img = i\<rparr>"

lemma ctx_of_simps [simp]:
  "c_pool (ctx_of b rt M i) = b" "c_root (ctx_of b rt M i) = rt"
  "c_objs (ctx_of b rt M i) = M" "c_img (ctx_of b rt M i) = i"
  by (simp_all add: ctx_of_def)

lemma rest_intact: "rest V b rt M i w s \<Longrightarrow> intact V (ctx_of b rt M i) s"
  by (auto simp: rest_def intact_def idle_def)

lemma rest_durable: "rest V b rt M i w s \<Longrightarrow> f rt M i \<Longrightarrow> durable V f s"
  by (rule durable_idle) (auto simp: rest_def)

lemma rest_kept_durable:
  assumes f: "on_objects f" "f rt M i" and s: "\<exists>k v. kept (bytes M) i k \<and> rest V b rt M k v s"
  shows "durable V f s"
proof -
  obtain k v where k: "kept (bytes M) i k" "rest V b rt M k v s" using s by blast
  have "f rt M k" by (rule on_objectsD [OF f(1) _ k(1) f(2)]) (use k(2) in \<open>simp add: rest_def\<close>)
  then show ?thesis by (rule rest_durable [OF k(2)])
qed

lemma triple_wrk_objects:
  "(objects_ok M \<Longrightarrow> triple I (wrk V C d L M i w) m Q E) \<Longrightarrow> triple I (wrk V C d L M i w) m Q E"
  by (auto simp: triple_def wrk_def)

lemma triple_rest_objects:
  "(objects_ok M \<Longrightarrow> triple I (rest V b rt M i w) m Q E) \<Longrightarrow> triple I (rest V b rt M i w) m Q E"
  by (auto simp: triple_def rest_def)

section \<open>Transactions\<close>

lemma law_enter:
  assumes "pmdk_ok P V" "tx_enter P i p = (r, j, q)"
  shows "idle (V p) \<Longrightarrow> j = i"
    "idle (V p) \<Longrightarrow> r \<Longrightarrow> V q = (V p)\<lparr>v_stage := TX_STAGE_WORK, v_depth := 1\<rparr>"
    "idle (V p) \<Longrightarrow> \<not> r \<Longrightarrow> V q = V p"
    "v_stage (V p) = TX_STAGE_WORK \<Longrightarrow> r \<Longrightarrow> j = i"
    "v_stage (V p) = TX_STAGE_WORK \<Longrightarrow> r \<Longrightarrow> V q = (V p)\<lparr>v_depth := Suc (v_depth (V p))\<rparr>"
    "v_stage (V p) = TX_STAGE_WORK \<Longrightarrow> \<not> r \<Longrightarrow> V q = aborted (V p)"
    "v_stage (V p) = TX_STAGE_WORK \<Longrightarrow> \<not> r \<Longrightarrow> kept (bytes (v_old (V p))) (rollback (V p) i) j"
  using pmdk_ok_parts(6) [OF assms(1), unfolded pmdk_transactions_def, THEN spec [of _ i],
      THEN spec [of _ p], THEN conjunct1, rule_format, OF assms(2)] by (simp_all split: if_splits)

lemma law_leave:
  assumes "pmdk_ok P V" "tx_leave P i p = (r, j, q)" "v_stage (V p) = TX_STAGE_WORK"
    "0 < v_depth (V p)"
  shows "v_depth (V p) = 1 \<Longrightarrow> V q = rested (V p) (v_now (V p))"
    "v_depth (V p) = 1 \<Longrightarrow> kept (bytes (v_now (V p))) i j"
    "v_depth (V p) \<noteq> 1 \<Longrightarrow> V q = (V p)\<lparr>v_depth := v_depth (V p) - 1\<rparr>"
    "v_depth (V p) \<noteq> 1 \<Longrightarrow> j = i"
  using pmdk_ok_parts(6) [OF assms(1), unfolded pmdk_transactions_def, THEN spec [of _ i],
      THEN spec [of _ p], THEN conjunct2, THEN conjunct1, rule_format, OF assms(2-4)]
  by (simp_all split: if_splits)

lemma law_unwind:
  assumes "pmdk_ok P V" "tx_unwind P i p = (r, j, q)" "v_stage (V p) \<noteq> TX_STAGE_NONE"
    "0 < v_depth (V p)"
  shows "kept (bytes (v_old (V p))) (rollback (V p) i) j"
    "v_depth (V p) = 1 \<Longrightarrow> V q = rested (V p) (v_old (V p))"
    "v_depth (V p) \<noteq> 1 \<Longrightarrow> V q = (aborted (V p))\<lparr>v_depth := v_depth (V p) - 1\<rparr>"
  using pmdk_ok_parts(6) [OF assms(1), unfolded pmdk_transactions_def, THEN spec [of _ i],
      THEN spec [of _ p], THEN conjunct2, THEN conjunct2, rule_format, OF assms(2-4)]
  by (simp_all split: if_splits)

lemma triple_enter_nested:
  assumes ok: "pmdk_ok P V"
  shows "triple (intact V C) (wrk V C d L M i w) (pmdk_call (tx_enter P))
    (\<lambda>r s. (r \<and> wrk V C (Suc d) L M i w s) \<or> (\<not> r \<and> stopping V C d s)) E"
proof (rule triple_call)
  fix s r j q
  assume s: "wrk V C d L M i w s" and run: "tx_enter P (img s) (px s) = (r, j, q)"
  have stage: "v_stage (V (px s)) = TX_STAGE_WORK" using s by (simp add: wrk_def)
  note law = law_enter(4-7) [OF ok run stage]
  let ?s = "s\<lparr>img := j, px := q\<rparr>"
  have "wrk V C (Suc d) L M i w ?s" if "r"
    using s law(1,2) [OF that] by (auto simp: wrk_def intact_def rollback_def kept_def)
  moreover have "stopping V C d ?s" if "\<not> r"
    by (rule stopping_aborted [OF s law(3,4) [OF that]])
  ultimately show "intact V C ?s
      \<and> (r \<and> wrk V C (Suc d) L M i w ?s \<or> \<not> r \<and> stopping V C d ?s)"
    by (cases r) (auto simp: stopping_def wrk_def)
qed

lemma triple_leave_nested:
  assumes ok: "pmdk_ok P V" and d: "0 < d"
  shows "triple (intact V C) (wrk V C (Suc d) L M i w) (pmdk_call (tx_leave P))
    (\<lambda>_. wrk V C d L M i w) E"
proof (rule triple_call)
  fix s r j q
  assume s: "wrk V C (Suc d) L M i w s" and run: "tx_leave P (img s) (px s) = (r, j, q)"
  have stage: "v_stage (V (px s)) = TX_STAGE_WORK" "v_depth (V (px s)) = Suc d"
    using s by (auto simp: wrk_def)
  note law = law_leave [OF ok run stage(1)]
  have "wrk V C d L M i w (s\<lparr>img := j, px := q\<rparr>)"
    using s law(3,4) stage(2) d by (auto simp: wrk_def intact_def rollback_def kept_def)
  then show "intact V C (s\<lparr>img := j, px := q\<rparr>) \<and> wrk V C d L M i w (s\<lparr>img := j, px := q\<rparr>)"
    using wrk_intact by blast
qed

lemma triple_unwind_nested:
  assumes ok: "pmdk_ok P V" and d: "0 < d"
  shows "triple (intact V C) (stopping V C (Suc d)) (pmdk_call (tx_unwind P))
    (\<lambda>_. stopping V C d) E"
proof (rule triple_call)
  fix s r j q
  assume s: "stopping V C (Suc d) s" and run: "tx_unwind P (img s) (px s) = (r, j, q)"
  have facts: "v_stage (V (px s)) \<noteq> TX_STAGE_NONE" "v_depth (V (px s)) = Suc d" "intact V C s"
    using s by (auto simp: stopping_def)
  note law = law_unwind [OF ok run facts(1)]
  have "intact V C (s\<lparr>img := j, px := q\<rparr>)"
    using facts law(1,3) d by (auto simp: intact_def kept_def)
  then show "intact V C (s\<lparr>img := j, px := q\<rparr>) \<and> stopping V C d (s\<lparr>img := j, px := q\<rparr>)"
    using law(3) facts d by (simp add: stopping_def)
qed

lemma triple_transaction_nested:
  assumes ok: "pmdk_ok P V" and d: "0 < d"
    and body: "triple (intact V C) (wrk V C (Suc d) L M i w) body
      (\<lambda>a s. \<exists>K N j v. R a K N j v \<and> wrk V C (Suc d) K N j v s) (stopping V C (Suc d))"
  shows "triple (intact V C) (wrk V C d L M i w) (transaction_run P body)
      (\<lambda>a s. \<exists>K N j v. R a K N j v \<and> wrk V C d K N j v s) (stopping V C d)"
  unfolding transaction_run_def
proof (rule triple_andthen [OF triple_enter_nested [OF ok]])
  fix r
  have run: "triple (intact V C) (wrk V C (Suc d) L M i w)
     (andthen (on_throw body (pmdk_call (tx_unwind P)))
       (\<lambda>a. andthen (pmdk_call (tx_leave P)) (\<lambda>_. ret a)))
     (\<lambda>a s. \<exists>K N j v. R a K N j v \<and> wrk V C d K N j v s) (stopping V C d)"
    by (rule triple_andthen [OF triple_on_throw [OF body triple_unwind_nested [OF ok d]]],
        intro triple_ex triple_pure, rule triple_seq [OF triple_leave_nested [OF ok d]],
        rule triple_ret) blast
  show "triple (intact V C)
     (\<lambda>s. r \<and> wrk V C (Suc d) L M i w s \<or> \<not> r \<and> stopping V C d s)
     (if r then andthen (on_throw body (pmdk_call (tx_unwind P)))
       (\<lambda>a. andthen (pmdk_call (tx_leave P)) (\<lambda>_. ret a)) else raise ''transaction_error'')
     (\<lambda>a s. \<exists>K N j v. R a K N j v \<and> wrk V C d K N j v s) (stopping V C d)"
    by (cases r) (auto intro: run triple_raise)
qed

section \<open>The outermost transaction\<close>

lemma triple_enter:
  assumes ok: "pmdk_ok P V" and f: "f rt M i"
  shows "triple (durable V f) (rest V b rt M i w) (pmdk_call (tx_enter P))
    (\<lambda>r s. (r \<and> wrk V (ctx_of b rt M i) 1 {} M i w s) \<or> (\<not> r \<and> rest V b rt M i w s)) E"
proof (rule triple_call)
  fix s r j q
  assume s: "rest V b rt M i w s" and run: "tx_enter P (img s) (px s) = (r, j, q)"
  have v: "idle (V (px s))" using s by (simp add: rest_def)
  note law = law_enter(1-3) [OF ok run v]
  let ?s = "s\<lparr>img := j, px := q\<rparr>" and ?C = "ctx_of b rt M i"
  have enter: "wrk V ?C 1 {} M i w ?s" if r
    using s law(1) law(2) [OF that] rest_intact [OF s]
    by (auto simp: wrk_def rest_def idle_def intact_def rollback_def kept_def)
  have stay: "rest V b rt M i w ?s" if "\<not> r"
    using s law(1) law(3) [OF that] by (simp add: rest_def)
  have "durable V f ?s"
    using s law f by (cases r) (auto simp: durable_def rest_def idle_def)
  then show "durable V f ?s \<and> (r \<and> wrk V ?C 1 {} M i w ?s \<or> \<not> r \<and> rest V b rt M i w ?s)"
    using enter stay by blast
qed

lemma triple_leave:
  assumes ok: "pmdk_ok P V" and f: "on_objects f" "f (c_root C) N j"
  shows "triple (durable V f) (wrk V C 1 K N j v) (pmdk_call (tx_leave P))
    (\<lambda>_ s. \<exists>k. kept (bytes N) j k \<and> rest V (c_pool C) (c_root C) N k v s) E"
proof (rule triple_call)
  fix s r i q
  assume s: "wrk V C 1 K N j v s" and run: "tx_leave P (img s) (px s) = (r, i, q)"
  have facts: "v_stage (V (px s)) = TX_STAGE_WORK" "0 < v_depth (V (px s))"
      "v_depth (V (px s)) = 1" "img s = j" "v_now (V (px s)) = N" "objects_ok N"
      "v_root (V (px s)) = c_root C"
    using s by (auto simp: wrk_def intact_def)
  note law = law_leave(1,2) [OF ok run facts(1-3)]
  let ?s = "s\<lparr>img := i, px := q\<rparr>"
  have kept: "kept (bytes N) j i" using law(2) facts by simp
  moreover have "rest V (c_pool C) (c_root C) N i v ?s"
    using s law(1) facts by (auto simp: rest_def wrk_def intact_def)
  moreover from this have "durable V f ?s"
    using rest_durable on_objectsD [OF f(1) facts(6) kept f(2)] by metis
  ultimately show "durable V f ?s \<and>
      (\<exists>k. kept (bytes N) j k \<and> rest V (c_pool C) (c_root C) N k v ?s)"
    by blast
qed

lemma triple_unwind:
  assumes ok: "pmdk_ok P V" and f: "on_objects f" "f (c_root C) (c_objs C) (c_img C)"
  shows "triple (durable V f) (stopping V C 1) (pmdk_call (tx_unwind P)) (\<lambda>_ s. \<exists>k v.
      kept (bytes (c_objs C)) (c_img C) k \<and> rest V (c_pool C) (c_root C) (c_objs C) k v s) E"
proof (rule triple_call)
  fix s r i q
  assume s: "stopping V C 1 s" and run: "tx_unwind P (img s) (px s) = (r, i, q)"
  have facts: "v_stage (V (px s)) \<noteq> TX_STAGE_NONE" "0 < v_depth (V (px s))"
      "v_depth (V (px s)) = 1" "intact V C s"
    using s by (auto simp: stopping_def)
  note law = law_unwind(1,2) [OF ok run facts(1,2)]
  let ?s = "s\<lparr>img := i, px := q\<rparr>"
  have kept: "kept (bytes (c_objs C)) (c_img C) i"
    using law(1) facts(4) by (auto simp: intact_def kept_def)
  moreover have rest: "rest V (c_pool C) (c_root C) (c_objs C) i (vol s) ?s"
    using law(2) facts by (auto simp: rest_def intact_def)
  moreover have "durable V f ?s"
    using rest_durable [OF rest] on_objectsD [OF f(1) _ kept f(2)] rest by (simp add: rest_def)
  ultimately show "durable V f ?s \<and> (\<exists>k v.
      kept (bytes (c_objs C)) (c_img C) k \<and> rest V (c_pool C) (c_root C) (c_objs C) k v ?s)"
    by blast
qed

lemma triple_transaction:
  assumes ok: "pmdk_ok P V" and f: "on_objects f" "f rt M i"
    and body: "triple (intact V (ctx_of b rt M i)) (wrk V (ctx_of b rt M i) 1 {} M i w) body
      (\<lambda>a s. \<exists>K N j v. R a K N j v \<and> wrk V (ctx_of b rt M i) 1 K N j v s)
      (stopping V (ctx_of b rt M i) 1)"
    and committed: "\<And>a K N j v. R a K N j v \<Longrightarrow> f rt N j"
  shows "triple (durable V f) (rest V b rt M i w) (transaction_run P body)
      (\<lambda>a s. \<exists>K N j v k. (R a K N j v \<and> kept (bytes N) j k) \<and> rest V b rt N k v s)
      (\<lambda>s. \<exists>k v. kept (bytes M) i k \<and> rest V b rt M k v s)"
proof -
  let ?C = "ctx_of b rt M i"
  let ?run = "andthen (on_throw body (pmdk_call (tx_unwind P)))
       (\<lambda>a. andthen (pmdk_call (tx_leave P)) (\<lambda>_. ret a))"
  let ?Q = "\<lambda>a s. \<exists>K N j v k. (R a K N j v \<and> kept (bytes N) j k) \<and> rest V b rt N k v s"
  let ?E = "\<lambda>s. \<exists>k v. kept (bytes M) i k \<and> rest V b rt M k v s"
  have way: "triple (durable V f) (wrk V ?C 1 {} M i w) body
      (\<lambda>a s. \<exists>K N j v. R a K N j v \<and> wrk V ?C 1 K N j v s) (stopping V ?C 1)"
    by (rule triple_way [OF body]) (rule intact_durable, use f in auto)
  have unwind: "triple (durable V f) (stopping V ?C 1) (pmdk_call (tx_unwind P)) (\<lambda>_. ?E) (\<lambda>_. False)"
    using triple_unwind [OF ok f(1), of ?C] f(2) by simp
  have "triple (durable V f) (\<lambda>s. \<exists>K N j v. R a K N j v \<and> wrk V ?C 1 K N j v s)
      (andthen (pmdk_call (tx_leave P)) (\<lambda>_. ret a)) ?Q ?E" for a
  proof (intro triple_ex triple_pure)
    fix K N j v assume R: "R a K N j v"
    show "triple (durable V f) (wrk V ?C 1 K N j v)
        (andthen (pmdk_call (tx_leave P)) (\<lambda>_. ret a)) ?Q ?E"
      by (rule triple_seq [OF triple_leave [OF ok f(1)]])
        (use R committed [OF R] in \<open>simp_all\<close>, rule triple_ret, blast)
  qed
  then have run: "triple (durable V f) (wrk V ?C 1 {} M i w) ?run ?Q ?E"
    by (rule triple_andthen [OF triple_on_throw [OF way unwind]])
  have "triple (durable V f)
     (\<lambda>s. r \<and> wrk V ?C 1 {} M i w s \<or> \<not> r \<and> rest V b rt M i w s)
     (if r then ?run else raise ''transaction_error'') ?Q ?E" for r
  proof (cases r)
    case False
    then show ?thesis by (simp, intro triple_raise) (blast intro: kept_refl)
  qed (use run in simp)
  then show ?thesis
    unfolding transaction_run_def by (rule triple_andthen [OF triple_enter [where f = f, OF ok f(2)]])
qed

section \<open>Reads outside transactions\<close>

lemma rest_peek:
  assumes "pmdk_ok P V" "rest V b rt M i w s" "x \<in> bytes M"
  shows "peek P s (b + x) = i x"
  using assms objects_ok_in_pool [of M x] oid_in_pool(1) [OF assms(1), of b x]
  by (auto simp: peek_def rest_def)

lemma rest_read:
  assumes "pmdk_ok P V" "x \<in> bytes M" "cell i x g z"
  shows "triple I (rest V b rt M i w) (pm_read P g (b + x)) (\<lambda>r s. r = z \<and> rest V b rt M i w s) E"
  by (rule triple_read) (use assms(3) in \<open>simp add: cell_def rest_peek [OF assms(1) _ assms(2)]\<close>)

lemma rest_direct:
  assumes "pmdk_ok P V"
  shows "triple I (rest V b rt M i w) (direct P (OID x)) (\<lambda>r s. r = b + x \<and> rest V b rt M i w s) E"
  unfolding direct_def
  by (rule triple_ask) (use assms in \<open>auto simp: pmdk_ok_def pmdk_addressing_def rest_def\<close>)

lemma rest_pool: "triple I (rest V b rt M i w) pmem_pool (\<lambda>_. rest V b rt M i w) E"
  by (auto simp: triple_def pmem_pool_def ret_def rest_def)

section \<open>Opening, root and closing\<close>

lemma law_create:
  assumes "pmdk_ok P V" "\<not> v_file (V p)"
    "pmemobj_create P path layout PMEM_POOL_SIZE i p = (b, j, q)"
  shows "b = NULL \<Longrightarrow> V q = V p"
    "b \<noteq> NULL \<Longrightarrow> V q = (rested (V p) Map.empty)\<lparr>v_file := True, v_root := None\<rparr>"
  using pmdk_ok_parts(7) [OF assms(1), unfolded pmdk_pool_def, THEN spec [of _ path],
      THEN spec [of _ layout], THEN spec [of _ i], THEN spec [of _ p], THEN conjunct2,
      THEN conjunct2, THEN conjunct1, rule_format, OF assms(2,3)]
  by (simp_all split: if_splits)

lemma law_close:
  assumes "pmdk_ok P V" "idle (V p)" "pmemobj_close P i p = (u, j, q)"
  shows "V q = V p" "kept (bytes (v_now (V p))) i j"
  using pmdk_ok_parts(7) [OF assms(1), unfolded pmdk_pool_def, THEN spec [of _ "[]"],
      THEN spec [of _ "[]"], THEN spec [of _ i], THEN spec [of _ p], THEN conjunct2,
      THEN conjunct2, THEN conjunct2, rule_format, OF assms(2,3)]
  by simp_all

lemma law_access: "pmdk_ok P V \<Longrightarrow> pool_access P path p \<longleftrightarrow> v_file (V p)"
  using pmdk_ok_parts(7) [of P V] unfolding pmdk_pool_def by blast

lemma triple_map_pool:
  assumes "\<And>s r j q. A s \<Longrightarrow> g (img s) (px s) = (r, j, q) \<Longrightarrow>
    I (s\<lparr>img := j, px := q\<rparr>) \<and> (if r = NULL then E (s\<lparr>img := j, px := q\<rparr>)
      else Q () (s\<lparr>img := j, px := q, global_pool := r\<rparr>))"
  shows "triple I A (map_pool g e) Q E"
  unfolding triple_def
proof (intro allI impI)
  fix s assume s: "A s"
  obtain r j q where run: "g (img s) (px s) = (r, j, q)" by (cases "g (img s) (px s)") auto
  show "case map_pool g e s of (r, s1, t) \<Rightarrow>
     (\<forall>u\<in>set t. I u) \<and> (case r of Ret a \<Rightarrow> Q a s1 | Throw e \<Rightarrow> E s1 | Terminate \<Rightarrow> True | Fault \<Rightarrow> False)"
    using assms [OF s run] run
    by (auto simp: map_pool_def andthen_def pmdk_call_def raise_def Let_def split: if_splits)
qed

lemma triple_init:
  assumes ok: "pmdk_ok P V" and f: "on_objects f"
  shows "triple (durable V f) (\<lambda>s. global_pool s = NULL \<and> durable V f s) (pmem_alloc_init P)
    (\<lambda>_ s. \<exists>b rt M i w. f rt M i \<and> rest V b rt M i w s) (durable V f)"
proof (rule triple_state, elim conjE)
  fix z assume z: "global_pool z = NULL" "durable V f z"
  let ?Q = "\<lambda>_ s. \<exists>b rt M i w. f rt M i \<and> rest V b rt M i w s"
  let ?path = "get_pool_path z"
  have opened: "triple (durable V f) (\<lambda>s. s = z)
      (map_pool (pmemobj_open P ?path ''pmem_pool'') e) ?Q (durable V f)"
    if there: "v_file (V (px z))" for e
  proof (rule triple_map_pool)
    fix s r j q
    assume s: "s = z" and run: "pmemobj_open P ?path ''pmem_pool'' (img s) (px s) = (r, j, q)"
    note law = law_open [OF ok _ run]
    have same: "durable V f (s\<lparr>img := j, px := q\<rparr>)" if "r = NULL"
      using law(3,4) that there z(2) s by (simp add: durable_def)
    have new: "rest V r (v_root (V q)) (v_now (V q)) j (vol z) (s\<lparr>img := j, px := q, global_pool := r\<rparr>)"
      "f (v_root (V q)) (v_now (V q)) j" if "r \<noteq> NULL"
      using law(1,2) that there z(2) s on_objectsD [OF f] by (auto simp: rest_def durable_def)
    have "durable V f (s\<lparr>img := j, px := q\<rparr>)" if "r \<noteq> NULL"
      using new [OF that] by (intro durable_idle) (auto simp: rest_def)
    then show "durable V f (s\<lparr>img := j, px := q\<rparr>) \<and> (if r = NULL
        then durable V f (s\<lparr>img := j, px := q\<rparr>) else ?Q () (s\<lparr>img := j, px := q, global_pool := r\<rparr>))"
      using same new by (cases "r = NULL") (simp, (simp, blast))
  qed
  have created: "triple (durable V f) (\<lambda>s. s = z)
      (map_pool (pmemobj_create P ?path ''pmem_pool'' PMEM_POOL_SIZE) e) ?Q (durable V f)"
    if there: "\<not> v_file (V (px z))" for e
  proof (rule triple_map_pool)
    fix s r j q
    assume s: "s = z"
      and run: "pmemobj_create P ?path ''pmem_pool'' PMEM_POOL_SIZE (img s) (px s) = (r, j, q)"
    note law = law_create [OF ok _ run]
    have start: "f None Map.empty j"
      using z(2) there on_objectsD [OF f, of Map.empty Map.empty j] by (simp add: durable_def kept_def)
    have same: "durable V f (s\<lparr>img := j, px := q\<rparr>)" if "r = NULL"
      using law(1) that there z(2) s by (simp add: durable_def)
    have new: "rest V r None Map.empty j (vol z) (s\<lparr>img := j, px := q, global_pool := r\<rparr>)"
      if "r \<noteq> NULL"
      using law(2) that there s by (auto simp: rest_def idle_def)
    have "durable V f (s\<lparr>img := j, px := q\<rparr>)" if "r \<noteq> NULL"
      using new [OF that] start by (intro durable_idle) (auto simp: rest_def)
    then show "durable V f (s\<lparr>img := j, px := q\<rparr>) \<and> (if r = NULL
        then durable V f (s\<lparr>img := j, px := q\<rparr>) else ?Q () (s\<lparr>img := j, px := q, global_pool := r\<rparr>))"
      using same new start by (cases "r = NULL") (simp, (simp, blast))
  qed
  show "triple (durable V f) (\<lambda>s. s = z) (pmem_alloc_init P) ?Q (durable V f)"
    using opened created z(1) law_access [OF ok, of ?path "px z"]
    by (cases "v_file (V (px z))") (simp_all add: triple_def pmem_alloc_init_def)
qed

lemma triple_fini:
  assumes ok: "pmdk_ok P V" and f: "on_objects f" "f rt M i"
  shows "triple (durable V f) (rest V b rt M i w) (pmem_alloc_fini P)
    (\<lambda>_ s. global_pool s = NULL \<and> durable V f s) E"
  unfolding triple_def
proof (intro allI impI)
  fix s assume s: "rest V b rt M i w s"
  have v: "idle (V (px s))" "img s = i" "v_now (V (px s)) = M" "objects_ok M" "global_pool s \<noteq> NULL"
      "v_file (V (px s))" "v_root (V (px s)) = rt"
    using s by (auto simp: rest_def)
  obtain u j q where run: "pmemobj_close P i (px s) = (u, j, q)"
    by (cases "pmemobj_close P i (px s)") auto
  have "f rt M j" using on_objectsD [OF f(1) v(4) _ f(2)] law_close(2) [OF ok v(1) run] v by simp
  then have "durable V f (s\<lparr>img := j, px := q\<rparr>)"
      "durable V f (s\<lparr>img := j, px := q, global_pool := NULL\<rparr>)"
    using v law_close(1) [OF ok v(1) run] by (auto simp: durable_def idle_def)
  then show "case pmem_alloc_fini P s of (r, s1, t) \<Rightarrow> (\<forall>u\<in>set t. durable V f u)
     \<and> (case r of Ret a \<Rightarrow> global_pool s1 = NULL \<and> durable V f s1 | Throw e \<Rightarrow> E s1 | Terminate \<Rightarrow> True | Fault \<Rightarrow> False)"
    using run v by (simp add: pmem_alloc_fini_def andthen_def pmdk_call_def Let_def)
qed

end
