(* ===== verification/Pm_Programs.thy ===== *)
theory Pm_Programs
  imports Pm_Library
begin

text \<open>
  The programs of src/concept that are written with the library, in the form in which the
  tool emits them: the stack, the counter and the towers of Hanoi. A program is started by
  \<open>run_program\<close>: the constructor function of the library opens the pool, the pointer to the
  root is initialised, \<open>main\<close> runs, and the destructor function closes the pool. An exception
  that leaves \<open>main\<close> ends the process before that.
\<close>

section \<open>Nodes and stacks\<close>

definition sizeof_Node :: nat where "sizeof_Node = 24"

definition sizeof_Stack :: nat where "sizeof_Stack = 24"

definition node_value :: "ptr \<Rightarrow> ptr" where "node_value n = n"

definition node_next :: "ptr \<Rightarrow> ptr" where "node_next n = n + 8"

definition stack_top :: "ptr \<Rightarrow> ptr" where "stack_top this = this"

definition stack_size :: "ptr \<Rightarrow> ptr" where "stack_size this = this + 16"

definition node_init :: "'p pmdk \<Rightarrow> 32 word \<Rightarrow> ptr \<Rightarrow> ('p, unit) pm" where
  "node_init P v this = andthen (persistent_init P v (node_value this)) (\<lambda>_.
     pmem_ptr_init P (node_next this))"

definition stack_init :: "'p pmdk \<Rightarrow> ptr \<Rightarrow> ('p, unit) pm" where
  "stack_init P this = andthen (pmem_ptr_init P (stack_top this)) (\<lambda>_.
     persistent_init P 0 (stack_size this))"

definition new_node :: "'p pmdk \<Rightarrow> 32 word \<Rightarrow> ('p, ptr) pm" where
  "new_node P v = new_object P sizeof_Node 8 (node_init P v)"

definition push :: "'p pmdk \<Rightarrow> ptr \<Rightarrow> 32 word \<Rightarrow> ('p, unit) pm" where
  "push P this v = andthen (new_node P v) (\<lambda>n.
     andthen (pmem_ptr_assign P (node_next n) (stack_top this)) (\<lambda>_.
     andthen (pmem_ptr_assign_raw P (stack_top this) n) (\<lambda>_.
     andthen (persistent_load P (stack_size this)) (\<lambda>k.
     persistent_assign P (stack_size this) (k + 1)))))"

definition pop :: "'p pmdk \<Rightarrow> ptr \<Rightarrow> ('p, 32 word) pm" where
  "pop P this = andthen (pmem_ptr_bool P (stack_top this)) (\<lambda>b.
     if \<not> b then ret 0
     else
       andthen (pmem_ptr_get P (stack_top this)) (\<lambda>old.
       andthen (persistent_load P (node_value old)) (\<lambda>v.
       andthen (pmem_ptr_assign P (stack_top this) (node_next old)) (\<lambda>_.
       andthen (persistent_load P (stack_size this)) (\<lambda>k.
       andthen (persistent_assign P (stack_size this) (k - 1)) (\<lambda>_.
       andthen (operator_delete P old) (\<lambda>_. ret v)))))))"

definition isEmpty :: "'p pmdk \<Rightarrow> ptr \<Rightarrow> ('p, bool) pm" where
  "isEmpty P this = andthen (persistent_load P (stack_size this)) (\<lambda>k. ret (k = 0))"

partial_function (option) print_nodes :: "'p pmdk \<Rightarrow> 'p mach \<Rightarrow> oid \<Rightarrow> 32 word list option" where
  "print_nodes P s cur =
    (if cur = OID_NULL then Some []
     else Option.bind (Option.bind (peek P s (node_value (pmemobj_direct P (global_pool s) cur))) get_int)
       (\<lambda>v. Option.bind (Option.bind (peek P s (node_next (pmemobj_direct P (global_pool s) cur))) get_oid)
       (\<lambda>n. Option.bind (print_nodes P s n) (\<lambda>vs. Some (v # vs)))))"

definition print :: "'p pmdk \<Rightarrow> ptr \<Rightarrow> ('p, 32 word list) pm" where
  "print P this = andthen (oid_of P (stack_top this)) (\<lambda>cur s.
     case print_nodes P s cur of Some vs \<Rightarrow> (Ret vs, s, []) | None \<Rightarrow> (Fault, s, []))"

section \<open>The start of a program\<close>

definition run_program :: "'p pmdk \<Rightarrow> nat \<Rightarrow> (ptr \<Rightarrow> ('p, 'a) pm) \<Rightarrow> ('p, 'a) pm" where
  "run_program P root_size main = andthen (pmem_alloc_init P) (\<lambda>_.
     andthen (pmem_root P root_size) (\<lambda>root.
     andthen (main root) (\<lambda>r.
     andthen (pmem_alloc_fini P) (\<lambda>_. ret r))))"

section \<open>The counter\<close>

definition counter_step :: "'p pmdk \<Rightarrow> ptr \<Rightarrow> ('p, unit) pm" where
  "counter_step P counter = andthen (persistent_load P counter) (\<lambda>k.
     persistent_assign P counter (k + 1))"

definition counter_main :: "'p pmdk \<Rightarrow> ptr \<Rightarrow> ('p, 32 word) pm" where
  "counter_main P root =
     andthen (pmem_get_or_create P sizeof_int 4 (persistent_init P 0) root) (\<lambda>counter.
     andthen pmem_pool (\<lambda>_.
     andthen (transaction_run P (counter_step P counter)) (\<lambda>_.
     persistent_load P counter)))"

definition counter_program :: "'p pmdk \<Rightarrow> ('p, 32 word) pm" where
  "counter_program P = run_program P sizeof_PMEMoid (counter_main P)"

section \<open>The stack\<close>

definition stack_push :: "'p pmdk \<Rightarrow> ptr \<Rightarrow> 32 word \<Rightarrow> ('p, unit) pm" where
  "stack_push P this v = andthen pmem_pool (\<lambda>_. transaction_run P (push P this v))"

definition stack_main :: "'p pmdk \<Rightarrow> ptr \<Rightarrow> ('p, 32 word list) pm" where
  "stack_main P root =
     andthen (pmem_get_or_create P sizeof_Stack 8 (stack_init P) root) (\<lambda>s.
     andthen pmem_pool (\<lambda>_.
     andthen (transaction_run P
       (andthen (stack_push P s 10) (\<lambda>_.
        andthen (stack_push P s 20) (\<lambda>_.
        stack_push P s 30)))) (\<lambda>_.
     print P s)))"

definition stack_program :: "'p pmdk \<Rightarrow> ('p, 32 word list) pm" where
  "stack_program P = run_program P sizeof_PMEMoid (stack_main P)"

section \<open>The towers of Hanoi\<close>

definition move_disk :: "'p pmdk \<Rightarrow> ptr \<Rightarrow> ptr \<Rightarrow> ('p, unit) pm" where
  "move_disk P source to = andthen (pop P source) (\<lambda>disk. push P to disk)"

function moveDisks :: "'p pmdk \<Rightarrow> int \<Rightarrow> ptr \<Rightarrow> ptr \<Rightarrow> ptr \<Rightarrow> ('p, unit) pm" where
  "moveDisks P n source to aux =
    (if n \<le> 0 then ret ()
     else andthen (moveDisks P (n - 1) source aux to) (\<lambda>_.
       andthen pmem_pool (\<lambda>_.
       andthen (transaction_run P (move_disk P source to)) (\<lambda>_.
       moveDisks P (n - 1) aux to source))))"
  by pat_completeness auto
termination
  by (relation "measure (\<lambda>(P, n, _). nat n)") auto

declare moveDisks.simps [simp del]

definition hanoi_seed :: "'p pmdk \<Rightarrow> ptr \<Rightarrow> ptr \<Rightarrow> ptr \<Rightarrow> ('p, bool) pm" where
  "hanoi_seed P s1 s2 s3 =
     andthen (isEmpty P s1) (\<lambda>e1. andthen (if e1 then isEmpty P s2 else ret False) (\<lambda>e2.
     andthen (if e2 then isEmpty P s3 else ret False) (\<lambda>e3.
     if e3 then
       andthen (push P s1 3) (\<lambda>_.
       andthen (push P s1 2) (\<lambda>_.
       andthen (push P s1 1) (\<lambda>_. ret True)))
     else ret False)))"

definition hanoi_main ::
  "'p pmdk \<Rightarrow> ptr \<Rightarrow> ('p, 32 word list \<times> 32 word list \<times> 32 word list) pm" where
  "hanoi_main P root =
     andthen (pmem_get_or_create P sizeof_Stack 8 (stack_init P) root) (\<lambda>s1.
     andthen (pmem_get_or_create P sizeof_Stack 8 (stack_init P) (root + 16)) (\<lambda>s2.
     andthen (pmem_get_or_create P sizeof_Stack 8 (stack_init P) (root + 32)) (\<lambda>s3.
     andthen pmem_pool (\<lambda>_.
     andthen (transaction_run P (hanoi_seed P s1 s2 s3)) (\<lambda>freshly_seeded.
     andthen (if freshly_seeded then moveDisks P 3 s1 s2 s3 else ret ()) (\<lambda>_.
     andthen (print P s1) (\<lambda>l1.
     andthen (print P s2) (\<lambda>l2.
     andthen (print P s3) (\<lambda>l3. ret (l1, l2, l3))))))))))"

definition hanoi_program ::
  "'p pmdk \<Rightarrow> ('p, 32 word list \<times> 32 word list \<times> 32 word list) pm" where
  "hanoi_program P = run_program P (3 * sizeof_PMEMoid) (hanoi_main P)"

end
