(* ===== verification/Pm_Runs.thy ===== *)
theory Pm_Runs
  imports Pm_Recovery Pm_Programs
begin

text \<open>
  Rules for what every program of the library does: it fetches the root object, finds or
  creates its objects through slots of the root, and is run between the opening and the
  closing of the pool. \<open>pmem_root\<close> does not look at a failure of \<open>pmemobj_root\<close>, so the rules
  suppose that an empty pool has room for the root object.
\<close>

definition pmdk_root_found :: "'p pmdk \<Rightarrow> ('p \<Rightarrow> view) \<Rightarrow> bool" where
  "pmdk_root_found P V \<longleftrightarrow> (\<forall>n i p. n \<le> 4096 \<longrightarrow> idle (V p) \<longrightarrow>
     v_root (V p) = None \<longrightarrow> v_now (V p) = Map.empty \<longrightarrow> fst (pmemobj_root P n i p) \<noteq> OID_NULL)"

lemma law_root:
  assumes "pmdk_ok P V" "0 < n" "idle (V p)" "pmemobj_root P n i p = (x, j, q)"
  shows "v_root (V p) = Some y \<Longrightarrow> v_now (V p) y = Some n \<Longrightarrow>
      x = OID y \<and> V q = V p \<and> kept (bytes (v_now (V p))) i j"
    "v_root (V p) = None \<Longrightarrow> x = OID y \<Longrightarrow> fresh_object (V p) y n
      \<and> V q = (rested (V p) ((v_now (V p))(y \<mapsto> n)))\<lparr>v_root := Some y\<rparr>
      \<and> kept (bytes (v_now (V p))) i j \<and> (\<forall>a\<in>span y n. j a = Some VZero)"
  using pmdk_ok_parts(5) [OF assms(1), unfolded pmdk_root_def, rule_format, OF assms(2-4)]
  by simp_all

lemma triple_root:
  assumes ok: "pmdk_ok P V" and found: "pmdk_root_found P V" and n: "0 < n" "n \<le> 4096"
    and f: "on_objects f" "f rt M i" and old: "\<And>y. rt = Some y \<Longrightarrow> M y = Some n"
    and blank: "rt = None \<Longrightarrow> M = Map.empty"
    and new: "\<And>y j. rt = None \<Longrightarrow> M y = None \<Longrightarrow> span y n \<inter> bytes M = {} \<Longrightarrow>
      kept (bytes M) i j \<Longrightarrow> (\<forall>a\<in>span y n. j a = Some VZero) \<Longrightarrow> f (Some y) (M(y \<mapsto> n)) j"
  shows "triple (durable V f) (rest V b rt M i w) (pmem_root P n)
    (\<lambda>r s. \<exists>y N j. (r = b + y \<and> N y = Some n \<and> f (Some y) N j) \<and> rest V b (Some y) N j w s) E"
  unfolding pmem_root_def
proof (rule triple_seq [OF rest_pool], rule triple_andthen [OF triple_call])
  fix s x j q
  assume s: "rest V b rt M i w s" and run: "pmemobj_root P n (img s) (px s) = (x, j, q)"
  have v: "idle (V (px s))" "v_root (V (px s)) = rt" "v_now (V (px s)) = M" "img s = i" "objects_ok M"
    using s by (auto simp: rest_def)
  let ?s = "s\<lparr>img := j, px := q\<rparr>"
  have "\<exists>y N. (x = OID y \<and> N y = Some n \<and> f (Some y) N j) \<and> rest V b (Some y) N j w ?s"
  proof (cases rt)
    case (Some y)
    then have "x = OID y" "V q = V (px s)" "kept (bytes M) i j"
      using law_root(1) [OF ok n(1) v(1) run] v old by auto
    then show ?thesis
      using s v Some old on_objectsD [OF f(1) v(5) _ f(2)] by (auto simp: rest_def)
  next
    case None
    obtain y where x: "x = OID y"
      using found run n(2) v(1,2,3) None blank unfolding pmdk_root_found_def by (metis fst_conv oid.exhaust)
    have fresh: "fresh_object (V (px s)) y n" and q: "V q = (rested (V (px s)) (M(y \<mapsto> n)))\<lparr>v_root := Some y\<rparr>"
      and j: "kept (bytes M) i j" "\<forall>a\<in>span y n. j a = Some VZero"
      using law_root(2) [OF ok n(1) v(1) run] None x v by auto
    have y: "new_at (ctx_of b rt M i) M y n"
      using fresh_new_at [OF rest_intact [OF s] _ fresh n(1)] v by simp
    then have "objects_ok (M(y \<mapsto> n))" using v(5) by (auto simp: new_at_def intro: objects_ok_upd)
    moreover have "f (Some y) (M(y \<mapsto> n)) j" using new [OF None] y j by (auto simp: new_at_def)
    ultimately show ?thesis
      using s q x by (intro exI [of _ y] exI [of _ "M(y \<mapsto> n)"]) (auto simp: rest_def idle_def rested_def)
  qed
  moreover from this have "durable V f ?s" using rest_durable by blast
  ultimately show "durable V f ?s \<and>
      (\<exists>y N j. (x = OID y \<and> N y = Some n \<and> f (Some y) N j) \<and> rest V b (Some y) N j w ?s)"
    by blast
next
  fix x
  show "triple (durable V f)
      (\<lambda>s. \<exists>y N j. (x = OID y \<and> N y = Some n \<and> f (Some y) N j) \<and> rest V b (Some y) N j w s)
      (direct P x)
      (\<lambda>r s. \<exists>y N j. (r = b + y \<and> N y = Some n \<and> f (Some y) N j) \<and> rest V b (Some y) N j w s) E"
    by (intro triple_ex triple_pure, elim conjE, simp only:, rule triple_post [OF rest_direct [OF ok]])
      blast
qed

lemma rest_ptr_bool:
  assumes "pmdk_ok P V" "x \<in> bytes M" "cell i x get_oid z"
  shows "triple I (rest V b rt M i w) (pmem_ptr_bool P (b + x))
    (\<lambda>r s. r = (z \<noteq> OID_NULL) \<and> rest V b rt M i w s) E"
  unfolding pmem_ptr_bool_def oid_of_def
  by (rule triple_eq [OF rest_read [OF assms]]) (rule triple_ret, simp)

lemma triple_find:
  assumes "pmdk_ok P V" "x \<in> bytes M" "cell i x get_oid (OID y)"
  shows "triple I (rest V b rt M i w) (pmem_get_or_create P n al ctor (b + x))
    (\<lambda>r s. r = b + y \<and> rest V b rt M i w s) E"
  unfolding pmem_get_or_create_def
  by (rule triple_eq [OF rest_ptr_bool [OF assms]], simp add: pmem_ptr_get_def oid_of_def,
      rule triple_eq [OF rest_read [OF assms]], rule rest_direct [OF assms(1)])

lemma triple_create:
  assumes ok: "pmdk_ok P V" and f: "on_objects f" "f rt M i" and n: "0 < n"
    and x: "span x sizeof_PMEMoid \<subseteq> bytes M" "cell i x get_oid OID_NULL"
    and ctor: "\<And>y j. new_at (ctx_of b rt M i) M y n \<Longrightarrow> kept (bytes M) i j \<Longrightarrow>
      triple (intact V (ctx_of b rt M i)) (wrk V (ctx_of b rt M i) 1 {} (M(y \<mapsto> n)) j w) (ctor (b + y))
        (\<lambda>_. wrk V (ctx_of b rt M i) 1 {} (M(y \<mapsto> n)) (g y j) w) (\<lambda>_. False)"
    and committed: "\<And>y j. new_at (ctx_of b rt M i) M y n \<Longrightarrow> kept (bytes M) i j \<Longrightarrow>
      f rt (M(y \<mapsto> n)) ((g y j)(x \<mapsto> VOid (OID y)))"
  shows "triple (durable V f) (rest V b rt M i w) (pmem_get_or_create P n al ctor (b + x))
    (\<lambda>r s. \<exists>y j k. (r = b + y \<and> new_at (ctx_of b rt M i) M y n \<and> kept (bytes M) i j
        \<and> kept (bytes (M(y \<mapsto> n))) ((g y j)(x \<mapsto> VOid (OID y))) k)
      \<and> rest V b rt (M(y \<mapsto> n)) k w s)
    (\<lambda>s. \<exists>k v. kept (bytes M) i k \<and> rest V b rt M k v s)"
proof -
  let ?C = "ctx_of b rt M i"
  let ?R = "\<lambda>r (K :: nat set) N k v. \<exists>y j. r = b + y \<and> new_at ?C M y n \<and> kept (bytes M) i j
      \<and> N = M(y \<mapsto> n) \<and> k = (g y j)(x \<mapsto> VOid (OID y)) \<and> v = w"
  have in_M: "x \<in> bytes M" using x(1) by (auto simp: span_def sizeof_PMEMoid_def)
  have new: "triple (intact V ?C) (wrk V ?C 1 {} M i w) (new_object P n al ctor)
      (\<lambda>r s. \<exists>y j. (r = c_pool ?C + y \<and> new_at ?C M y n \<and> kept (bytes (c_objs ?C) \<union> bytes M) i j)
        \<and> wrk V ?C 1 {} (M(y \<mapsto> n)) (g y j) w s) (stopping V ?C 1)"
    by (rule triple_new [OF ok n]) (use ctor in simp)
  have body: "triple (intact V ?C) (wrk V ?C 1 {} M i w)
      (andthen (new_object P n al ctor)
        (\<lambda>obj. andthen (pmem_ptr_assign_raw P (b + x) obj) (\<lambda>_. ret obj)))
      (\<lambda>a s. \<exists>K N j v. ?R a K N j v \<and> wrk V ?C 1 K N j v s) (stopping V ?C 1)"
  proof (rule triple_andthen [OF new], intro triple_ex triple_pure, elim conjE)
    fix r y j
    assume r: "r = c_pool ?C + y" and y: "new_at ?C M y n" "kept (bytes (c_objs ?C) \<union> bytes M) i j"
    have bytes: "bytes (M(y \<mapsto> n)) = bytes M \<union> span y n"
      using y(1) by (intro bytes_upd) (simp add: new_at_def)
    have "triple (intact V ?C) (wrk V ?C 1 {} (M(y \<mapsto> n)) (g y j) w)
        (pmem_ptr_assign_raw P (c_pool ?C + x) (c_pool ?C + y))
        (\<lambda>_. wrk V ?C 1 {} (M(y \<mapsto> n)) ((g y j)(x \<mapsto> VOid (OID y))) w) (stopping V ?C 1)"
      by (rule triple_assign_raw [OF ok]) (use x(1) n bytes in \<open>auto simp: span_def\<close>)
    then show "triple (intact V ?C) (wrk V ?C 1 {} (M(y \<mapsto> n)) (g y j) w)
        (andthen (pmem_ptr_assign_raw P (b + x) r) (\<lambda>_. ret r))
        (\<lambda>a s. \<exists>K N j v. ?R a K N j v \<and> wrk V ?C 1 K N j v s) (stopping V ?C 1)"
      unfolding r ctx_of_simps
      by (rule triple_seq, intro triple_ret) (use y in \<open>simp, blast\<close>)
  qed
  have "triple (durable V f) (rest V b rt M i w)
      (andthen pmem_pool (\<lambda>_. transaction_run P (andthen (new_object P n al ctor)
        (\<lambda>obj. andthen (pmem_ptr_assign_raw P (b + x) obj) (\<lambda>_. ret obj)))))
    (\<lambda>a s. \<exists>K N j v k. (?R a K N j v \<and> kept (bytes N) j k) \<and> rest V b rt N k v s)
      (\<lambda>s. \<exists>k v. kept (bytes M) i k \<and> rest V b rt M k v s)"
    by (rule triple_seq [OF rest_pool], rule triple_transaction [where f = f and R = ?R, OF ok f body])
      (use committed in blast)
  then show ?thesis
    unfolding pmem_get_or_create_def
    by (intro triple_eq [OF rest_ptr_bool [OF ok in_M x(2)]], simp, elim triple_post) blast
qed

section \<open>Whole programs\<close>

lemma triple_program:
  assumes ok: "pmdk_ok P V" and found: "pmdk_root_found P V" and n: "0 < n" "n \<le> 4096"
    and local: "on_objects f" "on_objects g" "\<And>r. on_objects (h r)"
    and imp: "\<And>rt M i. f rt M i \<Longrightarrow> g rt M i" "\<And>r rt M i. h r rt M i \<Longrightarrow> g rt M i"
    and old: "\<And>y M i. f (Some y) M i \<Longrightarrow> M y = Some n"
    and blank: "\<And>M i. f None M i \<Longrightarrow> M = Map.empty"
    and new: "\<And>y M i j. f None M i \<Longrightarrow> M y = None \<Longrightarrow> span y n \<inter> bytes M = {} \<Longrightarrow>
      kept (bytes M) i j \<Longrightarrow> (\<forall>a\<in>span y n. j a = Some VZero) \<Longrightarrow> f (Some y) (M(y \<mapsto> n)) j"
    and main: "\<And>b y N j w. N y = Some n \<Longrightarrow> f (Some y) N j \<Longrightarrow>
      triple (durable V g) (rest V b (Some y) N j w) (main (b + y))
        (\<lambda>r s. \<exists>M k v. h r (Some y) M k \<and> rest V b (Some y) M k v s) (durable V g)"
  shows "triple (durable V g) (\<lambda>s. global_pool s = NULL \<and> durable V f s) (run_program P n main)
    (\<lambda>r s. global_pool s = NULL \<and> durable V (h r) s) (durable V g)"
proof -
  have way: "triple (durable V f) A m Q (durable V f) \<Longrightarrow> triple (durable V g) A m Q (durable V g)"
    for A and m :: "('a, 'c) pm" and Q
  proof -
    assume "triple (durable V f) A m Q (durable V f)"
    then have "triple (durable V g) A m Q (durable V f)"
      by (rule triple_way) (auto intro: durable_mono imp(1))
    then show ?thesis by (rule triple_conseq) (auto intro: durable_mono imp(1))
  qed
  have close: "triple (durable V g) (rest V b (Some y) M k v)
      (andthen (pmem_alloc_fini P) (\<lambda>_. ret r))
      (\<lambda>r s. global_pool s = NULL \<and> durable V (h r) s) (durable V g)"
    if "h r (Some y) M k" for r b y M k v
  proof (rule triple_seq)
    show "triple (durable V g) (rest V b (Some y) M k v) (pmem_alloc_fini P)
        (\<lambda>_ s. global_pool s = NULL \<and> durable V (h r) s) (durable V g)"
      by (rule triple_way [OF triple_fini [where f = "h r", OF ok local(3) that]])
        (auto intro: durable_mono imp(2))
  qed (rule triple_ret, simp)
  show ?thesis
    unfolding run_program_def
  proof (rule triple_seq [OF way [OF triple_init [OF ok local(1)]]], intro triple_ex triple_pure)
    fix b rt M i w assume f: "f rt M i"
    have root: "triple (durable V f) (rest V b rt M i w) (pmem_root P n)
      (\<lambda>r s. \<exists>y N j. (r = b + y \<and> N y = Some n \<and> f (Some y) N j) \<and> rest V b (Some y) N j w s)
      (durable V f)"
      by (rule triple_root [OF ok found n local(1) f]) (use old new blank f in blast)+
    show "triple (durable V g) (rest V b rt M i w)
        (andthen (pmem_root P n) (\<lambda>root. andthen (main root) (\<lambda>r.
          andthen (pmem_alloc_fini P) (\<lambda>_. ret r))))
        (\<lambda>r s. global_pool s = NULL \<and> durable V (h r) s) (durable V g)"
    proof (rule triple_andthen [OF way [OF root]], intro triple_ex triple_pure, elim conjE)
      fix root y N j
      assume r: "root = b + y" "N y = Some n" "f (Some y) N j"
      show "triple (durable V g) (rest V b (Some y) N j w)
          (andthen (main root) (\<lambda>r. andthen (pmem_alloc_fini P) (\<lambda>_. ret r)))
          (\<lambda>r s. global_pool s = NULL \<and> durable V (h r) s) (durable V g)"
        unfolding r(1)
        by (rule triple_andthen [OF main [where N = N and j = j, OF r(2,3)]], intro triple_ex triple_pure)
          (rule close)
    qed
  qed
qed

end
