(* ===== verification/Pm_Counter.thy ===== *)
theory Pm_Counter
  imports Pm_Runs
begin

text \<open>
  The counter of src/concept/counter: what its pool holds, that one run adds one, and that a
  run that is killed adds one or nothing. The histories at the end are sequences of runs, each
  of which ends, is killed in one of its states, or is left by an exception.
\<close>

definition counter_is :: "32 word \<Rightarrow> nat option \<Rightarrow> (nat \<rightharpoonup> nat) \<Rightarrow> image \<Rightarrow> bool" where
  "counter_is n rt M i \<longleftrightarrow> (case rt of
     None \<Rightarrow> n = 0 \<and> M = Map.empty
   | Some y \<Rightarrow> M y = Some sizeof_PMEMoid \<and>
      (cell i y get_oid OID_NULL \<and> n = 0
       \<or> (\<exists>x. cell i y get_oid (OID x) \<and> M x = Some sizeof_int \<and> x \<noteq> y \<and> cell i x get_int n)))"

lemma on_objects_counter: "on_objects (counter_is n)"
  unfolding on_objects_def
proof (intro allI impI)
  fix rt M i j
  assume kept: "kept (bytes M) i j" and old: "counter_is n rt M i"
  have same: "cell j x get_oid z \<longleftrightarrow> cell i x get_oid z" "cell j x get_int v \<longleftrightarrow> cell i x get_int v"
    if "M x = Some k" "0 < k" for x k z v
    by (rule cell_kept [OF kept start_in_bytes [of M x k, OF that]])+
  show "counter_is n rt M j"
  proof (cases rt)
    case (Some y)
    with old have y: "M y = Some sizeof_PMEMoid" by (simp add: counter_is_def)
    have "cell j x get_int n" if "cell i x get_int n" "M x = Some sizeof_int" for x
      using same(2) [OF that(2)] that(1) by (simp add: sizeof_int_def)
    then show ?thesis
      using old Some same(1) [OF y] unfolding counter_is_def
      by (simp add: sizeof_PMEMoid_def) blast
  qed (use old in \<open>simp add: counter_is_def\<close>)
qed

lemma counter_ctor:
  assumes "pmdk_ok P V" "new_at C M y sizeof_int"
  shows "triple (intact V C) (wrk V C 1 {} (M(y \<mapsto> sizeof_int)) j w) (persistent_init P 0 (c_pool C + y))
    (\<lambda>_. wrk V C 1 {} (M(y \<mapsto> sizeof_int)) (j(y \<mapsto> VInt 0)) w) (\<lambda>_. False)"
  unfolding persistent_init_def
  by (rule triple_store [OF assms(1)])
    (use assms(2) in \<open>auto simp: new_at_def span_def intro!: bytesI\<close>)

definition located :: "32 word \<Rightarrow> nat \<Rightarrow> nat \<Rightarrow> (nat \<rightharpoonup> nat) \<Rightarrow> image \<Rightarrow> bool" where
  "located n y x M i \<longleftrightarrow> M y = Some sizeof_PMEMoid \<and> cell i y get_oid (OID x)
     \<and> M x = Some sizeof_int \<and> x \<noteq> y \<and> cell i x get_int n"

lemma located_counter: "located n y x M i \<Longrightarrow> counter_is n (Some y) M i"
  by (auto simp: located_def counter_is_def)

lemma located_kept: "located n y x M i \<Longrightarrow> kept (bytes M) i j \<Longrightarrow> located n y x M j"
  by (auto simp: located_def cell_kept start_in_bytes sizeof_int_def sizeof_PMEMoid_def)

lemma counter_create:
  assumes ok: "pmdk_ok P V" and y: "M y = Some sizeof_PMEMoid" "cell i y get_oid OID_NULL"
  shows "triple (durable V (counter_is 0)) (rest V b (Some y) M i w)
    (pmem_get_or_create P sizeof_int 4 (persistent_init P 0) (b + y))
    (\<lambda>r s. \<exists>x N k. (r = b + x \<and> located 0 y x N k) \<and> rest V b (Some y) N k w s)
    (durable V (counter_is 0))"
proof -
  have inside: "span y sizeof_PMEMoid \<subseteq> bytes M"
    using span_subset_bytes [of M y sizeof_PMEMoid 0 sizeof_PMEMoid] y(1) by simp
  have now: "counter_is 0 (Some y) M i" using y by (simp add: counter_is_def)
  have new: "located 0 y x (M(x \<mapsto> sizeof_int)) ((j(x \<mapsto> VInt 0))(y \<mapsto> VOid (OID x)))"
    if "new_at (ctx_of b (Some y) M i) M x sizeof_int" for x j
    using that y by (auto simp: located_def new_at_def)
  have "triple (durable V (counter_is 0)) (rest V b (Some y) M i w)
    (pmem_get_or_create P sizeof_int 4 (persistent_init P 0) (b + y))
    (\<lambda>r s. \<exists>x j k. (r = b + x \<and> new_at (ctx_of b (Some y) M i) M x sizeof_int \<and> kept (bytes M) i j
        \<and> kept (bytes (M(x \<mapsto> sizeof_int))) ((j(x \<mapsto> VInt 0))(y \<mapsto> VOid (OID x))) k)
      \<and> rest V b (Some y) (M(x \<mapsto> sizeof_int)) k w s)
    (\<lambda>s. \<exists>k v. kept (bytes M) i k \<and> rest V b (Some y) M k v s)"
    by (rule triple_create [where f = "counter_is 0", OF ok on_objects_counter now _ inside y(2)])
      (use counter_ctor [OF ok, of "ctx_of b (Some y) M i"] located_counter [OF new] in
        \<open>simp_all add: sizeof_int_def\<close>)
  then show ?thesis
  proof (rule triple_conseq)
    fix s assume "\<exists>k v. kept (bytes M) i k \<and> rest V b (Some y) M k v s"
    then show "durable V (counter_is 0) s"
      by (rule rest_kept_durable [where f = "counter_is 0", OF on_objects_counter now])
  qed (use new located_kept in blast)+
qed

lemma counter_find:
  assumes ok: "pmdk_ok P V" and old: "counter_is n (Some y) M i"
  shows "triple (durable V (counter_is n)) (rest V b (Some y) M i w)
    (pmem_get_or_create P sizeof_int 4 (persistent_init P 0) (b + y))
    (\<lambda>r s. \<exists>x N k. (r = b + x \<and> located n y x N k) \<and> rest V b (Some y) N k w s)
    (durable V (counter_is n))"
proof -
  from old have y: "M y = Some sizeof_PMEMoid" by (simp add: counter_is_def)
  from old consider "cell i y get_oid OID_NULL" "n = 0" | x where "located n y x M i"
    unfolding counter_is_def located_def by auto
  then show ?thesis
  proof cases
    case 1
    show ?thesis unfolding 1(2) by (rule counter_create [OF ok, of M y i, OF y 1(1)])
  next
    case 2
    then have x: "cell i y get_oid (OID x)" by (simp add: located_def)
    have "y \<in> bytes M" using start_in_bytes [of M y, OF y] by (simp add: sizeof_PMEMoid_def)
    then show ?thesis
      by (intro triple_post [OF triple_find [OF ok _ x]]) (use 2 in blast)+
  qed
qed

lemma counter_step_rule:
  assumes ok: "pmdk_ok P V" and x: "located n y x M i"
  shows "triple (intact V C) (wrk V C d L M i w) (counter_step P (c_pool C + x))
    (\<lambda>_. wrk V C d L M (i(x \<mapsto> VInt (n + 1))) w) (stopping V C d)"
proof -
  have M: "M x = Some sizeof_int" and n: "cell i x get_int n" using x by (simp_all add: located_def)
  have inside: "span x sizeof_int \<subseteq> bytes M" "x \<in> bytes M"
    using span_subset_bytes [of M x sizeof_int 0 sizeof_int] start_in_bytes [of M x, OF M] M
    by (simp_all add: sizeof_int_def)
  show ?thesis
    unfolding counter_step_def persistent_assign_def
    by (rule triple_eq [OF triple_load [OF ok inside(2) n]], rule triple_store [OF ok inside(1)])
qed

definition counter_between :: "32 word \<Rightarrow> nat option \<Rightarrow> (nat \<rightharpoonup> nat) \<Rightarrow> image \<Rightarrow> bool" where
  "counter_between n rt M i \<longleftrightarrow> counter_is n rt M i \<or> counter_is (n + 1) rt M i"

lemma on_objects_between: "on_objects (counter_between n)"
  using on_objects_or [OF on_objects_counter on_objects_counter]
  unfolding counter_between_def by (simp add: fun_eq_iff)

lemma counter_increment:
  assumes ok: "pmdk_ok P V" and x: "located n y x M i"
  shows "triple (durable V (counter_between n)) (rest V b (Some y) M i w)
    (transaction_run P (counter_step P (b + x)))
    (\<lambda>_ s. \<exists>k. located (n + 1) y x M k \<and> rest V b (Some y) M k w s)
    (durable V (counter_between n))"
proof -
  let ?C = "ctx_of b (Some y) M i" and ?i = "i(x \<mapsto> VInt (n + 1))"
  let ?R = "\<lambda>(_ :: unit) (K :: nat set) N k v. N = M \<and> k = ?i \<and> v = w"
  have new: "located (n + 1) y x M ?i" using x by (auto simp: located_def)
  have now: "counter_between n (Some y) M i"
    using located_counter [OF x] by (simp add: counter_between_def)
  have body: "triple (intact V ?C) (wrk V ?C 1 {} M i w) (counter_step P (b + x))
      (\<lambda>a s. \<exists>K N j v. ?R a K N j v \<and> wrk V ?C 1 K N j v s) (stopping V ?C 1)"
    by (rule triple_post [OF counter_step_rule [where C = ?C, OF ok x, unfolded ctx_of_simps]]) blast
  have "triple (durable V (counter_between n)) (rest V b (Some y) M i w)
    (transaction_run P (counter_step P (b + x)))
    (\<lambda>a s. \<exists>K N j v k. (?R a K N j v \<and> kept (bytes N) j k) \<and> rest V b (Some y) N k v s)
    (\<lambda>s. \<exists>k v. kept (bytes M) i k \<and> rest V b (Some y) M k v s)"
    by (rule triple_transaction [where f = "counter_between n" and R = ?R,
          OF ok on_objects_between now body])
      (use located_counter [OF new] in \<open>simp add: counter_between_def\<close>)
  then show ?thesis
  proof (rule triple_conseq)
    fix s assume "\<exists>k v. kept (bytes M) i k \<and> rest V b (Some y) M k v s"
    then show "durable V (counter_between n) s"
      by (rule rest_kept_durable [where f = "counter_between n", OF on_objects_between now])
  qed (use located_kept [OF new] in blast)+
qed

lemma counter_main_rule:
  assumes ok: "pmdk_ok P V" and old: "counter_is n (Some y) M i"
  shows "triple (durable V (counter_between n)) (rest V b (Some y) M i w) (counter_main P (b + y))
    (\<lambda>r s. \<exists>N k v. (r = n + 1 \<and> counter_is r (Some y) N k) \<and> rest V b (Some y) N k v s)
    (durable V (counter_between n))"
proof -
  have weaker: "counter_is n rt N k \<Longrightarrow> counter_between n rt N k" for rt N k
    by (simp add: counter_between_def)
  have find: "triple (durable V (counter_between n)) (rest V b (Some y) M i w)
    (pmem_get_or_create P sizeof_int 4 (persistent_init P 0) (b + y))
    (\<lambda>r s. \<exists>x N k. (r = b + x \<and> located n y x N k) \<and> rest V b (Some y) N k w s)
    (durable V (counter_between n))"
    by (rule triple_conseq [OF triple_way [OF counter_find [OF ok old]]])
      (use durable_mono weaker in blast)+
  show ?thesis
    unfolding counter_main_def
  proof (rule triple_andthen [OF find], intro triple_ex triple_pure, elim conjE)
    fix r x N k assume r: "r = b + x" and x: "located n y x N k"
    show "triple (durable V (counter_between n)) (rest V b (Some y) N k w)
      (andthen pmem_pool (\<lambda>_. andthen (transaction_run P (counter_step P r))
        (\<lambda>_. persistent_load P r)))
      (\<lambda>r s. \<exists>N k v. (r = n + 1 \<and> counter_is r (Some y) N k) \<and> rest V b (Some y) N k v s)
      (durable V (counter_between n))"
      unfolding r
    proof (rule triple_seq [OF rest_pool], rule triple_seq [OF counter_increment [OF ok x]],
        intro triple_ex triple_pure)
      fix k assume x: "located (n + 1) y x N k"
      have "x \<in> bytes N" "cell k x get_int (n + 1)"
        using x start_in_bytes [of N x sizeof_int] by (auto simp: located_def sizeof_int_def)
      then show "triple (durable V (counter_between n)) (rest V b (Some y) N k w)
          (persistent_load P (b + x))
          (\<lambda>r s. \<exists>N k v. (r = n + 1 \<and> counter_is r (Some y) N k) \<and> rest V b (Some y) N k v s)
          (durable V (counter_between n))"
        unfolding persistent_load_def
        by (intro triple_post [OF rest_read [OF ok]]) (use located_counter [OF x] in blast)+
    qed
  qed
qed

lemma counter_program_rule:
  assumes ok: "pmdk_ok P V" and found: "pmdk_root_found P V"
  shows "triple (durable V (counter_between n))
    (\<lambda>s. global_pool s = NULL \<and> durable V (counter_is n) s) (counter_program P)
    (\<lambda>r s. r = n + 1 \<and> global_pool s = NULL \<and> durable V (counter_is r) s)
    (durable V (counter_between n))"
proof -
  have "triple (durable V (counter_between n))
    (\<lambda>s. global_pool s = NULL \<and> durable V (counter_is n) s) (counter_program P)
    (\<lambda>r s. global_pool s = NULL \<and> durable V (\<lambda>rt M i. r = n + 1 \<and> counter_is r rt M i) s)
    (durable V (counter_between n))"
    unfolding counter_program_def
  proof (rule triple_program [OF ok found])
    fix y M i j
    assume "counter_is n None M i" "M y = None" "span y sizeof_PMEMoid \<inter> bytes M = {}"
      "\<forall>a\<in>span y sizeof_PMEMoid. j a = Some VZero"
    then show "counter_is n (Some y) (M(y \<mapsto> sizeof_PMEMoid)) j"
      by (simp add: counter_is_def cell_def span_def sizeof_PMEMoid_def)
  next
    fix b y N j w assume "counter_is n (Some y) N j"
    then show "triple (durable V (counter_between n)) (rest V b (Some y) N j w) (counter_main P (b + y))
      (\<lambda>r s. \<exists>M k v. (r = n + 1 \<and> counter_is r (Some y) M k) \<and> rest V b (Some y) M k v s)
      (durable V (counter_between n))"
      by (rule counter_main_rule [OF ok])
  qed (use on_objects_counter on_objects_between in
      \<open>auto simp: counter_between_def counter_is_def on_objects_def sizeof_PMEMoid_def\<close>)
  then show ?thesis
    by (rule triple_post) (auto simp: durable_def split: if_splits)
qed

end
