(* ===== verification/Pm_Stack.thy ===== *)
theory Pm_Stack
  imports Pm_Runs
begin

text \<open>
  The persistent stack of src/concept/stack and src/concept/hanoi as a list: the chain of its
  nodes in the pool, and the effect of \<open>push\<close> and \<open>pop\<close> on it inside a transaction. The effect
  says what becomes of every other object, so that several stacks can be used together.
\<close>

section \<open>The chain of nodes\<close>

fun chain :: "(nat \<rightharpoonup> nat) \<Rightarrow> image \<Rightarrow> oid \<Rightarrow> nat list \<Rightarrow> 32 word list \<Rightarrow> bool" where
  "chain M i z [] vs \<longleftrightarrow> z = OID_NULL \<and> vs = []"
| "chain M i z (n # ns) vs \<longleftrightarrow> (\<exists>v us y. vs = v # us \<and> z = OID n \<and> M n = Some sizeof_Node
     \<and> cell i n get_int v \<and> cell i (n + 8) get_oid y \<and> chain M i y ns us)"

definition stack_at :: "(nat \<rightharpoonup> nat) \<Rightarrow> image \<Rightarrow> nat \<Rightarrow> nat list \<Rightarrow> 32 word list \<Rightarrow> bool" where
  "stack_at M i x ns vs \<longleftrightarrow> M x = Some sizeof_Stack \<and> distinct (x # ns)
     \<and> (\<exists>z. cell i x get_oid z \<and> chain M i z ns vs)
     \<and> cell i (x + 16) get_int (of_nat (length vs))"

lemma chain_length: "chain M i z ns vs \<Longrightarrow> length vs = length ns"
  by (induction ns arbitrary: z vs) auto

lemma chain_objects: "chain M i z ns vs \<Longrightarrow> n \<in> set ns \<Longrightarrow> M n = Some sizeof_Node"
  by (induction ns arbitrary: z vs) auto

lemma chain_frame:
  "chain M i z ns vs \<Longrightarrow> (\<And>n. n \<in> set ns \<Longrightarrow> N n = M n) \<Longrightarrow>
   (\<And>n g. n \<in> set ns \<Longrightarrow> j n = i n \<and> j (n + 8) = i (n + 8)) \<Longrightarrow> chain N j z ns vs"
  by (induction ns arbitrary: z vs) (auto simp: cell_def)

lemma stack_frame:
  assumes "stack_at M i x ns vs" "\<And>n. n \<in> set (x # ns) \<Longrightarrow> N n = M n"
    "\<And>n. n \<in> set (x # ns) \<Longrightarrow> kept (span n 24) i j"
  shows "stack_at N j x ns vs"
proof -
  have at: "j (n + k) = i (n + k)" if "n \<in> set (x # ns)" "k < 24" for n k
    using assms(3) [OF that(1)] that(2) by (simp add: kept_def span_def)
  have ends: "j x = i x" "j (x + 16) = i (x + 16)"
    using at [of x 0] at [of x 16] by simp_all
  have nodes: "j n = i n \<and> j (n + 8) = i (n + 8)" if "n \<in> set ns" for n
    using at [of n 0] at [of n 8] that by simp
  show ?thesis
    using assms(1,2) chain_frame [of M i _ ns vs N j] ends nodes
    by (auto simp: stack_at_def cell_def)
qed

definition stack_objects :: "nat \<Rightarrow> nat list \<Rightarrow> nat set" where
  "stack_objects x ns = insert x (set ns)"

lemma stack_object_size:
  "stack_at M i x ns vs \<Longrightarrow> n \<in> set (x # ns) \<Longrightarrow> M n = Some 24"
  using chain_objects by (fastforce simp: stack_at_def sizeof_Stack_def sizeof_Node_def)

lemma stack_bytes:
  assumes "stack_at M i x ns vs" "n \<in> set (x # ns)" "k + l \<le> 24"
  shows "span (n + k) l \<subseteq> bytes M"
  using span_subset_bytes [of M n 24 k l] stack_object_size [OF assms(1,2)] assms(3) by simp

lemma stack_kept:
  assumes "stack_at M i x ns vs" "kept (bytes M) i j"
  shows "stack_at M j x ns vs"
  by (rule stack_frame [OF assms(1)])
    (use kept_mono [OF assms(2)] stack_bytes [OF assms(1), of _ 0 24] in auto)

lemma stack_cells:
  assumes "stack_at M i x ns vs"
  shows "x \<in> bytes M" "x + 16 \<in> bytes M" "span x sizeof_PMEMoid \<subseteq> bytes M"
    "span (x + 16) sizeof_int \<subseteq> bytes M"
  using stack_bytes [OF assms, of x 0 1] stack_bytes [OF assms, of x 16 1]
    stack_bytes [OF assms, of x 0 16] stack_bytes [OF assms, of x 16 4]
  by (auto simp: span_def sizeof_PMEMoid_def sizeof_int_def)

section \<open>Reading\<close>

lemma print_chain:
  assumes "pmdk_ok P V" "rest V b rt M i w s" "chain M i z ns vs"
  shows "print_nodes P s z = Some vs"
  using assms(3)
proof (induction ns arbitrary: z vs)
  case Nil
  then show ?case by (subst print_nodes.simps) simp
next
  case (Cons n ns)
  then obtain v us y where vs: "vs = v # us" "z = OID n" "M n = Some sizeof_Node"
      and cells: "cell i n get_int v" "cell i (n + 8) get_oid y" and tail: "chain M i y ns us"
    by auto
  have "n \<in> bytes M" "n + 8 \<in> bytes M"
    using span_subset_bytes [of M n 24 0 24] vs(3) by (auto simp: sizeof_Node_def span_def)
  then have "peek P s (b + n) = i n" "peek P s (b + (n + 8)) = i (n + 8)"
    by (auto intro: rest_peek [OF assms(1,2)])
  moreover have "pmemobj_direct P (global_pool s) (OID n) = b + n"
    using assms(1,2) by (auto simp: pmdk_ok_def pmdk_addressing_def rest_def)
  ultimately show ?case
    using Cons.IH [OF tail] cells vs
    by (subst print_nodes.simps) (simp add: node_value_def node_next_def cell_def ac_simps)
qed

lemma triple_print:
  assumes ok: "pmdk_ok P V" and x: "stack_at M i x ns vs"
  shows "triple I (rest V b rt M i w) (print P (b + x)) (\<lambda>r s. r = vs \<and> rest V b rt M i w s) E"
proof -
  from x obtain z where z: "cell i x get_oid z" "chain M i z ns vs" by (auto simp: stack_at_def)
  show ?thesis
    unfolding print_def oid_of_def stack_top_def
    by (rule triple_eq [OF rest_read [OF ok stack_cells(1) [OF x] z(1)]])
      (use print_chain [OF ok _ z(2)] in \<open>auto simp: triple_def\<close>)
qed

section \<open>Push\<close>

lemma node_ctor:
  assumes ok: "pmdk_ok P V" and n: "new_at C M n sizeof_Node"
  shows "triple (intact V C) (wrk V C d L (M(n \<mapsto> sizeof_Node)) j w) (node_init P v (c_pool C + n))
    (\<lambda>_. wrk V C d L (M(n \<mapsto> sizeof_Node)) (j(n \<mapsto> VInt v, n + 8 \<mapsto> VOid OID_NULL)) w) (\<lambda>_. False)"
proof -
  have sub: "span (n + k) l \<subseteq> bytes (M(n \<mapsto> sizeof_Node))" if "k + l \<le> 24" for k l
    using span_subset_bytes [of "M(n \<mapsto> sizeof_Node)" n 24 k l] that by (simp add: sizeof_Node_def)
  have next_in: "n + 8 \<in> bytes (M(n \<mapsto> sizeof_Node))" using sub [of 8 1] by (auto simp: span_def)
  have fresh: "n + 8 \<notin> bytes (c_objs C)" "span n sizeof_int \<inter> bytes (c_objs C) = {}"
    using new_at_out(2) [OF n, of 8] new_at_apart [OF n, of 0 4]
    by (simp_all add: sizeof_int_def sizeof_Node_def)
  have init: "triple (intact V C) (wrk V C d L (M(n \<mapsto> sizeof_Node)) j w)
      (persistent_store P (c_pool C + n) v)
      (\<lambda>_. wrk V C d L (M(n \<mapsto> sizeof_Node)) (j(n \<mapsto> VInt v)) w) (\<lambda>_. False)"
    by (rule triple_store [OF ok]) (use sub [of 0 4] fresh in \<open>auto simp: sizeof_int_def\<close>)
  show ?thesis
    unfolding node_init_def persistent_init_def pmem_ptr_init_def node_value_def node_next_def
    by (rule triple_seq [OF init])
      (use triple_write_cell [OF ok next_in disjI2 [OF fresh(1)]] in \<open>simp add: add.assoc\<close>)
qed

lemma push_result:
  assumes M: "objects_ok M" and x: "stack_at M i x ns vs" and z: "cell i x get_oid z"
    and n: "new_at C M n 24" and j: "kept (bytes M) i j"
  shows "stack_at (M(n \<mapsto> 24)) (j(n \<mapsto> VInt v, n + 8 \<mapsto> VOid z, x \<mapsto> VOid (OID n),
      x + 16 \<mapsto> VInt (of_nat (length vs) + 1))) x (n # ns) (v # vs)"
    and "kept (bytes M - span x 24) i (j(n \<mapsto> VInt v, n + 8 \<mapsto> VOid z, x \<mapsto> VOid (OID n),
      x + 16 \<mapsto> VInt (of_nat (length vs) + 1)))"
proof -
  let ?k = "j(n \<mapsto> VInt v, n + 8 \<mapsto> VOid z, x \<mapsto> VOid (OID n), x + 16 \<mapsto> VInt (of_nat (length vs) + 1))"
  have size: "M m = Some 24" if "m \<in> set (x # ns)" for m by (rule stack_object_size [OF x that])
  have new: "n \<notin> set (x # ns)" using n size by (auto simp: new_at_def)
  have away: "n + d \<noteq> m + e" if "m \<in> set (x # ns)" "d < 24" "e < 24" for m d e
  proof -
    have "m + e \<in> bytes M" using stack_bytes [OF x that(1), of e 1] that by (auto simp: span_def)
    moreover have "n + d \<in> span n 24" using that by (simp add: span_def)
    ultimately show ?thesis using n by (auto simp: new_at_def)
  qed
  have apart: "x + d \<noteq> m + e" if "m \<in> set ns" "d < 24" "e < 24" for m d e
  proof -
    have "x \<noteq> m" using x that(1) by (auto simp: stack_at_def)
    then have "span x 24 \<inter> span m 24 = {}"
      using objects_ok_disjoint [OF M, of x 24 m 24] size that(1) by simp
    moreover have "x + d \<in> span x 24" "m + e \<in> span m 24" using that by (simp_all add: span_def)
    ultimately show ?thesis by (metis disjoint_iff)
  qed
  have old: "chain M i z ns vs" using x z by (auto simp: stack_at_def cell_def)
  have same: "?k (m + e) = i (m + e)" if "m \<in> set ns" "e < 24" for m e
    using away [of m 0 e] away [of m 8 e] apart [of m 0 e] apart [of m 16 e] that j
      stack_bytes [OF x, of m e 1] by (auto simp: kept_def span_def)
  have "chain (M(n \<mapsto> 24)) ?k z ns vs"
    by (rule chain_frame [OF old]) (use new same [of _ 0] same [of _ 8] in auto)
  moreover have "cell ?k n get_int v" "cell ?k (n + 8) get_oid z" "cell ?k x get_oid (OID n)"
      "cell ?k (x + 16) get_int (of_nat (length (v # vs)))"
    using away [of x 0 0] away [of x 0 16] away [of x 8 0] away [of x 8 16] by auto
  ultimately show "stack_at (M(n \<mapsto> 24)) ?k x (n # ns) (v # vs)"
    using new x by (auto simp: stack_at_def sizeof_Node_def sizeof_Stack_def)
  have out: "n \<notin> bytes M" "n + 8 \<notin> bytes M"
    using new_at_out(1) [OF n, of 0] new_at_out(1) [OF n, of 8] by simp_all
  show "kept (bytes M - span x 24) i ?k"
    using j out by (auto simp: kept_def span_def)
qed

definition pushed :: "ctx \<Rightarrow> (nat \<rightharpoonup> nat) \<Rightarrow> image \<Rightarrow> nat \<Rightarrow> nat list \<Rightarrow> 32 word list \<Rightarrow> nat \<Rightarrow>
    image \<Rightarrow> bool" where
  "pushed C M i x ns vs n k \<longleftrightarrow> new_at C M n 24
     \<and> stack_at (M(n \<mapsto> 24)) k x (n # ns) vs \<and> kept (bytes M - span x 24) i k"

lemma triple_push:
  assumes ok: "pmdk_ok P V" and M: "objects_ok M" and x: "stack_at M i x ns vs"
  shows "triple (intact V C) (wrk V C d L M i w) (push P (c_pool C + x) v)
    (\<lambda>_ s. \<exists>n k. pushed C M i x ns (v # vs) n k \<and> wrk V C d L (M(n \<mapsto> 24)) k w s) (stopping V C d)"
proof -
  obtain z where z: "cell i x get_oid z" using x by (auto simp: stack_at_def)
  let ?g = "\<lambda>n j. j(n \<mapsto> VInt v, n + 8 \<mapsto> VOid OID_NULL)"
  have new: "triple (intact V C) (wrk V C d L M i w) (new_node P v)
      (\<lambda>r s. \<exists>n j. (r = c_pool C + n \<and> new_at C M n 24 \<and> kept (bytes (c_objs C) \<union> bytes M) i j)
        \<and> wrk V C d L (M(n \<mapsto> 24)) (?g n j) w s) (stopping V C d)"
    unfolding new_node_def
    using triple_new [where g = ?g and n = sizeof_Node and ctor = "node_init P v", OF ok]
      node_ctor [OF ok] by (simp add: sizeof_Node_def)
  show ?thesis
    unfolding push_def
  proof (rule triple_andthen [OF new], intro triple_ex triple_pure, elim conjE)
    fix r n j
    assume r: "r = c_pool C + n" and n: "new_at C M n 24" and j: "kept (bytes (c_objs C) \<union> bytes M) i j"
    let ?M = "M(n \<mapsto> 24)" and ?j = "?g n j"
    let ?j1 = "?j(n + 8 \<mapsto> VOid z)"
    let ?j2 = "?j1(x \<mapsto> VOid (OID n))"
    let ?j3 = "?j2(x + 16 \<mapsto> VInt (of_nat (length vs) + 1))"
    have bytes: "bytes ?M = bytes M \<union> span n 24" using n by (intro bytes_upd) (simp add: new_at_def)
    note cells = stack_cells [OF x]
    have out: "n \<notin> bytes M" "n + 8 \<notin> bytes M"
      using new_at_out(1) [OF n, of 0] new_at_out(1) [OF n, of 8] by simp_all
    then have ne: "x \<noteq> n" "x \<noteq> n + 8" "x + 16 \<noteq> n" "x + 16 \<noteq> n + 8" using cells by metis+
    have top: "cell ?j x get_oid z" and size: "cell ?j2 (x + 16) get_int (of_nat (length vs))"
      using ne z x j cells by (auto simp: stack_at_def cell_def kept_def)
    have link: "triple (intact V C) (wrk V C d L ?M ?j w)
        (pmem_ptr_assign P (node_next r) (stack_top (c_pool C + x))) (\<lambda>_. wrk V C d L ?M ?j1 w) (stopping V C d)"
      using triple_assign [where x = "n + 8" and M = ?M and E = "stopping V C d", OF ok _ _ top] cells bytes
      by (simp add: r node_next_def stack_top_def add.assoc span_def sizeof_PMEMoid_def subset_iff)
    have topped: "triple (intact V C) (wrk V C d L ?M ?j1 w)
        (pmem_ptr_assign_raw P (stack_top (c_pool C + x)) r) (\<lambda>_. wrk V C d L ?M ?j2 w) (stopping V C d)"
      unfolding r stack_top_def
      by (rule triple_assign_raw [OF ok]) (use cells bytes in \<open>auto simp: span_def\<close>)
    have load: "triple (intact V C) (wrk V C d L ?M ?j2 w) (persistent_load P (stack_size (c_pool C + x)))
        (\<lambda>r s. r = of_nat (length vs) \<and> wrk V C d L ?M ?j2 w s) (stopping V C d)"
      using triple_load [OF ok _ size, of ?M] cells bytes by (simp add: stack_size_def add.assoc)
    have store: "triple (intact V C) (wrk V C d L ?M ?j2 w)
        (persistent_assign P (stack_size (c_pool C + x)) (of_nat (length vs) + 1))
        (\<lambda>_. wrk V C d L ?M ?j3 w) (stopping V C d)"
      unfolding persistent_assign_def stack_size_def add.assoc
      by (rule triple_store [OF ok]) (use cells bytes in auto)
    have j3: "?j3 = j(n \<mapsto> VInt v, n + 8 \<mapsto> VOid z, x \<mapsto> VOid (OID n),
        x + 16 \<mapsto> VInt (of_nat (length vs) + 1))"
      by simp
    have "pushed C M i x ns (v # vs) n ?j3"
      unfolding pushed_def j3
      using push_result [OF M x z n, of j v] n j kept_mono [OF j, of "bytes M"] by blast
    then show "triple (intact V C) (wrk V C d L ?M ?j w)
      (andthen (pmem_ptr_assign P (node_next r) (stack_top (c_pool C + x))) (\<lambda>_.
       andthen (pmem_ptr_assign_raw P (stack_top (c_pool C + x)) r) (\<lambda>_.
       andthen (persistent_load P (stack_size (c_pool C + x))) (\<lambda>k.
       persistent_assign P (stack_size (c_pool C + x)) (k + 1)))))
      (\<lambda>_ s. \<exists>n k. pushed C M i x ns (v # vs) n k \<and> wrk V C d L (M(n \<mapsto> 24)) k w s) (stopping V C d)"
      by (intro triple_seq [OF link] triple_seq [OF topped] triple_eq [OF load] triple_post [OF store])
        blast
  qed
qed

section \<open>Pop\<close>

lemma pop_result:
  assumes M: "objects_ok M" and x: "stack_at M i x (n # ns) (v # vs)" and y: "cell i (n + 8) get_oid y"
    and j: "kept (bytes (M(n := None))) (i(x \<mapsto> VOid y, x + 16 \<mapsto> VInt (of_nat (length vs)))) j"
  shows "stack_at (M(n := None)) j x ns vs" "kept (bytes (M(n := None)) - span x 24) i j"
proof -
  let ?i = "i(x \<mapsto> VOid y, x + 16 \<mapsto> VInt (of_nat (length vs)))"
  have size: "M m = Some 24" if "m \<in> set (x # n # ns)" for m by (rule stack_object_size [OF x that])
  have tail: "chain M i y ns vs" using x y by (auto simp: stack_at_def cell_def)
  have apart: "x + d \<noteq> m + e" if "m \<in> set ns" "d < 24" "e < 24" for m d e
  proof -
    have "x \<noteq> m" using x that(1) by (auto simp: stack_at_def)
    then have "span x 24 \<inter> span m 24 = {}"
      using objects_ok_disjoint [OF M, of x 24 m 24] size that(1) by simp
    moreover have "x + d \<in> span x 24" "m + e \<in> span m 24" using that by (simp_all add: span_def)
    ultimately show ?thesis by (metis disjoint_iff)
  qed
  have "chain M ?i y ns vs"
    by (rule chain_frame [OF tail])
      (use apart [of _ 0 0] apart [of _ 16 0] apart [of _ 0 8] apart [of _ 16 8] in auto)
  then have i: "stack_at M ?i x ns vs" using x by (auto simp: stack_at_def)
  have n: "n \<notin> set (x # ns)" using x by (auto simp: stack_at_def)
  have "kept (span m 24) ?i j" if "m \<in> set (x # ns)" for m
  proof (rule kept_mono [OF j])
    have "(M(n := None)) m = Some 24" using size [of m] that n by auto
    then show "span m 24 \<subseteq> bytes (M(n := None))"
      using span_subset_bytes [of "M(n := None)" m 24 0 24] by simp
  qed
  then show "stack_at (M(n := None)) j x ns vs" by (intro stack_frame [OF i]) (use n in auto)
  show "kept (bytes (M(n := None)) - span x 24) i j" using j by (auto simp: kept_def span_def)
qed

definition popped :: "(nat \<rightharpoonup> nat) \<Rightarrow> image \<Rightarrow> nat \<Rightarrow> nat \<Rightarrow> nat list \<Rightarrow> 32 word list \<Rightarrow> image \<Rightarrow> bool" where
  "popped M i x n ns vs k \<longleftrightarrow> stack_at (M(n := None)) k x ns vs
     \<and> kept (bytes (M(n := None)) - span x 24) i k"

lemma triple_pop_empty:
  assumes ok: "pmdk_ok P V" and x: "stack_at M i x [] []"
  shows "triple (intact V C) (wrk V C d L M i w) (pop P (c_pool C + x))
    (\<lambda>r s. r = 0 \<and> wrk V C d L M i w s) E"
proof -
  have z: "cell i x get_oid OID_NULL" using x by (auto simp: stack_at_def)
  show ?thesis
    unfolding pop_def pmem_ptr_bool_def stack_top_def
    by (rule triple_eq [where z = False])
      (auto intro!: triple_eq [OF triple_oid_of [OF ok stack_cells(1) [OF x] z]] triple_ret)
qed

lemma triple_pop:
  assumes ok: "pmdk_ok P V" and M: "objects_ok M" and x: "stack_at M i x (n # ns) (v # vs)"
  shows "triple (intact V C) (wrk V C d L M i w) (pop P (c_pool C + x))
    (\<lambda>r s. \<exists>k. (r = v \<and> popped M i x n ns vs k) \<and> wrk V C d L (M(n := None)) k w s) (stopping V C d)"
proof -
  note cells = stack_cells [OF x]
  have n: "M n = Some 24" by (rule stack_object_size [OF x]) simp
  have top: "cell i x get_oid (OID n)" and val: "cell i n get_int v"
    and size: "cell i (x + 16) get_int (of_nat (length (v # vs)))"
    using x by (auto simp: stack_at_def cell_def)
  obtain y where y: "cell i (n + 8) get_oid y" using x by (auto simp: stack_at_def)
  have in_n: "n \<in> bytes M" "n + 8 \<in> bytes M"
    using stack_bytes [OF x, of n 0 1] stack_bytes [OF x, of n 8 1] by (auto simp: span_def)
  let ?b = "c_pool C"
  let ?i1 = "i(x \<mapsto> VOid y)"
  let ?i2 = "?i1(x + 16 \<mapsto> VInt (of_nat (length (v # vs)) - 1))"
  have bool: "triple (intact V C) (wrk V C d L M i w) (pmem_ptr_bool P (stack_top (?b + x)))
      (\<lambda>r s. r = True \<and> wrk V C d L M i w s) (stopping V C d)"
    unfolding pmem_ptr_bool_def stack_top_def
    by (rule triple_eq [OF triple_oid_of [OF ok cells(1) top]]) (rule triple_ret, simp)
  have get: "triple (intact V C) (wrk V C d L M i w) (pmem_ptr_get P (stack_top (?b + x)))
      (\<lambda>r s. r = ?b + n \<and> wrk V C d L M i w s) (stopping V C d)"
    unfolding pmem_ptr_get_def stack_top_def
    by (rule triple_eq [OF triple_oid_of [OF ok cells(1) top]]) (rule triple_direct [OF ok])
  have "value": "triple (intact V C) (wrk V C d L M i w) (persistent_load P (node_value (?b + n)))
      (\<lambda>r s. r = v \<and> wrk V C d L M i w s) (stopping V C d)"
    unfolding node_value_def by (rule triple_load [OF ok in_n(1) val])
  have unlink: "triple (intact V C) (wrk V C d L M i w)
      (pmem_ptr_assign P (stack_top (?b + x)) (node_next (?b + n)))
      (\<lambda>_. wrk V C d L M ?i1 w) (stopping V C d)"
    using triple_assign [OF ok cells(3) in_n(2) y] by (simp add: stack_top_def node_next_def add.assoc)
  have size1: "cell ?i1 (x + 16) get_int (of_nat (length (v # vs)))" using size by simp
  have load: "triple (intact V C) (wrk V C d L M ?i1 w) (persistent_load P (stack_size (?b + x)))
      (\<lambda>r s. r = of_nat (length (v # vs)) \<and> wrk V C d L M ?i1 w s) (stopping V C d)"
    using triple_load [OF ok cells(2) size1] by (simp add: stack_size_def add.assoc)
  have store: "triple (intact V C) (wrk V C d L M ?i1 w)
      (persistent_assign P (stack_size (?b + x)) (of_nat (length (v # vs)) - 1))
      (\<lambda>_. wrk V C d L M ?i2 w) (stopping V C d)"
    using triple_store [OF ok cells(4)] by (simp add: persistent_assign_def stack_size_def add.assoc)
  have free: "triple (intact V C) (wrk V C d L M ?i2 w) (operator_delete P (?b + n))
    (\<lambda>_ s. \<exists>j. kept (bytes (c_objs C) \<union> bytes (M(n := None))) ?i2 j
      \<and> wrk V C d L (M(n := None)) j w s) (stopping V C d)"
    unfolding operator_delete_def by (rule triple_no_throw [OF triple_free [OF ok M]]) (rule n)
  have end_state: "popped M i x n ns vs j"
    if "kept (bytes (c_objs C) \<union> bytes (M(n := None))) ?i2 j" for j
    using pop_result [OF M x y, of j] kept_mono [OF that, of "bytes (M(n := None))"]
    by (simp add: popped_def)
  show ?thesis
    unfolding pop_def
    by (intro triple_eq [OF bool], simp only: not_True_eq_False if_False,
        intro triple_eq [OF get] triple_eq [OF "value"] triple_seq [OF unlink] triple_eq [OF load]
          triple_seq [OF store] triple_seq [OF free] triple_ex triple_pure triple_ret)
      (use end_state in blast)
qed

end
