(* ===== verification/Pm_Stack_Program.thy ===== *)
theory Pm_Stack_Program
  imports Pm_Stack
begin

text \<open>
  The stack program of src/concept/stack: the constructor of the stack, \<open>push\<close> in a transaction
  of its own and inside another one, and the whole run, which adds three elements at once.
\<close>

lemma stopping_of_rest_frame:
  "objects_ok M \<Longrightarrow> M x = Some n \<Longrightarrow> M y = Some m \<Longrightarrow> x \<noteq> y \<Longrightarrow> a \<in> span y m \<Longrightarrow>
   a \<in> bytes M - span x n"
  using objects_ok_disjoint [of M x n y m] bytesI [of M y m a] by auto

section \<open>The constructor\<close>

lemma stack_ctor:
  assumes ok: "pmdk_ok P V" and x: "new_at C M x sizeof_Stack"
  shows "triple (intact V C) (wrk V C d L (M(x \<mapsto> sizeof_Stack)) j w) (stack_init P (c_pool C + x))
    (\<lambda>_. wrk V C d L (M(x \<mapsto> sizeof_Stack)) (j(x \<mapsto> VOid OID_NULL, x + 16 \<mapsto> VInt 0)) w) (\<lambda>_. False)"
proof -
  let ?M = "M(x \<mapsto> sizeof_Stack)"
  have sub: "span (x + k) l \<subseteq> bytes ?M" if "k + l \<le> 24" for k l
    using span_subset_bytes [of ?M x 24 k l] that by (simp add: sizeof_Stack_def)
  have top_in: "x \<in> bytes ?M" using sub [of 0 1] by (auto simp: span_def)
  have fresh: "x \<notin> bytes (c_objs C)" "span (x + 16) sizeof_int \<inter> bytes (c_objs C) = {}"
    using new_at_out(2) [OF x, of 0] new_at_apart [OF x, of 16 4]
    by (simp_all add: sizeof_int_def sizeof_Stack_def)
  have init: "triple (intact V C) (wrk V C d L ?M (j(x \<mapsto> VOid OID_NULL)) w)
      (persistent_store P (c_pool C + (x + 16)) 0)
      (\<lambda>_. wrk V C d L ?M (j(x \<mapsto> VOid OID_NULL, x + 16 \<mapsto> VInt 0)) w) (\<lambda>_. False)"
    by (rule triple_store [OF ok]) (use sub [of 16 4] fresh in \<open>auto simp: sizeof_int_def\<close>)
  show ?thesis
    unfolding stack_init_def persistent_init_def pmem_ptr_init_def stack_top_def stack_size_def
    by (rule triple_seq [OF triple_write_cell [OF ok top_in disjI2 [OF fresh(1)]]])
      (use init in \<open>simp add: add.assoc\<close>)
qed

lemma new_stack:
  "stack_at (M(x \<mapsto> 24)) (j(x \<mapsto> VOid OID_NULL, x + 16 \<mapsto> VInt 0)) x [] []"
  by (simp add: stack_at_def sizeof_Stack_def)

section \<open>Push in a transaction\<close>

lemma triple_stack_push:
  assumes ok: "pmdk_ok P V" and d: "0 < d" and x: "stack_at M i x ns vs"
  shows "triple (intact V C) (wrk V C d L M i w) (stack_push P (c_pool C + x) v)
    (\<lambda>_ s. \<exists>n k. pushed C M i x ns (v # vs) n k \<and> wrk V C d L (M(n \<mapsto> 24)) k w s) (stopping V C d)"
proof (rule triple_wrk_objects)
  assume M: "objects_ok M"
  let ?R = "\<lambda>(_ :: unit) K N k u. \<exists>n. pushed C M i x ns (v # vs) n k \<and> N = M(n \<mapsto> 24) \<and> K = L \<and> u = w"
  have body: "triple (intact V C) (wrk V C (Suc d) L M i w) (push P (c_pool C + x) v)
      (\<lambda>a s. \<exists>K N j u. ?R a K N j u \<and> wrk V C (Suc d) K N j u s) (stopping V C (Suc d))"
    by (rule triple_post [OF triple_push [OF ok M x]]) blast
  show "triple (intact V C) (wrk V C d L M i w) (stack_push P (c_pool C + x) v)
    (\<lambda>_ s. \<exists>n k. pushed C M i x ns (v # vs) n k \<and> wrk V C d L (M(n \<mapsto> 24)) k w s) (stopping V C d)"
    unfolding stack_push_def
    by (rule triple_seq [OF triple_pool],
        rule triple_post [OF triple_transaction_nested [where R = ?R, OF ok d body]]) blast
qed

definition holds :: "nat \<Rightarrow> 32 word list \<Rightarrow> nat option \<Rightarrow> (nat \<rightharpoonup> nat) \<Rightarrow> image \<Rightarrow> bool" where
  "holds x vs rt M i \<longleftrightarrow> (\<exists>ns. stack_at M i x ns vs)"

lemma on_objects_holds: "on_objects (holds x vs)"
  unfolding on_objects_def holds_def using stack_kept by blast

definition holds_either :: "nat \<Rightarrow> 32 word list \<Rightarrow> 32 word list \<Rightarrow> nat option \<Rightarrow> (nat \<rightharpoonup> nat) \<Rightarrow> image \<Rightarrow> bool"
  where "holds_either x us vs rt M i \<longleftrightarrow> holds x us rt M i \<or> holds x vs rt M i"

lemma on_objects_either: "on_objects (holds_either x us vs)"
  using on_objects_or [OF on_objects_holds on_objects_holds, of x us x vs]
  unfolding on_objects_def holds_either_def .

lemma outer_push:
  assumes ok: "pmdk_ok P V" and x: "stack_at M i x ns vs"
  shows "triple (durable V (holds_either x vs (v # vs))) (rest V b rt M i w) (stack_push P (b + x) v)
    (\<lambda>_ s. \<exists>n k. (M n = None \<and> stack_at (M(n \<mapsto> 24)) k x (n # ns) (v # vs))
       \<and> rest V b rt (M(n \<mapsto> 24)) k w s)
    (\<lambda>s. \<exists>k u. stack_at M k x ns vs \<and> rest V b rt M k u s)"
proof (rule triple_rest_objects)
  assume M: "objects_ok M"
  let ?C = "ctx_of b rt M i"
  let ?f = "holds_either x vs (v # vs)"
  let ?R = "\<lambda>(_ :: unit) (K :: nat set) N k u. \<exists>n. pushed ?C M i x ns (v # vs) n k
      \<and> N = M(n \<mapsto> 24) \<and> u = w"
  have body: "triple (intact V ?C) (wrk V ?C 1 {} M i w) (push P (b + x) v)
      (\<lambda>a s. \<exists>K N j u. ?R a K N j u \<and> wrk V ?C 1 K N j u s) (stopping V ?C 1)"
    by (rule triple_post [OF triple_push [where C = ?C, OF ok M x, unfolded ctx_of_simps]]) blast
  have now: "?f rt M i" using x by (auto simp: holds_either_def holds_def)
  have run: "triple (durable V ?f) (rest V b rt M i w) (transaction_run P (push P (b + x) v))
      (\<lambda>a s. \<exists>K N j u k. (?R a K N j u \<and> kept (bytes N) j k) \<and> rest V b rt N k u s)
      (\<lambda>s. \<exists>k u. kept (bytes M) i k \<and> rest V b rt M k u s)"
    by (rule triple_transaction [where f = ?f and R = ?R, OF ok on_objects_either now body])
      (auto simp: holds_either_def holds_def pushed_def)
  show "triple (durable V ?f) (rest V b rt M i w) (stack_push P (b + x) v)
    (\<lambda>_ s. \<exists>n k. (M n = None \<and> stack_at (M(n \<mapsto> 24)) k x (n # ns) (v # vs))
       \<and> rest V b rt (M(n \<mapsto> 24)) k w s)
    (\<lambda>s. \<exists>k u. stack_at M k x ns vs \<and> rest V b rt M k u s)"
    unfolding stack_push_def
  proof (rule triple_seq [OF rest_pool], rule triple_conseq [OF run])
    fix a s assume "\<exists>K N j u k. (?R a K N j u \<and> kept (bytes N) j k) \<and> rest V b rt N k u s"
    then obtain n j k where n: "pushed ?C M i x ns (v # vs) n j" "kept (bytes (M(n \<mapsto> 24))) j k"
        "rest V b rt (M(n \<mapsto> 24)) k w s"
      by blast
    then have "M n = None" "stack_at (M(n \<mapsto> 24)) k x (n # ns) (v # vs)"
      using stack_kept [OF _ n(2)] by (simp_all add: pushed_def new_at_def)
    then show "\<exists>n k. (M n = None \<and> stack_at (M(n \<mapsto> 24)) k x (n # ns) (v # vs))
       \<and> rest V b rt (M(n \<mapsto> 24)) k w s"
      using n(3) by blast
  qed (use stack_kept [OF x] in blast)+
qed

section \<open>The program\<close>

definition stack_slot :: "nat \<Rightarrow> nat \<Rightarrow> 32 word list \<Rightarrow> (nat \<rightharpoonup> nat) \<Rightarrow> image \<Rightarrow> bool" where
  "stack_slot y x vs M i \<longleftrightarrow> M y = Some sizeof_PMEMoid \<and> cell i y get_oid (OID x)
     \<and> (\<exists>ns. stack_at M i x ns vs)"

definition stack_is :: "32 word list \<Rightarrow> nat option \<Rightarrow> (nat \<rightharpoonup> nat) \<Rightarrow> image \<Rightarrow> bool" where
  "stack_is vs rt M i \<longleftrightarrow> (case rt of
     None \<Rightarrow> vs = [] \<and> M = Map.empty
   | Some y \<Rightarrow> M y = Some sizeof_PMEMoid
       \<and> (cell i y get_oid OID_NULL \<and> vs = [] \<or> (\<exists>x. stack_slot y x vs M i)))"

lemma slot_is: "stack_slot y x vs M i \<Longrightarrow> stack_is vs (Some y) M i"
  by (auto simp: stack_is_def stack_slot_def)

lemma root_cell_kept:
  assumes "M y = Some sizeof_PMEMoid" "kept (bytes M) i j"
  shows "cell j y get_oid z \<longleftrightarrow> cell i y get_oid z"
  by (rule cell_kept [OF assms(2)]) (use start_in_bytes [of M y, OF assms(1)] in \<open>simp add: sizeof_PMEMoid_def\<close>)

lemma slot_kept: "stack_slot y x vs M i \<Longrightarrow> kept (bytes M) i j \<Longrightarrow> stack_slot y x vs M j"
  using root_cell_kept [of M y i j] stack_kept [of M i x _ vs j] by (auto simp: stack_slot_def)

lemma on_objects_stack_is: "on_objects (stack_is vs)"
  unfolding on_objects_def
proof (intro allI impI)
  fix rt M i j assume kept: "kept (bytes M) i j" and old: "stack_is vs rt M i"
  show "stack_is vs rt M j"
  proof (cases rt)
    case (Some y)
    with old have y: "M y = Some sizeof_PMEMoid"
      and cases: "cell i y get_oid OID_NULL \<and> vs = [] \<or> (\<exists>x. stack_slot y x vs M i)"
      by (simp_all add: stack_is_def)
    have "cell j y get_oid OID_NULL \<and> vs = [] \<or> (\<exists>x. stack_slot y x vs M j)"
      using cases root_cell_kept [of M y, OF y kept] slot_kept [OF _ kept] by blast
    then show ?thesis using y Some by (simp add: stack_is_def)
  qed (use old in \<open>simp add: stack_is_def\<close>)
qed

lemma slot_pushed:
  assumes M: "objects_ok M" and y: "stack_slot y x vs M i" and x: "stack_at M i x ns vs"
    and n: "pushed C M i x ns us n k"
  shows "stack_slot y x us (M(n \<mapsto> 24)) k"
proof -
  have "n \<noteq> y" using n y by (auto simp: pushed_def new_at_def stack_slot_def)
  have "x \<noteq> y" using x y by (auto simp: stack_slot_def stack_at_def sizeof_Stack_def sizeof_PMEMoid_def)
  then have "y \<in> bytes M - span x 24"
    using stopping_of_rest_frame [OF M, of x 24 y 16 y] x y
    by (auto simp: stack_slot_def stack_at_def sizeof_Stack_def sizeof_PMEMoid_def span_def)
  then have "cell k y get_oid (OID x)"
    using cell_kept [of "bytes M - span x 24" i k y get_oid "OID x"] n y by (auto simp: pushed_def stack_slot_def)
  then show ?thesis using n y \<open>n \<noteq> y\<close> by (auto simp: stack_slot_def pushed_def)
qed

lemma triple_slot_push:
  assumes ok: "pmdk_ok P V" and d: "0 < d" and y: "stack_slot y x vs M i"
  shows "triple (intact V C) (wrk V C d L M i w) (stack_push P (c_pool C + x) v)
    (\<lambda>_ s. \<exists>N k. stack_slot y x (v # vs) N k \<and> wrk V C d L N k w s) (stopping V C d)"
proof (rule triple_wrk_objects)
  assume M: "objects_ok M"
  obtain ns where x: "stack_at M i x ns vs" using y by (auto simp: stack_slot_def)
  show "triple (intact V C) (wrk V C d L M i w) (stack_push P (c_pool C + x) v)
    (\<lambda>_ s. \<exists>N k. stack_slot y x (v # vs) N k \<and> wrk V C d L N k w s) (stopping V C d)"
    by (rule triple_post [OF triple_stack_push [OF ok d x]]) (use slot_pushed [OF M y x] in blast)
qed

lemma triple_three_pushes:
  assumes ok: "pmdk_ok P V" and d: "0 < d" and y: "stack_slot y x vs M i"
  shows "triple (intact V C) (wrk V C d L M i w)
    (andthen (stack_push P (c_pool C + x) 10) (\<lambda>_.
     andthen (stack_push P (c_pool C + x) 20) (\<lambda>_. stack_push P (c_pool C + x) 30)))
    (\<lambda>_ s. \<exists>N k. stack_slot y x (30 # 20 # 10 # vs) N k \<and> wrk V C d L N k w s) (stopping V C d)"
  by (rule triple_seq [OF triple_slot_push [OF ok d y]], intro triple_ex triple_pure,
      rule triple_seq [OF triple_slot_push [OF ok d]], assumption, intro triple_ex triple_pure,
      rule triple_slot_push [OF ok d])

lemma stack_create:
  assumes ok: "pmdk_ok P V" and f: "on_objects f" "f rt M i"
    and a: "span a sizeof_PMEMoid \<subseteq> bytes M" "cell i a get_oid OID_NULL"
    and committed: "\<And>x j. new_at (ctx_of b rt M i) M x 24 \<Longrightarrow> kept (bytes M) i j \<Longrightarrow>
      f rt (M(x \<mapsto> 24)) (j(x \<mapsto> VOid OID_NULL, x + 16 \<mapsto> VInt 0, a \<mapsto> VOid (OID x)))"
  shows "triple (durable V f) (rest V b rt M i w)
    (pmem_get_or_create P sizeof_Stack 8 (stack_init P) (b + a))
    (\<lambda>r s. \<exists>x j k. (r = b + x \<and> new_at (ctx_of b rt M i) M x 24 \<and> kept (bytes M) i j
        \<and> kept (bytes (M(x \<mapsto> 24)))
            (j(x \<mapsto> VOid OID_NULL, x + 16 \<mapsto> VInt 0, a \<mapsto> VOid (OID x))) k)
      \<and> rest V b rt (M(x \<mapsto> 24)) k w s)
    (\<lambda>s. \<exists>k v. kept (bytes M) i k \<and> rest V b rt M k v s)"
  unfolding sizeof_Stack_def
  by (rule triple_create [where f = f and g = "\<lambda>x j. j(x \<mapsto> VOid OID_NULL, x + 16 \<mapsto> VInt 0)",
        OF ok f _ a])
    (use stack_ctor [where C = "ctx_of b rt M i", OF ok] committed in
      \<open>simp_all add: sizeof_Stack_def\<close>)

lemma stack_find:
  assumes ok: "pmdk_ok P V" and old: "stack_is vs (Some y) M i"
  shows "triple (durable V (stack_is vs)) (rest V b (Some y) M i w)
    (pmem_get_or_create P sizeof_Stack 8 (stack_init P) (b + y))
    (\<lambda>r s. \<exists>x N k. (r = b + x \<and> stack_slot y x vs N k) \<and> rest V b (Some y) N k w s)
    (durable V (stack_is vs))"
proof -
  from old have y: "M y = Some sizeof_PMEMoid" by (simp add: stack_is_def)
  have inside: "span y sizeof_PMEMoid \<subseteq> bytes M" "y \<in> bytes M"
    using span_subset_bytes [of M y sizeof_PMEMoid 0 sizeof_PMEMoid] start_in_bytes [of M y, OF y] y
    by (simp_all add: sizeof_PMEMoid_def)
  from old consider "cell i y get_oid OID_NULL" "vs = []" | x where "stack_slot y x vs M i"
    unfolding stack_is_def by auto
  then show ?thesis
  proof cases
    case 1
    let ?new = "\<lambda>x j. j(x \<mapsto> VOid OID_NULL, x + 16 \<mapsto> VInt 0, y \<mapsto> VOid (OID x))"
    have new: "stack_slot y x vs (M(x \<mapsto> 24)) (?new x j)"
      if "new_at (ctx_of b (Some y) M i) M x 24" for x j
    proof -
      have ne: "x \<noteq> y" "x + 16 \<noteq> y"
        using new_at_out(1) [OF that, of 0] new_at_out(1) [OF that, of 16] inside(2) by auto
      have "stack_at (M(x \<mapsto> 24)) (?new x j) x [] []"
        using ne by (auto simp: stack_at_def sizeof_Stack_def)
      then show ?thesis using y ne 1(2) by (auto simp: stack_slot_def)
    qed
    show ?thesis
    proof (rule triple_conseq [OF stack_create [where f = "stack_is vs",
            OF ok on_objects_stack_is old inside(1) 1(1)]])
      fix s assume "\<exists>k v. kept (bytes M) i k \<and> rest V b (Some y) M k v s"
      then show "durable V (stack_is vs) s"
      by (rule rest_kept_durable [where f = "stack_is vs", OF on_objects_stack_is old])
    qed (use new slot_is slot_kept in blast)+
  next
    case 2
    then have x: "cell i y get_oid (OID x)" by (simp add: stack_slot_def)
    show ?thesis
      by (rule triple_post [OF triple_find [OF ok inside(2) x]]) (use 2 in blast)
  qed
qed

definition stack_between :: "32 word list \<Rightarrow> nat option \<Rightarrow> (nat \<rightharpoonup> nat) \<Rightarrow> image \<Rightarrow> bool" where
  "stack_between vs rt M i \<longleftrightarrow> stack_is vs rt M i \<or> stack_is (30 # 20 # 10 # vs) rt M i"

lemma on_objects_stack_between: "on_objects (stack_between vs)"
  using on_objects_or [OF on_objects_stack_is on_objects_stack_is, of vs "30 # 20 # 10 # vs"]
  unfolding on_objects_def stack_between_def .

lemma stack_main_pushes:
  assumes ok: "pmdk_ok P V" and y: "stack_slot y x vs M i"
  shows "triple (durable V (stack_between vs)) (rest V b (Some y) M i w)
    (transaction_run P (andthen (stack_push P (b + x) 10) (\<lambda>_.
        andthen (stack_push P (b + x) 20) (\<lambda>_. stack_push P (b + x) 30))))
    (\<lambda>_ s. \<exists>N k. stack_slot y x (30 # 20 # 10 # vs) N k \<and> rest V b (Some y) N k w s)
    (durable V (stack_between vs))"
proof -
  let ?C = "ctx_of b (Some y) M i"
  let ?R = "\<lambda>(_ :: unit) (K :: nat set) N k u. stack_slot y x (30 # 20 # 10 # vs) N k \<and> u = w"
  let ?body = "andthen (stack_push P (b + x) 10) (\<lambda>_.
        andthen (stack_push P (b + x) 20) (\<lambda>_. stack_push P (b + x) 30))"
  have now: "stack_between vs (Some y) M i" using slot_is [OF y] by (simp add: stack_between_def)
  have body: "triple (intact V ?C) (wrk V ?C 1 {} M i w) ?body
      (\<lambda>a s. \<exists>K N j u. ?R a K N j u \<and> wrk V ?C 1 K N j u s) (stopping V ?C 1)"
    by (rule triple_post [OF triple_three_pushes [where C = ?C, OF ok _ y, unfolded ctx_of_simps]])
      (simp, blast)
  have "triple (durable V (stack_between vs)) (rest V b (Some y) M i w) (transaction_run P ?body)
      (\<lambda>a s. \<exists>K N j u k. (?R a K N j u \<and> kept (bytes N) j k) \<and> rest V b (Some y) N k u s)
      (\<lambda>s. \<exists>k u. kept (bytes M) i k \<and> rest V b (Some y) M k u s)"
    by (rule triple_transaction [where f = "stack_between vs" and R = ?R,
          OF ok on_objects_stack_between now body])
      (use slot_is in \<open>simp add: stack_between_def\<close>)
  then show ?thesis
  proof (rule triple_conseq)
    fix s assume "\<exists>k u. kept (bytes M) i k \<and> rest V b (Some y) M k u s"
    then show "durable V (stack_between vs) s"
      by (rule rest_kept_durable [where f = "stack_between vs", OF on_objects_stack_between now])
  qed (use slot_kept in blast)+
qed

lemma stack_main_rule:
  assumes ok: "pmdk_ok P V" and old: "stack_is vs (Some y) M i"
  shows "triple (durable V (stack_between vs)) (rest V b (Some y) M i w) (stack_main P (b + y))
    (\<lambda>r s. \<exists>N k v. (r = 30 # 20 # 10 # vs \<and> stack_is r (Some y) N k) \<and> rest V b (Some y) N k v s)
    (durable V (stack_between vs))"
proof -
  have weaker: "stack_is vs rt N k \<Longrightarrow> stack_between vs rt N k" for rt N k
    by (simp add: stack_between_def)
  have found: "triple (durable V (stack_between vs)) (rest V b (Some y) M i w)
    (pmem_get_or_create P sizeof_Stack 8 (stack_init P) (b + y))
    (\<lambda>r s. \<exists>x N k. (r = b + x \<and> stack_slot y x vs N k) \<and> rest V b (Some y) N k w s)
    (durable V (stack_between vs))"
    by (rule triple_conseq [OF triple_way [OF stack_find [OF ok old]]])
      (use durable_mono weaker in blast)+
  show ?thesis
    unfolding stack_main_def
  proof (rule triple_andthen [OF found], intro triple_ex triple_pure, elim conjE, simp only:,
      rule triple_seq [OF rest_pool], rule triple_seq [OF stack_main_pushes [OF ok]], assumption,
      intro triple_ex triple_pure)
    fix x N k assume x: "stack_slot y x (30 # 20 # 10 # vs) N k"
    then obtain ns where ns: "stack_at N k x ns (30 # 20 # 10 # vs)" by (auto simp: stack_slot_def)
    show "triple (durable V (stack_between vs)) (rest V b (Some y) N k w) (print P (b + x))
      (\<lambda>r s. \<exists>N k v. (r = 30 # 20 # 10 # vs \<and> stack_is r (Some y) N k) \<and> rest V b (Some y) N k v s)
      (durable V (stack_between vs))"
      by (rule triple_post [OF triple_print [OF ok ns]]) (use slot_is [OF x] in blast)
  qed
qed

lemma stack_program_rule:
  assumes ok: "pmdk_ok P V" and found: "pmdk_root_found P V"
  shows "triple (durable V (stack_between vs))
    (\<lambda>s. global_pool s = NULL \<and> durable V (stack_is vs) s) (stack_program P)
    (\<lambda>r s. r = 30 # 20 # 10 # vs \<and> global_pool s = NULL \<and> durable V (stack_is r) s)
    (durable V (stack_between vs))"
proof -
  have "triple (durable V (stack_between vs))
    (\<lambda>s. global_pool s = NULL \<and> durable V (stack_is vs) s) (stack_program P)
    (\<lambda>r s. global_pool s = NULL
       \<and> durable V (\<lambda>rt M i. r = 30 # 20 # 10 # vs \<and> stack_is r rt M i) s)
    (durable V (stack_between vs))"
    unfolding stack_program_def
  proof (rule triple_program [OF ok found])
    fix y M i j
    assume "stack_is vs None M i" "M y = None" "span y sizeof_PMEMoid \<inter> bytes M = {}"
      "\<forall>a\<in>span y sizeof_PMEMoid. j a = Some VZero"
    then show "stack_is vs (Some y) (M(y \<mapsto> sizeof_PMEMoid)) j"
      by (simp add: stack_is_def cell_def span_def sizeof_PMEMoid_def)
  next
    fix b y N j w assume "stack_is vs (Some y) N j"
    then show "triple (durable V (stack_between vs)) (rest V b (Some y) N j w) (stack_main P (b + y))
      (\<lambda>r s. \<exists>M k v. (r = 30 # 20 # 10 # vs \<and> stack_is r (Some y) M k) \<and> rest V b (Some y) M k v s)
      (durable V (stack_between vs))"
      by (rule stack_main_rule [OF ok])
  qed (use on_objects_stack_is on_objects_stack_between in
      \<open>auto simp: stack_between_def stack_is_def on_objects_def sizeof_PMEMoid_def\<close>)
  then show ?thesis
    by (rule triple_post) (auto simp: durable_def split: if_splits)
qed

end
