(* ===== verification/Pm_Hanoi.thy ===== *)
theory Pm_Hanoi
  imports Pm_Stack_Program "HOL-Library.Multiset"
begin

text \<open>
  The towers of Hanoi of src/concept/hanoi: three stacks that share the pool, one move as a
  transaction, and the recursion over the moves. Every state on the way recovers to three
  towers that hold all the disks, with no disk on a smaller one.
\<close>

section \<open>Three stacks in one pool\<close>

lemma other_stack_kept:
  assumes M: "objects_ok M" and y: "stack_at M i y ms us" and x: "M x = Some 24" "x \<notin> set (y # ms)"
    and same: "\<And>m. m \<in> set (y # ms) \<Longrightarrow> M1 m = M m" "\<And>m. m \<in> set (y # ms) \<Longrightarrow> N m = M m"
    and k: "kept (bytes M1 - span x 24) i k"
  shows "stack_at N k y ms us"
proof (rule stack_frame [OF y same(2)])
  fix m assume m: "m \<in> set (y # ms)"
  have size: "M m = Some 24" by (rule stack_object_size [OF y m])
  have "span m 24 \<subseteq> bytes M1"
    using span_subset_bytes [of M1 m 24 0 24] same(1) [OF m] size by simp
  moreover have "span m 24 \<inter> span x 24 = {}"
    using objects_ok_disjoint [OF M, of m 24 x 24] size x m by auto
  ultimately show "kept (span m 24) i k" by (intro kept_mono [OF k]) blast
qed

lemma other_object_kept:
  assumes M: "objects_ok M" and r: "M r = Some m" "r \<noteq> x" and x: "M x = Some 24"
    and same: "M1 r = M r" and k: "kept (bytes M1 - span x 24) i k"
  shows "kept (span r m) i k"
proof (rule kept_mono [OF k])
  have "span r m \<subseteq> bytes M1" using span_subset_bytes [of M1 r m 0 m] same r by simp
  moreover have "span r m \<inter> span x 24 = {}" using objects_ok_disjoint [OF M r(1) x r(2)] .
  ultimately show "span r m \<subseteq> bytes M1 - span x 24" by blast
qed

definition pegs :: "(nat \<rightharpoonup> nat) \<Rightarrow> image \<Rightarrow> nat \<Rightarrow> nat \<Rightarrow> nat \<Rightarrow>
    32 word list \<Rightarrow> 32 word list \<Rightarrow> 32 word list \<Rightarrow> bool" where
  "pegs M i x y z a b c \<longleftrightarrow> (\<exists>ns ms ks. stack_at M i x ns a \<and> stack_at M i y ms b
     \<and> stack_at M i z ks c \<and> distinct ((x # ns) @ (y # ms) @ (z # ks)))"

lemma pegs_swap: "pegs M i x y z a b c \<Longrightarrow> pegs M i x z y a c b"
  unfolding pegs_def by (elim exE conjE, intro exI conjI, assumption+) auto

lemma pegs_rotate: "pegs M i x y z a b c \<Longrightarrow> pegs M i y z x b c a"
  unfolding pegs_def by (elim exE conjE, intro exI conjI, assumption+) auto

lemma pegs_kept: "pegs M i x y z a b c \<Longrightarrow> kept (bytes M) i j \<Longrightarrow> pegs M j x y z a b c"
  unfolding pegs_def using stack_kept by blast

section \<open>One move\<close>

lemma triple_peg_push:
  assumes ok: "pmdk_ok P V" and p: "pegs M i x y z a b c" and r: "M r = Some 48"
  shows "triple (intact V C) (wrk V C d L M i w) (push P (c_pool C + x) v)
    (\<lambda>_ s. \<exists>N k. (pegs N k x y z (v # a) b c \<and> N r = Some 48 \<and> kept (span r 48) i k)
      \<and> wrk V C d L N k w s) (stopping V C d)"
proof (rule triple_wrk_objects)
  assume M: "objects_ok M"
  obtain ns ms ks where x: "stack_at M i x ns a" and y: "stack_at M i y ms b"
    and z: "stack_at M i z ks c" and dist: "distinct ((x # ns) @ (y # ms) @ (z # ks))"
    using p unfolding pegs_def by blast
  have x24: "M x = Some 24" by (rule stack_object_size [OF x]) simp
  have "r \<noteq> x" using r x24 by auto
  have reached: "pegs (M(q \<mapsto> 24)) k x y z (v # a) b c \<and> (M(q \<mapsto> 24)) r = Some 48 \<and> kept (span r 48) i k"
    if q: "pushed C M i x ns (v # a) q k" for q k
  proof -
    have kk: "kept (bytes M - span x 24) i k" and new: "M q = None"
      using q by (auto simp: pushed_def new_at_def)
    have out: "q \<notin> set (x # ns) \<union> set (y # ms) \<union> set (z # ks)" "q \<noteq> r"
      using new stack_object_size [OF x] stack_object_size [OF y] stack_object_size [OF z] r
      by fastforce+
    have "stack_at (M(q \<mapsto> 24)) k y ms b"
      by (rule other_stack_kept [OF M y x24 _ _ _ kk]) (use dist out in auto)
    moreover have "stack_at (M(q \<mapsto> 24)) k z ks c"
      by (rule other_stack_kept [OF M z x24 _ _ _ kk]) (use dist out in auto)
    moreover have "stack_at (M(q \<mapsto> 24)) k x (q # ns) (v # a)" using q by (simp add: pushed_def)
    moreover have "distinct ((x # q # ns) @ (y # ms) @ (z # ks))" using dist out by auto
    moreover have "kept (span r 48) i k"
      by (rule other_object_kept [OF M r \<open>r \<noteq> x\<close> x24 _ kk]) simp
    ultimately show ?thesis using r out unfolding pegs_def by (intro conjI) (blast, simp, blast)
  qed
  show "triple (intact V C) (wrk V C d L M i w) (push P (c_pool C + x) v)
    (\<lambda>_ s. \<exists>N k. (pegs N k x y z (v # a) b c \<and> N r = Some 48 \<and> kept (span r 48) i k)
      \<and> wrk V C d L N k w s) (stopping V C d)"
    by (rule triple_post [OF triple_push [OF ok M x]]) (use reached in blast)
qed

lemma triple_peg_pop:
  assumes ok: "pmdk_ok P V" and p: "pegs M i x y z (v # a) b c" and r: "M r = Some 48"
  shows "triple (intact V C) (wrk V C d L M i w) (pop P (c_pool C + x))
    (\<lambda>u s. \<exists>N k. (u = v \<and> pegs N k x y z a b c \<and> N r = Some 48 \<and> kept (span r 48) i k)
      \<and> wrk V C d L N k w s) (stopping V C d)"
proof (rule triple_wrk_objects)
  assume M: "objects_ok M"
  obtain ns0 ms ks where x0: "stack_at M i x ns0 (v # a)" and y: "stack_at M i y ms b"
    and z: "stack_at M i z ks c" and dist0: "distinct ((x # ns0) @ (y # ms) @ (z # ks))"
    using p unfolding pegs_def by blast
  obtain n ns where ns0: "ns0 = n # ns" using x0 by (cases ns0) (auto simp: stack_at_def)
  note x = x0 [unfolded ns0] and dist = dist0 [unfolded ns0]
  let ?M = "M(n := None)"
  have sizes: "M x = Some 24" "M n = Some 24" using stack_object_size [OF x] by simp_all
  have ne: "r \<noteq> x" "r \<noteq> n" using r sizes by auto
  have reached: "pegs ?M k x y z a b c \<and> ?M r = Some 48 \<and> kept (span r 48) i k"
    if q: "popped M i x n ns a k" for k
  proof -
    have kk: "kept (bytes ?M - span x 24) i k" and x1: "stack_at ?M k x ns a"
      using q by (simp_all add: popped_def)
    have "stack_at ?M k y ms b"
      by (rule other_stack_kept [OF M y sizes(1) _ _ _ kk]) (use dist in auto)
    moreover have "stack_at ?M k z ks c"
      by (rule other_stack_kept [OF M z sizes(1) _ _ _ kk]) (use dist in auto)
    moreover have "distinct ((x # ns) @ (y # ms) @ (z # ks))" using dist by auto
    ultimately have "pegs ?M k x y z a b c" using x1 unfolding pegs_def by blast
    then show ?thesis using other_object_kept [OF M r ne(1) sizes(1) _ kk] r ne by simp
  qed
  show "triple (intact V C) (wrk V C d L M i w) (pop P (c_pool C + x))
    (\<lambda>u s. \<exists>N k. (u = v \<and> pegs N k x y z a b c \<and> N r = Some 48 \<and> kept (span r 48) i k)
      \<and> wrk V C d L N k w s) (stopping V C d)"
    by (rule triple_post [OF triple_pop [OF ok M x]]) (use reached in blast)
qed

lemma triple_move_disk:
  assumes ok: "pmdk_ok P V" and p: "pegs M i x y z (v # a) b c" and r: "M r = Some 48"
  shows "triple (intact V C) (wrk V C d L M i w) (move_disk P (c_pool C + x) (c_pool C + y))
    (\<lambda>_ s. \<exists>N k. (pegs N k x y z a (v # b) c \<and> N r = Some 48 \<and> kept (span r 48) i k)
      \<and> wrk V C d L N k w s) (stopping V C d)"
  unfolding move_disk_def
proof (rule triple_andthen [OF triple_peg_pop [OF ok p]], rule r, intro triple_ex triple_pure, elim conjE)
  fix u N k
  assume u: "u = v" and q: "pegs N k x y z a b c" "N r = Some 48" "kept (span r 48) i k"
  show "triple (intact V C) (wrk V C d L N k w) (push P (c_pool C + y) u)
    (\<lambda>_ s. \<exists>N k. (pegs N k x y z a (v # b) c \<and> N r = Some 48 \<and> kept (span r 48) i k)
      \<and> wrk V C d L N k w s) (stopping V C d)"
    unfolding u
    by (rule triple_post [OF triple_peg_push [OF ok pegs_rotate [OF q(1)]]], rule q(2))
      (use pegs_rotate [OF pegs_rotate] kept_trans [OF q(3)] in blast)
qed

section \<open>Towers\<close>

definition smaller :: "32 word \<Rightarrow> 32 word \<Rightarrow> bool" where
  "smaller u v \<longleftrightarrow> sint u < sint v"

abbreviation tower :: "32 word list \<Rightarrow> bool" where
  "tower \<equiv> sorted_wrt smaller"

definition legal :: "32 word list \<Rightarrow> 32 word list \<Rightarrow> 32 word list \<Rightarrow> 32 word list \<Rightarrow> bool" where
  "legal ds a b c \<longleftrightarrow> tower a \<and> tower b \<and> tower c \<and> mset (a @ b @ c) = mset ds"

lemma legal_swap: "legal ds a b c \<Longrightarrow> legal ds a c b"
  by (auto simp: legal_def ac_simps)

lemma legal_rotate: "legal ds a b c \<Longrightarrow> legal ds b c a"
  by (auto simp: legal_def ac_simps)

text \<open>
  What the recursion over the moves needs of the property that every state has to recover to:
  it follows from three legal towers on the pegs, whatever else the moves change.
\<close>

definition tower_property :: "(nat option \<Rightarrow> (nat \<rightharpoonup> nat) \<Rightarrow> image \<Rightarrow> bool) \<Rightarrow> nat \<Rightarrow> image \<Rightarrow>
    32 word list \<Rightarrow> nat \<Rightarrow> nat \<Rightarrow> nat \<Rightarrow> bool" where
  "tower_property f r i0 ds x y z \<longleftrightarrow> on_objects f \<and> (\<forall>M i a b c. M r = Some 48 \<longrightarrow>
     kept (span r 48) i0 i \<longrightarrow> pegs M i x y z a b c \<longrightarrow> legal ds a b c \<longrightarrow> f (Some r) M i)"

lemma tower_property_swap: "tower_property f r i0 ds x y z \<Longrightarrow> tower_property f r i0 ds x z y"
  unfolding tower_property_def using pegs_swap legal_swap by blast

lemma tower_property_rotate: "tower_property f r i0 ds x y z \<Longrightarrow> tower_property f r i0 ds y z x"
  unfolding tower_property_def using pegs_rotate legal_rotate by metis

lemma outer_move:
  assumes ok: "pmdk_ok P V" and f: "tower_property f r i0 ds x y z"
    and p: "pegs M i x y z (v # a) b c" "M r = Some 48" "kept (span r 48) i0 i"
    and l: "legal ds (v # a) b c" "legal ds a (v # b) c"
  shows "triple (durable V f) (rest V p0 (Some r) M i w)
    (transaction_run P (move_disk P (p0 + x) (p0 + y)))
    (\<lambda>_ s. \<exists>N k. (pegs N k x y z a (v # b) c \<and> N r = Some 48 \<and> kept (span r 48) i0 k)
      \<and> rest V p0 (Some r) N k w s) (durable V f)"
proof -
  let ?C = "ctx_of p0 (Some r) M i"
  let ?R = "\<lambda>(_ :: unit) (K :: nat set) N k u. pegs N k x y z a (v # b) c \<and> N r = Some 48
      \<and> kept (span r 48) i0 k \<and> u = w"
  have fo: "on_objects f" using f by (simp add: tower_property_def)
  have now: "f (Some r) M i" using f p l(1) unfolding tower_property_def by blast
  have body: "triple (intact V ?C) (wrk V ?C 1 {} M i w) (move_disk P (p0 + x) (p0 + y))
      (\<lambda>a s. \<exists>K N j u. ?R a K N j u \<and> wrk V ?C 1 K N j u s) (stopping V ?C 1)"
    by (rule triple_post [OF triple_move_disk [where C = ?C, OF ok p(1,2), unfolded ctx_of_simps]])
      (use kept_trans [OF p(3)] in blast)
  have "triple (durable V f) (rest V p0 (Some r) M i w)
      (transaction_run P (move_disk P (p0 + x) (p0 + y)))
      (\<lambda>a s. \<exists>K N j u k. (?R a K N j u \<and> kept (bytes N) j k) \<and> rest V p0 (Some r) N k u s)
      (\<lambda>s. \<exists>k u. kept (bytes M) i k \<and> rest V p0 (Some r) M k u s)"
    by (rule triple_transaction [where f = f and R = ?R, OF ok fo now body])
      (use f l(2) in \<open>auto simp: tower_property_def\<close>)
  then show ?thesis
  proof (rule triple_conseq)
    fix s assume "\<exists>k u. kept (bytes M) i k \<and> rest V p0 (Some r) M k u s"
    then show "durable V f s"
      by (rule rest_kept_durable [where f = f, OF fo now])
  next
    fix q s assume "\<exists>K N j u k. (?R q K N j u \<and> kept (bytes N) j k) \<and> rest V p0 (Some r) N k u s"
    then obtain N j k where N: "pegs N j x y z a (v # b) c" "N r = Some 48" "kept (span r 48) i0 j"
      and k: "kept (bytes N) j k" "rest V p0 (Some r) N k w s"
      by blast
    have "span r 48 \<subseteq> bytes N" using span_subset_bytes [of N r 48 0 48] N(2) by simp
    then have "kept (span r 48) i0 k" using kept_trans [OF N(3) kept_mono [OF k(1)]] by blast
    then show "\<exists>N k. (pegs N k x y z a (v # b) c \<and> N r = Some 48 \<and> kept (span r 48) i0 k)
        \<and> rest V p0 (Some r) N k w s"
      using N pegs_kept [OF N(1) k(1)] k(2) by blast
  qed
qed

section \<open>All the moves\<close>

definition above :: "32 word list \<Rightarrow> 32 word list \<Rightarrow> bool" where
  "above ds l \<longleftrightarrow> (\<forall>u\<in>set ds. \<forall>v\<in>set l. smaller u v)"

lemma tower_append: "tower (ds @ l) \<longleftrightarrow> tower ds \<and> tower l \<and> above ds l"
  by (auto simp: above_def sorted_wrt_append)

lemma above_simps [simp]:
  "above ds (v # l) \<longleftrightarrow> (\<forall>u\<in>set ds. smaller u v) \<and> above ds l"
  "above ds [] " "above [] l" "above (u # ds) l \<longleftrightarrow> (\<forall>v\<in>set l. smaller u v) \<and> above ds l"
  "above ds (k @ l) \<longleftrightarrow> above ds k \<and> above ds l" "above (k @ ds) l \<longleftrightarrow> above k l \<and> above ds l"
  by (auto simp: above_def)

lemma legal_between:
  assumes "legal D (es @ d # a) b c" "above (es @ [d]) b" "above (es @ [d]) c"
  shows "legal D (d # a) b (es @ c)" "legal D a (d # b) (es @ c)"
  using assms by (auto simp: legal_def tower_append above_def ac_simps)

lemma pegs_reverse: "pegs M i x y z a b c \<Longrightarrow> pegs M i z y x c b a"
  by (rule pegs_swap) (rule pegs_rotate [OF pegs_rotate])

lemma triple_moveDisks:
  assumes ok: "pmdk_ok P V"
  shows "tower_property f r i0 D x y z \<Longrightarrow> pegs M i x y z (ds @ a) b c \<Longrightarrow> M r = Some 48 \<Longrightarrow>
    kept (span r 48) i0 i \<Longrightarrow> legal D (ds @ a) b c \<Longrightarrow> above ds b \<Longrightarrow> above ds c \<Longrightarrow>
    triple (durable V f) (rest V p0 (Some r) M i w)
      (moveDisks P (int (length ds)) (p0 + x) (p0 + y) (p0 + z))
      (\<lambda>_ s. \<exists>N k. (pegs N k x y z a (ds @ b) c \<and> N r = Some 48 \<and> kept (span r 48) i0 k)
        \<and> rest V p0 (Some r) N k w s) (durable V f)"
proof (induction ds arbitrary: x y z a b c M i rule: rev_induct)
  case Nil
  then show ?case by (subst moveDisks.simps) (auto intro!: triple_ret)
next
  case (snoc d es)
  let ?Q = "\<lambda>s. \<exists>N k. (pegs N k x y z a ((es @ [d]) @ b) c \<and> N r = Some 48 \<and> kept (span r 48) i0 k)
        \<and> rest V p0 (Some r) N k w s"
  note legal = legal_between [of D es d a b c]
  have start: "legal D (es @ d # a) b c" using snoc.prems(5) by simp
  have order: "above (es @ [d]) b" "above (es @ [d]) c" "above es (d # a)"
    using snoc.prems start by (auto simp: legal_def tower_append)
  have f2: "tower_property f r i0 D x z y" by (rule tower_property_swap [OF snoc.prems(1)])
  have f3: "tower_property f r i0 D z y x"
    by (rule tower_property_swap, rule tower_property_rotate, rule tower_property_rotate) (rule snoc.prems(1))
  have first: "triple (durable V f) (rest V p0 (Some r) M i w)
      (moveDisks P (int (length es)) (p0 + x) (p0 + z) (p0 + y))
      (\<lambda>_ s. \<exists>N k. (pegs N k x z y (d # a) (es @ c) b \<and> N r = Some 48 \<and> kept (span r 48) i0 k)
        \<and> rest V p0 (Some r) N k w s) (durable V f)"
    by (rule snoc.IH [where M = M and i = i, OF f2 _ snoc.prems(3,4)])
      (use pegs_swap [OF snoc.prems(2)] legal_swap [OF start] order in auto)
  have move: "triple (durable V f) (rest V p0 (Some r) N k w)
      (transaction_run P (move_disk P (p0 + x) (p0 + y)))
      (\<lambda>_ s. \<exists>N k. (pegs N k x y z a (d # b) (es @ c) \<and> N r = Some 48 \<and> kept (span r 48) i0 k)
        \<and> rest V p0 (Some r) N k w s) (durable V f)"
    if "pegs N k x z y (d # a) (es @ c) b" "N r = Some 48" "kept (span r 48) i0 k" for N k
    by (rule outer_move [where M = N and i = k, OF ok snoc.prems(1) pegs_swap [OF that(1)] that(2,3) legal [OF start order(1,2)]])
  have last: "triple (durable V f) (rest V p0 (Some r) N k w)
      (moveDisks P (int (length es)) (p0 + z) (p0 + y) (p0 + x)) (\<lambda>_. ?Q) (durable V f)"
    if N: "pegs N k x y z a (d # b) (es @ c)" "N r = Some 48" "kept (span r 48) i0 k" for N k
  proof (rule triple_post)
    have "legal D (es @ c) (d # b) a"
      using legal(2) [OF start order(1,2)] by (auto simp: legal_def ac_simps)
    then show "triple (durable V f) (rest V p0 (Some r) N k w)
      (moveDisks P (int (length es)) (p0 + z) (p0 + y) (p0 + x))
      (\<lambda>_ s. \<exists>N k. (pegs N k z y x c (es @ d # b) a \<and> N r = Some 48 \<and> kept (span r 48) i0 k)
        \<and> rest V p0 (Some r) N k w s) (durable V f)"
      by (intro snoc.IH [where M = N and i = k, OF f3 pegs_reverse [OF N(1)] N(2,3)]) (use order in auto)
  next
    fix q s
    assume "\<exists>N k. (pegs N k z y x c (es @ d # b) a \<and> N r = Some 48 \<and> kept (span r 48) i0 k)
        \<and> rest V p0 (Some r) N k w s"
    then show "?Q s" using pegs_reverse by fastforce
  qed
  have n: "int (length (es @ [d])) - 1 = int (length es)" "\<not> int (length (es @ [d])) \<le> 0" by simp_all
  show ?case
    by (subst moveDisks.simps, unfold n(1) if_not_P [OF n(2)], rule triple_seq [OF first],
        intro triple_ex triple_pure, elim conjE, rule triple_seq [OF rest_pool],
        rule triple_seq [OF move], assumption+, intro triple_ex triple_pure, elim conjE, rule last)
qed

end
