(* ===== verification/Pm_Hanoi_Program.thy ===== *)
theory Pm_Hanoi_Program
  imports Pm_Hanoi
begin

text \<open>
  The program of src/concept/hanoi as a whole: three slots of the root object, the stacks that
  are found or created through them, the disks that are put on the first peg when all pegs are
  empty, and the moves.
\<close>

section \<open>Slots of the root object\<close>

definition slot_of :: "(nat \<rightharpoonup> nat) \<Rightarrow> image \<Rightarrow> nat \<Rightarrow> 32 word list \<Rightarrow> nat list \<Rightarrow> bool" where
  "slot_of M i a l ns \<longleftrightarrow> (case ns of
     [] \<Rightarrow> cell i a get_oid OID_NULL \<and> l = []
   | x # ms \<Rightarrow> cell i a get_oid (OID x) \<and> stack_at M i x ms l)"

definition three_slots :: "nat \<Rightarrow> (nat \<rightharpoonup> nat) \<Rightarrow> image \<Rightarrow> nat list list \<Rightarrow> 32 word list list \<Rightarrow> bool" where
  "three_slots r M i ns ls \<longleftrightarrow> M r = Some 48 \<and> length ns = 3 \<and> length ls = 3
     \<and> (\<forall>k<3. slot_of M i (r + 16 * k) (ls ! k) (ns ! k)) \<and> distinct (concat ns)"

definition hanoi_is :: "32 word list list \<Rightarrow> nat option \<Rightarrow> (nat \<rightharpoonup> nat) \<Rightarrow> image \<Rightarrow> bool" where
  "hanoi_is ls rt M i \<longleftrightarrow> (case rt of
     None \<Rightarrow> ls = [[], [], []] \<and> M = Map.empty
   | Some r \<Rightarrow> \<exists>ns. three_slots r M i ns ls)"

lemma slot_address:
  assumes "M r = Some 48" "k < 3"
  shows "span (r + 16 * k) 16 \<subseteq> bytes M" "r + 16 * k \<in> span r 48" "r + 16 * k \<in> bytes M"
  using span_subset_bytes [of M r 48 "16 * k" 16] assms by (auto simp: span_def)

lemma slot_kept_all:
  assumes "slot_of M i a l ns" "a \<in> bytes M" "kept (bytes M) i j"
  shows "slot_of M j a l ns"
  using assms cell_kept [OF assms(3,2), where g = get_oid] stack_kept [OF _ assms(3)]
  by (auto simp: slot_of_def split: list.splits)

lemma three_slots_kept:
  assumes s: "three_slots r M i ns ls" and k: "kept (bytes M) i j"
  shows "three_slots r M j ns ls"
proof -
  have r: "M r = Some 48" using s by (simp add: three_slots_def)
  have "slot_of M j (r + 16 * l) (ls ! l) (ns ! l)" if "l < 3" for l
    by (rule slot_kept_all [OF _ slot_address(3) [of M r, OF r that] k])
      (use s that in \<open>simp add: three_slots_def\<close>)
  then show ?thesis using s by (simp add: three_slots_def)
qed

lemma on_objects_hanoi_is: "on_objects (hanoi_is ls)"
  unfolding on_objects_def hanoi_is_def
  by (auto split: option.splits intro: three_slots_kept)

lemma slot_objects:
  assumes "three_slots r M i ns ls" "k < 3" "m \<in> set (ns ! k)"
  shows "M m = Some 24"
proof -
  have "slot_of M i (r + 16 * k) (ls ! k) (ns ! k)" using assms(1,2) by (simp add: three_slots_def)
  moreover obtain x ms where x: "ns ! k = x # ms" using assms(3) by (cases "ns ! k") auto
  ultimately have "stack_at M i x ms (ls ! k)" by (simp add: slot_of_def)
  then show ?thesis by (rule stack_object_size) (use assms(3) x in simp)
qed

lemma slot_frame:
  assumes s: "slot_of M i a l ns" and objs: "\<And>m. m \<in> set ns \<Longrightarrow> N m = M m"
    and cells: "\<And>m. m \<in> set ns \<Longrightarrow> kept (span m 24) i j" "j a = i a"
  shows "slot_of N j a l ns"
proof (cases ns)
  case (Cons x ms)
  then have "stack_at M i x ms l" using s by (simp add: slot_of_def)
  then have "stack_at N j x ms l" by (rule stack_frame) (simp_all add: objs cells(1) Cons)
  then show ?thesis using s Cons cells(2) by (simp add: slot_of_def cell_def)
qed (use s cells(2) in \<open>simp add: slot_of_def cell_def\<close>)

section \<open>Finding or creating the stack of a slot\<close>

lemma concat_update_distinct:
  assumes "distinct (concat ns)" "k < length ns" "ns ! k = []" "x \<notin> set (concat ns)"
  shows "distinct (concat (ns[k := [x]]))"
proof -
  have parts: "ns = take k ns @ [] # drop (Suc k) ns"
    using assms(2,3) id_take_nth_drop [of k ns] by simp
  have new: "ns[k := [x]] = take k ns @ [x] # drop (Suc k) ns"
    using assms(2) by (simp add: upd_conv_take_nth_drop)
  show ?thesis
    using assms(1,4) unfolding new by (subst (asm) parts, subst (asm) (2) parts) auto
qed

lemma slot_created:
  assumes M: "objects_ok M" and s: "three_slots r M i ns ls" and k: "k < 3" "ns ! k = []"
    and x: "new_at C M x 24" and j: "kept (bytes M) i j"
  shows "three_slots r (M(x \<mapsto> 24))
    (j(x \<mapsto> VOid OID_NULL, x + 16 \<mapsto> VInt 0, r + 16 * k \<mapsto> VOid (OID x))) (ns[k := [x]]) ls"
proof -
  let ?M = "M(x \<mapsto> 24)" and ?a = "r + 16 * k"
  let ?j = "j(x \<mapsto> VOid OID_NULL, x + 16 \<mapsto> VInt 0, ?a \<mapsto> VOid (OID x))"
  have r: "M r = Some 48" and lens: "length ns = 3" "length ls = 3" and dist: "distinct (concat ns)"
    using s by (simp_all add: three_slots_def)
  have new: "M x = None" and out: "x \<notin> bytes M" "x + 16 \<notin> bytes M"
    using x new_at_out(1) [OF x, of 0] new_at_out(1) [OF x, of 16] by (simp_all add: new_at_def)
  have a: "?a \<in> span r 48" "?a \<in> bytes M" using slot_address [of M r, OF r k(1)] by simp_all
  have ne: "x \<noteq> ?a" "x + 16 \<noteq> ?a" using a(2) out by auto
  have others: "slot_of ?M ?j (r + 16 * l) (ls ! l) (ns ! l)" if "l < 3" "l \<noteq> k" for l
  proof (rule slot_frame)
    show "slot_of M i (r + 16 * l) (ls ! l) (ns ! l)" using s that(1) by (simp add: three_slots_def)
  next
    fix m assume "m \<in> set (ns ! l)"
    note size = slot_objects [OF s that(1) this]
    then show "?M m = M m" using new by auto
    have sub: "span m 24 \<subseteq> bytes M" using span_subset_bytes [of M m 24 0 24] size by simp
    have "m \<noteq> r" using size r by auto
    then have apart: "span m 24 \<inter> span r 48 = {}"
      using objects_ok_disjoint [OF M, of m 24 r 48] size r by simp
    show "kept (span m 24) i ?j"
      using sub apart a(1) out j unfolding kept_def by (auto simp: subset_iff)
  next
    have "r + 16 * l \<in> bytes M" using slot_address(3) [of M r, OF r that(1)] .
    then show "?j (r + 16 * l) = i (r + 16 * l)" using out j that(2) by (auto simp: kept_def)
  qed
  have "stack_at ?M ?j x [] []" using ne by (auto simp: stack_at_def sizeof_Stack_def)
  moreover have "ls ! k = []" using s k by (auto simp: three_slots_def slot_of_def)
  ultimately have this_slot: "slot_of ?M ?j ?a (ls ! k) [x]" using ne by (simp add: slot_of_def)
  have "x \<notin> set (concat ns)"
  proof
    assume "x \<in> set (concat ns)"
    then obtain n where "n \<in> set ns" "x \<in> set n" by auto
    then obtain l where "l < 3" "x \<in> set (ns ! l)" using lens(1) by (metis in_set_conv_nth)
    then show False using slot_objects [OF s] new by auto
  qed
  then have "distinct (concat (ns[k := [x]]))"
    using concat_update_distinct [OF dist] k lens by simp
  moreover have "slot_of ?M ?j (r + 16 * l) (ls ! l) (ns[k := [x]] ! l)" if "l < 3" for l
    using others [OF that] this_slot lens that by (cases "l = k") auto
  moreover have "?M r = Some 48" using r new by auto
  ultimately show ?thesis using lens by (simp add: three_slots_def)
qed

lemma hanoi_slot:
  assumes ok: "pmdk_ok P V" and s: "three_slots r M i ns ls" and k: "k < 3"
  shows "triple (durable V (hanoi_is ls)) (rest V b (Some r) M i w)
    (pmem_get_or_create P sizeof_Stack 8 (stack_init P) (b + (r + 16 * k)))
    (\<lambda>p s. \<exists>x ms N j. (p = b + x \<and> three_slots r N j (ns[k := x # ms]) ls
        \<and> (ns ! k \<noteq> [] \<longrightarrow> ns ! k = x # ms)) \<and> rest V b (Some r) N j w s)
    (durable V (hanoi_is ls))"
proof (rule triple_rest_objects)
  assume M: "objects_ok M"
  have r: "M r = Some 48" "length ns = 3" using s by (simp_all add: three_slots_def)
  have here: "slot_of M i (r + 16 * k) (ls ! k) (ns ! k)" using s k by (simp add: three_slots_def)
  have now: "hanoi_is ls (Some r) M i" using s by (auto simp: hanoi_is_def)
  show "triple (durable V (hanoi_is ls)) (rest V b (Some r) M i w)
    (pmem_get_or_create P sizeof_Stack 8 (stack_init P) (b + (r + 16 * k)))
    (\<lambda>p s. \<exists>x ms N j. (p = b + x \<and> three_slots r N j (ns[k := x # ms]) ls
        \<and> (ns ! k \<noteq> [] \<longrightarrow> ns ! k = x # ms)) \<and> rest V b (Some r) N j w s)
    (durable V (hanoi_is ls))"
  proof (cases "ns ! k")
    case Nil
    then have null: "cell i (r + 16 * k) get_oid OID_NULL" using here by (simp add: slot_of_def)
    have inside: "span (r + 16 * k) sizeof_PMEMoid \<subseteq> bytes M"
      using slot_address(1) [of M r, OF r(1) k] by (simp add: sizeof_PMEMoid_def)
    note new = slot_created [OF M s k Nil]
    show ?thesis
    proof (rule triple_conseq [OF stack_create [where f = "hanoi_is ls", OF ok on_objects_hanoi_is now inside null]])
      fix x j assume "new_at (ctx_of b (Some r) M i) M x 24" "kept (bytes M) i j"
      then show "hanoi_is ls (Some r) (M(x \<mapsto> 24))
          (j(x \<mapsto> VOid OID_NULL, x + 16 \<mapsto> VInt 0, r + 16 * k \<mapsto> VOid (OID x)))"
        using new unfolding hanoi_is_def by auto
    next
      fix s assume "\<exists>k v. kept (bytes M) i k \<and> rest V b (Some r) M k v s"
      then show "durable V (hanoi_is ls) s"
        by (rule rest_kept_durable [where f = "hanoi_is ls", OF on_objects_hanoi_is now])
    qed (use new three_slots_kept Nil in blast)+
  next
    case (Cons x ms)
    then have "cell i (r + 16 * k) get_oid (OID x)" using here by (simp add: slot_of_def)
    moreover have "ns[k := x # ms] = ns" using Cons k r(2) by (metis list_update_id)
    ultimately show ?thesis
      using s Cons slot_address(3) [of M r, OF r(1) k]
      by (intro triple_post [OF triple_find [OF ok]]) (assumption+, fastforce)
  qed
qed

section \<open>The three pegs\<close>

lemma less_three: "(\<forall>k<3. Q k) \<longleftrightarrow> Q 0 \<and> Q 1 \<and> Q (2 :: nat)"
  by (auto simp: numeral_3_eq_3 less_Suc_eq numeral_2_eq_2)

definition peg_cells :: "nat \<Rightarrow> image \<Rightarrow> nat \<Rightarrow> nat \<Rightarrow> nat \<Rightarrow> bool" where
  "peg_cells r i x y z \<longleftrightarrow> cell i r get_oid (OID x) \<and> cell i (r + 16) get_oid (OID y)
     \<and> cell i (r + 32) get_oid (OID z)"

lemma peg_cells_kept: "peg_cells r i x y z \<Longrightarrow> kept (span r 48) i j \<Longrightarrow> peg_cells r j x y z"
  by (auto simp: peg_cells_def cell_kept span_def)

lemma slots_pegs:
  assumes "three_slots r M i [x # n1, y # n2, z # n3] [a, b, c]"
  shows "pegs M i x y z a b c" "peg_cells r i x y z"
  using assms unfolding three_slots_def less_three pegs_def peg_cells_def
  by (auto simp: slot_of_def numeral_2_eq_2)

lemma pegs_slots:
  assumes "pegs M i x y z a b c" "peg_cells r i x y z" "M r = Some 48"
  shows "\<exists>ns. three_slots r M i ns [a, b, c]"
proof -
  obtain n1 n2 n3 where "stack_at M i x n1 a" "stack_at M i y n2 b" "stack_at M i z n3 c"
      "distinct ((x # n1) @ (y # n2) @ (z # n3))"
    using assms(1) unfolding pegs_def by blast
  then have "three_slots r M i [x # n1, y # n2, z # n3] [a, b, c]"
    using assms(2,3) unfolding three_slots_def less_three
    by (simp add: slot_of_def peg_cells_def numeral_2_eq_2)
  then show ?thesis by blast
qed

definition hanoi_legal :: "32 word list \<Rightarrow> nat option \<Rightarrow> (nat \<rightharpoonup> nat) \<Rightarrow> image \<Rightarrow> bool" where
  "hanoi_legal ds rt M i \<longleftrightarrow> (\<exists>a b c. hanoi_is [a, b, c] rt M i \<and> legal ds a b c)"

lemma on_objects_hanoi_legal: "on_objects (hanoi_legal ds)"
  using on_objects_hanoi_is unfolding on_objects_def hanoi_legal_def by blast

lemma hanoi_tower_property:
  assumes "peg_cells r i0 x y z"
  shows "tower_property (hanoi_legal ds) r i0 ds x y z"
  unfolding tower_property_def
proof (intro conjI allI impI)
  fix M i a b c
  assume "M r = Some 48" "kept (span r 48) i0 i" "pegs M i x y z a b c" "legal ds a b c"
  then show "hanoi_legal ds (Some r) M i"
    using pegs_slots [of M i x y z a b c r] peg_cells_kept [OF assms, of i]
    unfolding hanoi_legal_def hanoi_is_def by auto
qed (rule on_objects_hanoi_legal)

section \<open>Seeding\<close>

lemma triple_isEmpty:
  assumes ok: "pmdk_ok P V" and x: "stack_at M i x ns a" and len: "length a < 2 ^ 32"
  shows "triple I (wrk V C d L M i w) (isEmpty P (c_pool C + x))
    (\<lambda>e s. e = (a = []) \<and> wrk V C d L M i w s) E"
proof -
  have size: "cell i (x + 16) get_int (of_nat (length a))" using x by (simp add: stack_at_def)
  have "of_nat (length a) = (0 :: 32 word) \<longleftrightarrow> a = []"
    using len by (simp add: word_unat_eq_iff unat_of_nat take_bit_eq_mod)
  then show ?thesis
    unfolding isEmpty_def stack_size_def add.assoc
    by (intro triple_eq [OF triple_load [OF ok stack_cells(2) [OF x] size]] triple_ret) simp
qed

definition seeded :: "32 word list \<Rightarrow> 32 word list \<Rightarrow> 32 word list \<Rightarrow> bool" where
  "seeded a b c \<longleftrightarrow> a = [] \<and> b = [] \<and> c = []"

definition all_disks :: "32 word list" where
  "all_disks = [1, 2, 3]"

lemma triple_seed:
  assumes ok: "pmdk_ok P V" and p: "pegs M i x y z a b c" and r: "M r = Some 48"
    and len: "length a < 2 ^ 32" "length b < 2 ^ 32" "length c < 2 ^ 32"
  shows "triple (intact V C) (wrk V C d L M i w)
    (hanoi_seed P (c_pool C + x) (c_pool C + y) (c_pool C + z))
    (\<lambda>f s. \<exists>N k. (f = seeded a b c \<and> pegs N k x y z (if f then all_disks else a) b c
        \<and> N r = Some 48 \<and> kept (span r 48) i k) \<and> wrk V C d L N k w s) (stopping V C d)"
proof -
  obtain n1 n2 n3 where st: "stack_at M i x n1 a" "stack_at M i y n2 b" "stack_at M i z n3 c"
    using p unfolding pegs_def by blast
  have e2: "triple (intact V C) (wrk V C d L M i w)
      (if a = [] then isEmpty P (c_pool C + y) else ret False)
      (\<lambda>e s. e = (a = [] \<and> b = []) \<and> wrk V C d L M i w s) (stopping V C d)"
    using triple_isEmpty [OF ok st(2) len(2)] by (auto intro!: triple_ret)
  have e3: "triple (intact V C) (wrk V C d L M i w)
      (if a = [] \<and> b = [] then isEmpty P (c_pool C + z) else ret False)
      (\<lambda>e s. e = seeded a b c \<and> wrk V C d L M i w s) (stopping V C d)"
    using triple_isEmpty [OF ok st(3) len(3)] by (auto simp: seeded_def intro!: triple_ret)
  let ?Q = "\<lambda>f s. \<exists>N k. (f = seeded a b c \<and> pegs N k x y z (if f then all_disks else a) b c
        \<and> N r = Some 48 \<and> kept (span r 48) i k) \<and> wrk V C d L N k w s"
  have push: "triple (intact V C) (wrk V C d L N k w) (push P (c_pool C + x) v)
    (\<lambda>_ s. \<exists>N k. (pegs N k x y z (v # l) b c \<and> N r = Some 48 \<and> kept (span r 48) i k)
      \<and> wrk V C d L N k w s) (stopping V C d)"
    if q: "pegs N k x y z l b c" "N r = Some 48" "kept (span r 48) i k" for N k l v
    by (rule triple_post [OF triple_peg_push [where M = N and i = k, OF ok q(1,2)]])
      (use kept_trans [OF q(3)] in blast)
  have seed: "triple (intact V C) (wrk V C d L M i w)
      (andthen (push P (c_pool C + x) 3) (\<lambda>_. andthen (push P (c_pool C + x) 2) (\<lambda>_.
       andthen (push P (c_pool C + x) 1) (\<lambda>_. ret True)))) ?Q (stopping V C d)"
    if e: "seeded a b c"
    by (rule triple_seq [OF push [OF p r]], rule kept_refl, intro triple_ex triple_pure, elim conjE,
        rule triple_seq [OF push], assumption+, intro triple_ex triple_pure, elim conjE,
        rule triple_seq [OF push], assumption+, intro triple_ex triple_pure, elim conjE,
        rule triple_ret) (use e in \<open>auto simp: seeded_def all_disks_def\<close>)
  have stay: "triple (intact V C) (wrk V C d L M i w) (ret False) ?Q (stopping V C d)"
    if "\<not> seeded a b c"
    by (rule triple_ret) (use that p r in \<open>auto intro!: exI [of _ M] exI [of _ i]\<close>)
  show ?thesis
    unfolding hanoi_seed_def
    by (rule triple_eq [OF triple_isEmpty [OF ok st(1) len(1)]], rule triple_eq [OF e2],
        rule triple_eq [OF e3], rule triple_if) (use seed stay in blast)+
qed

section \<open>The program\<close>

definition hanoi_any :: "nat option \<Rightarrow> (nat \<rightharpoonup> nat) \<Rightarrow> image \<Rightarrow> bool" where
  "hanoi_any rt M i \<longleftrightarrow> hanoi_is [[], [], []] rt M i \<or> hanoi_legal all_disks rt M i"

definition hanoi_start :: "32 word list \<Rightarrow> 32 word list \<Rightarrow> 32 word list \<Rightarrow> bool" where
  "hanoi_start a b c \<longleftrightarrow> seeded a b c \<or> legal all_disks a b c"

definition hanoi_result :: "32 word list \<Rightarrow> 32 word list \<Rightarrow> 32 word list \<Rightarrow>
    32 word list \<times> 32 word list \<times> 32 word list" where
  "hanoi_result a b c = (if seeded a b c then ([], all_disks, []) else (a, b, c))"

lemma on_objects_hanoi_any: "on_objects hanoi_any"
  using on_objects_or [OF on_objects_hanoi_is on_objects_hanoi_legal]
  unfolding on_objects_def hanoi_any_def by blast

lemma start_any: "hanoi_is [a, b, c] rt M i \<Longrightarrow> hanoi_start a b c \<Longrightarrow> hanoi_any rt M i"
  unfolding hanoi_any_def hanoi_legal_def hanoi_start_def seeded_def by blast

lemma tower_all: "tower all_disks"
  by (simp add: all_disks_def smaller_def)

lemma legal_all: "legal all_disks all_disks [] []" "legal all_disks [] all_disks []"
  using tower_all by (simp_all add: legal_def)

lemma start_lengths:
  assumes "hanoi_start a b c"
  shows "length a < 2 ^ 32" "length b < 2 ^ 32" "length c < 2 ^ 32"
proof -
  have "length a + length b + length c \<le> 3"
  proof (cases "seeded a b c")
    case False
    then have "mset (a @ b @ c) = mset all_disks" using assms by (simp add: hanoi_start_def legal_def)
    then have "length (a @ b @ c) = length all_disks" by (rule mset_eq_length)
    then show ?thesis by (simp add: all_disks_def)
  qed (simp add: seeded_def)
  then show "length a < 2 ^ 32" "length b < 2 ^ 32" "length c < 2 ^ 32" by simp_all
qed

lemma outer_seed:
  assumes ok: "pmdk_ok P V" and p: "pegs M i x y z a b c" "peg_cells r i x y z" "M r = Some 48"
    and start: "hanoi_start a b c"
  shows "triple (durable V hanoi_any) (rest V b0 (Some r) M i w)
    (transaction_run P (hanoi_seed P (b0 + x) (b0 + y) (b0 + z)))
    (\<lambda>f s. \<exists>N k. (f = seeded a b c \<and> pegs N k x y z (if f then all_disks else a) b c
        \<and> N r = Some 48 \<and> peg_cells r k x y z) \<and> rest V b0 (Some r) N k w s)
    (durable V hanoi_any)"
proof -
  let ?C = "ctx_of b0 (Some r) M i"
  let ?R = "\<lambda>f (K :: nat set) N k u. f = seeded a b c \<and> pegs N k x y z (if f then all_disks else a) b c
        \<and> N r = Some 48 \<and> kept (span r 48) i k \<and> u = w"
  note len = start_lengths [OF start]
  have now: "hanoi_any (Some r) M i"
    using start_any [OF _ start] pegs_slots [OF p] by (auto simp: hanoi_is_def)
  have body: "triple (intact V ?C) (wrk V ?C 1 {} M i w) (hanoi_seed P (b0 + x) (b0 + y) (b0 + z))
      (\<lambda>f s. \<exists>K N j u. ?R f K N j u \<and> wrk V ?C 1 K N j u s) (stopping V ?C 1)"
    by (rule triple_post [OF triple_seed [where C = ?C, OF ok p(1,3) len, unfolded ctx_of_simps]])
      blast
  have committed: "hanoi_any (Some r) N k" if R: "?R f K N k u" for f K N k u
  proof -
    have cells: "peg_cells r k x y z" using peg_cells_kept [OF p(2)] R by blast
    have "hanoi_start (if f then all_disks else a) b c"
      using R start legal_all(1) by (auto simp: hanoi_start_def seeded_def)
    moreover have "hanoi_is [if f then all_disks else a, b, c] (Some r) N k"
      using pegs_slots [OF _ cells] R unfolding hanoi_is_def by fastforce
    ultimately show ?thesis by (rule start_any [rotated])
  qed
  have "triple (durable V hanoi_any) (rest V b0 (Some r) M i w)
      (transaction_run P (hanoi_seed P (b0 + x) (b0 + y) (b0 + z)))
      (\<lambda>f s. \<exists>K N j u k. (?R f K N j u \<and> kept (bytes N) j k) \<and> rest V b0 (Some r) N k u s)
      (\<lambda>s. \<exists>k u. kept (bytes M) i k \<and> rest V b0 (Some r) M k u s)"
    by (rule triple_transaction [where f = hanoi_any and R = ?R, OF ok on_objects_hanoi_any now body])
      (rule committed)
  then show ?thesis
  proof (rule triple_conseq)
    fix s assume "\<exists>k u. kept (bytes M) i k \<and> rest V b0 (Some r) M k u s"
    then show "durable V hanoi_any s"
      by (rule rest_kept_durable [where f = hanoi_any, OF on_objects_hanoi_any now])
  next
    fix f s assume "\<exists>K N j u k. (?R f K N j u \<and> kept (bytes N) j k) \<and> rest V b0 (Some r) N k u s"
    then obtain N j k where R: "f = seeded a b c" "pegs N j x y z (if f then all_disks else a) b c"
        "N r = Some 48" "kept (span r 48) i j"
      and k: "kept (bytes N) j k" "rest V b0 (Some r) N k w s"
      by blast
    have "span r 48 \<subseteq> bytes N" using span_subset_bytes [of N r 48 0 48] R(3) by simp
    then have "peg_cells r k x y z"
      using peg_cells_kept [OF p(2)] kept_trans [OF R(4) kept_mono [OF k(1)]] by blast
    then show "\<exists>N k. (f = seeded a b c \<and> pegs N k x y z (if f then all_disks else a) b c
        \<and> N r = Some 48 \<and> peg_cells r k x y z) \<and> rest V b0 (Some r) N k w s"
      using R pegs_kept [OF R(2) k(1)] k(2) by blast
  qed
qed

lemma hanoi_moves:
  assumes ok: "pmdk_ok P V" and f: "f = seeded a b c"
    and p: "pegs M i x y z (if f then all_disks else a) b c" "peg_cells r i x y z" "M r = Some 48"
  shows "triple (durable V hanoi_any) (rest V b0 (Some r) M i w)
    (if f then moveDisks P 3 (b0 + x) (b0 + y) (b0 + z) else ret ())
    (\<lambda>_ s. \<exists>N k. (case hanoi_result a b c of (a, b, c) \<Rightarrow> pegs N k x y z a b c \<and> N r = Some 48
        \<and> peg_cells r k x y z) \<and> rest V b0 (Some r) N k w s)
    (durable V hanoi_any)"
proof (cases f)
  case False
  then show ?thesis using p f by (auto simp: hanoi_result_def intro!: triple_ret)
next
  case True
  then have empty: "a = []" "b = []" "c = []" using f by (simp_all add: seeded_def)
  have weaker: "durable V (hanoi_legal all_disks) s \<Longrightarrow> durable V hanoi_any s" for s
    by (erule durable_mono) (simp add: hanoi_any_def)
  have len: "int (length all_disks) = 3" by (simp add: all_disks_def)
  have moves: "triple (durable V (hanoi_legal all_disks)) (rest V b0 (Some r) M i w)
      (moveDisks P (int (length all_disks)) (b0 + x) (b0 + y) (b0 + z))
      (\<lambda>_ s. \<exists>N k. (pegs N k x y z [] (all_disks @ []) [] \<and> N r = Some 48 \<and> kept (span r 48) i k)
        \<and> rest V b0 (Some r) N k w s) (durable V (hanoi_legal all_disks))"
    by (rule triple_moveDisks [where M = M and i = i, OF ok hanoi_tower_property [OF p(2)] _ p(3)])
      (use p(1) True empty legal_all in auto)
  have "triple (durable V hanoi_any) (rest V b0 (Some r) M i w)
      (moveDisks P 3 (b0 + x) (b0 + y) (b0 + z))
      (\<lambda>_ s. \<exists>N k. (pegs N k x y z [] all_disks [] \<and> N r = Some 48 \<and> kept (span r 48) i k)
        \<and> rest V b0 (Some r) N k w s) (durable V (hanoi_legal all_disks))"
    by (rule triple_way [OF moves [unfolded len append_Nil2]]) (rule weaker)
  then show ?thesis
    unfolding if_P [OF True] hanoi_result_def if_P [OF True [unfolded f]]
  proof (rule triple_conseq)
    fix q s
    assume "\<exists>N k. (pegs N k x y z [] all_disks [] \<and> N r = Some 48 \<and> kept (span r 48) i k)
        \<and> rest V b0 (Some r) N k w s"
    then obtain N k where N: "pegs N k x y z [] all_disks []" "N r = Some 48" "kept (span r 48) i k"
      and s: "rest V b0 (Some r) N k w s"
      by blast
    show "\<exists>N k. (case ([], all_disks, []) of (a, b, c) \<Rightarrow> pegs N k x y z a b c \<and> N r = Some 48
        \<and> peg_cells r k x y z) \<and> rest V b0 (Some r) N k w s"
      using N s peg_cells_kept [OF p(2) N(3)] by (intro exI [of _ N] exI [of _ k]) simp
  qed (simp_all add: weaker)
qed

lemma triple_pegs_print:
  assumes ok: "pmdk_ok P V" and p: "pegs M i x y z a b c"
  shows "triple I (rest V b0 rt M i w)
    (andthen (print P (b0 + x)) (\<lambda>l1. andthen (print P (b0 + y)) (\<lambda>l2.
     andthen (print P (b0 + z)) (\<lambda>l3. ret (l1, l2, l3)))))
    (\<lambda>q s. q = (a, b, c) \<and> rest V b0 rt M i w s) E"
proof -
  obtain n1 n2 n3 where st: "stack_at M i x n1 a" "stack_at M i y n2 b" "stack_at M i z n3 c"
    using p unfolding pegs_def by blast
  show ?thesis
    by (rule triple_eq [OF triple_print [OF ok st(1)]], rule triple_eq [OF triple_print [OF ok st(2)]],
        rule triple_eq [OF triple_print [OF ok st(3)]], rule triple_ret) simp
qed

lemma hanoi_main_pegs:
  assumes ok: "pmdk_ok P V" and p: "pegs M i x y z a b c" "peg_cells r i x y z" "M r = Some 48"
    and start: "hanoi_start a b c"
  shows "triple (durable V hanoi_any) (rest V b0 (Some r) M i w)
    (andthen pmem_pool (\<lambda>_.
     andthen (transaction_run P (hanoi_seed P (b0 + x) (b0 + y) (b0 + z))) (\<lambda>f.
     andthen (if f then moveDisks P 3 (b0 + x) (b0 + y) (b0 + z) else ret ()) (\<lambda>_.
     andthen (print P (b0 + x)) (\<lambda>l1.
     andthen (print P (b0 + y)) (\<lambda>l2.
     andthen (print P (b0 + z)) (\<lambda>l3. ret (l1, l2, l3))))))))
    (\<lambda>q s. \<exists>N k v. (q = hanoi_result a b c
        \<and> hanoi_is (case q of (a, b, c) \<Rightarrow> [a, b, c]) (Some r) N k) \<and> rest V b0 (Some r) N k v s)
    (durable V hanoi_any)"
proof (rule triple_seq [OF rest_pool], rule triple_andthen [OF outer_seed [OF ok p start]],
    intro triple_ex triple_pure, elim conjE)
  fix f N k
  assume f: "f = seeded a b c" "pegs N k x y z (if f then all_disks else a) b c" "N r = Some 48"
    "peg_cells r k x y z"
  show "triple (durable V hanoi_any) (rest V b0 (Some r) N k w)
     (andthen (if f then moveDisks P 3 (b0 + x) (b0 + y) (b0 + z) else ret ()) (\<lambda>_.
     andthen (print P (b0 + x)) (\<lambda>l1.
     andthen (print P (b0 + y)) (\<lambda>l2.
     andthen (print P (b0 + z)) (\<lambda>l3. ret (l1, l2, l3))))))
    (\<lambda>q s. \<exists>N k v. (q = hanoi_result a b c
        \<and> hanoi_is (case q of (a, b, c) \<Rightarrow> [a, b, c]) (Some r) N k) \<and> rest V b0 (Some r) N k v s)
    (durable V hanoi_any)"
  proof (rule triple_seq [OF hanoi_moves [where M = N and i = k, OF ok f(1,2,4,3)]],
      intro triple_ex triple_pure)
    fix N k
    obtain a' b' c' where res: "hanoi_result a b c = (a', b', c')" by (cases "hanoi_result a b c")
    assume "case hanoi_result a b c of (a, b, c) \<Rightarrow> pegs N k x y z a b c \<and> N r = Some 48
        \<and> peg_cells r k x y z"
    then have q: "pegs N k x y z a' b' c'" "N r = Some 48" "peg_cells r k x y z" using res by simp_all
    have "hanoi_is [a', b', c'] (Some r) N k"
      using pegs_slots [OF q(1,3,2)] by (simp add: hanoi_is_def)
    then show "triple (durable V hanoi_any) (rest V b0 (Some r) N k w)
      (andthen (print P (b0 + x)) (\<lambda>l1. andthen (print P (b0 + y)) (\<lambda>l2.
       andthen (print P (b0 + z)) (\<lambda>l3. ret (l1, l2, l3)))))
      (\<lambda>q s. \<exists>N k v. (q = hanoi_result a b c
        \<and> hanoi_is (case q of (a, b, c) \<Rightarrow> [a, b, c]) (Some r) N k) \<and> rest V b0 (Some r) N k v s)
      (durable V hanoi_any)"
      using res by (intro triple_post [OF triple_pegs_print [OF ok q(1)]]) auto
  qed
qed

lemma three_lists: "length ns = 3 \<Longrightarrow> \<exists>n0 n1 n2. ns = [n0, n1, n2]"
  by (auto simp: numeral_3_eq_3 length_Suc_conv)

lemma hanoi_main_rule:
  assumes ok: "pmdk_ok P V" and old: "hanoi_is [a, b, c] (Some r) M i" and start: "hanoi_start a b c"
  shows "triple (durable V hanoi_any) (rest V b0 (Some r) M i w) (hanoi_main P (b0 + r))
    (\<lambda>q s. \<exists>N k v. (q = hanoi_result a b c
        \<and> hanoi_is (case q of (a, b, c) \<Rightarrow> [a, b, c]) (Some r) N k) \<and> rest V b0 (Some r) N k v s)
    (durable V hanoi_any)"
proof -
  let ?ls = "[a, b, c]"
  let ?Q = "\<lambda>q s. \<exists>N k v. (q = hanoi_result a b c
        \<and> hanoi_is (case q of (a, b, c) \<Rightarrow> [a, b, c]) (Some r) N k) \<and> rest V b0 (Some r) N k v s"
  have weaker: "durable V (hanoi_is ?ls) s \<Longrightarrow> durable V hanoi_any s" for s
    by (erule durable_mono) (rule start_any [OF _ start])
  have slot: "triple (durable V hanoi_any) (rest V b0 (Some r) M i w)
    (pmem_get_or_create P sizeof_Stack 8 (stack_init P) (b0 + (r + 16 * k)))
    (\<lambda>p s. \<exists>x ms N j. (p = b0 + x \<and> three_slots r N j (ns[k := x # ms]) ?ls
        \<and> (ns ! k \<noteq> [] \<longrightarrow> ns ! k = x # ms)) \<and> rest V b0 (Some r) N j w s)
    (durable V hanoi_any)" if "three_slots r M i ns ?ls" "k < 3" for ns k M i
    by (rule triple_conseq [OF triple_way [OF hanoi_slot [OF ok that]]]) (use weaker in blast)+
  obtain ns where s: "three_slots r M i ns ?ls" using old by (auto simp: hanoi_is_def)
  then obtain n0 n1 n2 where ns: "ns = [n0, n1, n2]" using three_lists [of ns] unfolding three_slots_def by blast
  let ?find = "\<lambda>k. pmem_get_or_create P sizeof_Stack 8 (stack_init P) (b0 + r + k)"
  have first: "triple (durable V hanoi_any) (rest V b0 (Some r) M i w)
    (pmem_get_or_create P sizeof_Stack 8 (stack_init P) (b0 + r))
    (\<lambda>p s. \<exists>x ms N j. (p = b0 + x \<and> three_slots r N j [x # ms, n1, n2] ?ls) \<and> rest V b0 (Some r) N j w s)
    (durable V hanoi_any)"
    by (rule triple_post [OF slot [OF s, of 0, simplified]]) (auto simp: ns)
  have second: "triple (durable V hanoi_any) (rest V b0 (Some r) N j w) (?find 16)
    (\<lambda>p s. \<exists>y ms' N j. (p = b0 + y \<and> three_slots r N j [x # ms, y # ms', n2] ?ls) \<and> rest V b0 (Some r) N j w s)
    (durable V hanoi_any)" if "three_slots r N j [x # ms, n1, n2] ?ls" for N j x ms
    by (rule triple_post [OF slot [OF that, of 1, simplified, folded add.assoc]]) auto
  have third: "triple (durable V hanoi_any) (rest V b0 (Some r) N j w) (?find 32)
    (\<lambda>p s. \<exists>z ks N j. (p = b0 + z \<and> three_slots r N j [x # ms, y # ms', z # ks] ?ls)
      \<and> rest V b0 (Some r) N j w s)
    (durable V hanoi_any)" if "three_slots r N j [x # ms, y # ms', n2] ?ls" for N j x ms y ms'
    by (rule triple_post [OF slot [OF that, of 2, simplified, folded add.assoc]]) (auto simp: numeral_2_eq_2)
  show ?thesis
    unfolding hanoi_main_def
  proof (rule triple_andthen [OF first], intro triple_ex triple_pure, elim conjE, simp only:,
      rule triple_andthen [OF second], assumption, intro triple_ex triple_pure, elim conjE, simp only:,
      rule triple_andthen [OF third], assumption, intro triple_ex triple_pure, elim conjE, simp only:)
    fix x ms y ms' z ks N j
    assume "three_slots r N j [x # ms, y # ms', z # ks] ?ls"
    note q = slots_pegs [OF this] and N = this
    have "N r = Some 48" using N by (simp add: three_slots_def)
    then show "triple (durable V hanoi_any) (rest V b0 (Some r) N j w)
    (andthen pmem_pool (\<lambda>_.
     andthen (transaction_run P (hanoi_seed P (b0 + x) (b0 + y) (b0 + z))) (\<lambda>f.
     andthen (if f then moveDisks P 3 (b0 + x) (b0 + y) (b0 + z) else ret ()) (\<lambda>_.
     andthen (print P (b0 + x)) (\<lambda>l1.
     andthen (print P (b0 + y)) (\<lambda>l2.
     andthen (print P (b0 + z)) (\<lambda>l3. ret (l1, l2, l3)))))))) ?Q (durable V hanoi_any)"
      by (rule hanoi_main_pegs [OF ok q _ start])
  qed
qed

lemma hanoi_program_rule:
  assumes ok: "pmdk_ok P V" and found: "pmdk_root_found P V" and start: "hanoi_start a b c"
  shows "triple (durable V hanoi_any)
    (\<lambda>s. global_pool s = NULL \<and> durable V (hanoi_is [a, b, c]) s) (hanoi_program P)
    (\<lambda>q s. q = hanoi_result a b c \<and> global_pool s = NULL
       \<and> durable V (hanoi_is (case q of (a, b, c) \<Rightarrow> [a, b, c])) s)
    (durable V hanoi_any)"
proof -
  let ?h = "\<lambda>q rt M i. q = hanoi_result a b c \<and> hanoi_is (case q of (a, b, c) \<Rightarrow> [a, b, c]) rt M i"
  obtain a' b' c' where res: "hanoi_result a b c = (a', b', c')" by (cases "hanoi_result a b c")
  have start': "hanoi_start a' b' c'"
    using start res legal_all by (auto simp: hanoi_result_def hanoi_start_def split: if_splits)
  have "triple (durable V hanoi_any)
    (\<lambda>s. global_pool s = NULL \<and> durable V (hanoi_is [a, b, c]) s) (hanoi_program P)
    (\<lambda>q s. global_pool s = NULL \<and> durable V (?h q) s) (durable V hanoi_any)"
    unfolding hanoi_program_def sizeof_PMEMoid_def
  proof (rule triple_program [OF ok found])
    show "on_objects (?h q)" for q
      using on_objects_hanoi_is unfolding on_objects_def by blast
    show "?h q rt M i \<Longrightarrow> hanoi_any rt M i" for q rt M i
      using start_any [OF _ start'] res by auto
    show "hanoi_is [a, b, c] (Some y) M i \<Longrightarrow> M y = Some (3 * 16)" for y M i
      by (auto simp: hanoi_is_def three_slots_def)
    show "hanoi_is [a, b, c] None M i \<Longrightarrow> M = Map.empty" for M i
      by (simp add: hanoi_is_def)
  next
    fix y M i j
    assume "hanoi_is [a, b, c] None M i" "M y = None" "\<forall>x\<in>span y (3 * 16). j x = Some VZero"
    then show "hanoi_is [a, b, c] (Some y) (M(y \<mapsto> 3 * 16)) j"
      by (auto simp: hanoi_is_def three_slots_def less_three slot_of_def cell_def span_def
          numeral_2_eq_2 intro!: exI [of _ "[[], [], []]"])
  next
    fix b0 y N j w assume "hanoi_is [a, b, c] (Some y) N j"
    then show "triple (durable V hanoi_any) (rest V b0 (Some y) N j w) (hanoi_main P (b0 + y))
      (\<lambda>r s. \<exists>M k v. ?h r (Some y) M k \<and> rest V b0 (Some y) M k v s) (durable V hanoi_any)"
      by (rule hanoi_main_rule [OF ok _ start])
  qed (use on_objects_hanoi_is on_objects_hanoi_any start_any [OF _ start] in auto)
  then show ?thesis
    by (rule triple_post) (auto simp: durable_def split: if_splits)
qed

end
