(* ===== verification/Pm_String.thy ===== *)
theory Pm_String
  imports Pm_Library
begin

text \<open>
  The class \<open>pmem_string\<close> of src/persistentLib/pmem_string.hpp: a reference to a payload of
  characters in the pool, ended by a zero character, and its length. A string that is
  assigned is given by the address of its first character, so that it may lie in the payload
  of the very string that is assigned to.
\<close>

section \<open>Layout\<close>

definition string_data :: "ptr \<Rightarrow> ptr" where "string_data this = this"

definition string_size :: "ptr \<Rightarrow> ptr" where "string_size this = this + 16"

definition sizeof_pmem_string :: nat where "sizeof_pmem_string = 24"

section \<open>Operations\<close>

definition string_snapshot_if_pmem :: "'p pmdk \<Rightarrow> ptr \<Rightarrow> ('p, unit) pm" where
  "string_snapshot_if_pmem P this = andthen (pmem_contains P this) (\<lambda>b.
     if b then andthen (add_range P this sizeof_pmem_string) (\<lambda>succ.
       if succ \<noteq> 0 then raise ''pmem_string mutation outside txn.'' else ret ())
     else ret ())"

definition string_release :: "'p pmdk \<Rightarrow> ptr \<Rightarrow> ('p, unit) pm" where
  "string_release P this = andthen (pm_read P get_oid (string_data this)) (\<lambda>x.
     if x \<noteq> OID_NULL then
       andthen (direct P x) (\<lambda>p.
       andthen (pmem_free P p) (\<lambda>_.
       andthen (pm_write P (string_data this) (VOid OID_NULL)) (\<lambda>_.
       pm_write P (string_size this) (VSize 0))))
     else ret ())"

definition string_assign :: "'p pmdk \<Rightarrow> ptr \<Rightarrow> ptr \<Rightarrow> ('p, unit) pm" where
  "string_assign P this s = andthen (pm_strlen P s) (\<lambda>n.
     andthen (string_snapshot_if_pmem P this) (\<lambda>_.
     andthen (pmem_alloc P (n + 1) 1) (\<lambda>raw.
     if raw = NULL then raise ''pmem_string: allocation failed''
     else
       andthen (pm_memcpy P raw s (n + 1)) (\<lambda>_.
       andthen (string_release P this) (\<lambda>_.
       andthen (ask (\<lambda>m. pmemobj_oid P (global_pool m) raw)) (\<lambda>x.
       andthen (pm_write P (string_data this) (VOid x)) (\<lambda>_.
       pm_write P (string_size this) (VSize n))))))))"

definition string_default :: "'p pmdk \<Rightarrow> ptr \<Rightarrow> ('p, unit) pm" where
  "string_default P this = andthen (pm_write P (string_data this) (VOid OID_NULL)) (\<lambda>_.
     pm_write P (string_size this) (VSize 0))"

definition string_init :: "'p pmdk \<Rightarrow> ptr \<Rightarrow> ptr \<Rightarrow> ('p, unit) pm" where
  "string_init P s this = andthen (string_default P this) (\<lambda>_. string_assign P this s)"

definition string_destroy :: "'p pmdk \<Rightarrow> ptr \<Rightarrow> ('p, unit) pm" where
  "string_destroy P this = no_throw (andthen (pm_read P get_oid (string_data this)) (\<lambda>x.
     if x \<noteq> OID_NULL then andthen (direct P x) (pmem_free P) else ret ()))"

definition c_str :: "'p pmdk \<Rightarrow> ptr \<Rightarrow> ('p, ptr) pm" where
  "c_str P this = andthen (pm_read P get_oid (string_data this)) (\<lambda>x.
     if x = OID_NULL then ask empty_literal else direct P x)"

definition string_length :: "'p pmdk \<Rightarrow> ptr \<Rightarrow> ('p, nat) pm" where
  "string_length P this = pm_read P get_size (string_size this)"

definition string_empty :: "'p pmdk \<Rightarrow> ptr \<Rightarrow> ('p, bool) pm" where
  "string_empty P this = andthen (string_length P this) (\<lambda>n. ret (n = 0))"

definition string_eq_chars :: "'p pmdk \<Rightarrow> ptr \<Rightarrow> ptr \<Rightarrow> ('p, bool) pm" where
  "string_eq_chars P this s = andthen (c_str P this) (\<lambda>a. pm_strcmp P a s)"

definition string_ne_chars :: "'p pmdk \<Rightarrow> ptr \<Rightarrow> ptr \<Rightarrow> ('p, bool) pm" where
  "string_ne_chars P this s = andthen (string_eq_chars P this s) (\<lambda>b. ret (\<not> b))"

definition string_eq :: "'p pmdk \<Rightarrow> ptr \<Rightarrow> ptr \<Rightarrow> ('p, bool) pm" where
  "string_eq P this other = andthen (c_str P other) (string_eq_chars P this)"

definition string_ne :: "'p pmdk \<Rightarrow> ptr \<Rightarrow> ptr \<Rightarrow> ('p, bool) pm" where
  "string_ne P this other = andthen (string_eq P this other) (\<lambda>b. ret (\<not> b))"

definition new_pmem_string :: "'p pmdk \<Rightarrow> ptr \<Rightarrow> ('p, ptr) pm" where
  "new_pmem_string P s = new_object P sizeof_pmem_string 8 (string_init P s)"

definition delete_pmem_string :: "'p pmdk \<Rightarrow> ptr \<Rightarrow> ('p, unit) pm" where
  "delete_pmem_string P this = andthen (string_destroy P this) (\<lambda>_. operator_delete P this)"

end
