(* ===== verification/Pm_Strings.thy ===== *)
theory Pm_Strings
  imports Pm_Recovery Pm_String
begin

text \<open>
  \<open>pmem_string\<close> as a list of characters: what a string object holds in the pool, what it
  means that a C string can be read at an address (in the pool or in the memory of the
  process), and the effect of an assignment in a transaction. The source may lie in the
  payload that the assignment releases.
\<close>

section \<open>Strings in memory\<close>

definition char_seq :: "string \<Rightarrow> char list" where
  "char_seq cs = cs @ [CHR 0x00]"

definition string_at :: "(nat \<rightharpoonup> nat) \<Rightarrow> image \<Rightarrow> nat \<Rightarrow> nat option \<Rightarrow> string \<Rightarrow> bool" where
  "string_at M i x pl cs \<longleftrightarrow> cell i (x + 16) get_size (length cs) \<and> CHR 0x00 \<notin> set cs
     \<and> (case pl of
          None \<Rightarrow> cell i x get_oid OID_NULL \<and> cs = []
        | Some p \<Rightarrow> cell i x get_oid (OID p) \<and> M p = Some (length cs + 1)
            \<and> (\<forall>k\<le>length cs. cell i (p + k) get_char (char_seq cs ! k)))"

text \<open>The string object lies in an object of the pool that is not its payload.\<close>

definition string_place :: "(nat \<rightharpoonup> nat) \<Rightarrow> nat \<Rightarrow> nat option \<Rightarrow> bool" where
  "string_place M x pl \<longleftrightarrow> (\<exists>y m. M y = Some m \<and> span x 24 \<subseteq> span y m \<and> pl \<noteq> Some y)"

definition freed :: "(nat \<rightharpoonup> nat) \<Rightarrow> nat option \<Rightarrow> (nat \<rightharpoonup> nat)" where
  "freed M pl = (case pl of None \<Rightarrow> M | Some p \<Rightarrow> M(p := None))"

definition readable :: "'p pmdk \<Rightarrow> ptr \<Rightarrow> (nat \<rightharpoonup> nat) \<Rightarrow> image \<Rightarrow> image \<Rightarrow> ptr \<Rightarrow> string \<Rightarrow> bool" where
  "readable P b M i w a cs \<longleftrightarrow> CHR 0x00 \<notin> set cs \<and> (\<forall>k\<le>length cs.
     (case pmemobj_oid P b (a + k) of
        OID y \<Rightarrow> y \<in> bytes M \<and> cell i y get_char (char_seq cs ! k)
      | OID_NULL \<Rightarrow> a + k \<noteq> NULL \<and> cell w (a + k) get_char (char_seq cs ! k)))"

lemma readable_kept:
  assumes "readable P b M i w a cs" "kept (bytes M) i j" "bytes M \<subseteq> bytes N"
  shows "readable P b N j w a cs"
  using assms cell_kept [OF assms(2)] unfolding readable_def
  by (fastforce split: oid.splits)

lemma readable_peek:
  assumes "readable P b M i w a cs" "global_pool s = b" "img s = i" "vol s = w" "k \<le> length cs"
  shows "Option.bind (peek P s (a + k)) get_char = Some (char_seq cs ! k)"
proof -
  have "case pmemobj_oid P b (a + k) of
        OID y \<Rightarrow> y \<in> bytes M \<and> cell i y get_char (char_seq cs ! k)
      | OID_NULL \<Rightarrow> a + k \<noteq> NULL \<and> cell w (a + k) get_char (char_seq cs ! k)"
    using assms(1,5) by (simp add: readable_def)
  then show ?thesis
    using assms(2-4) by (cases "pmemobj_oid P b (a + k)") (simp_all add: peek_def cell_def)
qed

lemma char_seq_nth:
  "CHR 0x00 \<notin> set cs \<Longrightarrow> k \<le> length cs \<Longrightarrow> char_seq cs ! k = CHR 0x00 \<longleftrightarrow> k = length cs"
  by (auto simp: char_seq_def nth_append) (metis nth_mem)

lemma strlen_readable:
  assumes "CHR 0x00 \<notin> set cs"
    "\<And>k. k \<le> length cs \<Longrightarrow> Option.bind (peek P s (a + k)) get_char = Some (char_seq cs ! k)"
  shows "strlen_at P s a = Some (length cs)"
  using assms
proof (induction cs arbitrary: a)
  case Nil
  from Nil(2) [of 0] show ?case by (subst strlen_at.simps) (simp add: char_seq_def)
next
  case (Cons c cs)
  have tail: "Option.bind (peek P s (a + 1 + k)) get_char = Some (char_seq cs ! k)"
    if "k \<le> length cs" for k
    using Cons.prems(2) [of "Suc k"] that by (simp add: char_seq_def)
  have "strlen_at P s (a + 1) = Some (length cs)"
    by (rule Cons.IH) (use Cons.prems(1) tail in auto)
  then show ?case
    using Cons.prems(1) Cons.prems(2) [of 0] by (subst strlen_at.simps) (auto simp: char_seq_def)
qed

lemma triple_strlen:
  assumes "readable P (c_pool C) M i w a cs"
  shows "triple I (wrk V C d L M i w) (pm_strlen P a)
    (\<lambda>r s. r = length cs \<and> wrk V C d L M i w s) E"
proof -
  have "strlen_at P s a = Some (length cs)" if "wrk V C d L M i w s" for s
    by (rule strlen_readable)
      (use assms that readable_peek [OF assms] in \<open>auto simp: readable_def wrk_def intact_def\<close>)
  then show ?thesis by (auto simp: triple_def pm_strlen_def)
qed

section \<open>Copying into a fresh payload\<close>

fun write_all :: "image \<Rightarrow> nat \<Rightarrow> pval list \<Rightarrow> image" where
  "write_all i q [] = i"
| "write_all i q (v # vs) = write_all (i(q \<mapsto> v)) (q + 1) vs"

lemma write_all_nth:
  "write_all i q vs a = (if q \<le> a \<and> a < q + length vs then Some (vs ! (a - q)) else i a)"
proof (induction vs arbitrary: i q)
  case (Cons v vs)
  show ?case
    unfolding write_all.simps Cons by (auto simp: nth_Cons')
qed auto

lemma peek_many_all:
  "(\<And>k. k < n \<Longrightarrow> peek P s (a + k) \<noteq> None) \<Longrightarrow>
   \<exists>vs. peek_many P s a n = Some vs \<and> length vs = n \<and> (\<forall>k<n. peek P s (a + k) = Some (vs ! k))"
proof (induction n arbitrary: a)
  case (Suc n)
  obtain v where v: "peek P s a = Some v" using Suc.prems [of 0] by auto
  have "peek P s (a + 1 + k) \<noteq> None" if "k < n" for k using Suc.prems [of "Suc k"] that by simp
  then obtain vs where vs: "peek_many P s (a + 1) n = Some vs" "length vs = n"
      "\<forall>k<n. peek P s (a + 1 + k) = Some (vs ! k)"
    using Suc.IH [of "a + 1"] by blast
  have "peek P s (a + k) = Some ((v # vs) ! k)" if "k < Suc n" for k
    using vs(3) v that by (cases k) auto
  then show ?case using vs v by simp
qed simp

lemma wrk_poke_many:
  assumes ok: "pmdk_ok P V"
  shows "wrk V C d L M i w s \<Longrightarrow> (\<And>k. k < length vs \<Longrightarrow> q + k \<in> bytes M \<and> q + k \<notin> bytes (c_objs C)) \<Longrightarrow>
    wrk V C d L M (write_all i q vs) w (poke_many P (c_pool C + q) vs s)"
proof (induction vs arbitrary: i q s)
  case (Cons v vs)
  have "wrk V C d L M (i(q \<mapsto> v)) w (poke P (c_pool C + q) v s)"
    using Cons.prems(2) [of 0] by (intro wrk_poke [OF ok Cons.prems(1)]) auto
  moreover have "q + 1 + k \<in> bytes M \<and> q + 1 + k \<notin> bytes (c_objs C)" if "k < length vs" for k
    using Cons.prems(2) [of "Suc k"] that by simp
  ultimately have "wrk V C d L M (write_all (i(q \<mapsto> v)) (q + 1) vs) w
      (poke_many P (c_pool C + (q + 1)) vs (poke P (c_pool C + q) v s))"
    by (rule Cons.IH)
  then show ?case by (simp add: add.assoc)
qed simp

lemma triple_memcpy:
  assumes ok: "pmdk_ok P V" and a: "readable P (c_pool C) M i w a cs" and q: "0 < q"
    and inside: "span q (length cs + 1) \<subseteq> bytes M" "span q (length cs + 1) \<inter> bytes (c_objs C) = {}"
  shows "triple (intact V C) (wrk V C d L M i w) (pm_memcpy P (c_pool C + q) a (length cs + 1))
    (\<lambda>_ s. \<exists>vs. (length vs = length cs + 1 \<and> (\<forall>k\<le>length cs. get_char (vs ! k) = Some (char_seq cs ! k)))
      \<and> wrk V C d L M (write_all i q vs) w s) E"
  unfolding triple_def
proof (intro allI impI)
  fix s assume s: "wrk V C d L M i w s"
  have peek: "Option.bind (peek P s (a + k)) get_char = Some (char_seq cs ! k)" if "k \<le> length cs" for k
    by (rule readable_peek [OF a]) (use s that in \<open>auto simp: wrk_def intact_def\<close>)
  then have "peek P s (a + k) \<noteq> None" if "k < length cs + 1" for k
    using that by (metis bind_eq_None_conv less_Suc_eq_le Suc_eq_plus1 option.distinct(1))
  then obtain vs where vs: "peek_many P s a (length cs + 1) = Some vs" "length vs = length cs + 1"
      "\<forall>k<length cs + 1. peek P s (a + k) = Some (vs ! k)"
    using peek_many_all [of "length cs + 1" P s a] by blast
  have chars: "get_char (vs ! k) = Some (char_seq cs ! k)" if "k \<le> length cs" for k
    using peek [OF that] vs(3) that by simp
  have "q + k \<in> bytes M \<and> q + k \<notin> bytes (c_objs C)" if "k < length vs" for k
  proof -
    have "q + k \<in> span q (length cs + 1)" using that vs(2) by (simp add: span_def)
    then show ?thesis using inside by blast
  qed
  then have new: "wrk V C d L M (write_all i q vs) w (poke_many P (c_pool C + q) vs s)"
    by (rule wrk_poke_many [OF ok s])
  have "c_pool C + q \<noteq> NULL" using q by simp
  then show "case pm_memcpy P (c_pool C + q) a (length cs + 1) s of (r, s1, t) \<Rightarrow>
     (\<forall>u\<in>set t. intact V C u) \<and> (case r of Ret b \<Rightarrow>
        (\<exists>vs. (length vs = length cs + 1 \<and> (\<forall>k\<le>length cs. get_char (vs ! k) = Some (char_seq cs ! k)))
          \<and> wrk V C d L M (write_all i q vs) w s1)
      | Throw e \<Rightarrow> E s1 | Terminate \<Rightarrow> True | Fault \<Rightarrow> False)"
    using vs(1,2) chars new wrk_intact [OF new] by (auto simp: pm_memcpy_def Let_def)
qed

section \<open>Releasing the old payload\<close>

lemma place_bytes:
  assumes "string_place M x pl"
  shows "span x 24 \<subseteq> bytes M"
  using assms unfolding string_place_def by (auto intro: bytesI)

lemma place_freed:
  assumes M: "objects_ok M" and x: "string_place M x pl"
  shows "string_place (freed M pl) x None" "span x 24 \<subseteq> bytes (freed M pl)"
proof -
  obtain y m where y: "M y = Some m" "span x 24 \<subseteq> span y m" "pl \<noteq> Some y"
    using x by (auto simp: string_place_def)
  have "freed M pl y = Some m" using y(1,3) by (auto simp: freed_def split: option.splits)
  then show new: "string_place (freed M pl) x None" using y(2) by (auto simp: string_place_def)
  show "span x 24 \<subseteq> bytes (freed M pl)" by (rule place_bytes [OF new])
qed

lemma triple_release:
  assumes ok: "pmdk_ok P V" and M: "objects_ok M" and x: "string_place M x pl" "span x 24 \<subseteq> L"
    and old: "case pl of None \<Rightarrow> cell i x get_oid OID_NULL
      | Some p \<Rightarrow> cell i x get_oid (OID p) \<and> M p \<noteq> None"
  shows "triple (intact V C) (wrk V C d L M i w) (string_release P (c_pool C + x))
    (\<lambda>_ s. \<exists>k. kept (bytes (freed M pl) - span x 24) i k \<and> wrk V C d L (freed M pl) k w s)
    (stopping V C d)"
proof (cases pl)
  case None
  have "x \<in> bytes M" using place_bytes [OF x(1)] by (auto simp: span_def)
  then show ?thesis
    using old None unfolding string_release_def string_data_def
    by (intro triple_eq [OF triple_read_cell [OF ok, of x M i get_oid OID_NULL]])
      (auto simp: freed_def intro!: triple_ret exI [of _ i])
next
  case (Some p)
  have x_in: "x \<in> bytes M" using place_bytes [OF x(1)] by (auto simp: span_def)
  from old Some obtain m where data: "cell i x get_oid (OID p)" and p: "M p = Some m" by auto
  let ?M = "M(p := None)" and ?b = "c_pool C"
  have sub: "span x 24 \<subseteq> bytes ?M" using place_freed(2) [OF M x(1)] Some by (simp add: freed_def)
  then have in_M: "x \<in> bytes ?M" "x + 16 \<in> bytes ?M" by (auto simp: span_def)
  have in_L: "x \<in> L" "x + 16 \<in> L" using x(2) by (auto simp: span_def)
  have free: "triple (intact V C) (wrk V C d L M i w) (pmem_free P (?b + p))
    (\<lambda>_ s. \<exists>j. kept (bytes (c_objs C) \<union> bytes ?M) i j \<and> wrk V C d L ?M j w s) (stopping V C d)"
    by (rule triple_free [OF ok M]) (rule p)
  have clear: "triple (intact V C) (wrk V C d L ?M j w)
      (andthen (pm_write P (string_data (?b + x)) (VOid OID_NULL))
        (\<lambda>_. pm_write P (string_size (?b + x)) (VSize 0)))
      (\<lambda>_. wrk V C d L ?M (j(x \<mapsto> VOid OID_NULL, x + 16 \<mapsto> VSize 0)) w) (stopping V C d)" for j
    unfolding string_data_def string_size_def add.assoc
    by (rule triple_seq [OF triple_write_cell [OF ok in_M(1) disjI1 [OF in_L(1)]]])
      (rule triple_write_cell [OF ok in_M(2) disjI1 [OF in_L(2)]])
  have end_state: "kept (bytes ?M - span x 24) i (j(x \<mapsto> VOid OID_NULL, x + 16 \<mapsto> VSize 0))"
    if "kept (bytes (c_objs C) \<union> bytes ?M) i j" for j
    using that by (auto simp: kept_def span_def)
  show ?thesis
    unfolding string_release_def Some freed_def option.case string_data_def
    by (rule triple_eq [OF triple_read_cell [OF ok x_in data]], simp only: oid.distinct if_True not_False_eq_True,
        rule triple_eq [OF triple_direct [OF ok]], rule triple_seq [OF free], intro triple_ex triple_pure,
        rule triple_post [OF clear [unfolded string_data_def]])
      (use end_state in blast)
qed

section \<open>Assignment\<close>

lemma triple_string_snapshot:
  assumes ok: "pmdk_ok P V" and inside: "span x 24 \<subseteq> bytes M"
  shows "triple (intact V C) (wrk V C d L M i w) (string_snapshot_if_pmem P (c_pool C + x))
    (\<lambda>_. wrk V C d (L \<union> span x 24) M i w) (stopping V C d)"
  unfolding string_snapshot_if_pmem_def sizeof_pmem_string_def
proof (rule triple_true [OF triple_contains [OF ok]], goal_cases)
  case 1
  show "x \<in> bytes M" using inside by (auto simp: span_def)
next
  case 2
  show ?case
    by (subst if_True, rule triple_logged [OF ok _ inside]) (auto intro: triple_ret)
qed

definition assigned :: "ctx \<Rightarrow> (nat \<rightharpoonup> nat) \<Rightarrow> image \<Rightarrow> nat \<Rightarrow> nat option \<Rightarrow> string \<Rightarrow> nat \<Rightarrow> image \<Rightarrow> bool" where
  "assigned C M i x pl cs q k \<longleftrightarrow> new_at C M q (length cs + 1)
     \<and> string_at (freed (M(q \<mapsto> length cs + 1)) pl) k x (Some q) cs
     \<and> string_place (freed (M(q \<mapsto> length cs + 1)) pl) x (Some q)
     \<and> kept (bytes (freed M pl) - span x 24) i k"

lemma freed_subset: "bytes (freed M pl) \<subseteq> bytes M"
  using bytes_del_subset by (auto simp: freed_def split: option.splits)

lemma freed_new:
  assumes "new_at C M q m" "pl \<noteq> Some q"
  shows "freed (M(q \<mapsto> m)) pl = (freed M pl)(q \<mapsto> m)" "freed M pl q = None"
    "bytes (freed (M(q \<mapsto> m)) pl) = bytes (freed M pl) \<union> span q m"
proof -
  show eq: "freed (M(q \<mapsto> m)) pl = (freed M pl)(q \<mapsto> m)"
    using assms(2) by (auto simp: freed_def fun_upd_twist split: option.splits)
  show none: "freed M pl q = None"
    using assms by (auto simp: freed_def new_at_def split: option.splits)
  show "bytes (freed (M(q \<mapsto> m)) pl) = bytes (freed M pl) \<union> span q m"
    unfolding eq by (rule bytes_upd) (rule none)
qed

lemma assigned_result:
  assumes x: "string_place M x pl" "string_at M i x pl old" and q: "new_at C M q (length cs + 1)"
    and cs: "CHR 0x00 \<notin> set cs" "length vs = length cs + 1"
      "\<forall>c\<le>length cs. get_char (vs ! c) = Some (char_seq cs ! c)"
    and j: "kept (bytes M) i j"
    and k: "kept (bytes (freed (M(q \<mapsto> length cs + 1)) pl) - span x 24) (write_all j q vs) k"
  shows "assigned C M i x pl cs q (k(x \<mapsto> VOid (OID q), x + 16 \<mapsto> VSize (length cs)))"
proof -
  let ?m = "length cs + 1" and ?f = "k(x \<mapsto> VOid (OID q), x + 16 \<mapsto> VSize (length cs))"
  have pl: "pl \<noteq> Some q" using x(2) q by (auto simp: string_at_def new_at_def)
  note N = freed_new [OF q pl]
  have sub: "span x 24 \<subseteq> bytes M" by (rule place_bytes [OF x(1)])
  have apart: "span q ?m \<inter> bytes M = {}" using q by (simp add: new_at_def)
  have x_in: "x \<in> span x 24" "x + 16 \<in> span x 24" by (simp_all add: span_def)
  have payload: "?f (q + c) = Some (vs ! c)" if "c \<le> length cs" for c
  proof -
    have c: "q + c \<in> span q ?m" using that by (simp add: span_def)
    then have out: "q + c \<notin> span x 24" using apart sub by blast
    then have "?f (q + c) = k (q + c)" using x_in by auto
    also have "\<dots> = write_all j q vs (q + c)" using k c out N(3) by (simp add: kept_def)
    finally show ?thesis using that cs(2) by (simp add: write_all_nth)
  qed
  have frame: "kept (bytes (freed M pl) - span x 24) i ?f"
    unfolding kept_def
  proof
    fix a assume a: "a \<in> bytes (freed M pl) - span x 24"
    then have in_M: "a \<in> bytes M" using freed_subset by blast
    then have out: "a \<notin> span q ?m" using apart by blast
    have "?f a = k a" using a x_in by auto
    also have "\<dots> = write_all j q vs a" using k a N(3) by (simp add: kept_def)
    also have "\<dots> = j a" using out cs(2) by (auto simp: write_all_nth span_def)
    finally show "?f a = i a" using j in_M by (simp add: kept_def)
  qed
  have "cell ?f (q + c) get_char (char_seq cs ! c)" if "c \<le> length cs" for c
    unfolding cell_def payload [OF that] using cs(3) that by simp
  then have "\<forall>c\<le>length cs. cell ?f (q + c) get_char (char_seq cs ! c)" by blast
  moreover have "cell ?f x get_oid (OID q)" "cell ?f (x + 16) get_size (length cs)" by simp_all
  moreover have "freed (M(q \<mapsto> ?m)) pl q = Some ?m" using N(1) by simp
  ultimately have at: "string_at (freed (M(q \<mapsto> ?m)) pl) ?f x (Some q) cs"
    using cs(1) unfolding string_at_def option.case by blast
  obtain y m where y: "M y = Some m" "span x 24 \<subseteq> span y m" "pl \<noteq> Some y"
    using x(1) by (auto simp: string_place_def)
  have "y \<noteq> q" using y(1) q by (auto simp: new_at_def)
  then have "string_place (freed (M(q \<mapsto> ?m)) pl) x (Some q)"
    using y unfolding string_place_def N(1)
    by (intro exI [of _ y] exI [of _ m]) (auto simp: freed_def split: option.splits)
  then show ?thesis using q at frame by (simp add: assigned_def)
qed

lemma triple_string_assign:
  assumes ok: "pmdk_ok P V" and M: "objects_ok M"
    and x: "string_place M x pl" "string_at M i x pl old" and a: "readable P (c_pool C) M i w a cs"
  shows "triple (intact V C) (wrk V C d L M i w) (string_assign P (c_pool C + x) a)
    (\<lambda>_ s. \<exists>q k. assigned C M i x pl cs q k
       \<and> wrk V C d L (freed (M(q \<mapsto> length cs + 1)) pl) k w s) (stopping V C d)"
  unfolding string_assign_def
proof (rule triple_eq [OF triple_strlen [OF a]],
    rule triple_seq [OF triple_string_snapshot [OF ok place_bytes [OF x(1)]]],
    rule triple_andthen [OF triple_alloc [OF ok]], simp, intro triple_ex triple_pure, elim conjE)
  fix raw q j
  let ?L = "L \<union> span x 24" and ?m = "length cs + 1"
  assume raw: "raw = c_pool C + q" and q: "new_at C M q ?m"
    and j: "kept (bytes (c_objs C) \<union> bytes M) i j"
  let ?N = "M(q \<mapsto> ?m)"
  have jM: "kept (bytes M) i j" by (rule kept_mono [OF j]) simp
  have pl: "pl \<noteq> Some q" using x(2) q by (auto simp: string_at_def new_at_def)
  note N = freed_new [OF q pl]
  have bytes_N: "bytes ?N = bytes M \<union> span q ?m" using q by (intro bytes_upd) (simp add: new_at_def)
  have N_ok: "objects_ok ?N" using q by (intro objects_ok_upd [OF M]) (auto simp: new_at_def)
  have place: "string_place ?N x pl"
  proof -
    obtain y m where y: "M y = Some m" "span x 24 \<subseteq> span y m" "pl \<noteq> Some y"
      using x(1) by (auto simp: string_place_def)
    then have "?N y = Some m" using q by (auto simp: new_at_def)
    then show ?thesis using y(2,3) unfolding string_place_def by blast
  qed
  have readable: "readable P (c_pool C) ?N j w a cs"
    by (rule readable_kept [OF a jM]) (use bytes_N in simp)
  have copy: "triple (intact V C) (wrk V C d ?L ?N j w) (pm_memcpy P raw a ?m)
    (\<lambda>_ s. \<exists>vs. (length vs = ?m \<and> (\<forall>c\<le>length cs. get_char (vs ! c) = Some (char_seq cs ! c)))
      \<and> wrk V C d ?L ?N (write_all j q vs) w s) (stopping V C d)"
    unfolding raw by (rule triple_memcpy [OF ok readable]) (use q bytes_N in \<open>auto simp: new_at_def\<close>)
  have fill: "triple (intact V C) (wrk V C d ?L ?N (write_all j q vs) w)
      (andthen (string_release P (c_pool C + x)) (\<lambda>_.
       andthen (ask (\<lambda>m. pmemobj_oid P (global_pool m) raw)) (\<lambda>z.
       andthen (pm_write P (string_data (c_pool C + x)) (VOid z)) (\<lambda>_.
       pm_write P (string_size (c_pool C + x)) (VSize (length cs))))))
    (\<lambda>_ s. \<exists>q k. assigned C M i x pl cs q k \<and> wrk V C d L (freed (M(q \<mapsto> ?m)) pl) k w s)
    (stopping V C d)"
    if vs: "length vs = ?m" "\<forall>c\<le>length cs. get_char (vs ! c) = Some (char_seq cs ! c)" for vs
  proof -
    let ?j = "write_all j q vs"
    have x_in: "x \<in> bytes M" using place_bytes [OF x(1)] by (auto simp: span_def)
    then have "x \<notin> span q ?m" using q by (auto simp: new_at_def)
    then have "?j x = i x" using vs(1) jM x_in by (auto simp: write_all_nth span_def kept_def)
    then have old: "case pl of None \<Rightarrow> cell ?j x get_oid OID_NULL
        | Some p \<Rightarrow> cell ?j x get_oid (OID p) \<and> ?N p \<noteq> None"
      using x(2) by (auto simp: string_at_def cell_def split: option.splits)
    have "q \<in> span q ?m" "x \<in> span x 24" "x + 16 \<in> span x 24" by (simp_all add: span_def)
    then have end_in: "q \<in> bytes (freed ?N pl)" "x \<in> bytes (freed ?N pl)"
        "x + 16 \<in> bytes (freed ?N pl)"
      using place_freed(2) [OF N_ok place] N(3) by blast+
    have L: "x \<in> ?L" "x + 16 \<in> ?L" by (auto simp: span_def)
    have release: "triple (intact V C) (wrk V C d ?L ?N ?j w) (string_release P (c_pool C + x))
      (\<lambda>_ s. \<exists>k. kept (bytes (freed ?N pl) - span x 24) ?j k \<and> wrk V C d ?L (freed ?N pl) k w s)
      (stopping V C d)"
      by (rule triple_release [OF ok N_ok place _ old]) simp
    have fields: "triple (intact V C) (wrk V C d ?L (freed ?N pl) k w)
      (andthen (pm_write P (string_data (c_pool C + x)) (VOid (OID q))) (\<lambda>_.
       pm_write P (string_size (c_pool C + x)) (VSize (length cs))))
      (\<lambda>_. wrk V C d ?L (freed ?N pl) (k(x \<mapsto> VOid (OID q), x + 16 \<mapsto> VSize (length cs))) w)
      (stopping V C d)" for k
      unfolding string_data_def string_size_def add.assoc
      by (rule triple_seq [OF triple_write_cell [OF ok end_in(2) disjI1 [OF L(1)]]])
        (rule triple_write_cell [OF ok end_in(3) disjI1 [OF L(2)]])
    have cs: "CHR 0x00 \<notin> set cs" using a by (simp add: readable_def)
    show ?thesis
      unfolding raw
      by (rule triple_seq [OF release], intro triple_ex triple_pure,
          rule triple_eq [OF triple_ask_oid [OF ok end_in(1)]], rule triple_post [OF fields])
        (use assigned_result [OF x q cs vs jM] wrk_less_logged in blast)
  qed
  have nz: "raw \<noteq> NULL" using q raw by (simp add: new_at_def)
  show "triple (intact V C) (wrk V C d ?L ?N j w)
    (if raw = NULL then raise ''pmem_string: allocation failed''
     else andthen (pm_memcpy P raw a ?m) (\<lambda>_.
       andthen (string_release P (c_pool C + x)) (\<lambda>_.
       andthen (ask (\<lambda>m. pmemobj_oid P (global_pool m) raw)) (\<lambda>z.
       andthen (pm_write P (string_data (c_pool C + x)) (VOid z)) (\<lambda>_.
       pm_write P (string_size (c_pool C + x)) (VSize (length cs)))))))
    (\<lambda>_ s. \<exists>q k. assigned C M i x pl cs q k \<and> wrk V C d L (freed (M(q \<mapsto> ?m)) pl) k w s)
    (stopping V C d)"
    unfolding if_not_P [OF nz]
    by (rule triple_seq [OF copy], intro triple_ex triple_pure, elim conjE) (rule fill)
qed

section \<open>Assignment in a transaction of its own\<close>

definition holds_string :: "nat \<Rightarrow> string \<Rightarrow> nat option \<Rightarrow> (nat \<rightharpoonup> nat) \<Rightarrow> image \<Rightarrow> bool" where
  "holds_string x cs rt M i \<longleftrightarrow> (\<exists>pl. string_place M x pl \<and> string_at M i x pl cs)"

definition old_or_new :: "nat \<Rightarrow> string \<Rightarrow> string \<Rightarrow> nat option \<Rightarrow> (nat \<rightharpoonup> nat) \<Rightarrow> image \<Rightarrow> bool" where
  "old_or_new x cs ds rt M i \<longleftrightarrow> holds_string x cs rt M i \<or> holds_string x ds rt M i"

lemma string_kept:
  assumes "string_place M x pl" "string_at M i x pl cs" "kept (bytes M) i j"
  shows "string_at M j x pl cs"
proof -
  have x: "x \<in> bytes M" "x + 16 \<in> bytes M" using place_bytes [OF assms(1)] by (auto simp: span_def)
  note ends = cell_kept [OF assms(3) x(1), of get_oid] cell_kept [OF assms(3) x(2), of get_size]
  show ?thesis
  proof (cases pl)
    case (Some p)
    then have p: "M p = Some (length cs + 1)" using assms(2) by (simp add: string_at_def)
    have "cell j (p + k) get_char c \<longleftrightarrow> cell i (p + k) get_char c" if "k \<le> length cs" for k c
      by (rule cell_kept [OF assms(3)]) (use p that in \<open>auto simp: span_def intro!: bytesI [of M p]\<close>)
    then show ?thesis using assms(2) Some ends by (simp add: string_at_def)
  qed (use assms(2) ends in \<open>auto simp: string_at_def\<close>)
qed

lemma on_objects_string: "on_objects (holds_string x cs)"
  unfolding on_objects_def holds_string_def using string_kept by blast

lemma on_objects_old_or_new: "on_objects (old_or_new x cs ds)"
  using on_objects_or [OF on_objects_string on_objects_string, of x cs x ds]
  unfolding on_objects_def old_or_new_def .

lemma outer_assign:
  assumes ok: "pmdk_ok P V" and x: "string_place M x pl" "string_at M i x pl old"
    and a: "readable P b M i w a cs"
  shows "triple (durable V (old_or_new x old cs)) (rest V b rt M i w)
    (transaction_run P (string_assign P (b + x) a))
    (\<lambda>_ s. \<exists>q k. (M q = None \<and> string_at (freed (M(q \<mapsto> length cs + 1)) pl) k x (Some q) cs)
      \<and> rest V b rt (freed (M(q \<mapsto> length cs + 1)) pl) k w s)
    (\<lambda>s. \<exists>k v. string_at M k x pl old \<and> rest V b rt M k v s)"
proof -
  let ?f = "old_or_new x old cs" and ?C = "ctx_of b rt M i"
  let ?R = "\<lambda>(_ :: unit) (K :: nat set) N k u. \<exists>q. assigned ?C M i x pl cs q k
      \<and> N = freed (M(q \<mapsto> length cs + 1)) pl \<and> u = w"
  have now: "?f rt M i" using x unfolding old_or_new_def holds_string_def by blast
  have body: "triple (intact V ?C) (wrk V ?C 1 {} M i w) (string_assign P (b + x) a)
      (\<lambda>a s. \<exists>K N j u. ?R a K N j u \<and> wrk V ?C 1 K N j u s) (stopping V ?C 1)"
  proof (rule triple_wrk_objects)
    assume M: "objects_ok M"
    show "triple (intact V ?C) (wrk V ?C 1 {} M i w) (string_assign P (b + x) a)
      (\<lambda>a s. \<exists>K N j u. ?R a K N j u \<and> wrk V ?C 1 K N j u s) (stopping V ?C 1)"
      by (rule triple_post [OF triple_string_assign [where C = ?C, unfolded ctx_of_simps, OF ok M x a]]) blast
  qed
  have "triple (durable V ?f) (rest V b rt M i w) (transaction_run P (string_assign P (b + x) a))
      (\<lambda>a s. \<exists>K N j u k. (?R a K N j u \<and> kept (bytes N) j k) \<and> rest V b rt N k u s)
      (\<lambda>s. \<exists>k u. kept (bytes M) i k \<and> rest V b rt M k u s)"
    by (rule triple_transaction [where f = ?f and R = ?R, OF ok on_objects_old_or_new now body])
      (auto simp: old_or_new_def holds_string_def assigned_def)
  then show ?thesis
  proof (rule triple_conseq)
    fix q s assume "\<exists>K N j u k. (?R q K N j u \<and> kept (bytes N) j k) \<and> rest V b rt N k u s"
    then obtain q j k where q: "assigned ?C M i x pl cs q j"
        "kept (bytes (freed (M(q \<mapsto> length cs + 1)) pl)) j k"
        "rest V b rt (freed (M(q \<mapsto> length cs + 1)) pl) k w s"
      by blast
    have "string_at (freed (M(q \<mapsto> length cs + 1)) pl) k x (Some q) cs"
      by (rule string_kept [OF _ _ q(2)]) (use q(1) in \<open>simp_all add: assigned_def\<close>)
    moreover have "M q = None" using q(1) by (simp add: assigned_def new_at_def)
    ultimately show "\<exists>q k. (M q = None \<and> string_at (freed (M(q \<mapsto> length cs + 1)) pl) k x (Some q) cs)
      \<and> rest V b rt (freed (M(q \<mapsto> length cs + 1)) pl) k w s"
      using q(3) by blast
  next
    fix s assume "\<exists>k u. kept (bytes M) i k \<and> rest V b rt M k u s"
    then show "\<exists>k v. string_at M k x pl old \<and> rest V b rt M k v s" using string_kept [OF x] by blast
  qed
qed

section \<open>Reading and comparing\<close>

lemma strcmp_sequences:
  assumes "CHR 0x00 \<notin> set cs" "CHR 0x00 \<notin> set ds"
    "\<And>k. k \<le> length cs \<Longrightarrow> Option.bind (peek P s (a + k)) get_char = Some (char_seq cs ! k)"
    "\<And>k. k \<le> length ds \<Longrightarrow> Option.bind (peek P s (e + k)) get_char = Some (char_seq ds ! k)"
  shows "strcmp_at P s a e = Some (cs = ds)"
  using assms
proof (induction cs arbitrary: ds a e)
  case Nil
  have "Option.bind (peek P s a) get_char = Some (CHR 0x00)" using Nil(3) [of 0] by (simp add: char_seq_def)
  moreover have "Option.bind (peek P s e) get_char = Some (char_seq ds ! 0)" using Nil(4) [of 0] by simp
  ultimately show ?case
    using Nil(2) by (subst strcmp_at.simps) (cases ds, auto simp: char_seq_def)
next
  case (Cons c cs)
  have here: "Option.bind (peek P s a) get_char = Some c" "c \<noteq> CHR 0x00"
    using Cons.prems(3) [of 0] Cons.prems(1) by (auto simp: char_seq_def)
  have there: "Option.bind (peek P s e) get_char = Some (char_seq ds ! 0)" using Cons.prems(4) [of 0] by simp
  show ?case
  proof (cases ds)
    case Nil
    then show ?thesis using here there by (subst strcmp_at.simps) (simp add: char_seq_def)
  next
    case ds: (Cons d es)
    show ?thesis
    proof (cases "c = d")
      case True
      have "strcmp_at P s (a + 1) (e + 1) = Some (cs = es)"
      proof (rule Cons.IH)
        show "Option.bind (peek P s (a + 1 + k)) get_char = Some (char_seq cs ! k)" if "k \<le> length cs" for k
          using Cons.prems(3) [of "Suc k"] that by (simp add: char_seq_def)
        show "Option.bind (peek P s (e + 1 + k)) get_char = Some (char_seq es ! k)" if "k \<le> length es" for k
          using Cons.prems(4) [of "Suc k"] that ds by (simp add: char_seq_def)
      qed (use Cons.prems(1,2) ds in auto)
      then show ?thesis using True here there ds by (subst strcmp_at.simps) (simp add: char_seq_def)
    qed (use here there ds in \<open>subst strcmp_at.simps, simp add: char_seq_def\<close>)
  qed
qed

lemma payload_readable:
  assumes ok: "pmdk_ok P V" and b: "b \<noteq> NULL" and M: "objects_ok M" and x: "string_at M i x (Some p) cs"
  shows "readable P b M i w (b + p) cs"
  unfolding readable_def
proof (intro conjI allI impI)
  show "CHR 0x00 \<notin> set cs" using x by (simp add: string_at_def)
next
  fix k assume k: "k \<le> length cs"
  have "p + k \<in> bytes M"
    by (rule bytesI [of M p "length cs + 1"]) (use x k in \<open>simp_all add: string_at_def span_def\<close>)
  moreover from this have "pmemobj_oid P b (b + (p + k)) = OID (p + k)"
    using objects_ok_in_pool [OF M] oid_in_pool(1) [OF ok b] by blast
  moreover have "cell i (p + k) get_char (char_seq cs ! k)" using x k by (simp add: string_at_def)
  ultimately show "case pmemobj_oid P b (b + p + k) of
      OID y \<Rightarrow> y \<in> bytes M \<and> cell i y get_char (char_seq cs ! k)
    | OID_NULL \<Rightarrow> b + p + k \<noteq> NULL \<and> cell w (b + p + k) get_char (char_seq cs ! k)"
    by (simp add: add.assoc)
qed

lemma c_str_reads:
  assumes ok: "pmdk_ok P V" and s: "rest V b rt M i w s" and x: "string_place M x pl" "string_at M i x pl cs"
    and empty: "readable P b M i w (empty_literal s) []"
  shows "\<exists>a. c_str P (b + x) s = (Ret a, s, []) \<and> readable P b M i w a cs"
proof -
  have "x \<in> bytes M" using place_bytes [OF x(1)] by (auto simp: span_def)
  then have peek: "peek P s (b + x) = i x" by (rule rest_peek [OF ok s])
  have b: "global_pool s = b" "b \<noteq> NULL" "objects_ok M" using s by (auto simp: rest_def)
  show ?thesis
  proof (cases pl)
    case None
    then show ?thesis
      using x(2) peek empty by (simp add: c_str_def string_data_def andthen_def pm_read_def ask_def
          string_at_def cell_def)
  next
    case (Some p)
    have "pmemobj_direct P b (OID p) = b + p"
      using ok b(2) by (auto simp: pmdk_ok_def pmdk_addressing_def)
    then have "c_str P (b + x) s = (Ret (b + p), s, [])"
      using x(2) peek Some b(1) by (simp add: c_str_def string_data_def andthen_def pm_read_def ask_def
          direct_def string_at_def cell_def)
    then show ?thesis using payload_readable [OF ok b(2,3) x(2) [unfolded Some]] by blast
  qed
qed

end
