(* ===== verification/Pm_Undo_Log.thy ===== *)
theory Pm_Undo_Log
  imports Pm_Runs Pm_String
begin

text \<open>
  A small implementation of the functions that the library calls: a list of objects, an undo
  log of the cells of each range, and an allocator that only grows. It shows that the
  hypotheses on libpmemobj can hold together, and it runs the programs in the witnesses.
\<close>

section \<open>The store\<close>

record ulog =
  l_file :: bool
  l_stage :: tx_stage
  l_depth :: nat
  l_old :: "(nat \<times> nat) list"
  l_now :: "(nat \<times> nat) list"
  l_undo :: "nat \<rightharpoonup> pval option"
  l_root :: "(nat \<times> nat) option"

definition lview :: "ulog \<Rightarrow> view" where
  "lview p = \<lparr>v_file = l_file p, v_stage = l_stage p, v_depth = l_depth p,
     v_old = map_of (l_old p), v_now = map_of (l_now p), v_undo = l_undo p,
     v_root = map_option fst (l_root p)\<rparr>"

definition base_address :: ptr where "base_address = 4096"

definition first_free :: "ulog \<Rightarrow> nat" where
  "first_free p = Max (insert 64 ((\<lambda>(x, n). x + n) ` set (l_old p @ l_now p)))"

definition undo_all :: "(nat \<rightharpoonup> pval option) \<Rightarrow> image \<Rightarrow> image" where
  "undo_all u i a = (case u a of Some old \<Rightarrow> old | None \<Rightarrow> i a)"

definition log_range :: "(nat \<rightharpoonup> pval option) \<Rightarrow> image \<Rightarrow> nat \<Rightarrow> nat \<Rightarrow> (nat \<rightharpoonup> pval option)" where
  "log_range u i x n a = (case u a of
     Some old \<Rightarrow> Some old
   | None \<Rightarrow> if x \<le> a \<and> a < x + n then Some (i a) else None)"

definition l_rest :: "(nat \<times> nat) list \<Rightarrow> ulog \<Rightarrow> ulog" where
  "l_rest m p = p\<lparr>l_stage := TX_STAGE_NONE, l_depth := 0, l_old := m, l_now := m,
     l_undo := \<lambda>_. None\<rparr>"

definition l_abort :: "ulog \<Rightarrow> ulog" where
  "l_abort p = p\<lparr>l_stage := TX_STAGE_ONABORT, l_now := l_old p, l_undo := \<lambda>_. None\<rparr>"

section \<open>Its functions\<close>

definition l_direct :: "ptr \<Rightarrow> oid \<Rightarrow> ptr" where
  "l_direct b x = (case x of OID_NULL \<Rightarrow> NULL | OID y \<Rightarrow> b + y)"

definition l_oid :: "ptr \<Rightarrow> ptr \<Rightarrow> oid" where
  "l_oid b a = (if b < a \<and> a < b + PMEM_POOL_SIZE then OID (a - b) else OID_NULL)"

definition l_add_range :: "ptr \<Rightarrow> ptr \<Rightarrow> nat \<Rightarrow> image \<Rightarrow> ulog \<Rightarrow> int \<times> image \<times> ulog" where
  "l_add_range b a n i p = (if l_stage p = TX_STAGE_WORK
     then (0, i, p\<lparr>l_undo := log_range (l_undo p) i (a - b) n\<rparr>) else (- 1, i, p))"

definition l_alloc :: "nat \<Rightarrow> image \<Rightarrow> ulog \<Rightarrow> oid \<times> image \<times> ulog" where
  "l_alloc n i p = (let x = first_free p in
     if x + n \<le> PMEM_POOL_SIZE then (OID x, i, p\<lparr>l_now := (x, n) # l_now p\<rparr>)
     else (OID_NULL, undo_all (l_undo p) i, l_abort p))"

definition l_free :: "oid \<Rightarrow> image \<Rightarrow> ulog \<Rightarrow> int \<times> image \<times> ulog" where
  "l_free x i p = (case x of
     OID_NULL \<Rightarrow> (0, i, p)
   | OID y \<Rightarrow> (0, i, p\<lparr>l_now := filter (\<lambda>e. fst e \<noteq> y) (l_now p)\<rparr>))"

definition l_enter :: "image \<Rightarrow> ulog \<Rightarrow> bool \<times> image \<times> ulog" where
  "l_enter i p = (True, i, if l_stage p = TX_STAGE_WORK then p\<lparr>l_depth := Suc (l_depth p)\<rparr>
     else p\<lparr>l_stage := TX_STAGE_WORK, l_depth := 1\<rparr>)"

definition l_leave :: "image \<Rightarrow> ulog \<Rightarrow> unit \<times> image \<times> ulog" where
  "l_leave i p = ((), i, if l_depth p = 1 then l_rest (l_now p) p
     else p\<lparr>l_depth := l_depth p - 1\<rparr>)"

definition l_unwind :: "image \<Rightarrow> ulog \<Rightarrow> unit \<times> image \<times> ulog" where
  "l_unwind i p = ((), undo_all (l_undo p) i, if l_depth p = 1 then l_rest (l_old p) p
     else (l_abort p)\<lparr>l_depth := l_depth p - 1\<rparr>)"

fun zero_cells :: "nat \<Rightarrow> nat \<Rightarrow> image \<Rightarrow> image" where
  "zero_cells x 0 i = i"
| "zero_cells x (Suc n) i = (zero_cells (x + 1) n i)(x \<mapsto> VZero)"

definition l_get_root :: "nat \<Rightarrow> image \<Rightarrow> ulog \<Rightarrow> oid \<times> image \<times> ulog" where
  "l_get_root n i p = (case l_root p of
     Some (y, m) \<Rightarrow> (OID y, i, p)
   | None \<Rightarrow> let x = first_free p; m = (x, n) # l_now p in
       if x + n \<le> PMEM_POOL_SIZE
       then (OID x, zero_cells x n i, (l_rest m p)\<lparr>l_root := Some (x, n)\<rparr>)
       else (OID_NULL, i, p))"

definition ulog_pmdk :: "ulog pmdk" where
  "ulog_pmdk = \<lparr>
     pool_access = (\<lambda>_ p. l_file p),
     pmemobj_open = (\<lambda>_ _ i p. (base_address, undo_all (l_undo p) i, l_rest (l_old p) p)),
     pmemobj_create = (\<lambda>_ _ _ i p.
       (base_address, i, (l_rest [] p)\<lparr>l_file := True, l_root := None\<rparr>)),
     pmemobj_close = (\<lambda>i p. ((), i, p)),
     pmemobj_root = l_get_root,
     pmemobj_direct = l_direct,
     pmemobj_oid = l_oid,
     pmemobj_pool_by_ptr = (\<lambda>b a. if b \<le> a \<and> a < b + PMEM_POOL_SIZE then b else NULL),
     pmemobj_tx_stage = l_stage,
     pmemobj_tx_add_range_direct = l_add_range,
     pmemobj_tx_alloc = l_alloc,
     pmemobj_tx_free = l_free,
     pmemobj_alloc = (\<lambda>n i p. let x = first_free p; m = (x, n) # l_now p in
       ((0, OID x), i, p\<lparr>l_old := m, l_now := m\<rparr>)),
     pmemobj_free = (\<lambda>x i p. case l_free x i p of (_, j, q) \<Rightarrow> ((), j, q\<lparr>l_old := l_now q\<rparr>)),
     tx_enter = l_enter,
     tx_leave = l_leave,
     tx_unwind = l_unwind\<rparr>"

section \<open>The hypotheses hold\<close>

lemma undo_all_rollback: "undo_all (l_undo p) i = rollback (lview p) i"
  by (auto simp: undo_all_def rollback_def lview_def fun_eq_iff split: option.splits)

lemma log_range_snapshot: "log_range (l_undo p) i x n = snapshot (lview p) i (span x n)"
  by (auto simp: log_range_def snapshot_def lview_def span_def fun_eq_iff split: option.splits)

lemma lview_simps [simp]:
  "v_file (lview p) = l_file p" "v_stage (lview p) = l_stage p" "v_depth (lview p) = l_depth p"
  "v_old (lview p) = map_of (l_old p)" "v_now (lview p) = map_of (l_now p)"
  "v_undo (lview p) = l_undo p" "v_root (lview p) = map_option fst (l_root p)"
  by (simp_all add: lview_def)

lemma lview_rest [simp]: "lview (l_rest m p) = rested (lview p) (map_of m)"
  by (simp add: lview_def l_rest_def rested_def)

lemma lview_abort [simp]: "lview (l_abort p) = aborted (lview p)"
  by (simp add: lview_def l_abort_def aborted_def)

lemma below_first_free: "(x, n) \<in> set (l_old p @ l_now p) \<Longrightarrow> x + n \<le> first_free p"
  unfolding first_free_def by (rule Max_ge) (auto intro!: rev_image_eqI)

lemma first_free_fresh:
  assumes "first_free p + n \<le> PMEM_POOL_SIZE"
  shows "fresh_object (lview p) (first_free p) n"
proof -
  have "64 \<le> first_free p" unfolding first_free_def by (rule Max_ge) auto
  moreover have "a < first_free p" if a: "a \<in> bytes (map_of l)" "set l \<subseteq> set (l_old p @ l_now p)" for a l
  proof -
    obtain x m where "map_of l x = Some m" "a \<in> span x m" by (rule bytesE [OF a(1)])
    then have "(x, m) \<in> set (l_old p @ l_now p)" "a < x + m"
      using a(2) map_of_SomeD [of l x m] by (auto simp: span_def)
    then show ?thesis using below_first_free [of x m p] by simp
  qed
  ultimately show ?thesis
    using assms by (force simp: fresh_object_def span_def)
qed

lemma map_of_without: "map_of (filter (\<lambda>e. fst e \<noteq> y) l) = (map_of l)(y := None)"
  by (induction l) auto

lemma ulog_addressing: "pmdk_addressing ulog_pmdk"
  by (auto simp: pmdk_addressing_def ulog_pmdk_def l_direct_def l_oid_def)

lemma ulog_stage: "pmdk_stage ulog_pmdk lview"
  by (simp add: pmdk_stage_def ulog_pmdk_def)

lemma ulog_snapshot: "pmdk_snapshot ulog_pmdk lview"
  unfolding pmdk_snapshot_def
proof (intro allI impI)
  fix b a x n i p r j q
  assume "pmemobj_oid ulog_pmdk b a = OID x" and work: "v_stage (lview p) = TX_STAGE_WORK"
    and run: "pmemobj_tx_add_range_direct ulog_pmdk b a n i p = (r, j, q)"
  then have x: "a - b = x" by (simp add: ulog_pmdk_def l_oid_def split: if_splits)
  have "lview (p\<lparr>l_undo := log_range (l_undo p) i x n\<rparr>)
      = (lview p)\<lparr>v_undo := snapshot (lview p) i (span x n)\<rparr>"
    unfolding log_range_snapshot by (simp add: lview_def)
  then show "(if r = 0 then lview q = (lview p)\<lparr>v_undo := snapshot (lview p) i (span x n)\<rparr> \<and> j = i
          else lview q = aborted (lview p) \<and> kept (bytes (v_old (lview p))) (rollback (lview p) i) j)
       \<and> (span x n \<inter> bytes (v_old (lview p)) = {} \<longrightarrow> r = 0)"
    using run x work by (auto simp: ulog_pmdk_def l_add_range_def lview_def)
qed

lemma ulog_tx_objects: "pmdk_tx_objects ulog_pmdk lview"
  unfolding pmdk_tx_objects_def
proof (intro allI impI conjI)
  fix i p n x j q
  assume run: "pmemobj_tx_alloc ulog_pmdk n i p = (x, j, q)"
  have new: "lview (p\<lparr>l_now := (y, n) # l_now p\<rparr>) = (lview p)\<lparr>v_now := (v_now (lview p))(y \<mapsto> n)\<rparr>"
    for y by (simp add: lview_def)
  show "case x of
       OID_NULL \<Rightarrow> lview q = aborted (lview p) \<and> kept (bytes (v_old (lview p))) (rollback (lview p) i) j
     | OID y \<Rightarrow> fresh_object (lview p) y n \<and> lview q = (lview p)\<lparr>v_now := (v_now (lview p))(y \<mapsto> n)\<rparr>
         \<and> kept (bytes (v_old (lview p)) \<union> bytes (v_now (lview p))) i j"
    using run new first_free_fresh
    by (auto simp: ulog_pmdk_def l_alloc_def Let_def undo_all_rollback split: if_splits)
next
  fix i p y r j q
  assume "pmemobj_tx_free ulog_pmdk (OID y) i p = (r, j, q)"
  then show "if r = 0 then lview q = (lview p)\<lparr>v_now := (v_now (lview p))(y := None)\<rparr>
       \<and> kept (bytes (v_old (lview p)) \<union> bytes ((v_now (lview p))(y := None))) i j
     else lview q = aborted (lview p) \<and> kept (bytes (v_old (lview p))) (rollback (lview p) i) j"
    by (auto simp: ulog_pmdk_def l_free_def lview_def map_of_without)
qed

lemma zero_cells_at: "zero_cells x n i a = (if x \<le> a \<and> a < x + n then Some VZero else i a)"
  by (induction n arbitrary: x) auto

lemma ulog_root: "pmdk_root ulog_pmdk lview"
  unfolding pmdk_root_def
proof (intro allI impI)
  fix n i p x j q
  assume run: "pmemobj_root ulog_pmdk n i p = (x, j, q)"
  show "case v_root (lview p) of
      Some y \<Rightarrow> v_now (lview p) y = Some n \<longrightarrow>
        x = OID y \<and> lview q = lview p \<and> kept (bytes (v_now (lview p))) i j
    | None \<Rightarrow> (case x of
        OID_NULL \<Rightarrow> lview q = lview p \<and> kept (bytes (v_now (lview p))) i j
      | OID y \<Rightarrow> fresh_object (lview p) y n
          \<and> lview q = (rested (lview p) ((v_now (lview p))(y \<mapsto> n)))\<lparr>v_root := Some y\<rparr>
          \<and> kept (bytes (v_now (lview p))) i j \<and> (\<forall>a\<in>span y n. j a = Some VZero))"
  proof (cases "l_root p")
    case None
    show ?thesis
    proof (cases "first_free p + n \<le> PMEM_POOL_SIZE")
      case True
      have new: "x = OID (first_free p)" "j = zero_cells (first_free p) n i"
        "q = (l_rest ((first_free p, n) # l_now p) p)\<lparr>l_root := Some (first_free p, n)\<rparr>"
        using run None True by (auto simp: ulog_pmdk_def l_get_root_def Let_def)
      note fresh = first_free_fresh [OF True]
      have "kept (bytes (v_now (lview p))) i j"
        using fresh unfolding new kept_def zero_cells_at by (auto simp: fresh_object_def span_def)
      moreover have "lview q = (rested (lview p) ((v_now (lview p))(first_free p \<mapsto> n)))\<lparr>v_root := Some (first_free p)\<rparr>"
        unfolding new by (simp add: lview_def l_rest_def rested_def)
      ultimately show ?thesis
        using None fresh unfolding new(1) by (simp add: new(2) zero_cells_at span_def)
    qed (use run None in \<open>simp add: ulog_pmdk_def l_get_root_def Let_def\<close>)
  next
    case (Some e)
    then show ?thesis using run by (cases e) (simp add: ulog_pmdk_def l_get_root_def)
  qed
qed

lemma ulog_transactions: "pmdk_transactions ulog_pmdk lview"
  unfolding pmdk_transactions_def
proof (intro allI conjI impI)
  fix i p ok j q
  assume run: "tx_enter ulog_pmdk i p = (ok, j, q)"
  show "j = i" if "idle (lview p)" using run by (simp add: ulog_pmdk_def l_enter_def)
  show "lview q = (if ok then (lview p)\<lparr>v_stage := TX_STAGE_WORK, v_depth := 1\<rparr> else lview p)"
    if "idle (lview p)"
    using run that by (auto simp: ulog_pmdk_def l_enter_def idle_def lview_def)
  show "if ok then j = i \<and> lview q = (lview p)\<lparr>v_depth := Suc (v_depth (lview p))\<rparr>
     else lview q = aborted (lview p) \<and> kept (bytes (v_old (lview p))) (rollback (lview p) i) j"
    if "v_stage (lview p) = TX_STAGE_WORK"
    using run that by (auto simp: ulog_pmdk_def l_enter_def lview_def)
next
  fix i p u j q
  assume "tx_leave ulog_pmdk i p = (u, j, q)" "v_stage (lview p) = TX_STAGE_WORK" "0 < v_depth (lview p)"
  then show "if v_depth (lview p) = 1
     then lview q = rested (lview p) (v_now (lview p)) \<and> kept (bytes (v_now (lview p))) i j
     else j = i \<and> lview q = (lview p)\<lparr>v_depth := v_depth (lview p) - 1\<rparr>"
    by (auto simp: ulog_pmdk_def l_leave_def lview_def l_rest_def rested_def)
next
  fix i p u j q
  assume run: "tx_unwind ulog_pmdk i p = (u, j, q)"
  show "kept (bytes (v_old (lview p))) (rollback (lview p) i) j"
    using run by (auto simp: ulog_pmdk_def l_unwind_def undo_all_rollback)
  show "lview q = (if v_depth (lview p) = 1 then rested (lview p) (v_old (lview p))
      else (aborted (lview p))\<lparr>v_depth := v_depth (lview p) - 1\<rparr>)"
    using run by (auto simp: ulog_pmdk_def l_unwind_def lview_def l_rest_def l_abort_def rested_def aborted_def)
qed

lemma ulog_pool: "pmdk_pool ulog_pmdk lview"
  unfolding pmdk_pool_def
proof (intro allI conjI impI)
  fix path layout i p b j q
  assume "pmemobj_open ulog_pmdk path layout i p = (b, j, q)"
  then show "if b = NULL then lview q = lview p \<and> j = i
     else lview q = rested (lview p) (v_old (lview p))
       \<and> kept (bytes (v_old (lview p))) (rollback (lview p) i) j"
    by (auto simp: ulog_pmdk_def base_address_def undo_all_rollback)
next
  fix path layout i p b j q
  assume "pmemobj_create ulog_pmdk path layout PMEM_POOL_SIZE i p = (b, j, q)"
  then show "if b = NULL then lview q = lview p
     else lview q = (rested (lview p) Map.empty)\<lparr>v_file := True, v_root := None\<rparr>"
    by (auto simp: ulog_pmdk_def base_address_def lview_def l_rest_def rested_def)
qed (auto simp: ulog_pmdk_def)

theorem ulog_ok: "pmdk_ok ulog_pmdk lview"
  by (simp add: pmdk_ok_def ulog_addressing ulog_stage ulog_snapshot ulog_tx_objects ulog_root
      ulog_transactions ulog_pool)

lemma ulog_root_found: "pmdk_root_found ulog_pmdk lview"
  unfolding pmdk_root_found_def
proof (intro allI impI)
  fix n i p
  assume n: "(n :: nat) \<le> 4096" and p: "idle (lview p)" "v_root (lview p) = None" "v_now (lview p) = Map.empty"
  then have "l_root p = None" "l_now p = []" "l_old p = []" by (simp_all add: idle_def)
  then show "fst (pmemobj_root ulog_pmdk n i p) \<noteq> OID_NULL"
    using n by (simp add: ulog_pmdk_def l_get_root_def first_free_def Let_def PMEM_POOL_SIZE_def)
qed

section \<open>A machine without a pool\<close>

definition no_pool :: ulog where
  "no_pool = \<lparr>l_file = False, l_stage = TX_STAGE_NONE, l_depth = 0, l_old = [], l_now = [],
     l_undo = (\<lambda>_. None), l_root = None\<rparr>"

definition new_machine :: "ulog mach" where
  "new_machine = \<lparr>img = (\<lambda>_. None), vol = (\<lambda>_. None), global_pool = NULL,
     env_pool_path = None, empty_literal = NULL, px = no_pool\<rparr>"

lemma objects_ok_list:
  assumes order: "sorted_wrt (\<lambda>e f. fst e + snd e \<le> fst f) l"
    and each: "\<forall>e\<in>set l. 0 < fst e \<and> 0 < snd e \<and> fst e + snd e \<le> PMEM_POOL_SIZE"
  shows "objects_ok (map_of l)"
proof -
  have apart: "span x n \<inter> span y k = {}" if "(x, n) \<in> set l" "(y, k) \<in> set l" "x \<noteq> y" for x n y k
  proof -
    have "x + n \<le> y \<or> y + k \<le> x"
      using order that by (induction l) fastforce+
    then show ?thesis by (auto simp: span_def)
  qed
  show ?thesis
    unfolding objects_ok_def using each apart map_of_SomeD by (metis fst_conv snd_conv)
qed

end
