(* ===== verification/Pm_Properties.thy ===== *)
theory Pm_Properties
  imports Pm_Counter Pm_Hanoi_Program Pm_Strings Pm_Undo_Log "HOL-Library.Code_Target_Numeral"
begin

text \<open>
  What the library of persistent types and its programs guarantee, for every libpmemobj with
  the documented behaviour: a run of a program is all or nothing for every point at which the
  process is killed, and no sequence of completed and killed runs loses or repeats a committed
  effect. The witnesses run the programs on the undo log of \<open>Pm_Undo_Log\<close>.
\<close>

declare print_nodes.simps [code] strlen_at.simps [code] moveDisks.simps [code]

section \<open>From triples to runs\<close>

lemma triple_run:
  assumes "triple I A m Q E" "A s" "m s = (r, s1, t)"
  shows "\<forall>u\<in>set t. I u" "case r of Ret a \<Rightarrow> Q a s1 | Throw e \<Rightarrow> E s1 | Terminate \<Rightarrow> True | Fault \<Rightarrow> False" "r \<noteq> Fault"
  using assms unfolding triple_def by force+

lemma triple_returns: "triple I A m Q E \<Longrightarrow> A s \<Longrightarrow> m s = (Ret a, s1, t) \<Longrightarrow> Q a s1"
  by (drule triple_run(2)) auto

lemma triple_throws: "triple I A m Q E \<Longrightarrow> A s \<Longrightarrow> m s = (Throw e, s1, t) \<Longrightarrow> E s1"
  by (drule triple_run(2)) auto

lemma recovers_way:
  assumes "pmdk_ok P V" "triple (durable V f) A m Q E" "A s" "m s = (r, s1, t)" "on_objects f"
  shows "\<forall>u\<in>set t. recovers P V f u"
  using triple_run(1) [OF assms(2-4)] durable_recovers [OF assms(1) _ assms(5)] by blast

lemma new_machine_facts [simp]:
  "global_pool new_machine = NULL" "px new_machine = no_pool" "\<not> l_file no_pool"
  by (simp_all add: new_machine_def no_pool_def)

lemma new_machine_durable: "f None Map.empty Map.empty \<Longrightarrow> durable lview f new_machine"
  by (simp add: durable_def)

section \<open>Histories of the counter\<close>

inductive counter_history :: "'p pmdk \<Rightarrow> ('p \<Rightarrow> view) \<Rightarrow> nat \<Rightarrow> nat \<Rightarrow> 'p mach \<Rightarrow> bool"
  for P :: "'p pmdk" and V :: "'p \<Rightarrow> view" where
  fresh: "\<not> v_file (V (px s)) \<Longrightarrow> global_pool s = NULL \<Longrightarrow> counter_history P V 0 0 s"
| completed: "counter_history P V a c s \<Longrightarrow> counter_program P s = (Ret n, s1, t) \<Longrightarrow>
    counter_history P V (Suc a) c s1"
| thrown: "counter_history P V a c s \<Longrightarrow> counter_program P s = (Throw e, s1, t) \<Longrightarrow>
    torn V s1 j \<Longrightarrow> counter_history P V a (Suc c) (killed s1 j w)"
| crashed: "counter_history P V a c s \<Longrightarrow> counter_program P s = (r, s1, t) \<Longrightarrow>
    u \<in> set t \<Longrightarrow> torn V u j \<Longrightarrow> counter_history P V a (Suc c) (killed u j w)"

lemma between_cases:
  "durable V (counter_between n) s \<Longrightarrow> durable V (counter_is n) s \<or> durable V (counter_is (n + 1)) s"
  by (auto simp: durable_def counter_between_def split: if_splits)

lemma killed_counter:
  assumes u: "durable V (counter_between (of_nat m)) u" and j: "torn V u j"
    and m: "a \<le> m" "m \<le> a + c"
  shows "\<exists>k. a \<le> k \<and> k \<le> a + Suc c \<and> durable V (counter_is (of_nat k)) (killed u j w)"
proof -
  have "durable V (counter_between (of_nat m)) (killed u j w)"
    by (rule durable_killed [OF u on_objects_between j])
  then consider "durable V (counter_is (of_nat m)) (killed u j w)"
    | "durable V (counter_is (of_nat m + 1)) (killed u j w)"
    using between_cases by blast
  then show ?thesis
  proof cases
    case 1
    then show ?thesis using m by (intro exI [of _ m]) simp
  next
    case 2
    then show ?thesis using m by (intro exI [of _ "Suc m"]) (simp add: add.commute)
  qed
qed

lemma counter_history_invariant:
  assumes ok: "pmdk_ok P V" and found: "pmdk_root_found P V" and s: "counter_history P V a c s"
  shows "global_pool s = NULL \<and> (\<exists>m. a \<le> m \<and> m \<le> a + c \<and> durable V (counter_is (of_nat m)) s)"
  using s
proof induction
  case (fresh s)
  then show ?case by (auto simp: durable_def counter_is_def)
next
  case (completed a c s n s1 t)
  then obtain m where m: "a \<le> m" "m \<le> a + c" and s: "global_pool s = NULL \<and> durable V (counter_is (of_nat m)) s"
    by blast
  have step: "n = of_nat m + 1 \<and> global_pool s1 = NULL \<and> durable V (counter_is n) s1"
    using triple_run(2) [OF counter_program_rule [OF ok found] s completed(2)]
    unfolding outcome.case .
  then have n: "n = of_nat (Suc m)" by (simp add: add.commute)
  have "durable V (counter_is (of_nat (Suc m))) s1" using step unfolding n by blast
  then show ?case using m step by (intro conjI exI [of _ "Suc m"]) (simp, simp, simp, assumption)
next
  case (thrown a c s e s1 t j w)
  then obtain m where m: "a \<le> m" "m \<le> a + c" and s: "global_pool s = NULL \<and> durable V (counter_is (of_nat m)) s"
    by blast
  have "durable V (counter_between (of_nat m)) s1"
    using triple_run(2) [OF counter_program_rule [OF ok found] s thrown(2)] by simp
  then show ?case using killed_counter [OF _ thrown(3) m] by (simp add: killed_def)
next
  case (crashed a c s r s1 t u j w)
  then obtain m where m: "a \<le> m" "m \<le> a + c" and s: "global_pool s = NULL \<and> durable V (counter_is (of_nat m)) s"
    by blast
  have "durable V (counter_between (of_nat m)) u"
    using triple_run(1) [OF counter_program_rule [OF ok found] s crashed(2)] crashed(3) by blast
  then show ?case using killed_counter [OF _ crashed(4) m] by (simp add: killed_def)
qed

text \<open>C1: In every history of the counter program that starts without a pool file, in which
  runs end, are left by an exception or are killed at an arbitrary point with the covered
  memory in an arbitrary state, the next run does not fault, and the number that it prints
  counts every completed run exactly once and every other run at most once.\<close>
theorem counter_counts_runs:
  assumes "pmdk_ok P V" "pmdk_root_found P V" "counter_history P V a c s"
  shows "\<exists>m. a \<le> m \<and> m \<le> a + c \<and> (case counter_program P s of (r, s1, t) \<Rightarrow>
      r \<noteq> Fault \<and> (\<forall>n. r = Ret n \<longrightarrow> n = of_nat (Suc m))
    \<and> (\<forall>u\<in>set t. recovers P V (\<lambda>rt M i. counter_is (of_nat m) rt M i
         \<or> counter_is (of_nat (Suc m)) rt M i) u))"
proof -
  obtain m where m: "a \<le> m" "m \<le> a + c" and s: "global_pool s = NULL \<and> durable V (counter_is (of_nat m)) s"
    using counter_history_invariant [OF assms] by blast
  obtain r s1 t where run: "counter_program P s = (r, s1, t)" by (cases "counter_program P s") auto
  note rule = counter_program_rule [OF assms(1,2)]
  have "r \<noteq> Fault" by (rule triple_run(3) [OF rule s run])
  moreover have "\<forall>n. r = Ret n \<longrightarrow> n = of_nat (Suc m)"
    using triple_run(2) [OF rule s run] by (auto simp: add.commute)
  moreover have "\<forall>u\<in>set t. recovers P V (\<lambda>rt M i. counter_is (of_nat m) rt M i
         \<or> counter_is (of_nat (Suc m)) rt M i) u"
    using recovers_way [OF assms(1) rule s run on_objects_between]
    unfolding counter_between_def [abs_def] by (simp add: add.commute)
  ultimately show ?thesis using m run by auto
qed

lemma new_machine_history: "counter_history ulog_pmdk lview 0 0 new_machine"
  by (rule counter_history.fresh) simp_all

lemma first_count: "fst (counter_program ulog_pmdk new_machine) = Ret 1"
  by code_simp

theorem counter_counts_runs_witness:
  "fst (counter_program ulog_pmdk new_machine) = Ret (of_nat (Suc 0)) \<and>
   list_all (recovers ulog_pmdk lview
      (\<lambda>rt M i. counter_is (of_nat 0) rt M i \<or> counter_is (of_nat (Suc 0)) rt M i))
     (snd (snd (counter_program ulog_pmdk new_machine)))"
proof -
  obtain r s1 t where run: "counter_program ulog_pmdk new_machine = (r, s1, t)"
    by (rule prod_cases3)
  then have "list_all (recovers ulog_pmdk lview
      (\<lambda>rt M i. counter_is (of_nat 0) rt M i \<or> counter_is (of_nat (Suc 0)) rt M i)) t"
    using counter_counts_runs [OF ulog_ok ulog_root_found new_machine_history]
    by (auto simp: list_all_iff)
  then show ?thesis using first_count run by simp
qed

section \<open>The stack\<close>

text \<open>C3: A push on a persistent stack does not fault. It returns with the new element in front of
  the old ones, or throws and leaves the stack as it was, and in every state on the way a crash
  recovers to the old or to the new stack.\<close>
theorem stack_push_atomic:
  assumes "pmdk_ok P V" "rest V b rt M i w s" "stack_at M i x ns vs"
    "stack_push P (b + x) v s = (r, s1, t)"
  shows "r \<noteq> Fault
    \<and> (\<forall>u. r = Ret u \<longrightarrow> (\<exists>n k. M n = None \<and> stack_at (M(n \<mapsto> 24)) k x (n # ns) (v # vs)
          \<and> rest V b rt (M(n \<mapsto> 24)) k w s1))
    \<and> (\<forall>e. r = Throw e \<longrightarrow> (\<exists>k w'. stack_at M k x ns vs \<and> rest V b rt M k w' s1))
    \<and> (\<forall>u\<in>set t. recovers P V (holds_either x vs (v # vs)) u)"
proof -
  note rule = outer_push [OF assms(1,3)]
  note returned = triple_returns [OF rule assms(2)] and thrown = triple_throws [OF rule assms(2)]
  show ?thesis
    using triple_run(3) [OF rule assms(2,4)] recovers_way [OF assms(1) rule assms(2,4) on_objects_either]
      returned thrown assms(4) by blast
qed

text \<open>The state of the witnesses for stacks: a pool that holds a stack of one node.\<close>

definition stack_objs :: "(nat \<times> nat) list" where
  "stack_objs = [(64, 24), (88, 24)]"

definition stack_image :: image where
  "stack_image = [64 \<mapsto> VOid (OID 88), 80 \<mapsto> VInt 1, 88 \<mapsto> VInt 7, 96 \<mapsto> VOid OID_NULL]"

definition stack_machine :: "ulog mach" where
  "stack_machine = \<lparr>img = stack_image, vol = (\<lambda>_. None), global_pool = base_address,
     env_pool_path = None, empty_literal = NULL,
     px = \<lparr>l_file = True, l_stage = TX_STAGE_NONE, l_depth = 0, l_old = stack_objs,
       l_now = stack_objs, l_undo = (\<lambda>_. None), l_root = None\<rparr>\<rparr>"

lemma stack_machine_rest:
  "rest lview base_address None (map_of stack_objs) stack_image (\<lambda>_. None) stack_machine"
proof -
  have "objects_ok (map_of stack_objs)"
    by (rule objects_ok_list) (simp_all add: stack_objs_def PMEM_POOL_SIZE_def)
  then show ?thesis by (simp add: rest_def stack_machine_def base_address_def idle_def)
qed

lemma stack_machine_stack: "stack_at (map_of stack_objs) stack_image 64 [88] [7]"
  by (auto simp: stack_at_def stack_objs_def stack_image_def cell_def sizeof_Stack_def sizeof_Node_def)

lemma demo_push: "fst (stack_push ulog_pmdk (base_address + 64) 9 stack_machine) = Ret ()"
  by code_simp

theorem stack_push_atomic_witness:
  "\<exists>n k. map_of stack_objs n = None
     \<and> stack_at ((map_of stack_objs)(n \<mapsto> 24)) k 64 [n, 88] [9, 7]"
proof -
  obtain r s1 t where run: "stack_push ulog_pmdk (base_address + 64) 9 stack_machine = (r, s1, t)"
    by (rule prod_cases3)
  then have "r = Ret ()" using demo_push by simp
  then show ?thesis
    using stack_push_atomic [OF ulog_ok stack_machine_rest stack_machine_stack run] by blast
qed

text \<open>C2: A run of the stack program prints the three new elements in front of all the old ones
  and leaves exactly them in the pool. If it is killed anywhere, also between two of the three
  nested pushes, the pool recovers to the old elements or to all of them.\<close>
theorem stack_program_all_or_nothing:
  assumes "pmdk_ok P V" "pmdk_root_found P V" "global_pool s = NULL" "durable V (stack_is vs) s"
    "stack_program P s = (r, s1, t)"
  shows "r \<noteq> Fault
    \<and> (\<forall>l. r = Ret l \<longrightarrow> l = 30 # 20 # 10 # vs \<and> global_pool s1 = NULL \<and> durable V (stack_is l) s1)
    \<and> (\<forall>u\<in>set t. recovers P V (\<lambda>rt M i. stack_is vs rt M i \<or> stack_is (30 # 20 # 10 # vs) rt M i) u)
    \<and> (\<forall>u\<in>set t. \<forall>j w. torn V u j \<longrightarrow>
         (\<exists>l\<in>{vs, 30 # 20 # 10 # vs}. durable V (stack_is l) (killed u j w)))"
proof -
  note rule = stack_program_rule [OF assms(1,2), of vs]
  have start: "global_pool s = NULL \<and> durable V (stack_is vs) s" using assms(3,4) by simp
  have "durable V (stack_is vs) (killed u j w) \<or> durable V (stack_is (30 # 20 # 10 # vs)) (killed u j w)"
    if "u \<in> set t" "torn V u j" for u j w
  proof -
    have "durable V (stack_between vs) u" using triple_run(1) [OF rule start assms(5)] that(1) by blast
    then have "durable V (stack_between vs) (killed u j w)"
      by (rule durable_killed [OF _ on_objects_stack_between that(2)])
    then show ?thesis by (auto simp: durable_def stack_between_def split: if_splits)
  qed
  moreover have "\<forall>u\<in>set t. recovers P V (\<lambda>rt M i. stack_is vs rt M i \<or> stack_is (30 # 20 # 10 # vs) rt M i) u"
    using recovers_way [OF assms(1) rule start assms(5) on_objects_stack_between]
    unfolding stack_between_def [abs_def] .
  moreover have "\<forall>l. r = Ret l \<longrightarrow> l = 30 # 20 # 10 # vs \<and> global_pool s1 = NULL \<and> durable V (stack_is l) s1"
    using triple_run(2) [OF rule start assms(5)] by auto
  ultimately show ?thesis using triple_run(3) [OF rule start assms(5)] by blast
qed

lemma first_stack: "fst (stack_program ulog_pmdk new_machine) = Ret [30, 20, 10]"
  by code_simp

theorem stack_program_all_or_nothing_witness:
  "fst (stack_program ulog_pmdk new_machine) = Ret [30, 20, 10]
   \<and> durable lview (stack_is [30, 20, 10]) (fst (snd (stack_program ulog_pmdk new_machine)))"
proof -
  obtain r s1 t where run: "stack_program ulog_pmdk new_machine = (r, s1, t)" by (rule prod_cases3)
  have start: "durable lview (stack_is []) new_machine"
    by (rule new_machine_durable) (simp add: stack_is_def)
  have r: "r = Ret [30, 20, 10]" using first_stack run by simp
  have "durable lview (stack_is [30, 20, 10]) s1"
    using stack_program_all_or_nothing [OF ulog_ok ulog_root_found new_machine_facts(1) start run] r
    by blast
  then show ?thesis using run r by simp
qed

section \<open>The towers of Hanoi\<close>

text \<open>C4: \<open>moveDisks\<close> ends and moves the upper disks of one peg to another one, with the disks below
  and the third peg as before. In every state on the way, for any number of disks, a crash
  recovers to three legal towers with all the disks.\<close>
theorem moveDisks_moves_tower:
  assumes "pmdk_ok P V" "rest V b (Some r) M i w s" "M r = Some 48" "peg_cells r i x y z"
    "pegs M i x y z (ds @ l) l2 l3" "legal all (ds @ l) l2 l3" "above ds l2" "above ds l3"
    "moveDisks P (int (length ds)) (b + x) (b + y) (b + z) s = (res, s1, t)"
  shows "res \<noteq> Fault
    \<and> (\<forall>u. res = Ret u \<longrightarrow> (\<exists>N k. pegs N k x y z l (ds @ l2) l3 \<and> rest V b (Some r) N k w s1))
    \<and> (\<forall>u\<in>set t. recovers P V (hanoi_legal all) u)"
proof -
  note rule = triple_moveDisks [where M = M and i = i, OF assms(1)
      hanoi_tower_property [OF assms(4), of all] assms(5) assms(3) kept_refl assms(6,7,8)]
  show ?thesis
    using triple_run(3) [OF rule assms(2,9)] triple_returns [OF rule assms(2)] assms(9)
      recovers_way [OF assms(1) rule assms(2,9) on_objects_hanoi_legal] by blast
qed

definition peg_objs :: "(nat \<times> nat) list" where
  "peg_objs = [(64, 48), (112, 24), (136, 24), (160, 24), (184, 24)]"

definition peg_image :: image where
  "peg_image = [64 \<mapsto> VOid (OID 112), 80 \<mapsto> VOid (OID 136), 96 \<mapsto> VOid (OID 160),
     112 \<mapsto> VOid (OID 184), 128 \<mapsto> VInt 1, 136 \<mapsto> VOid OID_NULL, 152 \<mapsto> VInt 0,
     160 \<mapsto> VOid OID_NULL, 176 \<mapsto> VInt 0, 184 \<mapsto> VInt 5, 192 \<mapsto> VOid OID_NULL]"

definition peg_machine :: "ulog mach" where
  "peg_machine = \<lparr>img = peg_image, vol = (\<lambda>_. None), global_pool = base_address,
     env_pool_path = None, empty_literal = NULL,
     px = \<lparr>l_file = True, l_stage = TX_STAGE_NONE, l_depth = 0, l_old = peg_objs,
       l_now = peg_objs, l_undo = (\<lambda>_. None), l_root = Some (64, 48)\<rparr>\<rparr>"

lemma peg_machine_rest:
  "rest lview base_address (Some 64) (map_of peg_objs) peg_image (\<lambda>_. None) peg_machine"
proof -
  have "objects_ok (map_of peg_objs)"
    by (rule objects_ok_list) (simp_all add: peg_objs_def PMEM_POOL_SIZE_def)
  then show ?thesis by (simp add: rest_def peg_machine_def base_address_def idle_def)
qed

lemma peg_machine_pegs:
  "pegs (map_of peg_objs) peg_image 112 136 160 [5] [] []" "peg_cells 64 peg_image 112 136 160"
proof -
  have "stack_at (map_of peg_objs) peg_image 112 [184] [5]" "stack_at (map_of peg_objs) peg_image 136 [] []"
      "stack_at (map_of peg_objs) peg_image 160 [] []"
    by (simp_all add: stack_at_def peg_objs_def peg_image_def cell_def sizeof_Stack_def sizeof_Node_def)
  moreover have "distinct ((112 # [184]) @ (136 # []) @ (160 # ([] :: nat list)))" by simp
  ultimately show "pegs (map_of peg_objs) peg_image 112 136 160 [5] [] []"
    unfolding pegs_def by blast
qed (simp add: peg_cells_def peg_image_def cell_def)

lemma demo_moves:
  "fst (moveDisks ulog_pmdk 1 (base_address + 112) (base_address + 136) (base_address + 160)
     peg_machine) = Ret ()"
  by code_simp

theorem moveDisks_moves_tower_witness:
  "\<exists>N k. pegs N k 112 136 160 [] [5] []"
proof -
  obtain r s1 t where run: "moveDisks ulog_pmdk (int (length [5 :: 32 word])) (base_address + 112)
      (base_address + 136) (base_address + 160) peg_machine = (r, s1, t)"
    by (rule prod_cases3)
  have ret: "r = Ret ()" using demo_moves run by simp
  have start: "map_of peg_objs 64 = Some 48" "pegs (map_of peg_objs) peg_image 112 136 160 ([5] @ []) [] []"
      "legal [5] ([5] @ []) [] []" "above [5] []"
    using peg_machine_pegs by (simp_all add: peg_objs_def legal_def)
  show ?thesis
    using moveDisks_moves_tower [OF ulog_ok peg_machine_rest start(1) peg_machine_pegs(2)
        start(2,3,4,4) run] ret by auto
qed

text \<open>C6: A run of the program of the towers of Hanoi on empty pegs ends with all disks on the second
  peg. A run that finds disks on the pegs leaves every peg as it is, whether the puzzle was
  solved or was interrupted. In every state on the way a crash recovers to three empty pegs or
  to a legal position of all the disks.\<close>
theorem hanoi_program_solves_or_keeps:
  assumes "pmdk_ok P V" "pmdk_root_found P V" "global_pool s = NULL" "durable V (hanoi_is [a, b, c]) s"
    "a = [] \<and> b = [] \<and> c = [] \<or> legal all_disks a b c" "hanoi_program P s = (r, s1, t)"
  shows "r \<noteq> Fault
    \<and> (\<forall>x y z. r = Ret (x, y, z) \<longrightarrow>
         (x, y, z) = (if a = [] \<and> b = [] \<and> c = [] then ([], all_disks, []) else (a, b, c))
       \<and> global_pool s1 = NULL \<and> durable V (hanoi_is [x, y, z]) s1)
    \<and> (\<forall>u\<in>set t. recovers P V (\<lambda>rt M i. hanoi_is [[], [], []] rt M i \<or> hanoi_legal all_disks rt M i) u)"
proof -
  have start: "hanoi_start a b c" using assms(5) by (simp add: hanoi_start_def seeded_def)
  note rule = hanoi_program_rule [OF assms(1,2) start]
  have s: "global_pool s = NULL \<and> durable V (hanoi_is [a, b, c]) s" using assms(3,4) by blast
  have "\<forall>u\<in>set t. recovers P V (\<lambda>rt M i. hanoi_is [[], [], []] rt M i \<or> hanoi_legal all_disks rt M i) u"
    using recovers_way [OF assms(1) rule s assms(6) on_objects_hanoi_any]
    unfolding hanoi_any_def [abs_def] .
  moreover have "(x, y, z) = (if a = [] \<and> b = [] \<and> c = [] then ([], all_disks, []) else (a, b, c))
       \<and> global_pool s1 = NULL \<and> durable V (hanoi_is [x, y, z]) s1" if "r = Ret (x, y, z)" for x y z
    using triple_run(2) [OF rule s assms(6)] that by (simp add: hanoi_result_def seeded_def)
  ultimately show ?thesis using triple_run(3) [OF rule s assms(6)] by blast
qed

text \<open>A pool that was left after the first of the seven moves.\<close>

definition moved_objs :: "(nat \<times> nat) list" where
  "moved_objs = peg_objs @ [(208, 24), (232, 24)]"

definition moved_image :: image where
  "moved_image = [64 \<mapsto> VOid (OID 112), 80 \<mapsto> VOid (OID 136), 96 \<mapsto> VOid (OID 160),
     112 \<mapsto> VOid (OID 184), 128 \<mapsto> VInt 2, 136 \<mapsto> VOid (OID 232), 152 \<mapsto> VInt 1,
     160 \<mapsto> VOid OID_NULL, 176 \<mapsto> VInt 0, 184 \<mapsto> VInt 2, 192 \<mapsto> VOid (OID 208),
     208 \<mapsto> VInt 3, 216 \<mapsto> VOid OID_NULL, 232 \<mapsto> VInt 1, 240 \<mapsto> VOid OID_NULL]"

definition moved_machine :: "ulog mach" where
  "moved_machine = \<lparr>img = moved_image, vol = (\<lambda>_. None), global_pool = NULL,
     env_pool_path = None, empty_literal = NULL,
     px = \<lparr>l_file = True, l_stage = TX_STAGE_NONE, l_depth = 0, l_old = moved_objs,
       l_now = moved_objs, l_undo = (\<lambda>_. None), l_root = Some (64, 48)\<rparr>\<rparr>"

lemma moved_machine_durable: "durable lview (hanoi_is [[2, 3], [1], []]) moved_machine"
proof -
  have "objects_ok (map_of moved_objs)"
    by (rule objects_ok_list) (simp_all add: moved_objs_def peg_objs_def PMEM_POOL_SIZE_def)
  moreover have "three_slots 64 (map_of moved_objs) moved_image [[112, 184, 208], [136, 232], [160]]
      [[2, 3], [1], []]"
    by (simp add: three_slots_def less_three slot_of_def stack_at_def cell_def moved_objs_def
        peg_objs_def moved_image_def sizeof_Stack_def sizeof_Node_def numeral_2_eq_2)
  ultimately show ?thesis
    by (auto simp: durable_def moved_machine_def hanoi_is_def)
qed

lemma interrupted_puzzle: "fst (hanoi_program ulog_pmdk moved_machine) = Ret ([2, 3], [1], [])"
  by code_simp

theorem hanoi_program_solves_or_keeps_witness:
  "fst (hanoi_program ulog_pmdk moved_machine) = Ret ([2, 3], [1], [])
   \<and> durable lview (hanoi_is [[2, 3], [1], []]) (fst (snd (hanoi_program ulog_pmdk moved_machine)))"
proof -
  obtain r s1 t where run: "hanoi_program ulog_pmdk moved_machine = (r, s1, t)" by (rule prod_cases3)
  have closed: "global_pool moved_machine = NULL" by (simp add: moved_machine_def)
  have legal: "legal all_disks [2, 3] [1] []"
    by (simp add: legal_def all_disks_def smaller_def)
  have r: "r = Ret ([2, 3], [1], [])" using interrupted_puzzle run by simp
  have "durable lview (hanoi_is [[2, 3], [1], []]) s1"
    using hanoi_program_solves_or_keeps [OF ulog_ok ulog_root_found closed moved_machine_durable
        disjI2 [OF legal] run] r by blast
  then show ?thesis using run r by simp
qed

end
