(* ===== verification/Pm_Contracts.thy ===== *)
theory Pm_Contracts
  imports Pm_Properties
begin

text \<open>
  The contracts of the single operations of the library: assignment and comparison of strings,
  find-or-create, compound assignment, and the cases in which an operation fails: a size that
  wraps around, a root object that cannot be made.
\<close>

section \<open>Strings\<close>

text \<open>C5: Assigning a C string to a persistent string in a transaction of its own does not fault,
  wherever the source lies, also inside the payload that the assignment releases. It returns
  with the new characters in a fresh payload, the old payload freed and nothing else allocated,
  or throws and leaves the string as it was, and a crash recovers to the old or the new string.\<close>
theorem string_assign_atomic:
  assumes "pmdk_ok P V" "rest V b rt M i w s" "string_place M x pl" "string_at M i x pl old"
    "readable P b M i w a cs" "transaction_run P (string_assign P (b + x) a) s = (r, s1, t)"
  shows "r \<noteq> Fault
    \<and> (\<forall>u. r = Ret u \<longrightarrow> (\<exists>q k. M q = None
          \<and> string_at (freed (M(q \<mapsto> length cs + 1)) pl) k x (Some q) cs
          \<and> rest V b rt (freed (M(q \<mapsto> length cs + 1)) pl) k w s1))
    \<and> (\<forall>e. r = Throw e \<longrightarrow> (\<exists>k v. string_at M k x pl old \<and> rest V b rt M k v s1))
    \<and> (\<forall>u\<in>set t. recovers P V (\<lambda>rt M i. holds_string x old rt M i \<or> holds_string x cs rt M i) u)"
proof -
  note rule = outer_assign [OF assms(1,3-5)]
  note returned = triple_returns [OF rule assms(2)] and thrown = triple_throws [OF rule assms(2)]
  have "\<forall>u\<in>set t. recovers P V (\<lambda>rt M i. holds_string x old rt M i \<or> holds_string x cs rt M i) u"
    using recovers_way [OF assms(1) rule assms(2,6) on_objects_old_or_new]
    unfolding old_or_new_def [abs_def] .
  then show ?thesis using triple_run(3) [OF rule assms(2,6)] returned thrown assms(6) by blast
qed

text \<open>The pool of the witnesses: a string with the characters abc and an empty one.\<close>

definition text_objs :: "(nat \<times> nat) list" where
  "text_objs = [(64, 24), (88, 4), (96, 24)]"

definition text_image :: image where
  "text_image = [64 \<mapsto> VOid (OID 88), 80 \<mapsto> VSize 3, 88 \<mapsto> VChar (CHR ''a''),
     89 \<mapsto> VChar (CHR ''b''), 90 \<mapsto> VChar (CHR ''c''), 91 \<mapsto> VChar (CHR 0x00),
     96 \<mapsto> VOid OID_NULL, 112 \<mapsto> VSize 0]"

definition text_machine :: "ulog mach" where
  "text_machine = \<lparr>img = text_image, vol = [8 \<mapsto> VChar (CHR 0x00)], global_pool = base_address,
     env_pool_path = None, empty_literal = 8,
     px = \<lparr>l_file = True, l_stage = TX_STAGE_NONE, l_depth = 0, l_old = text_objs,
       l_now = text_objs, l_undo = (\<lambda>_. None), l_root = None\<rparr>\<rparr>"

lemma text_machine_rest:
  "rest lview base_address None (map_of text_objs) text_image [8 \<mapsto> VChar (CHR 0x00)] text_machine"
proof -
  have "objects_ok (map_of text_objs)"
    by (rule objects_ok_list) (simp_all add: text_objs_def PMEM_POOL_SIZE_def)
  then show ?thesis by (simp add: rest_def text_machine_def base_address_def idle_def)
qed

lemma up_to: "(\<forall>k\<le>Suc n. Q k) \<longleftrightarrow> Q (Suc n) \<and> (\<forall>k\<le>n. Q k)"
  by (auto simp: le_Suc_eq)

lemma text_machine_string:
  "string_place (map_of text_objs) 64 (Some 88)" "string_at (map_of text_objs) text_image 64 (Some 88) ''abc''"
  unfolding string_place_def
  by (intro exI [of _ 64] exI [of _ 24]) (simp_all add: text_objs_def string_at_def text_image_def
      cell_def char_seq_def up_to numeral_3_eq_3)

lemma text_machine_suffix:
  "readable ulog_pmdk base_address (map_of text_objs) text_image w (base_address + 89) ''bc''"
proof -
  have "{89, 90, 91} \<subseteq> bytes (map_of text_objs)"
    by (auto intro!: bytesI [of _ 88 4] simp: text_objs_def span_def)
  then show ?thesis
    by (simp add: readable_def up_to numeral_2_eq_2 cell_def char_seq_def text_image_def
        ulog_pmdk_def l_oid_def base_address_def PMEM_POOL_SIZE_def)
qed

lemma demo_assign:
  "fst (transaction_run ulog_pmdk (string_assign ulog_pmdk (base_address + 64) (base_address + 89))
     text_machine) = Ret ()"
  by code_simp

theorem string_assign_atomic_witness:
  "\<exists>q k. map_of text_objs q = None
     \<and> string_at (freed ((map_of text_objs)(q \<mapsto> length ''bc'' + 1)) (Some 88)) k 64 (Some q) ''bc''"
proof -
  obtain r s1 t where run: "transaction_run ulog_pmdk
      (string_assign ulog_pmdk (base_address + 64) (base_address + 89)) text_machine = (r, s1, t)"
    by (rule prod_cases3)
  then have "r = Ret ()" using demo_assign by simp
  then show ?thesis
    using string_assign_atomic [OF ulog_ok text_machine_rest text_machine_string text_machine_suffix run]
    by blast
qed

text \<open>C9: Comparing two persistent strings returns whether they hold the same characters and changes
  nothing. It ends, also where one of them is empty and has no payload.\<close>
theorem string_eq_compares:
  assumes "pmdk_ok P V" "rest V b rt M i w s" "string_place M x pl" "string_at M i x pl cs"
    "string_place M y ql" "string_at M i y ql ds" "readable P b M i w (empty_literal s) []"
  shows "string_eq P (b + x) (b + y) s = (Ret (cs = ds), s, [])"
proof -
  obtain a where a: "c_str P (b + x) s = (Ret a, s, [])" "readable P b M i w a cs"
    using c_str_reads [OF assms(1,2,3,4,7)] by blast
  obtain e where e: "c_str P (b + y) s = (Ret e, s, [])" "readable P b M i w e ds"
    using c_str_reads [OF assms(1,2,5,6,7)] by blast
  have s: "global_pool s = b" "img s = i" "vol s = w" using assms(2) by (simp_all add: rest_def)
  have "strcmp_at P s a e = Some (cs = ds)"
  proof (rule strcmp_sequences)
    show "CHR 0x00 \<notin> set cs" "CHR 0x00 \<notin> set ds" using a(2) e(2) by (simp_all add: readable_def)
  qed (rule readable_peek [OF a(2) s] readable_peek [OF e(2) s], assumption)+
  then show ?thesis
    using a(1) e(1) by (simp add: string_eq_def string_eq_chars_def andthen_def pm_strcmp_def)
qed

lemma text_machine_empty:
  "string_place (map_of text_objs) 96 None" "string_at (map_of text_objs) text_image 96 None []"
  unfolding string_place_def
  by (intro exI [of _ 96] exI [of _ 24]) (simp_all add: text_objs_def string_at_def text_image_def cell_def)

lemma text_machine_literal:
  "readable ulog_pmdk base_address M i [8 \<mapsto> VChar (CHR 0x00)] (empty_literal text_machine) []"
  by (simp add: readable_def text_machine_def ulog_pmdk_def l_oid_def base_address_def cell_def
      char_seq_def)

theorem string_eq_compares_witness:
  "fst (string_eq ulog_pmdk (base_address + 64) (base_address + 96) text_machine) = Ret False
   \<and> fst (string_eq ulog_pmdk (base_address + 96) (base_address + 96) text_machine) = Ret True"
  using string_eq_compares [OF ulog_ok text_machine_rest text_machine_string text_machine_empty
      text_machine_literal]
    string_eq_compares [OF ulog_ok text_machine_rest text_machine_empty text_machine_empty
      text_machine_literal]
  by simp

section \<open>Compound assignment\<close>

definition word_or :: "nat \<Rightarrow> 32 word \<Rightarrow> (nat \<rightharpoonup> nat) \<Rightarrow> image \<Rightarrow> nat option \<Rightarrow> (nat \<rightharpoonup> nat) \<Rightarrow> image \<Rightarrow> bool" where
  "word_or x y M i rt N k \<longleftrightarrow> N = M \<and> (kept (bytes M) i k \<or> kept (bytes M) (i(x \<mapsto> VInt y)) k)"

lemma on_objects_word_or: "on_objects (word_or x y M i)"
  unfolding on_objects_def word_or_def by (blast intro: kept_trans)

lemma outer_compound:
  assumes ok: "pmdk_ok P V" and x: "span x sizeof_int \<subseteq> bytes M" "cell i x get_int c"
    and y: "apply_op f c v = Some y"
  shows "triple (durable V (word_or x y M i)) (rest V b rt M i w)
    (transaction_run P (compound_assign P f (b + x) v))
    (\<lambda>_ s. \<exists>k. kept (bytes M) (i(x \<mapsto> VInt y)) k \<and> rest V b rt M k w s)
    (\<lambda>s. \<exists>k v. kept (bytes M) i k \<and> rest V b rt M k v s)"
proof -
  let ?C = "ctx_of b rt M i" and ?f = "word_or x y M i"
  let ?R = "\<lambda>(_ :: unit) (K :: nat set) N k u. N = M \<and> k = i(x \<mapsto> VInt y) \<and> u = w"
  have in_M: "x \<in> bytes M" using x(1) by (auto simp: span_def sizeof_int_def)
  have load: "triple (intact V ?C) (wrk V ?C 1 {} M i w) (persistent_load P (b + x))
      (\<lambda>r s. r = c \<and> wrk V ?C 1 {} M i w s) (stopping V ?C 1)"
    using triple_load [where C = ?C, OF ok in_M x(2)] by simp
  have store: "triple (intact V ?C) (wrk V ?C 1 {} M i w) (persistent_store P (b + x) y)
      (\<lambda>_. wrk V ?C 1 {} M (i(x \<mapsto> VInt y)) w) (stopping V ?C 1)"
    using triple_store [where C = ?C and E = "stopping V ?C 1", OF ok x(1)] by simp
  have body: "triple (intact V ?C) (wrk V ?C 1 {} M i w) (compound_assign P f (b + x) v)
      (\<lambda>a s. \<exists>K N j u. ?R a K N j u \<and> wrk V ?C 1 K N j u s) (stopping V ?C 1)"
    unfolding compound_assign_def
    by (rule triple_eq [OF load], simp only: y store_result_def option.case, rule triple_post [OF store]) blast
  have now: "?f rt M i" by (simp add: word_or_def)
  show ?thesis
    by (rule triple_conseq [OF triple_transaction [where f = ?f and R = ?R, OF ok on_objects_word_or now body]])
      (auto simp: word_or_def)
qed

lemma int_result_exact: "int_result z = Some y \<Longrightarrow> sint y = z"
  by (auto simp: int_result_def sint_sbintrunc' signed_take_bit_int_eq_self split: if_splits)

text \<open>The exact results of the operators.\<close>

definition exact_result :: "compound_op \<Rightarrow> 32 word \<Rightarrow> 32 word \<Rightarrow> 32 word \<Rightarrow> bool" where
  "exact_result f x v y \<longleftrightarrow> (f = Add \<longrightarrow> sint y = sint x + sint v) \<and> (f = Sub \<longrightarrow> sint y = sint x - sint v)
     \<and> (f = Mul \<longrightarrow> sint y = sint x * sint v)
     \<and> (f = Div \<longrightarrow> v \<noteq> 0 \<and> sint y = sint x sdiv sint v)"

lemma apply_op_exact: "apply_op f x v = Some y \<Longrightarrow> exact_result f x v y"
  by (cases f) (auto simp: exact_result_def int_result_exact split: if_splits)

text \<open>C8: A compound assignment in a transaction of its own replaces the stored integer by the result
  of the operator and keeps every other cell, or throws and keeps all cells, and a crash
  recovers to the old or the new number. The result is the exact one of the operator on \<open>int\<close>.
  Where the language leaves it undefined (a result that \<open>int\<close> does not hold, division by zero,
  a shift of a negative number to the left or by too many bits) the operation faults before
  anything is logged or stored.\<close>
theorem compound_assign_atomic:
  assumes "pmdk_ok P V" "rest V b rt M i w s" "span x sizeof_int \<subseteq> bytes M" "cell i x get_int c"
    "transaction_run P (compound_assign P f (b + x) v) s = (r, s1, t)"
  shows "case apply_op f c v of
      None \<Rightarrow> compound_assign P f (b + x) v s = (Fault, s, [])
    | Some y \<Rightarrow> r \<noteq> Fault \<and> exact_result f c v y
       \<and> (\<forall>u. r = Ret u \<longrightarrow> (\<exists>k. kept (bytes M) (i(x \<mapsto> VInt y)) k \<and> rest V b rt M k w s1))
       \<and> (\<forall>e. r = Throw e \<longrightarrow> (\<exists>k u. kept (bytes M) i k \<and> rest V b rt M k u s1))
       \<and> (\<forall>u\<in>set t. recovers P V (\<lambda>_ N k. N = M
             \<and> (kept (bytes M) i k \<or> kept (bytes M) (i(x \<mapsto> VInt y)) k)) u)"
proof (cases "apply_op f c v")
  case None
  have "x \<in> bytes M" using assms(3) by (auto simp: span_def sizeof_int_def)
  then have "persistent_load P (b + x) s = (Ret c, s, [])"
    using rest_peek [OF assms(1,2)] assms(4) by (simp add: persistent_load_def pm_read_def cell_def)
  then show ?thesis using None by (simp add: compound_assign_def store_result_def andthen_def faulty_def)
next
  case (Some y)
  note rule = outer_compound [OF assms(1,3,4) Some]
  note returned = triple_returns [OF rule assms(2)] and thrown = triple_throws [OF rule assms(2)]
  have "\<forall>u\<in>set t. recovers P V (\<lambda>_ N k. N = M
      \<and> (kept (bytes M) i k \<or> kept (bytes M) (i(x \<mapsto> VInt y)) k)) u"
    using recovers_way [OF assms(1) rule assms(2,5) on_objects_word_or]
    unfolding word_or_def [abs_def] .
  then show ?thesis
    unfolding Some option.case
    using triple_run(3) [OF rule assms(2,5)] apply_op_exact [OF Some] returned thrown assms(5) by blast
qed

lemma demo_compound:
  "fst (transaction_run ulog_pmdk (compound_assign ulog_pmdk Div (base_address + 88) (- 2)) stack_machine) = Ret ()"
  by code_simp

theorem compound_assign_atomic_witness:
  "\<exists>k s. kept (bytes (map_of stack_objs)) (stack_image(88 \<mapsto> VInt (- 3))) k
     \<and> rest lview base_address None (map_of stack_objs) k (\<lambda>_. None) s"
proof -
  obtain r s1 t where run: "transaction_run ulog_pmdk
      (compound_assign ulog_pmdk Div (base_address + 88) (- 2)) stack_machine = (r, s1, t)"
    by (rule prod_cases3)
  have place: "span 88 sizeof_int \<subseteq> bytes (map_of stack_objs)"
    using span_subset_bytes [of "map_of stack_objs" 88 24 0 4] by (simp add: stack_objs_def sizeof_int_def)
  have old: "cell stack_image 88 get_int 7" by (simp add: cell_def stack_image_def)
  have result: "apply_op Div 7 (- 2) = Some (- 3)" by code_simp
  show ?thesis
    using compound_assign_atomic [OF ulog_ok stack_machine_rest place old run, unfolded result option.case]
      demo_compound run by auto
qed

section \<open>Find or create\<close>

lemma get_or_create_found:
  assumes ok: "pmdk_ok P V" and s: "rest V b rt M i w s" and y: "y \<in> bytes M" "cell i y get_oid (OID x)"
  shows "pmem_get_or_create P n al ctor (b + y) s = (Ret (b + x), s, [])"
proof -
  have b: "global_pool s = b" "pmemobj_direct P b (OID x) = b + x"
    using s ok by (auto simp: rest_def pmdk_ok_def pmdk_addressing_def)
  have "oid_of P (b + y) s = (Ret (OID x), s, [])"
    using rest_peek [OF ok s y(1)] y(2) by (simp add: oid_of_def pm_read_def cell_def)
  then show ?thesis
    using b by (simp add: pmem_get_or_create_def pmem_ptr_bool_def pmem_ptr_get_def andthen_def
        ret_def direct_def ask_def)
qed

text \<open>What may be in the pool while a call finds or creates the stack: the objects and cells of
  before, or one stack more, which is empty, with its identifier in the slot at \<open>y\<close>.\<close>

definition one_more_stack :: "nat \<Rightarrow> (nat \<rightharpoonup> nat) \<Rightarrow> image \<Rightarrow> nat \<Rightarrow> (nat \<rightharpoonup> nat) \<Rightarrow> image \<Rightarrow> bool" where
  "one_more_stack y M i x N k \<longleftrightarrow> cell i y get_oid OID_NULL \<and> M x = None \<and> N = M(x \<mapsto> sizeof_Stack)
     \<and> cell k y get_oid (OID x) \<and> stack_at N k x [] [] \<and> kept (bytes M - span y sizeof_PMEMoid) i k"

definition made_or_not :: "nat \<Rightarrow> (nat \<rightharpoonup> nat) \<Rightarrow> image \<Rightarrow> nat option \<Rightarrow> (nat \<rightharpoonup> nat) \<Rightarrow> image \<Rightarrow> bool" where
  "made_or_not y M i rt N k \<longleftrightarrow> rt = Some y
     \<and> (N = M \<and> kept (bytes M) i k \<or> (\<exists>x. one_more_stack y M i x N k))"

lemma one_more_kept:
  assumes "one_more_stack y M i x N k" "kept (bytes N) k j" "span y sizeof_PMEMoid \<subseteq> bytes M"
  shows "one_more_stack y M i x N j"
proof -
  have x: "M x = None" "N = M(x \<mapsto> sizeof_Stack)" "stack_at N k x [] []" "cell k y get_oid (OID x)"
      "kept (bytes M - span y sizeof_PMEMoid) i k" "cell i y get_oid OID_NULL"
    using assms(1) unfolding one_more_stack_def by blast+
  have bytes: "bytes N = bytes M \<union> span x sizeof_Stack" unfolding x(2) by (rule bytes_upd) (rule x(1))
  have "y \<in> span y sizeof_PMEMoid" by (simp add: span_def sizeof_PMEMoid_def)
  then have "y \<in> bytes N" using assms(3) bytes by blast
  then have "cell j y get_oid (OID x)" using cell_kept [OF assms(2), of y get_oid "OID x"] x(4) by simp
  moreover have "kept (bytes M - span y sizeof_PMEMoid) k j"
    using kept_mono [OF assms(2), of "bytes M - span y sizeof_PMEMoid"] bytes by blast
  ultimately show ?thesis
    using x stack_kept [OF x(3) assms(2)] kept_trans [OF x(5)] by (simp add: one_more_stack_def)
qed

lemma on_objects_made:
  assumes "span y sizeof_PMEMoid \<subseteq> bytes M"
  shows "on_objects (made_or_not y M i)"
  unfolding on_objects_def made_or_not_def using one_more_kept [OF _ _ assms] kept_trans by blast

lemma one_more_new:
  assumes y: "span y sizeof_PMEMoid \<subseteq> bytes M" "cell i y get_oid OID_NULL"
    and x: "new_at C M x 24" "kept (bytes M) i j"
  shows "one_more_stack y M i x (M(x \<mapsto> 24)) (j(x \<mapsto> VOid OID_NULL, x + 16 \<mapsto> VInt 0, y \<mapsto> VOid (OID x)))"
proof -
  let ?k = "j(x \<mapsto> VOid OID_NULL, x + 16 \<mapsto> VInt 0, y \<mapsto> VOid (OID x))"
  have out: "x \<notin> bytes M" "x + 16 \<notin> bytes M"
    using new_at_out(1) [OF x(1), of 0] new_at_out(1) [OF x(1), of 16] by simp_all
  have "y \<in> span y sizeof_PMEMoid" by (simp add: span_def sizeof_PMEMoid_def)
  then have "y \<in> bytes M" using y(1) by blast
  then have ne: "x \<noteq> y" "x + 16 \<noteq> y" using out by auto
  have "stack_at (M(x \<mapsto> 24)) ?k x [] []" using ne by (auto simp: stack_at_def sizeof_Stack_def)
  moreover have "kept (bytes M - span y sizeof_PMEMoid) i ?k"
    using x(2) out by (auto simp: kept_def span_def sizeof_PMEMoid_def)
  ultimately show ?thesis using y(2) x(1) by (simp add: one_more_stack_def sizeof_Stack_def new_at_def)
qed

lemma stack_made:
  assumes ok: "pmdk_ok P V" and y: "span y sizeof_PMEMoid \<subseteq> bytes M" "cell i y get_oid OID_NULL"
  shows "triple (durable V (made_or_not y M i)) (rest V b (Some y) M i w)
    (pmem_get_or_create P sizeof_Stack 8 (stack_init P) (b + y))
    (\<lambda>r s. \<exists>x k. (r = b + x \<and> one_more_stack y M i x (M(x \<mapsto> 24)) k) \<and> rest V b (Some y) (M(x \<mapsto> 24)) k w s)
    (\<lambda>s. \<exists>k v. kept (bytes M) i k \<and> rest V b (Some y) M k v s)"
proof -
  have now: "made_or_not y M i (Some y) M i" by (simp add: made_or_not_def)
  have new: "made_or_not y M i (Some y) (M(x \<mapsto> 24)) (j(x \<mapsto> VOid OID_NULL, x + 16 \<mapsto> VInt 0, y \<mapsto> VOid (OID x)))"
    if "new_at (ctx_of b (Some y) M i) M x 24" "kept (bytes M) i j" for x j
    using one_more_new [OF y that] unfolding made_or_not_def by blast
  show ?thesis
    by (rule triple_post [OF stack_create [where f = "made_or_not y M i" and a = y,
            OF ok on_objects_made [OF y(1)] now y new]])
      (assumption, assumption, use one_more_kept [OF one_more_new [OF y] _ y(1)] in blast)
qed

text \<open>C7: On a persistent stack \<open>pmem_get_or_create\<close> returns the stack that the slot of the root leads
  to, with the pool unchanged, or, if the slot was null, an empty stack in exactly one new
  object of its size whose identifier it has stored in the slot, with every other object and
  cell as before. Every later call finds the same stack and does nothing. When it throws, the
  objects and cells are those of before, and a crash in any state on the way recovers to
  these or to exactly the one new stack in its slot, so that none is lost, leaked or made twice.\<close>
theorem get_or_create_finds_again:
  assumes "pmdk_ok P V" "rest V b (Some y) M i w s" "stack_is vs (Some y) M i"
    "pmem_get_or_create P sizeof_Stack 8 (stack_init P) (b + y) s = (r, s1, t)"
  shows "r \<noteq> Fault
    \<and> (\<forall>p. r = Ret p \<longrightarrow> (\<exists>x ns N k. p = b + x \<and> cell k y get_oid (OID x) \<and> stack_at N k x ns vs
          \<and> rest V b (Some y) N k w s1
          \<and> (if cell i y get_oid OID_NULL then one_more_stack y M i x N k else N = M \<and> k = i))
        \<and> pmem_get_or_create P sizeof_Stack 8 (stack_init P) (b + y) s1 = (Ret p, s1, []))
    \<and> (\<forall>e. r = Throw e \<longrightarrow> (\<exists>k u. kept (bytes M) i k \<and> rest V b (Some y) M k u s1))
    \<and> (\<forall>u\<in>set t. recovers P V (made_or_not y M i) u)"
proof -
  from assms(3) have y: "M y = Some sizeof_PMEMoid" by (simp add: stack_is_def)
  have inside: "span y sizeof_PMEMoid \<subseteq> bytes M" "y \<in> bytes M"
    using span_subset_bytes [of M y sizeof_PMEMoid 0 sizeof_PMEMoid] start_in_bytes [of M y, OF y] y
    by (simp_all add: sizeof_PMEMoid_def)
  from assms(3) consider (slot) x ns where "cell i y get_oid (OID x)" "stack_at M i x ns vs"
    | (null) "cell i y get_oid OID_NULL" "vs = []"
    unfolding stack_is_def stack_slot_def by auto
  then show ?thesis
  proof cases
    case (slot x ns)
    note found = get_or_create_found [OF assms(1,2) inside(2) slot(1)]
    have "\<not> cell i y get_oid OID_NULL" using slot(1) by (auto simp: cell_def)
    then show ?thesis using found [of sizeof_Stack 8 "stack_init P"] assms(2,4) slot by auto
  next
    case null
    note rule = stack_made [OF assms(1) inside(1) null(1)]
    have "(\<exists>x ns N k. p = b + x \<and> cell k y get_oid (OID x) \<and> stack_at N k x ns vs
          \<and> rest V b (Some y) N k w s1 \<and> one_more_stack y M i x N k)
        \<and> pmem_get_or_create P sizeof_Stack 8 (stack_init P) (b + y) s1 = (Ret p, s1, [])"
      if "r = Ret p" for p
    proof -
      obtain x k where x: "p = b + x" "one_more_stack y M i x (M(x \<mapsto> 24)) k" "rest V b (Some y) (M(x \<mapsto> 24)) k w s1"
        using triple_returns [OF rule assms(2)] assms(4) \<open>r = Ret p\<close> by blast
      then have at: "cell k y get_oid (OID x)" "stack_at (M(x \<mapsto> 24)) k x [] vs"
        unfolding one_more_stack_def null(2) by blast+
      have "y \<in> bytes (M(x \<mapsto> 24))" using x(2) inside(2) bytes_upd [of M x 24] by (simp add: one_more_stack_def)
      then show ?thesis using get_or_create_found [OF assms(1) x(3) _ at(1)] at x by blast
    qed
    moreover have "\<exists>k u. kept (bytes M) i k \<and> rest V b (Some y) M k u s1" if "r = Throw e" for e
      using triple_throws [OF rule assms(2)] assms(4) that by blast
    moreover have "\<forall>u\<in>set t. recovers P V (made_or_not y M i) u"
      by (rule recovers_way [OF assms(1) rule assms(2,4) on_objects_made [OF inside(1)]])
    ultimately show ?thesis using triple_run(3) [OF rule assms(2,4)] null(1) by simp
  qed
qed

definition slot_machine :: "ulog mach" where
  "slot_machine = \<lparr>img = [64 \<mapsto> VZero], vol = (\<lambda>_. None), global_pool = base_address,
     env_pool_path = None, empty_literal = NULL,
     px = \<lparr>l_file = True, l_stage = TX_STAGE_NONE, l_depth = 0, l_old = [(64, 16)],
       l_now = [(64, 16)], l_undo = (\<lambda>_. None), l_root = Some (64, 16)\<rparr>\<rparr>"

lemma slot_machine_rest:
  "rest lview base_address (Some 64) (map_of [(64, 16)]) [64 \<mapsto> VZero] (\<lambda>_. None) slot_machine"
proof -
  have "objects_ok (map_of [(64 :: nat, 16 :: nat)])"
    by (rule objects_ok_list) (simp_all add: PMEM_POOL_SIZE_def)
  then show ?thesis by (simp add: rest_def slot_machine_def base_address_def idle_def)
qed

lemma demo_create:
  "fst (pmem_get_or_create ulog_pmdk sizeof_Stack 8 (stack_init ulog_pmdk) (base_address + 64) slot_machine)
   = Ret (base_address + 80)"
  by code_simp

theorem get_or_create_finds_again_witness:
  "case pmem_get_or_create ulog_pmdk sizeof_Stack 8 (stack_init ulog_pmdk) (base_address + 64) slot_machine of
     (r, s1, t) \<Rightarrow> r = Ret (base_address + 80)
       \<and> pmem_get_or_create ulog_pmdk sizeof_Stack 8 (stack_init ulog_pmdk) (base_address + 64) s1
          = (Ret (base_address + 80), s1, [])"
proof -
  obtain r s1 t where run: "pmem_get_or_create ulog_pmdk sizeof_Stack 8 (stack_init ulog_pmdk)
      (base_address + 64) slot_machine = (r, s1, t)"
    by (rule prod_cases3)
  have old: "stack_is [] (Some 64) (map_of [(64, 16)]) [64 \<mapsto> VZero]"
    by (simp add: stack_is_def sizeof_PMEMoid_def cell_def)
  have r: "r = Ret (base_address + 80)" using demo_create run by simp
  then have "pmem_get_or_create ulog_pmdk sizeof_Stack 8 (stack_init ulog_pmdk) (base_address + 64) s1
      = (Ret (base_address + 80), s1, [])"
    using get_or_create_finds_again [OF ulog_ok slot_machine_rest old run] by blast
  then show ?thesis using run r by simp
qed

section \<open>Sizes that wrap around\<close>

text \<open>\<open>PersistentAllocator::allocate\<close> asks for the number of bytes modulo 2 to the 64. For a count
  whose bytes do not fit it asks for fewer, even for none, and hands out the memory as if it
  were large enough.\<close>
lemma allocate_size_wraps:
  "PersistentAllocator_allocate P szT alT n = pmem_alloc P ((unat n * szT) mod 2 ^ 64) alT
   \<and> (2 ^ 64 \<le> unat n * szT \<longrightarrow> (unat n * szT) mod 2 ^ 64 < unat n * szT)"
proof -
  have "unat (n * of_nat szT) = (unat n * szT) mod 2 ^ 64"
    by (simp add: unat_word_ariths unat_of_nat mod_mult_right_eq)
  moreover have "(unat n * szT) mod 2 ^ 64 < 2 ^ 64" by simp
  ultimately show ?thesis
    unfolding PersistentAllocator_allocate_def by auto
qed

lemma allocate_size_wraps_witness:
  "(2 :: nat) ^ 64 \<le> unat (2305843009213693952 :: u64) * 8
   \<and> PersistentAllocator_allocate ulog_pmdk 8 8 2305843009213693952 = pmem_alloc ulog_pmdk 0 8"
  using allocate_size_wraps [of ulog_pmdk 8 8 2305843009213693952] by simp

section \<open>Failures that are not looked at\<close>

lemma null_unreadable:
  assumes "pmdk_ok P V" "global_pool s \<noteq> NULL"
  shows "peek P s NULL = None"
proof -
  have "pmemobj_oid P (global_pool s) NULL = OID_NULL"
    using assms by (simp add: pmdk_ok_def pmdk_addressing_def)
  then show ?thesis by (simp add: peek_def)
qed

lemma create_at_null:
  assumes "pmdk_ok P V" "global_pool s \<noteq> NULL"
  shows "fst (pmem_get_or_create P n al ctor NULL s) = Fault"
  using null_unreadable [OF assms]
  by (simp add: pmem_get_or_create_def pmem_ptr_bool_def oid_of_def pm_read_def andthen_def)

lemma create_at_null_then:
  assumes "pmdk_ok P V" "global_pool s \<noteq> NULL"
  shows "fst (andthen (pmem_get_or_create P n al ctor NULL) f s) = Fault"
  using create_at_null [OF assms, of n al ctor]
  by (cases "pmem_get_or_create P n al ctor NULL s") (simp add: andthen_def)

text \<open>C10: If \<open>pmemobj_root\<close> fails, \<open>pmem_root\<close> does not throw as \<open>pmem_alloc\<close> does. It returns the null
  pointer, and each of the three programs then reads through it and faults.\<close>
theorem root_failure_unnoticed:
  assumes "pmdk_ok P V" "global_pool s \<noteq> NULL" "pmemobj_root P n (img s) (px s) = (OID_NULL, j, q)"
  shows "\<exists>s1. pmem_root P n s = (Ret NULL, s1, [s1]) \<and> fst (counter_main P NULL s1) = Fault
    \<and> fst (stack_main P NULL s1) = Fault \<and> fst (hanoi_main P NULL s1) = Fault"
proof -
  let ?s = "s\<lparr>img := j, px := q\<rparr>"
  have root: "pmem_root P n s = (Ret NULL, ?s, [?s])"
    using assms direct_null [OF assms(1,2)]
    by (simp add: pmem_root_def pmem_pool_def andthen_def pmdk_call_def Let_def ret_def direct_def ask_def)
  note null = create_at_null_then [of P V ?s, OF assms(1)]
  have "fst (counter_main P NULL ?s) = Fault" "fst (stack_main P NULL ?s) = Fault"
      "fst (hanoi_main P NULL ?s) = Fault"
    unfolding counter_main_def stack_main_def hanoi_main_def by (rule null; use assms(2) in simp)+
  then show ?thesis using root by blast
qed

definition full_pool :: "ulog mach" where
  "full_pool = \<lparr>img = (\<lambda>_. None), vol = (\<lambda>_. None), global_pool = base_address,
     env_pool_path = None, empty_literal = NULL,
     px = \<lparr>l_file = True, l_stage = TX_STAGE_NONE, l_depth = 0, l_old = [(64, PMEM_POOL_SIZE - 64)],
       l_now = [(64, PMEM_POOL_SIZE - 64)], l_undo = (\<lambda>_. None), l_root = None\<rparr>\<rparr>"

theorem root_failure_unnoticed_witness:
  "\<exists>s1. pmem_root ulog_pmdk 16 full_pool = (Ret NULL, s1, [s1]) \<and> fst (counter_main ulog_pmdk NULL s1) = Fault"
proof -
  have full: "pmemobj_root ulog_pmdk 16 (img full_pool) (px full_pool) = (OID_NULL, img full_pool, px full_pool)"
    by (simp add: full_pool_def ulog_pmdk_def l_get_root_def first_free_def PMEM_POOL_SIZE_def Let_def)
  have "global_pool full_pool \<noteq> NULL" by (simp add: full_pool_def base_address_def)
  then show ?thesis using root_failure_unnoticed [OF ulog_ok _ full] by blast
qed

text \<open>The exception with which \<open>pmem_free\<close> reports that memory cannot be freed in a transaction never
  reaches a handler when it passes \<open>operator delete\<close>: the process is ended.\<close>
lemma delete_failure_ends_process:
  assumes "global_pool s \<noteq> NULL" "pmemobj_tx_stage P (px s) = TX_STAGE_WORK"
    "pmemobj_tx_free P (pmemobj_oid P (global_pool s) p) (img s) (px s) = (rc, j, q)" "rc \<noteq> 0"
  shows "\<exists>s1. pmem_free P p s = (Throw ''Failed to free memory from PMEM pool within transaction'', s1, [s1])
    \<and> operator_delete P p s = (Terminate, s1, [s1])"
  using assms
  by (simp add: operator_delete_def no_throw_def on_throw_def pmem_free_def pmem_pool_def andthen_def
      in_work_def ask_def pmdk_call_def Let_def ret_def raise_def terminated_def)

text \<open>The undo log whose free fails, as libpmemobj does when it has no memory for its log.\<close>

definition stuck_pmdk :: "ulog pmdk" where
  "stuck_pmdk = ulog_pmdk\<lparr>pmemobj_tx_free := \<lambda>x i p. (- 1, undo_all (l_undo p) i, l_abort p)\<rparr>"

definition open_transaction :: "ulog mach" where
  "open_transaction = stack_machine\<lparr>px := (px stack_machine)\<lparr>l_stage := TX_STAGE_WORK, l_depth := 1\<rparr>\<rparr>"

lemma delete_failure_ends_process_witness:
  "fst (operator_delete stuck_pmdk (base_address + 88) open_transaction) = Terminate"
proof -
  have "global_pool open_transaction \<noteq> NULL" "pmemobj_tx_stage stuck_pmdk (px open_transaction) = TX_STAGE_WORK"
    by (simp_all add: open_transaction_def stack_machine_def base_address_def stuck_pmdk_def ulog_pmdk_def)
  moreover obtain j q where "pmemobj_tx_free stuck_pmdk (pmemobj_oid stuck_pmdk (global_pool open_transaction)
      (base_address + 88)) (img open_transaction) (px open_transaction) = (- 1, j, q)"
    by (simp add: stuck_pmdk_def)
  ultimately obtain s1 where "operator_delete stuck_pmdk (base_address + 88) open_transaction = (Terminate, s1, [s1])"
    using delete_failure_ends_process [of open_transaction stuck_pmdk "base_address + 88" "- 1" j q] by auto
  then show ?thesis by simp
qed

end
