(* ===== verification/Ravl_Model.thy ===== *)
theory Ravl_Model
  imports UMF_Prelude
begin

text \<open>
  Model of \<^verbatim>\<open>src/ravl/ravl.c\<close>: the rank-balanced binary search tree with parent pointers in
  which the coarse provider keeps its blocks.

  A tree carries its own store of nodes. The bytes of \<open>node->data\<close> are what the constructor wrote:
  a pointer to the client's datum (\<open>PPtr\<close>) or a copy of the datum (\<open>PInline\<close>); reading them by the
  other interpretation has no result. The comparison is a field of the tree, as in the code.
  Ranks are mathematical integers: a rank never exceeds the number of insertions, so the 32-bit
  field does not overflow before memory is exhausted.
\<close>

section \<open>Data\<close>

datatype ravl_slot_type = RAVL_LEFT | RAVL_RIGHT | RAVL_ROOT

datatype 'd payload = PPtr 'd | PInline 'd

record 'd ravl_node =
  parent :: ptr
  slots :: "ravl_slot_type \<Rightarrow> ptr"
  rank :: int
  pointer_based :: bool
  ndata :: "'d payload"

record 'd ravl =
  ravl_root :: ptr
  compare :: "'d \<Rightarrow> 'd \<Rightarrow> int"
  data_size :: nat
  rnodes :: "ptr \<rightharpoonup> 'd ravl_node"

datatype ravl_predicate =
    RAVL_PREDICATE_EQUAL | RAVL_PREDICATE_GREATER | RAVL_PREDICATE_LESS
  | RAVL_PREDICATE_LESS_EQUAL | RAVL_PREDICATE_GREATER_EQUAL

fun flag_equal :: "ravl_predicate \<Rightarrow> bool" where
  "flag_equal f \<longleftrightarrow> f \<in> {RAVL_PREDICATE_EQUAL, RAVL_PREDICATE_LESS_EQUAL, RAVL_PREDICATE_GREATER_EQUAL}"

fun flag_greater :: "ravl_predicate \<Rightarrow> bool" where
  "flag_greater f \<longleftrightarrow> f \<in> {RAVL_PREDICATE_GREATER, RAVL_PREDICATE_GREATER_EQUAL}"

fun flag_less :: "ravl_predicate \<Rightarrow> bool" where
  "flag_less f \<longleftrightarrow> f \<in> {RAVL_PREDICATE_LESS, RAVL_PREDICATE_LESS_EQUAL}"

text \<open>A \<open>struct ravl_node **\<close>.\<close>

datatype ravl_ref = RootRef | SlotRef ptr ravl_slot_type

definition upd_node :: "'d ravl \<Rightarrow> ptr \<Rightarrow> ('d ravl_node \<Rightarrow> 'd ravl_node) \<Rightarrow> 'd ravl option" where
  "upd_node r a f = do { n \<leftarrow> rnodes r a; Some (r\<lparr>rnodes := (rnodes r)(a \<mapsto> f n)\<rparr>) }"

definition set_slot :: "ravl_slot_type \<Rightarrow> ptr \<Rightarrow> 'd ravl_node \<Rightarrow> 'd ravl_node" where
  "set_slot t p n = n\<lparr>slots := (slots n)(t := p)\<rparr>"

fun get_ref :: "'d ravl \<Rightarrow> ravl_ref \<Rightarrow> ptr option" where
  "get_ref r RootRef = Some (ravl_root r)"
| "get_ref r (SlotRef a t) = do { n \<leftarrow> rnodes r a; Some (slots n t) }"

fun set_ref :: "'d ravl \<Rightarrow> ravl_ref \<Rightarrow> ptr \<Rightarrow> 'd ravl option" where
  "set_ref r RootRef p = Some (r\<lparr>ravl_root := p\<rparr>)"
| "set_ref r (SlotRef a t) p = upd_node r a (set_slot t p)"

definition free_ravl_node :: "'d ravl \<Rightarrow> ptr \<Rightarrow> 'd ravl option" where
  "free_ravl_node r a = do { _ \<leftarrow> rnodes r a; Some (r\<lparr>rnodes := (rnodes r)(a := None)\<rparr>) }"

section \<open>Creation and traversal\<close>

definition RAVL_DEFAULT_DATA_SIZE :: nat where "RAVL_DEFAULT_DATA_SIZE = 8"

definition ravl_new_sized :: "ptr \<Rightarrow> ('d \<Rightarrow> 'd \<Rightarrow> int) \<Rightarrow> nat \<Rightarrow> 'd ravl option" where
  "ravl_new_sized mr cmp sz =
     (if mr = NULL then None
      else Some \<lparr> ravl_root = NULL, compare = cmp, data_size = sz, rnodes = Map.empty \<rparr>)"

definition ravl_new :: "ptr \<Rightarrow> ('d \<Rightarrow> 'd \<Rightarrow> int) \<Rightarrow> 'd ravl option" where
  "ravl_new mr cmp = ravl_new_sized mr cmp RAVL_DEFAULT_DATA_SIZE"

partial_function (option) ravl_foreach_node ::
  "'d ravl \<Rightarrow> ptr \<Rightarrow> ('d payload \<Rightarrow> 's \<Rightarrow> 's) option \<Rightarrow> 's \<Rightarrow> bool \<Rightarrow> ('s \<times> 'd ravl) option" where
  "ravl_foreach_node r n cb s free_node =
     (if n = NULL then Some (s, r)
      else do { nd \<leftarrow> rnodes r n;
                x \<leftarrow> ravl_foreach_node r (slots nd RAVL_LEFT) cb s free_node;
                nd1 \<leftarrow> rnodes (snd x) n;
                let s2 = (case cb of None \<Rightarrow> fst x | Some f \<Rightarrow> f (ndata nd1) (fst x));
                y \<leftarrow> ravl_foreach_node (snd x) (slots nd1 RAVL_RIGHT) cb s2 free_node;
                if free_node
                then do { r3 \<leftarrow> free_ravl_node (snd y) n; Some (fst y, r3) }
                else Some y })"

definition ravl_clear :: "'d ravl \<Rightarrow> 'd ravl option" where
  "ravl_clear r = do { x \<leftarrow> ravl_foreach_node r (ravl_root r) None () True; Some ((snd x)\<lparr>ravl_root := NULL\<rparr>) }"

text \<open>The result holds the memory that is left when the structure itself is freed.\<close>

definition ravl_delete_cb :: "'d ravl \<Rightarrow> ('d payload \<Rightarrow> 's \<Rightarrow> 's) option \<Rightarrow> 's \<Rightarrow> ('s \<times> 'd ravl) option" where
  "ravl_delete_cb r cb s = ravl_foreach_node r (ravl_root r) cb s True"

definition ravl_delete :: "'d ravl \<Rightarrow> 'd ravl option" where
  "ravl_delete r = do { x \<leftarrow> ravl_delete_cb r None (); Some (snd x) }"

definition ravl_foreach :: "'d ravl \<Rightarrow> ('d payload \<Rightarrow> 's \<Rightarrow> 's) option \<Rightarrow> 's \<Rightarrow> ('s \<times> 'd ravl) option" where
  "ravl_foreach r cb s = ravl_foreach_node r (ravl_root r) cb s False"

definition ravl_empty :: "'d ravl \<Rightarrow> bool" where
  "ravl_empty r \<longleftrightarrow> ravl_root r = NULL"

section \<open>Nodes\<close>

datatype 'd ravl_constr =
    ravl_node_insert_constructor
  | ravl_node_copy_constructor
  | client_constructor "'d \<Rightarrow> 'd payload"

fun construct :: "'d ravl_constr \<Rightarrow> 'd \<Rightarrow> 'd payload" where
  "construct ravl_node_insert_constructor d = PPtr d"
| "construct ravl_node_copy_constructor d = PInline d"
| "construct (client_constructor f) d = f d"

fun is_insert_constructor :: "'d ravl_constr \<Rightarrow> bool" where
  "is_insert_constructor ravl_node_insert_constructor = True"
| "is_insert_constructor _ = False"

text \<open>\<open>mem\<close> is what \<open>umf_ba_global_alloc\<close> returns for the node.\<close>

definition ravl_new_node :: "'d ravl \<Rightarrow> 'd ravl_constr \<Rightarrow> 'd \<Rightarrow> ptr \<Rightarrow> ptr \<times> 'd ravl" where
  "ravl_new_node r constr arg mem =
     (if mem = NULL then (NULL, r)
      else (mem, r\<lparr>rnodes := (rnodes r)(mem \<mapsto>
             \<lparr> parent = NULL, slots = (\<lambda>_. NULL), rank = 0,
               pointer_based = is_insert_constructor constr, ndata = construct constr arg \<rparr>)\<rparr>))"

fun payload_data :: "bool \<Rightarrow> 'd payload \<Rightarrow> 'd option" where
  "payload_data True (PPtr d) = Some d"
| "payload_data False (PInline d) = Some d"
| "payload_data _ _ = None"

definition ravl_data :: "'d ravl \<Rightarrow> ptr \<Rightarrow> 'd option" where
  "ravl_data r n = do { nd \<leftarrow> rnodes r n; payload_data (pointer_based nd) (ndata nd) }"

definition ravl_slot_opposite :: "ravl_slot_type \<Rightarrow> ravl_slot_type option" where
  "ravl_slot_opposite t =
     do { guard (t \<noteq> RAVL_ROOT); Some (if t = RAVL_LEFT then RAVL_RIGHT else RAVL_LEFT) }"

definition ravl_node_slot_type :: "'d ravl \<Rightarrow> ptr \<Rightarrow> ravl_slot_type option" where
  "ravl_node_slot_type r n =
     do { nd \<leftarrow> rnodes r n;
          if parent nd = NULL then Some RAVL_ROOT
          else do { pd \<leftarrow> rnodes r (parent nd);
                    Some (if slots pd RAVL_LEFT = n then RAVL_LEFT else RAVL_RIGHT) } }"

definition ravl_node_sibling :: "'d ravl \<Rightarrow> ptr \<Rightarrow> ptr option" where
  "ravl_node_sibling r n =
     do { t \<leftarrow> ravl_node_slot_type r n;
          if t = RAVL_ROOT then Some NULL
          else do { nd \<leftarrow> rnodes r n;
                    pd \<leftarrow> rnodes r (parent nd);
                    Some (slots pd (if t = RAVL_LEFT then RAVL_RIGHT else RAVL_LEFT)) } }"

definition ravl_node_ref :: "'d ravl \<Rightarrow> ptr \<Rightarrow> ravl_ref option" where
  "ravl_node_ref r n =
     do { t \<leftarrow> ravl_node_slot_type r n;
          if t = RAVL_ROOT then Some RootRef
          else do { nd \<leftarrow> rnodes r n; Some (SlotRef (parent nd) t) } }"

definition ravl_rotate :: "'d ravl \<Rightarrow> ptr \<Rightarrow> 'd ravl option" where
  "ravl_rotate r n =
     do { nd \<leftarrow> rnodes r n;
          guard (parent nd \<noteq> NULL);
          let p = parent nd;
          pref \<leftarrow> ravl_node_ref r p;
          t \<leftarrow> ravl_node_slot_type r n;
          t_opposite \<leftarrow> ravl_slot_opposite t;
          pd \<leftarrow> rnodes r p;
          r1 \<leftarrow> upd_node r n (\<lambda>x. x\<lparr>parent := parent pd\<rparr>);
          r2 \<leftarrow> upd_node r1 p (\<lambda>x. x\<lparr>parent := n\<rparr>);
          r3 \<leftarrow> set_ref r2 pref n;
          nd' \<leftarrow> rnodes r3 n;
          let c = slots nd' t_opposite;
          r4 \<leftarrow> upd_node r3 p (set_slot t c);
          r5 \<leftarrow> (if c \<noteq> NULL then upd_node r4 c (\<lambda>x. x\<lparr>parent := p\<rparr>) else Some r4);
          upd_node r5 n (set_slot t_opposite p) }"

section \<open>Ranks and balancing\<close>

definition ravl_node_rank :: "'d ravl \<Rightarrow> ptr \<Rightarrow> int option" where
  "ravl_node_rank r n = (if n = NULL then Some (- 1) else do { nd \<leftarrow> rnodes r n; Some (rank nd) })"

definition ravl_node_rank_difference_parent :: "'d ravl \<Rightarrow> ptr \<Rightarrow> ptr \<Rightarrow> int option" where
  "ravl_node_rank_difference_parent r p n =
     do { rp \<leftarrow> ravl_node_rank r p;
          rn \<leftarrow> ravl_node_rank r n;
          guard (rp - rn \<le> rp + 1);
          Some (rp - rn) }"

definition ravl_node_rank_difference :: "'d ravl \<Rightarrow> ptr \<Rightarrow> int option" where
  "ravl_node_rank_difference r n =
     do { nd \<leftarrow> rnodes r n; ravl_node_rank_difference_parent r (parent nd) n }"

definition ravl_node_is_i_j :: "'d ravl \<Rightarrow> ptr \<Rightarrow> int \<Rightarrow> int \<Rightarrow> bool option" where
  "ravl_node_is_i_j r n i j =
     do { nd \<leftarrow> rnodes r n;
          dl \<leftarrow> ravl_node_rank_difference_parent r n (slots nd RAVL_LEFT);
          if dl = i
          then do { dr \<leftarrow> ravl_node_rank_difference_parent r n (slots nd RAVL_RIGHT); Some (dr = j) }
          else Some False }"

definition ravl_node_is :: "'d ravl \<Rightarrow> ptr \<Rightarrow> int \<Rightarrow> int \<Rightarrow> bool option" where
  "ravl_node_is r n i j =
     do { b \<leftarrow> ravl_node_is_i_j r n i j; if b then Some True else ravl_node_is_i_j r n j i }"

definition ravl_node_promote :: "'d ravl \<Rightarrow> ptr \<Rightarrow> 'd ravl option" where
  "ravl_node_promote r n = upd_node r n (\<lambda>x. x\<lparr>rank := rank x + 1\<rparr>)"

definition ravl_node_demote :: "'d ravl \<Rightarrow> ptr \<Rightarrow> 'd ravl option" where
  "ravl_node_demote r n =
     do { nd \<leftarrow> rnodes r n; guard (rank nd > 0); upd_node r n (\<lambda>x. x\<lparr>rank := rank x - 1\<rparr>) }"

text \<open>The loop of \<open>ravl_balance\<close> that walks up the tree, promoting nodes.\<close>

partial_function (option) balance_up :: "'d ravl \<Rightarrow> ptr \<Rightarrow> ('d ravl \<times> ptr) option" where
  "balance_up r n =
     do { nd \<leftarrow> rnodes r n;
          if parent nd = NULL then Some (r, n)
          else do { b \<leftarrow> ravl_node_is r (parent nd) 0 1;
                    if b then do { r' \<leftarrow> ravl_node_promote r (parent nd); balance_up r' (parent nd) }
                    else Some (r, n) } }"

text \<open>The rotations of \<open>ravl_balance\<close>, for a 0-child \<open>n\<close> whose sibling is an i-child with i > 1.\<close>

definition balance_rotate :: "'d ravl \<Rightarrow> ptr \<Rightarrow> 'd ravl option" where
  "balance_rotate r n =
     do { nd \<leftarrow> rnodes r n;
          let y = parent nd;
          st \<leftarrow> ravl_node_slot_type r n;
          t \<leftarrow> ravl_slot_opposite st;
          let z = slots nd t;
          single \<leftarrow> (if z = NULL then Some True
                     else do { dz \<leftarrow> ravl_node_rank_difference r z; Some (dz = 2) });
          if single
          then do { r1 \<leftarrow> ravl_rotate r n; ravl_node_demote r1 y }
          else do { dz \<leftarrow> ravl_node_rank_difference r z;
                    if dz = 1
                    then do { r1 \<leftarrow> ravl_rotate r z;
                              r2 \<leftarrow> ravl_rotate r1 z;
                              r3 \<leftarrow> ravl_node_promote r2 z;
                              r4 \<leftarrow> ravl_node_demote r3 n;
                              guard (y \<noteq> NULL);
                              ravl_node_demote r4 y }
                    else Some r } }"

definition ravl_balance :: "'d ravl \<Rightarrow> ptr \<Rightarrow> 'd ravl option" where
  "ravl_balance r0 n0 =
     do { (r, n) \<leftarrow> balance_up r0 n0;
          s \<leftarrow> ravl_node_sibling r n;
          d \<leftarrow> ravl_node_rank_difference r n;
          if d = 0
          then do { nd \<leftarrow> rnodes r n;
                    ds \<leftarrow> ravl_node_rank_difference_parent r (parent nd) s;
                    if ds > 1 then balance_rotate r n else Some r }
          else Some r }"

section \<open>Insertion\<close>

text \<open>
  The descent of \<open>ravl_emplace\<close>: the empty slot and the node above it, or \<open>None\<close> of the inner option
  when a node compares equal.
\<close>

partial_function (option) emplace_walk ::
  "'d ravl \<Rightarrow> ptr \<Rightarrow> ravl_ref \<Rightarrow> ptr \<Rightarrow> (ravl_ref \<times> ptr) option option" where
  "emplace_walk r n dstp dst =
     do { d \<leftarrow> get_ref r dstp;
          if d = NULL then Some (Some (dstp, dst))
          else do { x \<leftarrow> ravl_data r n;
                    y \<leftarrow> ravl_data r d;
                    let cmp_result = compare r x y;
                    if cmp_result = 0 then Some None
                    else emplace_walk r n (SlotRef d (if cmp_result > 0 then RAVL_RIGHT else RAVL_LEFT)) d } }"

text \<open>The code returns 0 (\<open>OK\<close>) or -1: without memory (\<open>ENOMEM\<close>) or for a duplicate, with \<open>errno\<close> set (\<open>EEXIST\<close>).\<close>

definition ravl_emplace :: "'d ravl \<Rightarrow> 'd ravl_constr \<Rightarrow> 'd \<Rightarrow> ptr \<Rightarrow> (errno \<times> 'd ravl) option" where
  "ravl_emplace r0 constr arg mem =
     (case ravl_new_node r0 constr arg mem of (n, r) \<Rightarrow>
        if n = NULL then Some (ENOMEM, r)
        else do { w \<leftarrow> emplace_walk r n RootRef NULL;
                  case w of
                    None \<Rightarrow> do { r' \<leftarrow> free_ravl_node r n; Some (EEXIST, r') }
                  | Some (dstp, dst) \<Rightarrow>
                      do { r1 \<leftarrow> upd_node r n (\<lambda>x. x\<lparr>parent := dst\<rparr>);
                           r2 \<leftarrow> set_ref r1 dstp n;
                           r3 \<leftarrow> ravl_balance r2 n;
                           Some (OK, r3) } })"

definition ravl_insert :: "'d ravl \<Rightarrow> 'd \<Rightarrow> ptr \<Rightarrow> (errno \<times> 'd ravl) option" where
  "ravl_insert r d mem = ravl_emplace r ravl_node_insert_constructor d mem"

definition ravl_emplace_copy :: "'d ravl \<Rightarrow> 'd \<Rightarrow> ptr \<Rightarrow> (errno \<times> 'd ravl) option" where
  "ravl_emplace_copy r d mem = ravl_emplace r ravl_node_copy_constructor d mem"

section \<open>Navigation and search\<close>

partial_function (option) ravl_node_type_most :: "'d ravl \<Rightarrow> ptr \<Rightarrow> ravl_slot_type \<Rightarrow> ptr option" where
  "ravl_node_type_most r n t =
     do { nd \<leftarrow> rnodes r n;
          if slots nd t \<noteq> NULL then ravl_node_type_most r (slots nd t) t else Some n }"

text \<open>The loop of \<open>ravl_node_cessor\<close> up to the first parent on the path.\<close>

partial_function (option) cessor_up :: "'d ravl \<Rightarrow> ptr \<Rightarrow> ravl_slot_type \<Rightarrow> ptr option" where
  "cessor_up r n t =
     do { nd \<leftarrow> rnodes r n;
          if parent nd = NULL then Some NULL
          else do { pd \<leftarrow> rnodes r (parent nd);
                    if n = slots pd t then cessor_up r (parent nd) t else Some (parent nd) } }"

definition ravl_node_cessor :: "'d ravl \<Rightarrow> ptr \<Rightarrow> ravl_slot_type \<Rightarrow> ptr option" where
  "ravl_node_cessor r n t =
     do { nd \<leftarrow> rnodes r n;
          if slots nd t \<noteq> NULL
          then do { t' \<leftarrow> ravl_slot_opposite t; ravl_node_type_most r (slots nd t) t' }
          else cessor_up r n t }"

definition ravl_node_successor :: "'d ravl \<Rightarrow> ptr \<Rightarrow> ptr option" where
  "ravl_node_successor r n = ravl_node_cessor r n RAVL_RIGHT"

definition ravl_node_predecessor :: "'d ravl \<Rightarrow> ptr \<Rightarrow> ptr option" where
  "ravl_node_predecessor r n = ravl_node_cessor r n RAVL_LEFT"

text \<open>The new value of \<open>*ret\<close> and whether the search is over.\<close>

definition ravl_predicate_holds ::
  "'d ravl \<Rightarrow> int \<Rightarrow> ptr \<Rightarrow> ptr \<Rightarrow> ravl_predicate \<Rightarrow> (ptr \<times> bool) option" where
  "ravl_predicate_holds r result ret n flags =
     (if flag_equal flags \<and> result = 0 then Some (n, True)
      else if flag_greater flags \<and> result < 0 then Some (n, False)
      else if flag_greater flags \<and> result = 0 then do { s \<leftarrow> ravl_node_successor r n; Some (s, True) }
      else if flag_less flags \<and> result > 0 then Some (n, False)
      else if flag_less flags \<and> result = 0 then do { s \<leftarrow> ravl_node_predecessor r n; Some (s, True) }
      else Some (ret, False))"

partial_function (option) find_walk :: "'d ravl \<Rightarrow> 'd \<Rightarrow> ravl_predicate \<Rightarrow> ptr \<Rightarrow> ptr \<Rightarrow> ptr option" where
  "find_walk r d flags ret n =
     (if n = NULL then Some ret
      else do { x \<leftarrow> ravl_data r n;
                let result = compare r d x;
                h \<leftarrow> ravl_predicate_holds r result ret n flags;
                if snd h then Some (fst h)
                else do { nd \<leftarrow> rnodes r n;
                          find_walk r d flags (fst h) (slots nd (if result > 0 then RAVL_RIGHT else RAVL_LEFT)) } })"

definition ravl_find :: "'d ravl \<Rightarrow> 'd \<Rightarrow> ravl_predicate \<Rightarrow> ptr option" where
  "ravl_find r d flags = find_walk r d flags NULL (ravl_root r)"

definition ravl_first :: "'d ravl \<Rightarrow> ptr option" where
  "ravl_first r = (if ravl_root r \<noteq> NULL then ravl_node_type_most r (ravl_root r) RAVL_LEFT else Some NULL)"

definition ravl_last :: "'d ravl \<Rightarrow> ptr option" where
  "ravl_last r = (if ravl_root r \<noteq> NULL then ravl_node_type_most r (ravl_root r) RAVL_RIGHT else Some NULL)"

section \<open>Removal\<close>

partial_function (option) ravl_remove :: "'d ravl \<Rightarrow> ptr \<Rightarrow> 'd ravl option" where
  "ravl_remove r n =
     do { nd \<leftarrow> rnodes r n;
          if slots nd RAVL_LEFT \<noteq> NULL \<and> slots nd RAVL_RIGHT \<noteq> NULL
          then do { s \<leftarrow> ravl_node_successor r n;
                    sd \<leftarrow> rnodes r s;
                    r1 \<leftarrow> upd_node r n (\<lambda>x. x\<lparr>ndata := ndata sd\<rparr>);
                    ravl_remove r1 s }
          else do { let c = (if slots nd RAVL_LEFT \<noteq> NULL then slots nd RAVL_LEFT else slots nd RAVL_RIGHT);
                    r1 \<leftarrow> (if c \<noteq> NULL then upd_node r c (\<lambda>x. x\<lparr>parent := parent nd\<rparr>) else Some r);
                    ref \<leftarrow> ravl_node_ref r1 n;
                    r2 \<leftarrow> set_ref r1 ref c;
                    free_ravl_node r2 n } }"

end
