(* ===== verification/Ravl_Tree.thy ===== *)
theory Ravl_Tree
  imports Ravl_Model
begin

text \<open>
  The trees a ravl store represents, with their addresses, and trees with a hole (\<open>frame\<close> lists,
  innermost first), which describe the place of a node as seen through its parent pointers. The
  in-order sequence \<open>ino\<close> is what the operations are specified on.
\<close>

section \<open>Trees and contexts\<close>

datatype 'd rtree = RE | RN ptr int bool "'d payload" "'d rtree" "'d rtree"

fun rk :: "'d rtree \<Rightarrow> int" where
  "rk RE = - 1"
| "rk (RN a k b d l r) = k"

type_synonym 'd item = "ptr \<times> bool \<times> 'd payload"

fun ino :: "'d rtree \<Rightarrow> 'd item list" where
  "ino RE = []"
| "ino (RN a k b d l r) = ino l @ (a, b, d) # ino r"

text \<open>A node given by its children on side \<open>s\<close> (the left one for \<open>True\<close>) and on the other side.\<close>

definition node :: "bool \<Rightarrow> ptr \<Rightarrow> int \<Rightarrow> bool \<Rightarrow> 'd payload \<Rightarrow> 'd rtree \<Rightarrow> 'd rtree \<Rightarrow> 'd rtree" where
  "node s a k b d x y = (if s then RN a k b d x y else RN a k b d y x)"

definition sl :: "bool \<Rightarrow> ravl_slot_type" where
  "sl s = (if s then RAVL_LEFT else RAVL_RIGHT)"

datatype 'd frame = Fr bool ptr int bool "'d payload" "'d rtree"

fun plug :: "'d frame list \<Rightarrow> 'd rtree \<Rightarrow> 'd rtree" where
  "plug [] t = t"
| "plug (Fr s a k b d u # C) t = plug C (node s a k b d t u)"

fun cl :: "'d frame list \<Rightarrow> 'd item list" where
  "cl [] = []"
| "cl (Fr s a k b d u # C) = (if s then cl C else cl C @ ino u @ [(a, b, d)])"

fun cr :: "'d frame list \<Rightarrow> 'd item list" where
  "cr [] = []"
| "cr (Fr s a k b d u # C) = (if s then (a, b, d) # ino u @ cr C else cr C)"

fun par_of :: "'d frame list \<Rightarrow> ptr" where
  "par_of [] = NULL"
| "par_of (Fr s a k b d u # C) = a"

fun ref_of :: "'d frame list \<Rightarrow> ravl_ref" where
  "ref_of [] = RootRef"
| "ref_of (Fr s a k b d u # C) = SlotRef a (sl s)"

fun addrs :: "'d rtree \<Rightarrow> ptr set" where
  "addrs RE = {}"
| "addrs (RN a k b d l r) = insert a (addrs l \<union> addrs r)"

fun caddrs :: "'d frame list \<Rightarrow> ptr set" where
  "caddrs [] = {}"
| "caddrs (Fr s a k b d u # C) = insert a (addrs u \<union> caddrs C)"

lemma addrs_ino: "fst ` set (ino t) = addrs t"
  by (induction t) (simp_all add: image_Un)

lemma caddrs_items: "fst ` set (cl C) \<union> fst ` set (cr C) = caddrs C"
  by (induction C rule: caddrs.induct) (auto simp: image_Un simp flip: addrs_ino)

lemma addrs_node [simp]: "addrs (node s a k b d x y) = insert a (addrs x \<union> addrs y)"
  by (auto simp: node_def)

lemma addrs_plug: "addrs (plug C t) = caddrs C \<union> addrs t"
  by (induction C t rule: plug.induct) auto

text \<open>The addresses are pairwise different.\<close>

fun tsep :: "'d rtree \<Rightarrow> bool" where
  "tsep RE \<longleftrightarrow> True"
| "tsep (RN a k b d l r) \<longleftrightarrow> tsep l \<and> tsep r \<and> a \<notin> addrs l \<and> a \<notin> addrs r \<and> addrs l \<inter> addrs r = {}"

fun csep :: "'d frame list \<Rightarrow> bool" where
  "csep [] \<longleftrightarrow> True"
| "csep (Fr s a k b d u # C) \<longleftrightarrow> tsep u \<and> csep C \<and> a \<notin> addrs u \<and> a \<notin> caddrs C \<and> addrs u \<inter> caddrs C = {}"

lemma tsep_node: "tsep (node s a k b d x y) \<longleftrightarrow>
    tsep x \<and> tsep y \<and> a \<notin> addrs x \<and> a \<notin> addrs y \<and> addrs x \<inter> addrs y = {}"
  by (auto simp: node_def)

lemma tsep_plug: "tsep (plug C t) \<longleftrightarrow> csep C \<and> tsep t \<and> caddrs C \<inter> addrs t = {}"
  by (induction C t rule: plug.induct) (auto simp: tsep_node)

lemma tsep_distinct: "tsep t \<longleftrightarrow> distinct (map fst (ino t))"
  by (induction t) (auto simp: addrs_ino)

lemma ino_node: "ino (node s a k b d x y) = (if s then ino x @ (a, b, d) # ino y else ino y @ (a, b, d) # ino x)"
  by (simp add: node_def)

lemma ino_plug: "ino (plug C t) = cl C @ ino t @ cr C"
  by (induction C t rule: plug.induct) (auto simp: ino_node)

lemma rk_node [simp]: "rk (node s a k b d x y) = k"
  by (simp add: node_def)

lemma node_exhaust:
  assumes "t \<noteq> RE"
  obtains a k b d x y where "t = node s a k b d x y"
  using assms by (cases t; cases s) (auto simp: node_def)

lemma sl_simps [simp]: "sl True = RAVL_LEFT" "sl False = RAVL_RIGHT" "sl s \<noteq> RAVL_ROOT" "RAVL_ROOT \<noteq> sl s"
  "sl s = sl s' \<longleftrightarrow> s = s'"
  by (auto simp: sl_def)

lemma opposite_sl [simp]: "ravl_slot_opposite (sl s) = Some (sl (\<not> s))"
  by (simp add: ravl_slot_opposite_def sl_def)

section \<open>Representation\<close>

fun rrep :: "(ptr \<rightharpoonup> 'd ravl_node) \<Rightarrow> ptr \<Rightarrow> ptr \<Rightarrow> 'd rtree \<Rightarrow> bool" where
  "rrep N par p RE \<longleftrightarrow> p = NULL"
| "rrep N par p (RN a k b d l r) \<longleftrightarrow> p = a \<and> a \<noteq> NULL \<and>
     (\<exists>n. N a = Some n \<and> parent n = par \<and> rank n = k \<and> pointer_based n = b \<and> ndata n = d \<and>
        rrep N a (slots n RAVL_LEFT) l \<and> rrep N a (slots n RAVL_RIGHT) r)"

fun rctx :: "(ptr \<rightharpoonup> 'd ravl_node) \<Rightarrow> ptr \<Rightarrow> 'd frame list \<Rightarrow> ptr \<Rightarrow> bool" where
  "rctx N root [] q \<longleftrightarrow> root = q"
| "rctx N root (Fr s a k b d u # C) q \<longleftrightarrow> a \<noteq> NULL \<and>
     (\<exists>n. N a = Some n \<and> parent n = par_of C \<and> rank n = k \<and> pointer_based n = b \<and> ndata n = d \<and>
        slots n (sl s) = q \<and> rrep N a (slots n (sl (\<not> s))) u) \<and> rctx N root C a"

lemma rrep_node: "rrep N par p (node s a k b d x y) \<longleftrightarrow> p = a \<and> a \<noteq> NULL \<and>
     (\<exists>n. N a = Some n \<and> parent n = par \<and> rank n = k \<and> pointer_based n = b \<and> ndata n = d \<and>
        rrep N a (slots n (sl s)) x \<and> rrep N a (slots n (sl (\<not> s))) y)"
  by (cases s) (auto simp: node_def)

lemma rrep_NULL: "rrep N par p t \<Longrightarrow> p = NULL \<longleftrightarrow> t = RE"
  by (cases t) auto

lemma rrep_plug: "rrep N NULL root (plug C t) \<longleftrightarrow> (\<exists>q. rctx N root C q \<and> rrep N (par_of C) q t)"
proof (induction C arbitrary: t)
  case (Cons F C)
  obtain s a k b d u where F: "F = Fr s a k b d u" by (cases F)
  show ?case unfolding F plug.simps Cons.IH rrep_node by auto
qed auto

lemma rrep_frame: "rrep N par p t \<Longrightarrow> (\<And>a. a \<in> addrs t \<Longrightarrow> N' a = N a) \<Longrightarrow> rrep N' par p t"
  by (induction t arbitrary: par p) auto

lemma rctx_frame: "rctx N root C q \<Longrightarrow> (\<And>a. a \<in> caddrs C \<Longrightarrow> N' a = N a) \<Longrightarrow> rctx N' root C q"
proof (induction C arbitrary: q)
  case (Cons F C)
  obtain s a k b d u where F: "F = Fr s a k b d u" by (cases F)
  have ad: "a \<in> caddrs (F # C)" "addrs u \<subseteq> caddrs (F # C)" "caddrs C \<subseteq> caddrs (F # C)" by (auto simp: F)
  from Cons.prems(1) obtain n where n: "a \<noteq> NULL" "N a = Some n" "parent n = par_of C" "rank n = k"
    "pointer_based n = b" "ndata n = d" "slots n (sl s) = q" "rrep N a (slots n (sl (\<not> s))) u" "rctx N root C a"
    by (auto simp: F)
  have "N' a = Some n" using Cons.prems(2) ad n by simp
  moreover have "rrep N' a (slots n (sl (\<not> s))) u" by (rule rrep_frame [OF n(8)]) (use Cons.prems(2) ad in blast)
  moreover have "rctx N' root C a" by (rule Cons.IH [OF n(9)]) (use Cons.prems(2) ad in blast)
  ultimately show ?case using n by (auto simp: F)
qed simp

lemma rrep_dom: "rrep N par p t \<Longrightarrow> addrs t \<subseteq> dom N"
  by (induction t arbitrary: par p) (simp_all, blast)

lemma rrep_not_null: "rrep N par p t \<Longrightarrow> NULL \<notin> addrs t"
  by (induction t arbitrary: par p) auto

lemma rrep_root_in: "rrep N par p t \<Longrightarrow> p \<noteq> NULL \<Longrightarrow> p \<in> addrs t"
  by (cases t) auto

text \<open>Giving a subtree another parent.\<close>

lemma rrep_reparent:
  assumes "rrep N par p t" and "p \<noteq> NULL" and "tsep t"
  shows "\<exists>n. N p = Some n \<and> rrep (N(p \<mapsto> n\<lparr>parent := par'\<rparr>)) par' p t"
proof (cases t)
  case (RN a k b d l r)
  with assms obtain n where n: "p = a" "N a = Some n" "rrep N a (slots n RAVL_LEFT) l" "rrep N a (slots n RAVL_RIGHT) r"
    "rank n = k" "pointer_based n = b" "ndata n = d" by auto
  from assms(3) RN have "a \<notin> addrs l" "a \<notin> addrs r" by auto
  then have "rrep (N(a \<mapsto> n\<lparr>parent := par'\<rparr>)) a (slots n RAVL_LEFT) l" "rrep (N(a \<mapsto> n\<lparr>parent := par'\<rparr>)) a (slots n RAVL_RIGHT) r"
    using n by (auto intro!: rrep_frame [of N])
  with n assms(2) RN show ?thesis by auto
qed (use assms in auto)

section \<open>States\<close>

text \<open>
  The focus of an operation: the store represents \<open>plug C t\<close>, its addresses are pairwise
  different, and it holds nothing but this tree and the nodes \<open>X\<close> in the hands of the operation.
\<close>

definition rst :: "'d ravl \<Rightarrow> 'd frame list \<Rightarrow> 'd rtree \<Rightarrow> ptr set \<Rightarrow> bool" where
  "rst r C t X \<longleftrightarrow> rrep (rnodes r) NULL (ravl_root r) (plug C t) \<and> tsep (plug C t) \<and>
     dom (rnodes r) = addrs (plug C t) \<union> X \<and> addrs (plug C t) \<inter> X = {}"

lemma rst_parts:
  assumes "rst r C t X"
  shows "\<exists>q. rctx (rnodes r) (ravl_root r) C q \<and> rrep (rnodes r) (par_of C) q t"
    and "caddrs C \<inter> addrs t = {}" and "tsep t" and "csep C" and "(caddrs C \<union> addrs t) \<inter> X = {}"
    and "dom (rnodes r) = caddrs C \<union> addrs t \<union> X" and "NULL \<notin> caddrs C \<union> addrs t"
proof -
  show "\<exists>q. rctx (rnodes r) (ravl_root r) C q \<and> rrep (rnodes r) (par_of C) q t"
    using assms by (simp add: rst_def rrep_plug)
  have "NULL \<notin> addrs (plug C t)" using assms rrep_not_null by (auto simp: rst_def)
  then show "NULL \<notin> caddrs C \<union> addrs t" by (simp add: addrs_plug)
qed (use assms in \<open>auto simp: rst_def addrs_plug tsep_plug\<close>)

lemma rstI:
  assumes "rctx (rnodes r) (ravl_root r) C q" and "rrep (rnodes r) (par_of C) q t"
    and "csep C" and "tsep t" and "caddrs C \<inter> addrs t = {}"
    and "dom (rnodes r) = caddrs C \<union> addrs t \<union> X" and "(caddrs C \<union> addrs t) \<inter> X = {}"
  shows "rst r C t X"
  using assms rrep_plug [of "rnodes r" "ravl_root r" C t] unfolding rst_def addrs_plug tsep_plug by blast

lemma rst_plug: "rst r (F # C) t X \<longleftrightarrow> rst r C (plug [F] t) X"
  by (cases F) (simp add: rst_def)

lemma rst_plug_all: "rst r C t X \<longleftrightarrow> rst r [] (plug C t) X"
  by (simp add: rst_def)

end
