(* ===== verification/Ravl_Rotate.thy ===== *)
theory Ravl_Rotate
  imports Ravl_Tree
begin

text \<open>
  The local operations of the tree on a focused state: where a node hangs, what its rank
  differences are, promotion and demotion, stores into the slot a node hangs from, and rotation.
\<close>

section \<open>Reading at the focus\<close>

lemma rst_focus:
  assumes "rst r C (node s a k b d x y) X"
  shows "\<exists>n. rnodes r a = Some n \<and> a \<noteq> NULL \<and> parent n = par_of C \<and> rank n = k \<and> pointer_based n = b \<and> ndata n = d \<and>
    rctx (rnodes r) (ravl_root r) C a \<and>
    rrep (rnodes r) a (slots n (sl s)) x \<and> rrep (rnodes r) a (slots n (sl (\<not> s))) y"
  using rst_parts(1) [OF assms] by (auto simp: rrep_node)

lemma rst_parent:
  assumes "rst r (Fr s p k b d u # C) t X"
  shows "\<exists>n q. rnodes r p = Some n \<and> p \<noteq> NULL \<and> parent n = par_of C \<and> rank n = k \<and> pointer_based n = b \<and> ndata n = d \<and>
    slots n (sl s) = q \<and> rrep (rnodes r) p q t \<and> rrep (rnodes r) p (slots n (sl (\<not> s))) u \<and>
    rctx (rnodes r) (ravl_root r) C p"
  using rst_parts(1) [OF assms] by auto

lemma par_of_NULL: "rctx N root C q \<Longrightarrow> par_of C = NULL \<longleftrightarrow> C = []"
  by (cases C rule: caddrs.cases) auto

fun type_of :: "'d frame list \<Rightarrow> ravl_slot_type" where
  "type_of [] = RAVL_ROOT"
| "type_of (Fr s a k b d u # C) = sl s"

lemma slot_type_rst:
  assumes st: "rst r C (node s' a k b d x y) X"
  shows "ravl_node_slot_type r a = Some (type_of C)"
proof (cases C rule: caddrs.cases)
  case 1
  with rst_focus [OF st] show ?thesis by (auto simp: ravl_node_slot_type_def)
next
  case (2 s p k' b' d' u C')
  from rst_focus [OF st] obtain n where n: "rnodes r a = Some n" "parent n = p" by (auto simp: 2)
  from rst_parent [OF st [unfolded 2]] obtain m where
    m: "rnodes r p = Some m" "p \<noteq> NULL" "slots m (sl s) = a" "rrep (rnodes r) p (slots m (sl (\<not> s))) u"
    by (auto simp: rrep_node)
  have "a \<notin> addrs u" using rst_parts(2) [OF st] by (auto simp: 2)
  moreover have "a \<noteq> NULL" using rst_parts(7) [OF st] by auto
  ultimately have "slots m (sl (\<not> s)) \<noteq> a" using rrep_root_in [OF m(4)] by auto
  with n m 2 show ?thesis by (cases s) (auto simp: ravl_node_slot_type_def)
qed

lemma node_ref_rst:
  assumes "rst r C (node s' a k b d x y) X"
  shows "ravl_node_ref r a = Some (ref_of C)"
  using slot_type_rst [OF assms] rst_focus [OF assms]
  by (cases C rule: caddrs.cases) (auto simp: ravl_node_ref_def)

fun sib_of :: "'d frame list \<Rightarrow> 'd rtree" where
  "sib_of [] = RE"
| "sib_of (Fr s a k b d u # C) = u"

lemma sibling_rst:
  assumes st: "rst r C (node s' a k b d x y) X"
  shows "\<exists>q. ravl_node_sibling r a = Some q \<and> rrep (rnodes r) (par_of C) q (sib_of C)"
proof (cases C rule: caddrs.cases)
  case 1
  with slot_type_rst [OF st] show ?thesis by (auto simp: ravl_node_sibling_def)
next
  case (2 s p k' b' d' u C')
  with slot_type_rst [OF st] rst_focus [OF st] rst_parent [OF st [unfolded 2]] show ?thesis
    by (cases s) (auto simp: ravl_node_sibling_def)
qed

section \<open>Ranks\<close>

lemma rank_rrep: "rrep (rnodes r) par p t \<Longrightarrow> ravl_node_rank r p = Some (rk t)"
  by (cases t) (auto simp: ravl_node_rank_def)

lemma rank_diff_rrep:
  assumes "rrep (rnodes r) par p t" and "rrep (rnodes r) par' p' t'" and "- 1 \<le> rk t'"
  shows "ravl_node_rank_difference_parent r p p' = Some (rk t - rk t')"
  using rank_rrep [OF assms(1)] rank_rrep [OF assms(2)] assms(3)
  by (simp add: ravl_node_rank_difference_parent_def)

section \<open>Stores\<close>

lemma upd_node_Some:
  "rnodes r a = Some n \<Longrightarrow> upd_node r a f = Some (r\<lparr>rnodes := (rnodes r)(a \<mapsto> f n)\<rparr>)"
  by (simp add: upd_node_def)

text \<open>A store into the slot the focus hangs from.\<close>

lemma set_ref_ctx:
  assumes "rctx (rnodes r) (ravl_root r) C q" and "csep C"
  shows "\<exists>r'. set_ref r (ref_of C) q' = Some r' \<and> rctx (rnodes r') (ravl_root r') C q' \<and>
    (\<forall>b. b \<notin> caddrs C \<longrightarrow> rnodes r' b = rnodes r b) \<and> dom (rnodes r') = dom (rnodes r) \<and>
    compare r' = compare r \<and> data_size r' = data_size r"
proof (cases C rule: caddrs.cases)
  case 1
  then show ?thesis by simp
next
  case (2 s p k b d u C')
  with assms obtain n where n: "rnodes r p = Some n" "p \<noteq> NULL" "parent n = par_of C'" "rank n = k"
    "pointer_based n = b" "ndata n = d" "rrep (rnodes r) p (slots n (sl (\<not> s))) u" "rctx (rnodes r) (ravl_root r) C' p"
    by auto
  let ?N = "(rnodes r)(p \<mapsto> set_slot (sl s) q' n)"
  have "rrep ?N p (slots n (sl (\<not> s))) u" "rctx ?N (ravl_root r) C' p"
    using assms(2) by (auto simp: 2 intro!: rrep_frame [OF n(7)] rctx_frame [OF n(8)])
  with n show ?thesis by (auto simp: 2 upd_node_def set_slot_def)
qed

definition same_tree_params :: "'d ravl \<Rightarrow> 'd ravl \<Rightarrow> bool" where
  "same_tree_params r r' \<longleftrightarrow> compare r' = compare r \<and> data_size r' = data_size r"

lemma same_params_refl [simp]: "same_tree_params r r"
  by (simp add: same_tree_params_def)

lemma same_params_trans: "same_tree_params r r' \<Longrightarrow> same_tree_params r' r'' \<Longrightarrow> same_tree_params r r''"
  by (simp add: same_tree_params_def)

text \<open>Changing the rank and the data of the node at the focus.\<close>

lemma set_node_rst:
  assumes st: "rst r C (node s a k b d x y) X" and n: "rnodes r a = Some n"
    and f: "parent (f n) = parent n" "slots (f n) = slots n" "rank (f n) = k'" "pointer_based (f n) = b'" "ndata (f n) = d'"
  shows "rst (r\<lparr>rnodes := (rnodes r)(a \<mapsto> f n)\<rparr>) C (node s a k' b' d' x y) X"
proof -
  let ?N = "(rnodes r)(a \<mapsto> f n)"
  from rst_focus [OF st] n have m: "a \<noteq> NULL" "parent n = par_of C" "rctx (rnodes r) (ravl_root r) C a"
    "rrep (rnodes r) a (slots n (sl s)) x" "rrep (rnodes r) a (slots n (sl (\<not> s))) y" by auto
  note p = rst_parts [OF st]
  have "rctx ?N (ravl_root r) C a" by (rule rctx_frame [OF m(3)]) (use p(2) in auto)
  moreover have "rrep ?N a (slots n (sl s)) x" by (rule rrep_frame [OF m(4)]) (use p(3) in \<open>auto simp: tsep_node\<close>)
  moreover have "rrep ?N a (slots n (sl (\<not> s))) y" by (rule rrep_frame [OF m(5)]) (use p(3) in \<open>auto simp: tsep_node\<close>)
  ultimately show ?thesis
    using m f p n by (intro rstI [where q = a]) (auto simp: rrep_node tsep_node)
qed

lemma promote_rst:
  assumes "rst r C (node s a k b d x y) X"
  shows "\<exists>r'. ravl_node_promote r a = Some r' \<and> rst r' C (node s a (k + 1) b d x y) X \<and> same_tree_params r r'"
proof -
  from rst_focus [OF assms] obtain n where n: "rnodes r a = Some n" "rank n = k" "pointer_based n = b" "ndata n = d" by auto
  from set_node_rst [OF assms n(1), of "\<lambda>x. x\<lparr>rank := rank x + 1\<rparr>" "k + 1" b d] n show ?thesis
    by (auto simp: ravl_node_promote_def upd_node_def same_tree_params_def)
qed

lemma demote_rst:
  assumes "rst r C (node s a k b d x y) X" and "0 < k"
  shows "\<exists>r'. ravl_node_demote r a = Some r' \<and> rst r' C (node s a (k - 1) b d x y) X \<and> same_tree_params r r'"
proof -
  from rst_focus [OF assms(1)] obtain n where n: "rnodes r a = Some n" "rank n = k" "pointer_based n = b" "ndata n = d" by auto
  from set_node_rst [OF assms(1) n(1), of "\<lambda>x. x\<lparr>rank := rank x - 1\<rparr>" "k - 1" b d] n assms(2) show ?thesis
    by (auto simp: ravl_node_demote_def upd_node_def same_tree_params_def)
qed

section \<open>Rotation\<close>

lemma rotate_rst:
  assumes st: "rst r (Fr s p kp bp dp w # C) (node s n kn bn dn u v) X"
  shows "\<exists>r'. ravl_rotate r n = Some r' \<and> rst r' C (node s n kn bn dn u (node s p kp bp dp v w)) X \<and> same_tree_params r r'"
proof -
  have st': "rst r C (node s p kp bp dp (node s n kn bn dn u v) w) X" using st by (simp add: rst_def)
  from rst_focus [OF st] obtain nd where nd: "rnodes r n = Some nd" "n \<noteq> NULL" "parent nd = p" "rank nd = kn"
    "pointer_based nd = bn" "ndata nd = dn" "rrep (rnodes r) n (slots nd (sl s)) u" "rrep (rnodes r) n (slots nd (sl (\<not> s))) v"
    by auto
  from rst_focus [OF st'] obtain pd where pd: "rnodes r p = Some pd" "p \<noteq> NULL" "parent pd = par_of C" "rank pd = kp"
    "pointer_based pd = bp" "ndata pd = dp" "rctx (rnodes r) (ravl_root r) C p" "rrep (rnodes r) p (slots pd (sl (\<not> s))) w"
    by auto
  let ?c = "slots nd (sl (\<not> s))"
  note parts = rst_parts [OF st']
  from parts(2,3) have sep: "n \<noteq> p" "n \<notin> addrs u" "n \<notin> addrs v" "n \<notin> addrs w" "p \<notin> addrs u" "p \<notin> addrs v"
    "p \<notin> addrs w" "addrs u \<inter> addrs v = {}" "addrs u \<inter> addrs w = {}" "addrs v \<inter> addrs w = {}"
    "n \<notin> caddrs C" "p \<notin> caddrs C" "addrs u \<inter> caddrs C = {}" "addrs v \<inter> caddrs C = {}" "addrs w \<inter> caddrs C = {}"
    "tsep u" "tsep v" "tsep w"
    by (auto simp: tsep_node)
  define r2 where "r2 = r\<lparr>rnodes := (rnodes r)(n \<mapsto> nd\<lparr>parent := parent pd\<rparr>, p \<mapsto> pd\<lparr>parent := n\<rparr>)\<rparr>"
  have "rctx (rnodes r2) (ravl_root r2) C p"
    unfolding r2_def using sep by (auto intro!: rctx_frame [OF pd(7)])
  from set_ref_ctx [OF this parts(4), of n] obtain r3 where r3: "set_ref r2 (ref_of C) n = Some r3"
    "rctx (rnodes r3) (ravl_root r3) C n" "\<And>b. b \<notin> caddrs C \<Longrightarrow> rnodes r3 b = rnodes r2 b"
    "dom (rnodes r3) = dom (rnodes r2)" "same_tree_params r2 r3" by (auto simp: same_tree_params_def)
  have c: "?c \<noteq> NULL \<Longrightarrow> ?c \<in> addrs v" using rrep_root_in [OF nd(8)] by blast
  then have c': "?c \<noteq> n" "?c \<noteq> p" "?c \<notin> caddrs C" "?c \<notin> addrs u" "?c \<notin> addrs w"
    using sep nd(2) pd(2) parts(7) rrep_not_null [OF nd(7)] rrep_not_null [OF pd(8)] by (cases "?c = NULL"; auto)+
  have v: "\<exists>cd. ?c \<noteq> NULL \<longrightarrow> rnodes r ?c = Some cd \<and> rrep ((rnodes r)(?c \<mapsto> cd\<lparr>parent := p\<rparr>)) p ?c v"
    using rrep_reparent [OF nd(8) _ sep(17), of p] by blast
  then obtain cd where cd: "?c \<noteq> NULL \<longrightarrow> rnodes r ?c = Some cd \<and> rrep ((rnodes r)(?c \<mapsto> cd\<lparr>parent := p\<rparr>)) p ?c v" by blast
  define N6 where "N6 = (\<lambda>b. if b = n then Some (set_slot (sl (\<not> s)) p (nd\<lparr>parent := parent pd\<rparr>))
     else if b = p then Some (set_slot (sl s) ?c (pd\<lparr>parent := n\<rparr>))
     else if ?c \<noteq> NULL \<and> b = ?c then Some (cd\<lparr>parent := p\<rparr>) else rnodes r3 b)"
  have n3: "rnodes r3 n = Some (nd\<lparr>parent := parent pd\<rparr>)" "rnodes r3 p = Some (pd\<lparr>parent := n\<rparr>)"
    "?c \<noteq> NULL \<Longrightarrow> rnodes r3 ?c = Some cd"
    using r3(3) sep c' cd by (simp_all add: r2_def)
  have rot: "ravl_rotate r n = Some (r3\<lparr>rnodes := N6\<rparr>)"
  proof -
    have "ravl_rotate r n = do { r4 \<leftarrow> upd_node r3 p (set_slot (sl s) ?c);
        r5 \<leftarrow> (if ?c \<noteq> NULL then upd_node r4 ?c (\<lambda>x. x\<lparr>parent := p\<rparr>) else Some r4);
        upd_node r5 n (set_slot (sl (\<not> s)) p) }"
    proof -
      let ?r1 = "r\<lparr>rnodes := (rnodes r)(n \<mapsto> nd\<lparr>parent := parent pd\<rparr>)\<rparr>"
      have u1: "upd_node r n (\<lambda>x. x\<lparr>parent := parent pd\<rparr>) = Some ?r1" using nd(1) by (simp add: upd_node_def)
      have u2: "upd_node ?r1 p (\<lambda>x. x\<lparr>parent := n\<rparr>) = Some r2" using pd(1) sep(1) by (simp add: upd_node_def r2_def)
      have sl: "slots (nd\<lparr>parent := parent pd\<rparr>) (sl (\<not> s)) = ?c" by simp
      show ?thesis unfolding ravl_rotate_def
        using nd(1) pd(1,2) node_ref_rst [OF st'] slot_type_rst [OF st] u1 u2 r3(1) n3(1)
        by (simp only: nd(3) sl Option.bind.bind_lunit Let_def bind_guard type_of.simps opposite_sl if_True not_False_eq_True)
    qed
    also have "\<dots> = Some (r3\<lparr>rnodes := N6\<rparr>)"
      using n3 c' sep(1) by (auto simp: upd_node_def N6_def fun_eq_iff intro!: arg_cong [of _ _ "\<lambda>N. r3\<lparr>rnodes := N\<rparr>"])
    finally show ?thesis .
  qed
  have N6: "N6 b = rnodes r b" if "b \<noteq> n" "b \<noteq> p" "b \<noteq> ?c" "b \<notin> caddrs C" for b
    using that r3(3) by (simp add: N6_def r2_def)
  have "rctx N6 (ravl_root r3) C n"
    by (rule rctx_frame [OF r3(2)]) (use sep c' in \<open>auto simp: N6_def\<close>)
  moreover have "rrep N6 (par_of C) n (node s n kn bn dn u (node s p kp bp dp v w))"
  proof -
    have u: "rrep N6 n (slots nd (sl s)) u"
      by (rule rrep_frame [OF nd(7)], rule N6) (use sep c' in auto)
    have w: "rrep N6 p (slots pd (sl (\<not> s))) w"
      by (rule rrep_frame [OF pd(8)], rule N6) (use sep c' in auto)
    have v: "rrep N6 p ?c v"
    proof (cases "?c = NULL")
      case True
      with rrep_NULL [OF nd(8)] show ?thesis by simp
    next
      case False
      show ?thesis
      proof (rule rrep_frame [OF conjunct2 [OF mp [OF cd False]]])
        fix a
        assume a: "a \<in> addrs v"
        with sep have "a \<noteq> n" "a \<noteq> p" "a \<notin> caddrs C" by auto
        then show "N6 a = ((rnodes r)(?c \<mapsto> cd\<lparr>parent := p\<rparr>)) a"
          using N6 [of a] False c' by (cases "a = ?c") (auto simp: N6_def)
      qed
    qed
    have "N6 n = Some (set_slot (sl (\<not> s)) p (nd\<lparr>parent := parent pd\<rparr>))"
      "N6 p = Some (set_slot (sl s) ?c (pd\<lparr>parent := n\<rparr>))" using sep(1) by (simp_all add: N6_def)
    with u v w nd pd show ?thesis unfolding rrep_node by (simp add: set_slot_def)
  qed
  moreover have "dom N6 = dom (rnodes r)"
  proof -
    have "N6 b = None \<longleftrightarrow> rnodes r3 b = None" for b using n3 by (simp add: N6_def)
    then have "dom N6 = dom (rnodes r3)" by (simp add: dom_def)
    moreover have "dom (rnodes r2) = dom (rnodes r)" using nd(1) pd(1) by (auto simp: r2_def)
    ultimately show ?thesis using r3(4) by simp
  qed
  ultimately have "rst (r3\<lparr>rnodes := N6\<rparr>) C (node s n kn bn dn u (node s p kp bp dp v w)) X"
    using parts(4-6) sep by (intro rstI [where q = n]) (auto simp: tsep_node)
  moreover have "same_tree_params r (r3\<lparr>rnodes := N6\<rparr>)" using r3(5) by (simp add: same_tree_params_def r2_def)
  ultimately show ?thesis using rot by blast
qed

end
