(* ===== verification/Ravl_Balance.thy ===== *)
theory Ravl_Balance
  imports Ravl_Rotate
begin

text \<open>
  The rank rule (every rank difference between a node and its child is positive) and its
  restoration after an insertion: the promotions of \<open>ravl_balance\<close>, its single and its double
  rotation keep the in-order sequence and end in a tree that satisfies the rule.
\<close>

section \<open>The rank rule\<close>

fun rok :: "'d rtree \<Rightarrow> bool" where
  "rok RE \<longleftrightarrow> True"
| "rok (RN a k b d l r) \<longleftrightarrow> rk l < k \<and> rk r < k \<and> rok l \<and> rok r"

fun cok :: "'d frame list \<Rightarrow> int \<Rightarrow> bool" where
  "cok [] x \<longleftrightarrow> True"
| "cok (Fr s a k b d u # C) x \<longleftrightarrow> x < k \<and> rk u < k \<and> rok u \<and> cok C k"

lemma rok_node: "rok (node s a k b d x y) \<longleftrightarrow> rk x < k \<and> rk y < k \<and> rok x \<and> rok y"
  by (auto simp: node_def)

lemma rok_plug: "rok (plug C t) \<longleftrightarrow> rok t \<and> cok C (rk t)"
  by (induction C t rule: plug.induct) (auto simp: rok_node)

lemma rok_rank: "rok t \<Longrightarrow> - 1 \<le> rk t"
  by (induction t) auto

text \<open>With positive differences a rank is at least the height of its subtree.\<close>

fun rheight :: "'d rtree \<Rightarrow> nat" where
  "rheight RE = 0"
| "rheight (RN a k b d l r) = Suc (max (rheight l) (rheight r))"

lemma rheight_rank: "rok t \<Longrightarrow> int (rheight t) \<le> rk t + 1"
  by (induction t) auto

text \<open>During balancing the focus may be a 0-child; it then has one 1-child and one 2-child, or is new.\<close>

fun wok :: "'d frame list \<Rightarrow> int \<Rightarrow> bool" where
  "wok [] x \<longleftrightarrow> True"
| "wok (Fr s a k b d u # C) x \<longleftrightarrow> x \<le> k \<and> rk u < k \<and> rok u \<and> cok C k"

lemma cok_wok: "cok C k \<Longrightarrow> wok C (k + 1)"
  by (cases C rule: caddrs.cases) auto

fun ripe :: "'d rtree \<Rightarrow> bool" where
  "ripe RE \<longleftrightarrow> False"
| "ripe (RN a k b d l r) \<longleftrightarrow> k = 0 \<or> rk l = k - 1 \<and> rk r = k - 2 \<or> rk l = k - 2 \<and> rk r = k - 1"

lemma ripe_node: "ripe (node s a k b d x y) \<longleftrightarrow> k = 0 \<or> rk x = k - 1 \<and> rk y = k - 2 \<or> rk x = k - 2 \<and> rk y = k - 1"
  by (auto simp: node_def)

fun adr :: "'d rtree \<Rightarrow> ptr" where
  "adr RE = NULL"
| "adr (RN a k b d l r) = a"

lemma adr_node [simp]: "adr (node s a k b d x y) = a"
  by (simp add: node_def)

lemma node_flip: "node (\<not> s) a k b d x y = node s a k b d y x"
  by (simp add: node_def)

section \<open>Promotions\<close>

lemma is_0_1_rst:
  assumes st: "rst r (Fr s p k b d u # C) t X" and t: "rok t" and w: "wok (Fr s p k b d u # C) (rk t)"
  shows "ravl_node_is r p 0 1 = Some (rk t = k \<and> rk u = k - 1)"
proof -
  have st': "rst r C (node s p k b d t u) X" using st by (simp add: rst_def)
  from rst_focus [OF st'] obtain n where n: "rnodes r p = Some n" "rank n = k" "p \<noteq> NULL"
    "rrep (rnodes r) p (slots n (sl s)) t" "rrep (rnodes r) p (slots n (sl (\<not> s))) u" by auto
  have rp: "ravl_node_rank r p = Some k" using n by (simp add: ravl_node_rank_def)
  have d: "ravl_node_rank_difference_parent r p (slots n (sl s)) = Some (k - rk t)"
    "ravl_node_rank_difference_parent r p (slots n (sl (\<not> s))) = Some (k - rk u)"
    using rp rank_rrep [OF n(4)] rank_rrep [OF n(5)] rok_rank [OF t] rok_rank [of u] w
    by (auto simp: ravl_node_rank_difference_parent_def)
  show ?thesis using d n(1) w
    by (cases s) (auto simp: ravl_node_is_def ravl_node_is_i_j_def)
qed

lemma balance_up_rst:
  assumes "rst r C t X" and "rok t" and "wok C (rk t)" and "ripe t"
  shows "\<exists>r' C' t'. balance_up r (adr t) = Some (r', adr t') \<and> rst r' C' t' X \<and> rok t' \<and> wok C' (rk t') \<and> ripe t' \<and>
    ino (plug C' t') = ino (plug C t) \<and> same_tree_params r r' \<and>
    (\<forall>s a k b d u D. C' = Fr s a k b d u # D \<longrightarrow> \<not> (rk t' = k \<and> rk u = k - 1))"
  using assms
proof (induction C arbitrary: r t)
  case Nil
  then obtain a k b d x y where t: "t = node True a k b d x y" by (cases t) (auto simp: node_def)
  from rst_focus [OF Nil.prems(1) [unfolded t]] obtain n where "rnodes r a = Some n" "parent n = NULL" by auto
  then have "balance_up r (adr t) = Some (r, adr t)" by (subst balance_up.simps) (simp add: t)
  with Nil.prems show ?case by (intro exI [of _ r] exI [of _ "[]"] exI [of _ t]) simp
next
  case (Cons F C)
  obtain s p k b d u where F: "F = Fr s p k b d u" by (cases F)
  have "t \<noteq> RE" using Cons.prems(4) by auto
  then obtain a ka ba da x y where t: "t = node s a ka ba da x y" by (rule node_exhaust)
  note prems = Cons.prems [unfolded F]
  from rst_focus [OF prems(1) [unfolded t]] obtain n where n: "rnodes r a = Some n" "parent n = p" by auto
  have p: "p \<noteq> NULL" using rst_parent [OF prems(1)] by auto
  note iso = is_0_1_rst [OF prems(1,2,3)]
  show ?case
  proof (cases "rk t = k \<and> rk u = k - 1")
    case False
    with iso n p have "balance_up r (adr t) = Some (r, adr t)" by (subst balance_up.simps) (auto simp: t)
    with False Cons.prems show ?thesis
      by (intro exI [of _ r] exI [of _ "F # C"] exI [of _ t]) (auto simp: F)
  next
    case True
    let ?t = "node s p (k + 1) b d t u"
    have "rst r C (node s p k b d t u) X" using prems(1) by (simp add: rst_def)
    from promote_rst [OF this] obtain r1 where
      r1: "ravl_node_promote r p = Some r1" "rst r1 C ?t X" "same_tree_params r r1" by blast
    have "rok ?t" "wok C (rk ?t)" "ripe ?t"
      using prems(2,3) True cok_wok by (auto simp: rok_node ripe_node)
    from Cons.IH [OF r1(2) this] obtain r' C' t' where
      IH: "balance_up r1 p = Some (r', adr t')" "rst r' C' t' X" "rok t'" "wok C' (rk t')" "ripe t'"
        "ino (plug C' t') = ino (plug C ?t)" "same_tree_params r1 r'"
        "\<forall>s a k b d u D. C' = Fr s a k b d u # D \<longrightarrow> \<not> (rk t' = k \<and> rk u = k - 1)" by auto
    have "balance_up r (adr t) = Some (r', adr t')"
      using iso n p True r1(1) IH(1) by (subst balance_up.simps) (simp add: t)
    moreover have "ino (plug C ?t) = ino (plug (F # C) t)" by (simp add: F ino_plug ino_node)
    ultimately show ?thesis using IH same_params_trans [OF r1(3)] by metis
  qed
qed

section \<open>Rotations\<close>

lemma single_rst:
  assumes st: "rst r (Fr s p kp bp dp w # C) (node s n kn bn dn u v) X" and k: "0 < kp"
  shows "\<exists>r1 r2. ravl_rotate r n = Some r1 \<and> ravl_node_demote r1 p = Some r2 \<and>
    rst r2 C (node s n kn bn dn u (node s p (kp - 1) bp dp v w)) X \<and> same_tree_params r r2"
proof -
  from rotate_rst [OF st] obtain r1 where r1: "ravl_rotate r n = Some r1"
    "rst r1 C (node s n kn bn dn u (node s p kp bp dp v w)) X" "same_tree_params r r1" by blast
  then have "rst r1 (Fr (\<not> s) n kn bn dn u # C) (node s p kp bp dp v w) X"
    by (simp add: rst_def node_flip)
  from demote_rst [OF this k] r1 show ?thesis
    by (auto simp: rst_def node_flip intro: same_params_trans)
qed

lemma double_rst:
  assumes st: "rst r (Fr s p kp bp dp w # C) (node s n kn bn dn x (node (\<not> s) z kz bz dz z1 z2)) X"
    and k: "0 < kp" "0 < kn"
  shows "\<exists>r1 r2 r3 r4 r5. ravl_rotate r z = Some r1 \<and> ravl_rotate r1 z = Some r2 \<and>
    ravl_node_promote r2 z = Some r3 \<and> ravl_node_demote r3 n = Some r4 \<and> ravl_node_demote r4 p = Some r5 \<and>
    rst r5 C (node s z (kz + 1) bz dz (node (\<not> s) n (kn - 1) bn dn z2 x) (node s p (kp - 1) bp dp z1 w)) X \<and>
    same_tree_params r r5"
proof -
  have "rst r (Fr (\<not> s) n kn bn dn x # Fr s p kp bp dp w # C) (node (\<not> s) z kz bz dz z1 z2) X"
    using st by (simp add: rst_def node_flip)
  from rotate_rst [OF this] obtain r1 where r1: "ravl_rotate r z = Some r1" "same_tree_params r r1"
    "rst r1 (Fr s p kp bp dp w # C) (node (\<not> s) z kz bz dz z1 (node (\<not> s) n kn bn dn z2 x)) X" by blast
  then have "rst r1 (Fr s p kp bp dp w # C) (node s z kz bz dz (node (\<not> s) n kn bn dn z2 x) z1) X"
    by (simp add: node_flip)
  from rotate_rst [OF this] obtain r2 where r2: "ravl_rotate r1 z = Some r2" "same_tree_params r1 r2"
    "rst r2 C (node s z kz bz dz (node (\<not> s) n kn bn dn z2 x) (node s p kp bp dp z1 w)) X" by blast
  from promote_rst [OF r2(3)] obtain r3 where r3: "ravl_node_promote r2 z = Some r3" "same_tree_params r2 r3"
    "rst r3 C (node s z (kz + 1) bz dz (node (\<not> s) n kn bn dn z2 x) (node s p kp bp dp z1 w)) X" by blast
  then have "rst r3 (Fr s z (kz + 1) bz dz (node s p kp bp dp z1 w) # C) (node (\<not> s) n kn bn dn z2 x) X"
    by (simp add: rst_def)
  from demote_rst [OF this k(2)] obtain r4 where r4: "ravl_node_demote r3 n = Some r4" "same_tree_params r3 r4"
    "rst r4 (Fr s z (kz + 1) bz dz (node s p kp bp dp z1 w) # C) (node (\<not> s) n (kn - 1) bn dn z2 x) X" by blast
  then have "rst r4 (Fr (\<not> s) z (kz + 1) bz dz (node (\<not> s) n (kn - 1) bn dn z2 x) # C) (node s p kp bp dp z1 w) X"
    by (simp add: rst_def node_flip)
  from demote_rst [OF this k(1)] obtain r5 where r5: "ravl_node_demote r4 p = Some r5" "same_tree_params r4 r5"
    "rst r5 (Fr (\<not> s) z (kz + 1) bz dz (node (\<not> s) n (kn - 1) bn dn z2 x) # C) (node s p (kp - 1) bp dp z1 w) X" by blast
  then have "rst r5 C (node s z (kz + 1) bz dz (node (\<not> s) n (kn - 1) bn dn z2 x) (node s p (kp - 1) bp dp z1 w)) X"
    by (simp add: rst_def node_flip)
  moreover have "same_tree_params r r5" using r1 r2 r3 r4 r5 by (simp add: same_tree_params_def)
  ultimately show ?thesis using r1 r2 r3 r4 r5 by blast
qed

lemma balance_rotate_rst:
  assumes st: "rst r (Fr s p k bp dp u # C) (node s n k bn dn x y) X"
    and ok: "rok (node s n k bn dn x y)" "ripe (node s n k bn dn x y)" "rk u < k - 1" "rok u" "cok C k"
  shows "\<exists>r' t'. balance_rotate r n = Some r' \<and> rst r' C t' X \<and> rok (plug C t') \<and> same_tree_params r r' \<and>
    ino (plug C t') = ino (plug (Fr s p k bp dp u # C) (node s n k bn dn x y))"
proof -
  from rst_focus [OF st] obtain nd where nd: "rnodes r n = Some nd" "parent nd = p" "n \<noteq> NULL" "rank nd = k"
    "rrep (rnodes r) n (slots nd (sl (\<not> s))) y" by auto
  have p: "p \<noteq> NULL" using rst_parent [OF st] by auto
  have k1: "1 \<le> k" using ok(3) rok_rank [OF ok(4)] by linarith
  note rk = ok(1,2) [unfolded rok_node ripe_node] rok_rank [of x] rok_rank [of y]
  let ?z = "slots nd (sl (\<not> s))"
  have dz: "ravl_node_rank_difference r ?z = Some (k - rk y)" if "y \<noteq> RE"
  proof -
    from that nd(5) obtain zd where zd: "rnodes r ?z = Some zd" "parent zd = n" by (cases y) auto
    have "ravl_node_rank r n = Some k" using nd by (simp add: ravl_node_rank_def)
    with zd rank_rrep [OF nd(5)] rk show ?thesis
      by (simp add: ravl_node_rank_difference_def ravl_node_rank_difference_parent_def)
  qed
  have z: "?z = NULL \<longleftrightarrow> y = RE" using rrep_NULL [OF nd(5)] .
  have unf: "balance_rotate r n =
     (if y = RE \<or> k - rk y = 2 then do { r1 \<leftarrow> ravl_rotate r n; ravl_node_demote r1 p }
      else if k - rk y = 1
      then do { r1 \<leftarrow> ravl_rotate r ?z; r2 \<leftarrow> ravl_rotate r1 ?z; r3 \<leftarrow> ravl_node_promote r2 ?z;
                r4 \<leftarrow> ravl_node_demote r3 n; ravl_node_demote r4 p }
      else Some r)"
    using nd slot_type_rst [OF st] dz z p by (simp add: balance_rotate_def Let_def)
  show ?thesis
  proof (cases "y = RE \<or> k - rk y = 2")
    case True
    then have "rk y = k - 2" "rk x = k - 1" using rk k1 by auto
    moreover from single_rst [OF st] k1 obtain r1 r2 where
      "ravl_rotate r n = Some r1" "ravl_node_demote r1 p = Some r2" "same_tree_params r r2"
      "rst r2 C (node s n k bn dn x (node s p (k - 1) bp dp y u)) X" by auto
    ultimately show ?thesis using True rk ok
      by (intro exI [of _ r2] exI [of _ "node s n k bn dn x (node s p (k - 1) bp dp y u)"])
        (auto simp: unf rok_plug rok_node ino_plug ino_node)
  next
    case False
    then obtain z kz bz dz z1 z2 where y: "y = node (\<not> s) z kz bz dz z1 z2" using node_exhaust [of y "\<not> s"] by blast
    with nd(5) have zz: "?z = z" by (simp add: rrep_node)
    from False rk k1 have ks: "rk y = k - 1" "rk x = k - 2" by auto
    with y have kz: "kz = k - 1" by simp
    from double_rst [OF st [unfolded y]] k1 obtain r1 r2 r3 r4 r5 where
      "ravl_rotate r z = Some r1" "ravl_rotate r1 z = Some r2" "ravl_node_promote r2 z = Some r3"
      "ravl_node_demote r3 n = Some r4" "ravl_node_demote r4 p = Some r5" "same_tree_params r r5"
      "rst r5 C (node s z (kz + 1) bz dz (node (\<not> s) n (k - 1) bn dn z2 x) (node s p (k - 1) bp dp z1 u)) X" by auto
    with False ks kz rk ok show ?thesis
      by (intro exI [of _ r5] exI [of _ "node s z (kz + 1) bz dz (node (\<not> s) n (k - 1) bn dn z2 x) (node s p (k - 1) bp dp z1 u)"])
        (auto simp: unf zz y rok_plug rok_node ino_plug ino_node)
  qed
qed

text \<open>\<open>ravl_balance\<close> at a node whose subtree satisfies the rule and that may be a 0-child.\<close>

lemma ravl_balance_rst:
  assumes "rst r C t X" and "rok t" and "wok C (rk t)" and "ripe t"
  shows "\<exists>r' t'. ravl_balance r (adr t) = Some r' \<and> rst r' [] t' X \<and> rok t' \<and> ino t' = ino (plug C t) \<and> same_tree_params r r'"
proof -
  from balance_up_rst [OF assms] obtain r1 C1 t1 where
    up: "balance_up r (adr t) = Some (r1, adr t1)" "rst r1 C1 t1 X" "rok t1" "wok C1 (rk t1)" "ripe t1"
      "ino (plug C1 t1) = ino (plug C t)" "same_tree_params r r1"
      "\<forall>s a k b d u D. C1 = Fr s a k b d u # D \<longrightarrow> \<not> (rk t1 = k \<and> rk u = k - 1)" by blast
  define s where "s = (case C1 of Fr s a k b d u # D \<Rightarrow> s | [] \<Rightarrow> True)"
  have "t1 \<noteq> RE" using up(5) by auto
  then obtain a k b d x y where t1: "t1 = node s a k b d x y" by (rule node_exhaust)
  from rst_focus [OF up(2) [unfolded t1]] obtain n where
    n: "rnodes r1 a = Some n" "parent n = par_of C1" "rank n = k" "a \<noteq> NULL" by auto
  have ra: "ravl_node_rank r1 a = Some k" using n by (simp add: ravl_node_rank_def)
  have k1: "- 1 \<le> k" using rok_rank [OF up(3)] by (simp add: t1)
  obtain q where q: "ravl_node_sibling r1 a = Some q" "rrep (rnodes r1) (par_of C1) q (sib_of C1)"
    using sibling_rst [OF up(2) [unfolded t1]] by blast
  have stop: "?thesis" if "ravl_balance r (adr t) = Some r1" "rok (plug C1 t1)"
    using that up by (intro exI [of _ r1] exI [of _ "plug C1 t1"]) (simp add: rst_plug_all [symmetric])
  show ?thesis
  proof (cases C1 rule: caddrs.cases)
    case 1
    have "k \<noteq> - 1" using up(3) rok_rank [of x] by (auto simp: t1 rok_node)
    then have "ravl_balance r (adr t) = Some r1"
      using up(1) q n ra k1 1 by (simp add: ravl_balance_def t1 ravl_node_rank_difference_def
          ravl_node_rank_difference_parent_def ravl_node_rank_def)
    with stop up(3) 1 show ?thesis by simp
  next
    case (2 s' p kp bp dp u D)
    then have s': "s' = s" by (simp add: s_def)
    from rst_parent [OF up(2) [unfolded 2]] have rp: "ravl_node_rank r1 p = Some kp" by (auto simp: ravl_node_rank_def)
    from up(4) 2 t1 have w: "k \<le> kp" "rk u < kp" "rok u" "cok D kp" by auto
    have unf: "ravl_balance r (adr t) = (if k = kp \<and> rk u < kp - 1 then balance_rotate r1 a else Some r1)"
    proof -
      have "ravl_node_rank_difference r1 a = Some (kp - k)"
        using n ra rp k1 2 by (simp add: ravl_node_rank_difference_def ravl_node_rank_difference_parent_def)
      moreover have "ravl_node_rank_difference_parent r1 p q = Some (kp - rk u)"
        using rp rank_rrep [OF q(2)] rok_rank [OF w(3)] 2 by (simp add: ravl_node_rank_difference_parent_def)
      ultimately show ?thesis using up(1) q(1) n(1,2) 2 by (simp add: ravl_balance_def t1)
    qed
    show ?thesis
    proof (cases "k = kp \<and> rk u < kp - 1")
      case False
      with up(8) 2 w have "k < kp" by (auto simp: t1)
      with up(3) w 2 have "rok (plug C1 t1)" by (auto simp: rok_plug rok_node t1)
      with stop unf False show ?thesis by simp
    next
      case True
      from balance_rotate_rst [of r1 s p k bp dp u D a b d x y X] up(2,3,5) 2 t1 s' True w
      obtain r' t' where "balance_rotate r1 a = Some r'" "rst r' D t' X" "rok (plug D t')" "same_tree_params r1 r'"
        "ino (plug D t') = ino (plug C1 t1)" by auto
      with True unf up(6,7) show ?thesis
        by (intro exI [of _ r'] exI [of _ "plug D t'"])
          (auto simp: rst_plug_all [symmetric] intro: same_params_trans)
    qed
  qed
qed

end
