(* ===== verification/Ravl_Search.thy ===== *)
theory Ravl_Search
  imports Ravl_Balance
begin

text \<open>
  Navigation and search: the left-most and right-most nodes, the successor and the predecessor of
  a node, and \<open>ravl_find\<close> for each of the five predicates, all against the in-order sequence.
\<close>

section \<open>The comparison\<close>

text \<open>What the tree relies on of a client's comparison function: it is a total preorder.\<close>

locale comparison =
  fixes cmp :: "'d \<Rightarrow> 'd \<Rightarrow> int"
  assumes flip: "cmp x y < 0 \<longleftrightarrow> 0 < cmp y x"
    and trans: "cmp x y \<le> 0 \<Longrightarrow> cmp y z \<le> 0 \<Longrightarrow> cmp x z \<le> 0"
    and trans_less: "cmp x y < 0 \<Longrightarrow> cmp y z \<le> 0 \<Longrightarrow> cmp x z < 0"
    and trans_less': "cmp x y \<le> 0 \<Longrightarrow> cmp y z < 0 \<Longrightarrow> cmp x z < 0"
begin

lemma refl: "cmp x x = 0"
  using flip [of x x] by linarith

lemma eq_sym: "cmp x y = 0 \<longleftrightarrow> cmp y x = 0"
  using flip [of x y] flip [of y x] by linarith

end

text \<open>The payload of a datum in a tree whose nodes hold pointers (\<open>True\<close>) or copies (\<open>False\<close>).\<close>

definition pay :: "bool \<Rightarrow> 'd \<Rightarrow> 'd payload" where
  "pay b d = (if b then PPtr d else PInline d)"

lemma payload_pay [simp]: "payload_data b (pay b d) = Some d"
  by (cases b) (simp_all add: pay_def)

definition items :: "bool \<Rightarrow> (ptr \<times> 'd) list \<Rightarrow> 'd item list" where
  "items b xs = map (\<lambda>(a, d). (a, b, pay b d)) xs"

lemma pay_inject [simp]: "pay b d = pay b d' \<longleftrightarrow> d = d'"
  by (simp add: pay_def)

lemma items_simps [simp]: "items b [] = []" "items b ((a, d) # xs) = (a, b, pay b d) # items b xs"
  "items b (xs @ ys) = items b xs @ items b ys"
  by (simp_all add: items_def)

lemma items_fst: "map fst (items b xs) = map fst xs"
  by (auto simp: items_def)

lemma items_split: "items b xs = ys @ zs \<longleftrightarrow> (\<exists>ys' zs'. xs = ys' @ zs' \<and> ys = items b ys' \<and> zs = items b zs')"
  by (auto simp: items_def map_eq_append_conv)

lemma items_mid:
  assumes "ys @ (a, b', p) # zs = items b xs"
  obtains ys' e zs' where "xs = ys' @ (a, e) # zs'" "ys = items b ys'" "b' = b" "p = pay b e" "zs = items b zs'"
proof -
  from assms [symmetric] obtain us vs where u: "xs = us @ vs" "ys = items b us" "items b vs = (a, b', p) # zs"
    by (auto simp: items_split)
  from u(3) obtain e vs' where "vs = (a, e) # vs'" "b' = b" "p = pay b e" "zs = items b vs'"
    by (cases vs) (auto simp: items_def)
  with u that show thesis by blast
qed

lemma items_Cons: "items b xs = y # ys \<longleftrightarrow> (\<exists>a d xs'. xs = (a, d) # xs' \<and> y = (a, b, pay b d) \<and> ys = items b xs')"
  by (cases xs) auto

lemma items_Nil [simp]: "items b xs = [] \<longleftrightarrow> xs = []" "[] = items b xs \<longleftrightarrow> xs = []"
  by (auto simp: items_def)

text \<open>The address of the first and of the last element of a sequence, or NULL.\<close>

definition hd_adr :: "(ptr \<times> 'a) list \<Rightarrow> ptr" where
  "hd_adr xs = (case xs of [] \<Rightarrow> NULL | x # _ \<Rightarrow> fst x)"

definition last_adr :: "(ptr \<times> 'a) list \<Rightarrow> ptr" where
  "last_adr xs = hd_adr (rev xs)"

lemma hd_adr_simps [simp]: "hd_adr [] = NULL" "hd_adr ((a, y) # xs) = a" "last_adr [] = NULL" "last_adr (xs @ [(a, y)]) = a"
  "last_adr [(a, y)] = a"
  by (simp_all add: hd_adr_def last_adr_def)

lemma hd_adr_append: "hd_adr (xs @ ys) = (if xs = [] then hd_adr ys else hd_adr xs)"
  by (cases xs) (auto simp: hd_adr_def)

lemma last_adr_append: "last_adr (xs @ ys) = (if ys = [] then last_adr xs else last_adr ys)"
  by (simp add: last_adr_def hd_adr_append)

lemma last_adr_Cons: "last_adr ((a, y) # xs) = (if xs = [] then a else last_adr xs)"
  using last_adr_append [of "[(a, y)]" xs] by (simp add: last_adr_def)

lemma hd_adr_items [simp]: "hd_adr (items b xs) = hd_adr xs"
  by (cases xs) (auto simp: hd_adr_def items_def)

lemma last_adr_items [simp]: "last_adr (items b xs) = last_adr xs"
  unfolding last_adr_def items_def rev_map by (metis hd_adr_items items_def)

lemma node_not_RE [simp]: "node s a k b d x y \<noteq> RE"
  by (simp add: node_def)

lemma ino_Nil [simp]: "ino t = [] \<longleftrightarrow> t = RE"
  by (cases t) auto

section \<open>Navigation\<close>

lemma type_most_left:
  "rrep (rnodes r) par p t \<Longrightarrow> t \<noteq> RE \<Longrightarrow> ravl_node_type_most r p RAVL_LEFT = Some (hd_adr (ino t))"
proof (induction t arbitrary: par p)
  case (RN a k b d l rt)
  then obtain n where n: "p = a" "rnodes r a = Some n" "rrep (rnodes r) a (slots n RAVL_LEFT) l" by auto
  with rrep_NULL [OF n(3)] RN.IH(1) [OF n(3)] show ?case
    by (subst ravl_node_type_most.simps) (auto simp: hd_adr_append)
qed simp

lemma type_most_right:
  "rrep (rnodes r) par p t \<Longrightarrow> t \<noteq> RE \<Longrightarrow> ravl_node_type_most r p RAVL_RIGHT = Some (last_adr (ino t))"
proof (induction t arbitrary: par p)
  case (RN a k b d l rt)
  then obtain n where n: "p = a" "rnodes r a = Some n" "rrep (rnodes r) a (slots n RAVL_RIGHT) rt" by auto
  with rrep_NULL [OF n(3)] RN.IH(2) [OF n(3)] show ?case
    by (subst ravl_node_type_most.simps) (auto simp: last_adr_append last_adr_Cons)
qed simp

lemma other_slot:
  assumes "rst r (Fr s p k b d u # C) t X" and "t \<noteq> RE" and "rnodes r p = Some n"
  shows "slots n (sl s) = adr t" and "slots n (sl (\<not> s)) \<noteq> adr t"
proof -
  from rst_parent [OF assms(1)] assms(3) have n: "rrep (rnodes r) p (slots n (sl s)) t" "rrep (rnodes r) p (slots n (sl (\<not> s))) u"
    by auto
  from n(1) assms(2) show "slots n (sl s) = adr t" by (cases t) auto
  have "adr t \<in> addrs t" "adr t \<noteq> NULL" using assms(2) n(1) by (cases t; auto)+
  then show "slots n (sl (\<not> s)) \<noteq> adr t"
    using rrep_root_in [OF n(2)] rst_parts(2) [OF assms(1)] by auto
qed

lemma cessor_up_rst:
  assumes "rst r C t X" and "t \<noteq> RE"
  shows "cessor_up r (adr t) RAVL_RIGHT = Some (hd_adr (cr C))" and "cessor_up r (adr t) RAVL_LEFT = Some (last_adr (cl C))"
proof -
  have "cessor_up r (adr t) (sl s) = Some (if s then last_adr (cl C) else hd_adr (cr C))" for s
    using assms
  proof (induction C arbitrary: t)
    case Nil
    then obtain a k b d x y where t: "t = node True a k b d x y" by (metis node_exhaust)
    with rst_focus [of r "[]" True a k b d x y X] Nil show ?case by (subst cessor_up.simps) auto
  next
    case (Cons F C)
    obtain s' p k b d u where F: "F = Fr s' p k b d u" by (cases F)
    obtain a ka ba da x y where t: "t = node True a ka ba da x y" using Cons.prems(2) by (metis node_exhaust)
    note st = Cons.prems(1) [unfolded F]
    from rst_focus [OF st [unfolded t]] obtain m where m: "rnodes r a = Some m" "parent m = p" by auto
    from rst_parent [OF st] obtain n where n: "rnodes r p = Some n" "p \<noteq> NULL" by auto
    note os = other_slot [OF st Cons.prems(2) n(1)]
    show ?case
    proof (cases "s = s'")
      case True
      have "rst r C (node s' p k b d t u) X" using st by (simp add: rst_def)
      with Cons.IH [of "node s' p k b d t u"] have "cessor_up r p (sl s) = Some (if s then last_adr (cl C) else hd_adr (cr C))"
        by simp
      with m n os(1) True show ?thesis by (subst cessor_up.simps) (auto simp: t F)
    next
      case False
      then have "s' = (\<not> s)" by simp
      with m n os(2) show ?thesis by (subst cessor_up.simps) (auto simp: t F last_adr_append)
    qed
  qed
  from this [of False] this [of True] show "cessor_up r (adr t) RAVL_RIGHT = Some (hd_adr (cr C))"
    "cessor_up r (adr t) RAVL_LEFT = Some (last_adr (cl C))" by simp_all
qed

lemma successor_rst:
  assumes st: "rst r C (RN a k b d l rt) X"
  shows "ravl_node_successor r a = Some (hd_adr (ino rt @ cr C))"
    and "ravl_node_predecessor r a = Some (last_adr (cl C @ ino l))"
proof -
  from rst_parts(1) [OF st] obtain n where n: "rnodes r a = Some n" "rrep (rnodes r) a (slots n RAVL_LEFT) l"
    "rrep (rnodes r) a (slots n RAVL_RIGHT) rt" by auto
  note up = cessor_up_rst [OF st]
  have o: "ravl_slot_opposite RAVL_RIGHT = Some RAVL_LEFT" "ravl_slot_opposite RAVL_LEFT = Some RAVL_RIGHT"
    by (simp_all add: ravl_slot_opposite_def)
  show "ravl_node_successor r a = Some (hd_adr (ino rt @ cr C))"
    using n rrep_NULL [OF n(3)] type_most_left [OF n(3)] up(1) o
    by (auto simp: ravl_node_successor_def ravl_node_cessor_def hd_adr_append)
  show "ravl_node_predecessor r a = Some (last_adr (cl C @ ino l))"
    using n rrep_NULL [OF n(2)] type_most_right [OF n(2)] up(2) o
    by (auto simp: ravl_node_predecessor_def ravl_node_cessor_def last_adr_append)
qed

lemma first_last_rst:
  assumes "rst r [] t X"
  shows "ravl_first r = Some (hd_adr (ino t))" and "ravl_last r = Some (last_adr (ino t))"
proof -
  have rep: "rrep (rnodes r) NULL (ravl_root r) t" using assms by (simp add: rst_def)
  show "ravl_first r = Some (hd_adr (ino t))"
    using rrep_NULL [OF rep] type_most_left [OF rep] by (auto simp: ravl_first_def)
  show "ravl_last r = Some (last_adr (ino t))"
    using rrep_NULL [OF rep] type_most_right [OF rep] by (auto simp: ravl_last_def)
qed

section \<open>Search\<close>

text \<open>The node \<open>ravl_find\<close> has to return, from the in-order sequence.\<close>

definition find_item :: "('d \<Rightarrow> 'd \<Rightarrow> int) \<Rightarrow> 'd \<Rightarrow> ravl_predicate \<Rightarrow> (ptr \<times> 'd) list \<Rightarrow> ptr" where
  "find_item cmp d flags xs =
     (let eq = filter (\<lambda>x. cmp d (snd x) = 0) xs in
      if flag_equal flags \<and> eq \<noteq> [] then hd_adr eq
      else if flag_greater flags then hd_adr (filter (\<lambda>x. cmp d (snd x) < 0) xs)
      else if flag_less flags then last_adr (filter (\<lambda>x. cmp d (snd x) > 0) xs)
      else NULL)"

text \<open>The node in hand when the search stands at a place with \<open>L\<close> to its left and \<open>R\<close> to its right.\<close>

definition in_hand :: "ravl_predicate \<Rightarrow> (ptr \<times> 'a) list \<Rightarrow> (ptr \<times> 'a) list \<Rightarrow> ptr" where
  "in_hand flags L R = (if flag_greater flags then hd_adr R else if flag_less flags then last_adr L else NULL)"

lemma find_item_split:
  assumes "\<forall>x \<in> set L. 0 < cmp d (snd x)" and "\<forall>x \<in> set R. cmp d (snd x) < 0"
  shows "find_item cmp d flags (L @ R) = in_hand flags L R"
proof -
  have e: "filter (\<lambda>x. cmp d (snd x) = 0) (L @ R) = []" using assms by (force simp: filter_empty_conv)
  have l: "filter (\<lambda>x. cmp d (snd x) > 0) (L @ R) = L" "filter (\<lambda>x. cmp d (snd x) < 0) (L @ R) = R"
    using assms by (fastforce simp: filter_id_conv filter_empty_conv)+
  show ?thesis unfolding find_item_def Let_def e l by (simp add: in_hand_def)
qed

lemma find_item_mid:
  assumes "\<forall>x \<in> set L. 0 < cmp d (snd x)" and "\<forall>x \<in> set R. cmp d (snd x) < 0" and "cmp d y = 0"
  shows "find_item cmp d flags (L @ (a, y) # R) = (if flag_equal flags then a else in_hand flags L R)"
proof -
  have "filter (\<lambda>x. cmp d (snd x) = 0) L = []" "filter (\<lambda>x. cmp d (snd x) = 0) R = []"
    using assms(1,2) by (force simp: filter_empty_conv)+
  then have e: "filter (\<lambda>x. cmp d (snd x) = 0) (L @ (a, y) # R) = [(a, y)]" using assms(3) by simp
  have l: "filter (\<lambda>x. cmp d (snd x) > 0) (L @ (a, y) # R) = L" "filter (\<lambda>x. cmp d (snd x) < 0) (L @ (a, y) # R) = R"
    using assms by (fastforce simp: filter_id_conv filter_empty_conv)+
  show ?thesis unfolding find_item_def Let_def e l by (simp add: in_hand_def)
qed

lemma rst_data:
  assumes st: "rst r C (RN a k b (pay b d) l rt) X"
  shows "ravl_data r a = Some d"
  using rst_parts(1) [OF st] by (auto simp: ravl_data_def)

text \<open>A sequence sorted by the comparison, and the part of it before and after an element.\<close>

abbreviation rsorted :: "('d \<Rightarrow> 'd \<Rightarrow> int) \<Rightarrow> (ptr \<times> 'd) list \<Rightarrow> bool" where
  "rsorted cmp xs \<equiv> sorted_wrt (\<lambda>x y. cmp (snd x) (snd y) < 0) xs"

lemma sorted_around:
  assumes "comparison cmp" and "rsorted cmp (ys @ (a, e) # zs)"
  shows "cmp d e \<ge> 0 \<Longrightarrow> x \<in> set ys \<Longrightarrow> 0 < cmp d (snd x)"
    and "cmp d e \<le> 0 \<Longrightarrow> x \<in> set zs \<Longrightarrow> cmp d (snd x) < 0"
proof -
  show "0 < cmp d (snd x)" if "cmp d e \<ge> 0" "x \<in> set ys"
  proof -
    have "cmp (snd x) e < 0" using assms(2) that(2) by (auto simp: sorted_wrt_append)
    moreover have "cmp e d \<le> 0" using comparison.flip [OF assms(1), of d e] that(1) by linarith
    ultimately have "cmp (snd x) d < 0" by (rule comparison.trans_less [OF assms(1)])
    then show ?thesis using comparison.flip [OF assms(1)] by blast
  qed
  show "cmp d (snd x) < 0" if "cmp d e \<le> 0" "x \<in> set zs"
  proof -
    have "cmp e (snd x) < 0" using assms(2) that(2) by (auto simp: sorted_wrt_append)
    with that(1) show ?thesis by (rule comparison.trans_less' [OF assms(1)])
  qed
qed

lemma find_walk_rst:
  assumes cmp: "comparison (compare r)" and "rst r C t X" and "p = adr t"
    and "cl C = items b L" and "ino t = items b xs" and "cr C = items b R"
    and "rsorted (compare r) xs"
    and "\<forall>x \<in> set L. 0 < compare r d (snd x)" and "\<forall>x \<in> set R. compare r d (snd x) < 0"
  shows "find_walk r d flags (in_hand flags L R) p = Some (find_item (compare r) d flags (L @ xs @ R))"
  using assms(2-)
proof (induction t arbitrary: C p L xs R)
  case RE
  then show ?case using find_item_split [of L "compare r" d R flags] by (subst find_walk.simps) simp
next
  case (RN a k b' pd l rt)
  from RN.prems(4) obtain ys e zs where xs: "xs = ys @ (a, e) # zs" "ino l = items b ys" "b' = b" "pd = pay b e" "ino rt = items b zs"
    unfolding ino.simps by (rule items_mid)
  note st = RN.prems(1) [unfolded xs]
  have a: "a \<noteq> NULL" using rst_parts(7) [OF st] by auto
  from rst_parts(1) [OF st] obtain n where n: "rnodes r a = Some n"
    "rrep (rnodes r) a (slots n RAVL_LEFT) l" "rrep (rnodes r) a (slots n RAVL_RIGHT) rt" by auto
  then have ch: "slots n RAVL_LEFT = adr l" "slots n RAVL_RIGHT = adr rt" by (cases l; cases rt; auto)+
  have data: "ravl_data r a = Some e" by (rule rst_data [OF st])
  have stl: "rst r (Fr True a k b (pay b e) rt # C) l X" and str: "rst r (Fr False a k b (pay b e) l # C) rt X"
    using st by (simp_all add: rst_def node_def)
  note around = sorted_around [OF cmp RN.prems(6) [unfolded xs], of d]
  have so: "rsorted (compare r) ys" "rsorted (compare r) zs" using RN.prems(6) by (auto simp: xs sorted_wrt_append)
  consider "compare r d e = 0" | "compare r d e < 0" | "compare r d e > 0" by linarith
  then show ?case
  proof cases
    case 1
    have L: "\<forall>x \<in> set (L @ ys). 0 < compare r d (snd x)" and R: "\<forall>x \<in> set (zs @ R). compare r d (snd x) < 0"
      using RN.prems(7,8) around 1 by auto
    have "ravl_predicate_holds r 0 (in_hand flags L R) a flags =
        Some (if flag_equal flags then a else in_hand flags (L @ ys) (zs @ R), True)"
      using successor_rst [OF st] xs RN.prems(3,5) items_simps(3) [of b zs R, symmetric] items_simps(3) [of b L ys, symmetric]
      by (cases flags) (auto simp: ravl_predicate_holds_def in_hand_def simp del: items_simps(3))
    with 1 a data find_item_mid [where cmp = "compare r" and d = d and y = e and flags = flags and a = a, OF L R 1] show ?thesis
      by (subst find_walk.simps) (simp add: xs RN.prems(2))
  next
    case 2
    have "find_walk r d flags (in_hand flags L ((a, e) # zs @ R)) (adr l) = Some (find_item (compare r) d flags (L @ ys @ (a, e) # zs @ R))"
      by (rule RN.IH(1) [OF stl]) (use 2 xs RN.prems around so in auto)
    moreover have "ravl_predicate_holds r (compare r d e) (in_hand flags L R) a flags = Some (in_hand flags L ((a, e) # zs @ R), False)"
      using 2 by (cases flags) (auto simp: ravl_predicate_holds_def in_hand_def)
    ultimately show ?thesis using 2 a data n ch by (subst find_walk.simps) (simp add: xs RN.prems(2))
  next
    case 3
    have "find_walk r d flags (in_hand flags (L @ ys @ [(a, e)]) R) (adr rt) = Some (find_item (compare r) d flags ((L @ ys @ [(a, e)]) @ zs @ R))"
      by (rule RN.IH(2) [OF str]) (use 3 xs RN.prems around so in auto)
    moreover have "ravl_predicate_holds r (compare r d e) (in_hand flags L R) a flags = Some (in_hand flags (L @ ys @ [(a, e)]) R, False)"
      using 3 by (cases flags) (auto simp: ravl_predicate_holds_def in_hand_def last_adr_append)
    ultimately show ?thesis using 3 a data n ch by (subst find_walk.simps) (simp add: xs RN.prems(2))
  qed
qed

lemma ravl_find_rst:
  assumes "comparison (compare r)" and "rst r [] t X" and "ino t = items b xs" and "rsorted (compare r) xs"
  shows "ravl_find r d flags = Some (find_item (compare r) d flags xs)"
proof -
  have "ravl_root r = adr t" using assms(2) by (cases t) (auto simp: rst_def)
  with find_walk_rst [OF assms(1,2), of "ravl_root r" b "[]" xs "[]" d flags] assms(3,4) show ?thesis
    by (simp add: ravl_find_def in_hand_def split: if_splits)
qed

end
