(* ===== verification/Ravl_Correct.thy ===== *)
theory Ravl_Correct
  imports Ravl_Search
begin

text \<open>
  Insertion, removal and traversal of the ravl tree, and its properties: a tree is a sorted
  sequence of data (\<open>ravl_holds\<close>), and each operation is specified on that sequence.
\<close>

section \<open>The sequence a tree holds\<close>

text \<open>\<open>ravl_holds r b xs\<close>: the tree represents the sequence \<open>xs\<close> of nodes and data, sorted by its
  comparison, satisfies the rank rule, and owns no other node; \<open>b\<close> tells whether its nodes
  hold pointers.\<close>

definition ravl_holds :: "'d ravl \<Rightarrow> bool \<Rightarrow> (ptr \<times> 'd) list \<Rightarrow> bool" where
  "ravl_holds r b xs \<longleftrightarrow> (\<exists>t. rst r [] t {} \<and> rok t \<and> ino t = items b xs \<and> rsorted (compare r) xs)"

text \<open>Its place in the order, for a new element.\<close>

definition ins_at :: "('d \<Rightarrow> 'd \<Rightarrow> int) \<Rightarrow> ptr \<Rightarrow> 'd \<Rightarrow> (ptr \<times> 'd) list \<Rightarrow> (ptr \<times> 'd) list" where
  "ins_at cmp n d xs = filter (\<lambda>x. 0 < cmp d (snd x)) xs @ (n, d) # filter (\<lambda>x. cmp d (snd x) < 0) xs"

section \<open>Insertion\<close>

lemma emplace_walk_rst:
  assumes cmp: "comparison (compare r)" and "rst r C t X" and n: "ravl_data r n = Some d"
    and "cl C = items b L" and "ino t = items b xs" and "cr C = items b R" and "rsorted (compare r) xs"
    and "\<forall>x \<in> set L. 0 < compare r d (snd x)" and "\<forall>x \<in> set R. compare r d (snd x) < 0"
  shows "if \<exists>x \<in> set xs. compare r d (snd x) = 0
     then emplace_walk r n (ref_of C) (par_of C) = Some None
     else (\<exists>D L' R'. emplace_walk r n (ref_of C) (par_of C) = Some (Some (ref_of D, par_of D)) \<and> rst r D RE X \<and>
        plug D RE = plug C t \<and> cl D = items b L' \<and> cr D = items b R' \<and> L' @ R' = L @ xs @ R \<and>
        (\<forall>x \<in> set L'. 0 < compare r d (snd x)) \<and> (\<forall>x \<in> set R'. compare r d (snd x) < 0))"
  using assms(2,4-)
proof (induction t arbitrary: C L xs R)
  case RE
  from rst_parts(1) [OF RE.prems(1)] have "get_ref r (ref_of C) = Some NULL"
    by (cases C rule: caddrs.cases) auto
  then have "emplace_walk r n (ref_of C) (par_of C) = Some (Some (ref_of C, par_of C))"
    by (subst emplace_walk.simps) simp
  with RE.prems show ?case by auto
next
  case (RN a k b' pd l rt)
  from RN.prems(3) obtain ys e zs where xs: "xs = ys @ (a, e) # zs" "ino l = items b ys" "b' = b" "pd = pay b e" "ino rt = items b zs"
    unfolding ino.simps by (rule items_mid)
  note st = RN.prems(1) [unfolded xs]
  have a: "a \<noteq> NULL" using rst_parts(7) [OF st] by auto
  from rst_parts(1) [OF st] have gr: "get_ref r (ref_of C) = Some a"
    by (cases C rule: caddrs.cases) auto
  have data: "ravl_data r a = Some e" by (rule rst_data [OF st])
  have stl: "rst r (Fr True a k b (pay b e) rt # C) l X" and str: "rst r (Fr False a k b (pay b e) l # C) rt X"
    using st by (simp_all add: rst_def node_def)
  note around = sorted_around [OF cmp RN.prems(5) [unfolded xs], of d]
  have so: "rsorted (compare r) ys" "rsorted (compare r) zs" using RN.prems(5) by (auto simp: xs sorted_wrt_append)
  consider "compare r d e = 0" | "compare r d e < 0" | "compare r d e > 0" by linarith
  then show ?case
  proof cases
    case 1
    then show ?thesis using gr a n data by (subst emplace_walk.simps) (simp add: xs)
  next
    case 2
    have "\<forall>x \<in> set zs. compare r d (snd x) \<noteq> 0" using around(2) 2 by force
    then have ex: "(\<exists>x \<in> set xs. compare r d (snd x) = 0) \<longleftrightarrow> (\<exists>x \<in> set ys. compare r d (snd x) = 0)"
      using 2 by (auto simp: xs)
    have w: "emplace_walk r n (ref_of C) (par_of C) = emplace_walk r n (SlotRef a RAVL_LEFT) a"
      using 2 gr a n data by (subst emplace_walk.simps) simp
    have R: "\<forall>x \<in> set ((a, e) # zs @ R). compare r d (snd x) < 0" using 2 around(2) RN.prems(7) by auto
    have "cr (Fr True a k b (pay b e) rt # C) = items b ((a, e) # zs @ R)" using xs RN.prems(4) by simp
    from RN.IH(1) [OF stl _ xs(2) this so(1) RN.prems(6) R] RN.prems(2) show ?thesis
      unfolding ex w by (cases "\<exists>x \<in> set ys. compare r d (snd x) = 0") (simp_all add: xs node_def)
  next
    case 3
    have "\<forall>x \<in> set ys. compare r d (snd x) \<noteq> 0" using around(1) 3 by force
    then have ex: "(\<exists>x \<in> set xs. compare r d (snd x) = 0) \<longleftrightarrow> (\<exists>x \<in> set zs. compare r d (snd x) = 0)"
      using 3 by (auto simp: xs)
    have w: "emplace_walk r n (ref_of C) (par_of C) = emplace_walk r n (SlotRef a RAVL_RIGHT) a"
      using 3 gr a n data by (subst emplace_walk.simps) simp
    have L: "\<forall>x \<in> set (L @ ys @ [(a, e)]). 0 < compare r d (snd x)" using 3 around(1) RN.prems(6) by auto
    have "cl (Fr False a k b (pay b e) l # C) = items b (L @ ys @ [(a, e)])" using xs RN.prems(2) by simp
    from RN.IH(2) [OF str this xs(5) _ so(2) L RN.prems(7)] RN.prems(4) show ?thesis
      unfolding ex w by (cases "\<exists>x \<in> set zs. compare r d (snd x) = 0") (simp_all add: xs node_def)
  qed
qed

text \<open>Hanging a new node into an empty slot.\<close>

lemma attach_rst:
  assumes st: "rst r C RE (insert n X)" and n: "rnodes r n = Some nd" "n \<noteq> NULL" "n \<notin> X"
    and nd: "slots nd RAVL_LEFT = NULL" "slots nd RAVL_RIGHT = NULL" "rank nd = 0" "pointer_based nd = b" "ndata nd = pd"
  shows "\<exists>r1 r2. upd_node r n (\<lambda>x. x\<lparr>parent := par_of C\<rparr>) = Some r1 \<and> set_ref r1 (ref_of C) n = Some r2 \<and>
    rst r2 C (RN n 0 b pd RE RE) X \<and> same_tree_params r r2"
proof -
  define r1 where "r1 = r\<lparr>rnodes := (rnodes r)(n \<mapsto> nd\<lparr>parent := par_of C\<rparr>)\<rparr>"
  have up: "upd_node r n (\<lambda>x. x\<lparr>parent := par_of C\<rparr>) = Some r1" using n by (simp add: upd_node_def r1_def)
  note p = rst_parts [OF st]
  have nC: "n \<notin> caddrs C" using p(5) by auto
  from p(1) obtain q where "rctx (rnodes r) (ravl_root r) C q" by blast
  then have "rctx (rnodes r1) (ravl_root r1) C q"
    unfolding r1_def using nC by (auto intro!: rctx_frame [of "rnodes r"])
  from set_ref_ctx [OF this p(4), of n] obtain r2 where r2: "set_ref r1 (ref_of C) n = Some r2"
    "rctx (rnodes r2) (ravl_root r2) C n" "\<And>b. b \<notin> caddrs C \<Longrightarrow> rnodes r2 b = rnodes r1 b" "dom (rnodes r2) = dom (rnodes r1)"
    "compare r2 = compare r1" "data_size r2 = data_size r1" by blast
  have "rnodes r2 n = Some (nd\<lparr>parent := par_of C\<rparr>)" using r2(3) [OF nC] by (simp add: r1_def)
  then have "rrep (rnodes r2) (par_of C) n (RN n 0 b pd RE RE)" using nd n(2) by simp
  moreover have "dom (rnodes r2) = caddrs C \<union> addrs (RN n 0 b pd RE RE) \<union> X"
    using r2(4) p(6) n(1) by (auto simp: r1_def)
  ultimately have "rst r2 C (RN n 0 b pd RE RE) X"
    using r2(2) p(4,5) nC n(3) by (intro rstI) auto
  with up r2 show ?thesis by (auto simp: same_tree_params_def r1_def)
qed

lemma rst_fresh:
  assumes "rst r C t X" and "rnodes r n = None"
  shows "rst (r\<lparr>rnodes := (rnodes r)(n \<mapsto> nd)\<rparr>) C t (insert n X)"
proof -
  have "n \<notin> addrs (plug C t)" using assms rrep_dom [of "rnodes r" NULL "ravl_root r" "plug C t"] by (auto simp: rst_def)
  with assms show ?thesis by (auto simp: rst_def intro!: rrep_frame [of "rnodes r"])
qed

fun constr_for :: "bool \<Rightarrow> 'd ravl_constr" where
  "constr_for True = ravl_node_insert_constructor"
| "constr_for False = ravl_node_copy_constructor"

lemma ravl_emplace_holds:
  assumes cmp: "comparison (compare r)" and h: "ravl_holds r b xs"
    and fresh: "rnodes r mem = None" and mem: "mem \<noteq> NULL"
  shows "if \<exists>x \<in> set xs. compare r d (snd x) = 0 then ravl_emplace r (constr_for b) d mem = Some (EEXIST, r)
     else (\<exists>r'. ravl_emplace r (constr_for b) d mem = Some (OK, r') \<and> same_tree_params r r' \<and>
       ravl_holds r' b (ins_at (compare r) mem d xs))"
proof -
  from h obtain t where t: "rst r [] t {}" "rok t" "ino t = items b xs" "rsorted (compare r) xs"
    by (auto simp: ravl_holds_def)
  define nd where "nd = \<lparr>parent = NULL, slots = (\<lambda>_. NULL), rank = 0, pointer_based = b, ndata = pay b d\<rparr>"
  define r1 where "r1 = r\<lparr>rnodes := (rnodes r)(mem \<mapsto> nd)\<rparr>"
  have new: "ravl_new_node r (constr_for b) d mem = (mem, r1)"
    using mem by (cases b) (simp_all add: ravl_new_node_def r1_def nd_def pay_def)
  have st: "rst r1 [] t {mem}" unfolding r1_def by (rule rst_fresh [OF t(1) fresh])
  have par: "compare r1 = compare r" "same_tree_params r r1" by (simp_all add: r1_def same_tree_params_def)
  have dat: "ravl_data r1 mem = Some d" by (simp add: ravl_data_def r1_def nd_def)
  note w = emplace_walk_rst [OF cmp [folded par(1)] st dat _ t(3), of "[]" "[]", unfolded par(1)]
  show ?thesis
  proof (cases "\<exists>x \<in> set xs. compare r d (snd x) = 0")
    case True
    with w t(4) have "emplace_walk r1 mem RootRef NULL = Some None" by simp
    moreover have "free_ravl_node r1 mem = Some r" using fresh by (simp add: free_ravl_node_def r1_def fun_upd_idem)
    ultimately show ?thesis using True mem by (simp add: ravl_emplace_def new)
  next
    case False
    with w t(4) obtain D L' R' where
      D: "emplace_walk r1 mem RootRef NULL = Some (Some (ref_of D, par_of D))" "rst r1 D RE {mem}"
        "plug D RE = t" "cl D = items b L'" "cr D = items b R'" "L' @ R' = xs"
        "\<forall>x \<in> set L'. 0 < compare r d (snd x)" "\<forall>x \<in> set R'. compare r d (snd x) < 0" by auto
    from attach_rst [OF D(2), of nd b "pay b d"] mem obtain r2 r3 where
      r3: "upd_node r1 mem (\<lambda>x. x\<lparr>parent := par_of D\<rparr>) = Some r2" "set_ref r2 (ref_of D) mem = Some r3"
        "rst r3 D (RN mem 0 b (pay b d) RE RE) {}" "same_tree_params r1 r3"
      by (auto simp: r1_def nd_def)
    have "cok D (- 1)" using t(2) D(3) rok_plug [of D RE] by simp
    then have "wok D 0" using cok_wok by force
    from ravl_balance_rst [OF r3(3)] this obtain r4 t4 where
      r4: "ravl_balance r3 mem = Some r4" "rst r4 [] t4 {}" "rok t4" "same_tree_params r3 r4"
        "ino t4 = ino (plug D (RN mem 0 b (pay b d) RE RE))" by auto
    have f: "filter (\<lambda>x. 0 < compare r d (snd x)) xs = L'" "filter (\<lambda>x. compare r d (snd x) < 0) xs = R'"
      using D(7,8) by (fastforce simp: D(6) [symmetric] filter_id_conv filter_empty_conv)+
    have "ino t4 = items b (ins_at (compare r) mem d xs)"
      using r4(5) D(4,5) by (simp add: ino_plug ins_at_def f)
    moreover have "rsorted (compare r) (ins_at (compare r) mem d xs)"
    proof -
      have "ins_at (compare r) mem d xs = L' @ (mem, d) # R'" by (simp add: ins_at_def f)
      moreover have "\<forall>x \<in> set L'. compare r (snd x) d < 0" using D(7) comparison.flip [OF cmp] by blast
      moreover have "rsorted (compare r) (L' @ R')" using t(4) D(6) by simp
      ultimately show ?thesis using D(8) by (simp add: sorted_wrt_append)
    qed
    moreover have "same_tree_params r r4" using par(2) r3(4) r4(4) by (simp add: same_tree_params_def)
    ultimately have "ravl_holds r4 b (ins_at (compare r) mem d xs)"
      using r4(2,3) by (auto simp: ravl_holds_def same_tree_params_def)
    moreover have "ravl_emplace r (constr_for b) d mem = Some (OK, r4)"
      using D(1) r3(1,2) r4(1) mem by (simp add: ravl_emplace_def new)
    ultimately show ?thesis using False \<open>same_tree_params r r4\<close> by auto
  qed
qed

section \<open>Removal\<close>

text \<open>Every node of a tree is at the focus of some context.\<close>

lemma focus_at: "a \<in> addrs t \<Longrightarrow> \<exists>C k b d l rt. t = plug C (RN a k b d l rt)"
proof (induction t)
  case (RN a' k b d l rt)
  then consider "a = a'" | "a \<in> addrs l" | "a \<in> addrs rt" by auto
  then show ?case
  proof cases
    case 1
    then show ?thesis by (intro exI [of _ "[]"]) auto
  next
    case 2
    with RN.IH(1) obtain C k1 b1 d1 l1 r1 where C: "l = plug C (RN a k1 b1 d1 l1 r1)" by blast
    have "plug (C @ [Fr True a' k b d rt]) x = RN a' k b d (plug C x) rt" for x
      by (induction C x rule: plug.induct) (auto simp: node_def)
    with C show ?thesis by metis
  next
    case 3
    with RN.IH(2) obtain C k1 b1 d1 l1 r1 where C: "rt = plug C (RN a k1 b1 d1 l1 r1)" by blast
    have "plug (C @ [Fr False a' k b d l]) x = RN a' k b d l (plug C x)" for x
      by (induction C x rule: plug.induct) (auto simp: node_def)
    with C show ?thesis by metis
  qed
qed simp

lemma cok_mono: "cok C k \<Longrightarrow> x \<le> k \<Longrightarrow> cok C x"
  by (cases C rule: caddrs.cases) auto

text \<open>Unlinking a node with at most one child.\<close>

lemma remove_leaf_rst:
  assumes st: "rst r C (RN n k b d l rt) {}" and one: "l = RE \<or> rt = RE"
  defines "x \<equiv> if l = RE then rt else l"
  shows "\<exists>r'. ravl_remove r n = Some r' \<and> rst r' C x {} \<and> same_tree_params r r' \<and> dom (rnodes r') = dom (rnodes r) - {n}"
proof -
  from rst_parts(1) [OF st] obtain nd where nd: "rnodes r n = Some nd" "n \<noteq> NULL" "parent nd = par_of C"
    "rrep (rnodes r) n (slots nd RAVL_LEFT) l" "rrep (rnodes r) n (slots nd RAVL_RIGHT) rt"
    "rctx (rnodes r) (ravl_root r) C n" by auto
  note p = rst_parts [OF st]
  define c where "c = (if slots nd RAVL_LEFT \<noteq> NULL then slots nd RAVL_LEFT else slots nd RAVL_RIGHT)"
  have nulls: "slots nd RAVL_LEFT = NULL \<longleftrightarrow> l = RE" "slots nd RAVL_RIGHT = NULL \<longleftrightarrow> rt = RE"
    using rrep_NULL nd(4,5) by blast+
  have xr: "rrep (rnodes r) n c x" using nd(4,5) nulls by (auto simp: x_def c_def)
  have sx: "tsep x" "n \<notin> addrs x" "caddrs C \<inter> addrs x = {}" "n \<notin> caddrs C"
    using p(2,3) by (auto simp: x_def)
  have "\<exists>r1. (if c \<noteq> NULL then upd_node r c (\<lambda>x. x\<lparr>parent := parent nd\<rparr>) else Some r) = Some r1 \<and>
      rrep (rnodes r1) (par_of C) c x \<and> (\<forall>b. b \<notin> addrs x \<longrightarrow> rnodes r1 b = rnodes r b) \<and>
      dom (rnodes r1) = dom (rnodes r) \<and> ravl_root r1 = ravl_root r \<and> same_tree_params r r1"
  proof (cases "c = NULL")
    case True
    with xr have "x = RE" using rrep_NULL by blast
    with True show ?thesis by auto
  next
    case False
    from rrep_reparent [OF xr False sx(1), of "par_of C"] obtain m where
      m: "rnodes r c = Some m" "rrep ((rnodes r)(c \<mapsto> m\<lparr>parent := par_of C\<rparr>)) (par_of C) c x" by blast
    let ?r = "r\<lparr>rnodes := (rnodes r)(c \<mapsto> m\<lparr>parent := par_of C\<rparr>)\<rparr>"
    have "upd_node r c (\<lambda>x. x\<lparr>parent := parent nd\<rparr>) = Some ?r" unfolding upd_node_def m(1) nd(3) by simp
    moreover have "c \<in> addrs x" using rrep_root_in [OF xr False] .
    moreover have "dom (rnodes ?r) = dom (rnodes r)" using m(1) by (simp add: insert_absorb domI)
    ultimately show ?thesis using False m(2)
      by (intro exI [of _ ?r]) (auto simp: same_tree_params_def)
  qed
  then obtain r1 where r1: "(if c \<noteq> NULL then upd_node r c (\<lambda>x. x\<lparr>parent := parent nd\<rparr>) else Some r) = Some r1"
    "rrep (rnodes r1) (par_of C) c x" "\<And>b. b \<notin> addrs x \<Longrightarrow> rnodes r1 b = rnodes r b"
    "dom (rnodes r1) = dom (rnodes r)" "ravl_root r1 = ravl_root r" "same_tree_params r r1" by blast
  have n1: "rnodes r1 n = Some nd" using r1(3) sx(2) nd(1) by simp
  have ctx1: "rctx (rnodes r1) (ravl_root r1) C n"
    unfolding r1(5) by (rule rctx_frame [OF nd(6)], rule r1(3)) (use sx(3) in blast)
  have ref: "ravl_node_ref r1 n = Some (ref_of C)"
  proof (cases C rule: caddrs.cases)
    case 1
    then show ?thesis using n1 nd(3) by (simp add: ravl_node_ref_def ravl_node_slot_type_def)
  next
    case (2 s q k' b' d' u D)
    with ctx1 obtain m where m: "rnodes r1 q = Some m" "q \<noteq> NULL" "slots m (sl s) = n" "rrep (rnodes r1) q (slots m (sl (\<not> s))) u" by auto
    have "n \<notin> addrs u" using sx(4) 2 by auto
    then have "slots m (sl (\<not> s)) \<noteq> n" using rrep_root_in [OF m(4)] nd(2) by auto
    with 2 m n1 nd(3) show ?thesis
      by (cases s) (auto simp: ravl_node_ref_def ravl_node_slot_type_def)
  qed
  from set_ref_ctx [OF ctx1 p(4), of c] obtain r2 where r2: "set_ref r1 (ref_of C) c = Some r2"
    "rctx (rnodes r2) (ravl_root r2) C c" "\<And>b. b \<notin> caddrs C \<Longrightarrow> rnodes r2 b = rnodes r1 b" "dom (rnodes r2) = dom (rnodes r1)"
    "compare r2 = compare r1" "data_size r2 = data_size r1" by blast
  have n2: "rnodes r2 n = Some nd" using r2(3) sx(4) n1 by simp
  let ?r3 = "r2\<lparr>rnodes := (rnodes r2)(n := None)\<rparr>"
  have rem: "ravl_remove r n = Some ?r3"
  proof -
    have nb: "\<not> (slots nd RAVL_LEFT \<noteq> NULL \<and> slots nd RAVL_RIGHT \<noteq> NULL)" using one nulls by auto
    have fr: "free_ravl_node r2 n = Some ?r3" using n2 by (simp add: free_ravl_node_def)
    show ?thesis
      by (subst ravl_remove.simps)
        (simp only: nd(1) Option.bind.bind_lunit nb if_False Let_def c_def [symmetric] r1(1) ref r2(1) fr)
  qed
  have "rctx (rnodes ?r3) (ravl_root ?r3) C c"
    using r2(2) sx(4) by (auto intro!: rctx_frame [of "rnodes r2"])
  moreover have "rrep (rnodes ?r3) (par_of C) c x"
    by (rule rrep_frame [OF r1(2)]) (use r2(3) sx in auto)
  moreover have "dom (rnodes ?r3) = caddrs C \<union> addrs x \<union> {}"
    using r2(4) r1(4) p(2,3,6) one by (auto simp: x_def)
  ultimately have "rst ?r3 C x {}" using p(4) sx by (intro rstI) auto
  moreover have "dom (rnodes ?r3) = dom (rnodes r) - {n}" using r2(4) r1(4) by auto
  ultimately show ?thesis using rem r1(6) r2(5,6) by (auto simp: same_tree_params_def)
qed

text \<open>The left-most node of a subtree, at the focus.\<close>

lemma leftmost_focus:
  "t \<noteq> RE \<Longrightarrow> \<exists>D s k b d rs. t = plug D (RN s k b d RE rs) \<and> cl D = [] \<and> ino t = (s, b, d) # ino rs @ cr D"
proof (induction t)
  case (RN a k b d l rt)
  show ?case
  proof (cases "l = RE")
    case True
    then show ?thesis by (intro exI [of _ "[]"]) auto
  next
    case False
    with RN.IH(1) obtain D s k1 b1 d1 rs where D: "l = plug D (RN s k1 b1 d1 RE rs)" "cl D = []" "ino l = (s, b1, d1) # ino rs @ cr D" by blast
    have "plug (D @ [Fr True a k b d rt]) x = RN a k b d (plug D x) rt \<and> cl (D @ [Fr True a k b d rt]) = cl D \<and>
       cr (D @ [Fr True a k b d rt]) = cr D @ (a, b, d) # ino rt" for x
      by (induction D x rule: plug.induct) (auto simp: node_def)
    with D show ?thesis by (intro exI [of _ "D @ [Fr True a k b d rt]"]) (metis append.assoc append_Cons ino.simps(2))
  qed
qed simp

lemma plug_append: "plug (D @ C) t = plug C (plug D t)"
  by (induction D t rule: plug.induct) auto

lemma rk_plug_mono: "rk x \<le> rk y \<Longrightarrow> rk (plug D x) \<le> rk (plug D y)"
proof (induction D arbitrary: x y)
  case (Cons F D)
  show ?case by (cases F) (simp add: Cons.IH)
qed simp

lemma cl_append: "cl (D @ C) = cl C @ cl D" and cr_append: "cr (D @ C) = cr D @ cr C"
  by (induction D rule: cl.induct) auto

lemma remove_rst:
  assumes st: "rst r C (RN n k b d l rt) {}" and ok: "rok (plug C (RN n k b d l rt))"
  shows "\<exists>r' t'. ravl_remove r n = Some r' \<and> rst r' [] t' {} \<and> rok t' \<and> same_tree_params r r' \<and>
    (\<exists>s. dom (rnodes r') = dom (rnodes r) - {s} \<and> s \<in> dom (rnodes r)) \<and>
    (if l = RE \<or> rt = RE then ino t' = cl C @ ino l @ ino rt @ cr C
     else \<exists>s bs ds zs. ino rt = (s, bs, ds) # zs \<and> ino t' = cl C @ ino l @ (n, b, ds) # zs @ cr C)"
proof (cases "l = RE \<or> rt = RE")
  case True
  from remove_leaf_rst [OF st True] obtain r' where
    r': "ravl_remove r n = Some r'" "rst r' C (if l = RE then rt else l) {}" "same_tree_params r r'" "dom (rnodes r') = dom (rnodes r) - {n}"
    by blast
  have "n \<in> dom (rnodes r)" using rst_parts(6) [OF st] by auto
  moreover have "rok (plug C (if l = RE then rt else l))"
    using ok cok_mono [of C k] by (auto simp: rok_plug)
  ultimately show ?thesis using r' True
    by (intro exI [of _ r'] exI [of _ "plug C (if l = RE then rt else l)"])
      (auto simp: rst_plug_all [symmetric] ino_plug)
next
  case False
  then obtain D s ks bs ds rs where D: "rt = plug D (RN s ks bs ds RE rs)" "cl D = []" "ino rt = (s, bs, ds) # ino rs @ cr D"
    using leftmost_focus [of rt] by blast
  from rst_focus [of r C True n k b d l rt "{}"] st obtain nd where
    nd: "rnodes r n = Some nd" "rrep (rnodes r) n (slots nd RAVL_LEFT) l" "rrep (rnodes r) n (slots nd RAVL_RIGHT) rt" "rank nd = k" "pointer_based nd = b"
    by (auto simp: node_def)
  have both: "slots nd RAVL_LEFT \<noteq> NULL" "slots nd RAVL_RIGHT \<noteq> NULL" using False rrep_NULL nd(2,3) by blast+
  have suc: "ravl_node_successor r n = Some s" using successor_rst(1) [OF st] by (simp add: D(3))
  from rst_focus [of r "D @ [Fr False n k b d l] @ C" True s ks bs ds RE rs "{}"] st obtain sd where
    sd: "rnodes r s = Some sd" "ndata sd = ds" by (auto simp: rst_def plug_append D(1) node_def)
  let ?r1 = "r\<lparr>rnodes := (rnodes r)(n \<mapsto> nd\<lparr>ndata := ds\<rparr>)\<rparr>"
  have "rst ?r1 C (RN n k b ds l rt) {}"
    using set_node_rst [of r C True n k b d l rt "{}" nd "\<lambda>x. x\<lparr>ndata := ds\<rparr>" k b ds] st nd by (simp add: node_def)
  then have "rst ?r1 (D @ [Fr False n k b ds l] @ C) (RN s ks bs ds RE rs) {}"
    by (simp add: rst_def plug_append D(1) node_def)
  from remove_leaf_rst [OF this] obtain r' where
    r': "ravl_remove ?r1 s = Some r'" "rst r' (D @ [Fr False n k b ds l] @ C) rs {}" "same_tree_params ?r1 r'"
      "dom (rnodes r') = dom (rnodes ?r1) - {s}" by auto
  let ?t = "plug (D @ [Fr False n k b ds l] @ C) rs"
  have "ravl_remove r n = Some r'"
    using nd(1) both suc sd r'(1) by (subst ravl_remove.simps) (simp add: upd_node_def)
  moreover have "rok ?t"
  proof -
    have r: "rok (plug D (RN s ks bs ds RE rs))" "rk (plug D (RN s ks bs ds RE rs)) < k" "rk l < k" "rok l" "cok C k"
      using ok by (auto simp: rok_plug [of C] D(1))
    from r(1) have "rk rs < ks" "rok rs" "cok D ks" by (auto simp: rok_plug)
    then have "rok (plug D rs)" "rk (plug D rs) < k"
      using cok_mono [of D ks "rk rs"] rk_plug_mono [of rs "RN s ks bs ds RE rs" D] r(2) by (auto simp: rok_plug)
    with r show ?thesis by (simp add: plug_append rok_plug [of C] node_def)
  qed
  moreover have "dom (rnodes r') = dom (rnodes r) - {s}" using r'(4) nd(1) by auto
  moreover have "ino ?t = cl C @ ino l @ (n, b, ds) # (ino rs @ cr D) @ cr C"
    by (simp add: ino_plug cl_append cr_append D(2))
  moreover have "same_tree_params r r'" using r'(3) by (simp add: same_tree_params_def)
  ultimately show ?thesis using r'(2) False D(3) sd(1)
    by (intro exI [of _ r'] exI [of _ ?t]) (auto simp: rst_plug_all [symmetric])
qed

lemma ravl_remove_holds:
  assumes h: "ravl_holds r b (ys @ (n, d) # zs)"
  shows "\<exists>r' zs' s. ravl_remove r n = Some r' \<and> ravl_holds r' b (ys @ zs') \<and> map snd zs' = map snd zs \<and>
    same_tree_params r r' \<and> s \<in> dom (rnodes r) \<and> dom (rnodes r') = dom (rnodes r) - {s}"
proof -
  from h obtain t where t: "rst r [] t {}" "rok t" "ino t = items b (ys @ (n, d) # zs)" "rsorted (compare r) (ys @ (n, d) # zs)"
    by (auto simp: ravl_holds_def)
  have dist: "distinct (map fst (ys @ (n, d) # zs))"
  proof -
    have "distinct (map fst (ino t))" using t(1) tsep_distinct [of t] by (simp add: rst_def)
    then show ?thesis unfolding t(3) items_fst .
  qed
  have "n \<in> addrs t" using addrs_ino [of t] t(3) by auto
  then obtain C k b' pd l rt where C: "t = plug C (RN n k b' pd l rt)" using focus_at by blast
  have "(cl C @ ino l) @ (n, b', pd) # ino rt @ cr C = items b (ys @ (n, d) # zs)"
    using t(3) by (simp add: C ino_plug)
  then obtain us e vs where uv: "ys @ (n, d) # zs = us @ (n, e) # vs" "cl C @ ino l = items b us" "b' = b" "pd = pay b e"
    "ino rt @ cr C = items b vs" by (rule items_mid)
  with dist have ud: "us = ys" "e = d" "vs = zs"
    by (auto simp: append_eq_append_conv2 append_eq_Cons_conv Cons_eq_append_conv)
  from remove_rst [of r C n k b' pd l rt] t(1,2) obtain r' t' s where
    r': "ravl_remove r n = Some r'" "rst r' [] t' {}" "rok t'" "same_tree_params r r'"
      "dom (rnodes r') = dom (rnodes r) - {s}" "s \<in> dom (rnodes r)"
      "if l = RE \<or> rt = RE then ino t' = cl C @ ino l @ ino rt @ cr C
       else \<exists>s bs ds zs. ino rt = (s, bs, ds) # zs \<and> ino t' = cl C @ ino l @ (n, b', ds) # zs @ cr C"
    by (auto simp: C rst_def)
  have "\<exists>zs'. ino t' = items b (ys @ zs') \<and> map snd zs' = map snd zs"
  proof (cases "l = RE \<or> rt = RE")
    case True
    with r'(7) uv ud have "ino t' = items b (ys @ zs)" by (metis append.assoc items_simps(3))
    then show ?thesis by blast
  next
    case False
    with r'(7) obtain s bs ds ws where ws: "ino rt = (s, bs, ds) # ws" "ino t' = cl C @ ino l @ (n, b', ds) # ws @ cr C" by auto
    from uv(5) ws(1) ud(3) have "items b zs = (s, bs, ds) # ws @ cr C" by simp
    then obtain a g zs' where z: "zs = (a, g) # zs'" "(s, bs, ds) = (a, b, pay b g)" "ws @ cr C = items b zs'"
      unfolding items_Cons by blast
    have "ino t' = items b (ys @ (n, g) # zs')" 
    proof -
      have "ino t' = (cl C @ ino l) @ (n, b', ds) # (ws @ cr C)" using ws(2) by simp
      then show ?thesis unfolding uv(2,3) ud z(3) using z(2) by simp
    qed
    then show ?thesis using z(1) by (intro exI [of _ "(n, g) # zs'"]) simp
  qed
  then obtain zs' where z: "ino t' = items b (ys @ zs')" "map snd zs' = map snd zs" by blast
  define xs where "xs = ys @ zs'"
  have xs: "ino t' = items b xs" "map snd xs = map snd (ys @ zs)" using z by (simp_all add: xs_def)
  have "rsorted (compare r) (ys @ zs)" using t(4) by (simp add: sorted_wrt_append)
  then have "sorted_wrt (\<lambda>x y. compare r x y < 0) (map snd (ys @ zs))" unfolding sorted_wrt_map .
  then have "rsorted (compare r) xs" unfolding xs(2) [symmetric] sorted_wrt_map .
  then have "rsorted (compare r') xs" using r'(4) by (simp add: same_tree_params_def)
  with r' xs(1) z(2) show ?thesis unfolding ravl_holds_def xs_def by blast
qed

section \<open>Traversal\<close>

definition visit_all :: "('d payload \<Rightarrow> 's \<Rightarrow> 's) option \<Rightarrow> 'd item list \<Rightarrow> 's \<Rightarrow> 's" where
  "visit_all cb xs s = (case cb of None \<Rightarrow> s | Some f \<Rightarrow> fold (\<lambda>x. f (snd (snd x))) xs s)"

lemma visit_all_append: "visit_all cb (xs @ ys) s = visit_all cb ys (visit_all cb xs s)"
  by (cases cb) (simp_all add: visit_all_def)

lemma visit_all_Cons: "visit_all cb ((a, b, d) # ys) s = visit_all cb ys (case cb of None \<Rightarrow> s | Some f \<Rightarrow> f d s)"
  by (cases cb) (simp_all add: visit_all_def)

lemma visit_all_Nil [simp]: "visit_all cb [] s = s"
  by (cases cb) (simp_all add: visit_all_def)

lemma foreach_keep:
  "rrep (rnodes r) par p t \<Longrightarrow> ravl_foreach_node r p cb s False = Some (visit_all cb (ino t) s, r)"
proof (induction t arbitrary: par p s)
  case RE
  then show ?case by (subst ravl_foreach_node.simps) simp
next
  case (RN a k b d l rt)
  then obtain n where n: "p = a" "a \<noteq> NULL" "rnodes r a = Some n" "ndata n = d"
    "rrep (rnodes r) a (slots n RAVL_LEFT) l" "rrep (rnodes r) a (slots n RAVL_RIGHT) rt" by auto
  with RN.IH(1) [OF n(5)] RN.IH(2) [OF n(6)] show ?case
    by (subst ravl_foreach_node.simps) (cases cb; simp add: visit_all_append visit_all_Cons Let_def)
qed

lemma restrict_twice: "(m |` (- A)) |` (- B) = m |` (- (A \<union> B))"
  by (auto simp: restrict_map_def)

lemma foreach_free:
  "rrep (rnodes r) par p t \<Longrightarrow> tsep t \<Longrightarrow>
     ravl_foreach_node r p cb s True = Some (visit_all cb (ino t) s, r\<lparr>rnodes := rnodes r |` (- addrs t)\<rparr>)"
proof (induction t arbitrary: r par p s)
  case RE
  have "rnodes r |` UNIV = rnodes r" by (auto simp: restrict_map_def)
  with RE show ?case by (subst ravl_foreach_node.simps) simp
next
  case (RN a k b d l rt)
  then obtain n where n: "p = a" "a \<noteq> NULL" "rnodes r a = Some n" "ndata n = d"
    "rrep (rnodes r) a (slots n RAVL_LEFT) l" "rrep (rnodes r) a (slots n RAVL_RIGHT) rt" by auto
  have sp: "tsep l" "tsep rt" "a \<notin> addrs l" "a \<notin> addrs rt" "addrs l \<inter> addrs rt = {}" using RN.prems(2) by auto
  let ?r1 = "r\<lparr>rnodes := rnodes r |` (- addrs l)\<rparr>" and ?r2 = "r\<lparr>rnodes := rnodes r |` (- (addrs l \<union> addrs rt))\<rparr>"
  have n1: "rnodes ?r1 a = Some n" "rnodes ?r2 a = Some n" using n(3) sp by (simp_all add: restrict_map_def)
  have "rrep (rnodes ?r1) a (slots n RAVL_RIGHT) rt"
    by (rule rrep_frame [OF n(6)]) (use sp in \<open>auto simp: restrict_map_def\<close>)
  note two = RN.IH(2) [OF this sp(2)]
  have fr: "free_ravl_node ?r2 a = Some (r\<lparr>rnodes := rnodes r |` (- addrs (RN a k b d l rt))\<rparr>)"
    using n1(2) by (auto simp: free_ravl_node_def restrict_map_def fun_eq_iff intro!: arg_cong [of _ _ "\<lambda>N. r\<lparr>rnodes := N\<rparr>"])
  show ?case
    using n(1-4) RN.IH(1) [OF n(5) sp(1)] two n1(1) fr
    by (subst ravl_foreach_node.simps) (cases cb; simp add: visit_all_append visit_all_Cons Let_def restrict_twice)
qed

section \<open>Search, navigation and traversal on the sequence\<close>

lemma ravl_find_holds:
  assumes "comparison (compare r)" and "ravl_holds r b xs"
  shows "ravl_find r d flags = Some (find_item (compare r) d flags xs)"
  using assms(2) ravl_find_rst [OF assms(1)] by (auto simp: ravl_holds_def)

lemma ravl_navigation_holds:
  assumes "ravl_holds r b (ys @ (n, d) # zs)"
  shows "ravl_node_successor r n = Some (hd_adr zs) \<and> ravl_node_predecessor r n = Some (last_adr ys) \<and>
    ravl_first r = Some (hd_adr (ys @ [(n, d)])) \<and> ravl_last r = Some (last_adr ((n, d) # zs))"
proof -
  from assms obtain t where t: "rst r [] t {}" "ino t = items b (ys @ (n, d) # zs)" by (auto simp: ravl_holds_def)
  have "distinct (map fst (ino t))" using t(1) tsep_distinct by (auto simp: rst_def)
  then have dist: "distinct (map fst (ys @ (n, d) # zs))" unfolding t(2) items_fst .
  have "n \<in> addrs t" using addrs_ino [of t] t(2) by auto
  then obtain C k b' pd l rt where C: "t = plug C (RN n k b' pd l rt)" using focus_at by blast
  have "(cl C @ ino l) @ (n, b', pd) # ino rt @ cr C = items b (ys @ (n, d) # zs)" using t(2) by (simp add: C ino_plug)
  then obtain us e vs where uv: "ys @ (n, d) # zs = us @ (n, e) # vs" "cl C @ ino l = items b us" "ino rt @ cr C = items b vs"
    by (rule items_mid)
  with dist have ud: "us = ys" "vs = zs" by (auto simp: append_eq_append_conv2 append_eq_Cons_conv Cons_eq_append_conv)
  have "rst r C (RN n k b' pd l rt) {}" using t(1) by (simp add: C rst_def)
  from successor_rst [OF this] first_last_rst [OF t(1)] uv ud show ?thesis
    by (simp add: t(2) hd_adr_append last_adr_append del: items_simps(3) flip: items_simps(3) items_simps(2))
qed

lemma ravl_foreach_holds:
  assumes "ravl_holds r b xs"
  shows "ravl_foreach r (Some f) s = Some (fold (\<lambda>x. f (pay b (snd x))) xs s, r) \<and>
    (\<exists>r'. ravl_clear r = Some r' \<and> ravl_holds r' b [] \<and> rnodes r' = Map.empty \<and> ravl_empty r')"
proof -
  from assms obtain t where t: "rst r [] t {}" "ino t = items b xs" by (auto simp: ravl_holds_def)
  then have rep: "rrep (rnodes r) NULL (ravl_root r) t" "tsep t" "dom (rnodes r) = addrs t" by (auto simp: rst_def)
  have "visit_all (Some f) (ino t) s = fold (\<lambda>x. f (pay b (snd x))) xs s"
    unfolding t(2) by (induction xs arbitrary: s) (auto simp: visit_all_def items_def)
  moreover have "rnodes r |` (- addrs t) = Map.empty" using rep(3) by (auto simp: restrict_map_def fun_eq_iff domIff)
  ultimately show ?thesis
    using foreach_keep [OF rep(1), of "Some f" s] foreach_free [OF rep(1,2), of None "()"]
    by (auto simp: ravl_foreach_def ravl_clear_def ravl_empty_def ravl_holds_def rst_def intro!: exI [of _ RE])
qed

end
