(* ===== verification/Ravl_Properties.thy ===== *)
theory Ravl_Properties
  imports Ravl_Correct
begin

text \<open>
  The properties of the ravl tree, for the comparison of block keys that the coarse provider
  passes to it (\<open>coarse_ravl_comp\<close> of \<^verbatim>\<open>src/provider/provider_coarse.c\<close>) and for any other total
  preorder.
\<close>

section \<open>The keys of the coarse provider\<close>

record ravl_data_t =
  rkey :: u64
  rvalue :: ptr

definition coarse_ravl_comp :: "ravl_data_t \<Rightarrow> ravl_data_t \<Rightarrow> int" where
  "coarse_ravl_comp lhs rhs = (if rkey lhs < rkey rhs then - 1 else if rkey lhs > rkey rhs then 1 else 0)"

interpretation coarse_order: comparison coarse_ravl_comp
  by unfold_locales (auto simp: coarse_ravl_comp_def split: if_splits)

section \<open>Small trees\<close>

definition ravl_nil :: "ravl_data_t ravl" where
  "ravl_nil = the (ravl_new_sized 1 coarse_ravl_comp 16)"

definition ravl_put :: "ravl_data_t ravl \<Rightarrow> ravl_data_t \<Rightarrow> ptr \<Rightarrow> ravl_data_t ravl" where
  "ravl_put r d mem = snd (the (ravl_emplace_copy r d mem))"

definition ravl_two :: "ravl_data_t ravl" where
  "ravl_two = ravl_put (ravl_put ravl_nil \<lparr>rkey = 10, rvalue = 1\<rparr> 100) \<lparr>rkey = 20, rvalue = 2\<rparr> 200"

lemma ravl_new_holds:
  "mr \<noteq> NULL \<Longrightarrow> \<exists>r. ravl_new_sized mr cmp sz = Some r \<and> ravl_holds r b [] \<and> compare r = cmp"
  by (auto simp: ravl_new_sized_def ravl_holds_def rst_def intro!: exI [of _ RE])

lemma ravl_nil_holds: "ravl_holds ravl_nil False []" "compare ravl_nil = coarse_ravl_comp"
  using ravl_new_holds [of 1 coarse_ravl_comp 16 False] by (auto simp: ravl_nil_def)

lemma holds_dom: "ravl_holds r b xs \<Longrightarrow> dom (rnodes r) = fst ` set xs"
proof -
  assume "ravl_holds r b xs"
  then obtain t where t: "rst r [] t {}" "ino t = items b xs" by (auto simp: ravl_holds_def)
  then have "dom (rnodes r) = fst ` set (items b xs)" using addrs_ino [of t] by (simp add: rst_def)
  then show ?thesis by (metis items_fst list.set_map)
qed

lemma ravl_put_holds:
  assumes "ravl_holds r False xs" "compare r = coarse_ravl_comp" "mem \<noteq> NULL" "mem \<notin> fst ` set xs"
    "\<forall>x \<in> set xs. rkey (snd x) \<noteq> rkey d"
  shows "ravl_holds (ravl_put r d mem) False (ins_at coarse_ravl_comp mem d xs)" "compare (ravl_put r d mem) = coarse_ravl_comp"
proof -
  have f: "rnodes r mem = None" using assms(4) holds_dom [OF assms(1)] by auto
  have "\<not> (\<exists>x \<in> set xs. compare r d (snd x) = 0)" using assms(2,5) by (auto simp: coarse_ravl_comp_def split: if_splits)
  with ravl_emplace_holds [of r False xs mem d] assms(1-3) f coarse_order.comparison_axioms
  have "\<exists>r'. ravl_emplace_copy r d mem = Some (OK, r') \<and> same_tree_params r r' \<and> ravl_holds r' False (ins_at coarse_ravl_comp mem d xs)"
    by (simp add: ravl_emplace_copy_def)
  with assms(2) show "ravl_holds (ravl_put r d mem) False (ins_at coarse_ravl_comp mem d xs)" "compare (ravl_put r d mem) = coarse_ravl_comp"
    by (auto simp: ravl_put_def same_tree_params_def)
qed

abbreviation d10 :: ravl_data_t where "d10 \<equiv> \<lparr>rkey = 10, rvalue = 1\<rparr>"
abbreviation d20 :: ravl_data_t where "d20 \<equiv> \<lparr>rkey = 20, rvalue = 2\<rparr>"

lemma ravl_two_holds: "ravl_holds ravl_two False [(100, d10), (200, d20)]" "compare ravl_two = coarse_ravl_comp"
proof -
  have 1: "ravl_holds (ravl_put ravl_nil d10 100) False [(100, d10)]" "compare (ravl_put ravl_nil d10 100) = coarse_ravl_comp"
    using ravl_put_holds [OF ravl_nil_holds, of 100 d10] by (simp_all add: ins_at_def)
  from ravl_put_holds [OF this, of 200 d20] show "ravl_holds ravl_two False [(100, d10), (200, d20)]" "compare ravl_two = coarse_ravl_comp"
    by (simp_all add: ravl_two_def ins_at_def coarse_ravl_comp_def)
qed

section \<open>Properties\<close>

text \<open>C18: Insertion into the tree (\<open>ravl_emplace\<close> with either of the library's constructors) returns
  without a failed assertion. Without memory, or when a datum that compares equal is present
  (\<open>EEXIST\<close>), the tree is unchanged and the new node is freed; otherwise the new node is at its
  place of the sorted sequence, and the result is again sorted, satisfies the rank rule, has
  consistent parent pointers and owns exactly its nodes.\<close>

theorem ravl_emplace_inserts_sorted:
  assumes "comparison (compare r)" and "ravl_holds r b xs" and "mem \<noteq> NULL \<longrightarrow> rnodes r mem = None"
  shows "\<exists>e r'. ravl_emplace r (constr_for b) d mem = Some (e, r') \<and> compare r' = compare r \<and>
    (if mem = NULL then e = ENOMEM \<and> r' = r
     else if \<exists>x \<in> set xs. compare r d (snd x) = 0 then e = EEXIST \<and> r' = r
     else e = OK \<and> ravl_holds r' b (ins_at (compare r) mem d xs))"
proof (cases "mem = NULL")
  case True
  then show ?thesis by (simp add: ravl_emplace_def ravl_new_node_def)
next
  case False
  with assms(3) have f: "rnodes r mem = None" by simp
  from ravl_emplace_holds [OF assms(1,2) f False, of d] False show ?thesis
    by (cases "\<exists>x \<in> set xs. compare r d (snd x) = 0") (auto simp: same_tree_params_def)
qed

theorem ravl_emplace_inserts_sorted_witness:
  "\<exists>e r'. ravl_emplace ravl_two (constr_for False) \<lparr>rkey = 15, rvalue = 3\<rparr> 300 = Some (e, r') \<and>
     ravl_holds r' False [(100, d10), (300, \<lparr>rkey = 15, rvalue = 3\<rparr>), (200, d20)]"
proof -
  have "comparison (compare ravl_two)" using coarse_order.comparison_axioms by (simp add: ravl_two_holds)
  moreover have "(300::ptr) \<noteq> NULL \<longrightarrow> rnodes ravl_two 300 = None"
  proof -
    have "300 \<notin> dom (rnodes ravl_two)" unfolding holds_dom [OF ravl_two_holds(1)] by simp
    then show ?thesis by (simp add: domIff)
  qed
  ultimately show ?thesis
    using ravl_emplace_inserts_sorted [OF _ ravl_two_holds(1), of 300 "\<lparr>rkey = 15, rvalue = 3\<rparr>"]
    by (auto simp: ravl_two_holds(2) coarse_ravl_comp_def ins_at_def)
qed

text \<open>C19: \<open>ravl_remove\<close> of any node of the tree returns, removes exactly the datum of that node from
  the sorted sequence, frees exactly one node, and leaves a tree that satisfies the rank rule; the nodes before
  it keep their data (when the node has two children its datum is replaced by that of its
  successor, whose node is the one that is freed).\<close>

theorem ravl_remove_removes_datum:
  assumes "ravl_holds r b (ys @ (n, d) # zs)"
  shows "\<exists>r' zs' s. ravl_remove r n = Some r' \<and> ravl_holds r' b (ys @ zs') \<and> map snd zs' = map snd zs \<and>
    compare r' = compare r \<and> s \<in> dom (rnodes r) \<and> dom (rnodes r') = dom (rnodes r) - {s}"
  using ravl_remove_holds [OF assms] unfolding same_tree_params_def by blast

theorem ravl_remove_removes_datum_witness:
  "\<exists>r' xs s. ravl_remove ravl_two 100 = Some r' \<and> ravl_holds r' False xs \<and> map snd xs = [d20] \<and>
    compare r' = coarse_ravl_comp \<and> s \<in> dom (rnodes ravl_two) \<and> dom (rnodes r') = dom (rnodes ravl_two) - {s}"
  using ravl_remove_removes_datum [of ravl_two False "[]" 100 d10 "[(200, d20)]"] ravl_two_holds by simp

text \<open>C20: \<open>ravl_find\<close> returns the node whose datum is equal to, the closest above, or the closest
  below the given one, as the predicate says, and NULL when the tree holds none.\<close>

theorem ravl_find_finds_closest:
  assumes "comparison (compare r)" and "ravl_holds r b xs"
  shows "ravl_find r d flags = Some (find_item (compare r) d flags xs)"
  by (rule ravl_find_holds [OF assms])

theorem ravl_find_finds_closest_witness:
  "ravl_find ravl_two \<lparr>rkey = 15, rvalue = 0\<rparr> RAVL_PREDICATE_GREATER_EQUAL = Some 200"
proof -
  have "comparison (compare ravl_two)" using coarse_order.comparison_axioms by (simp add: ravl_two_holds)
  from ravl_find_finds_closest [OF this ravl_two_holds(1)] show ?thesis
    by (simp add: ravl_two_holds(2) find_item_def coarse_ravl_comp_def)
qed

text \<open>\<open>ravl_node_successor\<close>, \<open>ravl_node_predecessor\<close>, \<open>ravl_first\<close> and \<open>ravl_last\<close> follow the sorted
  sequence of the tree and return NULL at its ends.\<close>

theorem ravl_navigation_follows_order:
  assumes "ravl_holds r b (ys @ (n, d) # zs)"
  shows "ravl_node_successor r n = Some (hd_adr zs) \<and> ravl_node_predecessor r n = Some (last_adr ys) \<and>
    ravl_first r = Some (hd_adr (ys @ [(n, d)])) \<and> ravl_last r = Some (last_adr ((n, d) # zs))"
  by (rule ravl_navigation_holds [OF assms])

theorem ravl_navigation_follows_order_witness:
  "ravl_node_successor ravl_two 100 = Some 200 \<and> ravl_node_predecessor ravl_two 100 = Some NULL \<and>
   ravl_first ravl_two = Some 100 \<and> ravl_last ravl_two = Some 200"
  using ravl_navigation_follows_order [of ravl_two False "[]" 100 d10 "[(200, d20)]"] ravl_two_holds
  by (simp add: last_adr_Cons)

text \<open>\<open>ravl_foreach\<close> calls back on the data in sorted order and leaves the tree as it is;
  \<open>ravl_clear\<close> frees every node and leaves an empty tree.\<close>

theorem ravl_foreach_in_order:
  assumes "ravl_holds r b xs"
  shows "ravl_foreach r (Some f) s = Some (fold (\<lambda>x. f (pay b (snd x))) xs s, r) \<and>
    (\<exists>r'. ravl_clear r = Some r' \<and> ravl_holds r' b [] \<and> rnodes r' = Map.empty \<and> ravl_empty r')"
  by (rule ravl_foreach_holds [OF assms])

theorem ravl_foreach_in_order_witness:
  "ravl_foreach ravl_two (Some (\<lambda>d s. s @ [d])) [] = Some ([PInline d10, PInline d20], ravl_two)"
  using ravl_foreach_in_order [OF ravl_two_holds(1), of "\<lambda>d s. s @ [d]" "[]"] by (simp add: pay_def)

text \<open>In a tree built by the operations every child has a smaller rank than its parent (a
  missing child has rank -1) and points back to it, so that a rank bounds the length of every
  path below its node.\<close>

theorem ravl_rank_rule:
  assumes "ravl_holds r b xs" and "rnodes r a = Some n" and "t \<in> {RAVL_LEFT, RAVL_RIGHT}"
  shows "\<exists>k. ravl_node_rank r (slots n t) = Some k \<and> - 1 \<le> k \<and> k < rank n \<and>
    (slots n t \<noteq> NULL \<longrightarrow> (\<exists>c. rnodes r (slots n t) = Some c \<and> parent c = a))"
proof -
  from assms obtain T where T: "rst r [] T {}" "rok T" by (auto simp: ravl_holds_def)
  have "a \<in> addrs T" using assms(2) T(1) by (auto simp: rst_def)
  then obtain C k b' pd l rt where C: "T = plug C (RN a k b' pd l rt)" using focus_at by blast
  have st: "rst r C (RN a k b' pd l rt) {}" using T(1) by (simp add: C rst_def)
  from T(2) have ok: "rk l < k" "rk rt < k" "rok l" "rok rt" by (auto simp: C rok_plug)
  from rst_parts(1) [OF st] assms(2) have n: "rank n = k" "rrep (rnodes r) a (slots n RAVL_LEFT) l" "rrep (rnodes r) a (slots n RAVL_RIGHT) rt"
    by auto
  have ch: "ravl_node_rank r p = Some (rk x) \<and> (p \<noteq> NULL \<longrightarrow> (\<exists>c. rnodes r p = Some c \<and> parent c = a))" if "rrep (rnodes r) a p x" for p x
    using rank_rrep [OF that] that by (cases x) auto
  from assms(3) ch [OF n(2)] ch [OF n(3)] ok rok_rank show ?thesis by (auto simp: n(1))
qed

theorem ravl_rank_rule_witness:
  "\<exists>n k. rnodes ravl_two 100 = Some n \<and> ravl_node_rank ravl_two (slots n RAVL_LEFT) = Some k \<and> k < rank n"
proof -
  have "100 \<in> dom (rnodes ravl_two)" using holds_dom [OF ravl_two_holds(1)] by simp
  then obtain n where "rnodes ravl_two 100 = Some n" by blast
  with ravl_rank_rule [OF ravl_two_holds(1), of 100 n RAVL_LEFT] show ?thesis by auto
qed

definition ravl_single :: "ravl_data_t ravl" where
  "ravl_single = ravl_nil\<lparr> ravl_root := 100,
     rnodes := [100 \<mapsto> \<lparr>parent = NULL, slots = (\<lambda>_. NULL), rank = 0, pointer_based = False, ndata = PInline d10\<rparr>] \<rparr>"

definition ravl_pair :: "ravl_data_t ravl" where
  "ravl_pair = ravl_nil\<lparr> ravl_root := 100,
     rnodes := [200 \<mapsto> \<lparr>parent = 100, slots = (\<lambda>_. NULL), rank = 0, pointer_based = False, ndata = PInline d20\<rparr>,
                100 \<mapsto> \<lparr>parent = NULL, slots = (\<lambda>_. NULL)(RAVL_RIGHT := 200), rank = 1, pointer_based = False, ndata = PInline d10\<rparr>] \<rparr>"

lemmas eval_ravl = ravl_emplace_copy_def ravl_emplace_def ravl_nil_def ravl_new_sized_def ravl_new_node_def
  ravl_data_def coarse_ravl_comp_def upd_node_def set_slot_def ravl_balance_def ravl_node_sibling_def
  ravl_node_slot_type_def ravl_node_rank_difference_def ravl_node_rank_difference_parent_def
  ravl_node_rank_def ravl_node_is_def ravl_node_is_i_j_def ravl_node_promote_def ravl_node_ref_def
  free_ravl_node_def Let_def

lemma eval_single: "ravl_emplace_copy ravl_nil d10 100 = Some (OK, ravl_single)"
  by (simp add: eval_ravl ravl_single_def emplace_walk.simps [of _ _ RootRef] balance_up.simps [of _ 100])

lemma eval_pair: "ravl_emplace_copy ravl_single d20 200 = Some (OK, ravl_pair)"
  by (simp add: eval_ravl ravl_single_def ravl_pair_def emplace_walk.simps [of _ _ RootRef] emplace_walk.simps [of _ _ "SlotRef _ _"]
      balance_up.simps [of _ 200] balance_up.simps [of _ 100])

text \<open>A rank can exceed the height of its subtree: after the insertion of two data and the removal
  of the leaf, the remaining node has rank 1 and no child.\<close>

theorem ravl_rank_exceeds_height:
  "\<exists>r1 r2 r3 n. ravl_emplace_copy ravl_nil d10 100 = Some (OK, r1) \<and> ravl_emplace_copy r1 d20 200 = Some (OK, r2) \<and>
     ravl_remove r2 200 = Some r3 \<and> dom (rnodes r3) = {100} \<and> rnodes r3 100 = Some n \<and> rank n = 1 \<and>
     slots n RAVL_LEFT = NULL \<and> slots n RAVL_RIGHT = NULL"
proof -
  have "\<exists>r3 n. ravl_remove ravl_pair 200 = Some r3 \<and> dom (rnodes r3) = {100} \<and> rnodes r3 100 = Some n \<and> rank n = 1 \<and>
     slots n RAVL_LEFT = NULL \<and> slots n RAVL_RIGHT = NULL"
    by (subst ravl_remove.simps) (simp add: ravl_pair_def eval_ravl)
  with eval_single eval_pair show ?thesis by blast
qed

end
