(* ===== verification/Critnib_Model.thy ===== *)
theory Critnib_Model
  imports UMF_Prelude
begin

text \<open>
  Model of \<^verbatim>\<open>src/critnib/critnib.c\<close>: the radix tree that maps the address of an allocation
  to its record, with 4-bit slices of the key as child indices.

  \<open>struct critnib\<close> is the record \<open>critnib\<close>; the memory its nodes and leaves live in is carried
  along as the two stores \<open>nodes\<close> and \<open>leaves\<close>. A \<open>struct critnib_node *\<close> whose lowest bit
  tags a leaf is the datatype \<open>cptr\<close>; the field \<open>value\<close> of a leaf is \<open>lvalue\<close> here. The parameters \<open>ml\<close> and \<open>mn\<close> of the operations that
  allocate are the values \<open>umf_ba_global_alloc\<close> returns for a leaf and for a node (0 when it
  fails). The mutex makes writers atomic, so one call of a writer is one step.
\<close>

section \<open>Data\<close>

datatype cptr = CNull | CNode ptr | CLeaf ptr

record critnib_node =
  child :: "nat \<Rightarrow> cptr"
  path :: u64
  shift :: nat

record critnib_leaf =
  key :: u64
  lvalue :: ptr

record critnib =
  root :: cptr
  deleted_node :: cptr
  deleted_leaf :: ptr
  pending_del_nodes :: "nat \<Rightarrow> cptr"
  pending_del_leaves :: "nat \<Rightarrow> ptr"
  remove_count :: u64
  nodes :: "ptr \<rightharpoonup> critnib_node"
  leaves :: "ptr \<rightharpoonup> critnib_leaf"

definition DELETED_LIFE :: nat where "DELETED_LIFE = 16"

definition SLICE :: nat where "SLICE = 4"

definition NIB :: u64 where "NIB = 15"

definition SLNODES :: nat where "SLNODES = 16"

section \<open>Tagged pointers and slices\<close>

fun is_leaf :: "cptr \<Rightarrow> bool" where
  "is_leaf (CLeaf _) = True"
| "is_leaf _ = False"

fun to_leaf :: "cptr \<Rightarrow> ptr" where
  "to_leaf (CLeaf a) = a"
| "to_leaf _ = NULL"

definition path_mask :: "nat \<Rightarrow> u64" where
  "path_mask sh = push_bit sh (NOT NIB)"

definition slice_index :: "u64 \<Rightarrow> nat \<Rightarrow> nat" where
  "slice_index k sh = unat (drop_bit sh k AND NIB)"

text \<open>\<open>__builtin_clzll\<close> and \<open>utils_mssb_index\<close> of \<^verbatim>\<open>src/utils/utils_concurrency.h\<close>.\<close>

definition clzll :: "u64 \<Rightarrow> nat" where
  "clzll x = length (takeWhile (\<lambda>i. \<not> bit x i) (rev [0..<64]))"

definition utils_mssb_index :: "u64 \<Rightarrow> nat" where
  "utils_mssb_index x = 63 - clzll x"

text \<open>A \<open>struct critnib_node **\<close>: the address of the root field or of a child slot.\<close>

datatype cslot = RootSlot | ChildSlot ptr nat

fun store_slot :: "critnib \<Rightarrow> cslot \<Rightarrow> cptr \<Rightarrow> critnib option" where
  "store_slot c RootSlot p = Some (c\<lparr>root := p\<rparr>)"
| "store_slot c (ChildSlot a i) p =
     do { n \<leftarrow> nodes c a;
          Some (c\<lparr>nodes := (nodes c)(a \<mapsto> n\<lparr>child := (child n)(i := p)\<rparr>)\<rparr>) }"

text \<open>Following a \<open>struct critnib_node *\<close> that must point to an inner node.\<close>

fun deref_node :: "critnib \<Rightarrow> cptr \<Rightarrow> critnib_node option" where
  "deref_node c (CNode a) = nodes c a"
| "deref_node c _ = None"

section \<open>Creation and the pools of deleted nodes\<close>

definition critnib_zero :: critnib where
  "critnib_zero = \<lparr> root = CNull, deleted_node = CNull, deleted_leaf = NULL,
     pending_del_nodes = (\<lambda>_. CNull), pending_del_leaves = (\<lambda>_. NULL),
     remove_count = 0, nodes = Map.empty, leaves = Map.empty \<rparr>"

text \<open>
  \<open>mc\<close> is what \<open>umf_ba_global_alloc\<close> returns for the structure, \<open>mutex_ok\<close> whether the mutex
  could be initialised; the result \<open>None\<close> is the null pointer.
\<close>

definition critnib_new :: "ptr \<Rightarrow> bool \<Rightarrow> critnib option" where
  "critnib_new mc mutex_ok =
     (if mc = NULL then None else if \<not> mutex_ok then None else Some critnib_zero)"

fun free_node :: "critnib \<Rightarrow> cptr \<Rightarrow> critnib option" where
  "free_node c CNull = Some c"
| "free_node c (CLeaf a) = None"
| "free_node c (CNode a) =
     do { n \<leftarrow> nodes c a;
          Some (c\<lparr>nodes := (nodes c)(a \<mapsto> n\<lparr>child := (child n)(0 := deleted_node c)\<rparr>),
                  deleted_node := CNode a\<rparr>) }"

text \<open>Fresh memory has no content the code reads before it writes it.\<close>

definition blank_node :: critnib_node where
  "blank_node = \<lparr> child = (\<lambda>_. CNull), path = 0, shift = 0 \<rparr>"

definition alloc_node :: "critnib \<Rightarrow> ptr \<Rightarrow> (cptr \<times> critnib) option" where
  "alloc_node c mn =
     (if deleted_node c = CNull
      then Some (if mn = NULL then (CNull, c)
                 else (CNode mn, c\<lparr>nodes := (nodes c)(mn \<mapsto> blank_node)\<rparr>))
      else do { n \<leftarrow> deref_node c (deleted_node c);
                Some (deleted_node c, c\<lparr>deleted_node := child n 0\<rparr>) })"

definition free_leaf :: "critnib \<Rightarrow> ptr \<Rightarrow> critnib option" where
  "free_leaf c k =
     (if k = NULL then Some c
      else do { l \<leftarrow> leaves c k;
                Some (c\<lparr>leaves := (leaves c)(k \<mapsto> l\<lparr>lvalue := deleted_leaf c\<rparr>),
                        deleted_leaf := k\<rparr>) })"

definition alloc_leaf :: "critnib \<Rightarrow> ptr \<Rightarrow> (ptr \<times> critnib) option" where
  "alloc_leaf c ml =
     (if deleted_leaf c = NULL
      then Some (if ml = NULL then (NULL, c)
                 else (ml, c\<lparr>leaves := (leaves c)(ml \<mapsto> \<lparr>key = 0, lvalue = NULL\<rparr>)\<rparr>))
      else do { l \<leftarrow> leaves c (deleted_leaf c);
                Some (deleted_leaf c, c\<lparr>deleted_leaf := lvalue l\<rparr>) })"

section \<open>Insertion\<close>

text \<open>The descent of \<open>critnib_insert\<close>: the slot \<open>parent\<close>, the node \<open>prev\<close> above it, and its content \<open>n\<close>.\<close>

partial_function (option) insert_walk ::
  "critnib \<Rightarrow> u64 \<Rightarrow> cslot \<Rightarrow> cptr \<Rightarrow> cptr \<Rightarrow> (cslot \<times> cptr \<times> cptr) option" where
  "insert_walk c k parent prev n =
     (case n of
        CNode a \<Rightarrow>
          do { nd \<leftarrow> nodes c a;
               if k AND path_mask (shift nd) = path nd
               then let i = slice_index k (shift nd)
                    in insert_walk c k (ChildSlot a i) n (child nd i)
               else Some (parent, prev, n) }
      | _ \<Rightarrow> Some (parent, prev, n))"

definition node_path :: "critnib \<Rightarrow> cptr \<Rightarrow> u64 option" where
  "node_path c n = (if is_leaf n then do { l \<leftarrow> leaves c (to_leaf n); Some (key l) }
                    else do { nd \<leftarrow> deref_node c n; Some (path nd) })"

text \<open>The part of \<open>critnib_insert\<close> after the descent; \<open>kn\<close> is the tagged new leaf.\<close>

definition insert_at ::
  "critnib \<Rightarrow> u64 \<Rightarrow> ptr \<Rightarrow> bool \<Rightarrow> ptr \<Rightarrow> cptr \<Rightarrow> cslot \<times> cptr \<times> cptr
     \<Rightarrow> (errno \<times> critnib) option" where
  "insert_at c k v update mn kn = (\<lambda>(parent, prev, n).
     if n = CNull
     then do { nd \<leftarrow> deref_node c prev;
               c' \<leftarrow> (case prev of CNode a \<Rightarrow> store_slot c (ChildSlot a (slice_index k (shift nd))) kn
                                | _ \<Rightarrow> None);
               Some (OK, c') }
     else
       do { pth \<leftarrow> node_path c n;
            let diff = pth XOR k;
            if diff = 0
            then do { guard (is_leaf n);
                      c1 \<leftarrow> free_leaf c (to_leaf kn);
                      if update
                      then do { l \<leftarrow> leaves c1 (to_leaf n);
                                Some (OK, c1\<lparr>leaves := (leaves c1)(to_leaf n \<mapsto> l\<lparr>lvalue := v\<rparr>)\<rparr>) }
                      else Some (EEXIST, c1) }
            else
              do { let sh = utils_mssb_index diff div SLICE * SLICE;
                   (m, c1) \<leftarrow> alloc_node c mn;
                   if m = CNull
                   then do { c2 \<leftarrow> free_leaf c1 (to_leaf kn); Some (ENOMEM, c2) }
                   else
                     do { a \<leftarrow> (case m of CNode a \<Rightarrow> Some a | _ \<Rightarrow> None);
                          let nd = \<lparr> child = (\<lambda>_. CNull)(slice_index k sh := kn, slice_index pth sh := n),
                                     path = k AND path_mask sh, shift = sh \<rparr>;
                          c2 \<leftarrow> store_slot (c1\<lparr>nodes := (nodes c1)(a \<mapsto> nd)\<rparr>) parent m;
                          Some (OK, c2) } } })"

definition critnib_insert ::
  "critnib \<Rightarrow> u64 \<Rightarrow> ptr \<Rightarrow> bool \<Rightarrow> ptr \<Rightarrow> ptr \<Rightarrow> (errno \<times> critnib) option" where
  "critnib_insert c k v update ml mn =
     do { (l, c1) \<leftarrow> alloc_leaf c ml;
          if l = NULL then Some (ENOMEM, c1)
          else
            do { let c2 = c1\<lparr>leaves := (leaves c1)(l \<mapsto> \<lparr>key = k, lvalue = v\<rparr>)\<rparr>;
                 let kn = CLeaf l;
                 if root c2 = CNull then Some (OK, c2\<lparr>root := kn\<rparr>)
                 else do { r \<leftarrow> insert_walk c2 k RootSlot (root c2) (root c2);
                           insert_at c2 k v update mn kn r } } }"

section \<open>Removal\<close>

text \<open>
  The descent of \<open>critnib_remove\<close>: \<open>k_parent\<close> and \<open>n_parent\<close> are the slots of \<open>kn\<close> and of its
  parent \<open>n\<close>; the result is \<open>None\<close> of the inner option when the key's slot is empty.
\<close>

partial_function (option) remove_walk ::
  "critnib \<Rightarrow> u64 \<Rightarrow> cslot \<Rightarrow> cslot \<Rightarrow> cptr \<Rightarrow> cptr \<Rightarrow> (cslot \<times> cptr \<times> cptr) option option" where
  "remove_walk c k n_parent k_parent n kn =
     (case kn of
        CNode a \<Rightarrow>
          do { nd \<leftarrow> nodes c a;
               let i = slice_index k (shift nd);
               let kn' = child nd i;
               if kn' = CNull then Some None
               else remove_walk c k k_parent (ChildSlot a i) kn kn' }
      | _ \<Rightarrow> Some (Some (n_parent, n, kn)))"

text \<open>The scan for a single remaining child of \<open>n\<close>; \<open>Inl ()\<close> when a second one is met.\<close>

fun only_child :: "(nat \<Rightarrow> cptr) \<Rightarrow> nat list \<Rightarrow> nat option \<Rightarrow> unit + nat option" where
  "only_child ch [] oc = Inr oc"
| "only_child ch (i # is) oc =
     (if ch i \<noteq> CNull
      then (if oc \<noteq> None then Inl () else only_child ch is (Some i))
      else only_child ch is oc)"

text \<open>The label \<open>del_leaf\<close>: return the leaf's value and put the leaf on the pending list.\<close>

definition del_leaf :: "critnib \<Rightarrow> nat \<Rightarrow> ptr \<Rightarrow> (ptr \<times> critnib) option" where
  "del_leaf c del k =
     do { l \<leftarrow> leaves c k;
          Some (lvalue l, c\<lparr>pending_del_leaves := (pending_del_leaves c)(del := k)\<rparr>) }"

text \<open>The part of \<open>critnib_remove\<close> after the descent has found the key's leaf \<open>l\<close> below \<open>n\<close>.\<close>

definition unlink_leaf :: "critnib \<Rightarrow> u64 \<Rightarrow> nat \<Rightarrow> cslot \<Rightarrow> cptr \<Rightarrow> ptr \<Rightarrow> (ptr \<times> critnib) option" where
  "unlink_leaf c k del n_parent n l =
     do { nd \<leftarrow> deref_node c n;
          a \<leftarrow> (case n of CNode a \<Rightarrow> Some a | _ \<Rightarrow> None);
          c' \<leftarrow> store_slot c (ChildSlot a (slice_index k (shift nd))) CNull;
          nd' \<leftarrow> nodes c' a;
          case only_child (child nd') [0..<SLNODES] None of
            Inl _ \<Rightarrow> del_leaf c' del l
          | Inr None \<Rightarrow> None
          | Inr (Some oc) \<Rightarrow>
              do { c'' \<leftarrow> store_slot c' n_parent (child nd' oc);
                   del_leaf (c''\<lparr>pending_del_nodes := (pending_del_nodes c'')(del := n)\<rparr>) del l } }"

definition critnib_remove :: "critnib \<Rightarrow> u64 \<Rightarrow> (ptr \<times> critnib) option" where
  "critnib_remove c0 k =
     (if root c0 = CNull then Some (NULL, c0)
      else
        do { let c1 = c0\<lparr>remove_count := remove_count c0 + 1\<rparr>;
             let del = unat ((remove_count c1 - 1) mod of_nat DELETED_LIFE);
             c2 \<leftarrow> free_node c1 (pending_del_nodes c1 del);
             c3 \<leftarrow> free_leaf c2 (pending_del_leaves c2 del);
             let c = c3\<lparr>pending_del_nodes := (pending_del_nodes c3)(del := CNull),
                        pending_del_leaves := (pending_del_leaves c3)(del := NULL)\<rparr>;
             if is_leaf (root c)
             then do { l \<leftarrow> leaves c (to_leaf (root c));
                       if key l = k
                       then del_leaf (c\<lparr>root := CNull\<rparr>) del (to_leaf (root c))
                       else Some (NULL, c) }
             else
               do { r \<leftarrow> remove_walk c k RootSlot RootSlot (root c) (root c);
                    case r of
                      None \<Rightarrow> Some (NULL, c)
                    | Some (n_parent, n, kn) \<Rightarrow>
                        do { l \<leftarrow> leaves c (to_leaf kn);
                             if key l \<noteq> k then Some (NULL, c)
                             else unlink_leaf c k del n_parent n (to_leaf kn) } } })"

section \<open>Queries\<close>

partial_function (option) get_walk :: "critnib \<Rightarrow> u64 \<Rightarrow> cptr \<Rightarrow> cptr option" where
  "get_walk c k n =
     (case n of CNode a \<Rightarrow> do { nd \<leftarrow> nodes c a; get_walk c k (child nd (slice_index k (shift nd))) }
              | _ \<Rightarrow> Some n)"

text \<open>The exact search shared by \<open>critnib_get\<close> and \<open>critnib_find\<close>: the leaf with the key, or NULL.\<close>

definition find_eq :: "critnib \<Rightarrow> cptr \<Rightarrow> u64 \<Rightarrow> ptr option" where
  "find_eq c n k =
     do { m \<leftarrow> get_walk c k n;
          if m = CNull then Some NULL
          else do { l \<leftarrow> leaves c (to_leaf m);
                    Some (if key l = k then to_leaf m else NULL) } }"

text \<open>\<open>wrs1 + DELETED_LIFE <= wrs2\<close>, on 64-bit counters that wrap around.\<close>

definition must_retry :: "u64 \<Rightarrow> u64 \<Rightarrow> bool" where
  "must_retry wrs1 wrs2 \<longleftrightarrow> wrs1 + of_nat DELETED_LIFE \<le> wrs2"

definition leaf_value :: "critnib \<Rightarrow> ptr \<Rightarrow> ptr option" where
  "leaf_value c k = (if k = NULL then Some NULL else do { l \<leftarrow> leaves c k; Some (lvalue l) })"

partial_function (option) critnib_get :: "critnib \<Rightarrow> u64 \<Rightarrow> ptr option" where
  "critnib_get c k =
     do { let wrs1 = remove_count c;
          l \<leftarrow> find_eq c (root c) k;
          res \<leftarrow> leaf_value c l;
          let wrs2 = remove_count c;
          if must_retry wrs1 wrs2 then critnib_get c k else Some res }"

partial_function (option) find_predecessor :: "critnib \<Rightarrow> cptr \<Rightarrow> ptr option" where
  "find_predecessor c n =
     do { nd \<leftarrow> deref_node c n;
          case List.find (\<lambda>nib. child nd nib \<noteq> CNull) (rev [0..<SLNODES]) of
            None \<Rightarrow> Some NULL
          | Some nib \<Rightarrow> (let m = child nd nib
                         in if is_leaf m then Some (to_leaf m) else find_predecessor c m) }"

definition outside :: "u64 \<Rightarrow> critnib_node \<Rightarrow> bool" where
  "outside k nd \<longleftrightarrow> drop_bit (shift nd) (k XOR path nd) AND NOT NIB \<noteq> 0"

partial_function (option) find_le :: "critnib \<Rightarrow> cptr \<Rightarrow> u64 \<Rightarrow> ptr option" where
  "find_le c n k =
     (case n of
        CNull \<Rightarrow> Some NULL
      | CLeaf a \<Rightarrow> do { l \<leftarrow> leaves c a; Some (if key l \<le> k then a else NULL) }
      | CNode a \<Rightarrow>
          do { nd \<leftarrow> nodes c a;
               if outside k nd
               then (if path nd < k then find_predecessor c n else Some NULL)
               else
                 do { let nib = slice_index k (shift nd);
                      r \<leftarrow> find_le c (child nd nib) k;
                      if r \<noteq> NULL then Some r
                      else (case List.find (\<lambda>i. child nd i \<noteq> CNull) (rev [0..<nib]) of
                              None \<Rightarrow> Some NULL
                            | Some i \<Rightarrow> (let m = child nd i
                                         in if is_leaf m then Some (to_leaf m)
                                            else find_predecessor c m)) } })"

partial_function (option) critnib_find_le :: "critnib \<Rightarrow> u64 \<Rightarrow> ptr option" where
  "critnib_find_le c k =
     do { let wrs1 = remove_count c;
          l \<leftarrow> (if root c \<noteq> CNull then find_le c (root c) k else Some NULL);
          res \<leftarrow> leaf_value c l;
          let wrs2 = remove_count c;
          if must_retry wrs1 wrs2 then critnib_find_le c k else Some res }"

partial_function (option) find_successor :: "critnib \<Rightarrow> cptr \<Rightarrow> ptr option" where
  "find_successor c n =
     do { nd \<leftarrow> deref_node c n;
          case List.find (\<lambda>nib. child nd nib \<noteq> CNull) [0..<SLNODES] of
            None \<Rightarrow> Some NULL
          | Some nib \<Rightarrow> (let m = child nd nib
                         in if is_leaf m then Some (to_leaf m) else find_successor c m) }"

partial_function (option) find_ge :: "critnib \<Rightarrow> cptr \<Rightarrow> u64 \<Rightarrow> ptr option" where
  "find_ge c n k =
     (case n of
        CNull \<Rightarrow> Some NULL
      | CLeaf a \<Rightarrow> do { l \<leftarrow> leaves c a; Some (if key l \<ge> k then a else NULL) }
      | CNode a \<Rightarrow>
          do { nd \<leftarrow> nodes c a;
               if outside k nd
               then (if path nd > k then find_successor c n else Some NULL)
               else
                 do { let nib = slice_index k (shift nd);
                      r \<leftarrow> find_ge c (child nd nib) k;
                      if r \<noteq> NULL then Some r
                      else (case List.find (\<lambda>i. child nd i \<noteq> CNull) [Suc nib..<SLNODES] of
                              None \<Rightarrow> Some NULL
                            | Some i \<Rightarrow> (let m = child nd i
                                         in if is_leaf m then Some (to_leaf m)
                                            else find_successor c m)) } })"

text \<open>\<open>enum find_dir_t\<close> of \<^verbatim>\<open>src/critnib/critnib.h\<close>; a found leaf yields its key and value.\<close>

datatype find_dir = FIND_L | FIND_LE | FIND_EQ | FIND_GE | FIND_G

definition find_dir_leaf :: "critnib \<Rightarrow> u64 \<Rightarrow> find_dir \<Rightarrow> ptr option" where
  "find_dir_leaf c k dir =
     (if dir = FIND_L \<or> dir = FIND_LE then find_le c (root c) k
      else if dir = FIND_G \<or> dir = FIND_GE then find_ge c (root c) k
      else find_eq c (root c) k)"

partial_function (option) find_loop :: "critnib \<Rightarrow> u64 \<Rightarrow> find_dir \<Rightarrow> (u64 \<times> ptr) option option" where
  "find_loop c k dir =
     do { let wrs1 = remove_count c;
          l \<leftarrow> find_dir_leaf c k dir;
          r \<leftarrow> (if l = NULL then Some None
                else do { lf \<leftarrow> leaves c l; Some (Some (key lf, lvalue lf)) });
          let wrs2 = remove_count c;
          if must_retry wrs1 wrs2 then find_loop c k dir else Some r }"

definition critnib_find :: "critnib \<Rightarrow> u64 \<Rightarrow> find_dir \<Rightarrow> (u64 \<times> ptr) option option" where
  "critnib_find c k dir =
     (if dir = FIND_L then (if k = 0 then Some None else find_loop c (k - 1) dir)
      else if dir = FIND_G then (if k = - 1 then Some None else find_loop c (k + 1) dir)
      else find_loop c k dir)"

section \<open>Iteration\<close>

text \<open>
  The recursion of \<open>iter\<close> and \<open>delete_node\<close> carries the depth that is left; a path of the tree
  has at most 16 inner nodes (the shift drops by at least 4 at each) and a leaf, so
  \<open>CRITNIB_DEPTH\<close> levels are enough. A callback returns whether to stop, and its private data.
\<close>

definition CRITNIB_DEPTH :: nat where "CRITNIB_DEPTH = 17"

fun iter_children ::
  "(cptr \<Rightarrow> 's \<Rightarrow> (bool \<times> 's) option) \<Rightarrow> (nat \<Rightarrow> cptr) \<Rightarrow> nat list \<Rightarrow> 's \<Rightarrow> (bool \<times> 's) option" where
  "iter_children f ch [] s = Some (False, s)"
| "iter_children f ch (i # is) s =
     (if ch i = CNull then iter_children f ch is s
      else do { (stop, s') \<leftarrow> f (ch i) s;
                if stop then Some (True, s') else iter_children f ch is s' })"

fun iter ::
  "nat \<Rightarrow> critnib \<Rightarrow> u64 \<Rightarrow> u64 \<Rightarrow> (u64 \<Rightarrow> ptr \<Rightarrow> 's \<Rightarrow> bool \<times> 's) \<Rightarrow> cptr \<Rightarrow> 's \<Rightarrow> (bool \<times> 's) option" where
  "iter 0 c mn mx func n s = None"
| "iter (Suc d) c mn mx func n s =
     (case n of
        CNull \<Rightarrow> None
      | CLeaf a \<Rightarrow>
          do { l \<leftarrow> leaves c a;
               Some (if key l \<ge> mn \<and> key l \<le> mx then func (key l) (lvalue l) s else (False, s)) }
      | CNode a \<Rightarrow>
          do { nd \<leftarrow> nodes c a;
               if path nd > mx then Some (True, s)
               else if (path nd OR path_mask (shift nd)) < mn then Some (False, s)
               else iter_children (iter d c mn mx func) (child nd) [0..<SLNODES] s })"

definition critnib_iter ::
  "critnib \<Rightarrow> u64 \<Rightarrow> u64 \<Rightarrow> (u64 \<Rightarrow> ptr \<Rightarrow> 's \<Rightarrow> bool \<times> 's) \<Rightarrow> 's \<Rightarrow> 's option" where
  "critnib_iter c mn mx func s =
     (if root c = CNull then Some s
      else do { (_, s') \<leftarrow> iter CRITNIB_DEPTH c mn mx func (root c) s; Some s' })"

section \<open>Destruction\<close>

text \<open>\<open>umf_ba_global_free\<close> on a node or a leaf: the object must exist, and is gone afterwards.\<close>

fun release_node :: "critnib \<Rightarrow> cptr \<Rightarrow> critnib option" where
  "release_node c CNull = Some c"
| "release_node c (CLeaf a) = None"
| "release_node c (CNode a) =
     do { _ \<leftarrow> nodes c a; Some (c\<lparr>nodes := (nodes c)(a := None)\<rparr>) }"

definition release_leaf :: "critnib \<Rightarrow> ptr \<Rightarrow> critnib option" where
  "release_leaf c a =
     (if a = NULL then Some c
      else do { _ \<leftarrow> leaves c a; Some (c\<lparr>leaves := (leaves c)(a := None)\<rparr>) })"

fun delete_children :: "(critnib \<Rightarrow> cptr \<Rightarrow> critnib option) \<Rightarrow> (nat \<Rightarrow> cptr) \<Rightarrow> nat list \<Rightarrow> critnib \<Rightarrow> critnib option" where
  "delete_children f ch [] c = Some c"
| "delete_children f ch (i # is) c =
     (if ch i = CNull then delete_children f ch is c
      else do { c' \<leftarrow> f c (ch i); delete_children f ch is c' })"

fun delete_node :: "nat \<Rightarrow> critnib \<Rightarrow> cptr \<Rightarrow> critnib option" where
  "delete_node 0 c n = None"
| "delete_node (Suc d) c n =
     (case n of
        CNull \<Rightarrow> None
      | CLeaf a \<Rightarrow> release_leaf c a
      | CNode a \<Rightarrow>
          do { nd \<leftarrow> nodes c a;
               c' \<leftarrow> delete_children (delete_node d) (child nd) [0..<SLNODES] c;
               release_node c' n })"

partial_function (option) delete_node_list :: "critnib \<Rightarrow> cptr \<Rightarrow> critnib option" where
  "delete_node_list c m =
     (if m = CNull then Some c
      else do { nd \<leftarrow> deref_node c m;
                let mm = child nd 0;
                c' \<leftarrow> release_node c m;
                delete_node_list c' mm })"

partial_function (option) delete_leaf_list :: "critnib \<Rightarrow> ptr \<Rightarrow> critnib option" where
  "delete_leaf_list c k =
     (if k = NULL then Some c
      else do { l \<leftarrow> leaves c k;
                let kk = lvalue l;
                c' \<leftarrow> release_leaf c k;
                delete_leaf_list c' kk })"

fun delete_pending :: "nat list \<Rightarrow> critnib \<Rightarrow> critnib option" where
  "delete_pending [] c = Some c"
| "delete_pending (i # is) c =
     do { c1 \<leftarrow> release_node c (pending_del_nodes c i);
          c2 \<leftarrow> release_leaf c1 (pending_del_leaves c1 i);
          delete_pending is c2 }"

text \<open>The result is the memory left when the structure itself is freed.\<close>

definition critnib_delete :: "critnib \<Rightarrow> critnib option" where
  "critnib_delete c =
     do { c1 \<leftarrow> (if root c = CNull then Some c else delete_node CRITNIB_DEPTH c (root c));
          c2 \<leftarrow> delete_node_list c1 (deleted_node c1);
          c3 \<leftarrow> delete_leaf_list c2 (deleted_leaf c2);
          delete_pending [0..<DELETED_LIFE] c3 }"

end
