(* ===== verification/Critnib_Bits.thy ===== *)
theory Critnib_Bits
  imports Critnib_Model
begin

text \<open>
  Facts on the key arithmetic of the critnib: what the path mask and the slice index of a key
  say about its bits and about the order of keys. \<open>agree s k p\<close> says that two keys have the
  same bits above the nibble at \<open>s\<close>.
\<close>

definition agree :: "nat \<Rightarrow> u64 \<Rightarrow> u64 \<Rightarrow> bool" where
  "agree s k p \<longleftrightarrow> drop_bit (s + 4) k = drop_bit (s + 4) p"

lemma agree_refl [simp]: "agree s k k"
  by (simp add: agree_def)

lemma agree_sym: "agree s k p \<Longrightarrow> agree s p k"
  by (simp add: agree_def)

lemma agree_trans: "agree s k p \<Longrightarrow> agree s p q \<Longrightarrow> agree s k q"
  by (simp add: agree_def)

lemma agree_bits: "agree s k p \<longleftrightarrow> (\<forall>j \<ge> s + 4. bit k j = bit p j)"
proof
  assume "agree s k p"
  then have "bit (drop_bit (s + 4) k) i = bit (drop_bit (s + 4) p) i" for i
    by (simp add: agree_def)
  then have "bit k (s + 4 + i) = bit p (s + 4 + i)" for i
    by (simp only: bit_drop_bit_eq comp_def)
  then show "\<forall>j \<ge> s + 4. bit k j = bit p j"
    by (metis le_add_diff_inverse)
next
  assume "\<forall>j \<ge> s + 4. bit k j = bit p j"
  then show "agree s k p"
    by (auto simp: agree_def bit_eq_iff bit_drop_bit_eq)
qed

lemma unat_drop_bit_div: "unat (drop_bit n (w :: u64)) = unat w div 2 ^ n"
  by (simp only: unat_drop_bit_eq) (simp only: drop_bit_eq_div)

lemma drop_bit_eq_unat: "drop_bit n (k :: u64) = drop_bit n p \<longleftrightarrow> unat k div 2 ^ n = unat p div 2 ^ n"
  by (simp only: word_unat_eq_iff unat_drop_bit_div)

lemma agree_unat: "agree s k p \<longleftrightarrow> unat k div 2 ^ (s + 4) = unat p div 2 ^ (s + 4)"
  by (simp only: agree_def drop_bit_eq_unat)

lemma agree_mono: "agree s k p \<Longrightarrow> s \<le> s' \<Longrightarrow> agree s' k p"
  by (simp add: agree_bits)

lemma bit64_less: "bit (x :: u64) j \<Longrightarrow> j < 64"
  using bit_imp_le_length [of x j] by simp

lemma bit_NIB: "bit NIB j \<longleftrightarrow> j < 4"
proof -
  have "NIB = mask 4"
    by (simp add: NIB_def mask_eq_exp_minus_1)
  then have "bit NIB j \<longleftrightarrow> bit (mask 4 :: u64) j" by simp
  then show ?thesis by (simp only: bit_mask_iff possible_bit_def) auto
qed

lemma bit_path_mask: "bit (path_mask s) j \<longleftrightarrow> s + 4 \<le> j \<and> j < 64"
  by (auto simp: path_mask_def bit_push_bit_iff bit_not_iff bit_NIB possible_bit_def)

lemma mask_eq_iff: "k AND path_mask s = p AND path_mask s \<longleftrightarrow> agree s k p"
proof
  assume eq: "k AND path_mask s = p AND path_mask s"
  show "agree s k p" unfolding agree_bits
  proof (intro allI impI)
    fix j assume j: "s + 4 \<le> j"
    from eq have "bit (k AND path_mask s) j = bit (p AND path_mask s) j" by simp
    then show "bit k j = bit p j"
      using j bit64_less [of k j] bit64_less [of p j] by (auto simp: bit_and_iff bit_path_mask)
  qed
next
  assume "agree s k p"
  then show "k AND path_mask s = p AND path_mask s"
    by (intro bit_eqI) (auto simp: bit_and_iff bit_path_mask agree_bits)
qed

lemma path_agree: "p AND path_mask s = p \<Longrightarrow> k AND path_mask s = p \<longleftrightarrow> agree s k p"
  using mask_eq_iff [of k s p] by simp

lemma path_mask_idem [simp]: "(k AND path_mask s) AND path_mask s = k AND path_mask s"
  by (simp add: and.assoc)

lemma agree_path_mask [simp]: "agree s k (k AND path_mask s)"
  by (simp flip: mask_eq_iff)

lemma outside_agree: "outside k nd \<longleftrightarrow> \<not> agree (shift nd) k (path nd)"
proof -
  have "drop_bit s (k XOR p) AND NOT NIB = 0 \<longleftrightarrow> agree s k p" for s p
  proof
    assume z: "drop_bit s (k XOR p) AND NOT NIB = 0"
    show "agree s k p" unfolding agree_bits
    proof (intro allI impI)
      fix j assume j: "s + 4 \<le> j"
      show "bit k j = bit p j"
      proof (cases "j < 64")
        case True
        from z have "\<not> bit (drop_bit s (k XOR p) AND NOT NIB) (j - s)" by simp
        moreover have "j - s < 64" "\<not> j - s < 4" using j True by simp_all
        ultimately show ?thesis
          using j by (simp add: bit_and_iff bit_not_iff bit_NIB bit_drop_bit_eq bit_xor_iff possible_bit_def)
      next
        case False
        then show ?thesis using bit64_less by blast
      qed
    qed
  next
    assume a: "agree s k p"
    then show "drop_bit s (k XOR p) AND NOT NIB = 0"
      by (auto simp: bit_eq_iff bit_and_iff bit_not_iff bit_NIB bit_drop_bit_eq bit_xor_iff agree_bits)
  qed
  then show ?thesis by (auto simp: outside_def)
qed

lemma slice_index_unat: "slice_index k s = unat k div 2 ^ s mod 16"
proof -
  have "drop_bit s k AND NIB = take_bit 4 (drop_bit s k)"
    by (simp add: NIB_def take_bit_eq_mask mask_eq_exp_minus_1)
  then show ?thesis
    by (simp only: slice_index_def unsigned_take_bit_eq unat_drop_bit_div) (simp add: take_bit_eq_mod)
qed

lemma slice_index_less [simp]: "slice_index k s < 16"
  by (simp add: slice_index_unat)

lemma div_slice: "unat k div 2 ^ s = unat k div 2 ^ (s + 4) * 16 + slice_index k s"
  by (simp add: slice_index_unat power_add div_mult2_eq)

text \<open>Keys that agree above the nibble are ordered by the nibble first.\<close>

lemma slice_order:
  assumes "agree s k p" and "slice_index k s < slice_index p s"
  shows "k < p"
proof -
  from assms have "unat k div 2 ^ s < unat p div 2 ^ s"
    unfolding div_slice [of k s] div_slice [of p s] agree_unat by simp
  then have "unat k < unat p"
    by (meson div_le_mono linorder_not_le)
  then show ?thesis by (simp add: word_less_nat_alt)
qed

text \<open>Keys that disagree above the nibble are ordered as the prefixes are.\<close>

lemma prefix_order:
  assumes "\<not> agree s k p" and "agree s q p" and "p < k"
  shows "q < k"
proof -
  have "unat p div 2 ^ (s + 4) \<le> unat k div 2 ^ (s + 4)"
    using assms(3) by (simp add: word_less_nat_alt div_le_mono)
  with assms(1,2) have "unat q div 2 ^ (s + 4) < unat k div 2 ^ (s + 4)"
    by (simp add: agree_unat)
  then have "unat q < unat k"
    by (meson div_le_mono linorder_not_le)
  then show ?thesis by (simp add: word_less_nat_alt)
qed

lemma prefix_order':
  assumes "\<not> agree s k p" and "agree s q p" and "k < p"
  shows "k < q"
proof -
  have "unat k div 2 ^ (s + 4) \<le> unat p div 2 ^ (s + 4)"
    using assms(3) by (simp add: word_less_nat_alt div_le_mono)
  with assms(1,2) have "unat k div 2 ^ (s + 4) < unat q div 2 ^ (s + 4)"
    by (simp add: agree_unat)
  then have "unat k < unat q"
    by (meson div_le_mono linorder_not_le)
  then show ?thesis by (simp add: word_less_nat_alt)
qed

text \<open>Equal slices below a common prefix extend the prefix.\<close>

lemma slice_eq_bits:
  assumes "agree s k p"
  shows "slice_index k s = slice_index p s \<longleftrightarrow> (\<forall>j \<ge> s. bit k j = bit p j)"
proof -
  have "slice_index k s = slice_index p s \<longleftrightarrow> unat k div 2 ^ s = unat p div 2 ^ s"
    using assms unfolding div_slice [of k s] div_slice [of p s] agree_unat by simp
  also have "\<dots> \<longleftrightarrow> drop_bit s k = drop_bit s p"
    by (simp only: drop_bit_eq_unat)
  also have "\<dots> \<longleftrightarrow> (\<forall>i. bit k (s + i) = bit p (s + i))"
    by (auto simp: bit_eq_iff bit_drop_bit_eq dest: bit64_less) (meson bit64_less add_lessD1 not_add_less2 trans_le_add2 linorder_not_le)+
  also have "\<dots> \<longleftrightarrow> (\<forall>j \<ge> s. bit k j = bit p j)"
    by (metis le_add1 le_add_diff_inverse)
  finally show ?thesis .
qed

lemma slice_eq_agree:
  "agree s k p \<Longrightarrow> slice_index k s = slice_index p s \<Longrightarrow> s \<le> s' + 4 \<Longrightarrow> agree s' k p"
  by (simp add: slice_eq_bits agree_bits)

section \<open>The most significant differing bit\<close>

lemma takeWhile_rev_upt:
  assumes "P m" and "m < n" and "\<forall>j. m < j \<and> j < n \<longrightarrow> \<not> P j"
  shows "length (takeWhile (\<lambda>i. \<not> P i) (rev [0..<n])) = n - Suc m"
  using assms
proof (induction n)
  case 0
  then show ?case by simp
next
  case (Suc n)
  show ?case
  proof (cases "m = n")
    case True
    with Suc.prems show ?thesis by simp
  next
    case False
    with Suc.prems have "\<not> P n" and "m < n" by auto
    with Suc show ?thesis by simp
  qed
qed

lemma mssb_index:
  assumes "x \<noteq> 0"
  shows "bit x (utils_mssb_index x)" and "utils_mssb_index x < 64"
    and "\<And>j. utils_mssb_index x < j \<Longrightarrow> \<not> bit x j"
proof -
  from assms obtain i where i: "bit x i" by (auto simp: bit_eq_iff)
  have fin: "{j. bit x j} \<subseteq> {..<64}"
    by (auto dest: bit_imp_le_length)
  then have fin': "finite {j. bit x j}" by (rule finite_subset) simp
  define m where "m = Max {j. bit x j}"
  from i fin' have m: "bit x m" unfolding m_def by (metis (mono_tags) Max_in empty_iff mem_Collect_eq)
  with fin have m64: "m < 64" by blast
  have above: "\<not> bit x j" if "m < j" for j
  proof
    assume "bit x j"
    then have "j \<le> m" unfolding m_def using fin' by (intro Max_ge) simp_all
    with that show False by simp
  qed
  have "clzll x = 64 - Suc m"
    unfolding clzll_def by (rule takeWhile_rev_upt) (use m m64 above in auto)
  then have idx: "utils_mssb_index x = m"
    using m64 by (simp add: utils_mssb_index_def)
  show "bit x (utils_mssb_index x)" using m idx by simp
  show "utils_mssb_index x < 64" using m64 idx by simp
  show "\<And>j. utils_mssb_index x < j \<Longrightarrow> \<not> bit x j" using above idx by simp
qed

lemma split_shift:
  assumes "p XOR k \<noteq> 0"
  defines "sh \<equiv> utils_mssb_index (p XOR k) div SLICE * SLICE"
  shows "4 dvd sh" and "sh \<le> 60" and "agree sh k p" and "slice_index k sh \<noteq> slice_index p sh"
    and "\<And>s. 4 dvd s \<Longrightarrow> \<not> agree s k p \<Longrightarrow> s + 4 \<le> sh"
    and "\<And>s. 4 dvd s \<Longrightarrow> \<forall>j \<ge> s. bit k j = bit p j \<Longrightarrow> sh + 4 \<le> s"
proof -
  let ?m = "utils_mssb_index (p XOR k)"
  note mssb = mssb_index [OF assms(1)]
  have sh: "sh = ?m div 4 * 4" by (simp add: sh_def SLICE_def)
  show "4 dvd sh" by (simp add: sh)
  have lem: "sh \<le> ?m" "?m < sh + 4" by (simp_all add: sh)
  show "sh \<le> 60" using mssb(2) by (simp add: sh)
  have same: "bit k j = bit p j" if "?m < j" for j
    using mssb(3) [OF that] by (auto simp: bit_xor_iff)
  then show ag: "agree sh k p" using lem by (simp add: agree_bits)
  have diff: "bit k ?m \<noteq> bit p ?m" using mssb(1) by (auto simp: bit_xor_iff)
  with ag lem show "slice_index k sh \<noteq> slice_index p sh" by (auto simp: slice_eq_bits)
  fix s :: nat assume s: "4 dvd s"
  { assume "\<not> agree s k p"
    then obtain j where "s + 4 \<le> j" "bit k j \<noteq> bit p j" by (auto simp: agree_bits)
    with same have "s + 4 \<le> ?m" by (meson leI le_trans)
    with s show "s + 4 \<le> sh" unfolding sh by presburger }
  { assume "\<forall>j \<ge> s. bit k j = bit p j"
    with diff have "?m < s" by (meson not_le)
    with s show "sh + 4 \<le> s" unfolding sh by presburger }
qed

end
