(* ===== verification/Critnib_Trie.thy ===== *)
theory Critnib_Trie
  imports Critnib_Bits
begin

text \<open>
  The tree a critnib represents, as a datatype with the addresses of its nodes and leaves:
  which leaves it has, when it is a well-formed radix tree (\<open>trie_ok\<close>), when its addresses are
  pairwise different (\<open>sep\<close>), and what replacing the subtree at a given depth on the path of
  a key does. The stores of the model refine these trees in \<open>Critnib_Heap\<close>.
\<close>

datatype ctree = E | Lf ptr u64 ptr | Nd ptr u64 nat "nat \<Rightarrow> ctree"

inductive has :: "ctree \<Rightarrow> u64 \<Rightarrow> ptr \<Rightarrow> ptr \<Rightarrow> bool" where
  has_Lf: "has (Lf l k v) k l v"
| has_Nd: "has (f i) k l v \<Longrightarrow> i < 16 \<Longrightarrow> has (Nd a p s f) k l v"

inductive_simps has_E [simp]: "has E k l v"
inductive_simps has_Lf_iff [simp]: "has (Lf a k' v') k l v"
inductive_simps has_Nd_iff: "has (Nd a p s f) k l v"

inductive nad :: "ctree \<Rightarrow> ptr \<Rightarrow> bool" where
  nad_here: "nad (Nd a p s f) a"
| nad_sub: "nad (f i) b \<Longrightarrow> i < 16 \<Longrightarrow> nad (Nd a p s f) b"

inductive_simps nad_E [simp]: "nad E b"
inductive_simps nad_Lf [simp]: "nad (Lf a k v) b"
inductive_simps nad_Nd: "nad (Nd a p s f) b"

definition lad :: "ctree \<Rightarrow> ptr \<Rightarrow> bool" where
  "lad t l \<longleftrightarrow> (\<exists>k v. has t k l v)"

lemma lad_E [simp]: "\<not> lad E l"
  by (simp add: lad_def)

lemma lad_Lf [simp]: "lad (Lf a k v) l \<longleftrightarrow> l = a"
  by (auto simp: lad_def)

lemma lad_Nd: "lad (Nd a p s f) l \<longleftrightarrow> (\<exists>i<16. lad (f i) l)"
  by (auto simp: lad_def has_Nd_iff)

section \<open>Well-formed tries\<close>

inductive trie_ok :: "ctree \<Rightarrow> bool" where
  ok_E: "trie_ok E"
| ok_Lf: "trie_ok (Lf l k v)"
| ok_Nd: "\<lbrakk> 4 dvd s; s \<le> 60; p AND path_mask s = p;
     \<forall>i<16. trie_ok (f i);
     \<forall>i<16. \<forall>k l v. has (f i) k l v \<longrightarrow> agree s k p \<and> slice_index k s = i;
     \<exists>i<16. \<exists>j<16. i \<noteq> j \<and> f i \<noteq> E \<and> f j \<noteq> E \<rbrakk> \<Longrightarrow> trie_ok (Nd a p s f)"

inductive_simps trie_ok_Nd: "trie_ok (Nd a p s f)"

declare ok_E [simp] ok_Lf [simp]

lemma trie_okD:
  assumes "trie_ok (Nd a p s f)"
  shows "4 dvd s" and "s \<le> 60" and "p AND path_mask s = p"
    and "\<And>i. i < 16 \<Longrightarrow> trie_ok (f i)"
    and "\<And>i k l v. has (f i) k l v \<Longrightarrow> i < 16 \<Longrightarrow> agree s k p"
    and "\<And>i k l v. has (f i) k l v \<Longrightarrow> i < 16 \<Longrightarrow> slice_index k s = i"
    and "\<exists>i<16. \<exists>j<16. i \<noteq> j \<and> f i \<noteq> E \<and> f j \<noteq> E"
  using assms unfolding trie_ok_Nd by blast+

lemma trie_ok_slice: "trie_ok (Nd a p s f) \<Longrightarrow> trie_ok (f (slice_index k s))"
  by (rule trie_okD(4)) simp_all

lemma has_agree:
  "trie_ok (Nd a p s f) \<Longrightarrow> has (Nd a p s f) k l v \<Longrightarrow> agree s k p"
  using trie_okD(5) by (auto simp: has_Nd_iff)

lemma has_child:
  "trie_ok (Nd a p s f) \<Longrightarrow> has (Nd a p s f) k l v \<longleftrightarrow> agree s k p \<and> has (f (slice_index k s)) k l v"
  using trie_okD(5,6) has_Nd slice_index_less unfolding has_Nd_iff by metis

lemma trie_nonempty: "trie_ok t \<Longrightarrow> t \<noteq> E \<Longrightarrow> \<exists>k l v. has t k l v"
proof (induction rule: trie_ok.induct)
  case (ok_Lf l k v)
  show ?case by auto
next
  case (ok_Nd s p f a)
  then obtain i k l v where "i < 16" "has (f i) k l v" by blast
  then show ?case by (blast intro: has_Nd)
qed simp

lemma has_unique: "trie_ok t \<Longrightarrow> has t k l v \<Longrightarrow> has t k l' v' \<Longrightarrow> l = l' \<and> v = v'"
proof (induction arbitrary: k rule: trie_ok.induct)
  case (ok_Nd s p f a)
  have ok: "trie_ok (Nd a p s f)" by (rule trie_ok.ok_Nd) (use ok_Nd in blast)+
  from ok_Nd.prems ok have "has (f (slice_index k s)) k l v" "has (f (slice_index k s)) k l' v'"
    by (simp_all add: has_child)
  with ok_Nd.IH show ?case by (meson slice_index_less)
qed auto

text \<open>Below a node the shift drops by at least one slice.\<close>

lemma child_shift:
  assumes ok: "trie_ok (Nd a p s f)" and i: "i < 16" and fi: "f i = Nd a' p' s' f'"
  shows "s' + 4 \<le> s"
proof -
  note okD = trie_okD [OF ok]
  from okD(4) [OF i] have ok': "trie_ok (Nd a' p' s' f')" by (simp add: fi)
  note okD' = trie_okD [OF ok']
  note s4 = okD(1) and s4' = okD'(1)
  from okD'(7) obtain j1 j2 where j: "j1 < 16" "j2 < 16" "j1 \<noteq> j2" "f' j1 \<noteq> E" "f' j2 \<noteq> E"
    by blast
  with okD'(4) obtain k1 l1 v1 k2 l2 v2 where h: "has (f' j1) k1 l1 v1" "has (f' j2) k2 l2 v2"
    by (meson trie_nonempty)
  with okD'(5,6) j have sl: "slice_index k1 s' = j1" "slice_index k2 s' = j2" "agree s' k1 k2"
    by (blast intro: agree_trans agree_sym)+
  from h j have "has (f i) k1 l1 v1" "has (f i) k2 l2 v2" by (auto simp: fi has_Nd_iff)
  with okD(5,6) i have b: "agree s k1 k2" "slice_index k1 s = slice_index k2 s"
    by (metis agree_trans agree_sym)+
  have "\<not> s \<le> s'"
  proof
    assume "s \<le> s'"
    with b have "\<forall>j \<ge> s'. bit k1 j = bit k2 j" by (auto simp: slice_eq_bits)
    with sl(3) have "slice_index k1 s' = slice_index k2 s'" by (simp add: slice_eq_bits)
    with sl j show False by simp
  qed
  with s4 s4' show ?thesis by presburger
qed

text \<open>The least and greatest keys of a node are in its outermost children.\<close>

lemma children_ordered:
  assumes "trie_ok (Nd a p s f)" and "i < j" and "j < 16"
    and "has (f i) k l v" and "has (f j) k' l' v'"
  shows "k < k'"
proof -
  from assms have "agree s k p" "slice_index k s = i" "agree s k' p" "slice_index k' s = j"
    using trie_okD(5,6) [OF assms(1)] by (meson less_trans)+
  with assms(2) show ?thesis by (intro slice_order [of s]) (auto intro: agree_trans agree_sym)
qed

section \<open>Separated addresses\<close>

inductive sep :: "ctree \<Rightarrow> bool" where
  sep_E: "sep E"
| sep_Lf: "sep (Lf l k v)"
| sep_Nd: "\<lbrakk> \<forall>i<16. sep (f i); \<forall>i<16. \<not> nad (f i) a;
     \<forall>i<16. \<forall>j<16. i \<noteq> j \<longrightarrow> (\<forall>b. \<not> (nad (f i) b \<and> nad (f j) b)) \<and> (\<forall>l. \<not> (lad (f i) l \<and> lad (f j) l)) \<rbrakk>
     \<Longrightarrow> sep (Nd a p s f)"

inductive_simps sep_Nd_iff: "sep (Nd a p s f)"

declare sep_E [simp] sep_Lf [simp]

section \<open>The subtree at a depth on the path of a key\<close>

fun tat :: "nat \<Rightarrow> u64 \<Rightarrow> ctree \<Rightarrow> ctree" where
  "tat 0 k t = t"
| "tat (Suc n) k (Nd a p s f) = tat n k (f (slice_index k s))"
| "tat (Suc n) k t = E"

fun tput :: "nat \<Rightarrow> u64 \<Rightarrow> ctree \<Rightarrow> ctree \<Rightarrow> ctree" where
  "tput 0 k x t = x"
| "tput (Suc n) k x (Nd a p s f) =
     Nd a p s (f(slice_index k s := tput n k x (f (slice_index k s))))"
| "tput (Suc n) k x t = t"

text \<open>The first \<open>n\<close> trees on the path are nodes; with \<open>tmatch\<close>, their paths are prefixes of the key.\<close>

fun tvalid :: "nat \<Rightarrow> u64 \<Rightarrow> ctree \<Rightarrow> bool" where
  "tvalid 0 k t = True"
| "tvalid (Suc n) k (Nd a p s f) = tvalid n k (f (slice_index k s))"
| "tvalid (Suc n) k t = False"

fun tmatch :: "nat \<Rightarrow> u64 \<Rightarrow> ctree \<Rightarrow> bool" where
  "tmatch 0 k t = True"
| "tmatch (Suc n) k (Nd a p s f) \<longleftrightarrow> agree s k p \<and> tmatch n k (f (slice_index k s))"
| "tmatch (Suc n) k t = False"

lemma tmatch_valid: "tmatch n k t \<Longrightarrow> tvalid n k t"
  by (induction n k t rule: tmatch.induct) auto

lemma tvalid_Suc: "tvalid (Suc n) k t \<longleftrightarrow> tvalid n k t \<and> (\<exists>a p s f. tat n k t = Nd a p s f)"
  by (induction n arbitrary: t; case_tac t) auto

lemma tat_Suc: "tat n k t = Nd a p s f \<Longrightarrow> tat (Suc n) k t = f (slice_index k s)"
proof (induction n arbitrary: t)
  case 0
  then show ?case by simp
next
  case (Suc n)
  then show ?case by (cases t) auto
qed

lemma tput_Suc: "tat n k t = Nd a p s f \<Longrightarrow>
    tput (Suc n) k x t = tput n k (Nd a p s (f(slice_index k s := x))) t"
proof (induction n arbitrary: t)
  case 0
  then show ?case by (simp add: fun_eq_iff)
next
  case (Suc n)
  then show ?case by (cases t) auto
qed

lemma tput_tput: "tput n k x (tput n k y t) = tput n k x t"
proof (induction n arbitrary: t)
  case (Suc n)
  then show ?case by (cases t) auto
qed simp

lemma tvalid_tput: "tvalid n k t \<Longrightarrow> tvalid n k (tput n k x t)"
proof (induction n arbitrary: t)
  case (Suc n)
  then show ?case by (cases t) auto
qed simp

lemma tat_tput: "tvalid n k t \<Longrightarrow> tat n k (tput n k x t) = x"
proof (induction n arbitrary: t)
  case (Suc n)
  then show ?case by (cases t) auto
qed simp

lemma has_tat: "has (tat n k t) k' l v \<Longrightarrow> has t k' l v"
  by (induction n k t rule: tat.induct) (auto intro: has_Nd)

lemma lad_tat: "lad (tat n k t) l \<Longrightarrow> lad t l"
  by (auto simp: lad_def dest: has_tat)

lemma nad_tat: "nad (tat n k t) b \<Longrightarrow> nad t b"
  by (induction n k t rule: tat.induct) (auto intro: nad_sub)

lemma trie_ok_tat: "trie_ok t \<Longrightarrow> trie_ok (tat n k t)"
  by (induction n k t rule: tat.induct) (auto dest: trie_ok_slice)

lemma sep_tat: "sep t \<Longrightarrow> sep (tat n k t)"
  by (induction n k t rule: tat.induct) (auto simp: sep_Nd_iff)

text \<open>A key of the tree is found at every depth of its own path.\<close>

lemma has_own_path: "trie_ok t \<Longrightarrow> has t k l v \<Longrightarrow> tvalid n k t \<Longrightarrow> has (tat n k t) k l v \<and> tmatch n k t"
  by (induction n k t rule: tat.induct) (auto simp: has_child dest: trie_ok_slice)

section \<open>What a replacement changes\<close>

lemma nad_tput: "nad (tput n k x t) b \<Longrightarrow> nad x b \<or> nad t b"
proof (induction n arbitrary: t)
  case (Suc n)
  show ?case
  proof (cases t)
    case (Nd a p s f)
    with Suc.prems Suc.IH show ?thesis by (auto simp: nad_Nd split: if_splits) (meson slice_index_less)
  qed (use Suc.prems in auto)
qed simp

lemma nad_tput_iff:
  "tvalid n k t \<Longrightarrow> sep t \<Longrightarrow> nad (tput n k x t) b \<longleftrightarrow> nad x b \<or> nad t b \<and> \<not> nad (tat n k t) b"
proof (induction n arbitrary: t)
  case (Suc n)
  then obtain a p s f where t: "t = Nd a p s f" by (cases t) auto
  let ?i = "slice_index k s"
  have i: "?i < 16" by simp
  from Suc.prems t have v: "tvalid n k (f ?i)" and sp: "sep (f ?i)" by (auto simp: sep_Nd_iff)
  note IH = Suc.IH [OF v sp]
  have "\<not> nad (tat n k (f ?i)) b" if "nad (f j) b" "j < 16" "j \<noteq> ?i" for j
    using that Suc.prems(2) t i nad_tat by (metis sep_Nd_iff)
  moreover have "\<not> nad (tat n k (f ?i)) a"
    using Suc.prems(2) t i nad_tat by (metis sep_Nd_iff)
  ultimately show ?case
    unfolding t by (auto simp: nad_Nd IH split: if_splits) (metis i)+
qed simp

lemma has_tput_iff:
  "tvalid n k t \<Longrightarrow> trie_ok t \<Longrightarrow>
     has (tput n k x t) k' l v \<longleftrightarrow> has x k' l v \<or> has t k' l v \<and> \<not> has (tat n k t) k' l v"
proof (induction n arbitrary: t)
  case (Suc n)
  then obtain a p s f where t: "t = Nd a p s f" by (cases t) auto
  let ?i = "slice_index k s"
  have i: "?i < 16" by simp
  from Suc.prems t have v: "tvalid n k (f ?i)" and ok: "trie_ok (f ?i)" by (auto dest: trie_ok_slice)
  note IH = Suc.IH [OF v ok]
  have "\<not> has (tat n k (f ?i)) k' l v" if "has (f j) k' l v" "j < 16" "j \<noteq> ?i" for j
    using that Suc.prems(2) t i has_tat trie_okD(6) by metis
  then show ?case
    unfolding t by (auto simp: has_Nd_iff IH split: if_splits) (metis i)+
qed simp

lemma lad_tput_iff:
  "tvalid n k t \<Longrightarrow> sep t \<Longrightarrow> lad (tput n k x t) l \<longleftrightarrow> lad x l \<or> lad t l \<and> \<not> lad (tat n k t) l"
proof (induction n arbitrary: t)
  case (Suc n)
  then obtain a p s f where t: "t = Nd a p s f" by (cases t) auto
  let ?i = "slice_index k s"
  have i: "?i < 16" by simp
  from Suc.prems t have v: "tvalid n k (f ?i)" and sp: "sep (f ?i)" by (auto simp: sep_Nd_iff)
  note IH = Suc.IH [OF v sp]
  have "\<not> lad (tat n k (f ?i)) l" if "lad (f j) l" "j < 16" "j \<noteq> ?i" for j
    using that Suc.prems(2) t i lad_tat by (metis sep_Nd_iff)
  then show ?case
    unfolding t by (auto simp: lad_Nd IH split: if_splits) (metis i)+
qed simp

lemma sep_tput:
  "\<lbrakk> tvalid n k t; sep t; sep x; \<forall>b. nad x b \<longrightarrow> nad (tat n k t) b \<or> \<not> nad t b;
     \<forall>l. lad x l \<longrightarrow> lad (tat n k t) l \<or> \<not> lad t l \<rbrakk> \<Longrightarrow> sep (tput n k x t)"
proof (induction n arbitrary: t)
  case (Suc n)
  then obtain a p s f where t: "t = Nd a p s f" by (cases t) auto
  let ?i = "slice_index k s"
  have i: "?i < 16" by simp
  from Suc.prems t have v: "tvalid n k (f ?i)" and sp: "sep (f ?i)" by (auto simp: sep_Nd_iff)
  have sub: "nad (f j) b \<Longrightarrow> j < 16 \<Longrightarrow> nad t b" "lad (f j) l \<Longrightarrow> j < 16 \<Longrightarrow> lad t l" for j b l
    by (auto simp: t nad_Nd lad_Nd)
  have new: "sep (tput n k x (f ?i))"
    by (rule Suc.IH) (use v sp Suc.prems sub i in \<open>auto simp: t\<close>)
  have x1: "nad x b \<Longrightarrow> nad (f ?i) b \<or> \<not> nad t b" and x2: "lad x l \<Longrightarrow> lad (f ?i) l \<or> \<not> lad t l" for b l
    using Suc.prems(4,5) nad_tat lad_tat by (auto simp: t)
  have n: "nad (tput n k x (f ?i)) b \<Longrightarrow> nad (f ?i) b \<or> \<not> nad t b" for b
    using x1 nad_tput by blast
  have m: "lad (tput n k x (f ?i)) l \<Longrightarrow> lad (f ?i) l \<or> \<not> lad t l" for l
    using x2 lad_tput_iff [OF v sp] by blast
  have here: "nad t a" by (simp add: t nad_Nd)
  have 1: "\<forall>j<16. sep ((f(?i := tput n k x (f ?i))) j)" using new Suc.prems(2) by (auto simp: t sep_Nd_iff)
  have 2: "\<forall>j<16. \<not> nad ((f(?i := tput n k x (f ?i))) j) a"
    using n [of a] here Suc.prems(2) i unfolding t sep_Nd_iff by (metis fun_upd_apply)
  have 3: "\<not> (nad (tput n k x (f ?i)) b \<and> nad (f j) b)" "\<not> (lad (tput n k x (f ?i)) l \<and> lad (f j) l)"
    if "j < 16" "j \<noteq> ?i" for j b l
    using n m sub that Suc.prems(2) i unfolding t sep_Nd_iff by meson+
  have 4: "\<not> (nad (f j) b \<and> nad (f j') b)" "\<not> (lad (f j) l \<and> lad (f j') l)"
    if "j < 16" "j' < 16" "j \<noteq> j'" for j j' b l
    using that Suc.prems(2) unfolding t sep_Nd_iff by meson+
  show ?case unfolding t tput.simps
    by (rule sep_Nd) (use 1 2 3 4 in \<open>auto\<close>)
qed simp

text \<open>A replacement by a non-empty trie whose keys belong to the place keeps the tree well-formed.\<close>

lemma trie_ok_tput:
  "\<lbrakk> trie_ok t; tmatch n k t; trie_ok x; x \<noteq> E;
     \<And>k' l v. has x k' l v \<Longrightarrow> k' = k \<or> (\<exists>l' v'. has (tat n k t) k' l' v') \<rbrakk>
   \<Longrightarrow> trie_ok (tput n k x t)"
proof (induction n arbitrary: t)
  case (Suc n)
  then obtain a p s f where t: "t = Nd a p s f" by (cases t) auto
  let ?i = "slice_index k s"
  have i: "?i < 16" by simp
  from Suc.prems t have ok: "trie_ok (f ?i)" and m: "tmatch n k (f ?i)" and ag: "agree s k p"
    by (auto dest: trie_ok_slice)
  have new: "trie_ok (tput n k x (f ?i))"
    by (rule Suc.IH) (use ok m Suc.prems in \<open>auto simp: t\<close>)
  have keys: "agree s k' p \<and> slice_index k' s = ?i" if h: "has (tput n k x (f ?i)) k' l v" for k' l v
  proof -
    from h have "has x k' l v \<or> has (f ?i) k' l v"
      using has_tput_iff [OF tmatch_valid [OF m] ok] by blast
    then have "k' = k \<or> (\<exists>l v. has (f ?i) k' l v)"
      using Suc.prems(5) has_tat by (fastforce simp: t)
    with ag trie_okD(5,6) [OF Suc.prems(1) [unfolded t]] i show ?thesis by blast
  qed
  have ne: "tput n k x (f ?i) \<noteq> E"
    using m Suc.prems(4) by (cases n; cases "f ?i") auto
  have two: "\<exists>i'<16. \<exists>j<16. i' \<noteq> j \<and> (f(?i := tput n k x (f ?i))) i' \<noteq> E \<and> (f(?i := tput n k x (f ?i))) j \<noteq> E"
    using trie_okD(7) [OF Suc.prems(1) [unfolded t]] ne by (metis fun_upd_apply)
  note okD = trie_okD [OF Suc.prems(1) [unfolded t]]
  show ?case unfolding t tput.simps
  proof (rule ok_Nd)
    show "\<forall>j<16. trie_ok ((f(?i := tput n k x (f ?i))) j)" using new okD(4) by simp
    show "\<forall>j<16. \<forall>k' l v. has ((f(?i := tput n k x (f ?i))) j) k' l v \<longrightarrow> agree s k' p \<and> slice_index k' s = j"
      using keys okD(5,6) by (metis fun_upd_apply)
  qed (use okD two in blast)+
qed simp

end
