(* ===== verification/Critnib_Heap.thy ===== *)
theory Critnib_Heap
  imports Critnib_Trie
begin

text \<open>
  How the stores of the critnib model represent a tree (\<open>crep\<close>), that the representation only
  depends on the tree's own addresses, what a store into a child slot does to it, and that
  the searches of the model, run on the stores, end and return what the tree holds.
\<close>

inductive crep :: "(ptr \<rightharpoonup> critnib_node) \<Rightarrow> (ptr \<rightharpoonup> critnib_leaf) \<Rightarrow> cptr \<Rightarrow> ctree \<Rightarrow> bool"
  for N L where
  crep_E: "crep N L CNull E"
| crep_Lf: "L l = Some lf \<Longrightarrow> l \<noteq> NULL \<Longrightarrow> crep N L (CLeaf l) (Lf l (key lf) (lvalue lf))"
| crep_Nd: "N a = Some nd \<Longrightarrow> \<forall>i<16. crep N L (child nd i) (f i) \<Longrightarrow>
     crep N L (CNode a) (Nd a (path nd) (shift nd) f)"

inductive_simps crep_E_iff [simp]: "crep N L p E"
inductive_simps crep_CNull [simp]: "crep N L CNull t"
inductive_simps crep_Lf_iff: "crep N L p (Lf l k v)"
inductive_simps crep_Nd_iff: "crep N L p (Nd a pa s f)"
inductive_cases crep_CLeafE: "crep N L (CLeaf l) t"
inductive_cases crep_CNodeE: "crep N L (CNode a) t"

lemmas crep_iffs = crep_Lf_iff crep_Nd_iff

lemma crep_CLeaf_iff:
  "crep N L (CLeaf l) t \<longleftrightarrow> (\<exists>lf. L l = Some lf \<and> l \<noteq> NULL \<and> t = Lf l (key lf) (lvalue lf))"
  by (auto elim: crep_CLeafE intro: crep_Lf)

lemma crep_E_CNull: "crep N L p t \<Longrightarrow> p = CNull \<longleftrightarrow> t = E"
  by (cases rule: crep.cases) auto

lemma crep_is_leaf: "crep N L p t \<Longrightarrow> is_leaf p \<longleftrightarrow> (\<exists>l k v. t = Lf l k v)"
  by (cases rule: crep.cases) auto

lemma crep_has: "crep N L p t \<Longrightarrow> has t k l v \<Longrightarrow> l \<noteq> NULL \<and> L l = Some \<lparr>key = k, lvalue = v\<rparr>"
  by (induction rule: crep.induct) (auto simp: has_Nd_iff)

lemma crep_lad: "crep N L p t \<Longrightarrow> lad t l \<Longrightarrow> l \<noteq> NULL \<and> l \<in> dom L"
  by (auto simp: lad_def dest: crep_has)

lemma crep_nad: "crep N L p t \<Longrightarrow> nad t b \<Longrightarrow> b \<in> dom N"
  by (induction rule: crep.induct) (auto simp: nad_Nd)

section \<open>Frame\<close>

lemma crep_frame:
  "crep N L p t \<Longrightarrow> (\<And>b. nad t b \<Longrightarrow> N' b = N b) \<Longrightarrow> (\<And>l. lad t l \<Longrightarrow> L' l = L l) \<Longrightarrow> crep N' L' p t"
proof (induction rule: crep.induct)
  case (crep_Lf l lf)
  then show ?case by (intro crep.crep_Lf) simp_all
next
  case (crep_Nd a nd f)
  have "N' a = Some nd" using crep_Nd by (simp add: nad_here)
  moreover have "\<forall>i<16. crep N' L' (child nd i) (f i)"
    using crep_Nd by (metis nad_sub lad_Nd)
  ultimately show ?case by (rule crep.crep_Nd)
qed simp

text \<open>A store into the slot the key takes at depth \<open>n\<close> replaces the subtree at depth \<open>n + 1\<close>.\<close>

lemma crep_tput:
  assumes "crep N L p t" and "sep t" and "tvalid n k t" and "tat n k t = Nd a pa s f"
    and "N a = Some nd"
    and "\<And>b. nad t b \<Longrightarrow> b \<noteq> a \<Longrightarrow> \<not> nad (tat (Suc n) k t) b \<Longrightarrow> N' b = N b"
    and "N' a = Some (nd\<lparr>child := (child nd)(slice_index k s := x)\<rparr>)"
    and "\<And>l. lad t l \<Longrightarrow> \<not> lad (tat (Suc n) k t) l \<Longrightarrow> L' l = L l"
    and "crep N' L' x X"
  shows "crep N' L' p (tput (Suc n) k X t)"
  using assms(1-4,6,8)
proof (induction n arbitrary: t p)
  case 0
  from 0 have t: "t = Nd a pa s f" by simp
  with 0 assms(5) have p: "p = CNode a" "path nd = pa" "shift nd = s"
    and ch: "\<forall>i<16. crep N L (child nd i) (f i)" by (auto simp: crep_iffs)
  let ?i = "slice_index k s"
  have "crep N' L' (child nd j) (f j)" if j: "j < 16" "j \<noteq> ?i" for j
  proof (rule crep_frame [of N L])
    show "crep N L (child nd j) (f j)" using ch j by simp
    have i: "?i < 16" by simp
    show "N' b = N b" if b: "nad (f j) b" for b
    proof (rule 0(5))
      show "nad t b" using b j by (auto simp: t nad_Nd)
      show "b \<noteq> a" using b j 0(2) unfolding t sep_Nd_iff by blast
      show "\<not> nad (tat (Suc 0) k t) b" using b j i 0(2) unfolding t sep_Nd_iff by (metis tat.simps)
    qed
    show "L' l = L l" if l: "lad (f j) l" for l
    proof (rule 0(6))
      show "lad t l" using l j by (auto simp: t lad_Nd)
      show "\<not> lad (tat (Suc 0) k t) l" using l j i 0(2) unfolding t sep_Nd_iff by (metis tat.simps)
    qed
  qed
  then have "\<forall>j<16. crep N' L' (child (nd\<lparr>child := (child nd)(?i := x)\<rparr>) j) ((f(?i := X)) j)"
    using assms(9) by simp
  from crep_Nd [where f = "f(?i := X)", OF assms(7) this] show ?case by (simp add: t p)
next
  case (Suc n)
  then obtain b q r g where t: "t = Nd b q r g" by (cases t) auto
  let ?i = "slice_index k r"
  have i: "?i < 16" by simp
  from Suc.prems t obtain m where m: "p = CNode b" "N b = Some m" "path m = q" "shift m = r"
    and ch: "\<forall>i<16. crep N L (child m i) (g i)" by (auto simp: crep_iffs)
  have at: "tat (Suc (Suc n)) k t = tat (Suc n) k (g ?i)" by (simp add: t)
  have gi: "nad (g ?i) a"
    using Suc.prems(4) nad_tat [of n k "g ?i" a] by (simp add: t nad_here)
  with Suc.prems(2) have ab: "a \<noteq> b" by (auto simp: t sep_Nd_iff)
  have "crep N' L' (child m ?i) (tput (Suc n) k X (g ?i))"
  proof (rule Suc.IH)
    show "crep N L (child m ?i) (g ?i)" using ch i by simp
    show "sep (g ?i)" "tvalid n k (g ?i)" "tat n k (g ?i) = Nd a pa s f"
      using Suc.prems by (auto simp: t sep_Nd_iff)
    show "N' c = N c" if "nad (g ?i) c" "c \<noteq> a" "\<not> nad (tat (Suc n) k (g ?i)) c" for c
      using that Suc.prems(5) [of c] nad_sub [where f = g, OF that(1) i] unfolding at by (simp add: t)
    show "L' l = L l" if "lad (g ?i) l" "\<not> lad (tat (Suc n) k (g ?i)) l" for l
      using that Suc.prems(6) [of l] i unfolding at unfolding t lad_Nd by metis
  qed
  moreover have "crep N' L' (child m j) (g j)" if j: "j < 16" "j \<noteq> ?i" for j
  proof (rule crep_frame [of N L])
    show "crep N L (child m j) (g j)" using ch j by simp
    show "N' c = N c" if c: "nad (g j) c" for c
    proof (rule Suc.prems(5))
      show "nad t c" using c j by (auto simp: t nad_Nd)
      show "c \<noteq> a" using c gi j i Suc.prems(2) unfolding t sep_Nd_iff by metis
      show "\<not> nad (tat (Suc (Suc n)) k t) c"
        using c j i Suc.prems(2) nad_tat unfolding at unfolding t sep_Nd_iff by metis
    qed
    show "L' l = L l" if l: "lad (g j) l" for l
    proof (rule Suc.prems(6))
      show "lad t l" using l j by (auto simp: t lad_Nd)
      show "\<not> lad (tat (Suc (Suc n)) k t) l"
        using l j i Suc.prems(2) lad_tat unfolding at unfolding t sep_Nd_iff by metis
    qed
  qed
  ultimately have all: "\<forall>j<16. crep N' L' (child m j) ((g(?i := tput (Suc n) k X (g ?i))) j)" by simp
  have "N' b = Some m"
  proof -
    have "\<not> nad (tat (Suc n) k (g ?i)) b"
      using Suc.prems(2) nad_tat i unfolding t sep_Nd_iff by metis
    then have "N' b = N b" using ab by (intro Suc.prems(5)) (auto simp: t nad_here)
    then show ?thesis by (simp add: m)
  qed
  from crep_Nd [where f = "g(?i := tput (Suc n) k X (g ?i))", OF this all]
  show ?case unfolding t m by (simp add: m)
qed

section \<open>Exact search\<close>

lemma get_walk:
  "crep (nodes c) (leaves c) p t \<Longrightarrow>
     \<exists>m n. get_walk c k p = Some m \<and> crep (nodes c) (leaves c) m (tat n k t) \<and> tvalid n k t
         \<and> (m = CNull \<or> is_leaf m)"
proof (induction rule: crep.induct)
  case crep_E
  then show ?case by (auto simp: get_walk.simps intro: exI [of _ 0])
next
  case (crep_Lf l lf)
  then show ?case
    by (auto simp: get_walk.simps crep_iffs intro!: exI [of _ 0])
next
  case (crep_Nd a nd f)
  then obtain m n where "get_walk c k (child nd (slice_index k (shift nd))) = Some m"
    "crep (nodes c) (leaves c) m (tat n k (f (slice_index k (shift nd))))"
    "tvalid n k (f (slice_index k (shift nd)))" "m = CNull \<or> is_leaf m"
    using slice_index_less by blast
  with crep_Nd(1) show ?case
    by (auto simp: get_walk.simps [of c k "CNode a"] intro!: exI [of _ "Suc n"])
qed

definition eq_spec :: "ctree \<Rightarrow> u64 \<Rightarrow> ptr \<Rightarrow> bool" where
  "eq_spec t k l \<longleftrightarrow> (if l = NULL then \<forall>l v. \<not> has t k l v else \<exists>v. has t k l v)"

lemma find_eq_correct:
  assumes rep: "crep (nodes c) (leaves c) p t" and ok: "trie_ok t"
  shows "\<exists>l. find_eq c p k = Some l \<and> eq_spec t k l"
proof -
  from get_walk [OF rep, of k] obtain m n where
    m: "get_walk c k p = Some m" "crep (nodes c) (leaves c) m (tat n k t)" "tvalid n k t"
      "m = CNull \<or> is_leaf m" by blast
  show ?thesis
  proof (cases m)
    case CNull
    with m have "tat n k t = E" by simp
    then have "\<not> has t k l v" for l v using has_own_path [OF ok _ m(3)] by force
    with m CNull show ?thesis by (simp add: find_eq_def eq_spec_def)
  next
    case (CNode a)
    with m(4) show ?thesis by simp
  next
    case (CLeaf l)
    with m(2) obtain lf where lf: "leaves c l = Some lf" "l \<noteq> NULL" "tat n k t = Lf l (key lf) (lvalue lf)"
      by (auto simp: crep_CLeaf_iff)
    have a: "\<exists>v. has t k l v" if "key lf = k"
      using has_tat [of n k t k l "lvalue lf"] lf that by auto
    have b: "\<not> has t k l' v" if "key lf \<noteq> k" for l' v
      using has_own_path [OF ok _ m(3)] lf that by force
    show ?thesis using m CLeaf lf a b by (auto simp: find_eq_def eq_spec_def)
  qed
qed

section \<open>Ordered search\<close>

lemma find_rev_upt_Some:
  "List.find P (rev [0..<n]) = Some i \<longleftrightarrow> i < n \<and> P i \<and> (\<forall>j. i < j \<and> j < n \<longrightarrow> \<not> P j)"
proof (induction n)
  case (Suc n)
  then show ?case by (auto simp: less_Suc_eq)
qed simp

lemma find_rev_upt_None: "List.find P (rev [0..<n]) = None \<longleftrightarrow> (\<forall>j<n. \<not> P j)"
  by (auto simp: find_None_iff)

lemma find_upt_Some:
  "List.find P [m..<n] = Some i \<longleftrightarrow> m \<le> i \<and> i < n \<and> P i \<and> (\<forall>j. m \<le> j \<and> j < i \<longrightarrow> \<not> P j)"
proof (induction "n - m" arbitrary: m)
  case 0
  then show ?case by simp
next
  case (Suc d)
  then have "m < n" by simp
  with Suc.hyps(1) [of "Suc m"] Suc.hyps(2) show ?case
    by (auto simp: upt_conv_Cons) (metis Suc_leI le_neq_implies_less)+
qed

lemma find_upt_None: "List.find P [m..<n] = None \<longleftrightarrow> (\<forall>j. m \<le> j \<and> j < n \<longrightarrow> \<not> P j)"
  by (auto simp: find_None_iff)

definition max_spec :: "ctree \<Rightarrow> ptr \<Rightarrow> bool" where
  "max_spec t l \<longleftrightarrow> (\<exists>k v. has t k l v \<and> (\<forall>k' l' v'. has t k' l' v' \<longrightarrow> k' \<le> k))"

definition min_spec :: "ctree \<Rightarrow> ptr \<Rightarrow> bool" where
  "min_spec t l \<longleftrightarrow> (\<exists>k v. has t k l v \<and> (\<forall>k' l' v'. has t k' l' v' \<longrightarrow> k \<le> k'))"

definition le_spec :: "ctree \<Rightarrow> u64 \<Rightarrow> ptr \<Rightarrow> bool" where
  "le_spec t k l \<longleftrightarrow>
     (if l = NULL then \<forall>k' l' v'. has t k' l' v' \<longrightarrow> k < k'
      else \<exists>k1 v1. has t k1 l v1 \<and> k1 \<le> k \<and> (\<forall>k' l' v'. has t k' l' v' \<longrightarrow> k' \<le> k \<longrightarrow> k' \<le> k1))"

definition ge_spec :: "ctree \<Rightarrow> u64 \<Rightarrow> ptr \<Rightarrow> bool" where
  "ge_spec t k l \<longleftrightarrow>
     (if l = NULL then \<forall>k' l' v'. has t k' l' v' \<longrightarrow> k' < k
      else \<exists>k1 v1. has t k1 l v1 \<and> k \<le> k1 \<and> (\<forall>k' l' v'. has t k' l' v' \<longrightarrow> k \<le> k' \<longrightarrow> k1 \<le> k'))"

lemma max_spec_Lf [simp]: "max_spec (Lf a k v) l \<longleftrightarrow> l = a"
  unfolding max_spec_def has_Lf_iff by auto

lemma min_spec_Lf [simp]: "min_spec (Lf a k v) l \<longleftrightarrow> l = a"
  unfolding min_spec_def has_Lf_iff by auto

lemma le_specD: "le_spec t k NULL \<Longrightarrow> has t k' l' v' \<Longrightarrow> k < k'"
  unfolding le_spec_def by (simp only: if_True)

lemma ge_specD: "ge_spec t k NULL \<Longrightarrow> has t k' l' v' \<Longrightarrow> k' < k"
  unfolding ge_spec_def by (simp only: if_True)

lemma le_specE:
  assumes "le_spec t k l" and "l \<noteq> NULL"
  obtains k1 v1 where "has t k1 l v1" "k1 \<le> k" "\<And>k' l' v'. has t k' l' v' \<Longrightarrow> k' \<le> k \<Longrightarrow> k' \<le> k1"
  using assms unfolding le_spec_def by (simp only: if_False) blast

lemma ge_specE:
  assumes "ge_spec t k l" and "l \<noteq> NULL"
  obtains k1 v1 where "has t k1 l v1" "k \<le> k1" "\<And>k' l' v'. has t k' l' v' \<Longrightarrow> k \<le> k' \<Longrightarrow> k1 \<le> k'"
  using assms unfolding ge_spec_def by (simp only: if_False) blast

text \<open>The extreme leaf of a node is the extreme leaf of its outermost non-empty child.\<close>

lemma max_spec_child:
  assumes ok: "trie_ok (Nd a p s f)" and i: "i < 16" and "max_spec (f i) l"
    and above: "\<forall>j. i < j \<and> j < 16 \<longrightarrow> f j = E"
  shows "max_spec (Nd a p s f) l"
proof -
  from assms(3) obtain k v where k: "has (f i) k l v" "\<And>k' l' v'. has (f i) k' l' v' \<Longrightarrow> k' \<le> k"
    unfolding max_spec_def by blast
  have "k' \<le> k" if h: "has (f j) k' l' v'" "j < 16" for j k' l' v'
  proof -
    have "j \<le> i" using h above by (metis has_E not_le)
    then consider "j = i" | "j < i" by linarith
    then show ?thesis
      using k h i children_ordered [OF ok _ i h(1) k(1)] by cases auto
  qed
  with k i show ?thesis unfolding max_spec_def has_Nd_iff by blast
qed

lemma min_spec_child:
  assumes ok: "trie_ok (Nd a p s f)" and i: "i < 16" and "min_spec (f i) l"
    and below: "\<forall>j. j < i \<longrightarrow> f j = E"
  shows "min_spec (Nd a p s f) l"
proof -
  from assms(3) obtain k v where k: "has (f i) k l v" "\<And>k' l' v'. has (f i) k' l' v' \<Longrightarrow> k \<le> k'"
    unfolding min_spec_def by blast
  have "k \<le> k'" if h: "has (f j) k' l' v'" "j < 16" for j k' l' v'
  proof -
    have "i \<le> j" using h below by (metis has_E not_le)
    then consider "j = i" | "i < j" by linarith
    then show ?thesis
      using k h i children_ordered [OF ok _ h(2) k(1) h(1)] by cases auto
  qed
  with k i show ?thesis unfolding min_spec_def has_Nd_iff by blast
qed

lemma find_predecessor_correct:
  "crep (nodes c) (leaves c) p t \<Longrightarrow> trie_ok t \<Longrightarrow> t \<noteq> E \<Longrightarrow> \<not> is_leaf p \<Longrightarrow>
     \<exists>l. find_predecessor c p = Some l \<and> max_spec t l"
proof (induction rule: crep.induct)
  case (crep_Nd a nd f)
  let ?P = "\<lambda>nib. child nd nib \<noteq> CNull"
  note okD = trie_okD [OF crep_Nd.prems(1)]
  have ch: "crep (nodes c) (leaves c) (child nd j) (f j)" if "j < 16" for j
    using crep_Nd.IH that by simp
  then have E: "?P j \<longleftrightarrow> f j \<noteq> E" if "j < 16" for j using that crep_E_CNull by blast
  from okD(7) E have "List.find ?P (rev [0..<SLNODES]) \<noteq> None"
    unfolding SLNODES_def find_rev_upt_None by blast
  then obtain i where fi: "List.find ?P (rev [0..<SLNODES]) = Some i" by blast
  then have i: "i < 16" "f i \<noteq> E" and above: "\<forall>j. i < j \<and> j < 16 \<longrightarrow> f j = E"
    unfolding SLNODES_def find_rev_upt_Some using E by auto
  have "\<exists>l. (if is_leaf (child nd i) then Some (to_leaf (child nd i)) else find_predecessor c (child nd i)) = Some l
          \<and> max_spec (f i) l"
  proof (cases "f i")
    case (Lf l k v)
    with ch [OF i(1)] show ?thesis by (auto simp: crep_iffs max_spec_def)
  next
    case (Nd b q r g)
    with ch [OF i(1)] have "\<not> is_leaf (child nd i)" by (auto simp: crep_iffs)
    with crep_Nd.IH i okD(4) Nd show ?thesis by auto
  qed (use i in simp)
  with fi i above crep_Nd.hyps crep_Nd.prems(1) show ?case
    by (auto simp: find_predecessor.simps [of c "CNode a"] Let_def intro: max_spec_child)
qed auto

lemma find_successor_correct:
  "crep (nodes c) (leaves c) p t \<Longrightarrow> trie_ok t \<Longrightarrow> t \<noteq> E \<Longrightarrow> \<not> is_leaf p \<Longrightarrow>
     \<exists>l. find_successor c p = Some l \<and> min_spec t l"
proof (induction rule: crep.induct)
  case (crep_Nd a nd f)
  let ?P = "\<lambda>nib. child nd nib \<noteq> CNull"
  note okD = trie_okD [OF crep_Nd.prems(1)]
  have ch: "crep (nodes c) (leaves c) (child nd j) (f j)" if "j < 16" for j
    using crep_Nd.IH that by simp
  then have E: "?P j \<longleftrightarrow> f j \<noteq> E" if "j < 16" for j using that crep_E_CNull by blast
  from okD(7) E have "List.find ?P [0..<SLNODES] \<noteq> None"
    unfolding SLNODES_def find_upt_None by blast
  then obtain i where fi: "List.find ?P [0..<SLNODES] = Some i" by blast
  then have i: "i < 16" "f i \<noteq> E" and below: "\<forall>j. j < i \<longrightarrow> f j = E"
    unfolding SLNODES_def find_upt_Some using E by auto
  have "\<exists>l. (if is_leaf (child nd i) then Some (to_leaf (child nd i)) else find_successor c (child nd i)) = Some l
          \<and> min_spec (f i) l"
  proof (cases "f i")
    case (Lf l k v)
    with ch [OF i(1)] show ?thesis by (auto simp: crep_iffs min_spec_def)
  next
    case (Nd b q r g)
    with ch [OF i(1)] have "\<not> is_leaf (child nd i)" by (auto simp: crep_iffs)
    with crep_Nd.IH i okD(4) Nd show ?thesis by auto
  qed (use i in simp)
  with fi i below crep_Nd.hyps crep_Nd.prems(1) show ?case
    by (auto simp: find_successor.simps [of c "CNode a"] Let_def intro: min_spec_child)
qed auto

lemma max_leaf:
  assumes rep: "crep (nodes c) (leaves c) p t" and "trie_ok t" and "t \<noteq> E"
  shows "\<exists>l. (if is_leaf p then Some (to_leaf p) else find_predecessor c p) = Some l
      \<and> max_spec t l \<and> l \<noteq> NULL"
proof -
  have "\<exists>l. (if is_leaf p then Some (to_leaf p) else find_predecessor c p) = Some l \<and> max_spec t l"
    using assms find_predecessor_correct [OF rep] crep_is_leaf [OF rep]
    by (auto simp: crep_iffs)
  moreover have "l \<noteq> NULL" if "max_spec t l" for l
    using that crep_has [OF rep] by (auto simp: max_spec_def)
  ultimately show ?thesis by blast
qed

text \<open>The result below a node, from the result in the child on the key's path and the one to its left.\<close>

lemma le_spec_left:
  assumes ok: "trie_ok (Nd a p s f)" and ag: "agree s k p"
    and none: "le_spec (f (slice_index k s)) k NULL"
    and i: "i < slice_index k s" and m: "max_spec (f i) l" and l: "l \<noteq> NULL"
    and gap: "\<forall>j. i < j \<and> j < slice_index k s \<longrightarrow> f j = E"
  shows "le_spec (Nd a p s f) k l"
proof -
  note okD = trie_okD [OF ok]
  let ?i = "slice_index k s"
  have i16: "i < 16" "?i < 16" using i slice_index_less [of k s] by linarith+
  from m obtain k1 v1 where k1: "has (f i) k1 l v1" "\<And>k' l' v'. has (f i) k' l' v' \<Longrightarrow> k' \<le> k1"
    unfolding max_spec_def by blast
  from okD(5,6) k1(1) i16 have "agree s k1 p" "slice_index k1 s = i" by blast+
  with ag i have lt: "k1 < k" by (intro slice_order [of s]) (auto intro: agree_trans agree_sym)
  have "k' \<le> k1" if h: "has (f j) k' l' v'" "j < 16" "k' \<le> k" for j k' l' v'
  proof -
    have "\<not> ?i < j"
    proof
      assume "?i < j"
      moreover have "agree s k' p" "slice_index k' s = j" using okD(5,6) h by blast+
      ultimately have "k < k'" using ag by (intro slice_order [of s]) (auto intro: agree_trans agree_sym)
      with h show False by simp
    qed
    moreover have "j \<noteq> ?i" using le_specD [OF none] h by force
    ultimately have "j \<le> i" using gap h by (metis has_E linorder_neqE_nat not_le)
    then consider "j = i" | "j < i" by linarith
    then show ?thesis
      using k1 h children_ordered [OF ok _ i16(1) h(1) k1(1)] by cases auto
  qed
  with k1 lt l i16 show ?thesis unfolding le_spec_def has_Nd_iff
    by (simp only: if_False) (meson less_imp_le)
qed

lemma le_spec_none:
  assumes ok: "trie_ok (Nd a p s f)" and ag: "agree s k p"
    and none: "le_spec (f (slice_index k s)) k NULL"
    and gap: "\<forall>j < slice_index k s. f j = E"
  shows "le_spec (Nd a p s f) k NULL"
proof -
  note okD = trie_okD [OF ok]
  let ?i = "slice_index k s"
  have "k < k'" if h: "has (f j) k' l' v'" "j < 16" for j k' l' v'
  proof -
    consider "j < ?i" | "j = ?i" | "?i < j" by linarith
    then show ?thesis
    proof cases
      case 3
      moreover have "agree s k' p" "slice_index k' s = j" using okD(5,6) h by blast+
      ultimately show ?thesis using ag by (intro slice_order [of s]) (auto intro: agree_trans agree_sym)
    qed (use h gap le_specD [OF none] in auto)
  qed
  then show ?thesis unfolding le_spec_def has_Nd_iff by auto
qed

lemma le_spec_here:
  assumes ok: "trie_ok (Nd a p s f)" and ag: "agree s k p"
    and here: "le_spec (f (slice_index k s)) k l" and l: "l \<noteq> NULL"
  shows "le_spec (Nd a p s f) k l"
proof -
  note okD = trie_okD [OF ok]
  let ?i = "slice_index k s"
  have i16: "?i < 16" by simp
  from le_specE [OF here l] obtain k1 v1 where k1: "has (f ?i) k1 l v1" "k1 \<le> k"
      "\<And>k' l' v'. has (f ?i) k' l' v' \<Longrightarrow> k' \<le> k \<Longrightarrow> k' \<le> k1" by blast
  have "k' \<le> k1" if h: "has (f j) k' l' v'" "j < 16" "k' \<le> k" for j k' l' v'
  proof -
    consider "j < ?i" | "j = ?i" | "?i < j" by linarith
    then show ?thesis
    proof cases
      case 1
      then show ?thesis using children_ordered [OF ok _ i16 h(1) k1(1)] by simp
    next
      case 3
      moreover have "agree s k' p" "slice_index k' s = j" using okD(5,6) h by blast+
      ultimately have "k < k'" using ag by (intro slice_order [of s]) (auto intro: agree_trans agree_sym)
      with h show ?thesis by simp
    qed (use k1 h in auto)
  qed
  with k1 l i16 show ?thesis unfolding le_spec_def has_Nd_iff by (simp only: if_False) blast
qed

lemma le_spec_outside:
  assumes ok: "trie_ok (Nd a p s f)" and out: "\<not> agree s k p"
  shows "p < k \<Longrightarrow> max_spec (Nd a p s f) l \<Longrightarrow> l \<noteq> NULL \<Longrightarrow> le_spec (Nd a p s f) k l"
    and "\<not> p < k \<Longrightarrow> le_spec (Nd a p s f) k NULL"
proof -
  assume "p < k" and m: "max_spec (Nd a p s f) l" and l: "l \<noteq> NULL"
  then have "k' < k" if "has (Nd a p s f) k' l' v'" for k' l' v'
    using prefix_order [OF out has_agree [OF ok that]] by simp
  with m l show "le_spec (Nd a p s f) k l"
    unfolding max_spec_def le_spec_def by (simp only: if_False) (meson less_imp_le)
next
  assume "\<not> p < k"
  moreover have "p \<noteq> k" using out by auto
  ultimately have "k < k'" if "has (Nd a p s f) k' l' v'" for k' l' v'
    using prefix_order' [OF out has_agree [OF ok that]] by simp
  then show "le_spec (Nd a p s f) k NULL" by (auto simp: le_spec_def)
qed

lemma find_le_correct:
  "crep (nodes c) (leaves c) p t \<Longrightarrow> trie_ok t \<Longrightarrow> \<exists>l. find_le c p k = Some l \<and> le_spec t k l"
proof (induction rule: crep.induct)
  case crep_E
  then show ?case by (simp add: find_le.simps le_spec_def)
next
  case (crep_Lf l lf)
  then show ?case by (auto simp: find_le.simps le_spec_def)
next
  case (crep_Nd a nd f)
  let ?t = "Nd a (path nd) (shift nd) f" and ?i = "slice_index k (shift nd)"
  note ok = crep_Nd.prems
  have ch: "crep (nodes c) (leaves c) (child nd j) (f j)" if "j < 16" for j
    using crep_Nd.IH that by simp
  have rep: "crep (nodes c) (leaves c) (CNode a) ?t"
    by (rule crep.crep_Nd) (use crep_Nd ch in auto)
  note unf = find_le.simps [of c "CNode a"]
  show ?case
  proof (cases "agree (shift nd) k (path nd)")
    case False
    from find_predecessor_correct [OF rep ok] obtain l where
      l: "find_predecessor c (CNode a) = Some l" "max_spec ?t l" by auto
    then have "l \<noteq> NULL" using crep_has [OF rep] by (auto simp: max_spec_def)
    with l False le_spec_outside [OF ok False] crep_Nd.hyps show ?thesis
      by (auto simp: unf outside_agree)
  next
    case True
    obtain r where r: "find_le c (child nd ?i) k = Some r" "le_spec (f ?i) k r"
      using crep_Nd.IH trie_ok_slice [OF ok] slice_index_less by blast
    show ?thesis
    proof (cases "r = NULL")
      case False
      with r True crep_Nd.hyps le_spec_here [OF ok True r(2)] show ?thesis
        by (auto simp: unf outside_agree)
    next
      case rN: True
      have E: "child nd j \<noteq> CNull \<longleftrightarrow> f j \<noteq> E" if "j < 16" for j
        using crep_E_CNull [OF ch [OF that]] by simp
      show ?thesis
      proof (cases "List.find (\<lambda>j. child nd j \<noteq> CNull) (rev [0..<?i])")
        case None
        then have "\<forall>j < ?i. f j = E"
          unfolding find_rev_upt_None using E slice_index_less by (metis less_trans)
        with r rN True None crep_Nd.hyps le_spec_none [OF ok True] show ?thesis
          by (auto simp: unf outside_agree)
      next
        case (Some j)
        then have j: "j < ?i" "j < 16" "f j \<noteq> E" "\<forall>j'. j < j' \<and> j' < ?i \<longrightarrow> f j' = E"
          unfolding find_rev_upt_Some using E slice_index_less by (metis less_trans)+
        obtain l where l: "(if is_leaf (child nd j) then Some (to_leaf (child nd j)) else find_predecessor c (child nd j)) = Some l"
          "max_spec (f j) l" "l \<noteq> NULL"
          using max_leaf [OF ch [OF j(2)] trie_okD(4) [OF ok j(2)] j(3)] by blast
        with r rN True Some l crep_Nd.hyps le_spec_left [OF ok True _ j(1) l(2)] j show ?thesis
          by (auto simp: unf outside_agree Let_def)
      qed
    qed
  qed
qed

lemma min_leaf:
  assumes rep: "crep (nodes c) (leaves c) p t" and "trie_ok t" and "t \<noteq> E"
  shows "\<exists>l. (if is_leaf p then Some (to_leaf p) else find_successor c p) = Some l
      \<and> min_spec t l \<and> l \<noteq> NULL"
proof -
  have "\<exists>l. (if is_leaf p then Some (to_leaf p) else find_successor c p) = Some l \<and> min_spec t l"
    using assms find_successor_correct [OF rep] crep_is_leaf [OF rep]
    by (auto simp: crep_iffs)
  moreover have "l \<noteq> NULL" if "min_spec t l" for l
    using that crep_has [OF rep] by (auto simp: min_spec_def)
  ultimately show ?thesis by blast
qed

text \<open>The same upwards.\<close>

lemma ge_spec_right:
  assumes ok: "trie_ok (Nd a p s f)" and ag: "agree s k p"
    and none: "ge_spec (f (slice_index k s)) k NULL"
    and i: "slice_index k s < i" "i < 16" and m: "min_spec (f i) l" and l: "l \<noteq> NULL"
    and gap: "\<forall>j. slice_index k s < j \<and> j < i \<longrightarrow> f j = E"
  shows "ge_spec (Nd a p s f) k l"
proof -
  note okD = trie_okD [OF ok]
  let ?i = "slice_index k s"
  from m obtain k1 v1 where k1: "has (f i) k1 l v1" "\<And>k' l' v'. has (f i) k' l' v' \<Longrightarrow> k1 \<le> k'"
    unfolding min_spec_def by blast
  from okD(5,6) k1(1) i have "agree s k1 p" "slice_index k1 s = i" by blast+
  with ag i have lt: "k < k1" by (intro slice_order [of s]) (auto intro: agree_trans agree_sym)
  have "k1 \<le> k'" if h: "has (f j) k' l' v'" "j < 16" "k \<le> k'" for j k' l' v'
  proof -
    have "\<not> j < ?i"
    proof
      assume "j < ?i"
      moreover have "agree s k' p" "slice_index k' s = j" using okD(5,6) h by blast+
      ultimately have "k' < k" using ag by (intro slice_order [of s]) (auto intro: agree_trans agree_sym)
      with h show False by simp
    qed
    moreover have "j \<noteq> ?i" using ge_specD [OF none] h by force
    ultimately have "i \<le> j" using gap h by (metis has_E linorder_neqE_nat not_le)
    then consider "j = i" | "i < j" by linarith
    then show ?thesis
      using k1 h children_ordered [OF ok _ h(2) k1(1) h(1)] by cases auto
  qed
  with k1 lt l i show ?thesis unfolding ge_spec_def has_Nd_iff
    by (simp only: if_False) (meson less_imp_le)
qed

lemma ge_spec_none:
  assumes ok: "trie_ok (Nd a p s f)" and ag: "agree s k p"
    and none: "ge_spec (f (slice_index k s)) k NULL"
    and gap: "\<forall>j. slice_index k s < j \<and> j < 16 \<longrightarrow> f j = E"
  shows "ge_spec (Nd a p s f) k NULL"
proof -
  note okD = trie_okD [OF ok]
  let ?i = "slice_index k s"
  have "k' < k" if h: "has (f j) k' l' v'" "j < 16" for j k' l' v'
  proof -
    consider "j < ?i" | "j = ?i" | "?i < j" by linarith
    then show ?thesis
    proof cases
      case 1
      moreover have "agree s k' p" "slice_index k' s = j" using okD(5,6) h by blast+
      ultimately show ?thesis using ag by (intro slice_order [of s]) (auto intro: agree_trans agree_sym)
    qed (use h gap ge_specD [OF none] in auto)
  qed
  then show ?thesis unfolding ge_spec_def has_Nd_iff by auto
qed

lemma ge_spec_here:
  assumes ok: "trie_ok (Nd a p s f)" and ag: "agree s k p"
    and here: "ge_spec (f (slice_index k s)) k l" and l: "l \<noteq> NULL"
  shows "ge_spec (Nd a p s f) k l"
proof -
  note okD = trie_okD [OF ok]
  let ?i = "slice_index k s"
  have i16: "?i < 16" by simp
  from ge_specE [OF here l] obtain k1 v1 where k1: "has (f ?i) k1 l v1" "k \<le> k1"
      "\<And>k' l' v'. has (f ?i) k' l' v' \<Longrightarrow> k \<le> k' \<Longrightarrow> k1 \<le> k'" by blast
  have "k1 \<le> k'" if h: "has (f j) k' l' v'" "j < 16" "k \<le> k'" for j k' l' v'
  proof -
    consider "j < ?i" | "j = ?i" | "?i < j" by linarith
    then show ?thesis
    proof cases
      case 3
      then show ?thesis using children_ordered [OF ok _ h(2) k1(1) h(1)] by simp
    next
      case 1
      moreover have "agree s k' p" "slice_index k' s = j" using okD(5,6) h by blast+
      ultimately have "k' < k" using ag by (intro slice_order [of s]) (auto intro: agree_trans agree_sym)
      with h show ?thesis by simp
    qed (use k1 h in auto)
  qed
  with k1 l i16 show ?thesis unfolding ge_spec_def has_Nd_iff by (simp only: if_False) blast
qed

lemma ge_spec_outside:
  assumes ok: "trie_ok (Nd a p s f)" and out: "\<not> agree s k p"
  shows "k < p \<Longrightarrow> min_spec (Nd a p s f) l \<Longrightarrow> l \<noteq> NULL \<Longrightarrow> ge_spec (Nd a p s f) k l"
    and "\<not> k < p \<Longrightarrow> ge_spec (Nd a p s f) k NULL"
proof -
  assume "k < p" and m: "min_spec (Nd a p s f) l" and l: "l \<noteq> NULL"
  then have "k < k'" if "has (Nd a p s f) k' l' v'" for k' l' v'
    using prefix_order' [OF out has_agree [OF ok that]] by simp
  with m l show "ge_spec (Nd a p s f) k l"
    unfolding min_spec_def ge_spec_def by (simp only: if_False) (meson less_imp_le)
next
  assume "\<not> k < p"
  moreover have "p \<noteq> k" using out by auto
  ultimately have "k' < k" if "has (Nd a p s f) k' l' v'" for k' l' v'
    using prefix_order [OF out has_agree [OF ok that]] by simp
  then show "ge_spec (Nd a p s f) k NULL" by (auto simp: ge_spec_def)
qed

lemma find_ge_correct:
  "crep (nodes c) (leaves c) p t \<Longrightarrow> trie_ok t \<Longrightarrow> \<exists>l. find_ge c p k = Some l \<and> ge_spec t k l"
proof (induction rule: crep.induct)
  case crep_E
  then show ?case by (simp add: find_ge.simps ge_spec_def)
next
  case (crep_Lf l lf)
  then show ?case by (auto simp: find_ge.simps ge_spec_def)
next
  case (crep_Nd a nd f)
  let ?t = "Nd a (path nd) (shift nd) f" and ?i = "slice_index k (shift nd)"
  note ok = crep_Nd.prems
  have ch: "crep (nodes c) (leaves c) (child nd j) (f j)" if "j < 16" for j
    using crep_Nd.IH that by simp
  have rep: "crep (nodes c) (leaves c) (CNode a) ?t"
    by (rule crep.crep_Nd) (use crep_Nd ch in auto)
  note unf = find_ge.simps [of c "CNode a"]
  show ?case
  proof (cases "agree (shift nd) k (path nd)")
    case False
    from find_successor_correct [OF rep ok] obtain l where
      l: "find_successor c (CNode a) = Some l" "min_spec ?t l" by auto
    then have "l \<noteq> NULL" using crep_has [OF rep] by (auto simp: min_spec_def)
    with l False ge_spec_outside [OF ok False] crep_Nd.hyps show ?thesis
      by (auto simp: unf outside_agree)
  next
    case True
    obtain r where r: "find_ge c (child nd ?i) k = Some r" "ge_spec (f ?i) k r"
      using crep_Nd.IH trie_ok_slice [OF ok] slice_index_less by blast
    show ?thesis
    proof (cases "r = NULL")
      case False
      with r True crep_Nd.hyps ge_spec_here [OF ok True r(2)] show ?thesis
        by (auto simp: unf outside_agree)
    next
      case rN: True
      have E: "child nd j \<noteq> CNull \<longleftrightarrow> f j \<noteq> E" if "j < 16" for j
        using crep_E_CNull [OF ch [OF that]] by simp
      show ?thesis
      proof (cases "List.find (\<lambda>j. child nd j \<noteq> CNull) [Suc ?i..<SLNODES]")
        case None
        then have "\<forall>j. ?i < j \<and> j < 16 \<longrightarrow> f j = E"
          unfolding SLNODES_def find_upt_None using E by (metis Suc_leI)
        with r rN True None crep_Nd.hyps ge_spec_none [OF ok True] show ?thesis
          by (auto simp: unf outside_agree)
      next
        case (Some j)
        then have "Suc ?i \<le> j" "j < 16" "child nd j \<noteq> CNull" "\<forall>j'. Suc ?i \<le> j' \<and> j' < j \<longrightarrow> child nd j' = CNull"
          unfolding SLNODES_def find_upt_Some by blast+
        then have j: "?i < j" "j < 16" "f j \<noteq> E" "\<forall>j'. ?i < j' \<and> j' < j \<longrightarrow> f j' = E"
          using E by (auto simp: Suc_le_eq)
        obtain l where l: "(if is_leaf (child nd j) then Some (to_leaf (child nd j)) else find_successor c (child nd j)) = Some l"
          "min_spec (f j) l" "l \<noteq> NULL"
          using min_leaf [OF ch [OF j(2)] trie_okD(4) [OF ok j(2)] j(3)] by blast
        with r rN True Some l crep_Nd.hyps ge_spec_right [OF ok True _ j(1,2) l(2)] j show ?thesis
          by (auto simp: unf outside_agree Let_def)
      qed
    qed
  qed
qed

end
