(* ===== verification/Critnib_State.thy ===== *)
theory Critnib_State
  imports Critnib_Heap
begin

text \<open>
  The ownership invariant of a critnib: its root represents a tree, and its memory is
  divided between that tree, the pools of deleted nodes and leaves, the objects that wait
  for reuse, and the objects an operation holds in its hands (\<open>XN\<close> and \<open>XL\<close>). One lemma per
  primitive says how it moves an object between these owners.
\<close>

definition part4 :: "'a set \<Rightarrow> 'a set \<Rightarrow> 'a set \<Rightarrow> 'a set \<Rightarrow> 'a set \<Rightarrow> bool" where
  "part4 D A B C X \<longleftrightarrow> D = A \<union> B \<union> C \<union> X \<and> A \<inter> (B \<union> C \<union> X) = {} \<and> B \<inter> (C \<union> X) = {} \<and> C \<inter> X = {}"

primrec dn_list :: "(ptr \<rightharpoonup> critnib_node) \<Rightarrow> cptr \<Rightarrow> ptr list \<Rightarrow> bool" where
  "dn_list N p [] \<longleftrightarrow> p = CNull"
| "dn_list N p (a # as) \<longleftrightarrow> p = CNode a \<and> (\<exists>n. N a = Some n \<and> dn_list N (child n 0) as)"

primrec dl_list :: "(ptr \<rightharpoonup> critnib_leaf) \<Rightarrow> ptr \<Rightarrow> ptr list \<Rightarrow> bool" where
  "dl_list L p [] \<longleftrightarrow> p = NULL"
| "dl_list L p (a # as) \<longleftrightarrow> p = a \<and> a \<noteq> NULL \<and> (\<exists>l. L a = Some l \<and> dl_list L (lvalue l) as)"

lemma dn_list_frame: "dn_list N p as \<Longrightarrow> (\<And>a. a \<in> set as \<Longrightarrow> N' a = N a) \<Longrightarrow> dn_list N' p as"
  by (induction as arbitrary: p) auto

lemma dl_list_frame: "dl_list L p as \<Longrightarrow> (\<And>a. a \<in> set as \<Longrightarrow> L' a = L a) \<Longrightarrow> dl_list L' p as"
  by (induction as arbitrary: p) auto

lemma dn_list_CNull [simp]: "dn_list N CNull as \<longleftrightarrow> as = []"
  by (cases as) auto

lemma dl_list_NULL [simp]: "dl_list L NULL as \<longleftrightarrow> as = []"
  by (cases as) auto

definition pnodes :: "critnib \<Rightarrow> ptr set" where
  "pnodes c = {a. \<exists>i<16. pending_del_nodes c i = CNode a}"

definition pleaves :: "critnib \<Rightarrow> ptr set" where
  "pleaves c = {l. l \<noteq> NULL \<and> (\<exists>i<16. pending_del_leaves c i = l)}"

definition pend_nodes_ok :: "critnib \<Rightarrow> bool" where
  "pend_nodes_ok c \<longleftrightarrow> (\<forall>i<16. \<not> is_leaf (pending_del_nodes c i)) \<and>
     (\<forall>i<16. \<forall>j<16. i \<noteq> j \<longrightarrow> pending_del_nodes c i = pending_del_nodes c j \<longrightarrow> pending_del_nodes c i = CNull)"

definition pend_leaves_ok :: "critnib \<Rightarrow> bool" where
  "pend_leaves_ok c \<longleftrightarrow>
     (\<forall>i<16. \<forall>j<16. i \<noteq> j \<longrightarrow> pending_del_leaves c i = pending_del_leaves c j \<longrightarrow> pending_del_leaves c i = NULL)"

definition node_part :: "critnib \<Rightarrow> ctree \<Rightarrow> ptr list \<Rightarrow> ptr set \<Rightarrow> bool" where
  "node_part c t DN XN \<longleftrightarrow>
     dn_list (nodes c) (deleted_node c) DN \<and> distinct DN \<and> pend_nodes_ok c \<and>
     part4 (dom (nodes c)) {a. nad t a} (set DN) (pnodes c) XN"

definition leaf_part :: "critnib \<Rightarrow> ctree \<Rightarrow> ptr list \<Rightarrow> ptr set \<Rightarrow> bool" where
  "leaf_part c t DL XL \<longleftrightarrow>
     dl_list (leaves c) (deleted_leaf c) DL \<and> distinct DL \<and> pend_leaves_ok c \<and>
     NULL \<notin> dom (leaves c) \<and>
     part4 (dom (leaves c)) {l. lad t l} (set DL) (pleaves c) XL"

definition cstate :: "critnib \<Rightarrow> ctree \<Rightarrow> ptr list \<Rightarrow> ptr list \<Rightarrow> ptr set \<Rightarrow> ptr set \<Rightarrow> bool" where
  "cstate c t DN DL XN XL \<longleftrightarrow>
     crep (nodes c) (leaves c) (root c) t \<and> sep t \<and>
     node_part c t DN XN \<and> leaf_part c t DL XL"

lemma cstate_tree:
  assumes "cstate c t DN DL XN XL"
  shows "crep (nodes c) (leaves c) (root c) t" "sep t"
  using assms by (simp_all add: cstate_def)

section \<open>Moving single objects\<close>

lemma alloc_leaf_cstate:
  assumes st: "cstate c t DN DL XN XL" and fresh: "ml \<noteq> NULL \<Longrightarrow> ml \<notin> dom (leaves c)"
  shows "alloc_leaf c ml = Some (NULL, c) \<and> ml = NULL \<and> DL = [] \<or>
    (\<exists>l c1 DL'. alloc_leaf c ml = Some (l, c1) \<and> cstate c1 t DN DL' XN (insert l XL) \<and>
       l \<noteq> NULL \<and> l \<notin> XL \<and> \<not> lad t l \<and> root c1 = root c \<and> nodes c1 = nodes c \<and>
       remove_count c1 = remove_count c)"
proof (cases DL)
  case Nil
  with st have d: "deleted_leaf c = NULL" by (simp add: cstate_def leaf_part_def)
  show ?thesis
  proof (cases "ml = NULL")
    case True
    with d Nil show ?thesis by (simp add: alloc_leaf_def)
  next
    case False
    let ?c1 = "c\<lparr>leaves := (leaves c)(ml \<mapsto> \<lparr>key = 0, lvalue = NULL\<rparr>)\<rparr>"
    note fresh = fresh [OF False]
    have lp: "leaf_part c t DL XL" and rep: "crep (nodes c) (leaves c) (root c) t"
      using st by (simp_all add: cstate_def)
    from lp fresh have out: "\<not> lad t ml" "ml \<notin> XL" "ml \<notin> pleaves c" "ml \<notin> set DL"
      by (auto simp: leaf_part_def part4_def)
    have "crep (nodes ?c1) (leaves ?c1) (root ?c1) t"
      using crep_frame [OF rep, of "nodes c" "leaves ?c1"] out by fastforce
    moreover have "leaf_part ?c1 t DL (insert ml XL)"
      using lp out False d Nil fresh
      by (auto simp: leaf_part_def part4_def pleaves_def pend_leaves_ok_def)
    moreover have "node_part ?c1 t DN XN"
      using st by (simp add: cstate_def node_part_def pnodes_def pend_nodes_ok_def)
    ultimately have "cstate ?c1 t DN DL XN (insert ml XL)" using st by (simp add: cstate_def)
    with False d out show ?thesis by (auto simp: alloc_leaf_def)
  qed
next
  case (Cons l DL')
  let ?lf = "the (leaves c l)"
  let ?c1 = "c\<lparr>deleted_leaf := lvalue ?lf\<rparr>"
  have lp: "leaf_part c t DL XL" using st by (simp add: cstate_def)
  with Cons obtain lf where l: "deleted_leaf c = l" "l \<noteq> NULL" "leaves c l = Some lf"
      "dl_list (leaves c) (lvalue lf) DL'" by (auto simp: leaf_part_def)
  from lp Cons have out: "\<not> lad t l" "l \<notin> XL" by (auto simp: leaf_part_def part4_def)
  have "leaf_part ?c1 t DL' (insert l XL)"
    using lp l Cons by (auto simp: leaf_part_def part4_def pleaves_def pend_leaves_ok_def)
  moreover have "node_part ?c1 t DN XN"
    using st by (simp add: cstate_def node_part_def pnodes_def pend_nodes_ok_def)
  ultimately have "cstate ?c1 t DN DL' XN (insert l XL)" using st by (simp add: cstate_def)
  with l out show ?thesis by (auto simp: alloc_leaf_def)
qed

lemma alloc_node_cstate:
  assumes st: "cstate c t DN DL XN XL" and fresh: "mn \<noteq> NULL \<Longrightarrow> mn \<notin> dom (nodes c)"
  shows "alloc_node c mn = Some (CNull, c) \<and> mn = NULL \<and> DN = [] \<or>
    (\<exists>a c1 DN'. alloc_node c mn = Some (CNode a, c1) \<and> cstate c1 t DN' DL (insert a XN) XL \<and>
       a \<notin> XN \<and> \<not> nad t a \<and> root c1 = root c \<and> leaves c1 = leaves c \<and>
       remove_count c1 = remove_count c)"
proof (cases DN)
  case Nil
  with st have d: "deleted_node c = CNull" by (simp add: cstate_def node_part_def)
  show ?thesis
  proof (cases "mn = NULL")
    case True
    with d Nil show ?thesis by (simp add: alloc_node_def)
  next
    case False
    let ?c1 = "c\<lparr>nodes := (nodes c)(mn \<mapsto> blank_node)\<rparr>"
    note fresh = fresh [OF False]
    have np: "node_part c t DN XN" and rep: "crep (nodes c) (leaves c) (root c) t"
      using st by (simp_all add: cstate_def)
    from np fresh have out: "\<not> nad t mn" "mn \<notin> XN" "mn \<notin> pnodes c" "mn \<notin> set DN"
      by (auto simp: node_part_def part4_def)
    have "crep (nodes ?c1) (leaves ?c1) (root ?c1) t"
      using crep_frame [OF rep, of "nodes ?c1" "leaves c"] out by fastforce
    moreover have "node_part ?c1 t DN (insert mn XN)"
      using np out d Nil by (auto simp: node_part_def part4_def pnodes_def pend_nodes_ok_def)
    moreover have "leaf_part ?c1 t DL XL"
      using st by (simp add: cstate_def leaf_part_def pleaves_def pend_leaves_ok_def)
    ultimately have "cstate ?c1 t DN DL (insert mn XN) XL" using st by (simp add: cstate_def)
    with False d out show ?thesis by (auto simp: alloc_node_def)
  qed
next
  case (Cons a DN')
  let ?nd = "the (nodes c a)"
  let ?c1 = "c\<lparr>deleted_node := child ?nd 0\<rparr>"
  have np: "node_part c t DN XN" using st by (simp add: cstate_def)
  with Cons obtain nd where a: "deleted_node c = CNode a" "nodes c a = Some nd"
      "dn_list (nodes c) (child nd 0) DN'" by (auto simp: node_part_def)
  from np Cons have out: "\<not> nad t a" "a \<notin> XN" by (auto simp: node_part_def part4_def)
  have "node_part ?c1 t DN' (insert a XN)"
    using np a Cons by (auto simp: node_part_def part4_def pnodes_def pend_nodes_ok_def)
  moreover have "leaf_part ?c1 t DL XL"
    using st by (simp add: cstate_def leaf_part_def pleaves_def pend_leaves_ok_def)
  ultimately have "cstate ?c1 t DN' DL (insert a XN) XL" using st by (simp add: cstate_def)
  with a out show ?thesis by (auto simp: alloc_node_def)
qed

lemma set_leaf_cstate:
  assumes st: "cstate c t DN DL XN XL" and l: "l \<in> XL"
  shows "cstate (c\<lparr>leaves := (leaves c)(l \<mapsto> lf)\<rparr>) t DN DL XN XL"
proof -
  let ?c = "c\<lparr>leaves := (leaves c)(l \<mapsto> lf)\<rparr>"
  have lp: "leaf_part c t DL XL" and rep: "crep (nodes c) (leaves c) (root c) t"
    using st by (simp_all add: cstate_def)
  from lp l have out: "\<not> lad t l" "l \<notin> set DL" "l \<noteq> NULL" by (auto simp: leaf_part_def part4_def)
  have "crep (nodes c) (leaves ?c) (root c) t"
    using crep_frame [OF rep, of "nodes c" "leaves ?c"] out by fastforce
  moreover have "dl_list (leaves ?c) (deleted_leaf c) DL"
    using lp out by (auto simp: leaf_part_def intro: dl_list_frame)
  moreover have "dom (leaves ?c) = dom (leaves c)" using lp l by (auto simp: leaf_part_def part4_def)
  ultimately show ?thesis using st
    by (simp add: cstate_def node_part_def leaf_part_def pnodes_def pleaves_def
        pend_nodes_ok_def pend_leaves_ok_def)
qed

lemma set_node_cstate:
  assumes st: "cstate c t DN DL XN XL" and a: "a \<in> XN"
  shows "cstate (c\<lparr>nodes := (nodes c)(a \<mapsto> nd)\<rparr>) t DN DL XN XL"
proof -
  let ?c = "c\<lparr>nodes := (nodes c)(a \<mapsto> nd)\<rparr>"
  have np: "node_part c t DN XN" and rep: "crep (nodes c) (leaves c) (root c) t"
    using st by (simp_all add: cstate_def)
  from np a have out: "\<not> nad t a" "a \<notin> set DN" by (auto simp: node_part_def part4_def)
  have "crep (nodes ?c) (leaves c) (root c) t"
    using crep_frame [OF rep, of "nodes ?c" "leaves c"] out by fastforce
  moreover have "dn_list (nodes ?c) (deleted_node c) DN"
    using np out by (auto simp: node_part_def intro: dn_list_frame)
  moreover have "dom (nodes ?c) = dom (nodes c)" using np a by (auto simp: node_part_def part4_def)
  ultimately show ?thesis using st
    by (simp add: cstate_def node_part_def leaf_part_def pnodes_def pleaves_def
        pend_nodes_ok_def pend_leaves_ok_def)
qed

lemma free_leaf_cstate:
  assumes st: "cstate c t DN DL XN (insert l XL)" and l: "l \<notin> XL"
  shows "\<exists>c' v. free_leaf c l = Some c' \<and> cstate c' t DN (l # DL) XN XL \<and> root c' = root c \<and>
    nodes c' = nodes c \<and> leaves c' = (leaves c)(l \<mapsto> v) \<and> remove_count c' = remove_count c"
proof -
  have lp: "leaf_part c t DL (insert l XL)" using st by (simp add: cstate_def)
  then obtain lf where lf: "leaves c l = Some lf" "l \<noteq> NULL"
    by (auto simp: leaf_part_def part4_def) blast
  let ?lf = "lf\<lparr>lvalue := deleted_leaf c\<rparr>"
  let ?c = "c\<lparr>leaves := (leaves c)(l \<mapsto> ?lf)\<rparr>"
  have st': "cstate ?c t DN DL XN (insert l XL)" by (rule set_leaf_cstate [OF st]) simp
  then have lp': "leaf_part ?c t DL (insert l XL)" by (simp add: cstate_def)
  then have "leaf_part (?c\<lparr>deleted_leaf := l\<rparr>) t (l # DL) XL"
    using lf l by (auto simp: leaf_part_def part4_def pleaves_def pend_leaves_ok_def)
  with st' have "cstate (?c\<lparr>deleted_leaf := l\<rparr>) t DN (l # DL) XN XL"
    by (simp add: cstate_def node_part_def pnodes_def pend_nodes_ok_def)
  with lf show ?thesis by (auto simp: free_leaf_def)
qed

lemma free_node_cstate:
  assumes st: "cstate c t DN DL (insert a XN) XL" and a: "a \<notin> XN"
  shows "\<exists>c' v. free_node c (CNode a) = Some c' \<and> cstate c' t (a # DN) DL XN XL \<and> root c' = root c \<and>
    leaves c' = leaves c \<and> nodes c' = (nodes c)(a \<mapsto> v) \<and> remove_count c' = remove_count c \<and>
    pending_del_leaves c' = pending_del_leaves c"
proof -
  have np: "node_part c t DN (insert a XN)" using st by (simp add: cstate_def)
  then obtain nd where nd: "nodes c a = Some nd" by (auto simp: node_part_def part4_def) blast
  let ?nd = "nd\<lparr>child := (child nd)(0 := deleted_node c)\<rparr>"
  let ?c = "c\<lparr>nodes := (nodes c)(a \<mapsto> ?nd)\<rparr>"
  have st': "cstate ?c t DN DL (insert a XN) XL" by (rule set_node_cstate [OF st]) simp
  then have np': "node_part ?c t DN (insert a XN)" by (simp add: cstate_def)
  then have "node_part (?c\<lparr>deleted_node := CNode a\<rparr>) t (a # DN) XN"
    using nd a by (auto simp: node_part_def part4_def pnodes_def pend_nodes_ok_def)
  with st' have "cstate (?c\<lparr>deleted_node := CNode a\<rparr>) t (a # DN) DL XN XL"
    by (simp add: cstate_def leaf_part_def pleaves_def pend_leaves_ok_def)
  with nd show ?thesis by auto
qed

end
