(* ===== verification/Critnib_Update.thy ===== *)
theory Critnib_Update
  imports Critnib_State
begin

text \<open>
  Insertion and removal: what the two descents find, what a store into the slot they end in
  does to the whole state, and, from these, that \<open>critnib_insert\<close> and \<open>critnib_remove\<close> return,
  keep the invariant and change the tree by the one key they are given.
\<close>

section \<open>Slots on the path of a key\<close>

fun slot_of :: "cslot \<Rightarrow> nat \<Rightarrow> u64 \<Rightarrow> ctree \<Rightarrow> cslot" where
  "slot_of b 0 k t = b"
| "slot_of b (Suc n) k (Nd a p s f) = slot_of (ChildSlot a (slice_index k s)) n k (f (slice_index k s))"
| "slot_of b (Suc n) k t = b"

fun prev_of :: "cptr \<Rightarrow> nat \<Rightarrow> u64 \<Rightarrow> ctree \<Rightarrow> cptr" where
  "prev_of b 0 k t = b"
| "prev_of b (Suc n) k (Nd a p s f) = prev_of (CNode a) n k (f (slice_index k s))"
| "prev_of b (Suc n) k t = b"

lemma slot_of_Suc: "tat n k t = Nd a p s f \<Longrightarrow> slot_of b (Suc n) k t = ChildSlot a (slice_index k s)"
proof (induction n arbitrary: t b)
  case (Suc n)
  then show ?case by (cases t) auto
qed simp

lemma prev_of_Suc: "tat n k t = Nd a p s f \<Longrightarrow> prev_of b (Suc n) k t = CNode a"
proof (induction n arbitrary: t b)
  case (Suc n)
  then show ?case by (cases t) auto
qed simp

lemma crep_tat_Nd:
  assumes "crep N L p t" and "tat n k t = Nd a pa s f"
  shows "\<exists>nd. N a = Some nd \<and> path nd = pa \<and> shift nd = s \<and> (\<forall>i<16. crep N L (child nd i) (f i))"
  using assms
proof (induction n arbitrary: p t)
  case 0
  then show ?case by (auto simp: crep_iffs)
next
  case (Suc n)
  then obtain a' p' s' f' where t: "t = Nd a' p' s' f'" by (cases t) auto
  with Suc.prems obtain q where "crep N L q (f' (slice_index k s'))"
    unfolding t crep_Nd_iff using slice_index_less by blast
  with Suc t show ?case by simp
qed

lemma part4_swap:
  assumes "part4 D A B C X" and "T \<subseteq> A" and "N \<subseteq> T \<union> X"
  shows "part4 D (N \<union> (A - T)) B C (X \<union> T - N)"
  using assms unfolding part4_def by blast

lemma node_part_swap:
  assumes np: "node_part c t DN XN" and t: "tvalid n k t" "sep t"
    and X: "\<And>b. nad X b \<Longrightarrow> nad (tat n k t) b \<or> b \<in> XN"
    and same: "dom (nodes c') = dom (nodes c)" "\<And>b. \<not> nad t b \<Longrightarrow> nodes c' b = nodes c b"
      "deleted_node c' = deleted_node c" "pending_del_nodes c' = pending_del_nodes c"
  shows "node_part c' (tput n k X t) DN (XN \<union> {b. nad (tat n k t) b} - {b. nad X b})"
proof -
  have "part4 (dom (nodes c)) ({b. nad X b} \<union> ({b. nad t b} - {b. nad (tat n k t) b})) (set DN) (pnodes c)
      (XN \<union> {b. nad (tat n k t) b} - {b. nad X b})"
    by (rule part4_swap) (use np X nad_tat in \<open>auto simp: node_part_def\<close>)
  moreover have "{b. nad (tput n k X t) b} = {b. nad X b} \<union> ({b. nad t b} - {b. nad (tat n k t) b})"
    by (auto simp: nad_tput_iff [OF t])
  moreover have "dn_list (nodes c') (deleted_node c') DN"
    using np same by (auto simp: node_part_def part4_def intro!: dn_list_frame [of "nodes c"])
  ultimately show ?thesis
    using np same by (simp add: node_part_def pnodes_def pend_nodes_ok_def)
qed

lemma leaf_part_swap:
  assumes lp: "leaf_part c t DL XL" and t: "tvalid n k t" "sep t"
    and X: "\<And>l. lad X l \<Longrightarrow> lad (tat n k t) l \<or> l \<in> XL"
    and same: "leaves c' = leaves c"
      "deleted_leaf c' = deleted_leaf c" "pending_del_leaves c' = pending_del_leaves c"
  shows "leaf_part c' (tput n k X t) DL (XL \<union> {l. lad (tat n k t) l} - {l. lad X l})"
proof -
  have "part4 (dom (leaves c)) ({l. lad X l} \<union> ({l. lad t l} - {l. lad (tat n k t) l})) (set DL) (pleaves c)
      (XL \<union> {l. lad (tat n k t) l} - {l. lad X l})"
    by (rule part4_swap) (use lp X lad_tat in \<open>auto simp: leaf_part_def\<close>)
  moreover have "{l. lad (tput n k X t) l} = {l. lad X l} \<union> ({l. lad t l} - {l. lad (tat n k t) l})"
    by (auto simp: lad_tput_iff [OF t])
  ultimately show ?thesis
    using lp same by (simp add: leaf_part_def pleaves_def pend_leaves_ok_def)
qed

text \<open>The fields a store into a slot leaves alone.\<close>

definition same_pools :: "critnib \<Rightarrow> critnib \<Rightarrow> bool" where
  "same_pools c c' \<longleftrightarrow> leaves c' = leaves c \<and> remove_count c' = remove_count c \<and>
     pending_del_nodes c' = pending_del_nodes c \<and> pending_del_leaves c' = pending_del_leaves c \<and>
     deleted_node c' = deleted_node c \<and> deleted_leaf c' = deleted_leaf c"

text \<open>A store into the slot at depth \<open>n\<close> of the path of \<open>k\<close>; the objects of the old and the new
  subtree change owners.\<close>

lemma store_slot_cstate:
  assumes st: "cstate c t DN DL XN XL" and v: "tvalid n k t"
    and X: "crep (nodes c) (leaves c) x X" "sep X"
    and XN: "\<And>b. nad X b \<Longrightarrow> nad (tat n k t) b \<or> b \<in> XN"
    and XL: "\<And>l. lad X l \<Longrightarrow> lad (tat n k t) l \<or> l \<in> XL"
  shows "\<exists>c'. store_slot c (slot_of RootSlot n k t) x = Some c' \<and> same_pools c c' \<and>
     cstate c' (tput n k X t) DN DL
       (XN \<union> {b. nad (tat n k t) b} - {b. nad X b}) (XL \<union> {l. lad (tat n k t) l} - {l. lad X l})"
proof -
  note rep = cstate_tree(1) [OF st] and sp = cstate_tree(2) [OF st]
  have np: "node_part c t DN XN" and lp: "leaf_part c t DL XL" using st by (simp_all add: cstate_def)
  have own: "nad X b \<Longrightarrow> nad (tat n k t) b \<or> \<not> nad t b" "lad X l \<Longrightarrow> lad (tat n k t) l \<or> \<not> lad t l" for b l
    using XN [of b] XL [of l] np lp by (auto simp: node_part_def leaf_part_def part4_def)
  have sp': "sep (tput n k X t)" by (rule sep_tput) (use v sp X own in auto)
  have key: "\<exists>c'. store_slot c (slot_of RootSlot n k t) x = Some c' \<and> same_pools c c' \<and>
      dom (nodes c') = dom (nodes c) \<and> (\<forall>b. \<not> nad t b \<longrightarrow> nodes c' b = nodes c b) \<and>
      crep (nodes c') (leaves c') (root c') (tput n k X t)"
  proof (cases n)
    case 0
    then show ?thesis using X by (simp add: same_pools_def)
  next
    case (Suc m)
    with v obtain a pa s f where at: "tat m k t = Nd a pa s f" and vm: "tvalid m k t"
      by (auto simp: tvalid_Suc)
    obtain nd where nd: "nodes c a = Some nd" using crep_tat_Nd [OF rep at] by blast
    have at': "tat n k t = f (slice_index k s)" using tat_Suc [OF at] Suc by simp
    have a: "nad t a" using nad_tat [of m k t a] at by (simp add: nad_here)
    have "\<not> nad (f (slice_index k s)) a" using sep_tat [OF sp, of m k] at by (auto simp: sep_Nd_iff)
    then have aX: "\<not> nad X a" using own a at' by auto
    let ?nd = "nd\<lparr>child := (child nd)(slice_index k s := x)\<rparr>"
    let ?c = "c\<lparr>nodes := (nodes c)(a \<mapsto> ?nd)\<rparr>"
    have "crep (nodes ?c) (leaves c) x X" by (rule crep_frame [OF X(1)]) (use aX in auto)
    then have "crep (nodes ?c) (leaves ?c) (root ?c) (tput n k X t)"
      unfolding Suc using rep sp vm at nd by (intro crep_tput [of "nodes c" "leaves c"]) auto
    then show ?thesis
      using nd a slot_of_Suc [OF at] Suc by (auto simp: same_pools_def)
  qed
  then obtain c' where c': "store_slot c (slot_of RootSlot n k t) x = Some c'" "same_pools c c'"
    "dom (nodes c') = dom (nodes c)" "\<And>b. \<not> nad t b \<Longrightarrow> nodes c' b = nodes c b"
    "crep (nodes c') (leaves c') (root c') (tput n k X t)" by blast
  then have "node_part c' (tput n k X t) DN (XN \<union> {b. nad (tat n k t) b} - {b. nad X b})"
    "leaf_part c' (tput n k X t) DL (XL \<union> {l. lad (tat n k t) l} - {l. lad X l})"
    using node_part_swap [OF np v sp XN] leaf_part_swap [OF lp v sp XL] by (simp_all add: same_pools_def)
  with c' sp' show ?thesis unfolding cstate_def by blast
qed

section \<open>The descents\<close>

definition mismatch :: "u64 \<Rightarrow> ctree \<Rightarrow> bool" where
  "mismatch k t \<longleftrightarrow> (\<forall>a p s f. t = Nd a p s f \<longrightarrow> \<not> agree s k p)"

lemma insert_walk:
  "crep (nodes c) (leaves c) p t \<Longrightarrow> trie_ok t \<Longrightarrow>
    \<exists>n q. insert_walk c k b pr p = Some (slot_of b n k t, prev_of pr n k t, q) \<and> tmatch n k t \<and>
      crep (nodes c) (leaves c) q (tat n k t) \<and> mismatch k (tat n k t)"
proof (induction arbitrary: b pr rule: crep.induct)
  case crep_E
  then show ?case by (auto simp: insert_walk.simps mismatch_def intro!: exI [of _ 0])
next
  case (crep_Lf l lf)
  then show ?case
    by (auto simp: insert_walk.simps mismatch_def crep_iffs intro!: exI [of _ 0])
next
  case (crep_Nd a nd f)
  let ?t = "Nd a (path nd) (shift nd) f" and ?i = "slice_index k (shift nd)"
  have rep: "crep (nodes c) (leaves c) (CNode a) ?t"
    by (rule crep.crep_Nd) (use crep_Nd in auto)
  have ag: "k AND path_mask (shift nd) = path nd \<longleftrightarrow> agree (shift nd) k (path nd)"
    by (rule path_agree) (rule trie_okD(3) [OF crep_Nd.prems])
  note unf = insert_walk.simps [of c k b pr "CNode a"]
  show ?case
  proof (cases "agree (shift nd) k (path nd)")
    case False
    with rep ag crep_Nd.hyps show ?thesis
      by (intro exI [of _ 0] exI [of _ "CNode a"]) (simp add: unf mismatch_def)
  next
    case True
    have "trie_ok (f ?i)" by (rule trie_ok_slice [OF crep_Nd.prems])
    with crep_Nd.IH obtain n q where
      "insert_walk c k (ChildSlot a ?i) (CNode a) (child nd ?i) =
         Some (slot_of (ChildSlot a ?i) n k (f ?i), prev_of (CNode a) n k (f ?i), q)"
      "tmatch n k (f ?i)" "crep (nodes c) (leaves c) q (tat n k (f ?i))" "mismatch k (tat n k (f ?i))"
      using slice_index_less by blast
    with True ag crep_Nd.hyps show ?thesis
      by (intro exI [of _ "Suc n"] exI [of _ q]) (simp add: unf Let_def)
  qed
qed

text \<open>The removal's descent ends at depth \<open>Suc n\<close> with the parent at depth \<open>n\<close>, or at an empty slot.\<close>

lemma remove_walk:
  "crep (nodes c) (leaves c) (CNode a0) t \<Longrightarrow>
    (\<exists>n. remove_walk c k np kp pr (CNode a0) = Some None \<and> tvalid n k t \<and> tat n k t = E) \<or>
    (\<exists>n a p s f l lk lv. remove_walk c k np kp pr (CNode a0) = Some (Some (slot_of kp n k t, CNode a, CLeaf l)) \<and>
       tvalid n k t \<and> tat n k t = Nd a p s f \<and> f (slice_index k s) = Lf l lk lv)"
proof (induction "CNode a0" t arbitrary: a0 np kp pr rule: crep.induct)
  case (crep_Nd a nd f)
  let ?t = "Nd a (path nd) (shift nd) f" and ?i = "slice_index k (shift nd)"
  have ch: "crep (nodes c) (leaves c) (child nd ?i) (f ?i)" using crep_Nd.hyps(2) slice_index_less by blast
  note unf = remove_walk.simps [of c k np kp pr "CNode a"]
  show ?case
  proof (cases "child nd ?i")
    case CNull
    with ch have "f ?i = E" by simp
    with CNull crep_Nd.hyps show ?thesis
      by (intro disjI1 exI [of _ 1]) (simp add: unf)
  next
    case (CLeaf l)
    with ch have "\<exists>lk lv. f ?i = Lf l lk lv" by (auto simp: crep_CLeaf_iff)
    with CLeaf crep_Nd.hyps show ?thesis
      by - (rule disjI2, rule exI [of _ 0], auto simp: unf remove_walk.simps [of _ _ _ _ _ "CLeaf l"])
  next
    case (CNode b)
    then have IH: "(\<exists>n. remove_walk c k kp (ChildSlot a ?i) (CNode a) (CNode b) = Some None \<and> tvalid n k (f ?i) \<and> tat n k (f ?i) = E) \<or>
      (\<exists>n a' p s f' l lk lv. remove_walk c k kp (ChildSlot a ?i) (CNode a) (CNode b) = Some (Some (slot_of (ChildSlot a ?i) n k (f ?i), CNode a', CLeaf l)) \<and>
       tvalid n k (f ?i) \<and> tat n k (f ?i) = Nd a' p s f' \<and> f' (slice_index k s) = Lf l lk lv)"
      using crep_Nd.hyps(2) slice_index_less by metis
    have step: "remove_walk c k np kp pr (CNode a) = remove_walk c k kp (ChildSlot a ?i) (CNode a) (CNode b)"
      using CNode crep_Nd.hyps by (simp add: unf)
    from IH show ?thesis
    proof
      assume "\<exists>n. remove_walk c k kp (ChildSlot a ?i) (CNode a) (CNode b) = Some None \<and> tvalid n k (f ?i) \<and> tat n k (f ?i) = E"
      then obtain n where "remove_walk c k kp (ChildSlot a ?i) (CNode a) (CNode b) = Some None"
         "tvalid n k (f ?i)" "tat n k (f ?i) = E" by blast
      then show ?thesis by (intro disjI1 exI [of _ "Suc n"]) (simp add: step)
    next
      assume "\<exists>n a' p s f' l lk lv. remove_walk c k kp (ChildSlot a ?i) (CNode a) (CNode b) = Some (Some (slot_of (ChildSlot a ?i) n k (f ?i), CNode a', CLeaf l)) \<and>
       tvalid n k (f ?i) \<and> tat n k (f ?i) = Nd a' p s f' \<and> f' (slice_index k s) = Lf l lk lv"
      then obtain n a' p s f' l lk lv where
        "remove_walk c k kp (ChildSlot a ?i) (CNode a) (CNode b) = Some (Some (slot_of (ChildSlot a ?i) n k (f ?i), CNode a', CLeaf l))"
        "tvalid n k (f ?i)" "tat n k (f ?i) = Nd a' p s f'" "f' (slice_index k s) = Lf l lk lv" by blast
      then show ?thesis by - (rule disjI2, rule exI [of _ "Suc n"], simp add: step)
    qed
  qed
qed

section \<open>Insertion\<close>

text \<open>The node that forks the path of a new key from a subtree.\<close>

fun path_of :: "ctree \<Rightarrow> u64" where
  "path_of E = 0"
| "path_of (Lf l k v) = k"
| "path_of (Nd a p s f) = p"

definition fork :: "ptr \<Rightarrow> u64 \<Rightarrow> nat \<Rightarrow> ptr \<Rightarrow> ptr \<Rightarrow> ctree \<Rightarrow> ctree" where
  "fork a k sh l v t =
     Nd a (k AND path_mask sh) sh ((\<lambda>_. E)(slice_index k sh := Lf l k v, slice_index (path_of t) sh := t))"

lemma node_path_crep:
  "crep (nodes c) (leaves c) p t \<Longrightarrow> t \<noteq> E \<Longrightarrow> node_path c p = Some (path_of t)"
  by (cases rule: crep.cases) (auto simp: node_path_def)

lemma fork_keys:
  assumes ok: "trie_ok t" and mis: "mismatch k t" and h: "has t k' l' v'"
    and sh: "sh = utils_mssb_index (path_of t XOR k) div SLICE * SLICE" and d: "path_of t XOR k \<noteq> 0"
  shows "agree sh k' (path_of t) \<and> slice_index k' sh = slice_index (path_of t) sh"
proof (cases t)
  case (Nd a p s f)
  have "agree s k' p" using has_agree ok h by (simp add: Nd)
  moreover have "s + 4 \<le> sh"
    unfolding sh by (rule split_shift(5)) (use trie_okD(1) ok mis d in \<open>auto simp: Nd mismatch_def\<close>)
  ultimately have "\<forall>j \<ge> sh. bit k' j = bit p j" "agree sh k' p" by (auto simp: agree_bits)
  then show ?thesis by (simp add: Nd slice_eq_bits)
qed (use h in auto)

lemma fork_ok:
  assumes ok: "trie_ok t" "t \<noteq> E" and mis: "mismatch k t"
    and sh: "sh = utils_mssb_index (path_of t XOR k) div SLICE * SLICE" and d: "path_of t XOR k \<noteq> 0"
  shows "trie_ok (fork a k sh l v t)"
    and "has (fork a k sh l v t) k' l' v' \<longleftrightarrow> has (Lf l k v) k' l' v' \<or> has t k' l' v'"
    and "nad (fork a k sh l v t) b \<longleftrightarrow> b = a \<or> nad t b"
    and "\<not> nad t a \<Longrightarrow> \<not> lad t l \<Longrightarrow> sep t \<Longrightarrow> sep (fork a k sh l v t)"
proof -
  note sp = split_shift [OF d, folded sh]
  let ?i = "slice_index k sh" and ?j = "slice_index (path_of t) sh"
  let ?f = "(\<lambda>_. E)(?i := Lf l k v, ?j := t)"
  have f: "?f i = (if i = ?j then t else if i = ?i then Lf l k v else E)" for i by simp
  have ij: "?i < 16" "?j < 16" "?i \<noteq> ?j" using sp(4) by auto
  show "has (fork a k sh l v t) k' l' v' \<longleftrightarrow> has (Lf l k v) k' l' v' \<or> has t k' l' v'"
    unfolding fork_def has_Nd_iff using ij by (metis f has_E has_Lf_iff)
  show "nad (fork a k sh l v t) b \<longleftrightarrow> b = a \<or> nad t b"
    unfolding fork_def nad_Nd using ij by (metis f nad_E nad_Lf)
  show "sep (fork a k sh l v t)" if "\<not> nad t a" "\<not> lad t l" "sep t"
    unfolding fork_def by (rule sep_Nd) (use that ij in auto)
  have keys: "agree sh k' k \<and> slice_index k' sh = i" if "has (?f i) k' l' v'" for i k' l' v'
  proof (cases "i = ?j")
    case True
    with that have "has t k' l' v'" by simp
    from fork_keys [OF ok(1) mis this sh d] sp(3) True show ?thesis
      by (metis agree_trans agree_sym)
  qed (use that in \<open>auto split: if_splits\<close>)
  show "trie_ok (fork a k sh l v t)" unfolding fork_def
  proof (rule ok_Nd)
    show "\<forall>i<16. trie_ok (?f i)" using ok by auto
    show "\<forall>i<16. \<forall>k' l' v'. has (?f i) k' l' v' \<longrightarrow> agree sh k' (k AND path_mask sh) \<and> slice_index k' sh = i"
      using keys agree_trans agree_path_mask by blast
    show "\<exists>i<16. \<exists>j<16. i \<noteq> j \<and> ?f i \<noteq> E \<and> ?f j \<noteq> E"
      using ij ok by (intro exI [of _ ?i] conjI exI [of _ ?j]) auto
  qed (use sp in auto)
qed

lemma crep_fork:
  assumes rep: "crep N L q t" and a: "N a = Some \<lparr> child = (\<lambda>_. CNull)(slice_index k sh := CLeaf l,
        slice_index (path_of t) sh := q), path = k AND path_mask sh, shift = sh \<rparr>"
    and l: "L l = Some \<lparr>key = k, lvalue = v\<rparr>" "l \<noteq> NULL"
  shows "crep N L (CNode a) (fork a k sh l v t)"
  unfolding fork_def crep_Nd_iff using assms by (auto simp: crep_iffs)

text \<open>Overwriting the value of a leaf of the tree.\<close>

lemma set_value_cstate:
  assumes st: "cstate c t DN DL XN XL" and v: "tvalid n k t" and at: "tat n k t = Lf l k v0"
    and lf: "leaves c l = Some lf"
  shows "cstate (c\<lparr>leaves := (leaves c)(l \<mapsto> lf\<lparr>lvalue := v\<rparr>)\<rparr>) (tput n k (Lf l k v) t) DN DL XN XL"
proof -
  let ?L = "(leaves c)(l \<mapsto> lf\<lparr>lvalue := v\<rparr>)"
  let ?t = "tput n k (Lf l k v) t"
  note rep = cstate_tree(1) [OF st] and sp = cstate_tree(2) [OF st]
  have lp: "leaf_part c t DL XL" and np: "node_part c t DN XN" using st by (simp_all add: cstate_def)
  have lt: "has t k l v0" using has_tat [of n k t k l v0] at by simp
  then have lt': "lad t l" by (auto simp: lad_def)
  have kl: "key lf = k" "l \<noteq> NULL" using crep_has [OF rep lt] lf by auto
  then have new: "crep (nodes c) ?L (CLeaf l) (Lf l k v)" by (simp add: crep_iffs)
  have rep': "crep (nodes c) ?L (root c) ?t"
  proof (cases n)
    case 0
    with at rep have "root c = CLeaf l" by (auto simp: crep_iffs)
    with 0 new show ?thesis by simp
  next
    case (Suc m)
    with v obtain a pa s f where am: "tat m k t = Nd a pa s f" and vm: "tvalid m k t"
      by (auto simp: tvalid_Suc)
    with at Suc have fi: "f (slice_index k s) = Lf l k v0" using tat_Suc by fastforce
    obtain nd where nd: "nodes c a = Some nd" "crep (nodes c) (leaves c) (child nd (slice_index k s)) (Lf l k v0)"
      using crep_tat_Nd [OF rep am] fi slice_index_less by metis
    then have cl: "child nd (slice_index k s) = CLeaf l" by (auto simp: crep_iffs)
    show ?thesis unfolding Suc
    proof (rule crep_tput [OF rep sp vm am nd(1)])
      show "?L l' = leaves c l'" if "\<not> lad (tat (Suc m) k t) l'" for l'
        using that at Suc by auto
      show "nodes c a = Some (nd\<lparr>child := (child nd)(slice_index k s := CLeaf l)\<rparr>)"
        by (simp add: nd(1) flip: cl)
    qed (use new in auto)
  qed
  have lad: "lad ?t l' \<longleftrightarrow> lad t l'" for l'
    using lad_tput_iff [OF v sp] at lt' by auto
  have nad: "nad ?t b \<longleftrightarrow> nad t b" for b
    using nad_tput_iff [OF v sp] at by auto
  have "l \<notin> set DL" using lp lt' by (auto simp: leaf_part_def part4_def)
  then have "dl_list ?L (deleted_leaf c) DL"
    using lp by (auto simp: leaf_part_def intro: dl_list_frame)
  moreover have "dom ?L = dom (leaves c)" using lf by auto
  moreover have "sep ?t" by (rule sep_tput) (use v sp at lt' in auto)
  ultimately show ?thesis
    using rep' lp np by (simp add: cstate_def leaf_part_def node_part_def nad lad
        pnodes_def pend_nodes_ok_def pleaves_def pend_leaves_ok_def)
qed

text \<open>
  The state an insertion reaches: \<open>inserted\<close> relates the tree before, the result and the tree
  after. The pools may have grown or shrunk.
\<close>

definition inserted :: "ctree \<Rightarrow> u64 \<Rightarrow> ptr \<Rightarrow> bool \<Rightarrow> errno \<Rightarrow> ctree \<Rightarrow> bool" where
  "inserted t k v update r t' \<longleftrightarrow> trie_ok t' \<and>
     (case r of
        OK \<Rightarrow> ((\<exists>l v. has t k l v) \<longrightarrow> update) \<and>
              (\<forall>k' v'. (\<exists>l. has t' k' l v') \<longleftrightarrow> (if k' = k then v' = v else \<exists>l. has t k' l v'))
      | EEXIST \<Rightarrow> t' = t \<and> \<not> update \<and> (\<exists>l v. has t k l v)
      | ENOMEM \<Rightarrow> t' = t)"

definition owned :: "critnib \<Rightarrow> ctree \<Rightarrow> bool" where
  "owned c t \<longleftrightarrow> (\<exists>DN DL. cstate c t DN DL {} {})"

lemma inserted_new:
  assumes v: "tvalid n k t" and ok: "trie_ok t" and ok': "trie_ok (tput n k X t)"
    and new: "\<And>l v. \<not> has t k l v"
    and X: "\<And>k' l' v'. has X k' l' v' \<longleftrightarrow> has (Lf l k v) k' l' v' \<or> has (tat n k t) k' l' v'"
  shows "inserted t k v update OK (tput n k X t)"
proof -
  have "has (tput n k X t) k' l' v' \<longleftrightarrow> has (Lf l k v) k' l' v' \<or> has t k' l' v'" for k' l' v'
    using has_tput_iff [OF v ok, of X] X has_tat by blast
  then show ?thesis using ok' new unfolding inserted_def by auto
qed

lemma owned_cleanup:
  assumes "cstate c t DN DL A B" and "A = {}" and "B = {}"
  shows "owned c t"
  using assms by (auto simp: owned_def)

lemma insert_empty_slot:
  assumes st: "cstate c t DN DL {} {l}" and ok: "trie_ok t" and m: "tmatch n k t"
    and E: "tat n k t = E" and lf: "leaves c l = Some \<lparr>key = k, lvalue = v\<rparr>" "l \<noteq> NULL"
  shows "\<exists>c'. store_slot c (slot_of RootSlot n k t) (CLeaf l) = Some c' \<and>
    inserted t k v update OK (tput n k (Lf l k v) t) \<and> owned c' (tput n k (Lf l k v) t) \<and>
    remove_count c' = remove_count c"
proof -
  note val = tmatch_valid [OF m]
  have "crep (nodes c) (leaves c) (CLeaf l) (Lf l k v)" using lf by (simp add: crep_iffs)
  from store_slot_cstate [OF st val this] E obtain c' where
    c': "store_slot c (slot_of RootSlot n k t) (CLeaf l) = Some c'" "same_pools c c'"
      "cstate c' (tput n k (Lf l k v) t) DN DL {} {}" by auto
  have new: "\<not> has t k l v" for l v using has_own_path [OF ok _ val] E by force
  have "trie_ok (tput n k (Lf l k v) t)" by (rule trie_ok_tput [OF ok m]) auto
  then have "inserted t k v update OK (tput n k (Lf l k v) t)"
    by (rule inserted_new [OF val ok _ new]) (simp add: E)
  with c' show ?thesis by (auto simp: owned_def same_pools_def)
qed

lemma insert_fork:
  assumes st: "cstate c t DN DL {a} {l}" and ok: "trie_ok t" and m: "tmatch n k t"
    and T: "tat n k t \<noteq> E" "mismatch k (tat n k t)" and d: "path_of (tat n k t) XOR k \<noteq> 0"
    and sh: "sh = utils_mssb_index (path_of (tat n k t) XOR k) div SLICE * SLICE"
    and rep: "crep (nodes c) (leaves c) q (tat n k t)"
    and nd: "nodes c a = Some \<lparr> child = (\<lambda>_. CNull)(slice_index k sh := CLeaf l,
        slice_index (path_of (tat n k t)) sh := q), path = k AND path_mask sh, shift = sh \<rparr>"
    and lf: "leaves c l = Some \<lparr>key = k, lvalue = v\<rparr>" "l \<noteq> NULL"
  shows "\<exists>c' t'. store_slot c (slot_of RootSlot n k t) (CNode a) = Some c' \<and>
    inserted t k v update OK t' \<and> owned c' t' \<and> remove_count c' = remove_count c"
proof -
  note val = tmatch_valid [OF m] and okT = trie_ok_tat [OF ok, of n k]
  let ?X = "fork a k sh l v (tat n k t)"
  note fk = fork_ok [OF okT T sh d, where a = a and l = l and v = v]
  have "a \<notin> {b. nad t b}" "l \<notin> {b. lad t b}"
    using st by (auto simp: cstate_def node_part_def leaf_part_def part4_def)
  then have na: "\<not> nad (tat n k t) a" and nl: "\<not> lad (tat n k t) l"
    using nad_tat [of n k t a] lad_tat [of n k t l] by auto
  have lX: "lad ?X l' \<longleftrightarrow> l' = l \<or> lad (tat n k t) l'" for l' using fk(2) by (auto simp: lad_def)
  have "crep (nodes c) (leaves c) (CNode a) ?X" by (rule crep_fork [OF rep nd lf])
  moreover have "sep ?X" by (rule fk(4) [OF na nl sep_tat [OF cstate_tree(2) [OF st]]])
  ultimately obtain c' where c': "store_slot c (slot_of RootSlot n k t) (CNode a) = Some c'" "same_pools c c'"
     "cstate c' (tput n k ?X t) DN DL ({a} \<union> {b. nad (tat n k t) b} - {b. nad ?X b}) ({l} \<union> {b. lad (tat n k t) b} - {b. lad ?X b})"
    using store_slot_cstate [OF st val] by (metis (no_types, lifting) fk(3) lX singletonI)
  have "owned c' (tput n k ?X t)"
    by (rule owned_cleanup [OF c'(3)]) (auto simp: fk(3) lX)
  moreover have new: "\<not> has t k l v" for l v
  proof
    assume "has t k l v"
    then have "has (tat n k t) k l v" using has_own_path [OF ok _ val] by blast
    with T d okT show False by (cases "tat n k t") (auto simp: mismatch_def dest: has_agree)
  qed
  have "trie_ok (tput n k ?X t)"
    by (rule trie_ok_tput [OF ok m]) (use fk in \<open>auto simp: fork_def\<close>)
  then have "inserted t k v update OK (tput n k ?X t)"
    by (rule inserted_new [OF val ok _ new]) (rule fk(2))
  ultimately show ?thesis using c' by (auto simp: same_pools_def)
qed

lemma insert_equal:
  assumes st: "cstate c t DN DL {} {l}" and ok: "trie_ok t" and m: "tmatch n k t"
    and at: "tat n k t = Lf l' k v0"
  shows "\<exists>c1 lf. free_leaf c l = Some c1 \<and> owned c1 t \<and> remove_count c1 = remove_count c \<and>
     leaves c1 l' = Some lf \<and> inserted t k v False EEXIST t \<and>
     inserted t k v True OK (tput n k (Lf l' k v) t) \<and>
     owned (c1\<lparr>leaves := (leaves c1)(l' \<mapsto> lf\<lparr>lvalue := v\<rparr>)\<rparr>) (tput n k (Lf l' k v) t)"
proof -
  note val = tmatch_valid [OF m]
  from free_leaf_cstate [OF st] obtain c1 where
    c1: "free_leaf c l = Some c1" "cstate c1 t DN (l # DL) {} {}" "remove_count c1 = remove_count c" by auto
  have h: "has t k l' v0" using has_tat [of n k t k l' v0] at by simp
  from crep_has [OF cstate_tree(1) [OF c1(2)] h] obtain lf where lf: "leaves c1 l' = Some lf" by auto
  have ok': "trie_ok (tput n k (Lf l' k v) t)" by (rule trie_ok_tput [OF ok m]) auto
  have "has (tput n k (Lf l' k v) t) k' l2 v2 \<longleftrightarrow> (k' = k \<and> l2 = l' \<and> v2 = v) \<or> k' \<noteq> k \<and> has t k' l2 v2"
    for k' l2 v2
    using has_tput_iff [OF val ok, of "Lf l' k v"] at has_unique [OF ok h] by auto
  then have "inserted t k v True OK (tput n k (Lf l' k v) t)"
    using ok' by (auto simp: inserted_def)
  moreover have "inserted t k v False EEXIST t" using ok h by (auto simp: inserted_def)
  ultimately show ?thesis
    using c1 lf set_value_cstate [OF c1(2) val at lf] unfolding owned_def by blast
qed

lemma alloc_node_frame: "alloc_node c mn = Some (CNode a, c1) \<Longrightarrow> b \<noteq> a \<Longrightarrow> nodes c1 b = nodes c b"
  by (auto simp: alloc_node_def split: if_splits bind_splits)

lemma insert_at_correct:
  assumes st: "cstate c t DN DL {} {l}" and ok: "trie_ok t" "t \<noteq> E"
    and lf: "leaves c l = Some \<lparr>key = k, lvalue = v\<rparr>" "l \<noteq> NULL"
    and fresh: "mn \<noteq> NULL \<Longrightarrow> mn \<notin> dom (nodes c)"
    and m: "tmatch n k t" and rep: "crep (nodes c) (leaves c) q (tat n k t)" and mis: "mismatch k (tat n k t)"
  shows "\<exists>r c' t'. insert_at c k v update mn (CLeaf l) (slot_of RootSlot n k t, prev_of pr n k t, q) = Some (r, c') \<and>
    inserted t k v update r t' \<and> owned c' t' \<and> remove_count c' = remove_count c \<and>
    (r = ENOMEM \<longrightarrow> mn = NULL)"
proof (cases "tat n k t = E")
  case True
  with ok obtain j where n: "n = Suc j" by (cases n) auto
  then obtain a p s f where at: "tat j k t = Nd a p s f"
    using tmatch_valid [OF m] by (auto simp: tvalid_Suc)
  obtain nd where nd: "nodes c a = Some nd" "shift nd = s"
    using crep_tat_Nd [OF cstate_tree(1) [OF st] at] by blast
  have "q = CNull" using rep True by simp
  with nd insert_empty_slot [OF st ok(1) m True lf, of update] show ?thesis
    unfolding n slot_of_Suc [OF at] prev_of_Suc [OF at] by (auto simp: insert_at_def)
next
  case T: False
  then have q: "q \<noteq> CNull" and pth: "node_path c q = Some (path_of (tat n k t))"
    using rep crep_E_CNull node_path_crep by blast+
  show ?thesis
  proof (cases "path_of (tat n k t) XOR k = 0")
    case True
    then have "path_of (tat n k t) = k" by (simp add: bit_eq_iff bit_xor_iff)
    with mis T obtain l' v0 where at: "tat n k t = Lf l' k v0"
      by (cases "tat n k t") (auto simp: mismatch_def)
    with rep have ql: "q = CLeaf l'" by (auto simp: crep_iffs)
    from insert_equal [OF st ok(1) m at] True pth q ql show ?thesis
      by (cases update) (fastforce simp: insert_at_def)+
  next
    case d: False
    show ?thesis
    proof (cases "alloc_node c mn = Some (CNull, c) \<and> mn = NULL")
      case True
      from free_leaf_cstate [OF st] obtain c' where
        c': "free_leaf c l = Some c'" "cstate c' t DN (l # DL) {} {}" "remove_count c' = remove_count c" by auto
      from c'(2) have "owned c' t" by (rule owned_cleanup) simp_all
      with c' True d q pth ok show ?thesis by (auto simp: insert_at_def inserted_def)
    next
      case False
      with alloc_node_cstate [OF st fresh] obtain a c1 DN' where
        c1: "alloc_node c mn = Some (CNode a, c1)" "cstate c1 t DN' DL {a} {l}"
          "leaves c1 = leaves c" "remove_count c1 = remove_count c" "\<not> nad t a" by auto
      define sh where "sh = utils_mssb_index (path_of (tat n k t) XOR k) div SLICE * SLICE"
      let ?nd = "\<lparr> child = (\<lambda>_. CNull)(slice_index k sh := CLeaf l,
        slice_index (path_of (tat n k t)) sh := q), path = k AND path_mask sh, shift = sh \<rparr>"
      let ?c = "c1\<lparr>nodes := (nodes c1)(a \<mapsto> ?nd)\<rparr>"
      have st': "cstate ?c t DN' DL {a} {l}" by (rule set_node_cstate [OF c1(2)]) simp
      have "crep (nodes ?c) (leaves ?c) q (tat n k t)"
        by (rule crep_frame [OF rep])
          (use c1(3,5) nad_tat alloc_node_frame [OF c1(1)] in \<open>fastforce+\<close>)
      from insert_fork [OF st' ok(1) m T mis d sh_def this, of v update]
      obtain c' t' where "store_slot ?c (slot_of RootSlot n k t) (CNode a) = Some c'"
        "inserted t k v update OK t'" "owned c' t'" "remove_count c' = remove_count ?c"
        using lf c1 by auto
      with c1 q pth d show ?thesis
        by (auto simp: insert_at_def Let_def sh_def [symmetric])
    qed
  qed
qed

text \<open>
  \<open>critnib_insert\<close>, given fresh memory or none for a leaf and for a node, returns, keeps the
  invariant and inserts; \<open>ENOMEM\<close> is only returned when an allocation failed.
\<close>

lemma critnib_insert_correct:
  assumes own: "owned c t" and ok: "trie_ok t"
    and ml: "ml \<noteq> NULL \<Longrightarrow> ml \<notin> dom (leaves c)" and mn: "mn \<noteq> NULL \<Longrightarrow> mn \<notin> dom (nodes c)"
  shows "\<exists>r c' t'. critnib_insert c k v update ml mn = Some (r, c') \<and> inserted t k v update r t' \<and>
    owned c' t' \<and> remove_count c' = remove_count c \<and> (r = ENOMEM \<longrightarrow> ml = NULL \<or> mn = NULL)"
proof -
  from own obtain DN DL where st: "cstate c t DN DL {} {}" by (auto simp: owned_def)
  show ?thesis
  proof (cases "alloc_leaf c ml = Some (NULL, c) \<and> ml = NULL")
    case True
    with own ok show ?thesis by (auto simp: critnib_insert_def inserted_def)
  next
    case False
    with alloc_leaf_cstate [OF st ml] obtain l c1 DL' where
      c1: "alloc_leaf c ml = Some (l, c1)" "cstate c1 t DN DL' {} {l}" "l \<noteq> NULL"
        "root c1 = root c" "nodes c1 = nodes c" "remove_count c1 = remove_count c" by auto
    define c2 where "c2 = c1\<lparr>leaves := (leaves c1)(l \<mapsto> \<lparr>key = k, lvalue = v\<rparr>)\<rparr>"
    have c2: "leaves c2 l = Some \<lparr>key = k, lvalue = v\<rparr>" "nodes c2 = nodes c"
      "root c2 = root c" "remove_count c2 = remove_count c" by (simp_all add: c2_def c1)
    have st2: "cstate c2 t DN DL' {} {l}" unfolding c2_def by (rule set_leaf_cstate [OF c1(2)]) simp
    note rep = cstate_tree(1) [OF st2]
    have unf: "critnib_insert c k v update ml mn =
       (if root c2 = CNull then Some (OK, c2\<lparr>root := CLeaf l\<rparr>)
        else do { r \<leftarrow> insert_walk c2 k RootSlot (root c2) (root c2);
                  insert_at c2 k v update mn (CLeaf l) r })"
      by (simp add: critnib_insert_def c1 c2_def Let_def)
    show ?thesis
    proof (cases "root c2 = CNull")
      case True
      then have "t = E" using rep by simp
      with insert_empty_slot [OF st2 ok, of 0] c2 c1(3) True show ?thesis
        by (fastforce simp: unf)
    next
      case nE: False
      then have tE: "t \<noteq> E" using rep crep_E_CNull by blast
      from insert_walk [OF rep ok, of k RootSlot "root c2"] obtain n q where
        w: "insert_walk c2 k RootSlot (root c2) (root c2) = Some (slot_of RootSlot n k t, prev_of (root c2) n k t, q)"
        "tmatch n k t" "crep (nodes c2) (leaves c2) q (tat n k t)" "mismatch k (tat n k t)" by blast
      have "mn \<noteq> NULL \<Longrightarrow> mn \<notin> dom (nodes c2)" using mn c2(2) by simp
      from insert_at_correct [OF st2 ok tE c2(1) c1(3) this w(2,3,4), of update "root c2"] nE w(1) c2(4)
      show ?thesis by (auto simp: unf)
    qed
  qed
qed

end
