(* ===== verification/Critnib_Remove.thy ===== *)
theory Critnib_Remove
  imports Critnib_Update
begin

text \<open>
  Removal: how objects enter and leave the 16 places where deleted nodes and leaves wait, how
  a node with a single remaining child is spliced out, and that \<open>critnib_remove\<close> returns the
  value of the key, removes it and keeps the invariant.
\<close>

section \<open>The places of the deleted\<close>

lemma part4_put: "part4 D A B C (insert x X) \<Longrightarrow> x \<notin> X \<Longrightarrow> part4 D A B (insert x C) X"
  unfolding part4_def by blast

lemma part4_take: "part4 D A B C X \<Longrightarrow> x \<in> C \<Longrightarrow> part4 D A B (C - {x}) (insert x X)"
  unfolding part4_def by blast

lemma ex_upd: "d < n \<Longrightarrow> (\<exists>i<n. (f(d := y)) i = x) \<longleftrightarrow> y = x \<or> (\<exists>i<n. i \<noteq> d \<and> f i = x)" for n :: nat
  by (auto simp: fun_upd_def)

lemma pnodes_upd: "d < 16 \<Longrightarrow> pnodes (c\<lparr>pending_del_nodes := (pending_del_nodes c)(d := p)\<rparr>) =
    {a. p = CNode a \<or> (\<exists>i<16. i \<noteq> d \<and> pending_del_nodes c i = CNode a)}"
  unfolding pnodes_def by (simp add: ex_upd del: fun_upd_apply)

lemma pleaves_upd: "d < 16 \<Longrightarrow> pleaves (c\<lparr>pending_del_leaves := (pending_del_leaves c)(d := p)\<rparr>) =
    {l. l \<noteq> NULL \<and> (p = l \<or> (\<exists>i<16. i \<noteq> d \<and> pending_del_leaves c i = l))}"
  unfolding pleaves_def by (simp add: ex_upd del: fun_upd_apply)

lemma take_pending_node:
  assumes st: "cstate c t DN DL XN XL" and d: "d < 16" and a: "pending_del_nodes c d = CNode a"
  shows "cstate (c\<lparr>pending_del_nodes := (pending_del_nodes c)(d := CNull)\<rparr>) t DN DL (insert a XN) XL"
    and "a \<notin> XN"
proof -
  let ?c = "c\<lparr>pending_del_nodes := (pending_del_nodes c)(d := CNull)\<rparr>"
  have np: "node_part c t DN XN" using st by (simp add: cstate_def)
  then have one: "pending_del_nodes c i = CNode a \<longleftrightarrow> i = d" if "i < 16" for i
    using a d that unfolding node_part_def pend_nodes_ok_def by (metis cptr.distinct(1))
  have pn: "pnodes ?c = pnodes c - {a}" "a \<in> pnodes c"
    using a d one unfolding pnodes_upd [OF d] pnodes_def by (auto, metis a cptr.inject(1))
  then show "a \<notin> XN" using np by (auto simp: node_part_def part4_def)
  have "pend_nodes_ok ?c" using np by (auto simp: node_part_def pend_nodes_ok_def)
  moreover have "part4 (dom (nodes c)) {a. nad t a} (set DN) (pnodes ?c) (insert a XN)"
    using np pn by (simp add: node_part_def part4_take)
  ultimately show "cstate ?c t DN DL (insert a XN) XL"
    using st by (simp add: cstate_def node_part_def leaf_part_def pleaves_def pend_leaves_ok_def)
qed

lemma take_pending_leaf:
  assumes st: "cstate c t DN DL XN XL" and d: "d < 16" and l: "pending_del_leaves c d = l" "l \<noteq> NULL"
  shows "cstate (c\<lparr>pending_del_leaves := (pending_del_leaves c)(d := NULL)\<rparr>) t DN DL XN (insert l XL)"
    and "l \<notin> XL"
proof -
  let ?c = "c\<lparr>pending_del_leaves := (pending_del_leaves c)(d := NULL)\<rparr>"
  have lp: "leaf_part c t DL XL" using st by (simp add: cstate_def)
  then have one: "pending_del_leaves c i = l \<longleftrightarrow> i = d" if "i < 16" for i
    using l d that unfolding leaf_part_def pend_leaves_ok_def by metis
  have pl: "pleaves ?c = pleaves c - {l}" "l \<in> pleaves c"
    using l d one unfolding pleaves_upd [OF d] by (auto simp: pleaves_def)
  then show "l \<notin> XL" using lp by (auto simp: leaf_part_def part4_def)
  have "pend_leaves_ok ?c" using lp by (auto simp: leaf_part_def pend_leaves_ok_def)
  moreover have "part4 (dom (leaves c)) {a. lad t a} (set DL) (pleaves ?c) (insert l XL)"
    using lp pl by (simp add: leaf_part_def part4_take)
  ultimately show "cstate ?c t DN DL XN (insert l XL)"
    using st by (simp add: cstate_def node_part_def leaf_part_def pnodes_def pend_nodes_ok_def)
qed

lemma put_pending_node:
  assumes st: "cstate c t DN DL (insert a XN) XL" and a: "a \<notin> XN" and d: "d < 16" "pending_del_nodes c d = CNull"
  shows "cstate (c\<lparr>pending_del_nodes := (pending_del_nodes c)(d := CNode a)\<rparr>) t DN DL XN XL"
proof -
  let ?c = "c\<lparr>pending_del_nodes := (pending_del_nodes c)(d := CNode a)\<rparr>"
  have np: "node_part c t DN (insert a XN)" using st by (simp add: cstate_def)
  then have new: "a \<notin> pnodes c" by (auto simp: node_part_def part4_def)
  then have ne: "pending_del_nodes c i \<noteq> CNode a" if "i < 16" for i using that by (auto simp: pnodes_def)
  have pn: "pnodes ?c = insert a (pnodes c)" using d unfolding pnodes_upd [OF d(1)]
    by (auto simp: pnodes_def)
  have "pend_nodes_ok c" using np by (simp add: node_part_def)
  then have "pend_nodes_ok ?c" using ne unfolding pend_nodes_ok_def by (auto, metis)
  moreover have "part4 (dom (nodes c)) {a. nad t a} (set DN) (pnodes ?c) XN"
    using np pn a by (simp add: node_part_def part4_put)
  ultimately show "cstate ?c t DN DL XN XL"
    using st by (simp add: cstate_def node_part_def leaf_part_def pleaves_def pend_leaves_ok_def)
qed

lemma put_pending_leaf:
  assumes st: "cstate c t DN DL XN (insert l XL)" and l: "l \<notin> XL" and d: "d < 16" "pending_del_leaves c d = NULL"
  shows "cstate (c\<lparr>pending_del_leaves := (pending_del_leaves c)(d := l)\<rparr>) t DN DL XN XL"
proof -
  let ?c = "c\<lparr>pending_del_leaves := (pending_del_leaves c)(d := l)\<rparr>"
  have lp: "leaf_part c t DL (insert l XL)" using st by (simp add: cstate_def)
  then have new: "l \<notin> pleaves c" "l \<noteq> NULL" by (auto simp: leaf_part_def part4_def)
  then have ne: "pending_del_leaves c i \<noteq> l" if "i < 16" for i using that by (auto simp: pleaves_def)
  have pl: "pleaves ?c = insert l (pleaves c)" using d new(2) unfolding pleaves_upd [OF d(1)]
    by (auto simp: pleaves_def)
  have "pend_leaves_ok c" using lp by (simp add: leaf_part_def)
  then have "pend_leaves_ok ?c" using ne unfolding pend_leaves_ok_def by auto
  moreover have "part4 (dom (leaves c)) {a. lad t a} (set DL) (pleaves ?c) XL"
    using lp pl l by (simp add: leaf_part_def part4_put)
  ultimately show "cstate ?c t DN DL XN XL"
    using st by (simp add: cstate_def node_part_def leaf_part_def pnodes_def pend_nodes_ok_def)
qed

text \<open>The reuse of a place: what waited there goes to the pools.\<close>

definition clear_place :: "nat \<Rightarrow> critnib \<Rightarrow> critnib" where
  "clear_place d c = c\<lparr>pending_del_nodes := (pending_del_nodes c)(d := CNull),
                      pending_del_leaves := (pending_del_leaves c)(d := NULL)\<rparr>"

lemma free_node_pending:
  "free_node (c\<lparr>pending_del_nodes := P\<rparr>) p = map_option (\<lambda>c'. c'\<lparr>pending_del_nodes := P\<rparr>) (free_node c p)"
  by (cases p; cases "nodes c (case p of CNode a \<Rightarrow> a | _ \<Rightarrow> 0)") auto

lemma free_leaf_pending:
  "free_leaf (c\<lparr>pending_del_nodes := P, pending_del_leaves := Q\<rparr>) p =
     map_option (\<lambda>c'. c'\<lparr>pending_del_nodes := P, pending_del_leaves := Q\<rparr>) (free_leaf c p)"
  by (cases "leaves c p") (auto simp: free_leaf_def)

lemma free_node_keeps: "free_node c p = Some c' \<Longrightarrow>
    pending_del_nodes c' = pending_del_nodes c \<and> pending_del_leaves c' = pending_del_leaves c"
  by (cases p) (auto split: bind_splits)

lemma free_leaf_keeps: "free_leaf c p = Some c' \<Longrightarrow>
    pending_del_nodes c' = pending_del_nodes c \<and> pending_del_leaves c' = pending_del_leaves c"
  by (auto simp: free_leaf_def split: bind_splits if_splits)

lemma flush_place:
  assumes own: "owned c t" and d: "d < 16"
  shows "\<exists>c2 c3. free_node c (pending_del_nodes c d) = Some c2 \<and>
     free_leaf c2 (pending_del_leaves c2 d) = Some c3 \<and> owned (clear_place d c3) t \<and>
     root c3 = root c \<and> remove_count c3 = remove_count c"
proof -
  from own obtain DN DL where st: "cstate c t DN DL {} {}" by (auto simp: owned_def)
  let ?P = "(pending_del_nodes c)(d := CNull)"
  have nl: "\<not> is_leaf (pending_del_nodes c d)"
    using st d by (auto simp: cstate_def node_part_def pend_nodes_ok_def)
  have "\<exists>c2 DN'. free_node c (pending_del_nodes c d) = Some c2 \<and> cstate (c2\<lparr>pending_del_nodes := ?P\<rparr>) t DN' DL {} {} \<and>
     root c2 = root c \<and> remove_count c2 = remove_count c \<and> pending_del_leaves c2 = pending_del_leaves c"
  proof (cases "pending_del_nodes c d")
    case (CNode a)
    from take_pending_node [OF st d CNode] free_node_cstate
    obtain c2 where "free_node (c\<lparr>pending_del_nodes := ?P\<rparr>) (CNode a) = Some c2" "cstate c2 t (a # DN) DL {} {}"
      "root c2 = root c" "remove_count c2 = remove_count c" "pending_del_leaves c2 = pending_del_leaves c"
      by fastforce
    with CNode show ?thesis by (auto simp: free_node_pending simp del: free_node.simps)
  next
    case CNull
    then have "c\<lparr>pending_del_nodes := ?P\<rparr> = c" by (simp add: fun_upd_idem)
    with CNull st show ?thesis by auto
  qed (use nl in auto)
  then obtain c2 DN' where c2: "free_node c (pending_del_nodes c d) = Some c2"
    "cstate (c2\<lparr>pending_del_nodes := ?P\<rparr>) t DN' DL {} {}" "root c2 = root c" "remove_count c2 = remove_count c"
    "pending_del_leaves c2 = pending_del_leaves c" by blast
  let ?Q = "(pending_del_leaves c2)(d := NULL)" and ?l = "pending_del_leaves c2 d"
  have "\<exists>c3. free_leaf c2 ?l = Some c3 \<and> owned (c3\<lparr>pending_del_nodes := ?P, pending_del_leaves := ?Q\<rparr>) t \<and>
     root c3 = root c2 \<and> remove_count c3 = remove_count c2"
  proof (cases "?l = NULL")
    case False
    from take_pending_leaf [OF c2(2) d _ False] free_leaf_cstate
    obtain c3 where "free_leaf (c2\<lparr>pending_del_nodes := ?P, pending_del_leaves := ?Q\<rparr>) ?l = Some c3"
      "cstate c3 t DN' (?l # DL) {} {}" "root c3 = root c2" "remove_count c3 = remove_count c2"
      by fastforce
    then show ?thesis by (auto simp: free_leaf_pending intro: owned_cleanup)
  next
    case True
    then have "c2\<lparr>pending_del_nodes := ?P, pending_del_leaves := ?Q\<rparr> = c2\<lparr>pending_del_nodes := ?P\<rparr>"
      by (simp add: fun_upd_idem)
    with True c2 show ?thesis by (auto simp: free_leaf_def owned_def)
  qed
  then obtain c3 where c3: "free_leaf c2 ?l = Some c3" "owned (c3\<lparr>pending_del_nodes := ?P, pending_del_leaves := ?Q\<rparr>) t"
     "root c3 = root c2" "remove_count c3 = remove_count c2" by blast
  have "clear_place d c3 = c3\<lparr>pending_del_nodes := ?P, pending_del_leaves := ?Q\<rparr>"
    using free_node_keeps [OF c2(1)] free_leaf_keeps [OF c3(1)] by (simp add: clear_place_def)
  with c2 c3 show ?thesis by auto
qed

section \<open>The single remaining child\<close>

lemma only_child_Some:
  "only_child ch xs (Some i) = (if \<forall>j \<in> set xs. ch j = CNull then Inr (Some i) else Inl ())"
  by (induction xs) auto

lemma only_child_filter:
  "only_child ch xs None =
     (case filter (\<lambda>j. ch j \<noteq> CNull) xs of [] \<Rightarrow> Inr None | [i] \<Rightarrow> Inr (Some i) | _ \<Rightarrow> Inl ())"
  by (induction xs) (auto simp: only_child_Some filter_empty_conv split: list.split)

lemma only_child_cases:
  obtains (none) "only_child ch [0..<SLNODES] None = Inr None" "\<And>i. i < 16 \<Longrightarrow> ch i = CNull"
  | (one) i where "only_child ch [0..<SLNODES] None = Inr (Some i)" "i < 16" "ch i \<noteq> CNull"
      "\<And>j. j < 16 \<Longrightarrow> j \<noteq> i \<Longrightarrow> ch j = CNull"
  | (two) i j where "only_child ch [0..<SLNODES] None = Inl ()" "i < 16" "j < 16" "i \<noteq> j"
      "ch i \<noteq> CNull" "ch j \<noteq> CNull"
proof (cases "filter (\<lambda>j. ch j \<noteq> CNull) [0..<16]")
  case Nil
  then show thesis by (intro none) (auto simp: only_child_filter SLNODES_def filter_empty_conv)
next
  case (Cons i xs)
  have S: "set (filter (\<lambda>j. ch j \<noteq> CNull) [0..<16]) = {j. j < 16 \<and> ch j \<noteq> CNull}" by auto
  have D: "distinct (filter (\<lambda>j. ch j \<noteq> CNull) [0..<16])" by simp
  show thesis
  proof (cases xs)
    case Nil
    with Cons S have s: "{j. j < 16 \<and> ch j \<noteq> CNull} = {i}" by simp
    show thesis by (rule one [of i]) (use Cons Nil s in \<open>auto simp: only_child_filter SLNODES_def\<close>)
  next
    case (Cons j ys)
    with \<open>filter (\<lambda>j. ch j \<noteq> CNull) [0..<16] = i # xs\<close> S D show thesis
      by (intro two [of i j]) (auto simp: only_child_filter SLNODES_def)
  qed
qed

section \<open>Removing a key from the tree\<close>

definition removed :: "ctree \<Rightarrow> u64 \<Rightarrow> ptr \<Rightarrow> ctree \<Rightarrow> bool" where
  "removed t k r t' \<longleftrightarrow> trie_ok t' \<and>
     (if \<exists>l v. has t k l v
      then (\<exists>l. has t k l r) \<and> (\<forall>k' l v. has t' k' l v \<longleftrightarrow> k' \<noteq> k \<and> has t k' l v)
      else r = NULL \<and> t' = t)"

lemma removed_none: "trie_ok t \<Longrightarrow> (\<And>l v. \<not> has t k l v) \<Longrightarrow> removed t k NULL t"
  by (simp add: removed_def)

lemma slot_of_tput: "slot_of b n k (tput n k x t) = slot_of b n k t"
proof (induction n arbitrary: t b)
  case (Suc n)
  then show ?case by (cases t) auto
qed simp

text \<open>With two children left the node stays; with one, that child takes its place.\<close>

lemma removed_tput:
  assumes ok: "trie_ok t" and v: "tvalid n k t" and at: "tat n k t = Nd a p s f"
    and leaf: "f (slice_index k s) = Lf l k v" and ok': "trie_ok (tput n k X t)"
    and X: "\<And>k' l' v'. has X k' l' v' \<longleftrightarrow> (\<exists>i<16. i \<noteq> slice_index k s \<and> has (f i) k' l' v')"
  shows "removed t k v (tput n k X t)"
proof -
  let ?i = "slice_index k s"
  have okN: "trie_ok (Nd a p s f)" using trie_ok_tat [OF ok, of n k] at by simp
  have h: "has t k l v"
    by (rule has_tat [of n k]) (use at leaf in \<open>auto simp: has_Nd_iff intro!: exI [of _ ?i]\<close>)
  have "has X k' l' v' \<longleftrightarrow> k' \<noteq> k \<and> has (tat n k t) k' l' v'" for k' l' v'
  proof
    assume "has X k' l' v'"
    then obtain i where i: "i < 16" "i \<noteq> ?i" "has (f i) k' l' v'" unfolding X by blast
    with trie_okD(6) [OF okN] have "slice_index k' s = i" by blast
    with i show "k' \<noteq> k \<and> has (tat n k t) k' l' v'" by (auto simp: at has_Nd_iff)
  next
    assume r: "k' \<noteq> k \<and> has (tat n k t) k' l' v'"
    then obtain i where i: "i < 16" "has (f i) k' l' v'" by (auto simp: at has_Nd_iff)
    with r leaf show "has X k' l' v'" unfolding X by (metis has_Lf_iff)
  qed
  then have "has (tput n k X t) k' l' v' \<longleftrightarrow> k' \<noteq> k \<and> has t k' l' v'" for k' l' v'
    using has_tput_iff [OF v ok, of X k' l' v'] has_tat [of n k t k' l' v'] has_own_path [OF ok _ v, of l' v'] by blast
  with h ok' show ?thesis by (auto simp: removed_def)
qed

lemma tmatch_leaf:
  assumes "trie_ok t" and "tvalid n k t" and "tat n k t = Nd a p s f" and "f (slice_index k s) = Lf l k v"
  shows "has t k l v" and "tmatch n k t"
proof -
  have "has (tat n k t) k l v"
    using assms by (auto simp: has_Nd_iff intro!: exI [of _ "slice_index k s"])
  then show "has t k l v" by (rule has_tat)
  with has_own_path assms show "tmatch n k t" by blast
qed

lemma drop_child_ok:
  assumes ok: "trie_ok (Nd a p s f)" and two: "\<exists>i<16. \<exists>j<16. i \<noteq> j \<and> (f(m := E)) i \<noteq> E \<and> (f(m := E)) j \<noteq> E"
  shows "trie_ok (Nd a p s (f(m := E)))"
proof (rule ok_Nd)
  show "\<forall>i<16. trie_ok ((f(m := E)) i)" using trie_okD(4) [OF ok] by simp
  show "\<forall>i<16. \<forall>k l v. has ((f(m := E)) i) k l v \<longrightarrow> agree s k p \<and> slice_index k s = i"
    using trie_okD(5,6) [OF ok] by (metis fun_upd_apply has_E)
qed (use trie_okD [OF ok] two in blast)+

lemma removed_two:
  assumes ok: "trie_ok t" and v: "tvalid n k t" and at: "tat n k t = Nd a p s f"
    and leaf: "f (slice_index k s) = Lf l k v"
    and two: "\<exists>i<16. \<exists>j<16. i \<noteq> j \<and> (f(slice_index k s := E)) i \<noteq> E \<and> (f(slice_index k s := E)) j \<noteq> E"
  shows "removed t k v (tput (Suc n) k E t)"
proof -
  let ?X = "Nd a p s (f(slice_index k s := E))"
  have okN: "trie_ok (Nd a p s f)" using trie_ok_tat [OF ok, of n k] at by simp
  have X: "has ?X k' l' v' \<longleftrightarrow> (\<exists>i<16. i \<noteq> slice_index k s \<and> has (f i) k' l' v')" for k' l' v'
    unfolding has_Nd_iff by (metis fun_upd_apply has_E)
  have "trie_ok (tput n k ?X t)"
  proof (rule trie_ok_tput [OF ok tmatch_leaf(2) [OF ok v at leaf] drop_child_ok [OF okN two]])
    show "k' = k \<or> (\<exists>l' v'. has (tat n k t) k' l' v')" if "has ?X k' l v" for k' l v
      using that unfolding X at by (auto intro: has_Nd)
  qed simp
  from removed_tput [OF ok v at leaf this X] show ?thesis by (simp add: tput_Suc [OF at])
qed

lemma removed_one:
  assumes ok: "trie_ok t" and v: "tvalid n k t" and at: "tat n k t = Nd a p s f"
    and leaf: "f (slice_index k s) = Lf l k v"
    and j: "j < 16" "j \<noteq> slice_index k s" "f j \<noteq> E" "\<And>i. i < 16 \<Longrightarrow> i \<noteq> j \<Longrightarrow> i \<noteq> slice_index k s \<Longrightarrow> f i = E"
  shows "removed t k v (tput n k (f j) t)"
proof -
  have okN: "trie_ok (Nd a p s f)" using trie_ok_tat [OF ok, of n k] at by simp
  have X: "has (f j) k' l' v' \<longleftrightarrow> (\<exists>i<16. i \<noteq> slice_index k s \<and> has (f i) k' l' v')" for k' l' v'
    using j by (metis has_E)
  have "trie_ok (tput n k (f j) t)"
  proof (rule trie_ok_tput [OF ok tmatch_leaf(2) [OF ok v at leaf] trie_okD(4) [OF okN j(1)] j(3)])
    show "k' = k \<or> (\<exists>l' v'. has (tat n k t) k' l' v')" if "has (f j) k' l v" for k' l v
      using that j(1) unfolding at has_Nd_iff by blast
  qed
  from removed_tput [OF ok v at leaf this X] show ?thesis .
qed

section \<open>critnib_remove\<close>

lemma del_leaf_owned:
  assumes st: "cstate c t DN DL {} {l}" and d: "d < 16" "pending_del_leaves c d = NULL"
    and lf: "leaves c l = Some \<lparr>key = k, lvalue = v\<rparr>"
  shows "\<exists>c'. del_leaf c d l = Some (v, c') \<and> owned c' t \<and> remove_count c' = remove_count c"
  using put_pending_leaf [OF st _ d] lf by (auto simp: del_leaf_def intro: owned_cleanup)

lemma remove_root_leaf:
  assumes st: "cstate c (Lf l k v) DN DL {} {}" and d: "d < 16" "pending_del_leaves c d = NULL"
  shows "\<exists>c'. del_leaf (c\<lparr>root := CNull\<rparr>) d l = Some (v, c') \<and> owned c' E \<and> remove_count c' = remove_count c"
proof -
  from store_slot_cstate [OF st, of 0 k CNull E] have "cstate (c\<lparr>root := CNull\<rparr>) E DN DL {} {l}" by auto
  moreover have "leaves (c\<lparr>root := CNull\<rparr>) l = Some \<lparr>key = k, lvalue = v\<rparr>"
    using crep_has [OF cstate_tree(1) [OF st]] by simp
  ultimately show ?thesis using del_leaf_owned [of "c\<lparr>root := CNull\<rparr>" E] d by fastforce
qed

text \<open>Clearing the leaf's slot.\<close>

lemma clear_slot:
  assumes st: "cstate c t DN DL {} {}" and v: "tvalid n k t" and at: "tat n k t = Nd a p s f"
    and leaf: "f (slice_index k s) = Lf l k v"
  shows "\<exists>c' nd'. store_slot c (ChildSlot a (slice_index k s)) CNull = Some c' \<and> same_pools c c' \<and>
     cstate c' (tput (Suc n) k E t) DN DL {} {l} \<and>
     nodes c' a = Some nd' \<and> (\<forall>i<16. crep (nodes c') (leaves c') (child nd' i) ((f(slice_index k s := E)) i))"
proof -
  have at': "tat (Suc n) k t = Lf l k v" using tat_Suc [OF at] leaf by simp
  have v': "tvalid (Suc n) k t" using v at by (simp add: tvalid_Suc)
  from store_slot_cstate [OF st v', of CNull E] at' obtain c' where
    c': "store_slot c (ChildSlot a (slice_index k s)) CNull = Some c'" "same_pools c c'"
      "cstate c' (tput (Suc n) k E t) DN DL {} {l}"
    by (auto simp: slot_of_Suc [OF at])
  have "tat n k (tput (Suc n) k E t) = Nd a p s (f(slice_index k s := E))"
    unfolding tput_Suc [OF at] by (rule tat_tput [OF v])
  from crep_tat_Nd [OF cstate_tree(1) [OF c'(3)] this] c' show ?thesis by blast
qed

text \<open>Splicing out a node with the single child \<open>f j\<close>.\<close>

lemma splice_out:
  assumes st: "cstate c (tput n k (Nd a p s g) t) DN DL {} {l}" and v: "tvalid n k t"
    and j: "j < 16" "\<And>i. i < 16 \<Longrightarrow> i \<noteq> j \<Longrightarrow> g i = E"
    and rep: "crep (nodes c) (leaves c) q (g j)"
    and d: "d < 16" "pending_del_leaves c d = NULL" "pending_del_nodes c d = CNull"
    and lf: "leaves c l = Some \<lparr>key = k, lvalue = v\<rparr>"
  shows "\<exists>c' c''. store_slot c (slot_of RootSlot n k t) q = Some c' \<and>
     del_leaf (c'\<lparr>pending_del_nodes := (pending_del_nodes c')(d := CNode a)\<rparr>) d l = Some (v, c'') \<and>
     owned c'' (tput n k (g j) t) \<and> remove_count c'' = remove_count c"
proof -
  let ?X = "Nd a p s g" and ?t = "tput n k (Nd a p s g) t"
  have v': "tvalid n k ?t" by (rule tvalid_tput [OF v])
  have at: "tat n k ?t = ?X" by (rule tat_tput [OF v])
  have sp: "sep ?X" using sep_tat [OF cstate_tree(2) [OF st], of n k] at by simp
  have na: "\<not> nad (g j) a" using sp j(1) by (simp add: sep_Nd_iff)
  have nX: "nad ?X b \<longleftrightarrow> b = a \<or> nad (g j) b" for b unfolding nad_Nd using j by (metis nad_E)
  have lX: "lad ?X b \<longleftrightarrow> lad (g j) b" for b unfolding lad_Nd using j by (metis lad_E)
  have "l \<notin> {b. lad ?t b}" using st by (auto simp: cstate_def leaf_part_def part4_def)
  then have nl: "\<not> lad (g j) l" using lad_tat [of n k ?t l] unfolding at lX by blast
  have "\<exists>c'. store_slot c (slot_of RootSlot n k ?t) q = Some c' \<and> same_pools c c' \<and>
     cstate c' (tput n k (g j) ?t) DN DL ({} \<union> {b. nad (tat n k ?t) b} - {b. nad (g j) b})
       ({l} \<union> {b. lad (tat n k ?t) b} - {b. lad (g j) b})"
    by (rule store_slot_cstate [OF st v' rep]) (use sp j nX lX in \<open>auto simp: at sep_Nd_iff\<close>)
  moreover have "{} \<union> {b. nad (tat n k ?t) b} - {b. nad (g j) b} = {a}" using na unfolding at nX by blast
  moreover have "{l} \<union> {b. lad (tat n k ?t) b} - {b. lad (g j) b} = {l}" using nl unfolding at lX by blast
  ultimately obtain c' where c': "store_slot c (slot_of RootSlot n k t) q = Some c'" "same_pools c c'"
     "cstate c' (tput n k (g j) t) DN DL {a} {l}"
    by (auto simp: slot_of_tput tput_tput)
  let ?c = "c'\<lparr>pending_del_nodes := (pending_del_nodes c')(d := CNode a)\<rparr>"
  have "cstate ?c (tput n k (g j) t) DN DL {} {l}"
    by (rule put_pending_node [OF c'(3)]) (use c' d in \<open>auto simp: same_pools_def\<close>)
  from del_leaf_owned [OF this d(1), of k v] c' d lf show ?thesis
    by (auto simp: same_pools_def)
qed

lemma unlink_leaf_correct:
  assumes st: "cstate c t DN DL {} {}" and ok: "trie_ok t" and v: "tvalid n k t" and at: "tat n k t = Nd a p s f"
    and leaf: "f (slice_index k s) = Lf l k v"
    and d: "d < 16" "pending_del_leaves c d = NULL" "pending_del_nodes c d = CNull"
  shows "\<exists>c' t'. unlink_leaf c k d (slot_of RootSlot n k t) (CNode a) l = Some (v, c') \<and>
     owned c' t' \<and> removed t k v t' \<and> remove_count c' = remove_count c"
proof -
  let ?i = "slice_index k s" and ?g = "f(slice_index k s := E)"
  obtain nd where nd: "nodes c a = Some nd" "shift nd = s"
    using crep_tat_Nd [OF cstate_tree(1) [OF st] at] by blast
  obtain c' nd' where c': "store_slot c (ChildSlot a ?i) CNull = Some c'" "same_pools c c'"
     "cstate c' (tput (Suc n) k E t) DN DL {} {l}" "nodes c' a = Some nd'"
     "\<forall>i<16. crep (nodes c') (leaves c') (child nd' i) (?g i)"
    using clear_slot [OF st v at leaf] by blast
  have ch: "child nd' i = CNull \<longleftrightarrow> ?g i = E" if "i < 16" for i
    using c'(5) that crep_E_CNull by blast
  have lf: "leaves c' l = Some \<lparr>key = k, lvalue = v\<rparr>"
    using crep_has [OF cstate_tree(1) [OF st] tmatch_leaf(1) [OF ok v at leaf]] c'(2) by (simp add: same_pools_def)
  have d': "pending_del_leaves c' d = NULL" "pending_del_nodes c' d = CNull"
    using d c'(2) by (simp_all add: same_pools_def)
  have rc: "remove_count c' = remove_count c" using c'(2) by (simp add: same_pools_def)
  have unf: "unlink_leaf c k d sl (CNode a) l =
      (case only_child (child nd') [0..<SLNODES] None of
            Inl _ \<Rightarrow> del_leaf c' d l
          | Inr None \<Rightarrow> None
          | Inr (Some oc) \<Rightarrow>
              do { c'' \<leftarrow> store_slot c' sl (child nd' oc);
                   del_leaf (c''\<lparr>pending_del_nodes := (pending_del_nodes c'')(d := CNode a)\<rparr>) d l })" for sl
    using nd c'(1,4) by (simp add: unlink_leaf_def del: store_slot.simps)
  show ?thesis
  proof (cases rule: only_child_cases [of "child nd'"])
    case none
    have "\<exists>j<16. j \<noteq> ?i \<and> f j \<noteq> E" using trie_okD(7) [of a p s f] trie_ok_tat [OF ok, of n k] at by metis
    with none(2) ch show ?thesis by (metis fun_upd_apply)
  next
    case (two i j)
    then have "\<exists>i<16. \<exists>j<16. i \<noteq> j \<and> ?g i \<noteq> E \<and> ?g j \<noteq> E" using ch by blast
    from removed_two [OF ok v at leaf this] two(1) del_leaf_owned [OF c'(3) d(1) d'(1) lf] rc
    show ?thesis by (auto simp: unf)
  next
    case (one j)
    then have j: "j < 16" "?g j \<noteq> E" "\<And>i. i < 16 \<Longrightarrow> i \<noteq> j \<Longrightarrow> ?g i = E" using ch by blast+
    then have j': "j \<noteq> ?i" "f j \<noteq> E" by (auto split: if_splits)
    have "removed t k v (tput n k (?g j) t)"
      using removed_one [OF ok v at leaf j(1) j'] j(3) j'(1) by fastforce
    moreover have "\<exists>c1 c''. store_slot c' (slot_of RootSlot n k t) (child nd' j) = Some c1 \<and>
     del_leaf (c1\<lparr>pending_del_nodes := (pending_del_nodes c1)(d := CNode a)\<rparr>) d l = Some (v, c'') \<and>
     owned c'' (tput n k (?g j) t) \<and> remove_count c'' = remove_count c'"
      by (rule splice_out [where g = ?g and p = p and s = s, OF _ v j(1,3) _ d(1) d' lf])
        (use c' j in \<open>auto simp: tput_Suc [OF at]\<close>)
    ultimately show ?thesis using one(1) rc by (auto simp: unf)
  qed
qed

lemma remove_from_node:
  assumes own: "owned c t" and ok: "trie_ok t" and root: "root c = CNode a0"
    and d: "d < 16" "pending_del_leaves c d = NULL" "pending_del_nodes c d = CNull"
  shows "\<exists>r c' t'. do { w \<leftarrow> remove_walk c k RootSlot RootSlot (root c) (root c);
      case w of None \<Rightarrow> Some (NULL, c)
      | Some (n_parent, n, kn) \<Rightarrow>
          do { l \<leftarrow> leaves c (to_leaf kn);
               if key l \<noteq> k then Some (NULL, c) else unlink_leaf c k d n_parent n (to_leaf kn) } } = Some (r, c') \<and>
     owned c' t' \<and> removed t k r t' \<and> remove_count c' = remove_count c"
proof -
  from own obtain DN DL where st: "cstate c t DN DL {} {}" by (auto simp: owned_def)
  note rep = cstate_tree(1) [OF st]
  from remove_walk [OF rep [unfolded root], of k RootSlot RootSlot "root c"] show ?thesis
  proof (elim disjE exE conjE, goal_cases)
    case (1 n)
    then have "\<not> has t k l v" for l v using has_own_path [OF ok, of k l v n] by auto
    with 1 own ok removed_none show ?thesis by (auto simp: root)
  next
    case (2 n a p s f l lk lv)
    then have at': "tat (Suc n) k t = Lf l lk lv" using tat_Suc by simp
    have v': "tvalid (Suc n) k t" using 2 by (simp add: tvalid_Suc)
    have lf: "leaves c l = Some \<lparr>key = lk, lvalue = lv\<rparr>"
      using crep_has [OF rep has_tat [of "Suc n" k t lk l lv]] at' by simp
    show ?thesis
    proof (cases "lk = k")
      case True
      with 2 lf unlink_leaf_correct [OF st ok, of n k a p s f l lv d] d show ?thesis by (auto simp: root)
    next
      case False
      then have "\<not> has t k l v" for l v using has_own_path [OF ok _ v'] at' by force
      with 2 lf False own ok removed_none show ?thesis by (auto simp: root)
    qed
  qed
qed

text \<open>
  \<open>critnib_remove\<close> returns; it takes the key out of the tree, if it is there, and returns its
  value; the remove counter advances whenever the tree was not empty.
\<close>

lemma critnib_remove_correct:
  assumes own: "owned c t" and ok: "trie_ok t"
  shows "\<exists>r c' t'. critnib_remove c k = Some (r, c') \<and> removed t k r t' \<and> owned c' t' \<and>
    remove_count c' = (if root c = CNull then remove_count c else remove_count c + 1)"
proof (cases "root c = CNull")
  case True
  with own have "t = E" using crep_E_CNull cstate_tree(1) unfolding owned_def by blast
  with True own ok show ?thesis by (auto simp: critnib_remove_def removed_def)
next
  case nE: False
  define c1 where "c1 = c\<lparr>remove_count := remove_count c + 1\<rparr>"
  define d where "d = unat ((remove_count c1 - 1) mod of_nat DELETED_LIFE)"
  have d: "d < 16" unfolding d_def DELETED_LIFE_def by (simp add: unat_mod)
  have "owned c1 t" using own
    by (simp add: owned_def cstate_def c1_def node_part_def leaf_part_def pnodes_def pleaves_def pend_nodes_ok_def pend_leaves_ok_def)
  from flush_place [OF this d] obtain c2 c3 where
    c3: "free_node c1 (pending_del_nodes c1 d) = Some c2" "free_leaf c2 (pending_del_leaves c2 d) = Some c3"
      "owned (clear_place d c3) t" "root c3 = root c" "remove_count c3 = remove_count c + 1"
    by (auto simp: c1_def)
  let ?c = "clear_place d c3"
  have r: "root ?c = root c" "remove_count ?c = remove_count c + 1"
    "pending_del_leaves ?c d = NULL" "pending_del_nodes ?c d = CNull"
    using c3 by (simp_all add: clear_place_def)
  have unf: "critnib_remove c k =
      (if is_leaf (root ?c)
       then do { l \<leftarrow> leaves ?c (to_leaf (root ?c));
                 if key l = k then del_leaf (?c\<lparr>root := CNull\<rparr>) d (to_leaf (root ?c)) else Some (NULL, ?c) }
       else do { w \<leftarrow> remove_walk ?c k RootSlot RootSlot (root ?c) (root ?c);
            case w of None \<Rightarrow> Some (NULL, ?c)
            | Some (n_parent, n, kn) \<Rightarrow>
                do { l \<leftarrow> leaves ?c (to_leaf kn);
                     if key l \<noteq> k then Some (NULL, ?c) else unlink_leaf ?c k d n_parent n (to_leaf kn) } })"
    using nE c3(1,2) unfolding critnib_remove_def Let_def c1_def [symmetric] d_def [symmetric] clear_place_def
    by simp
  from c3(3) obtain DN DL where st: "cstate ?c t DN DL {} {}" by (auto simp: owned_def)
  note rep = cstate_tree(1) [OF st]
  show ?thesis
  proof (cases "root ?c")
    case CNull
    with nE r show ?thesis by simp
  next
    case (CNode a)
    with remove_from_node [OF c3(3) ok CNode d r(3,4), of k] nE r(2) show ?thesis by (auto simp: unf)
  next
    case (CLeaf l)
    with rep obtain lf where lf: "leaves ?c l = Some lf" "t = Lf l (key lf) (lvalue lf)" by (auto simp: crep_CLeaf_iff)
    show ?thesis
    proof (cases "key lf = k")
      case True
      with lf have t: "t = Lf l k (lvalue lf)" by simp
      from remove_root_leaf [OF st [unfolded t] d r(3)] obtain c' where
        "del_leaf (?c\<lparr>root := CNull\<rparr>) d l = Some (lvalue lf, c')" "owned c' E" "remove_count c' = remove_count ?c" by blast
      moreover have "removed t k (lvalue lf) E" by (simp add: t removed_def)
      ultimately show ?thesis using CLeaf True lf nE r(2) by (auto simp: unf)
    next
      case False
      with CLeaf lf nE r(2) c3(3) show ?thesis by (auto simp: unf removed_def)
    qed
  qed
qed

end
