(* ===== verification/Critnib_Query.thy ===== *)
theory Critnib_Query
  imports Critnib_Remove
begin

text \<open>
  What a critnib holds, read off its memory by a plain traversal (\<open>entries\<close>, \<open>contents\<close>), its
  invariant \<open>critnib_ok\<close>, and the queries against that: \<open>critnib_get\<close>, \<open>critnib_find_le\<close>,
  \<open>critnib_find\<close> and \<open>critnib_iter\<close>. The readers retry when the remove counter has advanced by
  more than the life of a deleted node; the counter is a 64-bit word.
\<close>

section \<open>The contents of a critnib\<close>

fun entries :: "nat \<Rightarrow> critnib \<Rightarrow> cptr \<Rightarrow> (u64 \<times> ptr) list" where
  "entries 0 c p = []"
| "entries (Suc d) c p =
     (case p of
        CNull \<Rightarrow> []
      | CLeaf a \<Rightarrow> (case leaves c a of None \<Rightarrow> [] | Some l \<Rightarrow> [(key l, lvalue l)])
      | CNode a \<Rightarrow> (case nodes c a of None \<Rightarrow> []
                   | Some nd \<Rightarrow> concat (map (\<lambda>i. entries d c (child nd i)) [0..<SLNODES])))"

definition all_entries :: "critnib \<Rightarrow> (u64 \<times> ptr) list" where
  "all_entries c = entries CRITNIB_DEPTH c (root c)"

definition contents :: "critnib \<Rightarrow> u64 \<rightharpoonup> ptr" where
  "contents c = map_of (all_entries c)"

definition critnib_ok :: "critnib \<Rightarrow> bool" where
  "critnib_ok c \<longleftrightarrow> (\<exists>t. owned c t \<and> trie_ok t)"

fun lev :: "ctree \<Rightarrow> nat" where
  "lev (Nd a p s f) = s div 4 + 2"
| "lev _ = 1"

lemma lev_child:
  assumes "trie_ok (Nd a p s f)" and "i < 16"
  shows "lev (f i) < lev (Nd a p s f)"
proof (cases "f i")
  case (Nd a' p' s' f')
  with child_shift [OF assms] have "s' + 4 \<le> s" by blast
  then have "(s' + 4) div 4 \<le> s div 4" by (rule div_le_mono)
  with Nd show ?thesis by simp
qed simp_all

lemma lev_depth: "trie_ok t \<Longrightarrow> lev t \<le> CRITNIB_DEPTH"
  by (cases t) (auto simp: CRITNIB_DEPTH_def dest: trie_okD(2))

lemma sorted_wrt_concat_upt:
  assumes "\<And>i. i < n \<Longrightarrow> sorted_wrt R (g i)"
    and "\<And>i j x y. i < j \<Longrightarrow> j < n \<Longrightarrow> x \<in> set (g i) \<Longrightarrow> y \<in> set (g j) \<Longrightarrow> R x y"
  shows "sorted_wrt R (concat (map g [0..<n]))"
  using assms by (induction n) (auto simp: sorted_wrt_append)

lemma entries_correct:
  "crep (nodes c) (leaves c) p t \<Longrightarrow> trie_ok t \<Longrightarrow> lev t \<le> d \<Longrightarrow>
     set (entries d c p) = {(k, v). \<exists>l. has t k l v} \<and> sorted_wrt (\<lambda>x y. fst x < fst y) (entries d c p)"
proof (induction arbitrary: d rule: crep.induct)
  case crep_E
  then show ?case by (cases d) auto
next
  case (crep_Lf l lf)
  then show ?case by (cases d) auto
next
  case (crep_Nd a nd f)
  let ?t = "Nd a (path nd) (shift nd) f"
  from crep_Nd.prems obtain d' where d: "d = Suc d'" by (cases d) auto
  have fit: "lev (f i) \<le> d'" if "i < 16" for i
    using lev_child [OF crep_Nd.prems(1) that] crep_Nd.prems(2) d by linarith
  have IH: "set (entries d' c (child nd i)) = {(k, v). \<exists>l. has (f i) k l v}"
    "sorted_wrt (\<lambda>x y. fst x < fst y) (entries d' c (child nd i))" if "i < 16" for i
    using crep_Nd.IH that trie_okD(4) [OF crep_Nd.prems(1) that] fit [OF that] by blast+
  have e: "entries d c (CNode a) = concat (map (\<lambda>i. entries d' c (child nd i)) [0..<16])"
    using crep_Nd.hyps by (simp add: d SLNODES_def)
  have "sorted_wrt (\<lambda>x y. fst x < fst y) (entries d c (CNode a))" unfolding e
  proof (rule sorted_wrt_concat_upt)
    fix i j x y
    assume "i < j" "j < 16" "x \<in> set (entries d' c (child nd i))" "y \<in> set (entries d' c (child nd j))"
    with IH(1) [of i] IH(1) [of j] children_ordered [OF crep_Nd.prems(1) \<open>i < j\<close> \<open>j < 16\<close>]
    show "fst x < fst y" by fastforce
  qed (use IH in blast)
  moreover have "set (entries d c (CNode a)) = {(k, v). \<exists>l. has ?t k l v}"
    unfolding e by (fastforce simp: IH(1) has_Nd_iff)
  ultimately show ?case by blast
qed

lemma ownedE:
  assumes "owned c t"
  obtains DN DL where "cstate c t DN DL {} {}"
  using assms by (auto simp: owned_def)

lemma owned_crep: "owned c t \<Longrightarrow> crep (nodes c) (leaves c) (root c) t"
  by (auto simp: owned_def dest: cstate_tree)

lemma all_entries_correct:
  assumes "owned c t" and "trie_ok t"
  shows "set (all_entries c) = {(k, v). \<exists>l. has t k l v}" and "sorted_wrt (<) (map fst (all_entries c))"
  using entries_correct [OF owned_crep [OF assms(1)] assms(2) lev_depth [OF assms(2)]]
  by (simp_all add: all_entries_def sorted_wrt_map)

lemma contents_iff:
  assumes "owned c t" and "trie_ok t"
  shows "contents c k = Some v \<longleftrightarrow> (\<exists>l. has t k l v)"
proof -
  have "distinct (map fst (all_entries c))"
    using all_entries_correct(2) [OF assms] strict_sorted_iff by blast
  then have "contents c k = Some v \<longleftrightarrow> (k, v) \<in> set (all_entries c)"
    unfolding contents_def by (rule map_of_eq_Some_iff)
  then show ?thesis by (simp add: all_entries_correct(1) [OF assms])
qed

lemma contents_None:
  assumes "owned c t" and "trie_ok t"
  shows "contents c k = None \<longleftrightarrow> (\<forall>l v. \<not> has t k l v)"
  using contents_iff [OF assms] by (metis option.exhaust option.distinct(1))

lemma contents_eqI:
  assumes "owned c t" "trie_ok t" "\<And>k v. m k = Some v \<longleftrightarrow> (\<exists>l. has t k l v)"
  shows "contents c = m"
  by (rule ext) (metis contents_iff [OF assms(1,2)] assms(3) option.exhaust)

lemma critnib_ok_zero: "critnib_ok critnib_zero"
  unfolding critnib_ok_def owned_def
  by (intro exI [of _ E] exI [of _ "[]"] conjI)
    (auto simp: cstate_def critnib_zero_def node_part_def leaf_part_def part4_def pnodes_def pleaves_def
      pend_nodes_ok_def pend_leaves_ok_def)

lemma contents_zero: "contents critnib_zero = Map.empty"
  by (simp add: contents_def all_entries_def critnib_zero_def CRITNIB_DEPTH_def numeral_eq_Suc)

section \<open>Insertion and removal on the contents\<close>

lemma insert_contents:
  assumes ok: "critnib_ok c"
    and "ml \<noteq> NULL \<Longrightarrow> ml \<notin> dom (leaves c)" and "mn \<noteq> NULL \<Longrightarrow> mn \<notin> dom (nodes c)"
  shows "\<exists>r c'. critnib_insert c k v update ml mn = Some (r, c') \<and> critnib_ok c' \<and>
    remove_count c' = remove_count c \<and>
    (case r of
       OK \<Rightarrow> contents c' = (contents c)(k \<mapsto> v) \<and> (contents c k \<noteq> None \<longrightarrow> update)
     | EEXIST \<Rightarrow> contents c' = contents c \<and> contents c k \<noteq> None \<and> \<not> update
     | ENOMEM \<Rightarrow> contents c' = contents c \<and> (ml = NULL \<or> mn = NULL))"
proof -
  from ok obtain t where t: "owned c t" "trie_ok t" by (auto simp: critnib_ok_def)
  from critnib_insert_correct [OF t assms(2,3), of k v update] obtain r c' t' where
    r: "critnib_insert c k v update ml mn = Some (r, c')" "inserted t k v update r t'" "owned c' t'"
      "remove_count c' = remove_count c" "r = ENOMEM \<longrightarrow> ml = NULL \<or> mn = NULL" by blast
  then have t': "trie_ok t'" by (simp add: inserted_def)
  have same: "contents c' = contents c" if "t' = t"
    using contents_eqI [OF r(3) t'] contents_iff [OF t] that by blast
  have "contents c' = (contents c)(k \<mapsto> v)" if "r = OK"
    by (rule contents_eqI [OF r(3) t']) (use r(2) contents_iff [OF t] that in \<open>auto simp: inserted_def\<close>)
  with r t' same contents_None [OF t, of k] show ?thesis
    by (cases r) (auto simp: critnib_ok_def inserted_def)
qed

lemma remove_contents:
  assumes ok: "critnib_ok c"
  shows "\<exists>c'. critnib_remove c k = Some (case contents c k of None \<Rightarrow> NULL | Some v \<Rightarrow> v, c') \<and>
    critnib_ok c' \<and> contents c' = (contents c)(k := None) \<and>
    remove_count c' = (if root c = CNull then remove_count c else remove_count c + 1)"
proof -
  from ok obtain t where t: "owned c t" "trie_ok t" by (auto simp: critnib_ok_def)
  from critnib_remove_correct [OF t, of k] obtain r c' t' where
    r: "critnib_remove c k = Some (r, c')" "removed t k r t'" "owned c' t'"
      "remove_count c' = (if root c = CNull then remove_count c else remove_count c + 1)" by blast
  then have t': "trie_ok t'" by (simp add: removed_def)
  have c': "contents c' = (contents c)(k := None)"
    by (rule contents_eqI [OF r(3) t']) (use r(2) contents_iff [OF t] in \<open>auto simp: removed_def split: if_splits\<close>)
  have "r = (case contents c k of None \<Rightarrow> NULL | Some v \<Rightarrow> v)"
  proof (cases "contents c k")
    case None
    then have "\<not> has t k l v" for l v using contents_None [OF t] by blast
    with None r(2) show ?thesis by (simp add: removed_def)
  next
    case (Some v)
    then obtain l where "has t k l v" using contents_iff [OF t] by blast
    with r(2) have "\<exists>l. has t k l r" by (auto simp: removed_def split: if_splits)
    with Some show ?thesis using contents_iff [OF t, of k r] by simp
  qed
  with r c' t' show ?thesis by (auto simp: critnib_ok_def)
qed

section \<open>Exact and ordered search\<close>

text \<open>The counter stays below the values from which adding the life of a node wraps around.\<close>

definition counter_ok :: "critnib \<Rightarrow> bool" where
  "counter_ok c \<longleftrightarrow> unat (remove_count c) + DELETED_LIFE < 2 ^ 64"

lemma no_retry: "must_retry w w \<longleftrightarrow> 2 ^ 64 \<le> unat w + DELETED_LIFE"
proof -
  have "unat (w + 16) = (unat w + 16) mod 2 ^ 64"
    by (simp add: unat_word_ariths)
  moreover have "unat w < 2 ^ 64" using unsigned_less [of w] by simp
  ultimately have "unat (w + 16) \<le> unat w \<longleftrightarrow> 2 ^ 64 \<le> unat w + 16"
    by (cases "unat w + 16 < 2 ^ 64") (auto simp: mod_if)
  then show ?thesis by (simp add: must_retry_def DELETED_LIFE_def word_le_nat_alt)
qed

lemma counter_ok_retry: "counter_ok c \<longleftrightarrow> \<not> must_retry (remove_count c) (remove_count c)"
  by (simp add: counter_ok_def no_retry not_le)

lemma counter_ok_zero: "counter_ok critnib_zero"
  by (simp add: counter_ok_def critnib_zero_def DELETED_LIFE_def)

lemma leaf_value_has: "crep (nodes c) (leaves c) p t \<Longrightarrow> has t k l v \<Longrightarrow> leaf_value c l = Some v"
  by (auto simp: leaf_value_def dest: crep_has)

lemma leaf_value_NULL [simp]: "leaf_value c NULL = Some NULL"
  by (simp add: leaf_value_def)

lemma get_contents:
  assumes "critnib_ok c" and cnt: "counter_ok c"
  shows "critnib_get c k = Some (case contents c k of None \<Rightarrow> NULL | Some v \<Rightarrow> v)"
proof -
  from assms obtain t where t: "owned c t" "trie_ok t" by (auto simp: critnib_ok_def)
  note rep = owned_crep [OF t(1)]
  from find_eq_correct [OF rep t(2), of k] obtain l where
    l: "find_eq c (root c) k = Some l" "eq_spec t k l" by blast
  have "leaf_value c l = Some (case contents c k of None \<Rightarrow> NULL | Some v \<Rightarrow> v)"
  proof (cases "l = NULL")
    case True
    with l contents_None [OF t, of k] show ?thesis by (simp add: eq_spec_def)
  next
    case False
    with l obtain v where v: "has t k l v" by (auto simp: eq_spec_def)
    with contents_iff [OF t, of k v] have "contents c k = Some v" by blast
    with v leaf_value_has [OF rep] show ?thesis by simp
  qed
  with l cnt show ?thesis by (subst critnib_get.simps) (simp add: Let_def counter_ok_retry)
qed

text \<open>With the counter at its last 16 values a reader never leaves the retry loop.\<close>

lemma get_diverges:
  assumes "\<not> counter_ok c"
  shows "critnib_get c k = None"
proof -
  have "counter_ok c" if "critnib_get c k = Some r" for r
    by (rule critnib_get.raw_induct [where P = "\<lambda>c k r. counter_ok c", OF _ that])
      (auto simp: counter_ok_retry Let_def split: bind_splits if_splits)
  with assms show ?thesis by (cases "critnib_get c k") auto
qed

text \<open>The key closest to \<open>k\<close> in a direction, among those a map defines.\<close>

fun dir_ok :: "find_dir \<Rightarrow> u64 \<Rightarrow> u64 \<Rightarrow> bool" where
  "dir_ok FIND_L k k' \<longleftrightarrow> k' < k"
| "dir_ok FIND_LE k k' \<longleftrightarrow> k' \<le> k"
| "dir_ok FIND_EQ k k' \<longleftrightarrow> k' = k"
| "dir_ok FIND_GE k k' \<longleftrightarrow> k' \<ge> k"
| "dir_ok FIND_G k k' \<longleftrightarrow> k' > k"

fun closer :: "find_dir \<Rightarrow> u64 \<Rightarrow> u64 \<Rightarrow> bool" where
  "closer FIND_L k1 k2 \<longleftrightarrow> k2 \<le> k1"
| "closer FIND_LE k1 k2 \<longleftrightarrow> k2 \<le> k1"
| "closer FIND_EQ k1 k2 \<longleftrightarrow> k1 = k2"
| "closer FIND_GE k1 k2 \<longleftrightarrow> k1 \<le> k2"
| "closer FIND_G k1 k2 \<longleftrightarrow> k1 \<le> k2"

definition closest :: "(u64 \<rightharpoonup> ptr) \<Rightarrow> find_dir \<Rightarrow> u64 \<Rightarrow> (u64 \<times> ptr) option \<Rightarrow> bool" where
  "closest m dir k r \<longleftrightarrow>
     (case r of
        None \<Rightarrow> \<forall>k' \<in> dom m. \<not> dir_ok dir k k'
      | Some (k1, v) \<Rightarrow> m k1 = Some v \<and> dir_ok dir k k1 \<and> (\<forall>k' \<in> dom m. dir_ok dir k k' \<longrightarrow> closer dir k1 k'))"

lemma closest_unique:
  assumes "closest m dir k r" and "closest m dir k r'"
  shows "r = r'"
proof (cases r; cases r')
  fix x y
  assume xy: "r = Some x" "r' = Some y"
  obtain k1 v1 k2 v2 where p: "x = (k1, v1)" "y = (k2, v2)" by (cases x; cases y) auto
  with assms xy have "closer dir k1 k2" "closer dir k2 k1" "m k1 = Some v1" "m k2 = Some v2"
    by (auto simp: closest_def)
  then have "k1 = k2" by (cases dir) auto
  with p xy \<open>m k1 = Some v1\<close> \<open>m k2 = Some v2\<close> show ?thesis by simp
qed (use assms in \<open>auto simp: closest_def split: prod.splits\<close>)

text \<open>The directions the search loop serves, for the key it is given.\<close>

fun loop_dir :: "find_dir \<Rightarrow> find_dir" where
  "loop_dir FIND_L = FIND_LE"
| "loop_dir FIND_G = FIND_GE"
| "loop_dir d = d"

lemma find_dir_leaf_correct:
  assumes t: "owned c t" "trie_ok t"
  shows "\<exists>l. find_dir_leaf c k dir = Some l \<and>
    (if l = NULL then closest (contents c) (loop_dir dir) k None
     else \<exists>k1 v. has t k1 l v \<and> closest (contents c) (loop_dir dir) k (Some (k1, v)))"
proof -
  note rep = owned_crep [OF t(1)]
  have dom: "k' \<in> dom (contents c) \<longleftrightarrow> (\<exists>l v. has t k' l v)" for k'
    using contents_None [OF t, of k'] by (auto simp: dom_def)
  note c = contents_iff [OF t]
  obtain l1 l2 l3 where l: "find_eq c (root c) k = Some l1" "find_le c (root c) k = Some l2"
      "find_ge c (root c) k = Some l3" and s: "eq_spec t k l1" "le_spec t k l2" "ge_spec t k l3"
    using find_eq_correct [OF rep t(2), of k] find_le_correct [OF rep t(2), of k] find_ge_correct [OF rep t(2), of k]
    by blast
  have 1: "if l1 = NULL then closest (contents c) FIND_EQ k None
     else \<exists>k1 v. has t k1 l1 v \<and> closest (contents c) FIND_EQ k (Some (k1, v))"
    using s(1) unfolding eq_spec_def closest_def by (auto simp: dom c split: if_splits)
  have 2: "if l2 = NULL then closest (contents c) FIND_LE k None
     else \<exists>k1 v. has t k1 l2 v \<and> closest (contents c) FIND_LE k (Some (k1, v))"
  proof (cases "l2 = NULL")
    case False
    with le_specE [OF s(2)] obtain k1 v where "has t k1 l2 v" "k1 \<le> k"
      "\<And>k' l' v'. has t k' l' v' \<Longrightarrow> k' \<le> k \<Longrightarrow> k' \<le> k1" by blast
    with False c dom show ?thesis by (simp add: closest_def) blast
  qed (use le_specD [of t k] s(2) dom in \<open>force simp: closest_def\<close>)
  have 3: "if l3 = NULL then closest (contents c) FIND_GE k None
     else \<exists>k1 v. has t k1 l3 v \<and> closest (contents c) FIND_GE k (Some (k1, v))"
  proof (cases "l3 = NULL")
    case False
    with ge_specE [OF s(3)] obtain k1 v where "has t k1 l3 v" "k \<le> k1"
      "\<And>k' l' v'. has t k' l' v' \<Longrightarrow> k \<le> k' \<Longrightarrow> k1 \<le> k'" by blast
    with False c dom show ?thesis by (simp add: closest_def) blast
  qed (use ge_specD [of t k] s(3) dom in \<open>force simp: closest_def\<close>)
  from l 1 2 3 show ?thesis by (cases dir) (simp_all add: find_dir_leaf_def)
qed

lemma find_loop_correct:
  assumes "critnib_ok c" and cnt: "counter_ok c"
  shows "\<exists>r. find_loop c k dir = Some r \<and> closest (contents c) (loop_dir dir) k r"
proof -
  from assms obtain t where t: "owned c t" "trie_ok t" by (auto simp: critnib_ok_def)
  from find_dir_leaf_correct [OF t, of k dir] obtain l where
    l: "find_dir_leaf c k dir = Some l"
     "if l = NULL then closest (contents c) (loop_dir dir) k None
      else \<exists>k1 v. has t k1 l v \<and> closest (contents c) (loop_dir dir) k (Some (k1, v))" by blast
  have n: "\<not> must_retry (remove_count c) (remove_count c)" using cnt by (simp add: counter_ok_retry)
  show ?thesis
  proof (cases "l = NULL")
    case True
    with l n show ?thesis by (subst find_loop.simps) simp
  next
    case False
    with l obtain k1 v where kv: "has t k1 l v" "closest (contents c) (loop_dir dir) k (Some (k1, v))" by auto
    with crep_has [OF owned_crep [OF t(1)] kv(1)] False l(1) n show ?thesis
      by (subst find_loop.simps) simp
  qed
qed

lemma find_contents:
  assumes "critnib_ok c" and "counter_ok c"
  shows "\<exists>r. critnib_find c k dir = Some r \<and> closest (contents c) dir k r"
proof -
  have pred: "k' \<le> k - 1 \<longleftrightarrow> k' < k" if "k \<noteq> 0" for k' :: u64
    using that unat_gt_0 [of k] by (auto simp: word_le_nat_alt word_less_nat_alt unat_minus_one)
  have succ: "k + 1 \<le> k' \<longleftrightarrow> k < k'" if "k \<noteq> - 1" for k' :: u64
  proof -
    have "unat (k + 1) = Suc (unat k)" using that unatSuc [of k] by (metis add.commute add_eq_0_iff)
    then show ?thesis by (auto simp: word_le_nat_alt word_less_nat_alt)
  qed
  have L: "closest m FIND_LE (k - 1) r \<longleftrightarrow> closest m FIND_L k r" if "k \<noteq> 0" for m r
    using pred [OF that] by (cases r) (auto simp: closest_def)
  have G: "closest m FIND_GE (k + 1) r \<longleftrightarrow> closest m FIND_G k r" if "k \<noteq> - 1" for m r
    using succ [OF that] by (cases r) (auto simp: closest_def)
  have top: "\<not> (- 1 < k')" for k' :: u64 using word_order.extremum_strict by auto
  note fl = find_loop_correct [OF assms]
  show ?thesis
  proof (cases dir)
    case FIND_L
    with fl [of "k - 1" FIND_L] L show ?thesis
      by (cases "k = 0") (auto simp: critnib_find_def closest_def)
  next
    case FIND_G
    with fl [of "k + 1" FIND_G] G top show ?thesis
      by (cases "k = - 1") (auto simp: critnib_find_def closest_def)
  qed (use fl [of k dir] in \<open>auto simp: critnib_find_def\<close>)
qed

lemma find_le_contents:
  assumes "critnib_ok c" and cnt: "counter_ok c"
  shows "\<exists>r. critnib_find_le c k = Some (case r of None \<Rightarrow> NULL | Some (_, v) \<Rightarrow> v) \<and>
    closest (contents c) FIND_LE k r"
proof -
  from assms obtain t where t: "owned c t" "trie_ok t" by (auto simp: critnib_ok_def)
  have n: "\<not> must_retry (remove_count c) (remove_count c)" using cnt by (simp add: counter_ok_retry)
  from find_dir_leaf_correct [OF t, of k FIND_LE] obtain l where
    l: "find_dir_leaf c k FIND_LE = Some l"
     "if l = NULL then closest (contents c) FIND_LE k None
      else \<exists>k1 v. has t k1 l v \<and> closest (contents c) FIND_LE k (Some (k1, v))"
    unfolding loop_dir.simps by blast
  have l': "(if root c \<noteq> CNull then find_le c (root c) k else Some NULL) = Some l"
    using l(1) by (cases "root c") (simp_all add: find_dir_leaf_def find_le.simps [of c CNull])
  show ?thesis
  proof (cases "l = NULL")
    case True
    with l l' n show ?thesis by (subst critnib_find_le.simps) (auto simp: Let_def intro!: exI [of _ None])
  next
    case False
    with l obtain k1 v where kv: "has t k1 l v" "closest (contents c) FIND_LE k (Some (k1, v))" by auto
    with leaf_value_has [OF owned_crep [OF t(1)] kv(1)] False l' n show ?thesis
      by (subst critnib_find_le.simps) (auto simp: Let_def intro!: exI [of _ "Some (k1, v)"])
  qed
qed

section \<open>Iteration\<close>

text \<open>Calling back on a list of entries until one asks to stop.\<close>

fun visit :: "(u64 \<Rightarrow> ptr \<Rightarrow> 's \<Rightarrow> bool \<times> 's) \<Rightarrow> (u64 \<times> ptr) list \<Rightarrow> 's \<Rightarrow> bool \<times> 's" where
  "visit func [] s = (False, s)"
| "visit func ((k, v) # xs) s =
     (case func k v s of (stop, s') \<Rightarrow> if stop then (True, s') else visit func xs s')"

definition in_range :: "u64 \<Rightarrow> u64 \<Rightarrow> u64 \<times> ptr \<Rightarrow> bool" where
  "in_range mn mx e \<longleftrightarrow> mn \<le> fst e \<and> fst e \<le> mx"

lemma visit_append:
  "visit func (xs @ ys) s = (case visit func xs s of (stop, s') \<Rightarrow> if stop then (True, s') else visit func ys s')"
  by (induction func xs s rule: visit.induct) (auto split: prod.splits)

lemma visit_single: "visit func [(k, v)] s = func k v s"
  by (cases "func k v s") auto

lemma visit_stop: "fst (visit func xs s) \<Longrightarrow> visit func (xs @ ys) s = visit func xs s"
  by (cases "visit func xs s") (simp add: visit_append)

text \<open>The outcome of a call of \<open>iter\<close> on a subtree: the callbacks have run on the keys of the range,
  and a stop that no callback asked for means that a key beyond the range was met.\<close>

definition iterated ::
  "(bool \<times> 's) option \<Rightarrow> (bool \<times> 's) \<Rightarrow> bool \<Rightarrow> bool" where
  "iterated r w beyond \<longleftrightarrow> (\<exists>b. r = Some (b, snd w) \<and> (fst w \<longrightarrow> b) \<and> (b \<longrightarrow> fst w \<or> beyond))"

lemma iter_children_iterated:
  assumes "sorted_wrt (<) is"
    and "\<And>i s. i \<in> set is \<Longrightarrow> ch i \<noteq> CNull \<Longrightarrow> iterated (F (ch i) s) (visit func (filter (in_range mn mx) (g i)) s)
        (\<exists>e \<in> set (g i). mx < fst e)"
    and "\<And>i. i \<in> set is \<Longrightarrow> ch i = CNull \<Longrightarrow> g i = []"
    and "\<And>i j e e'. i < j \<Longrightarrow> i \<in> set is \<Longrightarrow> j \<in> set is \<Longrightarrow> e \<in> set (g i) \<Longrightarrow> e' \<in> set (g j) \<Longrightarrow> fst e < fst e'"
  shows "iterated (iter_children F ch is s) (visit func (filter (in_range mn mx) (concat (map g is))) s)
     (\<exists>i \<in> set is. \<exists>e \<in> set (g i). mx < fst e)"
  using assms
proof (induction "is" arbitrary: s)
  case (Cons i js)
  have IH: "iterated (iter_children F ch js s') (visit func (filter (in_range mn mx) (concat (map g js))) s')
     (\<exists>i \<in> set js. \<exists>e \<in> set (g i). mx < fst e)" for s'
    by (rule Cons.IH) (use Cons.prems in auto)
  show ?case
  proof (cases "ch i = CNull")
    case True
    with Cons.prems(3) IH [of s] show ?thesis by (auto simp: iterated_def)
  next
    case False
    let ?w = "visit func (filter (in_range mn mx) (g i)) s"
    obtain b where b: "F (ch i) s = Some (b, snd ?w)" "fst ?w \<longrightarrow> b" "b \<longrightarrow> fst ?w \<or> (\<exists>e \<in> set (g i). mx < fst e)"
      using Cons.prems(2) [OF _ False, of s] by (auto simp: iterated_def)
    show ?thesis
    proof (cases b)
      case False
      with b obtain s' where w: "?w = (False, s')" by (cases ?w) auto
      then have "visit func (filter (in_range mn mx) (concat (map g (i # js)))) s =
          visit func (filter (in_range mn mx) (concat (map g js))) s'"
        by (simp add: visit_append)
      moreover have "iter_children F ch (i # js) s = iter_children F ch js s'"
        using b False \<open>ch i \<noteq> CNull\<close> w by simp
      ultimately show ?thesis using IH [of s'] unfolding iterated_def by auto
    next
      case True
      have rest: "filter (in_range mn mx) (concat (map g js)) = []" if "e \<in> set (g i)" "mx < fst e" for e
      proof -
        have "fst e < fst e'" if "j \<in> set js" "e' \<in> set (g j)" for j e'
          by (rule Cons.prems(4) [of i j]) (use Cons.prems(1) that \<open>e \<in> set (g i)\<close> in auto)
        with that(2) show ?thesis unfolding filter_empty_conv in_range_def by fastforce
      qed
      show ?thesis
      proof (cases "fst ?w")
        case True
        with b \<open>b\<close> \<open>ch i \<noteq> CNull\<close> show ?thesis by (auto simp: iterated_def visit_stop)
      next
        case False
        with b(3) \<open>b\<close> obtain e where "e \<in> set (g i)" "mx < fst e" by blast
        with b \<open>b\<close> \<open>ch i \<noteq> CNull\<close> rest show ?thesis by (auto simp: iterated_def)
      qed
    qed
  qed
qed (auto simp: iterated_def)

lemma path_mask_mono: "s' \<le> s \<Longrightarrow> path_mask s \<le> path_mask s'"
proof -
  assume "s' \<le> s"
  then have "path_mask s = path_mask s AND path_mask s'"
    by (auto simp: bit_eq_iff bit_and_iff bit_path_mask)
  then show ?thesis using word_and_le1 by metis
qed

text \<open>The node's range is not cut by the test on the lower bound.\<close>

definition iter_scope :: "u64 \<Rightarrow> ctree \<Rightarrow> bool" where
  "iter_scope mn t \<longleftrightarrow> (\<forall>a p s f. t = Nd a p s f \<longrightarrow> mn \<le> path_mask s)"

lemma iter_scope_child:
  assumes "trie_ok (Nd a p s f)" and "i < 16" and "iter_scope mn (Nd a p s f)"
  shows "iter_scope mn (f i)"
  unfolding iter_scope_def
proof (intro allI impI)
  fix a' p' s' f'
  assume "f i = Nd a' p' s' f'"
  with child_shift [OF assms(1,2)] have "path_mask s \<le> path_mask s'" by (intro path_mask_mono) force
  with assms(3) show "mn \<le> path_mask s'" by (auto simp: iter_scope_def)
qed

lemma iter_correct:
  "crep (nodes c) (leaves c) p t \<Longrightarrow> trie_ok t \<Longrightarrow> t \<noteq> E \<Longrightarrow> lev t \<le> d \<Longrightarrow> iter_scope mn t \<Longrightarrow>
   iterated (iter d c mn mx func p s) (visit func (filter (in_range mn mx) (entries d c p)) s)
     (\<exists>e \<in> set (entries d c p). mx < fst e)"
proof (induction arbitrary: d s rule: crep.induct)
  case (crep_Lf l lf)
  then obtain d' where "d = Suc d'" by (cases d) auto
  with crep_Lf.hyps show ?case
    by (cases "in_range mn mx (key lf, lvalue lf)"; cases "func (key lf) (lvalue lf) s")
      (auto simp: iterated_def in_range_def visit_single simp del: visit.simps(2))
next
  case (crep_Nd a nd f)
  let ?t = "Nd a (path nd) (shift nd) f"
  note ok = crep_Nd.prems(1)
  obtain d' where d: "d = Suc d'" using crep_Nd.prems by (cases d) auto
  have rep: "crep (nodes c) (leaves c) (CNode a) ?t" by (rule crep.crep_Nd) (use crep_Nd in auto)
  have fit: "lev (f i) \<le> d'" if "i < 16" for i using lev_child [OF ok that] crep_Nd.prems d by simp
  let ?g = "\<lambda>i. entries d' c (child nd i)"
  have set_g: "set (?g i) = {(k, v). \<exists>l. has (f i) k l v}" if "i < 16" for i
    using entries_correct trie_okD(4) [OF ok that] fit [OF that] crep_Nd.IH that by blast
  have E: "child nd i = CNull \<longleftrightarrow> f i = E" if "i < 16" for i using crep_Nd.IH that crep_E_CNull by blast
  have e: "entries d c (CNode a) = concat (map ?g [0..<SLNODES])" using crep_Nd.hyps by (simp add: d)
  have set_e: "set (entries d c (CNode a)) = {(k, v). \<exists>l. has ?t k l v}"
    using entries_correct [OF rep ok crep_Nd.prems(3)] by blast
  have noprune: "\<not> (path nd OR path_mask (shift nd)) < mn"
  proof -
    have "path nd OR path_mask (shift nd) = path_mask (shift nd)"
      using trie_okD(3) [OF ok] by (auto simp: bit_eq_iff bit_or_iff bit_and_iff)
    with crep_Nd.prems(4) show ?thesis by (simp add: iter_scope_def not_less)
  qed
  show ?case
  proof (cases "mx < path nd")
    case True
    have beyond: "mx < k" if "has ?t k l v" for k l v
    proof -
      have "path nd = k AND path_mask (shift nd)"
        using path_agree [OF trie_okD(3) [OF ok]] has_agree [OF ok that] by metis
      then have "path nd \<le> k" by (metis word_and_le2)
      with True show ?thesis by simp
    qed
    then have "filter (in_range mn mx) (entries d c (CNode a)) = []"
      by (auto simp: filter_empty_conv set_e in_range_def not_le)
    moreover have "\<exists>x \<in> set (entries d c (CNode a)). mx < fst x"
      using trie_nonempty [OF ok] beyond set_e by fastforce
    ultimately show ?thesis using True crep_Nd.hyps by (auto simp: iterated_def d)
  next
    case False
    have "iterated (iter_children (iter d' c mn mx func) (child nd) [0..<SLNODES] s)
       (visit func (filter (in_range mn mx) (concat (map ?g [0..<SLNODES]))) s)
       (\<exists>i \<in> set [0..<SLNODES]. \<exists>e \<in> set (?g i). mx < fst e)"
    proof (rule iter_children_iterated)
      fix i s assume i: "i \<in> set [0..<SLNODES]" and n: "child nd i \<noteq> CNull"
      from i have i: "i < 16" by (simp add: SLNODES_def)
      with n E have "f i \<noteq> E" by blast
      with crep_Nd.IH i trie_okD(4) [OF ok i] fit [OF i] iter_scope_child [OF ok i crep_Nd.prems(4)]
      show "iterated (iter d' c mn mx func (child nd i) s) (visit func (filter (in_range mn mx) (?g i)) s)
        (\<exists>e \<in> set (?g i). mx < fst e)" by blast
    next
      fix i assume "i \<in> set [0..<SLNODES]" "child nd i = CNull"
      then show "?g i = []" by (cases d') auto
    next
      fix i j x y
      assume "i < j" "j \<in> set [0..<SLNODES]" "x \<in> set (?g i)" "y \<in> set (?g j)"
      then show "fst x < fst y"
        using set_g [of i] set_g [of j] children_ordered [OF ok, of i j] by (fastforce simp: SLNODES_def)
    qed simp
    with False noprune crep_Nd.hyps e show ?thesis by (simp add: d)
  qed
qed simp

lemma critnib_iter_owned:
  assumes t: "owned c t" "trie_ok t" and sc: "iter_scope mn t"
  shows "critnib_iter c mn mx func s = Some (snd (visit func (filter (in_range mn mx) (all_entries c)) s))"
proof (cases "root c = CNull")
  case True
  then show ?thesis by (simp add: critnib_iter_def all_entries_def CRITNIB_DEPTH_def numeral_eq_Suc)
next
  case False
  note rep = owned_crep [OF t(1)]
  have "t \<noteq> E" using False crep_E_CNull [OF rep] by blast
  from iter_correct [OF rep t(2) this lev_depth [OF t(2)] sc, of mx func s] False show ?thesis
    by (auto simp: critnib_iter_def all_entries_def iterated_def)
qed

text \<open>The scope of the lower bound: it is 0, or all keys are below \<open>2 ^ 60\<close> and it is at most \<open>2 ^ 64 - 2 ^ 60\<close>.\<close>

lemma slice_60: "unat k < 2 ^ 60 \<Longrightarrow> slice_index k 60 = 0"
  by (simp add: slice_index_unat)

lemma iter_scope_low:
  assumes ok: "trie_ok t" and low: "\<And>k l v. has t k l v \<Longrightarrow> unat k < 2 ^ 60" and mn: "mn \<le> path_mask 56"
  shows "iter_scope mn t"
  unfolding iter_scope_def
proof (intro allI impI)
  fix a p s f assume t: "t = Nd a p s f"
  note okD = trie_okD [OF ok [unfolded t]]
  have "s \<noteq> 60"
  proof
    assume s: "s = 60"
    obtain i j where ij: "i < 16" "j < 16" "i \<noteq> j" "f i \<noteq> E" "f j \<noteq> E" using okD(7) by blast
    have "i = 0" if i: "i < 16" "f i \<noteq> E" for i
    proof -
      obtain k l v where h: "has (f i) k l v" using trie_nonempty [OF okD(4) [OF i(1)] i(2)] by blast
      with okD(6) i s have "slice_index k 60 = i" by blast
      moreover have "unat k < 2 ^ 60" using h i low by (auto simp: t has_Nd_iff)
      ultimately show ?thesis using slice_60 by simp
    qed
    with ij show False by metis
  qed
  with okD(1,2) have "s \<le> 56" by presburger
  with path_mask_mono mn show "mn \<le> path_mask s" by (meson order_trans)
qed

lemma iter_contents:
  assumes ok: "critnib_ok c"
    and scope: "mn = 0 \<or> (\<forall>k \<in> dom (contents c). unat k < 2 ^ 60) \<and> unat mn \<le> 2 ^ 64 - 2 ^ 60"
  shows "critnib_iter c mn mx func s = Some (snd (visit func (filter (in_range mn mx) (all_entries c)) s))"
proof -
  from ok obtain t where t: "owned c t" "trie_ok t" by (auto simp: critnib_ok_def)
  have "iter_scope mn t"
  proof (cases "mn = 0")
    case True
    then show ?thesis by (simp add: iter_scope_def)
  next
    case False
    have "path_mask 56 = 0xF000000000000000" by (simp add: path_mask_def NIB_def)
    then have "mn \<le> path_mask 56" using False scope by (simp add: word_le_nat_alt)
    then show ?thesis
      using False scope contents_iff [OF t] by (intro iter_scope_low [OF t(2)]) blast
  qed
  then show ?thesis by (rule critnib_iter_owned [OF t])
qed

text \<open>Outside of this scope: keys that differ in their topmost nibble make the root a node of shift 60,
  whose mask is 0, and the test on the lower bound cuts off the whole tree.\<close>

lemma agree_slice_60: "agree s k p \<Longrightarrow> s \<le> 56 \<Longrightarrow> slice_index k 60 = slice_index p 60"
proof -
  assume "agree s k p" "s \<le> 56"
  then have "drop_bit (60 - (s + 4)) (drop_bit (s + 4) k) = drop_bit (60 - (s + 4)) (drop_bit (s + 4) p)"
    by (simp add: agree_def)
  then have "drop_bit 60 k = drop_bit 60 p" using \<open>s \<le> 56\<close> by (simp add: drop_bit_drop_bit)
  then show ?thesis by (simp add: slice_index_def)
qed

lemma iter_cut_at_root:
  assumes ok: "critnib_ok c" and k: "k \<in> dom (contents c)" "k' \<in> dom (contents c)"
    and differ: "slice_index k 60 \<noteq> slice_index k' 60" and mn: "0 < mn"
  shows "critnib_iter c mn mx func s = Some s"
proof -
  from ok obtain t where t: "owned c t" "trie_ok t" by (auto simp: critnib_ok_def)
  obtain l v l' v' where h: "has t k l v" "has t k' l' v'" using k contents_iff [OF t] by blast
  obtain a p sh f where nd: "t = Nd a p sh f"
    using h differ by (cases t) auto
  note okD = trie_okD [OF t(2) [unfolded nd]]
  have "agree sh k p" "agree sh k' p" using h has_agree [OF t(2) [unfolded nd]] nd by blast+
  then have "\<not> sh \<le> 56" using agree_slice_60 [of sh k p] agree_slice_60 [of sh k' p] differ by metis
  then have sh: "sh = 60" using okD(1,2) by presburger
  have mask: "path_mask 60 = 0" by (rule bit_word_eqI) (simp add: bit_path_mask)
  then have p: "p = 0" using okD(3) sh by simp
  from owned_crep [OF t(1)] obtain nd' where "root c = CNode a" "nodes c a = Some nd'" "path nd' = p" "shift nd' = sh"
    unfolding nd by (cases rule: crep.cases) auto
  then show ?thesis using mn p sh mask by (simp add: critnib_iter_def CRITNIB_DEPTH_def numeral_eq_Suc)
qed

end
