(* ===== verification/Critnib_Delete.thy ===== *)
theory Critnib_Delete
  imports Critnib_Query
begin

text \<open>
  Destruction: every node and leaf the structure owns, in the tree, in the pools or waiting for
  reuse, is freed exactly once by \<open>critnib_delete\<close>.
\<close>

text \<open>\<open>freed c A B c'\<close>: exactly the nodes \<open>A\<close> and the leaves \<open>B\<close> are gone.\<close>

definition freed :: "critnib \<Rightarrow> ptr set \<Rightarrow> ptr set \<Rightarrow> critnib \<Rightarrow> bool" where
  "freed c A B c' \<longleftrightarrow> c' = c\<lparr>nodes := nodes c |` (- A), leaves := leaves c |` (- B)\<rparr>"

lemma restrict_UNIV [simp]: "m |` UNIV = m"
  by (auto simp: restrict_map_def)

lemma freed_refl: "freed c {} {} c"
  by (simp add: freed_def)

lemma freed_trans: "freed c A B c1 \<Longrightarrow> freed c1 A' B' c2 \<Longrightarrow> freed c (A \<union> A') (B \<union> B') c2"
  by (simp add: freed_def Int_commute)

lemma freed_fields:
  assumes "freed c A B c'"
  shows "nodes c' = nodes c |` (- A)" "leaves c' = leaves c |` (- B)" "root c' = root c"
    "deleted_node c' = deleted_node c" "deleted_leaf c' = deleted_leaf c"
    "pending_del_nodes c' = pending_del_nodes c" "pending_del_leaves c' = pending_del_leaves c"
  using assms by (simp_all add: freed_def)

lemma crep_freed:
  assumes "crep (nodes c) (leaves c) p t" and "freed c A B c'"
    and "\<And>b. nad t b \<Longrightarrow> b \<notin> A" and "\<And>l. lad t l \<Longrightarrow> l \<notin> B"
  shows "crep (nodes c') (leaves c') p t"
  by (rule crep_frame [OF assms(1)]) (use assms(2-) in \<open>auto simp: freed_fields\<close>)

section \<open>The tree\<close>

lemma delete_children_freed:
  assumes "distinct is" and "set is \<subseteq> {..<16}"
    and "\<And>i. i \<in> set is \<Longrightarrow> crep (nodes c) (leaves c) (ch i) (f i)"
    and "\<And>i c. i \<in> set is \<Longrightarrow> crep (nodes c) (leaves c) (ch i) (f i) \<Longrightarrow> f i \<noteq> E \<Longrightarrow>
       \<exists>c'. F c (ch i) = Some c' \<and> freed c {b. nad (f i) b} {l. lad (f i) l} c'"
    and "\<And>i j b. i < 16 \<Longrightarrow> j < 16 \<Longrightarrow> i \<noteq> j \<Longrightarrow> \<not> (nad (f i) b \<and> nad (f j) b)"
    and "\<And>i j b. i < 16 \<Longrightarrow> j < 16 \<Longrightarrow> i \<noteq> j \<Longrightarrow> \<not> (lad (f i) b \<and> lad (f j) b)"
  shows "\<exists>c'. delete_children F ch is c = Some c' \<and>
     freed c {b. \<exists>i \<in> set is. nad (f i) b} {l. \<exists>i \<in> set is. lad (f i) l} c'"
  using assms(1-4)
proof (induction "is" arbitrary: c)
  case Nil
  then show ?case by (simp add: freed_refl)
next
  case (Cons i js)
  have un: "{b. \<exists>j \<in> set (i # js). P j b} = {b. P i b} \<union> {b. \<exists>j \<in> set js. P j b}" for P :: "nat \<Rightarrow> ptr \<Rightarrow> bool"
    by auto
  show ?case
  proof (cases "ch i = CNull")
    case True
    with Cons.prems(3) [of i] have "f i = E" by simp
    with True Cons.IH [of c] Cons.prems show ?thesis by (auto simp: un)
  next
    case False
    have "f i \<noteq> E" using Cons.prems(3) [of i] False crep_E_CNull by fastforce
    with Cons.prems(3,4) [of i] obtain c1 where
      c1: "F c (ch i) = Some c1" "freed c {b. nad (f i) b} {l. lad (f i) l} c1" by auto
    have "crep (nodes c1) (leaves c1) (ch j) (f j)" if "j \<in> set js" for j
    proof (rule crep_freed [OF _ c1(2)])
      have ij: "i < 16" "j < 16" "i \<noteq> j" using Cons.prems(1,2) that by auto
      show "crep (nodes c) (leaves c) (ch j) (f j)" using Cons.prems(3) that by simp
      show "b \<notin> {b. nad (f i) b}" if "nad (f j) b" for b using assms(5) [OF ij] that by blast
      show "l \<notin> {l. lad (f i) l}" if "lad (f j) l" for l using assms(6) [OF ij] that by blast
    qed
    with Cons.IH [of c1] Cons.prems(1,2,4) obtain c2 where
      c2: "delete_children F ch js c1 = Some c2"
        "freed c1 {b. \<exists>i \<in> set js. nad (f i) b} {l. \<exists>i \<in> set js. lad (f i) l} c2" by auto
    from freed_trans [OF c1(2) c2(2)] c1(1) c2(1) False show ?thesis by (simp only: un) simp
  qed
qed

lemma delete_node_freed:
  "crep N L p t \<Longrightarrow> N = nodes c \<Longrightarrow> L = leaves c \<Longrightarrow> trie_ok t \<Longrightarrow> sep t \<Longrightarrow> t \<noteq> E \<Longrightarrow> lev t \<le> d \<Longrightarrow>
     \<exists>c'. delete_node d c p = Some c' \<and> freed c {b. nad t b} {l. lad t l} c'"
proof (induction t arbitrary: N L p c d)
  case (Lf l k v)
  then obtain d' where "d = Suc d'" by (cases d) auto
  with Lf show ?case
    by (auto simp: crep_iffs release_leaf_def freed_def restrict_complement_singleton_eq)
next
  case (Nd a pa s f)
  then obtain d' where d: "d = Suc d'" by (cases d) auto
  note ok = \<open>trie_ok (Nd a pa s f)\<close> and sp = \<open>sep (Nd a pa s f)\<close>
  from Nd.prems obtain nd where nd: "p = CNode a" "nodes c a = Some nd"
    and ch: "\<forall>i<16. crep (nodes c) (leaves c) (child nd i) (f i)" by (auto simp: crep_iffs)
  have "\<exists>c1. delete_children (delete_node d') (child nd) [0..<SLNODES] c = Some c1 \<and>
     freed c {b. \<exists>i \<in> set [0..<SLNODES]. nad (f i) b} {l. \<exists>i \<in> set [0..<SLNODES]. lad (f i) l} c1"
  proof (rule delete_children_freed)
    fix i and c' :: critnib
    assume i: "i \<in> set [0..<SLNODES]" and rep: "crep (nodes c') (leaves c') (child nd i) (f i)" and "f i \<noteq> E"
    from i have i: "i < 16" by (simp add: SLNODES_def)
    have "lev (f i) \<le> d'" using lev_child [OF ok i] Nd.prems d by simp
    moreover have "sep (f i)" using sp i by (simp add: sep_Nd_iff)
    ultimately show "\<exists>c''. delete_node d' c' (child nd i) = Some c'' \<and> freed c' {b. nad (f i) b} {l. lad (f i) l} c''"
      using Nd.IH [OF rangeI rep refl refl trie_okD(4) [OF ok i]] \<open>f i \<noteq> E\<close> by blast
  qed (use ch sp in \<open>auto simp: SLNODES_def sep_Nd_iff\<close>)
  then obtain c1 where c1: "delete_children (delete_node d') (child nd) [0..<SLNODES] c = Some c1"
    "freed c {b. \<exists>i<16. nad (f i) b} {l. \<exists>i<16. lad (f i) l} c1"
    by (auto simp: SLNODES_def Bex_def)
  have a: "nodes c1 a = Some nd" using nd sp by (auto simp: freed_fields [OF c1(2)] sep_Nd_iff)
  then have rel: "release_node c1 (CNode a) = Some (c1\<lparr>nodes := (nodes c1)(a := None)\<rparr>)" by simp
  have rel': "freed c1 {a} {} (c1\<lparr>nodes := (nodes c1)(a := None)\<rparr>)"
    by (simp add: freed_def restrict_complement_singleton_eq)
  have eq: "{b. nad (Nd a pa s f) b} = {b. \<exists>i<16. nad (f i) b} \<union> {a}"
    "{l. lad (Nd a pa s f) l} = {l. \<exists>i<16. lad (f i) l} \<union> {}" by (auto simp: nad_Nd lad_Nd)
  have "freed c {b. nad (Nd a pa s f) b} {l. lad (Nd a pa s f) l} (c1\<lparr>nodes := (nodes c1)(a := None)\<rparr>)"
    unfolding eq by (rule freed_trans [OF c1(2) rel'])
  with c1(1) rel nd show ?case by (auto simp: d)
qed simp

section \<open>The pools and the waiting objects\<close>

lemma release_node_freed:
  "nodes c a \<noteq> None \<Longrightarrow> \<exists>c'. release_node c (CNode a) = Some c' \<and> freed c {a} {} c'"
  by (auto simp: freed_def restrict_complement_singleton_eq)

lemma release_leaf_freed:
  "leaves c l \<noteq> None \<Longrightarrow> l \<noteq> NULL \<Longrightarrow> \<exists>c'. release_leaf c l = Some c' \<and> freed c {} {l} c'"
  by (auto simp: release_leaf_def freed_def restrict_complement_singleton_eq)

lemma delete_node_list_freed:
  "dn_list (nodes c) p as \<Longrightarrow> distinct as \<Longrightarrow> \<exists>c'. delete_node_list c p = Some c' \<and> freed c (set as) {} c'"
proof (induction as arbitrary: c p)
  case Nil
  then show ?case by (simp add: delete_node_list.simps freed_refl)
next
  case (Cons a as)
  then obtain n where n: "p = CNode a" "nodes c a = Some n" "dn_list (nodes c) (child n 0) as" by auto
  then obtain c1 where c1: "release_node c (CNode a) = Some c1" "freed c {a} {} c1"
    using release_node_freed [of c a] by auto
  have "dn_list (nodes c1) (child n 0) as"
    by (rule dn_list_frame [OF n(3)]) (use Cons.prems(2) freed_fields(1) [OF c1(2)] in \<open>auto simp: restrict_map_def\<close>)
  with Cons.IH Cons.prems(2) obtain c2 where "delete_node_list c1 (child n 0) = Some c2" "freed c1 (set as) {} c2"
    by fastforce
  with freed_trans [OF c1(2), of "set as" "{}" c2] c1(1) n show ?case
    by (simp add: delete_node_list.simps [of c "CNode a"] del: release_node.simps)
qed

lemma delete_leaf_list_freed:
  "dl_list (leaves c) p as \<Longrightarrow> distinct as \<Longrightarrow> \<exists>c'. delete_leaf_list c p = Some c' \<and> freed c {} (set as) c'"
proof (induction as arbitrary: c p)
  case Nil
  then show ?case by (simp add: delete_leaf_list.simps freed_refl)
next
  case (Cons a as)
  then obtain n where n: "p = a" "a \<noteq> NULL" "leaves c a = Some n" "dl_list (leaves c) (lvalue n) as" by auto
  then obtain c1 where c1: "release_leaf c a = Some c1" "freed c {} {a} c1"
    using release_leaf_freed [of c a] by auto
  have "dl_list (leaves c1) (lvalue n) as"
    by (rule dl_list_frame [OF n(4)]) (use Cons.prems(2) freed_fields(2) [OF c1(2)] in \<open>auto simp: restrict_map_def\<close>)
  with Cons.IH Cons.prems(2) obtain c2 where "delete_leaf_list c1 (lvalue n) = Some c2" "freed c1 {} (set as) c2"
    by fastforce
  with freed_trans [OF c1(2), of "{}" "set as" c2] c1(1) n show ?case
    by (simp add: delete_leaf_list.simps [of c a])
qed

text \<open>The nodes and leaves that wait at the places of a list.\<close>

definition pn_at :: "critnib \<Rightarrow> nat list \<Rightarrow> ptr set" where
  "pn_at c is = {a. \<exists>i \<in> set is. pending_del_nodes c i = CNode a}"

definition pl_at :: "critnib \<Rightarrow> nat list \<Rightarrow> ptr set" where
  "pl_at c is = {l. l \<noteq> NULL \<and> (\<exists>i \<in> set is. pending_del_leaves c i = l)}"

lemma release_pending_node:
  assumes "\<not> is_leaf (pending_del_nodes c i)" and "pn_at c [i] \<subseteq> dom (nodes c)"
  shows "\<exists>c'. release_node c (pending_del_nodes c i) = Some c' \<and> freed c (pn_at c [i]) {} c'"
proof (cases "pending_del_nodes c i")
  case (CNode a)
  then have "pn_at c [i] = {a}" by (auto simp: pn_at_def)
  with CNode assms(2) release_node_freed [of c a] show ?thesis by auto
qed (use assms in \<open>auto simp: pn_at_def freed_refl\<close>)

lemma release_pending_leaf:
  assumes "pl_at c [i] \<subseteq> dom (leaves c)"
  shows "\<exists>c'. release_leaf c (pending_del_leaves c i) = Some c' \<and> freed c {} (pl_at c [i]) c'"
proof (cases "pending_del_leaves c i = NULL")
  case True
  then have "pl_at c [i] = {}" by (auto simp: pl_at_def)
  with True show ?thesis by (simp add: release_leaf_def freed_refl)
next
  case False
  then have "pl_at c [i] = {pending_del_leaves c i}" by (auto simp: pl_at_def)
  with False assms release_leaf_freed [of c "pending_del_leaves c i"] show ?thesis by auto
qed

definition pend_ok :: "critnib \<Rightarrow> nat list \<Rightarrow> bool" where
  "pend_ok c is \<longleftrightarrow> distinct is \<and> (\<forall>i \<in> set is. \<not> is_leaf (pending_del_nodes c i)) \<and>
     (\<forall>i \<in> set is. \<forall>j \<in> set is. i \<noteq> j \<longrightarrow>
        (pending_del_nodes c i = pending_del_nodes c j \<longrightarrow> pending_del_nodes c i = CNull) \<and>
        (pending_del_leaves c i = pending_del_leaves c j \<longrightarrow> pending_del_leaves c i = NULL))"

lemma pend_ok_Cons:
  assumes "pend_ok c (i # js)"
  shows "pend_ok c js" and "\<not> is_leaf (pending_del_nodes c i)"
    and "pn_at c js \<inter> pn_at c [i] = {}" and "pl_at c js \<inter> pl_at c [i] = {}"
proof -
  show "pend_ok c js" "\<not> is_leaf (pending_del_nodes c i)" using assms by (simp_all add: pend_ok_def)
  have "j \<in> set js \<Longrightarrow> pending_del_nodes c i = pending_del_nodes c j \<Longrightarrow> pending_del_nodes c i = CNull"
    "j \<in> set js \<Longrightarrow> pending_del_leaves c i = pending_del_leaves c j \<Longrightarrow> pending_del_leaves c i = NULL" for j
    using assms unfolding pend_ok_def by (metis distinct.simps(2) list.set_intros)+
  then show "pn_at c js \<inter> pn_at c [i] = {}" "pl_at c js \<inter> pl_at c [i] = {}"
    unfolding pn_at_def pl_at_def by force+
qed

lemma delete_pending_freed:
  assumes "pend_ok c is" and "pn_at c is \<subseteq> dom (nodes c)" and "pl_at c is \<subseteq> dom (leaves c)"
  shows "\<exists>c'. delete_pending is c = Some c' \<and> freed c (pn_at c is) (pl_at c is) c'"
  using assms
proof (induction "is" arbitrary: c)
  case Nil
  then show ?case by (simp add: freed_refl pn_at_def pl_at_def)
next
  case (Cons i js)
  have sub: "pn_at c [i] \<subseteq> pn_at c (i # js)" "pl_at c [i] \<subseteq> pl_at c (i # js)" by (auto simp: pn_at_def pl_at_def)
  obtain c1 where c1: "release_node c (pending_del_nodes c i) = Some c1" "freed c (pn_at c [i]) {} c1"
    using release_pending_node [of c i] pend_ok_Cons(2) [OF Cons.prems(1)] order_trans [OF sub(1) Cons.prems(2)] by auto
  note f1 = freed_fields [OF c1(2)]
  have "pl_at c1 [i] = pl_at c [i]" by (simp add: pl_at_def f1)
  then obtain c2 where c2: "release_leaf c1 (pending_del_leaves c1 i) = Some c2" "freed c1 {} (pl_at c [i]) c2"
    using release_pending_leaf [of c1 i] order_trans [OF sub(2) Cons.prems(3)] f1 by auto
  note f2 = freed_fields [OF c2(2)]
  have pj: "pn_at c2 js = pn_at c js" "pl_at c2 js = pl_at c js" by (simp_all add: pn_at_def pl_at_def f1 f2)
  note dis = pend_ok_Cons(3,4) [OF Cons.prems(1)]
  have un: "pn_at c [i] \<union> pn_at c js = pn_at c (i # js)" "pl_at c [i] \<union> pl_at c js = pl_at c (i # js)"
    by (auto simp: pn_at_def pl_at_def)
  have "\<exists>c3. delete_pending js c2 = Some c3 \<and> freed c2 (pn_at c2 js) (pl_at c2 js) c3"
  proof (rule Cons.IH)
    show "pn_at c2 js \<subseteq> dom (nodes c2)" "pl_at c2 js \<subseteq> dom (leaves c2)"
      using Cons.prems(2,3) dis un by (auto simp: pj f1 f2)
    show "pend_ok c2 js" using pend_ok_Cons(1) [OF Cons.prems(1)] by (simp add: pend_ok_def f1 f2)
  qed
  then obtain c3 where c3: "delete_pending js c2 = Some c3" "freed c2 (pn_at c js) (pl_at c js) c3"
    by (auto simp: pj)
  have "freed c (pn_at c (i # js)) (pl_at c (i # js)) c3"
    using freed_trans [OF freed_trans [OF c1(2) c2(2)] c3(2)] by (simp add: un)
  with c1 c2 c3 show ?case by auto
qed

section \<open>critnib_delete\<close>

lemma critnib_delete_correct:
  assumes "critnib_ok c"
  shows "\<exists>c'. critnib_delete c = Some c' \<and> nodes c' = Map.empty \<and> leaves c' = Map.empty"
proof -
  from assms obtain t DN DL where st: "cstate c t DN DL {} {}" and ok: "trie_ok t"
    by (auto simp: critnib_ok_def owned_def)
  note rep = cstate_tree(1) [OF st] and sp = cstate_tree(2) [OF st]
  have np: "node_part c t DN {}" and lp: "leaf_part c t DL {}" using st by (simp_all add: cstate_def)
  then have part: "part4 (dom (nodes c)) {a. nad t a} (set DN) (pnodes c) {}"
    "part4 (dom (leaves c)) {a. lad t a} (set DL) (pleaves c) {}" by (simp_all add: node_part_def leaf_part_def)
  obtain c1 where c1: "(if root c = CNull then Some c else delete_node CRITNIB_DEPTH c (root c)) = Some c1"
    "freed c {a. nad t a} {l. lad t l} c1"
  proof (cases "root c = CNull")
    case True
    then have "t = E" using rep by simp
    with True show thesis using that [of c] freed_refl [of c] by (simp add: Collect_empty_eq [THEN iffD2])
  next
    case False
    then have "t \<noteq> E" using crep_E_CNull [OF rep] by blast
    with delete_node_freed [OF rep refl refl ok sp] lev_depth [OF ok] False that show thesis by auto
  qed
  have "dn_list (nodes c1) (deleted_node c1) DN"
    unfolding freed_fields [OF c1(2)]
    by (rule dn_list_frame [of "nodes c"]) (use np part in \<open>auto simp: node_part_def part4_def restrict_map_def\<close>)
  then obtain c2 where c2: "delete_node_list c1 (deleted_node c1) = Some c2" "freed c1 (set DN) {} c2"
    using delete_node_list_freed [of c1 "deleted_node c1" DN] np by (auto simp: node_part_def)
  have "dl_list (leaves c2) (deleted_leaf c2) DL"
    unfolding freed_fields [OF c2(2)] freed_fields [OF c1(2)]
    by (rule dl_list_frame [of "leaves c"]) (use lp part in \<open>auto simp: leaf_part_def part4_def restrict_map_def\<close>)
  then obtain c3 where c3: "delete_leaf_list c2 (deleted_leaf c2) = Some c3" "freed c2 {} (set DL) c3"
    using delete_leaf_list_freed [of c2 "deleted_leaf c2" DL] lp by (auto simp: leaf_part_def)
  have c03: "freed c ({a. nad t a} \<union> set DN) ({l. lad t l} \<union> set DL) c3"
    using freed_trans [OF freed_trans [OF c1(2) c2(2)] c3(2)] by simp
  note f3 = freed_fields [OF c03]
  have pn: "pn_at c3 [0..<DELETED_LIFE] = pnodes c" "pl_at c3 [0..<DELETED_LIFE] = pleaves c"
    by (auto simp: pn_at_def pl_at_def pnodes_def pleaves_def f3 DELETED_LIFE_def)
  have "\<exists>c4. delete_pending [0..<DELETED_LIFE] c3 = Some c4 \<and>
      freed c3 (pn_at c3 [0..<DELETED_LIFE]) (pl_at c3 [0..<DELETED_LIFE]) c4"
  proof (rule delete_pending_freed)
    show "pn_at c3 [0..<DELETED_LIFE] \<subseteq> dom (nodes c3)" "pl_at c3 [0..<DELETED_LIFE] \<subseteq> dom (leaves c3)"
      using part unfolding pn f3 part4_def by auto
    show "pend_ok c3 [0..<DELETED_LIFE]"
      using np lp unfolding node_part_def leaf_part_def pend_nodes_ok_def pend_leaves_ok_def pend_ok_def f3 DELETED_LIFE_def
      by simp
  qed
  then obtain c4 where c4: "delete_pending [0..<DELETED_LIFE] c3 = Some c4" "freed c3 (pnodes c) (pleaves c) c4"
    by (auto simp: pn)
  note f4 = freed_fields [OF freed_trans [OF c03 c4(2)]]
  have "dom (nodes c4) = {}" "dom (leaves c4) = {}" unfolding f4 using part by (auto simp: part4_def)
  with c1 c2 c3 c4 show ?thesis by (auto simp: critnib_delete_def)
qed

end
