(* ===== verification/Address_Map.thy ===== *)
theory Address_Map
  imports Critnib_Delete
begin

text \<open>
  The interface through which the rest of the library uses a critnib: a finite map from
  addresses to pointers, with the laws its clients rely on (locale \<open>address_map\<close>), client facts
  proved from the laws alone, and the interpretation on the model of \<^verbatim>\<open>critnib.c\<close>. The theory
  ends with the properties of the critnib itself.
\<close>

definition value_at :: "(u64 \<rightharpoonup> ptr) \<Rightarrow> u64 \<Rightarrow> ptr" where
  "value_at m k = (case m k of None \<Rightarrow> NULL | Some v \<Rightarrow> v)"

text \<open>What an insertion may do to the map, by the code it returns.\<close>

definition ins_result ::
  "(u64 \<rightharpoonup> ptr) \<Rightarrow> u64 \<Rightarrow> ptr \<Rightarrow> bool \<Rightarrow> bool \<Rightarrow> errno \<Rightarrow> (u64 \<rightharpoonup> ptr) \<Rightarrow> bool" where
  "ins_result m k v update mem r m' \<longleftrightarrow>
     (case r of
        OK \<Rightarrow> m' = m(k \<mapsto> v) \<and> (m k \<noteq> None \<longrightarrow> update)
      | EEXIST \<Rightarrow> m' = m \<and> m k \<noteq> None \<and> \<not> update
      | ENOMEM \<Rightarrow> m' = m \<and> \<not> mem)"

locale address_map =
  fixes inv :: "'s \<Rightarrow> bool"
    and room :: "'s \<Rightarrow> nat"
    and con :: "'s \<Rightarrow> u64 \<rightharpoonup> ptr"
    and fresh :: "'s \<Rightarrow> ptr \<Rightarrow> ptr \<Rightarrow> bool"
    and ins :: "'s \<Rightarrow> u64 \<Rightarrow> ptr \<Rightarrow> bool \<Rightarrow> ptr \<Rightarrow> ptr \<Rightarrow> (errno \<times> 's) option"
    and rem :: "'s \<Rightarrow> u64 \<Rightarrow> (ptr \<times> 's) option"
    and get :: "'s \<Rightarrow> u64 \<Rightarrow> ptr option"
    and find :: "'s \<Rightarrow> u64 \<Rightarrow> find_dir \<Rightarrow> (u64 \<times> ptr) option option"
  assumes ins_law: "inv s \<Longrightarrow> fresh s ml mn \<Longrightarrow>
      \<exists>r s'. ins s k v update ml mn = Some (r, s') \<and> inv s' \<and> room s' = room s \<and>
        ins_result (con s) k v update (ml \<noteq> NULL \<and> mn \<noteq> NULL) r (con s')"
    and rem_law: "inv s \<Longrightarrow>
      \<exists>s'. rem s k = Some (value_at (con s) k, s') \<and> inv s' \<and> con s' = (con s)(k := None) \<and> room s \<le> Suc (room s')"
    and get_law: "inv s \<Longrightarrow> 0 < room s \<Longrightarrow> get s k = Some (value_at (con s) k)"
    and find_law: "inv s \<Longrightarrow> 0 < room s \<Longrightarrow> \<exists>r. find s k dir = Some r \<and> closest (con s) dir k r"
begin

lemma insE:
  assumes "inv s" and "fresh s ml mn" and "ins s k v update ml mn = Some (r, s')"
  shows "inv s'" and "room s' = room s" and "ins_result (con s) k v update (ml \<noteq> NULL \<and> mn \<noteq> NULL) r (con s')"
  using ins_law [OF assms(1,2), of k v update] assms(3) by auto

lemma ins_total: "inv s \<Longrightarrow> fresh s ml mn \<Longrightarrow> \<exists>r s'. ins s k v update ml mn = Some (r, s')"
  using ins_law by blast

lemma remE:
  assumes "inv s" and "rem s k = Some (v, s')"
  shows "inv s'" and "v = value_at (con s) k" and "con s' = (con s)(k := None)" and "room s \<le> Suc (room s')"
  using rem_law [OF assms(1), of k] assms(2) by auto

text \<open>Insertion, then lookup; removal, then lookup; insertion, then removal.\<close>

lemma get_ins:
  assumes "inv s" and "fresh s ml mn" and "ins s k v update ml mn = Some (OK, s')" and "0 < room s"
  shows "get s' k' = Some (if k' = k then v else value_at (con s) k')"
proof -
  note i = insE [OF assms(1-3)]
  then have "con s' = (con s)(k \<mapsto> v)" by (simp add: ins_result_def)
  with get_law [OF i(1)] i(2) assms(4) show ?thesis by (simp add: value_at_def)
qed

lemma get_rem:
  assumes "inv s" and "rem s k = Some (v, s')" and "1 < room s"
  shows "get s' k' = Some (if k' = k then NULL else value_at (con s) k')"
proof -
  note r = remE [OF assms(1,2)]
  from r(4) assms(3) have "0 < room s'" by simp
  with get_law [OF r(1)] r(3) show ?thesis by (simp add: value_at_def)
qed

lemma ins_rem:
  assumes "inv s" and "fresh s ml mn" and "ins s k v False ml mn = Some (OK, s')"
  shows "\<exists>s''. rem s' k = Some (v, s'') \<and> inv s'' \<and> con s'' = con s"
proof -
  note i = insE [OF assms(1-3)]
  then have c: "con s' = (con s)(k \<mapsto> v)" "con s k = None" by (auto simp: ins_result_def)
  from rem_law [OF i(1), of k] obtain s'' where
    "rem s' k = Some (v, s'')" "inv s''" "con s'' = (con s')(k := None)" by (auto simp: c value_at_def)
  with c show ?thesis by auto
qed

text \<open>
  Lookup of the object that contains an address: when the keys are the bases of disjoint
  ranges of the given lengths, the greatest key below an address is the base of the range that
  contains it, if any does.
\<close>

lemma find_containing:
  assumes "inv s" and "0 < room s"
    and disj: "\<And>b b'. b \<in> dom (con s) \<Longrightarrow> b' \<in> dom (con s) \<Longrightarrow> b < b' \<Longrightarrow> unat b + len b \<le> unat b'"
    and b: "con s b = Some v" "b \<le> k" "unat k < unat b + len b"
  shows "find s k FIND_LE = Some (Some (b, v))"
proof -
  from find_law [OF assms(1,2), of k FIND_LE] obtain r where
    r: "find s k FIND_LE = Some r" "closest (con s) FIND_LE k r" by blast
  from r(2) b obtain b' v' where b': "r = Some (b', v')" "con s b' = Some v'" "b' \<le> k" "b \<le> b'"
    by (cases r) (auto simp: closest_def)
  have "b' = b"
  proof (rule ccontr)
    assume "b' \<noteq> b"
    with b' have "b < b'" by simp
    with disj [of b b'] b b' have "unat b + len b \<le> unat b'" by auto
    with b(3) b'(3) show False by (simp add: word_le_nat_alt)
  qed
  with r b b' show ?thesis by simp
qed

end

section \<open>The critnib is an address map\<close>

definition critnib_room :: "critnib \<Rightarrow> nat" where
  "critnib_room c = 2 ^ 64 - DELETED_LIFE - unat (remove_count c)"

definition critnib_fresh :: "critnib \<Rightarrow> ptr \<Rightarrow> ptr \<Rightarrow> bool" where
  "critnib_fresh c ml mn \<longleftrightarrow> (ml \<noteq> NULL \<longrightarrow> leaves c ml = None) \<and> (mn \<noteq> NULL \<longrightarrow> nodes c mn = None)"

lemma critnib_room_counter: "0 < critnib_room c \<longleftrightarrow> counter_ok c"
  by (auto simp: critnib_room_def counter_ok_def DELETED_LIFE_def)

lemma critnib_room_step:
  assumes "remove_count c' = remove_count c + 1"
  shows "critnib_room c \<le> Suc (critnib_room c')"
proof -
  have "unat (remove_count c + 1) \<le> Suc (unat (remove_count c))"
    by (metis add.commute le_SucI le_refl unatSuc unat_0 le0)
  then show ?thesis unfolding critnib_room_def assms by linarith
qed

interpretation cnmap: address_map critnib_ok critnib_room contents critnib_fresh
    critnib_insert critnib_remove critnib_get critnib_find
proof unfold_locales
  fix s ml mn k v update
  assume ok: "critnib_ok s" and fr: "critnib_fresh s ml mn"
  from insert_contents [OF ok, of ml mn k v update] fr obtain r s' where
    r: "critnib_insert s k v update ml mn = Some (r, s')" "critnib_ok s'" "remove_count s' = remove_count s"
      "case r of OK \<Rightarrow> contents s' = (contents s)(k \<mapsto> v) \<and> (contents s k \<noteq> None \<longrightarrow> update)
       | EEXIST \<Rightarrow> contents s' = contents s \<and> contents s k \<noteq> None \<and> \<not> update
       | ENOMEM \<Rightarrow> contents s' = contents s \<and> (ml = NULL \<or> mn = NULL)"
    by (auto simp: critnib_fresh_def dom_def)
  then show "\<exists>r s'. critnib_insert s k v update ml mn = Some (r, s') \<and> critnib_ok s' \<and>
      critnib_room s' = critnib_room s \<and> ins_result (contents s) k v update (ml \<noteq> NULL \<and> mn \<noteq> NULL) r (contents s')"
    by (intro exI [of _ r] exI [of _ s']) (auto simp: ins_result_def critnib_room_def split: errno.splits)
next
  fix s k
  assume "critnib_ok s"
  then show "\<exists>s'. critnib_remove s k = Some (value_at (contents s) k, s') \<and> critnib_ok s' \<and>
      contents s' = (contents s)(k := None) \<and> critnib_room s \<le> Suc (critnib_room s')"
    using remove_contents [of s k] critnib_room_step [of _ s] unfolding value_at_def
    by (metis critnib_room_def le_SucI order_refl)
qed (use get_contents find_contents critnib_room_counter in \<open>auto simp: value_at_def\<close>)

section \<open>Small critnibs\<close>

text \<open>The states after one and two insertions: of the keys 4096 and 8192, and of two keys that differ in
  their topmost nibble.\<close>

definition critnib_leaf_only :: "u64 \<Rightarrow> critnib" where
  "critnib_leaf_only k = critnib_zero\<lparr>root := CLeaf 1001, leaves := [1001 \<mapsto> \<lparr>key = k, lvalue = 7\<rparr>]\<rparr>"

definition critnib_pair :: "u64 \<Rightarrow> u64 \<Rightarrow> nat \<Rightarrow> critnib" where
  "critnib_pair k1 k2 sh = critnib_zero\<lparr>root := CNode 2001,
     nodes := [2001 \<mapsto> \<lparr>child = (\<lambda>_. CNull)(2 := CLeaf 1002, 1 := CLeaf 1001), path = 0, shift = sh\<rparr>],
     leaves := [1001 \<mapsto> \<lparr>key = k1, lvalue = 7\<rparr>, 1002 \<mapsto> \<lparr>key = k2, lvalue = 9\<rparr>]\<rparr>"

definition critnib_two :: critnib where
  "critnib_two = critnib_pair 4096 8192 12"

definition critnib_top :: critnib where
  "critnib_top = critnib_pair 0x1000000000000000 0x2000000000000000 60"

lemma insert_first: "critnib_insert critnib_zero k 7 False 1001 0 = Some (OK, critnib_leaf_only k)"
  by (simp add: critnib_insert_def critnib_zero_def critnib_leaf_only_def alloc_leaf_def)

lemmas eval_insert = critnib_insert_def critnib_zero_def critnib_leaf_only_def critnib_pair_def
  alloc_leaf_def insert_walk.simps insert_at_def node_path_def alloc_node_def SLICE_def slice_index_def
  NIB_def path_mask_def

lemma insert_second:
  "critnib_insert (critnib_leaf_only 4096) 8192 9 False 1002 2001 = Some (OK, critnib_two)"
  "critnib_insert (critnib_leaf_only 0x1000000000000000) 0x2000000000000000 9 False 1002 2001 = Some (OK, critnib_top)"
proof -
  have i: "utils_mssb_index (4096 XOR 8192) = 13"
    "utils_mssb_index (0x1000000000000000 XOR 0x2000000000000000) = 61" by code_simp+
  show "critnib_insert (critnib_leaf_only 4096) 8192 9 False 1002 2001 = Some (OK, critnib_two)"
    by (simp add: eval_insert critnib_two_def i(1) [simplified])
  show "critnib_insert (critnib_leaf_only 0x1000000000000000) 0x2000000000000000 9 False 1002 2001 = Some (OK, critnib_top)"
    by (simp add: eval_insert critnib_top_def i(2) [simplified])
qed

lemma critnib_leaf_only_ok: "critnib_ok (critnib_leaf_only k)"
  by (rule cnmap.insE(1) [OF critnib_ok_zero _ insert_first]) (simp add: critnib_fresh_def critnib_zero_def)

lemma critnib_two_ok: "critnib_ok critnib_two" "counter_ok critnib_two" "critnib_fresh critnib_two 1003 2002"
proof -
  show "critnib_ok critnib_two"
    by (rule cnmap.insE(1) [OF critnib_leaf_only_ok _ insert_second(1)])
      (simp add: critnib_fresh_def critnib_leaf_only_def critnib_zero_def)
qed (simp_all add: critnib_fresh_def critnib_two_def critnib_pair_def critnib_zero_def counter_ok_def DELETED_LIFE_def)

lemma critnib_top_ok: "critnib_ok critnib_top"
  by (rule cnmap.insE(1) [OF critnib_leaf_only_ok _ insert_second(2)])
    (simp add: critnib_fresh_def critnib_leaf_only_def critnib_zero_def)

lemma critnib_two_entries: "all_entries critnib_two = [(4096, 7), (8192, 9)]"
  by code_simp

lemma critnib_top_entries: "all_entries critnib_top = [(0x1000000000000000, 7), (0x2000000000000000, 9)]"
  by code_simp

lemma critnib_two_contents: "contents critnib_two = [4096 \<mapsto> 7, 8192 \<mapsto> 9]"
  unfolding contents_def critnib_two_entries by (simp add: fun_upd_twist)

section \<open>Properties of the critnib\<close>

text \<open>C11: On a well-formed critnib, given fresh memory or null pointers for a leaf and a node,
  \<open>critnib_insert\<close> returns without a bad access or a failed assertion, keeps the invariant, and
  updates the map: 0 binds the key (which was absent, or \<open>update\<close> was set), \<open>EEXIST\<close> leaves the map
  with the key bound, \<open>ENOMEM\<close> leaves the map and only occurs when an allocation failed.\<close>

theorem critnib_insert_refines_map:
  assumes "critnib_ok c" and "critnib_fresh c ml mn"
  shows "\<exists>r c'. critnib_insert c k v update ml mn = Some (r, c') \<and> critnib_ok c' \<and>
    ins_result (contents c) k v update (ml \<noteq> NULL \<and> mn \<noteq> NULL) r (contents c')"
  using cnmap.ins_law [OF assms] by blast

theorem critnib_insert_refines_map_witness:
  "contents critnib_two 8192 = Some 9 \<and>
   (\<exists>r c'. critnib_insert critnib_two 4097 5 False 1003 2002 = Some (r, c') \<and> critnib_ok c' \<and>
     ins_result (contents critnib_two) 4097 5 False ((1003::ptr) \<noteq> NULL \<and> (2002::ptr) \<noteq> NULL) r (contents c'))"
proof
  show "contents critnib_two 8192 = Some 9" by (simp add: critnib_two_contents)
qed (rule critnib_insert_refines_map [OF critnib_two_ok(1,3)])

text \<open>C12: On a well-formed critnib \<open>critnib_remove\<close> returns the value of the key, NULL when it is
  absent, removes exactly this key from the map and keeps the invariant; in particular the node it
  unlinks and the leaf are owned by the list of the deleted afterwards.\<close>

theorem critnib_remove_refines_map:
  assumes "critnib_ok c"
  shows "\<exists>c'. critnib_remove c k = Some (value_at (contents c) k, c') \<and> critnib_ok c' \<and>
    contents c' = (contents c)(k := None)"
  using cnmap.rem_law [OF assms] by blast

theorem critnib_remove_refines_map_witness:
  "value_at (contents critnib_two) 4096 = 7 \<and>
   (\<exists>c'. critnib_remove critnib_two 4096 = Some (value_at (contents critnib_two) 4096, c') \<and> critnib_ok c' \<and>
     contents c' = (contents critnib_two)(4096 := None))"
proof
  show "value_at (contents critnib_two) 4096 = 7" by (simp add: critnib_two_contents value_at_def)
qed (rule critnib_remove_refines_map [OF critnib_two_ok(1)])

text \<open>C13: While fewer than \<open>2 ^ 64 - 16\<close> removals have been counted, \<open>critnib_get\<close> ends and returns the
  value of the key in the map, NULL when it is absent.\<close>

theorem critnib_get_returns_value:
  assumes "critnib_ok c" and "counter_ok c"
  shows "critnib_get c k = Some (value_at (contents c) k)"
  using get_contents [OF assms] by (simp add: value_at_def)

theorem critnib_get_returns_value_witness:
  "value_at (contents critnib_two) 8192 = 9 \<and> critnib_get critnib_two 8192 = Some (value_at (contents critnib_two) 8192)"
proof
  show "value_at (contents critnib_two) 8192 = 9" by (simp add: critnib_two_contents value_at_def)
qed (rule critnib_get_returns_value [OF critnib_two_ok(1,2)])

text \<open>C14: \<open>critnib_find\<close> returns the entry of the map whose key is closest to the given one in the
  given direction (below, at most, equal, at least, above), and reports none exactly when the map
  has no such key; the ends of the key range are handled for the strict directions.\<close>

theorem critnib_find_returns_closest:
  assumes "critnib_ok c" and "counter_ok c"
  shows "critnib_find c k dir = Some r \<longleftrightarrow> closest (contents c) dir k r"
  using find_contents [OF assms, of k dir] closest_unique by auto

theorem critnib_find_returns_closest_witness:
  "closest (contents critnib_two) FIND_L 8192 (Some (4096, 7)) \<and>
   (critnib_find critnib_two 8192 FIND_L = Some (Some (4096, 7)) \<longleftrightarrow>
      closest (contents critnib_two) FIND_L 8192 (Some (4096, 7)))"
proof
  show "closest (contents critnib_two) FIND_L 8192 (Some (4096, 7))"
    by (auto simp: closest_def critnib_two_contents)
qed (rule critnib_find_returns_closest [OF critnib_two_ok(1,2)])

text \<open>\<open>critnib_iter\<close> calls back on the entries of the map whose keys are in the range, in
  increasing order of keys, until a callback asks to stop, provided that the lower bound is 0, or
  that all keys are below \<open>2 ^ 60\<close> and the lower bound is at most \<open>2 ^ 64 - 2 ^ 60\<close>.\<close>

theorem critnib_iter_visits_range:
  assumes "critnib_ok c"
    and "mn = 0 \<or> (\<forall>k \<in> dom (contents c). unat k < 2 ^ 60) \<and> unat mn \<le> 2 ^ 64 - 2 ^ 60"
  shows "critnib_iter c mn mx func s = Some (snd (visit func (filter (in_range mn mx) (all_entries c)) s)) \<and>
    sorted_wrt (<) (map fst (all_entries c)) \<and> map_of (all_entries c) = contents c"
proof (intro conjI)
  show "critnib_iter c mn mx func s = Some (snd (visit func (filter (in_range mn mx) (all_entries c)) s))"
    by (rule iter_contents [OF assms])
  show "sorted_wrt (<) (map fst (all_entries c))"
    using assms(1) all_entries_correct(2) by (auto simp: critnib_ok_def)
qed (simp add: contents_def)

theorem critnib_iter_visits_range_witness:
  "critnib_iter critnib_two 0 5000 (\<lambda>k v s. (False, (k, v) # s)) [] =
     Some [(4096, 7)]"
  using critnib_iter_visits_range [OF critnib_two_ok(1), of 0 5000 "\<lambda>k v s. (False, (k, v) # s)" "[]"]
  by (simp add: critnib_two_entries in_range_def)

text \<open>C15: \<open>critnib_delete\<close> frees every node and every leaf the structure has allocated (in the tree,
  in the pools and on the list of the deleted), each exactly once, and leaves no memory behind.\<close>

theorem critnib_delete_frees_all:
  assumes "critnib_ok c"
  shows "\<exists>c'. critnib_delete c = Some c' \<and> nodes c' = Map.empty \<and> leaves c' = Map.empty"
  by (rule critnib_delete_correct [OF assms])

theorem critnib_delete_frees_all_witness:
  "dom (nodes critnib_two) \<noteq> {} \<and>
   (\<exists>c'. critnib_delete critnib_two = Some c' \<and> nodes c' = Map.empty \<and> leaves c' = Map.empty)"
proof
  show "dom (nodes critnib_two) \<noteq> {}" by (simp add: critnib_two_def critnib_pair_def)
qed (rule critnib_delete_frees_all [OF critnib_two_ok(1)])

text \<open>C16: The bound on the counter is needed: from \<open>2 ^ 64 - 16\<close> counted removals on, the test
  \<open>wrs1 + DELETED_LIFE <= wrs2\<close> of the retry loop wraps around and \<open>critnib_get\<close> never returns.\<close>

theorem critnib_get_never_returns:
  assumes "\<not> counter_ok c"
  shows "critnib_get c k = None"
  by (rule get_diverges [OF assms])

theorem critnib_get_never_returns_witness:
  "critnib_get (critnib_zero\<lparr>remove_count := 0xFFFFFFFFFFFFFFFF\<rparr>) 4096 = None"
proof (rule critnib_get_never_returns)
  show "\<not> counter_ok (critnib_zero\<lparr>remove_count := 0xFFFFFFFFFFFFFFFF\<rparr>)" by (simp add: counter_ok_def DELETED_LIFE_def)
qed

text \<open>C17: The bound of \<open>critnib_iter\<close> is needed: when any two keys of the map differ in their topmost
  nibble, an iteration with a lower bound above 0 calls back on no entry at all, whatever keys
  are in its range: the mask of the root is 0 there, and the test on the lower bound takes the
  whole tree for smaller.\<close>

theorem critnib_iter_misses_keys:
  assumes "critnib_ok c" and "k \<in> dom (contents c)" and "k' \<in> dom (contents c)"
    and "slice_index k 60 \<noteq> slice_index k' 60" and "0 < mn"
  shows "critnib_iter c mn mx func s = Some s"
  by (rule iter_cut_at_root [OF assms])

theorem critnib_iter_misses_keys_witness:
  "all_entries critnib_top = [(0x1000000000000000, 7), (0x2000000000000000, 9)]
   \<and> critnib_iter critnib_top 1 (- 1) (\<lambda>k v s. (False, (k, v) # s)) [] = Some []"
proof
  show entries: "all_entries critnib_top = [(0x1000000000000000, 7), (0x2000000000000000, 9)]"
    by (rule critnib_top_entries)
  have "contents critnib_top = map_of [(0x1000000000000000, 7), (0x2000000000000000, 9)]"
    using entries by (simp add: contents_def)
  then have keys: "0x1000000000000000 \<in> dom (contents critnib_top)" "0x2000000000000000 \<in> dom (contents critnib_top)"
    by simp_all
  have "slice_index 0x1000000000000000 60 \<noteq> slice_index 0x2000000000000000 60" by (simp add: slice_index_unat)
  then show "critnib_iter critnib_top 1 (- 1) (\<lambda>k v s. (False, (k, v) # s)) [] = Some []"
    by (rule critnib_iter_misses_keys [OF critnib_top_ok keys]) simp
qed

end
