(* ===== verification/UMF_Utils.thy ===== *)
theory UMF_Utils
  imports UMF_Prelude "HOL-Library.Sublist"
begin

text \<open>
  The helper functions of \<open>utils/utils_common.c\<close>, \<open>utils_common.h\<close>, \<open>utils_math.h\<close> and
  \<open>utils_posix_math.c\<close>: alignment of addresses and sizes (64-bit words, with wrap-around),
  search in the option strings of environment variables, copying of paths and translation of
  flag masks. C strings are \<open>string\<close>s without the terminating byte; a pointer into a string is
  the offset from its start, and reading at the offset that equals the length gives the
  terminating zero.
\<close>

section \<open>Alignment\<close>

definition IS_ALIGNED :: "u64 \<Rightarrow> u64 \<Rightarrow> bool" where
  "IS_ALIGNED v al \<longleftrightarrow> al = 0 \<or> v AND (al - 1) = 0"

definition IS_NOT_ALIGNED :: "u64 \<Rightarrow> u64 \<Rightarrow> bool" where
  "IS_NOT_ALIGNED v al \<longleftrightarrow> al \<noteq> 0 \<and> v AND (al - 1) \<noteq> 0"

definition ALIGN_UP :: "u64 \<Rightarrow> u64 \<Rightarrow> u64" where
  "ALIGN_UP v al = (v + al - 1) AND NOT (al - 1)"

definition ALIGN_DOWN :: "u64 \<Rightarrow> u64 \<Rightarrow> u64" where
  "ALIGN_DOWN v al = v AND NOT (al - 1)"

definition utils_align_ptr_up_size_down :: "u64 \<Rightarrow> u64 \<Rightarrow> u64 \<Rightarrow> (u64 \<times> u64) option" where
  "utils_align_ptr_up_size_down p s alignment =
     (let rest = p AND (alignment - 1);
          (p, s) = (if rest \<noteq> 0 then (ALIGN_UP p alignment, s - (alignment - rest)) else (p, s))
      in do {
        guard (IS_ALIGNED p alignment);
        guard (IS_ALIGNED s alignment);
        Some (p, s)
      })"

definition utils_align_ptr_down_size_up :: "u64 \<Rightarrow> u64 \<Rightarrow> u64 \<Rightarrow> (u64 \<times> u64) option" where
  "utils_align_ptr_down_size_up p s alignment =
     (let rest = p AND (alignment - 1);
          (p, s) = (if rest \<noteq> 0 then (ALIGN_DOWN p alignment, s + rest) else (p, s));
          s = ALIGN_UP s alignment
      in do {
        guard (IS_ALIGNED p alignment);
        guard (IS_ALIGNED s alignment);
        Some (p, s)
      })"

section \<open>Strings\<close>

text \<open>The C library's \<open>strstr\<close>: the offset of the first occurrence.\<close>

fun strstr :: "string \<Rightarrow> string \<Rightarrow> nat option" where
  "strstr [] pat = (if pat = [] then Some 0 else None)"
| "strstr (c # cs) pat =
     (if prefix pat (c # cs) then Some 0 else map_option Suc (strstr cs pat))"

definition char_at :: "string \<Rightarrow> nat \<Rightarrow> char" where
  "char_at s i = (if i < length s then s ! i else CHR 0x00)"

definition utils_env_var_has_str :: "(string \<Rightarrow> string option) \<Rightarrow> string \<Rightarrow> string \<Rightarrow> int" where
  "utils_env_var_has_str getenv envvar str =
     (case getenv envvar of
        None \<Rightarrow> 0
      | Some value \<Rightarrow> if strstr value str \<noteq> None then 1 else 0)"

definition utils_is_running_in_proxy_lib :: "(string \<Rightarrow> string option) \<Rightarrow> int" where
  "utils_is_running_in_proxy_lib getenv =
     utils_env_var_has_str getenv ''LD_PRELOAD'' ''libumf_proxy.so''"

text \<open>
  The result of \<open>utils_parse_var\<close> is the offset of the option and, when an argument was asked
  for, the offset stored through \<open>extraArg\<close>.
\<close>

definition utils_parse_var :: "string \<Rightarrow> string \<Rightarrow> bool \<Rightarrow> (nat \<times> nat option) option" where
  "utils_parse_var var option extraArg =
     (case strstr var option of
        None \<Rightarrow> None
      | Some found \<Rightarrow>
          if found \<noteq> 0 \<and> char_at var (found - 1) \<noteq> CHR '';'' then None
          else let endFound = found + length option in
            if \<not> extraArg then
              (if char_at var endFound \<noteq> CHR 0x00 \<and> char_at var endFound \<noteq> CHR '';'' then None
               else Some (found, None))
            else if char_at var endFound \<noteq> CHR '','' then None
            else Some (found, Some (endFound + 1)))"

text \<open>
  \<open>strncpy\<close> stores at most \<open>n\<close> bytes and pads with zeros; \<open>out_path\<close> is the caller's buffer of
  \<open>path_max\<close> bytes. A write behind the buffer is \<open>None\<close>.
\<close>

definition strncpy :: "string \<Rightarrow> string \<Rightarrow> nat \<Rightarrow> string option" where
  "strncpy dst src n =
     (if n \<le> length dst
      then Some (take n (src @ replicate n (CHR 0x00)) @ drop n dst) else None)"

definition utils_copy_path :: "string \<Rightarrow> string \<Rightarrow> u64 \<Rightarrow> (int \<times> string) option" where
  "utils_copy_path in_path out_path path_max =
     (let max_len = path_max - 1 in
      if unat max_len < length in_path then Some (-1, out_path)
      else do {
        out \<leftarrow> strncpy out_path in_path (unat max_len);
        guard (unat (path_max - 1) < length out);
        Some (0, out[unat (path_max - 1) := CHR 0x00])
      })"

section \<open>Flag masks\<close>

text \<open>
  The loop over the bits of a mask of 32 bits. \<open>translate_flag\<close> is the caller's function; the
  shift of \<open>n\<close> wraps to zero behind the topmost bit, and then the loop does not end. \<open>mx\<close> is the
  parameter \<open>max\<close> of the code.
\<close>

type_synonym u32 = "32 word"

partial_function (option) translate_loop ::
  "(u32 \<Rightarrow> umf_result + u32) \<Rightarrow> u32 \<Rightarrow> u32 \<Rightarrow> u32 \<Rightarrow> u32 \<Rightarrow> (umf_result + u32 \<times> u32) option" where
  "translate_loop translate_flag mx n in_flags out_f =
     (if n < mx then
        if in_flags AND n \<noteq> 0 then
          (case translate_flag n of
             Inl result \<Rightarrow> Some (Inl result)
           | Inr flag \<Rightarrow> translate_loop translate_flag mx (push_bit 1 n) (in_flags AND NOT n)
                            (out_f OR flag))
        else translate_loop translate_flag mx (push_bit 1 n) in_flags out_f
      else Some (Inr (in_flags, out_f)))"

definition utils_translate_flags ::
  "u32 \<Rightarrow> u32 \<Rightarrow> (u32 \<Rightarrow> umf_result + u32) \<Rightarrow> (umf_result + u32) option" where
  "utils_translate_flags in_flags mx translate_flag = do {
     r \<leftarrow> translate_loop translate_flag mx 1 in_flags 0;
     Some (case r of
             Inl e \<Rightarrow> Inl e
           | Inr (rest, out_f) \<Rightarrow>
               if rest \<noteq> 0 then Inl UMF_RESULT_ERROR_INVALID_ARGUMENT else Inr out_f)
   }"

section \<open>Integer logarithm\<close>

text \<open>\<open>__builtin_clzll\<close> counts the zero bits above the topmost set bit.\<close>

fun clz_from :: "nat \<Rightarrow> u64 \<Rightarrow> nat" where
  "clz_from 0 w = 0"
| "clz_from (Suc i) w = (if bit w i then 0 else Suc (clz_from i w))"

definition builtin_clzll :: "u64 \<Rightarrow> u64" where
  "builtin_clzll w = of_nat (clz_from 64 w)"

definition getLeftmostSetBitPos :: "u64 \<Rightarrow> u64 option" where
  "getLeftmostSetBitPos num = do {
     guard (num \<noteq> 0);
     Some ((8 * 8 - 1) - builtin_clzll num)
   }"

definition log2Utils :: "u64 \<Rightarrow> u64 option" where
  "log2Utils num = getLeftmostSetBitPos num"

section \<open>Facts on alignment to a power of two\<close>

lemma unat_exp64 [simp]:
  assumes "k < 64" shows "unat (2 ^ k :: u64) = 2 ^ k"
proof -
  have "(2 :: nat) ^ k < 2 ^ 64"
    using assms by (intro power_strict_increasing) simp_all
  then show ?thesis
    by (intro of_nat_inverse) simp_all
qed

lemma unat_add_u64: "unat a + unat b < 2 ^ 64 \<Longrightarrow> unat (a + b) = unat a + unat b" for a b :: u64
  using unat_add_lem [of a b] by simp

lemma unat_sub_u64: "unat b \<le> unat a \<Longrightarrow> unat (a - b) = unat a - unat b" for a b :: u64
  by (simp add: unat_sub word_le_nat_alt)

lemma unat_eqD64: "unat a = unat b \<Longrightarrow> a = b" for a b :: u64
  by (simp only: word_unat_eq_iff)

lemma exp_minus_one_mask: "(2 ^ k :: u64) - 1 = mask k"
  by (simp add: mask_eq_exp_minus_1)

lemma unat_and_mask: "unat (v AND mask k :: u64) = unat v mod 2 ^ k"
  by (metis take_bit_eq_mask unsigned_take_bit_eq take_bit_eq_mod)

lemma and_not_mask_diff: "v AND NOT (mask k) = v - (v AND mask k)" for v :: u64
proof -
  have "v = (v AND mask k) OR (v AND NOT (mask k))"
    by (rule bit_eqI) (auto simp: bit_simps)
  moreover have "(v AND mask k) + (v AND NOT (mask k)) = (v AND mask k) OR (v AND NOT (mask k))"
    by (rule disjunctive_add_eq_or) (simp add: and.left_commute and.assoc)
  ultimately show ?thesis by (metis add_diff_cancel_left')
qed

lemma unat_and_not_mask: "unat (v AND NOT (mask k) :: u64) = unat v div 2 ^ k * 2 ^ k"
proof -
  have "v AND mask k \<le> v"
    by (simp add: word_le_nat_alt unat_and_mask)
  then show ?thesis
    by (simp add: and_not_mask_diff unat_sub word_le_nat_alt unat_and_mask
        minus_mod_eq_div_mult)
qed

lemma unat_ALIGN_DOWN: "unat (ALIGN_DOWN v (2 ^ k)) = unat v div 2 ^ k * 2 ^ k"
  by (simp add: ALIGN_DOWN_def exp_minus_one_mask unat_and_not_mask)

lemma unat_ALIGN_UP:
  assumes "k < 64" and "unat v + 2 ^ k \<le> 2 ^ 64"
  shows "unat (ALIGN_UP v (2 ^ k)) = (unat v + 2 ^ k - 1) div 2 ^ k * 2 ^ k"
proof -
  have pos: "(0 :: nat) < 2 ^ k" by simp
  have "unat (2 ^ k - 1 :: u64) = 2 ^ k - 1"
    using assms(1) by (simp add: unat_sub_u64)
  moreover from this have "unat (v + (2 ^ k - 1)) = unat v + unat (2 ^ k - 1 :: u64)"
    using assms(2) pos by (intro unat_add_u64) linarith
  ultimately have "unat (v + 2 ^ k - 1) = unat v + 2 ^ k - 1"
    using pos by (simp add: add_diff_eq)
  then show ?thesis
    by (simp add: ALIGN_UP_def exp_minus_one_mask unat_and_not_mask)
qed

lemma IS_ALIGNED_dvd: "k < 64 \<Longrightarrow> IS_ALIGNED v (2 ^ k) \<longleftrightarrow> 2 ^ k dvd unat v"
proof -
  assume k: "k < 64"
  then have "(2 ^ k :: u64) \<noteq> 0"
    by (metis unat_exp64 unat_0 power_not_zero zero_neq_numeral)
  then have "IS_ALIGNED v (2 ^ k) \<longleftrightarrow> unat (v AND mask k) = 0"
    by (simp add: IS_ALIGNED_def exp_minus_one_mask unat_eq_0)
  then show ?thesis
    by (simp only: unat_and_mask dvd_eq_mod_eq_0)
qed

lemma IS_NOT_ALIGNED_eq: "IS_NOT_ALIGNED v al = (\<not> IS_ALIGNED v al)"
  by (simp add: IS_NOT_ALIGNED_def IS_ALIGNED_def)

text \<open>Rounding up to a multiple, as arithmetic: the smallest multiple that is not below.\<close>

lemma round_up_cases:
  fixes p m :: nat
  assumes "0 < m"
  shows "(p + m - 1) div m * m = (if p mod m = 0 then p else p - p mod m + m)"
proof (cases "p mod m = 0")
  case True
  then obtain q where "p = m * q" by (auto simp: mod_eq_0_iff_dvd)
  moreover have "(m * q + m - 1) div m = q"
  proof -
    have "m * q + m - 1 = q * m + (m - 1)" using assms by (simp add: mult.commute)
    then show ?thesis using assms by (simp only: div_mult_self3) simp
  qed
  ultimately show ?thesis by simp
next
  case False
  define q r where "q = p div m" and "r = p mod m"
  have p: "p = q * m + r" and r: "0 < r" "r < m"
    using False assms by (simp_all add: q_def r_def)
  have "p + m - 1 = (q + 1) * m + (r - 1)" using p r by simp
  then have "(p + m - 1) div m = q + 1"
    using r by (metis div_mult_self3 div_less add.right_neutral less_imp_diff_less assms
        less_not_refl add.commute)
  then show ?thesis using False p r by (simp add: algebra_simps r_def [symmetric])
qed

lemma round_up_least:
  fixes p m :: nat
  assumes "0 < m"
  shows "p \<le> (p + m - 1) div m * m" "(p + m - 1) div m * m < p + m"
    "m dvd q \<Longrightarrow> p \<le> q \<Longrightarrow> (p + m - 1) div m * m \<le> q"
proof -
  have aux: "r < m \<Longrightarrow> r \<le> p \<Longrightarrow>
      p \<le> (if r = 0 then p else p - r + m) \<and> (if r = 0 then p else p - r + m) < p + m" for r
    by auto
  show "p \<le> (p + m - 1) div m * m" "(p + m - 1) div m * m < p + m"
    unfolding round_up_cases [OF assms] using aux [of "p mod m"] assms by simp_all
  then show "(p + m - 1) div m * m \<le> q" if "m dvd q" "p \<le> q"
  proof -
    from that(1) obtain c where q: "q = c * m" by (metis dvd_def mult.commute)
    have "(p + m - 1) div m * m < (c + 1) * m"
      using \<open>(p + m - 1) div m * m < p + m\<close> that(2) q by simp
    then have "(p + m - 1) div m < c + 1" by (simp only: mult_less_cancel2)
    then have "(p + m - 1) div m \<le> c" by simp
    then show ?thesis unfolding q by (rule mult_le_mono1)
  qed
qed

lemma round_up_add:
  fixes a b m :: nat
  assumes "0 < m" and "m dvd a"
  shows "a + (b + m - 1) div m * m = (a + b + m - 1) div m * m"
proof -
  from assms(2) obtain c where a: "a = c * m" by (metis dvd_def mult.commute)
  have "a + b + m - 1 = c * m + (b + m - 1)" using assms(1) a by simp
  then have "(a + b + m - 1) div m = c + (b + m - 1) div m"
    using assms(1) by (simp only: div_mult_self3)
  then show ?thesis by (simp only: a distrib_right)
qed

lemma utils_align_ptr_down_size_up_eq:
  assumes k: "k < 64" and fits: "unat p + unat s + 2 ^ k \<le> 2 ^ 64"
  obtains p' s' where "utils_align_ptr_down_size_up p s (2 ^ k) = Some (p', s')"
    "unat p' = unat p div 2 ^ k * 2 ^ k"
    "unat p' + unat s' = (unat p + unat s + 2 ^ k - 1) div 2 ^ k * 2 ^ k"
proof -
  define m :: nat where "m = 2 ^ k"
  have m: "0 < m" by (simp add: m_def)
  define r where "r = p AND (2 ^ k - 1 :: u64)"
  have r: "unat r = unat p mod m"
    by (simp add: r_def m_def exp_minus_one_mask unat_and_mask)
  define p' where "p' = (if r \<noteq> 0 then ALIGN_DOWN p (2 ^ k) else p)"
  define t where "t = (if r \<noteq> 0 then s + r else s)"
  have p': "unat p' = unat p div m * m"
    using r by (auto simp: p'_def unat_ALIGN_DOWN m_def unat_eq_0 simp flip: dvd_eq_mod_eq_0)
  have split: "unat p = unat p' + unat r"
    by (simp add: p' r)
  have t: "unat t = unat s + unat r"
    using fits split m unfolding t_def m_def [symmetric] by (auto intro!: unat_add_u64)
  then have up: "unat (ALIGN_UP t (2 ^ k)) = (unat s + unat r + m - 1) div m * m"
    using unat_ALIGN_UP [OF k, of t] fits split by (simp add: m_def)
  have "m dvd unat p'" by (simp add: p')
  from round_up_add [OF m this, of "unat s + unat r"]
  have sum: "unat p' + unat (ALIGN_UP t (2 ^ k)) = (unat p + unat s + m - 1) div m * m"
    by (simp add: up split ac_simps)
  have "IS_ALIGNED p' (2 ^ k)" "IS_ALIGNED (ALIGN_UP t (2 ^ k)) (2 ^ k)"
    using k by (simp_all add: IS_ALIGNED_dvd p' up flip: m_def)
  then have "utils_align_ptr_down_size_up p s (2 ^ k) = Some (p', ALIGN_UP t (2 ^ k))"
    by (cases "r = 0")
      (simp_all add: utils_align_ptr_down_size_up_def Let_def p'_def t_def flip: r_def)
  from that [OF this] show thesis using p' sum by (simp add: m_def)
qed

lemma utils_align_ptr_up_size_down_eq:
  assumes k: "k < 64" and fits: "unat p + unat s < 2 ^ 64" and big: "2 ^ k \<le> unat s"
  shows "utils_align_ptr_up_size_down p s (2 ^ k) =
     (if 2 ^ k dvd unat p + unat s
      then Some (ALIGN_UP p (2 ^ k), s - (ALIGN_UP p (2 ^ k) - p)) else None)"
    (is "_ = ?rhs")
  and "unat (ALIGN_UP p (2 ^ k)) + unat (s - (ALIGN_UP p (2 ^ k) - p)) = unat p + unat s"
proof -
  define m :: nat where "m = 2 ^ k"
  have m: "0 < m" by (simp add: m_def)
  define r where "r = p AND (2 ^ k - 1 :: u64)"
  have r: "unat r = unat p mod m"
    by (simp add: r_def m_def exp_minus_one_mask unat_and_mask)
  define u where "u = ALIGN_UP p (2 ^ k)"
  have u: "unat u = (if unat r = 0 then unat p else unat p - unat r + m)"
    using unat_ALIGN_UP [OF k, of p] fits big round_up_cases [OF m, of "unat p"]
    by (simp add: u_def r m_def)
  have le: "unat r \<le> unat p" "unat r < m" using m by (simp_all add: r)
  then have d: "unat (u - p) = unat u - unat p"
    by (intro unat_sub_u64) (auto simp: u)
  then show sum: "unat (ALIGN_UP p (2 ^ k)) + unat (s - (ALIGN_UP p (2 ^ k) - p)) = unat p + unat s"
    using le big by (fold u_def m_def) (auto simp: unat_sub_u64 u split: if_splits)
  have ual: "m dvd unat u"
    using u le(1) by (auto simp: r minus_mod_eq_mult_div mod_eq_0_iff_dvd)
  have dr: "u - p = 2 ^ k - r" if "r \<noteq> 0"
  proof (rule unat_eqD64)
    show "unat (u - p) = unat (2 ^ k - r)"
      using d u le k that by (simp add: unat_sub_u64 m_def unat_eq_0)
  qed
  have "r = 0 \<Longrightarrow> u = p"
    using u by (intro unat_eqD64) simp
  then have "utils_align_ptr_up_size_down p s (2 ^ k) =
      (if IS_ALIGNED u (2 ^ k) \<and> IS_ALIGNED (s - (u - p)) (2 ^ k) then Some (u, s - (u - p)) else None)"
    by (auto simp: utils_align_ptr_up_size_down_def Let_def dr simp flip: r_def u_def)
  moreover have "IS_ALIGNED u (2 ^ k)" using k ual by (simp add: IS_ALIGNED_dvd m_def)
  moreover have "IS_ALIGNED (s - (u - p)) (2 ^ k) \<longleftrightarrow> m dvd unat p + unat s"
    using k ual sum by (fold u_def m_def) (metis IS_ALIGNED_dvd dvd_add_right_iff m_def)
  ultimately show "utils_align_ptr_up_size_down p s (2 ^ k) = ?rhs"
    by (simp add: u_def m_def)
qed

section \<open>Facts on strings\<close>

lemma strstr_Some_iff:
  "strstr s pat = Some i \<longleftrightarrow>
     prefix pat (drop i s) \<and> i \<le> length s \<and> (\<forall>j < i. \<not> prefix pat (drop j s))"
proof (induction s arbitrary: i)
  case Nil
  then show ?case by auto
next
  case (Cons c cs)
  show ?case
  proof (cases i)
    case 0
    then show ?thesis by (auto simp: split: option.splits)
  next
    case (Suc n)
    have "(\<forall>j < Suc n. \<not> prefix pat (drop j (c # cs))) \<longleftrightarrow>
        \<not> prefix pat (c # cs) \<and> (\<forall>j < n. \<not> prefix pat (drop j cs))"
      by (simp add: All_less_Suc2)
    then show ?thesis using Suc Cons.IH by auto
  qed
qed

lemma strstr_None_iff: "strstr s pat = None \<longleftrightarrow> \<not> sublist pat s"
  by (induction s) (auto simp: sublist_Cons_right)

lemma char_at_append [simp]: "char_at (xs @ ys) (length xs) = (case ys of [] \<Rightarrow> CHR 0x00 | y # _ \<Rightarrow> y)"
  by (auto simp: char_at_def nth_append split: list.split)

text \<open>
  The entries of an option list: what \<open>utils_parse_var\<close> is meant to find is an entry that stands
  at the beginning or behind a semicolon and ends at a semicolon, at the end or, when an
  argument is asked for, at a comma.
\<close>

definition entry_at :: "string \<Rightarrow> string \<Rightarrow> bool \<Rightarrow> nat \<Rightarrow> bool" where
  "entry_at var option extraArg i \<longleftrightarrow>
     (\<exists>pre post. var = pre @ option @ post \<and> i = length pre \<and>
        (pre = [] \<or> last pre = CHR '';'') \<and>
        (if extraArg then post \<noteq> [] \<and> hd post = CHR '','' else post = [] \<or> hd post = CHR '';''))"

lemma char_at_before: "pre \<noteq> [] \<Longrightarrow> char_at (pre @ rest) (length pre - Suc 0) = last pre"
  by (cases pre rule: rev_cases) (simp_all add: char_at_def nth_append)

lemma char_at_behind:
  "char_at (pre @ option @ post) (length pre + length option) = (if post = [] then CHR 0x00 else hd post)"
proof -
  have "char_at ((pre @ option) @ post) (length (pre @ option)) = (if post = [] then CHR 0x00 else hd post)"
    by (simp only: char_at_append) (simp split: list.split)
  then show ?thesis by simp
qed

lemma utils_parse_var_eq:
  assumes "CHR 0x00 \<notin> set var"
  shows "utils_parse_var var option extraArg =
     (case strstr var option of
        None \<Rightarrow> None
      | Some i \<Rightarrow> if entry_at var option extraArg i
                 then Some (i, if extraArg then Some (i + length option + 1) else None) else None)"
proof (cases "strstr var option")
  case None
  then show ?thesis by (simp add: utils_parse_var_def)
next
  case (Some i)
  then obtain post where "drop i var = option @ post" and "i \<le> length var"
    by (auto simp: strstr_Some_iff prefix_def)
  moreover define pre where "pre = take i var"
  ultimately have var: "var = pre @ option @ post" and i: "i = length pre"
    by (metis append_take_drop_id) (simp add: pre_def \<open>i \<le> length var\<close>)
  have ent: "entry_at var option extraArg i \<longleftrightarrow> (pre = [] \<or> last pre = CHR '';'') \<and>
        (if extraArg then post \<noteq> [] \<and> hd post = CHR '','' else post = [] \<or> hd post = CHR '';'')"
    unfolding entry_at_def var i by auto
  have "post \<noteq> [] \<Longrightarrow> hd post \<noteq> CHR 0x00"
    using assms var by (cases post) auto
  moreover have "char_at var (i + length option) = (if post = [] then CHR 0x00 else hd post)"
    by (simp add: var i char_at_behind)
  moreover have "pre \<noteq> [] \<Longrightarrow> char_at var (i - Suc 0) = last pre"
    by (simp add: var i char_at_before)
  moreover have "i = 0 \<longleftrightarrow> pre = []" by (simp add: i)
  moreover note ent
  ultimately show ?thesis
    by (cases "pre = []"; cases "post = []"; cases extraArg)
      (simp_all add: utils_parse_var_def Some Let_def)
qed

section \<open>Facts on flag masks and logarithms\<close>

lemma unat_exp32 [simp]:
  assumes "k < 32" shows "unat (2 ^ k :: u32) = 2 ^ k"
proof -
  have "(2 :: nat) ^ k < 2 ^ 32"
    using assms by (intro power_strict_increasing) simp_all
  then show ?thesis by (intro of_nat_inverse) simp_all
qed

text \<open>What the translation of a mask means: the bits are translated in ascending order.\<close>

fun translate_bits :: "(u32 \<Rightarrow> umf_result + u32) \<Rightarrow> nat list \<Rightarrow> u32 \<Rightarrow> umf_result + u32" where
  "translate_bits t [] acc = Inr acc"
| "translate_bits t (i # is) acc =
     (case t (2 ^ i) of Inl e \<Rightarrow> Inl e | Inr f \<Rightarrow> translate_bits t is (acc OR f))"

lemma translate_loop_eq:
  assumes "i \<le> m" "m < 32"
  shows "\<exists>rest. (\<forall>j. bit rest j \<longleftrightarrow> bit fl j \<and> \<not> (i \<le> j \<and> j < m)) \<and>
    translate_loop t (2 ^ m) (2 ^ i) fl acc =
      Some (case translate_bits t (filter (bit fl) [i..<m]) acc of
              Inl e \<Rightarrow> Inl e | Inr out \<Rightarrow> Inr (rest, out))"
  using assms
proof (induction "m - i" arbitrary: i fl acc)
  case 0
  then show ?case by (subst translate_loop.simps) auto
next
  case (Suc n)
  have i: "i < m" using Suc.hyps(2) by simp
  then have lt: "(2 ^ i :: u32) < 2 ^ m"
    using Suc.prems by (simp add: word_less_nat_alt)
  have step: "translate_loop t (2 ^ m) (2 ^ i) fl acc =
      (if bit fl i then
        (case t (2 ^ i) of
           Inl e \<Rightarrow> Some (Inl e)
         | Inr f \<Rightarrow> translate_loop t (2 ^ m) (2 ^ Suc i) (fl AND NOT (2 ^ i)) (acc OR f))
       else translate_loop t (2 ^ m) (2 ^ Suc i) fl acc)"
    using lt by (subst translate_loop.simps)
      (simp add: and_exp_eq_0_iff_not_bit push_bit_eq_mult mult.commute split: sum.split)
  have IH: "\<exists>rest. (\<forall>j. bit rest j \<longleftrightarrow> bit fl' j \<and> \<not> (Suc i \<le> j \<and> j < m)) \<and>
    translate_loop t (2 ^ m) (2 ^ Suc i) fl' acc' =
      Some (case translate_bits t (filter (bit fl') [Suc i..<m]) acc' of
              Inl e \<Rightarrow> Inl e | Inr out \<Rightarrow> Inr (rest, out))" for fl' acc'
    using Suc.hyps Suc.prems i by (intro Suc.hyps(1)) auto
  show ?case
  proof (cases "bit fl i")
    case False
    then have "bit fl j \<and> \<not> (Suc i \<le> j \<and> j < m) \<longleftrightarrow> bit fl j \<and> \<not> (i \<le> j \<and> j < m)" for j
      by (auto simp: Suc_le_eq le_less)
    then show ?thesis using IH [of fl acc] i False by (simp add: step upt_conv_Cons)
  next
    case True
    define fl' where "fl' = fl AND NOT (2 ^ i)"
    have fl': "bit fl' j \<longleftrightarrow> bit fl j \<and> j \<noteq> i" for j
      using bit_imp_le_length [of fl j] by (auto simp: fl'_def bit_simps)
    have "filter (bit fl') [Suc i..<m] = filter (bit fl) [Suc i..<m]"
      by (intro filter_cong) (auto simp: fl')
    moreover have "bit fl' j \<and> \<not> (Suc i \<le> j \<and> j < m) \<longleftrightarrow> bit fl j \<and> \<not> (i \<le> j \<and> j < m)" for j
      using i by (auto simp: fl' Suc_le_eq le_less)
    moreover obtain rest :: u32 where "\<forall>j. bit rest j \<longleftrightarrow> bit fl' j \<and> \<not> (Suc i \<le> j \<and> j < m)"
      using IH [of fl' 0] by blast
    ultimately show ?thesis using IH [of fl'] i True
      by (cases "t (2 ^ i)") (simp_all add: step upt_conv_Cons flip: fl'_def, blast)
  qed
qed

text \<open>Behind the topmost bit the loop counter is zero and the loop does not end.\<close>

lemma translate_loop_diverges:
  assumes "0 < mx" shows "translate_loop t mx 0 fl acc = None"
proof -
  have "n \<noteq> 0 \<or> mx = 0" if "translate_loop t mx n fl acc = Some y" for n y
    by (rule translate_loop.raw_induct [where P = "\<lambda>t mx n fl acc y. n \<noteq> 0 \<or> mx = 0", OF _ that])
      (auto simp: word_gt_0 split: if_splits sum.splits)
  from this [of 0] assms show ?thesis by (cases "translate_loop t mx 0 fl acc") auto
qed

lemma utils_translate_flags_eq:
  assumes "m < 32"
  shows "utils_translate_flags fl (2 ^ m) t =
    Some (case translate_bits t (filter (bit fl) [0..<m]) 0 of
            Inl e \<Rightarrow> Inl e
          | Inr out \<Rightarrow> if \<exists>j \<ge> m. bit fl j then Inl UMF_RESULT_ERROR_INVALID_ARGUMENT else Inr out)"
proof -
  from translate_loop_eq [of 0 m fl t 0] assms obtain rest
    where rest: "\<forall>j. bit rest j \<longleftrightarrow> bit fl j \<and> \<not> j < m"
      and eq: "translate_loop t (2 ^ m) 1 fl 0 =
      Some (case translate_bits t (filter (bit fl) [0..<m]) 0 of
              Inl e \<Rightarrow> Inl e | Inr out \<Rightarrow> Inr (rest, out))"
    by auto
  have "rest \<noteq> 0 \<longleftrightarrow> (\<exists>j. bit rest j)"
    by (metis bit_0_eq bot_apply bit_eqI bot_bool_def)
  then have "rest \<noteq> 0 \<longleftrightarrow> (\<exists>j \<ge> m. bit fl j)"
    using rest by (auto simp: not_less)
  then show ?thesis
    by (simp add: utils_translate_flags_def eq split: sum.splits)
qed

lemma clz_from_bound:
  assumes "w \<noteq> 0" and "\<forall>j \<ge> n. \<not> bit w j"
  shows "clz_from n w < n \<and> bit w (n - 1 - clz_from n w) \<and> (\<forall>j > n - 1 - clz_from n w. \<not> bit w j)"
  using assms
proof (induction n)
  case 0
  then show ?case by (auto simp: bit_eq_iff)
next
  case (Suc n)
  show ?case
  proof (cases "bit w n")
    case True
    then show ?thesis using Suc.prems by (auto simp: Suc_le_eq)
  next
    case False
    then have "\<forall>j \<ge> n. \<not> bit w j" using Suc.prems(2) by (metis le_antisym not_less_eq_eq)
    then show ?thesis using Suc.IH Suc.prems(1) False by auto
  qed
qed

lemma getLeftmostSetBitPos_eq:
  assumes "num \<noteq> 0"
  obtains p where "getLeftmostSetBitPos num = Some (of_nat p)" "p < 64" "bit num p"
    "\<forall>j > p. \<not> bit num j"
proof -
  have "\<forall>j \<ge> 64. \<not> bit num j"
    using bit_imp_le_length [of num] by fastforce
  from clz_from_bound [OF assms this]
  have c: "clz_from 64 num \<le> 63" "bit num (63 - clz_from 64 num)"
      "\<forall>j > 63 - clz_from 64 num. \<not> bit num j" by auto
  have "(63 - of_nat (clz_from 64 num) :: u64) = of_nat (63 - clz_from 64 num)"
    using c(1) by (simp add: of_nat_diff)
  then show thesis
    using assms c by (intro that [of "63 - clz_from 64 num"])
      (auto simp: getLeftmostSetBitPos_def builtin_clzll_def)
qed

lemma utils_copy_path_eq:
  assumes "length out_path = unat path_max" "0 < path_max"
  shows "utils_copy_path in_path out_path path_max =
    (if length in_path < unat path_max
     then Some (0, in_path @ replicate (unat path_max - length in_path) (CHR 0x00))
     else Some (-1, out_path))"
proof -
  have m: "unat (path_max - 1) = unat path_max - 1" "0 < unat path_max"
    using assms(2) by (simp_all add: unat_sub_u64 Suc_le_eq word_less_nat_alt)
  have "(take (unat path_max - 1) (in_path @ replicate (unat path_max - 1) (CHR 0x00)) @
       drop (unat path_max - 1) out_path) [unat path_max - 1 := CHR 0x00] =
      in_path @ replicate (unat path_max - length in_path) (CHR 0x00)"
    if "length in_path < unat path_max"
    using that m(2) assms(1)
    by (intro nth_equalityI) (auto simp: nth_append nth_list_update)
  then show ?thesis
    using m assms(1) by (auto simp: utils_copy_path_def strncpy_def Let_def)
qed

section \<open>Properties\<close>

text \<open>C21: Aligning a pointer down and a size up (\<open>utils_align_ptr_down_size_up\<close>, used for mapping
  and unmapping) returns, whenever the aligned range does not leave the address space, the
  smallest range that covers the given one and whose start and size are multiples of the
  alignment; the assertions of the function hold.\<close>

theorem align_down_up_smallest_cover:
  assumes "k < 64" and "unat p + unat s + 2 ^ k \<le> 2 ^ 64"
  shows "\<exists>p' s'. utils_align_ptr_down_size_up p s (2 ^ k) = Some (p', s') \<and>
    IS_ALIGNED p' (2 ^ k) \<and> IS_ALIGNED s' (2 ^ k) \<and>
    unat p' \<le> unat p \<and> unat p + unat s \<le> unat p' + unat s' \<and>
    (\<forall>q e. 2 ^ k dvd q \<longrightarrow> 2 ^ k dvd e \<longrightarrow> q \<le> unat p \<longrightarrow> unat p + unat s \<le> e \<longrightarrow>
       q \<le> unat p' \<and> unat p' + unat s' \<le> e)"
proof -
  define m :: nat where "m = 2 ^ k"
  have m: "0 < m" by (simp add: m_def)
  from utils_align_ptr_down_size_up_eq [OF assms] obtain p' s'
    where eq: "utils_align_ptr_down_size_up p s (2 ^ k) = Some (p', s')"
      and p': "unat p' = unat p div m * m"
      and e': "unat p' + unat s' = (unat p + unat s + m - 1) div m * m"
    unfolding m_def by blast
  have dvd: "m dvd unat p'" "m dvd unat p' + unat s'"
    unfolding e' by (simp_all add: p')
  then have "m dvd unat s'" by (simp only: dvd_add_right_iff)
  with dvd have al: "IS_ALIGNED p' (2 ^ k)" "IS_ALIGNED s' (2 ^ k)"
    using assms(1) by (simp_all add: IS_ALIGNED_dvd m_def)
  have low: "q \<le> unat p'" if "m dvd q" "q \<le> unat p" for q
    using that by (metis p' dvd_div_mult_self div_le_mono mult_le_mono1)
  have up: "unat p' + unat s' \<le> e" if "m dvd e" "unat p + unat s \<le> e" for e
    unfolding e' using round_up_least(3) [OF m that] .
  have "unat p' \<le> unat p" "unat p + unat s \<le> unat p' + unat s'"
    unfolding e' using round_up_least(1) [OF m] by (simp_all add: p')
  with al low up eq show ?thesis
    unfolding m_def [symmetric] by (intro exI [of _ p'] exI [of _ s'] conjI) simp_all
qed

theorem align_down_up_smallest_cover_witness:
  "\<exists>p' s'. utils_align_ptr_down_size_up 4100 5000 4096 = Some (p', s') \<and>
    unat p' \<le> 4100 \<and> 9100 \<le> unat p' + unat s' \<and> unat p' + unat s' \<le> 12288"
  using align_down_up_smallest_cover [of 12 4100 5000] by fastforce

text \<open>C22: \<open>utils_translate_flags\<close> over the masks its callers use (\<open>max\<close> a power of two below
  $2^{32}$) always returns. It translates the set bits below \<open>max\<close> in ascending order, fails with
  the first error of the translation, fails with an invalid-argument error when a bit at or
  above \<open>max\<close> is set, and otherwise returns the union of the translated bits.\<close>

theorem translate_flags_correct:
  assumes "m < 32"
  shows "utils_translate_flags fl (2 ^ m) t =
    Some (case translate_bits t (filter (bit fl) [0..<m]) 0 of
            Inl e \<Rightarrow> Inl e
          | Inr out \<Rightarrow> if \<exists>j \<ge> m. bit fl j then Inl UMF_RESULT_ERROR_INVALID_ARGUMENT else Inr out)"
  using assms by (rule utils_translate_flags_eq)

theorem translate_flags_correct_witness:
  "utils_translate_flags 5 8 (\<lambda>n. Inr (2 * n)) = Some (Inr 10) \<and>
   utils_translate_flags 9 8 (\<lambda>n. Inr (2 * n)) = Some (Inl UMF_RESULT_ERROR_INVALID_ARGUMENT)"
proof -
  have "bit (9 :: u32) 3" by (simp add: bit_numeral_rec)
  then have "\<exists>j \<ge> 3. bit (9 :: u32) j" by blast
  moreover have "\<not> bit (5 :: u32) j" if "3 \<le> j" for j
  proof -
    have "take_bit 3 (5 :: u32) = 5" by simp
    then show ?thesis using that by (metis bit_take_bit_iff not_less)
  qed
  ultimately show ?thesis
    using translate_flags_correct [of 3 5 "\<lambda>n. Inr (2 * n)"]
      translate_flags_correct [of 3 9 "\<lambda>n. Inr (2 * n)"]
    by (simp add: upt_rec bit_numeral_rec)
qed

text \<open>\<open>utils_parse_var\<close> returns an offset exactly when the first occurrence of the option's
  text in the variable is a whole entry of the semicolon-separated list (ending with a comma
  when an argument is requested), and then it is that offset, with the argument starting right
  behind the comma. A later entry with the same text is not looked for.\<close>

theorem parse_var_first_occurrence:
  assumes "CHR 0x00 \<notin> set var"
  shows "utils_parse_var var option extraArg = Some (i, arg) \<longleftrightarrow>
    entry_at var option extraArg i \<and> (\<forall>j < i. \<not> prefix option (drop j var)) \<and>
    arg = (if extraArg then Some (i + length option + 1) else None)"
proof -
  have "strstr var option = Some i \<longleftrightarrow> (\<forall>j < i. \<not> prefix option (drop j var))"
    if "entry_at var option extraArg i"
    using that by (auto simp: entry_at_def strstr_Some_iff)
  then show ?thesis
    by (auto simp: utils_parse_var_eq [OF assms] split: option.splits if_splits)
qed

theorem parse_var_first_occurrence_witness:
  "utils_parse_var ''output,file;level,info'' ''level'' True = Some (12, Some 18) \<and>
   utils_parse_var ''mylevel;level'' ''level'' False = None \<and>
   entry_at ''mylevel;level'' ''level'' False 8"
proof -
  have "entry_at ''output,file;level,info'' ''level'' True 12"
    unfolding entry_at_def by (intro exI [of _ "''output,file;''"] exI [of _ "'',info''"]) simp
  moreover have "\<forall>j < 12. \<not> prefix ''level'' (drop j ''output,file;level,info'')"
    by (simp add: All_less_Suc numeral_eq_Suc)
  ultimately have a: "utils_parse_var ''output,file;level,info'' ''level'' True = Some (12, Some 18)"
    using parse_var_first_occurrence [of "''output,file;level,info''" "''level''" True 12 "Some 18"]
    by simp
  have "entry_at ''mylevel;level'' ''level'' False 8"
    unfolding entry_at_def by (intro exI [of _ "''mylevel;''"] exI [of _ "[]"]) simp
  moreover have "utils_parse_var ''mylevel;level'' ''level'' False = None"
    by (simp add: utils_parse_var_def char_at_def)
  ultimately show ?thesis using a by simp
qed

end
