(* ===== verification/Base_Alloc.thy ===== *)
theory Base_Alloc
  imports UMF_Utils
begin

text \<open>
  The base allocator (\<open>base_alloc/base_alloc.c\<close>): pools of chunks of one size, carved out of
  memory that is mapped by the operating system. The chunks that are not handed out form a
  linked list whose links live in the chunks themselves, and the pools that were mapped after
  the first one form a list whose links live at their first word.

  A pool owns the memory it has mapped: the list of mapped ranges and the contents of the
  aligned words in them. A load or store outside the mapped ranges, or at an unaligned address,
  is \<open>None\<close>. The header of the main pool is a record. The operating system and the mutex library
  are parameters: the address a call of \<open>mmap\<close> returns, the page size, the size of a mutex and
  the result of its initialisation.
\<close>

section \<open>Mapped memory\<close>

record os_mem =
  ranges :: "(ptr \<times> u64) list"
  words :: "ptr \<Rightarrow> ptr"

definition in_range_of :: "ptr \<times> u64 \<Rightarrow> ptr \<Rightarrow> nat \<Rightarrow> bool" where
  "in_range_of r a n \<longleftrightarrow> fst r \<le> a \<and> a + n \<le> fst r + unat (snd r)"

definition accessible :: "os_mem \<Rightarrow> ptr \<Rightarrow> bool" where
  "accessible m a \<longleftrightarrow> a mod 8 = 0 \<and> list_ex (\<lambda>r. in_range_of r a 8) (ranges m)"

definition load :: "os_mem \<Rightarrow> ptr \<Rightarrow> ptr option" where
  "load m a = (if accessible m a then Some (words m a) else None)"

definition store :: "os_mem \<Rightarrow> ptr \<Rightarrow> ptr \<Rightarrow> os_mem option" where
  "store m a v = (if accessible m a then Some (m\<lparr>words := (words m)(a := v)\<rparr>) else None)"

text \<open>
  \<open>ba_os_alloc\<close> returns what \<open>mmap\<close> returns, also when that is the error value \<open>MAP_FAILED\<close>; fresh
  memory reads as zero. \<open>ba_os_free\<close> asserts that \<open>munmap\<close> succeeds; giving back a range that is
  not mapped is \<open>None\<close>.
\<close>

definition MAP_FAILED :: ptr where
  "MAP_FAILED = 2 ^ 64 - 1"

definition ba_os_alloc :: "ptr \<Rightarrow> os_mem \<Rightarrow> u64 \<Rightarrow> ptr \<times> os_mem" where
  "ba_os_alloc mmap m sz =
     (mmap, if mmap = MAP_FAILED then m
            else m\<lparr>ranges := (mmap, sz) # ranges m,
                   words := (\<lambda>a. if in_range_of (mmap, sz) a 8 then 0 else words m a)\<rparr>)"

definition ba_os_free :: "os_mem \<Rightarrow> ptr \<Rightarrow> u64 \<Rightarrow> os_mem option" where
  "ba_os_free m p sz = do {
     guard ((p, sz) \<in> set (ranges m));
     Some (m\<lparr>ranges := remove1 (p, sz) (ranges m)\<rparr>)
   }"

section \<open>Pools\<close>

record ba_env =
  page_size :: u64
  mutex_size :: u64

definition MINIMUM_POOL_SIZE :: "ba_env \<Rightarrow> u64" where
  "MINIMUM_POOL_SIZE env = page_size env"

definition MINIMUM_CHUNK_COUNT :: u64 where
  "MINIMUM_CHUNK_COUNT = 128"

definition MEMORY_ALIGNMENT :: u64 where
  "MEMORY_ALIGNMENT = 8"

text \<open>
  The header of the main pool; \<open>base\<close> is the address at which it lives and \<open>mem\<close> the memory it has
  mapped. The mutex is a flag that says whether it is held.
\<close>

record umf_ba_pool_t =
  base :: ptr
  next_pool :: ptr
  pool_size :: u64
  chunk_size :: u64
  free_lock :: bool
  free_list :: ptr
  n_allocs :: u64
  n_pools :: u64
  n_chunks :: u64
  mem :: os_mem

text \<open>Sizes of the structures on a 64-bit machine, with the counters of the debug build.\<close>

definition sizeof_main_pool_meta :: "ba_env \<Rightarrow> u64" where
  "sizeof_main_pool_meta env = 8 + 8 + mutex_size env + 8 + 8 + 8 + 8"

definition offsetof_data :: "ba_env \<Rightarrow> u64" where
  "offsetof_data env = 8 + sizeof_main_pool_meta env"

definition offsetof_next_data :: u64 where
  "offsetof_next_data = 8"

definition mutex_lock :: "umf_ba_pool_t \<Rightarrow> umf_ba_pool_t option" where
  "mutex_lock pool = do { guard (\<not> free_lock pool); Some (pool\<lparr>free_lock := True\<rparr>) }"

definition mutex_unlock :: "umf_ba_pool_t \<Rightarrow> umf_ba_pool_t" where
  "mutex_unlock pool = pool\<lparr>free_lock := False\<rparr>"

partial_function (option) count_links :: "os_mem \<Rightarrow> ptr \<Rightarrow> u64 \<Rightarrow> u64 option" where
  "count_links m a n =
     (if a = NULL then Some n else do { a' \<leftarrow> load m a; count_links m a' (n + 1) })"

definition ba_debug_checks :: "umf_ba_pool_t \<Rightarrow> unit option" where
  "ba_debug_checks pool = do {
     n \<leftarrow> count_links (mem pool) (next_pool pool) 1;
     guard (n = n_pools pool);
     n_free_chunks \<leftarrow> count_links (mem pool) (free_list pool) 0;
     guard (n_free_chunks = n_chunks pool - n_allocs pool);
     Some ()
   }"

partial_function (option) divide_loop ::
  "u64 \<Rightarrow> os_mem \<Rightarrow> ptr \<Rightarrow> u64 \<Rightarrow> ptr \<Rightarrow> ptr \<Rightarrow> u64 \<Rightarrow> (os_mem \<times> ptr \<times> u64) option" where
  "divide_loop csize m data_ptr size_left prev_chunk current_chunk n =
     (if csize \<le> size_left then do {
        m \<leftarrow> store m prev_chunk data_ptr;
        divide_loop csize m (data_ptr + unat csize) (size_left - csize) data_ptr data_ptr (n + 1)
      } else Some (m, current_chunk, n))"

definition ba_divide_memory_into_chunks :: "umf_ba_pool_t \<Rightarrow> ptr \<Rightarrow> u64 \<Rightarrow> umf_ba_pool_t option" where
  "ba_divide_memory_into_chunks pool ptr sz = do {
     guard (free_list pool = NULL);
     guard (chunk_size pool < sz);
     (m, current_chunk, n) \<leftarrow>
       divide_loop (chunk_size pool) (mem pool) ptr sz ptr ptr (n_chunks pool);
     m \<leftarrow> store m current_chunk NULL;
     Some (pool\<lparr>mem := m, n_chunks := n, free_list := ptr\<rparr>)
   }"

definition ba_os_alloc_annotated :: "ptr \<Rightarrow> os_mem \<Rightarrow> u64 \<Rightarrow> ptr \<times> os_mem" where
  "ba_os_alloc_annotated mmap m sz = ba_os_alloc mmap m sz"

definition ba_pool_size :: "ba_env \<Rightarrow> u64 \<Rightarrow> u64" where
  "ba_pool_size env csize =
     (let mtx = ALIGN_UP (mutex_size env) MEMORY_ALIGNMENT;
          metadata_size = sizeof_main_pool_meta env;
          sz = 8 + metadata_size + mtx + MINIMUM_CHUNK_COUNT * csize;
          sz = (if sz < MINIMUM_POOL_SIZE env then MINIMUM_POOL_SIZE env else sz)
      in ALIGN_UP sz (page_size env))"

text \<open>
  The pool that \<open>umf_ba_create\<close> returns, or \<open>None\<close> inside for the null pointer. The writes to the
  header need the mapped memory to hold it.
\<close>

definition umf_ba_create ::
  "ba_env \<Rightarrow> ptr \<Rightarrow> bool \<Rightarrow> u64 \<Rightarrow> umf_ba_pool_t option option" where
  "umf_ba_create env mmap mutex_init sz =
     (let csize = ALIGN_UP sz MEMORY_ALIGNMENT;
          psize = ba_pool_size env csize;
          (p, m) = ba_os_alloc_annotated mmap \<lparr>ranges = [], words = (\<lambda>_. 0)\<rparr> psize
      in if p = NULL then Some None
         else do {
           guard (list_ex (\<lambda>r. in_range_of r p (unat (offsetof_data env))) (ranges m));
           let pool = \<lparr>base = p, next_pool = NULL, pool_size = psize, chunk_size = csize,
             free_lock = False, free_list = NULL, n_allocs = 0, n_pools = 1, n_chunks = 0, mem = m\<rparr>;
           (data_ptr, size_left) \<leftarrow> utils_align_ptr_up_size_down
              (of_nat p + offsetof_data env) (psize - offsetof_data env) MEMORY_ALIGNMENT;
           if \<not> mutex_init then do {
             _ \<leftarrow> ba_os_free m p psize;
             Some None
           } else do {
             pool \<leftarrow> ba_divide_memory_into_chunks pool (unat data_ptr) size_left;
             Some (Some pool)
           }
         })"

definition ba_add_pool :: "ptr \<Rightarrow> umf_ba_pool_t \<Rightarrow> umf_ba_pool_t option" where
  "ba_add_pool new_pool pool = do {
     m \<leftarrow> store (mem pool) new_pool (next_pool pool);
     let pool = pool\<lparr>mem := m, next_pool := new_pool, n_pools := n_pools pool + 1\<rparr>;
     (data_ptr, size_left) \<leftarrow> utils_align_ptr_up_size_down
        (of_nat new_pool + offsetof_next_data) (pool_size pool - offsetof_next_data) MEMORY_ALIGNMENT;
     ba_divide_memory_into_chunks pool (unat data_ptr) size_left
   }"

definition ba_take_chunk :: "umf_ba_pool_t \<Rightarrow> (ptr \<times> umf_ba_pool_t) option" where
  "ba_take_chunk pool =
     (let chunk = free_list pool in
      if chunk = NULL then Some (NULL, pool)
      else do {
        next \<leftarrow> load (mem pool) chunk;
        let pool = pool\<lparr>free_list := next, n_allocs := n_allocs pool + 1\<rparr>;
        ba_debug_checks pool;
        Some (chunk, mutex_unlock pool)
      })"

definition umf_ba_alloc :: "ptr \<Rightarrow> umf_ba_pool_t \<Rightarrow> (ptr \<times> umf_ba_pool_t) option" where
  "umf_ba_alloc mmap pool = do {
     pool \<leftarrow> mutex_lock pool;
     if free_list pool = NULL then
       (let (new_pool, m) = ba_os_alloc_annotated mmap (mem pool) (pool_size pool) in
        if new_pool = NULL then Some (NULL, mutex_unlock pool)
        else do {
          pool \<leftarrow> ba_add_pool new_pool (pool\<lparr>mem := m\<rparr>);
          ba_take_chunk pool
        })
     else ba_take_chunk pool
   }"

partial_function (option) next_pools_contain :: "os_mem \<Rightarrow> u64 \<Rightarrow> ptr \<Rightarrow> ptr \<Rightarrow> bool option" where
  "next_pools_contain m psize q ptr =
     (if q = NULL then Some False
      else if q + unat offsetof_next_data \<le> ptr \<and> ptr < q + unat psize then Some True
      else do { q' \<leftarrow> load m q; next_pools_contain m psize q' ptr })"

definition pool_contains_pointer :: "ba_env \<Rightarrow> umf_ba_pool_t \<Rightarrow> ptr \<Rightarrow> bool option" where
  "pool_contains_pointer env pool ptr =
     (if base pool + unat (offsetof_data env) \<le> ptr \<and> ptr < base pool + unat (pool_size pool)
      then Some True
      else next_pools_contain (mem pool) (pool_size pool) (next_pool pool) ptr)"

definition umf_ba_free :: "ba_env \<Rightarrow> umf_ba_pool_t \<Rightarrow> ptr \<Rightarrow> umf_ba_pool_t option" where
  "umf_ba_free env pool ptr =
     (if ptr = NULL then Some pool
      else do {
        pool \<leftarrow> mutex_lock pool;
        inside \<leftarrow> pool_contains_pointer env pool ptr;
        guard inside;
        m \<leftarrow> store (mem pool) ptr (free_list pool);
        let pool = pool\<lparr>mem := m, free_list := ptr, n_allocs := n_allocs pool - 1\<rparr>;
        ba_debug_checks pool;
        Some (mutex_unlock pool)
      })"

partial_function (option) destroy_loop :: "os_mem \<Rightarrow> u64 \<Rightarrow> ptr \<Rightarrow> os_mem option" where
  "destroy_loop m sz q =
     (if q = NULL then Some m
      else do {
        q' \<leftarrow> load m q;
        m \<leftarrow> ba_os_free m q sz;
        destroy_loop m sz q'
      })"

text \<open>\<open>umf_ba_destroy\<close> returns the memory that is left; in the proxy library with live chunks it
  leaves everything as it is.\<close>

definition umf_ba_destroy :: "bool \<Rightarrow> umf_ba_pool_t \<Rightarrow> os_mem option" where
  "umf_ba_destroy in_proxy_lib pool =
     (if n_allocs pool \<noteq> 0 \<and> in_proxy_lib then Some (mem pool)
      else do {
        ba_debug_checks pool;
        m \<leftarrow> destroy_loop (mem pool) (pool_size pool) (next_pool pool);
        ba_os_free m (base pool) (pool_size pool)
      })"

end
