(* ===== verification/Base_Alloc_Invariant.thy ===== *)
theory Base_Alloc_Invariant
  imports Base_Alloc_Correct
begin

text \<open>
  The invariant of a pool of the base allocator. \<open>ba_rep env P A fl qs\<close> says that the pool \<open>P\<close> keeps
  the chunks \<open>fl\<close> on its free list, has handed out the chunks \<open>A\<close>, and has mapped the pools \<open>qs\<close>
  beside the main one: together the free and the handed-out chunks are exactly the slots into
  which the mapped ranges are divided, and the counters agree with them.
\<close>

section \<open>Machine facts\<close>

definition env_ok :: "ba_env \<Rightarrow> bool" where
  "env_ok env \<longleftrightarrow> (\<exists>k. 12 \<le> k \<and> k < 32 \<and> page_size env = 2 ^ k) \<and>
     8 dvd unat (mutex_size env) \<and> unat (mutex_size env) \<le> 1024"

lemma unat_of_nat_u64: "n < 2 ^ 64 \<Longrightarrow> unat (of_nat n :: u64) = n"
  by (rule of_nat_inverse) simp_all

lemma offsetof_data_nat:
  assumes "env_ok env" shows "unat (offsetof_data env) = 56 + unat (mutex_size env)"
proof -
  have "offsetof_data env = 56 + mutex_size env"
    by (simp add: offsetof_data_def sizeof_main_pool_meta_def)
  moreover have "unat (56 + mutex_size env) = unat (56 :: u64) + unat (mutex_size env)"
    using assms by (intro unat_add_u64) (simp add: env_ok_def)
  ultimately show ?thesis by simp
qed

lemma align_noop:
  assumes "8 dvd unat p" "8 dvd unat s"
  shows "utils_align_ptr_up_size_down p s MEMORY_ALIGNMENT = Some (p, s)"
proof -
  have "IS_ALIGNED p 8" "IS_ALIGNED s 8"
    using assms IS_ALIGNED_dvd [of 3] by simp_all
  then show ?thesis
    by (simp add: utils_align_ptr_up_size_down_def MEMORY_ALIGNMENT_def IS_ALIGNED_def Let_def)
qed

section \<open>The slots of a pool\<close>

definition apart :: "nat \<Rightarrow> nat \<Rightarrow> nat \<Rightarrow> bool" where
  "apart n x y \<longleftrightarrow> x + n \<le> y \<or> y + n \<le> x"

lemma apart_sym: "apart n x y \<longleftrightarrow> apart n y x"
  by (auto simp: apart_def)

definition geometry :: "ba_env \<Rightarrow> umf_ba_pool_t \<Rightarrow> bool" where
  "geometry env P \<longleftrightarrow> env_ok env \<and> 0 < unat (chunk_size P) \<and> 8 dvd unat (chunk_size P) \<and>
     8 dvd unat (pool_size P) \<and> unat (offsetof_data env) + unat (chunk_size P) < unat (pool_size P)"

definition placed :: "umf_ba_pool_t \<Rightarrow> ptr \<Rightarrow> bool" where
  "placed P p \<longleftrightarrow> 0 < p \<and> 8 dvd p \<and> p + unat (pool_size P) < 2 ^ 64"

definition data_slots :: "umf_ba_pool_t \<Rightarrow> nat \<Rightarrow> ptr \<Rightarrow> ptr list" where
  "data_slots P off p =
     slots (unat (chunk_size P)) (p + off) ((unat (pool_size P) - off) div unat (chunk_size P))"

fun pool_slots :: "ba_env \<Rightarrow> umf_ba_pool_t \<Rightarrow> ptr list \<Rightarrow> ptr list" where
  "pool_slots env P [] = data_slots P (unat (offsetof_data env)) (base P)"
| "pool_slots env P (q # qs) = data_slots P 8 q @ pool_slots env P qs"

lemma data_slots_bounds:
  assumes "x \<in> set (data_slots P off p)" "off \<le> unat (pool_size P)"
  shows "p + off \<le> x" "x + unat (chunk_size P) \<le> p + unat (pool_size P)"
proof -
  let ?n = "(unat (pool_size P) - off) div unat (chunk_size P)"
  from slots_bounds [OF assms(1) [unfolded data_slots_def]]
  have "p + off \<le> x" "x + unat (chunk_size P) \<le> p + off + ?n * unat (chunk_size P)" by auto
  moreover have "?n * unat (chunk_size P) \<le> unat (pool_size P) - off" by simp
  ultimately show "p + off \<le> x" "x + unat (chunk_size P) \<le> p + unat (pool_size P)"
    using assms(2) by linarith+
qed

lemma data_slots_apart:
  "x \<in> set (data_slots P off p) \<Longrightarrow> y \<in> set (data_slots P off p) \<Longrightarrow> x \<noteq> y \<Longrightarrow>
   apart (unat (chunk_size P)) x y"
  unfolding apart_def data_slots_def by (rule slots_separate)

lemma data_slots_aligned:
  "x \<in> set (data_slots P off p) \<Longrightarrow> 8 dvd p \<Longrightarrow> 8 dvd off \<Longrightarrow> 8 dvd unat (chunk_size P) \<Longrightarrow> 8 dvd x"
  by (auto simp: data_slots_def in_slots)

lemma geometry_offset: "geometry env P \<Longrightarrow> 56 \<le> unat (offsetof_data env) \<and> 8 dvd unat (offsetof_data env)"
  by (auto simp: geometry_def offsetof_data_nat) (auto simp: env_ok_def)

lemma pool_slots_in:
  assumes "geometry env P" "x \<in> set (pool_slots env P qs)" "\<forall>p \<in> set (base P # qs). placed P p"
  obtains p where "p \<in> set (base P # qs)" "p + 8 \<le> x" "x + unat (chunk_size P) \<le> p + unat (pool_size P)"
    "8 dvd x"
  using assms(2,3)
proof (induction qs arbitrary: thesis)
  case Nil
  note off = geometry_offset [OF assms(1)]
  have "unat (offsetof_data env) \<le> unat (pool_size P)" using assms(1) by (simp add: geometry_def)
  from data_slots_bounds [OF _ this] Nil.prems(2)
  have "base P + unat (offsetof_data env) \<le> x" "x + unat (chunk_size P) \<le> base P + unat (pool_size P)"
    by simp_all
  moreover have "8 dvd x"
  proof (rule data_slots_aligned)
    show "x \<in> set (data_slots P (unat (offsetof_data env)) (base P))" using Nil.prems(2) by simp
    show "8 dvd base P" using Nil.prems(3) by (simp add: placed_def)
    show "8 dvd unat (chunk_size P)" using assms(1) by (simp add: geometry_def)
  qed (use off in simp)
  ultimately show ?case using off by (intro Nil.prems(1) [of "base P"]) auto
next
  case (Cons q qs)
  show ?case
  proof (cases "x \<in> set (data_slots P 8 q)")
    case True
    have "8 \<le> unat (pool_size P)" using assms(1) geometry_offset [OF assms(1)] by (simp add: geometry_def)
    note bounds = data_slots_bounds [OF True this]
    have "8 dvd x"
    proof (rule data_slots_aligned [OF True])
      show "8 dvd q" using Cons.prems(3) by (simp add: placed_def)
      show "8 dvd unat (chunk_size P)" using assms(1) by (simp add: geometry_def)
    qed simp
    with bounds show ?thesis by (intro Cons.prems(1) [of q]) simp_all
  next
    case False
    show ?thesis
    proof (rule Cons.IH)
      show "x \<in> set (pool_slots env P qs)" using False Cons.prems(2) by simp
      show "\<forall>p \<in> set (base P # qs). placed P p" using Cons.prems(3) by simp
    qed (rule Cons.prems(1), simp_all, blast)
  qed
qed

lemma sorted_wrt_sym:
  "(\<And>a b. R a b \<Longrightarrow> R b a) \<Longrightarrow> sorted_wrt R xs \<Longrightarrow> a \<in> set xs \<Longrightarrow> b \<in> set xs \<Longrightarrow> a = b \<or> R a b"
  by (induction xs) auto

definition layout :: "ba_env \<Rightarrow> umf_ba_pool_t \<Rightarrow> ptr list \<Rightarrow> bool" where
  "layout env P qs \<longleftrightarrow> geometry env P \<and> (\<forall>p \<in> set (base P # qs). placed P p) \<and>
     sorted_wrt (apart (unat (pool_size P))) (qs @ [base P])"

lemma layout_tl: "layout env P (q # qs) \<Longrightarrow> layout env P qs"
  by (auto simp: layout_def)

lemma layout_apart:
  "layout env P (q # qs) \<Longrightarrow> p \<in> set (base P # qs) \<Longrightarrow> apart (unat (pool_size P)) q p"
  by (auto simp: layout_def)

lemma pool_slots_apart:
  assumes "layout env P qs" "x \<in> set (pool_slots env P qs)" "y \<in> set (pool_slots env P qs)" "x \<noteq> y"
  shows "apart (unat (chunk_size P)) x y"
  using assms
proof (induction qs)
  case Nil
  then show ?case by (auto intro: data_slots_apart)
next
  case (Cons q qs)
  have g: "geometry env P" and pl: "\<forall>p \<in> set (base P # qs). placed P p"
    using Cons.prems(1) by (auto simp: layout_def)
  have far: "apart (unat (chunk_size P)) a b"
    if a: "a \<in> set (data_slots P 8 q)" and b: "b \<in> set (pool_slots env P qs)" for a b
  proof -
    from pool_slots_in [OF g b pl] obtain p where p: "p \<in> set (base P # qs)" "p + 8 \<le> b"
      "b + unat (chunk_size P) \<le> p + unat (pool_size P)" by metis
    have "8 \<le> unat (pool_size P)" using g geometry_offset [OF g] by (simp add: geometry_def)
    from data_slots_bounds [OF a this] layout_apart [OF Cons.prems(1) p(1)] p(2,3)
    show ?thesis unfolding apart_def by linarith
  qed
  have "apart (unat (chunk_size P)) x y" if "x \<in> set (data_slots P 8 q)" "y \<in> set (data_slots P 8 q)"
    using that Cons.prems(4) by (rule data_slots_apart)
  with far [of x y] far [of y x] Cons.prems Cons.IH [OF layout_tl] show ?case
    by (auto simp: apart_sym)
qed

lemma distinct_pool_slots: "layout env P qs \<Longrightarrow> distinct (pool_slots env P qs)"
proof (induction qs)
  case Nil
  then show ?case by (auto simp: layout_def geometry_def data_slots_def intro: distinct_slots)
next
  case (Cons q qs)
  have g: "geometry env P" and pl: "\<forall>p \<in> set (base P # qs). placed P p"
    using Cons.prems by (auto simp: layout_def)
  have "x \<notin> set (pool_slots env P qs)" if x: "x \<in> set (data_slots P 8 q)" for x
  proof
    assume "x \<in> set (pool_slots env P qs)"
    from pool_slots_in [OF g this pl] obtain p where p: "p \<in> set (base P # qs)" "p + 8 \<le> x"
      "x + unat (chunk_size P) \<le> p + unat (pool_size P)" by metis
    have "8 \<le> unat (pool_size P)" "0 < unat (chunk_size P)"
      using g geometry_offset [OF g] by (simp_all add: geometry_def)
    with data_slots_bounds [OF x] layout_apart [OF Cons.prems p(1)] p(2,3)
    show False unfolding apart_def by linarith
  qed
  moreover have "distinct (data_slots P 8 q)"
    using g by (auto simp: geometry_def data_slots_def intro: distinct_slots)
  ultimately show ?case using Cons.IH [OF layout_tl [OF Cons.prems]] by auto
qed

text \<open>The shape of a pool does not depend on its lists and counters.\<close>

lemma data_slots_upd [simp]:
  "data_slots (P\<lparr>next_pool := v_next_pool\<rparr>) off p = data_slots P off p"
  "data_slots (P\<lparr>free_lock := v_free_lock\<rparr>) off p = data_slots P off p"
  "data_slots (P\<lparr>free_list := v_free_list\<rparr>) off p = data_slots P off p"
  "data_slots (P\<lparr>n_allocs := v_n_allocs\<rparr>) off p = data_slots P off p"
  "data_slots (P\<lparr>n_pools := v_n_pools\<rparr>) off p = data_slots P off p"
  "data_slots (P\<lparr>n_chunks := v_n_chunks\<rparr>) off p = data_slots P off p"
  "data_slots (P\<lparr>mem := v_mem\<rparr>) off p = data_slots P off p"
  by (simp_all add: data_slots_def)

lemma pool_slots_upd [simp]:
  "pool_slots env (P\<lparr>next_pool := v_next_pool\<rparr>) qs = pool_slots env P qs"
  "pool_slots env (P\<lparr>free_lock := v_free_lock\<rparr>) qs = pool_slots env P qs"
  "pool_slots env (P\<lparr>free_list := v_free_list\<rparr>) qs = pool_slots env P qs"
  "pool_slots env (P\<lparr>n_allocs := v_n_allocs\<rparr>) qs = pool_slots env P qs"
  "pool_slots env (P\<lparr>n_pools := v_n_pools\<rparr>) qs = pool_slots env P qs"
  "pool_slots env (P\<lparr>n_chunks := v_n_chunks\<rparr>) qs = pool_slots env P qs"
  "pool_slots env (P\<lparr>mem := v_mem\<rparr>) qs = pool_slots env P qs"
  by (induction qs) simp_all

lemma layout_upd [simp]:
  "layout env (P\<lparr>next_pool := v_next_pool\<rparr>) qs = layout env P qs"
  "layout env (P\<lparr>free_lock := v_free_lock\<rparr>) qs = layout env P qs"
  "layout env (P\<lparr>free_list := v_free_list\<rparr>) qs = layout env P qs"
  "layout env (P\<lparr>n_allocs := v_n_allocs\<rparr>) qs = layout env P qs"
  "layout env (P\<lparr>n_pools := v_n_pools\<rparr>) qs = layout env P qs"
  "layout env (P\<lparr>n_chunks := v_n_chunks\<rparr>) qs = layout env P qs"
  "layout env (P\<lparr>mem := v_mem\<rparr>) qs = layout env P qs"
  by (simp_all add: layout_def geometry_def placed_def)

text \<open>An address in a slot or at the start of a pool can be read and written.\<close>

lemma accessibleI:
  "(p, sz) \<in> set (ranges m) \<Longrightarrow> p \<le> a \<Longrightarrow> a + 8 \<le> p + unat sz \<Longrightarrow> 8 dvd a \<Longrightarrow> accessible m a"
  by (force simp: accessible_def list_ex_iff in_range_of_def)

lemma chunk_ge_8: "geometry env P \<Longrightarrow> 8 \<le> unat (chunk_size P)"
  by (auto simp: geometry_def intro: dvd_imp_le)

lemma slot_accessible:
  assumes "layout env P qs" "x \<in> set (pool_slots env P qs)"
    and r: "set (map (\<lambda>p. (p, pool_size P)) (qs @ [base P])) \<subseteq> set (ranges m)"
  shows "accessible m x"
proof -
  have g: "geometry env P" and pl: "\<forall>p \<in> set (base P # qs). placed P p"
    using assms(1) by (auto simp: layout_def)
  from pool_slots_in [OF g assms(2) pl] obtain p where p: "p \<in> set (base P # qs)" "p + 8 \<le> x"
      "x + unat (chunk_size P) \<le> p + unat (pool_size P)" "8 dvd x" by metis
  have "(p, pool_size P) \<in> set (ranges m)" using r p(1) by auto
  then show ?thesis
    by (rule accessibleI) (use p chunk_ge_8 [OF g] in simp_all)
qed

lemma slot_not_header:
  assumes "layout env P qs" "x \<in> set (pool_slots env P qs)" "q \<in> set qs" shows "x \<noteq> q"
proof
  assume "x = q"
  have g: "geometry env P" and pl: "\<forall>p \<in> set (base P # qs). placed P p"
    using assms(1) by (auto simp: layout_def)
  from pool_slots_in [OF g assms(2) pl] obtain p where p: "p \<in> set (base P # qs)" "p + 8 \<le> x"
      "x + unat (chunk_size P) \<le> p + unat (pool_size P)" by metis
  have "p = q \<or> apart (unat (pool_size P)) p q"
    using assms(1,3) p(1) apart_sym unfolding layout_def
    by (intro sorted_wrt_sym [where xs = "qs @ [base P]"]) auto
  with p chunk_ge_8 [OF g] show False unfolding apart_def \<open>x = q\<close> by linarith
qed

section \<open>The invariant\<close>

definition ba_rep :: "ba_env \<Rightarrow> umf_ba_pool_t \<Rightarrow> ptr set \<Rightarrow> ptr list \<Rightarrow> ptr list \<Rightarrow> bool" where
  "ba_rep env P A fl qs \<longleftrightarrow>
     layout env P qs \<and>
     ranges (mem P) = map (\<lambda>p. (p, pool_size P)) (qs @ [base P]) \<and>
     links (mem P) (free_list P) fl \<and> links (mem P) (next_pool P) qs \<and>
     distinct fl \<and> finite A \<and> set fl \<inter> A = {} \<and> set fl \<union> A = set (pool_slots env P qs) \<and>
     n_pools P = 1 + of_nat (length qs) \<and> n_allocs P = of_nat (card A) \<and>
     n_chunks P = of_nat (length (pool_slots env P qs))"

definition ba_ok :: "ba_env \<Rightarrow> umf_ba_pool_t \<Rightarrow> ptr set \<Rightarrow> bool" where
  "ba_ok env P A \<longleftrightarrow> \<not> free_lock P \<and> (\<exists>fl qs. ba_rep env P A fl qs)"

lemma ba_rep_counts:
  assumes "ba_rep env P A fl qs"
  shows "length (pool_slots env P qs) = length fl + card A"
proof -
  have d: "distinct (pool_slots env P qs)" "distinct fl"
    using assms distinct_pool_slots by (auto simp: ba_rep_def)
  have "length (pool_slots env P qs) = card (set fl \<union> A)"
    using assms distinct_card [OF d(1)] by (simp add: ba_rep_def)
  also have "\<dots> = card (set fl) + card A"
    using assms by (intro card_Un_disjoint) (auto simp: ba_rep_def)
  finally show ?thesis using distinct_card [OF d(2)] by simp
qed

lemma ba_debug_checks_pass:
  assumes "ba_rep env P A fl qs" shows "ba_debug_checks P = Some ()"
  using assms ba_rep_counts [OF assms]
  by (auto simp: ba_debug_checks_def ba_rep_def count_links_eq)

lemma ba_rep_apart:
  "ba_rep env P A fl qs \<Longrightarrow> x \<in> A \<Longrightarrow> y \<in> A \<Longrightarrow> x \<noteq> y \<Longrightarrow> apart (unat (chunk_size P)) x y"
  by (rule pool_slots_apart) (auto simp: ba_rep_def)

lemma ba_rep_accessible:
  "ba_rep env P A fl qs \<Longrightarrow> x \<in> set fl \<union> A \<Longrightarrow> accessible (mem P) x"
  by (rule slot_accessible) (auto simp: ba_rep_def)

lemma ba_rep_nonnull:
  assumes "ba_rep env P A fl qs" "x \<in> A" shows "x \<noteq> NULL"
proof -
  have g: "geometry env P" and pl: "\<forall>p \<in> set (base P # qs). placed P p"
    using assms(1) by (auto simp: layout_def ba_rep_def)
  have "x \<in> set (pool_slots env P qs)" using assms by (auto simp: ba_rep_def)
  from pool_slots_in [OF g this pl] show ?thesis by (metis add_is_0 le_zero_eq numeral_neq_zero)
qed

lemma take_chunk_rep:
  assumes "ba_rep env P A (c # fl) qs"
  obtains P' where "ba_take_chunk P = Some (c, P')" "ba_rep env P' (insert c A) fl qs"
    "\<not> free_lock P'" "chunk_size P' = chunk_size P" "c \<notin> A" "c \<noteq> NULL"
    "pool_size P' = pool_size P" "base P' = base P" "ranges (mem P') = ranges (mem P)"
proof -
  have c: "free_list P = c" "c \<noteq> NULL" "accessible (mem P) c" "c \<notin> A"
    "links (mem P) (words (mem P) c) fl"
    using assms by (auto simp: ba_rep_def)
  define P' where "P' = P\<lparr>free_list := words (mem P) c, n_allocs := n_allocs P + 1\<rparr>"
  have rep: "ba_rep env P' (insert c A) fl qs"
    using assms c by (auto simp: ba_rep_def P'_def card_insert_if)
  moreover from this have "ba_rep env (mutex_unlock P') (insert c A) fl qs"
    by (auto simp: ba_rep_def mutex_unlock_def)
  ultimately show thesis
    using c ba_debug_checks_pass [OF rep]
    by (intro that [of "mutex_unlock P'"])
      (simp_all add: ba_take_chunk_def load_def P'_def [symmetric], simp_all add: P'_def mutex_unlock_def)
qed

end
