(* ===== verification/Base_Alloc_Ops.thy ===== *)
theory Base_Alloc_Ops
  imports Base_Alloc_Invariant
begin

text \<open>
  Every operation of the base allocator keeps the invariant of a pool: mapping another pool,
  handing out a chunk, taking one back, creating and destroying the allocator.
\<close>

section \<open>Mapping another pool\<close>

definition ba_fresh :: "umf_ba_pool_t \<Rightarrow> ptr \<Rightarrow> bool" where
  "ba_fresh P q \<longleftrightarrow> placed P q \<and>
     list_all (\<lambda>r. q + unat (pool_size P) \<le> fst r \<or> fst r + unat (snd r) \<le> q) (ranges (mem P))"

lemma ba_fresh_layout:
  assumes "ba_rep env P A fl qs" "ba_fresh P q" shows "layout env P (q # qs)"
  using assms by (auto simp: ba_rep_def ba_fresh_def layout_def list_all_iff apart_def)

lemma fresh_not_failed: "placed P q \<Longrightarrow> 0 < unat (pool_size P) \<Longrightarrow> q \<noteq> MAP_FAILED"
  by (simp add: placed_def MAP_FAILED_def)

text \<open>What the mapping of a pool writes: the header links the pools, the chunks are linked.\<close>

lemma add_pool_eq:
  assumes rep: "ba_rep env P A [] qs" and fresh: "ba_fresh P q"
  obtains w where
    "ba_add_pool q (P\<lparr>mem := snd (ba_os_alloc q (mem P) (pool_size P))\<rparr>) =
       Some (P\<lparr>mem := \<lparr>ranges = (q, pool_size P) # ranges (mem P), words = w\<rparr>, next_pool := q,
         n_pools := n_pools P + 1, free_list := q + 8,
         n_chunks := n_chunks P + of_nat (length (data_slots P 8 q))\<rparr>)"
    "links \<lparr>ranges = (q, pool_size P) # ranges (mem P), words = w\<rparr> (q + 8) (data_slots P 8 q)"
    "w q = next_pool P"
    "\<forall>a. a \<notin> set (data_slots P 8 q) \<longrightarrow> a + 8 \<le> q \<or> q + unat (pool_size P) \<le> a \<longrightarrow> w a = words (mem P) a"
proof -
  have lay: "layout env P (q # qs)" by (rule ba_fresh_layout [OF rep fresh])
  then have g: "geometry env P" and pl: "placed P q" by (auto simp: layout_def)
  define ps cs where "ps = unat (pool_size P)" and "cs = unat (chunk_size P)"
  have sz: "56 + cs < ps" "8 \<le> cs" "8 dvd ps"
    using g geometry_offset [OF g] chunk_ge_8 [OF g] by (auto simp: geometry_def ps_def cs_def)
  have q: "0 < q" "8 dvd q" "q + ps < 2 ^ 64" using pl by (auto simp: placed_def ps_def)
  define m where "m = snd (ba_os_alloc q (mem P) (pool_size P))"
  have m: "ranges m = (q, pool_size P) # ranges (mem P)"
    "words m = (\<lambda>a. if in_range_of (q, pool_size P) a 8 then 0 else words (mem P) a)"
    using fresh_not_failed [OF pl] sz(1) by (simp_all add: m_def ba_os_alloc_def ps_def)
  have rng: "set (map (\<lambda>p. (p, pool_size P)) ((q # qs) @ [base P])) \<subseteq> set (ranges m)"
    using rep by (auto simp: m ba_rep_def)
  define m1 where "m1 = m\<lparr>words := (words m)(q := next_pool P)\<rparr>"
  have accq: "accessible m q"
    by (rule accessibleI [of q "pool_size P"]) (use q sz in \<open>auto simp: m ps_def\<close>)
  then have st: "store m q (next_pool P) = Some m1" by (simp add: store_def m1_def)
  define P1 where "P1 = P\<lparr>mem := m1, next_pool := q, n_pools := n_pools P + 1\<rparr>"
  have q8: "unat (of_nat q + offsetof_next_data) = q + 8"
    using q sz(1) unat_add_u64 [of "of_nat q" 8] by (simp add: offsetof_next_data_def unat_of_nat_u64)
  have ps8: "unat (pool_size P - offsetof_next_data) = ps - 8"
    using sz(1) by (simp add: offsetof_next_data_def unat_sub_u64 ps_def)
  have al: "utils_align_ptr_up_size_down (of_nat q + offsetof_next_data)
      (pool_size P - offsetof_next_data) MEMORY_ALIGNMENT =
      Some (of_nat q + offsetof_next_data, pool_size P - offsetof_next_data)"
    by (rule align_noop) (use q sz(1,3) in \<open>simp_all only: q8 ps8 dvd_diff_nat dvd_add dvd_refl\<close>)
  have free: "free_list P1 = NULL" using rep by (auto simp: P1_def ba_rep_def)
  have sl: "slots (unat (chunk_size P1)) (q + 8) ((ps - 8) div unat (chunk_size P1)) = data_slots P 8 q"
    by (simp add: data_slots_def P1_def ps_def)
  have acc: "accessible m1 x" if "x \<in> set (data_slots P 8 q)" for x
    using slot_accessible [OF lay _ rng, of x] that by (simp add: m1_def)
  obtain w where div: "ba_divide_memory_into_chunks P1 (q + 8) (pool_size P - offsetof_next_data) =
      Some (P1\<lparr>mem := m1\<lparr>words := w\<rparr>, n_chunks := n_chunks P1 + of_nat ((ps - 8) div cs), free_list := q + 8\<rparr>)"
    and lk: "links (m1\<lparr>words := w\<rparr>) (q + 8) (data_slots P 8 q)"
    and same: "\<And>a. a \<notin> set (data_slots P 8 q) \<Longrightarrow> w a = words m1 a"
  proof (rule ba_divide_eq [of P1 "pool_size P - offsetof_next_data" "(ps - 8) div cs" "q + 8"])
    show "chunk_size P1 < pool_size P - offsetof_next_data"
      using sz(1) by (simp add: word_less_nat_alt ps8, simp add: P1_def cs_def)
  qed (use free sz(2) acc sl in \<open>auto simp: ps8 cs_def P1_def data_slots_def ps_def\<close>)
  have m1w: "m1\<lparr>words := w\<rparr> = \<lparr>ranges = (q, pool_size P) # ranges (mem P), words = w\<rparr>"
    by (simp add: m1_def m)
  have len: "length (data_slots P 8 q) = (ps - 8) div cs"
    by (simp add: data_slots_def ps_def cs_def)
  show thesis
  proof (rule that)
    show "ba_add_pool q (P\<lparr>mem := snd (ba_os_alloc q (mem P) (pool_size P))\<rparr>) =
       Some (P\<lparr>mem := \<lparr>ranges = (q, pool_size P) # ranges (mem P), words = w\<rparr>, next_pool := q,
         n_pools := n_pools P + 1, free_list := q + 8,
         n_chunks := n_chunks P + of_nat (length (data_slots P 8 q))\<rparr>)"
      using st al div q8 m1w len by (simp add: ba_add_pool_def P1_def flip: m_def)
    show "links \<lparr>ranges = (q, pool_size P) # ranges (mem P), words = w\<rparr> (q + 8) (data_slots P 8 q)"
      using lk m1w by simp
    have "q \<notin> set (data_slots P 8 q)"
      using data_slots_bounds(1) [of q P 8 q] sz(1) by (auto simp: ps_def)
    then show "w q = next_pool P" by (simp add: same m1_def)
    show "\<forall>a. a \<notin> set (data_slots P 8 q) \<longrightarrow> a + 8 \<le> q \<or> q + unat (pool_size P) \<le> a \<longrightarrow>
        w a = words (mem P) a"
    proof (intro allI impI)
      fix a
      assume a: "a \<notin> set (data_slots P 8 q)" "a + 8 \<le> q \<or> q + unat (pool_size P) \<le> a"
      then have "a \<noteq> q" "\<not> in_range_of (q, pool_size P) a 8"
        using sz(1) by (auto simp: in_range_of_def ps_def)
      then show "w a = words (mem P) a" using same [OF a(1)] by (simp add: m1_def m)
    qed
  qed
qed

lemma add_pool_rep:
  assumes rep: "ba_rep env P A [] qs" and fresh: "ba_fresh P q"
  obtains P' where
    "ba_add_pool q (P\<lparr>mem := snd (ba_os_alloc q (mem P) (pool_size P))\<rparr>) = Some P'"
    "ba_rep env P' A (data_slots P 8 q) (q # qs)" "data_slots P 8 q \<noteq> []"
    "chunk_size P' = chunk_size P" "pool_size P' = pool_size P" "base P' = base P"
    "ranges (mem P') = (q, pool_size P) # ranges (mem P)"
proof -
  have lay: "layout env P (q # qs)" by (rule ba_fresh_layout [OF rep fresh])
  then have g: "geometry env P" and pl: "placed P q" by (auto simp: layout_def)
  have sz: "56 + unat (chunk_size P) < unat (pool_size P)"
    using g geometry_offset [OF g] by (auto simp: geometry_def)
  obtain w where
    add: "ba_add_pool q (P\<lparr>mem := snd (ba_os_alloc q (mem P) (pool_size P))\<rparr>) =
       Some (P\<lparr>mem := \<lparr>ranges = (q, pool_size P) # ranges (mem P), words = w\<rparr>, next_pool := q,
         n_pools := n_pools P + 1, free_list := q + 8,
         n_chunks := n_chunks P + of_nat (length (data_slots P 8 q))\<rparr>)" (is "_ = Some ?P")
    and lk: "links \<lparr>ranges = (q, pool_size P) # ranges (mem P), words = w\<rparr> (q + 8) (data_slots P 8 q)"
    and wq: "w q = next_pool P"
    and same: "\<forall>a. a \<notin> set (data_slots P 8 q) \<longrightarrow> a + 8 \<le> q \<or> q + unat (pool_size P) \<le> a \<longrightarrow>
        w a = words (mem P) a"
    by (rule add_pool_eq [OF rep fresh])
  define P' where P': "P' = ?P"
  have acc: "accessible (mem P') a" if "accessible (mem P) a" for a
    using that by (auto simp: P' accessible_def)
  have "words (mem P') x = words (mem P) x" if x: "x \<in> set qs" for x
  proof -
    have "apart (unat (pool_size P)) q x" using lay x by (auto simp: layout_def)
    moreover have "x \<notin> set (data_slots P 8 q)"
      using slot_not_header [OF lay _, of x x] x by auto
    ultimately show ?thesis using same sz by (auto simp: P' apart_def)
  qed
  then have "links (mem P') (next_pool P) qs"
    using rep acc by (intro links_cong [of qs "mem P'" "mem P"]) (auto simp: ba_rep_def)
  moreover have "accessible (mem P') q"
    by (rule accessibleI [of q "pool_size P"]) (use pl sz in \<open>auto simp: P' placed_def\<close>)
  ultimately have nx: "links (mem P') (next_pool P') (q # qs)"
    using pl by (simp add: P' wq placed_def)
  have ne: "data_slots P 8 q \<noteq> []"
    using sz chunk_ge_8 [OF g] by (auto simp: data_slots_def slots_def div_eq_0_iff)
  have "pool_slots env P' (q # qs) = data_slots P 8 q @ pool_slots env P qs"
    by (simp add: P')
  moreover have "distinct (data_slots P 8 q @ pool_slots env P qs)"
    using distinct_pool_slots [OF lay] by simp
  moreover have "layout env P' (q # qs)" using lay by (simp add: P')
  ultimately have "ba_rep env P' A (data_slots P 8 q) (q # qs)"
    using rep lk nx by (simp add: ba_rep_def, simp add: P' Int_commute Un_assoc)
  then show thesis using add ne by (intro that [of P']) (simp_all add: P')
qed

section \<open>Allocation\<close>

lemma ba_alloc_rep:
  assumes ok: "ba_ok env P A" and fresh: "free_list P = NULL \<Longrightarrow> ba_fresh P mmap"
  obtains c P' where "umf_ba_alloc mmap P = Some (c, P')" "c \<noteq> NULL" "c \<notin> A"
    "ba_ok env P' (insert c A)" "chunk_size P' = chunk_size P"
    "free_list P \<noteq> NULL \<Longrightarrow> c = free_list P"
    "ranges (mem P') = ranges (mem P) \<or>
     free_list P = NULL \<and> ranges (mem P') = (mmap, pool_size P) # ranges (mem P)"
proof -
  from ok obtain fl qs where unl: "\<not> free_lock P" and rep: "ba_rep env P A fl qs"
    by (auto simp: ba_ok_def)
  have lk: "mutex_lock P = Some (P\<lparr>free_lock := True\<rparr>)" by (simp add: mutex_lock_def unl)
  have rep': "ba_rep env (P\<lparr>free_lock := True\<rparr>) A fl qs"
    using rep by (simp add: ba_rep_def)
  show thesis
  proof (cases fl)
    case Nil
    then have nl: "free_list P = NULL" using rep by (simp add: ba_rep_def)
    have fr: "ba_fresh (P\<lparr>free_lock := True\<rparr>) mmap"
      using fresh [OF nl] by (simp add: ba_fresh_def placed_def)
    then have nz: "mmap \<noteq> NULL" by (simp add: ba_fresh_def placed_def)
    from add_pool_rep [OF rep' [unfolded Nil] fr] obtain P1 where
      P1: "ba_add_pool mmap (P\<lparr>free_lock := True, mem := snd (ba_os_alloc mmap (mem P) (pool_size P))\<rparr>) = Some P1"
      "ba_rep env P1 A (data_slots P 8 mmap) (mmap # qs)" "data_slots P 8 mmap \<noteq> []"
      "chunk_size P1 = chunk_size P" "ranges (mem P1) = (mmap, pool_size P) # ranges (mem P)"
      by (auto simp: data_slots_def)
    then obtain c fl' where "data_slots P 8 mmap = c # fl'" by (cases "data_slots P 8 mmap") auto
    with P1 take_chunk_rep [of env P1 A c fl' "mmap # qs"] obtain P2 where
      "ba_take_chunk P1 = Some (c, P2)" "ba_rep env P2 (insert c A) fl' (mmap # qs)"
      "\<not> free_lock P2" "chunk_size P2 = chunk_size P1" "c \<notin> A" "c \<noteq> NULL"
      "ranges (mem P2) = ranges (mem P1)" by metis
    with P1 lk nl nz show thesis
      by (intro that [of c P2])
        (auto simp: umf_ba_alloc_def ba_os_alloc_annotated_def ba_ok_def split_def, simp add: ba_os_alloc_def)
  next
    case (Cons c fl')
    then have fl: "free_list P = c" "c \<noteq> NULL" using rep by (simp_all add: ba_rep_def)
    from take_chunk_rep [OF rep' [unfolded Cons]] obtain P2 where
      "ba_take_chunk (P\<lparr>free_lock := True\<rparr>) = Some (c, P2)" "ba_rep env P2 (insert c A) fl' qs"
      "\<not> free_lock P2" "chunk_size P2 = chunk_size P" "c \<notin> A"
      "ranges (mem P2) = ranges (mem P)" by auto
    with lk fl show thesis
      by (intro that [of c P2]) (auto simp: umf_ba_alloc_def ba_ok_def)
  qed
qed

end
