(* ===== verification/Base_Alloc_Properties.thy ===== *)
theory Base_Alloc_Properties
  imports Base_Alloc_Ops
begin

text \<open>
  Taking chunks back, creating and destroying a pool, the contract of a chunk allocator as a
  locale with its interpretation on the base allocator, and the properties of the allocator.
\<close>

section \<open>Taking a chunk back\<close>

lemma pool_slots_contained:
  assumes "geometry env P" "x \<in> set (pool_slots env P qs)"
  shows "base P + unat (offsetof_data env) \<le> x \<and> x < base P + unat (pool_size P) \<or>
    (\<exists>q \<in> set qs. q + 8 \<le> x \<and> x < q + unat (pool_size P))"
  using assms(2)
proof (induction qs)
  case Nil
  have "unat (offsetof_data env) \<le> unat (pool_size P)" using assms(1) by (simp add: geometry_def)
  from data_slots_bounds [OF _ this] Nil show ?case
    using chunk_ge_8 [OF assms(1)] by fastforce
next
  case (Cons q qs)
  have "8 \<le> unat (pool_size P)" using assms(1) geometry_offset [OF assms(1)] by (simp add: geometry_def)
  from data_slots_bounds [OF _ this] Cons show ?case
    using chunk_ge_8 [OF assms(1)] by fastforce
qed

lemma ba_rep_lock: "ba_rep env (P\<lparr>free_lock := b\<rparr>) A fl qs = ba_rep env P A fl qs"
  by (simp add: ba_rep_def)

lemma ba_free_rep:
  assumes ok: "ba_ok env P A" and x: "x \<in> A"
  obtains P' where "umf_ba_free env P x = Some P'" "ba_ok env P' (A - {x})" "free_list P' = x"
    "chunk_size P' = chunk_size P" "ranges (mem P') = ranges (mem P)"
proof -
  from ok obtain fl qs where unl: "\<not> free_lock P" and rep: "ba_rep env P A fl qs"
    by (auto simp: ba_ok_def)
  have lay: "layout env P qs" and nx: "links (mem P) (next_pool P) qs"
    and fl: "links (mem P) (free_list P) fl" and sl: "x \<in> set (pool_slots env P qs)" "x \<notin> set fl"
    using rep x by (auto simp: ba_rep_def)
  have acc: "accessible (mem P) x" using ba_rep_accessible [OF rep] x by simp
  define P1 where "P1 = P\<lparr>mem := (mem P)\<lparr>words := (words (mem P))(x := free_list P)\<rparr>, free_list := x,
      n_allocs := n_allocs P - 1\<rparr>"
  have "links (mem P1) (free_list P) fl"
    by (rule links_cong [OF _ _ fl]) (use sl in \<open>auto simp: P1_def\<close>)
  then have "links (mem P1) (free_list P1) (x # fl)"
    using acc ba_rep_nonnull [OF rep x] by (simp add: P1_def)
  moreover have "links (mem P1) (next_pool P) qs"
    by (rule links_cong [OF _ _ nx]) (use slot_not_header [OF lay sl(1)] in \<open>auto simp: P1_def\<close>)
  moreover have "of_nat (card A) - (1 :: u64) = of_nat (card (A - {x}))"
    using rep x card_gt_0_iff [of A] by (auto simp: ba_rep_def of_nat_diff)
  moreover have "insert x (set fl \<union> (A - {x})) = set fl \<union> A" "set fl \<inter> (A - {x}) = {}"
    using rep x by (auto simp: ba_rep_def)
  ultimately have rep1: "ba_rep env P1 (A - {x}) (x # fl) qs"
    using rep sl(2) by (simp add: ba_rep_def, simp add: P1_def)
  have "pool_contains_pointer env (P\<lparr>free_lock := True\<rparr>) x = Some True"
    using pool_slots_contained [OF _ sl(1)] lay
    by (auto simp: pool_contains_pointer_def next_pools_contain_eq [OF nx] layout_def
        offsetof_next_data_def)
  moreover have "ba_debug_checks (P\<lparr>free_lock := True, mem := (mem P)\<lparr>words := (words (mem P))(x := free_list P)\<rparr>,
      free_list := x, n_allocs := n_allocs P - 1\<rparr>) = Some ()"
    using rep1 by (intro ba_debug_checks_pass [of env _ "A - {x}" "x # fl" qs])
      (simp add: ba_rep_def P1_def)
  ultimately have "umf_ba_free env P x = Some (P1\<lparr>free_lock := False\<rparr>)"
    using unl acc ba_rep_nonnull [OF rep x]
    by (simp add: umf_ba_free_def mutex_lock_def mutex_unlock_def store_def P1_def)
  moreover have "ba_ok env (P1\<lparr>free_lock := False\<rparr>) (A - {x})"
    using rep1 by (auto simp: ba_ok_def ba_rep_lock)
  ultimately show thesis by (intro that [of "P1\<lparr>free_lock := False\<rparr>"]) (simp_all add: P1_def)
qed

section \<open>Creation and destruction\<close>

lemma destroy_loop_eq:
  assumes "links m q qs" "ranges m = map (\<lambda>p. (p, ps)) (qs @ rs)" "8 \<le> unat ps" "\<forall>x \<in> set qs. 8 dvd x"
  shows "destroy_loop m ps q = Some (m\<lparr>ranges := map (\<lambda>p. (p, ps)) rs\<rparr>)"
  using assms
proof (induction qs arbitrary: m q)
  case Nil
  then show ?case by (subst destroy_loop.simps) simp
next
  case (Cons x qs)
  let ?m = "m\<lparr>ranges := map (\<lambda>p. (p, ps)) (qs @ rs)\<rparr>"
  have "accessible ?m y" if "y \<in> set qs" for y
    by (rule accessibleI [of y ps]) (use that Cons.prems in auto)
  then have "links ?m (words m x) qs"
    using Cons.prems(1) by (intro links_cong [of qs ?m m]) auto
  then have "destroy_loop ?m ps (words m x) = Some (?m\<lparr>ranges := map (\<lambda>p. (p, ps)) rs\<rparr>)"
    using Cons.prems by (intro Cons.IH) auto
  then show ?case
    using Cons.prems by (subst destroy_loop.simps) (simp add: load_def ba_os_free_def)
qed

lemma ba_destroy_rep:
  assumes "ba_ok env P A" "\<not> (n_allocs P \<noteq> 0 \<and> proxy)"
  shows "\<exists>m. umf_ba_destroy proxy P = Some m \<and> ranges m = []"
proof -
  from assms(1) obtain fl qs where rep: "ba_rep env P A fl qs" by (auto simp: ba_ok_def)
  then have "destroy_loop (mem P) (pool_size P) (next_pool P) =
      Some ((mem P)\<lparr>ranges := map (\<lambda>p. (p, pool_size P)) [base P]\<rparr>)"
    using geometry_offset [of env P]
    by (intro destroy_loop_eq) (auto simp: ba_rep_def layout_def geometry_def placed_def)
  then show ?thesis
    using assms(2) ba_debug_checks_pass [OF rep] by (auto simp: umf_ba_destroy_def ba_os_free_def)
qed

lemma ALIGN_UP_8:
  assumes "unat v + 8 \<le> 2 ^ 64"
  shows "8 dvd unat (ALIGN_UP v 8)" "unat v \<le> unat (ALIGN_UP v 8)" "unat (ALIGN_UP v 8) < unat v + 8"
    "8 dvd unat v \<Longrightarrow> ALIGN_UP v 8 = v"
proof -
  have eq: "unat (ALIGN_UP v 8) = (unat v + 8 - 1) div 8 * 8"
    using unat_ALIGN_UP [of 3 v] assms by simp
  show "8 dvd unat (ALIGN_UP v 8)" by (simp add: eq)
  show "unat v \<le> unat (ALIGN_UP v 8)" "unat (ALIGN_UP v 8) < unat v + 8"
    using round_up_least(1,2) [of 8 "unat v"] by (simp_all add: eq)
  show "ALIGN_UP v 8 = v" if "8 dvd unat v"
    using that round_up_cases [of 8 "unat v"] by (intro unat_eqD64) (simp add: eq)
qed

lemma ba_pool_size_bounds:
  assumes env: "env_ok env" and cs: "unat cs \<le> 2 ^ 50"
  shows "56 + 2 * unat (mutex_size env) + 128 * unat cs \<le> unat (ba_pool_size env cs)"
    "8 dvd unat (ba_pool_size env cs)" "unat (ba_pool_size env cs) < 2 ^ 60"
proof -
  obtain k where k: "12 \<le> k" "k < 32" "page_size env = 2 ^ k" using env by (auto simp: env_ok_def)
  have m: "8 dvd unat (mutex_size env)" "unat (mutex_size env) \<le> 1024"
    using env by (auto simp: env_ok_def)
  then have mtx: "ALIGN_UP (mutex_size env) MEMORY_ALIGNMENT = mutex_size env"
    by (simp add: MEMORY_ALIGNMENT_def ALIGN_UP_8(4))
  define t where "t = 56 + 2 * mutex_size env + 128 * cs"
  have "unat (128 * cs) = 128 * unat cs"
    using cs unat_mult_lem [of 128 cs] by simp
  moreover have "unat (2 * mutex_size env) = 2 * unat (mutex_size env)"
    using m(2) unat_mult_lem [of 2 "mutex_size env"] by simp
  moreover from this m(2) have "unat (56 + 2 * mutex_size env) = 56 + 2 * unat (mutex_size env)"
    using unat_add_u64 [of 56 "2 * mutex_size env"] by simp
  ultimately have t: "unat t = 56 + 2 * unat (mutex_size env) + 128 * unat cs"
    unfolding t_def using cs m(2) unat_add_u64 [of "56 + 2 * mutex_size env" "128 * cs"] by simp
  define s where "s = (if t < page_size env then page_size env else t)"
  have ps: "ba_pool_size env cs = ALIGN_UP s (2 ^ k)"
    by (simp add: ba_pool_size_def s_def t_def mtx MINIMUM_POOL_SIZE_def MINIMUM_CHUNK_COUNT_def
        sizeof_main_pool_meta_def k(3) Let_def algebra_simps)
  have pg: "(2 :: nat) ^ k < 2 ^ 32" using k(2) by (intro power_strict_increasing) auto
  have s: "unat t \<le> unat s" "unat s \<le> 2 ^ 58"
    using t cs m(2) pg k by (auto simp: s_def word_less_nat_alt)
  then have eq: "unat (ba_pool_size env cs) = (unat s + 2 ^ k - 1) div 2 ^ k * 2 ^ k"
    unfolding ps using k(2) pg by (intro unat_ALIGN_UP) auto
  note up = round_up_least(1,2) [of "2 ^ k" "unat s"]
  show "56 + 2 * unat (mutex_size env) + 128 * unat cs \<le> unat (ba_pool_size env cs)"
    using up(1) s(1) t by (simp add: eq)
  show "unat (ba_pool_size env cs) < 2 ^ 60" using up(2) s(2) pg by (simp add: eq)
  have "(8 :: nat) dvd 2 ^ k" using le_imp_power_dvd [of 3 k 2] k(1) by simp
  then show "8 dvd unat (ba_pool_size env cs)" unfolding eq by (rule dvd_mult)
qed

lemma ba_create_rep:
  assumes env: "env_ok env" and sz: "0 < unat sz" "unat sz \<le> 2 ^ 48"
    and p: "0 < p" "8 dvd p" "p + 2 ^ 60 < 2 ^ 64"
  obtains P where "umf_ba_create env p True sz = Some (Some P)" "ba_ok env P {}"
    "unat sz \<le> unat (chunk_size P)" "unat (chunk_size P) < unat sz + 8" "128 \<le> unat (n_chunks P)"
proof -
  define cs where "cs = ALIGN_UP sz MEMORY_ALIGNMENT"
  have cs: "8 dvd unat cs" "unat sz \<le> unat cs" "unat cs < unat sz + 8" "unat cs \<le> 2 ^ 50"
    using ALIGN_UP_8 [of sz] sz by (simp_all add: cs_def MEMORY_ALIGNMENT_def)
  define ps where "ps = ba_pool_size env cs"
  note pb = ba_pool_size_bounds [OF env cs(4), folded ps_def]
  define off where "off = unat (offsetof_data env)"
  have off: "off = 56 + unat (mutex_size env)" using offsetof_data_nat [OF env] by (simp add: off_def)
  have off8: "8 dvd off" "off \<le> 1080" using env unfolding off by (auto simp: env_ok_def)
  define m where "m = \<lparr>ranges = [(p, ps)], words = (\<lambda>_. 0)\<rparr>"
  have os: "ba_os_alloc_annotated p \<lparr>ranges = [], words = (\<lambda>_. 0)\<rparr> ps = (p, m)"
    using p by (auto simp: ba_os_alloc_annotated_def ba_os_alloc_def m_def MAP_FAILED_def fun_eq_iff)
  define P0 where "P0 = \<lparr>base = p, next_pool = NULL, pool_size = ps, chunk_size = cs,
      free_lock = False, free_list = NULL, n_allocs = 0, n_pools = 1, n_chunks = 0, mem = m\<rparr>"
  have lay: "layout env P0 []"
    using env cs(1,2) sz pb p off off_def
    by (simp add: layout_def geometry_def placed_def P0_def)
  have d: "unat (of_nat p + offsetof_data env) = p + off"
    using p off8 unat_add_u64 [of "of_nat p" "offsetof_data env"] by (simp add: off_def unat_of_nat_u64)
  have l: "unat (ps - offsetof_data env) = unat ps - off"
    using pb(1) off by (simp add: unat_sub_u64 flip: off_def)
  have al: "utils_align_ptr_up_size_down (of_nat p + offsetof_data env) (ps - offsetof_data env)
      MEMORY_ALIGNMENT = Some (of_nat p + offsetof_data env, ps - offsetof_data env)"
    by (rule align_noop) (use p off8 pb(2) in \<open>simp_all only: d l dvd_add dvd_diff_nat\<close>)
  define n where "n = (unat ps - off) div unat cs"
  have sl: "slots (unat (chunk_size P0)) (p + off) n = pool_slots env P0 []"
    by (simp add: data_slots_def P0_def n_def off_def)
  have acc: "accessible m x" if "x \<in> set (pool_slots env P0 [])" for x
    by (rule slot_accessible [OF lay that]) (simp add: m_def P0_def)
  obtain w where div: "ba_divide_memory_into_chunks P0 (p + off) (ps - offsetof_data env) =
      Some (P0\<lparr>mem := m\<lparr>words := w\<rparr>, n_chunks := n_chunks P0 + of_nat n, free_list := p + off\<rparr>)"
    and lk: "links (m\<lparr>words := w\<rparr>) (p + off) (pool_slots env P0 [])"
  proof (rule ba_divide_eq [of P0 "ps - offsetof_data env" n "p + off"])
    show "chunk_size P0 < ps - offsetof_data env"
      using pb(1) off cs sz by (simp add: word_less_nat_alt l P0_def)
  qed (use sz cs p acc sl l in \<open>auto simp: P0_def n_def\<close>)
  define P where "P = P0\<lparr>mem := m\<lparr>words := w\<rparr>, n_chunks := of_nat n, free_list := p + off\<rparr>"
  have cr: "umf_ba_create env p True sz = Some (Some P)"
    using os al div d p pb(1) off
    by (simp add: umf_ba_create_def cs_def [symmetric] ps_def [symmetric] P_def P0_def
        m_def in_range_of_def flip: off_def)
  have len: "length (pool_slots env P0 []) = n" unfolding sl [symmetric] by simp
  have "ba_rep env P {} (pool_slots env P0 []) []"
    using lay lk len distinct_pool_slots [OF lay]
    by (simp add: ba_rep_def P_def, simp add: P0_def m_def)
  then have "ba_ok env P {}" by (auto simp: ba_ok_def P_def P0_def)
  moreover have "128 \<le> n"
    using pb(1) off cs sz by (simp add: n_def less_eq_div_iff_mult_less_eq)
  moreover have "n < 2 ^ 64"
    using pb(3) le_less_trans [OF div_le_dividend [of "unat ps - off" "unat cs"]] by (simp add: n_def)
  ultimately show thesis
    using cr cs by (intro that [of P])
      (simp_all add: P_def unat_of_nat_u64, simp_all add: P0_def)
qed

section \<open>The contract of a chunk allocator\<close>

text \<open>
  What a client of the base allocator relies on: chunks of one size that do not overlap, handed
  out by \<open>al\<close> when the environment \<open>os\<close> is usable and taken back by \<open>fr\<close>. \<open>inv P A\<close> says that the
  chunks \<open>A\<close> are handed out.
\<close>

text \<open>A sequence of requests: \<open>Inl os\<close> asks for a chunk, \<open>Inr x\<close> gives \<open>x\<close> back.\<close>

inductive alloc_run ::
  "('o \<Rightarrow> 'p \<Rightarrow> bool) \<Rightarrow> ('o \<Rightarrow> 'p \<Rightarrow> (ptr \<times> 'p) option) \<Rightarrow> ('p \<Rightarrow> ptr \<Rightarrow> 'p option) \<Rightarrow>
   'p \<Rightarrow> ptr set \<Rightarrow> ('o + ptr) list \<Rightarrow> 'p \<Rightarrow> ptr set \<Rightarrow> bool"
  for usable al fr where
  run_stop: "alloc_run usable al fr P A [] P A"
| run_alloc: "usable os P \<Longrightarrow> al os P = Some (c, P') \<Longrightarrow>
    alloc_run usable al fr P' (insert c A) es P'' B \<Longrightarrow> alloc_run usable al fr P A (Inl os # es) P'' B"
| run_free: "x \<in> A \<Longrightarrow> fr P x = Some P' \<Longrightarrow> alloc_run usable al fr P' (A - {x}) es P'' B \<Longrightarrow>
    alloc_run usable al fr P A (Inr x # es) P'' B"

locale chunk_allocator =
  fixes inv :: "'p \<Rightarrow> ptr set \<Rightarrow> bool"
    and csize :: "'p \<Rightarrow> nat"
    and usable :: "'o \<Rightarrow> 'p \<Rightarrow> bool"
    and al :: "'o \<Rightarrow> 'p \<Rightarrow> (ptr \<times> 'p) option"
    and fr :: "'p \<Rightarrow> ptr \<Rightarrow> 'p option"
  assumes inv_apart: "inv P A \<Longrightarrow> x \<in> A \<Longrightarrow> y \<in> A \<Longrightarrow> x \<noteq> y \<Longrightarrow> apart (csize P) x y"
    and inv_nonnull: "inv P A \<Longrightarrow> NULL \<notin> A"
    and al_law: "inv P A \<Longrightarrow> usable os P \<Longrightarrow>
      \<exists>c P'. al os P = Some (c, P') \<and> c \<notin> A \<and> inv P' (insert c A) \<and> csize P' = csize P"
    and fr_law: "inv P A \<Longrightarrow> x \<in> A \<Longrightarrow>
      \<exists>P'. fr P x = Some P' \<and> inv P' (A - {x}) \<and> csize P' = csize P"
begin

lemma alE:
  assumes "inv P A" "usable os P" "al os P = Some (c, P')"
  shows "c \<notin> A" "c \<noteq> NULL" "inv P' (insert c A)" "csize P' = csize P"
  using al_law [OF assms(1,2)] assms(3) inv_nonnull [of P' "insert c A"] by auto

lemma frE:
  assumes "inv P A" "x \<in> A" "fr P x = Some P'"
  shows "inv P' (A - {x})" "csize P' = csize P"
  using fr_law [OF assms(1,2)] assms(3) by auto

lemma run_inv: "alloc_run usable al fr P A es P' B \<Longrightarrow> inv P A \<Longrightarrow> inv P' B \<and> csize P' = csize P"
proof (induction rule: alloc_run.induct)
  case (run_alloc os P c P' A es P'' B)
  from alE [OF run_alloc.prems run_alloc.hyps(1,2)] run_alloc.IH show ?case by simp
next
  case (run_free x A P P' es P'' B)
  from frE [OF run_free.prems run_free.hyps(1,2)] run_free.IH show ?case by simp
qed simp

lemma run_apart:
  "alloc_run usable al fr P A es P' B \<Longrightarrow> inv P A \<Longrightarrow> x \<in> B \<Longrightarrow> y \<in> B \<Longrightarrow> x \<noteq> y \<Longrightarrow>
   apart (csize P) x y"
  using run_inv [of P A es P' B] inv_apart [of P' B x y] by auto

text \<open>A request can always be answered: no run gets stuck.\<close>

lemma run_step:
  "inv P A \<Longrightarrow> usable os P \<Longrightarrow> \<exists>c P'. alloc_run usable al fr P A [Inl os] P' (insert c A)"
  "inv P A \<Longrightarrow> x \<in> A \<Longrightarrow> \<exists>P'. alloc_run usable al fr P A [Inr x] P' (A - {x})"
  using al_law fr_law by (meson alloc_run.intros)+

end

definition ba_usable :: "ptr \<Rightarrow> umf_ba_pool_t \<Rightarrow> bool" where
  "ba_usable mmap P \<longleftrightarrow> free_list P = NULL \<longrightarrow> ba_fresh P mmap"

lemma ba_ok_nonnull: "ba_ok env P A \<Longrightarrow> NULL \<notin> A"
  by (auto simp: ba_ok_def dest: ba_rep_nonnull)

lemma ba_ok_apart: "ba_ok env P A \<Longrightarrow> x \<in> A \<Longrightarrow> y \<in> A \<Longrightarrow> x \<noteq> y \<Longrightarrow> apart (unat (chunk_size P)) x y"
  using ba_rep_apart by (auto simp: ba_ok_def)

interpretation ba: chunk_allocator "ba_ok env" "\<lambda>P. unat (chunk_size P)" ba_usable umf_ba_alloc
    "umf_ba_free env" for env
proof
  fix P A mmap
  assume "ba_ok env P A" "ba_usable mmap P"
  then show "\<exists>c P'. umf_ba_alloc mmap P = Some (c, P') \<and> c \<notin> A \<and> ba_ok env P' (insert c A) \<and>
      unat (chunk_size P') = unat (chunk_size P)"
    using ba_alloc_rep [of env P A mmap] by (metis ba_usable_def)
next
  fix P A x
  assume "ba_ok env P A" "x \<in> A"
  then show "\<exists>P'. umf_ba_free env P x = Some P' \<and> ba_ok env P' (A - {x}) \<and>
      unat (chunk_size P') = unat (chunk_size P)"
    using ba_free_rep by metis
qed (use ba_ok_apart ba_ok_nonnull in auto)

section \<open>Examples\<close>

definition env_linux :: ba_env where
  "env_linux = \<lparr>page_size = 4096, mutex_size = 40\<rparr>"

lemma env_linux_ok: "env_ok env_linux"
  by (auto simp: env_ok_def env_linux_def intro: exI [of _ 12])

lemma created_pool_usable:
  assumes "ba_ok env P {}" "128 \<le> unat (n_chunks P)" shows "ba_usable mmap P"
proof -
  have False if nl: "free_list P = NULL"
  proof -
    obtain qs where "ba_rep env P {} [] qs" using assms(1) nl by (auto simp: ba_ok_def ba_rep_def)
    from ba_rep_counts [OF this] this assms(2) show False by (simp add: ba_rep_def)
  qed
  then show ?thesis by (auto simp: ba_usable_def)
qed

lemma example_pool:
  obtains P where "umf_ba_create env_linux 4096 True 24 = Some (Some P)" "ba_ok env_linux P {}"
    "ba_usable 0 P"
proof -
  obtain P where "umf_ba_create env_linux 4096 True 24 = Some (Some P)" "ba_ok env_linux P {}"
    "128 \<le> unat (n_chunks P)"
    by (rule ba_create_rep [of env_linux 24 4096]) (use env_linux_ok in simp_all)
  with created_pool_usable that show thesis by blast
qed

section \<open>Properties\<close>

text \<open>Creating a pool for objects of a size up to $2^{48}$ bytes, when the system maps fresh
  memory, terminates without a failed assertion or an access outside the mapped range and gives
  a pool with no chunk handed out, whose chunks are at least as large as requested, less than 8
  bytes larger, and at least 128 in number.\<close>

theorem ba_create_gives_chunks:
  assumes "env_ok env" "0 < unat sz" "unat sz \<le> 2 ^ 48" "0 < p" "8 dvd p" "p + 2 ^ 60 < 2 ^ 64"
  shows "\<exists>P. umf_ba_create env p True sz = Some (Some P) \<and> ba_ok env P {} \<and>
    unat sz \<le> unat (chunk_size P) \<and> unat (chunk_size P) < unat sz + 8 \<and> 128 \<le> unat (n_chunks P)"
proof -
  obtain P where "umf_ba_create env p True sz = Some (Some P)" "ba_ok env P {}"
    "unat sz \<le> unat (chunk_size P)" "unat (chunk_size P) < unat sz + 8" "128 \<le> unat (n_chunks P)"
    by (rule ba_create_rep [OF assms])
  then show ?thesis by blast
qed

theorem ba_create_gives_chunks_witness:
  "\<exists>P. umf_ba_create env_linux 4096 True 24 = Some (Some P) \<and> ba_ok env_linux P {} \<and>
    24 \<le> unat (chunk_size P) \<and> 128 \<le> unat (n_chunks P)"
  using ba_create_gives_chunks [of env_linux 24 4096] env_linux_ok by auto

text \<open>C23: In every run of allocations and releases from a pool whose invariant holds, the
  invariant holds at the end; no chunk handed out is null, two chunks handed out at the same
  time never overlap, and any further allocation, for which the system maps fresh memory when
  the free list is empty, succeeds with a chunk that is not handed out, with all assertions of
  the debug build passed.\<close>

theorem ba_runs_never_overlap:
  assumes "ba_ok env P A" "alloc_run ba_usable umf_ba_alloc (umf_ba_free env) P A es P' B"
  shows "ba_ok env P' B \<and> NULL \<notin> B \<and>
    (\<forall>x \<in> B. \<forall>y \<in> B. x \<noteq> y \<longrightarrow> apart (unat (chunk_size P)) x y) \<and>
    (\<forall>mmap. ba_usable mmap P' \<longrightarrow>
       (\<exists>c P''. umf_ba_alloc mmap P' = Some (c, P'') \<and> c \<notin> B \<and> ba_ok env P'' (insert c B)))"
  using ba.run_inv [OF assms(2,1)] ba.run_apart [OF assms(2,1)] ba_ok_nonnull
    ba.al_law [of env P' B] by metis

theorem ba_runs_never_overlap_witness:
  "\<exists>P P' c. umf_ba_create env_linux 4096 True 24 = Some (Some P) \<and>
     alloc_run ba_usable umf_ba_alloc (umf_ba_free env_linux) P {} [Inl 0] P' {c} \<and> ba_ok env_linux P' {c}"
proof -
  obtain P where P: "umf_ba_create env_linux 4096 True 24 = Some (Some P)" "ba_ok env_linux P {}"
    "ba_usable 0 P" by (rule example_pool)
  from ba.run_step(1) [OF P(2,3)] obtain c P' where
    r: "alloc_run ba_usable umf_ba_alloc (umf_ba_free env_linux) P {} [Inl 0] P' {c}" by blast
  from ba_runs_never_overlap [OF P(2) r] P(1) r show ?thesis by blast
qed

text \<open>C24: A chunk that is given back is handed out by the next allocation: releasing a chunk and
  allocating again terminates, returns the same chunk and restores the set of chunks that are
  handed out.\<close>

theorem ba_free_alloc_roundtrip:
  assumes "ba_ok env P A" "x \<in> A"
  shows "\<exists>P' P''. umf_ba_free env P x = Some P' \<and> ba_ok env P' (A - {x}) \<and>
    umf_ba_alloc mmap P' = Some (x, P'') \<and> ba_ok env P'' A"
proof -
  from ba_free_rep [OF assms] obtain P' where
    P': "umf_ba_free env P x = Some P'" "ba_ok env P' (A - {x})" "free_list P' = x" by metis
  have "x \<noteq> NULL" using ba_ok_nonnull [OF assms(1)] assms(2) by metis
  with ba_alloc_rep [OF P'(2), of mmap] P'(3) obtain P'' where
    "umf_ba_alloc mmap P' = Some (x, P'')" "ba_ok env P'' (insert x (A - {x}))" by metis
  then show ?thesis using P'(1,2) assms(2) by (simp add: insert_absorb)
qed

theorem ba_free_alloc_roundtrip_witness:
  "\<exists>P x P' P''. ba_ok env_linux P {x} \<and> umf_ba_free env_linux P x = Some P' \<and>
     umf_ba_alloc 0 P' = Some (x, P'')"
proof -
  obtain P where P: "ba_ok env_linux P {}" "ba_usable 0 P" by (rule example_pool)
  from ba.al_law [OF P] obtain x P1 where "ba_ok env_linux P1 {x}" by auto
  with ba_free_alloc_roundtrip [OF this, of x 0] show ?thesis by blast
qed

text \<open>Destroying a pool gives back every range it has mapped, the assertions of the debug
  build hold, and the walk over the list of pools ends; only in the proxy library with chunks
  still handed out is the pool left as it is.\<close>

theorem ba_destroy_unmaps_everything:
  assumes "ba_ok env P A"
  shows "umf_ba_destroy True P = (if n_allocs P \<noteq> 0 then Some (mem P) else umf_ba_destroy False P) \<and>
    (\<exists>m. umf_ba_destroy False P = Some m \<and> ranges m = [])"
  using ba_destroy_rep [OF assms, of False] by (simp add: umf_ba_destroy_def)

theorem ba_destroy_unmaps_everything_witness:
  "\<exists>P m. umf_ba_create env_linux 4096 True 24 = Some (Some P) \<and> umf_ba_destroy False P = Some m \<and>
     ranges m = []"
proof -
  obtain P where "umf_ba_create env_linux 4096 True 24 = Some (Some P)" "ba_ok env_linux P {}"
    by (rule example_pool)
  with ba_destroy_unmaps_everything [of env_linux P "{}"] show ?thesis by blast
qed

text \<open>C25: When the system cannot map memory, \<open>ba_os_alloc\<close> returns the error value \<open>MAP_FAILED\<close> and
  not the null pointer, so that the test for null in \<open>umf_ba_create\<close> and in \<open>umf_ba_alloc\<close> does not
  see the failure and the code writes to memory that is not mapped.\<close>

theorem ba_map_failure_faults:
  assumes "env_ok env" "free_list P = NULL" "\<forall>r \<in> set (ranges (mem P)). fst r + unat (snd r) < 2 ^ 64"
  shows "umf_ba_create env MAP_FAILED b sz = None \<and> umf_ba_alloc MAP_FAILED P = None"
proof -
  have "\<not> accessible (mem P) MAP_FAILED"
    using assms(3) by (auto simp: accessible_def list_ex_iff in_range_of_def MAP_FAILED_def)
  then have "umf_ba_alloc MAP_FAILED P = None"
    using assms(2)
    by (auto simp: umf_ba_alloc_def mutex_lock_def ba_os_alloc_annotated_def ba_os_alloc_def
        ba_add_pool_def store_def MAP_FAILED_def)
  then show ?thesis
    by (simp add: umf_ba_create_def ba_os_alloc_annotated_def ba_os_alloc_def Let_def MAP_FAILED_def)
qed

theorem ba_map_failure_faults_witness:
  "umf_ba_create env_linux MAP_FAILED True 24 = None"
  using ba_map_failure_faults [of env_linux
      "\<lparr>base = 4096, next_pool = NULL, pool_size = 8192, chunk_size = 24, free_lock = False,
        free_list = NULL, n_allocs = 0, n_pools = 1, n_chunks = 0,
        mem = \<lparr>ranges = [(4096, 8192)], words = (\<lambda>_. 0)\<rparr>\<rparr>"] env_linux_ok
  by simp

end
