(* ===== verification/Base_Alloc_Global.thy ===== *)
theory Base_Alloc_Global
  imports Base_Alloc_Properties
begin

text \<open>
  The global base allocator (\<open>base_alloc/base_alloc_global.c\<close>): five size classes, each served by
  a pool of the base allocator, larger requests by mapped memory, and a word of metadata in
  front of every block that holds the total size and the distance of the user's pointer from
  the block. The state is the table of classes and the memory mapped for large requests.
\<close>

section \<open>Definitions\<close>

definition ALLOC_METADATA_SIZE :: u64 where
  "ALLOC_METADATA_SIZE = 8"

definition ALLOCATION_CLASSES :: "u64 list" where
  "ALLOCATION_CLASSES = [16, 32, 64, 128, 256]"

definition NUM_ALLOCATION_CLASSES :: nat where
  "NUM_ALLOCATION_CLASSES = 5"

record base_alloc_t =
  ac_sizes :: "u64 list"
  ac :: "umf_ba_pool_t option list"
  smallest_ac_size_log2 :: u64
  os_blocks :: os_mem

definition BASE_ALLOC :: base_alloc_t where
  "BASE_ALLOC = \<lparr>ac_sizes = ALLOCATION_CLASSES, ac = replicate NUM_ALLOCATION_CLASSES None,
     smallest_ac_size_log2 = 0, os_blocks = \<lparr>ranges = [], words = (\<lambda>_. 0)\<rparr>\<rparr>"

text \<open>The classes are destroyed in turn; a class that was not created is skipped.\<close>

fun destroy_classes :: "bool \<Rightarrow> umf_ba_pool_t option list \<Rightarrow> umf_ba_pool_t option list option" where
  "destroy_classes proxy [] = Some []"
| "destroy_classes proxy (None # ps) = do { ps \<leftarrow> destroy_classes proxy ps; Some (None # ps) }"
| "destroy_classes proxy (Some p # ps) = do {
     _ \<leftarrow> umf_ba_destroy proxy p;
     ps \<leftarrow> destroy_classes proxy ps;
     Some (None # ps)
   }"

definition umf_ba_destroy_global :: "bool \<Rightarrow> base_alloc_t \<Rightarrow> base_alloc_t option" where
  "umf_ba_destroy_global proxy st = do {
     ps \<leftarrow> destroy_classes proxy (ac st);
     Some (st\<lparr>ac := ps\<rparr>)
   }"

text \<open>\<open>os\<close> gives for each class the address \<open>mmap\<close> returns and whether the mutex is initialised.\<close>

fun create_classes :: "ba_env \<Rightarrow> (ptr \<times> bool) list \<Rightarrow> u64 list \<Rightarrow> umf_ba_pool_t option list option" where
  "create_classes env os [] = Some []"
| "create_classes env [] (s # ss) = None"
| "create_classes env ((mmap, mutex) # os) (s # ss) = do {
     guard (s AND (s - 1) = 0);
     p \<leftarrow> umf_ba_create env mmap mutex s;
     ps \<leftarrow> create_classes env os ss;
     Some (p # ps)
   }"

definition umf_ba_create_global :: "ba_env \<Rightarrow> (ptr \<times> bool) list \<Rightarrow> base_alloc_t \<Rightarrow> base_alloc_t option" where
  "umf_ba_create_global env os st = do {
     ps \<leftarrow> create_classes env os (ac_sizes st);
     lg \<leftarrow> log2Utils (ac_sizes st ! 0);
     Some (st\<lparr>ac := ps, smallest_ac_size_log2 := lg\<rparr>)
   }"

definition size_to_idx :: "base_alloc_t \<Rightarrow> u64 \<Rightarrow> int option" where
  "size_to_idx st sz =
     (if sz \<le> ac_sizes st ! 0 then Some 0
      else do {
        lg \<leftarrow> log2Utils sz;
        let isPowerOf2 = (sz AND (sz - 1) = 0);
        let index = sint (ucast (lg + (if isPowerOf2 then 0 else 1) - smallest_ac_size_log2 st) :: 32 word);
        guard (0 \<le> index);
        Some index
      })"

text \<open>The metadata word is written to the memory \<open>m\<close> that holds the block.\<close>

definition add_metadata_and_align :: "os_mem \<Rightarrow> ptr \<Rightarrow> u64 \<Rightarrow> u64 \<Rightarrow> (ptr \<times> os_mem) option" where
  "add_metadata_and_align m ptr sz alignment = do {
     guard (sz < push_bit 32 1);
     guard (alignment < push_bit 32 1);
     guard (ptr \<noteq> NULL);
     let user_ptr =
       (if alignment \<le> ALLOC_METADATA_SIZE then of_nat ptr + ALLOC_METADATA_SIZE
        else ALIGN_UP (of_nat ptr + ALLOC_METADATA_SIZE) alignment);
     let ptr_offset_from_original = user_ptr - of_nat ptr;
     guard (ptr_offset_from_original < push_bit 32 1);
     let metadata_loc = user_ptr - ALLOC_METADATA_SIZE;
     m \<leftarrow> store m (unat metadata_loc) (unat (sz OR push_bit 32 ptr_offset_from_original));
     Some (unat user_ptr, m)
   }"

definition get_original_alloc :: "os_mem \<Rightarrow> ptr \<Rightarrow> (ptr \<times> u64 \<times> u64) option" where
  "get_original_alloc m user_ptr = do {
     guard (user_ptr \<noteq> NULL);
     let metadata_loc = of_nat user_ptr - ALLOC_METADATA_SIZE;
     w \<leftarrow> load m (unat metadata_loc);
     let stored_size = of_nat w AND (push_bit 32 1 - 1);
     let ptr_offset_from_original = drop_bit 32 (of_nat w :: u64);
     let original_ptr = of_nat user_ptr - ptr_offset_from_original;
     Some (unat original_ptr, stored_size, stored_size - ptr_offset_from_original)
   }"

definition alloc_from_os :: "ptr \<Rightarrow> base_alloc_t \<Rightarrow> u64 \<Rightarrow> u64 \<Rightarrow> (ptr \<times> base_alloc_t) option" where
  "alloc_from_os mmap st sz alignment =
     (let (p, m) = ba_os_alloc mmap (os_blocks st) sz in do {
        (u, m) \<leftarrow> add_metadata_and_align m p sz alignment;
        Some (u, st\<lparr>os_blocks := m\<rparr>)
      })"

definition umf_ba_global_aligned_alloc ::
  "ptr \<Rightarrow> base_alloc_t \<Rightarrow> u64 \<Rightarrow> u64 \<Rightarrow> (ptr \<times> base_alloc_t) option" where
  "umf_ba_global_aligned_alloc mmap st sz alignment =
     (if sz = 0 then Some (NULL, st)
      else do {
        let sz = sz + ALLOC_METADATA_SIZE;
        let sz = (if ALLOC_METADATA_SIZE < alignment then sz + alignment else sz);
        ac_index \<leftarrow> size_to_idx st sz;
        if int NUM_ALLOCATION_CLASSES \<le> ac_index then alloc_from_os mmap st sz alignment
        else case ac st ! nat ac_index of
          None \<Rightarrow> alloc_from_os mmap st sz alignment
        | Some pool \<Rightarrow> do {
            (p, pool) \<leftarrow> umf_ba_alloc mmap pool;
            (u, m) \<leftarrow> add_metadata_and_align (mem pool) p sz alignment;
            Some (u, st\<lparr>ac := (ac st)[nat ac_index := Some (pool\<lparr>mem := m\<rparr>)]\<rparr>)
          }
      })"

definition umf_ba_global_alloc :: "ptr \<Rightarrow> base_alloc_t \<Rightarrow> u64 \<Rightarrow> (ptr \<times> base_alloc_t) option" where
  "umf_ba_global_alloc mmap st sz = umf_ba_global_aligned_alloc mmap st sz ALLOC_METADATA_SIZE"

text \<open>The program has one address space: an address is looked up in the memory that maps it.\<close>

definition memories :: "base_alloc_t \<Rightarrow> os_mem list" where
  "memories st = os_blocks st # [mem p. Some p \<leftarrow> ac st]"

definition memory_of :: "base_alloc_t \<Rightarrow> ptr \<Rightarrow> os_mem option" where
  "memory_of st a = List.find (\<lambda>m. accessible m a) (memories st)"

definition original_alloc :: "base_alloc_t \<Rightarrow> ptr \<Rightarrow> (ptr \<times> u64 \<times> u64) option" where
  "original_alloc st u = do {
     m \<leftarrow> memory_of st (unat (of_nat u - ALLOC_METADATA_SIZE));
     get_original_alloc m u
   }"

definition free_to_os :: "base_alloc_t \<Rightarrow> ptr \<Rightarrow> u64 \<Rightarrow> base_alloc_t option" where
  "free_to_os st p sz = do { m \<leftarrow> ba_os_free (os_blocks st) p sz; Some (st\<lparr>os_blocks := m\<rparr>) }"

definition umf_ba_global_free :: "ba_env \<Rightarrow> base_alloc_t \<Rightarrow> ptr \<Rightarrow> base_alloc_t option" where
  "umf_ba_global_free env st ptr =
     (if ptr = NULL then Some st
      else do {
        (p, total_size, _) \<leftarrow> original_alloc st ptr;
        ac_index \<leftarrow> size_to_idx st total_size;
        if int NUM_ALLOCATION_CLASSES \<le> ac_index then free_to_os st p total_size
        else case ac st ! nat ac_index of
          None \<Rightarrow> free_to_os st p total_size
        | Some pool \<Rightarrow> do {
            pool \<leftarrow> umf_ba_free env pool p;
            Some (st\<lparr>ac := (ac st)[nat ac_index := Some pool]\<rparr>)
          }
      })"

definition umf_ba_global_malloc_usable_size :: "base_alloc_t \<Rightarrow> ptr \<Rightarrow> u64 option" where
  "umf_ba_global_malloc_usable_size st ptr =
     (if ptr = NULL then Some 0
      else do { (_, _, usable) \<leftarrow> original_alloc st ptr; Some usable })"

section \<open>The size class of a request\<close>

lemma bit_bounds:
  fixes w :: u64
  assumes "bit w p" "\<forall>j > p. \<not> bit w j"
  shows "2 ^ p \<le> unat w" "unat w < 2 ^ Suc p"
proof -
  have p: "p < 64" using assms(1) bit_imp_le_length [of w p] by simp
  have "take_bit (Suc p) w = w"
    by (rule bit_word_eqI) (use assms(2) in \<open>auto simp: bit_take_bit_iff less_Suc_eq_le simp flip: not_less\<close>)
  then have "unat w = take_bit (Suc p) (unat w)" by (metis unsigned_take_bit_eq)
  then show "unat w < 2 ^ Suc p" by (metis take_bit_nat_less_exp)
  have "bit (unat w) p" using assms(1) p by (simp add: bit_unsigned_iff)
  then have "odd (unat w div 2 ^ p)" by (simp add: bit_iff_odd)
  then show "2 ^ p \<le> unat w" by (metis div_less even_zero not_le)
qed

lemma bit_of_bounds:
  fixes w :: u64
  assumes "2 ^ p \<le> unat w" "unat w < 2 ^ Suc p" shows "bit w p"
proof -
  have "unat w div 2 ^ p = 1"
    using assms by (intro div_nat_eqI) (simp_all add: mult.commute)
  then have "bit (unat w) p" by (simp add: bit_iff_odd)
  then show ?thesis by (simp add: bit_unsigned_iff)
qed

lemma log2Utils_eq:
  assumes "num \<noteq> 0"
  obtains p where "log2Utils num = Some (of_nat p)" "p < 64" "2 ^ p \<le> unat num" "unat num < 2 ^ Suc p"
  using getLeftmostSetBitPos_eq [OF assms] bit_bounds by (metis log2Utils_def)

lemma pow2_test:
  fixes w :: u64
  assumes "2 ^ p \<le> unat w" "unat w < 2 ^ Suc p" "p < 64"
  shows "w AND (w - 1) = 0 \<longleftrightarrow> unat w = 2 ^ p"
proof
  assume "unat w = 2 ^ p"
  then have "w = 2 ^ p" using assms(3) by (intro unat_eqD64) simp
  then have "w AND (w - 1) = 2 ^ p AND mask p" by (simp add: exp_minus_one_mask)
  also have "\<dots> = 0" by (rule bit_word_eqI) (auto simp: bit_and_iff bit_exp_iff bit_mask_iff)
  finally show "w AND (w - 1) = 0" .
next
  assume z: "w AND (w - 1) = 0"
  show "unat w = 2 ^ p"
  proof (rule ccontr)
    assume "unat w \<noteq> 2 ^ p"
    with assms(1) have "2 ^ p \<le> unat w - 1" "unat w - 1 < 2 ^ Suc p" using assms(2) by auto
    moreover have "unat (w - 1) = unat w - 1"
      using assms(1) by (intro trans [OF unat_sub_u64]) (auto simp: Suc_le_eq intro: less_le_trans [of _ "2 ^ p"])
    ultimately have "bit (w - 1) p" "bit w p"
      using assms(1,2) bit_of_bounds by metis+
    then show False using z by (metis bit_and_iff bit_0_eq bot_apply bot_bool_def)
  qed
qed

text \<open>The table after initialisation, whatever classes could be created.\<close>

definition classes_ready :: "base_alloc_t \<Rightarrow> bool" where
  "classes_ready st \<longleftrightarrow> ac_sizes st = ALLOCATION_CLASSES \<and> length (ac st) = NUM_ALLOCATION_CLASSES \<and>
     smallest_ac_size_log2 st = 4"

lemma small_int:
  assumes "k < 2 ^ 31" shows "sint (ucast (of_nat k :: u64) :: 32 word) = int k"
proof -
  have "uint (of_nat k :: u64) = int (unat (of_nat k :: u64))" by (simp only: uint_nat)
  also have "\<dots> = int k" using assms by (simp add: unat_of_nat_u64 del: unat_of_nat)
  finally have "sint (ucast (of_nat k :: u64) :: 32 word) = signed_take_bit 31 (int k)"
    by (simp only: signed_ucast_eq) simp
  also have "\<dots> = int k" using assms by (intro signed_take_bit_int_eq_self) simp_all
  finally show ?thesis .
qed

lemma size_to_idx_eq:
  assumes "classes_ready st"
  obtains i where "size_to_idx st sz = Some (int i)" "unat sz \<le> 2 ^ (4 + i)"
    "i \<noteq> 0 \<longrightarrow> 2 ^ (3 + i) < unat sz" "i \<le> 60"
proof (cases "sz \<le> 16")
  case True
  then have "size_to_idx st sz = Some (int 0)"
    using assms by (simp add: size_to_idx_def classes_ready_def ALLOCATION_CLASSES_def)
  moreover have "unat sz \<le> 16" using True by (simp add: word_le_nat_alt)
  ultimately show thesis by (intro that [of 0]) simp_all
next
  case False
  then have gt: "16 < unat sz" by (simp add: word_le_nat_alt)
  then have "sz \<noteq> 0" by auto
  then obtain p where p: "log2Utils sz = Some (of_nat p)" "p < 64" "2 ^ p \<le> unat sz" "unat sz < 2 ^ Suc p"
    by (rule log2Utils_eq)
  have "(2 :: nat) ^ 4 < 2 ^ Suc p" using gt p(4) by simp
  then have p4: "4 \<le> p" by (metis less_Suc_eq_le one_less_numeral_iff power_strict_increasing_iff semiring_norm(76))
  define i where "i = p + (if unat sz = 2 ^ p then 0 else 1) - 4"
  have i64: "i < 64" "i \<le> 60" using p(2) by (auto simp: i_def)
  have "size_to_idx st sz = Some (int i)"
  proof -
    have w: "(of_nat p + (if unat sz = 2 ^ p then 0 else 1) - 4 :: u64) = of_nat i"
      using p4 by (simp add: i_def of_nat_diff)
    have "sint (ucast (of_nat p + (if unat sz = 2 ^ p then 0 else 1) - 4 :: u64) :: 32 word) = int i"
      unfolding w by (rule small_int) (use i64(1) in simp)
    then show ?thesis
      using assms False p(1) pow2_test [OF p(3,4,2)]
      by (simp add: size_to_idx_def classes_ready_def ALLOCATION_CLASSES_def)
  qed
  moreover have "unat sz \<le> 2 ^ (4 + i)" "i \<noteq> 0 \<longrightarrow> 2 ^ (3 + i) < unat sz"
    using p p4 by (auto simp: i_def less_imp_le split: if_splits)
  ultimately show thesis using i64(2) by (intro that [of i])
qed

section \<open>Metadata\<close>

lemma decode_metadata:
  fixes sz off :: u64
  assumes "unat sz < 2 ^ 32" "unat off < 2 ^ 32"
  shows "(sz OR push_bit 32 off) AND (push_bit 32 1 - 1) = sz" "drop_bit 32 (sz OR push_bit 32 off) = off"
proof -
  have sz: "take_bit 32 sz = sz"
    using assms(1) by (intro unat_eqD64) (simp add: unsigned_take_bit_eq take_bit_nat_eq_self)
  have off: "take_bit 32 off = off"
    using assms(2) by (intro unat_eqD64) (simp add: unsigned_take_bit_eq take_bit_nat_eq_self)
  have bsz: "\<not> bit sz (n + 32)" for n
    using sz by (metis bit_take_bit_iff not_add_less2)
  have boff: "bit off n \<Longrightarrow> n < 32" for n
    using off by (metis bit_take_bit_iff)
  have m: "(push_bit 32 1 - 1 :: u64) = mask 32" by (simp add: mask_eq_exp_minus_1)
  have "(sz OR push_bit 32 off) AND mask 32 = take_bit 32 (sz OR push_bit 32 off)"
    by (simp only: take_bit_eq_mask)
  also have "\<dots> = take_bit 32 sz"
    by (rule bit_word_eqI) (auto simp: bit_take_bit_iff bit_or_iff bit_push_bit_iff)
  finally show "(sz OR push_bit 32 off) AND (push_bit 32 1 - 1) = sz" by (simp only: m sz)
  show "drop_bit 32 (sz OR push_bit 32 off) = off"
    by (rule bit_word_eqI) (use bsz boff in \<open>auto simp: bit_drop_bit_eq bit_or_iff bit_push_bit_iff add.commute\<close>)
qed

definition extra :: "u64 \<Rightarrow> nat" where
  "extra alignment = 8 + (if 8 < unat alignment then unat alignment else 0)"

lemma user_pointer:
  assumes al: "unat alignment \<le> 8 \<or> (\<exists>k < 32. alignment = 2 ^ k)"
    and p: "8 dvd p" "p + extra alignment < 2 ^ 64"
  defines "u \<equiv> if alignment \<le> ALLOC_METADATA_SIZE then of_nat p + ALLOC_METADATA_SIZE
        else ALIGN_UP (of_nat p + ALLOC_METADATA_SIZE) alignment"
  shows "p + 8 \<le> unat u" "unat u \<le> p + extra alignment" "8 dvd unat u"
    "8 < unat alignment \<Longrightarrow> unat alignment dvd unat u"
proof -
  have p8: "unat (of_nat p + 8 :: u64) = p + 8"
    using p(2) unat_add_u64 [of "of_nat p" 8] by (simp add: unat_of_nat_u64 extra_def del: unat_of_nat)
  have "p + 8 \<le> unat u \<and> unat u \<le> p + extra alignment \<and> 8 dvd unat u \<and>
    (8 < unat alignment \<longrightarrow> unat alignment dvd unat u)"
  proof (cases "unat alignment \<le> 8")
    case True
    then have "u = of_nat p + 8" by (simp add: u_def ALLOC_METADATA_SIZE_def word_le_nat_alt)
    then show ?thesis using p8 p(1) True by (simp add: extra_def)
  next
    case False
    then obtain k where k: "k < 32" "alignment = 2 ^ k" using al by auto
    then have a: "unat alignment = 2 ^ k" by simp
    then have "(2 :: nat) ^ 3 < 2 ^ k" using False by simp
    then have "3 \<le> k" by (metis less_imp_le one_less_numeral_iff power_strict_increasing_iff semiring_norm(76))
    then have d8: "(8 :: nat) dvd 2 ^ k" using le_imp_power_dvd [of 3 k 2] by simp
    have "u = ALIGN_UP (of_nat p + 8) (2 ^ k)"
      using False k(2) by (simp add: u_def ALLOC_METADATA_SIZE_def word_le_nat_alt)
    then have u: "unat u = (p + 8 + 2 ^ k - 1) div 2 ^ k * 2 ^ k"
      using unat_ALIGN_UP [of k "of_nat p + 8"] k(1) p8 p(2) False a by (simp add: extra_def)
    then have dv: "2 ^ k dvd unat u" by simp
    then have "8 dvd unat u" using d8 dvd_trans by blast
    then show ?thesis
      using dv a False round_up_least(1,2) [of "2 ^ k" "p + 8"] by (simp add: u extra_def)
  qed
  then show "p + 8 \<le> unat u" "unat u \<le> p + extra alignment" "8 dvd unat u"
    "8 < unat alignment \<Longrightarrow> unat alignment dvd unat u" by simp_all
qed

definition alignment_ok :: "u64 \<Rightarrow> bool" where
  "alignment_ok alignment \<longleftrightarrow> unat alignment \<le> 8 \<or> (\<exists>k < 31. alignment = 2 ^ k)"

lemma metadata_roundtrip:
  assumes al: "alignment_ok alignment" and p: "0 < p" "8 dvd p"
    and sz: "extra alignment < unat sz" "unat sz < 2 ^ 32" "p + unat sz < 2 ^ 64"
    and acc: "\<And>a. p \<le> a \<Longrightarrow> a + 8 \<le> p + unat sz \<Longrightarrow> 8 dvd a \<Longrightarrow> accessible m a"
  obtains u v where
    "add_metadata_and_align m p sz alignment = Some (u, m\<lparr>words := (words m)(u - 8 := v)\<rparr>)"
    "p + 8 \<le> u" "u + (unat sz - extra alignment) \<le> p + unat sz" "8 dvd u"
    "8 < unat alignment \<Longrightarrow> unat alignment dvd u"
    "\<And>m'. accessible m' (u - 8) \<Longrightarrow> words m' (u - 8) = v \<Longrightarrow>
       get_original_alloc m' u = Some (p, sz, sz - of_nat (u - p))"
proof -
  define w where "w = (if alignment \<le> ALLOC_METADATA_SIZE then of_nat p + ALLOC_METADATA_SIZE
        else ALIGN_UP (of_nat p + ALLOC_METADATA_SIZE) alignment :: u64)"
  have a32: "unat alignment < 2 ^ 32"
  proof -
    have "(2 :: nat) ^ k < 2 ^ 32" if "k < 31" for k using that by (intro power_strict_increasing) auto
    then show ?thesis using al by (auto simp: alignment_ok_def)
  qed
  have ex: "p + extra alignment < 2 ^ 64" using sz by simp
  have al': "unat alignment \<le> 8 \<or> (\<exists>k < 32. alignment = 2 ^ k)"
    using al less_trans [of _ 31 "32 :: nat"] unfolding alignment_ok_def by fastforce
  note up = user_pointer [OF al' p(2) ex, folded w_def]
  define off where "off = w - of_nat p"
  have off: "unat off = unat w - p"
    unfolding off_def using up(1) ex by (subst unat_sub_u64) (simp_all add: unat_of_nat_u64 del: unat_of_nat)
  have off32: "unat off < 2 ^ 32" using off up(2) sz by simp
  have loc: "unat (w - ALLOC_METADATA_SIZE) = unat w - 8"
    unfolding ALLOC_METADATA_SIZE_def using up(1) by (subst unat_sub_u64) simp_all
  define v where "v = unat (sz OR push_bit 32 off)"
  have "accessible m (unat w - 8)"
    using acc [of "unat w - 8"] up(1-3) sz(1) by (simp add: dvd_diff_nat)
  moreover have "(push_bit 32 1 :: u64) = 2 ^ 32" by simp
  ultimately have add: "add_metadata_and_align m p sz alignment =
      Some (unat w, m\<lparr>words := (words m)(unat w - 8 := v)\<rparr>)"
    using sz(2) a32 p(1) off32
    by (simp add: add_metadata_and_align_def store_def word_less_nat_alt v_def loc
        flip: w_def off_def)
  have get: "get_original_alloc m' (unat w) = Some (p, sz, sz - of_nat (unat w - p))"
    if "accessible m' (unat w - 8)" "words m' (unat w - 8) = v" for m'
  proof -
    have "p < 2 ^ 64" using ex by simp
    then have "unat (w - off) = p" by (simp add: off_def unat_of_nat_u64 del: unat_of_nat)
    moreover have "off = of_nat (unat w - p)" by (simp add: off [symmetric])
    ultimately show ?thesis
      using that loc up(1) decode_metadata [OF sz(2) off32]
      by (simp add: get_original_alloc_def load_def v_def)
  qed
  show thesis
    by (rule that [OF add]) (use up sz(1) get in auto)
qed

end
