(* ===== verification/Base_Alloc_Classes.thy ===== *)
theory Base_Alloc_Classes
  imports Base_Alloc_Global
begin

text \<open>
  The state of the global base allocator across requests: which chunks of each class are handed
  out, that the memories of the classes do not overlap, and the round trip of a small request
  through metadata, size class and pool. The laws of the chunk allocator are used through the
  interpretation of its locale.
\<close>

section \<open>Writing into a chunk that is handed out\<close>

lemma ba_ok_chunk:
  assumes "ba_ok env P A" "c \<in> A"
  shows "8 dvd c" "0 < c" "c + unat (chunk_size P) < 2 ^ 64"
    "\<And>a. c \<le> a \<Longrightarrow> a + 8 \<le> c + unat (chunk_size P) \<Longrightarrow> 8 dvd a \<Longrightarrow> accessible (mem P) a"
proof -
  from assms(1) obtain fl qs where rep: "ba_rep env P A fl qs" by (auto simp: ba_ok_def)
  then have g: "geometry env P" and pl: "\<forall>p \<in> set (base P # qs). placed P p"
    and c: "c \<in> set (pool_slots env P qs)" using assms(2) by (auto simp: ba_rep_def layout_def)
  from pool_slots_in [OF g c pl] obtain p where p: "p \<in> set (base P # qs)" "p + 8 \<le> c"
    "c + unat (chunk_size P) \<le> p + unat (pool_size P)" "8 dvd c" by metis
  show "8 dvd c" "0 < c" using p by auto
  show "c + unat (chunk_size P) < 2 ^ 64" using p pl by (auto simp: placed_def)
  have "(p, pool_size P) \<in> set (ranges (mem P))" using p(1) rep by (auto simp: ba_rep_def)
  then show "accessible (mem P) a"
    if "c \<le> a" "a + 8 \<le> c + unat (chunk_size P)" "8 dvd a" for a
    by (rule accessibleI) (use that p in simp_all)
qed

lemma ba_ok_write:
  assumes ok: "ba_ok env P A" and c: "c \<in> A" and a: "c \<le> a" "a < c + unat (chunk_size P)"
  shows "ba_ok env (P\<lparr>mem := (mem P)\<lparr>words := (words (mem P))(a := v)\<rparr>\<rparr>) A"
proof -
  from ok obtain fl qs where unl: "\<not> free_lock P" and rep: "ba_rep env P A fl qs"
    by (auto simp: ba_ok_def)
  then have lay: "layout env P qs" and sl: "c \<in> set (pool_slots env P qs)"
    and fl: "links (mem P) (free_list P) fl" and nx: "links (mem P) (next_pool P) qs"
    and fs: "set fl \<subseteq> set (pool_slots env P qs)" "c \<notin> set fl"
    using c by (auto simp: ba_rep_def)
  let ?m = "(mem P)\<lparr>words := (words (mem P))(a := v)\<rparr>"
  have "x \<noteq> a" if x: "x \<in> set fl" for x
  proof -
    have "x \<in> set (pool_slots env P qs)" "c \<noteq> x" using x fs by auto
    from pool_slots_apart [OF lay sl this] ba_rep_nonnull [OF rep c] a show ?thesis
      by (auto simp: apart_def)
  qed
  then have "links ?m (free_list P) fl" by (intro links_cong [OF _ _ fl]) auto
  moreover have "q \<noteq> a" if q: "q \<in> set qs" for q
  proof -
    have g: "geometry env P" and pl: "\<forall>p \<in> set (base P # qs). placed P p"
      using lay by (auto simp: layout_def)
    from pool_slots_in [OF g sl pl] obtain p where p: "p \<in> set (base P # qs)" "p + 8 \<le> c"
      "c + unat (chunk_size P) \<le> p + unat (pool_size P)" by metis
    have "p = q \<or> apart (unat (pool_size P)) p q"
      using lay p(1) q apart_sym unfolding layout_def
      by (intro sorted_wrt_sym [where xs = "qs @ [base P]"]) auto
    then show ?thesis using p a unfolding apart_def by auto
  qed
  then have "links ?m (next_pool P) qs" by (intro links_cong [OF _ _ nx]) auto
  ultimately have "ba_rep env (P\<lparr>mem := ?m\<rparr>) A fl qs"
    using rep by (simp add: ba_rep_def)
  then show ?thesis using unl by (auto simp: ba_ok_def)
qed

section \<open>The state of the global allocator\<close>

definition class_mem :: "base_alloc_t \<Rightarrow> nat \<Rightarrow> ptr \<Rightarrow> bool" where
  "class_mem st i a \<longleftrightarrow> (\<exists>P. ac st ! i = Some P \<and> accessible (mem P) a)"

definition global_ok :: "ba_env \<Rightarrow> base_alloc_t \<Rightarrow> (nat \<Rightarrow> ptr set) \<Rightarrow> bool" where
  "global_ok env st As \<longleftrightarrow> classes_ready st \<and>
     (\<forall>i < 5. \<forall>P. ac st ! i = Some P \<longrightarrow> ba_ok env P (As i) \<and> unat (chunk_size P) = 2 ^ (4 + i)) \<and>
     (\<forall>i < 5. \<forall>j < 5. \<forall>a. class_mem st i a \<longrightarrow> class_mem st j a \<longrightarrow> i = j) \<and>
     (\<forall>i < 5. \<forall>a. class_mem st i a \<longrightarrow> \<not> accessible (os_blocks st) a)"

text \<open>Fresh memory for class \<open>i\<close>: the range the system maps is not part of another memory.\<close>

definition class_usable :: "base_alloc_t \<Rightarrow> nat \<Rightarrow> umf_ba_pool_t \<Rightarrow> ptr \<Rightarrow> bool" where
  "class_usable st i P mmap \<longleftrightarrow> ba_usable mmap P \<and>
     (free_list P = NULL \<longrightarrow>
       (\<forall>a. in_range_of (mmap, pool_size P) a 8 \<longrightarrow>
          \<not> accessible (os_blocks st) a \<and> (\<forall>j < 5. j \<noteq> i \<longrightarrow> \<not> class_mem st j a)))"

lemma find_unique:
  assumes "x \<in> set xs" "Q x" "\<And>y. y \<in> set xs \<Longrightarrow> Q y \<Longrightarrow> y = x"
  shows "List.find Q xs = Some x"
proof (cases "List.find Q xs")
  case None
  then show ?thesis using assms(1,2) by (auto simp: find_None_iff)
next
  case (Some y)
  then have "y \<in> set xs" "Q y" by (auto simp: find_Some_iff)
  then show ?thesis using Some assms(3) by simp
qed

lemma memory_of_class:
  assumes ok: "global_ok env st As" and i: "i < 5" "ac st ! i = Some P" "accessible (mem P) a"
  shows "memory_of st a = Some (mem P)"
proof -
  have len: "length (ac st) = 5"
    using ok by (simp add: global_ok_def classes_ready_def NUM_ALLOCATION_CLASSES_def)
  have ci: "class_mem st i a" using i by (auto simp: class_mem_def)
  then have os: "\<not> accessible (os_blocks st) a" using ok i(1) by (auto simp: global_ok_def)
  have one: "Q = P" if "Some Q \<in> set (ac st)" "accessible (mem Q) a" for Q
  proof -
    from that(1) obtain j where j: "j < 5" "ac st ! j = Some Q" using len by (auto simp: in_set_conv_nth)
    then have "class_mem st j a" using that(2) by (auto simp: class_mem_def)
    then have "i = j" using ok ci i(1) j(1) by (auto simp: global_ok_def)
    then show ?thesis using i(2) j(2) by simp
  qed
  have "Some P \<in> set (ac st)" using i len by (metis nth_mem)
  then have mem: "mem P \<in> set (memories st)" by (force simp: memories_def)
  have uniq: "m = mem P" if "m \<in> set (memories st)" "accessible m a" for m
  proof -
    from that os obtain Q where "Some Q \<in> set (ac st)" "m = mem Q"
      by (auto simp: memories_def split: option.splits)
    then show ?thesis using one [of Q] that(2) by simp
  qed
  show ?thesis unfolding memory_of_def by (rule find_unique [where Q = "\<lambda>m. accessible m a", OF mem i(3) uniq])
qed

lemma class_update:
  assumes ok: "global_ok env st As" and i: "i < 5" and P: "ac st ! i = Some P"
    and P': "ba_ok env P' B" "unat (chunk_size P') = unat (chunk_size P)"
    and mm: "\<And>a. accessible (mem P') a \<Longrightarrow> accessible (mem P) a \<or>
       \<not> accessible (os_blocks st) a \<and> (\<forall>j < 5. j \<noteq> i \<longrightarrow> \<not> class_mem st j a)"
  shows "global_ok env (st\<lparr>ac := (ac st)[i := Some P']\<rparr>) (As(i := B))"
proof -
  let ?st = "st\<lparr>ac := (ac st)[i := Some P']\<rparr>"
  have len: "length (ac st) = 5"
    using ok by (simp add: global_ok_def classes_ready_def NUM_ALLOCATION_CLASSES_def)
  have other: "class_mem ?st j a = class_mem st j a" if "j \<noteq> i" for j a
    using that by (simp add: class_mem_def)
  have own: "class_mem ?st i a \<Longrightarrow> class_mem st i a \<or>
       \<not> accessible (os_blocks st) a \<and> (\<forall>j < 5. j \<noteq> i \<longrightarrow> \<not> class_mem st j a)" for a
    using mm i len P by (auto simp: class_mem_def)
  have "j = k" if "j < 5" "k < 5" "class_mem ?st j a" "class_mem ?st k a" for j k a
    using that other own [of a] ok i by (cases "j = i"; cases "k = i") (auto simp: global_ok_def)
  moreover have "\<not> accessible (os_blocks st) a" if "j < 5" "class_mem ?st j a" for j a
    using that other own [of a] ok i by (cases "j = i") (auto simp: global_ok_def)
  moreover have "ba_ok env Q ((As(i := B)) j) \<and> unat (chunk_size Q) = 2 ^ (4 + j)"
    if "j < 5" "ac ?st ! j = Some Q" for j Q
    using that ok i P P' len by (cases "j = i") (auto simp: global_ok_def)
  ultimately show ?thesis
    using ok by (simp add: global_ok_def classes_ready_def)
qed

section \<open>The round trip of a small request\<close>

lemma less_5_cases: "j < (5 :: nat) \<Longrightarrow> j = 0 \<or> j = 1 \<or> j = 2 \<or> j = 3 \<or> j = 4"
  by arith

lemma small_class:
  assumes "classes_ready st" "unat sz \<le> 256"
  obtains i where "size_to_idx st sz = Some (int i)" "unat sz \<le> 2 ^ (4 + i)" "i < 5"
proof -
  obtain i where i: "size_to_idx st sz = Some (int i)" "unat sz \<le> 2 ^ (4 + i)"
    "i \<noteq> 0 \<longrightarrow> 2 ^ (3 + i) < unat sz" by (rule size_to_idx_eq [OF assms(1)])
  have "i < 5"
  proof (rule ccontr)
    assume "\<not> i < 5"
    then have "(2 :: nat) ^ 8 \<le> 2 ^ (3 + i)" by (intro power_increasing) auto
    then show False using i(3) assms(2) \<open>\<not> i < 5\<close> by simp
  qed
  with i that show thesis by blast
qed

lemma total_size:
  assumes "unat sz + extra alignment < 2 ^ 64"
  defines "t \<equiv> (if ALLOC_METADATA_SIZE < alignment then sz + ALLOC_METADATA_SIZE + alignment
        else sz + ALLOC_METADATA_SIZE)"
  shows "unat t = unat sz + extra alignment"
proof -
  have "unat (sz + 8) = unat sz + 8"
    using assms(1) unat_add_u64 [of sz 8] by (simp add: extra_def split: if_splits)
  then show ?thesis
    using assms(1) unat_add_u64 [of "sz + 8" alignment]
    by (simp add: t_def ALLOC_METADATA_SIZE_def word_less_nat_alt extra_def split: if_splits)
qed

lemma global_alloc_small:
  assumes ok: "global_ok env st As" and al: "alignment_ok alignment"
    and sz: "0 < unat sz" "unat sz + extra alignment \<le> 256"
    and idx: "size_to_idx st (if ALLOC_METADATA_SIZE < alignment then sz + ALLOC_METADATA_SIZE + alignment
        else sz + ALLOC_METADATA_SIZE) = Some (int i)" "unat sz + extra alignment \<le> 2 ^ (4 + i)" "i < 5"
    and P: "ac st ! i = Some P" "class_usable st i P mmap"
  obtains u c st' P' where
    "umf_ba_global_aligned_alloc mmap st sz alignment = Some (u, st')"
    "global_ok env st' (As(i := insert c (As i)))" "c \<notin> As i"
    "c + 8 \<le> u" "u + unat sz \<le> c + 2 ^ (4 + i)" "8 dvd u"
    "8 < unat alignment \<Longrightarrow> unat alignment dvd u"
    "ac st' ! i = Some P'" "ba_ok env P' (insert c (As i))"
    "original_alloc st' u = Some (c, (if ALLOC_METADATA_SIZE < alignment then
        sz + ALLOC_METADATA_SIZE + alignment else sz + ALLOC_METADATA_SIZE), of_nat (unat sz + extra alignment - (u - c)))"
    "u \<le> c + extra alignment"
proof -
  define t where "t = (if ALLOC_METADATA_SIZE < alignment then sz + ALLOC_METADATA_SIZE + alignment
        else sz + ALLOC_METADATA_SIZE)"
  have t: "unat t = unat sz + extra alignment"
    unfolding t_def using sz(2) by (intro total_size) simp
  have cr: "classes_ready st" using ok by (simp add: global_ok_def)
  have okP: "ba_ok env P (As i)" "unat (chunk_size P) = 2 ^ (4 + i)"
    using ok idx(3) P(1) by (auto simp: global_ok_def)
  have us: "free_list P = NULL \<Longrightarrow> ba_fresh P mmap" using P(2) by (auto simp: class_usable_def ba_usable_def)
  obtain c P1 where a: "umf_ba_alloc mmap P = Some (c, P1)" "c \<notin> As i" "ba_ok env P1 (insert c (As i))"
    "chunk_size P1 = chunk_size P"
    "ranges (mem P1) = ranges (mem P) \<or> free_list P = NULL \<and> ranges (mem P1) = (mmap, pool_size P) # ranges (mem P)"
    by (rule ba_alloc_rep [OF okP(1) us])
  note ch = ba_ok_chunk [OF a(3), of c, simplified]
  have cs: "unat (chunk_size P1) = 2 ^ (4 + i)" using okP(2) a(4) by simp
  have tle: "unat t \<le> unat (chunk_size P1)" using t idx(2) cs by simp
  obtain u v where u: "add_metadata_and_align (mem P1) c t alignment =
        Some (u, (mem P1)\<lparr>words := (words (mem P1))(u - 8 := v)\<rparr>)"
    "c + 8 \<le> u" "u + (unat t - extra alignment) \<le> c + unat t" "8 dvd u"
    "8 < unat alignment \<Longrightarrow> unat alignment dvd u"
    "\<And>m'. accessible m' (u - 8) \<Longrightarrow> words m' (u - 8) = v \<Longrightarrow>
       get_original_alloc m' u = Some (c, t, t - of_nat (u - c))"
  proof (rule metadata_roundtrip [OF al ch(2) ch(1), of t "mem P1"])
    show "accessible (mem P1) a" if "c \<le> a" "a + 8 \<le> c + unat t" "8 dvd a" for a
      using ch(4) [of a] that tle by simp
  qed (use t sz ch(3) tle in auto)
  let ?m = "(mem P1)\<lparr>words := (words (mem P1))(u - 8 := v)\<rparr>"
  define P' where "P' = P1\<lparr>mem := ?m\<rparr>"
  define st' where "st' = st\<lparr>ac := (ac st)[i := Some P']\<rparr>"
  have len: "length (ac st) = 5"
    using cr by (simp add: classes_ready_def NUM_ALLOCATION_CLASSES_def)
  have loc: "c \<le> u - 8" "u \<le> c + unat (chunk_size P1)" "8 dvd u - 8"
    using u(2,3,4) tle by (auto simp: dvd_diff_nat)
  have acc: "accessible (mem P1) (u - 8)" using ch(4) [of "u - 8"] loc u(2) by simp
  have okP': "ba_ok env P' (insert c (As i))"
    unfolding P'_def by (rule ba_ok_write [OF a(3), of c]) (use loc u(2) in auto)
  have ok': "global_ok env st' (As(i := insert c (As i)))"
    unfolding st'_def
  proof (rule class_update [OF ok idx(3) P(1) okP'])
    show "accessible (mem P) x \<or> \<not> accessible (os_blocks st) x \<and> (\<forall>j < 5. j \<noteq> i \<longrightarrow> \<not> class_mem st j x)"
      if "accessible (mem P') x" for x
      using that a(5) P(2) by (auto simp: P'_def accessible_def class_usable_def)
  qed (simp add: P'_def a(4))
  have alloc: "umf_ba_global_aligned_alloc mmap st sz alignment = Some (u, st')"
    using sz(1) idx(1,3) P(1) a(1) u(1)
    by (simp add: umf_ba_global_aligned_alloc_def Let_def NUM_ALLOCATION_CLASSES_def st'_def P'_def
        unat_eq_0 [symmetric] flip: t_def)
  have ac': "ac st' ! i = Some P'" using len idx(3) by (simp add: st'_def)
  have u64: "u < 2 ^ 64" using loc(2) ch(3) by simp
  then have "unat (of_nat u - ALLOC_METADATA_SIZE) = u - 8"
    using u(2) by (simp add: ALLOC_METADATA_SIZE_def unat_sub_u64 unat_of_nat_u64 del: unat_of_nat)
  moreover have "memory_of st' (u - 8) = Some ?m"
    using memory_of_class [OF ok' idx(3) ac', of "u - 8"] acc by (simp add: P'_def)
  moreover have "t = of_nat (unat sz + extra alignment)" by (simp flip: t)
  then have "t - of_nat (u - c) = of_nat (unat sz + extra alignment - (u - c))"
    using t u(3) by (simp add: of_nat_diff)
  ultimately have orig: "original_alloc st' u =
      Some (c, t, of_nat (unat sz + extra alignment - (u - c)))"
    using u(6) [of ?m] acc by (simp add: original_alloc_def)
  have sum: "u + unat sz \<le> c + 2 ^ (4 + i)" "u \<le> c + extra alignment"
    using u(3) t idx(2) by simp_all
  show thesis
    by (rule that [OF alloc ok' a(2) u(2) sum(1) u(4,5) ac' okP' orig [unfolded t_def] sum(2)])
qed

lemma global_free_small:
  assumes ok: "global_ok env st As" and u: "u \<noteq> NULL" "original_alloc st u = Some (c, t, us)"
    and idx: "size_to_idx st t = Some (int i)" "i < 5" and P: "ac st ! i = Some P" and c: "c \<in> As i"
  obtains st' where "umf_ba_global_free env st u = Some st'" "global_ok env st' (As(i := As i - {c}))"
proof -
  have okP: "ba_ok env P (As i)" using ok idx(2) P by (auto simp: global_ok_def)
  obtain P' where P': "umf_ba_free env P c = Some P'" "ba_ok env P' (As i - {c})"
    "chunk_size P' = chunk_size P" "ranges (mem P') = ranges (mem P)"
    by (rule ba_free_rep [OF okP c])
  have "global_ok env (st\<lparr>ac := (ac st)[i := Some P']\<rparr>) (As(i := As i - {c}))"
    by (rule class_update [OF ok idx(2) P P'(2)]) (use P'(3,4) in \<open>auto simp: accessible_def\<close>)
  moreover have "umf_ba_global_free env st u = Some (st\<lparr>ac := (ac st)[i := Some P']\<rparr>)"
    using u idx P P'(1) by (simp add: umf_ba_global_free_def NUM_ALLOCATION_CLASSES_def)
  ultimately show thesis using that by blast
qed

section \<open>Properties\<close>

text \<open>The size class of a request is the smallest class that is large enough: the index that
  \<open>size_to_idx\<close> returns (never a failed assertion) is below five exactly for sizes up to 256, the
  class at that index has room for the size, and the class below has not.\<close>

theorem size_to_idx_smallest_class:
  assumes "classes_ready st"
  shows "\<exists>i. size_to_idx st sz = Some (int i) \<and> (i < 5 \<longleftrightarrow> unat sz \<le> 256) \<and>
    (i < 5 \<longrightarrow> sz \<le> ac_sizes st ! i \<and> (\<forall>j < i. ac_sizes st ! j < sz))"
proof -
  obtain i where i: "size_to_idx st sz = Some (int i)" "unat sz \<le> 2 ^ (4 + i)"
    "i \<noteq> 0 \<longrightarrow> 2 ^ (3 + i) < unat sz" by (rule size_to_idx_eq [OF assms])
  have cls: "unat (ac_sizes st ! j) = 2 ^ (4 + j)" if "j < 5" for j
    using less_5_cases [OF that] assms by (auto simp: classes_ready_def ALLOCATION_CLASSES_def)
  have "\<not> i < 5 \<Longrightarrow> (2 :: nat) ^ 8 \<le> 2 ^ (3 + i)" by (intro power_increasing) auto
  moreover have "i < 5 \<Longrightarrow> (2 :: nat) ^ (4 + i) \<le> 2 ^ 8" by (intro power_increasing) auto
  ultimately have "i < 5 \<longleftrightarrow> unat sz \<le> 256" using i by fastforce
  moreover have "sz \<le> ac_sizes st ! i" if "i < 5" using cls [OF that] i(2) by (simp add: word_le_nat_alt)
  moreover have "ac_sizes st ! j < sz" if "i < 5" "j < i" for j
  proof -
    have "(2 :: nat) ^ (4 + j) \<le> 2 ^ (3 + i)" using that(2) by (intro power_increasing) auto
    also have "\<dots> < unat sz" using that i(3) by simp
    finally show ?thesis using cls [of j] that by (simp add: word_less_nat_alt)
  qed
  ultimately show ?thesis using i(1) by blast
qed

text \<open>The examples: a table with one class created, of 16-byte chunks.\<close>

definition one_class :: "umf_ba_pool_t \<Rightarrow> base_alloc_t" where
  "one_class P = BASE_ALLOC\<lparr>ac := [Some P, None, None, None, None], smallest_ac_size_log2 := 4\<rparr>"

lemma one_class_ok:
  obtains P where "ba_ok env_linux P {}" "global_ok env_linux (one_class P) (\<lambda>_. {})"
    "class_usable (one_class P) 0 P 0" "ac (one_class P) ! 0 = Some P"
proof -
  obtain P where P: "umf_ba_create env_linux 4096 True 16 = Some (Some P)" "ba_ok env_linux P {}"
    "unat (16 :: u64) \<le> unat (chunk_size P)" "unat (chunk_size P) < unat (16 :: u64) + 8"
    "128 \<le> unat (n_chunks P)"
    by (rule ba_create_rep [of env_linux 16 4096]) (use env_linux_ok in simp_all)
  have "8 dvd unat (chunk_size P)"
    using P(2) by (auto simp: ba_ok_def ba_rep_def layout_def geometry_def)
  then have cs: "unat (chunk_size P) = 16" using P(3,4) by (auto elim!: dvdE)
  have acs: "ac (one_class P) ! j = (if j = 0 then Some P else None)" if "j < 5" for j
    using less_5_cases [OF that] by (auto simp: one_class_def)
  have "global_ok env_linux (one_class P) (\<lambda>_. {})"
    using P(2) cs acs
    by (auto simp: global_ok_def class_mem_def classes_ready_def one_class_def BASE_ALLOC_def
        NUM_ALLOCATION_CLASSES_def accessible_def split: if_splits)
  moreover have "free_list P \<noteq> NULL"
    using created_pool_usable [OF P(2,5), of 0] by (auto simp: ba_usable_def ba_fresh_def placed_def)
  then have "class_usable (one_class P) 0 P 0"
    by (simp add: class_usable_def ba_usable_def)
  ultimately show thesis using P(2) acs that by simp
qed

theorem size_to_idx_smallest_class_witness:
  "\<exists>st i. size_to_idx st 40 = Some (int i) \<and> 40 \<le> ac_sizes st ! i \<and> (\<forall>j < i. ac_sizes st ! j < 40)"
proof -
  have "classes_ready (BASE_ALLOC\<lparr>smallest_ac_size_log2 := 4\<rparr>)"
    by (simp add: classes_ready_def BASE_ALLOC_def)
  from size_to_idx_smallest_class [OF this, of 40] show ?thesis
    by (intro exI [of _ "BASE_ALLOC\<lparr>smallest_ac_size_log2 := 4\<rparr>"]) auto
qed

text \<open>C26: A request of a supported alignment whose total size is at most 256 bytes, for which the
  class exists: allocation takes a chunk that is not handed out; the user's block lies inside
  the chunk behind the metadata, is aligned as requested, and the usable size reported for it is
  at least the requested size and stays inside the chunk; releasing the user's pointer finds the
  same chunk and class and gives the chunk back, so that the state is as before.\<close>

theorem global_alloc_free_roundtrip:
  assumes "global_ok env st As" "alignment_ok alignment" "0 < unat sz" "unat sz + extra alignment \<le> 256"
    and "unat tot = unat sz + extra alignment" "size_to_idx st tot = Some (int i)"
    and "ac st ! i = Some P" "class_usable st i P mmap"
  shows "\<exists>u c st' us st''. umf_ba_global_aligned_alloc mmap st sz alignment = Some (u, st') \<and>
    i < 5 \<and> c \<notin> As i \<and> global_ok env st' (As(i := insert c (As i))) \<and>
    c + 8 \<le> u \<and> u + unat sz \<le> c + 2 ^ (4 + i) \<and> 8 dvd u \<and>
    (8 < unat alignment \<longrightarrow> unat alignment dvd u) \<and>
    umf_ba_global_malloc_usable_size st' u = Some us \<and> unat sz \<le> unat us \<and>
    u + unat us \<le> c + 2 ^ (4 + i) \<and>
    umf_ba_global_free env st' u = Some st'' \<and> global_ok env st'' As"
proof -
  define t where "t = (if ALLOC_METADATA_SIZE < alignment then sz + ALLOC_METADATA_SIZE + alignment
        else sz + ALLOC_METADATA_SIZE)"
  have t: "unat t = unat sz + extra alignment"
    unfolding t_def using assms(4) by (intro total_size) simp
  have tot: "tot = t" using t assms(5) by (intro unat_eqD64) simp
  have cr: "classes_ready st" using assms(1) by (simp add: global_ok_def)
  obtain i' where "size_to_idx st t = Some (int i')" "unat t \<le> 2 ^ (4 + i')" "i' < 5"
    by (rule small_class [OF cr, of t]) (use t assms(4) in auto)
  with assms(6) tot have i: "size_to_idx st t = Some (int i)" "unat t \<le> 2 ^ (4 + i)" "i < 5" by auto
  note P = assms(7,8)
  obtain u c st' P' where a: "umf_ba_global_aligned_alloc mmap st sz alignment = Some (u, st')"
    "global_ok env st' (As(i := insert c (As i)))" "c \<notin> As i"
    "c + 8 \<le> u" "u + unat sz \<le> c + 2 ^ (4 + i)" "8 dvd u"
    "8 < unat alignment \<Longrightarrow> unat alignment dvd u" "ac st' ! i = Some P'"
    "original_alloc st' u = Some (c, t, of_nat (unat sz + extra alignment - (u - c)))"
    "u \<le> c + extra alignment"
    by (rule global_alloc_small [OF assms(1-4) i(1) [unfolded t_def] i(2) [unfolded t] i(3) P])
      (simp add: t_def)
  have "classes_ready st'" using a(2) by (simp add: global_ok_def)
  then have "size_to_idx st' t = size_to_idx st t"
    using cr by (simp add: size_to_idx_def classes_ready_def)
  with i(1) have idx': "size_to_idx st' t = Some (int i)" by simp
  obtain st'' where fr: "umf_ba_global_free env st' u = Some st''"
    "global_ok env st'' ((As(i := insert c (As i)))(i := (As(i := insert c (As i))) i - {c}))"
    by (rule global_free_small [OF a(2) _ a(9) idx' i(3) a(8)]) (use a(4) in auto)
  have "(As(i := insert c (As i)))(i := (As(i := insert c (As i))) i - {c}) = As"
    using a(3) by (simp add: fun_upd_def insert_Diff_if fun_eq_iff)
  with fr(2) have "global_ok env st'' As" by simp
  moreover define us :: u64 where "us = of_nat (unat sz + extra alignment - (u - c))"
  have "umf_ba_global_malloc_usable_size st' u = Some us"
    using a(4,9) by (auto simp: umf_ba_global_malloc_usable_size_def us_def)
  moreover have "unat us = unat sz + extra alignment - (u - c)"
    unfolding us_def using assms(4) by (intro unat_of_nat_u64) simp
  then have "unat sz \<le> unat us" "u + unat us \<le> c + 2 ^ (4 + i)"
    using a(4,10) i(2) t by linarith+
  ultimately show ?thesis using a(1-7) i(3) fr(1) by blast
qed

theorem global_alloc_free_roundtrip_witness:
  "\<exists>st u st' st''. umf_ba_global_aligned_alloc 0 st 8 8 = Some (u, st') \<and>
     umf_ba_global_free env_linux st' u = Some st'' \<and> global_ok env_linux st'' (\<lambda>_. {})"
proof -
  obtain P where P: "ba_ok env_linux P {}" "global_ok env_linux (one_class P) (\<lambda>_. {})"
    "class_usable (one_class P) 0 P 0" "ac (one_class P) ! 0 = Some P" by (rule one_class_ok)
  have "size_to_idx (one_class P) 16 = Some (int 0)"
    by (simp add: size_to_idx_def one_class_def BASE_ALLOC_def ALLOCATION_CLASSES_def)
  with global_alloc_free_roundtrip [OF P(2), of 8 8 16 0 P 0] P(3,4) show ?thesis
    by (fastforce simp: alignment_ok_def extra_def)
qed

text \<open>The total size of a request is computed modulo $2^{64}$: a request of $2^{64} - 1$ bytes
  is served with a chunk of the smallest class, and the pointer returned is not null.\<close>

theorem global_alloc_size_wraps:
  assumes "global_ok env st As" "ac st ! 0 = Some P" "class_usable st 0 P mmap"
  shows "\<exists>u c st'. umf_ba_global_alloc mmap st (- 1) = Some (u, st') \<and> u = c + 8 \<and> c \<notin> As 0 \<and>
    umf_ba_global_malloc_usable_size st' u = Some (- 1) \<and>
    (\<exists>P'. ac st' ! 0 = Some P' \<and> ba_ok env P' (insert c (As 0)) \<and> unat (chunk_size P') = 16)"
proof -
  have "ba_ok env P (As 0) \<and> unat (chunk_size P) = 2 ^ (4 + 0)"
    using assms(1,2) unfolding global_ok_def by (metis zero_less_numeral)
  then have okP: "ba_ok env P (As 0)" "unat (chunk_size P) = 16" by simp_all
  have us: "free_list P = NULL \<Longrightarrow> ba_fresh P mmap" using assms(3) by (auto simp: class_usable_def ba_usable_def)
  obtain c P1 where a: "umf_ba_alloc mmap P = Some (c, P1)" "c \<notin> As 0" "ba_ok env P1 (insert c (As 0))"
    "chunk_size P1 = chunk_size P"
    "ranges (mem P1) = ranges (mem P) \<or> free_list P = NULL \<and> ranges (mem P1) = (mmap, pool_size P) # ranges (mem P)"
    by (rule ba_alloc_rep [OF okP(1) us])
  note ch = ba_ok_chunk [OF a(3), of c, simplified]
  have cs: "unat (chunk_size P1) = 16" using okP(2) a(4) by simp
  have acc: "accessible (mem P1) c" using ch(4) [of c] ch(1) cs by simp
  have c64: "unat (of_nat c + 8 :: u64) = c + 8"
    using ch(3) cs unat_add_u64 [of "of_nat c" 8] by (simp add: unat_of_nat_u64 del: unat_of_nat)
  define v :: u64 where "v = 7 OR push_bit 32 8"
  define P' where "P' = P1\<lparr>mem := (mem P1)\<lparr>words := (words (mem P1))(c := unat v)\<rparr>\<rparr>"
  define st' where "st' = st\<lparr>ac := (ac st)[0 := Some P']\<rparr>"
  have okP': "ba_ok env P' (insert c (As 0))"
    unfolding P'_def by (rule ba_ok_write [OF a(3), of c]) (use cs in auto)
  have cr: "classes_ready st" using assms(1) by (simp add: global_ok_def)
  have ok': "global_ok env st' (As(0 := insert c (As 0)))"
    unfolding st'_def
  proof (rule class_update [OF assms(1) _ assms(2) okP'])
    show "accessible (mem P) x \<or> \<not> accessible (os_blocks st) x \<and> (\<forall>j < 5. j \<noteq> 0 \<longrightarrow> \<not> class_mem st j x)"
      if "accessible (mem P') x" for x
      using that a(5) assms(3) by (auto simp: P'_def accessible_def class_usable_def)
  qed (simp_all add: P'_def a(4))
  have ac': "ac st' ! 0 = Some P'"
    using cr by (simp add: st'_def classes_ready_def NUM_ALLOCATION_CLASSES_def)
  have idx: "size_to_idx st 7 = Some 0"
    using cr by (simp add: size_to_idx_def classes_ready_def ALLOCATION_CLASSES_def)
  have "unat (of_nat c :: u64) = c" using ch(3) by (intro unat_of_nat_u64) simp
  then have "add_metadata_and_align (mem P1) c 7 8 =
      Some (c + 8, (mem P1)\<lparr>words := (words (mem P1))(c := unat v)\<rparr>)"
    using ch(2) c64 acc by (simp add: add_metadata_and_align_def ALLOC_METADATA_SIZE_def store_def v_def)
  then have al: "umf_ba_global_alloc mmap st (- 1) = Some (c + 8, st')"
    using idx assms(2) a(1)
    by (simp add: umf_ba_global_alloc_def umf_ba_global_aligned_alloc_def ALLOC_METADATA_SIZE_def Let_def
        NUM_ALLOCATION_CLASSES_def st'_def P'_def)
  have "memory_of st' c = Some (mem P')"
    using memory_of_class [OF ok' _ ac', of c] acc by (simp add: P'_def)
  moreover have "v AND (push_bit 32 1 - 1) = 7" "drop_bit 32 v = 8"
    unfolding v_def by (rule decode_metadata; simp)+
  ultimately have "umf_ba_global_malloc_usable_size st' (c + 8) = Some (- 1)"
    using acc \<open>unat (of_nat c :: u64) = c\<close>
    by (simp add: umf_ba_global_malloc_usable_size_def original_alloc_def get_original_alloc_def
        ALLOC_METADATA_SIZE_def load_def P'_def)
  then show ?thesis using al a(2) ac' okP' cs by (auto simp: P'_def)
qed

theorem global_alloc_size_wraps_witness:
  "\<exists>st u st'. umf_ba_global_alloc 0 st (- 1) = Some (u, st') \<and> u \<noteq> NULL"
proof -
  obtain P where P: "ba_ok env_linux P {}" "global_ok env_linux (one_class P) (\<lambda>_. {})"
    "class_usable (one_class P) 0 P 0" "ac (one_class P) ! 0 = Some P" by (rule one_class_ok)
  from global_alloc_size_wraps [OF P(2,4,3)] show ?thesis by fastforce
qed

end
