(* ===== verification/Memory_Tracker.thy ===== *)
theory Memory_Tracker
  imports Address_Map Base_Alloc_Classes
begin

text \<open>
  The memory tracker (first part of \<open>provider/provider_tracking.c\<close>): a critnib from the base
  addresses of allocated ranges to records of their pool and size, which live in chunks of a base
  allocator. The critnib and the base allocator are the models of the theories below; the
  contents of the chunks are the store \<open>tvalues\<close>. Addresses of tracked memory are 64-bit words,
  handles of pools are addresses of host objects.
\<close>

section \<open>Definitions\<close>

record tracker_value_t =
  tv_pool :: ptr
  tv_size :: u64

record umf_memory_tracker_t =
  tracker_allocator :: umf_ba_pool_t
  map_t :: critnib
  splitMergeMutex :: bool
  tvalues :: "ptr \<rightharpoonup> tracker_value_t"

text \<open>The answers of the environment for one insertion: the address of a newly mapped pool for
  the base allocator, and the addresses of a leaf and a node for the critnib.\<close>

record mem_grant =
  g_mmap :: ptr
  g_leaf :: ptr
  g_node :: ptr

definition alloc_value :: "ptr \<Rightarrow> umf_memory_tracker_t \<Rightarrow> (ptr \<times> umf_memory_tracker_t) option" where
  "alloc_value mmap t = do {
     (v, al) \<leftarrow> umf_ba_alloc mmap (tracker_allocator t);
     Some (v, t\<lparr>tracker_allocator := al\<rparr>)
   }"

definition free_value :: "ba_env \<Rightarrow> umf_memory_tracker_t \<Rightarrow> ptr \<Rightarrow> umf_memory_tracker_t option" where
  "free_value env t v = do {
     al \<leftarrow> umf_ba_free env (tracker_allocator t) v;
     Some (t\<lparr>tracker_allocator := al, tvalues := (tvalues t)(v := None)\<rparr>)
   }"

definition umfMemoryTrackerAdd ::
  "ba_env \<Rightarrow> mem_grant \<Rightarrow> umf_memory_tracker_t \<Rightarrow> ptr \<Rightarrow> u64 \<Rightarrow> u64 \<Rightarrow> (umf_result \<times> umf_memory_tracker_t) option" where
  "umfMemoryTrackerAdd env g t pool a sz = do {
     guard (a \<noteq> 0);
     (v, t) \<leftarrow> alloc_value (g_mmap g) t;
     if v = NULL then Some (UMF_RESULT_ERROR_OUT_OF_HOST_MEMORY, t)
     else do {
       let t = t\<lparr>tvalues := (tvalues t)(v \<mapsto> \<lparr>tv_pool = pool, tv_size = sz\<rparr>)\<rparr>;
       (ret, m) \<leftarrow> critnib_insert (map_t t) a v False (g_leaf g) (g_node g);
       let t = t\<lparr>map_t := m\<rparr>;
       if ret = OK then Some (UMF_RESULT_SUCCESS, t)
       else do {
         t \<leftarrow> free_value env t v;
         if ret = ENOMEM then Some (UMF_RESULT_ERROR_OUT_OF_HOST_MEMORY, t)
         else Some (UMF_RESULT_ERROR_UNKNOWN, t)
       }
     }
   }"

definition umfMemoryTrackerRemove ::
  "ba_env \<Rightarrow> umf_memory_tracker_t \<Rightarrow> u64 \<Rightarrow> (umf_result \<times> umf_memory_tracker_t) option" where
  "umfMemoryTrackerRemove env t a = do {
     guard (a \<noteq> 0);
     (v, m) \<leftarrow> critnib_remove (map_t t) a;
     let t = t\<lparr>map_t := m\<rparr>;
     if v = NULL then Some (UMF_RESULT_ERROR_UNKNOWN, t)
     else do {
       _ \<leftarrow> tvalues t v;
       t \<leftarrow> free_value env t v;
       Some (UMF_RESULT_SUCCESS, t)
     }
   }"

record umf_alloc_info_t =
  info_base :: u64
  info_baseSize :: u64
  info_pool :: ptr

text \<open>\<open>TRACKER\<close> is the global variable: no tracker, or the tracker. The structure pointed to by the
  output parameter is written only on success.\<close>

definition umfMemoryTrackerGetAllocInfo ::
  "umf_memory_tracker_t option \<Rightarrow> u64 \<Rightarrow> (umf_result \<times> umf_alloc_info_t option) option" where
  "umfMemoryTrackerGetAllocInfo TRACKER a = do {
     guard (a \<noteq> 0);
     case TRACKER of
       None \<Rightarrow> Some (UMF_RESULT_ERROR_NOT_SUPPORTED, None)
     | Some t \<Rightarrow> do {
         found \<leftarrow> critnib_find (map_t t) a FIND_LE;
         case found of
           None \<Rightarrow> Some (UMF_RESULT_ERROR_INVALID_ARGUMENT, None)
         | Some (rkey, rvalue) \<Rightarrow> do {
             v \<leftarrow> tvalues t rvalue;
             if rkey + tv_size v \<le> a then Some (UMF_RESULT_ERROR_INVALID_ARGUMENT, None)
             else Some (UMF_RESULT_SUCCESS,
               Some \<lparr>info_base = rkey, info_baseSize = tv_size v, info_pool = tv_pool v\<rparr>)
           }
       }
   }"

definition umfMemoryTrackerGetPool :: "umf_memory_tracker_t option \<Rightarrow> u64 \<Rightarrow> ptr option" where
  "umfMemoryTrackerGetPool TRACKER a = do {
     (ret, info) \<leftarrow> umfMemoryTrackerGetAllocInfo TRACKER a;
     Some (if ret \<noteq> UMF_RESULT_SUCCESS then NULL else case info of None \<Rightarrow> NULL | Some i \<Rightarrow> info_pool i)
   }"

text \<open>The loop that removes the ranges of a pool, or of all pools when \<open>pool\<close> is null; \<open>n\<close> counts the
  items for the log.\<close>

partial_function (option) clear_loop ::
  "ba_env \<Rightarrow> ptr \<Rightarrow> umf_memory_tracker_t \<Rightarrow> u64 \<Rightarrow> u64 \<Rightarrow> (u64 \<times> umf_memory_tracker_t) option" where
  "clear_loop env pool t last_key n = do {
     found \<leftarrow> critnib_find (map_t t) last_key FIND_G;
     case found of
       None \<Rightarrow> Some (n, t)
     | Some (rkey, rvalue) \<Rightarrow> do {
         v \<leftarrow> tvalues t rvalue;
         if tv_pool v \<noteq> pool \<and> pool \<noteq> NULL then clear_loop env pool t rkey n
         else do {
           (removed, m) \<leftarrow> critnib_remove (map_t t) rkey;
           guard (removed = rvalue);
           t \<leftarrow> free_value env (t\<lparr>map_t := m\<rparr>) removed;
           clear_loop env pool t rkey (n + 1)
         }
       }
   }"

definition clear_tracker_for_the_pool ::
  "ba_env \<Rightarrow> umf_memory_tracker_t \<Rightarrow> ptr \<Rightarrow> umf_memory_tracker_t option" where
  "clear_tracker_for_the_pool env t pool = map_option snd (clear_loop env pool t 0 0)"

definition clear_tracker :: "ba_env \<Rightarrow> umf_memory_tracker_t \<Rightarrow> umf_memory_tracker_t option" where
  "clear_tracker env t = clear_tracker_for_the_pool env t NULL"

text \<open>
  Creation: \<open>host\<close> is the memory for the handle, \<open>mmap\<close> and \<open>pool_mutex\<close> answer the base allocator,
  \<open>mutex\<close> and \<open>cn\<close> the mutex and the critnib. Every failure releases what was created before; the
  base allocator's pool that is given back is the second component.
\<close>

definition umfMemoryTrackerCreate ::
  "ba_env \<Rightarrow> bool \<Rightarrow> ptr \<Rightarrow> ptr \<Rightarrow> bool \<Rightarrow> bool \<Rightarrow> ptr \<Rightarrow> bool \<Rightarrow> umf_memory_tracker_t option option" where
  "umfMemoryTrackerCreate env proxy host mmap pool_mutex mutex cn cn_mutex =
     (if host = NULL then Some None
      else do {
        al \<leftarrow> umf_ba_create env mmap pool_mutex 16;
        case al of
          None \<Rightarrow> Some None
        | Some al \<Rightarrow>
            if \<not> mutex then do { _ \<leftarrow> umf_ba_destroy proxy al; Some None }
            else case critnib_new cn cn_mutex of
              None \<Rightarrow> do { _ \<leftarrow> umf_ba_destroy proxy al; Some None }
            | Some m \<Rightarrow> Some (Some \<lparr>tracker_allocator = al, map_t = m, splitMergeMutex = False,
                tvalues = Map.empty\<rparr>)
      })"

text \<open>Destruction returns the memory left mapped by the allocator of the tracker, or nothing in the
  proxy library, where the tracker stays.\<close>

definition umfMemoryTrackerDestroy ::
  "ba_env \<Rightarrow> bool \<Rightarrow> umf_memory_tracker_t option \<Rightarrow> (os_mem \<times> critnib) option option" where
  "umfMemoryTrackerDestroy env proxy handle =
     (case handle of
        None \<Rightarrow> Some None
      | Some t \<Rightarrow>
          if proxy then Some None
          else do {
            t \<leftarrow> clear_tracker env t;
            c \<leftarrow> critnib_delete (map_t t);
            m \<leftarrow> umf_ba_destroy proxy (tracker_allocator t);
            Some (Some (m, c))
          })"

section \<open>The view of a tracker as a map of ranges\<close>

definition ranges_of :: "umf_memory_tracker_t \<Rightarrow> u64 \<rightharpoonup> tracker_value_t" where
  "ranges_of t a = Option.bind (contents (map_t t) a) (tvalues t)"

definition tracker_ok :: "ba_env \<Rightarrow> umf_memory_tracker_t \<Rightarrow> bool" where
  "tracker_ok env t \<longleftrightarrow> critnib_ok (map_t t) \<and> ba_ok env (tracker_allocator t) (dom (tvalues t)) \<and>
     ran (contents (map_t t)) = dom (tvalues t) \<and> inj_on (contents (map_t t)) (dom (contents (map_t t)))"

definition grant_ok :: "umf_memory_tracker_t \<Rightarrow> mem_grant \<Rightarrow> bool" where
  "grant_ok t g \<longleftrightarrow> ba_usable (g_mmap g) (tracker_allocator t) \<and>
     critnib_fresh (map_t t) (g_leaf g) (g_node g)"

end
