(* ===== verification/Memory_Tracker_Correct.thy ===== *)
theory Memory_Tracker_Correct
  imports Memory_Tracker
begin

text \<open>
  The tracker refines a finite map from base addresses to records of pool and size: insertion,
  removal, lookup by containment and the removal of the ranges of a pool. The laws of the critnib
  and of the base allocator are used through the interpretations of their locales.
\<close>

lemma inj_on_map_upd:
  assumes "inj_on m (dom m)" "v \<notin> ran m" shows "inj_on (m(a \<mapsto> v)) (dom (m(a \<mapsto> v)))"
proof (rule inj_onI)
  fix x y
  assume "x \<in> dom (m(a \<mapsto> v))" "y \<in> dom (m(a \<mapsto> v))" "(m(a \<mapsto> v)) x = (m(a \<mapsto> v)) y"
  with assms show "x = y" by (auto simp: inj_on_def ran_def split: if_splits)
qed

lemma ran_map_remove:
  assumes "inj_on m (dom m)" "m a = Some v" shows "ran (m(a := None)) = ran m - {v}"
proof -
  have "k = a" if "m k = Some v" for k
    using assms that by (auto simp: inj_on_def dom_def)
  then have "(\<exists>k. (m(a := None)) k = Some w) \<longleftrightarrow> (\<exists>k. m k = Some w) \<and> w \<noteq> v" for w
    using assms(2) by (metis fun_upd_apply option.distinct(1) option.inject)
  then show ?thesis unfolding ran_def by blast
qed

section \<open>Values in use\<close>

text \<open>
  While an operation is under way some chunks hold values that the critnib does not refer to:
  \<open>S\<close> is the set of these chunks. Between operations it is empty.
\<close>

definition tracker_pend :: "ba_env \<Rightarrow> umf_memory_tracker_t \<Rightarrow> ptr set \<Rightarrow> bool" where
  "tracker_pend env t S \<longleftrightarrow> critnib_ok (map_t t) \<and> ba_ok env (tracker_allocator t) (dom (tvalues t)) \<and>
     ran (contents (map_t t)) \<union> S = dom (tvalues t) \<and> ran (contents (map_t t)) \<inter> S = {} \<and>
     inj_on (contents (map_t t)) (dom (contents (map_t t)))"

lemma tracker_ok_pend: "tracker_ok env t \<longleftrightarrow> tracker_pend env t {}"
  by (auto simp: tracker_ok_def tracker_pend_def)

lemma tracker_pend_mutex [simp]: "tracker_pend env (t\<lparr>splitMergeMutex := b\<rparr>) S = tracker_pend env t S"
  by (simp add: tracker_pend_def)

lemma tracker_ok_mutex [simp]: "tracker_ok env (t\<lparr>splitMergeMutex := b\<rparr>) = tracker_ok env t"
  by (simp add: tracker_ok_def)

lemma ranges_of_mutex [simp]: "ranges_of (t\<lparr>splitMergeMutex := b\<rparr>) = ranges_of t"
  by (simp add: ranges_of_def fun_eq_iff)

lemma tracker_nonnull: "tracker_pend env t S \<Longrightarrow> NULL \<notin> dom (tvalues t)"
  unfolding tracker_pend_def using ba_ok_nonnull by blast

lemma ranges_of_dom: "tracker_pend env t S \<Longrightarrow> ranges_of t a = None \<longleftrightarrow> contents (map_t t) a = None"
  by (auto simp: ranges_of_def tracker_pend_def ran_def dom_def split: bind_splits)

lemma ranges_of_value:
  assumes "tracker_pend env t S" "contents (map_t t) a = Some p"
  obtains v where "tvalues t p = Some v" "ranges_of t a = Some v" "p \<noteq> NULL"
proof -
  have "p \<in> dom (tvalues t)" using assms by (auto simp: tracker_pend_def ran_def)
  then show thesis using that assms(2) tracker_nonnull [OF assms(1)] by (auto simp: ranges_of_def)
qed

text \<open>Taking a chunk for a value, and giving it back.\<close>

lemma take_value:
  assumes ok: "tracker_pend env t S" and u: "ba_usable mmap (tracker_allocator t)"
  obtains v al where "alloc_value mmap t = Some (v, t\<lparr>tracker_allocator := al\<rparr>)"
    "umf_ba_alloc mmap (tracker_allocator t) = Some (v, al)" "v \<notin> dom (tvalues t)" "v \<noteq> NULL"
    "\<And>x. tracker_pend env (t\<lparr>tracker_allocator := al, tvalues := (tvalues t)(v \<mapsto> x)\<rparr>) (insert v S)"
    "\<And>x. ranges_of (t\<lparr>tracker_allocator := al, tvalues := (tvalues t)(v \<mapsto> x)\<rparr>) = ranges_of t"
proof -
  have b: "ba_ok env (tracker_allocator t) (dom (tvalues t))" using ok by (simp add: tracker_pend_def)
  from ba.al_law [OF b u] obtain v al where v: "umf_ba_alloc mmap (tracker_allocator t) = Some (v, al)"
    "v \<notin> dom (tvalues t)" "ba_ok env al (insert v (dom (tvalues t)))" by auto
  have vr: "v \<notin> ran (contents (map_t t))" using ok v(2) unfolding tracker_pend_def by blast
  have "v \<noteq> NULL" using ba_ok_nonnull [OF v(3)] by auto
  moreover have "tracker_pend env (t\<lparr>tracker_allocator := al, tvalues := (tvalues t)(v \<mapsto> x)\<rparr>) (insert v S)" for x
    using ok v(2,3) vr by (simp add: tracker_pend_def)
  moreover have "contents (map_t t) k \<noteq> Some v" for k using vr by (auto simp: ran_def)
  then have "ranges_of (t\<lparr>tracker_allocator := al, tvalues := (tvalues t)(v \<mapsto> x)\<rparr>) = ranges_of t" for x
    by (auto simp: ranges_of_def fun_eq_iff split: bind_splits option.splits)
  ultimately show thesis using v(1,2) by (intro that) (simp_all add: alloc_value_def)
qed

lemma drop_value:
  assumes ok: "tracker_pend env t (insert v S)" and v: "v \<notin> S"
  obtains t' where "free_value env t v = Some t'" "tracker_pend env t' S" "ranges_of t' = ranges_of t"
    "map_t t' = map_t t" "splitMergeMutex t' = splitMergeMutex t" "tvalues t' = (tvalues t)(v := None)"
proof -
  have b: "ba_ok env (tracker_allocator t) (dom (tvalues t))" and vd: "v \<in> dom (tvalues t)"
    using ok by (auto simp: tracker_pend_def)
  from ba.fr_law [OF b vd] obtain al where al: "umf_ba_free env (tracker_allocator t) v = Some al"
    "ba_ok env al (dom (tvalues t) - {v})" by blast
  let ?t = "t\<lparr>tracker_allocator := al, tvalues := (tvalues t)(v := None)\<rparr>"
  have "ran (contents (map_t t)) \<union> S = dom (tvalues t) - {v}"
    using ok v by (auto simp: tracker_pend_def)
  then have "tracker_pend env ?t S" using ok al(2) by (simp add: tracker_pend_def)
  moreover have "contents (map_t t) k \<noteq> Some v" for k
    using ok by (auto simp: tracker_pend_def ran_def)
  then have "ranges_of ?t = ranges_of t"
    by (auto simp: ranges_of_def fun_eq_iff split: bind_splits)
  ultimately show thesis using that [of ?t] al(1) by (simp add: free_value_def)
qed

text \<open>The critnib refers to a value that was pending: under a new address, or instead of another one.\<close>

lemma refer_value:
  assumes ok: "tracker_pend env t (insert v S)" and v: "v \<notin> S" and m: "critnib_ok m"
    and c: "contents m = (contents (map_t t))(a \<mapsto> v)" and val: "tvalues t v = Some x"
  shows "tracker_pend env (t\<lparr>map_t := m\<rparr>) (S \<union> set_option (contents (map_t t) a))"
    and "ranges_of (t\<lparr>map_t := m\<rparr>) = (ranges_of t)(a \<mapsto> x)"
proof -
  let ?c = "contents (map_t t)"
  have inj: "inj_on ?c (dom ?c)" and vn: "v \<notin> ran ?c" and d: "ran ?c \<union> insert v S = dom (tvalues t)"
    and disj: "ran ?c \<inter> S = {}" using ok by (auto simp: tracker_pend_def)
  have ran: "ran (?c(a \<mapsto> v)) = insert v (ran ?c - set_option (?c a))"
  proof (cases "?c a")
    case (Some p)
    have "ran (?c(a \<mapsto> v)) = insert v (ran (?c(a := None)))" by (auto simp: ran_def)
    then show ?thesis using ran_map_remove [OF inj Some] Some by simp
  qed (simp add: ran_map_upd)
  have sub: "set_option (?c a) \<subseteq> ran ?c" by (auto simp: ran_def)
  have "ran (?c(a \<mapsto> v)) \<union> (S \<union> set_option (?c a)) = dom (tvalues t)"
    unfolding ran d [symmetric] using sub by auto
  moreover have "ran (?c(a \<mapsto> v)) \<inter> (S \<union> set_option (?c a)) = {}"
    unfolding ran using disj v vn sub by auto
  ultimately show "tracker_pend env (t\<lparr>map_t := m\<rparr>) (S \<union> set_option (?c a))"
    using ok m inj_on_map_upd [OF inj vn, of a] by (simp add: tracker_pend_def c)
  show "ranges_of (t\<lparr>map_t := m\<rparr>) = (ranges_of t)(a \<mapsto> x)"
    using val by (auto simp: ranges_of_def c fun_eq_iff)
qed

section \<open>Insertion\<close>

definition add_result ::
  "(u64 \<rightharpoonup> tracker_value_t) \<Rightarrow> u64 \<Rightarrow> tracker_value_t \<Rightarrow> bool \<Rightarrow> umf_result \<Rightarrow> (u64 \<rightharpoonup> tracker_value_t) \<Rightarrow> bool" where
  "add_result m a v memory r m' \<longleftrightarrow>
     (r = UMF_RESULT_SUCCESS \<and> m a = None \<and> m' = m(a \<mapsto> v)) \<or>
     (r = UMF_RESULT_ERROR_UNKNOWN \<and> m a \<noteq> None \<and> m' = m) \<or>
     (r = UMF_RESULT_ERROR_OUT_OF_HOST_MEMORY \<and> \<not> memory \<and> m' = m)"

lemma add_pend:
  assumes ok: "tracker_pend env t S" and g: "grant_ok t g" and a: "a \<noteq> 0"
  obtains r t' where "umfMemoryTrackerAdd env g t pool a sz = Some (r, t')" "tracker_pend env t' S"
    "add_result (ranges_of t) a \<lparr>tv_pool = pool, tv_size = sz\<rparr> (g_leaf g \<noteq> NULL \<and> g_node g \<noteq> NULL) r (ranges_of t')"
    "critnib_room (map_t t') = critnib_room (map_t t)" "splitMergeMutex t' = splitMergeMutex t"
    "\<And>p. p \<in> S \<Longrightarrow> tvalues t' p = tvalues t p"
    "\<exists>v e. critnib_insert (map_t t) a v False (g_leaf g) (g_node g) = Some (e, map_t t')"
    "\<And>k. k \<noteq> a \<Longrightarrow> contents (map_t t') k = contents (map_t t) k"
proof -
  let ?val = "\<lparr>tv_pool = pool, tv_size = sz\<rparr>"
  have u: "ba_usable (g_mmap g) (tracker_allocator t)" and fr: "critnib_fresh (map_t t) (g_leaf g) (g_node g)"
    using g by (auto simp: grant_ok_def)
  have cn: "critnib_ok (map_t t)" and sd: "S \<subseteq> dom (tvalues t)" using ok by (auto simp: tracker_pend_def)
  obtain v al where v: "alloc_value (g_mmap g) t = Some (v, t\<lparr>tracker_allocator := al\<rparr>)"
    "v \<notin> dom (tvalues t)" "v \<noteq> NULL"
    "\<And>x. tracker_pend env (t\<lparr>tracker_allocator := al, tvalues := (tvalues t)(v \<mapsto> x)\<rparr>) (insert v S)"
    "\<And>x. ranges_of (t\<lparr>tracker_allocator := al, tvalues := (tvalues t)(v \<mapsto> x)\<rparr>) = ranges_of t"
    using take_value [OF ok u] by metis
  define t1 where "t1 = t\<lparr>tracker_allocator := al, tvalues := (tvalues t)(v \<mapsto> ?val)\<rparr>"
  note t1 = v(4,5) [of ?val, folded t1_def]
  have vS: "v \<notin> S" using v(2) sd by blast
  from cnmap.ins_law [OF cn fr, of a v False] obtain ret m where
    ins: "critnib_insert (map_t t) a v False (g_leaf g) (g_node g) = Some (ret, m)"
    and m: "critnib_ok m" "critnib_room m = critnib_room (map_t t)"
      "ins_result (contents (map_t t)) a v False (g_leaf g \<noteq> NULL \<and> g_node g \<noteq> NULL) ret (contents m)" by blast
  show thesis
  proof (cases "ret = OK")
    case True
    with m(3) have c: "contents m = (contents (map_t t1))(a \<mapsto> v)" "contents (map_t t1) a = None"
      by (auto simp: ins_result_def t1_def)
    note r = refer_value [OF t1(1) vS m(1) c(1), of ?val]
    have "umfMemoryTrackerAdd env g t pool a sz = Some (UMF_RESULT_SUCCESS, t1\<lparr>map_t := m\<rparr>)"
      using a v(1,3) ins True by (simp add: umfMemoryTrackerAdd_def t1_def)
    moreover have "ranges_of t a = None" using c(2) ranges_of_dom [OF t1(1)] t1(2) by simp
    ultimately show ?thesis using r c t1(2) m(2) ins vS
      by (intro that [of UMF_RESULT_SUCCESS "t1\<lparr>map_t := m\<rparr>"]) (auto simp: add_result_def t1_def)
  next
    case False
    with m(3) have c: "contents m = contents (map_t t)"
      "ret = EEXIST \<longrightarrow> contents (map_t t) a \<noteq> None"
      "ret = ENOMEM \<longrightarrow> \<not> (g_leaf g \<noteq> NULL \<and> g_node g \<noteq> NULL)"
      by (auto simp: ins_result_def split: errno.splits)
    have t2: "tracker_pend env (t1\<lparr>map_t := m\<rparr>) (insert v S)" "ranges_of (t1\<lparr>map_t := m\<rparr>) = ranges_of t"
      using t1 m(1) c(1) by (simp_all only: tracker_pend_def ranges_of_def fun_eq_iff, simp_all add: t1_def)
    obtain t' where t': "free_value env (t1\<lparr>map_t := m\<rparr>) v = Some t'" "tracker_pend env t' S"
      "ranges_of t' = ranges_of (t1\<lparr>map_t := m\<rparr>)" "map_t t' = m" "splitMergeMutex t' = splitMergeMutex t"
      "tvalues t' = (tvalues t1)(v := None)"
      by (rule drop_value [OF t2(1) vS]) (auto simp: t1_def)
    define r where "r = (if ret = ENOMEM then UMF_RESULT_ERROR_OUT_OF_HOST_MEMORY else UMF_RESULT_ERROR_UNKNOWN)"
    have "umfMemoryTrackerAdd env g t pool a sz = Some (r, t')"
      using a v(1,3) ins False t'(1) by (simp add: umfMemoryTrackerAdd_def t1_def r_def)
    moreover have "ret = EEXIST \<Longrightarrow> ranges_of t a \<noteq> None" using c(2) ranges_of_dom [OF ok] by simp
    moreover have "ret = EEXIST \<or> ret = ENOMEM" using False by (cases ret) auto
    ultimately show ?thesis using c(1,3) t'(2-6) t2(2) m(2) ins vS
      by (intro that [of r t']) (auto simp: add_result_def r_def t1_def)
  qed
qed

lemma add_ok:
  assumes "tracker_ok env t" and "grant_ok t g" and "a \<noteq> 0"
  obtains r t' where "umfMemoryTrackerAdd env g t pool a sz = Some (r, t')" "tracker_ok env t'"
    "add_result (ranges_of t) a \<lparr>tv_pool = pool, tv_size = sz\<rparr> (g_leaf g \<noteq> NULL \<and> g_node g \<noteq> NULL) r (ranges_of t')"
    "critnib_room (map_t t') = critnib_room (map_t t)" "splitMergeMutex t' = splitMergeMutex t"
proof -
  from assms(1) have "tracker_pend env t {}" by (simp add: tracker_ok_pend)
  from add_pend [OF this assms(2,3), of pool sz] that show thesis unfolding tracker_ok_pend by metis
qed

text \<open>The update of the value under an address that is tracked, as split and merge do it.\<close>

lemma replace_ok:
  assumes ok: "tracker_pend env t {sv}" and x: "tvalues t sv = Some x" and c: "contents (map_t t) a = Some v"
    and fr: "critnib_fresh (map_t t) ml mn" and mem: "ml \<noteq> NULL" "mn \<noteq> NULL"
  obtains m t' where "critnib_insert (map_t t) a sv True ml mn = Some (OK, m)"
    "free_value env (t\<lparr>map_t := m\<rparr>) v = Some t'" "tracker_ok env t'" "ranges_of t' = (ranges_of t)(a \<mapsto> x)"
    "critnib_room (map_t t') = critnib_room (map_t t)" "splitMergeMutex t' = splitMergeMutex t"
    "contents (map_t t') = (contents (map_t t))(a \<mapsto> sv)"
proof -
  have cn: "critnib_ok (map_t t)" using ok by (simp add: tracker_pend_def)
  from cnmap.ins_law [OF cn fr, of a sv True] obtain ret m where
    i: "critnib_insert (map_t t) a sv True ml mn = Some (ret, m)"
    and m: "critnib_ok m" "critnib_room m = critnib_room (map_t t)"
      and r: "ins_result (contents (map_t t)) a sv True (ml \<noteq> NULL \<and> mn \<noteq> NULL) ret (contents m)" by blast
  have "ret = OK" using r mem by (cases ret) (auto simp: ins_result_def)
  with i r have ins: "critnib_insert (map_t t) a sv True ml mn = Some (OK, m)"
    and cm: "contents m = (contents (map_t t))(a \<mapsto> sv)" by (auto simp: ins_result_def)
  note r = refer_value [of env t sv "{}", OF _ _ m(1) cm x]
  from r(1) ok c have p: "tracker_pend env (t\<lparr>map_t := m\<rparr>) (insert v {})" by simp
  obtain t' where "free_value env (t\<lparr>map_t := m\<rparr>) v = Some t'" "tracker_pend env t' {}"
      "ranges_of t' = ranges_of (t\<lparr>map_t := m\<rparr>)" "map_t t' = m" "splitMergeMutex t' = splitMergeMutex t"
    by (rule drop_value [OF p]) auto
  with that [OF ins, of t'] r(2) ok m cm show thesis by (simp add: tracker_ok_pend)
qed

section \<open>Removal\<close>

lemma remove_ok:
  assumes ok: "tracker_ok env t" and a: "a \<noteq> 0"
  obtains r t' where "umfMemoryTrackerRemove env t a = Some (r, t')" "tracker_ok env t'"
    "r = (if ranges_of t a = None then UMF_RESULT_ERROR_UNKNOWN else UMF_RESULT_SUCCESS)"
    "ranges_of t' = (ranges_of t)(a := None)" "critnib_room (map_t t) \<le> Suc (critnib_room (map_t t'))"
    "splitMergeMutex t' = splitMergeMutex t" "contents (map_t t') = (contents (map_t t))(a := None)"
    "\<And>v. contents (map_t t) a = Some v \<Longrightarrow> critnib_remove (map_t t) a = Some (v, map_t t') \<and>
       free_value env (t\<lparr>map_t := map_t t'\<rparr>) v = Some t'"
proof -
  have cn: "critnib_ok (map_t t)" and rn: "ran (contents (map_t t)) = dom (tvalues t)"
    and inj: "inj_on (contents (map_t t)) (dom (contents (map_t t)))"
    and b: "ba_ok env (tracker_allocator t) (dom (tvalues t))" using ok by (auto simp: tracker_ok_def)
  from cnmap.rem_law [OF cn, of a] obtain m where
    rem: "critnib_remove (map_t t) a = Some (value_at (contents (map_t t)) a, m)"
    and m: "critnib_ok m" "contents m = (contents (map_t t))(a := None)"
      "critnib_room (map_t t) \<le> Suc (critnib_room m)" by blast
  show thesis
  proof (cases "contents (map_t t) a")
    case None
    define t1 where "t1 = t\<lparr>map_t := m\<rparr>"
    have "(contents (map_t t))(a := None) = contents (map_t t)" using None by (auto simp: fun_eq_iff)
    then have "contents m = contents (map_t t)" using m(2) by simp
    then have "tracker_ok env t1" "ranges_of t1 = ranges_of t"
      using ok m(1) by (simp_all only: tracker_ok_def ranges_of_def fun_eq_iff, simp_all add: t1_def)
    moreover have "ranges_of t a = None" using None by (simp add: ranges_of_def)
    moreover have "umfMemoryTrackerRemove env t a = Some (UMF_RESULT_ERROR_UNKNOWN, t1)"
      using a rem None by (simp add: umfMemoryTrackerRemove_def value_at_def t1_def)
    ultimately show ?thesis using m(2,3) None
      by (intro that [of UMF_RESULT_ERROR_UNKNOWN t1]) (auto simp: t1_def fun_eq_iff)
  next
    case (Some v)
    then have vd: "v \<in> dom (tvalues t)" using rn by (auto simp: ran_def)
    then have vn: "v \<noteq> NULL" using tracker_nonnull [OF ok [unfolded tracker_ok_pend]] by metis
    have ran: "ran ((contents (map_t t))(a := None)) = dom (tvalues t) - {v}"
      using ran_map_remove [OF inj Some] rn by simp
    have "inj_on ((contents (map_t t))(a := None)) (dom ((contents (map_t t))(a := None)))"
      using inj by (auto simp: inj_on_def)
    then have p: "tracker_pend env (t\<lparr>map_t := m\<rparr>) (insert v {})"
      using m(1,2) b vd ran by (auto simp: tracker_pend_def)
    obtain t' where t': "free_value env (t\<lparr>map_t := m\<rparr>) v = Some t'" "tracker_pend env t' {}"
      "ranges_of t' = ranges_of (t\<lparr>map_t := m\<rparr>)" "map_t t' = m" "splitMergeMutex t' = splitMergeMutex t"
      by (rule drop_value [OF p]) auto
    have "ranges_of (t\<lparr>map_t := m\<rparr>) = (ranges_of t)(a := None)"
      by (auto simp: ranges_of_def m(2) fun_eq_iff)
    moreover have "ranges_of t a \<noteq> None" using Some vd by (auto simp: ranges_of_def)
    moreover have "umfMemoryTrackerRemove env t a = Some (UMF_RESULT_SUCCESS, t')"
      using a rem Some vn t'(1) vd by (auto simp: umfMemoryTrackerRemove_def value_at_def)
    ultimately show ?thesis using m(2,3) rem Some t'
      by (intro that [of UMF_RESULT_SUCCESS t']) (auto simp: value_at_def tracker_ok_pend)
  qed
qed

section \<open>Lookup of the range that contains an address\<close>

definition covers :: "(u64 \<rightharpoonup> tracker_value_t) \<Rightarrow> u64 \<Rightarrow> tracker_value_t \<Rightarrow> u64 \<Rightarrow> bool" where
  "covers m b v a \<longleftrightarrow> m b = Some v \<and> b \<le> a \<and> unat a < unat b + unat (tv_size v)"

definition disjoint_ranges :: "(u64 \<rightharpoonup> tracker_value_t) \<Rightarrow> bool" where
  "disjoint_ranges m \<longleftrightarrow>
     (\<forall>b v. m b = Some v \<longrightarrow> unat b + unat (tv_size v) < 2 ^ 64) \<and>
     (\<forall>b v b' v'. m b = Some v \<longrightarrow> m b' = Some v' \<longrightarrow> b < b' \<longrightarrow> unat b + unat (tv_size v) \<le> unat b')"

lemma covers_unique:
  assumes "disjoint_ranges m" "covers m b v a" "covers m b' v' a" shows "b = b' \<and> v = v'"
proof -
  have "b = b'"
    using assms linorder_neqE [of b b'] unfolding disjoint_ranges_def covers_def
    by (metis leD le_less_trans word_le_nat_alt)
  with assms show ?thesis by (simp add: covers_def)
qed

lemma info_spec:
  assumes ok: "tracker_ok env t" and dj: "disjoint_ranges (ranges_of t)"
    and room: "0 < critnib_room (map_t t)" and a: "a \<noteq> 0"
  shows "(\<forall>b v. covers (ranges_of t) b v a \<longrightarrow> umfMemoryTrackerGetAllocInfo (Some t) a = Some (UMF_RESULT_SUCCESS,
      Some \<lparr>info_base = b, info_baseSize = tv_size v, info_pool = tv_pool v\<rparr>)) \<and>
    ((\<nexists>b v. covers (ranges_of t) b v a) \<longrightarrow>
      umfMemoryTrackerGetAllocInfo (Some t) a = Some (UMF_RESULT_ERROR_INVALID_ARGUMENT, None))"
proof -
  have cn: "critnib_ok (map_t t)" and rn: "ran (contents (map_t t)) = dom (tvalues t)"
    using ok by (auto simp: tracker_ok_def)
  from cnmap.find_law [OF cn room, of a FIND_LE] obtain r where
    r: "critnib_find (map_t t) a FIND_LE = Some r" "closest (contents (map_t t)) FIND_LE a r" by blast
  have none: "contents (map_t t) k = None \<longleftrightarrow> ranges_of t k = None" for k
    using ranges_of_dom [OF ok [unfolded tracker_ok_pend]] by simp
  have val: "\<exists>v. tvalues t p = Some v \<and> ranges_of t k = Some v" if "contents (map_t t) k = Some p" for k p
    using that rn by (auto simp: ranges_of_def ran_def)
  show ?thesis
  proof (cases r)
    case None
    then have "contents (map_t t) b = None" if "b \<le> a" for b
      using r(2) that by (auto simp: closest_def)
    then have "\<not> covers (ranges_of t) b v a" for b v
      using none by (auto simp: covers_def)
    then show ?thesis using r(1) None a by (auto simp: umfMemoryTrackerGetAllocInfo_def)
  next
    case (Some kp)
    obtain k p where kp: "kp = (k, p)" by (cases kp)
    have k: "contents (map_t t) k = Some p" "k \<le> a" "\<And>b. contents (map_t t) b \<noteq> None \<Longrightarrow> b \<le> a \<Longrightarrow> b \<le> k"
      using r(2) Some kp by (auto simp: closest_def)
    from val [OF k(1)] obtain w where w: "tvalues t p = Some w" "ranges_of t k = Some w" by blast
    have top: "unat k + unat (tv_size w) < 2 ^ 64" using dj w(2) by (auto simp: disjoint_ranges_def)
    then have ge: "k + tv_size w \<le> a \<longleftrightarrow> unat k + unat (tv_size w) \<le> unat a"
      using unat_add_u64 [of k "tv_size w"] by (simp add: word_le_nat_alt)
    have here: "b = k \<and> v = w" if "covers (ranges_of t) b v a" for b v
    proof -
      have "b \<le> k" using that k(3) none by (auto simp: covers_def)
      moreover have "\<not> b < k"
      proof
        assume "b < k"
        then have "unat b + unat (tv_size v) \<le> unat k"
          using that w(2) dj unfolding covers_def disjoint_ranges_def by blast
        then show False using that k(2) by (simp add: covers_def word_le_nat_alt)
      qed
      ultimately have "b = k" by simp
      then show ?thesis using that w(2) by (simp add: covers_def)
    qed
    show ?thesis
    proof (cases "k + tv_size w \<le> a")
      case True
      then have "\<not> covers (ranges_of t) b v a" for b v
        using here [of b v] ge by (auto simp: covers_def)
      then show ?thesis
        using r(1) Some kp w(1) True a by (simp add: umfMemoryTrackerGetAllocInfo_def)
    next
      case False
      then have cov: "covers (ranges_of t) k w a" using ge k(2) w(2) by (simp add: covers_def)
      have eq: "umfMemoryTrackerGetAllocInfo (Some t) a = Some (UMF_RESULT_SUCCESS,
          Some \<lparr>info_base = k, info_baseSize = tv_size w, info_pool = tv_pool w\<rparr>)"
        using r(1) Some kp w(1) False a by (simp add: umfMemoryTrackerGetAllocInfo_def)
      show ?thesis
      proof (intro conjI allI impI)
        fix b v
        assume "covers (ranges_of t) b v a"
        from here [OF this] eq show "umfMemoryTrackerGetAllocInfo (Some t) a = Some (UMF_RESULT_SUCCESS,
          Some \<lparr>info_base = b, info_baseSize = tv_size v, info_pool = tv_pool v\<rparr>)" by simp
      qed (use cov in blast)
    qed
  qed
qed

lemmas info_hit = info_spec [THEN conjunct1, rule_format]
lemmas info_miss = info_spec [THEN conjunct2, rule_format]

section \<open>Removal of the ranges of a pool\<close>

lemma finite_ranges: "tracker_ok env t \<Longrightarrow> finite (dom (ranges_of t))"
proof -
  have "dom (ranges_of t) \<subseteq> dom (contents (map_t t))"
    by (auto simp: ranges_of_def split: bind_splits)
  then show ?thesis using finite_dom_map_of [of "all_entries (map_t t)"] finite_subset
    unfolding contents_def by blast
qed

definition above :: "umf_memory_tracker_t \<Rightarrow> u64 \<Rightarrow> u64 set" where
  "above t k = {a \<in> dom (ranges_of t). k < a}"

definition cleared :: "ptr \<Rightarrow> u64 \<Rightarrow> (u64 \<rightharpoonup> tracker_value_t) \<Rightarrow> u64 \<rightharpoonup> tracker_value_t" where
  "cleared pool k m a =
     (case m a of
        None \<Rightarrow> None
      | Some v \<Rightarrow> if k < a \<and> (pool = NULL \<or> tv_pool v = pool) then None else Some v)"

lemma clear_loop_ok:
  assumes "tracker_ok env t" "card (above t k) < critnib_room (map_t t)"
  shows "\<exists>n' t'. clear_loop env pool t k n = Some (n', t') \<and> tracker_ok env t' \<and>
    ranges_of t' = cleared pool k (ranges_of t) \<and> splitMergeMutex t' = splitMergeMutex t"
  using assms
proof (induction "card (above t k)" arbitrary: t k n rule: less_induct)
  case less
  note ok = less.prems(1)
  have cn: "critnib_ok (map_t t)" and rn: "ran (contents (map_t t)) = dom (tvalues t)"
    using ok by (auto simp: tracker_ok_def)
  have room: "0 < critnib_room (map_t t)" using less.prems(2) by simp
  have fin: "finite (above t j)" for j using finite_ranges [OF ok] by (simp add: above_def)
  have none: "contents (map_t t) j = None \<longleftrightarrow> ranges_of t j = None" for j
    using ranges_of_dom [OF ok [unfolded tracker_ok_pend]] by simp
  from cnmap.find_law [OF cn room, of k FIND_G] obtain r where
    r: "critnib_find (map_t t) k FIND_G = Some r" "closest (contents (map_t t)) FIND_G k r" by blast
  show ?case
  proof (cases r)
    case None
    then have "ranges_of t j = None" if "k < j" for j
      using r(2) None that none [of j] by (cases "contents (map_t t) j") (auto simp: closest_def)
    then have "cleared pool k (ranges_of t) = ranges_of t"
      by (auto simp: cleared_def fun_eq_iff split: option.splits)
    then show ?thesis using r(1) None ok by (subst clear_loop.simps) auto
  next
    case (Some jp)
    obtain j p where jp: "jp = (j, p)" by (cases jp)
    have j: "contents (map_t t) j = Some p" "k < j" "\<And>b. contents (map_t t) b \<noteq> None \<Longrightarrow> k < b \<Longrightarrow> j \<le> b"
      using r(2) Some jp by (auto simp: closest_def)
    obtain v where v: "tvalues t p = Some v" "ranges_of t j = Some v"
      using j(1) rn by (auto simp: ranges_of_def ran_def)
    have sub: "above t j \<subset> above t k" using j(2) v(2) by (auto simp: above_def)
    then have lt: "card (above t j) < card (above t k)" by (intro psubset_card_mono fin)
    have step: "(k < b \<and> b \<noteq> j) \<longleftrightarrow> j < b" if "ranges_of t b \<noteq> None" for b
      using j(2) j(3) [of b] none [of b] that by auto
    show ?thesis
    proof (cases "tv_pool v \<noteq> pool \<and> pool \<noteq> NULL")
      case True
      have "cleared pool j (ranges_of t) = cleared pool k (ranges_of t)"
      proof
        fix b
        show "cleared pool j (ranges_of t) b = cleared pool k (ranges_of t) b"
          using step [of b] True v(2) by (cases "b = j") (auto simp: cleared_def split: option.splits)
      qed
      then show ?thesis
        using less.hyps [OF lt ok, of n] less.prems(2) lt r(1) Some jp v(1) True
        by (subst clear_loop.simps) simp
    next
      case False
      have j0: "j \<noteq> 0" using j(2) by auto
      obtain r' t' where t': "tracker_ok env t'" "ranges_of t' = (ranges_of t)(j := None)"
        "critnib_room (map_t t) \<le> Suc (critnib_room (map_t t'))" "splitMergeMutex t' = splitMergeMutex t"
        "critnib_remove (map_t t) j = Some (p, map_t t')" "free_value env (t\<lparr>map_t := map_t t'\<rparr>) p = Some t'"
        by (rule remove_ok [OF ok j0]) (use j(1) in auto)
      have ab: "above t' j = above t j" using t'(2) by (auto simp: above_def)
      then have "card (above t' j) < critnib_room (map_t t')"
        using less.prems(2) lt t'(3) by simp
      from less.hyps [OF _ t'(1) this, of "n + 1"] lt ab obtain n'' t'' where
        "clear_loop env pool t' j (n + 1) = Some (n'', t'')" "tracker_ok env t''"
        "ranges_of t'' = cleared pool j (ranges_of t')" "splitMergeMutex t'' = splitMergeMutex t'" by auto
      moreover have "cleared pool j (ranges_of t') = cleared pool k (ranges_of t)"
      proof
        fix b
        show "cleared pool j (ranges_of t') b = cleared pool k (ranges_of t) b"
          using step [of b] False v(2) j(2) by (cases "b = j") (auto simp: cleared_def t'(2) split: option.splits)
      qed
      ultimately show ?thesis
        using r(1) Some jp v(1) False t'(4-6) by (subst clear_loop.simps) auto
    qed
  qed
qed

end
