(* ===== verification/Memory_Tracker_Properties.thy ===== *)
theory Memory_Tracker_Properties
  imports Memory_Tracker_Correct
begin

text \<open>
  The interface of the tracker to its clients: a map of disjoint ranges, each owned by a pool, in
  which the owner of an address is looked up (locale \<open>range_tracker\<close>), with its interpretation on
  the model of the tracker and the properties of the tracker.
\<close>

section \<open>The interface\<close>

definition owner :: "(u64 \<rightharpoonup> tracker_value_t) \<Rightarrow> u64 \<Rightarrow> (u64 \<times> tracker_value_t) option \<Rightarrow> bool" where
  "owner m a r \<longleftrightarrow> (case r of None \<Rightarrow> (\<nexists>b v. covers m b v a) | Some (b, v) \<Rightarrow> covers m b v a)"

text \<open>A range that does not wrap around and meets no range of the map.\<close>

definition vacant :: "(u64 \<rightharpoonup> tracker_value_t) \<Rightarrow> u64 \<Rightarrow> u64 \<Rightarrow> bool" where
  "vacant m a sz \<longleftrightarrow> m a = None \<and> unat a + unat sz < 2 ^ 64 \<and>
     (\<forall>b v. m b = Some v \<longrightarrow> unat b + unat (tv_size v) \<le> unat a \<or> unat a + unat sz \<le> unat b)"

lemma disjoint_add:
  assumes "disjoint_ranges m" "vacant m a (tv_size v)"
  shows "disjoint_ranges (m(a \<mapsto> v))"
proof -
  have lt: "b < b' \<longleftrightarrow> unat b < unat b'" for b b' :: u64 by (rule word_less_nat_alt)
  show ?thesis
    using assms unfolding disjoint_ranges_def vacant_def lt
    by (auto split: if_splits) (metis add_leD1 leD)+
qed

lemma disjoint_remove: "disjoint_ranges m \<Longrightarrow> disjoint_ranges (m(a := None))"
  by (auto simp: disjoint_ranges_def)

lemma covers_add:
  assumes "vacant m a (tv_size v)"
  shows "covers (m(a \<mapsto> v)) b w k \<longleftrightarrow>
    (if a \<le> k \<and> unat k < unat a + unat (tv_size v) then b = a \<and> w = v else covers m b w k)"
proof (cases "b = a")
  case True
  then show ?thesis using assms by (auto simp: covers_def vacant_def)
next
  case False
  have "\<not> covers m b w k" if "a \<le> k" "unat k < unat a + unat (tv_size v)"
  proof
    assume "covers m b w k"
    then have "m b = Some w" "unat b \<le> unat k" "unat k < unat b + unat (tv_size w)"
      by (simp_all add: covers_def word_le_nat_alt)
    moreover from this have "unat b + unat (tv_size w) \<le> unat a \<or> unat a + unat (tv_size v) \<le> unat b"
      using assms unfolding vacant_def by blast
    moreover have "unat a \<le> unat k" using that by (simp add: word_le_nat_alt)
    ultimately show False using that(2) by linarith
  qed
  then show ?thesis using False by (auto simp: covers_def)
qed

locale range_tracker =
  fixes inv :: "'s \<Rightarrow> bool"
    and room :: "'s \<Rightarrow> nat"
    and rgs :: "'s \<Rightarrow> u64 \<rightharpoonup> tracker_value_t"
    and granted :: "'s \<Rightarrow> 'g \<Rightarrow> bool"
    and memory :: "'g \<Rightarrow> bool"
    and add :: "'g \<Rightarrow> 's \<Rightarrow> ptr \<Rightarrow> u64 \<Rightarrow> u64 \<Rightarrow> (umf_result \<times> 's) option"
    and rem :: "'s \<Rightarrow> u64 \<Rightarrow> (umf_result \<times> 's) option"
    and info :: "'s \<Rightarrow> u64 \<Rightarrow> (umf_result \<times> umf_alloc_info_t option) option"
  assumes add_law: "inv s \<Longrightarrow> granted s g \<Longrightarrow> a \<noteq> 0 \<Longrightarrow>
      \<exists>r s'. add g s pool a sz = Some (r, s') \<and> inv s' \<and> room s' = room s \<and>
        add_result (rgs s) a \<lparr>tv_pool = pool, tv_size = sz\<rparr> (memory g) r (rgs s')"
    and rem_law: "inv s \<Longrightarrow> a \<noteq> 0 \<Longrightarrow>
      \<exists>s'. rem s a = Some (if rgs s a = None then UMF_RESULT_ERROR_UNKNOWN else UMF_RESULT_SUCCESS, s') \<and>
        inv s' \<and> rgs s' = (rgs s)(a := None) \<and> room s \<le> Suc (room s')"
    and info_law: "inv s \<Longrightarrow> disjoint_ranges (rgs s) \<Longrightarrow> 0 < room s \<Longrightarrow> a \<noteq> 0 \<Longrightarrow>
      \<exists>r. owner (rgs s) a r \<and> info s a = Some (case r of
          None \<Rightarrow> (UMF_RESULT_ERROR_INVALID_ARGUMENT, None)
        | Some (b, v) \<Rightarrow> (UMF_RESULT_SUCCESS, Some \<lparr>info_base = b, info_baseSize = tv_size v, info_pool = tv_pool v\<rparr>))"
begin

lemma add_vacant:
  assumes "inv s" "granted s g" "a \<noteq> 0" "memory g" "vacant (rgs s) a sz" "disjoint_ranges (rgs s)"
  shows "\<exists>s'. add g s pool a sz = Some (UMF_RESULT_SUCCESS, s') \<and> inv s' \<and> room s' = room s \<and>
    rgs s' = (rgs s)(a \<mapsto> \<lparr>tv_pool = pool, tv_size = sz\<rparr>) \<and> disjoint_ranges (rgs s')"
proof -
  from add_law [OF assms(1-3), of pool sz] obtain r s' where s': "add g s pool a sz = Some (r, s')"
    "inv s'" "room s' = room s" "add_result (rgs s) a \<lparr>tv_pool = pool, tv_size = sz\<rparr> (memory g) r (rgs s')"
    by blast
  have "r = UMF_RESULT_SUCCESS" "rgs s' = (rgs s)(a \<mapsto> \<lparr>tv_pool = pool, tv_size = sz\<rparr>)"
    using s'(4) assms(4,5) by (auto simp: add_result_def vacant_def)
  then show ?thesis using s' disjoint_add [OF assms(6), of a "\<lparr>tv_pool = pool, tv_size = sz\<rparr>"] assms(5) by simp
qed

lemma info_covers:
  assumes "inv s" "disjoint_ranges (rgs s)" "0 < room s" "k \<noteq> 0" "covers (rgs s) b v k"
  shows "info s k = Some (UMF_RESULT_SUCCESS, Some \<lparr>info_base = b, info_baseSize = tv_size v, info_pool = tv_pool v\<rparr>)"
proof -
  from info_law [OF assms(1-4)] obtain r where r: "owner (rgs s) k r" "info s k = Some (case r of
          None \<Rightarrow> (UMF_RESULT_ERROR_INVALID_ARGUMENT, None)
        | Some (b, v) \<Rightarrow> (UMF_RESULT_SUCCESS, Some \<lparr>info_base = b, info_baseSize = tv_size v, info_pool = tv_pool v\<rparr>))"
    by blast
  from r(1) assms(5) covers_unique [OF assms(2)] have "r = Some (b, v)"
    by (cases r) (auto simp: owner_def)
  with r(2) show ?thesis by simp
qed

lemma info_only_depends:
  assumes "inv s" "disjoint_ranges (rgs s)" "0 < room s" "inv s'" "disjoint_ranges (rgs s')" "0 < room s'"
    and "k \<noteq> 0" "\<And>b v. covers (rgs s') b v k \<longleftrightarrow> covers (rgs s) b v k"
  shows "info s' k = info s k"
proof -
  from info_law [OF assms(4-7)] obtain r where r: "owner (rgs s') k r" "info s' k = Some (case r of
          None \<Rightarrow> (UMF_RESULT_ERROR_INVALID_ARGUMENT, None)
        | Some (b, v) \<Rightarrow> (UMF_RESULT_SUCCESS, Some \<lparr>info_base = b, info_baseSize = tv_size v, info_pool = tv_pool v\<rparr>))"
    by blast
  show ?thesis
  proof (cases r)
    case None
    then have "\<not> covers (rgs s) b v k" for b v using r(1) assms(8) by (auto simp: owner_def)
    with info_law [OF assms(1-3,7)] r(2) None show ?thesis by (fastforce simp: owner_def split: option.splits)
  next
    case (Some bv)
    then show ?thesis using r info_covers [OF assms(1-3,7)] assms(8) by (auto simp: owner_def)
  qed
qed

text \<open>What a client sees of an addition: the addresses of the range now belong to the pool, the
  others to whom they belonged before.\<close>

lemma add_then_info:
  assumes "inv s" "granted s g" "a \<noteq> 0" "memory g" "vacant (rgs s) a sz" "disjoint_ranges (rgs s)"
    and "0 < room s" "k \<noteq> 0"
  shows "\<exists>s'. add g s pool a sz = Some (UMF_RESULT_SUCCESS, s') \<and> inv s' \<and> disjoint_ranges (rgs s') \<and>
    info s' k = (if a \<le> k \<and> unat k < unat a + unat sz
      then Some (UMF_RESULT_SUCCESS, Some \<lparr>info_base = a, info_baseSize = sz, info_pool = pool\<rparr>)
      else info s k)"
proof -
  let ?v = "\<lparr>tv_pool = pool, tv_size = sz\<rparr>"
  from add_vacant [OF assms(1-6), of pool] obtain s' where s': "add g s pool a sz = Some (UMF_RESULT_SUCCESS, s')"
    "inv s'" "room s' = room s" "rgs s' = (rgs s)(a \<mapsto> ?v)" "disjoint_ranges (rgs s')" by blast
  have cov: "covers (rgs s') b w k \<longleftrightarrow>
      (if a \<le> k \<and> unat k < unat a + unat sz then b = a \<and> w = ?v else covers (rgs s) b w k)" for b w
    using covers_add [of "rgs s" a ?v] assms(5) s'(4) by simp
  have room: "0 < room s'" using s'(3) assms(7) by simp
  show ?thesis
  proof (cases "a \<le> k \<and> unat k < unat a + unat sz")
    case True
    then have "covers (rgs s') a ?v k" using cov by simp
    from info_covers [OF s'(2,5) room assms(8) this] True s' show ?thesis by auto
  next
    case False
    then have "covers (rgs s') b v k \<longleftrightarrow> covers (rgs s) b v k" for b v by (simp only: cov if_False)
    from info_only_depends [OF assms(1,6,7) s'(2,5) room assms(8) this] False s' show ?thesis by auto
  qed
qed

lemma add_then_rem:
  assumes "inv s" "granted s g" "a \<noteq> 0" "add g s pool a sz = Some (UMF_RESULT_SUCCESS, s')"
  shows "\<exists>s''. rem s' a = Some (UMF_RESULT_SUCCESS, s'') \<and> inv s'' \<and> rgs s'' = rgs s"
proof -
  from add_law [OF assms(1-3), of pool sz] assms(4) have i: "inv s'"
    and c: "rgs s a = None" "rgs s' = (rgs s)(a \<mapsto> \<lparr>tv_pool = pool, tv_size = sz\<rparr>)"
    by (auto simp: add_result_def)
  from rem_law [OF i assms(3)] c show ?thesis by (auto simp: fun_upd_idem)
qed

end

interpretation trk: range_tracker "tracker_ok env" "\<lambda>t. critnib_room (map_t t)" ranges_of grant_ok
    "\<lambda>g. g_leaf g \<noteq> NULL \<and> g_node g \<noteq> NULL" "umfMemoryTrackerAdd env" "umfMemoryTrackerRemove env"
    "\<lambda>t. umfMemoryTrackerGetAllocInfo (Some t)" for env
proof
  fix t g a pool sz
  assume "tracker_ok env t" "grant_ok t g" "a \<noteq> (0 :: u64)"
  from add_ok [OF this, of pool sz] show "\<exists>r t'. umfMemoryTrackerAdd env g t pool a sz = Some (r, t') \<and> tracker_ok env t' \<and>
      critnib_room (map_t t') = critnib_room (map_t t) \<and> add_result (ranges_of t) a \<lparr>tv_pool = pool, tv_size = sz\<rparr>
        (g_leaf g \<noteq> NULL \<and> g_node g \<noteq> NULL) r (ranges_of t')" by metis
next
  fix t a
  assume "tracker_ok env t" "a \<noteq> (0 :: u64)"
  then obtain r t' where "umfMemoryTrackerRemove env t a = Some (r, t')" "tracker_ok env t'"
    "r = (if ranges_of t a = None then UMF_RESULT_ERROR_UNKNOWN else UMF_RESULT_SUCCESS)"
    "ranges_of t' = (ranges_of t)(a := None)" "critnib_room (map_t t) \<le> Suc (critnib_room (map_t t'))"
    by (rule remove_ok)
  then show "\<exists>t'. umfMemoryTrackerRemove env t a =
        Some (if ranges_of t a = None then UMF_RESULT_ERROR_UNKNOWN else UMF_RESULT_SUCCESS, t') \<and>
      tracker_ok env t' \<and> ranges_of t' = (ranges_of t)(a := None) \<and>
      critnib_room (map_t t) \<le> Suc (critnib_room (map_t t'))" by blast
next
  fix t a
  assume a: "tracker_ok env t" "disjoint_ranges (ranges_of t)" "0 < critnib_room (map_t t)" "a \<noteq> (0 :: u64)"
  show "\<exists>r. owner (ranges_of t) a r \<and> umfMemoryTrackerGetAllocInfo (Some t) a = Some (case r of
          None \<Rightarrow> (UMF_RESULT_ERROR_INVALID_ARGUMENT, None)
        | Some (b, v) \<Rightarrow> (UMF_RESULT_SUCCESS, Some \<lparr>info_base = b, info_baseSize = tv_size v, info_pool = tv_pool v\<rparr>))"
  proof (cases "\<exists>b v. covers (ranges_of t) b v a")
    case True
    then obtain b v where "covers (ranges_of t) b v a" by blast
    with info_hit [OF a this] show ?thesis by (intro exI [of _ "Some (b, v)"]) (simp add: owner_def)
  next
    case False
    with info_miss [OF a False] show ?thesis by (intro exI [of _ None]) (simp add: owner_def)
  qed
qed

section \<open>Spare chunks of the allocator\<close>

definition ba_spare :: "umf_ba_pool_t \<Rightarrow> nat" where
  "ba_spare P = unat (n_chunks P - n_allocs P)"

lemma spare_free_list:
  assumes "ba_ok env P A" "0 < ba_spare P" shows "free_list P \<noteq> NULL"
proof
  assume nl: "free_list P = NULL"
  obtain qs where rep: "ba_rep env P A [] qs" using assms(1) nl by (auto simp: ba_ok_def ba_rep_def)
  then have "n_chunks P - n_allocs P = 0" using ba_rep_counts [OF rep] by (simp add: ba_rep_def)
  then show False using assms(2) by (simp add: ba_spare_def)
qed

lemma spare_usable: "ba_ok env P A \<Longrightarrow> 0 < ba_spare P \<Longrightarrow> ba_usable mmap P"
  using spare_free_list [of env P A] by (simp add: ba_usable_def)

lemma alloc_spare:
  assumes "umf_ba_alloc mmap P = Some (c, P')" "free_list P \<noteq> NULL" "0 < ba_spare P"
  shows "ba_spare P' = ba_spare P - 1"
proof -
  have "n_chunks P' = n_chunks P" "n_allocs P' = n_allocs P + 1"
    using assms(1,2)
    by (auto simp: umf_ba_alloc_def ba_take_chunk_def mutex_lock_def mutex_unlock_def Let_def
        split: bind_splits if_splits)
  then have "n_chunks P' - n_allocs P' = (n_chunks P - n_allocs P) - 1" by simp
  then show ?thesis using assms(3) by (simp add: ba_spare_def unat_sub_u64)
qed

section \<open>Creation and an example\<close>

lemma tracker_create:
  assumes "env_ok env" "host \<noteq> NULL" "0 < p" "8 dvd p" "p + 2 ^ 60 < 2 ^ 64" "cn \<noteq> NULL"
  obtains t where "umfMemoryTrackerCreate env proxy host p True True cn True = Some (Some t)"
    "tracker_ok env t" "ranges_of t = Map.empty" "\<not> splitMergeMutex t" "map_t t = critnib_zero"
    "128 \<le> ba_spare (tracker_allocator t)"
proof -
  obtain P where P: "umf_ba_create env p True 16 = Some (Some P)" "ba_ok env P {}" "128 \<le> unat (n_chunks P)"
    by (rule ba_create_rep [of env 16 p]) (use assms in simp_all)
  have "n_allocs P = 0" using P(2) by (auto simp: ba_ok_def ba_rep_def)
  then have sp: "128 \<le> ba_spare P" using P(3) by (simp add: ba_spare_def)
  let ?t = "\<lparr>tracker_allocator = P, map_t = critnib_zero, splitMergeMutex = False, tvalues = Map.empty\<rparr>"
  have c: "contents critnib_zero = Map.empty" by (rule contents_zero)
  have "tracker_ok env ?t" using P(2) critnib_ok_zero by (simp add: tracker_ok_def c)
  moreover have "ranges_of ?t = Map.empty" by (simp add: ranges_of_def c fun_eq_iff)
  moreover have "umfMemoryTrackerCreate env proxy host p True True cn True = Some (Some ?t)"
    using assms P(1) by (simp add: umfMemoryTrackerCreate_def critnib_new_def)
  ultimately show thesis using that [of ?t] sp by simp
qed

definition example_grant :: mem_grant where
  "example_grant = \<lparr>g_mmap = 0, g_leaf = 1001, g_node = 2001\<rparr>"

lemma example_tracker:
  obtains t where "umfMemoryTrackerCreate env_linux False 1 4096 True True 1 True = Some (Some t)"
    "tracker_ok env_linux t" "ranges_of t = Map.empty" "grant_ok t example_grant"
    "critnib_room (map_t t) = 2 ^ 64 - DELETED_LIFE" "128 \<le> ba_spare (tracker_allocator t)"
    "\<not> splitMergeMutex t" "map_t t = critnib_zero"
proof -
  obtain t where t: "umfMemoryTrackerCreate env_linux False 1 4096 True True 1 True = Some (Some t)"
    "tracker_ok env_linux t" "ranges_of t = Map.empty" "\<not> splitMergeMutex t" "map_t t = critnib_zero"
    "128 \<le> ba_spare (tracker_allocator t)"
    by (rule tracker_create [of env_linux 1 4096 1 False]) (use env_linux_ok in simp_all)
  have "ba_usable 0 (tracker_allocator t)"
    using t(2,6) by (intro spare_usable [of env_linux _ "dom (tvalues t)"]) (auto simp: tracker_ok_def)
  then have "grant_ok t example_grant" using t(5)
    by (simp add: grant_ok_def example_grant_def critnib_fresh_def critnib_zero_def)
  then show thesis using that t by (simp add: critnib_room_def critnib_zero_def)
qed

section \<open>Properties\<close>

text \<open>C28: Adding a range that does not wrap around and meets no tracked range, with memory for
  the entry, terminates and succeeds; afterwards the pool of any address of the range is the pool
  it was added for, of any other address the pool found before; the ranges stay disjoint, and
  removing the range restores the map of ranges.\<close>

theorem tracker_add_then_lookup:
  assumes "tracker_ok env t" "grant_ok t g" "g_leaf g \<noteq> NULL" "g_node g \<noteq> NULL" "a \<noteq> 0"
    and "vacant (ranges_of t) a sz" "disjoint_ranges (ranges_of t)" "0 < critnib_room (map_t t)" "k \<noteq> 0"
  shows "\<exists>t'. umfMemoryTrackerAdd env g t pool a sz = Some (UMF_RESULT_SUCCESS, t') \<and>
    tracker_ok env t' \<and> disjoint_ranges (ranges_of t') \<and>
    umfMemoryTrackerGetPool (Some t') k =
      (if a \<le> k \<and> unat k < unat a + unat sz then Some pool else umfMemoryTrackerGetPool (Some t) k) \<and>
    (\<exists>t''. umfMemoryTrackerRemove env t' a = Some (UMF_RESULT_SUCCESS, t'') \<and> tracker_ok env t'' \<and>
      ranges_of t'' = ranges_of t)"
proof -
  from trk.add_then_info [OF assms(1,2,5) conjI [OF assms(3,4)] assms(6-9), of pool] obtain t' where
    t': "umfMemoryTrackerAdd env g t pool a sz = Some (UMF_RESULT_SUCCESS, t')"
      "tracker_ok env t'" "disjoint_ranges (ranges_of t')"
      "umfMemoryTrackerGetAllocInfo (Some t') k = (if a \<le> k \<and> unat k < unat a + unat sz
        then Some (UMF_RESULT_SUCCESS, Some \<lparr>info_base = a, info_baseSize = sz, info_pool = pool\<rparr>)
        else umfMemoryTrackerGetAllocInfo (Some t) k)" by blast
  have "umfMemoryTrackerGetPool (Some t') k =
      (if a \<le> k \<and> unat k < unat a + unat sz then Some pool else umfMemoryTrackerGetPool (Some t) k)"
    unfolding umfMemoryTrackerGetPool_def t'(4) by simp
  with t' trk.add_then_rem [OF assms(1,2,5) t'(1)] show ?thesis by blast
qed

theorem tracker_add_then_lookup_witness:
  "\<exists>t t'. umfMemoryTrackerCreate env_linux False 1 4096 True True 1 True = Some (Some t) \<and>
     umfMemoryTrackerAdd env_linux example_grant t 5 8192 64 = Some (UMF_RESULT_SUCCESS, t') \<and>
     umfMemoryTrackerGetPool (Some t') 8200 = Some 5"
proof -
  obtain t where t: "umfMemoryTrackerCreate env_linux False 1 4096 True True 1 True = Some (Some t)"
    "tracker_ok env_linux t" "ranges_of t = Map.empty" "grant_ok t example_grant"
    "critnib_room (map_t t) = 2 ^ 64 - DELETED_LIFE"
    by (rule example_tracker)
  from tracker_add_then_lookup [OF t(2,4), of 8192 64 8200 5] t(3,5) t(1) show ?thesis
    by (auto simp: example_grant_def vacant_def disjoint_ranges_def DELETED_LIFE_def)
qed

text \<open>C29: Clearing the tracker for a pool terminates, passes its assertions and removes exactly the
  ranges of that pool, and clearing the tracker removes all ranges, provided the counter of
  removals of the critnib does not overflow during the removal of the entries.\<close>

theorem tracker_clear_removes_pool:
  assumes "tracker_ok env t" "card (dom (ranges_of t)) < critnib_room (map_t t)" "ranges_of t 0 = None"
  shows "(pool \<noteq> NULL \<longrightarrow> (\<exists>t'. clear_tracker_for_the_pool env t pool = Some t' \<and> tracker_ok env t' \<and>
      (\<forall>a. ranges_of t' a = (case ranges_of t a of None \<Rightarrow> None | Some v \<Rightarrow> if tv_pool v = pool then None else Some v)))) \<and>
    (\<exists>t'. clear_tracker env t = Some t' \<and> tracker_ok env t' \<and> ranges_of t' = Map.empty)"
proof -
  have "above t 0 = dom (ranges_of t)" using assms(3) by (auto simp: above_def word_gt_0)
  with assms(2) have c: "card (above t 0) < critnib_room (map_t t)" by simp
  have pos: "(0 < a) = (a \<noteq> 0)" for a :: u64 by (auto simp: word_gt_0)
  have get: "cleared pool 0 (ranges_of t) a =
      (case ranges_of t a of None \<Rightarrow> None | Some v \<Rightarrow> if pool = NULL \<or> tv_pool v = pool then None else Some v)" for pool a
    using assms(3) by (cases "a = 0") (auto simp: cleared_def pos split: option.splits)
  from clear_loop_ok [OF assms(1) c, of NULL 0] obtain n t' where
    all: "clear_loop env NULL t 0 0 = Some (n, t')" "tracker_ok env t'" "ranges_of t' = cleared NULL 0 (ranges_of t)"
    by blast
  have "ranges_of t' = Map.empty" unfolding all(3) by (auto simp: get fun_eq_iff split: option.splits)
  moreover from clear_loop_ok [OF assms(1) c, of pool 0] obtain n t'' where
    "clear_loop env pool t 0 0 = Some (n, t'')" "tracker_ok env t''" "ranges_of t'' = cleared pool 0 (ranges_of t)"
    by blast
  ultimately show ?thesis using all(1,2)
    by (auto simp: clear_tracker_def clear_tracker_for_the_pool_def get split: option.splits)
qed

theorem tracker_clear_removes_pool_witness:
  "\<exists>t t' t''. umfMemoryTrackerAdd env_linux example_grant t 5 8192 64 = Some (UMF_RESULT_SUCCESS, t') \<and>
     clear_tracker_for_the_pool env_linux t' 5 = Some t'' \<and> ranges_of t' 8192 \<noteq> None \<and> ranges_of t'' 8192 = None"
proof -
  obtain t where t: "tracker_ok env_linux t" "ranges_of t = Map.empty" "grant_ok t example_grant"
    "critnib_room (map_t t) = 2 ^ 64 - DELETED_LIFE"
    by (rule example_tracker)
  have v: "vacant (ranges_of t) 8192 64" "disjoint_ranges (ranges_of t)"
    by (simp_all add: t(2) vacant_def disjoint_ranges_def)
  from trk.add_vacant [OF t(1,3) _ _ v, of 5] obtain t' where
    t': "umfMemoryTrackerAdd env_linux example_grant t 5 8192 64 = Some (UMF_RESULT_SUCCESS, t')"
      "tracker_ok env_linux t'" "ranges_of t' = [8192 \<mapsto> \<lparr>tv_pool = 5, tv_size = 64\<rparr>]"
      "critnib_room (map_t t') = 2 ^ 64 - DELETED_LIFE"
    by (auto simp: example_grant_def t(2,4))
  from tracker_clear_removes_pool [OF t'(2), of 5] t'(3,4) obtain t'' where
    "clear_tracker_for_the_pool env_linux t' 5 = Some t''" "ranges_of t'' 8192 = None"
    by (auto simp: DELETED_LIFE_def)
  with t'(1,3) show ?thesis by fastforce
qed

end
