(* ===== verification/Memory_Provider.thy ===== *)
theory Memory_Provider
  imports UMF_Prelude
begin

text \<open>
  The memory provider layer (\<open>memory_provider.c\<close>, \<open>memory_provider_get_last_failed.c\<close>): a provider
  is a table of operations with a private state; the functions of the public interface check
  their arguments, call the operation and record the provider whose operation failed.

  The operations are function pointers that the user supplies: parameters of the model, acting
  on a state of type \<open>'w\<close> that stands for everything behind them. A handle of a provider is the
  address of a record in a store; calling through a null function pointer is \<open>None\<close>. Addresses of
  the memory that is managed are 64-bit words.
\<close>

section \<open>The table of operations\<close>

type_synonym ('a, 'w) eff = "'w \<Rightarrow> ('a \<times> 'w) option"

type_synonym ipc_data = "8 word list"

text \<open>The argument of the operation that opens a handle points into a structure whose header the
  tracking provider reads: \<open>enclosing_baseSize\<close> is the size field in front of the bytes.\<close>

record ipc_buf =
  enclosing_baseSize :: u64
  ipc_bytes :: ipc_data

text \<open>A pointer to an optional operation: null, the default that the library fills in, or the
  user's function.\<close>

datatype 'f op_ptr = NullOp | DefaultOp | Op 'f

primrec is_null :: "'f op_ptr \<Rightarrow> bool" where
  "is_null NullOp = True"
| "is_null DefaultOp = False"
| "is_null (Op f) = False"

primrec resolve :: "'f \<Rightarrow> 'f op_ptr \<Rightarrow> 'f option" where
  "resolve d NullOp = None"
| "resolve d DefaultOp = Some d"
| "resolve d (Op f) = Some f"

record 'w umf_memory_provider_ops_t =
  version :: nat
  initialize :: "(ptr \<Rightarrow> (umf_result \<times> ptr, 'w) eff) option"
  finalize :: "(ptr \<Rightarrow> (unit, 'w) eff) option"
  op_alloc :: "(ptr \<Rightarrow> u64 \<Rightarrow> u64 \<Rightarrow> (umf_result \<times> u64, 'w) eff) option"
  get_last_native_error :: "(ptr \<Rightarrow> (string \<times> int, 'w) eff) option"
  get_recommended_page_size :: "(ptr \<Rightarrow> u64 \<Rightarrow> (umf_result \<times> u64, 'w) eff) option"
  get_min_page_size :: "(ptr \<Rightarrow> u64 \<Rightarrow> (umf_result \<times> u64, 'w) eff) option"
  get_name :: "(ptr \<Rightarrow> (string, 'w) eff) option"
  ext_free :: "(ptr \<Rightarrow> u64 \<Rightarrow> u64 \<Rightarrow> (umf_result, 'w) eff) op_ptr"
  purge_lazy :: "(ptr \<Rightarrow> u64 \<Rightarrow> u64 \<Rightarrow> (umf_result, 'w) eff) op_ptr"
  purge_force :: "(ptr \<Rightarrow> u64 \<Rightarrow> u64 \<Rightarrow> (umf_result, 'w) eff) op_ptr"
  allocation_split :: "(ptr \<Rightarrow> u64 \<Rightarrow> u64 \<Rightarrow> u64 \<Rightarrow> (umf_result, 'w) eff) op_ptr"
  allocation_merge :: "(ptr \<Rightarrow> u64 \<Rightarrow> u64 \<Rightarrow> u64 \<Rightarrow> (umf_result, 'w) eff) op_ptr"
  get_ipc_handle_size :: "(ptr \<Rightarrow> (umf_result \<times> u64, 'w) eff) op_ptr"
  get_ipc_handle :: "(ptr \<Rightarrow> u64 \<Rightarrow> u64 \<Rightarrow> (umf_result \<times> ipc_data, 'w) eff) op_ptr"
  put_ipc_handle :: "(ptr \<Rightarrow> ipc_data \<Rightarrow> (umf_result, 'w) eff) op_ptr"
  open_ipc_handle :: "(ptr \<Rightarrow> ipc_buf \<Rightarrow> (umf_result \<times> u64, 'w) eff) op_ptr"
  close_ipc_handle :: "(ptr \<Rightarrow> u64 \<Rightarrow> u64 \<Rightarrow> (umf_result, 'w) eff) op_ptr"

record 'w umf_memory_provider_t =
  ops :: "'w umf_memory_provider_ops_t"
  provider_priv :: ptr

text \<open>
  The providers that exist, the state behind them and the last failed provider of the thread. The
  thread has one such variable: an operation that calls the public interface on a provider of
  its own writes to it too. An operation therefore acts on the pair of the state behind the
  providers and this variable.
\<close>

record 'w prov_state =
  world :: 'w
  providers :: "ptr \<rightharpoonup> ('w \<times> ptr) umf_memory_provider_t"
  lastFailedProvider :: ptr

definition call_op :: "('a, 'w \<times> ptr) eff \<Rightarrow> ('a, 'w prov_state) eff" where
  "call_op f s = do {
     (r, w, l) \<leftarrow> f (world s, lastFailedProvider s);
     Some (r, s\<lparr>world := w, lastFailedProvider := l\<rparr>)
   }"

text \<open>
  An operation \<open>f\<close> whose state holds the state of a provider layer of its own, with its own copy of
  the variable that \<open>get\<close> reads and \<open>put\<close> writes, as an operation of a provider: the copy is the
  variable of the thread.
\<close>

definition in_thread :: "('s \<Rightarrow> ptr) \<Rightarrow> (ptr \<Rightarrow> 's \<Rightarrow> 's) \<Rightarrow> ('a, 's) eff \<Rightarrow> ('a, 's \<times> ptr) eff" where
  "in_thread get put f = (\<lambda>(s, l). do {
     (r, s) \<leftarrow> f (put l s);
     Some (r, s, get s)
   })"

definition UMF_VERSION_CURRENT :: nat where
  "UMF_VERSION_CURRENT = 10"

section \<open>Default operations\<close>

definition umfDefaultFree :: "ptr \<Rightarrow> u64 \<Rightarrow> u64 \<Rightarrow> (umf_result, 'w) eff" where
  "umfDefaultFree provider p sz w = Some (UMF_RESULT_ERROR_NOT_SUPPORTED, w)"

definition umfDefaultPurgeLazy :: "ptr \<Rightarrow> u64 \<Rightarrow> u64 \<Rightarrow> (umf_result, 'w) eff" where
  "umfDefaultPurgeLazy provider p sz w = Some (UMF_RESULT_ERROR_NOT_SUPPORTED, w)"

definition umfDefaultPurgeForce :: "ptr \<Rightarrow> u64 \<Rightarrow> u64 \<Rightarrow> (umf_result, 'w) eff" where
  "umfDefaultPurgeForce provider p sz w = Some (UMF_RESULT_ERROR_NOT_SUPPORTED, w)"

definition umfDefaultAllocationSplit :: "ptr \<Rightarrow> u64 \<Rightarrow> u64 \<Rightarrow> u64 \<Rightarrow> (umf_result, 'w) eff" where
  "umfDefaultAllocationSplit provider p totalSize firstSize w = Some (UMF_RESULT_ERROR_NOT_SUPPORTED, w)"

definition umfDefaultAllocationMerge :: "ptr \<Rightarrow> u64 \<Rightarrow> u64 \<Rightarrow> u64 \<Rightarrow> (umf_result, 'w) eff" where
  "umfDefaultAllocationMerge provider lowPtr highPtr totalSize w = Some (UMF_RESULT_ERROR_NOT_SUPPORTED, w)"

text \<open>The default functions leave their output parameters unwritten; the value in the pair is not
  used when the result is an error.\<close>

definition umfDefaultGetIPCHandleSize :: "ptr \<Rightarrow> (umf_result \<times> u64, 'w) eff" where
  "umfDefaultGetIPCHandleSize provider w = Some ((UMF_RESULT_ERROR_NOT_SUPPORTED, 0), w)"

definition umfDefaultGetIPCHandle :: "ptr \<Rightarrow> u64 \<Rightarrow> u64 \<Rightarrow> (umf_result \<times> ipc_data, 'w) eff" where
  "umfDefaultGetIPCHandle provider p sz w = Some ((UMF_RESULT_ERROR_NOT_SUPPORTED, []), w)"

definition umfDefaultPutIPCHandle :: "ptr \<Rightarrow> ipc_data \<Rightarrow> (umf_result, 'w) eff" where
  "umfDefaultPutIPCHandle provider d w = Some (UMF_RESULT_ERROR_NOT_SUPPORTED, w)"

definition umfDefaultOpenIPCHandle :: "ptr \<Rightarrow> ipc_buf \<Rightarrow> (umf_result \<times> u64, 'w) eff" where
  "umfDefaultOpenIPCHandle provider d w = Some ((UMF_RESULT_ERROR_NOT_SUPPORTED, 0), w)"

definition umfDefaultCloseIPCHandle :: "ptr \<Rightarrow> u64 \<Rightarrow> u64 \<Rightarrow> (umf_result, 'w) eff" where
  "umfDefaultCloseIPCHandle provider p sz w = Some (UMF_RESULT_ERROR_NOT_SUPPORTED, w)"

definition with_default :: "'f op_ptr \<Rightarrow> 'f op_ptr" where
  "with_default f = (if is_null f then DefaultOp else f)"

definition assignOpsExtDefaults :: "'w umf_memory_provider_ops_t \<Rightarrow> 'w umf_memory_provider_ops_t" where
  "assignOpsExtDefaults t = t\<lparr>
     ext_free := with_default (ext_free t),
     purge_lazy := with_default (purge_lazy t),
     purge_force := with_default (purge_force t),
     allocation_split := with_default (allocation_split t),
     allocation_merge := with_default (allocation_merge t)\<rparr>"

definition assignOpsIpcDefaults :: "'w umf_memory_provider_ops_t \<Rightarrow> 'w umf_memory_provider_ops_t" where
  "assignOpsIpcDefaults t = t\<lparr>
     get_ipc_handle_size := with_default (get_ipc_handle_size t),
     get_ipc_handle := with_default (get_ipc_handle t),
     put_ipc_handle := with_default (put_ipc_handle t),
     open_ipc_handle := with_default (open_ipc_handle t),
     close_ipc_handle := with_default (close_ipc_handle t)\<rparr>"

section \<open>Validation\<close>

definition validateOpsMandatory :: "'w umf_memory_provider_ops_t \<Rightarrow> bool" where
  "validateOpsMandatory t \<longleftrightarrow> op_alloc t \<noteq> None \<and> get_recommended_page_size t \<noteq> None \<and>
     get_min_page_size t \<noteq> None \<and> initialize t \<noteq> None \<and> finalize t \<noteq> None \<and>
     get_last_native_error t \<noteq> None \<and> get_name t \<noteq> None"

definition validateOpsExt :: "'w umf_memory_provider_ops_t \<Rightarrow> bool" where
  "validateOpsExt t \<longleftrightarrow>
     (\<not> is_null (allocation_split t) \<and> \<not> is_null (allocation_merge t)) \<or>
     (is_null (allocation_split t) \<and> is_null (allocation_merge t))"

definition validateOpsIpc :: "'w umf_memory_provider_ops_t \<Rightarrow> bool" where
  "validateOpsIpc t \<longleftrightarrow>
     (\<not> is_null (get_ipc_handle_size t) \<and> \<not> is_null (get_ipc_handle t) \<and> \<not> is_null (put_ipc_handle t) \<and>
      \<not> is_null (open_ipc_handle t) \<and> \<not> is_null (close_ipc_handle t)) \<or>
     (is_null (get_ipc_handle_size t) \<and> is_null (get_ipc_handle t) \<and> is_null (put_ipc_handle t) \<and>
      is_null (open_ipc_handle t) \<and> is_null (close_ipc_handle t))"

definition validateOps :: "'w umf_memory_provider_ops_t \<Rightarrow> bool" where
  "validateOps t \<longleftrightarrow> validateOpsMandatory t \<and> validateOpsExt t \<and> validateOpsIpc t"

definition umfIsFreeOpDefault :: "'w prov_state \<Rightarrow> ptr \<Rightarrow> bool option" where
  "umfIsFreeOpDefault s h = do {
     p \<leftarrow> providers s h;
     Some (case ext_free (ops p) of DefaultOp \<Rightarrow> True | _ \<Rightarrow> False)
   }"

section \<open>Creation and destruction\<close>

text \<open>\<open>mp\<close> is the address that the base allocator returns for the record of the provider; \<open>ops\<close> and
  \<open>hProvider\<close> may be null pointers.\<close>

definition umfMemoryProviderCreate ::
  "ptr \<Rightarrow> ('w \<times> ptr) umf_memory_provider_ops_t option \<Rightarrow> ptr \<Rightarrow> bool \<Rightarrow> 'w prov_state \<Rightarrow>
   ((umf_result \<times> ptr) \<times> 'w prov_state) option" where
  "umfMemoryProviderCreate mp opsp params hProvider s =
     (case opsp of
        None \<Rightarrow> Some ((UMF_RESULT_ERROR_INVALID_ARGUMENT, NULL), s)
      | Some t \<Rightarrow>
          if \<not> hProvider \<or> \<not> validateOps t then Some ((UMF_RESULT_ERROR_INVALID_ARGUMENT, NULL), s)
          else if mp = NULL then Some ((UMF_RESULT_ERROR_OUT_OF_HOST_MEMORY, NULL), s)
          else do {
            guard (version t = UMF_VERSION_CURRENT);
            f \<leftarrow> initialize t;
            ((ret, priv), s) \<leftarrow> call_op (f params) s;
            if ret \<noteq> UMF_RESULT_SUCCESS then Some ((ret, NULL), s)
            else Some ((UMF_RESULT_SUCCESS, mp),
              s\<lparr>providers := (providers s)(mp \<mapsto>
                \<lparr>ops = assignOpsIpcDefaults (assignOpsExtDefaults t), provider_priv = priv\<rparr>)\<rparr>)
          })"

definition umfMemoryProviderDestroy :: "ptr \<Rightarrow> 'w prov_state \<Rightarrow> 'w prov_state option" where
  "umfMemoryProviderDestroy h s =
     (if h = NULL then Some s
      else do {
        p \<leftarrow> providers s h;
        f \<leftarrow> finalize (ops p);
        (_, s) \<leftarrow> call_op (f (provider_priv p)) s;
        Some (s\<lparr>providers := (providers s)(h := None)\<rparr>)
      })"

section \<open>Calls\<close>

definition checkErrorAndSetLastProvider :: "umf_result \<Rightarrow> ptr \<Rightarrow> 'w prov_state \<Rightarrow> 'w prov_state" where
  "checkErrorAndSetLastProvider result h s =
     (if result \<noteq> UMF_RESULT_SUCCESS then s\<lparr>lastFailedProvider := h\<rparr> else s)"

definition umfGetLastFailedMemoryProvider :: "'w prov_state \<Rightarrow> ptr" where
  "umfGetLastFailedMemoryProvider s = lastFailedProvider s"

definition umfMemoryProviderAlloc ::
  "ptr \<Rightarrow> u64 \<Rightarrow> u64 \<Rightarrow> (umf_result \<times> u64, 'w prov_state) eff" where
  "umfMemoryProviderAlloc h sz alignment s =
     (if h = NULL then Some ((UMF_RESULT_ERROR_INVALID_ARGUMENT, 0), s)
      else do {
        p \<leftarrow> providers s h;
        f \<leftarrow> op_alloc (ops p);
        ((res, a), s) \<leftarrow> call_op (f (provider_priv p) sz alignment) s;
        Some ((res, a), checkErrorAndSetLastProvider res h s)
      })"

definition umfMemoryProviderFree :: "ptr \<Rightarrow> u64 \<Rightarrow> u64 \<Rightarrow> (umf_result, 'w prov_state) eff" where
  "umfMemoryProviderFree h a sz s =
     (if h = NULL then Some (UMF_RESULT_ERROR_INVALID_ARGUMENT, s)
      else do {
        p \<leftarrow> providers s h;
        f \<leftarrow> resolve umfDefaultFree (ext_free (ops p));
        (res, s) \<leftarrow> call_op (f (provider_priv p) a sz) s;
        Some (res, checkErrorAndSetLastProvider res h s)
      })"

definition umfMemoryProviderGetLastNativeError :: "ptr \<Rightarrow> (string \<times> int, 'w prov_state) eff" where
  "umfMemoryProviderGetLastNativeError h s = do {
     guard (h \<noteq> NULL);
     p \<leftarrow> providers s h;
     f \<leftarrow> get_last_native_error (ops p);
     (r, s) \<leftarrow> call_op (f (provider_priv p)) s;
     Some (r, s)
   }"

definition umfMemoryProviderGetPriv :: "'w prov_state \<Rightarrow> ptr \<Rightarrow> ptr option" where
  "umfMemoryProviderGetPriv s h =
     (if h = NULL then Some NULL else do { p \<leftarrow> providers s h; Some (provider_priv p) })"

definition umfMemoryProviderGetRecommendedPageSize ::
  "ptr \<Rightarrow> u64 \<Rightarrow> (umf_result \<times> u64, 'w prov_state) eff" where
  "umfMemoryProviderGetRecommendedPageSize h sz s =
     (if h = NULL then Some ((UMF_RESULT_ERROR_INVALID_ARGUMENT, 0), s)
      else do {
        p \<leftarrow> providers s h;
        f \<leftarrow> get_recommended_page_size (ops p);
        ((res, n), s) \<leftarrow> call_op (f (provider_priv p) sz) s;
        Some ((res, n), checkErrorAndSetLastProvider res h s)
      })"

definition umfMemoryProviderGetMinPageSize ::
  "ptr \<Rightarrow> u64 \<Rightarrow> (umf_result \<times> u64, 'w prov_state) eff" where
  "umfMemoryProviderGetMinPageSize h a s =
     (if h = NULL then Some ((UMF_RESULT_ERROR_INVALID_ARGUMENT, 0), s)
      else do {
        p \<leftarrow> providers s h;
        f \<leftarrow> get_min_page_size (ops p);
        ((res, n), s) \<leftarrow> call_op (f (provider_priv p) a) s;
        Some ((res, n), checkErrorAndSetLastProvider res h s)
      })"

text \<open>The name is a string or, for the null handle, the null pointer.\<close>

definition umfMemoryProviderGetName :: "ptr \<Rightarrow> (string option, 'w prov_state) eff" where
  "umfMemoryProviderGetName h s =
     (if h = NULL then Some (None, s)
      else do {
        p \<leftarrow> providers s h;
        f \<leftarrow> get_name (ops p);
        (n, s) \<leftarrow> call_op (f (provider_priv p)) s;
        Some (Some n, s)
      })"

definition umfMemoryProviderPurgeLazy :: "ptr \<Rightarrow> u64 \<Rightarrow> u64 \<Rightarrow> (umf_result, 'w prov_state) eff" where
  "umfMemoryProviderPurgeLazy h a sz s =
     (if h = NULL then Some (UMF_RESULT_ERROR_INVALID_ARGUMENT, s)
      else do {
        p \<leftarrow> providers s h;
        f \<leftarrow> resolve umfDefaultPurgeLazy (purge_lazy (ops p));
        (res, s) \<leftarrow> call_op (f (provider_priv p) a sz) s;
        Some (res, checkErrorAndSetLastProvider res h s)
      })"

definition umfMemoryProviderPurgeForce :: "ptr \<Rightarrow> u64 \<Rightarrow> u64 \<Rightarrow> (umf_result, 'w prov_state) eff" where
  "umfMemoryProviderPurgeForce h a sz s =
     (if h = NULL then Some (UMF_RESULT_ERROR_INVALID_ARGUMENT, s)
      else do {
        p \<leftarrow> providers s h;
        f \<leftarrow> resolve umfDefaultPurgeForce (purge_force (ops p));
        (res, s) \<leftarrow> call_op (f (provider_priv p) a sz) s;
        Some (res, checkErrorAndSetLastProvider res h s)
      })"

definition umfMemoryProviderAllocationSplit ::
  "ptr \<Rightarrow> u64 \<Rightarrow> u64 \<Rightarrow> u64 \<Rightarrow> (umf_result, 'w prov_state) eff" where
  "umfMemoryProviderAllocationSplit h a totalSize firstSize s =
     (if a = 0 then Some (UMF_RESULT_ERROR_INVALID_ARGUMENT, s)
      else if firstSize = 0 \<or> totalSize = 0 then Some (UMF_RESULT_ERROR_INVALID_ARGUMENT, s)
      else if totalSize \<le> firstSize then Some (UMF_RESULT_ERROR_INVALID_ARGUMENT, s)
      else do {
        p \<leftarrow> providers s h;
        f \<leftarrow> resolve umfDefaultAllocationSplit (allocation_split (ops p));
        (res, s) \<leftarrow> call_op (f (provider_priv p) a totalSize firstSize) s;
        Some (res, checkErrorAndSetLastProvider res h s)
      })"

definition umfMemoryProviderAllocationMerge ::
  "ptr \<Rightarrow> u64 \<Rightarrow> u64 \<Rightarrow> u64 \<Rightarrow> (umf_result, 'w prov_state) eff" where
  "umfMemoryProviderAllocationMerge h lowPtr highPtr totalSize s =
     (if lowPtr = 0 \<or> highPtr = 0 then Some (UMF_RESULT_ERROR_INVALID_ARGUMENT, s)
      else if totalSize = 0 then Some (UMF_RESULT_ERROR_INVALID_ARGUMENT, s)
      else if highPtr \<le> lowPtr then Some (UMF_RESULT_ERROR_INVALID_ARGUMENT, s)
      else if totalSize < highPtr - lowPtr then Some (UMF_RESULT_ERROR_INVALID_ARGUMENT, s)
      else do {
        p \<leftarrow> providers s h;
        f \<leftarrow> resolve umfDefaultAllocationMerge (allocation_merge (ops p));
        (res, s) \<leftarrow> call_op (f (provider_priv p) lowPtr highPtr totalSize) s;
        Some (res, checkErrorAndSetLastProvider res h s)
      })"

section \<open>Sharing between processes\<close>

definition umfMemoryProviderGetIPCHandleSize :: "ptr \<Rightarrow> (umf_result \<times> u64, 'w prov_state) eff" where
  "umfMemoryProviderGetIPCHandleSize h s = do {
     p \<leftarrow> providers s h;
     f \<leftarrow> resolve umfDefaultGetIPCHandleSize (get_ipc_handle_size (ops p));
     (r, s) \<leftarrow> call_op (f (provider_priv p)) s;
     Some (r, s)
   }"

definition umfMemoryProviderGetIPCHandle ::
  "ptr \<Rightarrow> u64 \<Rightarrow> u64 \<Rightarrow> (umf_result \<times> ipc_data, 'w prov_state) eff" where
  "umfMemoryProviderGetIPCHandle h a sz s = do {
     p \<leftarrow> providers s h;
     f \<leftarrow> resolve umfDefaultGetIPCHandle (get_ipc_handle (ops p));
     (r, s) \<leftarrow> call_op (f (provider_priv p) a sz) s;
     Some (r, s)
   }"

definition umfMemoryProviderPutIPCHandle :: "ptr \<Rightarrow> ipc_data \<Rightarrow> (umf_result, 'w prov_state) eff" where
  "umfMemoryProviderPutIPCHandle h d s = do {
     p \<leftarrow> providers s h;
     f \<leftarrow> resolve umfDefaultPutIPCHandle (put_ipc_handle (ops p));
     (r, s) \<leftarrow> call_op (f (provider_priv p) d) s;
     Some (r, s)
   }"

definition umfMemoryProviderOpenIPCHandle ::
  "ptr \<Rightarrow> ipc_buf \<Rightarrow> (umf_result \<times> u64, 'w prov_state) eff" where
  "umfMemoryProviderOpenIPCHandle h d s = do {
     p \<leftarrow> providers s h;
     f \<leftarrow> resolve umfDefaultOpenIPCHandle (open_ipc_handle (ops p));
     (r, s) \<leftarrow> call_op (f (provider_priv p) d) s;
     Some (r, s)
   }"

definition umfMemoryProviderCloseIPCHandle :: "ptr \<Rightarrow> u64 \<Rightarrow> u64 \<Rightarrow> (umf_result, 'w prov_state) eff" where
  "umfMemoryProviderCloseIPCHandle h a sz s = do {
     p \<leftarrow> providers s h;
     f \<leftarrow> resolve umfDefaultCloseIPCHandle (close_ipc_handle (ops p));
     (r, s) \<leftarrow> call_op (f (provider_priv p) a sz) s;
     Some (r, s)
   }"

end
