(* ===== verification/Memory_Provider_Properties.thy ===== *)
theory Memory_Provider_Properties
  imports Memory_Provider
begin

text \<open>
  What the provider layer adds to the operations of a provider: a created provider has no null
  operation, requests with invalid arguments do not reach the operations, and the failed
  provider is recorded. The calls are gathered in one datatype of requests.
\<close>

datatype prov_call =
    CallAlloc u64 u64
  | CallFree u64 u64
  | CallRecommendedPageSize u64
  | CallMinPageSize u64
  | CallPurgeLazy u64 u64
  | CallPurgeForce u64 u64
  | CallSplit u64 u64 u64
  | CallMerge u64 u64 u64

fun prov_request :: "ptr \<Rightarrow> prov_call \<Rightarrow> (umf_result, 'w prov_state) eff" where
  "prov_request h (CallAlloc sz al) s = map_option (apfst fst) (umfMemoryProviderAlloc h sz al s)"
| "prov_request h (CallFree a sz) s = umfMemoryProviderFree h a sz s"
| "prov_request h (CallRecommendedPageSize sz) s =
     map_option (apfst fst) (umfMemoryProviderGetRecommendedPageSize h sz s)"
| "prov_request h (CallMinPageSize a) s = map_option (apfst fst) (umfMemoryProviderGetMinPageSize h a s)"
| "prov_request h (CallPurgeLazy a sz) s = umfMemoryProviderPurgeLazy h a sz s"
| "prov_request h (CallPurgeForce a sz) s = umfMemoryProviderPurgeForce h a sz s"
| "prov_request h (CallSplit a tot fst_sz) s = umfMemoryProviderAllocationSplit h a tot fst_sz s"
| "prov_request h (CallMerge lo hi tot) s = umfMemoryProviderAllocationMerge h lo hi tot s"

text \<open>Requests that are answered without a call of an operation.\<close>

fun rejected :: "ptr \<Rightarrow> prov_call \<Rightarrow> bool" where
  "rejected h (CallSplit a tot fst_sz) \<longleftrightarrow> a = 0 \<or> fst_sz = 0 \<or> tot = 0 \<or> tot \<le> fst_sz"
| "rejected h (CallMerge lo hi tot) \<longleftrightarrow> lo = 0 \<or> hi = 0 \<or> tot = 0 \<or> hi \<le> lo \<or> tot < hi - lo"
| "rejected h c \<longleftrightarrow> h = NULL"

text \<open>The operation behind a request.\<close>

fun run_op :: "'w umf_memory_provider_t \<Rightarrow> prov_call \<Rightarrow> (umf_result, 'w) eff" where
  "run_op p (CallAlloc sz al) w = do {
     f \<leftarrow> op_alloc (ops p); map_option (apfst fst) (f (provider_priv p) sz al w) }"
| "run_op p (CallFree a sz) w = do {
     f \<leftarrow> resolve umfDefaultFree (ext_free (ops p)); f (provider_priv p) a sz w }"
| "run_op p (CallRecommendedPageSize sz) w = do {
     f \<leftarrow> get_recommended_page_size (ops p); map_option (apfst fst) (f (provider_priv p) sz w) }"
| "run_op p (CallMinPageSize a) w = do {
     f \<leftarrow> get_min_page_size (ops p); map_option (apfst fst) (f (provider_priv p) a w) }"
| "run_op p (CallPurgeLazy a sz) w = do {
     f \<leftarrow> resolve umfDefaultPurgeLazy (purge_lazy (ops p)); f (provider_priv p) a sz w }"
| "run_op p (CallPurgeForce a sz) w = do {
     f \<leftarrow> resolve umfDefaultPurgeForce (purge_force (ops p)); f (provider_priv p) a sz w }"
| "run_op p (CallSplit a tot fst_sz) w = do {
     f \<leftarrow> resolve umfDefaultAllocationSplit (allocation_split (ops p)); f (provider_priv p) a tot fst_sz w }"
| "run_op p (CallMerge lo hi tot) w = do {
     f \<leftarrow> resolve umfDefaultAllocationMerge (allocation_merge (ops p)); f (provider_priv p) lo hi tot w }"

lemmas prov_request_defs =
  umfMemoryProviderAlloc_def umfMemoryProviderFree_def umfMemoryProviderGetRecommendedPageSize_def
  umfMemoryProviderGetMinPageSize_def umfMemoryProviderPurgeLazy_def umfMemoryProviderPurgeForce_def
  umfMemoryProviderAllocationSplit_def umfMemoryProviderAllocationMerge_def
  checkErrorAndSetLastProvider_def call_op_def

lemma request_rejected: "rejected h c \<Longrightarrow> prov_request h c s = Some (UMF_RESULT_ERROR_INVALID_ARGUMENT, s)"
  by (cases c) (auto simp: prov_request_defs)

lemma request_passed:
  assumes "\<not> rejected h c"
  shows "prov_request h c s = do {
    p \<leftarrow> providers s h;
    (r, w, l) \<leftarrow> run_op p c (world s, lastFailedProvider s);
    Some (r, s\<lparr>world := w, lastFailedProvider := if r = UMF_RESULT_SUCCESS then l else h\<rparr>)
  }"
  using assms by (cases c; auto simp: prov_request_defs bind_eq_Some_conv split: Option.bind_splits)

text \<open>A table without null operations whose functions return.\<close>

definition complete_ops :: "'w umf_memory_provider_ops_t \<Rightarrow> bool" where
  "complete_ops t \<longleftrightarrow> validateOpsMandatory t \<and> \<not> is_null (ext_free t) \<and> \<not> is_null (purge_lazy t) \<and>
     \<not> is_null (purge_force t) \<and> \<not> is_null (allocation_split t) \<and> \<not> is_null (allocation_merge t) \<and>
     \<not> is_null (get_ipc_handle_size t) \<and> \<not> is_null (get_ipc_handle t) \<and> \<not> is_null (put_ipc_handle t) \<and>
     \<not> is_null (open_ipc_handle t) \<and> \<not> is_null (close_ipc_handle t)"

lemma with_default_not_null [simp]: "\<not> is_null (with_default f)"
  by (cases f) (simp_all add: with_default_def)

lemma with_default_same: "\<not> is_null f \<Longrightarrow> with_default f = f"
  by (simp add: with_default_def)

lemma resolve_with_default: "resolve d (with_default f) = Some (case f of Op g \<Rightarrow> g | _ \<Rightarrow> d)"
  by (cases f) (simp_all add: with_default_def)

lemmas assign_defs = assignOpsExtDefaults_def assignOpsIpcDefaults_def

lemma assigned_complete:
  "validateOpsMandatory t \<Longrightarrow> complete_ops (assignOpsIpcDefaults (assignOpsExtDefaults t))"
  by (simp add: complete_ops_def assign_defs validateOpsMandatory_def)

lemma create_success:
  assumes "umfMemoryProviderCreate mp (Some t) params True s = Some ((UMF_RESULT_SUCCESS, h), s')"
  obtains priv w l f where "h = mp" "mp \<noteq> NULL" "validateOps t" "initialize t = Some f"
    "f params (world s, lastFailedProvider s) = Some ((UMF_RESULT_SUCCESS, priv), w, l)"
    "s' = s\<lparr>world := w, lastFailedProvider := l, providers := (providers s)(mp \<mapsto>
        \<lparr>ops = assignOpsIpcDefaults (assignOpsExtDefaults t), provider_priv = priv\<rparr>)\<rparr>"
  using assms by (auto simp: umfMemoryProviderCreate_def call_op_def split: if_splits bind_splits)

section \<open>An example provider\<close>

text \<open>A provider that hands out addresses from a counter and supports no optional operation.\<close>

definition bump_ops :: "(u64 \<times> ptr) umf_memory_provider_ops_t" where
  "bump_ops = \<lparr>version = UMF_VERSION_CURRENT,
     initialize = Some (\<lambda>params w. Some ((UMF_RESULT_SUCCESS, 1), w)),
     finalize = Some (\<lambda>priv w. Some ((), w)),
     op_alloc = Some (\<lambda>priv sz al (w, l). Some ((UMF_RESULT_SUCCESS, w), w + sz, l)),
     get_last_native_error = Some (\<lambda>priv w. Some (([], 0), w)),
     get_recommended_page_size = Some (\<lambda>priv sz w. Some ((UMF_RESULT_SUCCESS, 4096), w)),
     get_min_page_size = Some (\<lambda>priv a w. Some ((UMF_RESULT_SUCCESS, 4096), w)),
     get_name = Some (\<lambda>priv w. Some (''bump'', w)),
     ext_free = NullOp, purge_lazy = NullOp, purge_force = NullOp,
     allocation_split = NullOp, allocation_merge = NullOp,
     get_ipc_handle_size = NullOp, get_ipc_handle = NullOp, put_ipc_handle = NullOp,
     open_ipc_handle = NullOp, close_ipc_handle = NullOp\<rparr>"

definition bump_start :: "u64 prov_state" where
  "bump_start = \<lparr>world = 4096, providers = Map.empty, lastFailedProvider = NULL\<rparr>"

definition bump_created :: "u64 prov_state" where
  "bump_created = bump_start\<lparr>providers := [77 \<mapsto>
     \<lparr>ops = assignOpsIpcDefaults (assignOpsExtDefaults bump_ops), provider_priv = 1\<rparr>]\<rparr>"

lemma bump_create:
  "umfMemoryProviderCreate 77 (Some bump_ops) NULL True bump_start =
     Some ((UMF_RESULT_SUCCESS, 77), bump_created)"
  by (simp add: umfMemoryProviderCreate_def call_op_def bump_ops_def bump_start_def bump_created_def validateOps_def
      validateOpsMandatory_def validateOpsExt_def validateOpsIpc_def)

section \<open>Properties\<close>

text \<open>Creation of a provider succeeds only for a table that has all mandatory operations, both
  or none of split and merge, and all or none of the operations for sharing; the provider then
  has no null operation: the operations supplied are kept and the others report that they are not
  supported. The test for the default free operation answers whether free was supplied.\<close>

theorem provider_create_complete:
  assumes "umfMemoryProviderCreate mp (Some t) params True s = Some ((UMF_RESULT_SUCCESS, h), s')"
  shows "h = mp \<and> validateOps t \<and> (\<exists>p. providers s' h = Some p \<and> complete_ops (ops p) \<and>
    op_alloc (ops p) = op_alloc t \<and>
    (\<forall>g. resolve umfDefaultFree (ext_free (ops p)) = Some g \<longrightarrow>
       (case ext_free t of Op f \<Rightarrow> g = f | _ \<Rightarrow> (\<forall>priv a sz w. g priv a sz w = Some (UMF_RESULT_ERROR_NOT_SUPPORTED, w)))) \<and>
    (is_null (allocation_split t) \<longrightarrow> resolve umfDefaultAllocationSplit (allocation_split (ops p)) = Some umfDefaultAllocationSplit \<and>
       resolve umfDefaultAllocationMerge (allocation_merge (ops p)) = Some umfDefaultAllocationMerge) \<and>
    (\<not> is_null (get_ipc_handle t) \<longrightarrow> get_ipc_handle (ops p) = get_ipc_handle t \<and> put_ipc_handle (ops p) = put_ipc_handle t \<and>
       open_ipc_handle (ops p) = open_ipc_handle t \<and> close_ipc_handle (ops p) = close_ipc_handle t)) \<and>
    umfIsFreeOpDefault s' h = Some (case ext_free t of Op f \<Rightarrow> False | _ \<Rightarrow> True)"
proof -
  obtain priv w l f where c: "h = mp" "mp \<noteq> NULL" "validateOps t" "initialize t = Some f"
    "f params (world s, lastFailedProvider s) = Some ((UMF_RESULT_SUCCESS, priv), w, l)"
    "s' = s\<lparr>world := w, lastFailedProvider := l, providers := (providers s)(mp \<mapsto>
        \<lparr>ops = assignOpsIpcDefaults (assignOpsExtDefaults t), provider_priv = priv\<rparr>)\<rparr>"
    by (rule create_success [OF assms])
  let ?p = "\<lparr>ops = assignOpsIpcDefaults (assignOpsExtDefaults t), provider_priv = priv\<rparr>"
  have "complete_ops (ops ?p)" using c(3) by (simp add: assigned_complete validateOps_def)
  moreover have "is_null (allocation_split t) \<Longrightarrow> is_null (allocation_merge t)"
    and "\<not> is_null (get_ipc_handle t) \<Longrightarrow>
      \<not> is_null (put_ipc_handle t) \<and> \<not> is_null (open_ipc_handle t) \<and> \<not> is_null (close_ipc_handle t)"
    using c(3) by (auto simp: validateOps_def validateOpsExt_def validateOpsIpc_def)
  ultimately show ?thesis
    using c(1,3,6)
    by (cases "ext_free t")
      (auto simp: assign_defs with_default_def umfDefaultFree_def umfIsFreeOpDefault_def)
qed

theorem provider_create_complete_witness:
  "umfIsFreeOpDefault bump_created 77 = Some True \<and> (\<exists>p. providers bump_created 77 = Some p \<and> complete_ops (ops p))"
  using provider_create_complete [OF bump_create] by (auto simp: bump_ops_def)

text \<open>C27: A request with invalid arguments is answered with the invalid-argument error and changes
  nothing, not even the record of the last failed provider. The null handle is an invalid argument
  of every request but split and merge, which crash on it. Any other request runs the operation of
  its provider: when it returns an error, the provider of the request is the last failed one,
  whatever the operation itself recorded, and when it succeeds the record is what the operation
  left, for it may have called other providers. No request changes the table of providers.\<close>

theorem provider_request_contract:
  assumes "providers s NULL = None"
  shows "(rejected h c \<longrightarrow> prov_request h c s = Some (UMF_RESULT_ERROR_INVALID_ARGUMENT, s)) \<and>
    (\<not> rejected h c \<and> h = NULL \<longrightarrow> prov_request h c s = None) \<and>
    (\<not> rejected h c \<and> providers s h = Some p \<longrightarrow>
       (case run_op p c (world s, umfGetLastFailedMemoryProvider s) of
          None \<Rightarrow> prov_request h c s = None
        | Some (r, w, l) \<Rightarrow> \<exists>s'. prov_request h c s = Some (r, s') \<and> world s' = w \<and> providers s' = providers s \<and>
            umfGetLastFailedMemoryProvider s' = (if r = UMF_RESULT_SUCCESS then l else h)))"
  using assms request_rejected [of h c s] request_passed [of h c s]
  by (auto simp: umfGetLastFailedMemoryProvider_def split: option.splits)

theorem provider_request_contract_witness:
  "\<exists>s'. prov_request 77 (CallFree 4096 8) bump_created = Some (UMF_RESULT_ERROR_NOT_SUPPORTED, s') \<and>
     umfGetLastFailedMemoryProvider s' = 77 \<and> prov_request NULL (CallSplit 4096 8 4) bump_created = None"
proof -
  have n: "providers bump_created NULL = None" by (simp add: bump_created_def)
  define q where "q = \<lparr>ops = assignOpsIpcDefaults (assignOpsExtDefaults bump_ops), provider_priv = 1\<rparr>"
  have p: "providers bump_created 77 = Some q" by (simp add: bump_created_def q_def)
  have run: "run_op q (CallFree 4096 8) x =
      Some (UMF_RESULT_ERROR_NOT_SUPPORTED, x)" for x
    by (simp add: q_def assign_defs with_default_def bump_ops_def umfDefaultFree_def)
  have "\<not> rejected 77 (CallFree 4096 8)" "\<not> rejected NULL (CallSplit 4096 8 4)" by simp_all
  moreover have "prov_request NULL (CallSplit 4096 8 4) bump_created = None"
    using provider_request_contract [OF n, of NULL "CallSplit 4096 8 4"] calculation(2) by blast
  ultimately show ?thesis
    using provider_request_contract [OF n, of 77 "CallFree 4096 8" q] p run by (auto simp del: prov_request.simps run_op.simps)
qed

end
