(* ===== verification/Tracking_Provider.thy ===== *)
theory Tracking_Provider
  imports Memory_Tracker_Properties Memory_Provider_Properties
begin

text \<open>
  The tracking provider (second part of \<open>provider/provider_tracking.c\<close>): a provider that forwards
  every request to an upstream provider and keeps the tracker and a cache of handles for sharing
  between processes up to date. Its operations act on the state of the upstream provider layer,
  the tracker, the tracking providers and their caches, so that the table of operations is a
  value of the type of tables of the provider layer.

  The answers of the system to requests for host memory are drawn from the stream \<open>grants\<close>, one for
  each insertion.
\<close>

section \<open>State\<close>

record umf_tracking_memory_provider_t =
  hUpstream :: ptr
  hTracker :: bool
  tpool :: ptr
  ipcCache :: "critnib option"
  upstreamDoesNotFree :: bool

text \<open>A cache entry: \<open>ipcDataSize\<close> bytes of data of the upstream provider.\<close>

record ipc_cache_value_t =
  ipcDataSize :: u64
  cachedIpcData :: ipc_data

record 'w tracking_state =
  benv :: ba_env
  proxy_lib :: bool
  upstream :: "'w prov_state"
  TRACKER :: "umf_memory_tracker_t option"
  tproviders :: "ptr \<rightharpoonup> umf_tracking_memory_provider_t"
  tparams :: umf_tracking_memory_provider_t
  ipc_values :: "ptr \<rightharpoonup> ipc_cache_value_t"
  grants :: "nat \<Rightarrow> mem_grant"
  hosts :: "nat \<Rightarrow> ptr"
  tick :: nat

definition tracker_add :: "ptr \<Rightarrow> u64 \<Rightarrow> u64 \<Rightarrow> (umf_result, 'w tracking_state) eff" where
  "tracker_add pool a sz s = do {
     t \<leftarrow> TRACKER s;
     (r, t) \<leftarrow> umfMemoryTrackerAdd (benv s) (grants s (tick s)) t pool a sz;
     Some (r, s\<lparr>TRACKER := Some t, tick := Suc (tick s)\<rparr>)
   }"

definition tracker_remove :: "u64 \<Rightarrow> (umf_result, 'w tracking_state) eff" where
  "tracker_remove a s = do {
     t \<leftarrow> TRACKER s;
     (r, t) \<leftarrow> umfMemoryTrackerRemove (benv s) t a;
     Some (r, s\<lparr>TRACKER := Some t\<rparr>)
   }"

section \<open>Allocation\<close>

definition trackingAlloc :: "ptr \<Rightarrow> u64 \<Rightarrow> u64 \<Rightarrow> (umf_result \<times> u64, 'w tracking_state) eff" where
  "trackingAlloc priv sz alignment s = do {
     p \<leftarrow> tproviders s priv;
     guard (hUpstream p \<noteq> NULL);
     ((ret, a), u) \<leftarrow> umfMemoryProviderAlloc (hUpstream p) sz alignment (upstream s);
     let s = s\<lparr>upstream := u\<rparr>;
     if ret \<noteq> UMF_RESULT_SUCCESS \<or> a = 0 then Some ((ret, a), s)
     else do {
       (ret2, s) \<leftarrow> tracker_add (tpool p) a sz s;
       Some ((ret, a), s)
     }
   }"

section \<open>Splitting and merging\<close>

text \<open>The common end of the error paths: release the mutex and the value that was allocated.\<close>

definition abandon :: "umf_result \<Rightarrow> umf_memory_tracker_t \<Rightarrow> ptr \<Rightarrow> (umf_result, 'w tracking_state) eff" where
  "abandon ret t v s = do {
     t \<leftarrow> free_value (benv s) (t\<lparr>splitMergeMutex := False\<rparr>) v;
     Some (ret, s\<lparr>TRACKER := Some t\<rparr>)
   }"

text \<open>Locking the mutex of the tracker, which is not held at the start of an operation; an error of
  the call of the system that locks it is not modelled.\<close>

definition lock_tracker :: "umf_memory_tracker_t \<Rightarrow> umf_memory_tracker_t option" where
  "lock_tracker t = do { guard (\<not> splitMergeMutex t); Some (t\<lparr>splitMergeMutex := True\<rparr>) }"

definition trackingAllocationSplit :: "ptr \<Rightarrow> u64 \<Rightarrow> u64 \<Rightarrow> u64 \<Rightarrow> (umf_result, 'w tracking_state) eff" where
  "trackingAllocationSplit priv a totalSize firstSize s = do {
     p \<leftarrow> tproviders s priv;
     t \<leftarrow> TRACKER s;
     (splitValue, t) \<leftarrow> alloc_value (g_mmap (grants s (tick s))) t;
     if splitValue = NULL then Some (UMF_RESULT_ERROR_OUT_OF_HOST_MEMORY, s\<lparr>TRACKER := Some t\<rparr>)
     else do {
       let t = t\<lparr>tvalues := (tvalues t)(splitValue \<mapsto> \<lparr>tv_pool = tpool p, tv_size = firstSize\<rparr>)\<rparr>;
       t \<leftarrow> lock_tracker t;
       v \<leftarrow> critnib_get (map_t t) a;
       if v = NULL then abandon UMF_RESULT_ERROR_INVALID_ARGUMENT t splitValue s
       else do {
         val \<leftarrow> tvalues t v;
         if tv_size val \<noteq> totalSize then abandon UMF_RESULT_ERROR_INVALID_ARGUMENT t splitValue s
         else do {
           (ret, u) \<leftarrow> umfMemoryProviderAllocationSplit (hUpstream p) a totalSize firstSize (upstream s);
           let s = s\<lparr>upstream := u\<rparr>;
           if ret \<noteq> UMF_RESULT_SUCCESS then abandon ret t splitValue s
           else do {
             (ret, t) \<leftarrow> umfMemoryTrackerAdd (benv s) (grants s (Suc (tick s))) t (tpool p)
                (a + firstSize) (totalSize - firstSize);
             let s = s\<lparr>tick := Suc (Suc (tick s))\<rparr>;
             if ret \<noteq> UMF_RESULT_SUCCESS then abandon ret t splitValue s
             else do {
               (cret, m) \<leftarrow> critnib_insert (map_t t) a splitValue True
                  (g_leaf (grants s (tick s))) (g_node (grants s (tick s)));
               guard (cret = OK);
               t \<leftarrow> free_value (benv s) (t\<lparr>map_t := m\<rparr>) v;
               Some (UMF_RESULT_SUCCESS,
                 s\<lparr>TRACKER := Some (t\<lparr>splitMergeMutex := False\<rparr>), tick := Suc (tick s)\<rparr>)
             }
           }
         }
       }
     }
   }"

definition trackingAllocationMerge :: "ptr \<Rightarrow> u64 \<Rightarrow> u64 \<Rightarrow> u64 \<Rightarrow> (umf_result, 'w tracking_state) eff" where
  "trackingAllocationMerge priv lowPtr highPtr totalSize s = do {
     p \<leftarrow> tproviders s priv;
     t \<leftarrow> TRACKER s;
     (mergedValue, t) \<leftarrow> alloc_value (g_mmap (grants s (tick s))) t;
     if mergedValue = NULL then Some (UMF_RESULT_ERROR_OUT_OF_HOST_MEMORY, s\<lparr>TRACKER := Some t\<rparr>)
     else do {
       let t = t\<lparr>tvalues := (tvalues t)(mergedValue \<mapsto> \<lparr>tv_pool = tpool p, tv_size = totalSize\<rparr>)\<rparr>;
       t \<leftarrow> lock_tracker t;
       lowValue \<leftarrow> critnib_get (map_t t) lowPtr;
       if lowValue = NULL then abandon UMF_RESULT_ERROR_INVALID_ARGUMENT t mergedValue s
       else do {
         highValue \<leftarrow> critnib_get (map_t t) highPtr;
         if highValue = NULL then abandon UMF_RESULT_ERROR_INVALID_ARGUMENT t mergedValue s
         else do {
           lv \<leftarrow> tvalues t lowValue;
           hv \<leftarrow> tvalues t highValue;
           if tv_pool lv \<noteq> tv_pool hv then abandon UMF_RESULT_ERROR_INVALID_ARGUMENT t mergedValue s
           else if tv_size lv + tv_size hv \<noteq> totalSize
           then abandon UMF_RESULT_ERROR_INVALID_ARGUMENT t mergedValue s
           else do {
             (ret, u) \<leftarrow> umfMemoryProviderAllocationMerge (hUpstream p) lowPtr highPtr totalSize (upstream s);
             let s = s\<lparr>upstream := u\<rparr>;
             if ret \<noteq> UMF_RESULT_SUCCESS then abandon ret t mergedValue s
             else do {
               (cret, m) \<leftarrow> critnib_insert (map_t t) lowPtr mergedValue True
                  (g_leaf (grants s (tick s))) (g_node (grants s (tick s)));
               guard (cret = OK);
               t \<leftarrow> free_value (benv s) (t\<lparr>map_t := m\<rparr>) lowValue;
               (erased, m) \<leftarrow> critnib_remove (map_t t) highPtr;
               guard (erased = highValue);
               t \<leftarrow> free_value (benv s) (t\<lparr>map_t := m\<rparr>) erased;
               Some (UMF_RESULT_SUCCESS,
                 s\<lparr>TRACKER := Some (t\<lparr>splitMergeMutex := False\<rparr>), tick := Suc (tick s)\<rparr>)
             }
           }
         }
       }
     }
   }"

section \<open>Release\<close>

definition set_cache :: "ptr \<Rightarrow> umf_tracking_memory_provider_t \<Rightarrow> critnib \<Rightarrow> 'w tracking_state \<Rightarrow> 'w tracking_state" where
  "set_cache priv p c s = s\<lparr>tproviders := (tproviders s)(priv \<mapsto> p\<lparr>ipcCache := Some c\<rparr>)\<rparr>"

text \<open>Removing the cached handle of a range: the handle is put back to the upstream provider.\<close>

definition drop_cached :: "ptr \<Rightarrow> umf_tracking_memory_provider_t \<Rightarrow> u64 \<Rightarrow> 'w tracking_state \<Rightarrow> 'w tracking_state option" where
  "drop_cached priv p a s = do {
     c \<leftarrow> ipcCache p;
     (v, c) \<leftarrow> critnib_remove c a;
     let s = set_cache priv p c s;
     if v = NULL then Some s
     else do {
       val \<leftarrow> ipc_values s v;
       (_, u) \<leftarrow> umfMemoryProviderPutIPCHandle (hUpstream p) (cachedIpcData val) (upstream s);
       Some (s\<lparr>upstream := u, ipc_values := (ipc_values s)(v := None)\<rparr>)
     }
   }"

definition trackingFree :: "ptr \<Rightarrow> u64 \<Rightarrow> u64 \<Rightarrow> (umf_result, 'w tracking_state) eff" where
  "trackingFree priv a sz s = do {
     p \<leftarrow> tproviders s priv;
     (ret_remove, s) \<leftarrow> (if a \<noteq> 0 then tracker_remove a s else Some (UMF_RESULT_ERROR_UNKNOWN, s));
     s \<leftarrow> drop_cached priv p a s;
     (ret, u) \<leftarrow> umfMemoryProviderFree (hUpstream p) a sz (upstream s);
     let s = s\<lparr>upstream := u\<rparr>;
     if ret \<noteq> UMF_RESULT_SUCCESS then
       if ret_remove \<noteq> UMF_RESULT_SUCCESS then Some (ret, s)
       else do {
         (_, s) \<leftarrow> tracker_add (tpool p) a sz s;
         Some (ret, s)
       }
     else Some (ret, s)
   }"

section \<open>Life cycle\<close>

text \<open>The parameters are the structure \<open>tparams\<close>; the address \<open>host\<close> of the copy is drawn from the
  stream of host memory.\<close>

definition trackingInitialize :: "ptr \<Rightarrow> (umf_result \<times> ptr, 'w tracking_state) eff" where
  "trackingInitialize params s =
     (let host = hosts s (tick s); s = s\<lparr>tick := Suc (tick s)\<rparr> in
      if host = NULL then Some ((UMF_RESULT_ERROR_OUT_OF_HOST_MEMORY, NULL), s)
      else let p = tparams s; s = s\<lparr>tproviders := (tproviders s)(host \<mapsto> p)\<rparr> in
        if hUpstream p = NULL \<or> \<not> hTracker p \<or> tpool p = NULL \<or> ipcCache p = None
        then Some ((UMF_RESULT_ERROR_INVALID_ARGUMENT, NULL), s)
        else Some ((UMF_RESULT_SUCCESS, host), s))"

definition trackingFinalize :: "ptr \<Rightarrow> (unit, 'w tracking_state) eff" where
  "trackingFinalize priv s = do {
     p \<leftarrow> tproviders s priv;
     c \<leftarrow> ipcCache p;
     _ \<leftarrow> critnib_delete c;
     t \<leftarrow> TRACKER s;
     t \<leftarrow> (if \<not> proxy_lib s then clear_tracker_for_the_pool (benv s) t (tpool p) else Some t);
     Some ((), s\<lparr>TRACKER := Some t, tproviders := (tproviders s)(priv := None)\<rparr>)
   }"

section \<open>Requests that are only forwarded\<close>

definition forward :: "(ptr \<Rightarrow> ('a, 'w prov_state) eff) \<Rightarrow> ptr \<Rightarrow> ('a, 'w tracking_state) eff" where
  "forward f priv s = do {
     p \<leftarrow> tproviders s priv;
     (r, u) \<leftarrow> f (hUpstream p) (upstream s);
     Some (r, s\<lparr>upstream := u\<rparr>)
   }"

definition trackingGetLastError :: "ptr \<Rightarrow> (string \<times> int, 'w tracking_state) eff" where
  "trackingGetLastError = forward umfMemoryProviderGetLastNativeError"

definition trackingGetRecommendedPageSize :: "ptr \<Rightarrow> u64 \<Rightarrow> (umf_result \<times> u64, 'w tracking_state) eff" where
  "trackingGetRecommendedPageSize priv sz =
     forward (\<lambda>h. umfMemoryProviderGetRecommendedPageSize h sz) priv"

definition trackingGetMinPageSize :: "ptr \<Rightarrow> u64 \<Rightarrow> (umf_result \<times> u64, 'w tracking_state) eff" where
  "trackingGetMinPageSize priv a = forward (\<lambda>h. umfMemoryProviderGetMinPageSize h a) priv"

definition trackingPurgeLazy :: "ptr \<Rightarrow> u64 \<Rightarrow> u64 \<Rightarrow> (umf_result, 'w tracking_state) eff" where
  "trackingPurgeLazy priv a sz = forward (\<lambda>h. umfMemoryProviderPurgeLazy h a sz) priv"

definition trackingPurgeForce :: "ptr \<Rightarrow> u64 \<Rightarrow> u64 \<Rightarrow> (umf_result, 'w tracking_state) eff" where
  "trackingPurgeForce priv a sz = forward (\<lambda>h. umfMemoryProviderPurgeForce h a sz) priv"

text \<open>The name of the upstream provider, the empty string standing for the null pointer.\<close>

definition trackingName :: "ptr \<Rightarrow> (string, 'w tracking_state) eff" where
  "trackingName priv s = do {
     (n, s) \<leftarrow> forward umfMemoryProviderGetName priv s;
     Some (case n of None \<Rightarrow> [] | Some n \<Rightarrow> n, s)
   }"

definition trackingGetIpcHandleSize :: "ptr \<Rightarrow> (umf_result \<times> u64, 'w tracking_state) eff" where
  "trackingGetIpcHandleSize = forward umfMemoryProviderGetIPCHandleSize"

section \<open>Handles for sharing\<close>

definition put_upstream :: "umf_tracking_memory_provider_t \<Rightarrow> ipc_data \<Rightarrow> (umf_result, 'w tracking_state) eff" where
  "put_upstream p d s = do {
     (r, u) \<leftarrow> umfMemoryProviderPutIPCHandle (hUpstream p) d (upstream s);
     Some (r, s\<lparr>upstream := u\<rparr>)
   }"

partial_function (option) trackingGetIpcHandle ::
  "ptr \<Rightarrow> u64 \<Rightarrow> u64 \<Rightarrow> 'w tracking_state \<Rightarrow> ((umf_result \<times> ipc_data) \<times> 'w tracking_state) option" where
  "trackingGetIpcHandle priv a sz s = do {
     p \<leftarrow> tproviders s priv;
     c \<leftarrow> ipcCache p;
     v \<leftarrow> critnib_get c a;
     if v \<noteq> NULL then do {
       val \<leftarrow> ipc_values s v;
       Some ((UMF_RESULT_SUCCESS, take (unat (ipcDataSize val)) (cachedIpcData val)), s)
     } else do {
       ((ret, d), u) \<leftarrow> umfMemoryProviderGetIPCHandle (hUpstream p) a sz (upstream s);
       let s = s\<lparr>upstream := u\<rparr>;
       if ret \<noteq> UMF_RESULT_SUCCESS then Some ((ret, d), s)
       else do {
         ((ret, n), u) \<leftarrow> umfMemoryProviderGetIPCHandleSize (hUpstream p) (upstream s);
         let s = s\<lparr>upstream := u\<rparr>;
         if ret \<noteq> UMF_RESULT_SUCCESS then do {
           (ret, s) \<leftarrow> put_upstream p d s;
           Some ((ret, d), s)
         } else
           let cache_value = hosts s (tick s); g = grants s (tick s); s = s\<lparr>tick := Suc (tick s)\<rparr> in
           if cache_value = NULL then do {
             (_, s) \<leftarrow> put_upstream p d s;
             Some ((UMF_RESULT_ERROR_OUT_OF_HOST_MEMORY, d), s)
           } else do {
             let s = s\<lparr>ipc_values := (ipc_values s)(cache_value \<mapsto>
                \<lparr>ipcDataSize = n, cachedIpcData = take (unat n) d\<rparr>)\<rparr>;
             (insRes, c) \<leftarrow> critnib_insert c a cache_value False (g_leaf g) (g_node g);
             let s = set_cache priv p c s;
             if insRes = OK then Some ((UMF_RESULT_SUCCESS, d), s)
             else do {
               let s = s\<lparr>ipc_values := (ipc_values s)(cache_value := None)\<rparr>;
               (ret, s) \<leftarrow> put_upstream p d s;
               if ret \<noteq> UMF_RESULT_SUCCESS then Some ((ret, d), s)
               else if insRes = ENOMEM then Some ((UMF_RESULT_ERROR_OUT_OF_HOST_MEMORY, d), s)
               else trackingGetIpcHandle priv a sz s
             }
           }
       }
     }
   }"

definition trackingPutIpcHandle :: "ptr \<Rightarrow> ipc_data \<Rightarrow> (umf_result, 'w tracking_state) eff" where
  "trackingPutIpcHandle priv d s = Some (UMF_RESULT_SUCCESS, s)"

definition getDataSizeFromIpcHandle :: "ipc_buf \<Rightarrow> u64" where
  "getDataSizeFromIpcHandle d = enclosing_baseSize d"

definition trackingOpenIpcHandle :: "ptr \<Rightarrow> ipc_buf \<Rightarrow> (umf_result \<times> u64, 'w tracking_state) eff" where
  "trackingOpenIpcHandle priv d s = do {
     p \<leftarrow> tproviders s priv;
     guard (hUpstream p \<noteq> NULL);
     ((ret, a), u) \<leftarrow> umfMemoryProviderOpenIPCHandle (hUpstream p) d (upstream s);
     let s = s\<lparr>upstream := u\<rparr>;
     if ret \<noteq> UMF_RESULT_SUCCESS then Some ((ret, a), s)
     else do {
       let bufferSize = getDataSizeFromIpcHandle d;
       (ret, s) \<leftarrow> tracker_add (tpool p) a bufferSize s;
       if ret \<noteq> UMF_RESULT_SUCCESS then do {
         (_, u) \<leftarrow> umfMemoryProviderCloseIPCHandle (hUpstream p) a bufferSize (upstream s);
         Some ((ret, a), s\<lparr>upstream := u\<rparr>)
       } else Some ((ret, a), s)
     }
   }"

definition trackingCloseIpcHandle :: "ptr \<Rightarrow> u64 \<Rightarrow> u64 \<Rightarrow> (umf_result, 'w tracking_state) eff" where
  "trackingCloseIpcHandle priv a sz s = do {
     p \<leftarrow> tproviders s priv;
     (_, s) \<leftarrow> (if a \<noteq> 0 then tracker_remove a s else Some (UMF_RESULT_SUCCESS, s));
     (r, u) \<leftarrow> umfMemoryProviderCloseIPCHandle (hUpstream p) a sz (upstream s);
     Some (r, s\<lparr>upstream := u\<rparr>)
   }"

section \<open>The table of operations and creation\<close>

text \<open>The variable of the thread that names the last failed provider is the one of the upstream
  provider layer while an operation runs.\<close>

definition set_last_failed :: "ptr \<Rightarrow> 'w tracking_state \<Rightarrow> 'w tracking_state" where
  "set_last_failed l s = s\<lparr>upstream := (upstream s)\<lparr>lastFailedProvider := l\<rparr>\<rparr>"

definition tracking_op :: "('a, 'w tracking_state) eff \<Rightarrow> ('a, 'w tracking_state \<times> ptr) eff" where
  "tracking_op = in_thread (\<lambda>s. lastFailedProvider (upstream s)) set_last_failed"

definition UMF_TRACKING_MEMORY_PROVIDER_OPS :: "('w tracking_state \<times> ptr) umf_memory_provider_ops_t" where
  "UMF_TRACKING_MEMORY_PROVIDER_OPS = \<lparr>version = UMF_VERSION_CURRENT,
     initialize = Some (\<lambda>params. tracking_op (trackingInitialize params)),
     finalize = Some (\<lambda>priv. tracking_op (trackingFinalize priv)),
     op_alloc = Some (\<lambda>priv sz al. tracking_op (trackingAlloc priv sz al)),
     get_last_native_error = Some (\<lambda>priv. tracking_op (trackingGetLastError priv)),
     get_recommended_page_size = Some (\<lambda>priv sz. tracking_op (trackingGetRecommendedPageSize priv sz)),
     get_min_page_size = Some (\<lambda>priv a. tracking_op (trackingGetMinPageSize priv a)),
     get_name = Some (\<lambda>priv. tracking_op (trackingName priv)),
     ext_free = Op (\<lambda>priv a sz. tracking_op (trackingFree priv a sz)),
     purge_lazy = Op (\<lambda>priv a sz. tracking_op (trackingPurgeLazy priv a sz)),
     purge_force = Op (\<lambda>priv a sz. tracking_op (trackingPurgeForce priv a sz)),
     allocation_split = Op (\<lambda>priv a tot first. tracking_op (trackingAllocationSplit priv a tot first)),
     allocation_merge = Op (\<lambda>priv low high tot. tracking_op (trackingAllocationMerge priv low high tot)),
     get_ipc_handle_size = Op (\<lambda>priv. tracking_op (trackingGetIpcHandleSize priv)),
     get_ipc_handle = Op (\<lambda>priv a sz. tracking_op (trackingGetIpcHandle priv a sz)),
     put_ipc_handle = Op (\<lambda>priv d. tracking_op (trackingPutIpcHandle priv d)),
     open_ipc_handle = Op (\<lambda>priv d. tracking_op (trackingOpenIpcHandle priv d)),
     close_ipc_handle = Op (\<lambda>priv a sz. tracking_op (trackingCloseIpcHandle priv a sz))\<rparr>"

text \<open>\<open>mp\<close> is the memory for the record of the provider, \<open>cn\<close> and \<open>cn_mutex\<close> answer the creation of the
  cache.\<close>

definition umfTrackingMemoryProviderCreate ::
  "ptr \<Rightarrow> ptr \<Rightarrow> bool \<Rightarrow> ptr \<Rightarrow> ptr \<Rightarrow> bool \<Rightarrow> (umf_result \<times> ptr, ('w tracking_state) prov_state) eff" where
  "umfTrackingMemoryProviderCreate mp cn cn_mutex hUp hPool doesNotFree s =
     (if TRACKER (world s) = None then Some ((UMF_RESULT_ERROR_UNKNOWN, NULL), s)
      else case critnib_new cn cn_mutex of
        None \<Rightarrow> Some ((UMF_RESULT_ERROR_OUT_OF_HOST_MEMORY, NULL), s)
      | Some c \<Rightarrow>
          umfMemoryProviderCreate mp (Some UMF_TRACKING_MEMORY_PROVIDER_OPS) 1 True
            (s\<lparr>world := (world s)\<lparr>tparams := \<lparr>hUpstream = hUp, hTracker = True, tpool = hPool,
               ipcCache = Some c, upstreamDoesNotFree = doesNotFree\<rparr>\<rparr>\<rparr>))"

definition umfTrackingMemoryProviderGetUpstreamProvider :: "'w tracking_state \<Rightarrow> ptr \<Rightarrow> ptr option" where
  "umfTrackingMemoryProviderGetUpstreamProvider s priv = do {
     p \<leftarrow> tproviders s priv;
     Some (hUpstream p)
   }"

end
