(* ===== verification/Tracking_Provider_Correct.thy ===== *)
theory Tracking_Provider_Correct
  imports Tracking_Provider
begin

text \<open>
  The operations of the tracking provider on the map of tracked ranges: splitting replaces a range
  by two, merging two by one, allocation adds one, release removes it, and the end of the provider
  removes the ranges of its pool.
\<close>

section \<open>Memory of a critnib across an insertion\<close>

lemma alloc_leaf_dom: "alloc_leaf c ml = Some (l, c') \<Longrightarrow>
    dom (leaves c') \<subseteq> insert ml (dom (leaves c)) \<and> nodes c' = nodes c \<and>
    (l \<noteq> NULL \<longrightarrow> l \<in> insert ml (dom (leaves c)))"
  by (auto simp: alloc_leaf_def split: if_splits bind_splits)

lemma alloc_node_dom: "alloc_node c mn = Some (m, c') \<Longrightarrow>
    dom (nodes c') \<subseteq> insert mn (dom (nodes c)) \<and> leaves c' = leaves c \<and>
    (\<forall>a. m = CNode a \<longrightarrow> a \<in> insert mn (dom (nodes c)))"
  by (cases "deleted_node c") (auto simp: alloc_node_def split: if_splits bind_splits)

lemma free_leaf_dom: "free_leaf c l = Some c' \<Longrightarrow> dom (leaves c') = dom (leaves c) \<and> nodes c' = nodes c"
  by (auto simp: free_leaf_def split: if_splits bind_splits)

lemma store_slot_dom: "store_slot c sl p = Some c' \<Longrightarrow> dom (nodes c') = dom (nodes c) \<and> leaves c' = leaves c"
  by (cases sl) (auto split: bind_splits if_splits)

lemma insert_at_dom:
  assumes "insert_at c k v update mn kn r = Some (e, c')"
  shows "dom (leaves c') \<subseteq> dom (leaves c) \<and> dom (nodes c') \<subseteq> insert mn (dom (nodes c))"
proof -
  obtain parent prev n where r: "r = (parent, prev, n)" by (cases r)
  show ?thesis
  proof (cases "n = CNull")
    case True
    then show ?thesis using assms r
      by (auto simp: insert_at_def split: bind_splits cptr.splits if_splits)
  next
    case False
    from assms r False obtain pth where pth: "node_path c n = Some pth"
      by (auto simp: insert_at_def split: bind_splits)
    show ?thesis
    proof (cases "pth XOR k = 0")
      case True
      then show ?thesis using assms r False pth
        by (auto simp: insert_at_def split: bind_splits if_splits dest!: free_leaf_dom)
    next
      case neq: False
      from assms r False pth neq obtain m c1 where m: "alloc_node c mn = Some (m, c1)"
        by (auto simp: insert_at_def Let_def split: bind_splits)
      note d = alloc_node_dom [OF m]
      show ?thesis
      proof (cases m)
        case CNull
        then have "free_leaf c1 (to_leaf kn) = Some c'" using assms r False pth neq m
          by (auto simp: insert_at_def Let_def split: bind_splits)
        from free_leaf_dom [OF this] d show ?thesis by simp
      next
        case (CNode a)
        then obtain c2 where "store_slot c2 parent m = Some c'" "dom (nodes c2) = insert a (dom (nodes c1))"
          "leaves c2 = leaves c1" using assms r False pth neq m
          by (auto simp: insert_at_def Let_def split: bind_splits)
        with store_slot_dom [OF this(1)] d CNode show ?thesis by auto
      next
        case (CLeaf a)
        then show ?thesis using assms r False pth neq m by (auto simp: insert_at_def Let_def)
      qed
    qed
  qed
qed

lemma insert_dom:
  assumes "critnib_insert c k v update ml mn = Some (e, c')"
  shows "dom (leaves c') \<subseteq> insert ml (dom (leaves c))" "dom (nodes c') \<subseteq> insert mn (dom (nodes c))"
proof -
  from assms obtain l c1 where l: "alloc_leaf c ml = Some (l, c1)"
    by (auto simp: critnib_insert_def split: bind_splits)
  note d = alloc_leaf_dom [OF l]
  have "dom (leaves c') \<subseteq> insert ml (dom (leaves c)) \<and> dom (nodes c') \<subseteq> insert mn (dom (nodes c))"
  proof (cases "l = NULL")
    case True
    then show ?thesis using assms l d by (auto simp: critnib_insert_def)
  next
    case False
    define c2 where "c2 = c1\<lparr>leaves := (leaves c1)(l \<mapsto> \<lparr>key = k, lvalue = v\<rparr>)\<rparr>"
    have d2: "dom (leaves c2) \<subseteq> insert ml (dom (leaves c))" "nodes c2 = nodes c"
      using d False by (auto simp: c2_def)
    show ?thesis
    proof (cases "root c2 = CNull")
      case True
      then have "c' = c2\<lparr>root := CLeaf l\<rparr>"
        using assms l False by (auto simp: critnib_insert_def Let_def c2_def)
      then show ?thesis using d2 by auto
    next
      case root: False
      from assms l False root obtain r where "insert_at c2 k v update mn (CLeaf l) r = Some (e, c')"
        by (auto simp: critnib_insert_def Let_def c2_def split: bind_splits)
      from insert_at_dom [OF this] d2 show ?thesis by (metis subset_trans)
    qed
  qed
  then show "dom (leaves c') \<subseteq> insert ml (dom (leaves c))" "dom (nodes c') \<subseteq> insert mn (dom (nodes c))"
    by simp_all
qed

lemma fresh_after_insert:
  assumes "critnib_insert c k v update ml mn = Some (e, c')" "critnib_fresh c ml' mn'" "ml' \<noteq> ml" "mn' \<noteq> mn"
  shows "critnib_fresh c' ml' mn'"
  using insert_dom [OF assms(1)] assms(2-4) by (auto simp: critnib_fresh_def)

text \<open>An insertion without memory for a leaf fails, also when it would only update a value.\<close>

lemma insert_no_leaf: "deleted_leaf c = NULL \<Longrightarrow> critnib_insert c k v update NULL mn = Some (ENOMEM, c)"
  by (simp add: critnib_insert_def alloc_leaf_def)

section \<open>Memory for the operations\<close>

text \<open>
  The answers of the system are such that \<open>n\<close> values can be allocated, and the leaves and nodes
  that the stream of answers holds for the next insertions are distinct new objects.
\<close>

definition host_memory :: "nat \<Rightarrow> 'w tracking_state \<Rightarrow> umf_memory_tracker_t \<Rightarrow> bool" where
  "host_memory n s t \<longleftrightarrow> n \<le> ba_spare (tracker_allocator t) \<and>
     (\<forall>i \<in> {tick s..tick s + n}. g_leaf (grants s i) \<noteq> NULL \<and> g_node (grants s i) \<noteq> NULL \<and>
        critnib_fresh (map_t t) (g_leaf (grants s i)) (g_node (grants s i))) \<and>
     inj_on (\<lambda>i. g_leaf (grants s i)) {tick s..tick s + n} \<and>
     inj_on (\<lambda>i. g_node (grants s i)) {tick s..tick s + n}"

lemma host_memory_usable:
  assumes "host_memory (Suc n) s t" "tracker_pend env t S"
  shows "ba_usable mmap (tracker_allocator t)" "free_list (tracker_allocator t) \<noteq> NULL" "0 < ba_spare (tracker_allocator t)"
proof -
  have b: "ba_ok env (tracker_allocator t) (dom (tvalues t))" using assms(2) by (simp add: tracker_pend_def)
  show sp: "0 < ba_spare (tracker_allocator t)" using assms(1) by (simp add: host_memory_def)
  show "ba_usable mmap (tracker_allocator t)" "free_list (tracker_allocator t) \<noteq> NULL"
    using spare_usable [OF b sp] spare_free_list [OF b sp] by simp_all
qed

lemma host_memory_distinct:
  assumes "host_memory n s t" "i < j" "j \<le> n"
  shows "g_leaf (grants s (tick s + j)) \<noteq> g_leaf (grants s (tick s + i))"
    "g_node (grants s (tick s + j)) \<noteq> g_node (grants s (tick s + i))"
proof -
  have m: "tick s + j \<in> {tick s..tick s + n}" "tick s + i \<in> {tick s..tick s + n}" "tick s + j \<noteq> tick s + i"
    using assms by auto
  from assms(1) have l: "inj_on (\<lambda>i. g_leaf (grants s i)) {tick s..tick s + n}"
    and n: "inj_on (\<lambda>i. g_node (grants s i)) {tick s..tick s + n}" by (simp_all add: host_memory_def)
  show "g_leaf (grants s (tick s + j)) \<noteq> g_leaf (grants s (tick s + i))"
    using inj_on_eq_iff [OF l m(1,2)] m(3) by simp
  show "g_node (grants s (tick s + j)) \<noteq> g_node (grants s (tick s + i))"
    using inj_on_eq_iff [OF n m(1,2)] m(3) by simp
qed

text \<open>The common start of split and merge: a value is taken and the mutex is locked.\<close>

lemma start_ok:
  assumes ok: "tracker_ok env t" and mem: "host_memory (Suc n) s t" and unl: "\<not> splitMergeMutex t"
  obtains v t1 t2 where "alloc_value mmap t = Some (v, t1)" "v \<noteq> NULL"
    "lock_tracker (t1\<lparr>tvalues := (tvalues t1)(v \<mapsto> x)\<rparr>) = Some t2" "tracker_pend env t2 {v}" "ranges_of t2 = ranges_of t"
    "map_t t2 = map_t t" "tvalues t2 = (tvalues t)(v \<mapsto> x)" "splitMergeMutex t2" "v \<notin> dom (tvalues t)"
    "ba_spare (tracker_allocator t2) = ba_spare (tracker_allocator t) - 1"
proof -
  have p: "tracker_pend env t {}" using ok by (simp add: tracker_ok_pend)
  note u = host_memory_usable [OF mem p]
  obtain v al where v: "alloc_value mmap t = Some (v, t\<lparr>tracker_allocator := al\<rparr>)"
    "umf_ba_alloc mmap (tracker_allocator t) = Some (v, al)" "v \<notin> dom (tvalues t)" "v \<noteq> NULL"
    "\<And>x. tracker_pend env (t\<lparr>tracker_allocator := al, tvalues := (tvalues t)(v \<mapsto> x)\<rparr>) {v}"
    "\<And>x. ranges_of (t\<lparr>tracker_allocator := al, tvalues := (tvalues t)(v \<mapsto> x)\<rparr>) = ranges_of t"
    by (rule take_value [OF p u(1)]) auto
  have "ba_spare al = ba_spare (tracker_allocator t) - 1" by (rule alloc_spare [OF v(2) u(2,3)])
  then show thesis
    using that [of v "t\<lparr>tracker_allocator := al\<rparr>" "t\<lparr>tracker_allocator := al, tvalues := (tvalues t)(v \<mapsto> x), splitMergeMutex := True\<rparr>"]
      v unl by (simp add: lock_tracker_def)
qed

lemma abandon_ok:
  assumes "tracker_pend (benv s) t {v}"
  obtains t' where "abandon r t v s = Some (r, s\<lparr>TRACKER := Some t'\<rparr>)" "tracker_ok (benv s) t'"
    "ranges_of t' = ranges_of t" "\<not> splitMergeMutex t'" "map_t t' = map_t t"
proof -
  have p: "tracker_pend (benv s) (t\<lparr>splitMergeMutex := False\<rparr>) (insert v {})" using assms by simp
  obtain t' where "free_value (benv s) (t\<lparr>splitMergeMutex := False\<rparr>) v = Some t'" "tracker_pend (benv s) t' {}"
    "ranges_of t' = ranges_of (t\<lparr>splitMergeMutex := False\<rparr>)" "splitMergeMutex t' = splitMergeMutex (t\<lparr>splitMergeMutex := False\<rparr>)"
    "map_t t' = map_t (t\<lparr>splitMergeMutex := False\<rparr>)"
    by (rule drop_value [OF p]) auto
  then show thesis using that by (simp add: abandon_def tracker_ok_pend)
qed

lemma tracked_value:
  assumes "tracker_pend env t S" "0 < critnib_room (map_t t)" "ranges_of t a = Some w"
  obtains v where "critnib_get (map_t t) a = Some v" "v \<noteq> NULL" "contents (map_t t) a = Some v" "tvalues t v = Some w"
proof -
  have "critnib_ok (map_t t)" using assms(1) by (simp add: tracker_pend_def)
  from cnmap.get_law [OF this assms(2)] have g: "critnib_get (map_t t) a = Some (value_at (contents (map_t t)) a)" .
  obtain v where c: "contents (map_t t) a = Some v" using assms ranges_of_dom [OF assms(1), of a] by auto
  obtain x where "tvalues t v = Some x" "ranges_of t a = Some x" "v \<noteq> NULL" by (rule ranges_of_value [OF assms(1) c])
  then show thesis using that g c assms(3) by (simp add: value_at_def)
qed

lemma untracked_value:
  assumes "tracker_pend env t S" "0 < critnib_room (map_t t)" "ranges_of t a = None"
  shows "critnib_get (map_t t) a = Some NULL"
proof -
  have "critnib_ok (map_t t)" using assms(1) by (simp add: tracker_pend_def)
  from cnmap.get_law [OF this assms(2), of a] show ?thesis
    using assms(3) ranges_of_dom [OF assms(1), of a] by (simp add: value_at_def)
qed

lemma add_success_parts:
  assumes "umfMemoryTrackerAdd env g t pool a sz = Some (UMF_RESULT_SUCCESS, t')"
  obtains v e where "umf_ba_alloc (g_mmap g) (tracker_allocator t) = Some (v, tracker_allocator t')"
    "critnib_insert (map_t t) a v False (g_leaf g) (g_node g) = Some (e, map_t t')"
  using assms by (auto simp: umfMemoryTrackerAdd_def alloc_value_def Let_def split: bind_splits if_splits)

lemma host_memory_add:
  assumes mem: "host_memory (Suc n) s t" and ok: "tracker_ok env t"
    and add: "umfMemoryTrackerAdd env (grants s (tick s)) t pool a sz = Some (UMF_RESULT_SUCCESS, t')"
    and s': "tick s' = Suc (tick s)" "grants s' = grants s"
  shows "host_memory n s' t'"
proof -
  have p: "tracker_pend env t {}" using ok by (simp add: tracker_ok_pend)
  obtain v e where v: "umf_ba_alloc (g_mmap (grants s (tick s))) (tracker_allocator t) = Some (v, tracker_allocator t')"
    "critnib_insert (map_t t) a v False (g_leaf (grants s (tick s))) (g_node (grants s (tick s))) = Some (e, map_t t')"
    by (rule add_success_parts [OF add])
  have "ba_spare (tracker_allocator t') = ba_spare (tracker_allocator t) - 1"
    by (rule alloc_spare [OF v(1)]) (rule host_memory_usable [OF mem p])+
  then have "n \<le> ba_spare (tracker_allocator t')" using mem unfolding host_memory_def by linarith
  moreover have "critnib_fresh (map_t t') (g_leaf (grants s i)) (g_node (grants s i))" if "i \<in> {Suc (tick s)..Suc (tick s) + n}" for i
  proof -
    have j: "0 < i - tick s" "i - tick s \<le> Suc n" "tick s + (i - tick s) = i" using that by auto
    have "critnib_fresh (map_t t) (g_leaf (grants s i)) (g_node (grants s i))"
      using mem that by (simp add: host_memory_def)
    with fresh_after_insert [OF v(2), of "g_leaf (grants s i)" "g_node (grants s i)"]
      host_memory_distinct [OF mem j(1,2)] j(3) show ?thesis by simp
  qed
  moreover have "inj_on (\<lambda>i. g_leaf (grants s i)) {Suc (tick s)..Suc (tick s) + n}"
    "inj_on (\<lambda>i. g_node (grants s i)) {Suc (tick s)..Suc (tick s) + n}"
    using mem by (auto simp: host_memory_def intro: inj_on_subset)
  moreover have "g_leaf (grants s i) \<noteq> NULL \<and> g_node (grants s i) \<noteq> NULL" if "i \<in> {Suc (tick s)..Suc (tick s) + n}" for i
    using mem that by (simp add: host_memory_def)
  ultimately show ?thesis unfolding host_memory_def s' by blast
qed

text \<open>A removal keeps the objects of the trie: the unlinked ones are reused later.\<close>

definition same_objects :: "critnib \<Rightarrow> critnib \<Rightarrow> bool" where
  "same_objects c c' \<longleftrightarrow> (\<forall>x. leaves c' x = None \<longleftrightarrow> leaves c x = None)
     \<and> (\<forall>x. nodes c' x = None \<longleftrightarrow> nodes c x = None)"

lemma same_objects_steps:
  "free_node c n = Some c' \<Longrightarrow> same_objects c c'" "free_leaf c l = Some c' \<Longrightarrow> same_objects c c'"
  "store_slot c sl q = Some c' \<Longrightarrow> same_objects c c'" "del_leaf c d l = Some (v, c') \<Longrightarrow> same_objects c c'"
  by (auto simp: same_objects_def free_leaf_def del_leaf_def split: bind_splits if_splits
      elim!: store_slot.elims free_node.elims)

lemma unlink_same_objects:
  assumes "unlink_leaf c k d np n l = Some (v, c')" shows "same_objects c c'"
  using assms by (auto simp: unlink_leaf_def same_objects_def split: bind_splits sum.splits option.splits cptr.splits if_splits
      dest!: same_objects_steps(3,4))

lemma remove_same_objects:
  assumes "critnib_remove c k = Some (v, c')" shows "same_objects c c'"
  using assms
  by (auto simp: critnib_remove_def Let_def same_objects_def split: bind_splits if_splits option.splits
      dest!: same_objects_steps(1,2,4) unlink_same_objects)

lemma fresh_after_remove:
  assumes "critnib_remove c k = Some (v, c')" "critnib_fresh c ml mn" shows "critnib_fresh c' ml mn"
  using remove_same_objects [OF assms(1)] assms(2) by (simp add: critnib_fresh_def same_objects_def)

lemma freed_value_usable:
  assumes "free_value env t v = Some t'" "v \<noteq> NULL"
  shows "ba_usable mmap (tracker_allocator t')"
  using assms by (auto simp: free_value_def umf_ba_free_def ba_usable_def mutex_unlock_def Let_def split: bind_splits if_splits)

text \<open>After a removal the memory for the next insertion is there.\<close>

lemma grant_after_remove:
  assumes ok: "tracker_ok env t" and mem: "host_memory n s t" and a: "a \<noteq> 0" "ranges_of t a \<noteq> None"
    and rem: "umfMemoryTrackerRemove env t a = Some (r, t')"
  shows "grant_ok t' (grants s (tick s)) \<and> g_leaf (grants s (tick s)) \<noteq> NULL \<and> g_node (grants s (tick s)) \<noteq> NULL"
proof -
  let ?g = "grants s (tick s)"
  have g: "g_leaf ?g \<noteq> NULL" "g_node ?g \<noteq> NULL" "critnib_fresh (map_t t) (g_leaf ?g) (g_node ?g)"
    using mem by (simp_all add: host_memory_def)
  obtain v m where m: "critnib_remove (map_t t) a = Some (v, m)" "v \<noteq> NULL" "free_value env (t\<lparr>map_t := m\<rparr>) v = Some t'"
  proof -
    obtain r1 t1 where "umfMemoryTrackerRemove env t a = Some (r1, t1)" "r1 = UMF_RESULT_SUCCESS"
      using remove_ok [OF ok a(1)] a(2) by metis
    then show thesis using that rem by (auto simp: umfMemoryTrackerRemove_def Let_def split: bind_splits if_splits)
  qed
  have "map_t t' = m" using m(3) by (auto simp: free_value_def split: bind_splits)
  then show ?thesis
    using g freed_value_usable [OF m(3,2)] fresh_after_remove [OF m(1) g(3)] by (simp add: grant_ok_def)
qed

section \<open>Splitting\<close>

definition split_map :: "ptr \<Rightarrow> u64 \<Rightarrow> u64 \<Rightarrow> u64 \<Rightarrow> (u64 \<rightharpoonup> tracker_value_t) \<Rightarrow> (u64 \<rightharpoonup> tracker_value_t)" where
  "split_map pool a tot first m = m(a + first \<mapsto> \<lparr>tv_pool = pool, tv_size = tot - first\<rparr>, a \<mapsto> \<lparr>tv_pool = pool, tv_size = first\<rparr>)"

text \<open>The end of the operation, once the upstream provider has split the memory.\<close>

lemma split_finish:
  assumes p: "tracker_pend (benv s) t {sv}" and sv: "tvalues t sv = Some \<lparr>tv_pool = pool, tv_size = first\<rparr>"
    and c: "contents (map_t t) a = Some v" and g1: "grant_ok t g1" "g_leaf g1 \<noteq> NULL" "g_node g1 \<noteq> NULL"
    and g2: "critnib_fresh (map_t t) l2 n2" "l2 \<noteq> NULL" "n2 \<noteq> NULL" "l2 \<noteq> g_leaf g1" "n2 \<noteq> g_node g1"
    and a: "a + first \<noteq> 0" "first \<noteq> 0"
  obtains (new) t1 m t2 where "ranges_of t (a + first) = None"
      "umfMemoryTrackerAdd (benv s) g1 t pool (a + first) (tot - first) = Some (UMF_RESULT_SUCCESS, t1)"
      "critnib_insert (map_t t1) a sv True l2 n2 = Some (OK, m)" "free_value (benv s) (t1\<lparr>map_t := m\<rparr>) v = Some t2"
      "tracker_ok (benv s) t2" "ranges_of t2 = split_map pool a tot first (ranges_of t)"
      "critnib_room (map_t t2) = critnib_room (map_t t)"
    | (taken) t1 where "ranges_of t (a + first) \<noteq> None"
      "umfMemoryTrackerAdd (benv s) g1 t pool (a + first) (tot - first) = Some (UMF_RESULT_ERROR_UNKNOWN, t1)"
      "tracker_pend (benv s) t1 {sv}" "ranges_of t1 = ranges_of t"
proof -
  obtain r t1 where t1: "umfMemoryTrackerAdd (benv s) g1 t pool (a + first) (tot - first) = Some (r, t1)"
    "tracker_pend (benv s) t1 {sv}"
    "add_result (ranges_of t) (a + first) \<lparr>tv_pool = pool, tv_size = tot - first\<rparr> (g_leaf g1 \<noteq> NULL \<and> g_node g1 \<noteq> NULL) r (ranges_of t1)"
    "critnib_room (map_t t1) = critnib_room (map_t t)"
    "tvalues t1 sv = tvalues t sv"
    "\<exists>v e. critnib_insert (map_t t) (a + first) v False (g_leaf g1) (g_node g1) = Some (e, map_t t1)"
    "contents (map_t t1) a = contents (map_t t) a"
    by (rule add_pend [OF p g1(1) a(1), of pool "tot - first"]) (use a(2) in auto)
  from t1(3) g1 consider "r = UMF_RESULT_SUCCESS" "ranges_of t (a + first) = None"
      "ranges_of t1 = (ranges_of t)(a + first \<mapsto> \<lparr>tv_pool = pool, tv_size = tot - first\<rparr>)"
    | "r = UMF_RESULT_ERROR_UNKNOWN" "ranges_of t (a + first) \<noteq> None" "ranges_of t1 = ranges_of t"
    unfolding add_result_def by metis
  then show thesis
  proof cases
    case 1
    from t1(6) obtain v1 e1 where "critnib_insert (map_t t) (a + first) v1 False (g_leaf g1) (g_node g1) = Some (e1, map_t t1)"
      by blast
    from fresh_after_insert [OF this g2(1) g2(4,5)] have fr: "critnib_fresh (map_t t1) l2 n2" .
    have c1: "contents (map_t t1) a = Some v" using t1(7) c by simp
    obtain m t2 where "critnib_insert (map_t t1) a sv True l2 n2 = Some (OK, m)"
      "free_value (benv s) (t1\<lparr>map_t := m\<rparr>) v = Some t2" "tracker_ok (benv s) t2"
      "ranges_of t2 = (ranges_of t1)(a \<mapsto> \<lparr>tv_pool = pool, tv_size = first\<rparr>)"
      "critnib_room (map_t t2) = critnib_room (map_t t1)"
      by (rule replace_ok [OF t1(2) _ c1 fr g2(2,3)]) (use t1(5) sv in auto)
    then show ?thesis using new 1 t1(1,4) by (simp add: split_map_def)
  next
    case 2
    then show ?thesis using taken t1(1,2) by simp
  qed
qed

text \<open>The states in which an operation of the tracking provider starts.\<close>

definition tracking_ok :: "'w tracking_state \<Rightarrow> ptr \<Rightarrow> umf_tracking_memory_provider_t \<Rightarrow> umf_memory_tracker_t \<Rightarrow> bool" where
  "tracking_ok s priv p t \<longleftrightarrow> tproviders s priv = Some p \<and> TRACKER s = Some t \<and> tracker_ok (benv s) t \<and>
     \<not> splitMergeMutex t \<and> 0 < critnib_room (map_t t)"

lemma split_ok:
  assumes ok: "tracking_ok s priv p t" and mem: "host_memory 2 s t"
    and rng: "ranges_of t a = Some w" "tv_size w = tot" and fits: "unat a + unat tot < 2 ^ 64"
    and up: "umfMemoryProviderAllocationSplit (hUpstream p) a tot first (upstream s) = Some (r, u)"
  shows "\<exists>r' t' s'. trackingAllocationSplit priv a tot first s = Some (r', s') \<and> TRACKER s' = Some t' \<and>
    tracker_ok (benv s) t' \<and> \<not> splitMergeMutex t' \<and> upstream s' = u \<and>
    (if r \<noteq> UMF_RESULT_SUCCESS then r' = r \<and> ranges_of t' = ranges_of t
     else if ranges_of t (a + first) \<noteq> None then r' = UMF_RESULT_ERROR_UNKNOWN \<and> ranges_of t' = ranges_of t
     else r' = UMF_RESULT_SUCCESS \<and> ranges_of t' = split_map (tpool p) a tot first (ranges_of t) \<and>
       critnib_room (map_t t') = critnib_room (map_t t))"
proof -
  let ?x = "\<lparr>tv_pool = tpool p, tv_size = first\<rparr>" and ?g = "\<lambda>i. grants s (tick s + i)"
  have s: "tproviders s priv = Some p" "TRACKER s = Some t" "tracker_ok (benv s) t" "\<not> splitMergeMutex t"
    "0 < critnib_room (map_t t)" using ok by (auto simp: tracking_ok_def)
  have mem': "host_memory (Suc 1) s t" using mem by (simp add: numeral_2_eq_2)
  obtain sv t1 t2 where t2: "alloc_value (g_mmap (grants s (tick s))) t = Some (sv, t1)" "sv \<noteq> NULL"
    "lock_tracker (t1\<lparr>tvalues := (tvalues t1)(sv \<mapsto> ?x)\<rparr>) = Some t2" "tracker_pend (benv s) t2 {sv}"
    "ranges_of t2 = ranges_of t" "map_t t2 = map_t t" "tvalues t2 = (tvalues t)(sv \<mapsto> ?x)"
    "ba_spare (tracker_allocator t2) = ba_spare (tracker_allocator t) - 1"
    by (rule start_ok [OF s(3) mem' s(4)])
  obtain v where v: "critnib_get (map_t t2) a = Some v" "v \<noteq> NULL" "contents (map_t t2) a = Some v" "tvalues t2 v = Some w"
    by (rule tracked_value [OF t2(4)]) (use t2(5,6) s(5) rng(1) in auto)
  have rm: "critnib_room (map_t t2) = critnib_room (map_t t)" by (simp only: t2(6))
  note run = trackingAllocationSplit_def s(1,2) t2(1-3) v(1,2,4) rng(2) up
  show ?thesis
  proof (cases "r = UMF_RESULT_SUCCESS")
    case False
    obtain t' where "abandon r t2 sv (s\<lparr>upstream := u\<rparr>) = Some (r, s\<lparr>upstream := u, TRACKER := Some t'\<rparr>)"
      "tracker_ok (benv s) t'" "ranges_of t' = ranges_of t2" "\<not> splitMergeMutex t'"
      by (rule abandon_ok [of "s\<lparr>upstream := u\<rparr>" t2 sv r]) (use t2(4) in auto)
    then show ?thesis using False t2(5) by (simp add: run)
  next
    case True
    have sz: "first \<noteq> 0" "first < tot" using up True
      by (auto simp: umfMemoryProviderAllocationSplit_def split: if_splits)
    then have "unat (a + first) = unat a + unat first" "0 < unat first"
      using fits by (auto simp: unat_add_u64 word_less_nat_alt unat_gt_0)
    then have a1: "a + first \<noteq> 0" by (metis add_gr_0 unat_0 less_irrefl)
    have b: "ba_ok (benv s) (tracker_allocator t2) (dom (tvalues t2))" using t2(4) by (simp add: tracker_pend_def)
    have sp: "0 < ba_spare (tracker_allocator t2)" using t2(8) mem by (simp add: host_memory_def)
    have fr: "g_leaf (?g i) \<noteq> NULL" "g_node (?g i) \<noteq> NULL" "critnib_fresh (map_t t2) (g_leaf (?g i)) (g_node (?g i))"
      if "i \<le> 2" for i using mem that by (auto simp: host_memory_def t2(6))
    have ne: "g_leaf (?g 2) \<noteq> g_leaf (?g 1)" "g_node (?g 2) \<noteq> g_node (?g 1)"
      using host_memory_distinct [OF mem, of 1 2] by simp_all
    have g1: "grant_ok t2 (?g 1)" using fr(3) [of 1] spare_usable [OF b sp] by (simp add: grant_ok_def)
    have svx: "tvalues t2 sv = Some ?x" by (simp add: t2(7))
    show ?thesis
    proof (rule split_finish [where tot = tot, OF t2(4) svx v(3) g1 fr(1,2) [of 1] fr(3,1,2) [of 2] ne a1 sz(1)])
      fix t3 m t4
      assume "ranges_of t2 (a + first) = None"
        "umfMemoryTrackerAdd (benv s) (?g 1) t2 (tpool p) (a + first) (tot - first) = Some (UMF_RESULT_SUCCESS, t3)"
        "critnib_insert (map_t t3) a sv True (g_leaf (?g 2)) (g_node (?g 2)) = Some (OK, m)"
        "free_value (benv s) (t3\<lparr>map_t := m\<rparr>) v = Some t4" "tracker_ok (benv s) t4"
        "ranges_of t4 = split_map (tpool p) a tot first (ranges_of t2)" "critnib_room (map_t t4) = critnib_room (map_t t2)"
      then show ?thesis using True t2(5) rm by (simp add: run numeral_2_eq_2)
    next
      fix t3
      assume t3: "ranges_of t2 (a + first) \<noteq> None" "tracker_pend (benv s) t3 {sv}" "ranges_of t3 = ranges_of t2"
        "umfMemoryTrackerAdd (benv s) (?g 1) t2 (tpool p) (a + first) (tot - first) = Some (UMF_RESULT_ERROR_UNKNOWN, t3)"
      define s2 where "s2 = s\<lparr>upstream := u, tick := Suc (Suc (tick s))\<rparr>"
      obtain t' where "abandon UMF_RESULT_ERROR_UNKNOWN t3 sv s2 = Some (UMF_RESULT_ERROR_UNKNOWN, s2\<lparr>TRACKER := Some t'\<rparr>)"
        "tracker_ok (benv s) t'" "ranges_of t' = ranges_of t3" "\<not> splitMergeMutex t'"
        by (rule abandon_ok [of s2 t3 sv UMF_RESULT_ERROR_UNKNOWN]) (use t3(2) in \<open>auto simp: s2_def\<close>)
      then show ?thesis using True t2(5) t3(1,3,4) by (simp add: run s2_def)
    qed (simp_all)
  qed
qed

section \<open>Merging\<close>

definition merge_map :: "ptr \<Rightarrow> u64 \<Rightarrow> u64 \<Rightarrow> u64 \<Rightarrow> (u64 \<rightharpoonup> tracker_value_t) \<Rightarrow> (u64 \<rightharpoonup> tracker_value_t)" where
  "merge_map pool low high tot m = m(low \<mapsto> \<lparr>tv_pool = pool, tv_size = tot\<rparr>, high := None)"

lemma merge_ok:
  assumes ok: "tracking_ok s priv p t" and mem: "host_memory 1 s t"
    and rng: "ranges_of t low = Some lv" "ranges_of t high = Some hv" "tv_pool lv = tv_pool hv" "tv_size lv + tv_size hv = tot"
    and up: "umfMemoryProviderAllocationMerge (hUpstream p) low high tot (upstream s) = Some (r, u)"
  shows "\<exists>t' s'. trackingAllocationMerge priv low high tot s = Some (r, s') \<and> TRACKER s' = Some t' \<and>
    tracker_ok (benv s) t' \<and> \<not> splitMergeMutex t' \<and> upstream s' = u \<and> critnib_room (map_t t) \<le> Suc (critnib_room (map_t t')) \<and>
    ranges_of t' = (if r \<noteq> UMF_RESULT_SUCCESS then ranges_of t else merge_map (tpool p) low high tot (ranges_of t))"
proof -
  let ?x = "\<lparr>tv_pool = tpool p, tv_size = tot\<rparr>" and ?g = "grants s (tick s)"
  have s: "tproviders s priv = Some p" "TRACKER s = Some t" "tracker_ok (benv s) t" "\<not> splitMergeMutex t"
    "0 < critnib_room (map_t t)" using ok by (auto simp: tracking_ok_def)
  have mem': "host_memory (Suc 0) s t" using mem by simp
  obtain mv t1 t2 where t2: "alloc_value (g_mmap ?g) t = Some (mv, t1)" "mv \<noteq> NULL"
    "lock_tracker (t1\<lparr>tvalues := (tvalues t1)(mv \<mapsto> ?x)\<rparr>) = Some t2" "tracker_pend (benv s) t2 {mv}"
    "ranges_of t2 = ranges_of t" "map_t t2 = map_t t" "tvalues t2 = (tvalues t)(mv \<mapsto> ?x)"
    by (rule start_ok [OF s(3) mem' s(4)])
  obtain l where l: "critnib_get (map_t t2) low = Some l" "l \<noteq> NULL" "contents (map_t t2) low = Some l" "tvalues t2 l = Some lv"
    by (rule tracked_value [OF t2(4), of low lv]) (use t2(5,6) s(5) rng in auto)
  obtain h where h: "critnib_get (map_t t2) high = Some h" "h \<noteq> NULL" "contents (map_t t2) high = Some h" "tvalues t2 h = Some hv"
    by (rule tracked_value [OF t2(4), of high hv]) (use t2(5,6) s(5) rng in auto)
  have rm: "critnib_room (map_t t2) = critnib_room (map_t t)" by (simp only: t2(6))
  note run = trackingAllocationMerge_def s(1,2) t2(1-3) l(1,2,4) h(1,2,4) rng(3,4) up
  show ?thesis
  proof (cases "r = UMF_RESULT_SUCCESS")
    case False
    obtain t' where "abandon r t2 mv (s\<lparr>upstream := u\<rparr>) = Some (r, s\<lparr>upstream := u, TRACKER := Some t'\<rparr>)"
      "tracker_ok (benv s) t'" "ranges_of t' = ranges_of t2" "\<not> splitMergeMutex t'" "map_t t' = map_t t2"
      by (rule abandon_ok [of "s\<lparr>upstream := u\<rparr>" t2 mv r]) (use t2(4) in auto)
    then show ?thesis using False t2(5) rm by (simp add: run)
  next
    case True
    have ne: "high \<noteq> low" "high \<noteq> 0" using up True
      by (auto simp: umfMemoryProviderAllocationMerge_def split: if_splits)
    have fr: "g_leaf ?g \<noteq> NULL" "g_node ?g \<noteq> NULL" "critnib_fresh (map_t t2) (g_leaf ?g) (g_node ?g)"
      using mem by (auto simp: host_memory_def t2(6))
    obtain m t3 where t3: "critnib_insert (map_t t2) low mv True (g_leaf ?g) (g_node ?g) = Some (OK, m)"
      "free_value (benv s) (t2\<lparr>map_t := m\<rparr>) l = Some t3" "tracker_ok (benv s) t3" "ranges_of t3 = (ranges_of t2)(low \<mapsto> ?x)"
      "critnib_room (map_t t3) = critnib_room (map_t t2)"
      "contents (map_t t3) = (contents (map_t t2))(low \<mapsto> mv)"
      by (rule replace_ok [OF t2(4) _ l(3) fr(3,1,2), of ?x]) (simp_all add: t2(7))
    have ch: "contents (map_t t3) high = Some h" using t3(6) h(3) ne(1) by simp
    obtain r' t4 where t4: "tracker_ok (benv s) t4" "ranges_of t4 = (ranges_of t3)(high := None)"
      "critnib_room (map_t t3) \<le> Suc (critnib_room (map_t t4))"
      "critnib_remove (map_t t3) high = Some (h, map_t t4)"
      "free_value (benv s) (t3\<lparr>map_t := map_t t4\<rparr>) h = Some t4"
      by (rule remove_ok [OF t3(3) ne(2)]) (use ch in auto)
    show ?thesis
      using True t2(5) rm t3 t4 by (simp add: run merge_map_def)
  qed
qed

section \<open>Allocation and release\<close>

lemma alloc_ok:
  assumes ok: "tracking_ok s priv p t" and mem: "host_memory (Suc n) s t" and h: "hUpstream p \<noteq> NULL"
    and up: "umfMemoryProviderAlloc (hUpstream p) sz al (upstream s) = Some ((r, a), u)"
  shows "\<exists>t' s'. trackingAlloc priv sz al s = Some ((r, a), s') \<and> upstream s' = u \<and> tracking_ok s' priv p t' \<and>
    benv s' = benv s \<and> grants s' = grants s \<and> ipc_values s' = ipc_values s \<and>
    critnib_room (map_t t') = critnib_room (map_t t) \<and>
    (if r = UMF_RESULT_SUCCESS \<and> a \<noteq> 0 \<and> ranges_of t a = None
     then ranges_of t' = (ranges_of t)(a \<mapsto> \<lparr>tv_pool = tpool p, tv_size = sz\<rparr>) \<and> host_memory n s' t'
     else ranges_of t' = ranges_of t)"
proof -
  have s: "tproviders s priv = Some p" "TRACKER s = Some t" "tracker_ok (benv s) t" "\<not> splitMergeMutex t"
    "0 < critnib_room (map_t t)" using ok by (auto simp: tracking_ok_def)
  show ?thesis
  proof (cases "r = UMF_RESULT_SUCCESS \<and> a \<noteq> 0")
    case True
    have g: "grant_ok t (grants s (tick s))" "g_leaf (grants s (tick s)) \<noteq> NULL" "g_node (grants s (tick s)) \<noteq> NULL"
      using mem host_memory_usable(1) [OF mem, of "benv s" "{}"] s(3)
      by (auto simp: grant_ok_def host_memory_def tracker_ok_pend)
    obtain r2 t' where t': "umfMemoryTrackerAdd (benv s) (grants s (tick s)) t (tpool p) a sz = Some (r2, t')" "tracker_ok (benv s) t'"
      "add_result (ranges_of t) a \<lparr>tv_pool = tpool p, tv_size = sz\<rparr>
         (g_leaf (grants s (tick s)) \<noteq> NULL \<and> g_node (grants s (tick s)) \<noteq> NULL) r2 (ranges_of t')"
      "critnib_room (map_t t') = critnib_room (map_t t)" "splitMergeMutex t' = splitMergeMutex t"
      by (rule add_ok [OF s(3) g(1)]) (use True in auto)
    have r2: "r2 = (if ranges_of t a = None then UMF_RESULT_SUCCESS else UMF_RESULT_ERROR_UNKNOWN)"
      "ranges_of t' = (if ranges_of t a = None
      then (ranges_of t)(a \<mapsto> \<lparr>tv_pool = tpool p, tv_size = sz\<rparr>) else ranges_of t)"
      using t'(3) g(2,3) by (auto simp: add_result_def)
    define s' where "s' = s\<lparr>upstream := u, TRACKER := Some t', tick := Suc (tick s)\<rparr>"
    have "trackingAlloc priv sz al s = Some ((r, a), s')" "tracking_ok s' priv p t'"
      using True t' s h up by (simp_all add: trackingAlloc_def tracker_add_def tracking_ok_def s'_def)
    moreover have "host_memory n s' t'" if "ranges_of t a = None"
      using host_memory_add [OF mem s(3), of "tpool p" a sz t' s'] that t'(1) r2(1) by (simp add: s'_def)
    ultimately show ?thesis using True r2 t'(4) by (auto simp: s'_def)
  next
    case False
    then show ?thesis using s h up by (auto simp: trackingAlloc_def tracking_ok_def)
  qed
qed

text \<open>Release: the upstream provider is \<open>u1\<close> once a cached handle of the range has been put back.\<close>

definition cache_put :: "'w tracking_state \<Rightarrow> umf_tracking_memory_provider_t \<Rightarrow> critnib \<Rightarrow> u64 \<Rightarrow> 'w prov_state \<Rightarrow> bool" where
  "cache_put s p c a u1 \<longleftrightarrow> ipcCache p = Some c \<and> critnib_ok c \<and>
     (case contents c a of
        None \<Rightarrow> u1 = upstream s
      | Some v \<Rightarrow> v \<noteq> NULL \<and> (\<exists>val r. ipc_values s v = Some val \<and>
          umfMemoryProviderPutIPCHandle (hUpstream p) (cachedIpcData val) (upstream s) = Some (r, u1)))"

lemma drop_cached_ok:
  assumes "cache_put s p c a u1"
  obtains c' iv where "drop_cached priv p a s = Some (set_cache priv p c' s\<lparr>upstream := u1, ipc_values := iv\<rparr>)"
    "critnib_ok c'" "contents c' = (contents c)(a := None)"
proof -
  have c: "ipcCache p = Some c" "critnib_ok c" using assms by (auto simp: cache_put_def)
  from cnmap.rem_law [OF c(2), of a] obtain c' where c': "critnib_remove c a = Some (value_at (contents c) a, c')"
    "critnib_ok c'" "contents c' = (contents c)(a := None)" by blast
  show thesis
  proof (cases "contents c a")
    case None
    then show ?thesis using that [of "ipc_values s" c'] assms c c'
      by (simp add: drop_cached_def value_at_def set_cache_def cache_put_def)
  next
    case (Some v)
    then obtain val r where "v \<noteq> NULL" "ipc_values s v = Some val"
      "umfMemoryProviderPutIPCHandle (hUpstream p) (cachedIpcData val) (upstream s) = Some (r, u1)"
      using assms by (auto simp: cache_put_def)
    then show ?thesis using that [of "(ipc_values s)(v := None)" c'] Some c c'
      by (simp add: drop_cached_def value_at_def set_cache_def)
  qed
qed

lemma free_ok:
  assumes ok: "tracking_ok s priv p t" and a: "a \<noteq> 0" and cp: "cache_put s p c a u1"
    and up: "umfMemoryProviderFree (hUpstream p) a sz u1 = Some (r, u2)"
    and mem: "\<And>r1 t1. r \<noteq> UMF_RESULT_SUCCESS \<Longrightarrow> umfMemoryTrackerRemove (benv s) t a = Some (r1, t1) \<Longrightarrow>
      grant_ok t1 (grants s (tick s)) \<and> g_leaf (grants s (tick s)) \<noteq> NULL \<and> g_node (grants s (tick s)) \<noteq> NULL"
  shows "\<exists>c' t' s'. trackingFree priv a sz s = Some (r, s') \<and> upstream s' = u2 \<and> TRACKER s' = Some t' \<and>
    tracker_ok (benv s) t' \<and> tproviders s' priv = Some (p\<lparr>ipcCache := Some c'\<rparr>) \<and>
    critnib_ok c' \<and> contents c' = (contents c)(a := None) \<and>
    ranges_of t' = (if r = UMF_RESULT_SUCCESS then (ranges_of t)(a := None)
      else if ranges_of t a = None then ranges_of t
      else (ranges_of t)(a \<mapsto> \<lparr>tv_pool = tpool p, tv_size = sz\<rparr>))"
proof -
  have s: "tproviders s priv = Some p" "TRACKER s = Some t" "tracker_ok (benv s) t"
    using ok by (auto simp: tracking_ok_def)
  obtain r1 t1 where t1: "umfMemoryTrackerRemove (benv s) t a = Some (r1, t1)" "tracker_ok (benv s) t1"
    "r1 = (if ranges_of t a = None then UMF_RESULT_ERROR_UNKNOWN else UMF_RESULT_SUCCESS)"
    "ranges_of t1 = (ranges_of t)(a := None)"
    by (rule remove_ok [OF s(3) a])
  define s1 where "s1 = s\<lparr>TRACKER := Some t1\<rparr>"
  have "cache_put s1 p c a u1" using cp by (simp add: cache_put_def s1_def split: option.splits)
  then obtain c' iv where c': "drop_cached priv p a s1 = Some (set_cache priv p c' s1\<lparr>upstream := u1, ipc_values := iv\<rparr>)"
    "critnib_ok c'" "contents c' = (contents c)(a := None)"
    by (rule drop_cached_ok)
  define s2 where "s2 = set_cache priv p c' s1\<lparr>upstream := u1, ipc_values := iv, upstream := u2\<rparr>"
  have s2: "TRACKER s2 = Some t1" "benv s2 = benv s" "grants s2 = grants s" "tick s2 = tick s"
    "upstream s2 = u2" "tproviders s2 priv = Some (p\<lparr>ipcCache := Some c'\<rparr>)"
    by (simp_all add: s2_def s1_def set_cache_def)
  have run: "trackingFree priv a sz s = (if r \<noteq> UMF_RESULT_SUCCESS then
       if r1 \<noteq> UMF_RESULT_SUCCESS then Some (r, s2)
       else do { (_, s) \<leftarrow> tracker_add (tpool p) a sz s2; Some (r, s) }
     else Some (r, s2))"
    using s t1(1) a c'(1) up by (simp add: trackingFree_def tracker_remove_def s1_def s2_def Let_def set_cache_def)
  show ?thesis
  proof (cases "r = UMF_RESULT_SUCCESS \<or> ranges_of t a = None")
    case True
    moreover have "(ranges_of t)(a := None) = ranges_of t" if "ranges_of t a = None" using that by (auto simp: fun_eq_iff)
    ultimately show ?thesis using run t1 s2 c'(2,3) by auto
  next
    case False
    with mem [OF _ t1(1)] have g: "grant_ok t1 (grants s (tick s))" "g_leaf (grants s (tick s)) \<noteq> NULL" "g_node (grants s (tick s)) \<noteq> NULL"
      by auto
    obtain r3 t3 where t3: "umfMemoryTrackerAdd (benv s) (grants s (tick s)) t1 (tpool p) a sz = Some (r3, t3)" "tracker_ok (benv s) t3"
      "add_result (ranges_of t1) a \<lparr>tv_pool = tpool p, tv_size = sz\<rparr>
         (g_leaf (grants s (tick s)) \<noteq> NULL \<and> g_node (grants s (tick s)) \<noteq> NULL) r3 (ranges_of t3)"
      by (rule add_ok [OF t1(2) g(1) a])
    have "ranges_of t3 = (ranges_of t)(a \<mapsto> \<lparr>tv_pool = tpool p, tv_size = sz\<rparr>)"
      using t3(3) g(2,3) t1(4) by (auto simp: add_result_def)
    then show ?thesis using False run t1(3) t3(1,2) s2 c'(2,3) by (auto simp: tracker_add_def)
  qed
qed

end
