(* ===== verification/Tracking_Provider_Properties.thy ===== *)
theory Tracking_Provider_Properties
  imports Tracking_Provider_Correct
begin

text \<open>
  What the clients of a tracking provider rely on: the memory it hands out is found in the tracker
  under its pool until it is released, splitting and merging do not change the pool that owns an
  address, and handles for sharing are kept in the cache.
\<close>

section \<open>The owner of an address\<close>

lemma pool_found:
  assumes "tracker_ok env t" "disjoint_ranges (ranges_of t)" "0 < critnib_room (map_t t)" "k \<noteq> 0"
    and "covers (ranges_of t) b v k"
  shows "umfMemoryTrackerGetPool (Some t) k = Some (tv_pool v)"
  unfolding umfMemoryTrackerGetPool_def trk.info_covers [OF assms] by simp

lemma pool_not_found:
  assumes "tracker_ok env t" "disjoint_ranges (ranges_of t)" "0 < critnib_room (map_t t)" "k \<noteq> 0"
    and "\<nexists>b v. covers (ranges_of t) b v k"
  shows "umfMemoryTrackerGetPool (Some t) k = Some NULL"
  unfolding umfMemoryTrackerGetPool_def info_miss [OF assms] by simp

lemma pool_same:
  assumes "tracker_ok env t" "disjoint_ranges (ranges_of t)" "0 < critnib_room (map_t t)" "k \<noteq> 0"
    and "tracker_ok env t'" "disjoint_ranges (ranges_of t')" "0 < critnib_room (map_t t')"
    and into: "\<And>b v. covers (ranges_of t) b v k \<Longrightarrow> \<exists>b' v'. covers (ranges_of t') b' v' k \<and> tv_pool v' = tv_pool v"
    and onto: "\<And>b v. covers (ranges_of t') b v k \<Longrightarrow> \<exists>b' v'. covers (ranges_of t) b' v' k"
  shows "umfMemoryTrackerGetPool (Some t') k = umfMemoryTrackerGetPool (Some t) k"
proof (cases "\<exists>b v. covers (ranges_of t) b v k")
  case True
  then obtain b v b' v' where "covers (ranges_of t) b v k" "covers (ranges_of t') b' v' k" "tv_pool v' = tv_pool v"
    using into by metis
  then show ?thesis using pool_found [OF assms(1-4)] pool_found [OF assms(5-7) assms(4)] by simp
next
  case False
  then have "\<nexists>b v. covers (ranges_of t') b v k" using onto by blast
  then show ?thesis using pool_not_found [OF assms(1-4) False] pool_not_found [OF assms(5-7) assms(4)] by simp
qed

section \<open>Splitting and merging of ranges\<close>

lemma range_end:
  assumes "disjoint_ranges m" "m a = Some w"
  shows "unat a + unat (tv_size w) < 2 ^ 64"
  using assms by (auto simp: disjoint_ranges_def)

lemma ranges_apart:
  assumes "disjoint_ranges m" "m a = Some v" "m b = Some w" "a \<noteq> b"
  shows "unat a + unat (tv_size v) \<le> unat b \<or> unat b + unat (tv_size w) \<le> unat a"
proof -
  have "a < b \<or> b < a" using assms(4) by auto
  then show ?thesis using assms(1-3) unfolding disjoint_ranges_def by blast
qed

lemma disjoint_shrink:
  assumes "disjoint_ranges m" "m a = Some w" "unat (tv_size v) \<le> unat (tv_size w)"
  shows "disjoint_ranges (m(a \<mapsto> v))"
  unfolding disjoint_ranges_def
proof (intro conjI allI impI)
  fix b x
  assume "(m(a \<mapsto> v)) b = Some x"
  then show "unat b + unat (tv_size x) < 2 ^ 64"
    using range_end [OF assms(1)] assms(2,3) by (fastforce split: if_splits)
next
  fix b x b' x'
  assume "(m(a \<mapsto> v)) b = Some x" "(m(a \<mapsto> v)) b' = Some x'" "b < b'"
  then show "unat b + unat (tv_size x) \<le> unat b'"
    using assms unfolding disjoint_ranges_def by (fastforce split: if_splits)
qed

lemma split_disjoint:
  assumes d: "disjoint_ranges m" and w: "m a = Some w" and f: "first \<noteq> 0" "first < tv_size w"
  shows "m (a + first) = None" "disjoint_ranges (split_map pool a (tv_size w) first m)"
    "unat (a + first) = unat a + unat first"
proof -
  note e = range_end [OF d w]
  have uf: "0 < unat first" "unat first < unat (tv_size w)" using f by (auto simp: unat_gt_0 word_less_nat_alt)
  show ua: "unat (a + first) = unat a + unat first" using e uf by (simp add: unat_add_u64)
  have us: "unat (tv_size w - first) = unat (tv_size w) - unat first" using uf by (simp add: unat_sub_u64)
  have ne: "a + first \<noteq> a" using f by simp
  show none: "m (a + first) = None"
  proof (cases "m (a + first)")
    case (Some x)
    then show ?thesis using ranges_apart [OF d w Some ne [symmetric]] ua uf by auto
  qed
  let ?m = "m(a \<mapsto> \<lparr>tv_pool = pool, tv_size = first\<rparr>)"
  have d1: "disjoint_ranges ?m" by (rule disjoint_shrink [OF d w]) (use uf in simp)
  have "unat b + unat (tv_size x) \<le> unat (a + first) \<or> unat (a + first) + unat (tv_size w - first) \<le> unat b"
    if "?m b = Some x" for b x
  proof (cases "b = a")
    case False
    then have "m b = Some x" using that by simp
    from ranges_apart [OF d this w False] show ?thesis using ua us uf by auto
  qed (use that ua in auto)
  then have "vacant ?m (a + first) (tv_size w - first)"
    using none e ua us uf ne by (auto simp: vacant_def)
  from disjoint_add [OF d1, of "a + first" "\<lparr>tv_pool = pool, tv_size = tv_size w - first\<rparr>"] this ne
  show "disjoint_ranges (split_map pool a (tv_size w) first m)" by (simp add: split_map_def fun_upd_twist)
qed

lemma split_covers:
  assumes d: "disjoint_ranges m" and w: "m a = Some w" and f: "first \<noteq> 0" "first < tv_size w"
    and k: "covers m b v k"
  obtains b' v' where "covers (split_map pool a (tv_size w) first m) b' v' k"
    "tv_pool v' = (if b = a then pool else tv_pool v)"
proof -
  note ua = split_disjoint [OF d w f]
  have us: "unat (tv_size w - first) = unat (tv_size w) - unat first" "unat first < unat (tv_size w)"
    using f(2) by (simp_all add: unat_sub_u64 word_less_nat_alt)
  have ne: "a + first \<noteq> a" using f by simp
  consider "b = a" "unat k < unat a + unat first" | "b = a" "unat a + unat first \<le> unat k" | "b \<noteq> a" by linarith
  then show thesis
  proof cases
    case 1
    then show ?thesis using that [of a "\<lparr>tv_pool = pool, tv_size = first\<rparr>"] k by (auto simp: covers_def split_map_def)
  next
    case 2
    then show ?thesis using that [of "a + first" "\<lparr>tv_pool = pool, tv_size = tv_size w - first\<rparr>"] k w ua us ne
      by (auto simp: covers_def split_map_def word_le_nat_alt)
  next
    case 3
    moreover have "b \<noteq> a + first" using k ua(1) by (auto simp: covers_def)
    ultimately show ?thesis using that [of b v] k by (auto simp: covers_def split_map_def)
  qed
qed

lemma split_covers_back:
  assumes d: "disjoint_ranges m" and w: "m a = Some w" and f: "first \<noteq> 0" "first < tv_size w"
    and k: "covers (split_map pool a (tv_size w) first m) b v k"
  obtains b' v' where "covers m b' v' k"
proof -
  note ua = split_disjoint [OF d w f]
  have us: "unat (tv_size w - first) = unat (tv_size w) - unat first" "unat first < unat (tv_size w)"
    using f(2) by (simp_all add: unat_sub_u64 word_less_nat_alt)
  consider "b = a" | "b = a + first" "b \<noteq> a" | "b \<noteq> a" "b \<noteq> a + first" by blast
  then show thesis
  proof cases
    case 1
    then show ?thesis using that [of a w] k w us by (auto simp: covers_def split_map_def)
  next
    case 2
    then show ?thesis using that [of a w] k w ua us by (auto simp: covers_def split_map_def word_le_nat_alt)
  next
    case 3
    then show ?thesis using that [of b v] k by (auto simp: covers_def split_map_def)
  qed
qed

lemma merge_split:
  assumes d: "disjoint_ranges m" and l: "m low = Some lv" "m high = Some hv" "tv_pool lv = pool" "tv_pool hv = pool"
    and adj: "low + tv_size lv = high" "tv_size lv + tv_size hv = tot" and ne: "low < high"
  shows "disjoint_ranges (merge_map pool low high tot m)"
    and "split_map pool low tot (tv_size lv) (merge_map pool low high tot m) = m"
    and "unat tot = unat (tv_size lv) + unat (tv_size hv)"
proof -
  have e: "unat low + unat (tv_size lv) = unat high"
    using adj(1) range_end [OF d l(1)] by (auto simp: unat_add_u64)
  have h: "unat high + unat (tv_size hv) < 2 ^ 64" by (rule range_end [OF d l(2)])
  show t: "unat tot = unat (tv_size lv) + unat (tv_size hv)"
    using adj(2) e h by (auto simp: unat_add_u64)
  let ?m = "m(high := None, low := None)"
  have "unat b + unat (tv_size x) \<le> unat low \<or> unat low + unat tot \<le> unat b" if "?m b = Some x" for b x
  proof -
    have b: "m b = Some x" "b \<noteq> low" "b \<noteq> high" using that by (auto split: if_splits)
    have "unat b \<noteq> unat high" using b(3) by (auto dest: unat_eqD64)
    with ranges_apart [OF d b(1) l(1) b(2)] ranges_apart [OF d b(1) l(2) b(3)] show ?thesis
      using t e ne unfolding word_less_nat_alt by linarith
  qed
  then have "vacant ?m low tot" using t e h by (auto simp: vacant_def)
  moreover have "disjoint_ranges ?m" by (intro disjoint_remove d)
  ultimately have "disjoint_ranges (?m(low \<mapsto> \<lparr>tv_pool = pool, tv_size = tot\<rparr>))"
    by (intro disjoint_add) simp_all
  then show "disjoint_ranges (merge_map pool low high tot m)"
    using ne by (simp add: merge_map_def fun_upd_twist)
  have "tot - tv_size lv = tv_size hv" using adj(2) by auto
  then show "split_map pool low tot (tv_size lv) (merge_map pool low high tot m) = m"
    using l adj(1) ne by (cases lv, cases hv) (auto simp: split_map_def merge_map_def fun_eq_iff)
qed

section \<open>An example\<close>

text \<open>An upstream provider that agrees to every request, and a tracking provider of pool 5 on top of it.\<close>

definition agree_ops :: "(u64 \<times> ptr) umf_memory_provider_ops_t" where
  "agree_ops = bump_ops\<lparr>ext_free := Op (\<lambda>priv a sz w. Some (UMF_RESULT_SUCCESS, w)),
     allocation_split := Op (\<lambda>priv a tot first w. Some (UMF_RESULT_SUCCESS, w)),
     allocation_merge := Op (\<lambda>priv low high tot w. Some (UMF_RESULT_SUCCESS, w)),
     get_ipc_handle_size := Op (\<lambda>priv w. Some ((UMF_RESULT_SUCCESS, 2), w)),
     get_ipc_handle := Op (\<lambda>priv a sz w. Some ((UMF_RESULT_SUCCESS, [ucast a, 7]), w)),
     put_ipc_handle := Op (\<lambda>priv d w. Some (UMF_RESULT_SUCCESS, w)),
     open_ipc_handle := Op (\<lambda>priv d (w, l). Some ((UMF_RESULT_SUCCESS, w), w, l)),
     close_ipc_handle := Op (\<lambda>priv a sz w. Some (UMF_RESULT_SUCCESS, w))\<rparr>"

definition agree_upstream :: "u64 \<Rightarrow> u64 prov_state" where
  "agree_upstream w = \<lparr>world = w, providers = [77 \<mapsto> \<lparr>ops = agree_ops, provider_priv = 1\<rparr>], lastFailedProvider = NULL\<rparr>"

definition example_provider :: umf_tracking_memory_provider_t where
  "example_provider = \<lparr>hUpstream = 77, hTracker = True, tpool = 5, ipcCache = Some critnib_zero, upstreamDoesNotFree = False\<rparr>"

definition example_state :: "umf_memory_tracker_t \<Rightarrow> u64 tracking_state" where
  "example_state t = \<lparr>benv = env_linux, proxy_lib = False, upstream = agree_upstream 8192, TRACKER = Some t,
     tproviders = [88 \<mapsto> example_provider], tparams = example_provider, ipc_values = Map.empty,
     grants = (\<lambda>i. \<lparr>g_mmap = NULL, g_leaf = 1001 + i, g_node = 2001 + i\<rparr>), hosts = (\<lambda>i. 3001 + i), tick = 0\<rparr>"

lemmas agree_defs = agree_upstream_def agree_ops_def bump_ops_def checkErrorAndSetLastProvider_def call_op_def

lemma agree_upstream_runs:
  "umfMemoryProviderAlloc 77 sz al (agree_upstream w) = Some ((UMF_RESULT_SUCCESS, w), agree_upstream (w + sz))"
  "umfMemoryProviderFree 77 a sz (agree_upstream w) = Some (UMF_RESULT_SUCCESS, agree_upstream w)"
  "a \<noteq> 0 \<Longrightarrow> first \<noteq> 0 \<Longrightarrow> first < tot \<Longrightarrow>
     umfMemoryProviderAllocationSplit 77 a tot first (agree_upstream w) = Some (UMF_RESULT_SUCCESS, agree_upstream w)"
  "low \<noteq> 0 \<Longrightarrow> low < high \<Longrightarrow> high - low \<le> tot \<Longrightarrow> tot \<noteq> 0 \<Longrightarrow>
     umfMemoryProviderAllocationMerge 77 low high tot (agree_upstream w) = Some (UMF_RESULT_SUCCESS, agree_upstream w)"
  "umfMemoryProviderGetIPCHandleSize 77 (agree_upstream w) = Some ((UMF_RESULT_SUCCESS, 2), agree_upstream w)"
  "umfMemoryProviderGetIPCHandle 77 a sz (agree_upstream w) = Some ((UMF_RESULT_SUCCESS, [ucast a, 7]), agree_upstream w)"
  by (auto simp: umfMemoryProviderAlloc_def umfMemoryProviderFree_def umfMemoryProviderAllocationSplit_def
      umfMemoryProviderAllocationMerge_def umfMemoryProviderGetIPCHandleSize_def umfMemoryProviderGetIPCHandle_def agree_defs)

lemma example_provider_simps [simp]:
  "hUpstream example_provider = 77" "tpool example_provider = 5" "ipcCache example_provider = Some critnib_zero"
  by (simp_all add: example_provider_def)

text \<open>The state after an allocation of 64 bytes, and after another one of 32 bytes.\<close>

lemma example_run:
  obtains s0 t0 s1 t1 s2 t2 where "s0 = example_state t0" "tracking_ok s0 88 example_provider t0" "host_memory 5 s0 t0"
    "ranges_of t0 = Map.empty" "critnib_room (map_t t0) = 2 ^ 64 - DELETED_LIFE"
    "trackingAlloc 88 64 8 s0 = Some ((UMF_RESULT_SUCCESS, 8192), s1)"
    "tracking_ok s1 88 example_provider t1" "ranges_of t1 = [8192 \<mapsto> \<lparr>tv_pool = 5, tv_size = 64\<rparr>]"
    "host_memory 4 s1 t1" "upstream s1 = agree_upstream 8256" "benv s1 = env_linux" "ipc_values s1 = Map.empty"
    "trackingAlloc 88 32 8 s1 = Some ((UMF_RESULT_SUCCESS, 8256), s2)"
    "tracking_ok s2 88 example_provider t2" "host_memory 3 s2 t2" "upstream s2 = agree_upstream 8288"
    "ranges_of t2 = [8192 \<mapsto> \<lparr>tv_pool = 5, tv_size = 64\<rparr>, 8256 \<mapsto> \<lparr>tv_pool = 5, tv_size = 32\<rparr>]"
    "critnib_room (map_t t2) = 2 ^ 64 - DELETED_LIFE"
proof -
  let ?p = example_provider
  obtain t0 where t0: "tracker_ok env_linux t0" "ranges_of t0 = Map.empty"
    "critnib_room (map_t t0) = 2 ^ 64 - DELETED_LIFE" "128 \<le> ba_spare (tracker_allocator t0)"
    "\<not> splitMergeMutex t0" "map_t t0 = critnib_zero"
    by (rule example_tracker)
  define s0 where "s0 = example_state t0"
  have ok0: "tracking_ok s0 88 ?p t0"
    using t0 by (simp add: tracking_ok_def s0_def example_state_def DELETED_LIFE_def)
  have mem0: "host_memory 5 s0 t0"
    using t0(4,6) by (simp add: host_memory_def s0_def example_state_def critnib_fresh_def critnib_zero_def inj_on_def)
  have m: "host_memory (Suc 4) s0 t0" using mem0 by (simp add: eval_nat_numeral)
  have u0: "umfMemoryProviderAlloc (hUpstream ?p) 64 8 (upstream s0) = Some ((UMF_RESULT_SUCCESS, 8192), agree_upstream 8256)"
    using agree_upstream_runs(1) [of 64 8 8192] by (simp add: s0_def example_state_def)
  have b0: "benv s0 = env_linux" "ipc_values s0 = Map.empty" by (simp_all add: s0_def example_state_def)
  from alloc_ok [OF ok0 m _ u0] t0(2,3) b0 obtain t1 s1 where
    s1: "trackingAlloc 88 64 8 s0 = Some ((UMF_RESULT_SUCCESS, 8192), s1)"
    "tracking_ok s1 88 ?p t1" "ranges_of t1 = [8192 \<mapsto> \<lparr>tv_pool = 5, tv_size = 64\<rparr>]"
    "host_memory 4 s1 t1" "upstream s1 = agree_upstream 8256" "benv s1 = env_linux" "ipc_values s1 = Map.empty"
    "critnib_room (map_t t1) = 2 ^ 64 - DELETED_LIFE"
    by auto
  have m1: "host_memory (Suc 3) s1 t1" using s1(4) by (simp add: eval_nat_numeral)
  have u1: "umfMemoryProviderAlloc (hUpstream ?p) 32 8 (upstream s1) = Some ((UMF_RESULT_SUCCESS, 8256), agree_upstream 8288)"
    using agree_upstream_runs(1) [of 32 8 8256] by (simp add: s1(5))
  from alloc_ok [OF s1(2) m1 _ u1] s1(3,8) obtain t2 s2 where
    "trackingAlloc 88 32 8 s1 = Some ((UMF_RESULT_SUCCESS, 8256), s2)"
    "tracking_ok s2 88 ?p t2" "host_memory 3 s2 t2" "upstream s2 = agree_upstream 8288"
    "ranges_of t2 = [8192 \<mapsto> \<lparr>tv_pool = 5, tv_size = 64\<rparr>, 8256 \<mapsto> \<lparr>tv_pool = 5, tv_size = 32\<rparr>]"
    "critnib_room (map_t t2) = 2 ^ 64 - DELETED_LIFE"
    by auto
  with that [OF s0_def ok0 mem0 t0(2,3) s1(1-7)] show thesis by blast
qed

section \<open>Releasing what was allocated\<close>

lemma release_ok:
  assumes ok: "tracking_ok s priv p t" and mem: "host_memory n s t" and a: "a \<noteq> 0"
    and m: "ranges_of t a = Some \<lparr>tv_pool = tpool p, tv_size = sz\<rparr>"
    and cp: "cache_put s p c a u1" and up: "umfMemoryProviderFree (hUpstream p) a sz u1 = Some (e, u2)"
  obtains t' s' where "trackingFree priv a sz s = Some (e, s')" "upstream s' = u2" "TRACKER s' = Some t'"
    "tracker_ok (benv s) t'"
    "ranges_of t' = (if e = UMF_RESULT_SUCCESS then (ranges_of t)(a := None) else ranges_of t)"
proof -
  have t: "tracker_ok (benv s) t" using ok by (simp add: tracking_ok_def)
  have grant: "grant_ok t1 (grants s (tick s)) \<and> g_leaf (grants s (tick s)) \<noteq> NULL \<and> g_node (grants s (tick s)) \<noteq> NULL"
    if "umfMemoryTrackerRemove (benv s) t a = Some (r1, t1)" for r1 t1
    by (rule grant_after_remove [OF t mem a _ that]) (use m in simp)
  have "\<exists>c' t' s'. trackingFree priv a sz s = Some (e, s') \<and> upstream s' = u2 \<and> TRACKER s' = Some t' \<and>
    tracker_ok (benv s) t' \<and> tproviders s' priv = Some (p\<lparr>ipcCache := Some c'\<rparr>) \<and>
    critnib_ok c' \<and> contents c' = (contents c)(a := None) \<and>
    ranges_of t' = (if e = UMF_RESULT_SUCCESS then (ranges_of t)(a := None)
      else if ranges_of t a = None then ranges_of t
      else (ranges_of t)(a \<mapsto> \<lparr>tv_pool = tpool p, tv_size = sz\<rparr>))"
    by (rule free_ok [OF ok a cp up grant])
  then obtain t' s' where "trackingFree priv a sz s = Some (e, s')" "upstream s' = u2"
    "TRACKER s' = Some t'" "tracker_ok (benv s) t'"
    "ranges_of t' = (if e = UMF_RESULT_SUCCESS then (ranges_of t)(a := None) else if ranges_of t a = None then ranges_of t
      else (ranges_of t)(a \<mapsto> \<lparr>tv_pool = tpool p, tv_size = sz\<rparr>))" by blast
  moreover from this(5) have "ranges_of t' = (if e = UMF_RESULT_SUCCESS then (ranges_of t)(a := None) else ranges_of t)"
    using m by (auto simp: fun_eq_iff)
  ultimately show thesis using that by blast
qed

section \<open>Properties\<close>

text \<open>C30: Memory that the upstream provider allocates at a vacant place is returned unchanged by the
  tracking provider, and every address of it is then found to belong to the pool; when the
  upstream provider fails, its answer is passed on and nothing is tracked. Releasing the memory,
  when the upstream provider agrees, restores the tracked ranges; when it refuses, its error is
  returned and the memory stays tracked.\<close>

theorem tracking_alloc_free_roundtrip:
  assumes ok: "tracking_ok s priv p t" and mem: "host_memory 1 s t" and h: "hUpstream p \<noteq> NULL"
    and d: "disjoint_ranges (ranges_of t)"
    and up: "umfMemoryProviderAlloc (hUpstream p) sz al (upstream s) = Some ((r, a), u)"
    and v: "r = UMF_RESULT_SUCCESS \<longrightarrow> a \<noteq> 0 \<and> vacant (ranges_of t) a sz"
    and fr: "r = UMF_RESULT_SUCCESS \<longrightarrow> cache_put (s\<lparr>upstream := u\<rparr>) p c a u1 \<and> umfMemoryProviderFree (hUpstream p) a sz u1 = Some (e, u2)"
  shows "\<exists>s' t'. trackingAlloc priv sz al s = Some ((r, a), s') \<and> TRACKER s' = Some t' \<and>
    (if r \<noteq> UMF_RESULT_SUCCESS then ranges_of t' = ranges_of t
     else disjoint_ranges (ranges_of t') \<and>
       (\<forall>k. a \<le> k \<and> unat k < unat a + unat sz \<longrightarrow> umfMemoryTrackerGetPool (Some t') k = Some (tpool p)) \<and>
       (\<exists>s'' t''. trackingFree priv a sz s' = Some (e, s'') \<and> TRACKER s'' = Some t'' \<and> tracker_ok (benv s) t'' \<and>
          ranges_of t'' = (if e = UMF_RESULT_SUCCESS then ranges_of t else ranges_of t')))"
proof -
  have mem': "host_memory (Suc 0) s t" using mem by simp
  from alloc_ok [OF ok mem' h up] obtain t' s' where
    s': "trackingAlloc priv sz al s = Some ((r, a), s')" "upstream s' = u" "tracking_ok s' priv p t'"
      "benv s' = benv s" "ipc_values s' = ipc_values s" "critnib_room (map_t t') = critnib_room (map_t t)"
      "if r = UMF_RESULT_SUCCESS \<and> a \<noteq> 0 \<and> ranges_of t a = None
       then ranges_of t' = (ranges_of t)(a \<mapsto> \<lparr>tv_pool = tpool p, tv_size = sz\<rparr>) \<and> host_memory 0 s' t'
       else ranges_of t' = ranges_of t" by blast
  have t': "TRACKER s' = Some t'" "tracker_ok (benv s) t'" "0 < critnib_room (map_t t')"
    using s'(3,4) by (auto simp: tracking_ok_def)
  show ?thesis
  proof (cases "r = UMF_RESULT_SUCCESS")
    case False
    then show ?thesis using s' t'(1) by auto
  next
    case True
    let ?w = "\<lparr>tv_pool = tpool p, tv_size = sz\<rparr>"
    have a: "a \<noteq> 0" "vacant (ranges_of t) a sz" "ranges_of t a = None" using v True by (auto simp: vacant_def)
    then have m': "ranges_of t' = (ranges_of t)(a \<mapsto> ?w)" using s'(7) True by simp
    have d': "disjoint_ranges (ranges_of t')" unfolding m' by (rule disjoint_add [OF d]) (use a(2) in simp)
    have "umfMemoryTrackerGetPool (Some t') k = Some (tpool p)" if "a \<le> k" "unat k < unat a + unat sz" for k
    proof -
      have "k \<noteq> 0" using that(1) a(1) by auto
      moreover have "covers (ranges_of t') a ?w k" using that by (simp add: covers_def m')
      ultimately show ?thesis using pool_found [OF t'(2) d' t'(3)] by fastforce
    qed
    moreover have f: "cache_put s' p c a u1" "umfMemoryProviderFree (hUpstream p) a sz u1 = Some (e, u2)"
      using fr True s'(2,5) by (auto simp: cache_put_def split: option.splits)
    have m: "host_memory 0 s' t'" "ranges_of t' a = Some ?w" using s'(7) True a by simp_all
    obtain t'' s'' where
      "trackingFree priv a sz s' = Some (e, s'')" "TRACKER s'' = Some t''" "tracker_ok (benv s') t''"
      "ranges_of t'' = (if e = UMF_RESULT_SUCCESS then (ranges_of t')(a := None) else ranges_of t')"
      by (rule release_ok [OF s'(3) m(1) a(1) m(2) f]) blast
    moreover have "(ranges_of t')(a := None) = ranges_of t" using a(3) by (auto simp: m' fun_eq_iff)
    ultimately show ?thesis using True s'(1,4) t'(1) d' by auto
  qed
qed

theorem tracking_alloc_free_roundtrip_witness:
  "\<exists>t s' t'. trackingAlloc 88 64 8 (example_state t) = Some ((UMF_RESULT_SUCCESS, 8192), s') \<and> TRACKER s' = Some t' \<and>
     umfMemoryTrackerGetPool (Some t') 8200 = Some 5"
proof -
  obtain s0 t0 s1 t1 s2 t2 where s0: "s0 = example_state t0" "tracking_ok s0 88 example_provider t0" "host_memory 5 s0 t0"
    "ranges_of t0 = Map.empty" by (rule example_run) blast
  have m: "host_memory 1 s0 t0" using s0(3) by (auto simp: host_memory_def intro: inj_on_subset)
  have u: "umfMemoryProviderAlloc (hUpstream example_provider) 64 8 (upstream s0) = Some ((UMF_RESULT_SUCCESS, 8192), agree_upstream 8256)"
    using agree_upstream_runs(1) [of 64 8 8192] by (simp add: s0(1) example_state_def)
  have c: "cache_put (s0\<lparr>upstream := agree_upstream 8256\<rparr>) example_provider critnib_zero 8192 (agree_upstream 8256)"
    by (simp add: cache_put_def critnib_ok_zero contents_zero)
  have f: "umfMemoryProviderFree (hUpstream example_provider) 8192 64 (agree_upstream 8256) = Some (UMF_RESULT_SUCCESS, agree_upstream 8256)"
    using agree_upstream_runs(2) by simp
  have v: "disjoint_ranges (ranges_of t0)" "vacant (ranges_of t0) 8192 64"
    by (simp_all add: s0(4) disjoint_ranges_def vacant_def)
  from tracking_alloc_free_roundtrip [OF s0(2) m _ v(1) u] v(2) s0(1) c f show ?thesis
    by (fastforce simp: word_le_nat_alt)
qed

text \<open>C31: When a tracked range of the pool is split, the tracking provider asks the upstream provider to
  split the memory; if it refuses, its error is returned and the tracker is unchanged; otherwise
  the operation succeeds, the range is replaced by the two parts, every address keeps the pool
  that owns it, the ranges stay disjoint and the mutex is released.\<close>

theorem tracking_split_keeps_owner:
  assumes ok: "tracking_ok s priv p t" and mem: "host_memory 2 s t" and d: "disjoint_ranges (ranges_of t)"
    and w: "ranges_of t a = Some w" "tv_pool w = tpool p" and k: "k \<noteq> 0"
    and up: "umfMemoryProviderAllocationSplit (hUpstream p) a (tv_size w) first (upstream s) = Some (r, u)"
  shows "\<exists>t' s'. trackingAllocationSplit priv a (tv_size w) first s = Some (r, s') \<and> TRACKER s' = Some t' \<and>
    tracker_ok (benv s) t' \<and> \<not> splitMergeMutex t' \<and> upstream s' = u \<and>
    (if r \<noteq> UMF_RESULT_SUCCESS then ranges_of t' = ranges_of t
     else ranges_of t' = split_map (tpool p) a (tv_size w) first (ranges_of t) \<and> disjoint_ranges (ranges_of t') \<and>
       umfMemoryTrackerGetPool (Some t') k = umfMemoryTrackerGetPool (Some t) k)"
proof -
  have t: "tracker_ok (benv s) t" "0 < critnib_room (map_t t)" using ok by (auto simp: tracking_ok_def)
  from split_ok [OF ok mem w(1) refl range_end [OF d w(1)] up] obtain r' t' s' where
    s': "trackingAllocationSplit priv a (tv_size w) first s = Some (r', s')" "TRACKER s' = Some t'"
      "tracker_ok (benv s) t'" "\<not> splitMergeMutex t'" "upstream s' = u"
      "if r \<noteq> UMF_RESULT_SUCCESS then r' = r \<and> ranges_of t' = ranges_of t
       else if ranges_of t (a + first) \<noteq> None then r' = UMF_RESULT_ERROR_UNKNOWN \<and> ranges_of t' = ranges_of t
       else r' = UMF_RESULT_SUCCESS \<and> ranges_of t' = split_map (tpool p) a (tv_size w) first (ranges_of t) \<and>
         critnib_room (map_t t') = critnib_room (map_t t)" by blast
  show ?thesis
  proof (cases "r = UMF_RESULT_SUCCESS")
    case False
    then show ?thesis using s' by auto
  next
    case True
    have f: "first \<noteq> 0" "first < tv_size w" using up True
      by (auto simp: umfMemoryProviderAllocationSplit_def split: if_splits)
    note sd = split_disjoint [OF d w(1) f]
    have m': "r' = r" "ranges_of t' = split_map (tpool p) a (tv_size w) first (ranges_of t)"
      "critnib_room (map_t t') = critnib_room (map_t t)" using s'(6) True sd(1) by auto
    have d': "disjoint_ranges (ranges_of t')" using sd(2) m'(2) by simp
    have "umfMemoryTrackerGetPool (Some t') k = umfMemoryTrackerGetPool (Some t) k"
    proof (rule pool_same [OF t(1) d t(2) k s'(3) d'])
      show "0 < critnib_room (map_t t')" using m'(3) t(2) by simp
      fix b v
      show "\<exists>b' v'. covers (ranges_of t') b' v' k \<and> tv_pool v' = tv_pool v" if "covers (ranges_of t) b v k"
        using split_covers [OF d w(1) f that, of "tpool p"] that w unfolding m'(2) covers_def by (metis option.inject)
      show "\<exists>b' v'. covers (ranges_of t) b' v' k" if "covers (ranges_of t') b v k"
        using split_covers_back [OF d w(1) f that [unfolded m'(2)]] by metis
    qed
    with True s' m' d' show ?thesis by auto
  qed
qed

theorem tracking_split_keeps_owner_witness:
  "\<exists>t (s :: u64 tracking_state) t' s'. ranges_of t = [8192 \<mapsto> \<lparr>tv_pool = 5, tv_size = 64\<rparr>] \<and>
     trackingAllocationSplit 88 8192 64 16 s = Some (UMF_RESULT_SUCCESS, s') \<and> TRACKER s' = Some t' \<and>
     ranges_of t' = [8192 \<mapsto> \<lparr>tv_pool = 5, tv_size = 16\<rparr>, 8208 \<mapsto> \<lparr>tv_pool = 5, tv_size = 48\<rparr>] \<and>
     umfMemoryTrackerGetPool (Some t') 8250 = umfMemoryTrackerGetPool (Some t) 8250"
proof -
  obtain s1 t1 where s1: "tracking_ok s1 88 example_provider t1" "ranges_of t1 = [8192 \<mapsto> \<lparr>tv_pool = 5, tv_size = 64\<rparr>]"
    "host_memory 4 s1 t1" "upstream s1 = agree_upstream 8256" by (rule example_run) blast
  have m: "host_memory 2 s1 t1" using s1(3) by (auto simp: host_memory_def intro: inj_on_subset)
  have d: "disjoint_ranges (ranges_of t1)" by (auto simp: s1(2) disjoint_ranges_def split: if_splits)
  have u: "umfMemoryProviderAllocationSplit (hUpstream example_provider) 8192 (tv_size \<lparr>tv_pool = 5, tv_size = 64\<rparr>) 16 (upstream s1)
      = Some (UMF_RESULT_SUCCESS, agree_upstream 8256)"
    using agree_upstream_runs(3) [of 8192 16 64 8256] by (simp add: s1(4))
  have e: "[8192 \<mapsto> \<lparr>tv_pool = 5, tv_size = 16\<rparr>, 8208 \<mapsto> \<lparr>tv_pool = 5, tv_size = 48\<rparr>] =
      split_map 5 8192 64 16 (ranges_of t1)" by (auto simp: split_map_def s1(2) fun_eq_iff)
  from tracking_split_keeps_owner [OF s1(1) m d _ _ _ u, of 8250] s1(2) obtain t' s' where
    "trackingAllocationSplit 88 8192 64 16 s1 = Some (UMF_RESULT_SUCCESS, s')" "TRACKER s' = Some t'"
    "ranges_of t' = split_map 5 8192 64 16 (ranges_of t1)"
    "umfMemoryTrackerGetPool (Some t') 8250 = umfMemoryTrackerGetPool (Some t1) 8250" by auto
  then show ?thesis unfolding e using s1(2) by blast
qed

text \<open>C32: When two adjacent tracked ranges of the pool are merged, the tracking provider asks the upstream
  provider to merge the memory; if it refuses, its error is returned and the tracker is unchanged;
  otherwise the two ranges are replaced by one, every address keeps the pool that owns it, the
  ranges stay disjoint, and splitting the map of ranges again at the old boundary restores it.\<close>

theorem tracking_merge_keeps_owner:
  assumes ok: "tracking_ok s priv p t" and mem: "host_memory 1 s t" and d: "disjoint_ranges (ranges_of t)"
    and l: "ranges_of t low = Some lv" "ranges_of t high = Some hv" "tv_pool lv = tpool p" "tv_pool hv = tpool p"
    and adj: "low + tv_size lv = high" "tv_size lv + tv_size hv = tot" "tv_size hv \<noteq> 0"
    and k: "k \<noteq> 0" and room: "1 < critnib_room (map_t t)"
    and up: "umfMemoryProviderAllocationMerge (hUpstream p) low high tot (upstream s) = Some (r, u)"
  shows "\<exists>t' s'. trackingAllocationMerge priv low high tot s = Some (r, s') \<and> TRACKER s' = Some t' \<and>
    tracker_ok (benv s) t' \<and> \<not> splitMergeMutex t' \<and> upstream s' = u \<and>
    (if r \<noteq> UMF_RESULT_SUCCESS then ranges_of t' = ranges_of t
     else ranges_of t' = merge_map (tpool p) low high tot (ranges_of t) \<and> disjoint_ranges (ranges_of t') \<and>
       umfMemoryTrackerGetPool (Some t') k = umfMemoryTrackerGetPool (Some t) k \<and>
       split_map (tpool p) low tot (tv_size lv) (ranges_of t') = ranges_of t)"
proof -
  have t: "tracker_ok (benv s) t" "0 < critnib_room (map_t t)" using ok by (auto simp: tracking_ok_def)
  have same: "tv_pool lv = tv_pool hv" using l(3,4) by simp
  from merge_ok [OF ok mem l(1,2) same adj(2) up] obtain t' s' where
    s': "trackingAllocationMerge priv low high tot s = Some (r, s')" "TRACKER s' = Some t'"
      "tracker_ok (benv s) t'" "\<not> splitMergeMutex t'" "upstream s' = u" "critnib_room (map_t t) \<le> Suc (critnib_room (map_t t'))"
      "ranges_of t' = (if r \<noteq> UMF_RESULT_SUCCESS then ranges_of t else merge_map (tpool p) low high tot (ranges_of t))"
    by blast
  show ?thesis
  proof (cases "r = UMF_RESULT_SUCCESS")
    case False
    then show ?thesis using s' by auto
  next
    case True
    have lt: "low < high" using up True by (auto simp: umfMemoryProviderAllocationMerge_def split: if_splits)
    note ms = merge_split [OF d l adj(1,2) lt]
    let ?w = "\<lparr>tv_pool = tpool p, tv_size = tot\<rparr>"
    have m': "ranges_of t' = merge_map (tpool p) low high tot (ranges_of t)" using s'(7) True by simp
    have d': "disjoint_ranges (ranges_of t')" using ms(1) m' by simp
    have w: "ranges_of t' low = Some ?w" using lt by (simp add: m' merge_map_def)
    have f: "tv_size lv \<noteq> 0" "tv_size lv < tv_size ?w"
      using adj(1,3) lt ms(3) by (auto simp: word_less_nat_alt unat_gt_0)
    have undo: "split_map (tpool p) low (tv_size ?w) (tv_size lv) (ranges_of t') = ranges_of t" using ms(2) m' by simp
    have "umfMemoryTrackerGetPool (Some t) k = umfMemoryTrackerGetPool (Some t') k"
    proof (rule pool_same [OF s'(3) d' _ k t(1) d t(2)])
      show "0 < critnib_room (map_t t')" using s'(6) room by simp
      fix b v
      show "\<exists>b' v'. covers (ranges_of t) b' v' k \<and> tv_pool v' = tv_pool v" if "covers (ranges_of t') b v k"
        using split_covers [OF d' w f that, of "tpool p"] that w unfolding undo covers_def
        by (metis option.inject umf_memory_tracker_t.select_convs tracker_value_t.select_convs(1))
      show "\<exists>b' v'. covers (ranges_of t') b' v' k" if "covers (ranges_of t) b v k"
        using split_covers_back [OF d' w f, of "tpool p"] that unfolding undo by metis
    qed
    with True s' m' d' undo show ?thesis by auto
  qed
qed

theorem tracking_merge_keeps_owner_witness:
  "\<exists>t (s :: u64 tracking_state) t' s'. ranges_of t = [8192 \<mapsto> \<lparr>tv_pool = 5, tv_size = 64\<rparr>, 8256 \<mapsto> \<lparr>tv_pool = 5, tv_size = 32\<rparr>] \<and>
     trackingAllocationMerge 88 8192 8256 96 s = Some (UMF_RESULT_SUCCESS, s') \<and> TRACKER s' = Some t' \<and>
     ranges_of t' = [8192 \<mapsto> \<lparr>tv_pool = 5, tv_size = 96\<rparr>] \<and>
     umfMemoryTrackerGetPool (Some t') 8250 = umfMemoryTrackerGetPool (Some t) 8250"
proof -
  obtain s2 t2 where s2: "tracking_ok s2 88 example_provider t2" "host_memory 3 s2 t2" "upstream s2 = agree_upstream 8288"
    "ranges_of t2 = [8192 \<mapsto> \<lparr>tv_pool = 5, tv_size = 64\<rparr>, 8256 \<mapsto> \<lparr>tv_pool = 5, tv_size = 32\<rparr>]"
    "critnib_room (map_t t2) = 2 ^ 64 - DELETED_LIFE"
    by (rule example_run) blast
  have m: "host_memory 1 s2 t2" using s2(2) by (auto simp: host_memory_def intro: inj_on_subset)
  have d: "disjoint_ranges (ranges_of t2)" by (auto simp: s2(4) disjoint_ranges_def split: if_splits)
  have u: "umfMemoryProviderAllocationMerge (hUpstream example_provider) 8192 8256 96 (upstream s2)
      = Some (UMF_RESULT_SUCCESS, agree_upstream 8288)"
    using agree_upstream_runs(4) [of 8192 8256 96 8288] by (simp add: s2(3))
  have e: "[8192 \<mapsto> \<lparr>tv_pool = 5, tv_size = 96\<rparr>] = merge_map 5 8192 8256 96 (ranges_of t2)"
    by (auto simp: merge_map_def s2(4) fun_eq_iff)
  from tracking_merge_keeps_owner [OF s2(1) m d _ _ _ _ _ _ _ _ _ u, of "\<lparr>tv_pool = 5, tv_size = 64\<rparr>" "\<lparr>tv_pool = 5, tv_size = 32\<rparr>" 8250] s2(4,5)
  obtain t' s' where "trackingAllocationMerge 88 8192 8256 96 s2 = Some (UMF_RESULT_SUCCESS, s')" "TRACKER s' = Some t'"
    "ranges_of t' = merge_map 5 8192 8256 96 (ranges_of t2)"
    "umfMemoryTrackerGetPool (Some t') 8250 = umfMemoryTrackerGetPool (Some t2) 8250" by (auto simp: DELETED_LIFE_def)
  then show ?thesis unfolding e using s2(4) by blast
qed

section \<open>Handles for sharing\<close>

lemma ipc_cache_hit:
  assumes "tproviders s priv = Some p" "ipcCache p = Some c" "critnib_ok c" "0 < critnib_room c"
    and "contents c a = Some v" "v \<noteq> NULL" "ipc_values s v = Some val"
  shows "trackingGetIpcHandle priv a sz s = Some ((UMF_RESULT_SUCCESS, take (unat (ipcDataSize val)) (cachedIpcData val)), s)"
proof -
  have "critnib_get c a = Some v" using cnmap.get_law [OF assms(3,4)] assms(5) by (simp add: value_at_def)
  then show ?thesis using assms by (subst trackingGetIpcHandle.simps) simp
qed

lemma ipc_cache_miss:
  assumes "tproviders s priv = Some p" "ipcCache p = Some c" "critnib_ok c" "0 < critnib_room c" "contents c a = None"
    and get: "umfMemoryProviderGetIPCHandle (hUpstream p) a sz (upstream s) = Some ((UMF_RESULT_SUCCESS, d), u1)"
    and size: "umfMemoryProviderGetIPCHandleSize (hUpstream p) u1 = Some ((UMF_RESULT_SUCCESS, n), u2)"
    and h: "hosts s (tick s) \<noteq> NULL"
    and g: "critnib_fresh c (g_leaf (grants s (tick s))) (g_node (grants s (tick s)))"
      "g_leaf (grants s (tick s)) \<noteq> NULL" "g_node (grants s (tick s)) \<noteq> NULL"
  obtains c' s' where "trackingGetIpcHandle priv a sz s = Some ((UMF_RESULT_SUCCESS, d), s')"
    "tproviders s' = (tproviders s)(priv \<mapsto> p\<lparr>ipcCache := Some c'\<rparr>)" "critnib_ok c'" "critnib_room c' = critnib_room c"
    "contents c' = (contents c)(a \<mapsto> hosts s (tick s))" "TRACKER s' = TRACKER s" "upstream s' = u2"
    "ipc_values s' = (ipc_values s)(hosts s (tick s) \<mapsto> \<lparr>ipcDataSize = n, cachedIpcData = take (unat n) d\<rparr>)"
proof -
  let ?v = "hosts s (tick s)" and ?g = "grants s (tick s)"
  have cg: "critnib_get c a = Some NULL" using cnmap.get_law [OF assms(3,4)] assms(5) by (simp add: value_at_def)
  from cnmap.ins_law [OF assms(3) g(1), of a ?v False] obtain e c' where
    i: "critnib_insert c a ?v False (g_leaf ?g) (g_node ?g) = Some (e, c')" and c': "critnib_ok c'" "critnib_room c' = critnib_room c"
      "ins_result (contents c) a ?v False (g_leaf ?g \<noteq> NULL \<and> g_node ?g \<noteq> NULL) e (contents c')" by blast
  have e: "e = OK" "contents c' = (contents c)(a \<mapsto> ?v)"
    using c'(3) g(2,3) assms(5) by (cases e; simp add: ins_result_def)+
  show thesis
    by (rule that [of "set_cache priv p c' (s\<lparr>upstream := u2, tick := Suc (tick s),
          ipc_values := (ipc_values s)(?v \<mapsto> \<lparr>ipcDataSize = n, cachedIpcData = take (unat n) d\<rparr>)\<rparr>)" c'])
      (use assms(1,2) cg get size h i e c'(1,2) in \<open>auto simp: set_cache_def trackingGetIpcHandle.simps [of priv a sz s]\<close>)
qed

text \<open>A handle that the upstream provider creates is kept in the cache: the first request returns the
  data of the upstream provider, and any further request for the same address, whatever its size
  argument, returns the same data without a call of the upstream provider and without a change of
  state.\<close>

theorem tracking_ipc_handle_cached:
  assumes s: "tproviders s priv = Some p" "ipcCache p = Some c" "critnib_ok c" "0 < critnib_room c" "contents c a = None"
    and get: "umfMemoryProviderGetIPCHandle (hUpstream p) a sz (upstream s) = Some ((UMF_RESULT_SUCCESS, d), u1)"
    and size: "umfMemoryProviderGetIPCHandleSize (hUpstream p) u1 = Some ((UMF_RESULT_SUCCESS, n), u2)" "length d = unat n"
    and h: "hosts s (tick s) \<noteq> NULL"
    and g: "critnib_fresh c (g_leaf (grants s (tick s))) (g_node (grants s (tick s)))"
      "g_leaf (grants s (tick s)) \<noteq> NULL" "g_node (grants s (tick s)) \<noteq> NULL"
  shows "\<exists>s'. trackingGetIpcHandle priv a sz s = Some ((UMF_RESULT_SUCCESS, d), s') \<and> upstream s' = u2 \<and>
    trackingGetIpcHandle priv a sz' s' = Some ((UMF_RESULT_SUCCESS, d), s')"
proof -
  obtain c' s' where s': "trackingGetIpcHandle priv a sz s = Some ((UMF_RESULT_SUCCESS, d), s')"
    "tproviders s' = (tproviders s)(priv \<mapsto> p\<lparr>ipcCache := Some c'\<rparr>)" "critnib_ok c'" "critnib_room c' = critnib_room c"
    "contents c' = (contents c)(a \<mapsto> hosts s (tick s))" "TRACKER s' = TRACKER s" "upstream s' = u2"
    "ipc_values s' = (ipc_values s)(hosts s (tick s) \<mapsto> \<lparr>ipcDataSize = n, cachedIpcData = take (unat n) d\<rparr>)"
    by (rule ipc_cache_miss [OF s get size(1) h g])
  have "trackingGetIpcHandle priv a sz' s' = Some ((UMF_RESULT_SUCCESS, take (unat n) (take (unat n) d)), s')"
    using ipc_cache_hit [of s' priv "p\<lparr>ipcCache := Some c'\<rparr>" c' a "hosts s (tick s)"
        "\<lparr>ipcDataSize = n, cachedIpcData = take (unat n) d\<rparr>" sz'] s' h s(4) by simp
  then show ?thesis using s'(1,7) size(2) by auto
qed

theorem tracking_ipc_handle_cached_witness:
  "\<exists>(s :: u64 tracking_state) s'. trackingGetIpcHandle 88 8192 64 s = Some ((UMF_RESULT_SUCCESS, [0, 7]), s') \<and>
     trackingGetIpcHandle 88 8192 64 s' = Some ((UMF_RESULT_SUCCESS, [0, 7]), s')"
proof -
  obtain t where "tracker_ok env_linux t" by (rule example_tracker)
  let ?s = "example_state t"
  have u: "umfMemoryProviderGetIPCHandle (hUpstream example_provider) 8192 64 (upstream ?s) =
      Some ((UMF_RESULT_SUCCESS, [0, 7]), agree_upstream 8192)"
    using agree_upstream_runs(6) [of 8192 64 8192] by (simp add: example_state_def)
  have z: "umfMemoryProviderGetIPCHandleSize (hUpstream example_provider) (agree_upstream 8192) =
      Some ((UMF_RESULT_SUCCESS, 2), agree_upstream 8192)"
    using agree_upstream_runs(5) by simp
  have p: "tproviders ?s 88 = Some example_provider" "ipcCache example_provider = Some critnib_zero"
    by (simp_all add: example_state_def)
  have r: "0 < critnib_room critnib_zero" by (simp add: critnib_room_def critnib_zero_def DELETED_LIFE_def)
  have g: "critnib_fresh critnib_zero l n" for l n by (simp add: critnib_fresh_def critnib_zero_def)
  from tracking_ipc_handle_cached [OF p critnib_ok_zero r _ u z, of 64] show ?thesis
    by (auto simp: example_state_def contents_zero g)
qed

text \<open>When the upstream provider creates a handle but fails to report the size of handles, and then
  takes the handle back, the failure is lost: the request reports success with a handle that the
  upstream provider no longer knows.\<close>

theorem tracking_ipc_size_failure_hidden:
  assumes "tproviders s priv = Some p" "ipcCache p = Some c" "critnib_ok c" "0 < critnib_room c" "contents c a = None"
    and "umfMemoryProviderGetIPCHandle (hUpstream p) a sz (upstream s) = Some ((UMF_RESULT_SUCCESS, d), u1)"
    and "umfMemoryProviderGetIPCHandleSize (hUpstream p) u1 = Some ((e, n), u2)" "e \<noteq> UMF_RESULT_SUCCESS"
    and "umfMemoryProviderPutIPCHandle (hUpstream p) d u2 = Some (UMF_RESULT_SUCCESS, u3)"
  shows "trackingGetIpcHandle priv a sz s = Some ((UMF_RESULT_SUCCESS, d), s\<lparr>upstream := u3\<rparr>)"
proof -
  have "critnib_get c a = Some NULL" using cnmap.get_law [OF assms(3,4)] assms(5) by (simp add: value_at_def)
  then show ?thesis using assms(1,2,6-9) by (subst trackingGetIpcHandle.simps) (simp add: put_upstream_def)
qed

definition sizeless_upstream :: "u64 prov_state" where
  "sizeless_upstream = \<lparr>world = 8192, providers = [77 \<mapsto> \<lparr>ops = agree_ops\<lparr>get_ipc_handle_size :=
     Op (\<lambda>priv w. Some ((UMF_RESULT_ERROR_UNKNOWN, 0), w))\<rparr>, provider_priv = 1\<rparr>], lastFailedProvider = NULL\<rparr>"

theorem tracking_ipc_size_failure_hidden_witness:
  "\<exists>(s :: u64 tracking_state) s'. trackingGetIpcHandle 88 8192 64 s = Some ((UMF_RESULT_SUCCESS, [0, 7]), s') \<and>
     umfMemoryProviderGetIPCHandleSize 77 (upstream s) = Some ((UMF_RESULT_ERROR_UNKNOWN, 0), upstream s)"
proof -
  obtain t where "tracker_ok env_linux t" by (rule example_tracker)
  let ?s = "example_state t\<lparr>upstream := sizeless_upstream\<rparr>"
  have r: "0 < critnib_room critnib_zero" by (simp add: critnib_room_def critnib_zero_def DELETED_LIFE_def)
  have z: "umfMemoryProviderGetIPCHandleSize (hUpstream example_provider) sizeless_upstream =
      Some ((UMF_RESULT_ERROR_UNKNOWN, 0), sizeless_upstream)"
    by (simp add: umfMemoryProviderGetIPCHandleSize_def sizeless_upstream_def call_op_def)
  have "trackingGetIpcHandle 88 8192 64 ?s = Some ((UMF_RESULT_SUCCESS, [0, 7]), ?s)"
    using tracking_ipc_size_failure_hidden [of ?s 88 example_provider critnib_zero 8192 64 "[0, 7]" sizeless_upstream
        UMF_RESULT_ERROR_UNKNOWN 0 sizeless_upstream sizeless_upstream] r z
    by (simp add: example_state_def contents_zero critnib_ok_zero umfMemoryProviderGetIPCHandle_def
        umfMemoryProviderPutIPCHandle_def sizeless_upstream_def agree_ops_def call_op_def)
  then show ?thesis using z by (intro exI [of _ ?s]) simp
qed

end
