(* ===== verification/Memory_Pool.thy ===== *)
theory Memory_Pool
  imports Tracking_Provider_Properties
begin

text \<open>
  The memory pool layer (\<open>memory_pool.c\<close>), the proxy pool (\<open>pool/pool_proxy.c\<close>) and the functions that
  share the memory of a pool between processes (\<open>ipc.c\<close>).

  A pool is a table of operations with a private state and a provider. The operations are supplied
  by the user of the library: they are functions on a state that contains the state of the
  providers (\<open>lib_state\<close>) and whatever the pool adds to it, as an extension of the record. The handle of a
  provider is one of a tracking provider, which lives in the table of the library, or one of a
  user's provider, which lives in the table upstream of the tracking providers.
\<close>

section \<open>State\<close>

datatype prov_handle = Tracked ptr | Direct ptr

record 'w lib_state =
  plib :: "('w tracking_state) prov_state"

text \<open>
  The state of the tracking providers and what is below them, as the thread sees it, and a
  function of the provider layer on the table of the user's providers: the last failed provider
  of the thread is the one of the library.
\<close>

definition tracking_view :: "('w, 'x) lib_state_scheme \<Rightarrow> 'w tracking_state" where
  "tracking_view s = set_last_failed (lastFailedProvider (plib s)) (world (plib s))"

definition on_upstream :: "('a, 'w prov_state) eff \<Rightarrow> ('a, ('w, 'x) lib_state_scheme) eff" where
  "on_upstream f s = do {
     (r, u) \<leftarrow> f (upstream (tracking_view s));
     Some (r, s\<lparr>plib := (plib s)\<lparr>world := (world (plib s))\<lparr>upstream := u\<rparr>,
       lastFailedProvider := lastFailedProvider u\<rparr>\<rparr>)
   }"

text \<open>A request to the provider behind a handle: the same function of the provider layer, on the table
  in which the provider lives.\<close>

definition with_provider ::
  "(ptr \<Rightarrow> ('a, ('w tracking_state) prov_state) eff) \<Rightarrow> (ptr \<Rightarrow> ('a, 'w prov_state) eff) \<Rightarrow>
   prov_handle \<Rightarrow> ('a, ('w, 'x) lib_state_scheme) eff" where
  "with_provider f g h s =
     (case h of
        Tracked a \<Rightarrow> do { (r, l) \<leftarrow> f a (plib s); Some (r, s\<lparr>plib := l\<rparr>) }
      | Direct a \<Rightarrow> on_upstream (g a) s)"

record 's umf_memory_pool_ops_t =
  pool_version :: nat
  pool_initialize :: "prov_handle \<Rightarrow> ptr \<Rightarrow> (umf_result \<times> ptr, 's) eff"
  pool_finalize :: "ptr \<Rightarrow> (unit, 's) eff"
  op_malloc :: "ptr \<Rightarrow> u64 \<Rightarrow> (u64, 's) eff"
  op_calloc :: "ptr \<Rightarrow> u64 \<Rightarrow> u64 \<Rightarrow> (u64, 's) eff"
  op_realloc :: "ptr \<Rightarrow> u64 \<Rightarrow> u64 \<Rightarrow> (u64, 's) eff"
  op_aligned_malloc :: "ptr \<Rightarrow> u64 \<Rightarrow> u64 \<Rightarrow> (u64, 's) eff"
  op_malloc_usable_size :: "ptr \<Rightarrow> u64 \<Rightarrow> (u64, 's) eff"
  op_free :: "ptr \<Rightarrow> u64 \<Rightarrow> (umf_result, 's) eff"
  get_last_allocation_error :: "ptr \<Rightarrow> (umf_result, 's) eff"

record 's umf_memory_pool_t =
  pool_priv :: ptr
  pool_ops :: "'s umf_memory_pool_ops_t"
  pool_flags :: u64
  pool_provider :: prov_handle

record 's pool_state =
  lib :: 's
  pools :: "ptr \<rightharpoonup> 's umf_memory_pool_t"

definition UMF_POOL_CREATE_FLAG_OWN_PROVIDER :: nat where "UMF_POOL_CREATE_FLAG_OWN_PROVIDER = 0"
definition UMF_POOL_CREATE_FLAG_DISABLE_TRACKING :: nat where "UMF_POOL_CREATE_FLAG_DISABLE_TRACKING = 1"

text \<open>The two flags are the bits of these numbers.\<close>

definition has_flag :: "u64 \<Rightarrow> nat \<Rightarrow> bool" where
  "has_flag flags i = bit flags i"

definition on_lib :: "('a, 's) eff \<Rightarrow> ('a, 's pool_state) eff" where
  "on_lib f s = do { (r, l) \<leftarrow> f (lib s); Some (r, s\<lparr>lib := l\<rparr>) }"

section \<open>Creation and destruction\<close>

text \<open>
  The answers of the allocator of host memory: for the record of the pool, for the record of the
  tracking provider and for its cache, with the success of the creation of the mutex.
\<close>

record host_answers =
  h_pool :: ptr
  h_provider :: ptr
  h_cache :: ptr
  h_mutex :: bool

definition destroy_tracked :: "ptr \<Rightarrow> (unit, ('w, 'x) lib_state_scheme) eff" where
  "destroy_tracked a l = do { p \<leftarrow> umfMemoryProviderDestroy a (plib l); Some ((), l\<lparr>plib := p\<rparr>) }"

definition destroy_direct :: "ptr \<Rightarrow> (unit, ('w, 'x) lib_state_scheme) eff" where
  "destroy_direct a = on_upstream (\<lambda>u. map_option (Pair ()) (umfMemoryProviderDestroy a u))"

definition destroy_provider :: "prov_handle \<Rightarrow> (unit, ('w, 'x) lib_state_scheme) eff" where
  "destroy_provider h = (case h of Tracked a \<Rightarrow> destroy_tracked a | Direct a \<Rightarrow> destroy_direct a)"

text \<open>Wrapping the user's provider with a tracking provider, unless tracking is disabled.\<close>

definition wrap_provider ::
  "host_answers \<Rightarrow> ptr \<Rightarrow> u64 \<Rightarrow> (umf_result \<times> prov_handle, ('w, 'x) lib_state_scheme) eff" where
  "wrap_provider h provider flags l =
     (if \<not> has_flag flags UMF_POOL_CREATE_FLAG_DISABLE_TRACKING then do {
        upstreamDoesNotFree \<leftarrow> umfIsFreeOpDefault (upstream (world (plib l))) provider;
        ((ret, t), p) \<leftarrow> umfTrackingMemoryProviderCreate (h_provider h) (h_cache h) (h_mutex h)
            provider (h_pool h) upstreamDoesNotFree (plib l);
        Some ((ret, Tracked t), l\<lparr>plib := p\<rparr>)
      } else Some ((UMF_RESULT_SUCCESS, Direct provider), l))"

definition umfPoolCreateInternal ::
  "host_answers \<Rightarrow> (('w, 'x) lib_state_scheme umf_memory_pool_ops_t) option \<Rightarrow> ptr \<Rightarrow> ptr \<Rightarrow> u64 \<Rightarrow> bool \<Rightarrow>
   (umf_result \<times> ptr, ('w, 'x) lib_state_scheme pool_state) eff" where
  "umfPoolCreateInternal h opsp provider params flags hPool s =
     (case opsp of
        None \<Rightarrow> Some ((UMF_RESULT_ERROR_INVALID_ARGUMENT, NULL), s)
      | Some t \<Rightarrow>
          if provider = NULL \<or> \<not> hPool then Some ((UMF_RESULT_ERROR_INVALID_ARGUMENT, NULL), s)
          else if h_pool h = NULL then Some ((UMF_RESULT_ERROR_OUT_OF_HOST_MEMORY, NULL), s)
          else do {
            guard (pool_version t = UMF_VERSION_CURRENT);
            ((ret, prov), s) \<leftarrow> on_lib (wrap_provider h provider flags) s;
            if ret \<noteq> UMF_RESULT_SUCCESS then Some ((ret, NULL), s)
            else do {
              ((ret, priv), s) \<leftarrow> on_lib (pool_initialize t prov params) s;
              if ret \<noteq> UMF_RESULT_SUCCESS then do {
                (_, s) \<leftarrow> (if \<not> has_flag flags UMF_POOL_CREATE_FLAG_DISABLE_TRACKING
                          then on_lib (destroy_provider prov) s else Some ((), s));
                Some ((ret, NULL), s)
              } else Some ((UMF_RESULT_SUCCESS, h_pool h),
                s\<lparr>pools := (pools s)(h_pool h \<mapsto>
                  \<lparr>pool_priv = priv, pool_ops = t, pool_flags = flags, pool_provider = prov\<rparr>)\<rparr>)
            }
          })"

definition umfPoolCreate ::
  "host_answers \<Rightarrow> (('w, 'x) lib_state_scheme umf_memory_pool_ops_t) option \<Rightarrow> ptr \<Rightarrow> ptr \<Rightarrow> u64 \<Rightarrow> bool \<Rightarrow>
   (umf_result \<times> ptr, ('w, 'x) lib_state_scheme pool_state) eff" where
  "umfPoolCreate h opsp provider params flags hPool s = do {
     ((ret, p), s) \<leftarrow> umfPoolCreateInternal h opsp provider params flags hPool s;
     if ret \<noteq> UMF_RESULT_SUCCESS then Some ((ret, p), s)
     else do { guard (p \<noteq> NULL); Some ((UMF_RESULT_SUCCESS, p), s) }
   }"

definition umfPoolGetMemoryProvider ::
  "('w, 'x) lib_state_scheme pool_state \<Rightarrow> ptr \<Rightarrow> bool \<Rightarrow> (umf_result \<times> prov_handle option) option" where
  "umfPoolGetMemoryProvider s hPool hProvider =
     (if \<not> hProvider then Some (UMF_RESULT_ERROR_INVALID_ARGUMENT, None)
      else do {
        p \<leftarrow> pools s hPool;
        if has_flag (pool_flags p) UMF_POOL_CREATE_FLAG_DISABLE_TRACKING
        then Some (UMF_RESULT_SUCCESS, Some (pool_provider p))
        else do {
          t \<leftarrow> (case pool_provider p of Tracked t \<Rightarrow> Some t | Direct _ \<Rightarrow> None);
          priv \<leftarrow> umfMemoryProviderGetPriv (plib (lib s)) t;
          up \<leftarrow> umfTrackingMemoryProviderGetUpstreamProvider (world (plib (lib s))) priv;
          Some (UMF_RESULT_SUCCESS, Some (Direct up))
        }
      })"

definition umfPoolDestroy :: "ptr \<Rightarrow> (unit, ('w, 'x) lib_state_scheme pool_state) eff" where
  "umfPoolDestroy hPool s = do {
     p \<leftarrow> pools s hPool;
     (_, s) \<leftarrow> on_lib (pool_finalize (pool_ops p) (pool_priv p)) s;
     (_, hUpstream) \<leftarrow> umfPoolGetMemoryProvider s hPool True;
     up \<leftarrow> hUpstream;
     (_, s) \<leftarrow> (if \<not> has_flag (pool_flags p) UMF_POOL_CREATE_FLAG_DISABLE_TRACKING
               then on_lib (destroy_provider (pool_provider p)) s else Some ((), s));
     (_, s) \<leftarrow> (if has_flag (pool_flags p) UMF_POOL_CREATE_FLAG_OWN_PROVIDER
               then on_lib (destroy_provider up) s else Some ((), s));
     Some ((), s\<lparr>pools := (pools s)(hPool := None)\<rparr>)
   }"

section \<open>Requests to a pool\<close>

text \<open>The check of the handle and the call of the operation, common to the requests.\<close>

definition pool_call ::
  "'a \<Rightarrow> ('s umf_memory_pool_ops_t \<Rightarrow> ptr \<Rightarrow> ('a, 's) eff) \<Rightarrow> ptr \<Rightarrow> ('a, 's pool_state) eff" where
  "pool_call err f hPool s =
     (if hPool = NULL then Some (err, s)
      else do { p \<leftarrow> pools s hPool; on_lib (f (pool_ops p) (pool_priv p)) s })"

definition umfPoolMalloc :: "ptr \<Rightarrow> u64 \<Rightarrow> (u64, 's pool_state) eff" where
  "umfPoolMalloc hPool sz = pool_call 0 (\<lambda>t priv. op_malloc t priv sz) hPool"

definition umfPoolAlignedMalloc :: "ptr \<Rightarrow> u64 \<Rightarrow> u64 \<Rightarrow> (u64, 's pool_state) eff" where
  "umfPoolAlignedMalloc hPool sz alignment = pool_call 0 (\<lambda>t priv. op_aligned_malloc t priv sz alignment) hPool"

definition umfPoolCalloc :: "ptr \<Rightarrow> u64 \<Rightarrow> u64 \<Rightarrow> (u64, 's pool_state) eff" where
  "umfPoolCalloc hPool num sz = pool_call 0 (\<lambda>t priv. op_calloc t priv num sz) hPool"

definition umfPoolRealloc :: "ptr \<Rightarrow> u64 \<Rightarrow> u64 \<Rightarrow> (u64, 's pool_state) eff" where
  "umfPoolRealloc hPool a sz = pool_call 0 (\<lambda>t priv. op_realloc t priv a sz) hPool"

definition umfPoolMallocUsableSize :: "ptr \<Rightarrow> u64 \<Rightarrow> (u64, 's pool_state) eff" where
  "umfPoolMallocUsableSize hPool a = pool_call 0 (\<lambda>t priv. op_malloc_usable_size t priv a) hPool"

definition umfPoolFree :: "ptr \<Rightarrow> u64 \<Rightarrow> (umf_result, 's pool_state) eff" where
  "umfPoolFree hPool a = pool_call UMF_RESULT_ERROR_INVALID_ARGUMENT (\<lambda>t priv. op_free t priv a) hPool"

definition umfPoolGetLastAllocationError :: "ptr \<Rightarrow> (umf_result, 's pool_state) eff" where
  "umfPoolGetLastAllocationError hPool =
     pool_call UMF_RESULT_ERROR_INVALID_ARGUMENT (\<lambda>t priv. get_last_allocation_error t priv) hPool"

text \<open>The tracker asserts that the address is not null.\<close>

definition umfPoolByPtr :: "('w, 'x) lib_state_scheme pool_state \<Rightarrow> u64 \<Rightarrow> ptr option" where
  "umfPoolByPtr s a = umfMemoryTrackerGetPool (TRACKER (world (plib (lib s)))) a"

definition umfFree :: "u64 \<Rightarrow> (umf_result, ('w, 'x) lib_state_scheme pool_state) eff" where
  "umfFree a s = do {
     hPool \<leftarrow> umfPoolByPtr s a;
     if hPool \<noteq> NULL then umfPoolFree hPool a s else Some (UMF_RESULT_SUCCESS, s)
   }"

section \<open>The proxy pool\<close>

text \<open>
  A pool that passes every request on to its provider. Its private state is the handle of the
  provider; the variable \<open>TLS_last_allocation_error\<close> is the one of the thread. \<open>proxy_hosts\<close> are the
  answers of the allocator of host memory.
\<close>

record 'w proxy_state = "'w lib_state" +
  proxy_pools :: "ptr \<rightharpoonup> prov_handle"
  TLS_last_allocation_error :: umf_result
  proxy_hosts :: "nat \<Rightarrow> ptr"
  proxy_tick :: nat

definition proxy_pool_initialize :: "prov_handle \<Rightarrow> ptr \<Rightarrow> (umf_result \<times> ptr, 'w proxy_state) eff" where
  "proxy_pool_initialize hProvider params s =
     (let pool = proxy_hosts s (proxy_tick s); s = s\<lparr>proxy_tick := Suc (proxy_tick s)\<rparr> in
      if pool = NULL then Some ((UMF_RESULT_ERROR_OUT_OF_HOST_MEMORY, NULL), s)
      else Some ((UMF_RESULT_SUCCESS, pool), s\<lparr>proxy_pools := (proxy_pools s)(pool \<mapsto> hProvider)\<rparr>))"

definition proxy_pool_finalize :: "ptr \<Rightarrow> (unit, 'w proxy_state) eff" where
  "proxy_pool_finalize pool s = Some ((), s\<lparr>proxy_pools := (proxy_pools s)(pool := None)\<rparr>)"

definition proxy_aligned_malloc :: "ptr \<Rightarrow> u64 \<Rightarrow> u64 \<Rightarrow> (u64, 'w proxy_state) eff" where
  "proxy_aligned_malloc pool sz alignment s = do {
     guard (pool \<noteq> NULL);
     h \<leftarrow> proxy_pools s pool;
     ((ret, a), s) \<leftarrow> with_provider (\<lambda>h. umfMemoryProviderAlloc h sz alignment)
        (\<lambda>h. umfMemoryProviderAlloc h sz alignment) h s;
     if ret \<noteq> UMF_RESULT_SUCCESS then Some (0, s\<lparr>TLS_last_allocation_error := ret\<rparr>)
     else Some (a, s\<lparr>TLS_last_allocation_error := UMF_RESULT_SUCCESS\<rparr>)
   }"

definition proxy_malloc :: "ptr \<Rightarrow> u64 \<Rightarrow> (u64, 'w proxy_state) eff" where
  "proxy_malloc pool sz s = do { guard (pool \<noteq> NULL); proxy_aligned_malloc pool sz 0 s }"

definition not_supported :: "ptr \<Rightarrow> (u64, 'w proxy_state) eff" where
  "not_supported pool s = do {
     guard (pool \<noteq> NULL);
     Some (0, s\<lparr>TLS_last_allocation_error := UMF_RESULT_ERROR_NOT_SUPPORTED\<rparr>)
   }"

definition proxy_calloc :: "ptr \<Rightarrow> u64 \<Rightarrow> u64 \<Rightarrow> (u64, 'w proxy_state) eff" where
  "proxy_calloc pool num sz = not_supported pool"

definition proxy_realloc :: "ptr \<Rightarrow> u64 \<Rightarrow> u64 \<Rightarrow> (u64, 'w proxy_state) eff" where
  "proxy_realloc pool a sz = not_supported pool"

definition proxy_malloc_usable_size :: "ptr \<Rightarrow> u64 \<Rightarrow> (u64, 'w proxy_state) eff" where
  "proxy_malloc_usable_size pool a = not_supported pool"

definition proxy_free :: "ptr \<Rightarrow> u64 \<Rightarrow> (umf_result, 'w proxy_state) eff" where
  "proxy_free pool a s = do {
     guard (pool \<noteq> NULL);
     h \<leftarrow> proxy_pools s pool;
     sz \<leftarrow> (if a \<noteq> 0 then do {
             (ret, info) \<leftarrow> umfMemoryTrackerGetAllocInfo (TRACKER (world (plib s))) a;
             Some (case info of None \<Rightarrow> 0 | Some i \<Rightarrow> if ret = UMF_RESULT_SUCCESS then info_baseSize i else 0)
           } else Some 0);
     with_provider (\<lambda>h. umfMemoryProviderFree h a sz) (\<lambda>h. umfMemoryProviderFree h a sz) h s
   }"

definition proxy_get_last_allocation_error :: "ptr \<Rightarrow> (umf_result, 'w proxy_state) eff" where
  "proxy_get_last_allocation_error pool s = Some (TLS_last_allocation_error s, s)"

definition UMF_PROXY_POOL_OPS :: "('w proxy_state) umf_memory_pool_ops_t" where
  "UMF_PROXY_POOL_OPS = \<lparr>pool_version = UMF_VERSION_CURRENT,
     pool_initialize = proxy_pool_initialize, pool_finalize = proxy_pool_finalize,
     op_malloc = proxy_malloc, op_calloc = proxy_calloc, op_realloc = proxy_realloc,
     op_aligned_malloc = proxy_aligned_malloc, op_malloc_usable_size = proxy_malloc_usable_size,
     op_free = proxy_free, get_last_allocation_error = proxy_get_last_allocation_error\<rparr>"

section \<open>Sharing the memory of a pool\<close>

text \<open>The handle of the library: the process, the size of the range, the offset of the address in it
  and the data of the provider. The header takes 24 bytes.\<close>

record umf_ipc_data_t =
  ipc_pid :: int
  ipc_baseSize :: u64
  ipc_offset :: u64
  providerIpcData :: ipc_data

definition sizeof_umf_ipc_data_t :: u64 where "sizeof_umf_ipc_data_t = 24"

definition umfPoolGetIPCHandleSize :: "ptr \<Rightarrow> bool \<Rightarrow> (umf_result \<times> u64, ('w, 'x) lib_state_scheme pool_state) eff" where
  "umfPoolGetIPCHandleSize hPool size_ptr s =
     (if hPool = NULL \<or> \<not> size_ptr then Some ((UMF_RESULT_ERROR_INVALID_ARGUMENT, 0), s)
      else do {
        p \<leftarrow> pools s hPool;
        ((ret, n), s) \<leftarrow> on_lib (with_provider umfMemoryProviderGetIPCHandleSize umfMemoryProviderGetIPCHandleSize
            (pool_provider p)) s;
        if ret \<noteq> UMF_RESULT_SUCCESS then Some ((ret, 0), s)
        else Some ((ret, sizeof_umf_ipc_data_t + n), s)
      })"

text \<open>\<open>host\<close> is the memory for the handle, \<open>pid\<close> the number of the process, \<open>args\<close> tells whether the
  output parameters are given.\<close>

definition umfGetIPCHandle ::
  "ptr \<Rightarrow> int \<Rightarrow> u64 \<Rightarrow> bool \<Rightarrow>
   (umf_result \<times> (umf_ipc_data_t \<times> u64) option, ('w, 'x) lib_state_scheme pool_state) eff" where
  "umfGetIPCHandle host pid a args s =
     (if a = 0 \<or> \<not> args then Some ((UMF_RESULT_ERROR_INVALID_ARGUMENT, None), s)
      else do {
        (ret, info) \<leftarrow> umfMemoryTrackerGetAllocInfo (TRACKER (world (plib (lib s)))) a;
        case info of
          None \<Rightarrow> Some ((ret, None), s)
        | Some i \<Rightarrow> do {
            ((ret, ipcHandleSize), s) \<leftarrow> umfPoolGetIPCHandleSize (info_pool i) True s;
            if ret \<noteq> UMF_RESULT_SUCCESS then Some ((ret, None), s)
            else if host = NULL then Some ((UMF_RESULT_ERROR_OUT_OF_HOST_MEMORY, None), s)
            else do {
              p \<leftarrow> pools s (info_pool i);
              ((ret, d), s) \<leftarrow> on_lib (with_provider
                  (\<lambda>h. umfMemoryProviderGetIPCHandle h (info_base i) (info_baseSize i))
                  (\<lambda>h. umfMemoryProviderGetIPCHandle h (info_base i) (info_baseSize i)) (pool_provider p)) s;
              if ret \<noteq> UMF_RESULT_SUCCESS then Some ((ret, None), s)
              else Some ((ret, Some (\<lparr>ipc_pid = pid, ipc_baseSize = info_baseSize i,
                ipc_offset = a - info_base i, providerIpcData = d\<rparr>, ipcHandleSize)), s)
            }
          }
      })"

definition umfPutIPCHandle :: "umf_ipc_data_t \<Rightarrow> umf_result" where
  "umfPutIPCHandle d = UMF_RESULT_SUCCESS"

definition umfOpenIPCHandle ::
  "ptr \<Rightarrow> umf_ipc_data_t \<Rightarrow> (umf_result \<times> u64, ('w, 'x) lib_state_scheme pool_state) eff" where
  "umfOpenIPCHandle hPool d s = do {
     p \<leftarrow> pools s hPool;
     let b = \<lparr>enclosing_baseSize = ipc_baseSize d, ipc_bytes = providerIpcData d\<rparr>;
     ((ret, base), s) \<leftarrow> on_lib (with_provider (\<lambda>h. umfMemoryProviderOpenIPCHandle h b)
        (\<lambda>h. umfMemoryProviderOpenIPCHandle h b) (pool_provider p)) s;
     if ret \<noteq> UMF_RESULT_SUCCESS then Some ((ret, 0), s)
     else Some ((UMF_RESULT_SUCCESS, base + ipc_offset d), s)
   }"

definition umfCloseIPCHandle :: "u64 \<Rightarrow> (umf_result, ('w, 'x) lib_state_scheme pool_state) eff" where
  "umfCloseIPCHandle a s = do {
     (ret, info) \<leftarrow> umfMemoryTrackerGetAllocInfo (TRACKER (world (plib (lib s)))) a;
     case info of
       None \<Rightarrow> Some (ret, s)
     | Some i \<Rightarrow> do {
         p \<leftarrow> pools s (info_pool i);
         on_lib (with_provider (\<lambda>h. umfMemoryProviderCloseIPCHandle h (info_base i) (info_baseSize i))
           (\<lambda>h. umfMemoryProviderCloseIPCHandle h (info_base i) (info_baseSize i)) (pool_provider p)) s
       }
   }"

end
