(* ===== verification/Memory_Pool_Properties.thy ===== *)
theory Memory_Pool_Properties
  imports Memory_Pool
begin

text \<open>
  The layers together: a proxy pool on a tracking provider on a user's provider. The properties
  follow a request through the pool layer, the proxy pool, the provider layer, the tracking
  provider and the tracker down to the critnib and the base allocator.
\<close>

section \<open>A proxy pool on a tracking provider\<close>

text \<open>The state of the tracking providers inside the state of the library, as the thread sees it.\<close>

abbreviation tracking :: "('w, 'x) lib_state_scheme pool_state \<Rightarrow> 'w tracking_state" where
  "tracking S \<equiv> tracking_view (lib S)"

definition proxy_pool_ok ::
  "'w proxy_state pool_state \<Rightarrow> ptr \<Rightarrow> ptr \<Rightarrow> ptr \<Rightarrow> umf_tracking_memory_provider_t \<Rightarrow> umf_memory_tracker_t \<Rightarrow> bool" where
  "proxy_pool_ok S hPool th priv p t \<longleftrightarrow> hPool \<noteq> NULL \<and> th \<noteq> NULL \<and>
     (\<exists>pool. pools S hPool = Some pool \<and> pool_ops pool = UMF_PROXY_POOL_OPS \<and> pool_priv pool \<noteq> NULL \<and>
        \<not> has_flag (pool_flags pool) UMF_POOL_CREATE_FLAG_DISABLE_TRACKING \<and>
        pool_provider pool = Tracked th \<and> proxy_pools (lib S) (pool_priv pool) = Some (Tracked th)) \<and>
     providers (plib (lib S)) th = Some \<lparr>ops = UMF_TRACKING_MEMORY_PROVIDER_OPS, provider_priv = priv\<rparr> \<and>
     tpool p = hPool \<and> tracking_ok (tracking S) priv p t"

lemma proxy_pool_okE:
  assumes "proxy_pool_ok S hPool th priv p t"
  obtains pool where "pools S hPool = Some pool" "pool_ops pool = UMF_PROXY_POOL_OPS" "pool_priv pool \<noteq> NULL"
    "pool_provider pool = Tracked th" "proxy_pools (lib S) (pool_priv pool) = Some (Tracked th)"
    "hPool \<noteq> NULL" "th \<noteq> NULL" "tpool p = hPool" "tracking_ok (tracking S) priv p t"
    "\<not> has_flag (pool_flags pool) UMF_POOL_CREATE_FLAG_DISABLE_TRACKING"
    "providers (plib (lib S)) th = Some \<lparr>ops = UMF_TRACKING_MEMORY_PROVIDER_OPS, provider_priv = priv\<rparr>"
  using assms by (auto simp: proxy_pool_ok_def)

lemma tracking_ops [simp]:
  "op_alloc UMF_TRACKING_MEMORY_PROVIDER_OPS = Some (\<lambda>priv sz al. tracking_op (trackingAlloc priv sz al))"
  "ext_free UMF_TRACKING_MEMORY_PROVIDER_OPS = Op (\<lambda>priv a sz. tracking_op (trackingFree priv a sz))"
  "get_ipc_handle_size UMF_TRACKING_MEMORY_PROVIDER_OPS = Op (\<lambda>priv. tracking_op (trackingGetIpcHandleSize priv))"
  "get_ipc_handle UMF_TRACKING_MEMORY_PROVIDER_OPS = Op (\<lambda>priv a sz. tracking_op (trackingGetIpcHandle priv a sz))"
  "open_ipc_handle UMF_TRACKING_MEMORY_PROVIDER_OPS = Op (\<lambda>priv d. tracking_op (trackingOpenIpcHandle priv d))"
  "close_ipc_handle UMF_TRACKING_MEMORY_PROVIDER_OPS = Op (\<lambda>priv a sz. tracking_op (trackingCloseIpcHandle priv a sz))"
  by (simp_all add: UMF_TRACKING_MEMORY_PROVIDER_OPS_def)

lemma set_last_failed_simps [simp]:
  "benv (set_last_failed l s) = benv s" "proxy_lib (set_last_failed l s) = proxy_lib s"
  "TRACKER (set_last_failed l s) = TRACKER s" "tproviders (set_last_failed l s) = tproviders s"
  "tparams (set_last_failed l s) = tparams s" "ipc_values (set_last_failed l s) = ipc_values s"
  "grants (set_last_failed l s) = grants s" "hosts (set_last_failed l s) = hosts s" "tick (set_last_failed l s) = tick s"
  "upstream (set_last_failed l s) = (upstream s)\<lparr>lastFailedProvider := l\<rparr>"
  "set_last_failed l (set_last_failed m s) = set_last_failed l s"
  "set_last_failed (lastFailedProvider (upstream s)) s = s"
  by (simp_all add: set_last_failed_def)

lemma tracking_ok_last_failed [simp]: "tracking_ok (set_last_failed l s) priv p t = tracking_ok s priv p t"
  by (simp add: tracking_ok_def)

lemma tracking_view_simps [simp]:
  "benv (tracking_view l) = benv (world (plib l))" "proxy_lib (tracking_view l) = proxy_lib (world (plib l))"
  "TRACKER (tracking_view l) = TRACKER (world (plib l))" "tproviders (tracking_view l) = tproviders (world (plib l))"
  "ipc_values (tracking_view l) = ipc_values (world (plib l))" "grants (tracking_view l) = grants (world (plib l))"
  "hosts (tracking_view l) = hosts (world (plib l))" "tick (tracking_view l) = tick (world (plib l))"
  by (simp_all add: tracking_view_def)

lemma tracking_view_proxy [simp]:
  "tracking_view (l\<lparr>TLS_last_allocation_error := r\<rparr>) = tracking_view l"
  "tracking_view (l\<lparr>proxy_pools := m\<rparr>) = tracking_view l" "tracking_view (l\<lparr>proxy_tick := n\<rparr>) = tracking_view l"
  by (simp_all add: tracking_view_def)

lemma tracking_view_plib: "tracking_view (l\<lparr>plib := P\<rparr>) = set_last_failed (lastFailedProvider P) (world P)"
  by (simp add: tracking_view_def)

text \<open>A call of an operation of a tracking provider from the library.\<close>

lemma call_tracking_op: "call_op (tracking_op f) P = do {
    (r, s) \<leftarrow> f (set_last_failed (lastFailedProvider P) (world P));
    Some (r, P\<lparr>world := s, lastFailedProvider := lastFailedProvider (upstream s)\<rparr>)
  }"
  by (simp add: call_op_def tracking_op_def in_thread_def split: Option.bind_splits)

lemma tracking_view_fold:
  "set_last_failed (lastFailedProvider (plib l)) (world (plib l)) = tracking_view l"
  "set_last_failed (lastFailedProvider u) (s\<lparr>upstream := u\<rparr>) = s\<lparr>upstream := u\<rparr>"
  by (simp_all add: tracking_view_def set_last_failed_def)

lemma proxy_ops [simp]:
  "op_malloc UMF_PROXY_POOL_OPS = proxy_malloc" "op_free UMF_PROXY_POOL_OPS = proxy_free"
  "pool_initialize UMF_PROXY_POOL_OPS = proxy_pool_initialize" "pool_version UMF_PROXY_POOL_OPS = UMF_VERSION_CURRENT"
  "get_last_allocation_error UMF_PROXY_POOL_OPS = proxy_get_last_allocation_error"
  "pool_finalize UMF_PROXY_POOL_OPS = proxy_pool_finalize"
  by (simp_all add: UMF_PROXY_POOL_OPS_def)

text \<open>A state of the pool layer in which only the state behind the tracking provider has changed.\<close>

definition put_tracking :: "'w tracking_state \<Rightarrow> umf_result \<Rightarrow> ptr \<Rightarrow> 'w proxy_state pool_state \<Rightarrow> 'w proxy_state pool_state" where
  "put_tracking s r th S = S\<lparr>lib := (lib S)\<lparr>plib := checkErrorAndSetLastProvider r th ((plib (lib S))\<lparr>world := s,
       lastFailedProvider := lastFailedProvider (upstream s)\<rparr>)\<rparr>\<rparr>"

lemma put_tracking_simps [simp]:
  "tracking (put_tracking s r th S) = (if r = UMF_RESULT_SUCCESS then s else set_last_failed th s)"
  "pools (put_tracking s r th S) = pools S"
  "proxy_pools (lib (put_tracking s r th S)) = proxy_pools (lib S)"
  "providers (plib (lib (put_tracking s r th S))) = providers (plib (lib S))"
  by (simp_all add: put_tracking_def checkErrorAndSetLastProvider_def tracking_view_def)

lemma put_tracking_ok:
  assumes "proxy_pool_ok S hPool th priv p t" "tracking_ok s priv p' t'" "tpool p' = tpool p"
  shows "proxy_pool_ok (put_tracking s r th S) hPool th priv p' t'"
  using assms by (auto simp: proxy_pool_ok_def)

lemma set_error_ok:
  "proxy_pool_ok (S\<lparr>lib := (lib S)\<lparr>TLS_last_allocation_error := r\<rparr>\<rparr>) hPool th priv p t = proxy_pool_ok S hPool th priv p t"
  by (simp add: proxy_pool_ok_def)

lemma pool_malloc_ok:
  assumes ok: "proxy_pool_ok S hPool th priv p t"
    and run: "trackingAlloc priv sz 0 (tracking S) = Some ((r, a), s)"
  shows "umfPoolMalloc hPool sz S = Some (if r \<noteq> UMF_RESULT_SUCCESS then 0 else a,
    (put_tracking s r th S)\<lparr>lib := (lib (put_tracking s r th S))\<lparr>TLS_last_allocation_error := r\<rparr>\<rparr>)"
proof -
  obtain pool where "pools S hPool = Some pool" "pool_ops pool = UMF_PROXY_POOL_OPS" "pool_priv pool \<noteq> NULL"
    "pool_provider pool = Tracked th" "proxy_pools (lib S) (pool_priv pool) = Some (Tracked th)"
    "hPool \<noteq> NULL" "th \<noteq> NULL"
    "providers (plib (lib S)) th = Some \<lparr>ops = UMF_TRACKING_MEMORY_PROVIDER_OPS, provider_priv = priv\<rparr>"
    using proxy_pool_okE [OF ok] by metis
  with run show ?thesis
    by (simp add: umfPoolMalloc_def pool_call_def on_lib_def proxy_malloc_def proxy_aligned_malloc_def
        with_provider_def umfMemoryProviderAlloc_def put_tracking_def call_tracking_op tracking_view_fold)
qed

lemma pool_free_ok:
  assumes ok: "proxy_pool_ok S hPool th priv p t" and a: "a \<noteq> 0"
    and d: "disjoint_ranges (ranges_of t)" and c: "covers (ranges_of t) b v a"
    and v: "tv_pool v = hPool" and run: "trackingFree priv a (tv_size v) (tracking S) = Some (r, s)"
  shows "umfFree a S = Some (r, put_tracking s r th S)"
proof -
  obtain pool where o: "pools S hPool = Some pool" "pool_ops pool = UMF_PROXY_POOL_OPS" "pool_priv pool \<noteq> NULL"
    "pool_provider pool = Tracked th" "proxy_pools (lib S) (pool_priv pool) = Some (Tracked th)"
    "hPool \<noteq> NULL" "th \<noteq> NULL" "tracking_ok (tracking S) priv p t"
    "providers (plib (lib S)) th = Some \<lparr>ops = UMF_TRACKING_MEMORY_PROVIDER_OPS, provider_priv = priv\<rparr>"
    using proxy_pool_okE [OF ok] by metis
  have t: "TRACKER (tracking S) = Some t" "tracker_ok (benv (tracking S)) t" "0 < critnib_room (map_t t)"
    using o(8) by (auto simp: tracking_ok_def)
  have i: "umfMemoryTrackerGetAllocInfo (Some t) a = Some (UMF_RESULT_SUCCESS,
      Some \<lparr>info_base = b, info_baseSize = tv_size v, info_pool = tv_pool v\<rparr>)"
    by (rule trk.info_covers [OF t(2) d t(3) a c])
  have g: "umfMemoryTrackerGetPool (Some t) a = Some (tv_pool v)"
    by (rule pool_found [OF t(2) d t(3) a c])
  show ?thesis
    using o(1-7,9) run a i g t(1) v
    by (auto simp: umfFree_def umfPoolByPtr_def umfPoolFree_def pool_call_def on_lib_def
        proxy_free_def with_provider_def umfMemoryProviderFree_def put_tracking_def call_tracking_op tracking_view_fold)
qed

section \<open>Creation\<close>

text \<open>A state of the library in which a pool can be created: the tracker exists, the user's provider is
  known, and the allocator of host memory answers all requests.\<close>

definition creatable :: "'w proxy_state pool_state \<Rightarrow> host_answers \<Rightarrow> ptr \<Rightarrow> umf_memory_tracker_t \<Rightarrow> bool" where
  "creatable S h provider t \<longleftrightarrow> provider \<noteq> NULL \<and> providers (upstream (tracking S)) provider \<noteq> None \<and>
     TRACKER (tracking S) = Some t \<and> tracker_ok (benv (tracking S)) t \<and> \<not> splitMergeMutex t \<and> 0 < critnib_room (map_t t) \<and>
     h_pool h \<noteq> NULL \<and> h_provider h \<noteq> NULL \<and> h_cache h \<noteq> NULL \<and> h_mutex h \<and>
     hosts (tracking S) (tick (tracking S)) \<noteq> NULL \<and> proxy_hosts (lib S) (proxy_tick (lib S)) \<noteq> NULL"

lemma tracking_ops_valid: "validateOps UMF_TRACKING_MEMORY_PROVIDER_OPS"
  "assignOpsIpcDefaults (assignOpsExtDefaults UMF_TRACKING_MEMORY_PROVIDER_OPS) = UMF_TRACKING_MEMORY_PROVIDER_OPS"
  "version UMF_TRACKING_MEMORY_PROVIDER_OPS = UMF_VERSION_CURRENT"
  "initialize UMF_TRACKING_MEMORY_PROVIDER_OPS = Some (\<lambda>params. tracking_op (trackingInitialize params))"
  by (simp_all add: validateOps_def validateOpsMandatory_def validateOpsExt_def validateOpsIpc_def assign_defs
      with_default_def UMF_TRACKING_MEMORY_PROVIDER_OPS_def)

lemma tracking_create_ok:
  assumes "TRACKER (tracking_view l) = Some t" "h_provider h \<noteq> NULL" "h_cache h \<noteq> NULL" "h_mutex h"
    and "hUp \<noteq> NULL" "hPool \<noteq> NULL" "hosts (tracking_view l) (tick (tracking_view l)) \<noteq> NULL"
  obtains s where "umfTrackingMemoryProviderCreate (h_provider h) (h_cache h) (h_mutex h) hUp hPool b (plib l) =
      Some ((UMF_RESULT_SUCCESS, h_provider h), (plib l)\<lparr>world := s, lastFailedProvider := lastFailedProvider (upstream s),
        providers := (providers (plib l))(h_provider h \<mapsto>
        \<lparr>ops = UMF_TRACKING_MEMORY_PROVIDER_OPS, provider_priv = hosts (tracking_view l) (tick (tracking_view l))\<rparr>)\<rparr>)"
    "tproviders s (hosts (tracking_view l) (tick (tracking_view l))) = Some \<lparr>hUpstream = hUp, hTracker = True, tpool = hPool,
      ipcCache = Some critnib_zero, upstreamDoesNotFree = b\<rparr>"
    "TRACKER s = TRACKER (tracking_view l)" "benv s = benv (tracking_view l)" "upstream s = upstream (tracking_view l)"
    "grants s = grants (tracking_view l)" "tick s = Suc (tick (tracking_view l))"
  using assms
  by (simp add: umfTrackingMemoryProviderCreate_def critnib_new_def umfMemoryProviderCreate_def tracking_ops_valid
      trackingInitialize_def Let_def tracking_view_def call_op_def tracking_op_def in_thread_def)

lemma pool_create_ok:
  assumes c: "creatable S h provider t" and f: "\<not> has_flag flags UMF_POOL_CREATE_FLAG_DISABLE_TRACKING"
  shows "\<exists>S' b. umfPoolCreate h (Some UMF_PROXY_POOL_OPS) provider params flags True S = Some ((UMF_RESULT_SUCCESS, h_pool h), S') \<and>
    proxy_pool_ok S' (h_pool h) (h_provider h) (hosts (tracking S) (tick (tracking S)))
      \<lparr>hUpstream = provider, hTracker = True, tpool = h_pool h, ipcCache = Some critnib_zero, upstreamDoesNotFree = b\<rparr> t \<and>
    upstream (tracking S') = upstream (tracking S) \<and> benv (tracking S') = benv (tracking S) \<and>
    grants (tracking S') = grants (tracking S) \<and> tick (tracking S') = Suc (tick (tracking S))"
proof -
  let ?l = "lib S" and ?priv = "hosts (tracking S) (tick (tracking S))"
  have k: "provider \<noteq> NULL" "TRACKER (tracking S) = Some t" "tracker_ok (benv (tracking S)) t" "\<not> splitMergeMutex t"
    "0 < critnib_room (map_t t)" "h_pool h \<noteq> NULL" "h_provider h \<noteq> NULL" "h_cache h \<noteq> NULL" "h_mutex h"
    "hosts (tracking S) (tick (tracking S)) \<noteq> NULL" "proxy_hosts ?l (proxy_tick ?l) \<noteq> NULL"
    using c by (simp_all add: creatable_def)
  obtain b where b: "umfIsFreeOpDefault (upstream (world (plib ?l))) provider = Some b"
    using c by (auto simp: creatable_def umfIsFreeOpDefault_def tracking_view_def)
  define p where "p = \<lparr>hUpstream = provider, hTracker = True, tpool = h_pool h, ipcCache = Some critnib_zero, upstreamDoesNotFree = b\<rparr>"
  obtain s where s: "umfTrackingMemoryProviderCreate (h_provider h) (h_cache h) (h_mutex h) provider (h_pool h) b (plib ?l) =
      Some ((UMF_RESULT_SUCCESS, h_provider h), (plib ?l)\<lparr>world := s, lastFailedProvider := lastFailedProvider (upstream s), providers := (providers (plib ?l))(h_provider h \<mapsto>
        \<lparr>ops = UMF_TRACKING_MEMORY_PROVIDER_OPS, provider_priv = ?priv\<rparr>)\<rparr>)"
    "tproviders s ?priv = Some p" "TRACKER s = TRACKER (tracking S)" "benv s = benv (tracking S)"
    "upstream s = upstream (tracking S)" "grants s = grants (tracking S)" "tick s = Suc (tick (tracking S))"
    unfolding p_def by (rule tracking_create_ok [OF k(2,7-9,1,6,10)])
  have t: "tracking_ok s ?priv p t" using s(2-4) k by (simp add: tracking_ok_def)
  show ?thesis
    using k b s(1,5-7) f t
    by (auto simp: umfPoolCreate_def umfPoolCreateInternal_def on_lib_def wrap_provider_def proxy_pool_initialize_def
        Let_def proxy_pool_ok_def p_def s(4) tracking_view_plib)
qed

section \<open>Destruction\<close>

lemma tracking_finalize_op: "finalize UMF_TRACKING_MEMORY_PROVIDER_OPS = Some (\<lambda>priv. tracking_op (trackingFinalize priv))"
  by (simp add: UMF_TRACKING_MEMORY_PROVIDER_OPS_def)

lemma finalize_ok:
  assumes ok: "tracking_ok s priv p t" and c: "ipcCache p = Some c" "critnib_ok c" and px: "\<not> proxy_lib s"
    and room: "card (dom (ranges_of t)) < critnib_room (map_t t)" and z: "ranges_of t 0 = None"
  obtains t' where "trackingFinalize priv s = Some ((), s\<lparr>TRACKER := Some t', tproviders := (tproviders s)(priv := None)\<rparr>)"
    "tracker_ok (benv s) t'" "ranges_of t' = cleared (tpool p) 0 (ranges_of t)"
proof -
  have s: "tproviders s priv = Some p" "TRACKER s = Some t" "tracker_ok (benv s) t"
    using ok by (auto simp: tracking_ok_def)
  from critnib_delete_correct [OF c(2)] obtain c' where d: "critnib_delete c = Some c'" by blast
  have "above t 0 = dom (ranges_of t)" using z by (auto simp: above_def word_gt_0)
  with room have "card (above t 0) < critnib_room (map_t t)" by simp
  from clear_loop_ok [OF s(3) this, of "tpool p" 0] obtain n t' where
    t': "clear_loop (benv s) (tpool p) t 0 0 = Some (n, t')" "tracker_ok (benv s) t'"
      "ranges_of t' = cleared (tpool p) 0 (ranges_of t)" by blast
  show thesis
    by (rule that [OF _ t'(2,3)]) (use s c(1) d px t'(1) in \<open>simp add: trackingFinalize_def clear_tracker_for_the_pool_def\<close>)
qed

section \<open>An example\<close>

definition example_host :: host_answers where
  "example_host = \<lparr>h_pool = 5, h_provider = 91, h_cache = 92, h_mutex = True\<rparr>"

definition example_library :: "umf_memory_tracker_t \<Rightarrow> u64 proxy_state pool_state" where
  "example_library t = \<lparr>lib = \<lparr>plib = \<lparr>world = example_state t, providers = Map.empty, lastFailedProvider = NULL\<rparr>,
     proxy_pools = Map.empty, TLS_last_allocation_error = UMF_RESULT_SUCCESS, proxy_hosts = (\<lambda>i. 4001 + i), proxy_tick = 0\<rparr>,
     pools = Map.empty\<rparr>"

lemma example_creatable:
  obtains t where "creatable (example_library t) example_host 77 t" "ranges_of t = Map.empty"
    "critnib_room (map_t t) = 2 ^ 64 - DELETED_LIFE" "128 \<le> ba_spare (tracker_allocator t)" "map_t t = critnib_zero"
proof -
  obtain t where t: "tracker_ok env_linux t" "ranges_of t = Map.empty" "critnib_room (map_t t) = 2 ^ 64 - DELETED_LIFE"
    "128 \<le> ba_spare (tracker_allocator t)" "\<not> splitMergeMutex t" "map_t t = critnib_zero"
    by (rule example_tracker)
  then have "creatable (example_library t) example_host 77 t"
    by (simp add: creatable_def example_library_def example_host_def example_state_def agree_upstream_def DELETED_LIFE_def tracking_view_def)
  with t that show thesis by blast
qed

lemma no_flags [simp]: "\<not> has_flag 0 i"
  by (simp add: has_flag_def)

text \<open>The pool after its creation, and after an allocation of 64 bytes.\<close>

lemma example_pool_run:
  obtains S t p priv where "proxy_pool_ok S 5 91 priv p t" "hUpstream p = 77" "ipcCache p = Some critnib_zero"
    "ranges_of t = Map.empty" "host_memory 2 (tracking S) t" "upstream (tracking S) = agree_upstream 8192"
proof -
  obtain t where t: "creatable (example_library t) example_host 77 t" "ranges_of t = Map.empty"
    "128 \<le> ba_spare (tracker_allocator t)" "map_t t = critnib_zero" by (rule example_creatable)
  have g: "grants (tracking (example_library t)) = (\<lambda>i. \<lparr>g_mmap = NULL, g_leaf = 1001 + i, g_node = 2001 + i\<rparr>)"
    "upstream (tracking (example_library t)) = agree_upstream 8192" "h_pool example_host = 5" "h_provider example_host = 91"
    by (simp_all add: example_library_def example_state_def example_host_def tracking_view_def agree_upstream_def)
  from pool_create_ok [OF t(1) no_flags, of 0] obtain S b where
    S: "proxy_pool_ok S 5 91 (hosts (tracking (example_library t)) (tick (tracking (example_library t))))
      \<lparr>hUpstream = 77, hTracker = True, tpool = 5, ipcCache = Some critnib_zero, upstreamDoesNotFree = b\<rparr> t"
    "upstream (tracking S) = agree_upstream 8192"
    "grants (tracking S) = (\<lambda>i. \<lparr>g_mmap = NULL, g_leaf = 1001 + i, g_node = 2001 + i\<rparr>)"
    unfolding g by blast
  have "host_memory 2 (tracking S) t"
    using t(3,4) S(3) by (simp add: host_memory_def critnib_fresh_def critnib_zero_def inj_on_def)
  then show thesis using that [OF S(1)] t(2) S(2) by simp
qed

section \<open>Properties\<close>

text \<open>C33: A proxy pool whose provider is tracked: memory that the user's provider allocates at a vacant
  place is returned by the pool, the pool of every address of it is found from the address alone, and
  releasing the address without naming the pool reaches the user's provider with the size of the
  allocation and returns its answer; when it agrees the tracked ranges are restored, and when it
  refuses the memory stays tracked. When the user's provider fails to allocate, the pool returns the
  null pointer, keeps the error for the caller, tracks nothing, and the tracking provider is the last
  failed one.\<close>

theorem pool_malloc_free_roundtrip:
  assumes ok: "proxy_pool_ok S hPool th priv p t" and mem: "host_memory 1 (tracking S) t" and h: "hUpstream p \<noteq> NULL"
    and d: "disjoint_ranges (ranges_of t)"
    and up: "umfMemoryProviderAlloc (hUpstream p) sz 0 (upstream (tracking S)) = Some ((r, a), u)"
    and v: "r = UMF_RESULT_SUCCESS \<longrightarrow> a \<noteq> 0 \<and> sz \<noteq> 0 \<and> vacant (ranges_of t) a sz"
    and fr: "r = UMF_RESULT_SUCCESS \<longrightarrow> cache_put ((tracking S)\<lparr>upstream := u\<rparr>) p c a u1 \<and>
      umfMemoryProviderFree (hUpstream p) a sz u1 = Some (e, u2)"
  shows "\<exists>S' t'. umfPoolMalloc hPool sz S = Some (if r = UMF_RESULT_SUCCESS then a else 0, S') \<and>
    umfPoolGetLastAllocationError hPool S' = Some (r, S') \<and> TRACKER (tracking S') = Some t' \<and>
    (if r \<noteq> UMF_RESULT_SUCCESS then ranges_of t' = ranges_of t \<and> umfGetLastFailedMemoryProvider (plib (lib S')) = th
     else (\<forall>k. a \<le> k \<and> unat k < unat a + unat sz \<longrightarrow> umfPoolByPtr S' k = Some hPool) \<and>
      (\<exists>S'' t''. umfFree a S' = Some (e, S'') \<and> providers (upstream (tracking S'')) = providers u2 \<and>
         world (upstream (tracking S'')) = world u2 \<and> TRACKER (tracking S'') = Some t'' \<and>
         ranges_of t'' = (if e = UMF_RESULT_SUCCESS then ranges_of t else ranges_of t')))"
proof -
  let ?w = "\<lparr>tv_pool = hPool, tv_size = sz\<rparr>"
  obtain pool where pl: "pools S hPool = Some pool" "pool_ops pool = UMF_PROXY_POOL_OPS" "hPool \<noteq> NULL" "tpool p = hPool"
    and tr: "tracking_ok (tracking S) priv p t" using proxy_pool_okE [OF ok] by metis
  have mem': "host_memory (Suc 0) (tracking S) t" using mem by simp
  from alloc_ok [OF tr mem' h up] obtain t' s' where
    s': "trackingAlloc priv sz 0 (tracking S) = Some ((r, a), s')" "upstream s' = u" "tracking_ok s' priv p t'"
      "ipc_values s' = ipc_values (tracking S)"
      "if r = UMF_RESULT_SUCCESS \<and> a \<noteq> 0 \<and> ranges_of t a = None
       then ranges_of t' = (ranges_of t)(a \<mapsto> \<lparr>tv_pool = tpool p, tv_size = sz\<rparr>) \<and> host_memory 0 s' t'
       else ranges_of t' = ranges_of t" by blast
  define S' where "S' = (put_tracking s' r th S)\<lparr>lib := (lib (put_tracking s' r th S))\<lparr>TLS_last_allocation_error := r\<rparr>\<rparr>"
  have malloc: "umfPoolMalloc hPool sz S = Some (if r = UMF_RESULT_SUCCESS then a else 0, S')"
    unfolding S'_def using pool_malloc_ok [OF ok s'(1)] by simp
  have ok': "proxy_pool_ok S' hPool th priv p t'"
    unfolding S'_def set_error_ok using put_tracking_ok [OF ok s'(3)] by simp
  have tS: "tracking S' = (if r = UMF_RESULT_SUCCESS then s' else set_last_failed th s')"
    unfolding S'_def by simp
  have t': "TRACKER s' = Some t'" "tracker_ok (benv s') t'" "0 < critnib_room (map_t t')"
    using s'(3) by (auto simp: tracking_ok_def)
  have err: "umfPoolGetLastAllocationError hPool S' = Some (r, S')"
    using pl by (simp add: umfPoolGetLastAllocationError_def pool_call_def on_lib_def proxy_get_last_allocation_error_def S'_def)
  have last: "umfGetLastFailedMemoryProvider (plib (lib S')) = th" if "r \<noteq> UMF_RESULT_SUCCESS"
    using that by (simp add: S'_def put_tracking_def checkErrorAndSetLastProvider_def umfGetLastFailedMemoryProvider_def)
  have trS: "TRACKER (tracking S') = Some t'" unfolding tS using t'(1) by simp
  have "(\<forall>k. a \<le> k \<and> unat k < unat a + unat sz \<longrightarrow> umfPoolByPtr S' k = Some hPool) \<and>
      (\<exists>S'' t''. umfFree a S' = Some (e, S'') \<and> providers (upstream (tracking S'')) = providers u2 \<and>
         world (upstream (tracking S'')) = world u2 \<and> TRACKER (tracking S'') = Some t'' \<and>
         ranges_of t'' = (if e = UMF_RESULT_SUCCESS then ranges_of t else ranges_of t'))" if r: "r = UMF_RESULT_SUCCESS"
  proof -
    have a: "a \<noteq> 0" "sz \<noteq> 0" "vacant (ranges_of t) a sz" "ranges_of t a = None" using v r by (auto simp: vacant_def)
    then have m': "ranges_of t' = (ranges_of t)(a \<mapsto> ?w)" "host_memory 0 s' t'" using s'(5) r pl(4) by simp_all
    have d': "disjoint_ranges (ranges_of t')" unfolding m' by (rule disjoint_add [OF d]) (use a(3) in simp)
    have own: "umfPoolByPtr S' k = Some hPool" if "a \<le> k" "unat k < unat a + unat sz" for k
    proof -
      have "k \<noteq> 0" using that(1) a(1) by auto
      moreover have "covers (ranges_of t') a ?w k" using that by (simp add: covers_def m')
      ultimately show ?thesis using pool_found [OF t'(2) d' t'(3)] trS by (fastforce simp: umfPoolByPtr_def)
    qed
    have cov: "covers (ranges_of t') a ?w a" using a(2) by (simp add: covers_def m' unat_gt_0)
    have f: "cache_put s' p c a u1" "umfMemoryProviderFree (hUpstream p) a sz u1 = Some (e, u2)"
      using fr r s'(2,4) by (auto simp: cache_put_def split: option.splits)
    have w: "ranges_of t' a = Some \<lparr>tv_pool = tpool p, tv_size = sz\<rparr>" using m'(1) pl(4) by simp
    obtain t'' s'' where
      g: "trackingFree priv a sz s' = Some (e, s'')" "TRACKER s'' = Some t''" "upstream s'' = u2"
      "ranges_of t'' = (if e = UMF_RESULT_SUCCESS then (ranges_of t')(a := None) else ranges_of t')"
      by (rule release_ok [OF s'(3) m'(2) a(1) w f]) blast
    have "(ranges_of t')(a := None) = ranges_of t" using a(4) by (auto simp: m' fun_eq_iff)
    moreover have "umfFree a S' = Some (e, put_tracking s'' e th S')"
      by (rule pool_free_ok [OF ok' a(1) d' cov]) (use g(1) tS r in simp_all)
    moreover have "tracking (put_tracking s'' e th S') = (if e = UMF_RESULT_SUCCESS then s'' else set_last_failed th s'')" by simp
    ultimately show ?thesis using own g(2-4)
      by (intro conjI allI impI exI [of _ "put_tracking s'' e th S'"] exI [of _ t'']) (auto simp del: tracking_view_simps)
  qed
  then show ?thesis using malloc err trS last s'(5) by (intro exI [of _ S'] exI [of _ t']) auto
qed

theorem pool_malloc_free_roundtrip_witness:
  "\<exists>(S :: u64 proxy_state pool_state) S' S''. umfPoolMalloc 5 64 S = Some (8192, S') \<and> umfPoolByPtr S' 8200 = Some 5 \<and>
     umfFree 8192 S' = Some (UMF_RESULT_SUCCESS, S'')"
proof -
  obtain S t p priv where S: "proxy_pool_ok S 5 91 priv p t" "hUpstream p = 77" "ipcCache p = Some critnib_zero"
    "ranges_of t = Map.empty" "host_memory 2 (tracking S) t" "upstream (tracking S) = agree_upstream 8192"
    by (rule example_pool_run)
  have m: "host_memory 1 (tracking S) t" using S(5) by (auto simp: host_memory_def intro: inj_on_subset)
  have u: "umfMemoryProviderAlloc (hUpstream p) 64 0 (upstream (tracking S)) = Some ((UMF_RESULT_SUCCESS, 8192), agree_upstream 8256)"
    using agree_upstream_runs(1) [of 64 0 8192] by (simp add: S(2,6))
  have c: "cache_put ((tracking S)\<lparr>upstream := agree_upstream 8256\<rparr>) p critnib_zero 8192 (agree_upstream 8256)"
    by (simp add: cache_put_def critnib_ok_zero contents_zero S(3))
  have f: "umfMemoryProviderFree (hUpstream p) 8192 64 (agree_upstream 8256) = Some (UMF_RESULT_SUCCESS, agree_upstream 8256)"
    using agree_upstream_runs(2) by (simp add: S(2))
  have v: "disjoint_ranges (ranges_of t)" "vacant (ranges_of t) 8192 64"
    by (simp_all add: S(4) disjoint_ranges_def vacant_def)
  have fr: "UMF_RESULT_SUCCESS = UMF_RESULT_SUCCESS \<longrightarrow> cache_put ((tracking S)\<lparr>upstream := agree_upstream 8256\<rparr>) p critnib_zero 8192 (agree_upstream 8256) \<and>
      umfMemoryProviderFree (hUpstream p) 8192 64 (agree_upstream 8256) = Some (UMF_RESULT_SUCCESS, agree_upstream 8256)" using c f by blast
  from pool_malloc_free_roundtrip [OF S(1) m _ v(1) u _ fr] v(2) S(2) obtain S' S'' where
    "umfPoolMalloc 5 64 S = Some (8192, S')" "umfFree 8192 S' = Some (UMF_RESULT_SUCCESS, S'')"
    "\<forall>k. 8192 \<le> k \<and> unat k < 8256 \<longrightarrow> umfPoolByPtr S' k = Some 5" by auto
  moreover have "(8192 :: u64) \<le> 8200" "unat (8200 :: u64) < 8256" by simp_all
  ultimately show ?thesis by blast
qed

text \<open>A tracked pool that was created on a provider reports that provider, not the tracking provider
  around it; destroying the pool, when it does not own the provider, terminates, removes exactly
  the ranges of the pool from the tracker, destroys the tracking provider and forgets the pool,
  without a call of the user's provider.\<close>

theorem pool_create_destroy:
  assumes c: "creatable S h provider t" and f: "\<not> has_flag flags UMF_POOL_CREATE_FLAG_DISABLE_TRACKING"
    "\<not> has_flag flags UMF_POOL_CREATE_FLAG_OWN_PROVIDER"
    and room: "card (dom (ranges_of t)) < critnib_room (map_t t)" "ranges_of t 0 = None"
  shows "\<exists>S'. umfPoolCreate h (Some UMF_PROXY_POOL_OPS) provider params flags True S = Some ((UMF_RESULT_SUCCESS, h_pool h), S') \<and>
    umfPoolGetMemoryProvider S' (h_pool h) True = Some (UMF_RESULT_SUCCESS, Some (Direct provider)) \<and>
    (\<not> proxy_lib (tracking S') \<longrightarrow> (\<exists>S'' t''. umfPoolDestroy (h_pool h) S' = Some ((), S'') \<and> pools S'' (h_pool h) = None \<and>
      providers (plib (lib S'')) (h_provider h) = None \<and> upstream (tracking S'') = upstream (tracking S) \<and>
      TRACKER (tracking S'') = Some t'' \<and> (\<forall>a v. ranges_of t'' a = Some v \<longleftrightarrow> ranges_of t a = Some v \<and> tv_pool v \<noteq> h_pool h)))"
proof -
  let ?priv = "hosts (tracking S) (tick (tracking S))"
  from pool_create_ok [OF c f(1)] obtain S' b where
    S': "umfPoolCreate h (Some UMF_PROXY_POOL_OPS) provider params flags True S = Some ((UMF_RESULT_SUCCESS, h_pool h), S')"
      "proxy_pool_ok S' (h_pool h) (h_provider h) ?priv
        \<lparr>hUpstream = provider, hTracker = True, tpool = h_pool h, ipcCache = Some critnib_zero, upstreamDoesNotFree = b\<rparr> t"
      "upstream (tracking S') = upstream (tracking S)" by blast
  define p where "p = \<lparr>hUpstream = provider, hTracker = True, tpool = h_pool h, ipcCache = Some critnib_zero, upstreamDoesNotFree = b\<rparr>"
  note ok = S'(2) [folded p_def]
  obtain pool where o: "pools S' (h_pool h) = Some pool" "pool_ops pool = UMF_PROXY_POOL_OPS"
    "pool_provider pool = Tracked (h_provider h)" "h_provider h \<noteq> NULL" "tracking_ok (tracking S') ?priv p t"
    "\<not> has_flag (pool_flags pool) UMF_POOL_CREATE_FLAG_DISABLE_TRACKING" "h_pool h \<noteq> NULL"
    "providers (plib (lib S')) (h_provider h) = Some \<lparr>ops = UMF_TRACKING_MEMORY_PROVIDER_OPS, provider_priv = ?priv\<rparr>"
    using proxy_pool_okE [OF ok] by metis
  have fl: "pool_flags pool = flags" using S'(1) o(1)
    by (auto simp: umfPoolCreate_def umfPoolCreateInternal_def split: if_splits bind_splits)
  have tp: "tproviders (tracking S') ?priv = Some p" using o(5) by (simp add: tracking_ok_def)
  have gp: "umfPoolGetMemoryProvider S1 (h_pool h) True = Some (UMF_RESULT_SUCCESS, Some (Direct provider))"
    if "pools S1 = pools S'" "plib (lib S1) = plib (lib S')" for S1 :: "'a proxy_state pool_state"
    using o tp that by (simp add: umfPoolGetMemoryProvider_def umfMemoryProviderGetPriv_def
        umfTrackingMemoryProviderGetUpstreamProvider_def p_def)
  have "\<exists>S'' t''. umfPoolDestroy (h_pool h) S' = Some ((), S'') \<and> pools S'' (h_pool h) = None \<and>
      providers (plib (lib S'')) (h_provider h) = None \<and> upstream (tracking S'') = upstream (tracking S) \<and>
      TRACKER (tracking S'') = Some t'' \<and> (\<forall>a v. ranges_of t'' a = Some v \<longleftrightarrow> ranges_of t a = Some v \<and> tv_pool v \<noteq> h_pool h)"
    if px: "\<not> proxy_lib (tracking S')"
  proof -
    obtain t'' where t'': "trackingFinalize ?priv (tracking S') = Some ((), (tracking S')\<lparr>TRACKER := Some t'',
        tproviders := (tproviders (tracking S'))(?priv := None)\<rparr>)" "ranges_of t'' = cleared (h_pool h) 0 (ranges_of t)"
      by (rule finalize_ok [OF o(5) _ critnib_ok_zero px room]) (auto simp: p_def)
    have "ranges_of t'' a = Some v \<longleftrightarrow> ranges_of t a = Some v \<and> tv_pool v \<noteq> h_pool h" for a v
      using room(2) o(7) by (cases "a = 0") (auto simp: t''(2) cleared_def word_gt_0 split: option.splits)
    then show ?thesis
      using o t''(1) f fl S'(3) gp [of "S'\<lparr>lib := (lib S')\<lparr>proxy_pools := (proxy_pools (lib S'))(pool_priv pool := None)\<rparr>\<rparr>"]
      by (simp add: umfPoolDestroy_def on_lib_def proxy_pool_finalize_def destroy_provider_def destroy_tracked_def
          umfMemoryProviderDestroy_def tracking_finalize_op call_tracking_op tracking_view_fold tracking_view_plib)
  qed
  then show ?thesis using S'(1) gp [OF refl refl] by blast
qed

theorem pool_create_destroy_witness:
  "\<exists>t S' S''. umfPoolCreate example_host (Some UMF_PROXY_POOL_OPS) 77 0 0 True (example_library t) = Some ((UMF_RESULT_SUCCESS, 5), S') \<and>
     umfPoolGetMemoryProvider S' 5 True = Some (UMF_RESULT_SUCCESS, Some (Direct 77)) \<and>
     (\<not> proxy_lib (tracking S') \<longrightarrow> umfPoolDestroy 5 S' = Some ((), S''))"
proof -
  obtain t where t: "creatable (example_library t) example_host 77 t" "ranges_of t = Map.empty"
    "critnib_room (map_t t) = 2 ^ 64 - DELETED_LIFE" by (rule example_creatable)
  from pool_create_destroy [OF t(1) no_flags no_flags, of 0] t(2,3) show ?thesis
    by (auto simp: example_host_def DELETED_LIFE_def)
qed

section \<open>Sharing\<close>

lemma open_ok:
  assumes ok: "tracking_ok s priv p t" and mem: "host_memory 1 s t" and h: "hUpstream p \<noteq> NULL"
    and up: "umfMemoryProviderOpenIPCHandle (hUpstream p) d (upstream s) = Some ((UMF_RESULT_SUCCESS, a), u)"
    and a: "a \<noteq> 0" "vacant (ranges_of t) a (enclosing_baseSize d)" and dj: "disjoint_ranges (ranges_of t)"
  obtains t' s' where "trackingOpenIpcHandle priv d s = Some ((UMF_RESULT_SUCCESS, a), s')" "tracking_ok s' priv p t'"
    "ranges_of t' = (ranges_of t)(a \<mapsto> \<lparr>tv_pool = tpool p, tv_size = enclosing_baseSize d\<rparr>)" "disjoint_ranges (ranges_of t')"
proof -
  let ?g = "grants s (tick s)"
  have s: "tproviders s priv = Some p" "TRACKER s = Some t" "tracker_ok (benv s) t" "\<not> splitMergeMutex t"
    "0 < critnib_room (map_t t)" using ok by (auto simp: tracking_ok_def)
  have mem': "host_memory (Suc 0) s t" using mem by simp
  have g: "grant_ok t ?g" "g_leaf ?g \<noteq> NULL" "g_node ?g \<noteq> NULL"
    using mem host_memory_usable(1) [OF mem', of "benv s" "{}"] s(3)
    by (auto simp: grant_ok_def host_memory_def tracker_ok_pend)
  obtain r t' where t': "umfMemoryTrackerAdd (benv s) ?g t (tpool p) a (enclosing_baseSize d) = Some (r, t')" "tracker_ok (benv s) t'"
    "add_result (ranges_of t) a \<lparr>tv_pool = tpool p, tv_size = enclosing_baseSize d\<rparr> (g_leaf ?g \<noteq> NULL \<and> g_node ?g \<noteq> NULL) r (ranges_of t')"
    "critnib_room (map_t t') = critnib_room (map_t t)" "splitMergeMutex t' = splitMergeMutex t"
    by (rule add_ok [OF s(3) g(1) a(1)])
  have r: "r = UMF_RESULT_SUCCESS" "ranges_of t' = (ranges_of t)(a \<mapsto> \<lparr>tv_pool = tpool p, tv_size = enclosing_baseSize d\<rparr>)"
    using t'(3) g(2,3) a(2) by (auto simp: add_result_def vacant_def)
  have "disjoint_ranges (ranges_of t')" unfolding r(2) by (rule disjoint_add [OF dj]) (use a(2) in simp)
  moreover have "trackingOpenIpcHandle priv d s =
      Some ((UMF_RESULT_SUCCESS, a), s\<lparr>upstream := u, TRACKER := Some t', tick := Suc (tick s)\<rparr>)"
    using s h up t'(1) r(1) by (simp add: trackingOpenIpcHandle_def tracker_add_def getDataSizeFromIpcHandle_def)
  moreover have "tracking_ok (s\<lparr>upstream := u, TRACKER := Some t', tick := Suc (tick s)\<rparr>) priv p t'"
    using s t' by (simp add: tracking_ok_def)
  ultimately show thesis using that r(2) by blast
qed

lemma get_handle_ok:
  assumes ok: "proxy_pool_ok S hPool th priv p t" and d: "disjoint_ranges (ranges_of t)"
    and c: "covers (ranges_of t) b v k" "k \<noteq> 0" "tv_pool v = hPool" and host: "host \<noteq> NULL"
    and size: "umfMemoryProviderGetIPCHandleSize (hUpstream p) (upstream (tracking S)) = Some ((UMF_RESULT_SUCCESS, n), u)"
    and get: "trackingGetIpcHandle priv b (tv_size v) ((tracking S)\<lparr>upstream := u\<rparr>) = Some ((UMF_RESULT_SUCCESS, bytes), s)"
  shows "\<exists>S'. umfGetIPCHandle host pid k True S = Some ((UMF_RESULT_SUCCESS, Some (\<lparr>ipc_pid = pid, ipc_baseSize = tv_size v,
    ipc_offset = k - b, providerIpcData = bytes\<rparr>, 24 + n)), S')"
proof -
  obtain pool where o: "pools S hPool = Some pool" "pool_provider pool = Tracked th" "hPool \<noteq> NULL" "th \<noteq> NULL"
    "tracking_ok (tracking S) priv p t"
    "providers (plib (lib S)) th = Some \<lparr>ops = UMF_TRACKING_MEMORY_PROVIDER_OPS, provider_priv = priv\<rparr>"
    using proxy_pool_okE [OF ok] by metis
  have t: "TRACKER (tracking S) = Some t" "tracker_ok (benv (tracking S)) t" "0 < critnib_room (map_t t)"
    "tproviders (tracking S) priv = Some p" using o(5) by (auto simp: tracking_ok_def)
  have i: "umfMemoryTrackerGetAllocInfo (Some t) k = Some (UMF_RESULT_SUCCESS,
      Some \<lparr>info_base = b, info_baseSize = tv_size v, info_pool = tv_pool v\<rparr>)"
    by (rule trk.info_covers [OF t(2) d t(3) c(2,1)])
  show ?thesis
    using o t(1,4) i c(2,3) host size get
    by (simp add: umfGetIPCHandle_def umfPoolGetIPCHandleSize_def on_lib_def with_provider_def
        umfMemoryProviderGetIPCHandleSize_def [of th] umfMemoryProviderGetIPCHandle_def [of th]
        trackingGetIpcHandleSize_def forward_def sizeof_umf_ipc_data_t_def call_tracking_op tracking_view_fold)
qed

text \<open>C34: A handle for an address of one pool, opened in another pool (of another process), gives the
  address at the same distance from the start of the range as the original one, wherever the
  provider of the other pool maps the range; the address then belongs to the pool that opened the
  handle.\<close>

theorem ipc_handle_roundtrip:
  assumes e: "proxy_pool_ok S hPool th priv p t" "disjoint_ranges (ranges_of t)" "covers (ranges_of t) b v k" "k \<noteq> 0" "tv_pool v = hPool"
    and host: "host \<noteq> NULL"
    and size: "umfMemoryProviderGetIPCHandleSize (hUpstream p) (upstream (tracking S)) = Some ((UMF_RESULT_SUCCESS, n), u)"
    and get: "trackingGetIpcHandle priv b (tv_size v) ((tracking S)\<lparr>upstream := u\<rparr>) = Some ((UMF_RESULT_SUCCESS, bytes), s)"
    and i: "proxy_pool_ok S2 hPool2 th2 priv2 p2 t2" "disjoint_ranges (ranges_of t2)" "host_memory 1 (tracking S2) t2" "hUpstream p2 \<noteq> NULL"
    and up: "umfMemoryProviderOpenIPCHandle (hUpstream p2) \<lparr>enclosing_baseSize = tv_size v, ipc_bytes = bytes\<rparr> (upstream (tracking S2)) =
      Some ((UMF_RESULT_SUCCESS, a), u2)" "a \<noteq> 0" "vacant (ranges_of t2) a (tv_size v)"
  shows "\<exists>hd S' S2'. umfGetIPCHandle host pid k True S = Some ((UMF_RESULT_SUCCESS, Some (hd, 24 + n)), S') \<and>
    umfOpenIPCHandle hPool2 hd S2 = Some ((UMF_RESULT_SUCCESS, a + (k - b)), S2') \<and>
    umfPoolByPtr S2' (a + (k - b)) = Some hPool2"
proof -
  let ?hd = "\<lparr>ipc_pid = pid, ipc_baseSize = tv_size v, ipc_offset = k - b, providerIpcData = bytes\<rparr>"
  let ?d = "\<lparr>enclosing_baseSize = tv_size v, ipc_bytes = bytes\<rparr>" and ?w = "\<lparr>tv_pool = hPool2, tv_size = tv_size v\<rparr>"
  obtain pool where o: "pools S2 hPool2 = Some pool" "pool_provider pool = Tracked th2" "tpool p2 = hPool2"
    "tracking_ok (tracking S2) priv2 p2 t2"
    "providers (plib (lib S2)) th2 = Some \<lparr>ops = UMF_TRACKING_MEMORY_PROVIDER_OPS, provider_priv = priv2\<rparr>"
    using proxy_pool_okE [OF i(1)] by metis
  obtain t' s' where s': "trackingOpenIpcHandle priv2 ?d (tracking S2) = Some ((UMF_RESULT_SUCCESS, a), s')" "tracking_ok s' priv2 p2 t'"
    "ranges_of t' = (ranges_of t2)(a \<mapsto> \<lparr>tv_pool = tpool p2, tv_size = enclosing_baseSize ?d\<rparr>)" "disjoint_ranges (ranges_of t')"
    by (rule open_ok [OF o(4) i(3,4) up(1,2) _ i(2)]) (use up(3) in auto)
  have t': "TRACKER s' = Some t'" "tracker_ok (benv s') t'" "0 < critnib_room (map_t t')"
    using s'(2) by (auto simp: tracking_ok_def)
  have "unat b \<le> unat k" "unat k < unat b + unat (tv_size v)" using e(3) by (auto simp: covers_def word_le_nat_alt)
  then have kb: "unat (k - b) = unat k - unat b" "unat k - unat b < unat (tv_size v)" by (auto simp: unat_sub_u64)
  then have ak: "unat (a + (k - b)) = unat a + (unat k - unat b)"
    using up(3) by (simp add: vacant_def unat_add_u64)
  then have k0: "a + (k - b) \<noteq> 0" using up(2) unat_gt_0 [of a] by (auto simp: unat_eq_zero simp flip: unat_0)
  have "covers (ranges_of t') a ?w (a + (k - b))"
    using ak kb o(3) by (simp add: covers_def s'(3) word_le_nat_alt)
  from pool_found [OF t'(2) s'(4) t'(3) k0 this] have "umfMemoryTrackerGetPool (TRACKER s') (a + (k - b)) = Some hPool2"
    using t'(1) by simp
  moreover from get_handle_ok [OF e host size get] obtain S' where
    "umfGetIPCHandle host pid k True S = Some ((UMF_RESULT_SUCCESS, Some (?hd, 24 + n)), S')" by blast
  moreover define S2' where "S2' = S2\<lparr>lib := (lib S2)\<lparr>plib := (plib (lib S2))\<lparr>world := s',
      lastFailedProvider := lastFailedProvider (upstream s')\<rparr>\<rparr>\<rparr>"
  moreover have "umfOpenIPCHandle hPool2 ?hd S2 = Some ((UMF_RESULT_SUCCESS, a + (k - b)), S2')"
    using o s'(1) by (simp add: umfOpenIPCHandle_def on_lib_def with_provider_def umfMemoryProviderOpenIPCHandle_def
        call_tracking_op tracking_view_fold S2'_def)
  ultimately show ?thesis
    by (intro exI [of _ ?hd] exI [of _ S'] exI [of _ S2'])
      (simp add: umfPoolByPtr_def)
qed

theorem ipc_handle_roundtrip_witness:
  "\<exists>(S :: u64 proxy_state pool_state) (S2 :: u64 proxy_state pool_state) hd S' S2'. umfGetIPCHandle 1 9 8200 True S = Some ((UMF_RESULT_SUCCESS, Some (hd, 26)), S') \<and>
     umfOpenIPCHandle 5 hd S2 = Some ((UMF_RESULT_SUCCESS, 8200), S2') \<and> umfPoolByPtr S2' 8200 = Some 5"
proof -
  obtain S t p priv where S: "proxy_pool_ok S 5 91 priv p t" "hUpstream p = 77" "ipcCache p = Some critnib_zero"
    "ranges_of t = Map.empty" "host_memory 2 (tracking S) t" "upstream (tracking S) = agree_upstream 8192"
    by (rule example_pool_run)
  let ?w = "\<lparr>tv_pool = 5, tv_size = 64\<rparr>"
  have tr: "tracking_ok (tracking S) priv p t" "tpool p = 5" using S(1) by (auto simp: proxy_pool_ok_def)
  have m: "host_memory (Suc 1) (tracking S) t" using S(5) by (simp add: numeral_2_eq_2)
  have m1: "host_memory 1 (tracking S) t" using S(5) by (auto simp: host_memory_def intro: inj_on_subset)
  have u: "umfMemoryProviderAlloc (hUpstream p) 64 0 (upstream (tracking S)) = Some ((UMF_RESULT_SUCCESS, 8192), agree_upstream 8256)"
    using agree_upstream_runs(1) [of 64 0 8192] by (simp add: S(2,6))
  from alloc_ok [OF tr(1) m _ u] S(2,4) tr(2) obtain t1 s1 where
    s1: "tracking_ok s1 priv p t1" "ranges_of t1 = [8192 \<mapsto> ?w]" "host_memory 1 s1 t1" "upstream s1 = agree_upstream 8256" by auto
  define s2 where "s2 = s1\<lparr>hosts := (\<lambda>i. 3001 + i)\<rparr>"
  define S1 where "S1 = put_tracking s2 UMF_RESULT_SUCCESS 91 S"
  have "tracking_ok s2 priv p t1" using s1(1) by (simp add: tracking_ok_def s2_def)
  from put_tracking_ok [OF S(1) this] have ok1: "proxy_pool_ok S1 5 91 priv p t1" "tracking S1 = s2"
    unfolding S1_def by simp_all
  have d: "disjoint_ranges (ranges_of t1)" "disjoint_ranges (ranges_of t)" "covers (ranges_of t1) 8192 ?w 8200"
    "vacant (ranges_of t) 8192 (tv_size ?w)"
    by (auto simp: s1(2) S(4) disjoint_ranges_def covers_def vacant_def split: if_splits)
  have size: "umfMemoryProviderGetIPCHandleSize (hUpstream p) (upstream (tracking S1)) = Some ((UMF_RESULT_SUCCESS, 2), agree_upstream 8256)"
    using agree_upstream_runs(5) [of 8256] by (simp add: ok1(2) s2_def s1(4) S(2))
  have get: "umfMemoryProviderGetIPCHandle (hUpstream p) 8192 64 (upstream (s2\<lparr>upstream := agree_upstream 8256\<rparr>)) =
      Some ((UMF_RESULT_SUCCESS, [0, 7]), agree_upstream 8256)"
    using agree_upstream_runs(6) [of 8192 64 8256] by (simp add: S(2))
  have size2: "umfMemoryProviderGetIPCHandleSize (hUpstream p) (agree_upstream 8256) = Some ((UMF_RESULT_SUCCESS, 2), agree_upstream 8256)"
    using agree_upstream_runs(5) [of 8256] by (simp add: S(2))
  have r: "0 < critnib_room critnib_zero" by (simp add: critnib_room_def critnib_zero_def DELETED_LIFE_def)
  have pr: "tproviders (s2\<lparr>upstream := agree_upstream 8256\<rparr>) priv = Some p" using s1(1) by (simp add: tracking_ok_def s2_def)
  have g: "g_leaf (grants s1 (tick s1)) \<noteq> NULL" "g_node (grants s1 (tick s1)) \<noteq> NULL" using s1(3) by (auto simp: host_memory_def)
  obtain s3 where run: "trackingGetIpcHandle priv 8192 64 (s2\<lparr>upstream := agree_upstream 8256\<rparr>) = Some ((UMF_RESULT_SUCCESS, [0, 7]), s3)"
    by (rule ipc_cache_miss [OF pr S(3) critnib_ok_zero r _ get size2])
      (use g in \<open>auto simp: contents_zero s2_def, simp add: critnib_fresh_def critnib_zero_def\<close>)
  have op: "umfMemoryProviderOpenIPCHandle (hUpstream p) \<lparr>enclosing_baseSize = tv_size ?w, ipc_bytes = [0, 7]\<rparr> (upstream (tracking S)) =
      Some ((UMF_RESULT_SUCCESS, 8192), agree_upstream 8192)"
    by (simp add: S(2,6) umfMemoryProviderOpenIPCHandle_def agree_upstream_def agree_ops_def call_op_def)
  from ipc_handle_roundtrip [OF ok1(1) d(1,3) _ _ _ size _ S(1) d(2) m1 _ op _ d(4), of 1 s3 9] run ok1(2) S(2)
  obtain hd S' S2' where "umfGetIPCHandle 1 9 8200 True S1 = Some ((UMF_RESULT_SUCCESS, Some (hd, 26)), S')"
     "umfOpenIPCHandle 5 hd S = Some ((UMF_RESULT_SUCCESS, 8200), S2')" "umfPoolByPtr S2' 8200 = Some 5" by auto
  then show ?thesis by blast
qed

end
