(* ===== verification/Coarse_Blocks.thy ===== *)
theory Coarse_Blocks
  imports Ravl_Properties Memory_Provider UMF_Utils
begin

text \<open>
  The block store of the coarse provider (first part of \<open>provider/provider_coarse.c\<close>): blocks of
  memory, kept in a tree sorted by address, and the free ones in addition in lists of blocks of the
  same size, whose heads are in a tree sorted by size. The trees are those of \<open>Ravl_Model\<close>.

  Blocks, list elements and list heads are objects of host memory, each in a store of its own. The
  answers of the allocator of host memory are the stream \<open>chosts\<close>, read at \<open>ctick\<close>; \<open>cjunk\<close> is what
  uninitialised memory holds.
\<close>

section \<open>State\<close>

datatype coarse_memory_provider_strategy_t =
    UMF_COARSE_MEMORY_STRATEGY_FASTEST
  | UMF_COARSE_MEMORY_STRATEGY_FASTEST_BUT_ONE
  | UMF_COARSE_MEMORY_STRATEGY_CHECK_ALL_SIZE
  | UMF_COARSE_MEMORY_STRATEGY_MAX

datatype check_free_blocks_t = CHECK_ONLY_THE_FIRST_BLOCK | CHECK_ALL_BLOCKS_OF_SIZE

record block_t =
  bsize :: u64
  bdata :: u64
  bused :: bool
  free_list_ptr :: ptr

record ravl_free_blocks_head_t =
  fhead :: ptr

record ravl_free_blocks_elem_t =
  eblock :: ptr
  enext :: ptr
  eprev :: ptr

record coarse_memory_provider_t =
  upstream_memory_provider :: ptr
  destroy_upstream_memory_provider :: bool
  allocation_strategy :: coarse_memory_provider_strategy_t
  init_buffer :: u64
  used_size :: u64
  alloc_size :: u64
  upstream_blocks :: "ravl_data_t ravl"
  all_blocks :: "ravl_data_t ravl"
  free_blocks :: "ravl_data_t ravl"
  clock :: bool
  cname :: "string option"
  disable_upstream_provider_free :: bool

text \<open>The stores of the objects, and what is left of the allocator of host memory.\<close>

record coarse_heap =
  blocks :: "ptr \<rightharpoonup> block_t"
  fheads :: "ptr \<rightharpoonup> ravl_free_blocks_head_t"
  elems :: "ptr \<rightharpoonup> ravl_free_blocks_elem_t"
  chosts :: "nat \<Rightarrow> ptr"
  cjunk :: "nat \<Rightarrow> bool"
  ctick :: nat

definition halloc :: "coarse_heap \<Rightarrow> ptr \<times> coarse_heap" where
  "halloc s = (chosts s (ctick s), s\<lparr>ctick := Suc (ctick s)\<rparr>)"

definition upd_block :: "ptr \<Rightarrow> (block_t \<Rightarrow> block_t) \<Rightarrow> coarse_heap \<Rightarrow> coarse_heap option" where
  "upd_block b f s = do { x \<leftarrow> blocks s b; Some (s\<lparr>blocks := (blocks s)(b \<mapsto> f x)\<rparr>) }"

definition upd_elem ::
  "ptr \<Rightarrow> (ravl_free_blocks_elem_t \<Rightarrow> ravl_free_blocks_elem_t) \<Rightarrow> coarse_heap \<Rightarrow> coarse_heap option" where
  "upd_elem e f s = do { x \<leftarrow> elems s e; Some (s\<lparr>elems := (elems s)(e \<mapsto> f x)\<rparr>) }"

definition IS_ORIGIN_OF_BLOCK :: "block_t \<Rightarrow> block_t \<Rightarrow> bool" where
  "IS_ORIGIN_OF_BLOCK orig b \<longleftrightarrow> bdata b \<ge> bdata orig \<and> bdata b + bsize b \<le> bdata orig + bsize orig"

section \<open>Trees of blocks\<close>

text \<open>The datum of a node, whose value must not be null.\<close>

definition get_node_block :: "ravl_data_t ravl \<Rightarrow> ptr \<Rightarrow> ptr option" where
  "get_node_block r n = do {
     d \<leftarrow> ravl_data r n;
     guard (rvalue d \<noteq> NULL);
     Some (rvalue d)
   }"

definition get_node_prev :: "ravl_data_t ravl \<Rightarrow> ptr \<Rightarrow> ptr option" where
  "get_node_prev r n = ravl_node_predecessor r n"

definition get_node_next :: "ravl_data_t ravl \<Rightarrow> ptr \<Rightarrow> ptr option" where
  "get_node_next r n = ravl_node_successor r n"

definition get_block_prev :: "ravl_data_t ravl \<Rightarrow> ptr \<Rightarrow> ptr option" where
  "get_block_prev r n = do {
     p \<leftarrow> ravl_node_predecessor r n;
     if p = NULL then Some NULL else get_node_block r p
   }"

definition get_block_next :: "ravl_data_t ravl \<Rightarrow> ptr \<Rightarrow> ptr option" where
  "get_block_next r n = do {
     p \<leftarrow> ravl_node_successor r n;
     if p = NULL then Some NULL else get_node_block r p
   }"

definition is_same_origin :: "ravl_data_t ravl \<Rightarrow> coarse_heap \<Rightarrow> ptr \<Rightarrow> ptr \<Rightarrow> bool option" where
  "is_same_origin up s block1 block2 = do {
     b1 \<leftarrow> blocks s block1;
     b2 \<leftarrow> blocks s block2;
     ravl_origin1 \<leftarrow> ravl_find up \<lparr>rkey = bdata b1, rvalue = NULL\<rparr> RAVL_PREDICATE_LESS_EQUAL;
     guard (ravl_origin1 \<noteq> NULL);
     origin1 \<leftarrow> get_node_block up ravl_origin1;
     o1 \<leftarrow> blocks s origin1;
     guard (IS_ORIGIN_OF_BLOCK o1 b1);
     Some (IS_ORIGIN_OF_BLOCK o1 b2)
   }"

text \<open>The block and the node of a new block, or null pointers. The field \<open>used\<close> is not set here; it
  holds what was in the memory.\<close>

definition coarse_ravl_add_new ::
  "ravl_data_t ravl \<Rightarrow> u64 \<Rightarrow> u64 \<Rightarrow> coarse_heap \<Rightarrow> (ptr \<times> ptr \<times> ravl_data_t ravl \<times> coarse_heap) option" where
  "coarse_ravl_add_new rtree data sz s = do {
     guard (data \<noteq> 0);
     guard (sz \<noteq> 0);
     let junk = cjunk s (ctick s);
     let (block, s) = halloc s;
     if block = NULL then Some (NULL, NULL, rtree, s)
     else do {
       let s = s\<lparr>blocks := (blocks s)(block \<mapsto> \<lparr>bsize = sz, bdata = data, bused = junk, free_list_ptr = NULL\<rparr>)\<rparr>;
       let rdata = \<lparr>rkey = data, rvalue = block\<rparr>;
       old \<leftarrow> ravl_find rtree rdata RAVL_PREDICATE_EQUAL;
       guard (old = NULL);
       let (mem, s) = halloc s;
       (ret, rtree) \<leftarrow> ravl_emplace_copy rtree rdata mem;
       if ret \<noteq> OK then Some (NULL, NULL, rtree, s\<lparr>blocks := (blocks s)(block := None)\<rparr>)
       else do {
         new_node \<leftarrow> ravl_find rtree rdata RAVL_PREDICATE_EQUAL;
         guard (new_node \<noteq> NULL);
         Some (block, new_node, rtree, s)
       }
     }
   }"

definition coarse_ravl_find_node :: "ravl_data_t ravl \<Rightarrow> u64 \<Rightarrow> ptr option" where
  "coarse_ravl_find_node rtree p = ravl_find rtree \<lparr>rkey = p, rvalue = NULL\<rparr> RAVL_PREDICATE_EQUAL"

definition coarse_ravl_rm :: "ravl_data_t ravl \<Rightarrow> u64 \<Rightarrow> (ptr \<times> ravl_data_t ravl) option" where
  "coarse_ravl_rm rtree p = do {
     let data = \<lparr>rkey = p, rvalue = NULL\<rparr>;
     nod \<leftarrow> ravl_find rtree data RAVL_PREDICATE_EQUAL;
     if nod \<noteq> NULL then do {
       node_data \<leftarrow> ravl_data rtree nod;
       let block = rvalue node_data;
       guard (block \<noteq> NULL);
       rtree \<leftarrow> ravl_remove rtree nod;
       left \<leftarrow> ravl_find rtree data RAVL_PREDICATE_EQUAL;
       guard (left = NULL);
       Some (block, rtree)
     } else Some (NULL, rtree)
   }"

section \<open>Lists of free blocks of the same size\<close>

definition node_list_add :: "ptr \<Rightarrow> ptr \<Rightarrow> coarse_heap \<Rightarrow> (ptr \<times> coarse_heap) option" where
  "node_list_add head_node block s = do {
     guard (head_node \<noteq> NULL);
     guard (block \<noteq> NULL);
     let (nod, s) = halloc s;
     if nod = NULL then Some (NULL, s)
     else do {
       h \<leftarrow> fheads s head_node;
       s \<leftarrow> (if fhead h \<noteq> NULL then upd_elem (fhead h) (\<lambda>e. e\<lparr>eprev := nod\<rparr>) s else Some s);
       let s = s\<lparr>elems := (elems s)(nod \<mapsto> \<lparr>eblock = block, enext = fhead h, eprev = NULL\<rparr>)\<rparr>;
       Some (nod, s\<lparr>fheads := (fheads s)(head_node \<mapsto> \<lparr>fhead = nod\<rparr>)\<rparr>)
     }
   }"

definition node_list_rm :: "ptr \<Rightarrow> ptr \<Rightarrow> coarse_heap \<Rightarrow> (ptr \<times> coarse_heap) option" where
  "node_list_rm head_node nod s = do {
     guard (head_node \<noteq> NULL);
     guard (nod \<noteq> NULL);
     h \<leftarrow> fheads s head_node;
     if fhead h = NULL then Some (NULL, s)
     else do {
       nd \<leftarrow> elems s nod;
       s \<leftarrow> (if nod = fhead h then do {
               guard (eprev nd = NULL);
               Some (s\<lparr>fheads := (fheads s)(head_node \<mapsto> \<lparr>fhead = enext nd\<rparr>)\<rparr>)
             } else Some s);
       s \<leftarrow> (if enext nd \<noteq> NULL then upd_elem (enext nd) (\<lambda>e. e\<lparr>eprev := eprev nd\<rparr>) s else Some s);
       s \<leftarrow> (if eprev nd \<noteq> NULL then upd_elem (eprev nd) (\<lambda>e. e\<lparr>enext := enext nd\<rparr>) s else Some s);
       s \<leftarrow> upd_block (eblock nd) (\<lambda>b. b\<lparr>free_list_ptr := NULL\<rparr>) s;
       Some (eblock nd, s\<lparr>elems := (elems s)(nod := None)\<rparr>)
     }
   }"

definition node_list_rm_first :: "ptr \<Rightarrow> u64 \<Rightarrow> coarse_heap \<Rightarrow> (ptr \<times> coarse_heap) option" where
  "node_list_rm_first head_node alignment s = do {
     guard (head_node \<noteq> NULL);
     h \<leftarrow> fheads s head_node;
     if fhead h = NULL then Some (NULL, s)
     else do {
       let nod = fhead h;
       nd \<leftarrow> elems s nod;
       guard (eprev nd = NULL);
       b \<leftarrow> blocks s (eblock nd);
       if IS_NOT_ALIGNED (bsize b) alignment then Some (NULL, s)
       else do {
         s \<leftarrow> (if enext nd \<noteq> NULL then upd_elem (enext nd) (\<lambda>e. e\<lparr>eprev := NULL\<rparr>) s else Some s);
         let s = s\<lparr>fheads := (fheads s)(head_node \<mapsto> \<lparr>fhead = enext nd\<rparr>)\<rparr>;
         s \<leftarrow> upd_block (eblock nd) (\<lambda>b. b\<lparr>free_list_ptr := NULL\<rparr>) s;
         Some (eblock nd, s\<lparr>elems := (elems s)(nod := None)\<rparr>)
       }
     }
   }"

text \<open>The loop over the list for the first element whose block has an aligned size.\<close>

partial_function (option) find_aligned :: "coarse_heap \<Rightarrow> u64 \<Rightarrow> ptr \<Rightarrow> ptr option" where
  "find_aligned s alignment nod =
     (if nod = NULL then Some NULL
      else do {
        nd \<leftarrow> elems s nod;
        b \<leftarrow> blocks s (eblock nd);
        if IS_ALIGNED (bsize b) alignment then Some nod else find_aligned s alignment (enext nd)
      })"

definition node_list_rm_with_alignment :: "ptr \<Rightarrow> u64 \<Rightarrow> coarse_heap \<Rightarrow> (ptr \<times> coarse_heap) option" where
  "node_list_rm_with_alignment head_node alignment s = do {
     guard (head_node \<noteq> NULL);
     h \<leftarrow> fheads s head_node;
     if fhead h = NULL then Some (NULL, s)
     else do {
       nd \<leftarrow> elems s (fhead h);
       guard (eprev nd = NULL);
       nod \<leftarrow> find_aligned s alignment (fhead h);
       if nod \<noteq> NULL then node_list_rm head_node nod s else Some (NULL, s)
     }
   }"

section \<open>The tree of free blocks\<close>

text \<open>The list head for a size: found, or created; null when there is no memory.\<close>

definition free_blocks_head :: "ravl_data_t ravl \<Rightarrow> u64 \<Rightarrow> coarse_heap \<Rightarrow> (ptr \<times> ravl_data_t ravl \<times> coarse_heap) option" where
  "free_blocks_head r sz s = do {
     nod \<leftarrow> ravl_find r \<lparr>rkey = sz, rvalue = NULL\<rparr> RAVL_PREDICATE_EQUAL;
     if nod \<noteq> NULL then do {
       node_data \<leftarrow> ravl_data r nod;
       guard (rvalue node_data \<noteq> NULL);
       Some (rvalue node_data, r, s)
     } else do {
       let (head_node, s) = halloc s;
       if head_node = NULL then Some (NULL, r, s)
       else do {
         let s = s\<lparr>fheads := (fheads s)(head_node \<mapsto> \<lparr>fhead = NULL\<rparr>)\<rparr>;
         let (mem, s) = halloc s;
         (rv, r) \<leftarrow> ravl_emplace_copy r \<lparr>rkey = sz, rvalue = head_node\<rparr> mem;
         if rv \<noteq> OK then Some (NULL, r, s\<lparr>fheads := (fheads s)(head_node := None)\<rparr>)
         else Some (head_node, r, s)
       }
     }
   }"

text \<open>The result is whether the block was added.\<close>

definition free_blocks_add :: "ravl_data_t ravl \<Rightarrow> ptr \<Rightarrow> coarse_heap \<Rightarrow> (bool \<times> ravl_data_t ravl \<times> coarse_heap) option" where
  "free_blocks_add r block s = do {
     b \<leftarrow> blocks s block;
     (head_node, r, s) \<leftarrow> free_blocks_head r (bsize b) s;
     if head_node = NULL then Some (False, r, s)
     else do {
       (e, s) \<leftarrow> node_list_add head_node block s;
       s \<leftarrow> upd_block block (\<lambda>b. b\<lparr>free_list_ptr := e\<rparr>) s;
       if e = NULL then Some (False, r, s) else Some (True, r, s)
     }
   }"

text \<open>Removing the list head that has become empty, common to the two functions below.\<close>

definition drop_empty_head :: "ravl_data_t ravl \<Rightarrow> ptr \<Rightarrow> ptr \<Rightarrow> coarse_heap \<Rightarrow> (ravl_data_t ravl \<times> coarse_heap) option" where
  "drop_empty_head r nod head_node s = do {
     h \<leftarrow> fheads s head_node;
     if fhead h = NULL then do {
       r \<leftarrow> ravl_remove r nod;
       Some (r, s\<lparr>fheads := (fheads s)(head_node := None)\<rparr>)
     } else Some (r, s)
   }"

definition free_blocks_rm_ge ::
  "ravl_data_t ravl \<Rightarrow> u64 \<Rightarrow> u64 \<Rightarrow> check_free_blocks_t \<Rightarrow> coarse_heap \<Rightarrow> (ptr \<times> ravl_data_t ravl \<times> coarse_heap) option" where
  "free_blocks_rm_ge r sz alignment check_blocks s = do {
     nod \<leftarrow> ravl_find r \<lparr>rkey = sz, rvalue = NULL\<rparr> RAVL_PREDICATE_GREATER_EQUAL;
     if nod = NULL then Some (NULL, r, s)
     else do {
       node_data \<leftarrow> ravl_data r nod;
       guard (rkey node_data \<ge> sz);
       let head_node = rvalue node_data;
       guard (head_node \<noteq> NULL);
       (block, s) \<leftarrow> (case check_blocks of
           CHECK_ONLY_THE_FIRST_BLOCK \<Rightarrow> node_list_rm_first head_node alignment s
         | CHECK_ALL_BLOCKS_OF_SIZE \<Rightarrow> node_list_rm_with_alignment head_node alignment s);
       (r, s) \<leftarrow> drop_empty_head r nod head_node s;
       Some (block, r, s)
     }
   }"

definition free_blocks_rm_node ::
  "ravl_data_t ravl \<Rightarrow> ptr \<Rightarrow> coarse_heap \<Rightarrow> (ptr \<times> ravl_data_t ravl \<times> coarse_heap) option" where
  "free_blocks_rm_node r nod s = do {
     guard (nod \<noteq> NULL);
     nd \<leftarrow> elems s nod;
     b \<leftarrow> blocks s (eblock nd);
     ravl_node \<leftarrow> ravl_find r \<lparr>rkey = bsize b, rvalue = NULL\<rparr> RAVL_PREDICATE_EQUAL;
     guard (ravl_node \<noteq> NULL);
     node_data \<leftarrow> ravl_data r ravl_node;
     guard (rkey node_data = bsize b);
     let head_node = rvalue node_data;
     guard (head_node \<noteq> NULL);
     (block, s) \<leftarrow> node_list_rm head_node nod s;
     (r, s) \<leftarrow> drop_empty_head r ravl_node head_node s;
     Some (block, r, s)
   }"

definition find_free_block ::
  "ravl_data_t ravl \<Rightarrow> u64 \<Rightarrow> u64 \<Rightarrow> coarse_memory_provider_strategy_t \<Rightarrow> coarse_heap \<Rightarrow> (ptr \<times> ravl_data_t ravl \<times> coarse_heap) option" where
  "find_free_block r sz alignment strategy s =
     (case strategy of
        UMF_COARSE_MEMORY_STRATEGY_FASTEST \<Rightarrow>
          free_blocks_rm_ge r (sz + alignment) 0 CHECK_ONLY_THE_FIRST_BLOCK s
      | UMF_COARSE_MEMORY_STRATEGY_FASTEST_BUT_ONE \<Rightarrow> do {
          (block, r, s) \<leftarrow> free_blocks_rm_ge r sz alignment CHECK_ONLY_THE_FIRST_BLOCK s;
          if block \<noteq> NULL then Some (block, r, s)
          else free_blocks_rm_ge r (sz + alignment) 0 CHECK_ONLY_THE_FIRST_BLOCK s
        }
      | UMF_COARSE_MEMORY_STRATEGY_CHECK_ALL_SIZE \<Rightarrow> do {
          (block, r, s) \<leftarrow> free_blocks_rm_ge r sz alignment CHECK_ALL_BLOCKS_OF_SIZE s;
          if block \<noteq> NULL then Some (block, r, s)
          else free_blocks_rm_ge r (sz + alignment) 0 CHECK_ONLY_THE_FIRST_BLOCK s
        }
      | UMF_COARSE_MEMORY_STRATEGY_MAX \<Rightarrow> None)"

end
