(* ===== verification/Coarse_Trees.thy ===== *)
theory Coarse_Trees
  imports Coarse_Blocks
begin

text \<open>
  The trees of the coarse provider as sorted sequences of keys (\<open>block_tree\<close>), and the lists of free
  blocks as doubly linked lists (\<open>dlist\<close>): what each of the \<open>coarse_ravl_*\<close> and \<open>node_list_*\<close> functions
  does to them.
\<close>

section \<open>Trees sorted by key\<close>

definition block_tree :: "ravl_data_t ravl \<Rightarrow> (ptr \<times> ravl_data_t) list \<Rightarrow> bool" where
  "block_tree r xs \<longleftrightarrow> ravl_holds r False xs \<and> compare r = coarse_ravl_comp"

abbreviation key :: "ptr \<times> ravl_data_t \<Rightarrow> u64" where "key x \<equiv> rkey (snd x)"

lemma comp_sign [simp]:
  "coarse_ravl_comp d e < 0 \<longleftrightarrow> rkey d < rkey e"
  "0 < coarse_ravl_comp d e \<longleftrightarrow> rkey e < rkey d"
  "coarse_ravl_comp d e = 0 \<longleftrightarrow> rkey d = rkey e"
  by (auto simp: coarse_ravl_comp_def)

lemma block_tree_sorted: "block_tree r xs \<Longrightarrow> sorted_wrt (\<lambda>x y. key x < key y) xs"
  by (auto simp: block_tree_def ravl_holds_def)

lemma block_tree_dom: "block_tree r xs \<Longrightarrow> dom (rnodes r) = fst ` set xs"
  using holds_dom [of r False xs] by (simp add: block_tree_def)

lemma holds_facts: "ravl_holds r b xs \<Longrightarrow> distinct (map fst xs) \<and> NULL \<notin> fst ` set xs"
proof -
  assume "ravl_holds r b xs"
  then obtain t where t: "rst r [] t {}" "ino t = items b xs" by (auto simp: ravl_holds_def)
  have "distinct (map fst (ino t))" using t(1) tsep_distinct [of t] by (auto simp: rst_def)
  moreover have "NULL \<notin> addrs t" using t(1) rrep_not_null by (auto simp: rst_def)
  moreover have "addrs t = fst ` set xs" using addrs_ino [of t] items_fst [of b xs] t(2) by (metis list.set_map)
  ultimately show ?thesis using items_fst [of b xs] t(2) by simp
qed

lemma block_tree_nodes: "block_tree r xs \<Longrightarrow> distinct (map fst xs)" "block_tree r xs \<Longrightarrow> x \<in> set xs \<Longrightarrow> fst x \<noteq> NULL"
  using holds_facts [of r False xs] by (force simp: block_tree_def)+

lemma block_tree_keys: "block_tree r xs \<Longrightarrow> distinct (map key xs)"
proof -
  assume "block_tree r xs"
  then have "sorted_wrt (<) (map key xs)" using block_tree_sorted sorted_wrt_map by blast
  then show ?thesis by (simp add: strict_sorted_iff)
qed

lemma find_split:
  assumes "block_tree r (L @ R)" "\<forall>x \<in> set L. key x < rkey d" "\<forall>x \<in> set R. rkey d < key x"
  shows "ravl_find r d flags = Some (in_hand flags L R)"
  using assms ravl_find_holds [of r False "L @ R" d flags] find_item_split [of L coarse_ravl_comp d R flags]
    coarse_order.comparison_axioms by (simp add: block_tree_def)

lemma find_mid:
  assumes t: "block_tree r (L @ (n, e) # R)" and k: "rkey d = rkey e"
  shows "ravl_find r d flags = Some (if flag_equal flags then n else in_hand flags L R)"
proof -
  have "\<forall>x \<in> set L. key x < rkey d" "\<forall>x \<in> set R. rkey d < key x"
    using block_tree_sorted [OF t] k by (auto simp: sorted_wrt_append)
  then show ?thesis
    using t k ravl_find_holds [of r False "L @ (n, e) # R" d flags] find_item_mid [of L coarse_ravl_comp d R e flags n]
      coarse_order.comparison_axioms by (simp add: block_tree_def)
qed

text \<open>Cutting a sorted sequence at a key.\<close>

lemma sorted_cut:
  assumes "sorted_wrt (\<lambda>x y. key x < key y) xs"
  obtains L R where "xs = L @ R" "\<forall>x \<in> set L. key x < k" "\<forall>x \<in> set R. k \<le> key x"
proof
  show "xs = takeWhile (\<lambda>x. key x < k) xs @ dropWhile (\<lambda>x. key x < k) xs" by simp
  show "\<forall>x \<in> set (takeWhile (\<lambda>x. key x < k) xs). key x < k" by (auto dest: set_takeWhileD)
  show "\<forall>x \<in> set (dropWhile (\<lambda>x. key x < k) xs). k \<le> key x"
  proof (cases "dropWhile (\<lambda>x. key x < k) xs")
    case (Cons y ys)
    from Cons have y: "k \<le> key y" using hd_dropWhile [of "\<lambda>x. key x < k" xs] by auto
    have "sorted_wrt (\<lambda>x y. key x < key y) (dropWhile (\<lambda>x. key x < k) xs)"
      using assms sorted_wrt_append [of "\<lambda>x y. key x < key y" "takeWhile (\<lambda>x. key x < k) xs"] by simp
    with Cons y show ?thesis by force
  next
    case Nil
    then show ?thesis unfolding Nil by simp
  qed
qed

lemma find_absent:
  assumes t: "block_tree r xs" and k: "rkey d \<notin> key ` set xs"
  shows "ravl_find r d RAVL_PREDICATE_EQUAL = Some NULL"
proof -
  obtain L R where LR: "xs = L @ R" "\<forall>x \<in> set L. key x < rkey d" "\<forall>x \<in> set R. rkey d \<le> key x"
    by (rule sorted_cut [OF block_tree_sorted [OF t]])
  then have "\<forall>x \<in> set R. rkey d < key x" using k by (force simp: less_le)
  with find_split [of r L R d RAVL_PREDICATE_EQUAL] t LR show ?thesis by (simp add: in_hand_def)
qed

lemma data_holds:
  assumes "block_tree r xs" "(n, d) \<in> set xs"
  shows "ravl_data r n = Some d"
proof -
  from assms obtain ys zs where xs: "xs = ys @ (n, d) # zs" by (auto dest: split_list)
  from assms(1) obtain t where t: "rst r [] t {}" "ino t = items False xs" by (auto simp: block_tree_def ravl_holds_def)
  have dist: "distinct (map fst xs)" by (rule block_tree_nodes [OF assms(1)])
  have "n \<in> addrs t" using addrs_ino [of t] t(2) xs by auto
  then obtain C k b' pd l rt where C: "t = plug C (RN n k b' pd l rt)" using focus_at by blast
  have "(cl C @ ino l) @ (n, b', pd) # ino rt @ cr C = items False (ys @ (n, d) # zs)" using t(2) by (simp add: C ino_plug xs)
  then obtain us e vs where uv: "ys @ (n, d) # zs = us @ (n, e) # vs" "b' = False" "pd = pay False e" by (rule items_mid) auto
  then have "(n, e) \<in> set xs" unfolding xs by simp
  then have "e = d" using dist assms(2) by (metis eq_key_imp_eq_value)
  moreover have "rst r C (RN n k False (pay False e) l rt) {}" using t(1) uv by (simp add: C rst_def)
  ultimately show ?thesis using rst_data [of r C n k False d l rt "{}"] by simp
qed

lemma nav_holds:
  assumes "block_tree r (ys @ (n, d) # zs)"
  shows "get_node_next r n = Some (hd_adr zs)" "get_node_prev r n = Some (last_adr ys)"
  using ravl_navigation_holds [of r False ys n d zs] assms by (auto simp: block_tree_def get_node_next_def get_node_prev_def)

lemma emplace_holds:
  assumes t: "block_tree r (L @ R)" and k: "\<forall>x \<in> set L. key x < rkey d" "\<forall>x \<in> set R. rkey d < key x"
    and mem: "mem \<noteq> NULL" "mem \<notin> dom (rnodes r)"
  obtains r' where "ravl_emplace_copy r d mem = Some (OK, r')" "block_tree r' (L @ (mem, d) # R)"
proof -
  have f: "rnodes r mem = None" using mem by auto
  have "filter (\<lambda>x. key x < rkey d) (L @ R) = L" "filter (\<lambda>x. rkey d < key x) (L @ R) = R"
    using k by (fastforce simp: filter_id_conv filter_empty_conv)+
  then have i: "ins_at coarse_ravl_comp mem d (L @ R) = L @ (mem, d) # R" by (simp add: ins_at_def)
  have "\<not> (\<exists>x \<in> set (L @ R). coarse_ravl_comp d (snd x) = 0)" using k by auto
  with t i f mem ravl_emplace_holds [of r False "L @ R" mem d] coarse_order.comparison_axioms that show thesis
    by (auto simp: block_tree_def ravl_emplace_copy_def same_tree_params_def)
qed

lemma remove_holds:
  assumes t: "block_tree r (ys @ (n, d) # zs)"
  obtains r' zs' where "ravl_remove r n = Some r'" "block_tree r' (ys @ zs')" "map snd zs' = map snd zs"
    "dom (rnodes r') \<subseteq> dom (rnodes r)"
proof -
  have h: "ravl_holds r False (ys @ (n, d) # zs)" "compare r = coarse_ravl_comp" using t by (auto simp: block_tree_def)
  from ravl_remove_holds [OF h(1)] h(2) that show thesis
    unfolding block_tree_def same_tree_params_def by (metis Diff_subset)
qed

text \<open>The functions on blocks.\<close>

lemma add_new_ok:
  assumes t: "block_tree r (L @ R)" and k: "\<forall>x \<in> set L. key x < data" "\<forall>x \<in> set R. data < key x"
    and nz: "data \<noteq> 0" "sz \<noteq> 0"
    and p: "p = chosts h (ctick h)" "p \<noteq> NULL" and m: "m = chosts h (Suc (ctick h))" "m \<noteq> NULL" "m \<notin> dom (rnodes r)"
  obtains r' where "coarse_ravl_add_new r data sz h = Some (p, m, r', h\<lparr>ctick := ctick h + 2,
      blocks := (blocks h)(p \<mapsto> \<lparr>bsize = sz, bdata = data, bused = cjunk h (ctick h), free_list_ptr = NULL\<rparr>)\<rparr>)"
    "block_tree r' (L @ (m, \<lparr>rkey = data, rvalue = p\<rparr>) # R)"
proof -
  define d where "d = \<lparr>rkey = data, rvalue = p\<rparr>"
  have kd: "\<forall>x \<in> set L. key x < rkey d" "\<forall>x \<in> set R. rkey d < key x" using k by (simp_all add: d_def)
  have old: "ravl_find r d RAVL_PREDICATE_EQUAL = Some NULL" using find_split [OF t kd] by (simp add: in_hand_def)
  obtain r' where r': "ravl_emplace_copy r d m = Some (OK, r')" "block_tree r' (L @ (m, d) # R)"
    by (rule emplace_holds [OF t kd m(2,3)])
  have new: "ravl_find r' d RAVL_PREDICATE_EQUAL = Some m" using find_mid [OF r'(2)] by simp
  show thesis
    by (rule that [of r']) (use old new r' nz p m in \<open>simp_all add: coarse_ravl_add_new_def halloc_def d_def Let_def\<close>)
qed

lemma add_new_fails:
  assumes "data \<noteq> 0" "sz \<noteq> 0" "block_tree r xs" "data \<notin> key ` set xs" "chosts h (ctick h) \<notin> dom (blocks h)"
    and "chosts h (ctick h) = NULL \<or> chosts h (Suc (ctick h)) = NULL"
  shows "\<exists>t. coarse_ravl_add_new r data sz h = Some (NULL, NULL, r, h\<lparr>ctick := t\<rparr>)"
proof -
  have "(blocks h)(chosts h (ctick h) := None) = blocks h" using assms(5) by auto
  then have "h\<lparr>ctick := n, blocks := (blocks h)(chosts h (ctick h) := None)\<rparr> = h\<lparr>ctick := n\<rparr>" for n by simp
  then show ?thesis using assms find_absent [of r xs]
    by (auto simp: coarse_ravl_add_new_def halloc_def Let_def ravl_emplace_copy_def ravl_emplace_def ravl_new_node_def)
qed

lemma rm_ok:
  assumes t: "block_tree r (ys @ (n, d) # zs)" and v: "rvalue d \<noteq> NULL"
  obtains r' zs' where "coarse_ravl_rm r (rkey d) = Some (rvalue d, r')" "block_tree r' (ys @ zs')"
    "map snd zs' = map snd zs" "dom (rnodes r') \<subseteq> dom (rnodes r)"
proof -
  obtain r' zs' where r': "ravl_remove r n = Some r'" "block_tree r' (ys @ zs')" "map snd zs' = map snd zs"
    "dom (rnodes r') \<subseteq> dom (rnodes r)" by (rule remove_holds [OF t])
  let ?d = "\<lparr>rkey = rkey d, rvalue = NULL\<rparr>"
  have n: "n \<noteq> NULL" using block_tree_nodes(2) [OF t, of "(n, d)"] by simp
  have f: "ravl_find r ?d RAVL_PREDICATE_EQUAL = Some n" using find_mid [OF t, of ?d] by simp
  have dat: "ravl_data r n = Some d" using data_holds [OF t] by simp
  have "rkey d \<notin> key ` set zs" "rkey d \<notin> key ` set ys"
    using block_tree_keys [OF t] by auto
  moreover have "key ` set zs' = key ` set zs" using r'(3) by (metis image_image list.set_map)
  ultimately have "ravl_find r' ?d RAVL_PREDICATE_EQUAL = Some NULL"
    using find_absent [OF r'(2), of ?d] by auto
  then show thesis using that [of r' zs'] r' n f dat v by (simp add: coarse_ravl_rm_def)
qed

lemma node_block_ok:
  "block_tree r xs \<Longrightarrow> (n, d) \<in> set xs \<Longrightarrow> rvalue d \<noteq> NULL \<Longrightarrow> get_node_block r n = Some (rvalue d)"
  by (simp add: get_node_block_def data_holds)

lemma find_node_ok:
  "block_tree r (ys @ (n, d) # zs) \<Longrightarrow> coarse_ravl_find_node r (rkey d) = Some n"
  "block_tree r xs \<Longrightarrow> a \<notin> key ` set xs \<Longrightarrow> coarse_ravl_find_node r a = Some NULL"
  using find_mid [of r ys n d zs "\<lparr>rkey = rkey d, rvalue = NULL\<rparr>"] find_absent [of r xs "\<lparr>rkey = a, rvalue = NULL\<rparr>"]
  by (simp_all add: coarse_ravl_find_node_def)

end
