(* ===== verification/Coarse_Lists.thy ===== *)
theory Coarse_Lists
  imports Coarse_Trees
begin

text \<open>
  The free blocks of the coarse provider: doubly linked lists of blocks of the same size, whose heads
  are in a tree sorted by size. \<open>free_holds r h S\<close> says that the structure holds exactly the set \<open>S\<close> of
  sizes, list elements and blocks; adding a block, removing a given one and taking one that is large
  enough are specified on that set.
\<close>

section \<open>Doubly linked lists\<close>

fun dseg :: "(ptr \<rightharpoonup> ravl_free_blocks_elem_t) \<Rightarrow> ptr \<Rightarrow> ptr \<Rightarrow> (ptr \<times> ptr) list \<Rightarrow> ptr \<Rightarrow> ptr \<Rightarrow> bool" where
  "dseg E pv p [] lv q \<longleftrightarrow> p = q \<and> pv = lv"
| "dseg E pv p ((e, b) # l) lv q \<longleftrightarrow> p = e \<and> e \<noteq> NULL \<and>
     (\<exists>n. E e = Some \<lparr>eblock = b, enext = n, eprev = pv\<rparr> \<and> dseg E e n l lv q)"

definition dlist :: "(ptr \<rightharpoonup> ravl_free_blocks_elem_t) \<Rightarrow> ptr \<Rightarrow> (ptr \<times> ptr) list \<Rightarrow> bool" where
  "dlist E p l \<longleftrightarrow> (\<exists>lv. dseg E NULL p l lv NULL) \<and> distinct (map fst l)"

lemma dseg_append: "dseg E pv p (l1 @ l2) lv q \<longleftrightarrow> (\<exists>v m. dseg E pv p l1 v m \<and> dseg E v m l2 lv q)"
  by (induction l1 arbitrary: pv p) (auto, blast+)

lemma dseg_frame: "dseg E pv p l lv q \<Longrightarrow> (\<And>e. e \<in> fst ` set l \<Longrightarrow> E' e = E e) \<Longrightarrow> dseg E' pv p l lv q"
  by (induction l arbitrary: pv p) auto

lemma dlist_frame: "dlist E p l \<Longrightarrow> (\<And>e. e \<in> fst ` set l \<Longrightarrow> E' e = E e) \<Longrightarrow> dlist E' p l"
  using dseg_frame by (metis dlist_def)

lemma dseg_last: "dseg E pv p l lv q \<Longrightarrow> lv = (if l = [] then pv else fst (last l))"
  by (induction l arbitrary: pv p) auto

lemma dseg_first: "dseg E pv p l lv q \<Longrightarrow> p = (if l = [] then q else fst (hd l))"
  by (cases l) auto

lemma dseg_dom: "dseg E pv p l lv q \<Longrightarrow> fst ` set l \<subseteq> dom E \<and> NULL \<notin> fst ` set l"
proof (induction l arbitrary: pv p)
  case (Cons x l)
  obtain e b where x: "x = (e, b)" by (cases x)
  with Cons.prems obtain n where "e \<noteq> NULL" "e \<in> dom E" "dseg E e n l lv q" by auto
  with Cons.IH [of e n] show ?case by (simp add: x)
qed simp

lemma dlist_dom: "dlist E p l \<Longrightarrow> fst ` set l \<subseteq> dom E" "dlist E p l \<Longrightarrow> NULL \<notin> fst ` set l"
  using dseg_dom by (metis dlist_def)+

lemma dlist_NULL: "dlist E p l \<Longrightarrow> p = NULL \<longleftrightarrow> l = []"
  by (cases l) (auto simp: dlist_def)

text \<open>Changing the back pointer of the first element, or the forward pointer of the last.\<close>

lemma dseg_set_prev:
  assumes "dseg E pv p ((e, b) # l) lv q" "distinct (map fst ((e, b) # l))" "E e = Some x"
  shows "dseg (E(e \<mapsto> x\<lparr>eprev := v\<rparr>)) v p ((e, b) # l) lv q"
proof -
  have "dseg (E(e \<mapsto> y)) e n l lv q" if "dseg E e n l lv q" for n y
    using that assms(2) by (intro dseg_frame [OF that]) auto
  with assms(1,3) show ?thesis by auto
qed

lemma dseg_set_next:
  assumes "dseg E pv p (l @ [(e, b)]) e m" "distinct (map fst (l @ [(e, b)]))" "E e = Some x"
  shows "dseg (E(e \<mapsto> x\<lparr>enext := n\<rparr>)) pv p (l @ [(e, b)]) e n"
proof -
  from assms(1) obtain v where v: "dseg E pv p l v e" "e \<noteq> NULL" "E e = Some \<lparr>eblock = b, enext = m, eprev = v\<rparr>"
    by (auto simp: dseg_append)
  have "dseg (E(e \<mapsto> x\<lparr>enext := n\<rparr>)) pv p l v e" using assms(2) by (intro dseg_frame [OF v(1)]) auto
  with v assms(3) show ?thesis unfolding dseg_append by auto
qed

section \<open>Operations on one list\<close>

text \<open>What stays of a heap when list elements are changed.\<close>

definition same_hosts :: "coarse_heap \<Rightarrow> coarse_heap \<Rightarrow> bool" where
  "same_hosts h h' \<longleftrightarrow> chosts h' = chosts h \<and> cjunk h' = cjunk h"

lemma node_list_add_ok:
  assumes hp: "fheads h hp = Some \<lparr>fhead = p\<rparr>" and l: "dlist (elems h) p l" and nn: "hp \<noteq> NULL" "b \<noteq> NULL"
    and e: "e = chosts h (ctick h)" "e \<noteq> NULL" "e \<notin> dom (elems h)"
  obtains E where "node_list_add hp b h = Some (e, h\<lparr>ctick := Suc (ctick h), elems := E, fheads := (fheads h)(hp \<mapsto> \<lparr>fhead = e\<rparr>)\<rparr>)"
    "dlist E e ((e, b) # l)" "\<And>a. a \<notin> insert e (fst ` set l) \<Longrightarrow> E a = elems h a" "dom E = insert e (dom (elems h))"
proof (cases l)
  case Nil
  then have "p = NULL" using l by (simp add: dlist_def)
  then show thesis
    using that [of "(elems h)(e \<mapsto> \<lparr>eblock = b, enext = NULL, eprev = NULL\<rparr>)"] Nil hp nn e
    by (auto simp: node_list_add_def halloc_def dlist_def)
next
  case (Cons x l')
  then obtain f c where x: "l = (f, c) # l'" by (cases x) auto
  with l obtain n lv where f: "p = f" "f \<noteq> NULL" "elems h f = Some \<lparr>eblock = c, enext = n, eprev = NULL\<rparr>" "dseg (elems h) f n l' lv NULL"
    and dist: "distinct (map fst l)" by (auto simp: dlist_def)
  have el: "e \<notin> fst ` set l" using dlist_dom(1) [OF l] e(3) by blast
  define E where "E = (elems h)(f \<mapsto> \<lparr>eblock = c, enext = n, eprev = e\<rparr>, e \<mapsto> \<lparr>eblock = b, enext = f, eprev = NULL\<rparr>)"
  have "e \<noteq> f" using el x by auto
  moreover have "dseg E f n l' lv NULL" by (rule dseg_frame [OF f(4)]) (use el dist x in \<open>auto simp: E_def\<close>)
  ultimately have "dseg E NULL e ((e, b) # l) lv NULL" using f e by (simp add: x E_def)
  then have D: "dlist E e ((e, b) # l)" using el dist unfolding dlist_def by (intro conjI exI [of _ lv]) simp_all
  show thesis
  proof (rule that [OF _ D])
    show "node_list_add hp b h = Some (e, h\<lparr>ctick := Suc (ctick h), elems := E, fheads := (fheads h)(hp \<mapsto> \<lparr>fhead = e\<rparr>)\<rparr>)"
      using hp nn e f by (simp add: node_list_add_def halloc_def upd_elem_def E_def)
  qed (use x f in \<open>auto simp: E_def\<close>)
qed

lemma node_list_rm_ok:
  assumes hp: "fheads h hp = Some \<lparr>fhead = p\<rparr>" and l: "dlist (elems h) p (l1 @ (e, b) # l2)" and nn: "hp \<noteq> NULL"
    and b: "blocks h b = Some x"
  obtains E p' where "node_list_rm hp e h = Some (b, h\<lparr>elems := E, fheads := (fheads h)(hp \<mapsto> \<lparr>fhead = p'\<rparr>),
      blocks := (blocks h)(b \<mapsto> x\<lparr>free_list_ptr := NULL\<rparr>)\<rparr>)"
    "dlist E p' (l1 @ l2)" "\<And>a. a \<notin> fst ` set (l1 @ (e, b) # l2) \<Longrightarrow> E a = elems h a" "dom E = dom (elems h) - {e}"
proof -
  let ?E = "elems h"
  from l obtain lv v n where d1: "dseg ?E NULL p l1 v e" and e: "e \<noteq> NULL" "?E e = Some \<lparr>eblock = b, enext = n, eprev = v\<rparr>"
    and d2: "dseg ?E e n l2 lv NULL" and dist: "distinct (map fst (l1 @ (e, b) # l2))" by (auto simp: dlist_def dseg_append)
  have v: "v = (if l1 = [] then NULL else fst (last l1))" using dseg_last [OF d1] by auto
  have n: "n = (if l2 = [] then NULL else fst (hd l2))" using dseg_first [OF d2] by auto
  have in1: "fst ` set l1 \<subseteq> dom ?E" "NULL \<notin> fst ` set l1" and in2: "fst ` set l2 \<subseteq> dom ?E" "NULL \<notin> fst ` set l2"
    using dseg_dom [OF d1] dseg_dom [OF d2] by auto
  have off: "e \<notin> fst ` set l1" "e \<notin> fst ` set l2" "fst ` set l1 \<inter> fst ` set l2 = {}" using dist by auto
  define E1 where "E1 = (if n = NULL then ?E else ?E(n \<mapsto> (the (?E n))\<lparr>eprev := v\<rparr>))"
  define E2 where "E2 = (if v = NULL then E1 else E1(v \<mapsto> (the (E1 v))\<lparr>enext := n\<rparr>))"
  have v1: "v = NULL \<or> v \<in> fst ` set l1" and n2: "n = NULL \<or> n \<in> fst ` set l2" using v n by (auto split: if_splits)
  have A: "\<exists>lv. dseg E1 v n l2 lv NULL"
  proof (cases l2)
    case (Cons y ys)
    then obtain f c where y: "l2 = (f, c) # ys" by (cases y) auto
    then have "n = f" using n by auto
    then have nn: "n = f" "n \<noteq> NULL" "n \<in> dom ?E" using y in2 by auto
    then obtain z where "?E f = Some z" by auto
    then show ?thesis using dseg_set_prev [of ?E e n f c ys lv NULL z v] d2 dist nn unfolding y E1_def
      by (intro exI [of _ lv]) (simp del: dseg.simps)
  qed (use d2 in \<open>auto simp: E1_def\<close>)
  have d1': "dseg E1 NULL p l1 v e" using n2 off in1 by (intro dseg_frame [OF d1]) (auto simp: E1_def)
  have B: "dseg E2 NULL (if l1 = [] then n else p) l1 v n"
  proof (cases l1 rule: rev_cases)
    case (snoc ys y)
    then obtain f c where y: "l1 = ys @ [(f, c)]" by (cases y) auto
    then have f: "v = f" "v \<noteq> NULL" using v in1 by auto
    then obtain z where "E1 f = Some z" using dseg_dom [OF d1'] y by force
    then show ?thesis using dseg_set_next [of E1 NULL p ys f c e _ n] d1' dist f unfolding y E2_def by auto
  qed (use d1' v in \<open>auto simp: E2_def\<close>)
  define E where "E = E2(e := None)"
  have F: "E a = ?E a" if "a \<notin> fst ` set (l1 @ (e, b) # l2)" for a using that v1 n2 by (auto simp: E_def E2_def E1_def)
  have "dseg E NULL (if l1 = [] then n else p) l1 v n" by (rule dseg_frame [OF B]) (use off in \<open>auto simp: E_def\<close>)
  moreover from A obtain lv' where "dseg E1 v n l2 lv' NULL" by blast
  then have "dseg E v n l2 lv' NULL"
  proof (rule dseg_frame)
    fix a assume "a \<in> fst ` set l2"
    then show "E a = E1 a" using v1 off in2 by (auto simp: E_def E2_def)
  qed
  ultimately have "dseg E NULL (if l1 = [] then n else p) (l1 @ l2) lv' NULL" unfolding dseg_append by blast
  then have D: "dlist E (if l1 = [] then n else p) (l1 @ l2)" using dist unfolding dlist_def by (intro conjI exI) auto
  have "dom E1 = dom ?E" using n2 in2(1) by (auto simp: E1_def)
  then have "dom E2 = dom ?E" using v1 in1(1) by (auto simp: E2_def)
  then have dm: "dom E = dom ?E - {e}" by (simp add: E_def)
  have p: "p = (if l1 = [] then e else fst (hd l1))" using dseg_first [OF d1] by simp
  then have pe: "p = e \<longleftrightarrow> l1 = []" "p \<noteq> NULL" using off e in1 by (auto split: if_splits)
  have vn: "n \<noteq> v \<or> n = NULL" "n \<noteq> e" "v \<noteq> e" using v1 n2 off in1 in2 e by auto
  have s2: "n \<noteq> NULL \<Longrightarrow> n \<in> dom ?E" "v \<noteq> NULL \<Longrightarrow> v \<in> dom ?E" using v1 n2 in1 in2 by blast+
  show thesis
  proof (rule that [OF _ D F dm])
    show "node_list_rm hp e h = Some (b, h\<lparr>elems := E, fheads := (fheads h)(hp \<mapsto> \<lparr>fhead = if l1 = [] then n else p\<rparr>),
      blocks := (blocks h)(b \<mapsto> x\<lparr>free_list_ptr := NULL\<rparr>)\<rparr>)"
    proof -
      obtain zn zv where z: "n \<noteq> NULL \<Longrightarrow> ?E n = Some zn" "v \<noteq> NULL \<Longrightarrow> ?E v = Some zv" using s2 by (meson domD)
      have l1: "l1 = [] \<longleftrightarrow> v = NULL" using v1 in1 v by auto
      consider "n = NULL" "v = NULL" | "n \<noteq> NULL" "v = NULL" | "n = NULL" "v \<noteq> NULL" | "n \<noteq> NULL" "v \<noteq> NULL" by blast
      then show ?thesis
      proof cases
        case 1
        then show ?thesis using hp nn e b pe l1 by (simp add: E_def E2_def E1_def node_list_rm_def upd_block_def)
      next
        case 2
        then show ?thesis using hp nn e b pe l1 z by (simp add: E_def E2_def E1_def node_list_rm_def upd_elem_def upd_block_def)
      next
        case 3
        then show ?thesis using hp nn e b pe l1 z by (simp add: E_def E2_def E1_def node_list_rm_def upd_elem_def upd_block_def fun_upd_idem)
      next
        case 4
        then show ?thesis using hp nn e b pe l1 z vn by (simp add: E_def E2_def E1_def node_list_rm_def upd_elem_def upd_block_def fun_upd_idem)
      qed
    qed
  qed
qed

text \<open>Removing the first element is removing it by its address, when its size passes the check.\<close>

lemma rm_first_eq:
  assumes "fheads h hp = Some \<lparr>fhead = e\<rparr>" "dlist (elems h) e ((e, b) # l)" "hp \<noteq> NULL" "blocks h b = Some x"
  shows "node_list_rm_first hp al h = (if IS_NOT_ALIGNED (bsize x) al then Some (NULL, h) else node_list_rm hp e h)"
  using assms by (auto simp: node_list_rm_first_def node_list_rm_def dlist_def upd_elem_def upd_block_def)

text \<open>All blocks of a list have the same size, so that the search for an aligned size stops at the first
  element or not at all.\<close>

lemma find_aligned_none:
  assumes "dseg (elems h) pv p l lv NULL" "\<forall>y \<in> set l. \<exists>x. blocks h (snd y) = Some x \<and> \<not> IS_ALIGNED (bsize x) al"
  shows "find_aligned h al p = Some NULL"
  using assms
proof (induction l arbitrary: pv p)
  case Nil
  then show ?case by (subst find_aligned.simps) simp
next
  case (Cons y l)
  obtain e b where y: "y = (e, b)" by (cases y)
  with Cons.prems obtain n where "p = e" "e \<noteq> NULL" "elems h e = Some \<lparr>eblock = b, enext = n, eprev = pv\<rparr>"
    "dseg (elems h) e n l lv NULL" by auto
  with Cons y show ?case by (subst find_aligned.simps) auto
qed

lemma rm_with_alignment_eq:
  assumes hp: "fheads h hp = Some \<lparr>fhead = e\<rparr>" and l: "dlist (elems h) e ((e, b) # l)" and nn: "hp \<noteq> NULL" and b: "blocks h b = Some x"
    and sz: "\<forall>y \<in> set l. \<exists>z. blocks h (snd y) = Some z \<and> bsize z = bsize x"
  shows "node_list_rm_with_alignment hp al h = (if IS_NOT_ALIGNED (bsize x) al then Some (NULL, h) else node_list_rm hp e h)"
proof -
  from l obtain lv n where d: "dseg (elems h) NULL e ((e, b) # l) lv NULL" and
    e: "e \<noteq> NULL" "elems h e = Some \<lparr>eblock = b, enext = n, eprev = NULL\<rparr>" by (auto simp: dlist_def)
  show ?thesis
  proof (cases "IS_ALIGNED (bsize x) al")
    case True
    then have "find_aligned h al e = Some e" using e b by (subst find_aligned.simps) simp
    then show ?thesis using hp e nn True by (simp add: node_list_rm_with_alignment_def IS_NOT_ALIGNED_eq)
  next
    case False
    then have "find_aligned h al e = Some NULL" using find_aligned_none [OF d, of al] b sz by (metis set_ConsD snd_conv)
    then show ?thesis using hp e nn False by (simp add: node_list_rm_with_alignment_def IS_NOT_ALIGNED_eq)
  qed
qed

section \<open>The tree of lists\<close>

text \<open>A size, the head of its list, and the elements of the list with their blocks.\<close>

type_synonym free_entry = "u64 \<times> ptr \<times> (ptr \<times> ptr) list"

definition entry_data :: "free_entry \<Rightarrow> ravl_data_t" where
  "entry_data f = \<lparr>rkey = fst f, rvalue = fst (snd f)\<rparr>"

definition entry_ok :: "coarse_heap \<Rightarrow> free_entry \<Rightarrow> bool" where
  "entry_ok h f \<longleftrightarrow> (case f of (k, hp, l) \<Rightarrow> hp \<noteq> NULL \<and> l \<noteq> [] \<and> (\<exists>p. fheads h hp = Some \<lparr>fhead = p\<rparr> \<and> dlist (elems h) p l))"

abbreviation entry_elems :: "free_entry \<Rightarrow> ptr set" where "entry_elems f \<equiv> fst ` set (snd (snd f))"

definition free_ok :: "ravl_data_t ravl \<Rightarrow> coarse_heap \<Rightarrow> free_entry list \<Rightarrow> bool" where
  "free_ok r h fl \<longleftrightarrow> (\<exists>fs. block_tree r fs \<and> map snd fs = map entry_data fl) \<and> (\<forall>f \<in> set fl. entry_ok h f) \<and>
     sorted_wrt (\<lambda>f g. fst (snd f) \<noteq> fst (snd g) \<and> entry_elems f \<inter> entry_elems g = {}) fl"

definition triples :: "free_entry list \<Rightarrow> (u64 \<times> ptr \<times> ptr) set" where
  "triples fl = {(k, e, b). \<exists>hp l. (k, hp, l) \<in> set fl \<and> (e, b) \<in> set l}"

definition free_holds :: "ravl_data_t ravl \<Rightarrow> coarse_heap \<Rightarrow> (u64 \<times> ptr \<times> ptr) set \<Rightarrow> bool" where
  "free_holds r h S \<longleftrightarrow> (\<exists>fl. free_ok r h fl \<and> S = triples fl)"

lemma triples_simps [simp]:
  "triples [] = {}" "triples (f1 @ f2) = triples f1 \<union> triples f2"
  "triples ((k, hp, l) # fl) = {k} \<times> set l \<union> triples fl"
  by (auto simp: triples_def)

lemma entry_ok_frame:
  "entry_ok h f \<Longrightarrow> fheads h' (fst (snd f)) = fheads h (fst (snd f)) \<Longrightarrow> (\<And>e. e \<in> entry_elems f \<Longrightarrow> elems h' e = elems h e) \<Longrightarrow> entry_ok h' f"
  by (cases f) (auto simp: entry_ok_def intro: dlist_frame)

lemma entry_ok_elems: "entry_ok h f \<Longrightarrow> entry_elems f \<subseteq> dom (elems h)"
  using dlist_dom(1) [of "elems h" _ "snd (snd f)"] by (auto simp: entry_ok_def split: prod.splits)

text \<open>An entry of the tree of lists, and the change of its list.\<close>

lemma free_ok_at:
  assumes "free_ok r h (f1 @ (k, hp, l) # f2)"
  obtains fs1 n fs2 p where "block_tree r (fs1 @ (n, \<lparr>rkey = k, rvalue = hp\<rparr>) # fs2)" "map snd fs1 = map entry_data f1"
    "map snd fs2 = map entry_data f2" "hp \<noteq> NULL" "l \<noteq> []" "fheads h hp = Some \<lparr>fhead = p\<rparr>" "dlist (elems h) p l"
proof -
  from assms obtain fs where fs: "block_tree r fs" "map snd fs = map entry_data f1 @ \<lparr>rkey = k, rvalue = hp\<rparr> # map entry_data f2"
    and e: "entry_ok h (k, hp, l)" by (auto simp: free_ok_def entry_data_def)
  from fs(2) obtain fs1 x fs2 where x: "fs = fs1 @ x # fs2" "map snd fs1 = map entry_data f1" "snd x = \<lparr>rkey = k, rvalue = hp\<rparr>"
    "map snd fs2 = map entry_data f2" by (auto simp: map_eq_append_conv map_eq_Cons_conv)
  with that fs(1) e show thesis by (cases x) (auto simp: entry_ok_def)
qed

lemma free_ok_others:
  assumes "free_ok r h (f1 @ (k, hp, l) # f2)" "f \<in> set (f1 @ f2)"
  shows "entry_ok h f" "fst (snd f) \<noteq> hp" "entry_elems f \<inter> fst ` set l = {}"
proof -
  have "fst (snd f) \<noteq> hp \<and> entry_elems f \<inter> fst ` set l = {}"
  proof (cases "f \<in> set f1")
    case False
    with assms have "hp \<noteq> fst (snd f) \<and> fst ` set l \<inter> entry_elems f = {}" by (simp add: free_ok_def sorted_wrt_append)
    then show ?thesis by blast
  qed (use assms(1) in \<open>simp add: free_ok_def sorted_wrt_append\<close>)
  then show "fst (snd f) \<noteq> hp" "entry_elems f \<inter> fst ` set l = {}" by auto
  show "entry_ok h f" using assms by (auto simp: free_ok_def)
qed

lemma free_ok_change:
  assumes ok: "free_ok r h (f1 @ (k, hp, l) # f2)"
    and hp: "fheads h' = (fheads h)(hp \<mapsto> \<lparr>fhead = p'\<rparr>)" and l': "dlist (elems h') p' l'" "l' \<noteq> []"
    and fr: "\<And>a. a \<notin> fst ` set l \<union> X \<Longrightarrow> elems h' a = elems h a" and X: "X \<inter> dom (elems h) = {}"
    and sub: "fst ` set l' \<subseteq> fst ` set l \<union> X"
  shows "free_ok r h' (f1 @ (k, hp, l') # f2)"
proof -
  note ok' = ok [unfolded free_ok_def]
  have oth: "entry_ok h' f \<and> entry_elems f \<inter> fst ` set l' = {}" if f: "f \<in> set (f1 @ f2)" for f
  proof -
    note eo = free_ok_others(1) [OF ok f] and ne = free_ok_others(2) [OF ok f] and di = free_ok_others(3) [OF ok f]
    have "entry_elems f \<inter> X = {}" using entry_ok_elems [OF eo] X by blast
    moreover from this have "entry_ok h' f" using hp ne di fr by (intro entry_ok_frame [OF eo]) (simp, blast)
    ultimately show ?thesis using di sub by blast
  qed
  have "entry_ok h' (k, hp, l')" using l' hp ok' by (auto simp: entry_ok_def)
  moreover have "\<exists>fs. block_tree r fs \<and> map snd fs = map entry_data (f1 @ (k, hp, l') # f2)"
    using ok' by (auto simp: entry_data_def)
  moreover have "\<forall>f \<in> set f1. entry_elems f \<inter> fst ` set l' = {}" "\<forall>f \<in> set f2. fst ` set l' \<inter> entry_elems f = {}"
    using oth unfolding set_append by blast+
  ultimately show ?thesis using ok' oth unfolding free_ok_def sorted_wrt_append by simp
qed

lemma free_ok_drop:
  assumes ok: "free_ok r h (f1 @ (k, hp, l) # f2)"
    and hp: "\<And>a. a \<noteq> hp \<Longrightarrow> fheads h' a = fheads h a" and fr: "\<And>a. a \<notin> fst ` set l \<Longrightarrow> elems h' a = elems h a"
    and t: "block_tree r' fs" "map snd fs = map entry_data (f1 @ f2)"
  shows "free_ok r' h' (f1 @ f2)"
proof -
  note ok' = ok [unfolded free_ok_def]
  have "entry_ok h' f" if f: "f \<in> set (f1 @ f2)" for f
  proof -
    note o = free_ok_others [OF ok f]
    show ?thesis by (rule entry_ok_frame [OF o(1)]) (use o hp fr in blast)+
  qed
  then show ?thesis using ok' t unfolding free_ok_def sorted_wrt_append by auto
qed

lemma entry_keys:
  assumes "map snd fs = map entry_data fl"
  shows "map key fs = map fst fl"
proof -
  have "map key fs = map rkey (map snd fs)" by simp
  then show ?thesis by (simp only: assms) (simp add: entry_data_def)
qed

lemma free_ok_sorted:
  assumes "free_ok r h fl"
  shows "sorted_wrt (\<lambda>f g. fst f < fst g) fl"
proof -
  from assms obtain fs where fs: "block_tree r fs" "map snd fs = map entry_data fl" by (auto simp: free_ok_def)
  have "sorted_wrt (<) (map key fs)" using block_tree_sorted [OF fs(1)] by (simp add: sorted_wrt_map)
  then show ?thesis unfolding entry_keys [OF fs(2)] sorted_wrt_map .
qed

lemma free_ok_find:
  assumes ok: "free_ok r h (f1 @ (k, hp, l) # f2)"
  obtains n p where "n \<noteq> NULL" "ravl_data r n = Some \<lparr>rkey = k, rvalue = hp\<rparr>" "hp \<noteq> NULL" "l \<noteq> []"
    "fheads h hp = Some \<lparr>fhead = p\<rparr>" "dlist (elems h) p l"
    "ravl_find r \<lparr>rkey = k, rvalue = NULL\<rparr> RAVL_PREDICATE_EQUAL = Some n"
    "\<And>sz. sz \<le> k \<Longrightarrow> \<forall>f \<in> set f1. fst f < sz \<Longrightarrow> ravl_find r \<lparr>rkey = sz, rvalue = NULL\<rparr> RAVL_PREDICATE_GREATER_EQUAL = Some n"
    "\<exists>r' fs. ravl_remove r n = Some r' \<and> block_tree r' fs \<and> map snd fs = map entry_data (f1 @ f2) \<and> dom (rnodes r') \<subseteq> dom (rnodes r)"
proof -
  obtain fs1 n fs2 p where t: "block_tree r (fs1 @ (n, \<lparr>rkey = k, rvalue = hp\<rparr>) # fs2)" and m: "map snd fs1 = map entry_data f1"
    "map snd fs2 = map entry_data f2" and rest: "hp \<noteq> NULL" "l \<noteq> []" "fheads h hp = Some \<lparr>fhead = p\<rparr>" "dlist (elems h) p l"
    by (rule free_ok_at [OF ok])
  have n: "n \<noteq> NULL" "ravl_data r n = Some \<lparr>rkey = k, rvalue = hp\<rparr>"
    using block_tree_nodes(2) [OF t, of "(n, \<lparr>rkey = k, rvalue = hp\<rparr>)"] data_holds [OF t] by auto
  have eq: "ravl_find r \<lparr>rkey = k, rvalue = NULL\<rparr> RAVL_PREDICATE_EQUAL = Some n" using find_mid [OF t] by simp
  have ge: "ravl_find r \<lparr>rkey = sz, rvalue = NULL\<rparr> RAVL_PREDICATE_GREATER_EQUAL = Some n" if "sz \<le> k" "\<forall>f \<in> set f1. fst f < sz" for sz
  proof (cases "sz = k")
    case True
    then show ?thesis using find_mid [OF t, of "\<lparr>rkey = sz, rvalue = NULL\<rparr>"] by simp
  next
    case False
    with that have lt: "sz < k" by simp
    have "\<forall>x \<in> set (map key fs1). x < sz" unfolding entry_keys [OF m(1)] using that(2) by simp
    then have "\<forall>x \<in> set fs1. key x < sz" by simp
    moreover have "\<forall>x \<in> set ((n, \<lparr>rkey = k, rvalue = hp\<rparr>) # fs2). sz < key x"
      using block_tree_sorted [OF t] lt by (fastforce simp: sorted_wrt_append)
    ultimately show ?thesis using find_split [OF t, of "\<lparr>rkey = sz, rvalue = NULL\<rparr>" RAVL_PREDICATE_GREATER_EQUAL] by (simp add: in_hand_def)
  qed
  obtain r' zs' where "ravl_remove r n = Some r'" "block_tree r' (fs1 @ zs')" "map snd zs' = map snd fs2" "dom (rnodes r') \<subseteq> dom (rnodes r)"
    by (rule remove_holds [OF t])
  then have "\<exists>r' fs. ravl_remove r n = Some r' \<and> block_tree r' fs \<and> map snd fs = map entry_data (f1 @ f2) \<and> dom (rnodes r') \<subseteq> dom (rnodes r)"
    using m by (intro exI [of _ r'] exI [of _ "fs1 @ zs'"]) simp
  with that n rest eq ge show thesis by blast
qed

text \<open>Removing one block from its list, and the list when it becomes empty.\<close>

lemma free_rm_ok:
  assumes ok: "free_ok r h (f1 @ (k, hp, l1 @ (e, b) # l2) # f2)" and b: "blocks h b = Some x"
    and n: "\<exists>r' fs. ravl_remove r n = Some r' \<and> block_tree r' fs \<and> map snd fs = map entry_data (f1 @ f2) \<and> dom (rnodes r') \<subseteq> dom (rnodes r)"
  obtains r' h' h'' fl where "node_list_rm hp e h = Some (b, h')" "drop_empty_head r n hp h' = Some (r', h'')" "free_ok r' h'' fl"
    "triples fl = triples (f1 @ (k, hp, l1 @ l2) # f2)" "blocks h'' = (blocks h)(b \<mapsto> x\<lparr>free_list_ptr := NULL\<rparr>)"
    "same_hosts h h''" "ctick h'' = ctick h" "dom (elems h'') \<subseteq> dom (elems h)" "dom (fheads h'') \<subseteq> dom (fheads h)" "dom (rnodes r') \<subseteq> dom (rnodes r)"
proof -
  obtain p where p: "hp \<noteq> NULL" "fheads h hp = Some \<lparr>fhead = p\<rparr>" "dlist (elems h) p (l1 @ (e, b) # l2)" by (rule free_ok_at [OF ok])
  obtain E p' where E: "node_list_rm hp e h = Some (b, h\<lparr>elems := E, fheads := (fheads h)(hp \<mapsto> \<lparr>fhead = p'\<rparr>),
      blocks := (blocks h)(b \<mapsto> x\<lparr>free_list_ptr := NULL\<rparr>)\<rparr>)"
    "dlist E p' (l1 @ l2)" "\<And>a. a \<notin> fst ` set (l1 @ (e, b) # l2) \<Longrightarrow> E a = elems h a" "dom E = dom (elems h) - {e}"
    by (rule node_list_rm_ok [OF p(2,3,1) b]) blast
  define h' where "h' = h\<lparr>elems := E, fheads := (fheads h)(hp \<mapsto> \<lparr>fhead = p'\<rparr>), blocks := (blocks h)(b \<mapsto> x\<lparr>free_list_ptr := NULL\<rparr>)\<rparr>"
  have h': "fheads h' = (fheads h)(hp \<mapsto> \<lparr>fhead = p'\<rparr>)" "elems h' = E" "blocks h' = (blocks h)(b \<mapsto> x\<lparr>free_list_ptr := NULL\<rparr>)" "same_hosts h h'" "ctick h' = ctick h"
    by (simp_all add: h'_def same_hosts_def)
  show thesis
  proof (cases "l1 @ l2 = []")
    case True
    then have "p' = NULL" using dlist_NULL [OF E(2)] by simp
    from n obtain r' fs where r': "ravl_remove r n = Some r'" "block_tree r' fs" "map snd fs = map entry_data (f1 @ f2)" "dom (rnodes r') \<subseteq> dom (rnodes r)" by blast
    define h'' where "h'' = h'\<lparr>fheads := (fheads h')(hp := None)\<rparr>"
    have "drop_empty_head r n hp h' = Some (r', h'')" using r' h' \<open>p' = NULL\<close> by (simp add: drop_empty_head_def h''_def)
    moreover have "free_ok r' h'' (f1 @ f2)"
      by (rule free_ok_drop [OF ok _ _ r'(2,3)]) (use h' E(3) in \<open>auto simp: h''_def\<close>)
    moreover have "triples (f1 @ f2) = triples (f1 @ (k, hp, l1 @ l2) # f2)" using True by simp
    ultimately show thesis
      using that [of h' r' h'' "f1 @ f2"] E(1,4) h' r'(4) unfolding h'_def [symmetric] by (auto simp: h''_def same_hosts_def)
  next
    case False
    then have "p' \<noteq> NULL" using dlist_NULL [OF E(2)] by simp
    then have "drop_empty_head r n hp h' = Some (r, h')" using h' by (simp add: drop_empty_head_def)
    moreover have "free_ok r h' (f1 @ (k, hp, l1 @ l2) # f2)"
      by (rule free_ok_change [OF ok, of h' p' "l1 @ l2" "{}"]) (use h' E False in auto)
    ultimately show thesis
      using that [of h' r h' "f1 @ (k, hp, l1 @ l2) # f2"] E(1,4) h' p(2) unfolding h'_def [symmetric] by auto
  qed
qed

lemma triples_minus:
  assumes ok: "free_ok r h (f1 @ (k, hp, l1 @ (e, b) # l2) # f2)"
  shows "triples (f1 @ (k, hp, l1 @ l2) # f2) = triples (f1 @ (k, hp, l1 @ (e, b) # l2) # f2) - {(k, e, b)}"
    "\<exists>n pv. elems h e = Some \<lparr>eblock = b, enext = n, eprev = pv\<rparr>" "e \<noteq> NULL"
proof -
  obtain p where "dlist (elems h) p (l1 @ (e, b) # l2)" by (rule free_ok_at [OF ok])
  then have d: "e \<notin> fst ` set l1" "e \<notin> fst ` set l2" "\<exists>n pv. elems h e = Some \<lparr>eblock = b, enext = n, eprev = pv\<rparr>" "e \<noteq> NULL"
    by (auto simp: dlist_def dseg_append)
  have "(k, e, b) \<notin> triples (f1 @ f2)"
  proof
    assume "(k, e, b) \<in> triples (f1 @ f2)"
    then obtain hp' l' where f: "(k, hp', l') \<in> set (f1 @ f2)" "(e, b) \<in> set l'" by (auto simp: triples_def)
    then have "e \<in> entry_elems (k, hp', l')" by force
    then show False using free_ok_others(3) [OF ok f(1)] by auto
  qed
  then show "triples (f1 @ (k, hp, l1 @ l2) # f2) = triples (f1 @ (k, hp, l1 @ (e, b) # l2) # f2) - {(k, e, b)}"
    using d(1,2) by force
  show "\<exists>n pv. elems h e = Some \<lparr>eblock = b, enext = n, eprev = pv\<rparr>" "e \<noteq> NULL" using d by auto
qed

text \<open>What the removal of a block from the lists changes.\<close>

definition free_removed ::
  "ravl_data_t ravl \<Rightarrow> coarse_heap \<Rightarrow> (u64 \<times> ptr \<times> ptr) set \<Rightarrow> u64 \<times> ptr \<times> ptr \<Rightarrow> ravl_data_t ravl \<Rightarrow> coarse_heap \<Rightarrow> bool" where
  "free_removed r h S t r' h' \<longleftrightarrow> free_holds r' h' (S - {t}) \<and>
     blocks h' = (blocks h)(snd (snd t) \<mapsto> (the (blocks h (snd (snd t))))\<lparr>free_list_ptr := NULL\<rparr>) \<and>
     same_hosts h h' \<and> ctick h' = ctick h \<and> dom (elems h') \<subseteq> dom (elems h) \<and> dom (fheads h') \<subseteq> dom (fheads h) \<and>
     dom (rnodes r') \<subseteq> dom (rnodes r)"

lemma free_rm_at:
  assumes ok: "free_ok r h (f1 @ (k, hp, l1 @ (e, b) # l2) # f2)" and b: "blocks h b = Some x"
    and n: "\<exists>r' fs. ravl_remove r n = Some r' \<and> block_tree r' fs \<and> map snd fs = map entry_data (f1 @ f2) \<and> dom (rnodes r') \<subseteq> dom (rnodes r)"
  obtains r' h' h'' where "node_list_rm hp e h = Some (b, h')" "drop_empty_head r n hp h' = Some (r', h'')"
    "free_removed r h (triples (f1 @ (k, hp, l1 @ (e, b) # l2) # f2)) (k, e, b) r' h''"
proof -
  obtain r' h' h'' fl' where R: "node_list_rm hp e h = Some (b, h')" "drop_empty_head r n hp h' = Some (r', h'')" "free_ok r' h'' fl'"
    "triples fl' = triples (f1 @ (k, hp, l1 @ l2) # f2)" "blocks h'' = (blocks h)(b \<mapsto> x\<lparr>free_list_ptr := NULL\<rparr>)"
    "same_hosts h h''" "ctick h'' = ctick h" "dom (elems h'') \<subseteq> dom (elems h)" "dom (fheads h'') \<subseteq> dom (fheads h)" "dom (rnodes r') \<subseteq> dom (rnodes r)"
    by (rule free_rm_ok [OF ok b n])
  then have "free_removed r h (triples (f1 @ (k, hp, l1 @ (e, b) # l2) # f2)) (k, e, b) r' h''"
    using triples_minus(1) [OF ok] b unfolding free_removed_def free_holds_def by (metis option.sel snd_conv)
  with R that show thesis by blast
qed

lemma free_rm_node_ok:
  assumes h: "free_holds r h S" and t: "(k, e, b) \<in> S" and b: "blocks h b = Some x" "bsize x = k"
  obtains r' h' where "free_blocks_rm_node r e h = Some (b, r', h')" "free_removed r h S (k, e, b) r' h'" "e \<noteq> NULL"
proof -
  from h obtain fl where fl: "free_ok r h fl" "S = triples fl" by (auto simp: free_holds_def)
  from t obtain hp l where "(k, hp, l) \<in> set fl" "(e, b) \<in> set l" by (auto simp: fl(2) triples_def)
  then obtain f1 f2 l1 l2 where f: "fl = f1 @ (k, hp, l1 @ (e, b) # l2) # f2" by (metis split_list)
  note ok = fl(1) [unfolded f]
  obtain m p where m: "m \<noteq> NULL" "ravl_data r m = Some \<lparr>rkey = k, rvalue = hp\<rparr>" "hp \<noteq> NULL"
    "ravl_find r \<lparr>rkey = k, rvalue = NULL\<rparr> RAVL_PREDICATE_EQUAL = Some m"
    "\<exists>r' fs. ravl_remove r m = Some r' \<and> block_tree r' fs \<and> map snd fs = map entry_data (f1 @ f2) \<and> dom (rnodes r') \<subseteq> dom (rnodes r)"
    by (rule free_ok_find [OF ok]) blast
  obtain r' h' h'' where R: "node_list_rm hp e h = Some (b, h')" "drop_empty_head r m hp h' = Some (r', h'')"
    "free_removed r h S (k, e, b) r' h''" by (rule free_rm_at [OF ok b(1) m(5)]) (simp add: fl(2) f)
  have "free_blocks_rm_node r e h = Some (b, r', h'')" using m R triples_minus(2,3) [OF ok] b by (auto simp: free_blocks_rm_node_def)
  then show thesis using that R(3) triples_minus(3) [OF ok] by blast
qed

text \<open>Taking the first block of the smallest size that is large enough. The check of the alignment is on
  that size.\<close>

lemma free_rm_ge_ok:
  assumes h: "free_holds r h S" and S: "\<And>k e b. (k, e, b) \<in> S \<Longrightarrow> \<exists>x. blocks h b = Some x \<and> bsize x = k"
  obtains (none) "\<forall>t \<in> S. fst t < sz" "\<forall>c. free_blocks_rm_ge r sz al c h = Some (NULL, r, h)"
  | (skip) k e b where "(k, e, b) \<in> S" "sz \<le> k" "\<not> IS_ALIGNED k al" "\<forall>c. free_blocks_rm_ge r sz al c h = Some (NULL, r, h)"
  | (take) k e b r' h' where "(k, e, b) \<in> S" "sz \<le> k" "\<forall>t \<in> S. sz \<le> fst t \<longrightarrow> k \<le> fst t" "IS_ALIGNED k al"
      "\<forall>c. free_blocks_rm_ge r sz al c h = Some (b, r', h')" "free_removed r h S (k, e, b) r' h'"
proof -
  from h obtain fl where fl: "free_ok r h fl" "S = triples fl" by (auto simp: free_holds_def)
  then obtain fs where fs: "block_tree r fs" "map snd fs = map entry_data fl" by (auto simp: free_ok_def)
  note so = free_ok_sorted [OF fl(1)]
  show thesis
  proof (cases "\<forall>f \<in> set fl. fst f < sz")
    case True
    have "\<forall>x \<in> set (map key fs). x < sz" unfolding entry_keys [OF fs(2)] using True by simp
    then have "ravl_find r \<lparr>rkey = sz, rvalue = NULL\<rparr> RAVL_PREDICATE_GREATER_EQUAL = Some NULL"
      using find_split [of r fs "[]" "\<lparr>rkey = sz, rvalue = NULL\<rparr>" RAVL_PREDICATE_GREATER_EQUAL] fs(1) by (simp add: in_hand_def)
    moreover have "\<forall>t \<in> S. fst t < sz" using True fl(2) by (auto simp: triples_def)
    ultimately show thesis using none by (simp add: free_blocks_rm_ge_def)
  next
    case False
    then obtain f1 g f2 where g: "fl = f1 @ g # f2" "\<forall>f \<in> set f1. fst f < sz" "\<not> fst g < sz"
      using split_list_first_prop [of fl "\<lambda>f. \<not> fst f < sz"] by auto
    obtain k hp l where gk: "g = (k, hp, l)" by (cases g)
    note ok = fl(1) [unfolded g(1) gk]
    have k: "sz \<le> k" using g(3) gk by simp
    obtain m p where m: "m \<noteq> NULL" "ravl_data r m = Some \<lparr>rkey = k, rvalue = hp\<rparr>" "hp \<noteq> NULL" "l \<noteq> []"
      "fheads h hp = Some \<lparr>fhead = p\<rparr>" "dlist (elems h) p l"
      "ravl_find r \<lparr>rkey = sz, rvalue = NULL\<rparr> RAVL_PREDICATE_GREATER_EQUAL = Some m"
      "\<exists>r' fs. ravl_remove r m = Some r' \<and> block_tree r' fs \<and> map snd fs = map entry_data (f1 @ f2) \<and> dom (rnodes r') \<subseteq> dom (rnodes r)"
      by (rule free_ok_find [OF ok]) (use g(2) k in blast)
    obtain e b l2 where l: "l = (e, b) # l2" using m(4) by (metis neq_Nil_conv surj_pair)
    have pe: "p = e" "e \<noteq> NULL" using m(6) by (auto simp: l dlist_def)
    have mem: "(k, e', b') \<in> S" if "(e', b') \<in> set l" for e' b' using that by (simp add: fl(2) g(1) gk)
    obtain x where x: "blocks h b = Some x" "bsize x = k" using S mem l by (meson list.set_intros(1))
    have sz: "\<forall>y \<in> set l2. \<exists>z. blocks h (snd y) = Some z \<and> bsize z = bsize x" using S mem x(2) by (force simp: l)
    have min: "\<forall>t \<in> S. sz \<le> fst t \<longrightarrow> k \<le> fst t"
    proof (intro ballI impI)
      fix t assume t: "t \<in> S" "sz \<le> fst t"
      then obtain f where "f \<in> set fl" "fst f = fst t" by (auto simp: fl(2) triples_def)
      then show "k \<le> fst t" using so g t(2) by (force simp: g(1) gk sorted_wrt_append)
    qed
    have rmv: "(case c of CHECK_ONLY_THE_FIRST_BLOCK \<Rightarrow> node_list_rm_first hp al h | CHECK_ALL_BLOCKS_OF_SIZE \<Rightarrow> node_list_rm_with_alignment hp al h)
      = (if IS_NOT_ALIGNED k al then Some (NULL, h) else node_list_rm hp e h)" for c
      using rm_first_eq [of h hp e b l2 x al] rm_with_alignment_eq [of h hp e b l2 x al] m x sz pe
      by (simp add: l split: check_free_blocks_t.split)
    show thesis
    proof (cases "IS_ALIGNED k al")
      case True
      have ok2: "free_ok r h (f1 @ (k, hp, [] @ (e, b) # l2) # f2)" using ok l by simp
      obtain r' h' h'' where R: "node_list_rm hp e h = Some (b, h')" "drop_empty_head r m hp h' = Some (r', h'')"
        "free_removed r h S (k, e, b) r' h''" by (rule free_rm_at [OF ok2 x(1) m(8)]) (simp add: fl(2) g(1) gk l)
      then have "\<forall>c. free_blocks_rm_ge r sz al c h = Some (b, r', h'')"
        using m rmv k True by (simp add: free_blocks_rm_ge_def IS_NOT_ALIGNED_eq)
      then show thesis using take mem l k min True R(3) by (meson list.set_intros(1))
    next
      case False
      then have "\<forall>c. free_blocks_rm_ge r sz al c h = Some (NULL, r, h)"
        using m rmv k pe by (simp add: free_blocks_rm_ge_def IS_NOT_ALIGNED_eq drop_empty_head_def)
      then show thesis using skip mem l k False by (meson list.set_intros(1))
    qed
  qed
qed

section \<open>Adding a free block\<close>

text \<open>The answers of the allocator from position \<open>i\<close> to \<open>j\<close>.\<close>

definition answers :: "coarse_heap \<Rightarrow> nat \<Rightarrow> nat \<Rightarrow> ptr set" where
  "answers h i j = chosts h ` {i..<j}"

lemma free_ok_new:
  assumes ok: "free_ok r h (f1 @ f2)" and k: "\<forall>f \<in> set f1. fst f < k" "\<forall>f \<in> set f2. k < fst f"
    and hp: "hp \<noteq> NULL" "hp \<notin> dom (fheads h)" and m: "m \<noteq> NULL" "m \<notin> dom (rnodes r)"
    and h': "fheads h' = (fheads h)(hp \<mapsto> \<lparr>fhead = e\<rparr>)" "elems h' = (elems h)(e \<mapsto> \<lparr>eblock = b, enext = NULL, eprev = NULL\<rparr>)"
    and e: "e \<noteq> NULL" "e \<notin> dom (elems h)"
  obtains r' where "ravl_find r \<lparr>rkey = k, rvalue = NULL\<rparr> RAVL_PREDICATE_EQUAL = Some NULL"
    "ravl_emplace_copy r \<lparr>rkey = k, rvalue = hp\<rparr> m = Some (OK, r')"
    "free_ok r' h' (f1 @ (k, hp, [(e, b)]) # f2)" "dom (rnodes r') = insert m (dom (rnodes r))"
proof -
  from ok obtain fs where fs: "block_tree r fs" "map snd fs = map entry_data (f1 @ f2)" by (auto simp: free_ok_def)
  then obtain fs1 fs2 where F: "fs = fs1 @ fs2" "map snd fs1 = map entry_data f1" "map snd fs2 = map entry_data f2"
    by (auto simp: map_eq_append_conv)
  have "\<forall>x \<in> set (map key fs1). x < k" "\<forall>x \<in> set (map key fs2). k < x"
    unfolding entry_keys [OF F(2)] entry_keys [OF F(3)] using k by simp_all
  then have kk: "\<forall>x \<in> set fs1. key x < k" "\<forall>x \<in> set fs2. k < key x" by simp_all
  note t = fs(1) [unfolded F(1)]
  have find: "ravl_find r \<lparr>rkey = k, rvalue = NULL\<rparr> RAVL_PREDICATE_EQUAL = Some NULL"
    using find_split [OF t, of "\<lparr>rkey = k, rvalue = NULL\<rparr>"] kk by (simp add: in_hand_def)
  obtain r' where r': "ravl_emplace_copy r \<lparr>rkey = k, rvalue = hp\<rparr> m = Some (OK, r')" "block_tree r' (fs1 @ (m, \<lparr>rkey = k, rvalue = hp\<rparr>) # fs2)"
    by (rule emplace_holds [OF t, of "\<lparr>rkey = k, rvalue = hp\<rparr>"]) (use kk m in auto)
  have oth: "entry_ok h' f" "fst (snd f) \<noteq> hp" "e \<notin> entry_elems f" if f: "f \<in> set (f1 @ f2)" for f
  proof -
    have eo: "entry_ok h f" using ok f by (auto simp: free_ok_def)
    then show ne: "fst (snd f) \<noteq> hp" using hp by (auto simp: entry_ok_def split: prod.splits)
    show el: "e \<notin> entry_elems f" using entry_ok_elems [OF eo] e(2) by blast
    have "elems h' a = elems h a" if "a \<in> entry_elems f" for a using that el h' by auto
    then show "entry_ok h' f" using ne h' by (intro entry_ok_frame [OF eo]) auto
  qed
  have "entry_ok h' (k, hp, [(e, b)])" using hp e h' by (simp add: entry_ok_def dlist_def)
  moreover have "map snd (fs1 @ (m, \<lparr>rkey = k, rvalue = hp\<rparr>) # fs2) = map entry_data (f1 @ (k, hp, [(e, b)]) # f2)"
    using F by (simp add: entry_data_def)
  moreover have "sorted_wrt (\<lambda>f g. fst (snd f) \<noteq> fst (snd g) \<and> entry_elems f \<inter> entry_elems g = {}) (f1 @ (k, hp, [(e, b)]) # f2)"
  proof -
    have "\<forall>f \<in> set f1. fst (snd f) \<noteq> hp \<and> entry_elems f \<inter> {e} = {}" "\<forall>f \<in> set f2. hp \<noteq> fst (snd f) \<and> {e} \<inter> entry_elems f = {}"
      using oth(2,3) by (simp_all, metis+)
    then show ?thesis using ok by (simp add: free_ok_def sorted_wrt_append)
  qed
  ultimately have "free_ok r' h' (f1 @ (k, hp, [(e, b)]) # f2)"
    using r'(2) oth(1) unfolding free_ok_def by (metis (no_types, lifting) Un_iff insert_iff list.set(2) set_append)
  moreover have "dom (rnodes r') = insert m (dom (rnodes r))"
    using block_tree_dom [OF r'(2)] block_tree_dom [OF t] by simp
  ultimately show thesis using that find r'(1) by blast
qed

text \<open>What adding a block changes; \<open>e\<close> is the new element.\<close>

definition free_added ::
  "ravl_data_t ravl \<Rightarrow> coarse_heap \<Rightarrow> (u64 \<times> ptr \<times> ptr) set \<Rightarrow> ptr \<Rightarrow> ptr \<Rightarrow> ravl_data_t ravl \<Rightarrow> coarse_heap \<Rightarrow> bool" where
  "free_added r h S b e r' h' \<longleftrightarrow> (\<exists>x. blocks h b = Some x \<and> free_holds r' h' (insert (bsize x, e, b) S) \<and>
       blocks h' = (blocks h)(b \<mapsto> x\<lparr>free_list_ptr := e\<rparr>)) \<and> e \<noteq> NULL \<and>
     same_hosts h h' \<and> ctick h \<le> ctick h' \<and> ctick h' \<le> ctick h + 3 \<and>
     dom (elems h') \<subseteq> dom (elems h) \<union> answers h (ctick h) (ctick h') \<and>
     dom (fheads h') \<subseteq> dom (fheads h) \<union> answers h (ctick h) (ctick h') \<and>
     dom (rnodes r') \<subseteq> dom (rnodes r) \<union> answers h (ctick h) (ctick h')"

lemma free_add_ok:
  assumes h: "free_holds r h S" and b: "blocks h b = Some x" "b \<noteq> NULL"
    and mem: "\<And>i. i < 3 \<Longrightarrow> chosts h (ctick h + i) \<noteq> NULL \<and> chosts h (ctick h + i) \<notin> dom (fheads h) \<union> dom (elems h) \<union> dom (rnodes r)"
  obtains r' h' e where "free_blocks_add r b h = Some (True, r', h')" "free_added r h S b e r' h'"
proof -
  from h obtain fl where fl: "free_ok r h fl" "S = triples fl" by (auto simp: free_holds_def)
  show thesis
  proof (cases "\<exists>f \<in> set fl. fst f = bsize x")
    case True
    then obtain f1 hp l f2 where f: "fl = f1 @ (bsize x, hp, l) # f2" by (metis prod.collapse split_list)
    note ok = fl(1) [unfolded f]
    obtain m p where m: "m \<noteq> NULL" "ravl_data r m = Some \<lparr>rkey = bsize x, rvalue = hp\<rparr>" "hp \<noteq> NULL"
      "fheads h hp = Some \<lparr>fhead = p\<rparr>" "dlist (elems h) p l"
      "ravl_find r \<lparr>rkey = bsize x, rvalue = NULL\<rparr> RAVL_PREDICATE_EQUAL = Some m" by (rule free_ok_find [OF ok])
    define e where "e = chosts h (ctick h)"
    have e: "e \<noteq> NULL" "e \<notin> dom (elems h)" using mem [of 0] by (simp_all add: e_def)
    obtain E where E: "node_list_add hp b h = Some (e, h\<lparr>ctick := Suc (ctick h), elems := E, fheads := (fheads h)(hp \<mapsto> \<lparr>fhead = e\<rparr>)\<rparr>)"
      "dlist E e ((e, b) # l)" "\<And>a. a \<notin> insert e (fst ` set l) \<Longrightarrow> E a = elems h a" "dom E = insert e (dom (elems h))"
      by (rule node_list_add_ok [OF m(4,5,3) b(2) e_def e]) blast
    define h' where "h' = h\<lparr>ctick := Suc (ctick h), elems := E, fheads := (fheads h)(hp \<mapsto> \<lparr>fhead = e\<rparr>),
      blocks := (blocks h)(b \<mapsto> x\<lparr>free_list_ptr := e\<rparr>)\<rparr>"
    have "free_blocks_add r b h = Some (True, r, h')"
      using m E(1) b e by (simp add: free_blocks_add_def free_blocks_head_def upd_block_def h'_def)
    moreover have "free_ok r h' (f1 @ (bsize x, hp, (e, b) # l) # f2)"
      by (rule free_ok_change [OF ok, of h' e _ "{e}"]) (use E e in \<open>auto simp: h'_def\<close>)
    then have "free_holds r h' (insert (bsize x, e, b) S)" unfolding free_holds_def
      by (intro exI [of _ "f1 @ (bsize x, hp, (e, b) # l) # f2"]) (auto simp: fl(2) f)
    moreover have "answers h (ctick h) (Suc (ctick h)) = {e}" by (simp add: answers_def e_def)
    ultimately show thesis using that [of r h' e] b e E(4) m(4) by (auto simp: free_added_def h'_def same_hosts_def)
  next
    case False
    obtain f1 f2 where f: "fl = f1 @ f2" "\<forall>f \<in> set f1. fst f < bsize x" "\<forall>f \<in> set f2. bsize x < fst f"
    proof (cases "\<forall>f \<in> set fl. fst f < bsize x")
      case True
      then show thesis using that [of fl "[]"] by simp
    next
      case no: False
      then obtain f1 g f2 where g: "fl = f1 @ g # f2" "\<forall>f \<in> set f1. fst f < bsize x" "\<not> fst g < bsize x"
        using split_list_first_prop [of fl "\<lambda>f. \<not> fst f < bsize x"] by auto
      then have "bsize x < fst g" using False by force
      then have "\<forall>f \<in> set (g # f2). bsize x < fst f" using free_ok_sorted [OF fl(1)] by (fastforce simp: g(1) sorted_wrt_append)
      then show thesis using that g by blast
    qed
    define hp m e where "hp = chosts h (ctick h)" "m = chosts h (ctick h + 1)" "e = chosts h (ctick h + 2)"
    have a: "hp \<noteq> NULL" "hp \<notin> dom (fheads h)" "m \<noteq> NULL" "m \<notin> dom (rnodes r)" "e \<noteq> NULL" "e \<notin> dom (elems h)"
      using mem [of 0] mem [of 1] mem [of 2] by (auto simp: hp_m_e_def)
    define h' where "h' = h\<lparr>ctick := ctick h + 3, elems := (elems h)(e \<mapsto> \<lparr>eblock = b, enext = NULL, eprev = NULL\<rparr>),
      fheads := (fheads h)(hp \<mapsto> \<lparr>fhead = e\<rparr>), blocks := (blocks h)(b \<mapsto> x\<lparr>free_list_ptr := e\<rparr>)\<rparr>"
    obtain r' where r': "ravl_find r \<lparr>rkey = bsize x, rvalue = NULL\<rparr> RAVL_PREDICATE_EQUAL = Some NULL"
      "ravl_emplace_copy r \<lparr>rkey = bsize x, rvalue = hp\<rparr> m = Some (OK, r')"
      "free_ok r' h' (f1 @ (bsize x, hp, [(e, b)]) # f2)" "dom (rnodes r') = insert m (dom (rnodes r))"
      by (rule free_ok_new [OF fl(1) [unfolded f(1)] f(2,3) a(1-4), of h' e b]) (use a in \<open>simp_all add: h'_def\<close>)
    have "{ctick h..<ctick h + 3} = {ctick h, ctick h + 1, ctick h + 2}" by auto
    then have ans: "answers h (ctick h) (ctick h + 3) = {hp, m, e}" unfolding answers_def by (simp add: hp_m_e_def)
    have ch: "chosts h (ctick h) = hp" "chosts h (Suc (ctick h)) = m" "chosts h (Suc (Suc (ctick h))) = e" by (simp_all add: hp_m_e_def)
    have "free_blocks_head r (bsize x) h = Some (hp, r', h\<lparr>ctick := Suc (Suc (ctick h)), fheads := (fheads h)(hp \<mapsto> \<lparr>fhead = NULL\<rparr>)\<rparr>)"
      using r' a by (simp add: free_blocks_head_def halloc_def ch Let_def)
    moreover have "ctick h + 3 = Suc (Suc (Suc (ctick h)))" by simp
    ultimately have "free_blocks_add r b h = Some (True, r', h')"
      using b a by (simp add: free_blocks_add_def halloc_def upd_block_def node_list_add_def h'_def ch Let_def)
    moreover have "free_holds r' h' (insert (bsize x, e, b) S)" using r'(3) unfolding free_holds_def
      by (intro exI [of _ "f1 @ (bsize x, hp, [(e, b)]) # f2"]) (auto simp: fl(2) f)
    ultimately show thesis using that [of r' h' e] b a r'(4) ans by (auto simp: free_added_def h'_def same_hosts_def)
  qed
qed

end
