(* ===== verification/Coarse_Provider.thy ===== *)
theory Coarse_Provider
  imports Coarse_Blocks
begin

text \<open>
  The coarse provider (second part of \<open>provider/provider_coarse.c\<close>): it asks an upstream provider for
  large blocks, or is given one buffer, and serves requests by splitting blocks and merging free
  neighbours. The state is that of one provider, at the address \<open>cpriv\<close>, with its heap and the state of
  the providers upstream of it. The assertions are those of the debug build; locking a mutex
  that is not held succeeds.
\<close>

section \<open>State\<close>

record coarse_memory_provider_params_t =
  p_upstream_memory_provider :: ptr
  p_allocation_strategy :: coarse_memory_provider_strategy_t
  p_init_buffer :: u64
  p_init_buffer_size :: u64
  p_immediate_init_from_upstream :: bool
  p_destroy_upstream_memory_provider :: bool

record 'w coarse_state =
  cp :: coarse_memory_provider_t
  cpriv :: ptr
  heap :: coarse_heap
  cup :: "'w prov_state"
  cparams :: "coarse_memory_provider_params_t option"
  cpage_size :: u64
  cmutex_ok :: bool

definition set_cp :: "(coarse_memory_provider_t \<Rightarrow> coarse_memory_provider_t) \<Rightarrow> 'w coarse_state \<Rightarrow> 'w coarse_state" where
  "set_cp f s = s\<lparr>cp := f (cp s)\<rparr>"

text \<open>Changing a block of the heap.\<close>

definition set_block :: "ptr \<Rightarrow> (block_t \<Rightarrow> block_t) \<Rightarrow> 'w coarse_state \<Rightarrow> 'w coarse_state option" where
  "set_block b f s = do { h \<leftarrow> upd_block b f (heap s); Some (s\<lparr>heap := h\<rparr>) }"

definition free_block :: "ptr \<Rightarrow> 'w coarse_state \<Rightarrow> 'w coarse_state option" where
  "free_block b s = do { _ \<leftarrow> blocks (heap s) b; Some (s\<lparr>heap := (heap s)\<lparr>blocks := (blocks (heap s))(b := None)\<rparr>\<rparr>) }"

definition host_alloc :: "'w coarse_state \<Rightarrow> ptr \<times> 'w coarse_state" where
  "host_alloc s = (let (p, h) = halloc (heap s) in (p, s\<lparr>heap := h\<rparr>))"

definition add_block :: "u64 \<Rightarrow> u64 \<Rightarrow> (ptr \<times> ptr, 'w coarse_state) eff" where
  "add_block data sz s = do {
     (b, n, r, h) \<leftarrow> coarse_ravl_add_new (all_blocks (cp s)) data sz (heap s);
     Some ((b, n), set_cp (\<lambda>p. p\<lparr>all_blocks := r\<rparr>) (s\<lparr>heap := h\<rparr>))
   }"

definition add_free :: "ptr \<Rightarrow> (bool, 'w coarse_state) eff" where
  "add_free b s = do {
     (added, r, h) \<leftarrow> free_blocks_add (free_blocks (cp s)) b (heap s);
     Some (added, set_cp (\<lambda>p. p\<lparr>free_blocks := r\<rparr>) (s\<lparr>heap := h\<rparr>))
   }"

definition rm_free :: "ptr \<Rightarrow> 'w coarse_state \<Rightarrow> 'w coarse_state option" where
  "rm_free e s = do {
     (_, r, h) \<leftarrow> free_blocks_rm_node (free_blocks (cp s)) e (heap s);
     Some (set_cp (\<lambda>p. p\<lparr>free_blocks := r\<rparr>) (s\<lparr>heap := h\<rparr>))
   }"

section \<open>Merging blocks\<close>

text \<open>A block leaves the list of free blocks when it is in one.\<close>

definition leave_free_list :: "ptr \<Rightarrow> 'w coarse_state \<Rightarrow> 'w coarse_state option" where
  "leave_free_list b s = do {
     x \<leftarrow> blocks (heap s) b;
     if free_list_ptr x \<noteq> NULL then do {
       s \<leftarrow> rm_free (free_list_ptr x) s;
       set_block b (\<lambda>b. b\<lparr>free_list_ptr := NULL\<rparr>) s
     } else Some s
   }"

definition user_block_merge :: "ptr \<Rightarrow> ptr \<Rightarrow> bool \<Rightarrow> (umf_result \<times> ptr, 'w coarse_state) eff" where
  "user_block_merge node1 node2 used s = do {
     guard (node1 \<noteq> NULL);
     guard (node2 \<noteq> NULL);
     prev \<leftarrow> get_node_prev (all_blocks (cp s)) node2;
     guard (node1 = prev);
     nxt \<leftarrow> get_node_next (all_blocks (cp s)) node1;
     guard (node2 = nxt);
     block1 \<leftarrow> get_node_block (all_blocks (cp s)) node1;
     block2 \<leftarrow> get_node_block (all_blocks (cp s)) node2;
     b1 \<leftarrow> blocks (heap s) block1;
     b2 \<leftarrow> blocks (heap s) block2;
     guard (bdata b1 < bdata b2);
     let same_used = (bused b1 = used \<and> bused b2 = used);
     let contignous_data = (bdata b1 + bsize b1 = bdata b2);
     same_origin \<leftarrow> is_same_origin (upstream_blocks (cp s)) (heap s) block1 block2;
     if \<not> same_used \<or> \<not> contignous_data \<or> \<not> same_origin
     then Some ((UMF_RESULT_ERROR_INVALID_ARGUMENT, NULL), s)
     else do {
       s \<leftarrow> leave_free_list block1 s;
       s \<leftarrow> leave_free_list block2 s;
       s \<leftarrow> set_block block1 (\<lambda>b. b\<lparr>bsize := bsize b + bsize b2\<rparr>) s;
       (block_rm, r) \<leftarrow> coarse_ravl_rm (all_blocks (cp s)) (bdata b2);
       guard (block_rm = block2);
       s \<leftarrow> free_block block2 (set_cp (\<lambda>p. p\<lparr>all_blocks := r\<rparr>) s);
       Some ((UMF_RESULT_SUCCESS, node1), s)
     }
   }"

definition free_block_merge_with_prev :: "ptr \<Rightarrow> (ptr, 'w coarse_state) eff" where
  "free_block_merge_with_prev nod s = do {
     node_prev \<leftarrow> get_node_prev (all_blocks (cp s)) nod;
     if node_prev = NULL then Some (nod, s)
     else do {
       ((res, merged_node), s) \<leftarrow> user_block_merge node_prev nod False s;
       if res \<noteq> UMF_RESULT_SUCCESS then Some (nod, s)
       else do { guard (merged_node \<noteq> NULL); Some (merged_node, s) }
     }
   }"

definition free_block_merge_with_next :: "ptr \<Rightarrow> (ptr, 'w coarse_state) eff" where
  "free_block_merge_with_next nod s = do {
     node_next \<leftarrow> get_node_next (all_blocks (cp s)) nod;
     if node_next = NULL then Some (nod, s)
     else do {
       ((res, merged_node), s) \<leftarrow> user_block_merge nod node_next False s;
       if res \<noteq> UMF_RESULT_SUCCESS then Some (nod, s)
       else do { guard (merged_node \<noteq> NULL); Some (merged_node, s) }
     }
   }"

definition upstream_block_merge :: "ptr \<Rightarrow> ptr \<Rightarrow> (umf_result \<times> ptr, 'w coarse_state) eff" where
  "upstream_block_merge node1 node2 s = do {
     guard (node1 \<noteq> NULL);
     guard (node2 \<noteq> NULL);
     if upstream_memory_provider (cp s) = NULL then Some ((UMF_RESULT_ERROR_INVALID_ARGUMENT, NULL), s)
     else do {
       block1 \<leftarrow> get_node_block (upstream_blocks (cp s)) node1;
       block2 \<leftarrow> get_node_block (upstream_blocks (cp s)) node2;
       b1 \<leftarrow> blocks (heap s) block1;
       b2 \<leftarrow> blocks (heap s) block2;
       guard (bdata b1 < bdata b2);
       if bdata b1 + bsize b1 \<noteq> bdata b2 then Some ((UMF_RESULT_ERROR_INVALID_ARGUMENT, NULL), s)
       else do {
         (merge_status, u) \<leftarrow> umfMemoryProviderAllocationMerge (upstream_memory_provider (cp s))
            (bdata b1) (bdata b2) (bsize b1 + bsize b2) (cup s);
         let s = s\<lparr>cup := u\<rparr>;
         if merge_status \<noteq> UMF_RESULT_SUCCESS then Some ((merge_status, NULL), s)
         else do {
           s \<leftarrow> set_block block1 (\<lambda>b. b\<lparr>bsize := bsize b + bsize b2\<rparr>) s;
           (block_rm, r) \<leftarrow> coarse_ravl_rm (upstream_blocks (cp s)) (bdata b2);
           guard (block_rm = block2);
           s \<leftarrow> free_block block2 (set_cp (\<lambda>p. p\<lparr>upstream_blocks := r\<rparr>) s);
           Some ((UMF_RESULT_SUCCESS, node1), s)
         }
       }
     }
   }"

definition upstream_block_merge_with_prev :: "ptr \<Rightarrow> (ptr, 'w coarse_state) eff" where
  "upstream_block_merge_with_prev nod s = do {
     guard (nod \<noteq> NULL);
     node_prev \<leftarrow> get_node_prev (upstream_blocks (cp s)) nod;
     if node_prev = NULL then Some (nod, s)
     else do {
       ((res, merged_node), s) \<leftarrow> upstream_block_merge node_prev nod s;
       if res \<noteq> UMF_RESULT_SUCCESS then Some (nod, s)
       else do { guard (merged_node \<noteq> NULL); Some (merged_node, s) }
     }
   }"

definition upstream_block_merge_with_next :: "ptr \<Rightarrow> (ptr, 'w coarse_state) eff" where
  "upstream_block_merge_with_next nod s = do {
     guard (nod \<noteq> NULL);
     node_next \<leftarrow> get_node_next (upstream_blocks (cp s)) nod;
     if node_next = NULL then Some (nod, s)
     else do {
       ((res, merged_node), s) \<leftarrow> upstream_block_merge nod node_next s;
       if res \<noteq> UMF_RESULT_SUCCESS then Some (nod, s)
       else do { guard (merged_node \<noteq> NULL); Some (merged_node, s) }
     }
   }"

section \<open>Statistics\<close>

record coarse_memory_provider_stats_t =
  s_alloc_size :: u64
  s_used_size :: u64
  s_num_upstream_blocks :: u64
  s_num_all_blocks :: u64
  s_num_free_blocks :: u64

definition ravl_cb_count :: "ravl_data_t payload \<Rightarrow> u64 \<Rightarrow> u64" where
  "ravl_cb_count data n = n + 1"

partial_function (option) count_list :: "coarse_heap \<Rightarrow> ptr \<Rightarrow> u64 \<Rightarrow> u64 option" where
  "count_list h e n = (if e = NULL then Some n else do { x \<leftarrow> elems h e; count_list h (enext x) (n + 1) })"

text \<open>The datum behind the pointer that a callback is given: the bytes of the node.\<close>

fun node_bytes :: "ravl_data_t payload \<Rightarrow> ravl_data_t option" where
  "node_bytes (PInline d) = Some d"
| "node_bytes (PPtr d) = None"

definition ravl_cb_count_free :: "coarse_heap \<Rightarrow> ravl_data_t payload \<Rightarrow> u64 option \<Rightarrow> u64 option" where
  "ravl_cb_count_free h data n = do {
     n \<leftarrow> n;
     d \<leftarrow> node_bytes data;
     hd \<leftarrow> fheads h (rvalue d);
     guard (fhead hd \<noteq> NULL);
     count_list h (fhead hd) n
   }"

definition coarse_memory_provider_get_stats :: "'w coarse_state \<Rightarrow> coarse_memory_provider_stats_t option" where
  "coarse_memory_provider_get_stats s = do {
     (nu, _) \<leftarrow> ravl_foreach (upstream_blocks (cp s)) (Some ravl_cb_count) 0;
     (na, _) \<leftarrow> ravl_foreach (all_blocks (cp s)) (Some ravl_cb_count) 0;
     (nf, _) \<leftarrow> ravl_foreach (free_blocks (cp s)) (Some (ravl_cb_count_free (heap s))) (Some 0);
     nf \<leftarrow> nf;
     Some \<lparr>s_alloc_size = alloc_size (cp s), s_used_size = used_size (cp s), s_num_upstream_blocks = nu,
       s_num_all_blocks = na, s_num_free_blocks = nf\<rparr>
   }"

section \<open>The checks of the debug build\<close>

record debug_cb_args_t =
  sum_used :: u64
  sum_blocks_size :: u64
  num_all_blocks :: u64
  num_free_blocks :: u64
  num_alloc_blocks :: u64
  sum_alloc_size :: u64

text \<open>An optional block: null, or the block.\<close>

definition block_at :: "coarse_heap \<Rightarrow> ptr \<Rightarrow> block_t option option" where
  "block_at h b = (if b = NULL then Some None else do { x \<leftarrow> blocks h b; Some (Some x) })"

definition debug_verify_all_blocks_cb ::
  "'w coarse_state \<Rightarrow> ravl_data_t payload \<Rightarrow> debug_cb_args_t option \<Rightarrow> debug_cb_args_t option" where
  "debug_verify_all_blocks_cb s data acc = do {
     acc \<leftarrow> acc;
     d \<leftarrow> node_bytes data;
     let r = all_blocks (cp s);
     guard (rvalue d \<noteq> NULL);
     b \<leftarrow> blocks (heap s) (rvalue d);
     nod \<leftarrow> ravl_find r d RAVL_PREDICATE_EQUAL;
     guard (nod \<noteq> NULL);
     block_next \<leftarrow> get_block_next r nod;
     block_prev \<leftarrow> get_block_prev r nod;
     nx \<leftarrow> block_at (heap s) block_next;
     pv \<leftarrow> block_at (heap s) block_prev;
     guard (bdata b \<noteq> 0 \<and> bsize b > 0);
     (case pv of
        None \<Rightarrow> Some ()
      | Some p \<Rightarrow> do {
          apart \<leftarrow> (if \<not> bused p \<and> \<not> bused b \<and> bdata p + bsize p = bdata b
                   then map_option Not (is_same_origin (upstream_blocks (cp s)) (heap s) block_prev (rvalue d))
                   else Some True);
          guard (apart \<and> bdata p < bdata b)
        });
     (case nx of
        None \<Rightarrow> Some ()
      | Some n \<Rightarrow> do {
          apart \<leftarrow> (if \<not> bused n \<and> \<not> bused b \<and> bdata b + bsize b = bdata n
                   then map_option Not (is_same_origin (upstream_blocks (cp s)) (heap s) (rvalue d) block_next)
                   else Some True);
          guard (apart \<and> bdata b < bdata n \<and> bdata b + bsize b \<le> bdata n)
        });
     Some (acc\<lparr>num_all_blocks := num_all_blocks acc + 1,
       num_free_blocks := num_free_blocks acc + (if bused b then 0 else 1),
       sum_blocks_size := sum_blocks_size acc + bsize b,
       sum_used := sum_used acc + (if bused b then bsize b else 0)\<rparr>)
   }"

definition debug_verify_upstream_blocks_cb ::
  "'w coarse_state \<Rightarrow> ravl_data_t payload \<Rightarrow> debug_cb_args_t option \<Rightarrow> debug_cb_args_t option" where
  "debug_verify_upstream_blocks_cb s data acc = do {
     acc \<leftarrow> acc;
     d \<leftarrow> node_bytes data;
     let r = upstream_blocks (cp s);
     guard (rvalue d \<noteq> NULL);
     a \<leftarrow> blocks (heap s) (rvalue d);
     nod \<leftarrow> ravl_find r d RAVL_PREDICATE_EQUAL;
     guard (nod \<noteq> NULL);
     alloc_next \<leftarrow> get_block_next r nod;
     alloc_prev \<leftarrow> get_block_prev r nod;
     nx \<leftarrow> block_at (heap s) alloc_next;
     pv \<leftarrow> block_at (heap s) alloc_prev;
     guard (bdata a \<noteq> 0 \<and> bsize a > 0);
     guard (case pv of None \<Rightarrow> True | Some p \<Rightarrow> bdata p < bdata a);
     guard (case nx of None \<Rightarrow> True | Some n \<Rightarrow> bdata a < bdata n \<and> bdata a + bsize a \<le> bdata n);
     Some (acc\<lparr>num_alloc_blocks := num_alloc_blocks acc + 1, sum_alloc_size := sum_alloc_size acc + bsize a\<rparr>)
   }"

definition debug_check :: "'w coarse_state \<Rightarrow> unit option" where
  "debug_check s = do {
     stats \<leftarrow> coarse_memory_provider_get_stats s;
     (a, _) \<leftarrow> ravl_foreach (all_blocks (cp s)) (Some (debug_verify_all_blocks_cb s)) (Some \<lparr>sum_used = 0, sum_blocks_size = 0,
        num_all_blocks = 0, num_free_blocks = 0, num_alloc_blocks = 0, sum_alloc_size = 0\<rparr>);
     a \<leftarrow> a;
     guard (num_all_blocks a = s_num_all_blocks stats);
     guard (num_free_blocks a = s_num_free_blocks stats);
     guard (sum_used a = used_size (cp s));
     guard (sum_blocks_size a = alloc_size (cp s));
     guard (alloc_size (cp s) \<ge> used_size (cp s));
     (u, _) \<leftarrow> ravl_foreach (upstream_blocks (cp s)) (Some (debug_verify_upstream_blocks_cb s)) (Some a);
     u \<leftarrow> u;
     guard (sum_alloc_size u = alloc_size (cp s));
     guard (num_alloc_blocks u = s_num_upstream_blocks stats)
   }"

section \<open>Memory from upstream\<close>

definition coarse_add_upstream_block :: "u64 \<Rightarrow> u64 \<Rightarrow> (umf_result, 'w coarse_state) eff" where
  "coarse_add_upstream_block addr sz s = do {
     (alloc, alloc_node, r, h) \<leftarrow> coarse_ravl_add_new (upstream_blocks (cp s)) addr sz (heap s);
     let s = set_cp (\<lambda>p. p\<lparr>upstream_blocks := r\<rparr>) (s\<lparr>heap := h\<rparr>);
     if alloc = NULL then Some (UMF_RESULT_ERROR_OUT_OF_HOST_MEMORY, s)
     else do {
       ((new_block, _), s) \<leftarrow> add_block addr sz s;
       if new_block = NULL then do {
         (_, r) \<leftarrow> coarse_ravl_rm (upstream_blocks (cp s)) addr;
         Some (UMF_RESULT_ERROR_OUT_OF_HOST_MEMORY, set_cp (\<lambda>p. p\<lparr>upstream_blocks := r\<rparr>) s)
       } else do {
         (alloc_node, s) \<leftarrow> upstream_block_merge_with_prev alloc_node s;
         (alloc_node, s) \<leftarrow> upstream_block_merge_with_next alloc_node s;
         s \<leftarrow> set_block new_block (\<lambda>b. b\<lparr>bused := True\<rparr>) s;
         Some (UMF_RESULT_SUCCESS,
           set_cp (\<lambda>p. p\<lparr>alloc_size := alloc_size p + sz, used_size := used_size p + sz\<rparr>) s)
       }
     }
   }"

definition COARSE_BASE_NAME :: string where "COARSE_BASE_NAME = ''coarse''"

definition coarse_memory_provider_set_name :: "(umf_result, 'w coarse_state) eff" where
  "coarse_memory_provider_set_name s =
     (if upstream_memory_provider (cp s) = NULL
      then Some (UMF_RESULT_SUCCESS, set_cp (\<lambda>p. p\<lparr>cname := None\<rparr>) s)
      else do {
        (up_name, u) \<leftarrow> umfMemoryProviderGetName (upstream_memory_provider (cp s)) (cup s);
        let s = s\<lparr>cup := u\<rparr>;
        case up_name of
          None \<Rightarrow> Some (UMF_RESULT_ERROR_UNKNOWN, s)
        | Some up_name \<Rightarrow>
            (let (mem, s) = host_alloc s in
             if mem = NULL then Some (UMF_RESULT_ERROR_OUT_OF_HOST_MEMORY, s)
             else Some (UMF_RESULT_SUCCESS,
               set_cp (\<lambda>p. p\<lparr>cname := Some (COARSE_BASE_NAME @ '' ('' @ up_name @ '')'')\<rparr>) s))
      })"

end
