(* ===== verification/Coarse_Ops.thy ===== *)
theory Coarse_Ops
  imports Coarse_Provider
begin

text \<open>
  The operations of the coarse provider (the rest of \<open>provider/provider_coarse.c\<close>): allocation,
  release, splitting and merging of allocations, creation and destruction, and the table of
  operations. Output parameters are components of the results; the library never passes null
  pointers for them.
\<close>

section \<open>Allocation\<close>

text \<open>The pointer to the mutex is that of the provider.\<close>

definition lock_coarse :: "'w coarse_state \<Rightarrow> 'w coarse_state option" where
  "lock_coarse s = do { guard (\<not> clock (cp s)); Some (set_cp (\<lambda>p. p\<lparr>clock := True\<rparr>) s) }"

definition unlock_coarse :: "'w coarse_state \<Rightarrow> 'w coarse_state" where
  "unlock_coarse s = set_cp (\<lambda>p. p\<lparr>clock := False\<rparr>) s"

text \<open>The block to use after the padding in front of the aligned address was cut off.\<close>

definition create_aligned_block :: "u64 \<Rightarrow> u64 \<Rightarrow> ptr \<Rightarrow> (umf_result \<times> ptr, 'w coarse_state) eff" where
  "create_aligned_block orig_size alignment cur s = do {
     b \<leftarrow> blocks (heap s) cur;
     let padding = ALIGN_UP (bdata b) alignment - bdata b;
     if alignment > 0 \<and> padding > 0 then do {
       ((aligned_block, _), s) \<leftarrow> add_block (bdata b + padding) (bsize b - padding) s;
       if aligned_block = NULL then Some ((UMF_RESULT_ERROR_OUT_OF_HOST_MEMORY, cur), s)
       else do {
         s \<leftarrow> set_block cur (\<lambda>b. b\<lparr>bused := False, bsize := padding\<rparr>) s;
         (added, s) \<leftarrow> add_free cur s;
         if \<not> added then Some ((UMF_RESULT_ERROR_OUT_OF_HOST_MEMORY, cur), s)
         else do {
           a \<leftarrow> blocks (heap s) aligned_block;
           guard (bsize a \<ge> orig_size);
           Some ((UMF_RESULT_SUCCESS, aligned_block), s)
         }
       }
     } else Some ((UMF_RESULT_SUCCESS, cur), s)
   }"

definition split_current_block :: "ptr \<Rightarrow> u64 \<Rightarrow> (umf_result, 'w coarse_state) eff" where
  "split_current_block cur sz s = do {
     b \<leftarrow> blocks (heap s) cur;
     ((new_block, new_node), s) \<leftarrow> add_block (bdata b + sz) (bsize b - sz) s;
     if new_block = NULL then Some (UMF_RESULT_ERROR_OUT_OF_HOST_MEMORY, s)
     else do {
       s \<leftarrow> set_block new_block (\<lambda>b. b\<lparr>bused := False\<rparr>) s;
       nb \<leftarrow> get_node_block (all_blocks (cp s)) new_node;
       (added, s) \<leftarrow> add_free nb s;
       Some (if added then UMF_RESULT_SUCCESS else UMF_RESULT_ERROR_OUT_OF_HOST_MEMORY, s)
     }
   }"

datatype coarse_action = ACTION_NONE | ACTION_USE | ACTION_SPLIT

text \<open>The part of the allocation that uses the free block \<open>cur\<close>.\<close>

definition alloc_from_block :: "coarse_action \<Rightarrow> ptr \<Rightarrow> u64 \<Rightarrow> u64 \<Rightarrow> (umf_result \<times> u64, 'w coarse_state) eff" where
  "alloc_from_block action cur sz alignment s = do {
     b \<leftarrow> blocks (heap s) cur;
     guard (\<not> bused b);
     ((res, cur), s) \<leftarrow> (if alignment > 0 then create_aligned_block sz alignment cur s
                          else Some ((UMF_RESULT_SUCCESS, cur), s));
     if res \<noteq> UMF_RESULT_SUCCESS then Some ((res, 0), unlock_coarse s)
     else do {
       (res, s) \<leftarrow> (if action = ACTION_SPLIT then split_current_block cur sz s else Some (UMF_RESULT_SUCCESS, s));
       if res \<noteq> UMF_RESULT_SUCCESS then Some ((res, 0), unlock_coarse s)
       else do {
         s \<leftarrow> (if action = ACTION_SPLIT then set_block cur (\<lambda>b. b\<lparr>bsize := sz\<rparr>) s else Some s);
         s \<leftarrow> set_block cur (\<lambda>b. b\<lparr>bused := True\<rparr>) s;
         b \<leftarrow> blocks (heap s) cur;
         let s = set_cp (\<lambda>p. p\<lparr>used_size := used_size p + sz\<rparr>) s;
         debug_check s;
         Some ((UMF_RESULT_SUCCESS, bdata b), unlock_coarse s)
       }
     }
   }"

text \<open>The part that asks the upstream provider; an address that it leaves unset is the null pointer of
  the caller.\<close>

definition alloc_from_upstream :: "u64 \<Rightarrow> u64 \<Rightarrow> (umf_result \<times> u64, 'w coarse_state) eff" where
  "alloc_from_upstream sz alignment s =
     (if upstream_memory_provider (cp s) = NULL
      then do { debug_check s; Some ((UMF_RESULT_ERROR_OUT_OF_HOST_MEMORY, 0), unlock_coarse s) }
      else do {
        ((_, a), u) \<leftarrow> umfMemoryProviderAlloc (upstream_memory_provider (cp s)) sz alignment (cup s);
        let s = s\<lparr>cup := u\<rparr>;
        if a = 0 then do { debug_check s; Some ((UMF_RESULT_ERROR_OUT_OF_HOST_MEMORY, 0), unlock_coarse s) }
        else do {
          guard (IS_ALIGNED a alignment);
          (res, s) \<leftarrow> coarse_add_upstream_block a sz s;
          s \<leftarrow> (if res \<noteq> UMF_RESULT_SUCCESS \<and> \<not> disable_upstream_provider_free (cp s)
               then do {
                 (_, u) \<leftarrow> umfMemoryProviderFree (upstream_memory_provider (cp s)) a sz (cup s);
                 Some (s\<lparr>cup := u\<rparr>)
               } else Some s);
          debug_check s;
          Some ((res, a), unlock_coarse s)
        }
      })"

definition coarse_memory_provider_alloc :: "ptr \<Rightarrow> u64 \<Rightarrow> u64 \<Rightarrow> (umf_result \<times> u64, 'w coarse_state) eff" where
  "coarse_memory_provider_alloc provider sz alignment s =
     (if provider = NULL then Some ((UMF_RESULT_ERROR_INVALID_ARGUMENT, 0), s)
      else do {
        guard (provider = cpriv s);
        s \<leftarrow> lock_coarse s;
        debug_check s;
        (cur, r, h) \<leftarrow> find_free_block (free_blocks (cp s)) sz alignment (allocation_strategy (cp s)) (heap s);
        let s = set_cp (\<lambda>p. p\<lparr>free_blocks := r\<rparr>) (s\<lparr>heap := h\<rparr>);
        action \<leftarrow> (if cur = NULL then Some ACTION_NONE
                  else do {
                    b \<leftarrow> blocks (heap s) cur;
                    Some (if bsize b > sz then ACTION_SPLIT else if bsize b = sz then ACTION_USE else ACTION_NONE)
                  });
        if action \<noteq> ACTION_NONE then alloc_from_block action cur sz alignment s
        else alloc_from_upstream sz alignment s
      })"

section \<open>Release\<close>

definition coarse_memory_provider_free :: "ptr \<Rightarrow> u64 \<Rightarrow> u64 \<Rightarrow> (umf_result, 'w coarse_state) eff" where
  "coarse_memory_provider_free provider p bytes s =
     (if provider = NULL then Some (UMF_RESULT_ERROR_INVALID_ARGUMENT, s)
      else do {
        guard (provider = cpriv s);
        s \<leftarrow> lock_coarse s;
        debug_check s;
        nod \<leftarrow> coarse_ravl_find_node (all_blocks (cp s)) p;
        if nod = NULL then Some (UMF_RESULT_ERROR_UNKNOWN, unlock_coarse s)
        else do {
          block \<leftarrow> get_node_block (all_blocks (cp s)) nod;
          b \<leftarrow> blocks (heap s) block;
          if \<not> bused b then Some (UMF_RESULT_ERROR_INVALID_ARGUMENT, unlock_coarse s)
          else if bytes > 0 \<and> bytes \<noteq> bsize b then Some (UMF_RESULT_ERROR_INVALID_ARGUMENT, unlock_coarse s)
          else do {
            guard (used_size (cp s) \<ge> bsize b);
            s \<leftarrow> set_block block (\<lambda>b. b\<lparr>bused := False\<rparr>) (set_cp (\<lambda>p. p\<lparr>used_size := used_size p - bsize b\<rparr>) s);
            (nod, s) \<leftarrow> free_block_merge_with_prev nod s;
            (nod, s) \<leftarrow> free_block_merge_with_next nod s;
            block \<leftarrow> get_node_block (all_blocks (cp s)) nod;
            (added, s) \<leftarrow> add_free block s;
            if \<not> added then Some (UMF_RESULT_ERROR_OUT_OF_HOST_MEMORY, unlock_coarse s)
            else do { debug_check s; Some (UMF_RESULT_SUCCESS, unlock_coarse s) }
          }
        }
      })"

section \<open>Splitting and merging allocations\<close>

text \<open>The common end of the two operations: the check, and the mutex.\<close>

definition check_unlock :: "umf_result \<Rightarrow> (umf_result, 'w coarse_state) eff" where
  "check_unlock res s = do { debug_check s; Some (res, unlock_coarse s) }"

definition coarse_memory_provider_allocation_split :: "ptr \<Rightarrow> u64 \<Rightarrow> u64 \<Rightarrow> u64 \<Rightarrow> (umf_result, 'w coarse_state) eff" where
  "coarse_memory_provider_allocation_split provider p totalSize firstSize s =
     (if provider = NULL \<or> p = 0 \<or> firstSize \<ge> totalSize \<or> firstSize = 0
      then Some (UMF_RESULT_ERROR_INVALID_ARGUMENT, s)
      else do {
        guard (provider = cpriv s);
        s \<leftarrow> lock_coarse s;
        debug_check s;
        nod \<leftarrow> coarse_ravl_find_node (all_blocks (cp s)) p;
        if nod = NULL then check_unlock UMF_RESULT_ERROR_INVALID_ARGUMENT s
        else do {
          block \<leftarrow> get_node_block (all_blocks (cp s)) nod;
          b \<leftarrow> blocks (heap s) block;
          if bsize b \<noteq> totalSize then check_unlock UMF_RESULT_ERROR_INVALID_ARGUMENT s
          else if \<not> bused b then check_unlock UMF_RESULT_ERROR_INVALID_ARGUMENT s
          else do {
            ((new_block, _), s) \<leftarrow> add_block (bdata b + firstSize) (bsize b - firstSize) s;
            if new_block = NULL then check_unlock UMF_RESULT_ERROR_OUT_OF_HOST_MEMORY s
            else do {
              s \<leftarrow> set_block block (\<lambda>b. b\<lparr>bsize := firstSize\<rparr>) s;
              s \<leftarrow> set_block new_block (\<lambda>b. b\<lparr>bused := True\<rparr>) s;
              nb \<leftarrow> blocks (heap s) new_block;
              guard (bsize nb = totalSize - firstSize);
              check_unlock UMF_RESULT_SUCCESS s
            }
          }
        }
      })"

text \<open>A used block: its node and its address, or the null pointers when it is not there or is free.\<close>

definition find_used :: "u64 \<Rightarrow> 'w coarse_state \<Rightarrow> (ptr \<times> ptr) option" where
  "find_used p s = do {
     nod \<leftarrow> coarse_ravl_find_node (all_blocks (cp s)) p;
     if nod = NULL then Some (NULL, NULL)
     else do {
       block \<leftarrow> get_node_block (all_blocks (cp s)) nod;
       b \<leftarrow> blocks (heap s) block;
       Some (if bused b then (nod, block) else (NULL, NULL))
     }
   }"

definition coarse_memory_provider_allocation_merge :: "ptr \<Rightarrow> u64 \<Rightarrow> u64 \<Rightarrow> u64 \<Rightarrow> (umf_result, 'w coarse_state) eff" where
  "coarse_memory_provider_allocation_merge provider lowPtr highPtr totalSize s =
     (if provider = NULL \<or> lowPtr = 0 \<or> highPtr = 0 \<or> highPtr \<le> lowPtr \<or> highPtr - lowPtr \<ge> totalSize
      then Some (UMF_RESULT_ERROR_INVALID_ARGUMENT, s)
      else do {
        guard (provider = cpriv s);
        s \<leftarrow> lock_coarse s;
        debug_check s;
        (low_node, low_block) \<leftarrow> find_used lowPtr s;
        if low_node = NULL then check_unlock UMF_RESULT_ERROR_INVALID_ARGUMENT s
        else do {
          (high_node, high_block) \<leftarrow> find_used highPtr s;
          if high_node = NULL then check_unlock UMF_RESULT_ERROR_INVALID_ARGUMENT s
          else do {
            nxt \<leftarrow> get_node_next (all_blocks (cp s)) low_node;
            if nxt \<noteq> high_node then check_unlock UMF_RESULT_ERROR_INVALID_ARGUMENT s
            else do {
              prv \<leftarrow> get_node_prev (all_blocks (cp s)) high_node;
              lb \<leftarrow> blocks (heap s) low_block;
              hb \<leftarrow> blocks (heap s) high_block;
              if prv \<noteq> low_node \<or> bsize lb + bsize hb \<noteq> totalSize \<or> highPtr \<noteq> lowPtr + bsize lb
              then check_unlock UMF_RESULT_ERROR_INVALID_ARGUMENT s
              else do {
                ((res, merged_node), s) \<leftarrow> user_block_merge low_node high_node True s;
                if res \<noteq> UMF_RESULT_SUCCESS then check_unlock res s
                else do {
                  guard (merged_node = low_node);
                  lb \<leftarrow> blocks (heap s) low_block;
                  guard (bsize lb = totalSize);
                  check_unlock UMF_RESULT_SUCCESS s
                }
              }
            }
          }
        }
      })"

section \<open>Queries\<close>

definition coarse_memory_provider_get_last_native_error :: "ptr \<Rightarrow> (string \<times> int, 'w coarse_state) eff" where
  "coarse_memory_provider_get_last_native_error provider s = Some (([], 0), s)"

definition coarse_memory_provider_get_min_page_size :: "ptr \<Rightarrow> u64 \<Rightarrow> (umf_result \<times> u64, 'w coarse_state) eff" where
  "coarse_memory_provider_get_min_page_size provider p s =
     (if provider = NULL then Some ((UMF_RESULT_ERROR_INVALID_ARGUMENT, 0), s)
      else do {
        guard (provider = cpriv s);
        if upstream_memory_provider (cp s) = NULL then Some ((UMF_RESULT_SUCCESS, cpage_size s), s)
        else do {
          (r, u) \<leftarrow> umfMemoryProviderGetMinPageSize (upstream_memory_provider (cp s)) p (cup s);
          Some (r, s\<lparr>cup := u\<rparr>)
        }
      })"

definition coarse_memory_provider_get_recommended_page_size :: "ptr \<Rightarrow> u64 \<Rightarrow> (umf_result \<times> u64, 'w coarse_state) eff" where
  "coarse_memory_provider_get_recommended_page_size provider sz s =
     (if provider = NULL then Some ((UMF_RESULT_ERROR_INVALID_ARGUMENT, 0), s)
      else do {
        guard (provider = cpriv s);
        if upstream_memory_provider (cp s) = NULL then Some ((UMF_RESULT_SUCCESS, cpage_size s), s)
        else do {
          (r, u) \<leftarrow> umfMemoryProviderGetRecommendedPageSize (upstream_memory_provider (cp s)) sz (cup s);
          Some (r, s\<lparr>cup := u\<rparr>)
        }
      })"

definition coarse_memory_provider_get_name :: "ptr \<Rightarrow> (string, 'w coarse_state) eff" where
  "coarse_memory_provider_get_name provider s =
     (if provider = NULL then Some (COARSE_BASE_NAME, s)
      else do {
        guard (provider = cpriv s);
        Some (case cname (cp s) of None \<Rightarrow> COARSE_BASE_NAME | Some n \<Rightarrow> n, s)
      })"

definition coarse_memory_provider_purge_lazy :: "ptr \<Rightarrow> u64 \<Rightarrow> u64 \<Rightarrow> (umf_result, 'w coarse_state) eff" where
  "coarse_memory_provider_purge_lazy provider p sz s =
     (if provider = NULL \<or> p = 0 then Some (UMF_RESULT_ERROR_INVALID_ARGUMENT, s)
      else do {
        guard (provider = cpriv s);
        if upstream_memory_provider (cp s) = NULL then Some (UMF_RESULT_ERROR_NOT_SUPPORTED, s)
        else do {
          (r, u) \<leftarrow> umfMemoryProviderPurgeLazy (upstream_memory_provider (cp s)) p sz (cup s);
          Some (r, s\<lparr>cup := u\<rparr>)
        }
      })"

definition coarse_memory_provider_purge_force :: "ptr \<Rightarrow> u64 \<Rightarrow> u64 \<Rightarrow> (umf_result, 'w coarse_state) eff" where
  "coarse_memory_provider_purge_force provider p sz s =
     (if provider = NULL \<or> p = 0 then Some (UMF_RESULT_ERROR_INVALID_ARGUMENT, s)
      else do {
        guard (provider = cpriv s);
        if upstream_memory_provider (cp s) = NULL then Some (UMF_RESULT_ERROR_NOT_SUPPORTED, s)
        else do {
          (r, u) \<leftarrow> umfMemoryProviderPurgeForce (upstream_memory_provider (cp s)) p sz (cup s);
          Some (r, s\<lparr>cup := u\<rparr>)
        }
      })"

section \<open>Creation\<close>

text \<open>The check of the parameters.\<close>

definition coarse_params_ok :: "coarse_memory_provider_params_t \<Rightarrow> bool" where
  "coarse_params_ok c \<longleftrightarrow>
     (p_upstream_memory_provider c = NULL) \<noteq> (p_init_buffer c = 0) \<and>
     \<not> (p_init_buffer_size c = 0 \<and> (p_immediate_init_from_upstream c \<or> p_init_buffer c \<noteq> 0)) \<and>
     \<not> (p_init_buffer_size c \<noteq> 0 \<and> \<not> p_immediate_init_from_upstream c \<and> p_init_buffer c = 0) \<and>
     \<not> (p_destroy_upstream_memory_provider c \<and> p_upstream_memory_provider c = NULL)"

text \<open>A tree, or the null pointer: the three trees are created one after the other, and the ones that
  exist are deleted when a later one fails.\<close>

definition coarse_new_ravl :: "'w coarse_state \<Rightarrow> ravl_data_t ravl option \<times> 'w coarse_state" where
  "coarse_new_ravl s = (let (mem, s) = host_alloc s in (ravl_new_sized mem coarse_ravl_comp 16, s))"

definition delete_trees :: "ravl_data_t ravl list \<Rightarrow> unit option" where
  "delete_trees rs = fold (\<lambda>r u. do { u; _ \<leftarrow> ravl_delete r; Some () }) rs (Some ())"

text \<open>The end of a failed initialisation: the record of the provider and its name are freed. The
  blocks are not.\<close>

definition init_failed :: "umf_result \<Rightarrow> ravl_data_t ravl list \<Rightarrow> (umf_result \<times> ptr, 'w coarse_state) eff" where
  "init_failed res rs s = do { delete_trees rs; Some ((res, NULL), s\<lparr>cpriv := NULL\<rparr>) }"

definition no_tree :: "ravl_data_t ravl" where
  "no_tree = \<lparr>ravl_root = NULL, compare = coarse_ravl_comp, data_size = 16, rnodes = Map.empty\<rparr>"

text \<open>The first memory: from the upstream provider, or the buffer of the parameters; the result is
  whether the initialisation goes on, and otherwise the error.\<close>

definition init_memory :: "coarse_memory_provider_params_t \<Rightarrow> (umf_result, 'w coarse_state) eff" where
  "init_memory c s =
     (if p_upstream_memory_provider c \<noteq> NULL \<and> p_immediate_init_from_upstream c then do {
        ((_, buf), s) \<leftarrow> coarse_memory_provider_alloc (cpriv s) (p_init_buffer_size c) 0 s;
        if buf = 0 then Some (UMF_RESULT_ERROR_OUT_OF_HOST_MEMORY, s)
        else do {
          (_, s) \<leftarrow> coarse_memory_provider_free (cpriv s) buf (p_init_buffer_size c) s;
          Some (UMF_RESULT_SUCCESS, s)
        }
      } else if p_init_buffer c \<noteq> 0 then do {
        (res, s) \<leftarrow> coarse_add_upstream_block (init_buffer (cp s)) (p_init_buffer_size c) s;
        if res \<noteq> UMF_RESULT_SUCCESS then Some (res, s)
        else do {
          (_, s) \<leftarrow> coarse_memory_provider_free (cpriv s) (init_buffer (cp s)) (p_init_buffer_size c) s;
          Some (UMF_RESULT_SUCCESS, s)
        }
      } else Some (UMF_RESULT_SUCCESS, s))"

text \<open>When the mutex cannot be initialised the result is the one of the function that set the name,
  success, and the pointer to the provider is not stored: the null pointer stands for what it held.\<close>

definition coarse_memory_provider_initialize :: "ptr \<Rightarrow> (umf_result \<times> ptr, 'w coarse_state) eff" where
  "coarse_memory_provider_initialize params s =
     (if params = NULL then Some ((UMF_RESULT_ERROR_INVALID_ARGUMENT, NULL), s)
      else do {
        c \<leftarrow> cparams s;
        if \<not> coarse_params_ok c then Some ((UMF_RESULT_ERROR_INVALID_ARGUMENT, NULL), s)
        else do {
          let (coarse_provider, s) = host_alloc s;
          if coarse_provider = NULL then Some ((UMF_RESULT_ERROR_OUT_OF_HOST_MEMORY, NULL), s)
          else do {
            no_free \<leftarrow> (if p_upstream_memory_provider c \<noteq> NULL
                       then umfIsFreeOpDefault (cup s) (p_upstream_memory_provider c) else Some False);
            let s = s\<lparr>cpriv := coarse_provider, cp := \<lparr>upstream_memory_provider = p_upstream_memory_provider c,
              destroy_upstream_memory_provider = p_destroy_upstream_memory_provider c,
              allocation_strategy = p_allocation_strategy c, init_buffer = p_init_buffer c, used_size = 0, alloc_size = 0,
              upstream_blocks = no_tree, all_blocks = no_tree, free_blocks = no_tree, clock = False, cname = None,
              disable_upstream_provider_free = no_free\<rparr>\<rparr>;
            (res, s) \<leftarrow> coarse_memory_provider_set_name s;
            if res \<noteq> UMF_RESULT_SUCCESS then init_failed res [] s
            else case coarse_new_ravl s of
              (None, s) \<Rightarrow> init_failed UMF_RESULT_ERROR_OUT_OF_HOST_MEMORY [] s
            | (Some ut, s) \<Rightarrow> (case coarse_new_ravl s of
                (None, s) \<Rightarrow> init_failed UMF_RESULT_ERROR_OUT_OF_HOST_MEMORY [ut] s
              | (Some ft, s) \<Rightarrow> (case coarse_new_ravl s of
                  (None, s) \<Rightarrow> init_failed UMF_RESULT_ERROR_OUT_OF_HOST_MEMORY [ft, ut] s
                | (Some at, s) \<Rightarrow>
                    if \<not> cmutex_ok s then init_failed res [at, ft, ut] s
                    else do {
                      let s = set_cp (\<lambda>p. p\<lparr>upstream_blocks := ut, free_blocks := ft, all_blocks := at\<rparr>) s;
                      (res, s) \<leftarrow> init_memory c s;
                      if res \<noteq> UMF_RESULT_SUCCESS
                      then init_failed res [all_blocks (cp s), free_blocks (cp s), upstream_blocks (cp s)] s
                      else do {
                        guard (used_size (cp s) = 0);
                        guard (alloc_size (cp s) = p_init_buffer_size c);
                        debug_check s;
                        Some ((UMF_RESULT_SUCCESS, coarse_provider), s)
                      }
                    }))
          }
        }
      })"

section \<open>Destruction\<close>

definition coarse_ravl_cb_rm_upstream_blocks_node ::
  "ravl_data_t payload \<Rightarrow> 'w coarse_state option \<Rightarrow> 'w coarse_state option" where
  "coarse_ravl_cb_rm_upstream_blocks_node data acc = do {
     s \<leftarrow> acc;
     d \<leftarrow> node_bytes data;
     guard (rvalue d \<noteq> NULL);
     a \<leftarrow> blocks (heap s) (rvalue d);
     s \<leftarrow> (if upstream_memory_provider (cp s) \<noteq> NULL \<and> \<not> disable_upstream_provider_free (cp s)
          then do {
            (_, u) \<leftarrow> umfMemoryProviderFree (upstream_memory_provider (cp s)) (bdata a) (bsize a) (cup s);
            Some (s\<lparr>cup := u\<rparr>)
          } else Some s);
     guard (alloc_size (cp s) \<ge> bsize a);
     free_block (rvalue d) (set_cp (\<lambda>p. p\<lparr>alloc_size := alloc_size p - bsize a\<rparr>) s)
   }"

definition coarse_ravl_cb_rm_all_blocks_node ::
  "ravl_data_t payload \<Rightarrow> 'w coarse_state option \<Rightarrow> 'w coarse_state option" where
  "coarse_ravl_cb_rm_all_blocks_node data acc = do {
     s \<leftarrow> acc;
     d \<leftarrow> node_bytes data;
     guard (rvalue d \<noteq> NULL);
     b \<leftarrow> blocks (heap s) (rvalue d);
     s \<leftarrow> (if bused b then do {
            guard (used_size (cp s) \<ge> bsize b);
            Some (set_cp (\<lambda>p. p\<lparr>used_size := used_size p - bsize b\<rparr>) s)
          } else Some s);
     s \<leftarrow> (if free_list_ptr b \<noteq> NULL then rm_free (free_list_ptr b) s else Some s);
     free_block (rvalue d) s
   }"

definition coarse_memory_provider_finalize :: "ptr \<Rightarrow> (unit, 'w coarse_state) eff" where
  "coarse_memory_provider_finalize provider s = do {
     guard (provider \<noteq> NULL);
     guard (provider = cpriv s);
     (t, _) \<leftarrow> ravl_foreach (all_blocks (cp s)) (Some coarse_ravl_cb_rm_all_blocks_node) (Some s);
     s \<leftarrow> t;
     guard (used_size (cp s) = 0);
     (t, _) \<leftarrow> ravl_foreach (upstream_blocks (cp s)) (Some coarse_ravl_cb_rm_upstream_blocks_node) (Some s);
     s \<leftarrow> t;
     guard (alloc_size (cp s) = 0);
     delete_trees [upstream_blocks (cp s), all_blocks (cp s), free_blocks (cp s)];
     s \<leftarrow> (if destroy_upstream_memory_provider (cp s) \<and> upstream_memory_provider (cp s) \<noteq> NULL
          then do {
            u \<leftarrow> umfMemoryProviderDestroy (upstream_memory_provider (cp s)) (cup s);
            Some (s\<lparr>cup := u\<rparr>)
          } else Some s);
     Some ((), s\<lparr>cpriv := NULL\<rparr>)
   }"

section \<open>The table of operations\<close>

text \<open>The variable of the thread that names the last failed provider is the one of the upstream
  provider layer while an operation runs.\<close>

definition coarse_op :: "('a, 'w coarse_state) eff \<Rightarrow> ('a, 'w coarse_state \<times> ptr) eff" where
  "coarse_op = in_thread (\<lambda>s. lastFailedProvider (cup s)) (\<lambda>l s. s\<lparr>cup := (cup s)\<lparr>lastFailedProvider := l\<rparr>\<rparr>)"

definition UMF_COARSE_MEMORY_PROVIDER_OPS :: "('w coarse_state \<times> ptr) umf_memory_provider_ops_t" where
  "UMF_COARSE_MEMORY_PROVIDER_OPS = \<lparr>version = UMF_VERSION_CURRENT,
     initialize = Some (\<lambda>params. coarse_op (coarse_memory_provider_initialize params)),
     finalize = Some (\<lambda>priv. coarse_op (coarse_memory_provider_finalize priv)),
     op_alloc = Some (\<lambda>priv sz al. coarse_op (coarse_memory_provider_alloc priv sz al)),
     get_last_native_error = Some (\<lambda>priv. coarse_op (coarse_memory_provider_get_last_native_error priv)),
     get_recommended_page_size = Some (\<lambda>priv sz. coarse_op (coarse_memory_provider_get_recommended_page_size priv sz)),
     get_min_page_size = Some (\<lambda>priv a. coarse_op (coarse_memory_provider_get_min_page_size priv a)),
     get_name = Some (\<lambda>priv. coarse_op (coarse_memory_provider_get_name priv)),
     ext_free = Op (\<lambda>priv a sz. coarse_op (coarse_memory_provider_free priv a sz)),
     purge_lazy = Op (\<lambda>priv a sz. coarse_op (coarse_memory_provider_purge_lazy priv a sz)),
     purge_force = Op (\<lambda>priv a sz. coarse_op (coarse_memory_provider_purge_force priv a sz)),
     allocation_split = Op (\<lambda>priv a tot first. coarse_op (coarse_memory_provider_allocation_split priv a tot first)),
     allocation_merge = Op (\<lambda>priv low high tot. coarse_op (coarse_memory_provider_allocation_merge priv low high tot)),
     get_ipc_handle_size = NullOp,
     get_ipc_handle = NullOp,
     put_ipc_handle = NullOp,
     open_ipc_handle = NullOp,
     close_ipc_handle = NullOp\<rparr>"

definition no_stats :: coarse_memory_provider_stats_t where
  "no_stats = \<lparr>s_alloc_size = 0, s_used_size = 0, s_num_upstream_blocks = 0, s_num_all_blocks = 0, s_num_free_blocks = 0\<rparr>"

definition umfCoarseMemoryProviderGetStats ::
  "ptr \<Rightarrow> (coarse_memory_provider_stats_t, ('w coarse_state) prov_state) eff" where
  "umfCoarseMemoryProviderGetStats provider s =
     (if provider = NULL then Some (no_stats, s)
      else do {
        priv \<leftarrow> umfMemoryProviderGetPriv s provider;
        guard (priv = cpriv (world s) \<and> priv \<noteq> NULL);
        c \<leftarrow> lock_coarse (world s);
        stats \<leftarrow> coarse_memory_provider_get_stats c;
        Some (stats, s\<lparr>world := unlock_coarse c\<rparr>)
      })"

end
