(* ===== verification/Coarse_Layout.thy ===== *)
theory Coarse_Layout
  imports Coarse_Lists Coarse_Ops
begin

text \<open>
  The invariant of the coarse provider. The abstract state is two sequences of blocks in the order of
  their addresses: the blocks obtained from upstream and the blocks they are divided into. Blocks do
  not overlap, every block lies in a block from upstream, the lists of free blocks hold exactly the
  unused ones, no two free neighbours of the same origin are left unmerged, and the counters are the
  sums of the sizes. Addresses are compared as natural numbers: no block reaches the end of the
  address space.
\<close>

section \<open>Blocks as intervals\<close>

type_synonym cblock = "ptr \<times> block_t"

definition lo :: "block_t \<Rightarrow> nat" where "lo b = unat (bdata b)"
definition hi :: "block_t \<Rightarrow> nat" where "hi b = unat (bdata b) + unat (bsize b)"

definition blk_ok :: "block_t \<Rightarrow> bool" where
  "blk_ok b \<longleftrightarrow> bdata b \<noteq> 0 \<and> bsize b \<noteq> 0 \<and> hi b < 2 ^ 64"

definition inside :: "block_t \<Rightarrow> block_t \<Rightarrow> bool" where
  "inside b u \<longleftrightarrow> lo u \<le> lo b \<and> hi b \<le> hi u"

definition before :: "cblock \<Rightarrow> cblock \<Rightarrow> bool" where
  "before x y \<longleftrightarrow> hi (snd x) \<le> lo (snd y)"

definition same_org :: "cblock list \<Rightarrow> block_t \<Rightarrow> block_t \<Rightarrow> bool" where
  "same_org us b c \<longleftrightarrow> (\<exists>u \<in> set us. inside b (snd u) \<and> inside c (snd u))"

definition may_join :: "cblock list \<Rightarrow> cblock \<Rightarrow> cblock \<Rightarrow> bool" where
  "may_join us x y \<longleftrightarrow> \<not> bused (snd x) \<and> \<not> bused (snd y) \<and> hi (snd x) = lo (snd y) \<and> same_org us (snd x) (snd y)"

definition layout :: "cblock list \<Rightarrow> cblock list \<Rightarrow> bool" where
  "layout us bs \<longleftrightarrow> (\<forall>x \<in> set us \<union> set bs. blk_ok (snd x) \<and> fst x \<noteq> NULL) \<and> distinct (map fst (us @ bs)) \<and>
     sorted_wrt before us \<and> sorted_wrt before bs \<and> (\<forall>x \<in> set bs. \<exists>u \<in> set us. inside (snd x) (snd u))"

definition merged :: "cblock list \<Rightarrow> cblock list \<Rightarrow> bool" where
  "merged us bs \<longleftrightarrow> successively (\<lambda>x y. \<not> may_join us x y) bs"

definition blk_sum :: "cblock list \<Rightarrow> nat" where
  "blk_sum bs = (\<Sum>x\<leftarrow>bs. unat (bsize (snd x)))"

definition used_sum :: "cblock list \<Rightarrow> nat" where
  "used_sum bs = blk_sum (filter (\<lambda>x. bused (snd x)) bs)"

definition free_set :: "cblock list \<Rightarrow> (u64 \<times> ptr \<times> ptr) set" where
  "free_set bs = (\<lambda>x. (bsize (snd x), free_list_ptr (snd x), fst x)) ` set (filter (\<lambda>x. \<not> bused (snd x)) bs)"

lemma blk_ok_lt: "blk_ok b \<Longrightarrow> lo b < hi b"
  by (simp add: blk_ok_def lo_def hi_def unat_gt_0)

lemma blk_ok_end: "blk_ok b \<Longrightarrow> unat (bdata b + bsize b) = hi b"
  using unat_add_lem [of "bdata b" "bsize b"] by (simp add: blk_ok_def hi_def)

lemma data_less: "bdata b < bdata c \<longleftrightarrow> lo b < lo c" "bdata b \<le> bdata c \<longleftrightarrow> lo b \<le> lo c"
  by (simp_all add: lo_def word_less_nat_alt word_le_nat_alt)

lemma end_le: "blk_ok b \<Longrightarrow> bdata b + bsize b \<le> bdata c \<longleftrightarrow> hi b \<le> lo c"
  by (simp add: word_le_nat_alt blk_ok_end lo_def)

lemma end_eq: "blk_ok b \<Longrightarrow> bdata b + bsize b = bdata c \<longleftrightarrow> hi b = lo c"
  by (simp add: word_unat_eq_iff blk_ok_end lo_def)

lemma origin_inside: "blk_ok b \<Longrightarrow> blk_ok u \<Longrightarrow> IS_ORIGIN_OF_BLOCK u b \<longleftrightarrow> inside b u"
  unfolding IS_ORIGIN_OF_BLOCK_def inside_def by (simp add: data_less(2)) (simp add: word_le_nat_alt blk_ok_end)

lemma before_trans: "before x y \<Longrightarrow> before y z \<Longrightarrow> blk_ok (snd y) \<Longrightarrow> before x z"
  using blk_ok_lt [of "snd y"] by (auto simp: before_def)

section \<open>Stored sequences\<close>

definition block_data :: "cblock \<Rightarrow> ravl_data_t" where
  "block_data x = \<lparr>rkey = bdata (snd x), rvalue = fst x\<rparr>"

definition stored :: "ravl_data_t ravl \<Rightarrow> (ptr \<rightharpoonup> block_t) \<Rightarrow> cblock list \<Rightarrow> (ptr \<times> ravl_data_t) list \<Rightarrow> bool" where
  "stored r B bs xs \<longleftrightarrow> block_tree r xs \<and> map snd xs = map block_data bs \<and> (\<forall>x \<in> set bs. fst x \<noteq> NULL \<and> B (fst x) = Some (snd x))"

lemma block_data_simps [simp]: "rkey (block_data x) = bdata (snd x)" "rvalue (block_data x) = fst x"
  by (simp_all add: block_data_def)

lemma stored_length: "stored r B bs xs \<Longrightarrow> length xs = length bs"
  unfolding stored_def by (metis length_map)

lemma stored_split:
  assumes "stored r B (b1 @ x # b2) xs"
  obtains x1 n x2 where "xs = x1 @ (n, block_data x) # x2" "map snd x1 = map block_data b1" "map snd x2 = map block_data b2"
    "n \<noteq> NULL" "fst x \<noteq> NULL" "B (fst x) = Some (snd x)" "get_node_block r n = Some (fst x)"
    "coarse_ravl_find_node r (bdata (snd x)) = Some n"
proof -
  from assms have t: "block_tree r xs" and m: "map snd xs = map block_data b1 @ block_data x # map block_data b2"
    and x: "fst x \<noteq> NULL" "B (fst x) = Some (snd x)" by (auto simp: stored_def)
  from m obtain x1 y x2 where xs: "xs = x1 @ y # x2" "map snd x1 = map block_data b1" "snd y = block_data x" "map snd x2 = map block_data b2"
    by (auto simp: map_eq_append_conv map_eq_Cons_conv)
  obtain n where y: "y = (n, block_data x)" using xs(3) by (cases y) auto
  note t' = t [unfolded xs(1) y]
  show thesis
    by (rule that [of x1 n x2]) (use xs y x block_tree_nodes(2) [OF t', of "(n, block_data x)"] node_block_ok [OF t', of n "block_data x"] find_node_ok(1) [OF t'] in auto)
qed

lemma stored_keys: "stored r B bs xs \<Longrightarrow> map key xs = map (\<lambda>x. bdata (snd x)) bs"
proof -
  assume "stored r B bs xs"
  then have m: "map snd xs = map block_data bs" by (simp add: stored_def)
  have "map key xs = map rkey (map snd xs)" by simp
  then show ?thesis unfolding m by simp
qed

section \<open>The origin of a block\<close>

lemma sorted_wrt_either: "sorted_wrt P xs \<Longrightarrow> x \<in> set xs \<Longrightarrow> y \<in> set xs \<Longrightarrow> x = y \<or> P x y \<or> P y x"
  by (induction xs) auto

lemma unique_origin:
  assumes "layout us bs" "u \<in> set us" "v \<in> set us" "blk_ok b" "inside b (snd u)" "inside b (snd v)"
  shows "u = v"
proof (rule ccontr)
  assume "u \<noteq> v"
  with assms(1-3) have "before u v \<or> before v u" using sorted_wrt_either [of before us u v] by (auto simp: layout_def)
  then show False using assms(4-6) blk_ok_lt [OF assms(4)] by (auto simp: before_def inside_def)
qed

lemma is_same_origin_ok:
  assumes st: "stored up (blocks h) us uxs" and lay: "layout us bs" and u: "u \<in> set us" "inside b1 (snd u)"
    and b: "blocks h p1 = Some b1" "blk_ok b1" "blocks h p2 = Some b2" "blk_ok b2"
  shows "is_same_origin up h p1 p2 = Some (same_org us b1 b2)"
proof -
  obtain u1 u2 where us: "us = u1 @ u # u2" using u(1) by (auto dest: split_list)
  obtain x1 n x2 where x: "uxs = x1 @ (n, block_data u) # x2" "map snd x1 = map block_data u1" "map snd x2 = map block_data u2"
    "n \<noteq> NULL" "fst u \<noteq> NULL" "blocks h (fst u) = Some (snd u)" "get_node_block up n = Some (fst u)"
    by (rule stored_split [OF st [unfolded us]])
  have t: "block_tree up (x1 @ (n, block_data u) # x2)" using st x(1) by (simp add: stored_def)
  have uk: "blk_ok (snd u)" using lay u(1) by (auto simp: layout_def)
  have find: "ravl_find up \<lparr>rkey = bdata b1, rvalue = NULL\<rparr> RAVL_PREDICATE_LESS_EQUAL = Some n"
  proof (cases "bdata b1 = bdata (snd u)")
    case True
    then show ?thesis using find_mid [OF t, of "\<lparr>rkey = bdata b1, rvalue = NULL\<rparr>"] by simp
  next
    case False
    have gt: "bdata (snd u) < bdata b1" using u(2) False by (auto simp: inside_def less_le simp flip: data_less(2))
    have "\<forall>y \<in> set u2. lo b1 < lo (snd y)"
      using lay u(2) blk_ok_lt [OF b(2)] by (auto simp: us layout_def sorted_wrt_append before_def inside_def dest!: bspec)
    then have "\<forall>k \<in> set (map (\<lambda>x. bdata (snd x)) u2). bdata b1 < k" by (simp add: data_less(1))
    moreover have "map key x2 = map (\<lambda>x. bdata (snd x)) u2"
    proof -
      have "map key x2 = map rkey (map snd x2)" by simp
      then show ?thesis unfolding x(3) by simp
    qed
    ultimately have "\<forall>k \<in> set (map key x2). bdata b1 < k" by (simp only:)
    then have r: "\<forall>y \<in> set x2. bdata b1 < key y" by simp
    have l: "\<forall>y \<in> set (x1 @ [(n, block_data u)]). key y < bdata b1"
      using block_tree_sorted [OF t] gt by (fastforce simp: sorted_wrt_append)
    show ?thesis
      using find_split [of up "x1 @ [(n, block_data u)]" x2 "\<lparr>rkey = bdata b1, rvalue = NULL\<rparr>" RAVL_PREDICATE_LESS_EQUAL] t l r
      by (simp add: in_hand_def)
  qed
  have "inside b2 (snd u) \<longleftrightarrow> same_org us b1 b2"
    unfolding same_org_def using unique_origin [OF lay u(1) _ b(2) u(2)] u by blast
  with find x b u uk show ?thesis by (simp add: is_same_origin_def origin_inside)
qed

section \<open>The state\<close>

text \<open>\<open>rep s us bs S xs\<close>: the trees and stores of the state hold the blocks from upstream \<open>us\<close>, the blocks
  \<open>bs\<close>, whose nodes are \<open>xs\<close>, and the free lists \<open>S\<close>.\<close>

definition rep :: "'w coarse_state \<Rightarrow> cblock list \<Rightarrow> cblock list \<Rightarrow> (u64 \<times> ptr \<times> ptr) set \<Rightarrow> (ptr \<times> ravl_data_t) list \<Rightarrow> bool" where
  "rep s us bs S xs \<longleftrightarrow> (\<exists>uxs. stored (upstream_blocks (cp s)) (blocks (heap s)) us uxs) \<and>
     stored (all_blocks (cp s)) (blocks (heap s)) bs xs \<and> free_holds (free_blocks (cp s)) (heap s) S \<and> layout us bs"

definition counters :: "'w coarse_state \<Rightarrow> cblock list \<Rightarrow> cblock list \<Rightarrow> bool" where
  "counters s us bs \<longleftrightarrow> unat (used_size (cp s)) = used_sum bs \<and> unat (alloc_size (cp s)) = blk_sum bs \<and> blk_sum us = blk_sum bs"

definition coarse_ok :: "'w coarse_state \<Rightarrow> cblock list \<Rightarrow> cblock list \<Rightarrow> bool" where
  "coarse_ok s us bs \<longleftrightarrow> (\<exists>xs. rep s us bs (free_set bs) xs) \<and> (\<forall>x \<in> set bs. bused (snd x) \<longrightarrow> free_list_ptr (snd x) = NULL) \<and>
     merged us bs \<and> counters s us bs"

lemma blk_sum_simps [simp]:
  "blk_sum [] = 0" "blk_sum (x # bs) = unat (bsize (snd x)) + blk_sum bs" "blk_sum (bs @ cs) = blk_sum bs + blk_sum cs"
  by (simp_all add: blk_sum_def)

lemma used_sum_simps [simp]:
  "used_sum [] = 0" "used_sum (x # bs) = (if bused (snd x) then unat (bsize (snd x)) else 0) + used_sum bs"
  "used_sum (bs @ cs) = used_sum bs + used_sum cs"
  by (simp_all add: used_sum_def)

lemma used_sum_le: "used_sum bs \<le> blk_sum bs"
  by (induction bs) auto

lemma free_set_simps [simp]:
  "free_set [] = {}" "free_set (x # bs) = (if bused (snd x) then {} else {(bsize (snd x), free_list_ptr (snd x), fst x)}) \<union> free_set bs"
  "free_set (bs @ cs) = free_set bs \<union> free_set cs"
  by (auto simp: free_set_def)

lemma card_free_set:
  assumes "distinct (map fst bs)"
  shows "finite (free_set bs) \<and> card (free_set bs) = length (filter (\<lambda>x. \<not> bused (snd x)) bs)"
  using assms
proof (induction bs)
  case (Cons x bs)
  have "(k, e, fst x) \<notin> free_set bs" for k e using Cons.prems by (auto simp: free_set_def rev_image_eqI)
  with Cons show ?case by auto
qed simp

section \<open>Neighbours\<close>

definition next_blk :: "cblock list \<Rightarrow> ptr" where "next_blk bs = (if bs = [] then NULL else fst (hd bs))"
definition prev_blk :: "cblock list \<Rightarrow> ptr" where "prev_blk bs = (if bs = [] then NULL else fst (last bs))"

lemma block_neighbours:
  assumes st: "stored r B (b1 @ x # b2) (x1 @ (n, d) # x2)" and m: "map snd x1 = map block_data b1" "map snd x2 = map block_data b2"
  shows "get_block_next r n = Some (next_blk b2)" "get_block_prev r n = Some (prev_blk b1)"
proof -
  have t: "block_tree r (x1 @ (n, d) # x2)" using st by (simp add: stored_def)
  have nn: "get_node_block r (fst y) = Some (rvalue (snd y)) \<and> fst y \<noteq> NULL" if "y \<in> set x1 \<union> set x2" for y
  proof -
    have "block_data ` set b1 = snd ` set x1" "block_data ` set b2 = snd ` set x2" using m by (metis list.set_map)+
    then have "snd y \<in> block_data ` (set b1 \<union> set b2)" using that by blast
    then obtain z where "snd y = block_data z" "z \<in> set (b1 @ x # b2)" by auto
    then have "rvalue (snd y) \<noteq> NULL" using st by (metis block_data_simps(2) stored_def)
    then show ?thesis using that node_block_ok [OF t, of "fst y" "snd y"] block_tree_nodes(2) [OF t, of y] by auto
  qed
  show "get_block_next r n = Some (next_blk b2)"
  proof (cases x2)
    case Nil
    then show ?thesis using m nav_holds(1) [OF t] by (simp add: get_block_next_def next_blk_def get_node_next_def)
  next
    case (Cons y ys)
    then obtain z zs where "b2 = z # zs" "snd y = block_data z" using m(2) by (cases b2) auto
    then show ?thesis using Cons nav_holds(1) [OF t] nn [of y] by (cases y) (simp add: get_block_next_def next_blk_def get_node_next_def)
  qed
  show "get_block_prev r n = Some (prev_blk b1)"
  proof (cases x1 rule: rev_cases)
    case Nil
    then show ?thesis using m nav_holds(2) [OF t] by (simp add: get_block_prev_def prev_blk_def get_node_prev_def)
  next
    case (snoc ys y)
    then obtain z zs where "b1 = zs @ [z]" "snd y = block_data z" using m(1) by (cases b1 rule: rev_cases) auto
    then show ?thesis using snoc nav_holds(2) [OF t] nn [of y] by (cases y) (simp add: get_block_prev_def prev_blk_def get_node_prev_def)
  qed
qed

end
