(* ===== verification/Coarse_Check.thy ===== *)
theory Coarse_Check
  imports Coarse_Layout
begin

text \<open>
  The statistics of the coarse provider and the check of the debug build, in a state that satisfies the
  invariant: the statistics count the blocks, and no assertion of the check fails.
\<close>

section \<open>Callbacks\<close>

lemma fold_some:
  assumes "\<And>x a. x \<in> set xs \<Longrightarrow> f x (Some a) = Some (g x a)"
  shows "fold f xs (Some a) = Some (fold g xs a)"
  using assms by (induction xs arbitrary: a) auto

lemma foreach_block_tree:
  "block_tree r xs \<Longrightarrow> ravl_foreach r (Some f) a = Some (fold (\<lambda>x. f (PInline (snd x))) xs a, r)"
  using ravl_foreach_holds [of r False xs f a] by (simp add: block_tree_def pay_def)

lemma count_list_dseg:
  "dseg (elems h) pv p l lv NULL \<Longrightarrow> count_list h p n = Some (n + of_nat (length l))"
proof (induction l arbitrary: pv p n)
  case Nil
  then show ?case by (subst count_list.simps) simp
next
  case (Cons y l)
  obtain e b where y: "y = (e, b)" by (cases y)
  with Cons.prems obtain q where "p = e" "e \<noteq> NULL" "elems h e = Some \<lparr>eblock = b, enext = q, eprev = pv\<rparr>"
    "dseg (elems h) e q l lv NULL" by auto
  with Cons.IH [of e q "n + 1"] show ?case by (subst count_list.simps) (simp add: algebra_simps)
qed

lemma entry_count:
  assumes "entry_ok h (k, hp, l)"
  shows "ravl_cb_count_free h (PInline \<lparr>rkey = k, rvalue = hp\<rparr>) (Some n) = Some (n + of_nat (length l))"
proof -
  from assms obtain p lv where p: "fheads h hp = Some \<lparr>fhead = p\<rparr>" "dlist (elems h) p l" "l \<noteq> []" "dseg (elems h) NULL p l lv NULL"
    by (auto simp: entry_ok_def dlist_def)
  then have "p \<noteq> NULL" using dlist_NULL [OF p(2)] by simp
  then show ?thesis using p count_list_dseg [OF p(4)] by (simp add: ravl_cb_count_free_def)
qed

lemma entry_distinct: "entry_ok h (k, hp, l) \<Longrightarrow> distinct (map fst l)"
  by (auto simp: entry_ok_def dlist_def)

lemma card_triples:
  assumes "\<forall>f \<in> set fl. entry_ok h f"
    "sorted_wrt (\<lambda>f g. fst (snd f) \<noteq> fst (snd g) \<and> entry_elems f \<inter> entry_elems g = {}) fl"
  shows "finite (triples fl) \<and> card (triples fl) = (\<Sum>f\<leftarrow>fl. length (snd (snd f)))"
  using assms
proof (induction fl)
  case (Cons f fl)
  obtain k hp l where f: "f = (k, hp, l)" by (cases f)
  have d: "distinct l" using Cons.prems(1) entry_distinct [of h k hp l] by (auto simp: f distinct_map)
  have "({k} \<times> set l) \<inter> triples fl = {}"
  proof (rule ccontr)
    assume "({k} \<times> set l) \<inter> triples fl \<noteq> {}"
    then obtain e b hp' l' where "(e, b) \<in> set l" "(k, hp', l') \<in> set fl" "(e, b) \<in> set l'" by (auto simp: triples_def)
    moreover have "\<forall>g \<in> set fl. entry_elems f \<inter> entry_elems g = {}" using Cons.prems(2) by simp
    ultimately have "entry_elems f \<inter> entry_elems (k, hp', l') = {}" "e \<in> entry_elems f" "e \<in> entry_elems (k, hp', l')"
      by (blast, force simp: f, force)
    then show False by blast
  qed
  with Cons d show ?case by (simp add: f card_Un_disjoint card_cartesian_product distinct_card)
qed simp

lemma free_count:
  assumes "free_holds r h S"
  shows "ravl_foreach r (Some (ravl_cb_count_free h)) (Some 0) = Some (Some (of_nat (card S)), r)"
proof -
  from assms obtain fl fs where fl: "free_ok r h fl" "S = triples fl" and fs: "block_tree r fs" "map snd fs = map entry_data fl"
    by (auto simp: free_holds_def free_ok_def)
  have "fold (\<lambda>d. ravl_cb_count_free h (PInline d)) (map entry_data fl) (Some n) = Some (n + of_nat (\<Sum>f\<leftarrow>fl. length (snd (snd f))))"
    if "\<forall>f \<in> set fl. entry_ok h f" for n
    using that
  proof (induction fl arbitrary: n)
    case (Cons f fl)
    then show ?case using entry_count [of h "fst f" "fst (snd f)" "snd (snd f)"] by (simp add: entry_data_def add.assoc)
  qed simp
  then have "fold (\<lambda>d. ravl_cb_count_free h (PInline d)) (map snd fs) (Some 0) = Some (of_nat (\<Sum>f\<leftarrow>fl. length (snd (snd f))))"
    using fl(1) by (simp add: fs(2) free_ok_def)
  then have "fold (\<lambda>x. ravl_cb_count_free h (PInline (snd x))) fs (Some 0) = Some (of_nat (\<Sum>f\<leftarrow>fl. length (snd (snd f))))"
    by (simp add: fold_map comp_def)
  with foreach_block_tree [OF fs(1), of "ravl_cb_count_free h" "Some 0"] card_triples [of fl h] fl show ?thesis by (simp add: free_ok_def)
qed

lemma block_count: "block_tree r xs \<Longrightarrow> ravl_foreach r (Some ravl_cb_count) 0 = Some (of_nat (length xs), r)"
proof -
  assume t: "block_tree r xs"
  have "fold (\<lambda>x. ravl_cb_count (PInline (snd x))) xs n = n + of_nat (length xs)" for n
    by (induction xs arbitrary: n) (simp_all add: ravl_cb_count_def add.assoc)
  then show ?thesis using foreach_block_tree [OF t, of ravl_cb_count 0] by simp
qed

text \<open>The statistics of a state.\<close>

lemma stats_ok:
  assumes "rep s us bs S xs"
  shows "coarse_memory_provider_get_stats s = Some \<lparr>s_alloc_size = alloc_size (cp s), s_used_size = used_size (cp s),
    s_num_upstream_blocks = of_nat (length us), s_num_all_blocks = of_nat (length bs), s_num_free_blocks = of_nat (card S)\<rparr>"
proof -
  from assms obtain uxs where u: "stored (upstream_blocks (cp s)) (blocks (heap s)) us uxs" "stored (all_blocks (cp s)) (blocks (heap s)) bs xs"
    "free_holds (free_blocks (cp s)) (heap s) S" by (auto simp: rep_def)
  then show ?thesis
    using block_count [of "upstream_blocks (cp s)" uxs] block_count [of "all_blocks (cp s)" xs] free_count [OF u(3)]
      stored_length [OF u(1)] stored_length [OF u(2)]
    by (simp add: coarse_memory_provider_get_stats_def stored_def)
qed

section \<open>The check\<close>

lemma of_unat: "unat (w :: u64) = n \<Longrightarrow> w = of_nat n"
  by auto

text \<open>What the callbacks add up.\<close>

definition add_all :: "block_t \<Rightarrow> debug_cb_args_t \<Rightarrow> debug_cb_args_t" where
  "add_all b acc = acc\<lparr>num_all_blocks := num_all_blocks acc + 1,
     num_free_blocks := num_free_blocks acc + (if bused b then 0 else 1),
     sum_blocks_size := sum_blocks_size acc + bsize b, sum_used := sum_used acc + (if bused b then bsize b else 0)\<rparr>"

definition add_up :: "block_t \<Rightarrow> debug_cb_args_t \<Rightarrow> debug_cb_args_t" where
  "add_up a acc = acc\<lparr>num_alloc_blocks := num_alloc_blocks acc + 1, sum_alloc_size := sum_alloc_size acc + bsize a\<rparr>"

lemma block_at_next:
  assumes "\<forall>x \<in> set bs. fst x \<noteq> NULL \<and> blocks h (fst x) = Some (snd x)"
  shows "block_at h (next_blk bs) = Some (if bs = [] then None else Some (snd (hd bs)))"
    "block_at h (prev_blk bs) = Some (if bs = [] then None else Some (snd (last bs)))"
  using assms by (auto simp: block_at_def next_blk_def prev_blk_def)

lemma verify_all_ok:
  assumes ok: "rep s us bs S xs" "merged us bs" and x: "(n, d) \<in> set xs"
  shows "\<exists>b. blocks (heap s) (rvalue d) = Some b \<and>
    debug_verify_all_blocks_cb s (PInline d) (Some acc) = Some (add_all b acc)"
proof -
  from ok obtain uxs where u: "stored (upstream_blocks (cp s)) (blocks (heap s)) us uxs"
    and st: "stored (all_blocks (cp s)) (blocks (heap s)) bs xs" and lay: "layout us bs" by (auto simp: rep_def)
  obtain x1 x2 where xs: "xs = x1 @ (n, d) # x2" using x by (auto dest: split_list)
  then obtain b1 z b2 where bs: "bs = b1 @ z # b2" "map snd x1 = map block_data b1" "d = block_data z" "map snd x2 = map block_data b2"
    using st by (auto simp: stored_def append_eq_map_conv Cons_eq_map_conv)
  note st' = st [unfolded bs xs]
  have t: "block_tree (all_blocks (cp s)) (x1 @ (n, block_data z) # x2)" using st' by (simp add: stored_def)
  have n: "n \<noteq> NULL" using block_tree_nodes(2) [OF t, of "(n, block_data z)"] by simp
  have in_h: "\<forall>x \<in> set bs. fst x \<noteq> NULL \<and> blocks (heap s) (fst x) = Some (snd x)" using st by (simp add: stored_def)
  have fnd: "ravl_find (all_blocks (cp s)) (block_data z) RAVL_PREDICATE_EQUAL = Some n" using find_mid [OF t] by simp
  note nb = block_neighbours [OF st' [unfolded bs(3)] bs(2,4)]
  have at: "block_at (heap s) (next_blk b2) = Some (if b2 = [] then None else Some (snd (hd b2)))"
    "block_at (heap s) (prev_blk b1) = Some (if b1 = [] then None else Some (snd (last b1)))"
    using block_at_next in_h by (auto simp: bs(1))
  have bk: "\<forall>x \<in> set bs. blk_ok (snd x)" using lay by (auto simp: layout_def)
  have or: "is_same_origin (upstream_blocks (cp s)) (heap s) (fst x) (fst y) = Some (same_org us (snd x) (snd y))"
    if "x \<in> set bs" "y \<in> set bs" for x y
  proof -
    obtain v where "v \<in> set us" "inside (snd x) (snd v)" using lay \<open>x \<in> set bs\<close> by (auto simp: layout_def)
    then show ?thesis using is_same_origin_ok [OF u lay, of v "snd x" "fst x" "fst y" "snd y"] that in_h bk by auto
  qed
  have pr: "before (last b1) z \<and> \<not> may_join us (last b1) z" if "b1 \<noteq> []"
  proof -
    have "bs = butlast b1 @ last b1 # z # b2" using that by (simp add: bs(1))
    then show ?thesis using lay ok(2) by (simp add: layout_def merged_def sorted_wrt_append successively_append_iff)
  qed
  have nx: "before z (hd b2) \<and> \<not> may_join us z (hd b2)" if "b2 \<noteq> []"
  proof -
    have "bs = b1 @ z # hd b2 # tl b2" using that by (simp add: bs(1))
    then show ?thesis using lay ok(2) by (simp add: layout_def merged_def sorted_wrt_append successively_append_iff)
  qed
  have P: "b1 \<noteq> [] \<Longrightarrow> last b1 \<in> set bs" and N: "b2 \<noteq> [] \<Longrightarrow> hd b2 \<in> set bs" and Z: "z \<in> set bs" by (auto simp: bs(1))
  have zk: "bdata (snd z) \<noteq> 0" "bsize (snd z) \<noteq> 0" "lo (snd z) < hi (snd z)" using bk Z blk_ok_lt [of "snd z"] by (auto simp: blk_ok_def)
  have pc: "\<not> bused (snd (last b1)) \<Longrightarrow> \<not> bused (snd z) \<Longrightarrow> bdata (snd (last b1)) + bsize (snd (last b1)) = bdata (snd z) \<Longrightarrow>
      is_same_origin (upstream_blocks (cp s)) (heap s) (prev_blk b1) (fst z) = Some False"
    "bdata (snd (last b1)) < bdata (snd z)" if "b1 \<noteq> []"
  proof -
    have k: "blk_ok (snd (last b1))" using bk P that by auto
    show "bdata (snd (last b1)) < bdata (snd z)" using pr [OF that] blk_ok_lt [OF k] by (simp add: data_less before_def)
    show "\<not> bused (snd (last b1)) \<Longrightarrow> \<not> bused (snd z) \<Longrightarrow> bdata (snd (last b1)) + bsize (snd (last b1)) = bdata (snd z) \<Longrightarrow>
      is_same_origin (upstream_blocks (cp s)) (heap s) (prev_blk b1) (fst z) = Some False"
      using pr [OF that] or [OF P [OF that] Z] that by (simp add: prev_blk_def end_eq [OF k] may_join_def)
  qed
  have nc: "\<not> bused (snd (hd b2)) \<Longrightarrow> \<not> bused (snd z) \<Longrightarrow> bdata (snd z) + bsize (snd z) = bdata (snd (hd b2)) \<Longrightarrow>
      is_same_origin (upstream_blocks (cp s)) (heap s) (fst z) (next_blk b2) = Some False"
    "bdata (snd z) < bdata (snd (hd b2))" "bdata (snd z) + bsize (snd z) \<le> bdata (snd (hd b2))" if "b2 \<noteq> []"
  proof -
    have k: "blk_ok (snd z)" using bk Z by auto
    show "bdata (snd z) < bdata (snd (hd b2))" "bdata (snd z) + bsize (snd z) \<le> bdata (snd (hd b2))"
      using nx [OF that] blk_ok_lt [OF k] by (simp_all add: data_less before_def end_le [OF k])
    show "\<not> bused (snd (hd b2)) \<Longrightarrow> \<not> bused (snd z) \<Longrightarrow> bdata (snd z) + bsize (snd z) = bdata (snd (hd b2)) \<Longrightarrow>
      is_same_origin (upstream_blocks (cp s)) (heap s) (fst z) (next_blk b2) = Some False"
      using nx [OF that] or [OF Z N [OF that]] that by (simp add: next_blk_def end_eq [OF k] may_join_def)
  qed
  have zb: "fst z \<noteq> NULL" "blocks (heap s) (fst z) = Some (snd z)" using in_h Z by auto
  have "debug_verify_all_blocks_cb s (PInline d) (Some acc) = Some (add_all (snd z) acc)"
    unfolding debug_verify_all_blocks_cb_def bs(3)
    using zb fnd n nb at zk pc nc by (cases "b1 = []"; cases "b2 = []") (simp_all add: Let_def word_gt_0 add_all_def)
  with zb show ?thesis by (auto simp: bs(3))
qed

lemma verify_up_ok:
  assumes ok: "rep s us bs S xs" and st: "stored (upstream_blocks (cp s)) (blocks (heap s)) us uxs" and x: "(n, d) \<in> set uxs"
  shows "\<exists>b. blocks (heap s) (rvalue d) = Some b \<and>
    debug_verify_upstream_blocks_cb s (PInline d) (Some acc) = Some (add_up b acc)"
proof -
  have lay: "layout us bs" using ok by (auto simp: rep_def)
  obtain x1 x2 where xs: "uxs = x1 @ (n, d) # x2" using x by (auto dest: split_list)
  then obtain b1 z b2 where bs: "us = b1 @ z # b2" "map snd x1 = map block_data b1" "d = block_data z" "map snd x2 = map block_data b2"
    using st by (auto simp: stored_def append_eq_map_conv Cons_eq_map_conv)
  note st' = st [unfolded bs xs]
  have t: "block_tree (upstream_blocks (cp s)) (x1 @ (n, block_data z) # x2)" using st' by (simp add: stored_def)
  have n: "n \<noteq> NULL" using block_tree_nodes(2) [OF t, of "(n, block_data z)"] by simp
  have in_h: "\<forall>x \<in> set us. fst x \<noteq> NULL \<and> blocks (heap s) (fst x) = Some (snd x)" using st by (simp add: stored_def)
  have fnd: "ravl_find (upstream_blocks (cp s)) (block_data z) RAVL_PREDICATE_EQUAL = Some n" using find_mid [OF t] by simp
  note nb = block_neighbours [OF st' [unfolded bs(3)] bs(2,4)]
  have at: "block_at (heap s) (next_blk b2) = Some (if b2 = [] then None else Some (snd (hd b2)))"
    "block_at (heap s) (prev_blk b1) = Some (if b1 = [] then None else Some (snd (last b1)))"
    using block_at_next in_h by (auto simp: bs(1))
  have bk: "\<forall>x \<in> set us. blk_ok (snd x)" using lay by (auto simp: layout_def)
  have pr: "bdata (snd (last b1)) < bdata (snd z)" if "b1 \<noteq> []"
  proof -
    have "us = butlast b1 @ last b1 # z # b2" using that by (simp add: bs(1))
    moreover from this have "lo (snd (last b1)) < hi (snd (last b1))" using bk blk_ok_lt by auto
    ultimately show ?thesis using lay by (simp add: layout_def sorted_wrt_append data_less before_def)
  qed
  have z: "blk_ok (snd z)" "bdata (snd z) \<noteq> 0" "bsize (snd z) \<noteq> 0" using bk by (auto simp: bs(1) blk_ok_def)
  have nx: "bdata (snd z) < bdata (snd (hd b2)) \<and> bdata (snd z) + bsize (snd z) \<le> bdata (snd (hd b2))" if "b2 \<noteq> []"
  proof -
    have "us = b1 @ z # hd b2 # tl b2" using that by (simp add: bs(1))
    then have "hi (snd z) \<le> lo (snd (hd b2))" using lay by (simp add: layout_def sorted_wrt_append before_def)
    then show ?thesis using blk_ok_lt [OF z(1)] by (simp add: data_less end_le [OF z(1)])
  qed
  have zb: "fst z \<noteq> NULL" "blocks (heap s) (fst z) = Some (snd z)" using in_h by (auto simp: bs(1))
  have "debug_verify_upstream_blocks_cb s (PInline d) (Some acc) = Some (add_up (snd z) acc)"
    unfolding debug_verify_upstream_blocks_cb_def bs(3)
    using zb fnd n nb at z pr nx by (cases "b1 = []"; cases "b2 = []") (simp_all add: Let_def word_gt_0 add_up_def)
  with zb show ?thesis by (auto simp: bs(3))
qed

lemma fold_stored:
  assumes st: "stored r B bs xs" and f: "\<And>n d acc. (n, d) \<in> set xs \<Longrightarrow> \<exists>b. B (rvalue d) = Some b \<and> f (PInline d) (Some acc) = Some (g b acc)"
  shows "ravl_foreach r (Some f) (Some a) = Some (Some (fold (\<lambda>x. g (snd x)) bs a), r)"
proof -
  have t: "block_tree r xs" "map snd xs = map block_data bs" using st by (auto simp: stored_def)
  have "f (PInline (block_data x)) (Some acc) = Some (g (snd x) acc)" if "x \<in> set bs" for x acc
  proof -
    have "block_data x \<in> snd ` set xs" using that t(2) by (metis image_eqI list.set_map)
    then obtain n where "(n, block_data x) \<in> set xs" by force
    from f [OF this, of acc] st that show ?thesis by (auto simp: stored_def)
  qed
  then have "fold (\<lambda>x. f (PInline (block_data x))) bs (Some a) = Some (fold (\<lambda>x. g (snd x)) bs a)" by (rule fold_some)
  then have "fold (\<lambda>d. f (PInline d)) (map snd xs) (Some a) = Some (fold (\<lambda>x. g (snd x)) bs a)"
    unfolding t(2) by (simp add: fold_map comp_def)
  then show ?thesis using foreach_block_tree [OF t(1), of f "Some a"] by (simp add: fold_map comp_def)
qed

lemma sums_all:
  "fold (\<lambda>x. add_all (snd x)) bs a = a\<lparr>num_all_blocks := num_all_blocks a + of_nat (length bs),
     num_free_blocks := num_free_blocks a + of_nat (length (filter (\<lambda>x. \<not> bused (snd x)) bs)),
     sum_blocks_size := sum_blocks_size a + of_nat (blk_sum bs), sum_used := sum_used a + of_nat (used_sum bs)\<rparr>"
  by (induction bs arbitrary: a) (simp_all add: add_all_def algebra_simps)

lemma sums_up:
  "fold (\<lambda>x. add_up (snd x)) bs a = a\<lparr>num_alloc_blocks := num_alloc_blocks a + of_nat (length bs),
     sum_alloc_size := sum_alloc_size a + of_nat (blk_sum bs)\<rparr>"
  by (induction bs arbitrary: a) (simp_all add: add_up_def algebra_simps)

lemma debug_check_ok:
  assumes ok: "coarse_ok s us bs"
  shows "debug_check s = Some ()"
proof -
  from ok obtain xs uxs where r: "rep s us bs (free_set bs) xs" and u: "stored (upstream_blocks (cp s)) (blocks (heap s)) us uxs"
    and st: "stored (all_blocks (cp s)) (blocks (heap s)) bs xs" and m: "merged us bs" and c: "counters s us bs" and lay: "layout us bs"
    by (auto simp: coarse_ok_def rep_def)
  have a: "alloc_size (cp s) = of_nat (blk_sum bs)" "used_size (cp s) = of_nat (used_sum bs)"
    "blk_sum us = blk_sum bs" "used_size (cp s) \<le> alloc_size (cp s)"
    using c used_sum_le [of bs] by (simp_all add: counters_def word_le_nat_alt of_unat)
  have "distinct (map fst bs)" using lay by (simp add: layout_def)
  note stats = stats_ok [OF r] and cd = card_free_set [OF this]
  have fa: "ravl_foreach (all_blocks (cp s)) (Some (debug_verify_all_blocks_cb s)) (Some a)
      = Some (Some (fold (\<lambda>x. add_all (snd x)) bs a), all_blocks (cp s))" for a
    by (rule fold_stored [OF st]) (rule verify_all_ok [OF r m])
  have fu: "ravl_foreach (upstream_blocks (cp s)) (Some (debug_verify_upstream_blocks_cb s)) (Some a)
      = Some (Some (fold (\<lambda>x. add_up (snd x)) us a), upstream_blocks (cp s))" for a
    by (rule fold_stored [OF u]) (rule verify_up_ok [OF r u])
  show ?thesis
    unfolding debug_check_def stats using a cd by (simp add: fa fu sums_all sums_up)
qed

end
