(* ===== verification/Coarse_Steps.thy ===== *)
theory Coarse_Steps
  imports Coarse_Check
begin

text \<open>
  The building blocks of the operations of the coarse provider, on states that hold given sequences of
  blocks: adding a block, changing one, leaving and entering the lists of free blocks, and merging two
  neighbours.
\<close>

section \<open>Host memory\<close>

definition live :: "'w coarse_state \<Rightarrow> ptr set" where
  "live s = dom (blocks (heap s)) \<union> dom (fheads (heap s)) \<union> dom (elems (heap s)) \<union> dom (rnodes (upstream_blocks (cp s))) \<union>
     dom (rnodes (all_blocks (cp s))) \<union> dom (rnodes (free_blocks (cp s)))"

text \<open>The next \<open>n\<close> requests for host memory are answered by new objects.\<close>

definition ready :: "nat \<Rightarrow> 'w coarse_state \<Rightarrow> bool" where
  "ready n s \<longleftrightarrow> (\<forall>i < n. chosts (heap s) (ctick (heap s) + i) \<noteq> NULL \<and> chosts (heap s) (ctick (heap s) + i) \<notin> live s) \<and>
     inj_on (\<lambda>i. chosts (heap s) (ctick (heap s) + i)) {..<n}"

text \<open>What none of the steps changes, and how they use host memory.\<close>

definition config :: "'w coarse_state \<Rightarrow> _" where
  "config s = (cpriv s, cup s, cparams s, cpage_size s, cmutex_ok s, upstream_memory_provider (cp s), destroy_upstream_memory_provider (cp s),
     allocation_strategy (cp s), init_buffer (cp s), clock (cp s), cname (cp s), disable_upstream_provider_free (cp s))"

definition outer :: "'w coarse_state \<Rightarrow> ravl_data_t ravl \<times> u64 \<times> u64" where
  "outer s = (upstream_blocks (cp s), used_size (cp s), alloc_size (cp s))"

definition grows :: "nat \<Rightarrow> 'w coarse_state \<Rightarrow> 'w coarse_state \<Rightarrow> bool" where
  "grows m s s' \<longleftrightarrow> config s' = config s \<and> same_hosts (heap s) (heap s') \<and> ctick (heap s) \<le> ctick (heap s') \<and>
     ctick (heap s') \<le> ctick (heap s) + m \<and> live s' \<subseteq> live s \<union> answers (heap s) (ctick (heap s)) (ctick (heap s'))"

lemma grows_refl [simp]: "grows m s s"
  by (simp add: grows_def same_hosts_def)

lemma answers_append: "i \<le> j \<Longrightarrow> j \<le> k \<Longrightarrow> answers h i j \<union> answers h j k = answers h i k"
  unfolding answers_def by (metis image_Un ivl_disj_un_two(3))

lemma answers_same: "same_hosts h h' \<Longrightarrow> answers h' i j = answers h i j"
  by (simp add: same_hosts_def answers_def)

lemma grows_trans: "grows m s s' \<Longrightarrow> grows k s' s'' \<Longrightarrow> grows (m + k) s s''"
proof -
  assume a: "grows m s s'" "grows k s' s''"
  let ?h = "heap s" and ?h' = "heap s'" and ?h'' = "heap s''"
  have "live s'' \<subseteq> live s \<union> (answers ?h (ctick ?h) (ctick ?h') \<union> answers ?h (ctick ?h') (ctick ?h''))"
    using a answers_same [of ?h ?h'] by (auto simp: grows_def)
  then show ?thesis using a answers_append [of "ctick ?h" "ctick ?h'" "ctick ?h''" ?h] by (auto simp: grows_def same_hosts_def)
qed

lemma grows_mono: "grows m s s' \<Longrightarrow> m \<le> k \<Longrightarrow> grows k s s'"
  by (simp add: grows_def)

lemma ready_mono: "ready n s \<Longrightarrow> m \<le> n \<Longrightarrow> ready m s"
  by (auto simp: ready_def intro: inj_on_subset)

lemma ready_after:
  assumes r: "ready (n + m) s" and g: "grows m s s'"
  shows "ready n s'"
proof -
  let ?h = "heap s" and ?h' = "heap s'"
  define k where "k = ctick ?h' - ctick ?h"
  have k: "ctick ?h' = ctick ?h + k" "k \<le> m" using g by (auto simp: grows_def k_def)
  have ch: "chosts ?h' (ctick ?h' + i) = chosts ?h (ctick ?h + (k + i))" for i using g k by (simp add: grows_def same_hosts_def add.assoc)
  have inj: "inj_on (\<lambda>i. chosts ?h (ctick ?h + i)) {..<n + m}" using r by (simp add: ready_def)
  have ans: "answers ?h (ctick ?h) (ctick ?h') = (\<lambda>i. chosts ?h (ctick ?h + i)) ` {..<k}"
  proof -
    have "{ctick ?h..<ctick ?h + k} = (+) (ctick ?h) ` {..<k}" by (auto simp: image_iff intro: le_Suc_ex)
       (metis add.commute add_less_cancel_left le_Suc_ex lessThan_iff)
    then show ?thesis by (simp add: answers_def k(1) image_image)
  qed
  have "chosts ?h (ctick ?h + (k + i)) \<notin> live s'" if "i < n" for i
  proof
    assume "chosts ?h (ctick ?h + (k + i)) \<in> live s'"
    moreover have "chosts ?h (ctick ?h + (k + i)) \<notin> live s" using r that k by (simp add: ready_def)
    ultimately have "chosts ?h (ctick ?h + (k + i)) \<in> (\<lambda>i. chosts ?h (ctick ?h + i)) ` {..<k}"
      using g ans by (auto simp: grows_def)
    then obtain j where "j < k" "chosts ?h (ctick ?h + (k + i)) = chosts ?h (ctick ?h + j)" by auto
    then show False using inj_onD [OF inj, of "k + i" j] that k by auto
  qed
  moreover have "chosts ?h (ctick ?h + (k + i)) \<noteq> NULL" if "i < n" for i using r that k by (simp add: ready_def)
  moreover have "inj_on (\<lambda>i. chosts ?h (ctick ?h + (k + i))) {..<n}"
  proof (rule inj_onI)
    fix i j assume "i \<in> {..<n}" "j \<in> {..<n}" "chosts ?h (ctick ?h + (k + i)) = chosts ?h (ctick ?h + (k + j))"
    then show "i = j" using inj_onD [OF inj, of "k + i" "k + j"] k(2) by auto
  qed
  ultimately show ?thesis by (simp add: ready_def ch)
qed

section \<open>Frames\<close>

lemma stored_frame: "stored r B bs xs \<Longrightarrow> (\<And>x. x \<in> set bs \<Longrightarrow> B' (fst x) = B (fst x)) \<Longrightarrow> stored r B' bs xs"
  by (simp add: stored_def)

lemma stored_off:
  assumes "stored r B bs xs" "\<And>q. q \<notin> X \<Longrightarrow> B' q = B q" "X \<inter> fst ` set bs = {}"
  shows "stored r B' bs xs"
  by (rule stored_frame [OF assms(1)]) (use assms(2,3) in blast)

lemma stored_update:
  assumes "stored r B (b1 @ (p, c) # b2) xs" "bdata c' = bdata c" "p \<notin> fst ` set b1" "p \<notin> fst ` set b2"
  shows "stored r (B(p \<mapsto> c')) (b1 @ (p, c') # b2) xs"
  using assms by (auto simp: stored_def block_data_def rev_image_eqI)

lemma free_ok_frame: "free_ok r h fl \<Longrightarrow> fheads h' = fheads h \<Longrightarrow> elems h' = elems h \<Longrightarrow> free_ok r h' fl"
proof -
  assume a: "free_ok r h fl" "fheads h' = fheads h" "elems h' = elems h"
  then have "\<forall>f \<in> set fl. entry_ok h' f" using entry_ok_frame [of h _ h'] by (simp add: free_ok_def)
  with a(1) show ?thesis by (simp add: free_ok_def)
qed

lemma free_holds_frame: "free_holds r h S \<Longrightarrow> fheads h' = fheads h \<Longrightarrow> elems h' = elems h \<Longrightarrow> free_holds r h' S"
  unfolding free_holds_def using free_ok_frame by blast

lemma free_holds_elem: "free_holds r h S \<Longrightarrow> (k, e, b) \<in> S \<Longrightarrow> e \<noteq> NULL"
  using triples_minus(3) by (auto simp: free_holds_def triples_def dest!: split_list)

text \<open>The parts of a state: the blocks from upstream, the blocks and the free lists.\<close>

lemma layout_distinct:
  assumes "layout us (b1 @ x # b2)"
  shows "fst x \<notin> fst ` set b1" "fst x \<notin> fst ` set b2" "fst x \<notin> fst ` set us"
  using assms by (auto simp: layout_def)

section \<open>Steps\<close>

lemma set_block_ok:
  assumes "blocks (heap s) p = Some c"
  shows "set_block p f s = Some (s\<lparr>heap := (heap s)\<lparr>blocks := (blocks (heap s))(p \<mapsto> f c)\<rparr>\<rparr>)"
  using assms by (simp add: set_block_def upd_block_def)

lemma grows_blocks:
  "dom B \<subseteq> dom (blocks (heap s)) \<Longrightarrow> grows m s (s\<lparr>heap := (heap s)\<lparr>blocks := B\<rparr>\<rparr>)"
  by (auto simp: grows_def config_def same_hosts_def live_def)

text \<open>A new block between two others; the sequence of blocks is otherwise left alone, and so are the free
  lists and the blocks from upstream.\<close>

lemma add_block_ok:
  assumes st: "stored (all_blocks (cp s)) (blocks (heap s)) (b1 @ b2) xs" and m: "xs = x1 @ x2" "map snd x1 = map block_data b1"
    and k: "\<forall>x \<in> set b1. bdata (snd x) < data" "\<forall>x \<in> set b2. data < bdata (snd x)" and nz: "data \<noteq> 0" "sz \<noteq> 0"
    and r: "ready 2 s"
  obtains p n s' B c where "add_block data sz s = Some ((p, n), s')" "p \<noteq> NULL" "n \<noteq> NULL" "p \<notin> dom (blocks (heap s))"
    "bsize c = sz" "bdata c = data" "free_list_ptr c = NULL" "blocks (heap s') = (blocks (heap s))(p \<mapsto> c)"
    "stored (all_blocks (cp s')) (blocks (heap s')) (b1 @ (p, c) # b2) (x1 @ (n, block_data (p, c)) # x2)"
    "outer s' = outer s" "free_blocks (cp s') = free_blocks (cp s)" "fheads (heap s') = fheads (heap s)"
    "elems (heap s') = elems (heap s)" "grows 2 s s'"
proof -
  define h where "h = heap s"
  define p n where "p = chosts h (ctick h)" "n = chosts h (Suc (ctick h))"
  have f: "p \<noteq> NULL" "p \<notin> live s" "n \<noteq> NULL" "n \<notin> live s"
    using r [unfolded ready_def, THEN conjunct1, rule_format, of 0] r [unfolded ready_def, THEN conjunct1, rule_format, of 1]
    by (simp_all add: p_n_def h_def)
  have t: "block_tree (all_blocks (cp s)) (x1 @ x2)" "map snd x2 = map block_data b2" "map snd x1 = map block_data b1"
    using st m by (auto simp: stored_def)
  have "\<forall>k \<in> set (map rkey (map snd x1)). k < data" "\<forall>k \<in> set (map rkey (map snd x2)). data < k"
    unfolding t(2,3) using k by simp_all
  then have kk: "\<forall>x \<in> set x1. key x < data" "\<forall>x \<in> set x2. data < key x" by simp_all
  define c where "c = \<lparr>bsize = sz, bdata = data, bused = cjunk h (ctick h), free_list_ptr = NULL\<rparr>"
  obtain r' where r': "coarse_ravl_add_new (all_blocks (cp s)) data sz h = Some (p, n, r', h\<lparr>ctick := ctick h + 2, blocks := (blocks h)(p \<mapsto> c)\<rparr>)"
    "block_tree r' (x1 @ (n, \<lparr>rkey = data, rvalue = p\<rparr>) # x2)"
    by (rule add_new_ok [OF t(1) kk nz p_n_def(1) f(1) p_n_def(2) f(3)]) (use f in \<open>auto simp: live_def c_def\<close>)
  define s' where "s' = set_cp (\<lambda>p. p\<lparr>all_blocks := r'\<rparr>) (s\<lparr>heap := h\<lparr>ctick := ctick h + 2, blocks := (blocks h)(p \<mapsto> c)\<rparr>\<rparr>)"
  have pn: "p \<notin> dom (blocks h)" using f(2) by (auto simp: live_def h_def)
  have add: "add_block data sz s = Some ((p, n), s')" using r' by (simp add: add_block_def h_def s'_def)
  have dr: "dom (rnodes r') = insert n (dom (rnodes (all_blocks (cp s))))"
    using block_tree_dom [OF r'(2)] block_tree_dom [OF t(1)] by simp
  have "answers h (ctick h) (ctick h + 2) = {p, n}"
  proof -
    have "{ctick h..<ctick h + 2} = {ctick h, Suc (ctick h)}" by auto
    then show ?thesis unfolding answers_def by (simp add: p_n_def)
  qed
  then have g: "grows 2 s s'" using dr by (auto simp: grows_def config_def same_hosts_def live_def s'_def set_cp_def h_def)
  have st': "stored (all_blocks (cp s')) (blocks (heap s')) (b1 @ (p, c) # b2) (x1 @ (n, block_data (p, c)) # x2)"
  proof -
    have "\<forall>x \<in> set (b1 @ b2). fst x \<noteq> NULL \<and> blocks h (fst x) = Some (snd x)" using st by (simp add: stored_def h_def)
    then have "\<forall>x \<in> set (b1 @ b2). fst x \<noteq> NULL \<and> ((blocks h)(p \<mapsto> c)) (fst x) = Some (snd x)" using pn by auto
    then show ?thesis using r'(2) t f(1) by (simp add: stored_def s'_def set_cp_def block_data_def c_def)
  qed
  show thesis
    by (rule that [OF add f(1) f(3) _ _ _ _ _ st' _ _ _ _ g]) (use pn in \<open>simp_all add: h_def s'_def set_cp_def c_def outer_def\<close>)
qed

lemma leave_free_ok:
  assumes F: "free_holds (free_blocks (cp s)) (heap s) S" and b: "blocks (heap s) p = Some c"
    and S: "free_list_ptr c \<noteq> NULL \<Longrightarrow> (bsize c, free_list_ptr c, p) \<in> S"
  obtains s' where "leave_free_list p s = Some s'" "blocks (heap s') = (blocks (heap s))(p \<mapsto> c\<lparr>free_list_ptr := NULL\<rparr>)"
    "free_holds (free_blocks (cp s')) (heap s') (S - {(bsize c, free_list_ptr c, p)})" "outer s' = outer s"
    "all_blocks (cp s') = all_blocks (cp s)" "grows 0 s s'"
proof (cases "free_list_ptr c = NULL")
  case True
  have "(bsize c, NULL, p) \<notin> S" using free_holds_elem [OF F] by blast
  moreover have "c\<lparr>free_list_ptr := NULL\<rparr> = c" using True by (cases c) simp
  then have "(blocks (heap s))(p \<mapsto> c\<lparr>free_list_ptr := NULL\<rparr>) = blocks (heap s)" using b by auto
  ultimately show thesis using that [of s] True b F by (simp add: leave_free_list_def)
next
  case False
  obtain r' h' where r': "free_blocks_rm_node (free_blocks (cp s)) (free_list_ptr c) (heap s) = Some (p, r', h')"
    "free_removed (free_blocks (cp s)) (heap s) S (bsize c, free_list_ptr c, p) r' h'"
    by (rule free_rm_node_ok [OF F S [OF False] b refl])
  note R = r'(2) [unfolded free_removed_def]
  define s' where "s' = set_cp (\<lambda>p. p\<lparr>free_blocks := r'\<rparr>) (s\<lparr>heap := h'\<rparr>)"
  have rm: "rm_free (free_list_ptr c) s = Some s'" using r'(1) by (simp add: rm_free_def s'_def)
  have bh: "blocks (heap s') = (blocks (heap s))(p \<mapsto> c\<lparr>free_list_ptr := NULL\<rparr>)" using R b by (simp add: s'_def set_cp_def)
  have lf: "leave_free_list p s = Some s'"
  proof -
    have "blocks (heap s') p = Some (c\<lparr>free_list_ptr := NULL\<rparr>)" using bh by simp
    then have "set_block p (\<lambda>b. b\<lparr>free_list_ptr := NULL\<rparr>) s' = Some s'" by (simp add: set_block_def upd_block_def fun_upd_idem)
    then show ?thesis using b False rm by (simp add: leave_free_list_def)
  qed
  have "grows 0 s s'" using R bh b unfolding grows_def live_def by (auto simp: s'_def set_cp_def config_def)
  then show thesis using that [OF lf bh] R by (simp add: s'_def set_cp_def outer_def)
qed

lemma add_free_ok:
  assumes F: "free_holds (free_blocks (cp s)) (heap s) S" and b: "blocks (heap s) p = Some c" "p \<noteq> NULL" and r: "ready 3 s"
  obtains s' e where "add_free p s = Some (True, s')" "blocks (heap s') = (blocks (heap s))(p \<mapsto> c\<lparr>free_list_ptr := e\<rparr>)" "e \<noteq> NULL"
    "free_holds (free_blocks (cp s')) (heap s') (insert (bsize c, e, p) S)" "outer s' = outer s"
    "all_blocks (cp s') = all_blocks (cp s)" "grows 3 s s'"
proof -
  have m: "\<And>i. i < 3 \<Longrightarrow> chosts (heap s) (ctick (heap s) + i) \<noteq> NULL \<and> chosts (heap s) (ctick (heap s) + i) \<notin>
      dom (fheads (heap s)) \<union> dom (elems (heap s)) \<union> dom (rnodes (free_blocks (cp s)))"
    using r by (auto simp: ready_def live_def)
  obtain r' h' e where r': "free_blocks_add (free_blocks (cp s)) p (heap s) = Some (True, r', h')"
    "free_added (free_blocks (cp s)) (heap s) S p e r' h'" by (rule free_add_ok [OF F b m])
  note R = r'(2) [unfolded free_added_def]
  define s' where "s' = set_cp (\<lambda>p. p\<lparr>free_blocks := r'\<rparr>) (s\<lparr>heap := h'\<rparr>)"
  have bh: "blocks (heap s') = (blocks (heap s))(p \<mapsto> c\<lparr>free_list_ptr := e\<rparr>)" using R b by (auto simp: s'_def set_cp_def)
  have "dom (blocks (heap s')) = dom (blocks (heap s))" using bh b by auto
  then have "grows 3 s s'" using R unfolding grows_def live_def by (auto simp: s'_def set_cp_def config_def)
  moreover have "add_free p s = Some (True, s')" using r'(1) by (simp add: add_free_def s'_def)
  ultimately show thesis using that [of s' e] R bh b by (auto simp: s'_def set_cp_def outer_def)
qed

end
