(* ===== verification/Coarse_Merge.thy ===== *)
theory Coarse_Merge
  imports Coarse_Steps
begin

text \<open>
  Merging of neighbouring blocks: when two neighbours are both used or both free, adjoin and come from the
  same block of the upstream provider, the first takes over the second.
\<close>

section \<open>The merged block\<close>

definition join :: "block_t \<Rightarrow> block_t \<Rightarrow> block_t" where
  "join c1 c2 = c1\<lparr>free_list_ptr := NULL, bsize := bsize c1 + bsize c2\<rparr>"

definition ftriple :: "cblock \<Rightarrow> u64 \<times> ptr \<times> ptr" where
  "ftriple x = (bsize (snd x), free_list_ptr (snd x), fst x)"

lemma join_simps [simp]:
  "bdata (join c1 c2) = bdata c1" "bused (join c1 c2) = bused c1" "free_list_ptr (join c1 c2) = NULL" "lo (join c1 c2) = lo c1"
  "bsize (join c1 c2) = bsize c1 + bsize c2"
  by (simp_all add: join_def lo_def)

lemma join_hi:
  assumes "blk_ok c1" "blk_ok c2" "hi c1 = lo c2"
  shows "unat (bsize (join c1 c2)) = unat (bsize c1) + unat (bsize c2)" "hi (join c1 c2) = hi c2" "blk_ok (join c1 c2)"
proof -
  have lt: "unat (bdata c1) + unat (bsize c1) + unat (bsize c2) < 2 ^ 64" using assms by (simp add: blk_ok_def hi_def lo_def)
  then show u: "unat (bsize (join c1 c2)) = unat (bsize c1) + unat (bsize c2)"
    using unat_add_lem [of "bsize c1" "bsize c2"] by simp
  then show "hi (join c1 c2) = hi c2" using assms(3) by (simp add: hi_def lo_def)
  moreover have "bsize (join c1 c2) \<noteq> 0" using u assms by (auto simp: blk_ok_def simp flip: unat_eq_0)
  ultimately show "blk_ok (join c1 c2)" using assms by (simp add: blk_ok_def)
qed

lemma layout_parts:
  "layout us (b1 @ x # b2) \<longleftrightarrow> layout us (b1 @ b2) \<and> blk_ok (snd x) \<and> fst x \<noteq> NULL \<and> fst x \<notin> fst ` (set us \<union> set b1 \<union> set b2) \<and>
     (\<forall>y \<in> set b1. before y x) \<and> (\<forall>y \<in> set b2. before x y) \<and> (\<exists>u \<in> set us. inside (snd x) (snd u))"
  by (auto simp: layout_def sorted_wrt_append)

lemma layout_join:
  assumes lay: "layout us (b1 @ (p1, c1) # (p2, c2) # b2)" and c: "hi c1 = lo c2" "same_org us c1 c2"
  shows "layout us (b1 @ (p1, join c1 c2) # b2)"
proof -
  have a: "layout us (b1 @ (p1, c1) # b2)" and b: "blk_ok c2" "\<forall>y \<in> set b2. before (p2, c2) y"
    using lay layout_parts [of us "b1 @ [(p1, c1)]" "(p2, c2)" b2] by auto
  have k: "blk_ok c1" using a by (simp add: layout_parts)
  have "\<exists>u \<in> set us. inside (join c1 c2) (snd u)"
    using c(2) join_hi(2) [OF k b(1) c(1)] by (auto simp: same_org_def inside_def)
  then show ?thesis using a b join_hi [OF k b(1) c(1)] by (simp add: layout_parts before_def)
qed

section \<open>The function\<close>

lemma merge_start:
  assumes rp: "rep s us (b1 @ (p1, c1) # (p2, c2) # b2) S (x1 @ (n1, d1) # (n2, d2) # x2)" and m: "map snd x1 = map block_data b1"
  shows "d1 = block_data (p1, c1)" "d2 = block_data (p2, c2)" "n1 \<noteq> NULL" "n2 \<noteq> NULL" "map snd x2 = map block_data b2"
    "get_node_prev (all_blocks (cp s)) n2 = Some n1" "get_node_next (all_blocks (cp s)) n1 = Some n2"
    "get_node_block (all_blocks (cp s)) n1 = Some p1" "get_node_block (all_blocks (cp s)) n2 = Some p2"
    "blocks (heap s) p1 = Some c1" "blocks (heap s) p2 = Some c2" "p1 \<noteq> NULL" "p2 \<noteq> NULL" "p1 \<noteq> p2" "bdata c1 < bdata c2"
    "is_same_origin (upstream_blocks (cp s)) (heap s) p1 p2 = Some (same_org us c1 c2)"
    "bdata c1 + bsize c1 = bdata c2 \<longleftrightarrow> hi c1 = lo c2"
proof -
  from rp obtain uxs where u: "stored (upstream_blocks (cp s)) (blocks (heap s)) us uxs"
    and st: "stored (all_blocks (cp s)) (blocks (heap s)) (b1 @ (p1, c1) # (p2, c2) # b2) (x1 @ (n1, d1) # (n2, d2) # x2)"
    and lay: "layout us (b1 @ (p1, c1) # (p2, c2) # b2)" by (auto simp: rep_def)
  have t: "block_tree (all_blocks (cp s)) (x1 @ (n1, d1) # (n2, d2) # x2)" using st by (simp add: stored_def)
  have len: "length x1 = length b1" using m by (metis length_map)
  then show d: "d1 = block_data (p1, c1)" "d2 = block_data (p2, c2)" "map snd x2 = map block_data b2"
    using st by (auto simp: stored_def)
  show n: "n1 \<noteq> NULL" "n2 \<noteq> NULL" using block_tree_nodes(2) [OF t] by force+
  have t2: "block_tree (all_blocks (cp s)) ((x1 @ [(n1, d1)]) @ (n2, d2) # x2)" using t by simp
  show "get_node_prev (all_blocks (cp s)) n2 = Some n1" "get_node_next (all_blocks (cp s)) n1 = Some n2"
    using nav_holds(2) [OF t2] nav_holds(1) [OF t] by simp_all
  show b: "blocks (heap s) p1 = Some c1" "blocks (heap s) p2 = Some c2" "p1 \<noteq> NULL" "p2 \<noteq> NULL" using st by (auto simp: stored_def)
  then show "get_node_block (all_blocks (cp s)) n1 = Some p1" "get_node_block (all_blocks (cp s)) n2 = Some p2"
    using node_block_ok [OF t, of n1 d1] node_block_ok [OF t, of n2 d2] d by auto
  show "p1 \<noteq> p2" using lay by (auto simp: layout_def)
  have k: "blk_ok c1" "blk_ok c2" using lay by (auto simp: layout_def)
  show "bdata c1 < bdata c2" using lay blk_ok_lt [OF k(1)] by (auto simp: layout_def sorted_wrt_append before_def data_less)
  obtain v where "v \<in> set us" "inside c1 (snd v)" using lay by (auto simp: layout_def)
  then show "is_same_origin (upstream_blocks (cp s)) (heap s) p1 p2 = Some (same_org us c1 c2)"
    using is_same_origin_ok [OF u lay _ _ b(1) k(1) b(2) k(2)] by blast
  show "bdata c1 + bsize c1 = bdata c2 \<longleftrightarrow> hi c1 = lo c2" by (rule end_eq [OF k(1)])
qed

lemma merge_refused:
  assumes rp: "rep s us (b1 @ (p1, c1) # (p2, c2) # b2) S (x1 @ (n1, d1) # (n2, d2) # x2)" and m: "map snd x1 = map block_data b1"
    and no: "\<not> (bused c1 = used \<and> bused c2 = used \<and> hi c1 = lo c2 \<and> same_org us c1 c2)"
  shows "user_block_merge n1 n2 used s = Some ((UMF_RESULT_ERROR_INVALID_ARGUMENT, NULL), s)"
  using merge_start [OF rp m] no by (auto simp: user_block_merge_def)

lemma merge_done:
  assumes rp: "rep s us (b1 @ (p1, c1) # (p2, c2) # b2) S (x1 @ (n1, d1) # (n2, d2) # x2)" and m: "map snd x1 = map block_data b1"
    and yes: "bused c1 = used" "bused c2 = used" "hi c1 = lo c2" "same_org us c1 c2"
    and S: "free_list_ptr c1 \<noteq> NULL \<Longrightarrow> ftriple (p1, c1) \<in> S" "free_list_ptr c2 \<noteq> NULL \<Longrightarrow> ftriple (p2, c2) \<in> S"
  obtains s' x2' where "user_block_merge n1 n2 used s = Some ((UMF_RESULT_SUCCESS, n1), s')"
    "rep s' us (b1 @ (p1, join c1 c2) # b2) (S - {ftriple (p1, c1), ftriple (p2, c2)}) (x1 @ (n1, d1) # x2')"
    "outer s' = outer s" "grows 0 s s'"
proof -
  note st = merge_start [OF rp m]
  from rp obtain uxs where u: "stored (upstream_blocks (cp s)) (blocks (heap s)) us uxs"
    and sb: "stored (all_blocks (cp s)) (blocks (heap s)) (b1 @ (p1, c1) # (p2, c2) # b2) (x1 @ (n1, d1) # (n2, d2) # x2)"
    and F: "free_holds (free_blocks (cp s)) (heap s) S" and lay: "layout us (b1 @ (p1, c1) # (p2, c2) # b2)" by (auto simp: rep_def)
  obtain s1 where s1: "leave_free_list p1 s = Some s1" "blocks (heap s1) = (blocks (heap s))(p1 \<mapsto> c1\<lparr>free_list_ptr := NULL\<rparr>)"
    "free_holds (free_blocks (cp s1)) (heap s1) (S - {ftriple (p1, c1)})" "outer s1 = outer s" "all_blocks (cp s1) = all_blocks (cp s)" "grows 0 s s1"
    using leave_free_ok [OF F st(10)] S(1) by (auto simp: ftriple_def)
  have b2: "blocks (heap s1) p2 = Some c2" using s1(2) st(11,14) by simp
  obtain s2 where s2: "leave_free_list p2 s1 = Some s2" "blocks (heap s2) = (blocks (heap s1))(p2 \<mapsto> c2\<lparr>free_list_ptr := NULL\<rparr>)"
    "free_holds (free_blocks (cp s2)) (heap s2) (S - {ftriple (p1, c1)} - {ftriple (p2, c2)})" "outer s2 = outer s1"
    "all_blocks (cp s2) = all_blocks (cp s1)" "grows 0 s1 s2"
    using leave_free_ok [OF s1(3) b2] S(2) st(14) by (auto simp: ftriple_def)
  define B where "B = (blocks (heap s))(p1 \<mapsto> join c1 c2, p2 \<mapsto> c2\<lparr>free_list_ptr := NULL\<rparr>)"
  define s3 where "s3 = s2\<lparr>heap := (heap s2)\<lparr>blocks := B\<rparr>\<rparr>"
  have p1: "blocks (heap s2) p1 = Some (c1\<lparr>free_list_ptr := NULL\<rparr>)" using s2(2) s1(2) st(14) by simp
  have B: "(blocks (heap s2))(p1 \<mapsto> join c1 c2) = B" using s2(2) s1(2) st(14) by (auto simp: B_def)
  have s3: "set_block p1 (\<lambda>b. b\<lparr>bsize := bsize b + bsize c2\<rparr>) s2 = Some s3"
    using set_block_ok [OF p1, of "\<lambda>b. b\<lparr>bsize := bsize b + bsize c2\<rparr>"] B by (simp add: s3_def join_def)
  have t: "block_tree (all_blocks (cp s3)) ((x1 @ [(n1, d1)]) @ (n2, d2) # x2)" using sb s1(5) s2(5) by (simp add: stored_def s3_def)
  obtain r' x2' where r': "coarse_ravl_rm (all_blocks (cp s3)) (bdata c2) = Some (p2, r')" "block_tree r' ((x1 @ [(n1, d1)]) @ x2')"
    "map snd x2' = map snd x2" "dom (rnodes r') \<subseteq> dom (rnodes (all_blocks (cp s3)))"
    using rm_ok [OF t] st(2,13) by auto
  define s' where "s' = s3\<lparr>heap := (heap s3)\<lparr>blocks := B(p2 := None)\<rparr>, cp := (cp s3)\<lparr>all_blocks := r'\<rparr>\<rparr>"
  have fb: "free_block p2 (set_cp (\<lambda>p. p\<lparr>all_blocks := r'\<rparr>) s3) = Some s'"
    by (simp add: free_block_def set_cp_def s3_def s'_def B_def)
  have cond: "bdata c1 + bsize c1 = bdata c2" using st(17) yes(3) by simp
  have run: "user_block_merge n1 n2 used s = Some ((UMF_RESULT_SUCCESS, n1), s')"
    unfolding user_block_merge_def using st yes(1,2,4) cond s1(1) s2(1) s3 r'(1) fb by simp
  have sub: "dom (blocks (heap s')) \<subseteq> dom (blocks (heap s2))" using p1 by (auto simp: s'_def s3_def simp flip: B split: if_splits)
  have "grows 0 s2 s'" using sub r'(4) unfolding grows_def live_def
    by (auto simp: s'_def s3_def config_def same_hosts_def)
  then have g: "grows 0 s s'" using grows_trans [OF grows_trans [OF s1(6) s2(6)]] by simp
  have o: "outer s' = outer s" using s1(4) s2(4) by (simp add: outer_def s'_def s3_def)
  have off: "p1 \<notin> fst ` set us" "p2 \<notin> fst ` set us" "p1 \<notin> fst ` set b1" "p1 \<notin> fst ` set b2" "p2 \<notin> fst ` set b1" "p2 \<notin> fst ` set b2"
    using lay layout_distinct [OF lay] layout_distinct [of us "b1 @ [(p1, c1)]" "(p2, c2)" b2] by auto
  have Bo: "blocks (heap s') q = blocks (heap s) q" if "q \<noteq> p1" "q \<noteq> p2" for q using that by (simp add: s'_def B_def)
  have u': "stored (upstream_blocks (cp s')) (blocks (heap s')) us uxs"
    using stored_off [OF u, of "{p1, p2}" "blocks (heap s')"] Bo off o by (simp add: outer_def)
  have sb': "stored (all_blocks (cp s')) (blocks (heap s')) (b1 @ (p1, join c1 c2) # b2) (x1 @ (n1, d1) # x2')"
  proof -
    have "\<forall>x \<in> set (b1 @ b2). fst x \<noteq> NULL \<and> blocks (heap s') (fst x) = Some (snd x)"
      using sb Bo off unfolding stored_def by (metis (no_types, lifting) Un_iff image_eqI list.set_intros(2) set_append)
    moreover have "blocks (heap s') p1 = Some (join c1 c2)" using st(14) by (simp add: s'_def B_def)
    ultimately show ?thesis using r'(2,3) st(1,5,12) m by (auto simp: stored_def s'_def block_data_def)
  qed
  have F': "free_holds (free_blocks (cp s')) (heap s') (S - {ftriple (p1, c1), ftriple (p2, c2)})"
  proof -
    have "S - {ftriple (p1, c1)} - {ftriple (p2, c2)} = S - {ftriple (p1, c1), ftriple (p2, c2)}" by auto
    then show ?thesis using free_holds_frame [OF s2(3), of "heap s'"] by (simp add: s'_def s3_def)
  qed
  have "rep s' us (b1 @ (p1, join c1 c2) # b2) (S - {ftriple (p1, c1), ftriple (p2, c2)}) (x1 @ (n1, d1) # x2')"
    unfolding rep_def using u' sb' F' layout_join [OF lay yes(3,4)] by blast
  with run o g show thesis using that by blast
qed

end
