(* ===== verification/Coarse_Free.thy ===== *)
theory Coarse_Free
  imports Coarse_Merge
begin

text \<open>
  Release of memory in the coarse provider: the block becomes free, takes part in the merge with its free
  neighbours and enters the lists of free blocks. The result is described on the sequence of blocks
  (\<open>absorb_prev\<close>, \<open>absorb_next\<close>) and keeps the invariant.
\<close>

section \<open>The merge on the sequence\<close>

definition absorb_prev :: "cblock list \<Rightarrow> cblock list \<Rightarrow> cblock \<Rightarrow> cblock list \<times> cblock" where
  "absorb_prev us b1 x = (if b1 \<noteq> [] \<and> may_join us (last b1) x then (butlast b1, (fst (last b1), join (snd (last b1)) (snd x))) else (b1, x))"

definition absorb_next :: "cblock list \<Rightarrow> cblock \<Rightarrow> cblock list \<Rightarrow> cblock \<times> cblock list" where
  "absorb_next us x b2 = (if b2 \<noteq> [] \<and> may_join us x (hd b2) then ((fst x, join (snd x) (snd (hd b2))), tl b2) else (x, b2))"

text \<open>A block that is free but in no list: the lists hold the other free blocks.\<close>

definition loose :: "'w coarse_state \<Rightarrow> cblock list \<Rightarrow> cblock list \<Rightarrow> cblock \<Rightarrow> cblock list \<Rightarrow> ptr \<Rightarrow> bool" where
  "loose s us b1 x b2 n \<longleftrightarrow> (\<exists>x1 x2. rep s us (b1 @ x # b2) (free_set (b1 @ b2)) (x1 @ (n, block_data x) # x2) \<and>
     map snd x1 = map block_data b1) \<and> \<not> bused (snd x) \<and> free_list_ptr (snd x) = NULL"

lemma in_free_set: "x \<in> set bs \<Longrightarrow> \<not> bused (snd x) \<Longrightarrow> ftriple x \<in> free_set bs"
  by (auto simp: free_set_def ftriple_def)

lemma free_set_ptr: "fst x \<notin> fst ` set bs \<Longrightarrow> ftriple x \<notin> free_set bs"
  by (auto simp: free_set_def ftriple_def)

lemma loose_rep:
  assumes "loose s us b1 x b2 n"
  obtains x1 x2 where "rep s us (b1 @ x # b2) (free_set (b1 @ b2)) (x1 @ (n, block_data x) # x2)" "map snd x1 = map block_data b1"
    "map snd x2 = map block_data b2" "layout us (b1 @ x # b2)" "free_holds (free_blocks (cp s)) (heap s) (free_set (b1 @ b2))"
    "block_tree (all_blocks (cp s)) (x1 @ (n, block_data x) # x2)"
proof -
  from assms obtain x1 x2 where r: "rep s us (b1 @ x # b2) (free_set (b1 @ b2)) (x1 @ (n, block_data x) # x2)" and m: "map snd x1 = map block_data b1"
    by (auto simp: loose_def)
  then have "map snd x2 = map block_data b2" using length_map [of snd x1] by (auto simp: rep_def stored_def)
  then show thesis using that [OF r m] r by (auto simp: rep_def stored_def)
qed

lemma loose_merge:
  assumes rp: "rep s us (b1 @ x # y # b2) S (x1 @ (n1, d1) # (n2, d2) # x2)" and m: "map snd x1 = map block_data b1"
    and j: "may_join us x y" and S: "S = free_set (b1 @ z @ b2)" "z = [x] \<and> free_list_ptr (snd y) = NULL \<or> z = [y] \<and> free_list_ptr (snd x) = NULL"
  obtains s' where "user_block_merge n1 n2 False s = Some ((UMF_RESULT_SUCCESS, n1), s')" "outer s' = outer s" "grows 0 s s'"
    "loose s' us b1 (fst x, join (snd x) (snd y)) b2 n1" "n1 \<noteq> NULL"
proof -
  obtain p1 c1 p2 c2 where xy: "x = (p1, c1)" "y = (p2, c2)" by (cases x, cases y)
  note rp' = rp [unfolded xy]
  have lay: "layout us (b1 @ x # y # b2)" and F: "free_holds (free_blocks (cp s)) (heap s) S" using rp by (auto simp: rep_def)
  have off: "p1 \<notin> fst ` set (b1 @ b2)" "p2 \<notin> fst ` set (b1 @ b2)"
    using layout_distinct [OF lay] layout_distinct [of us "b1 @ [x]" y b2] lay by (auto simp: xy)
  have c: "\<not> bused c1" "\<not> bused c2" "hi c1 = lo c2" "same_org us c1 c2" using j by (auto simp: may_join_def xy)
  have inS: "free_list_ptr c1 \<noteq> NULL \<Longrightarrow> ftriple (p1, c1) \<in> S" "free_list_ptr c2 \<noteq> NULL \<Longrightarrow> ftriple (p2, c2) \<in> S"
    using S c by (auto simp: xy ftriple_def)
  obtain s' x2' where s': "user_block_merge n1 n2 False s = Some ((UMF_RESULT_SUCCESS, n1), s')"
    "rep s' us (b1 @ (p1, join c1 c2) # b2) (S - {ftriple (p1, c1), ftriple (p2, c2)}) (x1 @ (n1, d1) # x2')"
    "outer s' = outer s" "grows 0 s s'"
    by (rule merge_done [OF rp' m _ _ c(3,4) inS]) (use c in auto)
  have "ftriple (p1, c1) \<notin> free_set (b1 @ b2)" "ftriple (p2, c2) \<notin> free_set (b1 @ b2)"
    using free_set_ptr [of "(p1, c1)" "b1 @ b2"] free_set_ptr [of "(p2, c2)" "b1 @ b2"] off by auto
  moreover have "free_set (b1 @ b2) \<subseteq> S" "S \<subseteq> free_set (b1 @ b2) \<union> {ftriple (p1, c1), ftriple (p2, c2)}"
    using S c by (auto simp: xy ftriple_def)
  ultimately have "S - {ftriple (p1, c1), ftriple (p2, c2)} = free_set (b1 @ b2)" by auto
  moreover have "d1 = block_data (p1, join c1 c2)" using merge_start(1) [OF rp' m] by (simp add: block_data_def)
  ultimately have "loose s' us b1 (fst x, join (snd x) (snd y)) b2 n1" using s'(2) m c by (auto simp: loose_def xy)
  with s' merge_start(3) [OF rp' m] that show thesis by blast
qed

lemma merge_prev_ok:
  assumes l: "loose s us b1 x b2 n"
  obtains n' s' where "free_block_merge_with_prev n s = Some (n', s')" "outer s' = outer s" "grows 0 s s'"
    "case absorb_prev us b1 x of (b1', x') \<Rightarrow> loose s' us b1' x' b2 n'"
proof -
  obtain x1 x2 where r: "rep s us (b1 @ x # b2) (free_set (b1 @ b2)) (x1 @ (n, block_data x) # x2)" and m: "map snd x1 = map block_data b1"
    and t: "block_tree (all_blocks (cp s)) (x1 @ (n, block_data x) # x2)" by (rule loose_rep [OF l])
  show thesis
  proof (cases b1 rule: rev_cases)
    case Nil
    then have "get_node_prev (all_blocks (cp s)) n = Some NULL" using m nav_holds(2) [OF t] by simp
    then show thesis using that [of n s] l Nil by (simp add: free_block_merge_with_prev_def absorb_prev_def)
  next
    case (snoc b1' y)
    then obtain x1' n1 d1 where x1: "x1 = x1' @ [(n1, d1)]" "map snd x1' = map block_data b1'"
      using m by (cases x1 rule: rev_cases) (auto simp: surj_pair)
    have r': "rep s us (b1' @ y # x # b2) (free_set (b1' @ [y] @ b2)) (x1' @ (n1, d1) # (n, block_data x) # x2)" using r snoc x1 by simp
    have nx: "get_node_prev (all_blocks (cp s)) n = Some n1" "n1 \<noteq> NULL" using nav_holds(2) [OF t] block_tree_nodes(2) [OF t, of "(n1, d1)"] x1 by auto
    have z: "[y] = [y] \<and> free_list_ptr (snd x) = NULL" "\<not> bused (snd x)" using l by (auto simp: loose_def)
    show thesis
    proof (cases "may_join us y x")
      case True
      obtain s' where s': "user_block_merge n1 n False s = Some ((UMF_RESULT_SUCCESS, n1), s')" "outer s' = outer s" "grows 0 s s'"
        "loose s' us b1' (fst y, join (snd y) (snd x)) b2 n1" "n1 \<noteq> NULL"
        by (rule loose_merge [OF r' x1(2) True refl]) (use z in auto)
      then show thesis using that [of n1 s'] nx snoc True by (simp add: free_block_merge_with_prev_def absorb_prev_def)
    next
      case False
      obtain p1 c1 p c where xy: "y = (p1, c1)" "x = (p, c)" by (cases x, cases y)
      have "user_block_merge n1 n False s = Some ((UMF_RESULT_ERROR_INVALID_ARGUMENT, NULL), s)"
        by (rule merge_refused [OF r' [unfolded xy] x1(2)]) (use False in \<open>auto simp: may_join_def xy\<close>)
      then show thesis using that [of n s] l nx snoc False by (simp add: free_block_merge_with_prev_def absorb_prev_def)
    qed
  qed
qed

lemma merge_next_ok:
  assumes l: "loose s us b1 x b2 n"
  obtains n' s' where "free_block_merge_with_next n s = Some (n', s')" "outer s' = outer s" "grows 0 s s'"
    "case absorb_next us x b2 of (x', b2') \<Rightarrow> loose s' us b1 x' b2' n'"
proof -
  obtain x1 x2 where r: "rep s us (b1 @ x # b2) (free_set (b1 @ b2)) (x1 @ (n, block_data x) # x2)" and m: "map snd x1 = map block_data b1"
    "map snd x2 = map block_data b2" and t: "block_tree (all_blocks (cp s)) (x1 @ (n, block_data x) # x2)" by (rule loose_rep [OF l])
  show thesis
  proof (cases b2)
    case Nil
    then have "get_node_next (all_blocks (cp s)) n = Some NULL" using m nav_holds(1) [OF t] by simp
    then show thesis using that [of n s] l Nil by (simp add: free_block_merge_with_next_def absorb_next_def)
  next
    case (Cons y b2')
    then obtain x2' n1 d1 where x2: "x2 = (n1, d1) # x2'" using m by (cases x2) auto
    have r': "rep s us (b1 @ x # y # b2') (free_set (b1 @ [y] @ b2')) (x1 @ (n, block_data x) # (n1, d1) # x2')" using r Cons x2 by simp
    have nx: "get_node_next (all_blocks (cp s)) n = Some n1" "n1 \<noteq> NULL" using nav_holds(1) [OF t] block_tree_nodes(2) [OF t, of "(n1, d1)"] x2 by auto
    have z: "[y] = [y] \<and> free_list_ptr (snd x) = NULL" "\<not> bused (snd x)" using l by (auto simp: loose_def)
    show thesis
    proof (cases "may_join us x y")
      case True
      obtain s' where s': "user_block_merge n n1 False s = Some ((UMF_RESULT_SUCCESS, n), s')" "outer s' = outer s" "grows 0 s s'"
        "loose s' us b1 (fst x, join (snd x) (snd y)) b2' n" "n \<noteq> NULL"
        by (rule loose_merge [OF r' m(1) True refl]) (use z in auto)
      then show thesis using that [of n s'] nx Cons True by (simp add: free_block_merge_with_next_def absorb_next_def)
    next
      case False
      obtain p1 c1 p c where xy: "y = (p1, c1)" "x = (p, c)" by (cases x, cases y)
      have "user_block_merge n n1 False s = Some ((UMF_RESULT_ERROR_INVALID_ARGUMENT, NULL), s)"
        by (rule merge_refused [OF r' [unfolded xy] m(1)]) (use False in \<open>auto simp: may_join_def xy\<close>)
      then show thesis using that [of n s] l nx Cons False by (simp add: free_block_merge_with_next_def absorb_next_def)
    qed
  qed
qed

section \<open>What the merge keeps\<close>

definition used_blocks :: "cblock list \<Rightarrow> cblock list" where
  "used_blocks bs = filter (\<lambda>x. bused (snd x)) bs"

lemma used_blocks_simps [simp]:
  "used_blocks [] = []" "used_blocks (x # bs) = (if bused (snd x) then [x] else []) @ used_blocks bs"
  "used_blocks (bs @ cs) = used_blocks bs @ used_blocks cs"
  by (simp_all add: used_blocks_def)

lemma used_sum_blocks: "used_sum bs = blk_sum (used_blocks bs)"
  by (simp add: used_sum_def used_blocks_def)

lemma merged_append:
  "merged us (b1 @ b2) \<longleftrightarrow> merged us b1 \<and> merged us b2 \<and> (b1 = [] \<or> b2 = [] \<or> \<not> may_join us (last b1) (hd b2))"
  by (simp add: merged_def successively_append_iff)

lemma merged_Cons: "merged us (x # b2) \<longleftrightarrow> merged us b2 \<and> (b2 = [] \<or> \<not> may_join us x (hd b2))"
  by (cases b2) (auto simp: merged_def)

lemma inside_mono: "inside c u \<Longrightarrow> lo c \<le> lo b \<Longrightarrow> hi b \<le> hi c \<Longrightarrow> inside b u"
  by (simp add: inside_def)

lemma may_join_left:
  assumes "may_join us x y'" "lo (snd y') = lo (snd y)" "hi (snd y) \<le> hi (snd y')" "\<not> bused (snd y)"
  shows "may_join us x y"
  using assms inside_mono [of "snd y'" _ "snd y"] by (auto simp: may_join_def same_org_def)

lemma may_join_right:
  assumes "may_join us x' y" "hi (snd x') = hi (snd x)" "lo (snd x') \<le> lo (snd x)" "\<not> bused (snd x)"
  shows "may_join us x y"
  using assms inside_mono [of "snd x'" _ "snd x"] by (auto simp: may_join_def same_org_def)

lemma absorb_prev_props:
  assumes lay: "layout us (b1 @ x # b2)" and x: "\<not> bused (snd x)" and m: "merged us b1" and a: "absorb_prev us b1 x = (b1', x')"
  shows "merged us b1'" "b1' = [] \<or> \<not> may_join us (last b1') x'" "used_blocks b1' = used_blocks b1"
    "blk_sum b1' + unat (bsize (snd x')) = blk_sum b1 + unat (bsize (snd x))" "hi (snd x') = hi (snd x)"
proof -
  have "merged us b1' \<and> (b1' = [] \<or> \<not> may_join us (last b1') x') \<and> used_blocks b1' = used_blocks b1 \<and>
    blk_sum b1' + unat (bsize (snd x')) = blk_sum b1 + unat (bsize (snd x)) \<and> hi (snd x') = hi (snd x)"
  proof (cases "b1 \<noteq> [] \<and> may_join us (last b1) x")
    case True
    then obtain b y where b: "b1 = b @ [y]" by (metis append_butlast_last_id)
    then have e: "b1' = b" "x' = (fst y, join (snd y) (snd x))" using a True by (auto simp: absorb_prev_def)
    have j: "hi (snd y) = lo (snd x)" "\<not> bused (snd y)" "blk_ok (snd y)" "blk_ok (snd x)"
      using True lay by (auto simp: b may_join_def layout_def)
    note h = join_hi [OF j(3,4,1)]
    have "b = [] \<or> \<not> may_join us (last b) x'"
      using m may_join_left [of us "last b" x' y] j h blk_ok_lt [OF j(4)] by (auto simp: b e merged_append)
    then show ?thesis using m j h by (simp add: b e merged_append)
  qed (use a m in \<open>auto simp: absorb_prev_def\<close>)
  then show "merged us b1'" "b1' = [] \<or> \<not> may_join us (last b1') x'" "used_blocks b1' = used_blocks b1"
    "blk_sum b1' + unat (bsize (snd x')) = blk_sum b1 + unat (bsize (snd x))" "hi (snd x') = hi (snd x)" by auto
qed

lemma absorb_next_props:
  assumes lay: "layout us (b1 @ x # b2)" and x: "\<not> bused (snd x)" and m: "merged us b1" "merged us b2"
    "b1 = [] \<or> \<not> may_join us (last b1) x" and a: "absorb_next us x b2 = (x', b2')"
  shows "merged us (b1 @ x' # b2')" "used_blocks b2' = used_blocks b2"
    "unat (bsize (snd x')) + blk_sum b2' = unat (bsize (snd x)) + blk_sum b2"
proof -
  have "merged us (b1 @ x' # b2') \<and> used_blocks b2' = used_blocks b2 \<and> unat (bsize (snd x')) + blk_sum b2' = unat (bsize (snd x)) + blk_sum b2"
  proof (cases "b2 \<noteq> [] \<and> may_join us x (hd b2)")
    case True
    then obtain b y where b: "b2 = y # b" by (cases b2) auto
    then have e: "b2' = b" "x' = (fst x, join (snd x) (snd y))" using a True by (auto simp: absorb_next_def)
    have j: "hi (snd x) = lo (snd y)" "\<not> bused (snd y)" "blk_ok (snd y)" "blk_ok (snd x)"
      using True lay by (auto simp: b may_join_def layout_def)
    note h = join_hi [OF j(4,3,1)]
    have "b = [] \<or> \<not> may_join us x' (hd b)"
      using m(2) may_join_right [of us x' "hd b" y] j h blk_ok_lt [OF j(4)] by (auto simp: b e merged_Cons)
    moreover have "b1 = [] \<or> \<not> may_join us (last b1) x'"
      using m(3) may_join_left [of us "last b1" x' x] j h x blk_ok_lt [OF j(3)] by (auto simp: e)
    ultimately show ?thesis using m j h by (simp add: b e merged_append merged_Cons)
  qed (use a m in \<open>auto simp: absorb_next_def merged_append merged_Cons\<close>)
  then show "merged us (b1 @ x' # b2')" "used_blocks b2' = used_blocks b2"
    "unat (bsize (snd x')) + blk_sum b2' = unat (bsize (snd x)) + blk_sum b2" by auto
qed

section \<open>Release\<close>

lemma coarse_ok_eq:
  assumes "heap s' = heap s" "outer s' = outer s" "all_blocks (cp s') = all_blocks (cp s)" "free_blocks (cp s') = free_blocks (cp s)"
  shows "coarse_ok s' us bs \<longleftrightarrow> coarse_ok s us bs"
  using assms by (simp add: coarse_ok_def rep_def counters_def outer_def)

lemma lock_simps:
  "\<not> clock (cp s) \<Longrightarrow> lock_coarse s = Some (set_cp (\<lambda>p. p\<lparr>clock := True\<rparr>) s)"
  "coarse_ok (set_cp (\<lambda>p. p\<lparr>clock := b\<rparr>) s) us bs \<longleftrightarrow> coarse_ok s us bs"
  "live (set_cp (\<lambda>p. p\<lparr>clock := b\<rparr>) s) = live s"
  "ready n (set_cp (\<lambda>p. p\<lparr>clock := b\<rparr>) s) = ready n s"
  by (simp_all add: lock_coarse_def set_cp_def ready_def live_def, rule coarse_ok_eq, simp_all add: outer_def)

text \<open>A used block becomes loose.\<close>

lemma unuse_ok:
  assumes ok: "coarse_ok s us (b1 @ (p, c) # b2)" and c: "bused c"
  obtains n s' where "coarse_ravl_find_node (all_blocks (cp s)) (bdata c) = Some n" "n \<noteq> NULL" "get_node_block (all_blocks (cp s)) n = Some p"
    "blocks (heap s) p = Some c" "bsize c \<le> used_size (cp s)" "free_list_ptr c = NULL"
    "set_block p (\<lambda>b. b\<lparr>bused := False\<rparr>) (set_cp (\<lambda>q. q\<lparr>used_size := used_size q - bsize c\<rparr>) s) = Some s'"
    "loose s' us b1 (p, c\<lparr>bused := False\<rparr>) b2 n" "config s' = config s" "heap s' = (heap s)\<lparr>blocks := (blocks (heap s))(p \<mapsto> c\<lparr>bused := False\<rparr>)\<rparr>"
    "outer s' = (upstream_blocks (cp s), used_size (cp s) - bsize c, alloc_size (cp s))" "grows 0 s s'"
proof -
  from ok obtain xs uxs where st: "stored (all_blocks (cp s)) (blocks (heap s)) (b1 @ (p, c) # b2) xs"
    and F: "free_holds (free_blocks (cp s)) (heap s) (free_set (b1 @ b2))" and lay: "layout us (b1 @ (p, c) # b2)"
    and u: "stored (upstream_blocks (cp s)) (blocks (heap s)) us uxs" and nl: "free_list_ptr c = NULL"
    and cn: "unat (used_size (cp s)) = used_sum (b1 @ (p, c) # b2)"
    using c by (auto simp: coarse_ok_def rep_def counters_def)
  obtain x1 n x2 where x: "xs = x1 @ (n, block_data (p, c)) # x2" "map snd x1 = map block_data b1" "n \<noteq> NULL" "p \<noteq> NULL"
    "blocks (heap s) p = Some c" "get_node_block (all_blocks (cp s)) n = Some p" "coarse_ravl_find_node (all_blocks (cp s)) (bdata c) = Some n"
    using stored_split [OF st] by (metis fst_conv snd_conv)
  have le: "bsize c \<le> used_size (cp s)" using cn c by (simp add: word_le_nat_alt)
  let ?c = "c\<lparr>bused := False\<rparr>" and ?s = "set_cp (\<lambda>q. q\<lparr>used_size := used_size q - bsize c\<rparr>) s"
  define s' where "s' = ?s\<lparr>heap := (heap s)\<lparr>blocks := (blocks (heap s))(p \<mapsto> ?c)\<rparr>\<rparr>"
  have sb: "set_block p (\<lambda>b. b\<lparr>bused := False\<rparr>) ?s = Some s'"
    using set_block_ok [of ?s p c "\<lambda>b. b\<lparr>bused := False\<rparr>"] x(5) by (simp add: s'_def set_cp_def)
  note off = layout_distinct [OF lay]
  have bd: "block_data (p, ?c) = block_data (p, c)" by (simp add: block_data_def)
  have "stored (all_blocks (cp s')) (blocks (heap s')) (b1 @ (p, ?c) # b2) xs"
    using stored_update [OF st, of ?c] off by (simp add: s'_def set_cp_def)
  moreover have "stored (upstream_blocks (cp s')) (blocks (heap s')) us uxs"
    using stored_off [OF u, of "{p}"] off by (simp add: s'_def set_cp_def)
  moreover have "free_holds (free_blocks (cp s')) (heap s') (free_set (b1 @ b2))"
    using free_holds_frame [OF F] by (simp add: s'_def set_cp_def)
  moreover have "layout us (b1 @ (p, ?c) # b2)"
    using lay by (simp add: layout_parts before_def blk_ok_def inside_def lo_def hi_def)
  ultimately have "rep s' us (b1 @ (p, ?c) # b2) (free_set (b1 @ b2)) (x1 @ (n, block_data (p, ?c)) # x2)"
    unfolding rep_def bd x(1) by blast
  then have "loose s' us b1 (p, ?c) b2 n" unfolding loose_def using x(2) nl by (intro conjI exI [of _ x1] exI [of _ x2]) simp_all
  moreover have "grows 0 s s'" using x(5) by (auto simp: grows_def config_def same_hosts_def live_def s'_def set_cp_def)
  ultimately show thesis
    using that [OF x(7,3,6,5) le nl sb] by (simp add: s'_def set_cp_def config_def outer_def)
qed

text \<open>A loose block enters the lists.\<close>

lemma settle_ok:
  assumes l: "loose s us b1 x b2 n" and m: "merged us (b1 @ x # b2)" and c: "counters s us (b1 @ x # b2)"
    and u: "\<forall>y \<in> set (b1 @ b2). bused (snd y) \<longrightarrow> free_list_ptr (snd y) = NULL" and r: "ready 3 s"
  obtains s' e where "get_node_block (all_blocks (cp s)) n = Some (fst x)" "add_free (fst x) s = Some (True, s')"
    "coarse_ok s' us (b1 @ (fst x, (snd x)\<lparr>free_list_ptr := e\<rparr>) # b2)" "outer s' = outer s" "grows 3 s s'"
proof -
  obtain x1 x2 uxs where rp: "rep s us (b1 @ x # b2) (free_set (b1 @ b2)) (x1 @ (n, block_data x) # x2)" and mp: "map snd x1 = map block_data b1"
    and lay: "layout us (b1 @ x # b2)" and F: "free_holds (free_blocks (cp s)) (heap s) (free_set (b1 @ b2))"
    and t: "block_tree (all_blocks (cp s)) (x1 @ (n, block_data x) # x2)" by (rule loose_rep [OF l])
  then obtain uxs where st: "stored (all_blocks (cp s)) (blocks (heap s)) (b1 @ (fst x, snd x) # b2) (x1 @ (n, block_data x) # x2)"
    and us: "stored (upstream_blocks (cp s)) (blocks (heap s)) us uxs" by (auto simp: rep_def)
  have b: "blocks (heap s) (fst x) = Some (snd x)" "fst x \<noteq> NULL" using st by (auto simp: stored_def)
  obtain s' e where s': "add_free (fst x) s = Some (True, s')" "blocks (heap s') = (blocks (heap s))(fst x \<mapsto> (snd x)\<lparr>free_list_ptr := e\<rparr>)" "e \<noteq> NULL"
    "free_holds (free_blocks (cp s')) (heap s') (insert (bsize (snd x), e, fst x) (free_set (b1 @ b2)))" "outer s' = outer s"
    "all_blocks (cp s') = all_blocks (cp s)" "grows 3 s s'" by (rule add_free_ok [OF F b r])
  let ?x = "(fst x, (snd x)\<lparr>free_list_ptr := e\<rparr>)"
  have nu: "\<not> bused (snd x)" using l by (simp add: loose_def)
  note off = layout_distinct [OF lay]
  have "stored (all_blocks (cp s')) (blocks (heap s')) (b1 @ ?x # b2) (x1 @ (n, block_data x) # x2)"
    using stored_update [OF st] off s'(2,6) by simp
  moreover have "stored (upstream_blocks (cp s')) (blocks (heap s')) us uxs"
    using stored_off [OF us, of "{fst x}" "blocks (heap s')"] off s'(2,5) by (simp add: outer_def)
  moreover have "insert (bsize (snd x), e, fst x) (free_set (b1 @ b2)) = free_set (b1 @ ?x # b2)" using nu by auto
  moreover have "layout us (b1 @ ?x # b2)" using lay by (simp add: layout_parts before_def blk_ok_def inside_def lo_def hi_def)
  ultimately have "rep s' us (b1 @ ?x # b2) (free_set (b1 @ ?x # b2)) (x1 @ (n, block_data x) # x2)"
    unfolding rep_def using s'(4) by metis
  moreover have "merged us (b1 @ ?x # b2)"
    using m by (simp add: merged_append merged_Cons may_join_def same_org_def inside_def lo_def hi_def)
  moreover have "counters s' us (b1 @ ?x # b2)" using c nu s'(5) by (simp add: counters_def outer_def)
  ultimately have ok: "coarse_ok s' us (b1 @ ?x # b2)" using u nu by (auto simp: coarse_ok_def)
  have "get_node_block (all_blocks (cp s)) n = Some (fst x)" using node_block_ok [OF t, of n "block_data x"] b by simp
  then show thesis using that s'(1,5,7) ok by blast
qed

lemma grows_unlock:
  "grows m (set_cp (\<lambda>p. p\<lparr>clock := True\<rparr>) s) s' \<Longrightarrow> \<not> clock (cp s) \<Longrightarrow> grows m s (unlock_coarse s')"
  by (auto simp: grows_def config_def live_def unlock_coarse_def set_cp_def)

lemma unlock_ok: "coarse_ok (unlock_coarse s) us bs \<longleftrightarrow> coarse_ok s us bs"
  unfolding unlock_coarse_def by (rule lock_simps)

lemma absorb_covers:
  assumes lay: "layout us (b1 @ x # b2)"
  shows "absorb_prev us b1 x = (b1', x') \<Longrightarrow> lo (snd x') \<le> lo (snd x) \<and> hi (snd x') = hi (snd x)"
    "absorb_next us x b2 = (x', b2') \<Longrightarrow> lo (snd x') = lo (snd x) \<and> hi (snd x) \<le> hi (snd x')"
proof -
  have k: "blk_ok (snd x)" "\<forall>y \<in> set b1 \<union> set b2. blk_ok (snd y)" using lay by (auto simp: layout_def)
  show "lo (snd x') \<le> lo (snd x) \<and> hi (snd x') = hi (snd x)" if "absorb_prev us b1 x = (b1', x')"
    using that k join_hi(2) [OF _ k(1), of "snd (last b1)"] blk_ok_lt [of "snd (last b1)"]
    by (auto simp: absorb_prev_def may_join_def split: if_splits)
  show "lo (snd x') = lo (snd x) \<and> hi (snd x) \<le> hi (snd x')" if "absorb_next us x b2 = (x', b2')"
    using that k join_hi(2) [OF k(1), of "snd (hd b2)"] blk_ok_lt [of "snd (hd b2)"]
    by (auto simp: absorb_next_def may_join_def split: if_splits)
qed

lemma coarse_free_ok:
  assumes ok: "coarse_ok s us (b1 @ (p, c) # b2)" and c: "bused c" and l: "\<not> clock (cp s)" and pr: "cpriv s \<noteq> NULL"
    and bt: "bytes = 0 \<or> bytes = bsize c" and r: "ready 3 s"
  obtains s' bs' y where "coarse_memory_provider_free (cpriv s) (bdata c) bytes s = Some (UMF_RESULT_SUCCESS, s')"
    "coarse_ok s' us bs'" "used_blocks bs' = used_blocks (b1 @ b2)" "grows 3 s s'"
    "y \<in> set bs'" "\<not> bused (snd y)" "lo (snd y) \<le> lo c" "hi c \<le> hi (snd y)"
proof -
  define s0 where "s0 = set_cp (\<lambda>p. p\<lparr>clock := True\<rparr>) s"
  have lk: "lock_coarse s = Some s0" and ok0: "coarse_ok s0 us (b1 @ (p, c) # b2)" and r0: "ready 3 s0"
    using l ok r by (simp_all add: s0_def lock_simps)
  obtain n s1 where s1: "coarse_ravl_find_node (all_blocks (cp s0)) (bdata c) = Some n" "n \<noteq> NULL" "get_node_block (all_blocks (cp s0)) n = Some p"
    "blocks (heap s0) p = Some c" "bsize c \<le> used_size (cp s0)"
    "set_block p (\<lambda>b. b\<lparr>bused := False\<rparr>) (set_cp (\<lambda>q. q\<lparr>used_size := used_size q - bsize c\<rparr>) s0) = Some s1"
    "loose s1 us b1 (p, c\<lparr>bused := False\<rparr>) b2 n"
    "outer s1 = (upstream_blocks (cp s0), used_size (cp s0) - bsize c, alloc_size (cp s0))" "grows 0 s0 s1"
    by (rule unuse_ok [OF ok0 c])
  define x where "x = (p, c\<lparr>bused := False\<rparr>)"
  note l1 = s1(7) [folded x_def]
  obtain b1' x' where a1: "absorb_prev us b1 x = (b1', x')" by (cases "absorb_prev us b1 x")
  obtain n2 s2 where s2: "free_block_merge_with_prev n s1 = Some (n2, s2)" "outer s2 = outer s1" "grows 0 s1 s2" "loose s2 us b1' x' b2 n2"
    by (rule merge_prev_ok [OF l1]) (simp add: a1)
  obtain x'' b2' where a2: "absorb_next us x' b2 = (x'', b2')" by (cases "absorb_next us x' b2")
  obtain n3 s3 where s3: "free_block_merge_with_next n2 s2 = Some (n3, s3)" "outer s3 = outer s2" "grows 0 s2 s3" "loose s3 us b1' x'' b2' n3"
    by (rule merge_next_ok [OF s2(4)]) (simp add: a2)
  have m0: "merged us b1" "merged us b2" using ok0 by (auto simp: coarse_ok_def merged_append merged_Cons)
  have lay1: "layout us (b1 @ x # b2)" "\<not> bused (snd x)" using loose_rep [OF l1] l1 by (auto simp: loose_def)
  note P = absorb_prev_props [OF lay1 m0(1) a1]
  have lay2: "layout us (b1' @ x' # b2)" "\<not> bused (snd x')" using loose_rep [OF s2(4)] s2(4) by (auto simp: loose_def)
  note N = absorb_next_props [OF lay2 P(1) m0(2) P(2) a2]
  have ub: "used_blocks (b1' @ b2') = used_blocks (b1 @ b2)" using P(3) N(2) by simp
  have nx: "\<not> bused (snd x'')" using s3(4) by (simp add: loose_def)
  have cn: "counters s3 us (b1' @ x'' # b2')"
  proof -
    have c0: "unat (used_size (cp s0)) = used_sum b1 + unat (bsize c) + used_sum b2" "unat (alloc_size (cp s0)) = blk_sum b1 + unat (bsize c) + blk_sum b2"
      "blk_sum us = blk_sum b1 + unat (bsize c) + blk_sum b2" using ok0 c by (auto simp: coarse_ok_def counters_def)
    have "unat (used_size (cp s0) - bsize c) = used_sum b1 + used_sum b2" using c0(1) s1(5) by (simp add: unat_sub)
    moreover have "used_sum (b1' @ x'' # b2') = used_sum b1 + used_sum b2" using ub nx by (simp add: used_sum_blocks)
    moreover have "blk_sum (b1' @ x'' # b2') = blk_sum b1 + unat (bsize c) + blk_sum b2" using P(4) N(3) by (simp add: x_def)
    ultimately show ?thesis using c0 s3(2) s2(2) s1(8) by (simp add: counters_def outer_def)
  qed
  have uu: "\<forall>y \<in> set (b1' @ b2'). bused (snd y) \<longrightarrow> free_list_ptr (snd y) = NULL"
  proof -
    have "\<forall>y \<in> set (used_blocks (b1 @ b2)). free_list_ptr (snd y) = NULL" using ok0 by (auto simp: coarse_ok_def used_blocks_def)
    then show ?thesis unfolding ub [symmetric] by (auto simp: used_blocks_def)
  qed
  have g3: "grows 0 s0 s3" using grows_trans [OF grows_trans [OF s1(9) s2(3)] s3(3)] by simp
  then have r3: "ready 3 s3" using ready_after [of 3 0 s0 s3] r0 by simp
  obtain s4 e where s4: "get_node_block (all_blocks (cp s3)) n3 = Some (fst x'')" "add_free (fst x'') s3 = Some (True, s4)"
    "coarse_ok s4 us (b1' @ (fst x'', (snd x'')\<lparr>free_list_ptr := e\<rparr>) # b2')" "outer s4 = outer s3" "grows 3 s3 s4"
    by (rule settle_ok [OF s3(4) N(1) cn uu r3])
  have run: "coarse_memory_provider_free (cpriv s) (bdata c) bytes s = Some (UMF_RESULT_SUCCESS, unlock_coarse s4)"
    unfolding coarse_memory_provider_free_def
    using pr lk debug_check_ok [OF ok0] s1 c bt s2(1) s3(1) s4(1,2) debug_check_ok [OF s4(3)] by auto
  have g: "grows 3 s (unlock_coarse s4)" using grows_unlock [OF _ l] grows_trans [OF g3 s4(5)] by (simp add: s0_def)
  have cov: "lo (snd x'') \<le> lo c" "hi c \<le> hi (snd x'')"
    using absorb_covers(1) [OF lay1(1) a1] absorb_covers(2) [OF lay2(1) a2] by (auto simp: x_def lo_def hi_def)
  show thesis
    by (rule that [OF run _ _ g, of "b1' @ (fst x'', (snd x'')\<lparr>free_list_ptr := e\<rparr>) # b2'" "(fst x'', (snd x'')\<lparr>free_list_ptr := e\<rparr>)"])
      (use s4(3) ub nx cov in \<open>auto simp: unlock_ok lo_def hi_def\<close>)
qed

text \<open>The requests that are refused leave the state as it is.\<close>

lemma unlock_lock: "\<not> clock (cp s) \<Longrightarrow> unlock_coarse (set_cp (\<lambda>p. p\<lparr>clock := True\<rparr>) s) = s"
  by (simp add: unlock_coarse_def set_cp_def)

lemma find_node_none:
  assumes "coarse_ok s us bs" "\<forall>x \<in> set bs. bdata (snd x) \<noteq> a"
  shows "coarse_ravl_find_node (all_blocks (cp s)) a = Some NULL"
proof -
  from assms(1) obtain xs where st: "stored (all_blocks (cp s)) (blocks (heap s)) bs xs" by (auto simp: coarse_ok_def rep_def)
  have "a \<notin> set (map key xs)" unfolding stored_keys [OF st] using assms(2) by auto
  then show ?thesis using find_node_ok(2) [of _ xs a] st by (simp add: stored_def)
qed

lemma find_node_some:
  assumes "coarse_ok s us bs" "x \<in> set bs"
  obtains n where "coarse_ravl_find_node (all_blocks (cp s)) (bdata (snd x)) = Some n" "n \<noteq> NULL"
    "get_node_block (all_blocks (cp s)) n = Some (fst x)" "blocks (heap s) (fst x) = Some (snd x)"
proof -
  from assms obtain xs b1 b2 where st: "stored (all_blocks (cp s)) (blocks (heap s)) (b1 @ x # b2) xs"
    by (auto simp: coarse_ok_def rep_def dest!: split_list)
  then show thesis using that stored_split [OF st] by metis
qed

lemma coarse_free_refused:
  assumes ok: "coarse_ok s us bs" and l: "\<not> clock (cp s)" and pr: "cpriv s \<noteq> NULL"
  shows "\<forall>x \<in> set bs. bdata (snd x) \<noteq> a \<Longrightarrow> coarse_memory_provider_free (cpriv s) a bytes s = Some (UMF_RESULT_ERROR_UNKNOWN, s)"
    "x \<in> set bs \<Longrightarrow> \<not> bused (snd x) \<or> bytes > 0 \<and> bytes \<noteq> bsize (snd x) \<Longrightarrow>
      coarse_memory_provider_free (cpriv s) (bdata (snd x)) bytes s = Some (UMF_RESULT_ERROR_INVALID_ARGUMENT, s)"
proof -
  define s0 where "s0 = set_cp (\<lambda>p. p\<lparr>clock := True\<rparr>) s"
  have lk: "lock_coarse s = Some s0" and ok0: "coarse_ok s0 us bs" and un: "unlock_coarse s0 = s"
    using l ok by (simp_all add: s0_def lock_simps unlock_lock)
  note d = debug_check_ok [OF ok0]
  show "coarse_memory_provider_free (cpriv s) a bytes s = Some (UMF_RESULT_ERROR_UNKNOWN, s)" if "\<forall>x \<in> set bs. bdata (snd x) \<noteq> a"
    using find_node_none [OF ok0 that] lk d un pr unfolding coarse_memory_provider_free_def by simp
  show "coarse_memory_provider_free (cpriv s) (bdata (snd x)) bytes s = Some (UMF_RESULT_ERROR_INVALID_ARGUMENT, s)"
    if x: "x \<in> set bs" and no: "\<not> bused (snd x) \<or> bytes > 0 \<and> bytes \<noteq> bsize (snd x)"
  proof -
    obtain n where n: "coarse_ravl_find_node (all_blocks (cp s0)) (bdata (snd x)) = Some n" "n \<noteq> NULL"
      "get_node_block (all_blocks (cp s0)) n = Some (fst x)" "blocks (heap s0) (fst x) = Some (snd x)" by (rule find_node_some [OF ok0 x])
    then show ?thesis using no lk d un pr unfolding coarse_memory_provider_free_def by (cases "bused (snd x)") simp_all
  qed
qed

end
