(* ===== verification/Coarse_Alloc.thy ===== *)
theory Coarse_Alloc
  imports Coarse_Free
begin

text \<open>
  Allocation in the coarse provider from a free block: the block leaves its list, the padding in front of the
  aligned address and the rest behind the request become free blocks of their own, and what remains is the
  allocation.
\<close>

section \<open>Alignment\<close>

lemma and_not_diff: "x AND NOT m = x - (x AND m)" for x m :: u64
proof -
  have "x = (x AND m) OR (x AND NOT m)" by (rule bit_eqI) (auto simp: bit_simps)
  moreover have "(x AND m) + (x AND NOT m) = (x AND m) OR (x AND NOT m)"
    by (rule disjunctive_add_eq_or) (simp add: and.left_commute and.assoc)
  ultimately show ?thesis by (metis add_diff_cancel_left')
qed

lemma align_up_bounds:
  assumes "al \<noteq> 0" "unat a + unat al < 2 ^ 64"
  shows "unat a \<le> unat (ALIGN_UP a al)" "unat (ALIGN_UP a al) < unat a + unat al" "IS_ALIGNED (ALIGN_UP a al) al"
proof -
  have pos: "0 < unat al" using assms(1) by (simp add: unat_gt_0)
  then have m: "unat (al - 1) = unat al - 1" by (simp add: unat_sub_u64)
  define x where "x = a + (al - 1)"
  have x: "unat x = unat a + unat al - 1" using assms(2) m pos unfolding x_def by (subst unat_add_u64) auto
  have e: "ALIGN_UP a al = x AND NOT (al - 1)" by (simp add: ALIGN_UP_def x_def add_diff_eq)
  have l: "x AND (al - 1) \<le> x" "unat (x AND (al - 1)) \<le> unat (al - 1)"
    by (simp_all add: word_and_le2 word_and_le1 flip: word_le_nat_alt)
  then have "unat (x AND NOT (al - 1)) = unat x - unat (x AND (al - 1))" unfolding and_not_diff by (simp add: unat_sub)
  then show "unat a \<le> unat (ALIGN_UP a al)" "unat (ALIGN_UP a al) < unat a + unat al" using x l m pos e by auto
  have "(x AND NOT (al - 1)) AND (al - 1) = 0" by (simp add: and.assoc)
  then show "IS_ALIGNED (ALIGN_UP a al) al" by (simp add: IS_ALIGNED_def e)
qed

section \<open>Taking a block out of its list\<close>

text \<open>A block that is in no list, whatever its mark says.\<close>

definition held :: "'w coarse_state \<Rightarrow> cblock list \<Rightarrow> cblock list \<Rightarrow> cblock \<Rightarrow> cblock list \<Rightarrow> bool" where
  "held s us b1 x b2 \<longleftrightarrow> (\<exists>xs. rep s us (b1 @ x # b2) (free_set (b1 @ b2)) xs) \<and> free_list_ptr (snd x) = NULL"

lemma free_set_sizes:
  assumes st: "stored r (blocks h) bs xs" and t: "(k, e, b) \<in> free_set bs"
  shows "\<exists>x. blocks h b = Some x \<and> bsize x = k"
  using assms by (auto simp: free_set_def stored_def)

lemma free_set_at:
  assumes "(k, e, b) \<in> free_set bs"
  obtains b1 x b2 where "bs = b1 @ x # b2" "\<not> bused (snd x)" "(k, e, b) = ftriple x"
  using assms by (auto simp: free_set_def ftriple_def dest!: split_list)

lemma removed_held:
  assumes rp: "rep s us (b1 @ x # b2) (free_set (b1 @ x # b2)) xs" and nu: "\<not> bused (snd x)"
    and rm: "free_removed (free_blocks (cp s)) (heap s) (free_set (b1 @ x # b2)) (ftriple x) r' h'"
    and s': "s' = set_cp (\<lambda>p. p\<lparr>free_blocks := r'\<rparr>) (s\<lparr>heap := h'\<rparr>)"
  shows "held s' us b1 (fst x, (snd x)\<lparr>free_list_ptr := NULL\<rparr>) b2" "outer s' = outer s" "grows 0 s s'"
    "blocks (heap s') (fst x) = Some ((snd x)\<lparr>free_list_ptr := NULL\<rparr>)" "fst x \<noteq> NULL"
proof -
  let ?x = "(fst x, (snd x)\<lparr>free_list_ptr := NULL\<rparr>)"
  from rp obtain uxs where st: "stored (all_blocks (cp s)) (blocks (heap s)) (b1 @ (fst x, snd x) # b2) xs"
    and us: "stored (upstream_blocks (cp s)) (blocks (heap s)) us uxs" and lay: "layout us (b1 @ x # b2)" by (auto simp: rep_def)
  note R = rm [unfolded free_removed_def]
  have b: "blocks (heap s) (fst x) = Some (snd x)" using st by (simp add: stored_def)
  then have bh: "blocks h' = (blocks (heap s))(fst x \<mapsto> (snd x)\<lparr>free_list_ptr := NULL\<rparr>)" using R by (simp add: ftriple_def)
  note off = layout_distinct [OF lay]
  have "ftriple x \<notin> free_set (b1 @ b2)" using free_set_ptr [of x "b1 @ b2"] off by auto
  then have "free_set (b1 @ x # b2) - {ftriple x} = free_set (b1 @ b2)" using nu by (auto simp: ftriple_def)
  then have "free_holds (free_blocks (cp s')) (heap s') (free_set (b1 @ b2))" using R by (simp add: s' set_cp_def)
  moreover have "stored (all_blocks (cp s')) (blocks (heap s')) (b1 @ ?x # b2) xs"
    using stored_update [OF st] off bh by (simp add: s' set_cp_def)
  moreover have "stored (upstream_blocks (cp s')) (blocks (heap s')) us uxs"
    using stored_off [OF us, of "{fst x}" "blocks h'"] off bh by (simp add: s' set_cp_def)
  moreover have "layout us (b1 @ ?x # b2)" using lay by (simp add: layout_parts before_def blk_ok_def inside_def lo_def hi_def)
  ultimately show "held s' us b1 ?x b2" unfolding held_def rep_def by auto
  show "outer s' = outer s" by (simp add: outer_def s' set_cp_def)
  have "dom (blocks h') = dom (blocks (heap s))" using bh b by auto
  then show "grows 0 s s'" using R unfolding grows_def live_def by (auto simp: s' set_cp_def config_def)
  show "blocks (heap s') (fst x) = Some ((snd x)\<lparr>free_list_ptr := NULL\<rparr>)" using bh by (simp add: s' set_cp_def)
  show "fst x \<noteq> NULL" using st by (simp add: stored_def)
qed

text \<open>The strategies for which the block that is found is large enough whatever its address: the fastest one,
  and every one when no alignment is asked for.\<close>

definition plain_search :: "coarse_memory_provider_strategy_t \<Rightarrow> u64 \<Rightarrow> bool" where
  "plain_search strategy al \<longleftrightarrow> strategy = UMF_COARSE_MEMORY_STRATEGY_FASTEST \<or> al = 0 \<and> strategy \<noteq> UMF_COARSE_MEMORY_STRATEGY_MAX"

lemma find_free_ok:
  assumes ok: "coarse_ok s us bs" and pl: "plain_search strategy al"
  obtains (none) "\<forall>x \<in> set bs. \<not> bused (snd x) \<longrightarrow> bsize (snd x) < sz + al"
      "find_free_block (free_blocks (cp s)) sz al strategy (heap s) = Some (NULL, free_blocks (cp s), heap s)"
  | (take) b1 x b2 r' h' where "bs = b1 @ x # b2" "\<not> bused (snd x)" "sz + al \<le> bsize (snd x)"
      "find_free_block (free_blocks (cp s)) sz al strategy (heap s) = Some (fst x, r', h')"
      "free_removed (free_blocks (cp s)) (heap s) (free_set bs) (ftriple x) r' h'"
proof -
  from ok obtain xs where rp: "rep s us bs (free_set bs) xs" by (auto simp: coarse_ok_def)
  then have st: "stored (all_blocks (cp s)) (blocks (heap s)) bs xs" and F: "free_holds (free_blocks (cp s)) (heap s) (free_set bs)" by (auto simp: rep_def)
  let ?rm = "free_blocks_rm_ge (free_blocks (cp s)) (sz + al) 0"
  define c where "c = (if strategy = UMF_COARSE_MEMORY_STRATEGY_CHECK_ALL_SIZE then CHECK_ALL_BLOCKS_OF_SIZE else CHECK_ONLY_THE_FIRST_BLOCK)"
  have al0: "IS_ALIGNED k 0" for k by (simp add: IS_ALIGNED_def)
  show thesis
  proof (cases "\<forall>t \<in> free_set bs. fst t < sz + al")
    case True
    have "?rm c (heap s) = Some (NULL, free_blocks (cp s), heap s)" for c
      by (rule free_rm_ge_ok [OF F free_set_sizes [OF st], where sz = "sz + al" and al = 0]) (use True al0 in force)+
    then have "find_free_block (free_blocks (cp s)) sz al strategy (heap s) = Some (NULL, free_blocks (cp s), heap s)"
      using pl by (cases strategy) (auto simp: find_free_block_def plain_search_def)
    moreover have "\<forall>x \<in> set bs. \<not> bused (snd x) \<longrightarrow> bsize (snd x) < sz + al" using True by (auto simp: free_set_def)
    ultimately show thesis using none by blast
  next
    case False
    obtain k e b r' h' where K: "(k, e, b) \<in> free_set bs" "sz + al \<le> k" "?rm c (heap s) = Some (b, r', h')"
      "free_removed (free_blocks (cp s)) (heap s) (free_set bs) (k, e, b) r' h'"
      by (rule free_rm_ge_ok [OF F free_set_sizes [OF st], where sz = "sz + al" and al = 0]) (use False al0 in auto)
    obtain b1 x b2 where x: "bs = b1 @ x # b2" "\<not> bused (snd x)" "(k, e, b) = ftriple x" by (rule free_set_at [OF K(1)])
    then have b: "b = fst x" "b \<noteq> NULL" "k = bsize (snd x)" using st by (auto simp: ftriple_def stored_def)
    have "find_free_block (free_blocks (cp s)) sz al strategy (heap s) = Some (fst x, r', h')"
      using pl K(3) b by (cases strategy) (auto simp: find_free_block_def plain_search_def c_def)
    then show thesis using take x K b by metis
  qed
qed

section \<open>Cutting a block\<close>

lemma cut_layout:
  assumes lay: "layout us (b1 @ (p, c) # b2)" and off: "off \<noteq> 0" "off < bsize c"
    and p2: "p2 \<noteq> NULL" "p2 \<notin> insert p (fst ` (set us \<union> set b1 \<union> set b2))"
    and c': "bdata c' = bdata c" "bsize c' = off" and c2: "bdata c2 = bdata c + off" "bsize c2 = bsize c - off"
  shows "layout us (b1 @ (p, c') # (p2, c2) # b2)" "hi c' = lo c2" "hi c2 = hi c" "lo c' = lo c" "lo c < lo c2"
    "unat (bsize c') + unat (bsize c2) = unat (bsize c)"
proof -
  have k: "blk_ok c" using lay by (simp add: layout_def)
  have o: "0 < unat off" "unat off < unat (bsize c)" using off by (simp_all add: unat_gt_0 word_less_nat_alt)
  have lt: "unat (bdata c) + unat (bsize c) < 2 ^ 64" using k by (simp add: blk_ok_def hi_def)
  have d2: "unat (bdata c2) = unat (bdata c) + unat off" unfolding c2 using o lt by (intro unat_add_u64) linarith
  have z2: "unat (bsize c2) = unat (bsize c) - unat off" unfolding c2 using o by (intro unat_sub_u64) linarith
  show h: "hi c' = lo c2" "hi c2 = hi c" "lo c' = lo c" "lo c < lo c2" "unat (bsize c') + unat (bsize c2) = unat (bsize c)"
    using d2 z2 o c' by (simp_all add: hi_def lo_def)
  have "bdata c2 \<noteq> 0" "bsize c2 \<noteq> 0" using d2 z2 o by (metis add_is_0 less_irrefl unat_0, metis unat_0 zero_less_diff less_irrefl)
  moreover have "hi c2 < 2 ^ 64" "hi c' < 2 ^ 64" using h k blk_ok_lt [OF k] lt o d2 z2 c' by (simp_all add: hi_def)
  ultimately have "blk_ok c'" "blk_ok c2" using k c' off by (simp_all add: blk_ok_def)
  note bk = this
  from lay obtain u where L: "layout us (b1 @ b2)" "p \<noteq> NULL" "p \<notin> fst ` (set us \<union> set b1 \<union> set b2)" "\<forall>y \<in> set b1. hi (snd y) \<le> lo c"
    "\<forall>y \<in> set b2. hi c \<le> lo (snd y)" and u: "u \<in> set us" "inside c (snd u)" by (auto simp: layout_parts before_def)
  have ord: "hi c' \<le> hi c" "lo c \<le> lo c2" using h blk_ok_lt [OF bk(2)] by auto
  have i: "inside c' (snd u)" "inside c2 (snd u)" using u(2) h ord by (auto simp: inside_def)
  have 1: "layout us (b1 @ (p, c') # b2)"
    unfolding layout_parts using L bk(1) u(1) i(1) h(3) ord(1) by (force simp: before_def)
  have "\<forall>y \<in> set b1. before y (p2, c2)" "\<forall>y \<in> set b2. before (p2, c2) y" "before (p, c') (p2, c2)"
    using L(4,5) ord h by (auto simp: before_def dest!: bspec)
  then have "layout us ((b1 @ [(p, c')]) @ (p2, c2) # b2)"
    unfolding layout_parts using 1 bk(2) p2 u(1) i(2) by auto
  then show "layout us (b1 @ (p, c') # (p2, c2) # b2)" by simp
qed

text \<open>The new block behind a held one, before the size of the held block is changed.\<close>

lemma cut_start:
  assumes h: "held s us b1 (p, c) b2" and off: "off \<noteq> 0" "off < bsize c" and r: "ready 2 s"
  obtains p2 n2 c2 s1 xs uxs where "add_block (bdata c + off) (bsize c - off) s = Some ((p2, n2), s1)" "p2 \<noteq> NULL" "n2 \<noteq> NULL"
    "p2 \<notin> insert p (fst ` (set us \<union> set b1 \<union> set b2))" "bsize c2 = bsize c - off" "bdata c2 = bdata c + off" "free_list_ptr c2 = NULL"
    "stored (all_blocks (cp s1)) (blocks (heap s1)) (b1 @ (p, c) # (p2, c2) # b2) xs" "get_node_block (all_blocks (cp s1)) n2 = Some p2"
    "stored (upstream_blocks (cp s1)) (blocks (heap s1)) us uxs" "free_holds (free_blocks (cp s1)) (heap s1) (free_set (b1 @ b2))"
    "layout us (b1 @ (p, c) # b2)" "outer s1 = outer s" "grows 2 s s1"
proof -
  from h obtain xs uxs where st: "stored (all_blocks (cp s)) (blocks (heap s)) (b1 @ (p, c) # b2) xs"
    and us: "stored (upstream_blocks (cp s)) (blocks (heap s)) us uxs" and lay: "layout us (b1 @ (p, c) # b2)"
    and F: "free_holds (free_blocks (cp s)) (heap s) (free_set (b1 @ b2))" by (auto simp: held_def rep_def)
  obtain x1 n x2 where x: "xs = x1 @ (n, block_data (p, c)) # x2" "map snd x1 = map block_data b1" by (rule stored_split [OF st])
  have k: "blk_ok c" using lay by (simp add: layout_def)
  have o: "0 < unat off" "unat off < unat (bsize c)" using off by (simp_all add: unat_gt_0 word_less_nat_alt)
  have lt: "unat (bdata c) + unat (bsize c) < 2 ^ 64" using k by (simp add: blk_ok_def hi_def)
  have d2: "unat (bdata c + off) = lo c + unat off" unfolding lo_def using o lt by (intro unat_add_u64) linarith
  have nz: "bdata c + off \<noteq> 0" "bsize c - off \<noteq> 0" 
  proof -
    show "bsize c - off \<noteq> 0" using off by auto
    have "unat (bdata c + off) \<noteq> 0" using d2 o by simp
    then show "bdata c + off \<noteq> 0" by (metis unat_0)
  qed
  have k1: "\<forall>x \<in> set (b1 @ [(p, c)]). bdata (snd x) < bdata c + off"
  proof
    fix x assume x: "x \<in> set (b1 @ [(p, c)])"
    have "lo (snd x) \<le> lo c"
    proof (cases "x \<in> set b1")
      case True
      then have "blk_ok (snd x)" "hi (snd x) \<le> lo c" using lay by (auto simp: layout_def sorted_wrt_append before_def)
      then show ?thesis using blk_ok_lt [of "snd x"] by simp
    qed (use x in auto)
    then show "bdata (snd x) < bdata c + off" using d2 o by (simp add: word_less_nat_alt lo_def)
  qed
  have k2: "\<forall>x \<in> set b2. bdata c + off < bdata (snd x)"
  proof
    fix x assume "x \<in> set b2"
    then have "hi c \<le> lo (snd x)" using lay by (auto simp: layout_parts before_def)
    then show "bdata c + off < bdata (snd x)" using d2 o by (simp add: word_less_nat_alt lo_def hi_def)
  qed
  have st2: "stored (all_blocks (cp s)) (blocks (heap s)) ((b1 @ [(p, c)]) @ b2) xs" using st by simp
  have m: "xs = (x1 @ [(n, block_data (p, c))]) @ x2" "map snd (x1 @ [(n, block_data (p, c))]) = map block_data (b1 @ [(p, c)])" using x by auto
  obtain p2 n2 s1 c2 where A: "add_block (bdata c + off) (bsize c - off) s = Some ((p2, n2), s1)" "p2 \<noteq> NULL" "n2 \<noteq> NULL" "p2 \<notin> dom (blocks (heap s))"
    "bsize c2 = bsize c - off" "bdata c2 = bdata c + off" "free_list_ptr c2 = NULL" "blocks (heap s1) = (blocks (heap s))(p2 \<mapsto> c2)"
    "stored (all_blocks (cp s1)) (blocks (heap s1)) ((b1 @ [(p, c)]) @ (p2, c2) # b2) ((x1 @ [(n, block_data (p, c))]) @ (n2, block_data (p2, c2)) # x2)"
    "outer s1 = outer s" "free_blocks (cp s1) = free_blocks (cp s)" "fheads (heap s1) = fheads (heap s)"
    "elems (heap s1) = elems (heap s)" "grows 2 s s1"
    by (rule add_block_ok [OF st2 m k1 k2 nz r])
  have fresh: "p2 \<notin> insert p (fst ` (set us \<union> set b1 \<union> set b2))"
    using A(4) st us by (auto simp: stored_def)
  have t: "block_tree (all_blocks (cp s1)) ((x1 @ [(n, block_data (p, c))]) @ (n2, block_data (p2, c2)) # x2)" using A(9) by (simp add: stored_def)
  show thesis
  proof (rule that [OF A(1-3) fresh A(5-7)])
    show "stored (all_blocks (cp s1)) (blocks (heap s1)) (b1 @ (p, c) # (p2, c2) # b2) (x1 @ (n, block_data (p, c)) # (n2, block_data (p2, c2)) # x2)"
      using A(9) by simp
    show "get_node_block (all_blocks (cp s1)) n2 = Some p2" using node_block_ok [OF t, of n2 "block_data (p2, c2)"] A(2) by simp
    show "stored (upstream_blocks (cp s1)) (blocks (heap s1)) us uxs"
      using stored_off [OF us, of "{p2}" "blocks (heap s1)"] A(8,10) fresh by (simp add: outer_def image_Un)
    show "free_holds (free_blocks (cp s1)) (heap s1) (free_set (b1 @ b2))" using free_holds_frame [OF F A(12,13)] A(11) by simp
  qed (use lay A in auto)
qed

text \<open>The padding in front of the aligned address becomes a free block.\<close>

lemma pad_ok:
  assumes h: "held s us b1 (p, c) b2" and al: "al \<noteq> 0" and off: "off = ALIGN_UP (bdata c) al - bdata c" "off \<noteq> 0" "off < bsize c"
    and fits: "orig \<le> bsize c - off" and r: "ready 5 s"
  obtains p2 c2 e s' where "create_aligned_block orig al p s = Some ((UMF_RESULT_SUCCESS, p2), s')"
    "held s' us (b1 @ [(p, c\<lparr>bused := False, bsize := off, free_list_ptr := e\<rparr>)]) (p2, c2) b2"
    "bdata c2 = bdata c + off" "bsize c2 = bsize c - off" "outer s' = outer s" "grows 5 s s'"
proof -
  obtain p2 n2 c2 s1 xs uxs where A: "add_block (bdata c + off) (bsize c - off) s = Some ((p2, n2), s1)" "p2 \<noteq> NULL" "n2 \<noteq> NULL"
    "p2 \<notin> insert p (fst ` (set us \<union> set b1 \<union> set b2))" "bsize c2 = bsize c - off" "bdata c2 = bdata c + off" "free_list_ptr c2 = NULL"
    "stored (all_blocks (cp s1)) (blocks (heap s1)) (b1 @ (p, c) # (p2, c2) # b2) xs" "get_node_block (all_blocks (cp s1)) n2 = Some p2"
    "stored (upstream_blocks (cp s1)) (blocks (heap s1)) us uxs" "free_holds (free_blocks (cp s1)) (heap s1) (free_set (b1 @ b2))"
    "layout us (b1 @ (p, c) # b2)" "outer s1 = outer s" "grows 2 s s1"
    by (rule cut_start [OF h off(2,3) ready_mono [OF r]]) auto
  define c1 where "c1 = c\<lparr>bused := False, bsize := off\<rparr>"
  have bp: "blocks (heap s1) p = Some c" "p \<noteq> NULL" using A(8) by (auto simp: stored_def)
  define s2 where "s2 = s1\<lparr>heap := (heap s1)\<lparr>blocks := (blocks (heap s1))(p \<mapsto> c1)\<rparr>\<rparr>"
  have sb: "set_block p (\<lambda>b. b\<lparr>bused := False, bsize := off\<rparr>) s1 = Some s2"
    using set_block_ok [OF bp(1), of "\<lambda>b. b\<lparr>bused := False, bsize := off\<rparr>"] by (simp add: s2_def c1_def)
  have g2: "grows 2 s s2"
    using grows_trans [OF A(14) grows_blocks [of "(blocks (heap s1))(p \<mapsto> c1)" s1 0]] bp by (auto simp: s2_def insert_absorb)
  have F2: "free_holds (free_blocks (cp s2)) (heap s2) (free_set (b1 @ b2))" using free_holds_frame [OF A(11)] by (simp add: s2_def)
  have b2: "blocks (heap s2) p = Some c1" by (simp add: s2_def)
  have r2: "ready 3 s2" using ready_after [of 3 2 s s2] r g2 by simp
  obtain s3 e where s3: "add_free p s2 = Some (True, s3)" "blocks (heap s3) = (blocks (heap s2))(p \<mapsto> c1\<lparr>free_list_ptr := e\<rparr>)" "e \<noteq> NULL"
    "free_holds (free_blocks (cp s3)) (heap s3) (insert (bsize c1, e, p) (free_set (b1 @ b2)))" "outer s3 = outer s2"
    "all_blocks (cp s3) = all_blocks (cp s2)" "grows 3 s2 s3" by (rule add_free_ok [OF F2 b2 bp(2) r2])
  define c' where "c' = c\<lparr>bused := False, bsize := off, free_list_ptr := e\<rparr>"
  have B3: "blocks (heap s3) = (blocks (heap s1))(p \<mapsto> c')" using s3(2) by (simp add: s2_def c1_def c'_def)
  have lay: "layout us (b1 @ (p, c') # (p2, c2) # b2)"
    by (rule cut_layout(1) [OF A(12) off(2,3) A(2,4)]) (simp_all add: c'_def A(5,6))
  note di = layout_distinct [OF A(12)]
  have "stored (all_blocks (cp s3)) (blocks (heap s3)) (b1 @ (p, c') # (p2, c2) # b2) xs"
    using stored_update [OF A(8), of c'] di A(4) s3(6) B3 by (auto simp: s2_def c'_def)
  moreover have "stored (upstream_blocks (cp s3)) (blocks (heap s3)) us uxs"
    using stored_off [OF A(10), of "{p}" "blocks (heap s3)"] di B3 s3(5) by (simp add: outer_def s2_def)
  moreover have "insert (bsize c1, e, p) (free_set (b1 @ b2)) = free_set ((b1 @ [(p, c')]) @ b2)" by (auto simp: c1_def c'_def)
  ultimately have held: "held s3 us (b1 @ [(p, c')]) (p2, c2) b2" using s3(4) lay A(7) by (auto simp: held_def rep_def)
  have "blocks (heap s3) p2 = Some c2" using A(8) A(4) B3 by (auto simp: stored_def)
  moreover have "blocks (heap s) p = Some c" using h by (auto simp: held_def rep_def stored_def)
  ultimately have "create_aligned_block orig al p s = Some ((UMF_RESULT_SUCCESS, p2), s3)"
    unfolding create_aligned_block_def using al off A(1,2,5) sb s3(1) fits by (simp add: word_gt_0)
  moreover have "grows 5 s s3" using grows_trans [OF g2 s3(7)] by simp
  moreover have "outer s3 = outer s" using s3(5) A(13) by (simp add: s2_def outer_def)
  ultimately show thesis using that [of p2 s3 e c2] held A(5,6) by (simp add: c'_def)
qed

text \<open>The rest behind the request becomes a free block.\<close>

lemma split_block_ok:
  assumes h: "held s us b1 (p, c) b2" and sz: "sz \<noteq> 0" "sz < bsize c" and r: "ready 5 s"
  obtains p2 c2 s1 s2 s' where "split_current_block p sz s = Some (UMF_RESULT_SUCCESS, s1)"
    "set_block p (\<lambda>b. b\<lparr>bsize := sz\<rparr>) s1 = Some s2" "set_block p (\<lambda>b. b\<lparr>bused := True\<rparr>) s2 = Some s'"
    "\<exists>xs. rep s' us (b1 @ (p, c\<lparr>bsize := sz, bused := True\<rparr>) # (p2, c2) # b2) (free_set (b1 @ (p2, c2) # b2)) xs"
    "bdata c2 = bdata c + sz" "bsize c2 = bsize c - sz" "\<not> bused c2" "outer s' = outer s" "grows 5 s s'"
    "layout us (b1 @ (p, c) # b2)" "blocks (heap s') p = Some (c\<lparr>bsize := sz, bused := True\<rparr>)"
    "p2 \<noteq> NULL" "p2 \<notin> insert p (fst ` (set us \<union> set b1 \<union> set b2))"
proof -
  obtain p2 n2 c0 s1 xs uxs where A: "add_block (bdata c + sz) (bsize c - sz) s = Some ((p2, n2), s1)" "p2 \<noteq> NULL" "n2 \<noteq> NULL"
    "p2 \<notin> insert p (fst ` (set us \<union> set b1 \<union> set b2))" "bsize c0 = bsize c - sz" "bdata c0 = bdata c + sz" "free_list_ptr c0 = NULL"
    "stored (all_blocks (cp s1)) (blocks (heap s1)) (b1 @ (p, c) # (p2, c0) # b2) xs" "get_node_block (all_blocks (cp s1)) n2 = Some p2"
    "stored (upstream_blocks (cp s1)) (blocks (heap s1)) us uxs" "free_holds (free_blocks (cp s1)) (heap s1) (free_set (b1 @ b2))"
    "layout us (b1 @ (p, c) # b2)" "outer s1 = outer s" "grows 2 s s1"
    by (rule cut_start [OF h sz ready_mono [OF r]]) auto
  define c1 where "c1 = c0\<lparr>bused := False\<rparr>"
  have bp: "blocks (heap s1) p = Some c" "blocks (heap s1) p2 = Some c0" using A(8) by (auto simp: stored_def)
  define s2 where "s2 = s1\<lparr>heap := (heap s1)\<lparr>blocks := (blocks (heap s1))(p2 \<mapsto> c1)\<rparr>\<rparr>"
  have sb: "set_block p2 (\<lambda>b. b\<lparr>bused := False\<rparr>) s1 = Some s2"
    using set_block_ok [OF bp(2), of "\<lambda>b. b\<lparr>bused := False\<rparr>"] by (simp add: s2_def c1_def)
  have g2: "grows 2 s s2"
    using grows_trans [OF A(14) grows_blocks [of "(blocks (heap s1))(p2 \<mapsto> c1)" s1 0]] bp by (auto simp: s2_def insert_absorb)
  have F2: "free_holds (free_blocks (cp s2)) (heap s2) (free_set (b1 @ b2))" using free_holds_frame [OF A(11)] by (simp add: s2_def)
  have b2: "blocks (heap s2) p2 = Some c1" by (simp add: s2_def)
  have r2: "ready 3 s2" using ready_after [of 3 2 s s2] r g2 by simp
  obtain s3 e where s3: "add_free p2 s2 = Some (True, s3)" "blocks (heap s3) = (blocks (heap s2))(p2 \<mapsto> c1\<lparr>free_list_ptr := e\<rparr>)" "e \<noteq> NULL"
    "free_holds (free_blocks (cp s3)) (heap s3) (insert (bsize c1, e, p2) (free_set (b1 @ b2)))" "outer s3 = outer s2"
    "all_blocks (cp s3) = all_blocks (cp s2)" "grows 3 s2 s3" by (rule add_free_ok [OF F2 b2 A(2) r2])
  define c2 where "c2 = c1\<lparr>free_list_ptr := e\<rparr>"
  define cu where "cu = c\<lparr>bsize := sz, bused := True\<rparr>"
  have split: "split_current_block p sz s = Some (UMF_RESULT_SUCCESS, s3)"
  proof -
    have "blocks (heap s) p = Some c" using h by (auto simp: held_def rep_def stored_def)
    moreover have "get_node_block (all_blocks (cp s2)) n2 = Some p2" using A(9) by (simp add: s2_def)
    ultimately show ?thesis unfolding split_current_block_def using A(1,2) sb s3(1) by simp
  qed
  have p3: "blocks (heap s3) p = Some c" using s3(2) bp A(4) by (auto simp: s2_def)
  define s4 where "s4 = s3\<lparr>heap := (heap s3)\<lparr>blocks := (blocks (heap s3))(p \<mapsto> c\<lparr>bsize := sz\<rparr>)\<rparr>\<rparr>"
  have s4: "set_block p (\<lambda>b. b\<lparr>bsize := sz\<rparr>) s3 = Some s4" using set_block_ok [OF p3, of "\<lambda>b. b\<lparr>bsize := sz\<rparr>"] by (simp add: s4_def)
  define s5 where "s5 = s3\<lparr>heap := (heap s3)\<lparr>blocks := (blocks (heap s3))(p \<mapsto> cu)\<rparr>\<rparr>"
  have s5: "set_block p (\<lambda>b. b\<lparr>bused := True\<rparr>) s4 = Some s5"
    using set_block_ok [of s4 p "c\<lparr>bsize := sz\<rparr>" "\<lambda>b. b\<lparr>bused := True\<rparr>"] by (simp add: s4_def s5_def cu_def)
  have lay: "layout us (b1 @ (p, cu) # (p2, c2) # b2)"
    by (rule cut_layout(1) [OF A(12) sz A(2,4)]) (simp_all add: cu_def c2_def c1_def A(5,6))
  note di = layout_distinct [OF A(12)]
  have "stored (all_blocks (cp s5)) (blocks (heap s5)) (b1 @ (p, cu) # (p2, c2) # b2) xs"
  proof -
    have "stored (all_blocks (cp s1)) ((blocks (heap s1))(p \<mapsto> cu)) (b1 @ (p, cu) # (p2, c0) # b2) xs"
      using stored_update [OF A(8), of cu] di A(4) by (auto simp: cu_def)
    then have "stored (all_blocks (cp s1)) ((blocks (heap s1))(p \<mapsto> cu, p2 \<mapsto> c2)) ((b1 @ [(p, cu)]) @ (p2, c2) # b2) xs"
      using stored_update [of "all_blocks (cp s1)" "(blocks (heap s1))(p \<mapsto> cu)" "b1 @ [(p, cu)]" p2 c0 b2 xs c2] A(4)
      by (auto simp: c2_def c1_def)
    moreover have "(blocks (heap s1))(p \<mapsto> cu, p2 \<mapsto> c2) = blocks (heap s5)" using s3(2) A(4) by (auto simp: s5_def s2_def c2_def)
    ultimately show ?thesis using s3(6) by (simp add: s5_def s2_def)
  qed
  moreover have "stored (upstream_blocks (cp s5)) (blocks (heap s5)) us uxs"
    using stored_off [OF A(10), of "{p, p2}" "blocks (heap s5)"] di A(4) s3(2,5) by (auto simp: outer_def s5_def s2_def)
  moreover have "free_holds (free_blocks (cp s5)) (heap s5) (free_set (b1 @ (p2, c2) # b2))"
  proof -
    have "insert (bsize c1, e, p2) (free_set (b1 @ b2)) = free_set (b1 @ (p2, c2) # b2)" by (auto simp: c1_def c2_def)
    then show ?thesis using free_holds_frame [OF s3(4), of "heap s5"] by (simp add: s5_def)
  qed
  ultimately have rp: "\<exists>xs. rep s5 us (b1 @ (p, cu) # (p2, c2) # b2) (free_set (b1 @ (p2, c2) # b2)) xs" using lay by (auto simp: rep_def)
  have "grows 0 s3 s5" unfolding s5_def by (rule grows_blocks) (use p3 in auto)
  then have g: "grows 5 s s5" using grows_trans [OF grows_trans [OF g2 s3(7)]] by fastforce
  have o: "outer s5 = outer s" using s3(5) A(13) by (simp add: s5_def s2_def outer_def)
  show thesis
    by (rule that [OF split s4 s5 rp [unfolded cu_def] _ _ _ o g A(12) _ A(2,4)]) (simp_all add: c2_def c1_def A(5,6) s5_def cu_def)
qed

end
