(* ===== verification/Coarse_Request.thy ===== *)
theory Coarse_Request
  imports Coarse_Alloc
begin

text \<open>
  The allocation request of the coarse provider: a free block that is large enough is cut to the aligned
  address and the size of the request, and the invariant holds again.
\<close>

section \<open>Neighbours of a cut block\<close>

lemma shrink_join:
  assumes lay: "layout us bs" and u: "u \<in> set us" "inside c (snd u)" and c': "lo c \<le> lo c'" "hi c' \<le> hi c" "blk_ok c'" and nu: "\<not> bused c"
  shows "lo c' = lo c \<Longrightarrow> may_join us y (p', c') \<Longrightarrow> may_join us y (p, c)"
    "hi c' = hi c \<Longrightarrow> may_join us (p', c') y \<Longrightarrow> may_join us (p, c) y"
proof -
  have i: "inside c' (snd u)" using u(2) c' by (auto simp: inside_def)
  have org: "v = u" if "v \<in> set us" "inside c' (snd v)" for v using unique_origin [OF lay that(1) u(1) c'(3) that(2) i] .
  show "lo c' = lo c \<Longrightarrow> may_join us y (p', c') \<Longrightarrow> may_join us y (p, c)"
    "hi c' = hi c \<Longrightarrow> may_join us (p', c') y \<Longrightarrow> may_join us (p, c) y"
    using org u nu unfolding may_join_def same_org_def by auto
qed

text \<open>A sequence without the block \<open>(p, c)\<close>, which is about to be used: both sides are merged, no free block
  adjoins it on the right, and the counters count it as free.\<close>

definition taken :: "'w coarse_state \<Rightarrow> cblock list \<Rightarrow> cblock list \<Rightarrow> cblock \<Rightarrow> cblock list \<Rightarrow> bool" where
  "taken s us b1 x b2 \<longleftrightarrow> held s us b1 x b2 \<and> merged us b1 \<and> merged us b2 \<and>
     (b2 = [] \<or> \<not> may_join us (fst x, (snd x)\<lparr>bused := False\<rparr>) (hd b2)) \<and>
     (\<forall>y \<in> set (b1 @ b2). bused (snd y) \<longrightarrow> free_list_ptr (snd y) = NULL) \<and>
     unat (used_size (cp s)) = used_sum b1 + used_sum b2 \<and>
     unat (alloc_size (cp s)) = blk_sum b1 + unat (bsize (snd x)) + blk_sum b2 \<and> blk_sum us = blk_sum b1 + unat (bsize (snd x)) + blk_sum b2"

lemma taken_counters:
  assumes "taken s us b1 (p, c) b2" "unat sz \<le> unat (bsize c)"
  shows "unat (used_size (cp s) + sz) = used_sum b1 + unat sz + used_sum b2"
proof -
  have "unat (used_size (cp s)) + unat sz \<le> unat (alloc_size (cp s))"
    using assms used_sum_le [of b1] used_sum_le [of b2] by (auto simp: taken_def)
  moreover have "unat (alloc_size (cp s)) < 2 ^ 64" using unsigned_less [of "alloc_size (cp s)"] by simp
  ultimately have "unat (used_size (cp s)) + unat sz < 2 ^ 64" by linarith
  then show ?thesis using assms by (simp add: unat_add_u64 taken_def)
qed

lemma set_used_ok:
  assumes "rep s us bs (free_set bs) xs"
  shows "rep (set_cp (\<lambda>p. p\<lparr>used_size := w\<rparr>) s) us bs (free_set bs) xs"
  using assms by (simp add: rep_def set_cp_def)

text \<open>The whole block is used.\<close>

lemma use_ok:
  assumes t: "taken s us b1 (p, c) b2"
  obtains s' where "set_block p (\<lambda>b. b\<lparr>bused := True\<rparr>) s = Some s'" "blocks (heap s') p = Some (c\<lparr>bused := True\<rparr>)"
    "coarse_ok (set_cp (\<lambda>q. q\<lparr>used_size := used_size q + bsize c\<rparr>) s') us (b1 @ (p, c\<lparr>bused := True\<rparr>) # b2)" "grows 0 s s'"
proof -
  let ?c = "c\<lparr>bused := True\<rparr>"
  from t obtain xs uxs where st: "stored (all_blocks (cp s)) (blocks (heap s)) (b1 @ (p, c) # b2) xs" and nl: "free_list_ptr c = NULL"
    and us: "stored (upstream_blocks (cp s)) (blocks (heap s)) us uxs" and lay: "layout us (b1 @ (p, c) # b2)"
    and F: "free_holds (free_blocks (cp s)) (heap s) (free_set (b1 @ b2))" by (auto simp: taken_def held_def rep_def)
  have b: "blocks (heap s) p = Some c" using st by (simp add: stored_def)
  define s' where "s' = s\<lparr>heap := (heap s)\<lparr>blocks := (blocks (heap s))(p \<mapsto> ?c)\<rparr>\<rparr>"
  have sb: "set_block p (\<lambda>b. b\<lparr>bused := True\<rparr>) s = Some s'" using set_block_ok [OF b] by (simp add: s'_def)
  note di = layout_distinct [OF lay]
  define s2 where "s2 = set_cp (\<lambda>q. q\<lparr>used_size := used_size q + bsize c\<rparr>) s'"
  have h2: "heap s2 = (heap s)\<lparr>blocks := (blocks (heap s))(p \<mapsto> ?c)\<rparr>" "upstream_blocks (cp s2) = upstream_blocks (cp s)"
    "all_blocks (cp s2) = all_blocks (cp s)" "free_blocks (cp s2) = free_blocks (cp s)" "used_size (cp s2) = used_size (cp s) + bsize c"
    "alloc_size (cp s2) = alloc_size (cp s)" by (simp_all add: s2_def s'_def set_cp_def)
  have "stored (all_blocks (cp s2)) (blocks (heap s2)) (b1 @ (p, ?c) # b2) xs" using stored_update [OF st, of ?c] di by (simp add: h2)
  moreover have "stored (upstream_blocks (cp s2)) (blocks (heap s2)) us uxs" using stored_off [OF us, of "{p}"] di by (simp add: h2)
  moreover have "free_holds (free_blocks (cp s2)) (heap s2) (free_set (b1 @ (p, ?c) # b2))" using free_holds_frame [OF F] by (simp add: h2)
  moreover have "layout us (b1 @ (p, ?c) # b2)" using lay by (simp add: layout_parts before_def blk_ok_def inside_def lo_def hi_def)
  ultimately have "\<exists>xs. rep s2 us (b1 @ (p, ?c) # b2) (free_set (b1 @ (p, ?c) # b2)) xs" unfolding rep_def by blast
  moreover have "merged us (b1 @ (p, ?c) # b2)" using t by (auto simp: taken_def merged_append merged_Cons may_join_def)
  moreover have "counters s2 us (b1 @ (p, ?c) # b2)" using t taken_counters [OF t, of "bsize c"] by (simp add: counters_def h2 taken_def)
  ultimately have "coarse_ok s2 us (b1 @ (p, ?c) # b2)" using t nl by (auto simp: coarse_ok_def taken_def)
  moreover have "grows 0 s s'" unfolding s'_def by (rule grows_blocks) (use b in auto)
  ultimately show thesis using that [OF sb] by (simp add: s2_def s'_def)
qed

text \<open>The block is cut behind the request.\<close>

lemma split_use_ok:
  assumes t: "taken s us b1 (p, c) b2" and sz: "sz \<noteq> 0" "sz < bsize c" and r: "ready 5 s"
  obtains s1 s2 s' p2 c2 where "split_current_block p sz s = Some (UMF_RESULT_SUCCESS, s1)"
    "set_block p (\<lambda>b. b\<lparr>bsize := sz\<rparr>) s1 = Some s2" "set_block p (\<lambda>b. b\<lparr>bused := True\<rparr>) s2 = Some s'"
    "coarse_ok (set_cp (\<lambda>q. q\<lparr>used_size := used_size q + sz\<rparr>) s') us (b1 @ (p, c\<lparr>bsize := sz, bused := True\<rparr>) # (p2, c2) # b2)"
    "blocks (heap s') p = Some (c\<lparr>bsize := sz, bused := True\<rparr>)" "\<not> bused c2" "grows 5 s s'"
proof -
  have h: "held s us b1 (p, c) b2" using t by (simp add: taken_def)
  obtain p2 c2 s1 s2 s' where A: "split_current_block p sz s = Some (UMF_RESULT_SUCCESS, s1)"
    "set_block p (\<lambda>b. b\<lparr>bsize := sz\<rparr>) s1 = Some s2" "set_block p (\<lambda>b. b\<lparr>bused := True\<rparr>) s2 = Some s'"
    "\<exists>xs. rep s' us (b1 @ (p, c\<lparr>bsize := sz, bused := True\<rparr>) # (p2, c2) # b2) (free_set (b1 @ (p2, c2) # b2)) xs"
    "bdata c2 = bdata c + sz" "bsize c2 = bsize c - sz" "\<not> bused c2" "outer s' = outer s" "grows 5 s s'"
    "layout us (b1 @ (p, c) # b2)" "blocks (heap s') p = Some (c\<lparr>bsize := sz, bused := True\<rparr>)"
    "p2 \<noteq> NULL" "p2 \<notin> insert p (fst ` (set us \<union> set b1 \<union> set b2))"
    by (rule split_block_ok [OF h sz r])
  define cu where "cu = c\<lparr>bsize := sz, bused := True\<rparr>"
  have cd: "bdata cu = bdata c" "bsize cu = sz" "bused cu" by (simp_all add: cu_def)
  note L = cut_layout [OF A(10) sz A(12,13) cd(1,2) A(5,6)]
  let ?bs = "b1 @ (p, cu) # (p2, c2) # b2"
  define s3 where "s3 = set_cp (\<lambda>q. q\<lparr>used_size := used_size q + sz\<rparr>) s'"
  have "free_set ?bs = free_set (b1 @ (p2, c2) # b2)" using cd by simp
  then have "\<exists>xs. rep s3 us ?bs (free_set ?bs) xs" using A(4) by (auto simp: s3_def rep_def set_cp_def cu_def)
  moreover have "merged us ?bs"
  proof -
    obtain u where u: "u \<in> set us" "inside c (snd u)" using A(10) by (auto simp: layout_parts)
    have "blk_ok c2" using L(1) by (auto simp: layout_def)
    have mj: "may_join us (p, c\<lparr>bused := False\<rparr>) y" if "may_join us (p2, c2) y" for y
      using shrink_join(2) [OF A(10) u(1), of "c\<lparr>bused := False\<rparr>" c2 p2 y p] u(2) L(3,5) \<open>blk_ok c2\<close> that
      by (simp add: lo_def hi_def inside_def)
    have "b2 = [] \<or> \<not> may_join us (p2, c2) (hd b2)" using t mj [of "hd b2"] by (auto simp: taken_def)
    then show ?thesis using t cd by (auto simp: taken_def merged_append merged_Cons may_join_def)
  qed
  moreover have "counters s3 us ?bs"
  proof -
    have "unat sz \<le> unat (bsize c)" using sz by (simp add: word_less_nat_alt)
    then have "unat (used_size (cp s3)) = used_sum b1 + unat sz + used_sum b2"
      using taken_counters [OF t] A(8) by (simp add: s3_def set_cp_def outer_def)
    moreover have "alloc_size (cp s3) = alloc_size (cp s)" using A(8) by (simp add: s3_def set_cp_def outer_def)
    ultimately show ?thesis using t L(6) cd A(7) by (simp add: counters_def taken_def)
  qed
  moreover have "\<forall>x \<in> set ?bs. bused (snd x) \<longrightarrow> free_list_ptr (snd x) = NULL"
    using t h A(7) by (auto simp: taken_def held_def cu_def)
  ultimately have "coarse_ok s3 us ?bs" by (simp add: coarse_ok_def)
  then show thesis using that [OF A(1-3)] A(7,9,11) by (auto simp: s3_def cu_def)
qed

text \<open>The padding is cut off in front.\<close>

lemma merged_Nil [simp]: "merged us []"
  by (simp add: merged_def)

lemma pad_taken:
  assumes t: "taken s us b1 (p, c) b2" and nu: "\<not> bused c" and left: "b1 = [] \<or> \<not> may_join us (last b1) (p, c)"
    and al: "al \<noteq> 0" and off: "off = ALIGN_UP (bdata c) al - bdata c" "off \<noteq> 0" "off < bsize c"
    and fits: "sz \<le> bsize c - off" and r: "ready 5 s"
  obtains p2 c2 s' c' where "create_aligned_block sz al p s = Some ((UMF_RESULT_SUCCESS, p2), s')"
    "taken s' us (b1 @ [(p, c')]) (p2, c2) b2" "\<not> bused c'" "bdata c2 = bdata c + off" "bsize c2 = bsize c - off" "grows 5 s s'"
    "lo c \<le> lo c2" "hi c2 = hi c"
proof -
  have h: "held s us b1 (p, c) b2" using t by (simp add: taken_def)
  obtain p2 c2 e s' where A: "create_aligned_block sz al p s = Some ((UMF_RESULT_SUCCESS, p2), s')"
    "held s' us (b1 @ [(p, c\<lparr>bused := False, bsize := off, free_list_ptr := e\<rparr>)]) (p2, c2) b2"
    "bdata c2 = bdata c + off" "bsize c2 = bsize c - off" "outer s' = outer s" "grows 5 s s'"
    by (rule pad_ok [OF h al off fits r])
  define c' where "c' = c\<lparr>bused := False, bsize := off, free_list_ptr := e\<rparr>"
  have c': "bdata c' = bdata c" "bsize c' = off" "\<not> bused c'" by (simp_all add: c'_def)
  from A(2) have lay': "layout us ((b1 @ [(p, c')]) @ (p2, c2) # b2)" by (auto simp: held_def rep_def c'_def)
  have lay: "layout us (b1 @ (p, c) # b2)" using h by (auto simp: held_def rep_def)
  have p2: "p2 \<noteq> NULL" "p2 \<notin> insert p (fst ` (set us \<union> set b1 \<union> set b2))" using lay' by (auto simp: layout_parts)
  note L = cut_layout [OF lay off(2,3) p2 c'(1,2) A(3,4)]
  obtain u where u: "u \<in> set us" "inside c (snd u)" using lay by (auto simp: layout_parts)
  have bk: "blk_ok c'" "blk_ok c2" using L(1) by (auto simp: layout_def)
  have mj: "may_join us y (p, c)" if "may_join us y (p, c')" for y
    using shrink_join(1) [OF lay u, of c' y p p] bk(1) L blk_ok_lt [OF bk(2)] nu that by auto
  have "merged us (b1 @ [(p, c')])" using t left mj [of "last b1"] c'(3) by (auto simp: taken_def merged_append merged_Cons)
  moreover have "b2 = [] \<or> \<not> may_join us (p2, c2\<lparr>bused := False\<rparr>) (hd b2)"
  proof -
    have "may_join us (p, c) y" if "may_join us (p2, c2\<lparr>bused := False\<rparr>) y" for y
      using shrink_join(2) [OF lay u, of "c2\<lparr>bused := False\<rparr>" p2 y p] bk(2) L nu that by (auto simp: lo_def hi_def blk_ok_def)
    moreover have "c\<lparr>bused := False\<rparr> = c" using nu by (cases c) simp
    ultimately show ?thesis using t by (metis fst_conv snd_conv taken_def)
  qed
  moreover have "blk_sum (b1 @ [(p, c')]) + unat (bsize c2) + blk_sum b2 = blk_sum b1 + unat (bsize c) + blk_sum b2" using L(6) by simp
  moreover have "used_sum (b1 @ [(p, c')]) = used_sum b1" using c'(3) by simp
  ultimately have T: "taken s' us (b1 @ [(p, c')]) (p2, c2) b2"
    using t A(2,5) c'(3) unfolding taken_def c'_def outer_def by auto
  show thesis by (rule that [OF A(1) T c'(3) A(3,4,6)]) (use L in auto)
qed

lemma grows_set_used: "grows m s s' \<Longrightarrow> grows m s (set_cp (\<lambda>p. p\<lparr>used_size := w p\<rparr>) s')"
  by (auto simp: grows_def config_def live_def set_cp_def)

definition action_for :: "block_t \<Rightarrow> u64 \<Rightarrow> coarse_action" where
  "action_for b sz = (if bsize b > sz then ACTION_SPLIT else if bsize b = sz then ACTION_USE else ACTION_NONE)"

lemma from_block_split:
  assumes t: "taken s1 us b1 (p1, c1) b2" and sz: "sz \<noteq> 0" "sz < bsize c1" and r: "ready 5 s1"
    and b: "blocks (heap s) p = Some c" "\<not> bused c" and ac: "(if al > 0 then create_aligned_block sz al p s else Some ((UMF_RESULT_SUCCESS, p), s)) = Some ((UMF_RESULT_SUCCESS, p1), s1)"
  obtains s' p2 c2 where "alloc_from_block ACTION_SPLIT p sz al s = Some ((UMF_RESULT_SUCCESS, bdata c1), unlock_coarse s')"
    "coarse_ok s' us (b1 @ (p1, c1\<lparr>bsize := sz, bused := True\<rparr>) # (p2, c2) # b2)" "\<not> bused c2" "grows 5 s1 s'"
proof -
  obtain s2 s3 s4 p2 c2 where A: "split_current_block p1 sz s1 = Some (UMF_RESULT_SUCCESS, s2)"
    "set_block p1 (\<lambda>b. b\<lparr>bsize := sz\<rparr>) s2 = Some s3" "set_block p1 (\<lambda>b. b\<lparr>bused := True\<rparr>) s3 = Some s4"
    "coarse_ok (set_cp (\<lambda>q. q\<lparr>used_size := used_size q + sz\<rparr>) s4) us (b1 @ (p1, c1\<lparr>bsize := sz, bused := True\<rparr>) # (p2, c2) # b2)"
    "blocks (heap s4) p1 = Some (c1\<lparr>bsize := sz, bused := True\<rparr>)" "\<not> bused c2" "grows 5 s1 s4"
    by (rule split_use_ok [OF t sz r])
  have run: "alloc_from_block ACTION_SPLIT p sz al s =
      Some ((UMF_RESULT_SUCCESS, bdata c1), unlock_coarse (set_cp (\<lambda>q. q\<lparr>used_size := used_size q + sz\<rparr>) s4))"
    unfolding alloc_from_block_def using b ac A(1-3,5) debug_check_ok [OF A(4)] by simp
  show thesis by (rule that [OF run A(4,6) grows_set_used [OF A(7)]])
qed

lemma alloc_from_block_ok:
  assumes t: "taken s us b1 (p, c) b2" and nu: "\<not> bused c" and left: "b1 = [] \<or> \<not> may_join us (last b1) (p, c)"
    and sz: "sz \<noteq> 0" "unat sz + unat al \<le> unat (bsize c)" and r: "ready 10 s"
  obtains s' b1' q cu b2' where "alloc_from_block (action_for c sz) p sz al s = Some ((UMF_RESULT_SUCCESS, bdata cu), unlock_coarse s')"
    "coarse_ok s' us (b1' @ (q, cu) # b2')" "used_blocks b1' = used_blocks b1" "used_blocks b2' = used_blocks b2" "bused cu" "bsize cu = sz"
    "IS_ALIGNED (bdata cu) al" "lo c \<le> lo cu" "hi cu \<le> hi c" "grows 10 s s'"
proof -
  have st: "held s us b1 (p, c) b2" using t by (simp add: taken_def)
  then have b: "blocks (heap s) p = Some c" and k: "blk_ok c" by (auto simp: held_def rep_def stored_def layout_def)
  consider (use) "al = 0" "bsize c = sz" | (split) "al = 0 \<or> ALIGN_UP (bdata c) al - bdata c = 0" "sz < bsize c"
    | (pad) "al \<noteq> 0" "ALIGN_UP (bdata c) al - bdata c \<noteq> 0"
  proof (cases "al = 0")
    case True
    then have "sz \<le> bsize c" using sz(2) by (simp add: word_le_nat_alt)
    then show thesis using use split True by (cases "sz = bsize c") auto
  next
    case False
    then have "0 < unat al" by (simp add: unat_gt_0)
    then have "sz < bsize c" using sz(2) by (simp add: word_less_nat_alt)
    then show thesis using split pad False by blast
  qed
  then show thesis
  proof cases
    case use
    obtain s' where s': "set_block p (\<lambda>b. b\<lparr>bused := True\<rparr>) s = Some s'" "blocks (heap s') p = Some (c\<lparr>bused := True\<rparr>)"
      "coarse_ok (set_cp (\<lambda>q. q\<lparr>used_size := used_size q + bsize c\<rparr>) s') us (b1 @ (p, c\<lparr>bused := True\<rparr>) # b2)" "grows 0 s s'"
      by (rule use_ok [OF t])
    have "action_for c sz = ACTION_USE" using use by (simp add: action_for_def)
    then have run: "alloc_from_block (action_for c sz) p sz al s =
        Some ((UMF_RESULT_SUCCESS, bdata (c\<lparr>bused := True\<rparr>)), unlock_coarse (set_cp (\<lambda>q. q\<lparr>used_size := used_size q + bsize c\<rparr>) s'))"
      unfolding alloc_from_block_def using b nu use s'(1,2) debug_check_ok [OF s'(3)] by simp
    show thesis
      by (rule that [OF run s'(3)]) (use use grows_mono [OF grows_set_used [OF s'(4)], of 10] in \<open>simp_all add: IS_ALIGNED_def lo_def hi_def\<close>)
  next
    case split
    have ac: "(if al > 0 then create_aligned_block sz al p s else Some ((UMF_RESULT_SUCCESS, p), s)) = Some ((UMF_RESULT_SUCCESS, p), s)"
      using split b by (auto simp: create_aligned_block_def)
    obtain s' p2 c2 where s': "alloc_from_block ACTION_SPLIT p sz al s = Some ((UMF_RESULT_SUCCESS, bdata c), unlock_coarse s')"
      "coarse_ok s' us (b1 @ (p, c\<lparr>bsize := sz, bused := True\<rparr>) # (p2, c2) # b2)" "\<not> bused c2" "grows 5 s s'"
      by (rule from_block_split [OF t sz(1) split(2) ready_mono [OF r] b nu ac]) auto
    have act: "action_for c sz = ACTION_SPLIT" using split by (simp add: action_for_def)
    have ali: "IS_ALIGNED (bdata c) al"
    proof (cases "al = 0")
      case False
      have "unat (bdata c) + unat al < 2 ^ 64" using k sz(2) by (simp add: blk_ok_def hi_def)
      then show ?thesis using align_up_bounds(3) [OF False, of "bdata c"] split(1) False by simp
    qed (simp add: IS_ALIGNED_def)
    have "sz \<le> bsize c" using split(2) by simp
    then show thesis
      using that [of "c\<lparr>bsize := sz, bused := True\<rparr>" s' b1 p "(p2, c2) # b2"] s' act ali grows_mono [OF s'(4), of 10]
      by (simp add: lo_def hi_def word_le_nat_alt)
  next
    case pad
    define off where "off = ALIGN_UP (bdata c) al - bdata c"
    have ov: "unat (bdata c) + unat al < 2 ^ 64" using k sz(2) by (simp add: blk_ok_def hi_def)
    note B = align_up_bounds [OF pad(1) ov]
    have uo: "unat off = unat (ALIGN_UP (bdata c) al) - unat (bdata c)" unfolding off_def by (rule unat_sub_u64 [OF B(1)])
    then have lt: "unat off < unat al" using B by linarith
    have off: "off \<noteq> 0" "off < bsize c" using pad(2) lt sz(2) by (simp_all add: off_def word_less_nat_alt)
    have u2: "unat (bsize c - off) = unat (bsize c) - unat off" using lt sz(2) by (intro unat_sub_u64) linarith
    have fits: "sz < bsize c - off" using u2 lt sz(2) by (simp add: word_less_nat_alt)
    obtain p2 c2 s1 c' where P: "create_aligned_block sz al p s = Some ((UMF_RESULT_SUCCESS, p2), s1)"
      "taken s1 us (b1 @ [(p, c')]) (p2, c2) b2" "\<not> bused c'" "bdata c2 = bdata c + off" "bsize c2 = bsize c - off" "grows 5 s s1"
      "lo c \<le> lo c2" "hi c2 = hi c"
      by (rule pad_taken [OF t nu left pad(1) off_def off less_imp_le [OF fits] ready_mono [OF r]]) auto
    have ac: "(if al > 0 then create_aligned_block sz al p s else Some ((UMF_RESULT_SUCCESS, p), s)) = Some ((UMF_RESULT_SUCCESS, p2), s1)"
      using P(1) pad(1) by (simp add: word_gt_0)
    have r1: "ready 5 s1" using ready_after [of 5 5 s s1] r P(6) by simp
    obtain s' p3 c3 where s': "alloc_from_block ACTION_SPLIT p sz al s = Some ((UMF_RESULT_SUCCESS, bdata c2), unlock_coarse s')"
      "coarse_ok s' us ((b1 @ [(p, c')]) @ (p2, c2\<lparr>bsize := sz, bused := True\<rparr>) # (p3, c3) # b2)" "\<not> bused c3" "grows 5 s1 s'"
      by (rule from_block_split [OF P(2) sz(1) _ r1 b nu ac]) (use fits P(5) in auto)
    have "sz < bsize c" using fits u2 by (simp add: word_less_nat_alt)
    then have act: "action_for c sz = ACTION_SPLIT" by (simp add: action_for_def)
    have ali: "IS_ALIGNED (bdata c2) al" using B(3) P(4) by (simp add: off_def)
    have "unat sz \<le> unat (bsize c2)" using fits P(5) by (simp add: word_less_nat_alt)
    then have in_c: "hi (c2\<lparr>bsize := sz, bused := True\<rparr>) \<le> hi c" using P(8) by (simp add: hi_def)
    have g: "grows 10 s s'" using grows_trans [OF P(6) s'(4)] by simp
    show thesis
      using that [of "c2\<lparr>bsize := sz, bused := True\<rparr>" s' "b1 @ [(p, c')]" p2 "(p3, c3) # b2"] s' act ali P(3,7) in_c g
      by (simp add: lo_def)
  qed
qed

section \<open>The request\<close>

lemma taken_start:
  assumes ok: "coarse_ok s us (b1 @ x # b2)" and nu: "\<not> bused (snd x)"
    and rm: "free_removed (free_blocks (cp s)) (heap s) (free_set (b1 @ x # b2)) (ftriple x) r' h'"
    and s': "s' = set_cp (\<lambda>p. p\<lparr>free_blocks := r'\<rparr>) (s\<lparr>heap := h'\<rparr>)"
  shows "taken s' us b1 (fst x, (snd x)\<lparr>free_list_ptr := NULL\<rparr>) b2" "grows 0 s s'" "fst x \<noteq> NULL"
    "blocks (heap s') (fst x) = Some ((snd x)\<lparr>free_list_ptr := NULL\<rparr>)"
    "b1 = [] \<or> \<not> may_join us (last b1) (fst x, (snd x)\<lparr>free_list_ptr := NULL\<rparr>)"
proof -
  from ok obtain xs where rp: "rep s us (b1 @ x # b2) (free_set (b1 @ x # b2)) xs" by (auto simp: coarse_ok_def)
  note H = removed_held [OF rp nu rm s']
  show "grows 0 s s'" "fst x \<noteq> NULL" "blocks (heap s') (fst x) = Some ((snd x)\<lparr>free_list_ptr := NULL\<rparr>)" by (fact H)+
  have same: "may_join us (fst x, (snd x)\<lparr>free_list_ptr := NULL\<rparr>) y = may_join us x y"
    "may_join us y (fst x, (snd x)\<lparr>free_list_ptr := NULL\<rparr>) = may_join us y x"
    "may_join us (fst x, (snd x)\<lparr>free_list_ptr := NULL, bused := False\<rparr>) y = may_join us x y" for y
    using nu by (auto simp: may_join_def same_org_def inside_def lo_def hi_def)
  have m: "merged us (b1 @ x # b2)" "counters s us (b1 @ x # b2)" "\<forall>y \<in> set (b1 @ x # b2). bused (snd y) \<longrightarrow> free_list_ptr (snd y) = NULL"
    using ok by (simp_all add: coarse_ok_def)
  then show "b1 = [] \<or> \<not> may_join us (last b1) (fst x, (snd x)\<lparr>free_list_ptr := NULL\<rparr>)" by (auto simp: merged_append same)
  show "taken s' us b1 (fst x, (snd x)\<lparr>free_list_ptr := NULL\<rparr>) b2"
    unfolding taken_def using m H(1,2) nu same(3) [of "hd b2"]
    by (auto simp: merged_append merged_Cons counters_def outer_def)
qed

lemma coarse_alloc_ok:
  assumes ok: "coarse_ok s us bs" and l: "\<not> clock (cp s)" and pr: "cpriv s \<noteq> NULL" and pl: "plain_search (allocation_strategy (cp s)) al"
    and sz: "sz \<noteq> 0" "unat sz + unat al < 2 ^ 64" and y: "y \<in> set bs" "\<not> bused (snd y)" "sz + al \<le> bsize (snd y)" and r: "ready 10 s"
  obtains s' b1 x b2 b1' q cu b2' where "coarse_memory_provider_alloc (cpriv s) sz al s = Some ((UMF_RESULT_SUCCESS, bdata cu), s')"
    "bs = b1 @ x # b2" "\<not> bused (snd x)" "lo (snd x) \<le> lo cu" "hi cu \<le> hi (snd x)" 
    "coarse_ok s' us (b1' @ (q, cu) # b2')" "used_blocks b1' = used_blocks b1" "used_blocks b2' = used_blocks b2" "bused cu" "bsize cu = sz"
    "IS_ALIGNED (bdata cu) al" "grows 10 s s'"
proof -
  define s0 where "s0 = set_cp (\<lambda>p. p\<lparr>clock := True\<rparr>) s"
  have lk: "lock_coarse s = Some s0" and ok0: "coarse_ok s0 us bs" and r0: "ready 10 s0" and st: "allocation_strategy (cp s0) = allocation_strategy (cp s)"
    using l ok r by (simp_all add: s0_def lock_simps) (simp add: set_cp_def)
  have us: "unat (sz + al) = unat sz + unat al" using sz(2) by (rule unat_add_u64)
  obtain b1 x b2 r' h' where x: "bs = b1 @ x # b2" "\<not> bused (snd x)" "sz + al \<le> bsize (snd x)"
    "find_free_block (free_blocks (cp s0)) sz al (allocation_strategy (cp s)) (heap s0) = Some (fst x, r', h')"
    "free_removed (free_blocks (cp s0)) (heap s0) (free_set bs) (ftriple x) r' h'"
    by (rule find_free_ok [OF ok0 pl, of sz]) (use y in \<open>auto simp: not_less\<close>)
  define s1 where "s1 = set_cp (\<lambda>p. p\<lparr>free_blocks := r'\<rparr>) (s0\<lparr>heap := h'\<rparr>)"
  define c where "c = (snd x)\<lparr>free_list_ptr := NULL\<rparr>"
  note T = taken_start [OF ok0 [unfolded x(1)] x(2) x(5) [unfolded x(1)] s1_def, folded c_def]
  have c: "\<not> bused c" "unat sz + unat al \<le> unat (bsize c)" using x(2,3) us by (simp_all add: c_def word_le_nat_alt)
  have r1: "ready 10 s1" using ready_after [of 10 0 s0 s1] r0 T(2) by simp
  obtain s' b1' q cu b2' where A: "alloc_from_block (action_for c sz) (fst x) sz al s1 = Some ((UMF_RESULT_SUCCESS, bdata cu), unlock_coarse s')"
    "coarse_ok s' us (b1' @ (q, cu) # b2')" "used_blocks b1' = used_blocks b1" "used_blocks b2' = used_blocks b2" "bused cu" "bsize cu = sz"
    "IS_ALIGNED (bdata cu) al" "lo c \<le> lo cu" "hi cu \<le> hi c" "grows 10 s1 s'"
    by (rule alloc_from_block_ok [OF T(1) c(1) T(5) sz(1) c(2) r1])
  have "sz \<le> bsize c" using c(2) by (simp add: word_le_nat_alt)
  then have act: "action_for c sz \<noteq> ACTION_NONE" by (auto simp: action_for_def)
  have run: "coarse_memory_provider_alloc (cpriv s) sz al s = Some ((UMF_RESULT_SUCCESS, bdata cu), unlock_coarse s')"
    unfolding coarse_memory_provider_alloc_def
    using pr lk debug_check_ok [OF ok0] x(4) st T(3,4) A(1) act by (simp add: s1_def [symmetric] action_for_def [symmetric])
  have ok': "coarse_ok (unlock_coarse s') us (b1' @ (q, cu) # b2')" using A(2) by (simp add: unlock_ok)
  have g: "grows 10 s (unlock_coarse s')" using grows_unlock [OF _ l] grows_trans [OF T(2) A(10)] by (simp add: s0_def)
  show thesis by (rule that [OF run x(1,2) _ _ ok' A(3-7) g]) (use A(8,9) in \<open>simp_all add: c_def lo_def hi_def\<close>)
qed

end
