(* ===== verification/Coarse_User.thy ===== *)
theory Coarse_User
  imports Coarse_Request
begin

text \<open>
  Splitting and merging of allocations of the coarse provider at the request of the user.
\<close>

section \<open>Split\<close>

lemma coarse_split_ok:
  assumes ok: "coarse_ok s us (b1 @ (p, c) # b2)" and c: "bused c" and l: "\<not> clock (cp s)" and pr: "cpriv s \<noteq> NULL"
    and sz: "first \<noteq> 0" "first < bsize c" and r: "ready 2 s"
  obtains s' p2 c2 where "coarse_memory_provider_allocation_split (cpriv s) (bdata c) (bsize c) first s = Some (UMF_RESULT_SUCCESS, s')"
    "coarse_ok s' us (b1 @ (p, c\<lparr>bsize := first\<rparr>) # (p2, c2) # b2)" "bdata c2 = bdata c + first" "bsize c2 = bsize c - first"
    "bused c2" "grows 2 s s'"
proof -
  define s0 where "s0 = set_cp (\<lambda>p. p\<lparr>clock := True\<rparr>) s"
  have lk: "lock_coarse s = Some s0" and ok0: "coarse_ok s0 us (b1 @ (p, c) # b2)" and r0: "ready 2 s0"
    using l ok r by (simp_all add: s0_def lock_simps)
  have h: "held s0 us b1 (p, c) b2" and nl: "free_list_ptr c = NULL" using ok0 c by (auto simp: coarse_ok_def held_def)
  obtain p2 n2 c0 s1 xs uxs where A: "add_block (bdata c + first) (bsize c - first) s0 = Some ((p2, n2), s1)" "p2 \<noteq> NULL" "n2 \<noteq> NULL"
    "p2 \<notin> insert p (fst ` (set us \<union> set b1 \<union> set b2))" "bsize c0 = bsize c - first" "bdata c0 = bdata c + first" "free_list_ptr c0 = NULL"
    "stored (all_blocks (cp s1)) (blocks (heap s1)) (b1 @ (p, c) # (p2, c0) # b2) xs" "get_node_block (all_blocks (cp s1)) n2 = Some p2"
    "stored (upstream_blocks (cp s1)) (blocks (heap s1)) us uxs" "free_holds (free_blocks (cp s1)) (heap s1) (free_set (b1 @ b2))"
    "layout us (b1 @ (p, c) # b2)" "outer s1 = outer s0" "grows 2 s0 s1"
    by (rule cut_start [OF h sz r0])
  define c1 c2 where "c1 = c\<lparr>bsize := first\<rparr>" and "c2 = c0\<lparr>bused := True\<rparr>"
  have bp: "blocks (heap s1) p = Some c" "blocks (heap s1) p2 = Some c0" using A(8) by (auto simp: stored_def)
  define s2 where "s2 = s1\<lparr>heap := (heap s1)\<lparr>blocks := (blocks (heap s1))(p \<mapsto> c1)\<rparr>\<rparr>"
  define s3 where "s3 = s1\<lparr>heap := (heap s1)\<lparr>blocks := (blocks (heap s1))(p \<mapsto> c1, p2 \<mapsto> c2)\<rparr>\<rparr>"
  have sb2: "set_block p (\<lambda>b. b\<lparr>bsize := first\<rparr>) s1 = Some s2" using set_block_ok [OF bp(1), of "\<lambda>b. b\<lparr>bsize := first\<rparr>"] by (simp add: s2_def c1_def)
  have "blocks (heap s2) p2 = Some c0" using bp(2) A(4) by (auto simp: s2_def)
  then have sb3: "set_block p2 (\<lambda>b. b\<lparr>bused := True\<rparr>) s2 = Some s3"
    using set_block_ok [of s2 p2 c0 "\<lambda>b. b\<lparr>bused := True\<rparr>"] by (simp add: s2_def s3_def c2_def)
  let ?bs = "b1 @ (p, c1) # (p2, c2) # b2"
  note L = cut_layout [OF A(12) sz A(2,4), of c1 c2]
  have lay: "layout us ?bs" and sm: "unat (bsize c1) + unat (bsize c2) = unat (bsize c)"
    using L A(5,6) by (simp_all add: c1_def c2_def)
  note di = layout_distinct [OF A(12)]
  have "stored (all_blocks (cp s1)) ((blocks (heap s1))(p \<mapsto> c1)) (b1 @ (p, c1) # (p2, c0) # b2) xs"
    using stored_update [OF A(8), of c1] di A(4) by (auto simp: c1_def)
  then have "stored (all_blocks (cp s3)) (blocks (heap s3)) ?bs xs"
    using stored_update [of "all_blocks (cp s1)" "(blocks (heap s1))(p \<mapsto> c1)" "b1 @ [(p, c1)]" p2 c0 b2 xs c2] A(4) by (auto simp: c2_def s3_def)
  moreover have "stored (upstream_blocks (cp s3)) (blocks (heap s3)) us uxs"
    using stored_off [OF A(10), of "{p, p2}" "blocks (heap s3)"] di A(4) by (auto simp: s3_def)
  moreover have "free_holds (free_blocks (cp s3)) (heap s3) (free_set ?bs)"
    using free_holds_frame [OF A(11), of "heap s3"] c by (simp add: s3_def c1_def c2_def)
  ultimately have "\<exists>xs. rep s3 us ?bs (free_set ?bs) xs" using lay by (auto simp: rep_def)
  moreover have "merged us ?bs" using ok0 c by (auto simp: coarse_ok_def merged_append merged_Cons may_join_def c1_def c2_def)
  moreover have "counters s3 us ?bs" using ok0 c A(13) sm by (auto simp: coarse_ok_def counters_def outer_def s3_def c1_def c2_def)
  ultimately have ok3: "coarse_ok s3 us ?bs" using ok0 A(7) by (auto simp: coarse_ok_def c1_def c2_def)
  obtain n where n: "coarse_ravl_find_node (all_blocks (cp s0)) (bdata c) = Some n" "n \<noteq> NULL" "get_node_block (all_blocks (cp s0)) n = Some p"
    "blocks (heap s0) p = Some c" using find_node_some [OF ok0, of "(p, c)"] by auto
  have "bdata c \<noteq> 0" using A(12) by (simp add: layout_parts blk_ok_def)
  then have run: "coarse_memory_provider_allocation_split (cpriv s) (bdata c) (bsize c) first s = Some (UMF_RESULT_SUCCESS, unlock_coarse s3)"
    unfolding coarse_memory_provider_allocation_split_def check_unlock_def
    using pr sz lk debug_check_ok [OF ok0] debug_check_ok [OF ok3] n c A(1,2,5) sb2 sb3 by (simp add: s3_def c2_def not_le)
  have "grows 0 s1 s3" unfolding s3_def by (rule grows_blocks) (use bp in auto)
  then have g: "grows 2 s (unlock_coarse s3)" using grows_unlock [OF _ l] grows_trans [OF A(14)] by (fastforce simp: s0_def)
  have ok': "coarse_ok (unlock_coarse s3) us (b1 @ (p, c\<lparr>bsize := first\<rparr>) # (p2, c2) # b2)" using ok3 by (simp add: unlock_ok c1_def)
  show thesis by (rule that [OF run ok' _ _ _ g]) (simp_all add: c2_def A(5,6))
qed

section \<open>Merge\<close>

lemma coarse_pair:
  assumes "coarse_ok s us (b1 @ (p1, c1) # (p2, c2) # b2)"
  obtains x1 n1 n2 x2 where "rep s us (b1 @ (p1, c1) # (p2, c2) # b2) (free_set (b1 @ (p1, c1) # (p2, c2) # b2))
      (x1 @ (n1, block_data (p1, c1)) # (n2, block_data (p2, c2)) # x2)" "map snd x1 = map block_data b1"
    "coarse_ravl_find_node (all_blocks (cp s)) (bdata c1) = Some n1" "coarse_ravl_find_node (all_blocks (cp s)) (bdata c2) = Some n2"
proof -
  from assms obtain xs where rp: "rep s us (b1 @ (p1, c1) # (p2, c2) # b2) (free_set (b1 @ (p1, c1) # (p2, c2) # b2)) xs" by (auto simp: coarse_ok_def)
  then have st: "stored (all_blocks (cp s)) (blocks (heap s)) (b1 @ (p1, c1) # (p2, c2) # b2) xs" by (simp add: rep_def)
  obtain x1 n1 x2' where x: "xs = x1 @ (n1, block_data (p1, c1)) # x2'" "map snd x1 = map block_data b1" "map snd x2' = map block_data ((p2, c2) # b2)"
    "coarse_ravl_find_node (all_blocks (cp s)) (bdata (snd (p1, c1))) = Some n1" by (rule stored_split [OF st])
  then obtain n2 x2 where x2: "x2' = (n2, block_data (p2, c2)) # x2" by (cases x2') auto
  have t: "block_tree (all_blocks (cp s)) ((x1 @ [(n1, block_data (p1, c1))]) @ (n2, block_data (p2, c2)) # x2)" using st x x2 by (simp add: stored_def)
  show thesis by (rule that [of x1 n1 n2 x2]) (use rp x x2 find_node_ok(1) [OF t] in auto)
qed

lemma find_used_ok:
  assumes "coarse_ok s us bs" "x \<in> set bs" "coarse_ravl_find_node (all_blocks (cp s)) (bdata (snd x)) = Some n" "n \<noteq> NULL"
  shows "find_used (bdata (snd x)) s = Some (if bused (snd x) then (n, fst x) else (NULL, NULL))"
proof -
  obtain m where "coarse_ravl_find_node (all_blocks (cp s)) (bdata (snd x)) = Some m"
    "get_node_block (all_blocks (cp s)) m = Some (fst x)" "blocks (heap s) (fst x) = Some (snd x)" by (rule find_node_some [OF assms(1,2)])
  then show ?thesis using assms(3,4) by (simp add: find_used_def)
qed

lemma coarse_merge_ok:
  assumes ok: "coarse_ok s us (b1 @ (p1, c1) # (p2, c2) # b2)" and c: "bused c1" "bused c2" "hi c1 = lo c2"
    and l: "\<not> clock (cp s)" and pr: "cpriv s \<noteq> NULL"
  obtains (yes) s' where "same_org us c1 c2" "coarse_ok s' us (b1 @ (p1, join c1 c2) # b2)" "grows 0 s s'"
    "coarse_memory_provider_allocation_merge (cpriv s) (bdata c1) (bdata c2) (bsize c1 + bsize c2) s = Some (UMF_RESULT_SUCCESS, s')"
  | (no) "\<not> same_org us c1 c2"
    "coarse_memory_provider_allocation_merge (cpriv s) (bdata c1) (bdata c2) (bsize c1 + bsize c2) s = Some (UMF_RESULT_ERROR_INVALID_ARGUMENT, s)"
proof -
  define s0 where "s0 = set_cp (\<lambda>p. p\<lparr>clock := True\<rparr>) s"
  let ?bs = "b1 @ (p1, c1) # (p2, c2) # b2"
  have lk: "lock_coarse s = Some s0" and ok0: "coarse_ok s0 us ?bs" and un: "unlock_coarse s0 = s"
    using l ok by (simp_all add: s0_def lock_simps unlock_lock)
  obtain x1 n1 n2 x2 where x: "rep s0 us ?bs (free_set ?bs) (x1 @ (n1, block_data (p1, c1)) # (n2, block_data (p2, c2)) # x2)"
    "map snd x1 = map block_data b1" "coarse_ravl_find_node (all_blocks (cp s0)) (bdata c1) = Some n1"
    "coarse_ravl_find_node (all_blocks (cp s0)) (bdata c2) = Some n2" by (rule coarse_pair [OF ok0])
  note S = merge_start [OF x(1,2)]
  have u: "find_used (bdata c1) s0 = Some (n1, p1)" "find_used (bdata c2) s0 = Some (n2, p2)"
    using find_used_ok [OF ok0, of "(p1, c1)" n1] find_used_ok [OF ok0, of "(p2, c2)" n2] x S c by auto
  have lay: "layout us ?bs" using x(1) by (simp add: rep_def)
  then have k: "blk_ok c1" "blk_ok c2" by (auto simp: layout_def)
  note J = join_hi [OF k c(3)]
  have eq: "bdata c2 = bdata c1 + bsize c1" using S(17) c(3) by simp
  have lt: "bsize c1 < bsize c1 + bsize c2" using J(1) k(2) by (simp add: word_less_nat_alt blk_ok_def unat_gt_0)
  have nz: "bdata c1 \<noteq> 0" "bdata c2 \<noteq> 0" "\<not> bdata c2 \<le> bdata c1" "\<not> bsize c1 + bsize c2 \<le> bdata c2 - bdata c1"
    using k S(15) lt by (simp_all add: blk_ok_def eq)
  note D = debug_check_ok [OF ok0]
  note pre = pr nz lk D u S(3,4,6,7,10,11)
  show thesis
  proof (cases "same_org us c1 c2")
    case True
    obtain s1 x2' where A: "user_block_merge n1 n2 True s0 = Some ((UMF_RESULT_SUCCESS, n1), s1)"
      "rep s1 us (b1 @ (p1, join c1 c2) # b2) (free_set ?bs - {ftriple (p1, c1), ftriple (p2, c2)}) (x1 @ (n1, block_data (p1, c1)) # x2')"
      "outer s1 = outer s0" "grows 0 s0 s1"
      by (rule merge_done [OF x(1,2) _ _ c(3) True]) (use ok0 c in \<open>auto simp: coarse_ok_def\<close>)
    let ?bs' = "b1 @ (p1, join c1 c2) # b2"
    have "free_set ?bs - {ftriple (p1, c1), ftriple (p2, c2)} = free_set ?bs'"
    proof -
      have "p1 \<notin> fst ` set (b1 @ b2)" "p2 \<notin> fst ` set (b1 @ b2)"
        using layout_distinct [OF lay] layout_distinct [of us "b1 @ [(p1, c1)]" "(p2, c2)" b2] lay by auto
      then show ?thesis using free_set_ptr [of "(p1, c1)" "b1 @ b2"] free_set_ptr [of "(p2, c2)" "b1 @ b2"] c by auto
    qed
    then have ok1: "coarse_ok s1 us ?bs'"
      using A(2,3) ok0 c J(1) by (auto simp: coarse_ok_def counters_def outer_def merged_append merged_Cons may_join_def)
    have b: "blocks (heap s1) p1 = Some (join c1 c2)" using A(2) by (auto simp: rep_def stored_def)
    have run: "coarse_memory_provider_allocation_merge (cpriv s) (bdata c1) (bdata c2) (bsize c1 + bsize c2) s = Some (UMF_RESULT_SUCCESS, unlock_coarse s1)"
      unfolding coarse_memory_provider_allocation_merge_def check_unlock_def using pre eq A(1) b debug_check_ok [OF ok1] by simp
    show thesis by (rule yes [OF True _ _ run]) (use ok1 grows_unlock [OF _ l] A(4) in \<open>simp_all add: unlock_ok s0_def\<close>)
  next
    case False
    have "user_block_merge n1 n2 True s0 = Some ((UMF_RESULT_ERROR_INVALID_ARGUMENT, NULL), s0)"
      by (rule merge_refused [OF x(1,2)]) (use False in simp)
    then have "coarse_memory_provider_allocation_merge (cpriv s) (bdata c1) (bdata c2) (bsize c1 + bsize c2) s = Some (UMF_RESULT_ERROR_INVALID_ARGUMENT, s)"
      unfolding coarse_memory_provider_allocation_merge_def check_unlock_def using pre eq D un by simp
    with False show thesis by (rule no)
  qed
qed

end
