(* ===== verification/Coarse_Upstream.thy ===== *)
theory Coarse_Upstream
  imports Coarse_User
begin

text \<open>
  Memory from the upstream provider: a new block enters both trees, and in the tree of blocks from upstream
  it is merged with its neighbours when the upstream provider agrees.
\<close>

section \<open>The state of the upstream provider\<close>

text \<open>A step that may change the state of the upstream provider.\<close>

definition ugrows :: "nat \<Rightarrow> 'w coarse_state \<Rightarrow> 'w coarse_state \<Rightarrow> bool" where
  "ugrows m s s' \<longleftrightarrow> grows m (s\<lparr>cup := cup s'\<rparr>) s' \<and> providers (cup s') = providers (cup s)"

lemma ugrows_grows: "grows m s s' \<Longrightarrow> ugrows m s s'"
  by (auto simp: ugrows_def grows_def config_def live_def)

lemma ugrows_trans: "ugrows m s s' \<Longrightarrow> ugrows k s' s'' \<Longrightarrow> ugrows (m + k) s s''"
proof -
  assume a: "ugrows m s s'" "ugrows k s' s''"
  have "grows m (s\<lparr>cup := cup s''\<rparr>) (s'\<lparr>cup := cup s''\<rparr>)" using a(1) by (auto simp: ugrows_def grows_def config_def live_def)
  then show ?thesis using a grows_trans by (auto simp: ugrows_def)
qed

lemma ready_ugrows: "ready (n + m) s \<Longrightarrow> ugrows m s s' \<Longrightarrow> ready n s'"
  using ready_after [of n m "s\<lparr>cup := cup s'\<rparr>" s'] by (simp add: ugrows_def ready_def live_def)

text \<open>The merge of the upstream provider answers every request.\<close>

definition can_merge :: "'w prov_state \<Rightarrow> ptr \<Rightarrow> bool" where
  "can_merge u up \<longleftrightarrow> (\<exists>p f. providers u up = Some p \<and> resolve umfDefaultAllocationMerge (allocation_merge (ops p)) = Some f \<and>
     (\<forall>priv l h t w. f priv l h t w \<noteq> None))"

lemma can_merge_call:
  assumes "can_merge u up"
  obtains res u' where "umfMemoryProviderAllocationMerge up l h t u = Some (res, u')" "providers u' = providers u"
proof -
  from assms obtain p f where p: "providers u up = Some p" "resolve umfDefaultAllocationMerge (allocation_merge (ops p)) = Some f"
    "\<And>priv l h t w. f priv l h t w \<noteq> None" by (auto simp: can_merge_def)
  obtain res w k where "f (provider_priv p) l h t (world u, lastFailedProvider u) = Some (res, w, k)"
    using p(3) [of "provider_priv p" l h t "(world u, lastFailedProvider u)"] by auto
  note w = this
  show thesis
  proof (cases "l = 0 \<or> h = 0 \<or> t = 0 \<or> h \<le> l \<or> t < h - l")
    case True
    then have "umfMemoryProviderAllocationMerge up l h t u = Some (UMF_RESULT_ERROR_INVALID_ARGUMENT, u)"
      by (auto simp: umfMemoryProviderAllocationMerge_def)
    then show thesis using that by blast
  next
    case False
    then have "umfMemoryProviderAllocationMerge up l h t u = Some (res, checkErrorAndSetLastProvider res up (u\<lparr>world := w, lastFailedProvider := k\<rparr>))"
      using p w by (simp add: umfMemoryProviderAllocationMerge_def call_op_def)
    then show thesis using that by (simp add: checkErrorAndSetLastProvider_def)
  qed
qed

section \<open>What becomes of the ranges from upstream\<close>

text \<open>
  The ranges of the blocks from upstream, as addresses and sizes, when a new one is added: it is joined
  with the range in front of it when that range ends where the new one begins and the upstream provider
  agrees to merge them, and then in the same way with the range behind it.
\<close>

definition brange :: "cblock \<Rightarrow> u64 \<times> u64" where
  "brange x = (bdata (snd x), bsize (snd x))"

definition try_merge :: "ptr \<Rightarrow> u64 \<times> u64 \<Rightarrow> u64 \<times> u64 \<Rightarrow> 'w prov_state \<Rightarrow> bool \<times> 'w prov_state" where
  "try_merge up r q u = (if fst r + snd r \<noteq> fst q then (False, u)
     else case umfMemoryProviderAllocationMerge up (fst r) (fst q) (snd r + snd q) u of
       None \<Rightarrow> (False, u)
     | Some (res, u) \<Rightarrow> (res = UMF_RESULT_SUCCESS, u))"

definition merge_below :: "ptr \<Rightarrow> (u64 \<times> u64) list \<Rightarrow> u64 \<times> u64 \<Rightarrow> 'w prov_state \<Rightarrow> ((u64 \<times> u64) list \<times> u64 \<times> u64) \<times> 'w prov_state" where
  "merge_below up R x u = (if R = [] then ((R, x), u)
     else let (ok, u) = try_merge up (last R) x u
     in (if ok then (butlast R, fst (last R), snd (last R) + snd x) else (R, x), u))"

definition merge_above :: "ptr \<Rightarrow> u64 \<times> u64 \<Rightarrow> (u64 \<times> u64) list \<Rightarrow> 'w prov_state \<Rightarrow> ((u64 \<times> u64) \<times> (u64 \<times> u64) list) \<times> 'w prov_state" where
  "merge_above up x R u = (if R = [] then ((x, R), u)
     else let (ok, u) = try_merge up x (hd R) u
     in (if ok then ((fst x, snd x + snd (hd R)), tl R) else (x, R), u))"

definition grown :: "ptr \<Rightarrow> u64 \<times> u64 \<Rightarrow> (u64 \<times> u64) list \<Rightarrow> 'w prov_state \<Rightarrow> (u64 \<times> u64) list \<times> 'w prov_state" where
  "grown up x R u = (let
     ((R1, y), u) = merge_below up (filter (\<lambda>r. fst r < fst x) R) x u;
     ((z, R2), u) = merge_above up y (filter (\<lambda>r. fst x < fst r) R) u
   in (R1 @ z # R2, u))"

section \<open>A new block of the upstream provider\<close>

definition swap_trees :: "'w coarse_state \<Rightarrow> 'w coarse_state" where
  "swap_trees s = set_cp (\<lambda>p. p\<lparr>all_blocks := upstream_blocks p, upstream_blocks := all_blocks p\<rparr>) s"

lemma swap_trees_simps [simp]:
  "all_blocks (cp (swap_trees s)) = upstream_blocks (cp s)" "upstream_blocks (cp (swap_trees s)) = all_blocks (cp s)"
  "heap (swap_trees s) = heap s" "free_blocks (cp (swap_trees s)) = free_blocks (cp s)" "swap_trees (swap_trees s) = s"
  "used_size (cp (swap_trees s)) = used_size (cp s)" "alloc_size (cp (swap_trees s)) = alloc_size (cp s)"
  "config (swap_trees s) = config s"
  by (simp_all add: swap_trees_def set_cp_def config_def)

lemma live_swap [simp]: "live (swap_trees s) = live s"
  by (simp add: live_def Un_ac)

lemma ready_swap [simp]: "ready n (swap_trees s) = ready n s"
  by (simp add: ready_def)

lemma grows_swap [simp]: "grows m (swap_trees s) (swap_trees s') = grows m s s'"
  by (simp add: grows_def)

lemma add_upstream_new:
  assumes st: "stored (upstream_blocks (cp s)) (blocks (heap s)) (u1 @ u2) xs"
    and k: "\<forall>x \<in> set u1. bdata (snd x) < a" "\<forall>x \<in> set u2. a < bdata (snd x)" and nz: "a \<noteq> 0" "sz \<noteq> 0" and r: "ready 2 s"
  obtains p n rt h s' c x1 x2 where "coarse_ravl_add_new (upstream_blocks (cp s)) a sz (heap s) = Some (p, n, rt, h)"
    "s' = set_cp (\<lambda>q. q\<lparr>upstream_blocks := rt\<rparr>) (s\<lparr>heap := h\<rparr>)" "p \<noteq> NULL" "n \<noteq> NULL" "p \<notin> dom (blocks (heap s))"
    "bsize c = sz" "bdata c = a" "blocks (heap s') = (blocks (heap s))(p \<mapsto> c)"
    "stored (upstream_blocks (cp s')) (blocks (heap s')) (u1 @ (p, c) # u2) (x1 @ (n, block_data (p, c)) # x2)"
    "map snd x1 = map block_data u1" "map snd x2 = map block_data u2"
    "all_blocks (cp s') = all_blocks (cp s)" "free_blocks (cp s') = free_blocks (cp s)" "fheads (heap s') = fheads (heap s)"
    "elems (heap s') = elems (heap s)" "used_size (cp s') = used_size (cp s)" "alloc_size (cp s') = alloc_size (cp s)" "grows 2 s s'"
proof -
  define t where "t = swap_trees s"
  have st': "stored (all_blocks (cp t)) (blocks (heap t)) (u1 @ u2) xs" "ready 2 t" using st r by (simp_all add: t_def)
  obtain x1 x2 where x: "xs = x1 @ x2" "map snd x1 = map block_data u1" "map snd x2 = map block_data u2"
    using st by (auto simp: stored_def map_eq_append_conv)
  obtain p n t' c where A: "add_block a sz t = Some ((p, n), t')" "p \<noteq> NULL" "n \<noteq> NULL" "p \<notin> dom (blocks (heap t))"
    "bsize c = sz" "bdata c = a" "free_list_ptr c = NULL" "blocks (heap t') = (blocks (heap t))(p \<mapsto> c)"
    "stored (all_blocks (cp t')) (blocks (heap t')) (u1 @ (p, c) # u2) (x1 @ (n, block_data (p, c)) # x2)"
    "outer t' = outer t" "free_blocks (cp t') = free_blocks (cp t)" "fheads (heap t') = fheads (heap t)"
    "elems (heap t') = elems (heap t)" "grows 2 t t'"
    by (rule add_block_ok [OF st'(1) x(1,2) k nz st'(2)])
  from A(1) obtain rt h where rt: "coarse_ravl_add_new (upstream_blocks (cp s)) a sz (heap s) = Some (p, n, rt, h)"
    "t' = set_cp (\<lambda>p. p\<lparr>all_blocks := rt\<rparr>) (t\<lparr>heap := h\<rparr>)"
    by (auto simp: add_block_def t_def split: Option.bind_splits)
  have s': "swap_trees t' = set_cp (\<lambda>q. q\<lparr>upstream_blocks := rt\<rparr>) (s\<lparr>heap := h\<rparr>)"
    by (simp add: rt(2) t_def swap_trees_def set_cp_def)
  have g: "grows 2 s (swap_trees t')" using A(14) grows_swap [of 2 s "swap_trees t'"] by (simp add: t_def)
  show thesis
    by (rule that [OF rt(1) s' A(2,3)]) (use A x g in \<open>auto simp: t_def outer_def\<close>)
qed

section \<open>Merging blocks of the upstream provider\<close>

definition ujoin :: "block_t \<Rightarrow> block_t \<Rightarrow> block_t" where
  "ujoin c1 c2 = c1\<lparr>bsize := bsize c1 + bsize c2\<rparr>"

lemma ujoin_simps [simp]: "bdata (ujoin c1 c2) = bdata c1" "bsize (ujoin c1 c2) = bsize c1 + bsize c2" "lo (ujoin c1 c2) = lo c1"
  by (simp_all add: ujoin_def lo_def)

lemma ujoin_hi:
  assumes "blk_ok c1" "blk_ok c2" "hi c1 = lo c2"
  shows "unat (bsize c1 + bsize c2) = unat (bsize c1) + unat (bsize c2)" "hi (ujoin c1 c2) = hi c2" "blk_ok (ujoin c1 c2)"
  using join_hi [OF assms] by (simp_all add: blk_ok_def hi_def)

lemma layout_ujoin:
  assumes lay: "layout (v1 @ (p1, c1) # (p2, c2) # v2) bs" and adj: "hi c1 = lo c2"
  shows "layout (v1 @ (p1, ujoin c1 c2) # v2) bs"
proof -
  have k: "blk_ok c1" "blk_ok c2" using lay by (auto simp: layout_def)
  note J = ujoin_hi [OF k adj]
  have "\<exists>u \<in> set (v1 @ (p1, ujoin c1 c2) # v2). inside (snd x) (snd u)" if "x \<in> set bs" for x
  proof -
    have "\<forall>x \<in> set bs. \<exists>u \<in> set (v1 @ (p1, c1) # (p2, c2) # v2). inside (snd x) (snd u)" using lay unfolding layout_def by blast
    with that obtain u where u: "u \<in> set (v1 @ (p1, c1) # (p2, c2) # v2)" "inside (snd x) (snd u)" by blast
    then consider "u \<in> set (v1 @ v2)" | "inside (snd x) c1" | "inside (snd x) c2" by auto
    then show ?thesis using u(2) J blk_ok_lt [OF k(1)] blk_ok_lt [OF k(2)] adj by cases (auto simp: inside_def)
  qed
  then show ?thesis using lay J by (auto simp: layout_def sorted_wrt_append before_def)
qed

text \<open>The sequences that the trees hold, with the node of one of the blocks from upstream.\<close>

definition ustored :: "'w coarse_state \<Rightarrow> cblock list \<Rightarrow> cblock \<Rightarrow> cblock list \<Rightarrow> cblock list \<Rightarrow> (u64 \<times> ptr \<times> ptr) set \<Rightarrow> ptr \<Rightarrow> bool" where
  "ustored s v1 x v2 bs S n \<longleftrightarrow> (\<exists>x1 x2. stored (upstream_blocks (cp s)) (blocks (heap s)) (v1 @ x # v2) (x1 @ (n, block_data x) # x2) \<and>
     map snd x1 = map block_data v1) \<and> (\<exists>xs. stored (all_blocks (cp s)) (blocks (heap s)) bs xs) \<and>
     free_holds (free_blocks (cp s)) (heap s) S \<and> layout (v1 @ x # v2) bs"

lemma ustored_up:
  assumes "ustored s v1 x v2 bs S n"
  shows "ustored (s\<lparr>cup := u\<rparr>) v1 x v2 bs S n"
  using assms by (simp add: ustored_def)

lemma upstream_merge_ok:
  assumes st: "stored (upstream_blocks (cp s)) (blocks (heap s)) (v1 @ (p1, c1) # (p2, c2) # v2) (x1 @ (n1, d1) # (n2, d2) # x2)"
    and m: "map snd x1 = map block_data v1" and al: "stored (all_blocks (cp s)) (blocks (heap s)) bs xs"
    and F: "free_holds (free_blocks (cp s)) (heap s) S" and lay: "layout (v1 @ (p1, c1) # (p2, c2) # v2) bs"
    and up: "upstream_memory_provider (cp s) \<noteq> NULL \<Longrightarrow> can_merge (cup s) (upstream_memory_provider (cp s))"
  obtains (no) res u where "upstream_block_merge n1 n2 s = Some ((res, NULL), s\<lparr>cup := u\<rparr>)" "res \<noteq> UMF_RESULT_SUCCESS" "ugrows 0 s (s\<lparr>cup := u\<rparr>)"
      "upstream_memory_provider (cp s) \<noteq> NULL \<Longrightarrow> try_merge (upstream_memory_provider (cp s)) (bdata c1, bsize c1) (bdata c2, bsize c2) (cup s) = (False, u)"
  | (yes) s' where "upstream_block_merge n1 n2 s = Some ((UMF_RESULT_SUCCESS, n1), s')" "n1 \<noteq> NULL" "hi c1 = lo c2" "ugrows 0 s s'"
      "ustored s' v1 (p1, ujoin c1 c2) v2 bs S n1" "used_size (cp s') = used_size (cp s)" "alloc_size (cp s') = alloc_size (cp s)"
      "try_merge (upstream_memory_provider (cp s)) (bdata c1, bsize c1) (bdata c2, bsize c2) (cup s) = (True, cup s')"
proof -
  have t: "block_tree (upstream_blocks (cp s)) (x1 @ (n1, d1) # (n2, d2) # x2)" using st by (simp add: stored_def)
  have len: "length x1 = length v1" using m by (metis length_map)
  then have d: "d1 = block_data (p1, c1)" "d2 = block_data (p2, c2)" "map snd x2 = map block_data v2" using st by (auto simp: stored_def)
  have n: "n1 \<noteq> NULL" "n2 \<noteq> NULL" using block_tree_nodes(2) [OF t] by force+
  have b: "blocks (heap s) p1 = Some c1" "blocks (heap s) p2 = Some c2" "p1 \<noteq> NULL" "p2 \<noteq> NULL" using st by (auto simp: stored_def)
  have nb: "get_node_block (upstream_blocks (cp s)) n1 = Some p1" "get_node_block (upstream_blocks (cp s)) n2 = Some p2"
    using node_block_ok [OF t, of n1 d1] node_block_ok [OF t, of n2 d2] d b by simp_all
  have k: "blk_ok c1" "blk_ok c2" "hi c1 \<le> lo c2" using lay by (auto simp: layout_def sorted_wrt_append before_def)
  then have lt: "bdata c1 < bdata c2" using blk_ok_lt [OF k(1)] by (simp add: data_less)
  note pre = n nb b(1,2) lt
  show thesis
  proof (cases "upstream_memory_provider (cp s) = NULL \<or> hi c1 \<noteq> lo c2")
    case True
    then have "upstream_block_merge n1 n2 s = Some ((UMF_RESULT_ERROR_INVALID_ARGUMENT, NULL), s\<lparr>cup := cup s\<rparr>)"
      unfolding upstream_block_merge_def using pre end_eq [OF k(1), of c2] by auto
    then show thesis by (rule no) (use True end_eq [OF k(1), of c2] in \<open>auto simp: ugrows_def try_merge_def\<close>)
  next
    case False
    obtain res u where u: "umfMemoryProviderAllocationMerge (upstream_memory_provider (cp s)) (bdata c1) (bdata c2) (bsize c1 + bsize c2) (cup s) = Some (res, u)"
      "providers u = providers (cup s)" by (rule can_merge_call [OF up]) (use False in auto)
    have adj: "bdata c1 + bsize c1 = bdata c2" using end_eq [OF k(1), of c2] False by simp
    have gu: "ugrows 0 s (s\<lparr>cup := u\<rparr>)" using u(2) by (simp add: ugrows_def)
    show thesis
    proof (cases "res = UMF_RESULT_SUCCESS")
      case no_merge: False
      then have "upstream_block_merge n1 n2 s = Some ((res, NULL), s\<lparr>cup := u\<rparr>)"
        unfolding upstream_block_merge_def using False pre adj u(1) by auto
      moreover have "try_merge (upstream_memory_provider (cp s)) (bdata c1, bsize c1) (bdata c2, bsize c2) (cup s) = (False, u)"
        using adj u(1) no_merge by (simp add: try_merge_def)
      ultimately show thesis using no no_merge gu by blast
    next
      case True
      define B where "B = (blocks (heap s))(p1 \<mapsto> ujoin c1 c2)"
      have t2: "block_tree (upstream_blocks (cp s)) ((x1 @ [(n1, d1)]) @ (n2, d2) # x2)" using t by simp
      obtain r' x2' where r': "coarse_ravl_rm (upstream_blocks (cp s)) (bdata c2) = Some (p2, r')" "block_tree r' ((x1 @ [(n1, d1)]) @ x2')"
        "map snd x2' = map snd x2" "dom (rnodes r') \<subseteq> dom (rnodes (upstream_blocks (cp s)))"
        using rm_ok [OF t2] d(2) b(4) by auto
      define s1 where "s1 = s\<lparr>cup := u, heap := (heap s)\<lparr>blocks := B\<rparr>\<rparr>"
      have s1: "set_block p1 (\<lambda>b. b\<lparr>bsize := bsize b + bsize c2\<rparr>) (s\<lparr>cup := u\<rparr>) = Some s1"
        using set_block_ok [of "s\<lparr>cup := u\<rparr>" p1 c1 "\<lambda>b. b\<lparr>bsize := bsize b + bsize c2\<rparr>"] b(1) by (simp add: s1_def B_def ujoin_def)
      have di: "p1 \<noteq> p2" "p1 \<notin> fst ` (set v1 \<union> set v2 \<union> set bs)" "p2 \<notin> fst ` (set v1 \<union> set v2 \<union> set bs)" using lay by (auto simp: layout_def)
      define s2 where "s2 = s1\<lparr>heap := (heap s1)\<lparr>blocks := B(p2 := None)\<rparr>, cp := (cp s1)\<lparr>upstream_blocks := r'\<rparr>\<rparr>"
      have s2: "free_block p2 (set_cp (\<lambda>p. p\<lparr>upstream_blocks := r'\<rparr>) s1) = Some s2"
        using b(2) di(1) by (simp add: free_block_def set_cp_def s1_def s2_def B_def)
      have run: "upstream_block_merge n1 n2 s = Some ((UMF_RESULT_SUCCESS, n1), s2)"
        unfolding upstream_block_merge_def using False True pre adj u(1) s1 s2 r'(1) by (auto simp: s1_def)
      have Bo: "blocks (heap s2) q = blocks (heap s) q" if "q \<noteq> p1" "q \<noteq> p2" for q using that by (simp add: s2_def B_def)
      have "stored (upstream_blocks (cp s2)) (blocks (heap s2)) (v1 @ (p1, ujoin c1 c2) # v2) (x1 @ (n1, block_data (p1, ujoin c1 c2)) # x2')"
      proof -
        have "\<forall>x \<in> set (v1 @ v2). fst x \<noteq> NULL \<and> blocks (heap s2) (fst x) = Some (snd x)" 
          using st Bo di unfolding stored_def by (metis (no_types, lifting) Un_iff image_eqI list.set_intros(2) set_append)
        moreover have "blocks (heap s2) p1 = Some (ujoin c1 c2)" using di(1) by (simp add: s2_def B_def)
        ultimately show ?thesis using r'(2,3) d m b(3) by (auto simp: stored_def s2_def block_data_def)
      qed
      moreover have "stored (all_blocks (cp s2)) (blocks (heap s2)) bs xs"
        using stored_off [OF al, of "{p1, p2}" "blocks (heap s2)"] Bo di by (simp add: s2_def s1_def image_Un)
      moreover have "free_holds (free_blocks (cp s2)) (heap s2) S" using free_holds_frame [OF F] by (simp add: s2_def s1_def)
      moreover have "layout (v1 @ (p1, ujoin c1 c2) # v2) bs" by (rule layout_ujoin [OF lay]) (use False in simp)
      ultimately have us: "ustored s2 v1 (p1, ujoin c1 c2) v2 bs S n1" unfolding ustored_def using m by blast
      have "dom (blocks (heap s2)) \<subseteq> dom (blocks (heap s))" using b by (auto simp: s2_def B_def split: if_splits)
      then have "grows 0 (s\<lparr>cup := u\<rparr>) s2" using r'(4) unfolding grows_def live_def by (auto simp: s2_def s1_def config_def same_hosts_def)
      then have g: "ugrows 0 s s2" using u(2) by (simp add: ugrows_def s2_def s1_def)
      have "try_merge (upstream_memory_provider (cp s)) (bdata c1, bsize c1) (bdata c2, bsize c2) (cup s) = (True, cup s2)"
        using adj u(1) True by (simp add: try_merge_def s2_def s1_def)
      then show thesis by (intro yes [OF run n(1) _ g us]) (use False in \<open>simp_all add: s2_def s1_def\<close>)
    qed
  qed
qed

text \<open>A block around the new range from \<open>a\<close> to \<open>e\<close>: what it has on either side is a block that was there before.\<close>

definition around :: "cblock list \<Rightarrow> nat \<Rightarrow> nat \<Rightarrow> cblock list \<Rightarrow> block_t \<Rightarrow> cblock list \<Rightarrow> bool" where
  "around us a e v1 c v2 \<longleftrightarrow> set v1 \<union> set v2 \<subseteq> set us \<and> (lo c = a \<or> (\<exists>u \<in> set us. lo (snd u) = lo c \<and> hi (snd u) = a)) \<and>
     (hi c = e \<or> (\<exists>u \<in> set us. lo (snd u) = e \<and> hi (snd u) = hi c)) \<and> blk_sum v1 + unat (bsize c) + blk_sum v2 = blk_sum us + (e - a)"

lemma around_org:
  assumes "around us a e v1 (snd x) v2" "same_org (v1 @ x # v2) c d" "blk_ok c" "hi c \<le> a \<and> hi d \<le> a \<or> e \<le> lo c \<and> e \<le> lo d"
  shows "same_org us c d"
proof -
  from assms(2) consider "same_org (v1 @ v2) c d" | "inside c (snd x)" "inside d (snd x)" by (auto simp: same_org_def)
  then show ?thesis
  proof cases
    case 1
    then show ?thesis using assms(1) by (auto simp: same_org_def around_def)
  next
    case 2
    have "\<exists>u \<in> set us. inside c (snd u) \<and> inside d (snd u)"
    proof (cases "hi c \<le> a \<and> hi d \<le> a")
      case True
      then have "lo (snd x) \<noteq> a" using 2 blk_ok_lt [OF assms(3)] by (auto simp: inside_def)
      then obtain u where "u \<in> set us" "lo (snd u) = lo (snd x)" "hi (snd u) = a" using assms(1) by (auto simp: around_def)
      then show ?thesis using 2 True by (intro bexI [of _ u]) (auto simp: inside_def)
    next
      case False
      then have e: "e \<le> lo c" "e \<le> lo d" using assms(4) by auto
      then have "hi (snd x) \<noteq> e" using 2 blk_ok_lt [OF assms(3)] by (auto simp: inside_def)
      then obtain u where "u \<in> set us" "lo (snd u) = e" "hi (snd u) = hi (snd x)" using assms(1) by (auto simp: around_def)
      then show ?thesis using 2 e by (intro bexI [of _ u]) (auto simp: inside_def)
    qed
    then show ?thesis by (simp add: same_org_def)
  qed
qed

lemma upstream_merge_prev_ok:
  assumes us: "ustored s v1 x v2 bs S n" and ar: "around us a e v1 (snd x) v2" and lx: "lo (snd x) = a"
    and up: "upstream_memory_provider (cp s) \<noteq> NULL \<Longrightarrow> can_merge (cup s) (upstream_memory_provider (cp s))"
  obtains n' s' v1' x' where "upstream_block_merge_with_prev n s = Some (n', s')" "ustored s' v1' x' v2 bs S n'" "around us a e v1' (snd x') v2"
    "hi (snd x') = hi (snd x)" "ugrows 0 s s'" "used_size (cp s') = used_size (cp s)" "alloc_size (cp s') = alloc_size (cp s)"
    "upstream_memory_provider (cp s) \<noteq> NULL \<Longrightarrow>
       merge_below (upstream_memory_provider (cp s)) (map brange v1) (brange x) (cup s) = ((map brange v1', brange x'), cup s')"
proof -
  from us obtain x1 x2 xs where st: "stored (upstream_blocks (cp s)) (blocks (heap s)) (v1 @ x # v2) (x1 @ (n, block_data x) # x2)"
    and m: "map snd x1 = map block_data v1" and al: "stored (all_blocks (cp s)) (blocks (heap s)) bs xs"
    and F: "free_holds (free_blocks (cp s)) (heap s) S" and lay: "layout (v1 @ x # v2) bs" by (auto simp: ustored_def)
  have t: "block_tree (upstream_blocks (cp s)) (x1 @ (n, block_data x) # x2)" using st by (simp add: stored_def)
  have n0: "n \<noteq> NULL" using block_tree_nodes(2) [OF t, of "(n, block_data x)"] by simp
  show thesis
  proof (cases v1 rule: rev_cases)
    case Nil
    then have "get_node_prev (upstream_blocks (cp s)) n = Some NULL" using m nav_holds(2) [OF t] by simp
    then have "upstream_block_merge_with_prev n s = Some (n, s)" using n0 by (simp add: upstream_block_merge_with_prev_def)
    then show thesis by (rule that [OF _ us ar]) (simp_all add: ugrows_def merge_below_def Nil)
  next
    case (snoc v1' y)
    obtain p1 c1 p2 c2 where xy: "y = (p1, c1)" "x = (p2, c2)" by (cases x, cases y)
    obtain x1' n1 d1 where x1: "x1 = x1' @ [(n1, d1)]" "map snd x1' = map block_data v1'"
      using m snoc by (cases x1 rule: rev_cases) (auto simp: surj_pair)
    have nx: "get_node_prev (upstream_blocks (cp s)) n = Some n1" "n1 \<noteq> NULL" using nav_holds(2) [OF t] block_tree_nodes(2) [OF t, of "(n1, d1)"] x1 by auto
    have st': "stored (upstream_blocks (cp s)) (blocks (heap s)) (v1' @ (p1, c1) # (p2, c2) # v2) (x1' @ (n1, d1) # (n, block_data x) # x2)"
      and lay': "layout (v1' @ (p1, c1) # (p2, c2) # v2) bs" using st lay snoc x1 xy by simp_all
    show thesis
    proof (rule upstream_merge_ok [OF st' x1(2) al F lay' up], assumption)
      fix res u
      assume "upstream_block_merge n1 n s = Some ((res, NULL), s\<lparr>cup := u\<rparr>)" "res \<noteq> UMF_RESULT_SUCCESS" and g: "ugrows 0 s (s\<lparr>cup := u\<rparr>)"
        and m: "upstream_memory_provider (cp s) \<noteq> NULL \<Longrightarrow> try_merge (upstream_memory_provider (cp s)) (bdata c1, bsize c1) (bdata c2, bsize c2) (cup s) = (False, u)"
      then have "upstream_block_merge_with_prev n s = Some (n, s\<lparr>cup := u\<rparr>)" using n0 nx by (simp add: upstream_block_merge_with_prev_def)
      then show thesis by (rule that [OF _ ustored_up [OF us] ar _ g]) (use m in \<open>simp_all add: merge_below_def brange_def snoc xy\<close>)
    next
      fix s'
      assume A: "upstream_block_merge n1 n s = Some ((UMF_RESULT_SUCCESS, n1), s')" "n1 \<noteq> NULL" "hi c1 = lo c2" "ugrows 0 s s'"
        "ustored s' v1' (p1, ujoin c1 c2) v2 bs S n1" "used_size (cp s') = used_size (cp s)" "alloc_size (cp s') = alloc_size (cp s)"
        "try_merge (upstream_memory_provider (cp s)) (bdata c1, bsize c1) (bdata c2, bsize c2) (cup s) = (True, cup s')"
      have run: "upstream_block_merge_with_prev n s = Some (n1, s')" using A(1,2) n0 nx by (simp add: upstream_block_merge_with_prev_def)
      have k: "blk_ok c1" "blk_ok c2" using lay' by (auto simp: layout_def)
      note J = ujoin_hi [OF k A(3)]
      have "\<exists>u \<in> set us. lo (snd u) = lo c1 \<and> hi (snd u) = a"
        by (rule bexI [of _ "(p1, c1)"]) (use ar A(3) lx in \<open>auto simp: around_def snoc xy\<close>)
      then have "around us a e v1' (ujoin c1 c2) v2" using ar J by (auto simp: around_def snoc xy)
      then show thesis by (intro that [OF run A(5)]) (use J A in \<open>simp_all add: xy merge_below_def brange_def snoc\<close>)
    qed
  qed
qed

lemma upstream_merge_next_ok:
  assumes us: "ustored s v1 x v2 bs S n" and ar: "around us a e v1 (snd x) v2" and hx: "hi (snd x) = e"
    and up: "upstream_memory_provider (cp s) \<noteq> NULL \<Longrightarrow> can_merge (cup s) (upstream_memory_provider (cp s))"
  obtains n' s' x' v2' where "upstream_block_merge_with_next n s = Some (n', s')" "ustored s' v1 x' v2' bs S n'" "around us a e v1 (snd x') v2'"
    "ugrows 0 s s'" "used_size (cp s') = used_size (cp s)" "alloc_size (cp s') = alloc_size (cp s)"
    "upstream_memory_provider (cp s) \<noteq> NULL \<Longrightarrow>
       merge_above (upstream_memory_provider (cp s)) (brange x) (map brange v2) (cup s) = ((brange x', map brange v2'), cup s')"
proof -
  from us obtain x1 x2 xs where st: "stored (upstream_blocks (cp s)) (blocks (heap s)) (v1 @ x # v2) (x1 @ (n, block_data x) # x2)"
    and m: "map snd x1 = map block_data v1" and al: "stored (all_blocks (cp s)) (blocks (heap s)) bs xs"
    and F: "free_holds (free_blocks (cp s)) (heap s) S" and lay: "layout (v1 @ x # v2) bs" by (auto simp: ustored_def)
  have t: "block_tree (upstream_blocks (cp s)) (x1 @ (n, block_data x) # x2)" using st by (simp add: stored_def)
  have n0: "n \<noteq> NULL" using block_tree_nodes(2) [OF t, of "(n, block_data x)"] by simp
  have "length x1 = length v1" using m by (metis length_map)
  then have m2: "map snd x2 = map block_data v2" using st by (auto simp: stored_def)
  show thesis
  proof (cases v2)
    case Nil
    then have "get_node_next (upstream_blocks (cp s)) n = Some NULL" using m2 nav_holds(1) [OF t] by simp
    then have "upstream_block_merge_with_next n s = Some (n, s)" using n0 by (simp add: upstream_block_merge_with_next_def)
    then show thesis by (rule that [OF _ us ar]) (simp_all add: ugrows_def merge_above_def Nil)
  next
    case (Cons y v2')
    obtain p1 c1 p2 c2 where xy: "x = (p1, c1)" "y = (p2, c2)" by (cases x, cases y)
    obtain x2' n2 d2 where x2: "x2 = (n2, d2) # x2'" using m2 Cons by (cases x2) auto
    have nx: "get_node_next (upstream_blocks (cp s)) n = Some n2" "n2 \<noteq> NULL" using nav_holds(1) [OF t] block_tree_nodes(2) [OF t, of "(n2, d2)"] x2 by auto
    have st': "stored (upstream_blocks (cp s)) (blocks (heap s)) (v1 @ (p1, c1) # (p2, c2) # v2') (x1 @ (n, block_data x) # (n2, d2) # x2')"
      and lay': "layout (v1 @ (p1, c1) # (p2, c2) # v2') bs" using st lay Cons x2 xy by simp_all
    show thesis
    proof (rule upstream_merge_ok [OF st' m al F lay' up], assumption)
      fix res u
      assume "upstream_block_merge n n2 s = Some ((res, NULL), s\<lparr>cup := u\<rparr>)" "res \<noteq> UMF_RESULT_SUCCESS" and g: "ugrows 0 s (s\<lparr>cup := u\<rparr>)"
        and m: "upstream_memory_provider (cp s) \<noteq> NULL \<Longrightarrow> try_merge (upstream_memory_provider (cp s)) (bdata c1, bsize c1) (bdata c2, bsize c2) (cup s) = (False, u)"
      then have "upstream_block_merge_with_next n s = Some (n, s\<lparr>cup := u\<rparr>)" using n0 nx by (simp add: upstream_block_merge_with_next_def)
      then show thesis by (rule that [OF _ ustored_up [OF us] ar g]) (use m in \<open>simp_all add: merge_above_def brange_def Cons xy\<close>)
    next
      fix s'
      assume A: "upstream_block_merge n n2 s = Some ((UMF_RESULT_SUCCESS, n), s')" "n \<noteq> NULL" "hi c1 = lo c2" "ugrows 0 s s'"
        "ustored s' v1 (p1, ujoin c1 c2) v2' bs S n" "used_size (cp s') = used_size (cp s)" "alloc_size (cp s') = alloc_size (cp s)"
        "try_merge (upstream_memory_provider (cp s)) (bdata c1, bsize c1) (bdata c2, bsize c2) (cup s) = (True, cup s')"
      have run: "upstream_block_merge_with_next n s = Some (n, s')" using A(1,2) n0 nx by (simp add: upstream_block_merge_with_next_def)
      have k: "blk_ok c1" "blk_ok c2" using lay' by (auto simp: layout_def)
      note J = ujoin_hi [OF k A(3)]
      have "\<exists>u \<in> set us. lo (snd u) = e \<and> hi (snd u) = hi c2"
        by (rule bexI [of _ "(p2, c2)"]) (use ar A(3) hx in \<open>auto simp: around_def Cons xy\<close>)
      then have "around us a e v1 (ujoin c1 c2) v2'" using ar J by (auto simp: around_def Cons xy)
      then show thesis by (intro that [OF run A(5)]) (use J A in \<open>simp_all add: xy merge_above_def brange_def Cons\<close>)
    qed
  qed
qed

section \<open>Adding a block\<close>

lemma cut_at:
  assumes "sorted_wrt before us" "\<forall>x \<in> set us. blk_ok (snd x) \<and> (hi (snd x) \<le> a \<or> e \<le> lo (snd x))"
  shows "\<exists>u1 u2. us = u1 @ u2 \<and> (\<forall>x \<in> set u1. hi (snd x) \<le> a) \<and> (\<forall>x \<in> set u2. e \<le> lo (snd x))"
  using assms
proof (induction us)
  case (Cons x us)
  then obtain u1 u2 where u: "us = u1 @ u2" "\<forall>x \<in> set u1. hi (snd x) \<le> a" "\<forall>x \<in> set u2. e \<le> lo (snd x)" by auto
  show ?case
  proof (cases "hi (snd x) \<le> a")
    case True
    then show ?thesis using u by (intro exI [of _ "x # u1"] exI [of _ u2]) simp
  next
    case False
    then have "\<forall>y \<in> set (x # us). e \<le> lo (snd y)" using Cons.prems blk_ok_lt [of "snd x"] by (fastforce simp: before_def)
    then show ?thesis by (intro exI [of _ "[]"] exI [of _ "x # us"]) simp
  qed
qed simp

lemma blk_sum_le:
  assumes "sorted_wrt before us" "\<forall>x \<in> set us. hi (snd x) \<le> B"
  shows "blk_sum us \<le> B"
  using assms
proof (induction us arbitrary: B rule: rev_induct)
  case (snoc x us)
  then have "blk_sum us \<le> lo (snd x)" by (simp add: sorted_wrt_append before_def)
  then show ?case using snoc.prems(2) by (auto simp: lo_def hi_def)
qed simp

lemma layout_sum:
  assumes "layout us bs"
  shows "blk_sum us < 2 ^ 64"
proof -
  have "hi (snd x) \<le> 2 ^ 64 - 1" if "x \<in> set us" for x
  proof -
    have "blk_ok (snd x)" using assms that unfolding layout_def by blast
    then show ?thesis by (simp add: blk_ok_def)
  qed
  then have "blk_sum us \<le> 2 ^ 64 - 1" using assms by (intro blk_sum_le) (auto simp: layout_def)
  then show ?thesis by simp
qed

lemma merged_finer:
  assumes "merged us bs" "\<And>x y. x \<in> set bs \<Longrightarrow> y \<in> set bs \<Longrightarrow> may_join us' x y \<Longrightarrow> may_join us x y"
  shows "merged us' bs"
  using assms
proof (induction bs)
  case (Cons x bs)
  then have "merged us' bs" by (simp add: merged_Cons)
  moreover have "bs = [] \<or> \<not> may_join us' x (hd bs)" using Cons.prems(1) Cons.prems(2) [of x "hd bs"] by (auto simp: merged_Cons)
  ultimately show ?case by (simp add: merged_Cons)
qed simp

text \<open>The new block in both sequences.\<close>

lemma layout_insert:
  assumes lay: "layout (u1 @ u2) (b1 @ b2)" and k: "blk_ok cu" "blk_ok c" "lo c = lo cu" "hi c = hi cu"
    and u: "\<forall>x \<in> set u1. hi (snd x) \<le> lo cu" "\<forall>x \<in> set u2. hi cu \<le> lo (snd x)"
    and b: "\<forall>x \<in> set b1. hi (snd x) \<le> lo cu" "\<forall>x \<in> set b2. hi cu \<le> lo (snd x)"
    and p: "pu \<noteq> NULL" "p \<noteq> NULL" "pu \<noteq> p" "{pu, p} \<inter> fst ` (set (u1 @ u2) \<union> set (b1 @ b2)) = {}"
  shows "layout (u1 @ (pu, cu) # u2) (b1 @ (p, c) # b2)"
proof -
  have "\<forall>x \<in> set (b1 @ b2). \<exists>v \<in> set (u1 @ u2). inside (snd x) (snd v)" "sorted_wrt before (u1 @ u2)" "sorted_wrt before (b1 @ b2)"
    "\<forall>x \<in> set (u1 @ u2) \<union> set (b1 @ b2). blk_ok (snd x) \<and> fst x \<noteq> NULL" "distinct (map fst ((u1 @ u2) @ (b1 @ b2)))"
    using lay by (auto simp: layout_def)
  moreover have "inside c cu" using k by (simp add: inside_def)
  ultimately show ?thesis
    unfolding layout_def using k u b p by (auto simp: sorted_wrt_append before_def)
qed

lemma list_parts: "map f xs = b1 @ b2 \<Longrightarrow> \<exists>x1 x2. xs = x1 @ x2 \<and> map f x1 = b1"
  by (metis map_eq_append_conv)

lemma insert_ok:
  assumes ok: "coarse_ok s us bs" and nz: "a \<noteq> 0" "sz \<noteq> 0" "unat a + unat sz < 2 ^ 64"
    and away: "\<forall>u \<in> set us. hi (snd u) \<le> unat a \<or> unat a + unat sz \<le> lo (snd u)" and r: "ready 4 s"
  obtains pu n rt h s1 p n2 s2 c u1 cu u2 b1 b2 where
    "coarse_ravl_add_new (upstream_blocks (cp s)) a sz (heap s) = Some (pu, n, rt, h)"
    "s1 = set_cp (\<lambda>q. q\<lparr>upstream_blocks := rt\<rparr>) (s\<lparr>heap := h\<rparr>)" "pu \<noteq> NULL" "add_block a sz s1 = Some ((p, n2), s2)" "p \<noteq> NULL"
    "us = u1 @ u2" "bs = b1 @ b2" "ustored s2 u1 (pu, cu) u2 (b1 @ (p, c) # b2) (free_set (b1 @ b2)) n" "bdata cu = a" "bsize cu = sz" "bdata c = a" "bsize c = sz"
    "free_list_ptr c = NULL" "\<forall>x \<in> set b1. hi (snd x) \<le> unat a" "\<forall>x \<in> set b2. unat a + unat sz \<le> lo (snd x)" "grows 4 s s2"
    "used_size (cp s2) = used_size (cp s)" "alloc_size (cp s2) = alloc_size (cp s)"
proof -
  let ?e = "unat a + unat sz"
  from ok obtain xs uxs where st: "stored (all_blocks (cp s)) (blocks (heap s)) bs xs" and us: "stored (upstream_blocks (cp s)) (blocks (heap s)) us uxs"
    and lay: "layout us bs" and F: "free_holds (free_blocks (cp s)) (heap s) (free_set bs)" by (auto simp: coarse_ok_def rep_def)
  have pos: "0 < unat sz" using nz by (simp add: unat_gt_0)
  have kb: "blk_ok (snd x)" if "x \<in> set us \<union> set bs" for x using lay that unfolding layout_def by blast
  have "\<forall>x \<in> set us. blk_ok (snd x) \<and> (hi (snd x) \<le> unat a \<or> ?e \<le> lo (snd x))" using away kb by blast
  then obtain u1 u2 where u: "us = u1 @ u2" "\<forall>x \<in> set u1. hi (snd x) \<le> unat a" "\<forall>x \<in> set u2. ?e \<le> lo (snd x)"
    using cut_at [of us "unat a" ?e] lay by (auto simp: layout_def)
  have "hi (snd x) \<le> unat a \<or> ?e \<le> lo (snd x)" if "x \<in> set bs" for x
  proof -
    have "\<exists>v \<in> set us. inside (snd x) (snd v)" using lay that by (simp add: layout_def)
    then obtain v where "v \<in> set us" "inside (snd x) (snd v)" ..
    then show ?thesis using bspec [OF away, of v] by (auto simp: inside_def)
  qed
  then have "\<forall>x \<in> set bs. blk_ok (snd x) \<and> (hi (snd x) \<le> unat a \<or> ?e \<le> lo (snd x))" using kb by blast
  then obtain b1 b2 where b: "bs = b1 @ b2" "\<forall>x \<in> set b1. hi (snd x) \<le> unat a" "\<forall>x \<in> set b2. ?e \<le> lo (snd x)"
    using cut_at [of bs "unat a" ?e] lay by (auto simp: layout_def)
  have less: "bdata (snd x) < a" if "x \<in> set us \<union> set bs" "hi (snd x) \<le> unat a" for x
    using that kb [OF that(1)] blk_ok_lt [of "snd x"] by (simp add: word_less_nat_alt lo_def)
  have more: "a < bdata (snd x)" if "?e \<le> lo (snd x)" for x :: cblock using that pos by (simp add: word_less_nat_alt lo_def)
  obtain pu n rt h s1 cu ux1 ux2 where A: "coarse_ravl_add_new (upstream_blocks (cp s)) a sz (heap s) = Some (pu, n, rt, h)"
    "s1 = set_cp (\<lambda>q. q\<lparr>upstream_blocks := rt\<rparr>) (s\<lparr>heap := h\<rparr>)" "pu \<noteq> NULL" "n \<noteq> NULL" "pu \<notin> dom (blocks (heap s))"
    "bsize cu = sz" "bdata cu = a" "blocks (heap s1) = (blocks (heap s))(pu \<mapsto> cu)"
    "stored (upstream_blocks (cp s1)) (blocks (heap s1)) (u1 @ (pu, cu) # u2) (ux1 @ (n, block_data (pu, cu)) # ux2)"
    "map snd ux1 = map block_data u1" "map snd ux2 = map block_data u2"
    "all_blocks (cp s1) = all_blocks (cp s)" "free_blocks (cp s1) = free_blocks (cp s)" "fheads (heap s1) = fheads (heap s)"
    "elems (heap s1) = elems (heap s)" "used_size (cp s1) = used_size (cp s)" "alloc_size (cp s1) = alloc_size (cp s)" "grows 2 s s1"
    by (rule add_upstream_new [OF us [unfolded u(1)] _ _ nz(1,2) ready_mono [OF r]]) (use u b less more in auto)
  have dom: "fst ` (set us \<union> set bs) \<subseteq> dom (blocks (heap s))" using st us by (fastforce simp: stored_def)
  have st1: "stored (all_blocks (cp s1)) (blocks (heap s1)) (b1 @ b2) xs"
  proof -
    have "pu \<notin> fst ` set bs" using A(5) dom by blast
    then show ?thesis using stored_off [OF st, of "{pu}" "blocks (heap s1)"] A(8,12) b(1) by simp
  qed
  obtain x1 x2 where x: "xs = x1 @ x2" "map snd x1 = map block_data b1"
    using list_parts [of snd xs "map block_data b1" "map block_data b2"] st b(1) by (auto simp: stored_def)
  have r1: "ready 2 s1" using ready_after [of 2 2 s s1] r A(18) by simp
  obtain p n2 s2 c where B: "add_block a sz s1 = Some ((p, n2), s2)" "p \<noteq> NULL" "n2 \<noteq> NULL" "p \<notin> dom (blocks (heap s1))"
    "bsize c = sz" "bdata c = a" "free_list_ptr c = NULL" "blocks (heap s2) = (blocks (heap s1))(p \<mapsto> c)"
    "stored (all_blocks (cp s2)) (blocks (heap s2)) (b1 @ (p, c) # b2) (x1 @ (n2, block_data (p, c)) # x2)"
    "outer s2 = outer s1" "free_blocks (cp s2) = free_blocks (cp s1)" "fheads (heap s2) = fheads (heap s1)"
    "elems (heap s2) = elems (heap s1)" "grows 2 s1 s2"
    by (rule add_block_ok [OF st1 x _ _ nz(1,2) r1]) (use b less more in auto)
  have pp: "pu \<noteq> p" "pu \<notin> fst ` (set us \<union> set bs)" "p \<notin> fst ` (set us \<union> set bs)" using A(5,8) B(4) dom by auto
  have k: "blk_ok cu" "blk_ok c" "lo cu = unat a" "hi cu = ?e" "lo c = unat a" "hi c = ?e"
    using nz A(6,7) B(5,6) by (simp_all add: blk_ok_def hi_def lo_def)
  have "layout (u1 @ (pu, cu) # u2) (b1 @ (p, c) # b2)"
    by (rule layout_insert) (use lay k u b A(3) B(2) pp in auto)
  moreover have "stored (upstream_blocks (cp s2)) (blocks (heap s2)) (u1 @ (pu, cu) # u2) (ux1 @ (n, block_data (pu, cu)) # ux2)"
    using stored_off [OF A(9), of "{p}" "blocks (heap s2)"] B(8,10) pp u(1) by (auto simp: outer_def)
  moreover have "free_holds (free_blocks (cp s2)) (heap s2) (free_set (b1 @ b2))"
    using free_holds_frame [OF F, of "heap s2"] A(13-15) B(11-13) b(1) by simp
  ultimately have uo: "ustored s2 u1 (pu, cu) u2 (b1 @ (p, c) # b2) (free_set (b1 @ b2)) n" unfolding ustored_def using A(10) B(9) by blast
  have g: "grows 4 s s2" using grows_trans [OF A(18) B(14)] by simp
  show thesis
    by (rule that [OF A(1-3) B(1,2) u(1) b(1) uo A(7,6) B(6,5,7) b(2,3) g]) (use A(16,17) B(10) in \<open>simp_all add: outer_def\<close>)
qed

lemma add_upstream_ok:
  assumes ok: "coarse_ok s us bs" and nz: "a \<noteq> 0" "sz \<noteq> 0" "unat a + unat sz < 2 ^ 64"
    and away: "\<forall>u \<in> set us. hi (snd u) \<le> unat a \<or> unat a + unat sz \<le> lo (snd u)" and r: "ready 4 s"
    and up: "upstream_memory_provider (cp s) \<noteq> NULL \<Longrightarrow> can_merge (cup s) (upstream_memory_provider (cp s))"
  obtains s' us' b1 p c b2 where "coarse_add_upstream_block a sz s = Some (UMF_RESULT_SUCCESS, s')" "bs = b1 @ b2"
    "coarse_ok s' us' (b1 @ (p, c) # b2)" "bdata c = a" "bsize c = sz" "bused c" "ugrows 4 s s'"
    "upstream_memory_provider (cp s) \<noteq> NULL \<longrightarrow>
       (map brange us', cup s') = grown (upstream_memory_provider (cp s)) (a, sz) (map brange us) (cup s)"
proof -
  let ?e = "unat a + unat sz"
  obtain pu n rt h s1 p n2 s2 c u1 cu u2 b1 b2 where
    A: "coarse_ravl_add_new (upstream_blocks (cp s)) a sz (heap s) = Some (pu, n, rt, h)"
    "s1 = set_cp (\<lambda>q. q\<lparr>upstream_blocks := rt\<rparr>) (s\<lparr>heap := h\<rparr>)" "pu \<noteq> NULL" "add_block a sz s1 = Some ((p, n2), s2)" "p \<noteq> NULL"
    "us = u1 @ u2" "bs = b1 @ b2" "ustored s2 u1 (pu, cu) u2 (b1 @ (p, c) # b2) (free_set (b1 @ b2)) n" "bdata cu = a" "bsize cu = sz" "bdata c = a" "bsize c = sz"
    "free_list_ptr c = NULL" "\<forall>x \<in> set b1. hi (snd x) \<le> unat a" "\<forall>x \<in> set b2. ?e \<le> lo (snd x)" "grows 4 s s2"
    "used_size (cp s2) = used_size (cp s)" "alloc_size (cp s2) = alloc_size (cp s)"
    by (rule insert_ok [OF ok nz away r])
  have k: "lo cu = unat a" "hi cu = ?e" "lo c = unat a" "hi c = ?e" using A(9-12) by (simp_all add: hi_def lo_def)
  have up2: "upstream_memory_provider (cp s2) \<noteq> NULL \<Longrightarrow> can_merge (cup s2) (upstream_memory_provider (cp s2))"
    using up A(16) by (simp add: grows_def config_def)
  have ar: "around us (unat a) ?e u1 (snd (pu, cu)) u2" using k A(6,10) by (auto simp: around_def)
  obtain n3 s3 v1 x3 where P: "upstream_block_merge_with_prev n s2 = Some (n3, s3)" "ustored s3 v1 x3 u2 (b1 @ (p, c) # b2) (free_set (b1 @ b2)) n3"
    "around us (unat a) ?e v1 (snd x3) u2" "hi (snd x3) = hi (snd (pu, cu))" "ugrows 0 s2 s3"
    "used_size (cp s3) = used_size (cp s2)" "alloc_size (cp s3) = alloc_size (cp s2)"
    "upstream_memory_provider (cp s2) \<noteq> NULL \<Longrightarrow> merge_below (upstream_memory_provider (cp s2)) (map brange u1) (brange (pu, cu)) (cup s2) = ((map brange v1, brange x3), cup s3)"
    by (rule upstream_merge_prev_ok [OF A(8) ar _ up2]) (use k in auto)
  have up3: "upstream_memory_provider (cp s3) \<noteq> NULL \<Longrightarrow> can_merge (cup s3) (upstream_memory_provider (cp s3))"
    using up2 P(5) by (simp add: ugrows_def grows_def config_def can_merge_def)
  obtain n4 s4 x4 v2 where N: "upstream_block_merge_with_next n3 s3 = Some (n4, s4)" "ustored s4 v1 x4 v2 (b1 @ (p, c) # b2) (free_set (b1 @ b2)) n4"
    "around us (unat a) ?e v1 (snd x4) v2" "ugrows 0 s3 s4" "used_size (cp s4) = used_size (cp s3)" "alloc_size (cp s4) = alloc_size (cp s3)"
    "upstream_memory_provider (cp s3) \<noteq> NULL \<Longrightarrow> merge_above (upstream_memory_provider (cp s3)) (brange x3) (map brange u2) (cup s3) = ((brange x4, map brange v2), cup s4)"
    by (rule upstream_merge_next_ok [OF P(2,3) _ up3]) (use P(4) k in auto)
  from N(2) obtain xs uxs where st: "stored (all_blocks (cp s4)) (blocks (heap s4)) (b1 @ (p, c) # b2) xs"
    and us: "stored (upstream_blocks (cp s4)) (blocks (heap s4)) (v1 @ x4 # v2) uxs"
    and F: "free_holds (free_blocks (cp s4)) (heap s4) (free_set (b1 @ b2))" and lay: "layout (v1 @ x4 # v2) (b1 @ (p, c) # b2)" by (auto simp: ustored_def)
  define d where "d = c\<lparr>bused := True\<rparr>"
  define s5 where "s5 = s4\<lparr>heap := (heap s4)\<lparr>blocks := (blocks (heap s4))(p \<mapsto> d)\<rparr>\<rparr>"
  define s6 where "s6 = set_cp (\<lambda>q. q\<lparr>alloc_size := alloc_size q + sz, used_size := used_size q + sz\<rparr>) s5"
  have bp: "blocks (heap s4) p = Some c" using st by (simp add: stored_def)
  have s5: "set_block p (\<lambda>b. b\<lparr>bused := True\<rparr>) s4 = Some s5" using set_block_ok [OF bp] by (simp add: s5_def d_def)
  have run: "coarse_add_upstream_block a sz s = Some (UMF_RESULT_SUCCESS, s6)"
    unfolding coarse_add_upstream_block_def using A(1-5) P(1) N(1) s5 by (simp add: s6_def)
  let ?us = "v1 @ x4 # v2" and ?bs = "b1 @ (p, d) # b2"
  note di = layout_distinct [OF lay]
  have h6: "heap s6 = (heap s4)\<lparr>blocks := (blocks (heap s4))(p \<mapsto> d)\<rparr>" "upstream_blocks (cp s6) = upstream_blocks (cp s4)"
    "all_blocks (cp s6) = all_blocks (cp s4)" "free_blocks (cp s6) = free_blocks (cp s4)"
    "used_size (cp s6) = used_size (cp s) + sz" "alloc_size (cp s6) = alloc_size (cp s) + sz"
    using A(17,18) P(6,7) N(5,6) by (simp_all add: s6_def s5_def set_cp_def)
  have lay6: "layout ?us ?bs" using lay by (simp add: layout_parts before_def blk_ok_def inside_def lo_def hi_def d_def)
  have "stored (all_blocks (cp s6)) (blocks (heap s6)) ?bs xs" using stored_update [OF st, of d] di by (simp add: h6 d_def)
  moreover have "stored (upstream_blocks (cp s6)) (blocks (heap s6)) ?us uxs" using stored_off [OF us, of "{p}" "blocks (heap s6)"] di by (simp add: h6)
  moreover have "free_holds (free_blocks (cp s6)) (heap s6) (free_set ?bs)" using free_holds_frame [OF F] by (simp add: h6 d_def)
  ultimately have "\<exists>xs. rep s6 ?us ?bs (free_set ?bs) xs" unfolding rep_def using lay6 by blast
  moreover have "merged ?us ?bs"
  proof -
    have kb: "blk_ok (snd x)" if "x \<in> set (b1 @ b2)" for x using that lay unfolding layout_def by auto
    have j: "may_join us x y" if "may_join ?us x y" "x \<in> set (b1 @ b2)" "hi (snd x) \<le> unat a \<and> hi (snd y) \<le> unat a \<or> ?e \<le> lo (snd x) \<and> ?e \<le> lo (snd y)" for x y
      using around_org [OF N(3) _ kb [OF that(2)] that(3)] that(1) by (simp add: may_join_def)
    have "merged us b1" "merged us b2" using ok A(7) by (auto simp: coarse_ok_def merged_append)
    then have "merged ?us b1" "merged ?us b2" using merged_finer [of us b1 ?us] merged_finer [of us b2 ?us] j A(14,15) by auto
    then show ?thesis by (auto simp: merged_append merged_Cons may_join_def d_def)
  qed
  moreover have "counters s6 ?us ?bs"
  proof -
    have c0: "unat (used_size (cp s)) = used_sum b1 + used_sum b2" "unat (alloc_size (cp s)) = blk_sum b1 + blk_sum b2" "blk_sum us = blk_sum b1 + blk_sum b2"
      using ok A(7) by (auto simp: coarse_ok_def counters_def)
    have us': "blk_sum ?us = blk_sum us + unat sz" using N(3) by (simp add: around_def)
    have "blk_sum us + unat sz < 2 ^ 64" using layout_sum [OF lay6] us' by simp
    moreover have "used_sum b1 + used_sum b2 \<le> blk_sum us" using c0 used_sum_le [of b1] used_sum_le [of b2] by simp
    ultimately have "unat (alloc_size (cp s) + sz) = blk_sum us + unat sz" "unat (used_size (cp s) + sz) = used_sum b1 + used_sum b2 + unat sz"
      using c0 by (simp_all add: unat_add_u64)
    then show ?thesis using c0 us' A(12) by (simp add: counters_def h6 d_def)
  qed
  moreover have "\<forall>x \<in> set ?bs. bused (snd x) \<longrightarrow> free_list_ptr (snd x) = NULL" using ok A(7,13) by (auto simp: coarse_ok_def d_def)
  ultimately have ok6: "coarse_ok s6 ?us ?bs" by (simp add: coarse_ok_def)
  have "grows 0 s4 s5" unfolding s5_def by (rule grows_blocks) (use bp in auto)
  then have "grows 0 s4 s6" by (auto simp: s6_def set_cp_def grows_def config_def live_def)
  then have "ugrows 0 s4 s6" by (rule ugrows_grows)
  with ugrows_trans [OF ugrows_trans [OF ugrows_grows [OF A(16)] P(5)] N(4)] have g: "ugrows 4 s s6" by (auto dest: ugrows_trans)
  have gr: "(map brange ?us, cup s6) = grown (upstream_memory_provider (cp s)) (a, sz) (map brange us) (cup s)"
    if u0: "upstream_memory_provider (cp s) \<noteq> NULL"
  proof -
    have same: "upstream_memory_provider (cp s2) = upstream_memory_provider (cp s)" "upstream_memory_provider (cp s3) = upstream_memory_provider (cp s)"
      "cup s2 = cup s" "cup s6 = cup s4"
      using A(16) P(5) by (auto simp: ugrows_def grows_def config_def s6_def s5_def set_cp_def)
    from A(8) have "layout (u1 @ (pu, cu) # u2) (b1 @ (p, c) # b2)" by (auto simp: ustored_def)
    then have "\<forall>x \<in> set u1. blk_ok (snd x) \<and> hi (snd x) \<le> lo cu" "\<forall>x \<in> set u2. hi cu \<le> lo (snd x)" "blk_ok cu"
      by (auto simp: layout_def sorted_wrt_append before_def)
    then have "\<forall>x \<in> set u1. bdata (snd x) < a" "\<forall>x \<in> set u2. a < bdata (snd x)"
      using blk_ok_lt [of cu] blk_ok_lt A(9) by (fastforce simp: word_less_nat_alt lo_def)+
    then have "filter (\<lambda>r. fst r < a) (map brange us) = map brange u1" "filter (\<lambda>r. a < fst r) (map brange us) = map brange u2"
      unfolding A(6) by (auto simp: filter_map brange_def comp_def filter_empty_conv intro!: filter_True dest: less_imp_not_less)
    moreover have "brange (pu, cu) = (a, sz)" using A(9,10) by (simp add: brange_def)
    ultimately show ?thesis using P(8) N(7) u0 unfolding same grown_def by (simp add: same)
  qed
  show thesis by (rule that [OF run A(7) ok6 _ _ _ g]) (use gr in \<open>simp_all add: d_def A(11,12)\<close>)
qed

end
