(* ===== verification/Coarse_Service.thy ===== *)
theory Coarse_Service
  imports Coarse_Upstream
begin

text \<open>
  Requests with arbitrary arguments: each of them is answered, without a failed check, and keeps the
  invariant.
\<close>

section \<open>Requests of the user\<close>

text \<open>What holds of a provider between two requests.\<close>

definition idle :: "'w coarse_state \<Rightarrow> bool" where
  "idle s \<longleftrightarrow> \<not> clock (cp s) \<and> cpriv s \<noteq> NULL"

lemma idle_grows: "idle s \<Longrightarrow> grows m s s' \<Longrightarrow> idle s'"
  by (simp add: idle_def grows_def config_def)

lemma locked:
  assumes "coarse_ok s us bs" "idle s"
  obtains s0 where "lock_coarse s = Some s0" "coarse_ok s0 us bs" "unlock_coarse s0 = s" "debug_check s0 = Some ()" "cpriv s0 = cpriv s"
    "s0 = set_cp (\<lambda>p. p\<lparr>clock := True\<rparr>) s"
proof
  show "debug_check (set_cp (\<lambda>p. p\<lparr>clock := True\<rparr>) s) = Some ()" using debug_check_ok assms(1) lock_simps by blast
qed (use assms in \<open>simp_all add: idle_def lock_simps unlock_lock\<close>, simp add: set_cp_def)

lemma coarse_free_any:
  assumes ok: "coarse_ok s us bs" and i: "idle s" and r: "ready 3 s"
  obtains res s' bs' where "coarse_memory_provider_free (cpriv s) a bytes s = Some (res, s')" "coarse_ok s' us bs'" "grows 3 s s'"
proof (cases "\<exists>x \<in> set bs. bdata (snd x) = a")
  case False
  then have "coarse_memory_provider_free (cpriv s) a bytes s = Some (UMF_RESULT_ERROR_UNKNOWN, s)"
    using coarse_free_refused(1) [OF ok] i by (auto simp: idle_def)
  then show thesis using that ok by auto
next
  case True
  then obtain x where x: "x \<in> set bs" "bdata (snd x) = a" by blast
  show thesis
  proof (cases "\<not> bused (snd x) \<or> bytes > 0 \<and> bytes \<noteq> bsize (snd x)")
    case True
    then have "coarse_memory_provider_free (cpriv s) a bytes s = Some (UMF_RESULT_ERROR_INVALID_ARGUMENT, s)"
      using coarse_free_refused(2) [OF ok _ _ x(1)] x(2) i by (auto simp: idle_def)
    then show thesis using that ok by auto
  next
    case False
    obtain b1 b2 p c where bs: "bs = b1 @ (p, c) # b2" "x = (p, c)" using x(1) by (metis split_list surj_pair)
    obtain s' bs' where "coarse_memory_provider_free (cpriv s) (bdata c) bytes s = Some (UMF_RESULT_SUCCESS, s')"
      "coarse_ok s' us bs'" "used_blocks bs' = used_blocks (b1 @ b2)" "grows 3 s s'"
      by (rule coarse_free_ok [OF ok [unfolded bs(1)], of bytes]) (use False i r bs in \<open>auto simp: idle_def word_gt_0\<close>)
    then show thesis using that x(2) bs(2) by auto
  qed
qed

lemma coarse_split_any:
  assumes ok: "coarse_ok s us bs" and i: "idle s" and r: "ready 2 s"
  obtains res s' bs' where "coarse_memory_provider_allocation_split (cpriv s) a t f s = Some (res, s')" "coarse_ok s' us bs'" "grows 2 s s'"
proof -
  obtain s0 where s0: "lock_coarse s = Some s0" "coarse_ok s0 us bs" "unlock_coarse s0 = s" "debug_check s0 = Some ()" by (rule locked [OF ok i])
  have pr: "cpriv s \<noteq> NULL" using i by (simp add: idle_def)
  note answered = that
  have refused: thesis if no: "coarse_memory_provider_allocation_split (cpriv s) a t f s = Some (UMF_RESULT_ERROR_INVALID_ARGUMENT, s)"
    by (rule answered [OF no ok]) simp
  show thesis
  proof (cases "a = 0 \<or> t \<le> f \<or> f = 0")
    case True
    then show thesis by (intro refused) (auto simp: coarse_memory_provider_allocation_split_def)
  next
    case args: False
    show thesis
    proof (cases "\<exists>x \<in> set bs. bdata (snd x) = a")
      case False
      then have "coarse_ravl_find_node (all_blocks (cp s0)) a = Some NULL" by (intro find_node_none [OF s0(2)]) auto
      then show thesis by (intro refused)
        (use args pr s0 in \<open>simp add: coarse_memory_provider_allocation_split_def check_unlock_def\<close>)
    next
      case True
      then obtain x where x: "x \<in> set bs" "bdata (snd x) = a" by blast
      obtain n where n: "coarse_ravl_find_node (all_blocks (cp s0)) (bdata (snd x)) = Some n" "n \<noteq> NULL"
        "get_node_block (all_blocks (cp s0)) n = Some (fst x)" "blocks (heap s0) (fst x) = Some (snd x)" by (rule find_node_some [OF s0(2) x(1)])
      show thesis
      proof (cases "bsize (snd x) = t \<and> bused (snd x)")
        case False
        then show thesis by (intro refused)
          (use args pr s0 n x(2) in \<open>auto simp: coarse_memory_provider_allocation_split_def check_unlock_def\<close>)
      next
        case True
        obtain b1 b2 p c where bs: "bs = b1 @ (p, c) # b2" "x = (p, c)" using x(1) by (metis split_list surj_pair)
        obtain s' p2 c2 where "coarse_memory_provider_allocation_split (cpriv s) (bdata c) (bsize c) f s = Some (UMF_RESULT_SUCCESS, s')"
          "coarse_ok s' us (b1 @ (p, c\<lparr>bsize := f\<rparr>) # (p2, c2) # b2)" "grows 2 s s'"
          by (rule coarse_split_ok [OF ok [unfolded bs(1)], of f]) (use True args i r bs in \<open>auto simp: idle_def\<close>)
        then show thesis using that True bs(2) x(2) by auto
      qed
    qed
  qed
qed

lemma find_used_any:
  assumes ok: "coarse_ok s us bs"
  obtains (none) "find_used a s = Some (NULL, NULL)"
  | (used) x n where "x \<in> set bs" "bdata (snd x) = a" "bused (snd x)" "find_used a s = Some (n, fst x)" "n \<noteq> NULL"
      "coarse_ravl_find_node (all_blocks (cp s)) a = Some n"
proof (cases "\<exists>x \<in> set bs. bdata (snd x) = a")
  case False
  then have "coarse_ravl_find_node (all_blocks (cp s)) a = Some NULL" by (intro find_node_none [OF ok]) auto
  then show thesis by (intro none) (simp add: find_used_def)
next
  case True
  then obtain x where x: "x \<in> set bs" "bdata (snd x) = a" by blast
  obtain n where n: "coarse_ravl_find_node (all_blocks (cp s)) (bdata (snd x)) = Some n" "n \<noteq> NULL" by (rule find_node_some [OF ok x(1)])
  have "find_used a s = Some (if bused (snd x) then (n, fst x) else (NULL, NULL))" using find_used_ok [OF ok x(1) n] x(2) by simp
  then show thesis using none used [OF x] n x(2) by (cases "bused (snd x)") auto
qed

text \<open>The node behind another one.\<close>

lemma next_of:
  assumes ok: "coarse_ok s us bs" and x: "x \<in> set bs" "coarse_ravl_find_node (all_blocks (cp s)) (bdata (snd x)) = Some n"
    and y: "y \<in> set bs" "coarse_ravl_find_node (all_blocks (cp s)) (bdata (snd y)) = Some m" "m \<noteq> NULL"
  obtains nxt where "get_node_next (all_blocks (cp s)) n = Some nxt" "nxt = m \<Longrightarrow> \<exists>b1 b2. bs = b1 @ x # y # b2"
proof -
  obtain b1 b2 where bs: "bs = b1 @ x # b2" using x(1) by (auto dest: split_list)
  from ok obtain xs where st: "stored (all_blocks (cp s)) (blocks (heap s)) (b1 @ x # b2) xs" by (auto simp: coarse_ok_def rep_def bs)
  obtain x1 n' x2 where X: "xs = x1 @ (n', block_data x) # x2" "map snd x2 = map block_data b2"
    "coarse_ravl_find_node (all_blocks (cp s)) (bdata (snd x)) = Some n'" by (rule stored_split [OF st])
  then have t: "block_tree (all_blocks (cp s)) (x1 @ (n, block_data x) # x2)" using st x(2) by (simp add: stored_def)
  show thesis
  proof (cases x2)
    case Nil
    then show thesis using that [of NULL] nav_holds(1) [OF t] y(3) by simp
  next
    case (Cons z zs)
    then obtain w ws where w: "b2 = w # ws" "snd z = block_data w" using X(2) by (cases b2) auto
    have "block_tree (all_blocks (cp s)) ((x1 @ [(n, block_data x)]) @ (fst z, snd z) # zs)" using t Cons by simp
    then have fz: "coarse_ravl_find_node (all_blocks (cp s)) (bdata (snd w)) = Some (fst z)" using find_node_ok(1) w(2) by fastforce
    have "w = y" if "fst z = m"
    proof -
      obtain k where k: "coarse_ravl_find_node (all_blocks (cp s)) (bdata (snd w)) = Some k" "get_node_block (all_blocks (cp s)) k = Some (fst w)"
        "blocks (heap s) (fst w) = Some (snd w)" by (rule find_node_some [OF ok, of w]) (simp add: bs w)
      obtain j where j: "coarse_ravl_find_node (all_blocks (cp s)) (bdata (snd y)) = Some j" "get_node_block (all_blocks (cp s)) j = Some (fst y)"
        "blocks (heap s) (fst y) = Some (snd y)" by (rule find_node_some [OF ok y(1)])
      have "k = j" using k(1) j(1) fz y(2) that by simp
      then show ?thesis using k j by (simp add: prod_eq_iff)
    qed
    then show thesis using that [of "fst z"] nav_holds(1) [OF t] Cons bs w(1) by (cases z) auto
  qed
qed

lemma coarse_merge_any:
  assumes ok: "coarse_ok s us bs" and i: "idle s"
  obtains res s' bs' where "coarse_memory_provider_allocation_merge (cpriv s) a b t s = Some (res, s')" "coarse_ok s' us bs'" "grows 0 s s'"
proof -
  obtain s0 where s0: "lock_coarse s = Some s0" "coarse_ok s0 us bs" "unlock_coarse s0 = s" "debug_check s0 = Some ()" by (rule locked [OF ok i])
  have pr: "cpriv s \<noteq> NULL" using i by (simp add: idle_def)
  let ?run = "coarse_memory_provider_allocation_merge (cpriv s) a b t s"
  note answered = that
  have refused: thesis if no: "?run = Some (UMF_RESULT_ERROR_INVALID_ARGUMENT, s)"
    by (rule answered [OF no ok]) simp
  note D = coarse_memory_provider_allocation_merge_def check_unlock_def
  show thesis
  proof (cases "a = 0 \<or> b = 0 \<or> b \<le> a \<or> t \<le> b - a")
    case True
    then show thesis by (intro refused) (auto simp: coarse_memory_provider_allocation_merge_def)
  next
    case args: False
    then have ne: "a < b" by auto
    show thesis
    proof (rule find_used_any [OF s0(2), of a])
      assume "find_used a s0 = Some (NULL, NULL)"
      then show thesis by (intro refused) (use args pr s0 in \<open>simp add: D\<close>)
    next
      fix x n assume x: "x \<in> set bs" "bdata (snd x) = a" "bused (snd x)" "find_used a s0 = Some (n, fst x)" "n \<noteq> NULL"
        "coarse_ravl_find_node (all_blocks (cp s0)) a = Some n"
      show thesis
      proof (rule find_used_any [OF s0(2), of b])
        assume "find_used b s0 = Some (NULL, NULL)"
        then show thesis by (intro refused) (use args pr s0 x in \<open>simp add: D\<close>)
      next
        fix y m assume y: "y \<in> set bs" "bdata (snd y) = b" "bused (snd y)" "find_used b s0 = Some (m, fst y)" "m \<noteq> NULL"
          "coarse_ravl_find_node (all_blocks (cp s0)) b = Some m"
        obtain nxt where nxt: "get_node_next (all_blocks (cp s0)) n = Some nxt" "nxt = m \<Longrightarrow> \<exists>b1 b2. bs = b1 @ x # y # b2"
          by (rule next_of [OF s0(2) x(1) _ y(1) _ y(5), of n]) (use x y in auto)
        show thesis
        proof (cases "nxt = m")
          case False
          then show thesis by (intro refused) (use args pr s0 x y nxt(1) in \<open>simp add: D\<close>)
        next
          case True
          then obtain b1 b2 where bs: "bs = b1 @ x # y # b2" using nxt(2) by blast
          obtain p1 c1 p2 c2 where xy: "x = (p1, c1)" "y = (p2, c2)" by (cases x, cases y)
          note bs' = bs [unfolded xy]
          obtain x1 n1 n2 x2 where P: "rep s0 us (b1 @ (p1, c1) # (p2, c2) # b2) (free_set (b1 @ (p1, c1) # (p2, c2) # b2))
              (x1 @ (n1, block_data (p1, c1)) # (n2, block_data (p2, c2)) # x2)" "map snd x1 = map block_data b1"
            "coarse_ravl_find_node (all_blocks (cp s0)) (bdata c1) = Some n1" "coarse_ravl_find_node (all_blocks (cp s0)) (bdata c2) = Some n2"
            by (rule coarse_pair [OF s0(2) [unfolded bs']])
          note S = merge_start [OF P(1,2)]
          have nn: "n1 = n" "n2 = m" using P(3,4) x(2,6) y(2,6) by (simp_all add: xy)
          show thesis
          proof (cases "bsize c1 + bsize c2 = t \<and> b = a + bsize c1")
            case False
            then show thesis by (intro refused) (use args pr s0 x(4,5) y(4,5) nxt(1) True S nn in \<open>auto simp: D xy\<close>)
          next
            case yes: True
            then have adj: "hi c1 = lo c2" using S(17) x(2) y(2) by (simp add: xy)
            have req: "coarse_memory_provider_allocation_merge (cpriv s) (bdata c1) (bdata c2) (bsize c1 + bsize c2) s = ?run" using yes x(2) y(2) by (simp add: xy)
            show thesis
            proof (rule coarse_merge_ok [OF ok [unfolded bs'] _ _ adj])
              show "bused c1" "bused c2" "\<not> clock (cp s)" "cpriv s \<noteq> NULL" using x(3) y(3) i by (auto simp: xy idle_def)
            qed (use refused answered in \<open>auto simp: req\<close>)
          qed
        qed
      qed
    qed
  qed
qed

section \<open>Allocation\<close>

lemma coarse_alloc_none:
  assumes ok: "coarse_ok s us bs" and i: "idle s" and pl: "plain_search (allocation_strategy (cp s)) al"
    and none: "\<forall>x \<in> set bs. \<not> bused (snd x) \<longrightarrow> bsize (snd x) < sz + al"
  obtains s0 where "coarse_memory_provider_alloc (cpriv s) sz al s = alloc_from_upstream sz al s0" "s0 = set_cp (\<lambda>p. p\<lparr>clock := True\<rparr>) s"
    "coarse_ok s0 us bs" "debug_check s0 = Some ()" "unlock_coarse s0 = s"
proof -
  obtain s0 where s0: "lock_coarse s = Some s0" "coarse_ok s0 us bs" "unlock_coarse s0 = s" "debug_check s0 = Some ()"
    "s0 = set_cp (\<lambda>p. p\<lparr>clock := True\<rparr>) s" by (rule locked [OF ok i])
  have st: "allocation_strategy (cp s0) = allocation_strategy (cp s)" by (simp add: s0(5) set_cp_def)
  have "find_free_block (free_blocks (cp s0)) sz al (allocation_strategy (cp s)) (heap s0) = Some (NULL, free_blocks (cp s0), heap s0)"
  proof (rule find_free_ok [OF s0(2) pl, of sz])
    fix b1 x b2 r' h' assume "bs = b1 @ x # b2" "\<not> bused (snd x)" "sz + al \<le> bsize (snd x)"
    then have False using none by auto
    then show ?thesis ..
  qed
  then have "coarse_memory_provider_alloc (cpriv s) sz al s = alloc_from_upstream sz al s0"
    unfolding coarse_memory_provider_alloc_def using i s0(1,4) st by (simp add: idle_def set_cp_def)
  then show thesis using that s0 by blast
qed

lemma coarse_alloc_exhausted:
  assumes ok: "coarse_ok s us bs" and i: "idle s" and pl: "plain_search (allocation_strategy (cp s)) al"
    and none: "\<forall>x \<in> set bs. \<not> bused (snd x) \<longrightarrow> bsize (snd x) < sz + al" and up: "upstream_memory_provider (cp s) = NULL"
  shows "coarse_memory_provider_alloc (cpriv s) sz al s = Some ((UMF_RESULT_ERROR_OUT_OF_HOST_MEMORY, 0), s)"
proof -
  obtain s0 where s0: "coarse_memory_provider_alloc (cpriv s) sz al s = alloc_from_upstream sz al s0" "s0 = set_cp (\<lambda>p. p\<lparr>clock := True\<rparr>) s"
    "coarse_ok s0 us bs" "debug_check s0 = Some ()" "unlock_coarse s0 = s" by (rule coarse_alloc_none [OF ok i pl none])
  have "upstream_memory_provider (cp s0) = NULL" using up by (simp add: s0(2) set_cp_def)
  then show ?thesis using s0 by (simp add: alloc_from_upstream_def)
qed

lemma coarse_alloc_upstream:
  assumes ok: "coarse_ok s us bs" and i: "idle s" and pl: "plain_search (allocation_strategy (cp s)) al"
    and none: "\<forall>x \<in> set bs. \<not> bused (snd x) \<longrightarrow> bsize (snd x) < sz + al"
    and up: "upstream_memory_provider (cp s) = up" "up \<noteq> NULL" "umfMemoryProviderAlloc up sz al (cup s) = Some ((res, a), u)" "can_merge u up"
    and fresh: "a \<noteq> 0" "IS_ALIGNED a al" "sz \<noteq> 0" "unat a + unat sz < 2 ^ 64" "\<forall>v \<in> set us. hi (snd v) \<le> unat a \<or> unat a + unat sz \<le> lo (snd v)"
    and r: "ready 4 s"
  obtains s' us' b1 p c b2 where "coarse_memory_provider_alloc (cpriv s) sz al s = Some ((UMF_RESULT_SUCCESS, a), s')" "bs = b1 @ b2"
    "coarse_ok s' us' (b1 @ (p, c) # b2)" "bdata c = a" "bsize c = sz" "bused c" "ugrows 4 (s\<lparr>cup := u\<rparr>) s'"
    "(map brange us', cup s') = grown up (a, sz) (map brange us) u" "\<not> clock (cp s')"
proof -
  obtain s0 where s0: "coarse_memory_provider_alloc (cpriv s) sz al s = alloc_from_upstream sz al s0" "s0 = set_cp (\<lambda>p. p\<lparr>clock := True\<rparr>) s"
    "coarse_ok s0 us bs" "debug_check s0 = Some ()" "unlock_coarse s0 = s" by (rule coarse_alloc_none [OF ok i pl none])
  define s1 where "s1 = s0\<lparr>cup := u\<rparr>"
  have ok1: "coarse_ok s1 us bs" using s0(3) by (simp add: s1_def coarse_ok_def rep_def counters_def)
  have f: "upstream_memory_provider (cp s0) = up" "cup s0 = cup s" "upstream_memory_provider (cp s1) = up" "cup s1 = u" "ready 4 s1"
    using up r by (simp_all add: s1_def s0(2) set_cp_def ready_def live_def)
  obtain s' us' b1 p c b2 where A: "coarse_add_upstream_block a sz s1 = Some (UMF_RESULT_SUCCESS, s')" "bs = b1 @ b2"
    "coarse_ok s' us' (b1 @ (p, c) # b2)" "bdata c = a" "bsize c = sz" "bused c" "ugrows 4 s1 s'"
    "upstream_memory_provider (cp s1) \<noteq> NULL \<longrightarrow>
       (map brange us', cup s') = grown (upstream_memory_provider (cp s1)) (a, sz) (map brange us) (cup s1)"
    by (rule add_upstream_ok [OF ok1 fresh(1,3,4,5) f(5)]) (use f up(4) in auto)
  have run: "coarse_memory_provider_alloc (cpriv s) sz al s = Some ((UMF_RESULT_SUCCESS, a), unlock_coarse s')"
    unfolding s0(1) alloc_from_upstream_def using f up fresh A(1) debug_check_ok [OF A(3)] by (simp add: s1_def)
  have "ugrows 4 (s\<lparr>cup := u\<rparr>) (unlock_coarse s')"
    using A(7) i by (auto simp: ugrows_def grows_def config_def live_def unlock_coarse_def set_cp_def s1_def s0(2) idle_def)
  then show thesis
    by (intro that [OF run A(2) _ A(4-6), of us' p]) (use A(8) f up(2) in \<open>simp_all add: unlock_ok A(3), simp_all add: unlock_coarse_def set_cp_def\<close>)
qed

end
