(* ===== verification/Coarse_System.thy ===== *)
theory Coarse_System
  imports Coarse_Service
begin

text \<open>
  The life of a coarse provider over a buffer: its creation establishes the invariant, and every sequence of
  requests is answered and keeps it.
\<close>

section \<open>Creation over a buffer\<close>

lemma new_tree: "mem \<noteq> NULL \<Longrightarrow> \<exists>r. ravl_new_sized mem coarse_ravl_comp 16 = Some r \<and> block_tree r [] \<and> rnodes r = Map.empty"
  by (auto simp: ravl_new_sized_def block_tree_def ravl_holds_def rst_def intro!: exI [of _ RE])

lemma empty_ok:
  assumes "block_tree (upstream_blocks (cp s)) []" "block_tree (all_blocks (cp s)) []" "block_tree (free_blocks (cp s)) []"
    "used_size (cp s) = 0" "alloc_size (cp s) = 0"
  shows "coarse_ok s [] []"
proof -
  have "free_ok (free_blocks (cp s)) (heap s) []" using assms(3) by (auto simp: free_ok_def)
  then have "free_holds (free_blocks (cp s)) (heap s) {}" unfolding free_holds_def by force
  moreover have "stored (upstream_blocks (cp s)) (blocks (heap s)) [] []" "stored (all_blocks (cp s)) (blocks (heap s)) [] []"
    using assms(1,2) by (simp_all add: stored_def)
  ultimately have "rep s [] [] (free_set []) []" unfolding rep_def by (auto simp: layout_def)
  then show ?thesis using assms(4,5) by (auto simp: coarse_ok_def counters_def)
qed

text \<open>Host memory before there is a provider.\<close>

definition hosts_ready :: "nat \<Rightarrow> coarse_heap \<Rightarrow> bool" where
  "hosts_ready n h \<longleftrightarrow> (\<forall>i < n. chosts h (ctick h + i) \<noteq> NULL \<and> chosts h (ctick h + i) \<notin> dom (blocks h) \<union> dom (fheads h) \<union> dom (elems h)) \<and>
     inj_on (\<lambda>i. chosts h (ctick h + i)) {..<n}"

lemma hosts_ready_live: "live s = dom (blocks (heap s)) \<union> dom (fheads (heap s)) \<union> dom (elems (heap s)) \<Longrightarrow> hosts_ready n (heap s) \<Longrightarrow> ready n s"
  by (simp add: ready_def hosts_ready_def)

lemma hosts_ready_tick:
  assumes "hosts_ready (n + m) h"
  shows "hosts_ready n (h\<lparr>ctick := ctick h + m\<rparr>)"
proof -
  have inj: "inj_on (\<lambda>i. chosts h (ctick h + i)) {..<n + m}" using assms by (simp add: hosts_ready_def)
  have "inj_on (\<lambda>i. chosts h (ctick h + m + i)) {..<n}"
  proof (rule inj_onI)
    fix i j assume "i \<in> {..<n}" "j \<in> {..<n}" "chosts h (ctick h + m + i) = chosts h (ctick h + m + j)"
    then show "i = j" using inj_onD [OF inj, of "m + i" "m + j"] by (simp add: add.assoc)
  qed
  moreover have "chosts h (ctick h + m + i) \<noteq> NULL \<and> chosts h (ctick h + m + i) \<notin> dom (blocks h) \<union> dom (fheads h) \<union> dom (elems h)" if "i < n" for i
  proof -
    have "m + i < n + m" using that by simp
    then show ?thesis using assms unfolding hosts_ready_def by (metis add.assoc)
  qed
  ultimately show ?thesis by (simp add: hosts_ready_def)
qed

definition fresh_cp :: "coarse_memory_provider_params_t \<Rightarrow> coarse_memory_provider_t" where
  "fresh_cp c = \<lparr>upstream_memory_provider = p_upstream_memory_provider c,
     destroy_upstream_memory_provider = p_destroy_upstream_memory_provider c,
     allocation_strategy = p_allocation_strategy c, init_buffer = p_init_buffer c, used_size = 0, alloc_size = 0,
     upstream_blocks = no_tree, all_blocks = no_tree, free_blocks = no_tree, clock = False, cname = None,
     disable_upstream_provider_free = False\<rparr>"

text \<open>What is left once the trees are there.\<close>

definition after_trees :: "coarse_memory_provider_params_t \<Rightarrow> (umf_result \<times> ptr, 'w coarse_state) eff" where
  "after_trees c s1 = do {
     (res, s) \<leftarrow> init_memory c s1;
     if res \<noteq> UMF_RESULT_SUCCESS
     then init_failed res [all_blocks (cp s), free_blocks (cp s), upstream_blocks (cp s)] s
     else do {
       guard (used_size (cp s) = 0);
       guard (alloc_size (cp s) = p_init_buffer_size c);
       debug_check s;
       Some ((UMF_RESULT_SUCCESS, cpriv s1), s)
     }
   }"

lemma initialize_start:
  assumes p: "params \<noteq> NULL" "cparams s = Some c" "coarse_params_ok c" "p_upstream_memory_provider c = NULL" "cmutex_ok s" and h: "hosts_ready (n + 4) (heap s)"
  obtains s1 where "coarse_memory_provider_initialize params s = after_trees c s1" "coarse_ok s1 [] []" "idle s1" "ready n s1" "upstream_memory_provider (cp s1) = NULL"
     "allocation_strategy (cp s1) = p_allocation_strategy c" "init_buffer (cp s1) = p_init_buffer c" "cup s1 = cup s"
proof -
  let ?h = "heap s"
  define m where "m i = chosts ?h (ctick ?h + i)" for i
  have mi: "m i \<noteq> NULL" if "i < 4" for i using h that by (simp add: hosts_ready_def m_def)
  have m: "m 0 \<noteq> NULL" "m 1 \<noteq> NULL" "m 2 \<noteq> NULL" "m 3 \<noteq> NULL" by (rule mi, simp)+
  obtain ut ft at where t: "ravl_new_sized (m 1) coarse_ravl_comp 16 = Some ut" "ravl_new_sized (m 2) coarse_ravl_comp 16 = Some ft"
    "ravl_new_sized (m 3) coarse_ravl_comp 16 = Some at" "block_tree ut []" "block_tree ft []" "block_tree at []"
    "rnodes ut = Map.empty" "rnodes ft = Map.empty" "rnodes at = Map.empty"
    using new_tree [OF m(2)] new_tree [OF m(3)] new_tree [OF m(4)] by blast
  define s1 where "s1 = s\<lparr>cpriv := chosts ?h (ctick ?h), heap := ?h\<lparr>ctick := Suc (Suc (Suc (Suc (ctick ?h))))\<rparr>,
    cp := (fresh_cp c)\<lparr>upstream_blocks := ut, free_blocks := ft, all_blocks := at\<rparr>\<rparr>"
  have m': "m 0 = chosts ?h (ctick ?h)" "m 1 = chosts ?h (Suc (ctick ?h))" "m 2 = chosts ?h (Suc (Suc (ctick ?h)))"
    "m 3 = chosts ?h (Suc (Suc (Suc (ctick ?h))))" by (simp_all add: m_def eval_nat_numeral)
  have c: "coarse_ok s1 [] []" by (rule empty_ok) (use t in \<open>simp_all add: s1_def fresh_cp_def\<close>)
  have "live s1 = dom (blocks (heap s1)) \<union> dom (fheads (heap s1)) \<union> dom (elems (heap s1))" using t by (simp add: live_def s1_def)
  then have r: "ready n s1" by (rule hosts_ready_live) (use hosts_ready_tick [OF h] in \<open>simp add: s1_def numeral_eq_Suc\<close>)
  show thesis
  proof (rule that [OF _ c _ r])
    show "coarse_memory_provider_initialize params s = after_trees c s1"
      using p m t(1-3) unfolding m' after_trees_def coarse_memory_provider_initialize_def coarse_memory_provider_set_name_def host_alloc_def halloc_def coarse_new_ravl_def
      by (simp add: set_cp_def Let_def s1_def fresh_cp_def cong: if_cong)
  qed (use p m in \<open>simp_all add: s1_def idle_def fresh_cp_def m_def\<close>)
qed

lemma coarse_initialize_ok:
  assumes p: "params \<noteq> NULL" "cparams s = Some c" "coarse_params_ok c" "p_upstream_memory_provider c = NULL" "cmutex_ok s"
    and b: "unat (p_init_buffer c) + unat (p_init_buffer_size c) < 2 ^ 64" and h: "hosts_ready (n + 11) (heap s)"
  obtains s' us bs y where "coarse_memory_provider_initialize params s = Some ((UMF_RESULT_SUCCESS, cpriv s'), s')" "coarse_ok s' us bs" "idle s'" "ready n s'"
    "used_blocks bs = []" "y \<in> set bs" "\<not> bused (snd y)" "lo (snd y) \<le> unat (p_init_buffer c)"
    "unat (p_init_buffer c) + unat (p_init_buffer_size c) \<le> hi (snd y)" "unat (alloc_size (cp s')) = unat (p_init_buffer_size c)" "upstream_memory_provider (cp s') = NULL"
    "allocation_strategy (cp s') = p_allocation_strategy c"
proof -
  have h4: "hosts_ready ((n + 7) + 4) (heap s)" using h by (simp add: ac_simps)
  obtain s1 where I: "coarse_memory_provider_initialize params s = after_trees c s1" "coarse_ok s1 [] []" "idle s1" "ready (n + 7) s1"
    "upstream_memory_provider (cp s1) = NULL" "allocation_strategy (cp s1) = p_allocation_strategy c" "init_buffer (cp s1) = p_init_buffer c"
    by (rule initialize_start [OF p h4])
  have nz: "p_init_buffer c \<noteq> 0" "p_init_buffer_size c \<noteq> 0" using p(3,4) by (auto simp: coarse_params_ok_def)
  obtain s2 us b1 q d b2 where A: "coarse_add_upstream_block (p_init_buffer c) (p_init_buffer_size c) s1 = Some (UMF_RESULT_SUCCESS, s2)" "[] = b1 @ b2"
    "coarse_ok s2 us (b1 @ (q, d) # b2)" "bdata d = p_init_buffer c" "bsize d = p_init_buffer_size c" "bused d" "ugrows 4 s1 s2"
    by (rule add_upstream_ok [OF I(2) nz b]) (use I(5) ready_mono [OF I(4), of 4] in auto)
  have r2: "ready (n + 3) s2" using ready_ugrows [of "n + 3" 4 s1 s2] I(4) A(7) by (simp add: ac_simps)
  have c2: "cpriv s2 = cpriv s1" "\<not> clock (cp s2)" "cpriv s2 \<noteq> NULL" "upstream_memory_provider (cp s2) = NULL" "init_buffer (cp s2) = p_init_buffer c"
    "allocation_strategy (cp s2) = p_allocation_strategy c"
    using A(7) I(3,5,6,7) by (simp_all add: ugrows_def grows_def config_def idle_def)
  obtain s3 bs y where F: "coarse_memory_provider_free (cpriv s2) (bdata d) (p_init_buffer_size c) s2 = Some (UMF_RESULT_SUCCESS, s3)"
    "coarse_ok s3 us bs" "used_blocks bs = used_blocks (b1 @ b2)" "grows 3 s2 s3"
    "y \<in> set bs" "\<not> bused (snd y)" "lo (snd y) \<le> lo d" "hi d \<le> hi (snd y)"
    by (rule coarse_free_ok [OF A(3,6) c2(2,3), of "p_init_buffer_size c"]) (use A(5) ready_mono [OF r2, of 3] in auto)
  have c3: "cpriv s3 = cpriv s2" "idle s3" "upstream_memory_provider (cp s3) = NULL" "allocation_strategy (cp s3) = p_allocation_strategy c"
    using F(4) c2 by (simp_all add: grows_def config_def idle_def)
  have ub: "used_blocks bs = []" using F(3) A(2) by simp
  have al: "unat (alloc_size (cp s3)) = unat (p_init_buffer_size c)"
    using F(2) A(2,3,5) by (simp add: coarse_ok_def counters_def)
  then have al': "alloc_size (cp s3) = p_init_buffer_size c" by (simp add: word_unat_eq_iff)
  have "used_sum bs = 0" using ub by (simp add: used_sum_def used_blocks_def)
  then have u0: "used_size (cp s3) = 0" using F(2) by (auto simp: coarse_ok_def counters_def unat_eq_0)
  have "init_memory c s1 = Some (UMF_RESULT_SUCCESS, s3)"
    unfolding init_memory_def using p(4) nz I(7) A(1,4) F(1) c2(5) by simp
  then have run: "coarse_memory_provider_initialize params s = Some ((UMF_RESULT_SUCCESS, cpriv s3), s3)"
    unfolding I(1) after_trees_def using u0 al' debug_check_ok [OF F(2)] c2(1) c3(1) by simp
  have "ready n s3" using ready_after [of n 3 s2 s3] r2 F(4) by simp
  then show thesis by (intro that [OF run F(2) c3(2) _ ub F(5,6) _ _ al c3(3,4)]) (use F(7,8) A(4,5) in \<open>simp_all add: lo_def hi_def\<close>)
qed

section \<open>Sequences of requests\<close>

text \<open>A service answers requests one after the other. When every allowed request is answered in a state with
  room for one more, every sequence of allowed requests is answered in a state with enough room.\<close>

fun serve_all :: "('q \<Rightarrow> ('r, 's) eff) \<Rightarrow> 'q list \<Rightarrow> ('r list, 's) eff" where
  "serve_all serve [] s = Some ([], s)"
| "serve_all serve (q # qs) s = do { (r, s) \<leftarrow> serve q s; (rs, s) \<leftarrow> serve_all serve qs s; Some (r # rs, s) }"

locale service =
  fixes serve :: "'q \<Rightarrow> ('r, 's) eff" and good :: "nat \<Rightarrow> 's \<Rightarrow> bool" and allowed :: "'q \<Rightarrow> bool"
  assumes answers_one: "good (Suc n) s \<Longrightarrow> allowed q \<Longrightarrow> \<exists>res s'. serve q s = Some (res, s') \<and> good n s'"
begin

lemma answers_all:
  "good (length qs + n) s \<Longrightarrow> list_all allowed qs \<Longrightarrow> \<exists>rs s'. serve_all serve qs s = Some (rs, s') \<and> length rs = length qs \<and> good n s'"
proof (induction qs arbitrary: s)
  case (Cons q qs)
  then obtain r s1 where s1: "serve q s = Some (r, s1)" "good (length qs + n) s1" using answers_one [of "length qs + n" s q] by auto
  obtain rs s' where "serve_all serve qs s1 = Some (rs, s')" "length rs = length qs" "good n s'" using Cons.IH [OF s1(2)] Cons.prems(2) by auto
  then show ?case using s1(1) by simp
qed simp

end


datatype coarse_request =
  Req_alloc u64 u64
| Req_free u64 u64
| Req_split u64 u64 u64
| Req_merge u64 u64 u64

fun coarse_serve :: "coarse_request \<Rightarrow> (umf_result \<times> u64, 'w coarse_state) eff" where
  "coarse_serve (Req_alloc sz al) s = coarse_memory_provider_alloc (cpriv s) sz al s"
| "coarse_serve (Req_free a bytes) s = map_option (\<lambda>(r, s). ((r, 0), s)) (coarse_memory_provider_free (cpriv s) a bytes s)"
| "coarse_serve (Req_split a t f) s = map_option (\<lambda>(r, s). ((r, 0), s)) (coarse_memory_provider_allocation_split (cpriv s) a t f s)"
| "coarse_serve (Req_merge a b t) s = map_option (\<lambda>(r, s). ((r, 0), s)) (coarse_memory_provider_allocation_merge (cpriv s) a b t s)"

text \<open>The requests that the interface allows: a size that is not zero and does not wrap around with the alignment.\<close>

fun request_ok :: "coarse_request \<Rightarrow> bool" where
  "request_ok (Req_alloc sz al) \<longleftrightarrow> sz \<noteq> 0 \<and> unat sz + unat al < 2 ^ 64"
| "request_ok _ \<longleftrightarrow> True"

lemma serve_ok:
  assumes ok: "coarse_ok s us bs" and i: "idle s" and st: "allocation_strategy (cp s) = UMF_COARSE_MEMORY_STRATEGY_FASTEST"
    and up: "upstream_memory_provider (cp s) = NULL" and q: "request_ok q" and r: "ready 10 s"
  obtains res s' bs' where "coarse_serve q s = Some (res, s')" "coarse_ok s' us bs'" "grows 10 s s'"
proof (cases q)
  case (Req_alloc sz al)
  have pl: "plain_search (allocation_strategy (cp s)) al" using st by (simp add: plain_search_def)
  show thesis
  proof (cases "\<forall>x \<in> set bs. \<not> bused (snd x) \<longrightarrow> bsize (snd x) < sz + al")
    case True
    then show thesis using coarse_alloc_exhausted [OF ok i pl True up] that ok Req_alloc by auto
  next
    case False
    then obtain y where y: "y \<in> set bs" "\<not> bused (snd y)" "sz + al \<le> bsize (snd y)" by (auto simp: not_less)
    have l: "\<not> clock (cp s)" "cpriv s \<noteq> NULL" using i by (auto simp: idle_def)
    obtain s' b1' qq cu b2' where "coarse_memory_provider_alloc (cpriv s) sz al s = Some ((UMF_RESULT_SUCCESS, bdata cu), s')"
      "coarse_ok s' us (b1' @ (qq, cu) # b2')" "grows 10 s s'"
      by (rule coarse_alloc_ok [OF ok l pl _ _ y r]) (use q Req_alloc in auto)
    then show thesis using that Req_alloc by auto
  qed
next
  case (Req_free a bytes)
  obtain res s' bs' where "coarse_memory_provider_free (cpriv s) a bytes s = Some (res, s')" "coarse_ok s' us bs'" "grows 3 s s'"
    by (rule coarse_free_any [OF ok i ready_mono [OF r]]) auto
  then show thesis using that [of "(res, 0)" s' bs'] Req_free grows_mono [of 3 s s' 10] by simp
next
  case (Req_split a t f)
  obtain res s' bs' where "coarse_memory_provider_allocation_split (cpriv s) a t f s = Some (res, s')" "coarse_ok s' us bs'" "grows 2 s s'"
    by (rule coarse_split_any [OF ok i ready_mono [OF r]]) auto
  then show thesis using that [of "(res, 0)" s' bs'] Req_split grows_mono [of 2 s s' 10] by simp
next
  case (Req_merge a b t)
  obtain res s' bs' where "coarse_memory_provider_allocation_merge (cpriv s) a b t s = Some (res, s')" "coarse_ok s' us bs'" "grows 0 s s'"
    by (rule coarse_merge_any [OF ok i])
  then show thesis using that [of "(res, 0)" s' bs'] Req_merge grows_mono [of 0 s s' 10] by simp
qed

text \<open>What holds of the provider as long as there is host memory for \<open>n\<close> more requests.\<close>

definition in_service :: "nat \<Rightarrow> 'w coarse_state \<Rightarrow> bool" where
  "in_service n s \<longleftrightarrow> (\<exists>us bs. coarse_ok s us bs) \<and> idle s \<and> allocation_strategy (cp s) = UMF_COARSE_MEMORY_STRATEGY_FASTEST \<and>
     upstream_memory_provider (cp s) = NULL \<and> ready (10 * n) s"

interpretation coarse: service coarse_serve in_service request_ok
proof
  fix n q and s :: "'a coarse_state"
  assume g: "in_service (Suc n) s" and q: "request_ok q"
  then obtain us bs where ok: "coarse_ok s us bs" and i: "idle s" and c: "allocation_strategy (cp s) = UMF_COARSE_MEMORY_STRATEGY_FASTEST"
    "upstream_memory_provider (cp s) = NULL" and r: "ready (10 * n + 10) s" by (auto simp: in_service_def ac_simps)
  obtain res s' bs' where s': "coarse_serve q s = Some (res, s')" "coarse_ok s' us bs'" "grows 10 s s'"
    by (rule serve_ok [OF ok i c q ready_mono [OF r]]) auto
  have "in_service n s'"
    unfolding in_service_def using s'(2,3) idle_grows [OF i s'(3)] ready_after [OF r s'(3)] c by (auto simp: grows_def config_def)
  with s'(1) show "\<exists>res s'. coarse_serve q s = Some (res, s') \<and> in_service n s'" by blast
qed

end
