(* ===== verification/Coarse_Finish.thy ===== *)
theory Coarse_Finish
  imports Coarse_System
begin

text \<open>
  Destruction of a coarse provider over a buffer: every block leaves the lists of free blocks and is freed,
  the counters go down to zero, and the checks of the function hold.
\<close>

section \<open>The blocks\<close>

text \<open>The blocks that are still to be freed.\<close>

definition shutting :: "'w coarse_state \<Rightarrow> cblock list \<Rightarrow> bool" where
  "shutting s bs \<longleftrightarrow> (\<forall>x \<in> set bs. fst x \<noteq> NULL \<and> blocks (heap s) (fst x) = Some (snd x)) \<and> distinct (map fst bs) \<and>
     (\<forall>x \<in> set bs. bused (snd x) \<longrightarrow> free_list_ptr (snd x) = NULL) \<and>
     free_holds (free_blocks (cp s)) (heap s) (free_set bs) \<and> unat (used_size (cp s)) = used_sum bs"

text \<open>What the loop over the blocks leaves alone.\<close>

definition aside :: "'w coarse_state \<Rightarrow> _" where
  "aside s = (upstream_blocks (cp s), all_blocks (cp s), alloc_size (cp s), config s)"

lemma rm_all_step:
  assumes sh: "shutting s (x # bs)"
  obtains s' where "coarse_ravl_cb_rm_all_blocks_node (PInline (block_data x)) (Some s) = Some s'" "shutting s' bs" "aside s' = aside s"
    "blocks (heap s') = (blocks (heap s))(fst x := None)"
proof -
  obtain p c where x: "x = (p, c)" by (cases x)
  note S = sh [unfolded shutting_def x, simplified]
  have b: "blocks (heap s) p = Some c" "p \<noteq> NULL" and off: "p \<notin> fst ` set bs" using S by auto
  have other: "\<forall>x \<in> set bs. fst x \<noteq> NULL \<and> blocks (heap s) (fst x) = Some (snd x)" "fst x \<noteq> p" if "x \<in> set bs" for x
    using S that off by auto
  show thesis
  proof (cases "bused c")
    case True
    then have nl: "free_list_ptr c = NULL" using S by blast
    have us: "unat (used_size (cp s)) = unat (bsize c) + used_sum bs" using S True by simp
    then have le: "bsize c \<le> used_size (cp s)" by (simp add: word_le_nat_alt)
    define s1 where "s1 = set_cp (\<lambda>q. q\<lparr>used_size := used_size q - bsize c\<rparr>) s"
    define s' where "s' = s1\<lparr>heap := (heap s1)\<lparr>blocks := (blocks (heap s1))(p := None)\<rparr>\<rparr>"
    have run: "coarse_ravl_cb_rm_all_blocks_node (PInline (block_data x)) (Some s) = Some s'"
      using b True nl le by (simp add: coarse_ravl_cb_rm_all_blocks_node_def x free_block_def s'_def s1_def set_cp_def)
    have "free_holds (free_blocks (cp s')) (heap s') (free_set bs)"
      using free_holds_frame [of "free_blocks (cp s)" "heap s" "free_set bs" "heap s'"] S True by (simp add: s'_def s1_def set_cp_def)
    moreover have "unat (used_size (cp s')) = used_sum bs" using us le by (simp add: s'_def s1_def set_cp_def unat_sub)
    ultimately have "shutting s' bs" using S off by (auto simp: shutting_def s'_def s1_def set_cp_def rev_image_eqI)
    then show thesis by (rule that [OF run]) (simp_all add: aside_def config_def s'_def s1_def set_cp_def x)
  next
    case False
    have F: "free_holds (free_blocks (cp s)) (heap s) (free_set (x # bs))" using sh by (simp add: shutting_def)
    have t: "(bsize c, free_list_ptr c, p) \<in> free_set (x # bs)" using False by (simp add: x)
    obtain r' h' where R: "free_blocks_rm_node (free_blocks (cp s)) (free_list_ptr c) (heap s) = Some (p, r', h')"
      "free_removed (free_blocks (cp s)) (heap s) (free_set (x # bs)) (bsize c, free_list_ptr c, p) r' h'" "free_list_ptr c \<noteq> NULL"
      by (rule free_rm_node_ok [OF F t b(1) refl])
    note D = R(2) [unfolded free_removed_def]
    have bh: "blocks h' = (blocks (heap s))(p \<mapsto> c\<lparr>free_list_ptr := NULL\<rparr>)" using D b by simp
    define s' where "s' = set_cp (\<lambda>q. q\<lparr>free_blocks := r'\<rparr>) (s\<lparr>heap := h'\<lparr>blocks := (blocks h')(p := None)\<rparr>\<rparr>)"
    have run: "coarse_ravl_cb_rm_all_blocks_node (PInline (block_data x)) (Some s) = Some s'"
      using b False R(1,3) bh by (simp add: coarse_ravl_cb_rm_all_blocks_node_def x free_block_def rm_free_def s'_def set_cp_def)
    have "(bsize c, free_list_ptr c, p) \<notin> free_set bs" using free_set_ptr [of x bs] off by (simp add: x ftriple_def)
    then have "free_set (x # bs) - {(bsize c, free_list_ptr c, p)} = free_set bs" using False by (auto simp: x)
    then have "free_holds (free_blocks (cp s')) (heap s') (free_set bs)"
      using D free_holds_frame [of r' h' "free_set bs" "heap s'"] by (simp add: s'_def set_cp_def)
    moreover have bs': "blocks (heap s') = (blocks (heap s))(p := None)" using bh by (simp add: s'_def set_cp_def)
    ultimately have "shutting s' bs" using S off False by (auto simp: shutting_def s'_def set_cp_def rev_image_eqI)
    then show thesis by (rule that [OF run]) (use bs' in \<open>simp_all add: aside_def config_def s'_def set_cp_def x\<close>)
  qed
qed

lemma rm_all_blocks:
  assumes "shutting s bs" "map snd xs = map block_data bs"
  shows "\<exists>s'. fold (\<lambda>x. coarse_ravl_cb_rm_all_blocks_node (PInline (snd x))) xs (Some s) = Some s' \<and> shutting s' [] \<and> aside s' = aside s \<and>
    blocks (heap s') = blocks (heap s) |` (- fst ` set bs)"
  using assms
proof (induction bs arbitrary: s xs)
  case Nil
  then show ?case by (simp add: restrict_map_def)
next
  case (Cons x bs)
  from Cons.prems(2) obtain y ys where y: "xs = y # ys" "snd y = block_data x" "map snd ys = map block_data bs" by (cases xs) auto
  obtain s1 where s1: "coarse_ravl_cb_rm_all_blocks_node (PInline (block_data x)) (Some s) = Some s1" "shutting s1 bs" "aside s1 = aside s"
    "blocks (heap s1) = (blocks (heap s))(fst x := None)" by (rule rm_all_step [OF Cons.prems(1)])
  obtain s' where s': "fold (\<lambda>x. coarse_ravl_cb_rm_all_blocks_node (PInline (snd x))) ys (Some s1) = Some s'" "shutting s' []" "aside s' = aside s1"
    "blocks (heap s') = blocks (heap s1) |` (- fst ` set bs)" using Cons.IH [OF s1(2) y(3)] by blast
  have "blocks (heap s') = blocks (heap s) |` (- fst ` set (x # bs))" unfolding s'(4) s1(4) by (auto simp: restrict_map_def fun_eq_iff)
  then show ?case using s1 s' y by auto
qed

section \<open>The blocks from upstream\<close>

lemma rm_upstream_step:
  assumes b: "blocks (heap s) (fst x) = Some (snd x)" "fst x \<noteq> NULL" and up: "upstream_memory_provider (cp s) = NULL" and le: "bsize (snd x) \<le> alloc_size (cp s)"
  shows "coarse_ravl_cb_rm_upstream_blocks_node (PInline (block_data x)) (Some s) =
    Some (s\<lparr>cp := (cp s)\<lparr>alloc_size := alloc_size (cp s) - bsize (snd x)\<rparr>, heap := (heap s)\<lparr>blocks := (blocks (heap s))(fst x := None)\<rparr>\<rparr>)"
  using assms by (simp add: coarse_ravl_cb_rm_upstream_blocks_node_def free_block_def set_cp_def)

lemma rm_upstream_blocks:
  assumes "\<forall>x \<in> set us. fst x \<noteq> NULL \<and> blocks (heap s) (fst x) = Some (snd x)" "distinct (map fst us)" "upstream_memory_provider (cp s) = NULL"
    "unat (alloc_size (cp s)) = blk_sum us" "map snd xs = map block_data us"
  shows "\<exists>s'. fold (\<lambda>x. coarse_ravl_cb_rm_upstream_blocks_node (PInline (snd x))) xs (Some s) = Some s' \<and> alloc_size (cp s') = 0 \<and>
    upstream_blocks (cp s') = upstream_blocks (cp s) \<and> all_blocks (cp s') = all_blocks (cp s) \<and> free_blocks (cp s') = free_blocks (cp s) \<and>
    config s' = config s \<and> used_size (cp s') = used_size (cp s) \<and> blocks (heap s') = blocks (heap s) |` (- fst ` set us)"
  using assms
proof (induction us arbitrary: s xs)
  case Nil
  then show ?case by (simp add: restrict_map_def unat_eq_0)
next
  case (Cons x us)
  from Cons.prems(5) obtain y ys where y: "xs = y # ys" "snd y = block_data x" "map snd ys = map block_data us" by (cases xs) auto
  have le: "bsize (snd x) \<le> alloc_size (cp s)" using Cons.prems(4) by (simp add: word_le_nat_alt)
  define s1 where "s1 = s\<lparr>cp := (cp s)\<lparr>alloc_size := alloc_size (cp s) - bsize (snd x)\<rparr>, heap := (heap s)\<lparr>blocks := (blocks (heap s))(fst x := None)\<rparr>\<rparr>"
  have run: "coarse_ravl_cb_rm_upstream_blocks_node (PInline (block_data x)) (Some s) = Some s1"
    unfolding s1_def by (rule rm_upstream_step) (use Cons.prems le in auto)
  have "unat (alloc_size (cp s1)) = blk_sum us" using Cons.prems(4) le by (simp add: s1_def unat_sub)
  moreover have "\<forall>x \<in> set us. fst x \<noteq> NULL \<and> blocks (heap s1) (fst x) = Some (snd x)"
    using Cons.prems(1,2) by (auto simp: s1_def rev_image_eqI)
  moreover have up1: "upstream_memory_provider (cp s1) = NULL" and dis: "distinct (map fst us)" using Cons.prems(2,3) by (simp_all add: s1_def)
  ultimately obtain s' where s': "fold (\<lambda>x. coarse_ravl_cb_rm_upstream_blocks_node (PInline (snd x))) ys (Some s1) = Some s'" "alloc_size (cp s') = 0"
    "upstream_blocks (cp s') = upstream_blocks (cp s1) \<and> all_blocks (cp s') = all_blocks (cp s1) \<and> free_blocks (cp s') = free_blocks (cp s1) \<and>
      config s' = config s1 \<and> used_size (cp s') = used_size (cp s1)" "blocks (heap s') = blocks (heap s1) |` (- fst ` set us)"
    using Cons.IH [OF _ dis up1 _ y(3)] by blast
  have "blocks (heap s') = blocks (heap s) |` (- fst ` set (x # us))" unfolding s'(4) by (auto simp: s1_def restrict_map_def fun_eq_iff)
  moreover have "config s1 = config s" by (simp add: s1_def config_def)
  ultimately show ?case using s'(1-3) run y by (auto simp: s1_def)
qed

section \<open>The function\<close>

lemma delete_tree: "block_tree r xs \<Longrightarrow> \<exists>r'. ravl_delete r = Some r'"
proof -
  assume "block_tree r xs"
  then obtain r' where "ravl_clear r = Some r'" using ravl_foreach_holds [of r False xs "\<lambda>_ u. u" "()"] by (auto simp: block_tree_def)
  then show ?thesis by (auto simp: ravl_clear_def ravl_delete_def ravl_delete_cb_def split: Option.bind_splits)
qed

lemma coarse_finalize_ok:
  assumes ok: "coarse_ok s us bs" and i: "idle s" and up: "upstream_memory_provider (cp s) = NULL"
  obtains s' where "coarse_memory_provider_finalize (cpriv s) s = Some ((), s')" "used_size (cp s') = 0" "alloc_size (cp s') = 0"
    "blocks (heap s') = blocks (heap s) |` (- fst ` (set us \<union> set bs))"
proof -
  from ok obtain xs uxs where st: "stored (all_blocks (cp s)) (blocks (heap s)) bs xs" and us: "stored (upstream_blocks (cp s)) (blocks (heap s)) us uxs"
    and lay: "layout us bs" and F: "free_holds (free_blocks (cp s)) (heap s) (free_set bs)" by (auto simp: coarse_ok_def rep_def)
  have t: "block_tree (all_blocks (cp s)) xs" "block_tree (upstream_blocks (cp s)) uxs" "map snd xs = map block_data bs" "map snd uxs = map block_data us"
    using st us by (auto simp: stored_def)
  have "shutting s bs" unfolding shutting_def using st lay F ok by (auto simp: stored_def layout_def coarse_ok_def counters_def)
  from rm_all_blocks [OF this t(3)] obtain s1 where s1: "fold (\<lambda>x. coarse_ravl_cb_rm_all_blocks_node (PInline (snd x))) xs (Some s) = Some s1"
    "shutting s1 []" "aside s1 = aside s" "blocks (heap s1) = blocks (heap s) |` (- fst ` set bs)" by blast
  have c1: "upstream_blocks (cp s1) = upstream_blocks (cp s)" "all_blocks (cp s1) = all_blocks (cp s)" "upstream_memory_provider (cp s1) = NULL"
    "alloc_size (cp s1) = alloc_size (cp s)" "used_size (cp s1) = 0"
    using s1(2,3) up by (auto simp: aside_def config_def shutting_def unat_eq_0)
  have "fst ` set us \<inter> fst ` set bs = {}" using lay by (auto simp: layout_def)
  then have "\<forall>x \<in> set us. fst x \<noteq> NULL \<and> blocks (heap s1) (fst x) = Some (snd x)" using us s1(4) by (auto simp: stored_def restrict_map_def)
  moreover have "distinct (map fst us)" "unat (alloc_size (cp s1)) = blk_sum us" using lay ok c1(4) by (auto simp: layout_def coarse_ok_def counters_def)
  ultimately obtain s2 where s2: "fold (\<lambda>x. coarse_ravl_cb_rm_upstream_blocks_node (PInline (snd x))) uxs (Some s1) = Some s2" "alloc_size (cp s2) = 0"
    "upstream_blocks (cp s2) = upstream_blocks (cp s1)" "all_blocks (cp s2) = all_blocks (cp s1)" "free_blocks (cp s2) = free_blocks (cp s1)"
    "config s2 = config s1" "used_size (cp s2) = used_size (cp s1)" "blocks (heap s2) = blocks (heap s1) |` (- fst ` set us)"
    using rm_upstream_blocks [OF _ _ c1(3) _ t(4)] by blast
  have F2: "free_holds (free_blocks (cp s1)) (heap s1) {}" using s1(2) by (simp add: shutting_def)
  then obtain fs where ft: "block_tree (free_blocks (cp s1)) fs" by (auto simp: free_holds_def free_ok_def)
  have del: "delete_trees [upstream_blocks (cp s2), all_blocks (cp s2), free_blocks (cp s2)] = Some ()"
    using delete_tree [OF t(1)] delete_tree [OF t(2)] delete_tree [OF ft] s2(3-5) c1(1,2) by (auto simp: delete_trees_def)
  have "upstream_memory_provider (cp s2) = NULL" using s2(6) c1(3) by (simp add: config_def)
  then have run: "coarse_memory_provider_finalize (cpriv s) s = Some ((), s2\<lparr>cpriv := NULL\<rparr>)"
    unfolding coarse_memory_provider_finalize_def
    using i foreach_block_tree [OF t(1), of coarse_ravl_cb_rm_all_blocks_node "Some s"] s1(1) c1(5)
      foreach_block_tree [OF t(2), of coarse_ravl_cb_rm_upstream_blocks_node "Some s1"] c1(1) s2(1,2) del by (simp add: idle_def)
  have "blocks (heap s2) = blocks (heap s) |` (- fst ` (set us \<union> set bs))" unfolding s2(8) s1(4) by (auto simp: restrict_map_def fun_eq_iff)
  then show thesis by (intro that [OF run]) (use s2 c1 in simp_all)
qed

end
