(* ===== verification/Coarse_Properties.thy ===== *)
theory Coarse_Properties
  imports Coarse_Finish
begin

text \<open>
  The properties of the coarse provider, with a provider over a buffer of 64 KiB and one over an upstream
  provider as examples.
\<close>

section \<open>Examples\<close>

definition example_params :: coarse_memory_provider_params_t where
  "example_params = \<lparr>p_upstream_memory_provider = NULL, p_allocation_strategy = UMF_COARSE_MEMORY_STRATEGY_FASTEST, p_init_buffer = 65536,
     p_init_buffer_size = 65536, p_immediate_init_from_upstream = False, p_destroy_upstream_memory_provider = False\<rparr>"

definition example_heap :: coarse_heap where
  "example_heap = \<lparr>blocks = Map.empty, fheads = Map.empty, elems = Map.empty, chosts = (\<lambda>i. 1000 + i), cjunk = (\<lambda>i. False), ctick = 0\<rparr>"

text \<open>An upstream provider that hands out one address and merges nothing.\<close>

definition example_upstream :: "unit prov_state" where
  "example_upstream = \<lparr>world = (), providers = [7 \<mapsto> \<lparr>ops = \<lparr>version = UMF_VERSION_CURRENT, initialize = None, finalize = None,
     op_alloc = Some (\<lambda>priv sz al w. Some ((UMF_RESULT_SUCCESS, 131072), w)), get_last_native_error = None, get_recommended_page_size = None,
     get_min_page_size = None, get_name = None, ext_free = DefaultOp, purge_lazy = DefaultOp, purge_force = DefaultOp,
     allocation_split = DefaultOp, allocation_merge = DefaultOp, get_ipc_handle_size = DefaultOp, get_ipc_handle = DefaultOp,
     put_ipc_handle = DefaultOp, open_ipc_handle = DefaultOp, close_ipc_handle = DefaultOp\<rparr>, provider_priv = 70\<rparr>], lastFailedProvider = NULL\<rparr>"

definition example_tree :: "ravl_data_t ravl" where
  "example_tree = the (ravl_new_sized 1 coarse_ravl_comp 16)"

definition coarse_over :: "'w prov_state \<Rightarrow> 'w coarse_state" where
  "coarse_over u = \<lparr>cp = (fresh_cp example_params)\<lparr>upstream_memory_provider := 7, upstream_blocks := example_tree, all_blocks := example_tree,
       free_blocks := example_tree\<rparr>, cpriv = 9, heap = example_heap, cup = u, cparams = Some example_params, cpage_size = 4096, cmutex_ok = True\<rparr>"

definition example_coarse :: "unit coarse_state" where
  "example_coarse = coarse_over example_upstream"

lemma example_hosts: "hosts_ready n example_heap"
  by (simp add: hosts_ready_def example_heap_def inj_on_def)

lemma example_tree_ok: "block_tree example_tree []" "rnodes example_tree = Map.empty"
  using new_tree [of 1] by (auto simp: example_tree_def)

lemma coarse_over_ok: "coarse_ok (coarse_over u) [] []" "idle (coarse_over u)" "ready n (coarse_over u)"
proof -
  show "coarse_ok (coarse_over u) [] []" by (rule empty_ok) (use example_tree_ok in \<open>simp_all add: coarse_over_def fresh_cp_def\<close>)
  show "idle (coarse_over u)" by (simp add: idle_def coarse_over_def fresh_cp_def)
  show "ready n (coarse_over u)"
    by (rule hosts_ready_live) (use example_tree_ok example_hosts in \<open>simp_all add: live_def coarse_over_def\<close>)
qed

lemmas example_coarse_ok = coarse_over_ok [where u = example_upstream, folded example_coarse_def]

lemma example_params_ok: "coarse_params_ok example_params" "unat (p_init_buffer example_params) + unat (p_init_buffer_size example_params) < 2 ^ 64"
  by (simp_all add: coarse_params_ok_def example_params_def)

text \<open>A provider over the buffer, with its memory free.\<close>

lemma example_free_memory:
  obtains s :: "unit coarse_state" and us bs y where "coarse_ok s us bs" "idle s" "ready 20 s" "plain_search (allocation_strategy (cp s)) 64"
    "y \<in> set bs" "\<not> bused (snd y)" "1000 + 64 \<le> bsize (snd y)"
proof -
  have h: "hosts_ready (20 + 11) (heap example_coarse)" using example_hosts by (simp add: example_coarse_def coarse_over_def)
  have e: "(1 :: ptr) \<noteq> NULL" "cparams example_coarse = Some example_params" "p_upstream_memory_provider example_params = NULL" "cmutex_ok example_coarse"
    by (simp_all add: example_coarse_def coarse_over_def example_params_def)
  obtain s' us bs y where s': "coarse_memory_provider_initialize 1 example_coarse = Some ((UMF_RESULT_SUCCESS, cpriv s'), s')" "coarse_ok s' us bs" "idle s'" "ready 20 s'"
    "used_blocks bs = []" "y \<in> set bs" "\<not> bused (snd y)" "lo (snd y) \<le> unat (p_init_buffer example_params)"
    "unat (p_init_buffer example_params) + unat (p_init_buffer_size example_params) \<le> hi (snd y)" "allocation_strategy (cp s') = p_allocation_strategy example_params"
    by (rule coarse_initialize_ok [OF e(1,2) example_params_ok(1) e(3,4) example_params_ok(2) h])
  have "1000 + 64 \<le> unat (bsize (snd y))" using s'(8,9) by (simp add: lo_def hi_def example_params_def)
  then have "1000 + 64 \<le> bsize (snd y)" by (simp add: word_le_nat_alt)
  then show thesis using that [OF s'(2-4) _ s'(6,7)] s'(10) by (simp add: plain_search_def example_params_def)
qed

section \<open>Properties\<close>

text \<open>C36: A coarse provider over a buffer, with the fastest strategy, is created, answers every sequence of requests for
  allocation, release, split and merge, whatever their arguments, with no assertion failed, keeps the invariant
  (blocks inside the buffer that do not overlap, free lists that hold exactly the free blocks, free neighbours
  merged, counters equal to the sums of the sizes, and with it the consistency check of the debug build), and is
  destroyed with both counters at zero and its blocks freed. Requested sizes are not zero and do not wrap around with the
  alignment; host memory does not run out.\<close>

theorem coarse_lifecycle_never_fails:
  assumes "params \<noteq> NULL" "cparams s = Some c" "coarse_params_ok c" "p_upstream_memory_provider c = NULL"
    "p_allocation_strategy c = UMF_COARSE_MEMORY_STRATEGY_FASTEST" "cmutex_ok s"
    "unat (p_init_buffer c) + unat (p_init_buffer_size c) < 2 ^ 64" "list_all request_ok qs" "hosts_ready (10 * length qs + 11) (heap s)"
  shows "\<exists>s1 rs s2 us bs s3. coarse_memory_provider_initialize params s = Some ((UMF_RESULT_SUCCESS, cpriv s1), s1) \<and>
    serve_all coarse_serve qs s1 = Some (rs, s2) \<and> length rs = length qs \<and> coarse_ok s2 us bs \<and> debug_check s2 = Some () \<and>
    coarse_memory_provider_finalize (cpriv s2) s2 = Some ((), s3) \<and> used_size (cp s3) = 0 \<and> alloc_size (cp s3) = 0 \<and>
    blocks (heap s3) = blocks (heap s2) |` (- fst ` (set us \<union> set bs))"
proof -
  obtain s1 us bs where I: "coarse_memory_provider_initialize params s = Some ((UMF_RESULT_SUCCESS, cpriv s1), s1)" "coarse_ok s1 us bs" "idle s1"
    "ready (10 * length qs) s1" "upstream_memory_provider (cp s1) = NULL" "allocation_strategy (cp s1) = p_allocation_strategy c"
    by (rule coarse_initialize_ok [OF assms(1-4,6,7,9)])
  have "in_service (length qs + 0) s1" using I assms(5) by (auto simp: in_service_def)
  then obtain rs s2 where S: "serve_all coarse_serve qs s1 = Some (rs, s2)" "length rs = length qs" "in_service 0 s2"
    using coarse.answers_all [OF _ assms(8)] by blast
  then obtain us2 bs2 where ok: "coarse_ok s2 us2 bs2" and i: "idle s2" "upstream_memory_provider (cp s2) = NULL" by (auto simp: in_service_def)
  obtain s3 where "coarse_memory_provider_finalize (cpriv s2) s2 = Some ((), s3)" "used_size (cp s3) = 0" "alloc_size (cp s3) = 0"
    "blocks (heap s3) = blocks (heap s2) |` (- fst ` (set us2 \<union> set bs2))" by (rule coarse_finalize_ok [OF ok i])
  then show ?thesis using I(1) S(1,2) ok debug_check_ok [OF ok] by blast
qed

theorem coarse_lifecycle_never_fails_witness:
  "\<exists>s1 rs s2 s3. coarse_memory_provider_initialize 1 example_coarse = Some ((UMF_RESULT_SUCCESS, cpriv s1), s1) \<and>
    serve_all coarse_serve [Req_alloc 1000 64, Req_free 3 0, Req_split 65536 1000 10, Req_merge 65536 65546 1000] s1 = Some (rs, s2) \<and>
    coarse_memory_provider_finalize (cpriv s2) s2 = Some ((), s3)"
  using coarse_lifecycle_never_fails [of 1 example_coarse example_params "[Req_alloc 1000 64, Req_free 3 0, Req_split 65536 1000 10, Req_merge 65536 65546 1000]"]
    example_params_ok example_hosts by (fastforce simp: example_coarse_def coarse_over_def example_params_def)

text \<open>C37: When a free block has room for the size and the alignment, an allocation succeeds: the result is an aligned
  address inside a block that was free, the new block has exactly the requested size, the blocks in use are the old
  ones, unchanged and in place, and the new one, and the invariant holds, so that the new block overlaps none of them.\<close>

theorem coarse_alloc_from_free_block:
  assumes "coarse_ok s us bs" "idle s" "plain_search (allocation_strategy (cp s)) al" "sz \<noteq> 0" "unat sz + unat al < 2 ^ 64"
    "y \<in> set bs" "\<not> bused (snd y)" "sz + al \<le> bsize (snd y)" "ready 10 s"
  shows "\<exists>a s' b1 x b2 b1' q cu b2'. coarse_memory_provider_alloc (cpriv s) sz al s = Some ((UMF_RESULT_SUCCESS, a), s') \<and> IS_ALIGNED a al \<and>
    bs = b1 @ x # b2 \<and> \<not> bused (snd x) \<and> lo (snd x) \<le> unat a \<and> unat a + unat sz \<le> hi (snd x) \<and>
    coarse_ok s' us (b1' @ (q, cu) # b2') \<and> bdata cu = a \<and> bsize cu = sz \<and> bused cu \<and>
    used_blocks b1' = used_blocks b1 \<and> used_blocks b2' = used_blocks b2"
proof -
  have i: "\<not> clock (cp s)" "cpriv s \<noteq> NULL" using assms(2) by (auto simp: idle_def)
  obtain s' b1 x b2 b1' q cu b2' where A: "coarse_memory_provider_alloc (cpriv s) sz al s = Some ((UMF_RESULT_SUCCESS, bdata cu), s')"
    "bs = b1 @ x # b2" "\<not> bused (snd x)" "lo (snd x) \<le> lo cu" "hi cu \<le> hi (snd x)" 
    "coarse_ok s' us (b1' @ (q, cu) # b2')" "used_blocks b1' = used_blocks b1" "used_blocks b2' = used_blocks b2" "bused cu" "bsize cu = sz"
    "IS_ALIGNED (bdata cu) al" by (rule coarse_alloc_ok [OF assms(1) i assms(3-9)])
  then show ?thesis by (intro exI [of _ "bdata cu"] exI [of _ s'] exI [of _ b1] exI [of _ x] exI [of _ b2] exI [of _ b1'] exI [of _ q] exI [of _ cu] exI [of _ b2'])
    (simp add: lo_def hi_def)
qed

theorem coarse_alloc_from_free_block_witness:
  "\<exists>(s :: unit coarse_state) a s'. coarse_memory_provider_alloc (cpriv s) 1000 64 s = Some ((UMF_RESULT_SUCCESS, a), s') \<and> IS_ALIGNED a 64"
proof -
  obtain s :: "unit coarse_state" and us bs y where s: "coarse_ok s us bs" "idle s" "ready 20 s" "plain_search (allocation_strategy (cp s)) 64"
    "y \<in> set bs" "\<not> bused (snd y)" "1000 + 64 \<le> bsize (snd y)" by (rule example_free_memory)
  show ?thesis using coarse_alloc_from_free_block [OF s(1,2,4) _ _ s(5,6,7) ready_mono [OF s(3)]] by auto
qed

text \<open>C38: Releasing an allocation, with its size or without, succeeds: exactly this block is no longer in use, its range lies
  in one free block, which has absorbed the free neighbours of the same origin, and the invariant holds. An address
  that no block starts at is refused as unknown, a block that is free or has another size as an invalid argument,
  and neither changes anything.\<close>

theorem coarse_free_returns_range:
  assumes "coarse_ok s us (b1 @ (p, c) # b2)" "idle s" "ready 3 s"
  shows "(bused c \<and> (bytes = 0 \<or> bytes = bsize c) \<longrightarrow>
      (\<exists>s' bs' y. coarse_memory_provider_free (cpriv s) (bdata c) bytes s = Some (UMF_RESULT_SUCCESS, s') \<and> coarse_ok s' us bs' \<and>
        used_blocks bs' = used_blocks (b1 @ b2) \<and> y \<in> set bs' \<and> \<not> bused (snd y) \<and> lo (snd y) \<le> lo c \<and> hi c \<le> hi (snd y))) \<and>
    (\<not> bused c \<or> bytes \<noteq> 0 \<and> bytes \<noteq> bsize c \<longrightarrow>
      coarse_memory_provider_free (cpriv s) (bdata c) bytes s = Some (UMF_RESULT_ERROR_INVALID_ARGUMENT, s)) \<and>
    (a \<notin> (\<lambda>x. bdata (snd x)) ` set (b1 @ (p, c) # b2) \<longrightarrow> coarse_memory_provider_free (cpriv s) a bytes s = Some (UMF_RESULT_ERROR_UNKNOWN, s))"
proof -
  have i: "\<not> clock (cp s)" "cpriv s \<noteq> NULL" using assms(2) by (auto simp: idle_def)
  have "\<exists>s' bs' y. coarse_memory_provider_free (cpriv s) (bdata c) bytes s = Some (UMF_RESULT_SUCCESS, s') \<and> coarse_ok s' us bs' \<and>
      used_blocks bs' = used_blocks (b1 @ b2) \<and> y \<in> set bs' \<and> \<not> bused (snd y) \<and> lo (snd y) \<le> lo c \<and> hi c \<le> hi (snd y)"
    if "bused c" "bytes = 0 \<or> bytes = bsize c"
    by (rule coarse_free_ok [OF assms(1) that(1) i that(2) assms(3)]) blast
  moreover have "coarse_memory_provider_free (cpriv s) (bdata c) bytes s = Some (UMF_RESULT_ERROR_INVALID_ARGUMENT, s)"
    if "\<not> bused c \<or> bytes \<noteq> 0 \<and> bytes \<noteq> bsize c"
    using coarse_free_refused(2) [OF assms(1) i, of "(p, c)" bytes] that by (simp add: word_gt_0)
  moreover have "coarse_memory_provider_free (cpriv s) a bytes s = Some (UMF_RESULT_ERROR_UNKNOWN, s)"
    if "a \<notin> (\<lambda>x. bdata (snd x)) ` set (b1 @ (p, c) # b2)"
    by (rule coarse_free_refused(1) [OF assms(1) i]) (use that in force)
  ultimately show ?thesis by blast
qed

theorem coarse_free_returns_range_witness:
  "\<exists>(s :: unit coarse_state) a s'. coarse_memory_provider_free (cpriv s) a 1000 s = Some (UMF_RESULT_SUCCESS, s')"
proof -
  obtain s :: "unit coarse_state" and us bs y where s: "coarse_ok s us bs" "idle s" "ready 20 s" "plain_search (allocation_strategy (cp s)) 64"
    "y \<in> set bs" "\<not> bused (snd y)" "1000 + 64 \<le> bsize (snd y)" by (rule example_free_memory)
  have i: "\<not> clock (cp s)" "cpriv s \<noteq> NULL" using s(2) by (auto simp: idle_def)
  obtain s' b1 q cu b2 where A: "coarse_ok s' us (b1 @ (q, cu) # b2)" "bused cu" "bsize cu = 1000" "grows 10 s s'"
    by (rule coarse_alloc_ok [OF s(1) i s(4) _ _ s(5-7) ready_mono [OF s(3)]]) auto
  have "ready 3 s'" using ready_after [of 3 10 s s'] ready_mono [OF s(3), of 13] A(4) by simp
  then have "\<exists>s''. coarse_memory_provider_free (cpriv s') (bdata cu) 1000 s' = Some (UMF_RESULT_SUCCESS, s'')"
    using coarse_free_returns_range [OF A(1) idle_grows [OF s(2) A(4)], of 1000 0] A(2,3) by auto
  then show ?thesis by blast
qed

text \<open>C39: When no free block is large enough, the memory comes from the upstream provider: the address it returns becomes a
  block in use of the requested size beside the unchanged blocks, the blocks from upstream are merged where
  the upstream provider agrees, and the invariant holds: the new range is joined with the one in front of it when
  that one ends where the new one begins and the upstream provider merges the two, then with the one behind it in
  the same way, and the other ranges stay as they are. The upstream provider returns an aligned range away from the
  ones it has given out before, and its merge function answers. Without an upstream provider the request fails
  with out of memory and changes nothing.\<close>

theorem coarse_alloc_grows_from_upstream:
  assumes "coarse_ok s us bs" "idle s" "plain_search (allocation_strategy (cp s)) al" "\<forall>x \<in> set bs. \<not> bused (snd x) \<longrightarrow> bsize (snd x) < sz + al" "ready 4 s"
  shows "(upstream_memory_provider (cp s) = NULL \<longrightarrow> coarse_memory_provider_alloc (cpriv s) sz al s = Some ((UMF_RESULT_ERROR_OUT_OF_HOST_MEMORY, 0), s)) \<and>
    (upstream_memory_provider (cp s) \<noteq> NULL \<and> umfMemoryProviderAlloc (upstream_memory_provider (cp s)) sz al (cup s) = Some ((res, a), u) \<and>
      can_merge u (upstream_memory_provider (cp s)) \<and> a \<noteq> 0 \<and> IS_ALIGNED a al \<and> sz \<noteq> 0 \<and> unat a + unat sz < 2 ^ 64 \<and>
      (\<forall>v \<in> set us. hi (snd v) \<le> unat a \<or> unat a + unat sz \<le> lo (snd v)) \<longrightarrow>
      (\<exists>s' us' b1 p c b2. coarse_memory_provider_alloc (cpriv s) sz al s = Some ((UMF_RESULT_SUCCESS, a), s') \<and> bs = b1 @ b2 \<and>
        coarse_ok s' us' (b1 @ (p, c) # b2) \<and> bdata c = a \<and> bsize c = sz \<and> bused c \<and>
        (map brange us', cup s') = grown (upstream_memory_provider (cp s)) (a, sz) (map brange us) u))"
proof -
  have "\<exists>s' us' b1 p c b2. coarse_memory_provider_alloc (cpriv s) sz al s = Some ((UMF_RESULT_SUCCESS, a), s') \<and> bs = b1 @ b2 \<and>
        coarse_ok s' us' (b1 @ (p, c) # b2) \<and> bdata c = a \<and> bsize c = sz \<and> bused c \<and>
        (map brange us', cup s') = grown (upstream_memory_provider (cp s)) (a, sz) (map brange us) u"
    if "upstream_memory_provider (cp s) \<noteq> NULL" "umfMemoryProviderAlloc (upstream_memory_provider (cp s)) sz al (cup s) = Some ((res, a), u)"
      "can_merge u (upstream_memory_provider (cp s))" "a \<noteq> 0" "IS_ALIGNED a al" "sz \<noteq> 0" "unat a + unat sz < 2 ^ 64"
      "\<forall>v \<in> set us. hi (snd v) \<le> unat a \<or> unat a + unat sz \<le> lo (snd v)"
    by (rule coarse_alloc_upstream [OF assms(1-4) refl that assms(5)]) blast
  then show ?thesis using coarse_alloc_exhausted [OF assms(1-4)] by blast
qed

text \<open>An upstream provider that hands out one range after the other and merges what it is asked to.\<close>

definition growing_upstream :: "u64 \<Rightarrow> u64 prov_state" where
  "growing_upstream n = \<lparr>world = n, providers = [7 \<mapsto> \<lparr>ops = \<lparr>version = UMF_VERSION_CURRENT, initialize = None, finalize = None,
     op_alloc = Some (\<lambda>priv sz al (w, l). Some ((UMF_RESULT_SUCCESS, w), w + sz, l)), get_last_native_error = None, get_recommended_page_size = None,
     get_min_page_size = None, get_name = None, ext_free = DefaultOp, purge_lazy = DefaultOp, purge_force = DefaultOp,
     allocation_split = DefaultOp, allocation_merge = Op (\<lambda>priv low high tot w. Some (UMF_RESULT_SUCCESS, w)), get_ipc_handle_size = DefaultOp,
     get_ipc_handle = DefaultOp, put_ipc_handle = DefaultOp, open_ipc_handle = DefaultOp, close_ipc_handle = DefaultOp\<rparr>, provider_priv = 70\<rparr>],
     lastFailedProvider = NULL\<rparr>"

lemma growing_upstream_runs:
  "umfMemoryProviderAlloc 7 sz al (growing_upstream n) = Some ((UMF_RESULT_SUCCESS, n), growing_upstream (n + sz))"
  "can_merge (growing_upstream n) 7"
  "umfMemoryProviderAllocationMerge 7 131072 135168 8192 (growing_upstream n) = Some (UMF_RESULT_SUCCESS, growing_upstream n)"
  by (simp_all add: umfMemoryProviderAlloc_def umfMemoryProviderAllocationMerge_def growing_upstream_def checkErrorAndSetLastProvider_def
      call_op_def can_merge_def)

theorem coarse_alloc_grows_from_upstream_witness:
  "\<exists>(s :: u64 coarse_state) s' us' bs'. coarse_memory_provider_alloc 9 4096 0 s = Some ((UMF_RESULT_SUCCESS, 135168), s') \<and>
     coarse_ok s' us' bs' \<and> map brange us' = [(131072, 8192)]"
proof -
  let ?s = "coarse_over (growing_upstream 131072)"
  have up: "upstream_memory_provider (cp ?s) = 7" "cup ?s = growing_upstream 131072" "cpriv ?s = 9" "plain_search (allocation_strategy (cp ?s)) 0"
    by (simp_all add: coarse_over_def fresh_cp_def plain_search_def example_params_def)
  have al: "IS_ALIGNED 131072 0" "IS_ALIGNED 135168 0" by (simp_all add: IS_ALIGNED_def)
  have run: "umfMemoryProviderAlloc 7 4096 0 (cup ?s) = Some ((UMF_RESULT_SUCCESS, 131072), growing_upstream 135168)"
    using growing_upstream_runs(1) [of 4096 0 131072] by (simp add: up(2))
  obtain s1 us1 b1 p c b2 where A: "[] = b1 @ b2" "coarse_ok s1 us1 (b1 @ (p, c) # b2)" "bused c"
    "ugrows 4 (?s\<lparr>cup := growing_upstream 135168\<rparr>) s1"
    "(map brange us1, cup s1) = grown 7 (131072, 4096) (map brange []) (growing_upstream 135168)" "\<not> clock (cp s1)"
    by (rule coarse_alloc_upstream [OF coarse_over_ok(1,2) up(4) _ up(1) _ run growing_upstream_runs(2) _ al(1) _ _ _ coarse_over_ok(3)]) auto
  have us1: "map brange us1 = [(131072, 4096)]" "cup s1 = growing_upstream 135168"
    using A(5) by (simp_all add: grown_def merge_below_def merge_above_def)
  have s1: "idle s1" "upstream_memory_provider (cp s1) = 7" "cpriv s1 = 9" "plain_search (allocation_strategy (cp s1)) 0"
    using A(4,6) up by (simp_all add: ugrows_def grows_def config_def idle_def)
  have "ready (4 + 4) (?s\<lparr>cup := growing_upstream 135168\<rparr>)" using coarse_over_ok(3) [of "4 + 4" "growing_upstream 131072"] by (simp add: ready_def live_def)
  then have r1: "ready 4 s1" by (rule ready_ugrows [OF _ A(4)])
  have bs1: "\<forall>x \<in> set (b1 @ (p, c) # b2). \<not> bused (snd x) \<longrightarrow> bsize (snd x) < 4096 + 0" using A(1,3) by simp
  obtain x where x: "us1 = [x]" "bdata (snd x) = 131072" "bsize (snd x) = 4096" using us1(1) by (cases us1) (auto simp: brange_def)
  have away: "\<forall>v \<in> set us1. hi (snd v) \<le> unat (135168 :: u64) \<or> unat (135168 :: u64) + unat (4096 :: u64) \<le> lo (snd v)"
    using x by (simp add: hi_def)
  have run2: "umfMemoryProviderAlloc 7 4096 0 (cup s1) = Some ((UMF_RESULT_SUCCESS, 135168), growing_upstream 139264)"
    using growing_upstream_runs(1) [of 4096 0 135168] by (simp add: us1(2))
  have "grown 7 (135168, 4096) (map brange us1) (growing_upstream 139264) = ([(131072, 8192)], growing_upstream 139264)"
    by (simp add: us1(1) grown_def merge_below_def merge_above_def try_merge_def growing_upstream_runs(3))
  then obtain s' us' bs' where "coarse_memory_provider_alloc 9 4096 0 s1 = Some ((UMF_RESULT_SUCCESS, 135168), s')"
    and "coarse_ok s' us' bs'" "map brange us' = [(131072, 8192)]"
    using coarse_alloc_grows_from_upstream [OF A(2) s1(1,4) bs1 r1, of UMF_RESULT_SUCCESS 135168 "growing_upstream 139264"]
      s1(2,3) run2 growing_upstream_runs(2) al(2) away by auto
  then show ?thesis by (intro exI conjI)
qed

text \<open>C40: An allocation that is split and then merged again is the one that was there before: both requests succeed, after the
  split there are two adjacent allocations of the two sizes, and after the merge the sequences of blocks are the
  same as at the beginning.\<close>

theorem coarse_split_merge_roundtrip:
  assumes "coarse_ok s us (b1 @ (p, c) # b2)" "idle s" "bused c" "first \<noteq> 0" "first < bsize c" "ready 2 s"
  shows "\<exists>s1 p2 c2 s2. coarse_memory_provider_allocation_split (cpriv s) (bdata c) (bsize c) first s = Some (UMF_RESULT_SUCCESS, s1) \<and>
    coarse_ok s1 us (b1 @ (p, c\<lparr>bsize := first\<rparr>) # (p2, c2) # b2) \<and> bused c2 \<and> bdata c2 = bdata c + first \<and> bsize c2 = bsize c - first \<and>
    coarse_memory_provider_allocation_merge (cpriv s1) (bdata c) (bdata c + first) (bsize c) s1 = Some (UMF_RESULT_SUCCESS, s2) \<and>
    coarse_ok s2 us (b1 @ (p, c) # b2)"
proof -
  have i: "\<not> clock (cp s)" "cpriv s \<noteq> NULL" using assms(2) by (auto simp: idle_def)
  obtain s1 p2 c2 where S: "coarse_memory_provider_allocation_split (cpriv s) (bdata c) (bsize c) first s = Some (UMF_RESULT_SUCCESS, s1)"
    "coarse_ok s1 us (b1 @ (p, c\<lparr>bsize := first\<rparr>) # (p2, c2) # b2)" "bdata c2 = bdata c + first" "bsize c2 = bsize c - first"
    "bused c2" "grows 2 s s1" by (rule coarse_split_ok [OF assms(1,3) i assms(4-6)])
  define c1 where "c1 = c\<lparr>bsize := first\<rparr>"
  from assms(1) obtain xs where lay: "layout us (b1 @ (p, c) # b2)" and nl: "free_list_ptr c = NULL" using assms(3) by (auto simp: coarse_ok_def rep_def)
  from S(2) have lay1: "layout us (b1 @ (p, c1) # (p2, c2) # b2)" by (auto simp: coarse_ok_def rep_def c1_def)
  have new: "p2 \<noteq> NULL" "p2 \<notin> insert p (fst ` (set us \<union> set b1 \<union> set b2))" using lay1 by (auto simp: layout_def)
  note L = cut_layout [OF lay assms(4,5) new, of c1 c2]
  have adj: "hi c1 = lo c2" "hi c2 = hi c" "lo c1 = lo c" "lo c < lo c2" using L S(3,4) by (simp_all add: c1_def)
  obtain u where u: "u \<in> set us" "inside c (snd u)" using lay by (auto simp: layout_parts)
  have "blk_ok c1" "blk_ok c2" using lay1 by (auto simp: layout_def)
  then have org: "same_org us c1 c2" using u adj blk_ok_lt [of c2] unfolding same_org_def inside_def by (intro bexI [of _ u]) auto
  have j: "join c1 c2 = c" "bsize c1 + bsize c2 = bsize c" "bdata c1 = bdata c" using nl S(4) by (cases c, simp_all add: join_def c1_def)
  have i1: "\<not> clock (cp s1)" "cpriv s1 \<noteq> NULL" using idle_grows [OF assms(2) S(6)] by (auto simp: idle_def)
  obtain s2 where "coarse_ok s2 us (b1 @ (p, c) # b2)"
    "coarse_memory_provider_allocation_merge (cpriv s1) (bdata c) (bdata c + first) (bsize c) s1 = Some (UMF_RESULT_SUCCESS, s2)"
    using coarse_merge_ok [OF S(2) [folded c1_def] _ S(5) adj(1) i1] org assms(3) j S(3) by (auto simp: c1_def)
  then show ?thesis using S by blast
qed

theorem coarse_split_merge_roundtrip_witness:
  "\<exists>(s :: unit coarse_state) a s1 s2. coarse_memory_provider_allocation_split (cpriv s) a 1000 10 s = Some (UMF_RESULT_SUCCESS, s1) \<and>
    coarse_memory_provider_allocation_merge (cpriv s1) a (a + 10) 1000 s1 = Some (UMF_RESULT_SUCCESS, s2)"
proof -
  obtain s :: "unit coarse_state" and us bs y where s: "coarse_ok s us bs" "idle s" "ready 20 s" "plain_search (allocation_strategy (cp s)) 64"
    "y \<in> set bs" "\<not> bused (snd y)" "1000 + 64 \<le> bsize (snd y)" by (rule example_free_memory)
  have i: "\<not> clock (cp s)" "cpriv s \<noteq> NULL" using s(2) by (auto simp: idle_def)
  obtain s' b1 q cu b2 where A: "coarse_ok s' us (b1 @ (q, cu) # b2)" "bused cu" "bsize cu = 1000" "grows 10 s s'"
    by (rule coarse_alloc_ok [OF s(1) i s(4) _ _ s(5-7) ready_mono [OF s(3)]]) auto
  have "ready 2 s'" using ready_after [of 2 10 s s'] ready_mono [OF s(3), of 12] A(4) by simp
  then show ?thesis using coarse_split_merge_roundtrip [OF A(1) idle_grows [OF s(2) A(4)] A(2), of 10] A(3) by auto
qed

text \<open>The strategy that looks through all free blocks of a size is the same function as the one that looks at the first of them
  only, for every request: the search tests the alignment of the size of a block, not of its address, and
  all blocks of a list have the same size.\<close>

theorem coarse_check_all_size_is_first:
  assumes "coarse_ok s us bs"
  shows "find_free_block (free_blocks (cp s)) sz al UMF_COARSE_MEMORY_STRATEGY_CHECK_ALL_SIZE (heap s) =
    find_free_block (free_blocks (cp s)) sz al UMF_COARSE_MEMORY_STRATEGY_FASTEST_BUT_ONE (heap s)"
proof -
  from assms obtain xs where st: "stored (all_blocks (cp s)) (blocks (heap s)) bs xs" and F: "free_holds (free_blocks (cp s)) (heap s) (free_set bs)"
    by (auto simp: coarse_ok_def rep_def)
  have "free_blocks_rm_ge (free_blocks (cp s)) sz al CHECK_ALL_BLOCKS_OF_SIZE (heap s) =
      free_blocks_rm_ge (free_blocks (cp s)) sz al CHECK_ONLY_THE_FIRST_BLOCK (heap s)"
    by (rule free_rm_ge_ok [OF F free_set_sizes [OF st], where sz = sz and al = al]) auto
  then show ?thesis by (simp add: find_free_block_def)
qed

theorem coarse_check_all_size_is_first_witness:
  "find_free_block (free_blocks (cp example_coarse)) 100 64 UMF_COARSE_MEMORY_STRATEGY_CHECK_ALL_SIZE (heap example_coarse) =
    find_free_block (free_blocks (cp example_coarse)) 100 64 UMF_COARSE_MEMORY_STRATEGY_FASTEST_BUT_ONE (heap example_coarse)"
  by (rule coarse_check_all_size_is_first [OF example_coarse_ok(1)])

end
