(* ===== verification/Disjoint_Model.thy ===== *)
theory Disjoint_Model
  imports Memory_Pool UMF_Utils
begin

text \<open>
  The disjoint pool (\<open>pool/pool_disjoint.cpp\<close>): requests are rounded up to the size of a bucket;
  a bucket keeps slabs, memory from the provider, which are divided into chunks of its size or
  used as a whole; released slabs are kept up to a limit. A table from addresses to slabs finds
  the slab of an address.

  Objects of type \<open>Slab\<close> live in a store, the lists of a bucket hold their addresses, and a
  bucket is its index. An iterator into one of the two lists of a bucket is the list in which
  the node of the slab is; to erase it from the other list is undefined. The exception
  \<open>MemoryProviderError\<close> is the left side of a sum. \<open>None\<close> is a failed assertion or what the language leaves
  undefined. One thread is modelled, and the output of the trace is left out.
\<close>

section \<open>Data\<close>

record umf_disjoint_pool_shared_limits_t =
  MaxSize :: u64
  TotalSize :: u64

record umf_disjoint_pool_params_t =
  SlabMinSize :: u64
  MaxPoolableSize :: u64
  Capacity :: u64
  MinBucketSize :: u64
  CurPoolSize :: u64
  PoolTrace :: int
  SharedLimits :: "umf_disjoint_pool_shared_limits_t option"

datatype slab_list = Available | Unavailable

record slab =
  MemPtr :: u64
  Chunks :: "bool list"
  NumAllocated :: u64
  slab_bucket :: nat
  SlabListIter :: "slab_list option"
  FirstFreeChunkIdx :: u64

record bucket =
  bSize :: u64
  AvailableSlabs :: "ptr list"
  UnavailableSlabs :: "ptr list"
  chunkedSlabsInPool :: u64
  allocPoolCount :: u64
  freeCount :: u64
  currSlabsInUse :: u64
  currSlabsInPool :: u64
  maxSlabsInPool :: u64
  allocCount :: u64
  maxSlabsInUse :: u64

record 'w alloc_impl =
  KnownSlabs :: "(u64 \<times> ptr) list"
  slabs :: "ptr \<rightharpoonup> slab"
  Buckets :: "bucket list"
  params :: umf_disjoint_pool_params_t
  DefaultSharedLimits :: umf_disjoint_pool_shared_limits_t
  MinBucketSizeExp :: u64
  ProviderMinPageSize :: u64
  pool_last_status :: umf_result
  provider_world :: 'w

text \<open>The functions of the provider layer that the pool calls with its handle.\<close>

record 'w pool_host =
  host_alloc :: "u64 \<Rightarrow> u64 \<Rightarrow> (umf_result \<times> u64, 'w) eff"
  host_free :: "u64 \<Rightarrow> u64 \<Rightarrow> (umf_result, 'w) eff"
  host_info :: "u64 \<Rightarrow> 'w \<Rightarrow> (umf_result \<times> umf_alloc_info_t option) option"
  host_min_page_size :: "(umf_result \<times> u64, 'w) eff"

definition library_host :: "prov_handle \<Rightarrow> ('w, 'x) lib_state_scheme pool_host" where
  "library_host h = \<lparr>
     host_alloc = (\<lambda>sz al. with_provider (\<lambda>h. umfMemoryProviderAlloc h sz al)
       (\<lambda>h. umfMemoryProviderAlloc h sz al) h),
     host_free = (\<lambda>a sz. with_provider (\<lambda>h. umfMemoryProviderFree h a sz)
       (\<lambda>h. umfMemoryProviderFree h a sz) h),
     host_info = (\<lambda>a s. umfMemoryTrackerGetAllocInfo (TRACKER (world (plib s))) a),
     host_min_page_size = with_provider (\<lambda>h. umfMemoryProviderGetMinPageSize h 0)
       (\<lambda>h. umfMemoryProviderGetMinPageSize h 0) h\<rparr>"

section \<open>Constants and alignment\<close>

definition CutOff :: u64 where "CutOff = 2147483648"

definition UMF_DISJOINT_POOL_MIN_BUCKET_DEFAULT_SIZE :: u64 where
  "UMF_DISJOINT_POOL_MIN_BUCKET_DEFAULT_SIZE = 8"

definition AlignPtrDown :: "u64 \<Rightarrow> u64 \<Rightarrow> u64" where
  "AlignPtrDown p alignment = p AND NOT (alignment - 1)"

definition AlignPtrUp :: "u64 \<Rightarrow> u64 \<Rightarrow> u64" where
  "AlignPtrUp p alignment = (let AlignedPtr = AlignPtrDown p alignment in
     if p = AlignedPtr then p else AlignedPtr + alignment)"

definition AlignUp :: "u64 \<Rightarrow> u64 \<Rightarrow> u64 option" where
  "AlignUp v alignment = do {
     guard (alignment > 0);
     Some ((v + alignment - 1) AND NOT (alignment - 1))
   }"

section \<open>Parameters of the pool and its limits\<close>

definition getLimits :: "'w alloc_impl \<Rightarrow> umf_disjoint_pool_shared_limits_t" where
  "getLimits s = (case SharedLimits (params s) of Some l \<Rightarrow> l | None \<Rightarrow> DefaultSharedLimits s)"

definition set_TotalSize :: "u64 \<Rightarrow> 'w alloc_impl \<Rightarrow> 'w alloc_impl" where
  "set_TotalSize n s = (case SharedLimits (params s) of
     Some l \<Rightarrow> s\<lparr>params := (params s)\<lparr>SharedLimits := Some (l\<lparr>TotalSize := n\<rparr>)\<rparr>\<rparr>
   | None \<Rightarrow> s\<lparr>DefaultSharedLimits := (DefaultSharedLimits s)\<lparr>TotalSize := n\<rparr>\<rparr>)"

definition slab_min_size :: "'w alloc_impl \<Rightarrow> u64" where
  "slab_min_size s = SlabMinSize (params s)"

definition SlabAllocSize :: "'w alloc_impl \<Rightarrow> bucket \<Rightarrow> u64" where
  "SlabAllocSize s b = max (bSize b) (slab_min_size s)"

definition ChunkCutOff :: "'w alloc_impl \<Rightarrow> u64" where
  "ChunkCutOff s = slab_min_size s div 2"

definition bucket_capacity :: "'w alloc_impl \<Rightarrow> bucket \<Rightarrow> u64" where
  "bucket_capacity s b = (if bSize b \<le> ChunkCutOff s then 1 else Capacity (params s))"

definition bucket_at :: "'w alloc_impl \<Rightarrow> nat \<Rightarrow> bucket option" where
  "bucket_at s i = (if i < length (Buckets s) then Some (Buckets s ! i) else None)"

definition set_bucket :: "nat \<Rightarrow> bucket \<Rightarrow> 'w alloc_impl \<Rightarrow> 'w alloc_impl" where
  "set_bucket i b s = s\<lparr>Buckets := (Buckets s)[i := b]\<rparr>"

definition set_slab :: "ptr \<Rightarrow> slab \<Rightarrow> 'w alloc_impl \<Rightarrow> 'w alloc_impl" where
  "set_slab x sl s = s\<lparr>slabs := (slabs s)(x \<mapsto> sl)\<rparr>"

definition setIterator :: "ptr \<Rightarrow> slab_list \<Rightarrow> ('w alloc_impl) \<Rightarrow> 'w alloc_impl option" where
  "setIterator x l s = do { sl \<leftarrow> slabs s x; Some (set_slab x (sl\<lparr>SlabListIter := Some l\<rparr>) s) }"

section \<open>Statistics\<close>

definition updateStats :: "nat \<Rightarrow> int \<Rightarrow> int \<Rightarrow> 'w alloc_impl \<Rightarrow> 'w alloc_impl option" where
  "updateStats i InUse InPool s = do {
     b \<leftarrow> bucket_at s i;
     Some (if PoolTrace (params s) = 0 then s
       else let used = currSlabsInUse b + of_int InUse; pooled = currSlabsInPool b + of_int InPool;
         b1 = b\<lparr>currSlabsInUse := used, maxSlabsInUse := max used (maxSlabsInUse b),
           currSlabsInPool := pooled, maxSlabsInPool := max pooled (maxSlabsInPool b)\<rparr>
       in (set_bucket i b1 s)\<lparr>params := (params s)\<lparr>CurPoolSize :=
            CurPoolSize (params s) + of_int InPool * SlabAllocSize s b\<rparr>\<rparr>)
   }"

definition countAlloc :: "nat \<Rightarrow> bool \<Rightarrow> 'w alloc_impl \<Rightarrow> 'w alloc_impl option" where
  "countAlloc i FromPool s = do {
     b \<leftarrow> bucket_at s i;
     Some (set_bucket i (b\<lparr>allocCount := allocCount b + 1,
       allocPoolCount := (if FromPool then allocPoolCount b + 1 else allocPoolCount b)\<rparr>) s)
   }"

definition countFree :: "nat \<Rightarrow> 'w alloc_impl \<Rightarrow> 'w alloc_impl option" where
  "countFree i s = do {
     b \<leftarrow> bucket_at s i;
     Some (set_bucket i (b\<lparr>freeCount := freeCount b + 1\<rparr>) s)
   }"

definition decrementPool :: "nat \<Rightarrow> 'w alloc_impl \<Rightarrow> 'w alloc_impl option" where
  "decrementPool i s = do {
     s \<leftarrow> updateStats i 1 (- 1) s;
     b \<leftarrow> bucket_at s i;
     Some (set_TotalSize (TotalSize (getLimits s) - SlabAllocSize s b) s)
   }"

definition CanPool :: "nat \<Rightarrow> 'w alloc_impl \<Rightarrow> (bool \<times> 'w alloc_impl) option" where
  "CanPool i s = do {
     b \<leftarrow> bucket_at s i;
     let chunkedBucket = (bSize b \<le> ChunkCutOff s);
     let NewFreeSlabsInBucket = (if chunkedBucket then chunkedSlabsInPool b + 1
       else of_nat (length (AvailableSlabs b)) + 1);
     let NewPoolSize = TotalSize (getLimits s) + SlabAllocSize s b;
     if NewFreeSlabsInBucket \<le> bucket_capacity s b \<and> NewPoolSize \<le> MaxSize (getLimits s)
     then do {
       let s = set_TotalSize NewPoolSize s;
       let s = (if chunkedBucket then set_bucket i (b\<lparr>chunkedSlabsInPool := chunkedSlabsInPool b + 1\<rparr>) s else s);
       s \<leftarrow> updateStats i (- 1) 1 s;
       Some (True, s)
     }
     else do {
       s \<leftarrow> updateStats i (- 1) 0 s;
       Some (False, s)
     }
   }"

section \<open>Memory from the provider\<close>

definition memoryProviderAlloc :: "'w pool_host \<Rightarrow> u64 \<Rightarrow> u64 \<Rightarrow> 'w alloc_impl \<Rightarrow>
    ((umf_result + u64) \<times> 'w alloc_impl) option" where
  "memoryProviderAlloc H sz alignment s = do {
     ((ret, p), w) \<leftarrow> host_alloc H sz alignment (provider_world s);
     Some (if ret \<noteq> UMF_RESULT_SUCCESS then Inl ret else Inr p, s\<lparr>provider_world := w\<rparr>)
   }"

definition memoryProviderFree :: "'w pool_host \<Rightarrow> u64 \<Rightarrow> 'w alloc_impl \<Rightarrow>
    ((umf_result + unit) \<times> 'w alloc_impl) option" where
  "memoryProviderFree H p s = do {
     sz \<leftarrow> (if p \<noteq> 0 then do {
             (ret, info) \<leftarrow> host_info H p (provider_world s);
             Some (case info of None \<Rightarrow> 0 | Some i \<Rightarrow> if ret = UMF_RESULT_SUCCESS then info_baseSize i else 0)
           } else Some 0);
     (ret, w) \<leftarrow> host_free H p sz (provider_world s);
     Some (if ret \<noteq> UMF_RESULT_SUCCESS then Inl ret else Inr (), s\<lparr>provider_world := w\<rparr>)
   }"

section \<open>Slabs\<close>

definition regSlabByAddr :: "u64 \<Rightarrow> ptr \<Rightarrow> 'w alloc_impl \<Rightarrow> 'w alloc_impl" where
  "regSlabByAddr a x s = s\<lparr>KnownSlabs := KnownSlabs s @ [(a, x)]\<rparr>"

text \<open>The entries of an address come in any order in the table of the code; at most one of them is
  the slab that is looked for.\<close>

fun erase_known :: "(ptr \<rightharpoonup> slab) \<Rightarrow> u64 \<Rightarrow> u64 \<Rightarrow> (u64 \<times> ptr) list \<Rightarrow> (u64 \<times> ptr) list option" where
  "erase_known m a p [] = None"
| "erase_known m a p ((k, y) # r) =
     (if k = a then do {
        sl \<leftarrow> m y;
        if MemPtr sl = p then Some r else map_option (Cons (k, y)) (erase_known m a p r)
      }
      else map_option (Cons (k, y)) (erase_known m a p r))"

definition unregSlabByAddr :: "u64 \<Rightarrow> ptr \<Rightarrow> 'w alloc_impl \<Rightarrow> 'w alloc_impl option" where
  "unregSlabByAddr a x s = do {
     sl \<leftarrow> slabs s x;
     l \<leftarrow> erase_known (slabs s) a (MemPtr sl) (KnownSlabs s);
     Some (s\<lparr>KnownSlabs := l\<rparr>)
   }"

definition regSlab :: "ptr \<Rightarrow> 'w alloc_impl \<Rightarrow> 'w alloc_impl option" where
  "regSlab x s = do {
     sl \<leftarrow> slabs s x;
     let StartAddr = AlignPtrDown (MemPtr sl) (slab_min_size s);
     let EndAddr = StartAddr + slab_min_size s;
     Some (regSlabByAddr EndAddr x (regSlabByAddr StartAddr x s))
   }"

definition unregSlab :: "ptr \<Rightarrow> 'w alloc_impl \<Rightarrow> 'w alloc_impl option" where
  "unregSlab x s = do {
     sl \<leftarrow> slabs s x;
     let StartAddr = AlignPtrDown (MemPtr sl) (slab_min_size s);
     let EndAddr = StartAddr + slab_min_size s;
     s \<leftarrow> unregSlabByAddr StartAddr x s;
     unregSlabByAddr EndAddr x s
   }"

text \<open>The constructor; \<open>obj\<close> is the address of the object, an answer of the host's allocator.\<close>

definition Slab_new :: "'w pool_host \<Rightarrow> ptr \<Rightarrow> nat \<Rightarrow> 'w alloc_impl \<Rightarrow>
    ((umf_result + unit) \<times> 'w alloc_impl) option" where
  "Slab_new H obj i s = do {
     b \<leftarrow> bucket_at s i;
     guard (bSize b \<noteq> 0);
     guard (obj \<noteq> NULL \<and> slabs s obj = None);
     (r, s) \<leftarrow> memoryProviderAlloc H (SlabAllocSize s b) 0 s;
     case r of
       Inl e \<Rightarrow> Some (Inl e, s)
     | Inr p \<Rightarrow> do {
         s \<leftarrow> regSlab obj (set_slab obj \<lparr>MemPtr = p,
           Chunks = replicate (unat (slab_min_size s div bSize b)) False, NumAllocated = 0,
           slab_bucket = i, SlabListIter = None, FirstFreeChunkIdx = 0\<rparr> s);
         Some (Inr (), s)
       }
   }"

definition Slab_delete :: "'w pool_host \<Rightarrow> ptr \<Rightarrow> 'w alloc_impl \<Rightarrow> 'w alloc_impl option" where
  "Slab_delete H x s = do {
     sl \<leftarrow> slabs s x;
     s \<leftarrow> unregSlab x s;
     (r, s) \<leftarrow> memoryProviderFree H (MemPtr sl) s;
     Some (s\<lparr>slabs := (slabs s)(x := None)\<rparr>)
   }"

definition FindFirstAvailableChunkIdx :: "slab \<Rightarrow> u64" where
  "FindFirstAvailableChunkIdx sl =
     (case find (\<lambda>k. \<not> Chunks sl ! k) [unat (FirstFreeChunkIdx sl)..<length (Chunks sl)] of
        Some k \<Rightarrow> of_nat k
      | None \<Rightarrow> - 1)"

definition Slab_getChunk :: "ptr \<Rightarrow> 'w alloc_impl \<Rightarrow> (u64 \<times> 'w alloc_impl) option" where
  "Slab_getChunk x s = do {
     sl \<leftarrow> slabs s x;
     b \<leftarrow> bucket_at s (slab_bucket sl);
     let ChunkIdx = FindFirstAvailableChunkIdx sl;
     guard (ChunkIdx \<noteq> - 1);
     Some (MemPtr sl + ChunkIdx * bSize b,
       set_slab x (sl\<lparr>Chunks := (Chunks sl)[unat ChunkIdx := True],
         NumAllocated := NumAllocated sl + 1, FirstFreeChunkIdx := ChunkIdx\<rparr>) s)
   }"

definition getEnd :: "'w alloc_impl \<Rightarrow> slab \<Rightarrow> u64" where
  "getEnd s sl = MemPtr sl + slab_min_size s"

definition hasAvail :: "slab \<Rightarrow> bool" where
  "hasAvail sl \<longleftrightarrow> NumAllocated sl \<noteq> of_nat (length (Chunks sl))"

definition Slab_freeChunk :: "ptr \<Rightarrow> u64 \<Rightarrow> 'w alloc_impl \<Rightarrow> 'w alloc_impl option" where
  "Slab_freeChunk x p s = do {
     sl \<leftarrow> slabs s x;
     b \<leftarrow> bucket_at s (slab_bucket sl);
     guard (MemPtr sl \<le> p \<and> p < getEnd s sl);
     guard (bSize b \<noteq> 0);
     let ChunkIdx = (p - MemPtr sl) div bSize b;
     guard (unat ChunkIdx < length (Chunks sl) \<and> Chunks sl ! unat ChunkIdx);
     Some (set_slab x (sl\<lparr>Chunks := (Chunks sl)[unat ChunkIdx := False],
       NumAllocated := NumAllocated sl - 1,
       FirstFreeChunkIdx := (if ChunkIdx < FirstFreeChunkIdx sl then ChunkIdx else FirstFreeChunkIdx sl)\<rparr>) s)
   }"

section \<open>Buckets\<close>

text \<open>Nodes of the two lists of a bucket: a slab goes to the front of one of them, or is taken from
  the list in which its node is.\<close>

definition push_slab :: "nat \<Rightarrow> slab_list \<Rightarrow> ptr \<Rightarrow> 'w alloc_impl \<Rightarrow> 'w alloc_impl option" where
  "push_slab i l x s = do {
     b \<leftarrow> bucket_at s i;
     setIterator x l (set_bucket i (case l of
         Available \<Rightarrow> b\<lparr>AvailableSlabs := x # AvailableSlabs b\<rparr>
       | Unavailable \<Rightarrow> b\<lparr>UnavailableSlabs := x # UnavailableSlabs b\<rparr>) s)
   }"

definition erase_slab :: "nat \<Rightarrow> slab_list \<Rightarrow> ptr \<Rightarrow> 'w alloc_impl \<Rightarrow> 'w alloc_impl option" where
  "erase_slab i l x s = do {
     b \<leftarrow> bucket_at s i;
     sl \<leftarrow> slabs s x;
     guard (SlabListIter sl = Some l);
     Some (set_bucket i (case l of
         Available \<Rightarrow> b\<lparr>AvailableSlabs := remove1 x (AvailableSlabs b)\<rparr>
       | Unavailable \<Rightarrow> b\<lparr>UnavailableSlabs := remove1 x (UnavailableSlabs b)\<rparr>) s)
   }"

definition getAvailFullSlab :: "'w pool_host \<Rightarrow> ptr \<Rightarrow> nat \<Rightarrow> 'w alloc_impl \<Rightarrow>
    ((umf_result + ptr \<times> bool) \<times> 'w alloc_impl) option" where
  "getAvailFullSlab H obj i s = do {
     b \<leftarrow> bucket_at s i;
     case AvailableSlabs b of
       [] \<Rightarrow> do {
         (r, s) \<leftarrow> Slab_new H obj i s;
         case r of
           Inl e \<Rightarrow> Some (Inl e, s)
         | Inr _ \<Rightarrow> do {
             s \<leftarrow> push_slab i Available obj s;
             s \<leftarrow> updateStats i 1 0 s;
             Some (Inr (obj, False), s)
           }
       }
     | x # _ \<Rightarrow> do {
         s \<leftarrow> decrementPool i s;
         Some (Inr (x, True), s)
       }
   }"

definition getSlab :: "'w pool_host \<Rightarrow> ptr \<Rightarrow> nat \<Rightarrow> 'w alloc_impl \<Rightarrow>
    ((umf_result + u64 \<times> bool) \<times> 'w alloc_impl) option" where
  "getSlab H obj i s = do {
     (r, s) \<leftarrow> getAvailFullSlab H obj i s;
     case r of
       Inl e \<Rightarrow> Some (Inl e, s)
     | Inr (x, FromPool) \<Rightarrow> do {
         sl \<leftarrow> slabs s x;
         s \<leftarrow> erase_slab i Available x s;
         s \<leftarrow> push_slab i Unavailable x s;
         Some (Inr (MemPtr sl, FromPool), s)
       }
   }"

definition freeSlab :: "'w pool_host \<Rightarrow> nat \<Rightarrow> ptr \<Rightarrow> 'w alloc_impl \<Rightarrow> (bool \<times> 'w alloc_impl) option" where
  "freeSlab H i x s = do {
     (ToPool, s) \<leftarrow> CanPool i s;
     s \<leftarrow> erase_slab i Unavailable x s;
     s \<leftarrow> (if ToPool then push_slab i Available x s else Slab_delete H x s);
     Some (ToPool, s)
   }"

definition getAvailSlab :: "'w pool_host \<Rightarrow> ptr \<Rightarrow> nat \<Rightarrow> 'w alloc_impl \<Rightarrow>
    ((umf_result + ptr \<times> bool) \<times> 'w alloc_impl) option" where
  "getAvailSlab H obj i s = do {
     b \<leftarrow> bucket_at s i;
     case AvailableSlabs b of
       [] \<Rightarrow> do {
         (r, s) \<leftarrow> Slab_new H obj i s;
         case r of
           Inl e \<Rightarrow> Some (Inl e, s)
         | Inr _ \<Rightarrow> do {
             s \<leftarrow> push_slab i Available obj s;
             s \<leftarrow> updateStats i 1 0 s;
             Some (Inr (obj, False), s)
           }
       }
     | x # _ \<Rightarrow> do {
         sl \<leftarrow> slabs s x;
         if NumAllocated sl = 0 then do {
           s \<leftarrow> decrementPool i (set_bucket i (b\<lparr>chunkedSlabsInPool := chunkedSlabsInPool b - 1\<rparr>) s);
           Some (Inr (x, True), s)
         }
         else Some (Inr (x, True), s)
       }
   }"

definition getChunk :: "'w pool_host \<Rightarrow> ptr \<Rightarrow> nat \<Rightarrow> 'w alloc_impl \<Rightarrow>
    ((umf_result + u64 \<times> bool) \<times> 'w alloc_impl) option" where
  "getChunk H obj i s = do {
     (r, s) \<leftarrow> getAvailSlab H obj i s;
     case r of
       Inl e \<Rightarrow> Some (Inl e, s)
     | Inr (x, FromPool) \<Rightarrow> do {
         (FreeChunk, s) \<leftarrow> Slab_getChunk x s;
         sl \<leftarrow> slabs s x;
         s \<leftarrow> (if \<not> hasAvail sl then do {
                 s \<leftarrow> erase_slab i Available x s;
                 push_slab i Unavailable x s
               } else Some s);
         Some (Inr (FreeChunk, FromPool), s)
       }
   }"

definition onFreeChunk :: "'w pool_host \<Rightarrow> nat \<Rightarrow> ptr \<Rightarrow> 'w alloc_impl \<Rightarrow> (bool \<times> 'w alloc_impl) option" where
  "onFreeChunk H i x s = do {
     sl \<leftarrow> slabs s x;
     s \<leftarrow> (if NumAllocated sl = of_nat (length (Chunks sl)) - 1 then do {
             s \<leftarrow> erase_slab i Unavailable x s;
             push_slab i Available x s
           } else Some s);
     if NumAllocated sl = 0 then do {
       (ToPool, s) \<leftarrow> CanPool i s;
       if ToPool then Some (True, s)
       else do {
         s \<leftarrow> erase_slab i Available x s;
         s \<leftarrow> Slab_delete H x s;
         Some (False, s)
       }
     }
     else Some (True, s)
   }"

definition freeChunk :: "'w pool_host \<Rightarrow> u64 \<Rightarrow> nat \<Rightarrow> ptr \<Rightarrow> 'w alloc_impl \<Rightarrow> (bool \<times> 'w alloc_impl) option" where
  "freeChunk H p i x s = do {
     s \<leftarrow> Slab_freeChunk x p s;
     onFreeChunk H i x s
   }"

section \<open>Buckets by size\<close>

text \<open>The loop of the constructor that generates the sizes.\<close>

partial_function (option) bucket_sizes :: "u64 \<Rightarrow> u64 \<Rightarrow> u64 list option" where
  "bucket_sizes Size1 Size2 =
     (if Size2 < CutOff
      then Option.bind (bucket_sizes (Size1 * 2) (Size2 * 2)) (\<lambda>l. Some (Size1 # Size2 # l))
      else Some [CutOff])"

definition new_bucket :: "u64 \<Rightarrow> bucket" where
  "new_bucket sz = \<lparr>bSize = sz, AvailableSlabs = [], UnavailableSlabs = [], chunkedSlabsInPool = 0,
     allocPoolCount = 0, freeCount = 0, currSlabsInUse = 0, currSlabsInPool = 0, maxSlabsInPool = 0,
     allocCount = 0, maxSlabsInUse = 0\<rparr>"

definition AllocImpl_new :: "'w pool_host \<Rightarrow> umf_disjoint_pool_params_t \<Rightarrow> 'w \<Rightarrow> 'w alloc_impl option" where
  "AllocImpl_new H ps w = do {
     let Size1 = min (MinBucketSize ps) CutOff;
     let Size1 = max Size1 UMF_DISJOINT_POOL_MIN_BUCKET_DEFAULT_SIZE;
     ex \<leftarrow> log2Utils Size1;
     l \<leftarrow> bucket_sizes Size1 (Size1 + Size1 div 2);
     ((ret, page), w) \<leftarrow> host_min_page_size H w;
     Some \<lparr>KnownSlabs = [], slabs = Map.empty, Buckets = map new_bucket l, params = ps,
       DefaultSharedLimits = \<lparr>MaxSize = - 1, TotalSize = 0\<rparr>, MinBucketSizeExp = ex,
       ProviderMinPageSize = (if ret \<noteq> UMF_RESULT_SUCCESS then 0 else page),
       pool_last_status = UMF_RESULT_SUCCESS, provider_world = w\<rparr>
   }"

definition sizeToIdx :: "u64 \<Rightarrow> 'w alloc_impl \<Rightarrow> u64 option" where
  "sizeToIdx Size s = do {
     guard (Size \<le> CutOff);
     guard (Size > 0);
     if Size < push_bit (unat (MinBucketSizeExp s)) 1 then Some 0
     else do {
       position \<leftarrow> getLeftmostSetBitPos Size;
       let isPowerOf2 = (Size AND (Size - 1) = 0);
       let larger = (\<not> isPowerOf2 \<and> (Size - 1) AND push_bit (unat (position - 1)) 1 \<noteq> 0);
       Some ((position - MinBucketSizeExp s) * 2 + (if isPowerOf2 then 0 else 1) + (if larger then 1 else 0))
     }
   }"

definition findBucket :: "u64 \<Rightarrow> 'w alloc_impl \<Rightarrow> nat option" where
  "findBucket Size s = do {
     idx \<leftarrow> sizeToIdx Size s;
     b \<leftarrow> bucket_at s (unat idx);
     guard (Size \<le> bSize b);
     (if idx > 0 then do { c \<leftarrow> bucket_at s (unat (idx - 1)); guard (bSize c < Size) } else Some ());
     Some (unat idx)
   }"

section \<open>Requests\<close>

text \<open>The handler that a request runs under: the code of an exception becomes the last status.\<close>

definition catch_status :: "((umf_result + u64) \<times> 'w alloc_impl) option \<Rightarrow> (u64 \<times> 'w alloc_impl) option" where
  "catch_status m = do {
     (r, s) \<leftarrow> m;
     Some (case r of Inl e \<Rightarrow> (0, s\<lparr>pool_last_status := e\<rparr>) | Inr p \<Rightarrow> (p, s))
   }"

definition from_bucket :: "'w pool_host \<Rightarrow> ptr \<Rightarrow> u64 \<Rightarrow> 'w alloc_impl \<Rightarrow>
    ((umf_result + u64) \<times> 'w alloc_impl) option" where
  "from_bucket H obj Size s = do {
     i \<leftarrow> findBucket Size s;
     (r, s) \<leftarrow> (if Size > ChunkCutOff s then getSlab H obj i s else getChunk H obj i s);
     case r of
       Inl e \<Rightarrow> Some (Inl e, s)
     | Inr (p, FromPool) \<Rightarrow> do {
         s \<leftarrow> (if PoolTrace (params s) > 1 then countAlloc i FromPool s else Some s);
         Some (Inr p, s)
       }
   }"

definition allocate :: "'w pool_host \<Rightarrow> ptr \<Rightarrow> u64 \<Rightarrow> 'w alloc_impl \<Rightarrow> (u64 \<times> 'w alloc_impl) option" where
  "allocate H obj Size s =
     (if Size = 0 then Some (0, s)
      else catch_status
        (if Size > MaxPoolableSize (params s) then memoryProviderAlloc H Size 0 s
         else from_bucket H obj Size s))"

definition allocate_aligned :: "'w pool_host \<Rightarrow> ptr \<Rightarrow> u64 \<Rightarrow> u64 \<Rightarrow> 'w alloc_impl \<Rightarrow>
    (u64 \<times> 'w alloc_impl) option" where
  "allocate_aligned H obj Size alignment s =
     (if Size = 0 then Some (0, s)
      else if alignment \<le> 1 then allocate H obj Size s
      else do {
        AlignedSize \<leftarrow> (if alignment \<le> ProviderMinPageSize s
          then if Size > 1 then AlignUp Size alignment else Some alignment
          else Some (Size + alignment - 1));
        catch_status
          (if AlignedSize > MaxPoolableSize (params s) then memoryProviderAlloc H Size alignment s
           else do {
             (r, s) \<leftarrow> from_bucket H obj AlignedSize s;
             Some (case r of Inl e \<Rightarrow> Inl e | Inr p \<Rightarrow> Inr (AlignPtrUp p alignment), s)
           })
      })"

text \<open>The search among the entries of an address.\<close>

fun find_known :: "'w alloc_impl \<Rightarrow> u64 \<Rightarrow> u64 \<Rightarrow> (u64 \<times> ptr) list \<Rightarrow> ptr option option" where
  "find_known s a p [] = Some None"
| "find_known s a p ((k, x) # r) =
     (if k = a then do {
        sl \<leftarrow> slabs s x;
        if MemPtr sl \<le> p \<and> p < getEnd s sl then Some (Some x) else find_known s a p r
      }
      else find_known s a p r)"

definition deallocate :: "'w pool_host \<Rightarrow> u64 \<Rightarrow> 'w alloc_impl \<Rightarrow>
    ((umf_result + bool) \<times> 'w alloc_impl) option" where
  "deallocate H p s = do {
     found \<leftarrow> find_known s (AlignPtrDown p (slab_min_size s)) p (KnownSlabs s);
     case found of
       None \<Rightarrow> do {
         (r, s) \<leftarrow> memoryProviderFree H p s;
         Some (case r of Inl e \<Rightarrow> Inl e | Inr _ \<Rightarrow> Inr False, s)
       }
     | Some x \<Rightarrow> do {
         sl \<leftarrow> slabs s x;
         s \<leftarrow> (if PoolTrace (params s) > 1 then countFree (slab_bucket sl) s else Some s);
         b \<leftarrow> bucket_at s (slab_bucket sl);
         (ToPool, s) \<leftarrow> (if bSize b \<le> ChunkCutOff s then freeChunk H p (slab_bucket sl) x s
                      else freeSlab H (slab_bucket sl) x s);
         Some (Inr ToPool, s)
       }
   }"

section \<open>The interface of the pool\<close>

definition DisjointPool_initialize :: "'w pool_host \<Rightarrow> prov_handle option \<Rightarrow> umf_disjoint_pool_params_t \<Rightarrow>
    'w \<Rightarrow> (umf_result \<times> 'w alloc_impl option) option" where
  "DisjointPool_initialize H provider ps w =
     (if provider = None then Some (UMF_RESULT_ERROR_INVALID_ARGUMENT, None)
      else if MinBucketSize ps = 0 \<or> MinBucketSize ps AND (MinBucketSize ps - 1) \<noteq> 0
      then Some (UMF_RESULT_ERROR_INVALID_ARGUMENT, None)
      else do { s \<leftarrow> AllocImpl_new H ps w; Some (UMF_RESULT_SUCCESS, Some s) })"

definition DisjointPool_malloc :: "'w pool_host \<Rightarrow> ptr \<Rightarrow> u64 \<Rightarrow> 'w alloc_impl \<Rightarrow> (u64 \<times> 'w alloc_impl) option" where
  "DisjointPool_malloc H obj sz s = allocate H obj sz s"

definition DisjointPool_calloc :: "u64 \<Rightarrow> u64 \<Rightarrow> 'w alloc_impl \<Rightarrow> (u64 \<times> 'w alloc_impl) option" where
  "DisjointPool_calloc num sz s = Some (0, s\<lparr>pool_last_status := UMF_RESULT_ERROR_NOT_SUPPORTED\<rparr>)"

definition DisjointPool_realloc :: "u64 \<Rightarrow> u64 \<Rightarrow> 'w alloc_impl \<Rightarrow> (u64 \<times> 'w alloc_impl) option" where
  "DisjointPool_realloc p sz s = Some (0, s\<lparr>pool_last_status := UMF_RESULT_ERROR_NOT_SUPPORTED\<rparr>)"

definition DisjointPool_aligned_malloc :: "'w pool_host \<Rightarrow> ptr \<Rightarrow> u64 \<Rightarrow> u64 \<Rightarrow> 'w alloc_impl \<Rightarrow>
    (u64 \<times> 'w alloc_impl) option" where
  "DisjointPool_aligned_malloc H obj sz alignment s = allocate_aligned H obj sz alignment s"

definition DisjointPool_malloc_usable_size :: "u64 \<Rightarrow> 'w alloc_impl \<Rightarrow> (u64 \<times> 'w alloc_impl) option" where
  "DisjointPool_malloc_usable_size p s = Some (0, s)"

definition DisjointPool_free :: "'w pool_host \<Rightarrow> u64 \<Rightarrow> 'w alloc_impl \<Rightarrow> (umf_result \<times> 'w alloc_impl) option" where
  "DisjointPool_free H p s = do {
     (r, s) \<leftarrow> deallocate H p s;
     Some (case r of Inl e \<Rightarrow> e | Inr _ \<Rightarrow> UMF_RESULT_SUCCESS, s)
   }"

text \<open>Destruction: the buckets and, with them, the slabs in their lists.\<close>

fun delete_slabs :: "'w pool_host \<Rightarrow> ptr list \<Rightarrow> 'w alloc_impl \<Rightarrow> 'w alloc_impl option" where
  "delete_slabs H [] s = Some s"
| "delete_slabs H (x # xs) s = do { s \<leftarrow> Slab_delete H x s; delete_slabs H xs s }"

definition DisjointPool_finalize :: "'w pool_host \<Rightarrow> 'w alloc_impl \<Rightarrow> 'w option" where
  "DisjointPool_finalize H s = do {
     s \<leftarrow> delete_slabs H (concat (map (\<lambda>b. UnavailableSlabs b @ AvailableSlabs b) (Buckets s))) s;
     Some (provider_world s)
   }"

definition DisjointPool_get_last_allocation_error :: "'w alloc_impl \<Rightarrow> (umf_result \<times> 'w alloc_impl) option" where
  "DisjointPool_get_last_allocation_error s = Some (pool_last_status s, s)"

end
