(* ===== verification/Disjoint_Core.thy ===== *)
theory Disjoint_Core
  imports Disjoint_Model
begin

text \<open>
  The sizes of the buckets, powers of two and the values halfway between them, and the index
  that is calculated from a size with the position of its leftmost bit: the bucket that is
  found is the smallest one that has room. Then the core of the state, without the statistics.
\<close>

section \<open>The generated sizes\<close>

definition size_list :: "nat \<Rightarrow> nat list" where
  "size_list k = concat (map (\<lambda>j. [2 ^ j, 3 * 2 ^ (j - 1)]) [k..<31]) @ [2 ^ 31]"

lemma size_list_31: "size_list 31 = [2 ^ 31]"
  by (simp add: size_list_def)

lemma size_list_step: "k < 31 \<Longrightarrow> size_list k = 2 ^ k # 3 * 2 ^ (k - 1) # size_list (Suc k)"
  by (simp add: size_list_def upt_rec [of k 31])

lemma size_list_nth:
  assumes "k \<le> j" "j \<le> 31"
  shows "2 * (j - k) < length (size_list k)" "size_list k ! (2 * (j - k)) = 2 ^ j"
    "j < 31 \<Longrightarrow> 2 * (j - k) + 1 < length (size_list k) \<and> size_list k ! (2 * (j - k) + 1) = 3 * 2 ^ (j - 1)"
proof -
  have "2 * (j - k) < length (size_list k) \<and> size_list k ! (2 * (j - k)) = 2 ^ j
      \<and> (j < 31 \<longrightarrow> 2 * (j - k) + 1 < length (size_list k) \<and> size_list k ! (2 * (j - k) + 1) = 3 * 2 ^ (j - 1))"
    using assms
  proof (induction "j - k" arbitrary: k)
    case 0
    then have "k = j" by simp
    then show ?case
      using 0 by (cases "j = 31") (simp_all add: size_list_31 size_list_step)
  next
    case (Suc d)
    then have k: "k < 31" "d = j - Suc k" "Suc k \<le> j" by simp_all
    have "2 * (j - k) = Suc (Suc (2 * (j - Suc k)))" using k by simp
    then show ?case using Suc.hyps(1) [OF k(2,3) Suc.prems(2)] k by (simp add: size_list_step)
  qed
  then show "2 * (j - k) < length (size_list k)" "size_list k ! (2 * (j - k)) = 2 ^ j"
    "j < 31 \<Longrightarrow> 2 * (j - k) + 1 < length (size_list k) \<and> size_list k ! (2 * (j - k) + 1) = 3 * 2 ^ (j - 1)"
    by blast+
qed

lemma size_list_cases:
  assumes "n \<in> set (size_list k)" "k \<le> 31"
  obtains j where "k \<le> j" "j \<le> 31" "n = 2 ^ j" | j where "k \<le> j" "j < 31" "n = 3 * 2 ^ (j - 1)"
proof -
  have "n = 2 ^ 31 \<or> (\<exists>j. k \<le> j \<and> j < 31 \<and> (n = 2 ^ j \<or> n = 3 * 2 ^ (j - 1)))"
    using assms(1) by (auto simp: size_list_def)
  moreover have "n = 2 ^ 31 \<Longrightarrow> thesis" using that(1) [of 31] assms(2) by blast
  ultimately show thesis using that less_imp_le by blast
qed

lemma size_list_bounds:
  assumes "n \<in> set (size_list k)" "1 \<le> k" "k \<le> 31"
  shows "2 ^ k \<le> n" "n \<le> 2 ^ 31"
proof -
  have half: "3 * 2 ^ (j - 1) \<le> (2 :: nat) ^ Suc j" "(2 :: nat) ^ j \<le> 3 * 2 ^ (j - 1)" if "1 \<le> j" for j
    using that by (cases j; simp)+
  have "2 ^ k \<le> n \<and> n \<le> 2 ^ 31"
    using assms(1,3)
  proof (cases rule: size_list_cases)
    case (1 j)
    then show ?thesis
      using power_increasing [of k j "2 :: nat"] power_increasing [of j 31 "2 :: nat"] by linarith
  next
    case (2 j)
    have "(2 :: nat) ^ k \<le> 2 ^ j" "(2 :: nat) ^ Suc j \<le> 2 ^ 31"
      using 2 by (intro power_increasing; simp)+
    then show ?thesis using half [of j] 2 assms(2) by linarith
  qed
  then show "2 ^ k \<le> n" "n \<le> 2 ^ 31" by blast+
qed

lemma size_list_sorted: "1 \<le> k \<Longrightarrow> k \<le> 31 \<Longrightarrow> sorted (size_list k)"
proof (induction "31 - k" arbitrary: k)
  case 0
  then have "k = 31" by simp
  then show ?case by (simp add: size_list_31)
next
  case (Suc d)
  then have k: "k < 31" "d = 31 - Suc k" by simp_all
  have step: "(2 :: nat) ^ k \<le> 3 * 2 ^ (k - 1)" "3 * 2 ^ (k - 1) \<le> (2 :: nat) ^ Suc k"
    using Suc.prems(1) by (cases k; simp)+
  have "2 ^ Suc k \<le> n" if "n \<in> set (size_list (Suc k))" for n
    using size_list_bounds(1) [OF that] k(1) by simp
  then have "\<forall>n\<in>set (size_list (Suc k)). 2 ^ k \<le> n \<and> 3 * 2 ^ (k - 1) \<le> n"
    using step by (meson order_trans)
  moreover have "sorted (size_list (Suc k))" using Suc.hyps(1) [OF k(2)] k(1) by simp
  ultimately show ?case
    unfolding size_list_step [OF k(1)] using step(1) by simp
qed

lemma size_list_power: "k \<le> c \<Longrightarrow> c \<le> 31 \<Longrightarrow> 2 ^ c \<in> set (size_list k)"
  using size_list_nth(1,2) [of k c] nth_mem by metis

lemma unat_of_nat_small: "n < 2 ^ 64 \<Longrightarrow> unat (of_nat n :: u64) = n"
  by (simp add: of_nat_inverse)

lemma bucket_sizes_eq:
  assumes "1 \<le> k" "k \<le> 31"
  shows "bucket_sizes (2 ^ k) (3 * 2 ^ (k - 1)) = Some (map of_nat (size_list k))"
  using assms
proof (induction "31 - k" arbitrary: k)
  case 0
  then have k: "k = 31" by simp
  have "\<not> (3 * 2 ^ 30 :: u64) < CutOff" by (simp add: CutOff_def)
  then show ?case unfolding k by (subst bucket_sizes.simps) (simp add: size_list_31 CutOff_def)
next
  case (Suc d)
  then have k: "k < 31" "d = 31 - Suc k" by simp_all
  have "(2 :: nat) ^ (k - 1) \<le> 2 ^ 29" using k by (intro power_increasing) simp_all
  then have "3 * 2 ^ (k - 1) \<le> (3 * 2 ^ 29 :: nat)" by (rule mult_le_mono2)
  then have small: "unat (of_nat (3 * 2 ^ (k - 1)) :: u64) \<le> 3 * 2 ^ 29"
    by (subst unat_of_nat_small) simp_all
  have word: "(3 * 2 ^ (k - 1) :: u64) = of_nat (3 * 2 ^ (k - 1))" by simp
  have less: "(3 * 2 ^ (k - 1) :: u64) < CutOff"
    using small unfolding word word_less_nat_alt by (simp add: CutOff_def)
  obtain m where m: "k = Suc m" using Suc.prems(1) by (cases k) auto
  show ?case
    using Suc.hyps(1) [OF k(2)] k(1) less unfolding m
    by (subst bucket_sizes.simps) (simp add: size_list_step)
qed

section \<open>The calculated index\<close>

lemma leftmost_bounds:
  fixes num :: u64
  assumes "bit num p" "\<forall>j > p. \<not> bit num j" "p < 64"
  shows "2 ^ p \<le> unat num" "unat num < 2 ^ Suc p"
proof -
  have "odd (unat num div 2 ^ p)" using assms(1) by (simp add: bit_unsigned_iff bit_iff_odd [symmetric])
  then have "unat num div 2 ^ p \<noteq> 0" by (metis even_zero)
  then show "2 ^ p \<le> unat num" by (metis div_less not_le)
  have "take_bit (Suc p) num = num"
    by (rule bit_eqI) (use assms(2) not_less_eq in \<open>auto simp: bit_take_bit_iff\<close>)
  then have "unat num = unat num mod 2 ^ Suc p"
    by (metis unsigned_take_bit_eq take_bit_eq_mod)
  then show "unat num < 2 ^ Suc p" by (metis mod_less_divisor zero_less_power zero_less_numeral)
qed

lemma power_of_two_test:
  fixes num :: u64
  assumes "2 ^ p \<le> unat num" "unat num < 2 ^ Suc p" "p < 64"
  shows "num AND (num - 1) = 0 \<longleftrightarrow> unat num = 2 ^ p"
proof
  assume pow: "unat num = 2 ^ p"
  then have "num = 2 ^ p" using assms(3) by (intro unat_eqD64) simp
  then have "num AND (num - 1) = num AND mask p" by (simp add: exp_minus_one_mask)
  then have "unat (num AND (num - 1)) = unat num mod 2 ^ p" by (simp only: unat_and_mask)
  then show "num AND (num - 1) = 0" using pow by (simp add: unat_eq_0)
next
  assume zero: "num AND (num - 1) = 0"
  have top: "bit w p" if "2 ^ p \<le> unat w" "unat w < 2 ^ Suc p" for w :: u64
  proof -
    have "unat w div 2 ^ p = 1"
      by (rule div_nat_eqI) (use that in simp_all)
    then have "odd (unat w div 2 ^ p)" by simp
    then show ?thesis by (simp add: bit_unsigned_iff bit_iff_odd [symmetric])
  qed
  show "unat num = 2 ^ p"
  proof (rule ccontr)
    assume "unat num \<noteq> 2 ^ p"
    moreover have "unat (num - 1) = unat num - 1"
    proof -
      have "0 < unat num" by (rule less_le_trans [OF _ assms(1)]) simp
      then show ?thesis using unat_sub_u64 [of 1 num] by simp
    qed
    ultimately have "bit (num - 1) p" using assms by (intro top) simp_all
    then have "bit (num AND (num - 1)) p" using top [OF assms(1,2)] by (simp add: bit_and_iff)
    then show False using zero by simp
  qed
qed

lemma halfway_test:
  fixes m :: u64
  assumes "2 ^ p \<le> unat m" "unat m < 2 ^ Suc p" "1 \<le> p"
  shows "m AND push_bit (p - 1) 1 \<noteq> 0 \<longleftrightarrow> 3 * 2 ^ (p - 1) \<le> unat m"
proof -
  obtain q where p: "p = Suc q" using assms(3) by (cases p) auto
  have "m AND push_bit q 1 \<noteq> 0 \<longleftrightarrow> bit m q"
    by (simp add: and_exp_eq_0_iff_not_bit push_bit_of_1)
  also have "\<dots> \<longleftrightarrow> odd (unat m div 2 ^ q)" by (simp add: bit_unsigned_iff bit_iff_odd [symmetric])
  also have "\<dots> \<longleftrightarrow> 3 * 2 ^ q \<le> unat m"
  proof (cases "3 * 2 ^ q \<le> unat m")
    case True
    then have "unat m div 2 ^ q = 3" using assms(2) p by (intro div_nat_eqI) simp_all
    then show ?thesis using True by simp
  next
    case False
    then have "unat m div 2 ^ q = 2" using assms(1) p by (intro div_nat_eqI) simp_all
    then show ?thesis using False by simp
  qed
  finally show ?thesis using p by simp
qed

lemma sizeToIdx_finds:
  assumes k: "unat (MinBucketSizeExp s) = k" "3 \<le> k" "k \<le> 31" and sz: "0 < unat Size" "unat Size \<le> 2 ^ 31"
  obtains idx where "sizeToIdx Size s = Some idx" "unat idx < length (size_list k)"
    "unat Size \<le> size_list k ! unat idx"
    "0 < idx \<Longrightarrow> size_list k ! (unat idx - 1) < unat Size"
proof -
  have guards: "Size \<le> CutOff" "0 < Size" using sz by (simp_all add: CutOff_def word_le_nat_alt word_less_nat_alt)
  have first: "push_bit (unat (MinBucketSizeExp s)) 1 = (2 :: u64) ^ k" by (simp add: k push_bit_of_1)
  show thesis
  proof (cases "unat Size < 2 ^ k")
    case True
    then have "Size < 2 ^ k" using k by (simp add: word_less_nat_alt)
    then have "sizeToIdx Size s = Some 0" using guards first by (simp add: sizeToIdx_def)
    then show thesis
      by (rule that) (use True size_list_nth [of k k] k(3) in simp_all)
  next
    case False
    then have big: "\<not> Size < 2 ^ k" using k by (simp add: word_less_nat_alt)
    have "Size \<noteq> 0" using sz(1) by auto
    then obtain p where p: "getLeftmostSetBitPos Size = Some (of_nat p)" "p < 64" "bit Size p" "\<forall>j > p. \<not> bit Size j"
      by (rule getLeftmostSetBitPos_eq)
    note range = leftmost_bounds [OF p(3,4,2)]
    have kp: "k \<le> p"
    proof (rule ccontr)
      assume "\<not> k \<le> p"
      then have "(2 :: nat) ^ Suc p \<le> 2 ^ k" by (intro power_increasing) simp_all
      then show False using range(2) False by linarith
    qed
    have p31: "p \<le> 31"
    proof (rule ccontr)
      assume "\<not> p \<le> 31"
      then have "(2 :: nat) ^ 32 \<le> 2 ^ p" by (intro power_increasing) simp_all
      then show False using range(1) sz(2) by simp
    qed
    define pow where "pow \<longleftrightarrow> Size AND (Size - 1) = 0"
    define larger where "larger \<longleftrightarrow> \<not> pow \<and> (Size - 1) AND push_bit (p - 1) 1 \<noteq> 0"
    have pow: "pow \<longleftrightarrow> unat Size = 2 ^ p" unfolding pow_def by (rule power_of_two_test [OF range p(2)])
    have less1: "unat (Size - 1) = unat Size - 1" using unat_sub_u64 [of 1 Size] sz(1) by simp
    have larger: "larger \<longleftrightarrow> 3 * 2 ^ (p - 1) < unat Size"
    proof (cases pow)
      case True
      moreover have "(2 :: nat) ^ p < 3 * 2 ^ (p - 1)" using kp k(2) by (cases p) simp_all
      ultimately show ?thesis using pow by (simp add: larger_def)
    next
      case False
      then have "larger \<longleftrightarrow> 3 * 2 ^ (p - 1) \<le> unat (Size - 1)"
        unfolding larger_def using pow range kp k(2) less1 by (subst halfway_test [of p]) auto
      then show ?thesis using less1 sz(1) by linarith
    qed
    define idx :: u64 where "idx = (of_nat p - MinBucketSizeExp s) * 2 + (if pow then 0 else 1) + (if larger then 1 else 0)"
    define n where "n = 2 * (p - k) + (if pow then 0 else 1) + (if larger then 1 else 0)"
    have n: "idx = of_nat n"
    proof -
      have "MinBucketSizeExp s = of_nat k" using k by (intro unat_eqD64) (simp add: unat_of_nat_small)
      then show ?thesis using kp by (simp add: idx_def n_def of_nat_diff)
    qed
    have "n \<le> 64" unfolding n_def using p31 by (cases pow; cases larger; simp)
    then have u: "unat idx = n" unfolding n by (intro unat_of_nat_small) simp
    have pos: "unat (of_nat p - 1 :: u64) = p - 1"
    proof -
      have "unat (of_nat p :: u64) = p" using p31 by (intro unat_of_nat_small) simp
      then show ?thesis using unat_sub_u64 [of 1 "of_nat p"] kp k(2) by simp
    qed
    have found: "sizeToIdx Size s = Some idx"
      using guards first big p(1) pos by (simp add: sizeToIdx_def idx_def pow_def larger_def Let_def)
    have top: "p = 31 \<Longrightarrow> pow" using pow range(1) sz(2) by simp
    have half: "(2 :: nat) ^ Suc p = 4 * 2 ^ (p - 1)" "(2 :: nat) ^ p = 2 * 2 ^ (p - 1)"
      using kp k(2) by (cases p; simp)+
    show thesis
    proof (rule that [OF found])
      consider "pow" "\<not> larger" "n = 2 * (p - k)"
        | "\<not> pow" "\<not> larger" "n = 2 * (p - k) + 1" "p < 31"
        | "\<not> pow" "larger" "n = 2 * (Suc p - k)" "p < 31" "n - 1 = 2 * (p - k) + 1"
        using top p31 kp by (auto simp: n_def larger_def split: if_splits) force
      then have "n < length (size_list k) \<and> unat Size \<le> size_list k ! n
          \<and> (0 < n \<longrightarrow> size_list k ! (n - 1) < unat Size)"
      proof cases
        case 1
        have "size_list k ! (n - 1) < unat Size" if "0 < n"
        proof -
          have q: "k \<le> p - 1" "p - 1 < 31" "n - 1 = 2 * (p - 1 - k) + 1" using that 1(3) kp p31 by simp_all
          have "size_list k ! (n - 1) = 3 * 2 ^ (p - 1 - 1)"
            using size_list_nth(3) [OF q(1)] q(2,3) by simp
          moreover have "3 * 2 ^ (p - 1 - 1) < (2 :: nat) ^ p"
          proof -
            obtain m where "p = Suc (Suc m)" using kp k(2) by (cases p; cases "p - 1") auto
            then show ?thesis by simp
          qed
          ultimately show ?thesis using pow 1(1) by simp
        qed
        then show ?thesis using size_list_nth(1,2) [OF kp p31] 1 pow by simp
      next
        case 2
        have "2 ^ p < unat Size" using 2(1) pow range(1) by simp
        then show ?thesis
          using size_list_nth(2,3) [OF kp p31] 2 larger by simp
      next
        case 3
        have "unat Size \<le> 2 ^ Suc p" using range(2) by simp
        then show ?thesis
          using size_list_nth(1,2) [of k "Suc p"] size_list_nth(3) [OF kp p31] 3 larger kp by simp
      qed
      then show "unat idx < length (size_list k)" "unat Size \<le> size_list k ! unat idx"
        "0 < idx \<Longrightarrow> size_list k ! (unat idx - 1) < unat Size"
        using u by (auto simp: word_less_nat_alt)
    qed
  qed
qed

section \<open>Finding a bucket\<close>

text \<open>The buckets have the generated sizes, from the exponent of the state on.\<close>

definition sized :: "nat \<Rightarrow> 'w alloc_impl \<Rightarrow> bool" where
  "sized k s \<longleftrightarrow> 3 \<le> k \<and> k \<le> 31 \<and> unat (MinBucketSizeExp s) = k
     \<and> map (unat \<circ> bSize) (Buckets s) = size_list k"

lemma sized_bucket:
  assumes "sized k s" "i < length (Buckets s)"
  shows "unat (bSize (Buckets s ! i)) = size_list k ! i" "size_list k ! i \<in> set (size_list k)"
    "2 ^ k \<le> unat (bSize (Buckets s ! i))" "unat (bSize (Buckets s ! i)) \<le> 2 ^ 31"
proof -
  have m: "map (unat \<circ> bSize) (Buckets s) = size_list k" using assms(1) by (simp add: sized_def)
  show nth: "unat (bSize (Buckets s ! i)) = size_list k ! i" using assms(2) by (simp flip: m)
  show in_list: "size_list k ! i \<in> set (size_list k)" using assms(2) by (simp flip: m)
  show "2 ^ k \<le> unat (bSize (Buckets s ! i))" "unat (bSize (Buckets s ! i)) \<le> 2 ^ 31"
    using size_list_bounds [OF in_list] assms(1) by (simp_all add: nth sized_def)
qed

lemma findBucket_finds:
  assumes s: "sized k s" and sz: "0 < unat Size" "unat Size \<le> 2 ^ 31"
  obtains i where "findBucket Size s = Some i" "i < length (Buckets s)" "Size \<le> bSize (Buckets s ! i)"
    "\<And>n. n \<in> set (size_list k) \<Longrightarrow> unat Size \<le> n \<Longrightarrow> unat (bSize (Buckets s ! i)) \<le> n"
proof -
  have k: "unat (MinBucketSizeExp s) = k" "3 \<le> k" "k \<le> 31" and m: "map (unat \<circ> bSize) (Buckets s) = size_list k"
    using s by (simp_all add: sized_def)
  obtain idx where idx: "sizeToIdx Size s = Some idx" "unat idx < length (size_list k)"
      "unat Size \<le> size_list k ! unat idx" "0 < idx \<Longrightarrow> size_list k ! (unat idx - 1) < unat Size"
    using sizeToIdx_finds [OF k sz] by blast
  have len: "length (Buckets s) = length (size_list k)" by (simp flip: m)
  have at: "bucket_at s j = Some (Buckets s ! j)" "unat (bSize (Buckets s ! j)) = size_list k ! j"
    if "j < length (size_list k)" for j
    using that sized_bucket(1) [OF s] by (simp_all add: bucket_at_def len)
  have "findBucket Size s = Some (unat idx)"
  proof (cases "0 < idx")
    case True
    then have "unat (idx - 1) = unat idx - 1" using unat_sub_u64 [of 1 idx] by (simp add: word_less_nat_alt Suc_le_eq)
    then show ?thesis
      using idx at [OF idx(2)] at [of "unat idx - 1"] True
      by (simp add: findBucket_def word_le_nat_alt word_less_nat_alt)
  qed (use idx at [OF idx(2)] in \<open>simp add: findBucket_def word_le_nat_alt\<close>)
  then show thesis
  proof (rule that)
    show "unat idx < length (Buckets s)" "Size \<le> bSize (Buckets s ! unat idx)"
      using idx(2,3) at [OF idx(2)] by (simp_all add: len word_le_nat_alt)
  next
    fix n assume n: "n \<in> set (size_list k)" "unat Size \<le> n"
    show "unat (bSize (Buckets s ! unat idx)) \<le> n"
    proof (rule ccontr)
      assume less: "\<not> unat (bSize (Buckets s ! unat idx)) \<le> n"
      obtain j where j: "j < length (size_list k)" "size_list k ! j = n"
        using n(1) by (auto simp: in_set_conv_nth)
      have mono: "u \<le> v \<Longrightarrow> v < length (size_list k) \<Longrightarrow> size_list k ! u \<le> size_list k ! v" for u v
        using sorted_nth_mono [OF size_list_sorted] k by simp
      have "j < unat idx"
        using less mono [of "unat idx" j] j at [OF idx(2)] by (metis not_less)
      then have "n \<le> size_list k ! (unat idx - 1)" "0 < idx"
        using mono [of j "unat idx - 1"] idx(2) j by (auto simp: word_less_nat_alt)
      then show False using idx(4) n(2) by simp
    qed
  qed
qed

chapter \<open>The state without statistics\<close>

text \<open>
  The part of the state that decides where memory is: the slabs, the table of addresses, the
  lists of the buckets and the provider. Statistics, limits and the last status are outside of
  it, so that the operations on them are equations that keep the core.
\<close>

section \<open>The core\<close>

record lists =
  l_size :: u64
  l_avail :: "ptr list"
  l_unavail :: "ptr list"

record 'w core =
  c_known :: "(u64 \<times> ptr) list"
  c_slabs :: "ptr \<rightharpoonup> slab"
  c_lists :: "lists list"
  c_min :: u64
  c_max :: u64
  c_exp :: u64
  c_page :: u64
  c_world :: 'w

definition lists_of :: "bucket \<Rightarrow> lists" where
  "lists_of b = \<lparr>l_size = bSize b, l_avail = AvailableSlabs b, l_unavail = UnavailableSlabs b\<rparr>"

lemma lists_of_simps [simp]:
  "l_size (lists_of b) = bSize b" "l_avail (lists_of b) = AvailableSlabs b"
  "l_unavail (lists_of b) = UnavailableSlabs b"
  by (simp_all add: lists_of_def)

definition core :: "'w alloc_impl \<Rightarrow> 'w core" where
  "core s = \<lparr>c_known = KnownSlabs s, c_slabs = slabs s, c_lists = map lists_of (Buckets s),
     c_min = SlabMinSize (params s), c_max = MaxPoolableSize (params s), c_exp = MinBucketSizeExp s,
     c_page = ProviderMinPageSize s, c_world = provider_world s\<rparr>"

lemma core_simps [simp]:
  "c_known (core s) = KnownSlabs s" "c_slabs (core s) = slabs s" "c_lists (core s) = map lists_of (Buckets s)"
  "c_min (core s) = slab_min_size s" "c_max (core s) = MaxPoolableSize (params s)"
  "c_exp (core s) = MinBucketSizeExp s" "c_page (core s) = ProviderMinPageSize s"
  "c_world (core s) = provider_world s"
  by (simp_all add: core_def slab_min_size_def)

lemma core_length: "core t = core s \<Longrightarrow> length (Buckets t) = length (Buckets s)"
  by (metis core_simps(3) length_map)

lemma core_bucket:
  assumes "core t = core s" "i < length (Buckets s)"
  shows "bSize (Buckets t ! i) = bSize (Buckets s ! i)" "AvailableSlabs (Buckets t ! i) = AvailableSlabs (Buckets s ! i)"
    "UnavailableSlabs (Buckets t ! i) = UnavailableSlabs (Buckets s ! i)"
proof -
  have "map lists_of (Buckets t) ! i = map lists_of (Buckets s) ! i" using assms(1) by (metis core_simps(3))
  then have "lists_of (Buckets t ! i) = lists_of (Buckets s ! i)"
    using assms(2) core_length [OF assms(1)] by simp
  then show "bSize (Buckets t ! i) = bSize (Buckets s ! i)" "AvailableSlabs (Buckets t ! i) = AvailableSlabs (Buckets s ! i)"
    "UnavailableSlabs (Buckets t ! i) = UnavailableSlabs (Buckets s ! i)"
    by (simp_all add: lists_of_def)
qed

lemma core_sized: "core t = core s \<Longrightarrow> sized k t \<longleftrightarrow> sized k s"
proof -
  assume c: "core t = core s"
  then have "MinBucketSizeExp t = MinBucketSizeExp s" "map l_size (c_lists (core t)) = map l_size (c_lists (core s))"
    by (metis core_simps(6), simp)
  then have "MinBucketSizeExp t = MinBucketSizeExp s" "map bSize (Buckets t) = map bSize (Buckets s)"
    by (simp_all add: comp_def)
  then have "MinBucketSizeExp t = MinBucketSizeExp s" "map unat (map bSize (Buckets t)) = map unat (map bSize (Buckets s))"
    by simp_all
  then show ?thesis by (simp add: sized_def)
qed

lemma core_min: "core t = core s \<Longrightarrow> slab_min_size t = slab_min_size s \<and> ChunkCutOff t = ChunkCutOff s
    \<and> MaxPoolableSize (params t) = MaxPoolableSize (params s) \<and> slabs t = slabs s \<and> KnownSlabs t = KnownSlabs s
    \<and> provider_world t = provider_world s"
  by (metis core_simps ChunkCutOff_def)

lemma bucket_at_Some [simp]: "i < length (Buckets s) \<Longrightarrow> bucket_at s i = Some (Buckets s ! i)"
  by (simp add: bucket_at_def)

lemma set_bucket_simps [simp]:
  "KnownSlabs (set_bucket i b s) = KnownSlabs s" "slabs (set_bucket i b s) = slabs s"
  "Buckets (set_bucket i b s) = (Buckets s)[i := b]" "params (set_bucket i b s) = params s"
  "MinBucketSizeExp (set_bucket i b s) = MinBucketSizeExp s" "ProviderMinPageSize (set_bucket i b s) = ProviderMinPageSize s"
  "provider_world (set_bucket i b s) = provider_world s"
  by (simp_all add: set_bucket_def)

lemma set_slab_simps [simp]:
  "KnownSlabs (set_slab x sl s) = KnownSlabs s" "slabs (set_slab x sl s) = (slabs s)(x \<mapsto> sl)"
  "Buckets (set_slab x sl s) = Buckets s" "params (set_slab x sl s) = params s"
  "MinBucketSizeExp (set_slab x sl s) = MinBucketSizeExp s" "ProviderMinPageSize (set_slab x sl s) = ProviderMinPageSize s"
  "provider_world (set_slab x sl s) = provider_world s"
  by (simp_all add: set_slab_def)

lemma core_set_bucket:
  "i < length (Buckets s) \<Longrightarrow> core (set_bucket i b s) = (core s)\<lparr>c_lists := (map lists_of (Buckets s))[i := lists_of b]\<rparr>"
  by (simp add: core_def map_update)

lemma core_set_bucket_same:
  "i < length (Buckets s) \<Longrightarrow> lists_of b = lists_of (Buckets s ! i) \<Longrightarrow> core (set_bucket i b s) = core s"
  by (simp add: core_def map_update list_update_same_conv)

lemma core_set_slab: "core (set_slab x sl s) = (core s)\<lparr>c_slabs := (slabs s)(x \<mapsto> sl)\<rparr>"
  by (simp add: core_def)

lemma core_set_TotalSize [simp]: "core (set_TotalSize n s) = core s"
  by (simp add: core_def set_TotalSize_def split: option.split)

lemma core_status [simp]: "core (s\<lparr>pool_last_status := e\<rparr>) = core s"
  by (simp add: core_def)

section \<open>Statistics and limits keep the core\<close>

lemma updateStats_core:
  assumes "i < length (Buckets s)"
  obtains t where "updateStats i u v s = Some t" "core t = core s"
proof (cases "PoolTrace (params s) = 0")
  case True
  then show thesis using that [of s] assms by (simp add: updateStats_def)
next
  case False
  define t where "t = the (updateStats i u v s)"
  have "updateStats i u v s = Some t" "core t = core s"
    using assms False
    by (simp_all add: t_def updateStats_def Let_def core_def map_update list_update_same_conv lists_of_def)
  then show thesis by (rule that)
qed

lemma countAlloc_core:
  assumes "i < length (Buckets s)"
  obtains t where "countAlloc i u s = Some t" "core t = core s"
  using that assms by (simp add: countAlloc_def core_set_bucket_same lists_of_def)

lemma countFree_core:
  assumes "i < length (Buckets s)"
  obtains t where "countFree i s = Some t" "core t = core s"
  using that assms by (simp add: countFree_def core_set_bucket_same lists_of_def)

lemma decrementPool_core:
  assumes "i < length (Buckets s)"
  obtains t where "decrementPool i s = Some t" "core t = core s"
proof -
  obtain t where t: "updateStats i 1 (- 1) s = Some t" "core t = core s" by (rule updateStats_core [OF assms])
  then show thesis
    using that assms core_length [OF t(2)] by (simp add: decrementPool_def)
qed

lemma CanPool_core:
  assumes i: "i < length (Buckets s)"
  obtains b t where "CanPool i s = Some (b, t)" "core t = core s"
proof -
  let ?s1 = "set_TotalSize (TotalSize (getLimits s) + SlabAllocSize s (Buckets s ! i)) s"
  let ?s2 = "set_bucket i ((Buckets s ! i)\<lparr>chunkedSlabsInPool := chunkedSlabsInPool (Buckets s ! i) + 1\<rparr>) ?s1"
  have same: "Buckets ?s1 = Buckets s" by (simp add: set_TotalSize_def split: option.split)
  have c2: "core ?s2 = core s"
    using i same by (subst core_set_bucket_same) (simp_all add: lists_of_def)
  obtain t1 where t1: "updateStats i (- 1) 1 ?s1 = Some t1" "core t1 = core ?s1"
    by (rule updateStats_core [of i ?s1]) (use i same in simp)
  obtain t2 where t2: "updateStats i (- 1) 1 ?s2 = Some t2" "core t2 = core ?s2"
    by (rule updateStats_core [of i ?s2]) (use i same in simp)
  obtain t3 where t3: "updateStats i (- 1) 0 s = Some t3" "core t3 = core s"
    by (rule updateStats_core [OF i])
  have "\<exists>b t. CanPool i s = Some (b, t) \<and> core t = core s"
    using i t1 t2 t3 c2 by (simp add: CanPool_def Let_def ex_bool_eq)
  then show thesis using that by blast
qed

section \<open>The operations on the core\<close>

definition move_to :: "slab_list \<Rightarrow> ptr \<Rightarrow> lists \<Rightarrow> lists" where
  "move_to l x b = (case l of
     Available \<Rightarrow> b\<lparr>l_avail := x # l_avail b\<rparr>
   | Unavailable \<Rightarrow> b\<lparr>l_unavail := x # l_unavail b\<rparr>)"

definition take_from :: "slab_list \<Rightarrow> ptr \<Rightarrow> lists \<Rightarrow> lists" where
  "take_from l x b = (case l of
     Available \<Rightarrow> b\<lparr>l_avail := remove1 x (l_avail b)\<rparr>
   | Unavailable \<Rightarrow> b\<lparr>l_unavail := remove1 x (l_unavail b)\<rparr>)"

lemma push_slab_core:
  assumes "i < length (Buckets s)" "slabs s x = Some sl"
  obtains t where "push_slab i l x s = Some t"
    "core t = (core s)\<lparr>c_slabs := (slabs s)(x \<mapsto> sl\<lparr>SlabListIter := Some l\<rparr>),
       c_lists := (map lists_of (Buckets s))[i := move_to l x (lists_of (Buckets s ! i))]\<rparr>"
proof -
  define b where "b = (case l of
         Available \<Rightarrow> (Buckets s ! i)\<lparr>AvailableSlabs := x # AvailableSlabs (Buckets s ! i)\<rparr>
       | Unavailable \<Rightarrow> (Buckets s ! i)\<lparr>UnavailableSlabs := x # UnavailableSlabs (Buckets s ! i)\<rparr>)"
  have "lists_of b = move_to l x (lists_of (Buckets s ! i))"
    by (simp add: b_def move_to_def lists_of_def split: slab_list.split)
  then show thesis
    using that assms
    by (simp add: push_slab_def setIterator_def core_set_slab core_set_bucket flip: b_def)
qed

lemma erase_slab_core:
  assumes "i < length (Buckets s)" "slabs s x = Some sl" "SlabListIter sl = Some l"
  obtains t where "erase_slab i l x s = Some t"
    "core t = (core s)\<lparr>c_lists := (map lists_of (Buckets s))[i := take_from l x (lists_of (Buckets s ! i))]\<rparr>"
proof -
  define b where "b = (case l of
         Available \<Rightarrow> (Buckets s ! i)\<lparr>AvailableSlabs := remove1 x (AvailableSlabs (Buckets s ! i))\<rparr>
       | Unavailable \<Rightarrow> (Buckets s ! i)\<lparr>UnavailableSlabs := remove1 x (UnavailableSlabs (Buckets s ! i))\<rparr>)"
  have "lists_of b = take_from l x (lists_of (Buckets s ! i))"
    by (simp add: b_def take_from_def lists_of_def split: slab_list.split)
  then show thesis
    using that assms by (simp add: erase_slab_def core_set_bucket flip: b_def)
qed

end
