(* ===== verification/Disjoint_Invariant.thy ===== *)
theory Disjoint_Invariant
  imports Disjoint_Core
begin

text \<open>
  The invariant of the disjoint pool, over the ranges that the provider has handed out: every
  slab lies in a range of its own, is in exactly the list that its iterator says, counts its
  chunks, and is found under both addresses it is registered at. What the pool has given to
  its user, \<open>live\<close>, are the chunks that are marked in the slabs, the slabs that are used
  as a whole, and the ranges that back no slab. Then the steps that the operations are made of,
  and that each of them keeps the invariant.
\<close>

section \<open>Ranges and the provider\<close>

type_synonym range = "nat \<times> nat"

definition ranges_apart :: "range \<Rightarrow> range \<Rightarrow> bool" where
  "ranges_apart r q \<longleftrightarrow> fst r + snd r \<le> fst q \<or> fst q + snd q \<le> fst r"

definition ranges_ok :: "range set \<Rightarrow> bool" where
  "ranges_ok R \<longleftrightarrow> (\<forall>(a, n)\<in>R. 0 < a \<and> 0 < n \<and> a + n < 2 ^ 64)
     \<and> (\<forall>r\<in>R. \<forall>q\<in>R. r \<noteq> q \<longrightarrow> ranges_apart r q)"

text \<open>
  What the pool relies on from its provider, over the set of ranges that are handed out: a
  range that is handed out overlaps none of them, and a range that is handed out can be looked
  up in the tracker and released.
\<close>

definition host_ok :: "'w pool_host \<Rightarrow> ('w \<Rightarrow> range set) \<Rightarrow> bool" where
  "host_ok H V \<longleftrightarrow> (\<forall>w. ranges_ok (V w) \<longrightarrow>
     (\<forall>sz al. sz \<noteq> 0 \<longrightarrow> (\<exists>r p w1. host_alloc H sz al w = Some ((r, p), w1) \<and> ranges_ok (V w1) \<and>
        (if r = UMF_RESULT_SUCCESS
         then (unat p, unat sz) \<notin> V w \<and> V w1 = insert (unat p, unat sz) (V w) else V w1 = V w)))
   \<and> (\<forall>p n. (unat p, unat n) \<in> V w \<longrightarrow>
        (\<exists>w1. host_free H p n w = Some (UMF_RESULT_SUCCESS, w1) \<and> V w1 = V w - {(unat p, unat n)})
      \<and> (\<exists>i. host_info H p w = Some (UMF_RESULT_SUCCESS, Some i) \<and> info_baseSize i = n)))"

lemma ranges_ok_subset: "ranges_ok R \<Longrightarrow> Q \<subseteq> R \<Longrightarrow> ranges_ok Q"
  unfolding ranges_ok_def by (meson subsetD)

lemma ranges_okD:
  assumes "ranges_ok R" "(a, n) \<in> R"
  shows "0 < a" "0 < n" "a + n < 2 ^ 64"
  using assms by (auto simp: ranges_ok_def)

lemma ranges_ok_apart: "ranges_ok R \<Longrightarrow> r \<in> R \<Longrightarrow> q \<in> R \<Longrightarrow> r \<noteq> q \<Longrightarrow> ranges_apart r q"
  by (auto simp: ranges_ok_def)

lemma apart_same_start:
  assumes "ranges_ok R" "(a, n) \<in> R" "(a, m) \<in> R"
  shows "n = m"
  using ranges_ok_apart [OF assms] ranges_okD(2) [OF assms(1)] assms(2,3) by (fastforce simp: ranges_apart_def)

lemma host_alloc_cases:
  assumes "host_ok H V" "ranges_ok (V w)" "sz \<noteq> 0"
  obtains r p w1 where "host_alloc H sz al w = Some ((r, p), w1)" "ranges_ok (V w1)"
    "r = UMF_RESULT_SUCCESS \<Longrightarrow> (unat p, unat sz) \<notin> V w \<and> V w1 = insert (unat p, unat sz) (V w)"
    "r \<noteq> UMF_RESULT_SUCCESS \<Longrightarrow> V w1 = V w"
  using assms unfolding host_ok_def by (metis (no_types))

lemma host_free_held:
  assumes "host_ok H V" "ranges_ok (V w)" "(unat p, unat n) \<in> V w"
  obtains w1 i where "host_free H p n w = Some (UMF_RESULT_SUCCESS, w1)" "V w1 = V w - {(unat p, unat n)}"
    "host_info H p w = Some (UMF_RESULT_SUCCESS, Some i)" "info_baseSize i = n"
  using assms unfolding host_ok_def by blast

section \<open>Slabs\<close>

definition size_at :: "'w core \<Rightarrow> nat \<Rightarrow> nat" where
  "size_at c i = unat (l_size (c_lists c ! i))"

definition min_of :: "'w core \<Rightarrow> nat" where
  "min_of c = unat (c_min c)"

definition chunk_mode :: "'w core \<Rightarrow> nat \<Rightarrow> bool" where
  "chunk_mode c i \<longleftrightarrow> size_at c i \<le> min_of c div 2"

definition alloc_size :: "'w core \<Rightarrow> nat \<Rightarrow> nat" where
  "alloc_size c i = max (size_at c i) (min_of c)"

definition slab_range :: "'w core \<Rightarrow> slab \<Rightarrow> range" where
  "slab_range c sl = (unat (MemPtr sl), alloc_size c (slab_bucket sl))"

definition chunk_ranges :: "'w core \<Rightarrow> slab \<Rightarrow> range set" where
  "chunk_ranges c sl = {(unat (MemPtr sl) + j * size_at c (slab_bucket sl), size_at c (slab_bucket sl)) |j.
     j < length (Chunks sl) \<and> Chunks sl ! j}"

definition slab_live :: "'w core \<Rightarrow> slab \<Rightarrow> range set" where
  "slab_live c sl = (if chunk_mode c (slab_bucket sl) then chunk_ranges c sl
     else if SlabListIter sl = Some Unavailable then {(unat (MemPtr sl), size_at c (slab_bucket sl))} else {})"

definition allocated :: "slab \<Rightarrow> nat" where
  "allocated sl = length (filter id (Chunks sl))"

definition slab_wf :: "'w core \<Rightarrow> slab \<Rightarrow> bool" where
  "slab_wf c sl \<longleftrightarrow> slab_bucket sl < length (c_lists c)
     \<and> length (Chunks sl) = min_of c div size_at c (slab_bucket sl)
     \<and> unat (NumAllocated sl) = allocated sl
     \<and> unat (FirstFreeChunkIdx sl) \<le> length (Chunks sl)
     \<and> (\<forall>j<unat (FirstFreeChunkIdx sl). Chunks sl ! j)
     \<and> SlabListIter sl \<noteq> None
     \<and> (chunk_mode c (slab_bucket sl) \<longrightarrow>
          (SlabListIter sl = Some Unavailable \<longleftrightarrow> allocated sl = length (Chunks sl)))"

definition known_at :: "'w core \<Rightarrow> slab \<Rightarrow> u64 set" where
  "known_at c sl = {AlignPtrDown (MemPtr sl) (c_min c), AlignPtrDown (MemPtr sl) (c_min c) + c_min c}"

definition in_list :: "'w core \<Rightarrow> nat \<Rightarrow> slab_list \<Rightarrow> ptr \<Rightarrow> bool" where
  "in_list c i l x \<longleftrightarrow> (\<exists>sl. c_slabs c x = Some sl \<and> slab_bucket sl = i \<and> SlabListIter sl = Some l)"

definition lists_ok :: "'w core \<Rightarrow> bool" where
  "lists_ok c \<longleftrightarrow> (\<forall>i<length (c_lists c).
     distinct (l_avail (c_lists c ! i)) \<and> (\<forall>x. x \<in> set (l_avail (c_lists c ! i)) \<longleftrightarrow> in_list c i Available x)
   \<and> distinct (l_unavail (c_lists c ! i)) \<and> (\<forall>x. x \<in> set (l_unavail (c_lists c ! i)) \<longleftrightarrow> in_list c i Unavailable x))"

definition known_ok :: "'w core \<Rightarrow> bool" where
  "known_ok c \<longleftrightarrow> distinct (c_known c)
     \<and> (\<forall>a x. (a, x) \<in> set (c_known c) \<longleftrightarrow> (\<exists>sl. c_slabs c x = Some sl \<and> a \<in> known_at c sl))"

definition cfg_ok :: "nat \<Rightarrow> nat \<Rightarrow> 'w core \<Rightarrow> bool" where
  "cfg_ok k e c \<longleftrightarrow> 3 \<le> k \<and> k \<le> 31 \<and> k < e \<and> e < 64 \<and> c_min c = 2 ^ e \<and> unat (c_exp c) = k
     \<and> map (unat \<circ> l_size) (c_lists c) = size_list k \<and> unat (c_max c) \<le> 2 ^ 31"

definition slabs_ok :: "('w \<Rightarrow> range set) \<Rightarrow> 'w core \<Rightarrow> bool" where
  "slabs_ok V c \<longleftrightarrow> (\<forall>x sl. c_slabs c x = Some sl \<longrightarrow> slab_wf c sl \<and> slab_range c sl \<in> V (c_world c))
     \<and> (\<forall>x y sl sm. c_slabs c x = Some sl \<longrightarrow> c_slabs c y = Some sm \<longrightarrow> MemPtr sl = MemPtr sm \<longrightarrow> x = y)"

definition pool_inv :: "('w \<Rightarrow> range set) \<Rightarrow> nat \<Rightarrow> nat \<Rightarrow> 'w core \<Rightarrow> bool" where
  "pool_inv V k e c \<longleftrightarrow> cfg_ok k e c \<and> ranges_ok (V (c_world c)) \<and> slabs_ok V c \<and> lists_ok c \<and> known_ok c"

definition backing :: "'w core \<Rightarrow> range set" where
  "backing c = {slab_range c sl |x sl. c_slabs c x = Some sl}"

definition live :: "('w \<Rightarrow> range set) \<Rightarrow> 'w core \<Rightarrow> range set" where
  "live V c = (\<Union>x\<in>dom (c_slabs c). slab_live c (the (c_slabs c x))) \<union> (V (c_world c) - backing c)"

section \<open>Consequences\<close>

lemma cfg_okD:
  assumes "cfg_ok k e c"
  shows "3 \<le> k" "k \<le> 31" "k < e" "e < 64" "c_min c = 2 ^ e" "unat (c_exp c) = k" "unat (c_max c) \<le> 2 ^ 31"
    "min_of c = 2 ^ e"
  using assms by (simp_all add: cfg_ok_def min_of_def)

lemma cfg_sized: "cfg_ok k e (core s) \<Longrightarrow> sized k s"
  by (simp add: cfg_ok_def sized_def comp_def)

lemma size_at_core [simp]: "i < length (Buckets s) \<Longrightarrow> size_at (core s) i = unat (bSize (Buckets s ! i))"
  by (simp add: size_at_def)

lemma size_at_bounds:
  assumes "cfg_ok k e c" "i < length (c_lists c)"
  shows "2 ^ k \<le> size_at c i" "size_at c i \<le> 2 ^ 31" "0 < size_at c i"
proof -
  have "size_at c i = size_list k ! i" "length (c_lists c) = length (size_list k)"
    using assms unfolding cfg_ok_def size_at_def by (metis comp_apply length_map nth_map)+
  then have "size_at c i \<in> set (size_list k)" using assms(2) by simp
  from size_list_bounds [OF this] show "2 ^ k \<le> size_at c i" "size_at c i \<le> 2 ^ 31"
    using assms(1) by (simp_all add: cfg_ok_def)
  then show "0 < size_at c i" by (metis less_le_trans zero_less_numeral zero_less_power)
qed

lemma chunk_mode_core:
  assumes "i < length (Buckets s)"
  shows "chunk_mode (core s) i \<longleftrightarrow> bSize (Buckets s ! i) \<le> ChunkCutOff s"
  using assms by (simp add: chunk_mode_def min_of_def ChunkCutOff_def word_le_nat_alt unat_div)

lemma alloc_size_core:
  "i < length (Buckets s) \<Longrightarrow> alloc_size (core s) i = unat (SlabAllocSize s (Buckets s ! i))"
  by (simp add: alloc_size_def min_of_def SlabAllocSize_def max_def word_le_nat_alt)

lemma pool_invD:
  assumes "pool_inv V k e c"
  shows "cfg_ok k e c" "ranges_ok (V (c_world c))" "slabs_ok V c" "lists_ok c" "known_ok c"
  using assms by (simp_all add: pool_inv_def)

lemma slab_facts:
  assumes "pool_inv V k e c" "c_slabs c x = Some sl"
  shows "slab_wf c sl" "slab_range c sl \<in> V (c_world c)" "0 < unat (MemPtr sl)"
    "unat (MemPtr sl) + alloc_size c (slab_bucket sl) < 2 ^ 64" "unat (MemPtr sl) + min_of c < 2 ^ 64"
    "slab_bucket sl < length (c_lists c)"
proof -
  show wf: "slab_wf c sl" and r: "slab_range c sl \<in> V (c_world c)"
    using assms by (auto simp: pool_inv_def slabs_ok_def)
  show "0 < unat (MemPtr sl)" "unat (MemPtr sl) + alloc_size c (slab_bucket sl) < 2 ^ 64"
    using ranges_okD [OF pool_invD(2) [OF assms(1)] r [unfolded slab_range_def]] by simp_all
  then show "unat (MemPtr sl) + min_of c < 2 ^ 64" by (simp add: alloc_size_def)
  show "slab_bucket sl < length (c_lists c)" using wf by (simp add: slab_wf_def)
qed

lemma slab_range_inj:
  assumes "pool_inv V k e c" "c_slabs c x = Some sl" "c_slabs c y = Some sm" "slab_range c sl = slab_range c sm"
  shows "x = y"
proof -
  have "MemPtr sl = MemPtr sm" by (rule unat_eqD64) (use assms(4) in \<open>simp add: slab_range_def\<close>)
  then show ?thesis using assms(1-3) by (auto simp: pool_inv_def slabs_ok_def)
qed

lemma slabs_apart:
  assumes "pool_inv V k e c" "c_slabs c x = Some sl" "c_slabs c y = Some sm" "x \<noteq> y"
  shows "ranges_apart (slab_range c sl) (slab_range c sm)"
  using ranges_ok_apart [OF pool_invD(2) [OF assms(1)] slab_facts(2) [OF assms(1,2)] slab_facts(2) [OF assms(1,3)]]
    slab_range_inj [OF assms(1-3)] assms(4) by blast

text \<open>An address in the first \<open>SlabMinSize\<close> bytes of a slab leads to it and to no other slab.\<close>

definition holds_addr :: "'w core \<Rightarrow> slab \<Rightarrow> u64 \<Rightarrow> bool" where
  "holds_addr c sl p \<longleftrightarrow> unat (MemPtr sl) \<le> unat p \<and> unat p < unat (MemPtr sl) + min_of c"

lemma holds_addr_iff:
  assumes "pool_inv V k e (core s)" "slabs s x = Some sl"
  shows "MemPtr sl \<le> p \<and> p < getEnd s sl \<longleftrightarrow> holds_addr (core s) sl p"
proof -
  have "unat (getEnd s sl) = unat (MemPtr sl) + min_of (core s)"
    using slab_facts(5) [OF assms(1), of x sl] assms(2) unfolding getEnd_def min_of_def
    by (subst unat_add_u64) simp_all
  then show ?thesis by (simp add: holds_addr_def word_le_nat_alt word_less_nat_alt)
qed

lemma holds_addr_unique:
  assumes "pool_inv V k e c" "c_slabs c x = Some sl" "c_slabs c y = Some sm" "holds_addr c sl p" "holds_addr c sm p"
  shows "x = y"
proof (rule ccontr)
  assume "x \<noteq> y"
  then have "ranges_apart (slab_range c sl) (slab_range c sm)" by (rule slabs_apart [OF assms(1-3)])
  then show False using assms(4,5) by (auto simp: ranges_apart_def slab_range_def holds_addr_def alloc_size_def)
qed

lemma holds_addr_known:
  assumes inv: "pool_inv V k e c" and sl: "c_slabs c x = Some sl" and p: "holds_addr c sl p"
  shows "(AlignPtrDown p (c_min c), x) \<in> set (c_known c)"
proof -
  define S where "S = min_of c"
  note cfg = cfg_okD [OF pool_invD(1) [OF inv]]
  have S: "S = 2 ^ e" "0 < S" using cfg by (simp_all add: S_def)
  have down: "unat (AlignPtrDown q (c_min c)) = unat q div S * S" for q
    unfolding cfg(5) S(1) using unat_ALIGN_DOWN [of q e] by (simp add: AlignPtrDown_def ALIGN_DOWN_def)
  let ?m = "unat (MemPtr sl)"
  have "?m div S * S + S \<le> ?m + S" by simp
  then have "?m div S * S + S < 2 ^ 64" using slab_facts(5) [OF inv sl] unfolding S_def by linarith
  then have high: "unat (AlignPtrDown (MemPtr sl) (c_min c) + c_min c) = (?m div S + 1) * S"
    using down [of "MemPtr sl"] by (subst unat_add_u64) (simp_all add: S_def min_of_def)
  have range: "?m \<le> unat p" "unat p < ?m + S" using p by (simp_all add: holds_addr_def S_def)
  have "?m div S \<le> unat p div S" by (rule div_le_mono [OF range(1)])
  moreover have "unat p div S \<le> (?m + S) div S" using range(2) by (intro div_le_mono) simp
  ultimately consider "unat p div S = ?m div S" | "unat p div S = ?m div S + 1"
  proof -
    have "(?m + S) div S = ?m div S + 1" by (rule div_add_self2) (use S(2) in simp)
    then have "unat p div S = ?m div S \<or> unat p div S = ?m div S + 1"
      using \<open>?m div S \<le> unat p div S\<close> \<open>unat p div S \<le> (?m + S) div S\<close> by linarith
    then show thesis using that by blast
  qed
  then have "AlignPtrDown p (c_min c) \<in> known_at c sl"
  proof cases
    case 1
    then have "AlignPtrDown p (c_min c) = AlignPtrDown (MemPtr sl) (c_min c)"
      by (intro unat_eqD64) (simp add: down)
    then show ?thesis by (simp add: known_at_def)
  next
    case 2
    then have "AlignPtrDown p (c_min c) = AlignPtrDown (MemPtr sl) (c_min c) + c_min c"
      using high by (intro unat_eqD64) (simp add: down)
    then show ?thesis by (simp add: known_at_def)
  qed
  then show ?thesis using pool_invD(5) [OF inv] sl by (auto simp: known_ok_def)
qed

lemma find_known_None:
  assumes "\<forall>(a, x)\<in>set l. \<exists>sl. slabs s x = Some sl \<and> \<not> (MemPtr sl \<le> p \<and> p < getEnd s sl)"
  shows "find_known s a p l = Some None"
  using assms by (induction s a p l rule: find_known.induct) auto

lemma find_known_Some:
  assumes "(a, x) \<in> set l" "\<forall>(b, y)\<in>set l. \<exists>sl. slabs s y = Some sl \<and> (MemPtr sl \<le> p \<and> p < getEnd s sl \<longleftrightarrow> y = x)"
  shows "find_known s a p l = Some (Some x)"
  using assms by (induction s a p l rule: find_known.induct) auto

chapter \<open>Single steps\<close>

text \<open>
  The steps that the operations of the disjoint pool are made of, on the core: a slab is added,
  changed in place, moved between the two lists of its bucket, or removed. Each keeps the
  invariant, and changes the ranges in use only at its slab.
\<close>

section \<open>Steps\<close>

definition slab_core :: "ptr \<Rightarrow> slab \<Rightarrow> 'w core \<Rightarrow> 'w core" where
  "slab_core x sl c = c\<lparr>c_slabs := (c_slabs c)(x \<mapsto> sl)\<rparr>"

definition push_core :: "nat \<Rightarrow> slab_list \<Rightarrow> ptr \<Rightarrow> 'w core \<Rightarrow> 'w core" where
  "push_core i l x c = c\<lparr>c_slabs := (c_slabs c)(x \<mapsto> (the (c_slabs c x))\<lparr>SlabListIter := Some l\<rparr>),
     c_lists := (c_lists c)[i := move_to l x (c_lists c ! i)]\<rparr>"

definition erase_core :: "nat \<Rightarrow> slab_list \<Rightarrow> ptr \<Rightarrow> 'w core \<Rightarrow> 'w core" where
  "erase_core i l x c = c\<lparr>c_lists := (c_lists c)[i := take_from l x (c_lists c ! i)]\<rparr>"

definition reg_core :: "ptr \<Rightarrow> 'w core \<Rightarrow> 'w core" where
  "reg_core x c = (let a = AlignPtrDown (MemPtr (the (c_slabs c x))) (c_min c) in
     c\<lparr>c_known := c_known c @ [(a, x), (a + c_min c, x)]\<rparr>)"

definition unreg_core :: "ptr \<Rightarrow> 'w core \<Rightarrow> 'w core" where
  "unreg_core x c = (let a = AlignPtrDown (MemPtr (the (c_slabs c x))) (c_min c) in
     c\<lparr>c_known := remove1 (a + c_min c, x) (remove1 (a, x) (c_known c))\<rparr>)"

lemmas step_defs = slab_core_def push_core_def erase_core_def reg_core_def unreg_core_def

lemma take_move_simps [simp]:
  "l_size (move_to l x b) = l_size b" "l_size (take_from l x b) = l_size b"
  "l_avail (move_to Available x b) = x # l_avail b" "l_unavail (move_to Available x b) = l_unavail b"
  "l_avail (move_to Unavailable x b) = l_avail b" "l_unavail (move_to Unavailable x b) = x # l_unavail b"
  "l_avail (take_from Available x b) = remove1 x (l_avail b)" "l_unavail (take_from Available x b) = l_unavail b"
  "l_avail (take_from Unavailable x b) = l_avail b" "l_unavail (take_from Unavailable x b) = remove1 x (l_unavail b)"
  by (simp_all add: move_to_def take_from_def split: slab_list.split)

lemma push_core_simps [simp]:
  "c_known (push_core i l x c) = c_known c" "c_min (push_core i l x c) = c_min c" "c_max (push_core i l x c) = c_max c"
  "c_exp (push_core i l x c) = c_exp c" "c_world (push_core i l x c) = c_world c" "c_page (push_core i l x c) = c_page c"
  "length (c_lists (push_core i l x c)) = length (c_lists c)"
  by (simp_all add: push_core_def)

lemma erase_core_simps [simp]:
  "c_known (erase_core i l x c) = c_known c" "c_min (erase_core i l x c) = c_min c" "c_max (erase_core i l x c) = c_max c"
  "c_exp (erase_core i l x c) = c_exp c" "c_world (erase_core i l x c) = c_world c" "c_page (erase_core i l x c) = c_page c"
  "length (c_lists (erase_core i l x c)) = length (c_lists c)" "c_slabs (erase_core i l x c) = c_slabs c"
  by (simp_all add: erase_core_def)

lemma slab_core_simps [simp]:
  "c_known (slab_core x sl c) = c_known c" "c_min (slab_core x sl c) = c_min c" "c_max (slab_core x sl c) = c_max c"
  "c_exp (slab_core x sl c) = c_exp c" "c_world (slab_core x sl c) = c_world c" "c_page (slab_core x sl c) = c_page c"
  "c_lists (slab_core x sl c) = c_lists c" "c_slabs (slab_core x sl c) = (c_slabs c)(x \<mapsto> sl)"
  by (simp_all add: slab_core_def)

section \<open>What only depends on sizes\<close>

definition same_sizes :: "'w core \<Rightarrow> 'w core \<Rightarrow> bool" where
  "same_sizes c d \<longleftrightarrow> map l_size (c_lists d) = map l_size (c_lists c) \<and> c_min d = c_min c
     \<and> c_max d = c_max c \<and> c_exp d = c_exp c"

lemma same_sizes_update [simp]:
  "same_sizes c (push_core i l x c)" "same_sizes c (erase_core i l x c)" "same_sizes c (slab_core x sl c)"
  "same_sizes c c"
proof -
  have "map l_size ((c_lists c)[i := b]) = map l_size (c_lists c)" if "l_size b = l_size (c_lists c ! i)" for b
    using that by (cases "i < length (c_lists c)") (simp_all add: map_update list_update_same_conv list_update_beyond)
  then show "same_sizes c (push_core i l x c)" "same_sizes c (erase_core i l x c)"
    by (simp_all add: same_sizes_def push_core_def erase_core_def)
qed (simp_all add: same_sizes_def)

lemma same_sizes_trans: "same_sizes c d \<Longrightarrow> same_sizes d f \<Longrightarrow> same_sizes c f"
  by (simp add: same_sizes_def)

lemma same_sizesD:
  assumes "same_sizes c d"
  shows "length (c_lists d) = length (c_lists c)" "min_of d = min_of c"
    "i < length (c_lists c) \<Longrightarrow> size_at d i = size_at c i"
    "cfg_ok k e d \<longleftrightarrow> cfg_ok k e c"
proof -
  show len: "length (c_lists d) = length (c_lists c)" using assms unfolding same_sizes_def by (metis length_map)
  show "min_of d = min_of c" using assms by (simp add: same_sizes_def min_of_def)
  show "size_at d i = size_at c i" if "i < length (c_lists c)"
    using assms that len unfolding same_sizes_def size_at_def by (metis nth_map)
  have "map (unat \<circ> l_size) (c_lists d) = map (unat \<circ> l_size) (c_lists c)"
    using assms unfolding same_sizes_def by (metis map_map)
  then show "cfg_ok k e d \<longleftrightarrow> cfg_ok k e c" using assms by (simp add: cfg_ok_def same_sizes_def)
qed

lemma same_sizes_slab:
  assumes "same_sizes c d" "slab_bucket sl < length (c_lists c)"
  shows "slab_wf d sl \<longleftrightarrow> slab_wf c sl" "slab_range d sl = slab_range c sl" "slab_live d sl = slab_live c sl"
    "known_at d sl = known_at c sl"
proof -
  note s = same_sizesD(1,2) [OF assms(1)] same_sizesD(3) [OF assms]
  show "slab_wf d sl \<longleftrightarrow> slab_wf c sl" "slab_range d sl = slab_range c sl" "slab_live d sl = slab_live c sl"
    by (simp_all add: slab_wf_def slab_range_def slab_live_def chunk_ranges_def alloc_size_def chunk_mode_def s)
  show "known_at d sl = known_at c sl" using assms(1) by (simp add: known_at_def same_sizes_def)
qed

section \<open>The ranges in use at one slab and elsewhere\<close>

definition within :: "range \<Rightarrow> range \<Rightarrow> bool" where
  "within r q \<longleftrightarrow> fst q \<le> fst r \<and> fst r + snd r \<le> fst q + snd q \<and> 0 < snd r"

definition rest :: "('w \<Rightarrow> range set) \<Rightarrow> 'w core \<Rightarrow> ptr \<Rightarrow> range set" where
  "rest V c x = (\<Union>y\<in>dom (c_slabs c) - {x}. slab_live c (the (c_slabs c y))) \<union> (V (c_world c) - backing c)"

lemma bex_dom: "(\<exists>y\<in>dom m - A. Q (the (m y))) \<longleftrightarrow> (\<exists>y sm. m y = Some sm \<and> y \<notin> A \<and> Q sm)"
  by force

lemma in_rest: "r \<in> rest V c x \<longleftrightarrow> (\<exists>y sm. c_slabs c y = Some sm \<and> y \<noteq> x \<and> r \<in> slab_live c sm)
    \<or> r \<in> V (c_world c) \<and> r \<notin> backing c"
  using bex_dom [of "c_slabs c" "{x}" "\<lambda>sm. r \<in> slab_live c sm"] by (simp add: rest_def)

lemma in_live: "r \<in> live V c \<longleftrightarrow> (\<exists>y sm. c_slabs c y = Some sm \<and> r \<in> slab_live c sm)
    \<or> r \<in> V (c_world c) \<and> r \<notin> backing c"
  using bex_dom [of "c_slabs c" "{}" "\<lambda>sm. r \<in> slab_live c sm"] by (simp add: live_def)

lemma within_apart: "within r q \<Longrightarrow> ranges_apart q u \<Longrightarrow> ranges_apart r u"
  by (auto simp: within_def ranges_apart_def)

lemma ranges_apart_commute: "ranges_apart r q \<longleftrightarrow> ranges_apart q r"
  by (auto simp: ranges_apart_def)

lemma within_not_apart: "within r q \<Longrightarrow> \<not> ranges_apart r q"
  by (auto simp: within_def ranges_apart_def)

lemma chunk_within:
  assumes inv: "pool_inv V k e c" and i: "slab_bucket sl < length (c_lists c)"
    and len: "length (Chunks sl) = min_of c div size_at c (slab_bucket sl)" and j: "j < length (Chunks sl)"
  shows "within (unat (MemPtr sl) + j * size_at c (slab_bucket sl), size_at c (slab_bucket sl)) (slab_range c sl)"
    "(j + 1) * size_at c (slab_bucket sl) \<le> min_of c"
proof -
  let ?n = "size_at c (slab_bucket sl)"
  have "(j + 1) * ?n \<le> length (Chunks sl) * ?n" using j by (intro mult_le_mono1) simp
  also have "\<dots> \<le> min_of c" unfolding len by simp
  finally show le: "(j + 1) * ?n \<le> min_of c" .
  then show "within (unat (MemPtr sl) + j * ?n, ?n) (slab_range c sl)"
    using size_at_bounds(3) [OF pool_invD(1) [OF inv] i]
    by (simp add: within_def slab_range_def alloc_size_def max_def)
qed

lemma slab_live_within:
  assumes inv: "pool_inv V k e c" and sl: "c_slabs c x = Some sl" and r: "r \<in> slab_live c sl"
  shows "within r (slab_range c sl)"
proof -
  note wf = slab_facts(1) [OF inv sl] and i = slab_facts(6) [OF inv sl]
  have len: "length (Chunks sl) = min_of c div size_at c (slab_bucket sl)" using wf by (simp add: slab_wf_def)
  show ?thesis
  proof (cases "chunk_mode c (slab_bucket sl)")
    case True
    then show ?thesis using r chunk_within(1) [OF inv i len] by (auto simp: slab_live_def chunk_ranges_def)
  next
    case False
    then show ?thesis
      using r size_at_bounds(3) [OF pool_invD(1) [OF inv] i]
      by (auto simp: slab_live_def within_def slab_range_def alloc_size_def split: if_splits)
  qed
qed

lemma live_rest:
  assumes "c_slabs c x = Some sl"
  shows "live V c = rest V c x \<union> slab_live c sl"
proof (rule set_eqI)
  fix r
  show "r \<in> live V c \<longleftrightarrow> r \<in> rest V c x \<union> slab_live c sl"
    using assms unfolding Un_iff in_live in_rest by (metis option.inject)
qed

lemma rest_apart:
  assumes inv: "pool_inv V k e c" and sl: "c_slabs c x = Some sl" and r: "r \<in> rest V c x"
  shows "ranges_apart r (slab_range c sl)"
proof -
  consider y sm where "c_slabs c y = Some sm" "y \<noteq> x" "r \<in> slab_live c sm" | "r \<in> V (c_world c)" "r \<notin> backing c"
    using r unfolding in_rest by blast
  then show ?thesis
  proof cases
    case 1
    then show ?thesis
      using within_apart [OF slab_live_within [OF inv 1(1,3)]] slabs_apart [OF inv 1(1) sl] by blast
  next
    case 2
    then have "r \<noteq> slab_range c sl" using sl by (auto simp: backing_def)
    then show ?thesis using ranges_ok_apart [OF pool_invD(2) [OF inv] 2(1) slab_facts(2) [OF inv sl]] by blast
  qed
qed

lemma within_not_rest:
  assumes "pool_inv V k e c" "c_slabs c x = Some sl" "within r (slab_range c sl)"
  shows "r \<notin> rest V c x"
  using rest_apart [OF assms(1,2)] within_not_apart [OF assms(3)] by blast

theorem live_ranges_ok:
  assumes inv: "pool_inv V k e c"
  shows "ranges_ok (live V c)"
proof -
  have chunks: "ranges_apart r q" if "c_slabs c x = Some sl" and rq: "r \<in> slab_live c sl" "q \<in> slab_live c sl" "r \<noteq> q" for x sl r q
  proof -
    let ?n = "size_at c (slab_bucket sl)"
    have "chunk_mode c (slab_bucket sl)" using rq by (auto simp: slab_live_def split: if_splits)
    then obtain j h where j: "r = (unat (MemPtr sl) + j * ?n, ?n)" "q = (unat (MemPtr sl) + h * ?n, ?n)"
      using rq(1,2) by (auto simp: slab_live_def chunk_ranges_def)
    then have "j < h \<or> h < j" using rq(3) by (cases j h rule: linorder_cases) auto
    then have "(j + 1) * ?n \<le> h * ?n \<or> (h + 1) * ?n \<le> j * ?n" by (auto dest!: Suc_leI intro: mult_le_mono1 simp del: mult_Suc)
    then show ?thesis using j by (auto simp: ranges_apart_def algebra_simps)
  qed
  have each: "0 < fst r \<and> 0 < snd r \<and> fst r + snd r < 2 ^ 64" if r: "r \<in> live V c" for r
  proof -
    consider x sl where "c_slabs c x = Some sl" "r \<in> slab_live c sl" | "r \<in> V (c_world c)"
      using r unfolding in_live by blast
    then show ?thesis
    proof cases
      case 1
      note w = slab_live_within [OF inv 1] and f = slab_facts(3,4) [OF inv 1(1)]
      then show ?thesis by (simp add: within_def slab_range_def)
    next
      case 2
      then show ?thesis using ranges_okD [OF pool_invD(2) [OF inv], of "fst r" "snd r"] by simp
    qed
  qed
  have "ranges_apart r q" if rq: "r \<in> live V c" "q \<in> live V c" "r \<noteq> q" for r q
  proof (cases "\<exists>x sl. c_slabs c x = Some sl \<and> r \<in> slab_live c sl")
    case True
    then obtain x sl where x: "c_slabs c x = Some sl" "r \<in> slab_live c sl" by blast
    show ?thesis
    proof (cases "q \<in> slab_live c sl")
      case False
      then have "ranges_apart q (slab_range c sl)" using rq(2) rest_apart [OF inv x(1)] by (auto simp: live_rest [OF x(1)])
      then show ?thesis using within_apart [OF slab_live_within [OF inv x]] ranges_apart_commute by blast
    qed (use chunks x rq(3) in blast)
  next
    case out: False
    then have r: "r \<in> V (c_world c) - backing c" using rq(1) unfolding in_live by blast
    show ?thesis
    proof (cases "\<exists>y sm. c_slabs c y = Some sm \<and> q \<in> slab_live c sm")
      case True
      then obtain y sm where y: "c_slabs c y = Some sm" "q \<in> slab_live c sm" by blast
      have "r \<in> rest V c y" using r unfolding in_rest by blast
      then show ?thesis
        using rest_apart [OF inv y(1)] within_apart [OF slab_live_within [OF inv y]] ranges_apart_commute by blast
    next
      case False
      then have "q \<in> V (c_world c)" using rq(2) unfolding in_live by blast
      then show ?thesis using ranges_ok_apart [OF pool_invD(2) [OF inv]] r rq(3) by blast
    qed
  qed
  then show ?thesis using each unfolding ranges_ok_def by (simp add: case_prod_unfold)
qed

chapter \<open>Moves between lists\<close>

text \<open>
  The steps keep the invariant: a change of one slab, a move between the two lists of its
  bucket, a new slab in memory from the provider, and the removal of a slab without chunks in
  use, whose memory goes back.
\<close>

section \<open>Updates of maps\<close>

lemma ex_upd_new:
  "m x = None \<Longrightarrow> (\<exists>y s. (m(x \<mapsto> v)) y = Some s \<and> Q s) \<longleftrightarrow> Q v \<or> (\<exists>y s. m y = Some s \<and> Q s)"
  by (metis fun_upd_apply option.distinct(1) option.inject)

lemma ex_upd_same:
  "m x = Some u \<Longrightarrow> Q v \<longleftrightarrow> Q u \<Longrightarrow> (\<exists>y s. (m(x \<mapsto> v)) y = Some s \<and> Q s) \<longleftrightarrow> (\<exists>y s. m y = Some s \<and> Q s)"
  by (metis fun_upd_apply option.inject)

lemma ex_split:
  "m x = Some u \<Longrightarrow> (\<exists>y s. m y = Some s \<and> Q s) \<longleftrightarrow> (\<exists>y s. (m y = Some s \<and> y \<noteq> x) \<and> Q s) \<or> Q u"
  by (metis option.inject)

lemma in_backing: "r \<in> backing c \<longleftrightarrow> (\<exists>y s. c_slabs c y = Some s \<and> r = slab_range c s)"
  unfolding backing_def by auto

section \<open>Lists\<close>

lemma lists_okD:
  assumes "lists_ok c" "i < length (c_lists c)"
  shows "distinct (l_avail (c_lists c ! i))" "x \<in> set (l_avail (c_lists c ! i)) \<longleftrightarrow> in_list c i Available x"
    "distinct (l_unavail (c_lists c ! i))" "x \<in> set (l_unavail (c_lists c ! i)) \<longleftrightarrow> in_list c i Unavailable x"
  using assms by (simp_all add: lists_ok_def)

lemma in_list_upd:
  "c_slabs d = (c_slabs c)(x \<mapsto> sl) \<Longrightarrow> in_list d i l y \<longleftrightarrow>
     (if y = x then slab_bucket sl = i \<and> SlabListIter sl = Some l else in_list c i l y)"
  by (auto simp: in_list_def)

lemma lists_same:
  assumes "lists_ok c" "c_slabs c x = Some sl" "slab_bucket sm = slab_bucket sl" "SlabListIter sm = SlabListIter sl"
  shows "lists_ok (slab_core x sm c)"
proof -
  have "in_list (slab_core x sm c) i l y \<longleftrightarrow> in_list c i l y" for i l y
    using assms(2-4) by (auto simp: in_list_def)
  then show ?thesis using assms(1) by (simp add: lists_ok_def)
qed

lemma lists_move:
  assumes ok: "lists_ok c" and x: "c_slabs c x = Some sl" "slab_bucket sl = i" "SlabListIter sl = Some l"
    and i: "i < length (c_lists c)" and l: "l \<noteq> m"
  shows "lists_ok (push_core i m x (erase_core i l x c))"
proof -
  let ?d = "push_core i m x (erase_core i l x c)"
  have slabs: "c_slabs ?d = (c_slabs c)(x \<mapsto> sl\<lparr>SlabListIter := Some m\<rparr>)" using x(1) by (simp add: push_core_def)
  have at: "in_list ?d j n y \<longleftrightarrow> (if y = x then j = i \<and> n = m else in_list c j n y)" for j n y
    using in_list_upd [OF slabs, of j n y] x(2) by auto
  have old: "in_list c j n x \<longleftrightarrow> j = i \<and> n = l" for j n using x by (auto simp: in_list_def)
  note D = lists_okD [OF ok]
  have lists: "c_lists ?d ! j = (if j = i then move_to m x (take_from l x (c_lists c ! i)) else c_lists c ! j)" for j
    using i by (simp add: push_core_def erase_core_def nth_list_update)
  have "distinct (l_avail (c_lists ?d ! j)) \<and> (\<forall>y. y \<in> set (l_avail (c_lists ?d ! j)) \<longleftrightarrow> in_list ?d j Available y)
     \<and> distinct (l_unavail (c_lists ?d ! j)) \<and> (\<forall>y. y \<in> set (l_unavail (c_lists ?d ! j)) \<longleftrightarrow> in_list ?d j Unavailable y)"
    if j: "j < length (c_lists c)" for j
  proof (cases "j = i")
    case True
    then show ?thesis
      using D [OF i] l unfolding lists at old by (cases l; cases m) (auto simp: old)
  next
    case False
    then show ?thesis using D [OF j] unfolding lists at by (auto simp: old)
  qed
  then show ?thesis by (simp add: lists_ok_def)
qed

section \<open>A change of one slab\<close>

lemma change_slab:
  assumes inv: "pool_inv V k e c" and x: "c_slabs c x = Some sl"
    and same: "MemPtr sm = MemPtr sl" "slab_bucket sm = slab_bucket sl" and wf: "slab_wf c sm"
    and d: "same_sizes c d" "c_known d = c_known c" "c_world d = c_world c" "c_slabs d = (c_slabs c)(x \<mapsto> sm)"
      "lists_ok d"
  shows "pool_inv V k e d" "live V d = rest V c x \<union> slab_live c sm"
proof -
  note inv' = pool_invD [OF inv]
  have bucket: "slab_bucket s < length (c_lists c)" if "c_slabs c y = Some s" for y s
    using slab_facts(6) [OF inv that] .
  have all: "slab_bucket s < length (c_lists c)" if "c_slabs d y = Some s" for y s
    using that bucket x same(2) d(4) by (auto split: if_splits)
  have range: "slab_range c sm = slab_range c sl" "known_at c sm = known_at c sl"
    using same by (simp_all add: slab_range_def known_at_def)
  have "slabs_ok V d"
    unfolding slabs_ok_def
  proof (intro conjI allI impI)
    fix y s assume y: "c_slabs d y = Some s"
    show "slab_wf d s" "slab_range d s \<in> V (c_world d)"
      using y slab_facts(1,2) [OF inv] wf x range d(3,4) same_sizes_slab(1,2) [OF d(1) all [OF y]]
      by (auto split: if_splits)
  next
    fix y z s t assume "c_slabs d y = Some s" "c_slabs d z = Some t" "MemPtr s = MemPtr t"
    then show "y = z"
      using inv'(3) x same(1) d(4) by (auto simp: slabs_ok_def split: if_splits)
  qed
  moreover have "known_ok d"
  proof -
    have "known_at d sm = known_at c sl" using same_sizes_slab(4) [OF d(1) all, of x sm] range(2) d(4) by simp
    then have "(\<exists>s. c_slabs d y = Some s \<and> a \<in> known_at d s) \<longleftrightarrow> (\<exists>s. c_slabs c y = Some s \<and> a \<in> known_at c s)" for a y
      using x d(4) same_sizes_slab(4) [OF d(1) bucket, of y] by (cases "y = x") auto
    then show ?thesis using inv'(5) d(2) by (simp add: known_ok_def)
  qed
  ultimately show inv_d: "pool_inv V k e d"
    using inv'(1,2) d(3,5) same_sizesD(4) [OF d(1)] by (simp add: pool_inv_def)
  have backs: "backing d = backing c"
  proof -
    have "(\<exists>y s. r = slab_range d s \<and> c_slabs d y = Some s) \<longleftrightarrow> (\<exists>y s. r = slab_range c s \<and> c_slabs c y = Some s)" for r
      using x d(4) range(1) same_sizes_slab(2) [OF d(1) all] same_sizes_slab(2) [OF d(1) bucket]
      by (metis fun_upd_other fun_upd_same option.inject)
    then show ?thesis by (simp add: backing_def)
  qed
  have "rest V d x = rest V c x"
  proof (rule set_eqI)
    fix r
    show "r \<in> rest V d x \<longleftrightarrow> r \<in> rest V c x"
      unfolding in_rest backs d(3) using same_sizes_slab(3) [OF d(1) bucket] d(4) by (metis fun_upd_other)
  qed
  moreover have "slab_live d sm = slab_live c sm"
    by (rule same_sizes_slab(3) [OF d(1)]) (use bucket [OF x] same(2) in simp)
  ultimately show "live V d = rest V c x \<union> slab_live c sm" using live_rest [of d x sm] d(4) by simp
qed

section \<open>A new slab\<close>

definition new_slab :: "'w core \<Rightarrow> nat \<Rightarrow> u64 \<Rightarrow> slab" where
  "new_slab c i p = \<lparr>MemPtr = p, Chunks = replicate (min_of c div size_at c i) False, NumAllocated = 0,
     slab_bucket = i, SlabListIter = Some Available, FirstFreeChunkIdx = 0\<rparr>"

definition add_core :: "ptr \<Rightarrow> nat \<Rightarrow> u64 \<Rightarrow> 'w \<Rightarrow> 'w core \<Rightarrow> 'w core" where
  "add_core x i p w c = c\<lparr>c_slabs := (c_slabs c)(x \<mapsto> new_slab c i p),
     c_lists := (c_lists c)[i := move_to Available x (c_lists c ! i)],
     c_known := c_known c @ [(AlignPtrDown p (c_min c), x), (AlignPtrDown p (c_min c) + c_min c, x)],
     c_world := w\<rparr>"

lemma chunk_mode_two:
  assumes "cfg_ok k e c" "i < length (c_lists c)" "chunk_mode c i"
  shows "2 \<le> min_of c div size_at c i"
proof -
  have "2 * size_at c i \<le> min_of c" using assms(3) by (simp add: chunk_mode_def)
  then show ?thesis using size_at_bounds(3) [OF assms(1,2)] by (simp add: less_eq_div_iff_mult_less_eq)
qed

lemma slab_wf_new:
  assumes "cfg_ok k e c" "i < length (c_lists c)"
  shows "slab_wf c (new_slab c i p)" "slab_live c (new_slab c i p) = {}"
    "allocated (new_slab c i p) = 0"
  using chunk_mode_two [OF assms] assms(2)
  by (auto simp: slab_wf_def new_slab_def allocated_def slab_live_def chunk_ranges_def)

lemma add_slab:
  assumes inv: "pool_inv V k e c" and i: "i < length (c_lists c)" and x: "c_slabs c x = None"
    and w: "(unat p, alloc_size c i) \<notin> V (c_world c)" "V w = insert (unat p, alloc_size c i) (V (c_world c))" "ranges_ok (V w)"
  shows "pool_inv V k e (add_core x i p w c)" "live V (add_core x i p w c) = live V c"
proof -
  let ?sl = "new_slab c i p" and ?d = "add_core x i p w c"
  note inv' = pool_invD [OF inv] and new = slab_wf_new [OF pool_invD(1) [OF inv] i, of p]
  have d: "c_slabs ?d = (c_slabs c)(x \<mapsto> ?sl)" "c_world ?d = w" by (simp_all add: add_core_def)
  have sizes: "same_sizes c ?d"
    using i by (simp add: same_sizes_def add_core_def map_update list_update_same_conv)
  have bucket: "slab_bucket s < length (c_lists c)" if "c_slabs ?d y = Some s" for y s
    using that slab_facts(6) [OF inv] i by (auto simp: d new_slab_def split: if_splits)
  note same = same_sizes_slab [OF sizes bucket]
  have range: "slab_range c ?sl = (unat p, alloc_size c i)" by (simp add: slab_range_def new_slab_def)
  have other: "c_slabs ?d y = c_slabs c y" if "y \<noteq> x" for y using that by (simp add: d)
  have slabs: "slabs_ok V ?d"
    unfolding slabs_ok_def
  proof (intro conjI allI impI)
    fix y s assume y: "c_slabs ?d y = Some s"
    show "slab_wf ?d s" "slab_range ?d s \<in> V (c_world ?d)"
      using y slab_facts(1,2) [OF inv] new(1) range w(2) same(1,2) [OF y] by (auto simp: d split: if_splits)
  next
    fix y z s t assume *: "c_slabs ?d y = Some s" "c_slabs ?d z = Some t" "MemPtr s = MemPtr t"
    have fresh: "MemPtr s \<noteq> p" if "c_slabs c y = Some s" for y s
    proof
      assume "MemPtr s = p"
      then have "(unat p, alloc_size c (slab_bucket s)) \<in> V w" "(unat p, alloc_size c i) \<in> V w"
        using slab_facts(2) [OF inv that] w(2) by (auto simp: slab_range_def)
      then have "alloc_size c (slab_bucket s) = alloc_size c i" by (rule apart_same_start [OF w(3)])
      then show False using slab_facts(2) [OF inv that] w(1) \<open>MemPtr s = p\<close> by (simp add: slab_range_def)
    qed
    show "y = z"
      using * inv'(3) by (auto simp: d slabs_ok_def new_slab_def split: if_splits dest: fresh)
  qed
  have "lists_ok ?d"
  proof -
    have at: "in_list ?d j n y \<longleftrightarrow> (if y = x then j = i \<and> n = Available else in_list c j n y)" for j n y
      using in_list_upd [OF d(1), of j n y] by (auto simp: new_slab_def)
    have old: "\<not> in_list c j n x" for j n using x by (simp add: in_list_def)
    have lists: "c_lists ?d ! j = (if j = i then move_to Available x (c_lists c ! i) else c_lists c ! j)" for j
      using i by (simp add: add_core_def nth_list_update)
    have "distinct (l_avail (c_lists ?d ! j)) \<and> (\<forall>y. y \<in> set (l_avail (c_lists ?d ! j)) \<longleftrightarrow> in_list ?d j Available y)
       \<and> distinct (l_unavail (c_lists ?d ! j)) \<and> (\<forall>y. y \<in> set (l_unavail (c_lists ?d ! j)) \<longleftrightarrow> in_list ?d j Unavailable y)"
      if j: "j < length (c_lists c)" for j
      using lists_okD [OF inv'(4) j] unfolding lists at by (auto simp: old)
    then show ?thesis by (simp add: lists_ok_def same_sizesD(1) [OF sizes])
  qed
  moreover have "known_ok ?d"
  proof -
    have known: "c_known ?d = c_known c @ [(AlignPtrDown p (c_min c), x), (AlignPtrDown p (c_min c) + c_min c, x)]"
      by (simp add: add_core_def)
    have out: "(a, x) \<notin> set (c_known c)" for a using inv'(5) x by (auto simp: known_ok_def)
    have "c_min c \<noteq> 0" using cfg_okD(5,4) [OF inv'(1)] by (metis unat_exp64 unat_0 power_not_zero zero_neq_numeral)
    moreover have "(a, y) \<in> set (c_known ?d) \<longleftrightarrow> (\<exists>s. c_slabs ?d y = Some s \<and> a \<in> known_at ?d s)" for a y
    proof (cases "y = x")
      case True
      then show ?thesis using out same(4) [of x ?sl] by (auto simp: known d known_at_def new_slab_def)
    next
      case False
      have "(\<exists>s. c_slabs ?d y = Some s \<and> a \<in> known_at ?d s) \<longleftrightarrow> (\<exists>s. c_slabs c y = Some s \<and> a \<in> known_at c s)"
        using False same(4) [of y] other by auto
      then show ?thesis using False inv'(5) by (simp add: known known_ok_def)
    qed
    ultimately show ?thesis using inv'(5) out by (simp add: known_ok_def known)
  qed
  ultimately show inv_d: "pool_inv V k e ?d"
    using inv'(1) slabs w(3) same_sizesD(4) [OF sizes] by (simp add: pool_inv_def d)
  have backs: "backing ?d = insert (unat p, alloc_size c i) (backing c)"
  proof (rule set_eqI)
    fix r
    have "(\<exists>y s. c_slabs ?d y = Some s \<and> r = slab_range ?d s) \<longleftrightarrow> (\<exists>y s. c_slabs ?d y = Some s \<and> r = slab_range c s)"
      using same(2) by metis
    also have "\<dots> \<longleftrightarrow> r = (unat p, alloc_size c i) \<or> (\<exists>y s. c_slabs c y = Some s \<and> r = slab_range c s)"
      unfolding d(1) using ex_upd_new [of "c_slabs c" x ?sl "\<lambda>s. r = slab_range c s"] x range by simp
    finally show "r \<in> backing ?d \<longleftrightarrow> r \<in> insert (unat p, alloc_size c i) (backing c)"
      by (simp add: backing_def conj_commute)
  qed
  show "live V ?d = live V c"
  proof (rule set_eqI)
    fix r
    have "(\<exists>y s. c_slabs ?d y = Some s \<and> r \<in> slab_live ?d s) \<longleftrightarrow> (\<exists>y s. c_slabs ?d y = Some s \<and> r \<in> slab_live c s)"
      using same(3) by metis
    also have "\<dots> \<longleftrightarrow> (\<exists>y s. c_slabs c y = Some s \<and> r \<in> slab_live c s)"
      unfolding d(1) using ex_upd_new [of "c_slabs c" x ?sl "\<lambda>s. r \<in> slab_live c s"] x new(2) by simp
    finally have "(\<exists>y s. c_slabs ?d y = Some s \<and> r \<in> slab_live ?d s) \<longleftrightarrow> (\<exists>y s. c_slabs c y = Some s \<and> r \<in> slab_live c s)" .
    then show "r \<in> live V ?d \<longleftrightarrow> r \<in> live V c"
      unfolding in_live backs d(2) w(2) using w(1) by blast
  qed
qed

section \<open>A slab that goes back to the provider\<close>

definition del_core :: "ptr \<Rightarrow> nat \<Rightarrow> slab_list \<Rightarrow> u64 \<Rightarrow> 'w \<Rightarrow> 'w core \<Rightarrow> 'w core" where
  "del_core x i l p w c = (let a = AlignPtrDown p (c_min c) in
     c\<lparr>c_slabs := (c_slabs c)(x := None), c_lists := (c_lists c)[i := take_from l x (c_lists c ! i)],
       c_known := remove1 (a + c_min c, x) (remove1 (a, x) (c_known c)), c_world := w\<rparr>)"

lemma del_slab:
  assumes inv: "pool_inv V k e c" and x: "c_slabs c x = Some sl" "slab_bucket sl = i" "SlabListIter sl = Some l" "MemPtr sl = p"
    and w: "V w = V (c_world c) - {slab_range c sl}"
  shows "pool_inv V k e (del_core x i l p w c)" "live V (del_core x i l p w c) = rest V c x"
    "backing c = insert (slab_range c sl) (backing (del_core x i l p w c))"
proof -
  let ?d = "del_core x i l p w c"
  note inv' = pool_invD [OF inv]
  have i: "i < length (c_lists c)" using slab_facts(6) [OF inv x(1)] x(2) by simp
  have d: "c_slabs ?d = (c_slabs c)(x := None)" "c_world ?d = w" by (simp_all add: del_core_def Let_def)
  have sizes: "same_sizes c ?d"
    using i by (simp add: same_sizes_def del_core_def map_update list_update_same_conv Let_def)
  have old: "c_slabs ?d y = Some s \<longleftrightarrow> c_slabs c y = Some s \<and> y \<noteq> x" for y s by (simp add: d)
  then have bucket: "slab_bucket s < length (c_lists c)" if "c_slabs ?d y = Some s" for y s
    using that slab_facts(6) [OF inv] by blast
  note same = same_sizes_slab [OF sizes bucket]
  have "slab_range c s \<noteq> slab_range c sl" if "c_slabs c y = Some s" "y \<noteq> x" for y s
    using slab_range_inj [OF inv that(1) x(1)] that(2) by blast
  then have "slabs_ok V ?d"
    unfolding slabs_ok_def d(2) w using slab_facts(1,2) [OF inv] inv'(3) same(1,2)
    by (fastforce simp: old slabs_ok_def)
  moreover have "lists_ok ?d"
  proof -
    have lists: "c_lists ?d ! j = (if j = i then take_from l x (c_lists c ! i) else c_lists c ! j)" for j
      using i by (simp add: del_core_def Let_def nth_list_update)
    have at: "in_list ?d j n y \<longleftrightarrow> in_list c j n y \<and> y \<noteq> x" for j n y by (auto simp: in_list_def d)
    have out: "in_list c j n x \<longleftrightarrow> j = i \<and> n = l" for j n using x by (auto simp: in_list_def)
    have "distinct (l_avail (c_lists ?d ! j)) \<and> (\<forall>y. y \<in> set (l_avail (c_lists ?d ! j)) \<longleftrightarrow> in_list ?d j Available y)
       \<and> distinct (l_unavail (c_lists ?d ! j)) \<and> (\<forall>y. y \<in> set (l_unavail (c_lists ?d ! j)) \<longleftrightarrow> in_list ?d j Unavailable y)"
      if j: "j < length (c_lists c)" for j
      using lists_okD [OF inv'(4) j] unfolding lists at by (cases l) (auto simp: out)
    then show ?thesis by (simp add: lists_ok_def same_sizesD(1) [OF sizes])
  qed
  moreover have "known_ok ?d"
  proof -
    have "known_at c sl = {AlignPtrDown p (c_min c), AlignPtrDown p (c_min c) + c_min c}"
      using x(4) by (simp add: known_at_def)
    then have "(a, x) \<in> set (c_known c) \<longleftrightarrow> a \<in> {AlignPtrDown p (c_min c), AlignPtrDown p (c_min c) + c_min c}" for a
      using inv'(5) x(1) by (auto simp: known_ok_def)
    then have "(a, y) \<in> set (c_known ?d) \<longleftrightarrow> (a, y) \<in> set (c_known c) \<and> y \<noteq> x" for a y
      using inv'(5) by (auto simp: del_core_def Let_def known_ok_def)
    moreover have "(\<exists>s. c_slabs ?d y = Some s \<and> a \<in> known_at ?d s) \<longleftrightarrow> (\<exists>s. c_slabs c y = Some s \<and> a \<in> known_at c s) \<and> y \<noteq> x" for a y
      using same(4) by (metis old)
    ultimately show ?thesis using inv'(5) by (simp add: known_ok_def del_core_def Let_def)
  qed
  ultimately show "pool_inv V k e ?d"
    using inv'(1,2) w same_sizesD(4) [OF sizes] ranges_ok_subset [of "V (c_world c)" "V w"] by (auto simp: pool_inv_def d)
  have backs: "r \<in> backing c \<longleftrightarrow> r \<in> backing ?d \<or> r = slab_range c sl" for r
  proof -
    have "r \<in> backing ?d \<longleftrightarrow> (\<exists>y s. c_slabs ?d y = Some s \<and> r = slab_range c s)"
      unfolding in_backing using same(2) by metis
    then show ?thesis
      unfolding in_backing old using ex_split [of "c_slabs c" x sl "\<lambda>s. r = slab_range c s"] x(1) by simp
  qed
  then show "backing c = insert (slab_range c sl) (backing ?d)" by auto
  from backs have "r \<in> V (c_world ?d) \<and> r \<notin> backing ?d \<longleftrightarrow> r \<in> V (c_world c) \<and> r \<notin> backing c" for r
    unfolding d(2) w by blast
  moreover have "(\<exists>y s. c_slabs ?d y = Some s \<and> r \<in> slab_live ?d s) \<longleftrightarrow> (\<exists>y s. c_slabs c y = Some s \<and> y \<noteq> x \<and> r \<in> slab_live c s)" for r
  proof -
    have "(\<exists>y s. c_slabs ?d y = Some s \<and> r \<in> slab_live ?d s) \<longleftrightarrow> (\<exists>y s. c_slabs ?d y = Some s \<and> r \<in> slab_live c s)"
      using same(3) by metis
    then show ?thesis unfolding old by blast
  qed
  ultimately show "live V ?d = rest V c x" unfolding set_eq_iff in_live in_rest by blast
qed

section \<open>Ranges that back no slab\<close>

lemma world_step:
  assumes inv: "pool_inv V k e c" and w: "ranges_ok (V w)" "backing c \<subseteq> V w"
  shows "pool_inv V k e (c\<lparr>c_world := w\<rparr>)"
    "live V (c\<lparr>c_world := w\<rparr>) = (live V c - (V (c_world c) - backing c)) \<union> (V w - backing c)"
proof -
  let ?d = "c\<lparr>c_world := w\<rparr>"
  note inv' = pool_invD [OF inv]
  have sizes: "same_sizes c ?d" by (simp add: same_sizes_def)
  note same = same_sizes_slab [OF sizes slab_facts(6) [OF inv]]
  have backs: "backing ?d = backing c"
    unfolding set_eq_iff in_backing using same(2) by (metis core.select_convs(2) core.surjective core.update_convs(8))
  have "slabs_ok V ?d"
    using inv'(3) w(2) same(1,2) unfolding slabs_ok_def by (auto simp: backing_def)
  moreover have "lists_ok ?d" using inv'(4) by (simp add: lists_ok_def in_list_def)
  moreover have "known_ok ?d" using inv'(5) by (simp add: known_ok_def known_at_def)
  ultimately show "pool_inv V k e ?d"
    using inv'(1) w(1) same_sizesD(4) [OF sizes] by (simp add: pool_inv_def)
  have "r \<notin> V (c_world c) - backing c" if "c_slabs c x = Some sl" "r \<in> slab_live c sl" for x sl r
  proof
    assume r: "r \<in> V (c_world c) - backing c"
    then have "r \<in> rest V c x" unfolding in_rest by blast
    then show False using within_not_rest [OF inv that(1) slab_live_within [OF inv that]] by blast
  qed
  then show "live V ?d = (live V c - (V (c_world c) - backing c)) \<union> (V w - backing c)"
    unfolding set_eq_iff Un_iff Diff_iff in_live backs using same(3) by auto
qed

end
