(* ===== verification/Disjoint_Slabs.thy ===== *)
theory Disjoint_Slabs
  imports Disjoint_Invariant
begin

text \<open>
  The chunks of a slab: the search finds the first free chunk, taking it adds its range to those
  in use at the slab and giving it back removes exactly that range. A slab is in the list
  of unavailable slabs when all its chunks are in use. Then the construction and the deletion of
  a slab and the choice of one for a request.
\<close>

section \<open>Marks\<close>

lemma length_filter_update:
  assumes "j < length l" "\<not> l ! j"
  shows "length (filter id (l[j := True])) = length (filter id l) + 1"
  using assms by (induction l arbitrary: j) (auto split: nat.split)

lemma length_filter_clear:
  assumes "j < length l" "l ! j"
  shows "length (filter id (l[j := False])) + 1 = length (filter id l)"
  using assms by (induction l arbitrary: j) (auto split: nat.split)

lemma all_marked: "length (filter id l) = length l \<longleftrightarrow> (\<forall>j<length l. l ! j)"
  by (metis filter_True filter_id_conv id_apply in_set_conv_nth length_filter_less nat_neq_iff nth_mem)

lemma allocated_bounds:
  assumes "cfg_ok k e c" "slab_wf c sl"
  shows "allocated sl \<le> length (Chunks sl)" "length (Chunks sl) < 2 ^ 63"
proof -
  note cfg = cfg_okD [OF assms(1)]
  show "allocated sl \<le> length (Chunks sl)" by (simp add: allocated_def)
  have i: "slab_bucket sl < length (c_lists c)" "length (Chunks sl) = min_of c div size_at c (slab_bucket sl)"
    using assms(2) by (simp_all add: slab_wf_def)
  have "(2 :: nat) ^ 3 \<le> 2 ^ k" using cfg(1) by (intro power_increasing) simp_all
  then have "8 \<le> size_at c (slab_bucket sl)" using size_at_bounds(1) [OF assms(1) i(1)] by simp
  then have "length (Chunks sl) \<le> min_of c div 8" unfolding i(2) by (intro div_le_mono2) simp_all
  moreover have "min_of c \<le> 2 ^ 63" unfolding cfg(8) using cfg(4) by (intro power_increasing) simp_all
  then have "min_of c div 8 \<le> 2 ^ 63 div 8" by (rule div_le_mono)
  ultimately show "length (Chunks sl) < 2 ^ 63" by simp
qed

section \<open>The first free chunk\<close>

lemma find_first:
  assumes "j < n" "P j"
  obtains i where "find P [m..<n] = Some i" "m \<le> i" "i < n" "P i" "\<forall>h<i. m \<le> h \<longrightarrow> \<not> P h" | "j < m"
proof (cases "j < m")
  case False
  then have "find P [m..<n] \<noteq> None" using assms by (auto simp: find_None_iff)
  then obtain i where i: "find P [m..<n] = Some i" by blast
  then obtain u where u: "u < n - m" "i = m + u" "P i" "\<forall>v<u. \<not> P (m + v)"
    by (auto simp: find_Some_iff)
  then have "\<not> P h" if "h < i" "m \<le> h" for h
    using that by (metis add_less_cancel_left le_add_diff_inverse)
  then show thesis using that(1) i u by auto
qed (rule that(2))

definition take_chunk :: "nat \<Rightarrow> slab \<Rightarrow> slab" where
  "take_chunk j sl = sl\<lparr>Chunks := (Chunks sl)[j := True], NumAllocated := NumAllocated sl + 1,
     FirstFreeChunkIdx := of_nat j,
     SlabListIter := Some (if allocated sl + 1 = length (Chunks sl) then Unavailable else Available)\<rparr>"

lemma first_free_chunk:
  assumes cfg: "cfg_ok k e c" and wf: "slab_wf c sl" and free: "allocated sl < length (Chunks sl)"
  obtains j where "FindFirstAvailableChunkIdx sl = of_nat j" "unat (of_nat j :: u64) = j" "j < length (Chunks sl)"
    "\<not> Chunks sl ! j" "\<forall>h<j. Chunks sl ! h" "(of_nat j :: u64) \<noteq> - 1"
proof -
  have "allocated sl \<noteq> length (Chunks sl)" using free by simp
  then obtain h where h: "h < length (Chunks sl)" "\<not> Chunks sl ! h"
    unfolding allocated_def using all_marked by blast
  have low: "\<forall>j<unat (FirstFreeChunkIdx sl). Chunks sl ! j" using wf by (simp add: slab_wf_def)
  obtain j where j: "find (\<lambda>k. \<not> Chunks sl ! k) [unat (FirstFreeChunkIdx sl)..<length (Chunks sl)] = Some j"
      "j < length (Chunks sl)" "\<not> Chunks sl ! j" "\<forall>h<j. unat (FirstFreeChunkIdx sl) \<le> h \<longrightarrow> \<not> \<not> Chunks sl ! h"
    by (rule find_first [of h "length (Chunks sl)" "\<lambda>k. \<not> Chunks sl ! k" "unat (FirstFreeChunkIdx sl)"])
      (use h low in auto)
  have small: "unat (of_nat j :: u64) = j"
    using j(2) allocated_bounds(2) [OF cfg wf] by (intro unat_of_nat_small) simp
  moreover have "(of_nat j :: u64) \<noteq> - 1"
  proof
    assume "(of_nat j :: u64) = - 1"
    then have "j = unat (- 1 :: u64)" using small by metis
    then show False
      using j(2) allocated_bounds(2) [OF cfg wf] by (simp add: unsigned_minus_1_eq_mask mask_eq_exp_minus_1)
  qed
  moreover have "\<forall>h<j. Chunks sl ! h" using low j(4) by (meson not_le)
  ultimately show thesis using that [of j] j by (simp add: FindFirstAvailableChunkIdx_def)
qed

lemma take_chunk_wf:
  assumes cfg: "cfg_ok k e c" and wf: "slab_wf c sl" and mode: "chunk_mode c (slab_bucket sl)"
    and j: "j < length (Chunks sl)" "\<not> Chunks sl ! j" "\<forall>h<j. Chunks sl ! h"
  shows "slab_wf c (take_chunk j sl)" "allocated (take_chunk j sl) = allocated sl + 1"
    "slab_live c (take_chunk j sl) = insert (unat (MemPtr sl) + j * size_at c (slab_bucket sl), size_at c (slab_bucket sl)) (slab_live c sl)"
    "unat (NumAllocated sl + 1) = allocated sl + 1"
proof -
  note b = allocated_bounds [OF cfg wf]
  show count: "allocated (take_chunk j sl) = allocated sl + 1"
    using j by (simp add: allocated_def take_chunk_def length_filter_update)
  show num: "unat (NumAllocated sl + 1) = allocated sl + 1"
    using wf b by (subst unat_add_u64) (simp_all add: slab_wf_def)
  have "unat (of_nat j :: u64) = j" using j(1) b(2) by (intro unat_of_nat_small) simp
  then show "slab_wf c (take_chunk j sl)"
    using wf j num count by (auto simp: slab_wf_def take_chunk_def nth_list_update allocated_def)
  have mark: "(Chunks sl)[j := True] ! h \<longleftrightarrow> h = j \<or> Chunks sl ! h" if "h < length (Chunks sl)" for h
    using that by (cases "h = j") (simp_all add: j)
  show "slab_live c (take_chunk j sl) = insert (unat (MemPtr sl) + j * size_at c (slab_bucket sl), size_at c (slab_bucket sl)) (slab_live c sl)"
    using mode j mark by (auto simp: slab_live_def chunk_ranges_def take_chunk_def)
qed

lemma chunk_not_live:
  assumes cfg: "cfg_ok k e c" and wf: "slab_wf c sl" and mode: "chunk_mode c (slab_bucket sl)" and j: "\<not> Chunks sl ! j"
  shows "(unat (MemPtr sl) + j * size_at c (slab_bucket sl), size_at c (slab_bucket sl)) \<notin> slab_live c sl"
proof -
  have "0 < size_at c (slab_bucket sl)" using size_at_bounds(3) [OF cfg] wf by (simp add: slab_wf_def)
  then show ?thesis using mode j by (auto simp: slab_live_def chunk_ranges_def)
qed

section \<open>Giving a chunk back\<close>

definition drop_chunk :: "nat \<Rightarrow> slab \<Rightarrow> slab" where
  "drop_chunk j sl = sl\<lparr>Chunks := (Chunks sl)[j := False], NumAllocated := NumAllocated sl - 1,
     FirstFreeChunkIdx := (if of_nat j < FirstFreeChunkIdx sl then of_nat j else FirstFreeChunkIdx sl),
     SlabListIter := Some Available\<rparr>"

lemma drop_chunk_wf:
  assumes cfg: "cfg_ok k e c" and wf: "slab_wf c sl" and mode: "chunk_mode c (slab_bucket sl)"
    and j: "j < length (Chunks sl)" "Chunks sl ! j"
  shows "slab_wf c (drop_chunk j sl)" "allocated (drop_chunk j sl) + 1 = allocated sl"
    "slab_live c (drop_chunk j sl) = slab_live c sl - {(unat (MemPtr sl) + j * size_at c (slab_bucket sl), size_at c (slab_bucket sl))}"
    "unat (NumAllocated sl - 1) = allocated sl - 1"
proof -
  note b = allocated_bounds [OF cfg wf]
  have size: "0 < size_at c (slab_bucket sl)" using size_at_bounds(3) [OF cfg] wf by (simp add: slab_wf_def)
  show count: "allocated (drop_chunk j sl) + 1 = allocated sl"
    using length_filter_clear [OF j] by (simp add: allocated_def drop_chunk_def)
  show num: "unat (NumAllocated sl - 1) = allocated sl - 1"
    using wf count by (subst unat_sub_u64) (simp_all add: slab_wf_def)
  have small: "unat (of_nat j :: u64) = j" using j(1) b(2) by (intro unat_of_nat_small) simp
  have less: "of_nat j < FirstFreeChunkIdx sl \<longleftrightarrow> j < unat (FirstFreeChunkIdx sl)"
    by (simp add: word_less_nat_alt small)
  have "allocated (drop_chunk j sl) \<noteq> length (Chunks sl)" using count b(1) by simp
  moreover have "(Chunks sl)[j := False] ! h"
    if "h < unat (if of_nat j < FirstFreeChunkIdx sl then of_nat j else FirstFreeChunkIdx sl)" for h
    using that wf small less by (auto simp: slab_wf_def nth_list_update split: if_splits)
  moreover have "unat (if of_nat j < FirstFreeChunkIdx sl then of_nat j else FirstFreeChunkIdx sl) \<le> length (Chunks sl)"
    using wf small less by (auto simp: slab_wf_def)
  moreover have "unat (NumAllocated sl - 1) = allocated (drop_chunk j sl)" using num count by simp
  ultimately show "slab_wf c (drop_chunk j sl)"
    using wf by (simp add: slab_wf_def drop_chunk_def allocated_def)
  have mark: "(Chunks sl)[j := False] ! h \<longleftrightarrow> h \<noteq> j \<and> Chunks sl ! h" if "h < length (Chunks sl)" for h
    using that by (cases "h = j") (simp_all add: j)
  show "slab_live c (drop_chunk j sl) = slab_live c sl - {(unat (MemPtr sl) + j * size_at c (slab_bucket sl), size_at c (slab_bucket sl))}"
    using mode j mark size by (auto simp: slab_live_def chunk_ranges_def drop_chunk_def)
qed

lemma chunk_index:
  assumes cfg: "cfg_ok k e c" and wf: "slab_wf c sl" and j: "j < length (Chunks sl)"
    and m: "unat (MemPtr sl) + min_of c < 2 ^ 64"
    and p: "unat (MemPtr sl) + j * size_at c (slab_bucket sl) \<le> unat p"
      "unat p < unat (MemPtr sl) + j * size_at c (slab_bucket sl) + size_at c (slab_bucket sl)"
  shows "unat ((p - MemPtr sl) div l_size (c_lists c ! slab_bucket sl)) = j" "holds_addr c sl p"
proof -
  let ?n = "size_at c (slab_bucket sl)"
  have i: "slab_bucket sl < length (c_lists c)" "length (Chunks sl) = min_of c div ?n"
    using wf by (simp_all add: slab_wf_def)
  have size: "0 < ?n" by (rule size_at_bounds(3) [OF cfg i(1)])
  have "unat (p - MemPtr sl) = unat p - unat (MemPtr sl)" using p(1) by (intro unat_sub_u64) simp
  moreover have "(unat p - unat (MemPtr sl)) div ?n = j"
    using p by (intro div_nat_eqI) (auto simp: algebra_simps)
  ultimately show "unat ((p - MemPtr sl) div l_size (c_lists c ! slab_bucket sl)) = j"
    by (simp add: unat_div size_at_def)
  have "(j + 1) * ?n \<le> length (Chunks sl) * ?n" using j by (intro mult_le_mono1) simp
  also have "\<dots> \<le> min_of c" unfolding i(2) by simp
  finally show "holds_addr c sl p" using p by (simp add: holds_addr_def)
qed

chapter \<open>Whole slabs\<close>

text \<open>
  The operations on slabs and buckets do the steps: to construct a slab is to add it,
  to delete a slab is to remove it, and a bucket that is asked for a slab with room answers one
  of its own, or a new one, or the error of the provider.
\<close>

section \<open>Moves between the lists\<close>

lemma erase_slab_step:
  assumes "i < length (Buckets s)" "slabs s x = Some sl" "SlabListIter sl = Some l"
  obtains t where "erase_slab i l x s = Some t" "core t = erase_core i l x (core s)"
proof -
  obtain t where t: "erase_slab i l x s = Some t"
      "core t = (core s)\<lparr>c_lists := (map lists_of (Buckets s))[i := take_from l x (lists_of (Buckets s ! i))]\<rparr>"
    by (rule erase_slab_core [OF assms])
  then show thesis using that assms(1) by (simp add: erase_core_def)
qed

lemma core_params:
  assumes "core t = c"
  shows "slabs t = c_slabs c" "length (Buckets t) = length (c_lists c)" "slab_min_size t = c_min c"
    "KnownSlabs t = c_known c" "provider_world t = c_world c" "params (t :: 'w alloc_impl) = params t"
  using assms by (auto simp: core_simps [symmetric] simp del: core_simps) (simp add: core_def)

lemma push_slab_step:
  assumes "i < length (Buckets s)" "slabs s x = Some sl"
  obtains t where "push_slab i l x s = Some t" "core t = push_core i l x (core s)"
proof -
  obtain t where t: "push_slab i l x s = Some t"
      "core t = (core s)\<lparr>c_slabs := (slabs s)(x \<mapsto> sl\<lparr>SlabListIter := Some l\<rparr>),
       c_lists := (map lists_of (Buckets s))[i := move_to l x (lists_of (Buckets s ! i))]\<rparr>"
    by (rule push_slab_core [OF assms])
  then show thesis using that assms by (simp add: push_core_def)
qed

lemma move_slab_step:
  assumes "i < length (Buckets s)" "slabs s x = Some sl" "SlabListIter sl = Some l"
  obtains t u where "erase_slab i l x s = Some t" "push_slab i m x t = Some u"
    "core u = push_core i m x (erase_core i l x (core s))"
    "slabs u = (slabs s)(x \<mapsto> sl\<lparr>SlabListIter := Some m\<rparr>)" "length (Buckets u) = length (Buckets s)"
proof -
  obtain t where t: "erase_slab i l x s = Some t" "core t = erase_core i l x (core s)"
    by (rule erase_slab_step [OF assms])
  note ct = core_params [OF t(2)]
  have "i < length (Buckets t)" "slabs t x = Some sl" using assms ct by simp_all
  then obtain u where u: "push_slab i m x t = Some u" "core u = push_core i m x (core t)"
    by (rule push_slab_step)
  note cu = core_params [OF u(2)]
  have "slabs u = (slabs s)(x \<mapsto> sl\<lparr>SlabListIter := Some m\<rparr>)"
    using cu(1) ct(1) assms(2) by (simp add: push_core_def)
  moreover have "length (Buckets u) = length (Buckets s)" using cu(2) ct(2) t(2) by simp
  ultimately show thesis using that [OF t(1) u(1)] u(2) t(2) by simp
qed

section \<open>A new slab\<close>

definition refused :: "('w \<Rightarrow> range set) \<Rightarrow> nat \<Rightarrow> nat \<Rightarrow> 'w alloc_impl \<Rightarrow> umf_result \<Rightarrow> 'w alloc_impl \<Rightarrow> bool" where
  "refused V k e s r t \<longleftrightarrow> r \<noteq> UMF_RESULT_SUCCESS \<and> pool_inv V k e (core t) \<and> live V (core t) = live V (core s)
     \<and> same_sizes (core s) (core t)"

lemma same_sizes_world [simp]: "same_sizes c (c\<lparr>c_world := w\<rparr>)"
  by (simp add: same_sizes_def)

lemma core_world: "core (s\<lparr>provider_world := w\<rparr>) = (core s)\<lparr>c_world := w\<rparr>"
  by (simp add: core_def)

lemma backing_subset: "pool_inv V k e c \<Longrightarrow> backing c \<subseteq> V (c_world c)"
  using slab_facts(2) by (auto simp: in_backing)

lemma memoryProviderAlloc_cases:
  assumes H: "host_ok H V" and inv: "pool_inv V k e (core s)" and sz: "sz \<noteq> 0"
  obtains (refused) r t where "memoryProviderAlloc H sz al s = Some (Inl r, t)" "refused V k e s r t"
  | (range) p w where "memoryProviderAlloc H sz al s = Some (Inr p, s\<lparr>provider_world := w\<rparr>)"
      "(unat p, unat sz) \<notin> V (provider_world s)" "ranges_ok (V w)"
      "V w = insert (unat p, unat sz) (V (provider_world s))"
proof -
  obtain r p w where h: "host_alloc H sz al (provider_world s) = Some ((r, p), w)" "ranges_ok (V w)"
      "r = UMF_RESULT_SUCCESS \<Longrightarrow> (unat p, unat sz) \<notin> V (provider_world s) \<and> V w = insert (unat p, unat sz) (V (provider_world s))"
      "r \<noteq> UMF_RESULT_SUCCESS \<Longrightarrow> V w = V (provider_world s)"
    by (rule host_alloc_cases [OF H _ sz, where w = "provider_world s"]) (use pool_invD(2) [OF inv] in auto)
  show thesis
  proof (cases "r = UMF_RESULT_SUCCESS")
    case True
    then have "memoryProviderAlloc H sz al s = Some (Inr p, s\<lparr>provider_world := w\<rparr>)"
      using h(1) by (simp add: memoryProviderAlloc_def)
    then show thesis by (rule that(2)) (use h True in simp_all)
  next
    case False
    have "backing (core s) \<subseteq> V w" using backing_subset [OF inv] h(4) [OF False] by simp
    note step = world_step [OF inv h(2) this]
    have "V (provider_world s) - backing (core s) \<subseteq> live V (core s)" by (auto simp: live_def)
    then have "live V ((core s)\<lparr>c_world := w\<rparr>) = live V (core s)"
      unfolding step(2) core_simps h(4) [OF False] by blast
    then have "refused V k e s r (s\<lparr>provider_world := w\<rparr>)"
      using step(1) False by (simp add: refused_def core_world)
    moreover have "memoryProviderAlloc H sz al s = Some (Inl r, s\<lparr>provider_world := w\<rparr>)"
      using h(1) False by (simp add: memoryProviderAlloc_def)
    ultimately show thesis by (rule that(1) [rotated])
  qed
qed

lemma regSlab_eq:
  "slabs s x = Some sl \<Longrightarrow> regSlab x s = Some (s\<lparr>KnownSlabs := KnownSlabs s @
     [(AlignPtrDown (MemPtr sl) (slab_min_size s), x), (AlignPtrDown (MemPtr sl) (slab_min_size s) + slab_min_size s, x)]\<rparr>)"
  by (simp add: regSlab_def regSlabByAddr_def Let_def)

lemma Slab_new_cases:
  assumes H: "host_ok H V" and inv: "pool_inv V k e (core s)" and i: "i < length (Buckets s)"
    and obj: "obj \<noteq> NULL" "slabs s obj = None"
  obtains (refused) r t where "Slab_new H obj i s = Some (Inl r, t)" "refused V k e s r t"
  | (new) t u where "Slab_new H obj i s = Some (Inr (), t)" "push_slab i Available obj t = Some u"
      "pool_inv V k e (core u)" "live V (core u) = live V (core s)" "same_sizes (core s) (core u)"
      "in_list (core u) i Available obj"
proof -
  let ?b = "Buckets s ! i" and ?sz = "SlabAllocSize s (Buckets s ! i)"
  note cfg = pool_invD(1) [OF inv]
  have pos: "0 < unat (bSize ?b)" using size_at_bounds(3) [OF cfg, of i] i by simp
  then have nz: "bSize ?b \<noteq> 0" by auto
  have sz: "unat ?sz = alloc_size (core s) i" using alloc_size_core [OF i] by simp
  have "0 < unat ?sz" using pos unfolding sz by (simp add: alloc_size_def i)
  then have "?sz \<noteq> 0" by auto
  from H inv this show thesis
  proof (cases rule: memoryProviderAlloc_cases [where al = 0])
    case (refused r t)
    then show thesis using that(1) nz obj i by (simp add: Slab_new_def)
  next
    case (range p w)
    let ?sl = "\<lparr>MemPtr = p, Chunks = replicate (unat (slab_min_size s div bSize ?b)) False, NumAllocated = 0,
       slab_bucket = i, SlabListIter = None, FirstFreeChunkIdx = 0\<rparr>"
    let ?s1 = "set_slab obj ?sl (s\<lparr>provider_world := w\<rparr>)"
    let ?a = "AlignPtrDown p (slab_min_size s)"
    let ?t = "?s1\<lparr>KnownSlabs := KnownSlabs s @ [(?a, obj), (?a + slab_min_size s, obj)]\<rparr>"
    have m: "slab_min_size ?s1 = slab_min_size s" by (simp add: slab_min_size_def)
    have new: "Slab_new H obj i s = Some (Inr (), ?t)"
      using range(1) nz obj i regSlab_eq [of ?s1 obj ?sl] unfolding m
      by (simp add: Slab_new_def slab_min_size_def)
    have "i < length (Buckets ?t)" "slabs ?t obj = Some ?sl" using i by simp_all
    then obtain u where u: "push_slab i Available obj ?t = Some u" "core u = push_core i Available obj (core ?t)"
      by (rule push_slab_step)
    have "core u = add_core obj i p w (core s)"
      using i unfolding u(2) add_core_def new_slab_def push_core_def
      by (simp add: core_def set_slab_def min_of_def slab_min_size_def unat_div size_at_def)
    moreover have "pool_inv V k e (add_core obj i p w (core s))" "live V (add_core obj i p w (core s)) = live V (core s)"
      using add_slab [OF inv, of i obj p w] i obj range(2-4) by (simp_all add: sz)
    moreover have "same_sizes (core s) (add_core obj i p w (core s))"
      using i by (simp add: same_sizes_def add_core_def map_update list_update_same_conv)
    moreover have "in_list (add_core obj i p w (core s)) i Available obj"
      by (simp add: in_list_def add_core_def new_slab_def)
    ultimately show thesis using that(2) [OF new u(1)] by simp
  qed
qed

section \<open>A slab is deleted\<close>

lemma erase_known_eq:
  assumes "(a, x) \<in> set l" "\<forall>(b, y)\<in>set l. \<exists>sl. m y = Some sl \<and> (MemPtr sl = p \<longleftrightarrow> y = x)"
  shows "erase_known m a p l = Some (remove1 (a, x) l)"
  using assms by (induction m a p l rule: erase_known.induct) auto

text \<open>What the deletion of a slab reads of the state.\<close>

definition agrees :: "'w alloc_impl \<Rightarrow> 'w core \<Rightarrow> bool" where
  "agrees s c \<longleftrightarrow> slabs s = c_slabs c \<and> slab_min_size s = c_min c \<and> KnownSlabs s = c_known c
     \<and> provider_world s = c_world c"

lemma Slab_delete_eq:
  assumes H: "host_ok H V" and inv: "pool_inv V k e c" and x: "c_slabs c x = Some sl" and s: "agrees s c"
  obtains w where "Slab_delete H x s = Some (s\<lparr>KnownSlabs := c_known (del_core x i l (MemPtr sl) w c),
      provider_world := w, slabs := (c_slabs c)(x := None)\<rparr>)" "V w = V (c_world c) - {slab_range c sl}"
proof -
  let ?p = "MemPtr sl" and ?a = "AlignPtrDown (MemPtr sl) (c_min c)"
  have cs: "slabs s = c_slabs c" "slab_min_size s = c_min c" "KnownSlabs s = c_known c" "provider_world s = c_world c"
    using s by (simp_all add: agrees_def)
  note inv' = pool_invD [OF inv]
  let ?n = "of_nat (alloc_size c (slab_bucket sl)) :: u64"
  have n: "unat ?n = alloc_size c (slab_bucket sl)"
    by (rule unat_of_nat_small) (use slab_facts(4) [OF inv x] in simp)
  have held: "(unat ?p, unat ?n) \<in> V (c_world c)"
    using slab_facts(2) [OF inv x] unfolding n by (simp add: slab_range_def)
  obtain w j where h: "host_free H ?p ?n (c_world c) = Some (UMF_RESULT_SUCCESS, w)" "V w = V (c_world c) - {(unat ?p, unat ?n)}"
      "host_info H ?p (c_world c) = Some (UMF_RESULT_SUCCESS, Some j)" "info_baseSize j = ?n"
    by (rule host_free_held [OF H inv'(2) held])
  have entry: "\<exists>sm. c_slabs c y = Some sm \<and> (MemPtr sm = ?p \<longleftrightarrow> y = x)" if "(b, y) \<in> set (c_known c)" for b y
    using inv'(3,5) that x by (fastforce simp: known_ok_def slabs_ok_def)
  have known: "(?a, x) \<in> set (c_known c)" "(?a + c_min c, x) \<in> set (c_known c)"
    using inv'(5) x by (auto simp: known_ok_def known_at_def)
  have "c_min c \<noteq> 0" using cfg_okD(5,4) [OF inv'(1)] by (metis unat_exp64 unat_0 power_not_zero zero_neq_numeral)
  then have known2: "(?a + c_min c, x) \<in> set (remove1 (?a, x) (c_known c))" using known(2) by (simp add: in_set_remove1)
  let ?l1 = "remove1 (?a, x) (c_known c)" and ?l2 = "remove1 (?a + c_min c, x) (remove1 (?a, x) (c_known c))"
  have e1: "erase_known (c_slabs c) ?a ?p (c_known c) = Some ?l1"
    by (rule erase_known_eq [OF known(1)]) (use entry in auto)
  have e2: "erase_known (c_slabs c) (?a + c_min c) ?p ?l1 = Some ?l2"
    by (rule erase_known_eq [OF known2]) (use entry set_remove1_subset in fastforce)
  have unreg: "unregSlab x s = Some (s\<lparr>KnownSlabs := ?l2\<rparr>)"
    using x e1 e2 cs by (simp add: unregSlab_def unregSlabByAddr_def Let_def)
  have nz: "?p \<noteq> 0" using slab_facts(3) [OF inv x] by auto
  have "memoryProviderFree H ?p (s\<lparr>KnownSlabs := ?l2\<rparr>) = Some (Inr (), s\<lparr>KnownSlabs := ?l2, provider_world := w\<rparr>)"
    using h nz cs(4) by (simp add: memoryProviderFree_def)
  then have "Slab_delete H x s = Some (s\<lparr>KnownSlabs := ?l2, provider_world := w, slabs := (c_slabs c)(x := None)\<rparr>)"
    using unreg x cs(1) by (simp add: Slab_delete_def)
  moreover have "V w = V (c_world c) - {slab_range c sl}" using h(2) unfolding n by (simp add: slab_range_def)
  moreover have "?l2 = c_known (del_core x i l ?p w c)" by (simp add: del_core_def Let_def)
  ultimately show thesis using that by simp
qed

lemma Slab_delete_step:
  assumes H: "host_ok H V" and inv: "pool_inv V k e c" and x: "c_slabs c x = Some sl" "SlabListIter sl = Some l"
    and s: "core s = erase_core (slab_bucket sl) l x c"
  obtains t where "Slab_delete H x s = Some t" "pool_inv V k e (core t)" "live V (core t) = rest V c x"
    "V (provider_world t) = V (c_world c) - {slab_range c sl}"
    "core t = del_core x (slab_bucket sl) l (MemPtr sl) (provider_world t) c"
proof -
  have "agrees s c" using core_params [OF s] by (simp add: agrees_def)
  then obtain w where w: "Slab_delete H x s = Some (s\<lparr>KnownSlabs := c_known (del_core x (slab_bucket sl) l (MemPtr sl) w c),
      provider_world := w, slabs := (c_slabs c)(x := None)\<rparr>)" "V w = V (c_world c) - {slab_range c sl}"
    by (rule Slab_delete_eq [OF H inv x(1)])
  let ?t = "s\<lparr>KnownSlabs := c_known (del_core x (slab_bucket sl) l (MemPtr sl) w c), provider_world := w,
    slabs := (c_slabs c)(x := None)\<rparr>"
  have "core ?t = (core s)\<lparr>c_known := c_known (del_core x (slab_bucket sl) l (MemPtr sl) w c), c_world := w,
      c_slabs := (c_slabs c)(x := None)\<rparr>"
    by (simp add: core_def)
  then have t: "core ?t = del_core x (slab_bucket sl) l (MemPtr sl) w c"
    unfolding s by (simp add: erase_core_def del_core_def Let_def)
  have "provider_world ?t = w" by simp
  then show thesis
    using that [OF w(1)] t w(2) del_slab(1,2) [OF inv x(1) refl x(2) refl w(2)] by simp
qed

section \<open>A slab with room\<close>

lemma available_slab:
  assumes inv: "pool_inv V k e (core s)" and i: "i < length (Buckets s)" and x: "x \<in> set (AvailableSlabs (Buckets s ! i))"
  shows "in_list (core s) i Available x"
  using lists_okD(2) [OF pool_invD(4) [OF inv], of i x] i x by simp

definition served :: "('w \<Rightarrow> range set) \<Rightarrow> nat \<Rightarrow> nat \<Rightarrow> 'w alloc_impl \<Rightarrow> nat \<Rightarrow> ptr \<Rightarrow> 'w alloc_impl \<Rightarrow> bool" where
  "served V k e s i x t \<longleftrightarrow> pool_inv V k e (core t) \<and> live V (core t) = live V (core s)
     \<and> same_sizes (core s) (core t) \<and> in_list (core t) i Available x"

lemma new_slab_served:
  assumes H: "host_ok H V" and inv: "pool_inv V k e (core s)" and i: "i < length (Buckets s)"
    and obj: "obj \<noteq> NULL" "slabs s obj = None"
  obtains (refused) r t where "Slab_new H obj i s = Some (Inl r, t)" "refused V k e s r t"
  | (served) t u v where "Slab_new H obj i s = Some (Inr (), t)" "push_slab i Available obj t = Some u"
      "updateStats i 1 0 u = Some v" "served V k e s i obj v"
  using assms
proof (cases rule: Slab_new_cases)
  case (refused r t)
  then show thesis by (rule that(1))
next
  case (new t u)
  have "i < length (Buckets u)" using same_sizesD(1) [OF new(5)] i by simp
  then obtain v where v: "updateStats i 1 0 u = Some v" "core v = core u" by (rule updateStats_core)
  then show thesis using that(2) [OF new(1,2) v(1)] new(3-6) by (simp add: served_def)
qed

lemma getAvailFullSlab_cases:
  assumes H: "host_ok H V" and inv: "pool_inv V k e (core s)" and i: "i < length (Buckets s)"
    and obj: "obj \<noteq> NULL" "slabs s obj = None"
  obtains (refused) r t where "getAvailFullSlab H obj i s = Some (Inl r, t)" "refused V k e s r t"
  | (served) x pool t where "getAvailFullSlab H obj i s = Some (Inr (x, pool), t)" "served V k e s i x t"
proof (cases "AvailableSlabs (Buckets s ! i)")
  case Nil
  from H inv i obj show thesis
  proof (cases rule: new_slab_served)
    case (refused r t)
    then show thesis using that(1) [of r t] Nil i by (simp add: getAvailFullSlab_def)
  next
    case (served t u v)
    then show thesis using that(2) [of obj False v] Nil i by (simp add: getAvailFullSlab_def)
  qed
next
  case (Cons x r)
  obtain t where t: "decrementPool i s = Some t" "core t = core s" by (rule decrementPool_core [OF i])
  have "in_list (core s) i Available x" by (rule available_slab [OF inv i]) (simp add: Cons)
  then show thesis using that(2) [of x True t] t i Cons inv by (simp add: getAvailFullSlab_def served_def)
qed

lemma getAvailSlab_cases:
  assumes H: "host_ok H V" and inv: "pool_inv V k e (core s)" and i: "i < length (Buckets s)"
    and obj: "obj \<noteq> NULL" "slabs s obj = None"
  obtains (refused) r t where "getAvailSlab H obj i s = Some (Inl r, t)" "refused V k e s r t"
  | (served) x pool t where "getAvailSlab H obj i s = Some (Inr (x, pool), t)" "served V k e s i x t"
proof (cases "AvailableSlabs (Buckets s ! i)")
  case Nil
  from H inv i obj show thesis
  proof (cases rule: new_slab_served)
    case (refused r t)
    then show thesis using that(1) [of r t] Nil i by (simp add: getAvailSlab_def)
  next
    case (served t u v)
    then show thesis using that(2) [of obj False v] Nil i by (simp add: getAvailSlab_def)
  qed
next
  case (Cons x r)
  have x: "in_list (core s) i Available x" by (rule available_slab [OF inv i]) (simp add: Cons)
  then obtain sl where sl: "slabs s x = Some sl" by (auto simp: in_list_def)
  let ?s = "set_bucket i ((Buckets s ! i)\<lparr>chunkedSlabsInPool := chunkedSlabsInPool (Buckets s ! i) - 1\<rparr>) s"
  have c: "core ?s = core s" using i by (intro core_set_bucket_same) (simp_all add: lists_of_def)
  obtain t where t: "decrementPool i ?s = Some t" "core t = core ?s"
    by (rule decrementPool_core [of i ?s]) (use i in simp)
  show thesis
  proof (cases "NumAllocated sl = 0")
    case True
    then show thesis using that(2) [of x True t] t i Cons inv sl x c by (simp add: getAvailSlab_def served_def)
  next
    case False
    then show thesis using that(2) [of x True s] i Cons inv sl x by (simp add: getAvailSlab_def served_def)
  qed
qed

end
