(* ===== verification/Disjoint_Alloc.thy ===== *)
theory Disjoint_Alloc
  imports Disjoint_Slabs
begin

text \<open>
  Requests of memory: a whole slab for a large request, a chunk of a slab for a small one, or
  memory of the provider for a request that is not pooled. Each adds one range to those in use,
  apart from all others, or passes on the refusal of the provider and changes none.
\<close>

section \<open>One more range\<close>

definition gave :: "('w \<Rightarrow> range set) \<Rightarrow> nat \<Rightarrow> nat \<Rightarrow> 'w alloc_impl \<Rightarrow> range \<Rightarrow> 'w alloc_impl \<Rightarrow> bool" where
  "gave V k e s r t \<longleftrightarrow> pool_inv V k e (core t) \<and> live V (core t) = insert r (live V (core s))
     \<and> r \<notin> live V (core s) \<and> same_sizes (core s) (core t)"

lemma gave_core: "core u = core t \<Longrightarrow> gave V k e s r u = gave V k e s r t"
  by (simp add: gave_def)

lemma add_range:
  assumes inv: "pool_inv V k e c" and x: "c_slabs c x = Some sl"
    and same: "MemPtr sm = MemPtr sl" "slab_bucket sm = slab_bucket sl" and wf: "slab_wf c sm"
    and d: "same_sizes c d" "c_known d = c_known c" "c_world d = c_world c" "c_slabs d = (c_slabs c)(x \<mapsto> sm)"
      "lists_ok d"
    and r: "slab_live c sm = insert r (slab_live c sl)" "r \<notin> slab_live c sl"
  shows "pool_inv V k e d" "live V d = insert r (live V c)" "r \<notin> live V c"
proof -
  note ch = change_slab [OF inv x same wf d]
  show inv_d: "pool_inv V k e d" by (rule ch(1))
  show "live V d = insert r (live V c)" unfolding ch(2) live_rest [OF x] r(1) by blast
  have b: "slab_bucket sm < length (c_lists c)" using same(2) slab_facts(6) [OF inv x] by simp
  have "within r (slab_range d sm)"
    by (rule slab_live_within [OF inv_d, of x]) (use d(4) r(1) same_sizes_slab(3) [OF d(1) b] in simp_all)
  then have "within r (slab_range c sl)"
    using same_sizes_slab(2) [OF d(1) b] same by (simp add: slab_range_def)
  then show "r \<notin> live V c" unfolding live_rest [OF x] using r(2) within_not_rest [OF inv x] by blast
qed

lemma drop_range:
  assumes inv: "pool_inv V k e c" and x: "c_slabs c x = Some sl"
    and same: "MemPtr sm = MemPtr sl" "slab_bucket sm = slab_bucket sl" and wf: "slab_wf c sm"
    and d: "same_sizes c d" "c_known d = c_known c" "c_world d = c_world c" "c_slabs d = (c_slabs c)(x \<mapsto> sm)"
      "lists_ok d"
    and r: "slab_live c sm = slab_live c sl - {r}" "r \<in> slab_live c sl"
  shows "pool_inv V k e d" "live V d = live V c - {r}"
proof -
  note ch = change_slab [OF inv x same wf d]
  show "pool_inv V k e d" by (rule ch(1))
  have "r \<notin> rest V c x" by (rule within_not_rest [OF inv x slab_live_within [OF inv x r(2)]])
  then show "live V d = live V c - {r}" unfolding ch(2) live_rest [OF x] r(1) by blast
qed

lemma in_listE:
  assumes "in_list (core t) i l x"
  obtains sl where "slabs t x = Some sl" "slab_bucket sl = i" "SlabListIter sl = Some l"
  using assms by (auto simp: in_list_def)

section \<open>A whole slab\<close>

lemma whole_wf:
  assumes "slab_wf c sl" "\<not> chunk_mode c (slab_bucket sl)"
  shows "slab_wf c (sl\<lparr>SlabListIter := Some l\<rparr>)"
    "slab_live c (sl\<lparr>SlabListIter := Some l\<rparr>) = (if l = Unavailable then {(unat (MemPtr sl), size_at c (slab_bucket sl))} else {})"
  using assms by (auto simp: slab_wf_def slab_live_def allocated_def)

lemma getSlab_cases:
  assumes H: "host_ok H V" and inv: "pool_inv V k e (core s)" and i: "i < length (Buckets s)"
    and obj: "obj \<noteq> NULL" "slabs s obj = None" and mode: "\<not> chunk_mode (core s) i"
  obtains (refused) r t where "getSlab H obj i s = Some (Inl r, t)" "refused V k e s r t"
  | (gave) p pool t where "getSlab H obj i s = Some (Inr (p, pool), t)" "gave V k e s (unat p, size_at (core s) i) t"
  using H inv i obj
proof (cases rule: getAvailFullSlab_cases)
  case (refused r t)
  then show thesis using that(1) [of r t] by (simp add: getSlab_def)
next
  case (served x pool t)
  then have t: "pool_inv V k e (core t)" "live V (core t) = live V (core s)" "same_sizes (core s) (core t)"
      "in_list (core t) i Available x" by (simp_all add: served_def)
  from t(4) obtain sl where sl: "slabs t x = Some sl" "slab_bucket sl = i" "SlabListIter sl = Some Available"
    by (rule in_listE)
  have len: "i < length (Buckets t)" using same_sizesD(1) [OF t(3)] i by simp
  obtain t1 u where u: "erase_slab i Available x t = Some t1" "push_slab i Unavailable x t1 = Some u"
      "core u = push_core i Unavailable x (erase_core i Available x (core t))"
      "slabs u = (slabs t)(x \<mapsto> sl\<lparr>SlabListIter := Some Unavailable\<rparr>)"
    by (rule move_slab_step [OF len sl(1,3)])
  have sizes: "size_at (core t) i = size_at (core s) i" "min_of (core t) = min_of (core s)"
    using same_sizesD(2) [OF t(3)] same_sizesD(3) [OF t(3)] i by simp_all
  have mode_t: "\<not> chunk_mode (core t) (slab_bucket sl)" using mode sizes by (simp add: chunk_mode_def sl(2))
  have x: "c_slabs (core t) x = Some sl" using sl(1) by simp
  have wf: "slab_wf (core t) sl" by (rule slab_facts(1) [OF t(1) x])
  note whole = whole_wf [OF wf mode_t, of Unavailable] whole_wf(2) [OF wf mode_t, of Available]
  have "sl\<lparr>SlabListIter := Some Available\<rparr> = sl" using sl(3) by simp
  then have empty: "slab_live (core t) sl = {}" using whole(3) by simp
  let ?d = "push_core i Unavailable x (erase_core i Available x (core t))"
  have slabs: "c_slabs ?d = (c_slabs (core t))(x \<mapsto> sl\<lparr>SlabListIter := Some Unavailable\<rparr>)"
    using x by (simp add: push_core_def)
  have lists: "lists_ok ?d"
    by (rule lists_move [OF pool_invD(4) [OF t(1)] x sl(2,3)]) (use len in simp_all)
  have ss: "same_sizes (core t) ?d" by (meson same_sizes_trans same_sizes_update)
  have live: "slab_live (core t) (sl\<lparr>SlabListIter := Some Unavailable\<rparr>) =
      insert (unat (MemPtr sl), size_at (core s) i) (slab_live (core t) sl)"
    unfolding whole(2) empty using sizes sl(2) by simp
  note add = add_range [OF t(1) x _ _ whole(1) ss _ _ slabs lists live]
  have "gave V k e s (unat (MemPtr sl), size_at (core s) i) u"
    using add empty t(2,3) same_sizes_trans [OF t(3) ss] by (simp add: gave_def u(3))
  then show thesis using that(2) [of "MemPtr sl" pool u] served(1) sl(1) u(1,2) by (simp add: getSlab_def)
qed

section \<open>A chunk\<close>

lemma unat_mult_u64: "unat a * unat b < 2 ^ 64 \<Longrightarrow> unat (a * b) = unat a * unat b" for a b :: u64
  by (simp add: unat_word_ariths)

lemma chunk_pointer:
  assumes inv: "pool_inv V k e c" and x: "c_slabs c x = Some sl" and j: "j < length (Chunks sl)"
  shows "unat (MemPtr sl + of_nat j * l_size (c_lists c ! slab_bucket sl)) = unat (MemPtr sl) + j * size_at c (slab_bucket sl)"
proof -
  note wf = slab_facts(1) [OF inv x] and b = slab_facts(6) [OF inv x]
  have len: "length (Chunks sl) = min_of c div size_at c (slab_bucket sl)" using wf by (simp add: slab_wf_def)
  have small: "unat (of_nat j :: u64) = j"
    using j allocated_bounds(2) [OF pool_invD(1) [OF inv] wf] by (intro unat_of_nat_small) simp
  have "(j + 1) * size_at c (slab_bucket sl) \<le> min_of c" by (rule chunk_within(2) [OF inv b len j])
  then have le: "j * size_at c (slab_bucket sl) \<le> min_of c" by simp
  then have m: "unat (of_nat j * l_size (c_lists c ! slab_bucket sl)) = j * size_at c (slab_bucket sl)"
    using slab_facts(5) [OF inv x] small by (subst unat_mult_u64) (simp_all add: size_at_def)
  then show ?thesis using slab_facts(5) [OF inv x] le by (subst unat_add_u64) simp_all
qed

lemma getChunk_cases:
  assumes H: "host_ok H V" and inv: "pool_inv V k e (core s)" and i: "i < length (Buckets s)"
    and obj: "obj \<noteq> NULL" "slabs s obj = None" and mode: "chunk_mode (core s) i"
  obtains (refused) r t where "getChunk H obj i s = Some (Inl r, t)" "refused V k e s r t"
  | (gave) p pool t where "getChunk H obj i s = Some (Inr (p, pool), t)" "gave V k e s (unat p, size_at (core s) i) t"
  using H inv i obj
proof (cases rule: getAvailSlab_cases)
  case (refused r t)
  then show thesis using that(1) [of r t] by (simp add: getChunk_def)
next
  case (served x pool t)
  then have t: "pool_inv V k e (core t)" "live V (core t) = live V (core s)" "same_sizes (core s) (core t)"
      "in_list (core t) i Available x" by (simp_all add: served_def)
  from t(4) obtain sl where sl: "slabs t x = Some sl" "slab_bucket sl = i" "SlabListIter sl = Some Available"
    by (rule in_listE)
  have len: "i < length (Buckets t)" using same_sizesD(1) [OF t(3)] i by simp
  have sizes: "size_at (core t) i = size_at (core s) i" "min_of (core t) = min_of (core s)"
    using same_sizesD(2) [OF t(3)] same_sizesD(3) [OF t(3)] i by simp_all
  have mode_t: "chunk_mode (core t) (slab_bucket sl)" using mode sizes by (simp add: chunk_mode_def sl(2))
  have x: "c_slabs (core t) x = Some sl" using sl(1) by simp
  note cfg = pool_invD(1) [OF t(1)] and wf = slab_facts(1) [OF t(1) x]
  note bounds = allocated_bounds [OF cfg wf]
  have "allocated sl < length (Chunks sl)" using wf mode_t sl(3) bounds(1) by (auto simp: slab_wf_def)
  then obtain j where j: "FindFirstAvailableChunkIdx sl = of_nat j" "unat (of_nat j :: u64) = j" "j < length (Chunks sl)"
      "\<not> Chunks sl ! j" "\<forall>h<j. Chunks sl ! h" "(of_nat j :: u64) \<noteq> - 1"
    by (rule first_free_chunk [OF cfg wf])
  note take = take_chunk_wf [OF cfg wf mode_t j(3,4,5)]
  let ?p = "MemPtr sl + of_nat j * bSize (Buckets t ! i)"
  let ?s0 = "sl\<lparr>Chunks := (Chunks sl)[j := True], NumAllocated := NumAllocated sl + 1, FirstFreeChunkIdx := of_nat j\<rparr>"
  let ?t1 = "set_slab x ?s0 t"
  have get: "Slab_getChunk x t = Some (?p, ?t1)" "slabs ?t1 x = Some ?s0"
    using sl j len by (simp_all add: Slab_getChunk_def Let_def)
  have p: "unat ?p = unat (MemPtr sl) + j * size_at (core s) i"
    using chunk_pointer [OF t(1) x j(3)] len sl(2) sizes(1) by simp
  have full: "hasAvail ?s0 \<longleftrightarrow> allocated sl + 1 \<noteq> length (Chunks sl)"
  proof -
    have "unat (of_nat (length (Chunks sl)) :: u64) = length (Chunks sl)"
      using bounds(2) by (intro unat_of_nat_small) simp
    then show ?thesis using take(4) unat_eqD64 [of "NumAllocated sl + 1" "of_nat (length (Chunks sl))"]
      by (auto simp: hasAvail_def)
  qed
  have c1: "core ?t1 = slab_core x ?s0 (core t)" by (simp add: core_set_slab slab_core_def)
  have ok1: "lists_ok (slab_core x ?s0 (core t))"
    by (rule lists_same [OF pool_invD(4) [OF t(1)] x]) simp_all
  have live: "slab_live (core t) (take_chunk j sl) = insert (unat ?p, size_at (core s) i) (slab_live (core t) sl)"
    "(unat ?p, size_at (core s) i) \<notin> slab_live (core t) sl"
    using take(3) chunk_not_live [OF cfg wf mode_t j(4)] p sl(2) sizes(1) by simp_all
  have fields: "MemPtr (take_chunk j sl) = MemPtr sl" "slab_bucket (take_chunk j sl) = slab_bucket sl"
    by (simp_all add: take_chunk_def)
  obtain u where u: "(if \<not> hasAvail ?s0 then Option.bind (erase_slab i Available x ?t1) (push_slab i Unavailable x) else Some ?t1) = Some u"
    and cu: "c_slabs (core u) = (c_slabs (core t))(x \<mapsto> take_chunk j sl)" "lists_ok (core u)" "same_sizes (core t) (core u)"
      "c_known (core u) = c_known (core t)" "c_world (core u) = c_world (core t)"
  proof (cases "hasAvail ?s0")
    case True
    then have "?s0 = take_chunk j sl" using full sl(3) by (simp add: take_chunk_def)
    then show thesis using that [of ?t1] True c1 ok1 by simp
  next
    case False
    then have s0: "?s0\<lparr>SlabListIter := Some Unavailable\<rparr> = take_chunk j sl" using full by (simp add: take_chunk_def)
    have len1: "i < length (Buckets ?t1)" "SlabListIter ?s0 = Some Available" using len sl(3) by simp_all
    obtain t2 v where v: "erase_slab i Available x ?t1 = Some t2" "push_slab i Unavailable x t2 = Some v"
        "core v = push_core i Unavailable x (erase_core i Available x (core ?t1))"
        "slabs v = (slabs ?t1)(x \<mapsto> ?s0\<lparr>SlabListIter := Some Unavailable\<rparr>)"
      by (rule move_slab_step [OF len1(1) get(2) len1(2)])
    have "lists_ok (core v)"
      unfolding v(3) c1 by (rule lists_move [OF ok1, where sl = ?s0]) (use sl len in simp_all)
    moreover have "same_sizes (core t) (core v)" unfolding v(3) c1 by (meson same_sizes_trans same_sizes_update)
    moreover have "c_known (core v) = c_known (core t)" "c_world (core v) = c_world (core t)"
      unfolding v(3) c1 by (simp_all only: push_core_simps erase_core_simps slab_core_simps)
    moreover have "c_slabs (core v) = (c_slabs (core t))(x \<mapsto> take_chunk j sl)" using v(4) s0 by simp
    ultimately show thesis using that [of v] False v(1,2) by simp
  qed
  note add = add_range [OF t(1) x fields take(1) cu(3,4,5,1,2) live]
  have "gave V k e s (unat ?p, size_at (core s) i) u"
    using add t(2) same_sizes_trans [OF t(3) cu(3)] by (simp add: gave_def)
  then show thesis using that(2) [of ?p pool u] served(1) get u by (simp add: getChunk_def)
qed

chapter \<open>Requests\<close>

text \<open>
  Requests of any size and alignment: the bucket of a request has room for it, and a request
  with an alignment gets an aligned address with room inside the range that it is given.
\<close>

section \<open>Requests that are pooled\<close>

lemma bucket_mode:
  assumes cfg: "cfg_ok k e (core s)" and i: "i < length (Buckets s)" "Size \<le> bSize (Buckets s ! i)"
    and least: "\<And>n. n \<in> set (size_list k) \<Longrightarrow> unat Size \<le> n \<Longrightarrow> unat (bSize (Buckets s ! i)) \<le> n"
  shows "Size > ChunkCutOff s \<longleftrightarrow> \<not> chunk_mode (core s) i"
proof -
  note c = cfg_okD [OF cfg]
  obtain d where d: "e = Suc d" using c(3) by (cases e) auto
  have "unat (slab_min_size s) = 2 ^ Suc d" using c(8) d by (simp add: min_of_def)
  then have cut: "unat (ChunkCutOff s) = 2 ^ d" by (simp add: ChunkCutOff_def unat_div)
  have mode: "chunk_mode (core s) i \<longleftrightarrow> unat (bSize (Buckets s ! i)) \<le> 2 ^ d"
    using i(1) c(8) d by (simp add: chunk_mode_def)
  have up: "unat (bSize (Buckets s ! i)) \<le> 2 ^ d" if "unat Size \<le> 2 ^ d"
  proof (cases "d \<le> 31")
    case True
    then show ?thesis using least [OF size_list_power [of k d]] c(3) d that by simp
  next
    case False
    then have "(2 :: nat) ^ 31 \<le> 2 ^ d" by (intro power_increasing) simp_all
    then show ?thesis using sized_bucket(4) [OF cfg_sized [OF cfg] i(1)] by linarith
  qed
  have "unat Size \<le> unat (bSize (Buckets s ! i))" using i(2) by (simp add: word_le_nat_alt)
  then show ?thesis using up unfolding mode word_less_nat_alt cut by linarith
qed

lemma from_bucket_cases:
  assumes H: "host_ok H V" and inv: "pool_inv V k e (core s)"
    and obj: "obj \<noteq> NULL" "slabs s obj = None" and sz: "0 < unat Size" "unat Size \<le> 2 ^ 31"
  obtains (refused) r t where "from_bucket H obj Size s = Some (Inl r, t)" "refused V k e s r t"
  | (gave) p n t where "from_bucket H obj Size s = Some (Inr p, t)" "gave V k e s (unat p, n) t" "unat Size \<le> n"
      "n \<in> set (size_list k)" "\<forall>m\<in>set (size_list k). unat Size \<le> m \<longrightarrow> n \<le> m"
proof -
  note cfg = pool_invD(1) [OF inv]
  obtain i where i: "findBucket Size s = Some i" "i < length (Buckets s)" "Size \<le> bSize (Buckets s ! i)"
      "\<And>n. n \<in> set (size_list k) \<Longrightarrow> unat Size \<le> n \<Longrightarrow> unat (bSize (Buckets s ! i)) \<le> n"
    by (rule findBucket_finds [OF cfg_sized [OF cfg] sz]) blast
  note mode = bucket_mode [OF cfg i(2-4)]
  let ?n = "size_at (core s) i"
  have n: "unat Size \<le> ?n" "?n \<in> set (size_list k)" "\<forall>m\<in>set (size_list k). unat Size \<le> m \<longrightarrow> ?n \<le> m"
    using i(2-4) sized_bucket(1,2) [OF cfg_sized [OF cfg] i(2)] by (simp_all add: word_le_nat_alt)
  let ?m = "if Size > ChunkCutOff s then getSlab H obj i s else getChunk H obj i s"
  consider (refused) r t where "?m = Some (Inl r, t)" "refused V k e s r t"
    | (gave) p pool t where "?m = Some (Inr (p, pool), t)" "gave V k e s (unat p, ?n) t"
  proof (cases "Size > ChunkCutOff s")
    case True
    then have "\<not> chunk_mode (core s) i" using mode by simp
    with H inv i(2) obj show thesis by (cases rule: getSlab_cases) (use True that in simp_all)
  next
    case False
    then have "chunk_mode (core s) i" using mode by simp
    with H inv i(2) obj show thesis by (cases rule: getChunk_cases) (use False that in simp_all)
  qed
  then show thesis
  proof cases
    case (refused r t)
    then show thesis using that(1) [of r t] i(1) by (simp add: from_bucket_def)
  next
    case (gave p pool t)
    have len: "i < length (Buckets t)" using gave(2) i(2) same_sizesD(1) [of "core s" "core t"] by (simp add: gave_def)
    obtain u where u: "countAlloc i pool t = Some u" "core u = core t" by (rule countAlloc_core [OF len])
    show thesis
    proof (cases "PoolTrace (params t) > 1")
      case True
      then show thesis using that(2) [of p u ?n] n gave u i(1) gave_core [OF u(2)] by (simp add: from_bucket_def)
    next
      case False
      then show thesis using that(2) [of p t ?n] n gave i(1) by (simp add: from_bucket_def)
    qed
  qed
qed

section \<open>Requests that go to the provider\<close>

lemma provider_gave:
  assumes inv: "pool_inv V k e (core s)" and w: "(unat p, unat sz) \<notin> V (provider_world s)" "ranges_ok (V w)"
      "V w = insert (unat p, unat sz) (V (provider_world s))"
  shows "gave V k e s (unat p, unat sz) (s\<lparr>provider_world := w\<rparr>)"
proof -
  have backs: "backing (core s) \<subseteq> V (provider_world s)" using backing_subset [OF inv] by simp
  then have "backing (core s) \<subseteq> V w" using w(3) by blast
  note step = world_step [OF inv w(2) this]
  have rest: "V (provider_world s) - backing (core s) \<subseteq> live V (core s)" by (auto simp: live_def)
  have live: "live V ((core s)\<lparr>c_world := w\<rparr>) = insert (unat p, unat sz) (live V (core s))"
    unfolding step(2) w(3) core_simps using rest backs w(1) by blast
  have "(unat p, unat sz) \<notin> slab_live (core s) sl" if x: "slabs s x = Some sl" for x sl
  proof
    let ?d = "(core s)\<lparr>c_world := w\<rparr>"
    assume "(unat p, unat sz) \<in> slab_live (core s) sl"
    moreover have xd: "c_slabs ?d x = Some sl" using x by simp
    moreover have "slab_live ?d sl = slab_live (core s) sl"
      by (rule same_sizes_slab(3)) (use slab_facts(6) [OF inv, of x sl] x in simp_all)
    ultimately have "within (unat p, unat sz) (slab_range ?d sl)" using slab_live_within [OF step(1) xd] by simp
    moreover have r: "slab_range ?d sl = slab_range (core s) sl"
      by (rule same_sizes_slab(2)) (use slab_facts(6) [OF inv, of x sl] x in simp_all)
    moreover have "slab_range (core s) sl \<in> V (provider_world s)" using slab_facts(2) [OF inv, of x sl] x by simp
    then have "ranges_apart (unat p, unat sz) (slab_range (core s) sl)"
      using ranges_ok_apart [OF w(2), of "(unat p, unat sz)" "slab_range (core s) sl"] w(1,3) by (metis insertI1 insertI2)
    ultimately show False using within_not_apart by simp
  qed
  then have "(unat p, unat sz) \<notin> live V (core s)" using w(1) by (auto simp: in_live)
  then show ?thesis using step(1) live by (simp add: gave_def core_world)
qed

section \<open>malloc\<close>

text \<open>What a request comes to: no memory, and no range in use more or less, or one range.\<close>

definition no_memory :: "('w \<Rightarrow> range set) \<Rightarrow> nat \<Rightarrow> nat \<Rightarrow> 'w alloc_impl \<Rightarrow> 'w alloc_impl \<Rightarrow> bool" where
  "no_memory V k e s t \<longleftrightarrow> pool_inv V k e (core t) \<and> live V (core t) = live V (core s)
     \<and> pool_last_status t \<noteq> UMF_RESULT_SUCCESS"

lemma refused_status: "refused V k e s r t \<Longrightarrow> no_memory V k e s (t\<lparr>pool_last_status := r\<rparr>)"
  by (simp add: refused_def no_memory_def)

lemma allocate_cases:
  assumes H: "host_ok H V" and inv: "pool_inv V k e (core s)"
    and obj: "obj \<noteq> NULL" "slabs s obj = None" and sz: "Size \<noteq> 0"
  obtains (none) t where "allocate H obj Size s = Some (0, t)" "no_memory V k e s t"
  | (gave) p n t where "allocate H obj Size s = Some (p, t)" "gave V k e s (unat p, n) t" "unat Size \<le> n"
proof (cases "Size > MaxPoolableSize (params s)")
  case True
  from H inv sz show thesis
  proof (cases rule: memoryProviderAlloc_cases [where al = 0])
    case (refused r t)
    then show thesis using that(1) [OF _ refused_status] True sz by (simp add: allocate_def catch_status_def)
  next
    case (range p w)
    then show thesis
      using that(2) [OF _ provider_gave [OF inv range(2-4)]] True sz by (simp add: allocate_def catch_status_def)
  qed
next
  case False
  have "0 < unat Size" using sz by (simp add: unat_gt_0)
  moreover have "unat Size \<le> 2 ^ 31"
    using False cfg_okD(7) [OF pool_invD(1) [OF inv]] by (simp add: not_less word_le_nat_alt)
  ultimately have pos: "0 < unat Size" "unat Size \<le> 2 ^ 31" by simp_all
  from H inv obj pos show thesis
  proof (cases rule: from_bucket_cases)
    case (refused r t)
    then show thesis using that(1) [OF _ refused_status] False sz by (simp add: allocate_def catch_status_def)
  next
    case (gave p n t)
    then show thesis using that(2) [of p t n] False sz by (simp add: allocate_def catch_status_def)
  qed
qed

section \<open>Alignment\<close>

lemma AlignPtrDown_pow: "m < 64 \<Longrightarrow> unat (AlignPtrDown p (2 ^ m)) = unat p div 2 ^ m * 2 ^ m"
  using unat_ALIGN_DOWN [of p m] by (simp add: AlignPtrDown_def ALIGN_DOWN_def)

lemma AlignPtrUp_pow:
  assumes m: "m < 64" and p: "unat p + 2 ^ m \<le> 2 ^ 64"
  shows "unat p \<le> unat (AlignPtrUp p (2 ^ m))" "unat (AlignPtrUp p (2 ^ m)) < unat p + 2 ^ m"
    "2 ^ m dvd unat (AlignPtrUp p (2 ^ m))"
    "2 ^ m dvd unat p \<Longrightarrow> AlignPtrUp p (2 ^ m) = p"
proof -
  note down = AlignPtrDown_pow [OF m, of p]
  have q: "unat p = unat p div 2 ^ m * 2 ^ m + unat p mod 2 ^ m" "unat p mod 2 ^ m < 2 ^ m"
    by (simp_all only: div_mult_mod_eq mod_less_divisor zero_less_power zero_less_numeral)
  have eq: "p = AlignPtrDown p (2 ^ m) \<longleftrightarrow> unat p mod 2 ^ m = 0"
  proof
    assume "p = AlignPtrDown p (2 ^ m)"
    then have "unat p = unat p div 2 ^ m * 2 ^ m" using down by metis
    then show "unat p mod 2 ^ m = 0" using q(1) by linarith
  next
    assume "unat p mod 2 ^ m = 0"
    then have "unat p = unat p div 2 ^ m * 2 ^ m" using q(1) by linarith
    then show "p = AlignPtrDown p (2 ^ m)" using down by (intro unat_eqD64) simp
  qed
  have *: "unat p \<le> unat (AlignPtrUp p (2 ^ m)) \<and> unat (AlignPtrUp p (2 ^ m)) < unat p + 2 ^ m
      \<and> 2 ^ m dvd unat (AlignPtrUp p (2 ^ m))"
  proof (cases "unat p mod 2 ^ m = 0")
    case True
    then have "AlignPtrUp p (2 ^ m) = p" using eq by (simp add: AlignPtrUp_def Let_def)
    then show ?thesis using True by (simp add: dvd_eq_mod_eq_0)
  next
    case False
    then have up: "AlignPtrUp p (2 ^ m) = AlignPtrDown p (2 ^ m) + 2 ^ m" using eq by (simp add: AlignPtrUp_def Let_def)
    have e: "unat (2 ^ m :: u64) = 2 ^ m" using m by (rule unat_exp64)
    have "unat p div 2 ^ m * 2 ^ m < unat p" using q(1) False by linarith
    then have "unat (AlignPtrDown p (2 ^ m)) + unat (2 ^ m :: u64) < 2 ^ 64" using p unfolding down e by linarith
    then have "unat (AlignPtrUp p (2 ^ m)) = unat p div 2 ^ m * 2 ^ m + 2 ^ m"
      unfolding up using down e by (subst unat_add_u64) simp_all
    then have "unat p \<le> unat (AlignPtrUp p (2 ^ m))" "unat (AlignPtrUp p (2 ^ m)) < unat p + 2 ^ m"
      using q False by linarith+
    then show ?thesis using \<open>unat (AlignPtrUp p (2 ^ m)) = unat p div 2 ^ m * 2 ^ m + 2 ^ m\<close> by simp
  qed
  then show "unat p \<le> unat (AlignPtrUp p (2 ^ m))" "unat (AlignPtrUp p (2 ^ m)) < unat p + 2 ^ m"
    "2 ^ m dvd unat (AlignPtrUp p (2 ^ m))" by blast+
  show "2 ^ m dvd unat p \<Longrightarrow> AlignPtrUp p (2 ^ m) = p"
    using eq by (simp add: AlignPtrUp_def Let_def dvd_eq_mod_eq_0)
qed

chapter \<open>Aligned requests\<close>

text \<open>
  Requests with an alignment. Up to the page size of the provider the size of the request is
  rounded up to the alignment, and the chunks of its bucket are aligned already; above it the
  request is large enough to hold an aligned address with room after it.
\<close>

section \<open>Aligned providers\<close>

text \<open>Ranges begin at multiples of a page, and an alignment that is asked for is observed.\<close>

definition paged :: "('w \<Rightarrow> range set) \<Rightarrow> nat \<Rightarrow> bool" where
  "paged V g \<longleftrightarrow> (\<forall>w. ranges_ok (V w) \<longrightarrow> (\<forall>r\<in>V w. g dvd fst r))"

definition host_aligns :: "'w pool_host \<Rightarrow> ('w \<Rightarrow> range set) \<Rightarrow> bool" where
  "host_aligns H V \<longleftrightarrow> (\<forall>w sz m p w1. ranges_ok (V w) \<longrightarrow> m < 64 \<longrightarrow>
     host_alloc H sz (2 ^ m) w = Some ((UMF_RESULT_SUCCESS, p), w1) \<longrightarrow> 2 ^ m dvd unat p)"

lemma live_dvd:
  assumes inv: "pool_inv V k e c" and g: "paged V g" "d dvd g" and r: "(a, n) \<in> live V c" and n: "d dvd n"
  shows "d dvd a"
proof -
  have held: "d dvd fst r" if "r \<in> V (c_world c)" for r
    using g that pool_invD(2) [OF inv] by (auto simp: paged_def intro: dvd_trans)
  consider x sl where "c_slabs c x = Some sl" "(a, n) \<in> slab_live c sl" | "(a, n) \<in> V (c_world c)"
    using r unfolding in_live by blast
  then show ?thesis
  proof cases
    case 1
    have "d dvd unat (MemPtr sl)" using held [OF slab_facts(2) [OF inv 1(1)]] by (simp add: slab_range_def)
    then show ?thesis using 1(2) n by (auto simp: slab_live_def chunk_ranges_def split: if_splits)
  next
    case 2
    then show ?thesis using held by force
  qed
qed

section \<open>Sizes for an alignment\<close>

lemma aligned_bucket:
  assumes A: "2 ^ m dvd (A :: nat)" "0 < A" and n: "n \<in> set (size_list k)" "A \<le> n" and k: "k \<le> 31" "1 \<le> k"
    and least: "\<forall>u\<in>set (size_list k). A \<le> u \<longrightarrow> n \<le> u"
  shows "2 ^ m dvd n"
proof -
  have le: "2 ^ m \<le> A" using A by (simp add: dvd_imp_le)
  from n(1) k(1) show ?thesis
  proof (cases rule: size_list_cases)
    case (1 j)
    have "(2 :: nat) ^ m \<le> 2 ^ j" using le n(2) unfolding 1(3) by (rule order_trans)
    then have "m \<le> j" by (rule power_le_imp_le_exp [rotated]) simp
    then show ?thesis using 1(3) by (simp add: le_imp_power_dvd)
  next
    case (2 j)
    then obtain h where h: "j = Suc h" using k(2) by (cases j) auto
    have n3: "n = 3 * 2 ^ h" using 2(3) h by simp
    have "m \<le> h"
    proof (rule ccontr)
      assume "\<not> m \<le> h"
      then have "2 ^ Suc h dvd A" using A(1) by (meson dvd_trans le_imp_power_dvd not_less_eq_eq)
      then obtain q where q: "A = 2 ^ Suc h * q" by blast
      have "q < 2"
      proof (rule ccontr)
        assume "\<not> q < 2"
        then have "2 ^ Suc h * 2 \<le> A" unfolding q by (intro mult_le_mono2) simp
        moreover have "(0 :: nat) < 2 ^ h" by simp
        ultimately show False using n(2) unfolding n3 power_Suc by linarith
      qed
      then have "q = 1" using A(2) q by (cases q) auto
      then have "A = 2 ^ j" using q h by simp
      then have "n \<le> 2 ^ j" using least size_list_power [of k j] 2(1,2) by simp
      moreover have "(0 :: nat) < 2 ^ h" by simp
      ultimately show False unfolding n3 h power_Suc by linarith
    qed
    then show ?thesis unfolding n3 by (simp add: le_imp_power_dvd dvd_mult)
  qed
qed

lemma AlignUp_pow:
  assumes "m < 64" "unat v + 2 ^ m \<le> 2 ^ 64" "v \<noteq> 0"
  obtains A where "AlignUp v (2 ^ m) = Some A" "2 ^ m dvd unat A" "unat v \<le> unat A" "2 ^ m \<le> unat A"
proof -
  let ?A = "ALIGN_UP v (2 ^ m)"
  have e: "unat (2 ^ m :: u64) = 2 ^ m" using assms(1) by (rule unat_exp64)
  have "0 < unat (2 ^ m :: u64)" unfolding e by simp
  then have "(2 ^ m :: u64) > 0" by (simp add: word_less_nat_alt)
  then have "AlignUp v (2 ^ m) = Some ?A" by (simp add: AlignUp_def ALIGN_UP_def)
  moreover have up: "unat ?A = (unat v + 2 ^ m - 1) div 2 ^ m * 2 ^ m" by (rule unat_ALIGN_UP [OF assms(1,2)])
  moreover have "2 ^ m dvd unat ?A" unfolding up by simp
  moreover have "unat v \<le> unat ?A"
  proof -
    have "(unat v + 2 ^ m - 1) mod 2 ^ m < 2 ^ m" by simp
    moreover have "unat v + 2 ^ m - 1 = (unat v + 2 ^ m - 1) div 2 ^ m * 2 ^ m + (unat v + 2 ^ m - 1) mod 2 ^ m"
      by (simp only: div_mult_mod_eq)
    ultimately show ?thesis unfolding up by linarith
  qed
  moreover have "2 ^ m \<le> unat ?A"
  proof -
    have "0 < unat v" using assms(3) by (simp add: unat_gt_0)
    then have "0 < unat ?A" using \<open>unat v \<le> unat ?A\<close> by simp
    then show ?thesis using \<open>2 ^ m dvd unat ?A\<close> by (simp add: dvd_imp_le)
  qed
  ultimately show thesis using that by blast
qed

section \<open>aligned\_malloc\<close>

definition aligned_in :: "u64 \<Rightarrow> nat \<Rightarrow> u64 \<Rightarrow> range \<Rightarrow> bool" where
  "aligned_in p m Size r \<longleftrightarrow> fst r \<le> unat p \<and> unat p + unat Size \<le> fst r + snd r \<and> 2 ^ m dvd unat p"

lemma aligned_chunk:
  assumes H: "host_ok H V" and inv: "pool_inv V k e (core s)"
    and obj: "obj \<noteq> NULL" "slabs s obj = None" and A: "0 < unat A" "unat A \<le> 2 ^ 31" and m: "m < 64"
    and room: "unat Size + 2 ^ m \<le> unat A + 1
       \<or> unat Size \<le> unat A \<and> 2 ^ m dvd unat A \<and> paged V (2 ^ g) \<and> m \<le> g" and mA: "2 ^ m \<le> unat A"
  obtains (refused) r t where "from_bucket H obj A s = Some (Inl r, t)" "refused V k e s r t"
  | (gave) p r t where "from_bucket H obj A s = Some (Inr p, t)" "gave V k e s r t"
      "aligned_in (AlignPtrUp p (2 ^ m)) m Size r"
  using H inv obj A
proof (cases rule: from_bucket_cases)
  case (refused r t)
  then show thesis by (rule that(1))
next
  case (gave p n t)
  note cfg = cfg_okD [OF pool_invD(1) [OF inv]]
  have t: "pool_inv V k e (core t)" and here: "(unat p, n) \<in> live V (core t)" using gave(2) by (simp_all add: gave_def)
  have small: "unat p + 2 ^ m \<le> 2 ^ 64"
    using ranges_okD(3) [OF live_ranges_ok [OF t] here] gave(3) mA by linarith
  note up = AlignPtrUp_pow [OF m small]
  have "aligned_in (AlignPtrUp p (2 ^ m)) m Size (unat p, n)"
  proof (cases "unat Size + 2 ^ m \<le> unat A + 1")
    case True
    then show ?thesis using up(1-3) gave(3) by (simp add: aligned_in_def)
  next
    case False
    then have r: "unat Size \<le> unat A" "2 ^ m dvd unat A" "paged V (2 ^ g)" "m \<le> g" using room by blast+
    have "2 ^ m dvd n"
      by (rule aligned_bucket [OF r(2) A(1) gave(4,3) _ _ gave(5)]) (use cfg in simp_all)
    then have "2 ^ m dvd unat p" by (intro live_dvd [OF t r(3) _ here]) (simp_all add: le_imp_power_dvd r(4))
    then show ?thesis using up(4) gave(3) r(1) by (simp add: aligned_in_def)
  qed
  then show thesis using that(2) [OF gave(1,2)] by simp
qed

lemma allocate_aligned_cases:
  assumes H: "host_ok H V" "host_aligns H V" and inv: "pool_inv V k e (core s)"
    and obj: "obj \<noteq> NULL" "slabs s obj = None" and sz: "Size \<noteq> 0" "unat Size + 2 ^ m \<le> 2 ^ 64" and m: "m < 64"
    and page: "ProviderMinPageSize s = 0 \<or> ProviderMinPageSize s = 2 ^ g \<and> g < 64 \<and> paged V (2 ^ g)"
  obtains (none) t where "allocate_aligned H obj Size (2 ^ m) s = Some (0, t)" "no_memory V k e s t"
  | (gave) p r t where "allocate_aligned H obj Size (2 ^ m) s = Some (p, t)" "gave V k e s r t" "aligned_in p m Size r"
proof (cases "m = 0")
  case True
  then have al: "allocate_aligned H obj Size (2 ^ m) s = allocate H obj Size s"
    using sz(1) by (simp add: allocate_aligned_def)
  from H(1) inv obj sz(1) show thesis
  proof (cases rule: allocate_cases)
    case (none t)
    then show thesis using that(1) al by simp
  next
    case (gave p n t)
    then show thesis using that(2) [of p t "(unat p, n)"] al True by (simp add: aligned_in_def)
  qed
next
  case False
  have e: "unat (2 ^ m :: u64) = 2 ^ m" using m by (rule unat_exp64)
  have "(2 :: nat) ^ 1 \<le> 2 ^ m" using False by (intro power_increasing) simp_all
  then have gt: "\<not> (2 ^ m :: u64) \<le> 1" using e by (simp add: word_le_nat_alt)
  have pos: "0 < unat Size" using sz(1) by (simp add: unat_gt_0)
  let ?A = "if 2 ^ m \<le> ProviderMinPageSize s then if Size > 1 then AlignUp Size (2 ^ m) else Some (2 ^ m)
     else Some (Size + 2 ^ m - 1)"
  obtain A where A: "?A = Some A" "2 ^ m \<le> unat A"
    and room: "unat Size + 2 ^ m \<le> unat A + 1 \<or> unat Size \<le> unat A \<and> 2 ^ m dvd unat A \<and> paged V (2 ^ g) \<and> m \<le> g"
  proof (cases "2 ^ m \<le> ProviderMinPageSize s")
    case True
    then have g: "g < 64" "paged V (2 ^ g)" "ProviderMinPageSize s = 2 ^ g"
      using page gt by (auto simp: word_le_nat_alt)
    have "(2 :: nat) ^ m \<le> 2 ^ g" using True g(1,3) e by (simp add: word_le_nat_alt)
    then have mg: "m \<le> g" by (rule power_le_imp_le_exp [rotated]) simp
    show thesis
    proof (cases "Size > 1")
      case big: True
      obtain A where "AlignUp Size (2 ^ m) = Some A" "2 ^ m dvd unat A" "unat Size \<le> unat A" "2 ^ m \<le> unat A"
        by (rule AlignUp_pow [OF m sz(2,1)])
      then show thesis using that [of A] True big g(2) mg by simp
    next
      case small: False
      then have "unat Size \<le> 1" by (simp add: word_less_nat_alt)
      moreover have "(1 :: nat) \<le> 2 ^ m" by simp
      ultimately have "unat Size \<le> 2 ^ m" by linarith
      then show thesis using that [of "2 ^ m"] True small g(2) mg e by simp
    qed
  next
    case high: False
    have one: "(1 :: nat) \<le> 2 ^ m" by simp
    have "unat (2 ^ m - 1 :: u64) = 2 ^ m - 1" using e by (subst unat_sub_u64) simp_all
    then have "unat (Size + (2 ^ m - 1)) = unat Size + (2 ^ m - 1)"
      using sz(2) one by (subst unat_add_u64) linarith+
    then have u: "unat (Size + 2 ^ m - 1) = unat Size + 2 ^ m - 1" using one by (simp add: add_diff_eq)
    then have "2 ^ m \<le> unat (Size + 2 ^ m - 1)" "unat Size + 2 ^ m \<le> unat (Size + 2 ^ m - 1) + 1"
      using pos one by linarith+
    then show thesis using that [of "Size + 2 ^ m - 1"] high by simp
  qed
  have Apos: "0 < unat A" using A(2) by (metis less_le_trans zero_less_numeral zero_less_power)
  have al: "allocate_aligned H obj Size (2 ^ m) s = catch_status
      (if A > MaxPoolableSize (params s) then memoryProviderAlloc H Size (2 ^ m) s
       else do {
         (r, s) \<leftarrow> from_bucket H obj A s;
         Some (case r of Inl e \<Rightarrow> Inl e | Inr p \<Rightarrow> Inr (AlignPtrUp p (2 ^ m)), s)
       })"
    using sz(1) gt A(1) by (simp add: allocate_aligned_def)
  show thesis
  proof (cases "A > MaxPoolableSize (params s)")
    case True
    from H(1) inv sz(1) show thesis
    proof (cases rule: memoryProviderAlloc_cases [where al = "2 ^ m"])
      case (refused r t)
      then show thesis using that(1) [OF _ refused_status] True al by (simp add: catch_status_def)
    next
      case (range p w)
      have "2 ^ m dvd unat p"
      proof -
        obtain r w1 where "host_alloc H Size (2 ^ m) (provider_world s) = Some ((r, p), w1)" "r = UMF_RESULT_SUCCESS"
          using range(1) by (auto simp: memoryProviderAlloc_def split: if_splits option.splits bind_splits)
        moreover have "ranges_ok (V (provider_world s))" using pool_invD(2) [OF inv] by simp
        ultimately show ?thesis using H(2) m unfolding host_aligns_def by blast
      qed
      then show thesis
        using that(2) [OF _ provider_gave [OF inv range(2-4)]] True al range(1)
        by (simp add: catch_status_def aligned_in_def)
    qed
  next
    case False
    have A31: "unat A \<le> 2 ^ 31"
      using False cfg_okD(7) [OF pool_invD(1) [OF inv]] by (simp add: not_less word_le_nat_alt)
    from H(1) inv obj Apos A31 m room A(2) show thesis
    proof (cases rule: aligned_chunk)
      case (refused r t)
      then show thesis using that(1) [OF _ refused_status] False al by (simp add: catch_status_def)
    next
      case (gave p r t)
      then show thesis using that(2) [OF _ gave(2,3)] False al by (simp add: catch_status_def)
    qed
  qed
qed

end
