(* ===== verification/Disjoint_Pool.thy ===== *)
theory Disjoint_Pool
  imports Disjoint_Alloc
begin

text \<open>
  Memory that is given back: an address leads to the slab that it lies in and there to its
  chunk, or to no slab and then to the provider. Exactly the range of the address is not in
  use any more, and a slab without chunks in use stays in its bucket or goes back to the provider.
\<close>

section \<open>One range less\<close>

definition took :: "('w \<Rightarrow> range set) \<Rightarrow> nat \<Rightarrow> nat \<Rightarrow> 'w core \<Rightarrow> range \<Rightarrow> 'w alloc_impl \<Rightarrow> bool" where
  "took V k e c r t \<longleftrightarrow> pool_inv V k e (core t) \<and> live V (core t) = live V c - {r} \<and> same_sizes c (core t)"

lemma same_sizes_del [simp]: "same_sizes c (del_core x i l p w c)"
proof -
  have "map l_size ((c_lists c)[i := take_from l x (c_lists c ! i)]) = map l_size (c_lists c)"
    by (cases "i < length (c_lists c)") (simp_all add: map_update list_update_same_conv list_update_beyond)
  then show ?thesis by (simp add: same_sizes_def del_core_def Let_def)
qed

lemma same_sizes_sym: "same_sizes c d \<Longrightarrow> same_sizes d c"
  by (simp add: same_sizes_def)

section \<open>A whole slab\<close>

lemma freeSlab_ok:
  assumes H: "host_ok H V" and inv: "pool_inv V k e (core s)" and x: "slabs s x = Some sl"
    and mode: "\<not> chunk_mode (core s) (slab_bucket sl)" and used: "SlabListIter sl = Some Unavailable"
  obtains b t where "freeSlab H (slab_bucket sl) x s = Some (b, t)"
    "took V k e (core s) (unat (MemPtr sl), size_at (core s) (slab_bucket sl)) t"
proof -
  let ?i = "slab_bucket sl" and ?r = "(unat (MemPtr sl), size_at (core s) (slab_bucket sl))"
  have xc: "c_slabs (core s) x = Some sl" using x by simp
  note wf = slab_facts(1) [OF inv xc]
  have i: "?i < length (Buckets s)" using slab_facts(6) [OF inv xc] by simp
  obtain b t where t: "CanPool ?i s = Some (b, t)" "core t = core s" by (rule CanPool_core [OF i])
  have it: "?i < length (Buckets t)" "slabs t x = Some sl" using i x core_length [OF t(2)] core_min [OF t(2)] by simp_all
  have "sl\<lparr>SlabListIter := Some Unavailable\<rparr> = sl" using used by simp
  then have live: "slab_live (core s) sl = {?r}" using whole_wf(2) [OF wf mode, of Unavailable] by simp
  show thesis
  proof (cases b)
    case True
    obtain t1 u where u: "erase_slab ?i Unavailable x t = Some t1" "push_slab ?i Available x t1 = Some u"
        "core u = push_core ?i Available x (erase_core ?i Unavailable x (core t))"
        "slabs u = (slabs t)(x \<mapsto> sl\<lparr>SlabListIter := Some Available\<rparr>)"
      by (rule move_slab_step [OF it used])
    let ?d = "push_core ?i Available x (erase_core ?i Unavailable x (core s))"
    have cu: "core u = ?d" using u(3) t(2) by simp
    have slabs: "c_slabs ?d = (c_slabs (core s))(x \<mapsto> sl\<lparr>SlabListIter := Some Available\<rparr>)"
      using x by (simp add: push_core_def)
    have lists: "lists_ok ?d"
      by (rule lists_move [OF pool_invD(4) [OF inv] xc refl used]) (use i in simp_all)
    have ss: "same_sizes (core s) ?d" by (meson same_sizes_trans same_sizes_update)
    have "slab_live (core s) (sl\<lparr>SlabListIter := Some Available\<rparr>) = slab_live (core s) sl - {?r}"
      using whole_wf(2) [OF wf mode, of Available] live by simp
    then have "took V k e (core s) ?r u"
      using drop_range [OF inv xc _ _ whole_wf(1) [OF wf mode] ss _ _ slabs lists, of ?r] live ss
      by (simp add: took_def cu)
    then show thesis using that [of True u] t(1) True u(1,2) by (simp add: freeSlab_def)
  next
    case False
    obtain t1 where t1: "erase_slab ?i Unavailable x t = Some t1" "core t1 = erase_core ?i Unavailable x (core t)"
      by (rule erase_slab_step [OF it used])
    have ct1: "core t1 = erase_core ?i Unavailable x (core s)" using t1(2) t(2) by simp
    obtain u where u: "Slab_delete H x t1 = Some u" "pool_inv V k e (core u)" "live V (core u) = rest V (core s) x"
        "core u = del_core x ?i Unavailable (MemPtr sl) (provider_world u) (core s)"
      by (rule Slab_delete_step [OF H inv xc used ct1])
    have "same_sizes (core s) (core u)" by (subst u(4)) (rule same_sizes_del)
    moreover have "?r \<notin> rest V (core s) x"
      by (rule within_not_rest [OF inv xc slab_live_within [OF inv xc]]) (simp add: live)
    ultimately have "took V k e (core s) ?r u"
      using u(2,3) live_rest [OF xc, of V] live by (simp add: took_def)
    then show thesis using that [of False u] t(1) False t1(1) u(1) by (simp add: freeSlab_def)
  qed
qed

section \<open>A chunk\<close>

lemma full_before:
  assumes "cfg_ok k e c" "slab_wf c sl" "0 < allocated sl"
  shows "NumAllocated sl - 1 = of_nat (length (Chunks sl)) - 1 \<longleftrightarrow> allocated sl = length (Chunks sl)"
    "NumAllocated sl - 1 = 0 \<longleftrightarrow> allocated sl = 1"
proof -
  note b = allocated_bounds [OF assms(1,2)]
  have num: "unat (NumAllocated sl) = allocated sl" using assms(2) by (simp add: slab_wf_def)
  have len: "unat (of_nat (length (Chunks sl)) :: u64) = length (Chunks sl)"
    using b(2) by (intro unat_of_nat_small) simp
  have "NumAllocated sl - 1 = of_nat (length (Chunks sl)) - 1 \<longleftrightarrow> NumAllocated sl = of_nat (length (Chunks sl))"
    by simp
  also have "\<dots> \<longleftrightarrow> allocated sl = length (Chunks sl)" using num len unat_eqD64 by metis
  finally show "NumAllocated sl - 1 = of_nat (length (Chunks sl)) - 1 \<longleftrightarrow> allocated sl = length (Chunks sl)" .
  have "NumAllocated sl - 1 = 0 \<longleftrightarrow> NumAllocated sl = 1" by simp
  also have "\<dots> \<longleftrightarrow> allocated sl = 1" using num unat_eqD64 [of "NumAllocated sl" 1] by auto
  finally show "NumAllocated sl - 1 = 0 \<longleftrightarrow> allocated sl = 1" .
qed

lemma slab_live_none:
  assumes "chunk_mode c (slab_bucket sl)" "allocated sl = 0"
  shows "slab_live c sl = {}"
proof -
  have "filter id (Chunks sl) = []" using assms(2) by (simp add: allocated_def)
  then have "\<not> Chunks sl ! j" if "j < length (Chunks sl)" for j
    using that nth_mem [OF that] by (metis filter_empty_conv id_apply)
  then show ?thesis using assms(1) by (auto simp: slab_live_def chunk_ranges_def)
qed

lemma freeChunk_ok:
  assumes H: "host_ok H V" and inv: "pool_inv V k e (core s)" and x: "slabs s x = Some sl"
    and mode: "chunk_mode (core s) (slab_bucket sl)" and j: "j < length (Chunks sl)" "Chunks sl ! j"
    and p: "unat (MemPtr sl) + j * size_at (core s) (slab_bucket sl) \<le> unat p"
      "unat p < unat (MemPtr sl) + j * size_at (core s) (slab_bucket sl) + size_at (core s) (slab_bucket sl)"
  obtains b t where "freeChunk H p (slab_bucket sl) x s = Some (b, t)"
    "took V k e (core s) (unat (MemPtr sl) + j * size_at (core s) (slab_bucket sl), size_at (core s) (slab_bucket sl)) t"
proof -
  let ?i = "slab_bucket sl" and ?n = "size_at (core s) (slab_bucket sl)"
  let ?r = "(unat (MemPtr sl) + j * ?n, ?n)"
  have xc: "c_slabs (core s) x = Some sl" using x by simp
  note cfg = pool_invD(1) [OF inv] and wf = slab_facts(1) [OF inv xc]
  have i: "?i < length (Buckets s)" using slab_facts(6) [OF inv xc] by simp
  note idx = chunk_index [OF cfg wf j(1) slab_facts(5) [OF inv xc] p]
  have k: "unat ((p - MemPtr sl) div bSize (Buckets s ! ?i)) = j" using idx(1) i by simp
  have here: "MemPtr sl \<le> p \<and> p < getEnd s sl" using holds_addr_iff [OF inv x] idx(2) by simp
  have "0 < unat (bSize (Buckets s ! ?i))" using size_at_bounds(3) [OF cfg, of ?i] i by simp
  then have nz: "bSize (Buckets s ! ?i) \<noteq> 0" by auto
  have small: "(p - MemPtr sl) div bSize (Buckets s ! ?i) = of_nat j"
    unfolding k [symmetric] by simp
  let ?s0 = "sl\<lparr>Chunks := (Chunks sl)[j := False], NumAllocated := NumAllocated sl - 1,
    FirstFreeChunkIdx := (if of_nat j < FirstFreeChunkIdx sl then of_nat j else FirstFreeChunkIdx sl)\<rparr>"
  let ?s1 = "set_slab x ?s0 s"
  have free: "Slab_freeChunk x p s = Some ?s1" "slabs ?s1 x = Some ?s0"
    using x i here nz k j small by (simp_all add: Slab_freeChunk_def Let_def)
  note drop = drop_chunk_wf [OF cfg wf mode j]
  note full = full_before [OF cfg wf, unfolded drop(2) [symmetric], simplified]
  have c1: "core ?s1 = slab_core x ?s0 (core s)" by (simp add: core_set_slab slab_core_def)
  have ok1: "lists_ok (slab_core x ?s0 (core s))"
    by (rule lists_same [OF pool_invD(4) [OF inv] xc]) simp_all
  have r: "?r \<in> slab_live (core s) sl" using mode j by (auto simp: slab_live_def chunk_ranges_def)
  have moved: "SlabListIter sl = Some Unavailable \<longleftrightarrow> NumAllocated ?s0 = of_nat (length (Chunks ?s0)) - 1"
    using wf mode full(1) drop(2) by (auto simp: slab_wf_def)
  obtain u where u: "(if NumAllocated ?s0 = of_nat (length (Chunks ?s0)) - 1
        then Option.bind (erase_slab ?i Unavailable x ?s1) (push_slab ?i Available x) else Some ?s1) = Some u"
    and cu: "c_slabs (core u) = (c_slabs (core s))(x \<mapsto> drop_chunk j sl)" "lists_ok (core u)" "same_sizes (core s) (core u)"
      "c_known (core u) = c_known (core s)" "c_world (core u) = c_world (core s)"
  proof (cases "NumAllocated ?s0 = of_nat (length (Chunks ?s0)) - 1")
    case False
    then have "SlabListIter sl = Some Available"
      using moved wf by (cases "SlabListIter sl"; cases "the (SlabListIter sl)") (auto simp: slab_wf_def)
    then have "?s0 = drop_chunk j sl" by (simp add: drop_chunk_def)
    then show thesis using that [of ?s1] False c1 ok1 by simp
  next
    case True
    have s0: "?s0\<lparr>SlabListIter := Some Available\<rparr> = drop_chunk j sl" by (simp add: drop_chunk_def)
    have len1: "?i < length (Buckets ?s1)" "SlabListIter ?s0 = Some Unavailable" using i moved True by simp_all
    obtain t2 v where v: "erase_slab ?i Unavailable x ?s1 = Some t2" "push_slab ?i Available x t2 = Some v"
        "core v = push_core ?i Available x (erase_core ?i Unavailable x (core ?s1))"
        "slabs v = (slabs ?s1)(x \<mapsto> ?s0\<lparr>SlabListIter := Some Available\<rparr>)"
      by (rule move_slab_step [OF len1(1) free(2) len1(2)])
    have "lists_ok (core v)"
      unfolding v(3) c1 by (rule lists_move [OF ok1, where sl = ?s0]) (use len1 i in simp_all)
    moreover have "same_sizes (core s) (core v)" unfolding v(3) c1 by (meson same_sizes_trans same_sizes_update)
    moreover have "c_known (core v) = c_known (core s)" "c_world (core v) = c_world (core s)"
      unfolding v(3) c1 by (simp_all only: push_core_simps erase_core_simps slab_core_simps)
    moreover have "c_slabs (core v) = (c_slabs (core s))(x \<mapsto> drop_chunk j sl)" using v(4) s0 by simp
    ultimately show thesis using that [of v] True v(1,2) by simp
  qed
  have fields: "MemPtr (drop_chunk j sl) = MemPtr sl" "slab_bucket (drop_chunk j sl) = ?i"
    by (simp_all add: drop_chunk_def)
  note less = drop_range [OF inv xc fields drop(1) cu(3,4,5,1,2) drop(3) r]
  have iu: "?i < length (Buckets u)" using same_sizesD(1) [OF cu(3)] i by simp
  have xu: "slabs u x = Some (drop_chunk j sl)" "SlabListIter (drop_chunk j sl) = Some Available"
    using fun_cong [OF cu(1), of x] by (simp_all add: drop_chunk_def)
  have took_u: "took V k e (core s) ?r u" using less cu(3) by (simp add: took_def)
  show thesis
  proof (cases "NumAllocated ?s0 = 0")
    case False
    then show thesis using that [of True u] took_u free u by (simp add: freeChunk_def onFreeChunk_def)
  next
    case True
    obtain b t where t: "CanPool ?i u = Some (b, t)" "core t = core u" by (rule CanPool_core [OF iu])
    show thesis
    proof (cases b)
      case pool: True
      then show thesis using that [of True t] True took_u t free u by (simp add: freeChunk_def onFreeChunk_def took_def)
    next
      case back_to: False
      have it: "?i < length (Buckets t)" "slabs t x = Some (drop_chunk j sl)"
        using iu xu core_length [OF t(2)] core_min [OF t(2)] by simp_all
      obtain t1 where t1: "erase_slab ?i Available x t = Some t1" "core t1 = erase_core ?i Available x (core t)"
        by (rule erase_slab_step [OF it xu(2)])
      have ct1: "core t1 = erase_core (slab_bucket (drop_chunk j sl)) Available x (core u)" using t1(2) t(2) fields by simp
      have xcu: "c_slabs (core u) x = Some (drop_chunk j sl)" using xu(1) by simp
      obtain v where v: "Slab_delete H x t1 = Some v" "pool_inv V k e (core v)" "live V (core v) = rest V (core u) x"
          "core v = del_core x (slab_bucket (drop_chunk j sl)) Available (MemPtr (drop_chunk j sl)) (provider_world v) (core u)"
        by (rule Slab_delete_step [OF H less(1) xcu xu(2) ct1])
      have "allocated (drop_chunk j sl) = 0" using True full(2) drop(2) by simp
      moreover have mu: "chunk_mode (core u) (slab_bucket (drop_chunk j sl))"
        using mode i fields same_sizesD(2,3) [OF cu(3)] by (simp add: chunk_mode_def)
      ultimately have "slab_live (core u) (drop_chunk j sl) = {}" by (intro slab_live_none)
      then have "live V (core v) = live V (core u)" using v(3) live_rest [OF xcu, of V] by simp
      moreover have "same_sizes (core u) (core v)" by (subst v(4)) (rule same_sizes_del)
      ultimately have "took V k e (core s) ?r v"
        using v(2) took_u same_sizes_trans by (auto simp: took_def)
      then show thesis
        using that [of False v] True back_to t(1) t1(1) v(1) free u by (simp add: freeChunk_def onFreeChunk_def)
    qed
  qed
qed

chapter \<open>The life of a pool\<close>

text \<open>
  The interface of the disjoint pool: to free the address of a range in use, or any address in
  the first \<open>SlabMinSize\<close> bytes of the slab of a pooled range, succeeds; a new pool satisfies the
  invariant; and a pool that is destroyed gives back every slab.
\<close>

section \<open>The slab of an address\<close>

lemma known_entry:
  assumes "pool_inv V k e (core s)" "(b, y) \<in> set (KnownSlabs s)"
  obtains sl where "slabs s y = Some sl"
  using assms by (auto simp: pool_inv_def known_ok_def)

lemma find_inside:
  assumes inv: "pool_inv V k e (core s)" and x: "slabs s x = Some sl" and p: "holds_addr (core s) sl p"
  shows "find_known s (AlignPtrDown p (slab_min_size s)) p (KnownSlabs s) = Some (Some x)"
proof (rule find_known_Some)
  show "(AlignPtrDown p (slab_min_size s), x) \<in> set (KnownSlabs s)"
    using holds_addr_known [OF inv, of x sl p] x p by simp
  show "\<forall>(b, y)\<in>set (KnownSlabs s). \<exists>sm. slabs s y = Some sm \<and> (MemPtr sm \<le> p \<and> p < getEnd s sm \<longleftrightarrow> y = x)"
  proof clarify
    fix b y assume "(b, y) \<in> set (KnownSlabs s)"
    then obtain sm where y: "slabs s y = Some sm" by (rule known_entry [OF inv])
    have "holds_addr (core s) sm p \<longleftrightarrow> y = x"
      using holds_addr_unique [OF inv, of y sm x sl p] x y p by auto
    then show "\<exists>sm. slabs s y = Some sm \<and> (MemPtr sm \<le> p \<and> p < getEnd s sm \<longleftrightarrow> y = x)"
      using y holds_addr_iff [OF inv y] by blast
  qed
qed

lemma find_outside:
  assumes inv: "pool_inv V k e (core s)" and r: "(unat p, n) \<in> V (provider_world s)" "(unat p, n) \<notin> backing (core s)"
  shows "find_known s a p (KnownSlabs s) = Some None"
proof (rule find_known_None, clarify)
  fix b y assume "(b, y) \<in> set (KnownSlabs s)"
  then obtain sm where y: "slabs s y = Some sm" by (rule known_entry [OF inv])
  have yc: "c_slabs (core s) y = Some sm" using y by simp
  note R = pool_invD(2) [OF inv]
  have "slab_range (core s) sm \<noteq> (unat p, n)" using r(2) yc unfolding in_backing by metis
  then have "ranges_apart (slab_range (core s) sm) (unat p, n)"
    using ranges_ok_apart [OF R slab_facts(2) [OF inv yc], of "(unat p, n)"] r(1) by simp
  moreover have "0 < n" using ranges_okD(2) [OF R, of "unat p" n] r(1) by simp
  ultimately have "\<not> holds_addr (core s) sm p"
    by (auto simp: ranges_apart_def holds_addr_def slab_range_def alloc_size_def)
  then show "\<exists>sl. slabs s y = Some sl \<and> \<not> (MemPtr sl \<le> p \<and> p < getEnd s sl)"
    using y holds_addr_iff [OF inv y] by blast
qed

section \<open>free\<close>

lemma free_inside:
  assumes H: "host_ok H V" and inv: "pool_inv V k e (core s)" and x: "slabs s x = Some sl"
    and r: "(a, n) \<in> slab_live (core s) sl" and p: "a \<le> unat p" "unat p < a + n" "holds_addr (core s) sl p"
  obtains t where "DisjointPool_free H p s = Some (UMF_RESULT_SUCCESS, t)" "took V k e (core s) (a, n) t"
proof -
  let ?i = "slab_bucket sl"
  have xc: "c_slabs (core s) x = Some sl" using x by simp
  have i: "?i < length (Buckets s)" using slab_facts(6) [OF inv xc] by simp
  obtain s1 where s1: "(if PoolTrace (params s) > 1 then countFree ?i s else Some s) = Some s1" "core s1 = core s"
    using that countFree_core [OF i] by (cases "PoolTrace (params s) > 1") auto
  have i1: "?i < length (Buckets s1)" "slabs s1 x = Some sl" "pool_inv V k e (core s1)"
    using i x inv core_length [OF s1(2)] core_min [OF s1(2)] s1(2) by simp_all
  have mode: "bSize (Buckets s1 ! ?i) \<le> ChunkCutOff s1 \<longleftrightarrow> chunk_mode (core s) ?i"
    using chunk_mode_core [OF i1(1)] s1(2) by simp
  let ?m = "if bSize (Buckets s1 ! ?i) \<le> ChunkCutOff s1 then freeChunk H p ?i x s1 else freeSlab H ?i x s1"
  obtain b t where t: "?m = Some (b, t)" "took V k e (core s) (a, n) t"
  proof (cases "chunk_mode (core s) ?i")
    case True
    then obtain j where j: "j < length (Chunks sl)" "Chunks sl ! j" "a = unat (MemPtr sl) + j * size_at (core s) ?i"
        "n = size_at (core s) ?i"
      using r by (auto simp: slab_live_def chunk_ranges_def)
    obtain b t where "freeChunk H p ?i x s1 = Some (b, t)" "took V k e (core s) (a, n) t"
      using freeChunk_ok [OF H i1(3,2) _ j(1,2), of p] True p(1,2) j(3,4) s1(2) by metis
    then show thesis using that mode True by simp
  next
    case False
    then have u: "SlabListIter sl = Some Unavailable" "a = unat (MemPtr sl)" "n = size_at (core s) ?i"
      using r by (auto simp: slab_live_def split: if_splits)
    obtain b t where "freeSlab H ?i x s1 = Some (b, t)" "took V k e (core s) (a, n) t"
      using freeSlab_ok [OF H i1(3,2) _ u(1)] False u(2,3) s1(2) by metis
    then show thesis using that mode False by simp
  qed
  then have "deallocate H p s = Some (Inr b, t)"
    using find_inside [OF inv x p(3)] x s1(1) i1(1) by (simp add: deallocate_def)
  then show thesis using that [OF _ t(2)] by (simp add: DisjointPool_free_def)
qed

lemma free_outside:
  assumes H: "host_ok H V" and inv: "pool_inv V k e (core s)"
    and r: "(unat p, n) \<in> V (provider_world s)" "(unat p, n) \<notin> backing (core s)"
  obtains t where "DisjointPool_free H p s = Some (UMF_RESULT_SUCCESS, t)" "took V k e (core s) (unat p, n) t"
proof -
  have R: "ranges_ok (V (provider_world s))" using pool_invD(2) [OF inv] by simp
  note d = ranges_okD [OF R r(1)]
  have n: "unat (of_nat n :: u64) = n" by (rule unat_of_nat_small) (use d in simp)
  then have r': "(unat p, unat (of_nat n :: u64)) \<in> V (provider_world s)" using r(1) by simp
  obtain w i where h: "host_free H p (of_nat n) (provider_world s) = Some (UMF_RESULT_SUCCESS, w)"
      "V w = V (provider_world s) - {(unat p, unat (of_nat n :: u64))}"
      "host_info H p (provider_world s) = Some (UMF_RESULT_SUCCESS, Some i)" "info_baseSize i = of_nat n"
    by (rule host_free_held [OF H R r'])
  have nz: "p \<noteq> 0" using d(1) by auto
  let ?t = "s\<lparr>provider_world := w\<rparr>"
  have "memoryProviderFree H p s = Some (Inr (), ?t)"
    using h nz by (simp add: memoryProviderFree_def)
  then have free: "DisjointPool_free H p s = Some (UMF_RESULT_SUCCESS, ?t)"
    using find_outside [OF inv r] by (simp add: DisjointPool_free_def deallocate_def)
  have back_in: "backing (core s) \<subseteq> V (provider_world s)" using backing_subset [OF inv] by simp
  have w: "V w = V (provider_world s) - {(unat p, n)}" using h(2) unfolding n .
  have "ranges_ok (V w)" "backing (core s) \<subseteq> V w"
    using ranges_ok_subset [OF R, of "V w"] back_in r(2) w by auto
  note step = world_step [OF inv this]
  have "(unat p, n) \<notin> slab_live (core s) sl" if x: "slabs s x = Some sl" for x sl
  proof
    assume *: "(unat p, n) \<in> slab_live (core s) sl"
    have xc: "c_slabs (core s) x = Some sl" using x by simp
    have "(unat p, n) \<in> rest V (core s) x" using r by (simp add: in_rest)
    then show False using within_not_rest [OF inv xc slab_live_within [OF inv xc *]] by simp
  qed
  then have "live V ((core s)\<lparr>c_world := w\<rparr>) = live V (core s) - {(unat p, n)}"
    unfolding step(2) core_simps w using r by (auto simp: in_live)
  then have "took V k e (core s) (unat p, n) ?t"
    using step(1) by (simp add: took_def core_world)
  then show thesis using that free by blast
qed

lemma free_live:
  assumes H: "host_ok H V" and inv: "pool_inv V k e (core s)" and r: "(unat p, n) \<in> live V (core s)"
  obtains t where "DisjointPool_free H p s = Some (UMF_RESULT_SUCCESS, t)" "took V k e (core s) (unat p, n) t"
proof -
  consider x sl where "slabs s x = Some sl" "(unat p, n) \<in> slab_live (core s) sl"
    | "(unat p, n) \<in> V (provider_world s)" "(unat p, n) \<notin> backing (core s)"
    using r unfolding in_live by auto
  then show thesis
  proof cases
    case 1
    have xc: "c_slabs (core s) x = Some sl" using 1(1) by simp
    note wf = slab_facts(1) [OF inv xc] and cfg = pool_invD(1) [OF inv]
    have pos: "0 < n" using slab_live_within [OF inv xc 1(2)] by (simp add: within_def)
    have "holds_addr (core s) sl p"
    proof (cases "chunk_mode (core s) (slab_bucket sl)")
      case True
      then obtain j where j: "j < length (Chunks sl)" "unat p = unat (MemPtr sl) + j * size_at (core s) (slab_bucket sl)"
          "n = size_at (core s) (slab_bucket sl)"
        using 1(2) by (auto simp: slab_live_def chunk_ranges_def)
      show ?thesis by (rule chunk_index(2) [OF cfg wf j(1) slab_facts(5) [OF inv xc]]) (use j pos in simp_all)
    next
      case False
      then show ?thesis
        using 1(2) cfg_okD(8) [OF cfg] by (auto simp: slab_live_def holds_addr_def split: if_splits)
    qed
    then show thesis using free_inside [OF H inv 1, of p] pos that by auto
  next
    case 2
    then show thesis using free_outside [OF H inv 2] that by blast
  qed
qed

section \<open>Destruction\<close>

lemma delete_slabs_ok:
  assumes H: "host_ok H V"
  shows "pool_inv V k e c \<Longrightarrow> agrees s c \<Longrightarrow> distinct xs \<Longrightarrow> set xs = dom (c_slabs c) \<Longrightarrow>
    \<exists>t. delete_slabs H xs s = Some t \<and> V (provider_world t) = V (c_world c) - backing c"
proof (induction xs arbitrary: s c)
  case Nil
  then have "c_slabs c = Map.empty" by (metis dom_eq_empty_conv empty_set)
  then have "backing c = {}" by (simp add: backing_def)
  then show ?case using Nil by (simp add: agrees_def)
next
  case (Cons x xs)
  note inv = Cons.prems(1)
  have "x \<in> dom (c_slabs c)" using Cons.prems(4) by auto
  then obtain sl where x: "c_slabs c x = Some sl" by blast
  have "SlabListIter sl \<noteq> None" using slab_facts(1) [OF inv x] by (simp add: slab_wf_def)
  then obtain l where l: "SlabListIter sl = Some l" by blast
  obtain w where w: "Slab_delete H x s = Some (s\<lparr>KnownSlabs := c_known (del_core x (slab_bucket sl) l (MemPtr sl) w c),
      provider_world := w, slabs := (c_slabs c)(x := None)\<rparr>)" "V w = V (c_world c) - {slab_range c sl}"
    by (rule Slab_delete_eq [OF H inv x Cons.prems(2)])
  let ?c = "del_core x (slab_bucket sl) l (MemPtr sl) w c"
  let ?t = "s\<lparr>KnownSlabs := c_known ?c, provider_world := w, slabs := (c_slabs c)(x := None)\<rparr>"
  note del = del_slab [OF inv x refl l refl w(2)]
  have "agrees ?t ?c" using Cons.prems(2) by (simp add: agrees_def del_core_def Let_def slab_min_size_def)
  moreover have "set xs = dom (c_slabs ?c)" using Cons.prems(3,4) by (auto simp: del_core_def Let_def)
  ultimately obtain t where t: "delete_slabs H xs ?t = Some t" "V (provider_world t) = V (c_world ?c) - backing ?c"
    using Cons.IH [OF del(1)] Cons.prems(3) unfolding distinct.simps by blast
  have "c_world ?c = w" by (simp add: del_core_def Let_def)
  then have "V (provider_world t) = V (c_world c) - backing c" unfolding t(2) del(3) using w(2) by auto
  then show ?case using w(1) t(1) by simp
qed

lemma distinct_concat_map:
  assumes "\<forall>i<length L. distinct (f (L ! i))" "\<forall>i<length L. \<forall>j<length L. \<forall>x. x \<in> set (f (L ! i)) \<longrightarrow> x \<in> set (f (L ! j)) \<longrightarrow> i = j"
  shows "distinct (concat (map f L))"
  using assms
proof (induction L)
  case (Cons a L)
  have "distinct (concat (map f L))"
    using Cons.prems by (intro Cons.IH) (metis Suc_less_eq length_Cons nth_Cons_Suc nat.inject)+
  moreover have "set (f a) \<inter> set (concat (map f L)) = {}"
  proof -
    have "x \<notin> set (f (L ! j))" if "x \<in> set (f a)" "j < length L" for x j
      using Cons.prems(2) [rule_format, of 0 "Suc j" x] that by auto
    then show ?thesis by (fastforce simp: in_set_conv_nth)
  qed
  moreover have "distinct (f a)" using Cons.prems(1) [rule_format, of 0] by simp
  ultimately show ?case by simp
qed simp

lemma in_concat_map: "x \<in> set (concat (map f L)) \<longleftrightarrow> (\<exists>i<length L. x \<in> set (f (L ! i)))"
  by simp (metis in_set_conv_nth)

lemma all_slabs:
  assumes inv: "pool_inv V k e (core s)"
  shows "distinct (concat (map (\<lambda>b. UnavailableSlabs b @ AvailableSlabs b) (Buckets s)))"
    "set (concat (map (\<lambda>b. UnavailableSlabs b @ AvailableSlabs b) (Buckets s))) = dom (slabs s)"
proof -
  let ?f = "\<lambda>b. UnavailableSlabs b @ AvailableSlabs b"
  have L: "distinct (AvailableSlabs (Buckets s ! i))" "x \<in> set (AvailableSlabs (Buckets s ! i)) \<longleftrightarrow> in_list (core s) i Available x"
      "distinct (UnavailableSlabs (Buckets s ! i))" "x \<in> set (UnavailableSlabs (Buckets s ! i)) \<longleftrightarrow> in_list (core s) i Unavailable x"
    if "i < length (Buckets s)" for i x
    using lists_okD(1,3) [OF pool_invD(4) [OF inv], of i] lists_okD(2,4) [OF pool_invD(4) [OF inv], of i x] that
    by simp_all
  have mem: "x \<in> set (?f (Buckets s ! i)) \<longleftrightarrow> (\<exists>sl. slabs s x = Some sl \<and> slab_bucket sl = i)"
    if i: "i < length (Buckets s)" for i x
  proof -
    have "SlabListIter sl = Some Available \<or> SlabListIter sl = Some Unavailable" if "slabs s x = Some sl" for sl
      using slab_facts(1) [OF inv, of x sl] that by (cases "SlabListIter sl"; cases "the (SlabListIter sl)") (auto simp: slab_wf_def)
    then show ?thesis using L(2,4) [OF i, of x] by (auto simp: in_list_def)
  qed
  show "distinct (concat (map ?f (Buckets s)))"
  proof (rule distinct_concat_map)
    show "\<forall>i<length (Buckets s). distinct (?f (Buckets s ! i))" using L by (auto simp: in_list_def)
    show "\<forall>i<length (Buckets s). \<forall>j<length (Buckets s). \<forall>x. x \<in> set (?f (Buckets s ! i)) \<longrightarrow> x \<in> set (?f (Buckets s ! j)) \<longrightarrow> i = j"
      using mem by (metis option.inject)
  qed
  have "slab_bucket sl < length (Buckets s)" if "slabs s x = Some sl" for x sl
    using slab_facts(6) [OF inv, of x sl] that by simp
  then have "x \<in> set (concat (map ?f (Buckets s))) \<longleftrightarrow> x \<in> dom (slabs s)" for x
  proof -
    have "x \<in> set (concat (map ?f (Buckets s))) \<longleftrightarrow> (\<exists>i<length (Buckets s). x \<in> set (?f (Buckets s ! i)))"
      by (rule in_concat_map)
    also have "\<dots> \<longleftrightarrow> x \<in> dom (slabs s)"
      using mem \<open>\<And>x sl. slabs s x = Some sl \<Longrightarrow> slab_bucket sl < length (Buckets s)\<close> by (metis domD domI)
    finally show ?thesis .
  qed
  then show "set (concat (map ?f (Buckets s))) = dom (slabs s)" by blast
qed

lemma destroy_ok:
  assumes "host_ok H V" "pool_inv V k e (core s)"
  obtains w where "DisjointPool_finalize H s = Some w" "V w = V (provider_world s) - backing (core s)"
proof -
  have "agrees s (core s)" by (simp add: agrees_def)
  moreover have "set (concat (map (\<lambda>b. UnavailableSlabs b @ AvailableSlabs b) (Buckets s))) = dom (c_slabs (core s))"
    using all_slabs(2) [OF assms(2)] by simp
  ultimately obtain t where
      "delete_slabs H (concat (map (\<lambda>b. UnavailableSlabs b @ AvailableSlabs b) (Buckets s))) s = Some t"
      "V (provider_world t) = V (c_world (core s)) - backing (core s)"
    using delete_slabs_ok [OF assms(1,2) _ all_slabs(1) [OF assms(2)]] by blast
  then show thesis using that by (simp add: DisjointPool_finalize_def)
qed

section \<open>A new pool\<close>

lemma live_empty: "c_slabs c = Map.empty \<Longrightarrow> live V c = V (c_world c)"
  by (simp add: live_def backing_def)

lemma unat_min_max: "unat (min a b) = min (unat a) (unat b)" "unat (max a b) = max (unat a) (unat b)" for a b :: u64
  by (simp_all add: min_def max_def word_le_nat_alt)

lemma power_min_max: "min (2 ^ a) (2 ^ b) = (2 :: nat) ^ min a b" "max (2 ^ a) (2 ^ b) = (2 :: nat) ^ max a b"
  by (simp_all add: min_def max_def)

lemma initialize_ok:
  assumes min: "MinBucketSize ps = 2 ^ b" "b < 64" and k: "k = max 3 (min b 31)" and e: "SlabMinSize ps = 2 ^ e" "k < e" "e < 64"
    and max: "unat (MaxPoolableSize ps) \<le> 2 ^ 31" and R: "ranges_ok (V w)"
    and page: "host_min_page_size H w = Some ((r, g), w1)" "V w1 = V w"
  obtains s where "DisjointPool_initialize H (Some h) ps w = Some (UMF_RESULT_SUCCESS, Some s)"
    "pool_inv V k e (core s)" "live V (core s) = V w" "slabs s = Map.empty" "params s = ps"
    "ProviderMinPageSize s = (if r \<noteq> UMF_RESULT_SUCCESS then 0 else g)" "provider_world s = w1"
proof -
  have ub: "unat (2 ^ b :: u64) = 2 ^ b" using min(2) by (rule unat_exp64)
  have k31: "3 \<le> k" "k \<le> 31" using k by simp_all
  have uk: "unat (2 ^ k :: u64) = 2 ^ k" by (rule unat_exp64) (use k31 in simp)
  have size1: "max (min (MinBucketSize ps) CutOff) UMF_DISJOINT_POOL_MIN_BUCKET_DEFAULT_SIZE = 2 ^ k"
  proof (rule unat_eqD64)
    have "unat CutOff = 2 ^ 31" "unat UMF_DISJOINT_POOL_MIN_BUCKET_DEFAULT_SIZE = 2 ^ 3"
      by (simp_all add: CutOff_def UMF_DISJOINT_POOL_MIN_BUCKET_DEFAULT_SIZE_def)
    then have "unat (max (min (MinBucketSize ps) CutOff) UMF_DISJOINT_POOL_MIN_BUCKET_DEFAULT_SIZE) = max (min (2 ^ b) (2 ^ 31)) (2 ^ 3)"
      unfolding min(1) unat_min_max ub by (simp only:)
    also have "\<dots> = 2 ^ k" unfolding k power_min_max max.commute [of 3] ..
    finally show "unat (max (min (MinBucketSize ps) CutOff) UMF_DISJOINT_POOL_MIN_BUCKET_DEFAULT_SIZE) = unat (2 ^ k :: u64)"
      unfolding uk .
  qed
  have nz: "(2 ^ k :: u64) \<noteq> 0" "(2 ^ b :: u64) \<noteq> 0"
    using uk ub by (metis unat_0 power_not_zero zero_neq_numeral)+
  have pow: "(2 ^ b :: u64) AND (2 ^ b - 1) = 0"
    by (rule power_of_two_test [THEN iffD2, OF _ _ min(2)]) (simp_all add: ub)
  obtain p where p: "log2Utils (2 ^ k) = Some (of_nat p)" "p < 64" "bit (2 ^ k :: u64) p"
    using getLeftmostSetBitPos_eq [OF nz(1)] by (metis log2Utils_def)
  then have pk: "p = k" by (simp add: bit_simps)
  obtain m where m: "k = Suc m" using k31(1) by (cases k) auto
  have half: "(2 ^ k + 2 ^ k div 2 :: u64) = 3 * 2 ^ (k - 1)"
  proof -
    have "unat (2 ^ k div 2 :: u64) = 2 ^ m" using uk m by (simp add: unat_div)
    moreover have "unat (2 ^ m :: u64) = 2 ^ m" by (rule unat_exp64) (use m k31 in simp)
    ultimately have "(2 ^ k div 2 :: u64) = 2 ^ m" by (intro unat_eqD64) simp
    then show ?thesis unfolding m by simp
  qed
  let ?s = "\<lparr>KnownSlabs = [], slabs = Map.empty, Buckets = map new_bucket (map of_nat (size_list k)), params = ps,
       DefaultSharedLimits = \<lparr>MaxSize = - 1, TotalSize = 0\<rparr>, MinBucketSizeExp = of_nat k,
       ProviderMinPageSize = (if r \<noteq> UMF_RESULT_SUCCESS then 0 else g),
       pool_last_status = UMF_RESULT_SUCCESS, provider_world = w1\<rparr>"
  have "AllocImpl_new H ps w = Some ?s"
    using bucket_sizes_eq [of k] k31 p(1) page(1) half unfolding pk
    by (simp add: AllocImpl_new_def Let_def size1)
  then have new: "DisjointPool_initialize H (Some h) ps w = Some (UMF_RESULT_SUCCESS, Some ?s)"
    using nz(2) pow by (simp add: DisjointPool_initialize_def min(1))
  have len: "n < 2 ^ 64" if "n \<in> set (size_list k)" for n
    using size_list_bounds(2) [OF that] k31 by simp
  have sizes: "map (unat \<circ> l_size) (c_lists (core ?s)) = size_list k"
    using len by (simp add: comp_def new_bucket_def unat_of_nat_small map_idI)
  have empty: "l_avail (c_lists (core ?s) ! i) = []" "l_unavail (c_lists (core ?s) ! i) = []"
    if "i < length (c_lists (core ?s))" for i
    using that by (simp_all add: new_bucket_def)
  have "cfg_ok k e (core ?s)"
    using k31 e max sizes by (simp add: cfg_ok_def slab_min_size_def unat_of_nat_small del: core_simps(3))
  moreover have "lists_ok (core ?s)" unfolding lists_ok_def using empty by (simp add: in_list_def)
  moreover have "slabs_ok V (core ?s)" "known_ok (core ?s)" by (simp_all add: slabs_ok_def known_ok_def)
  ultimately have inv: "pool_inv V k e (core ?s)" using R page(2) by (simp add: pool_inv_def)
  have "live V (core ?s) = V (c_world (core ?s))" by (rule live_empty) simp
  then have "live V (core ?s) = V w" using page(2) by simp
  then show thesis using that [OF new inv] by simp
qed

end
