(* ===== verification/Disjoint_Properties.thy ===== *)
theory Disjoint_Properties
  imports Disjoint_Pool
begin

text \<open>
  A provider that hands out pages one after the other, never twice, and refuses alignments above
  a page. It satisfies everything that the disjoint pool relies on. Then the contract of a pool
  for its clients, and the property of the disjoint pool.
\<close>

record bump =
  handed :: "range list"
  next_page :: nat

definition bump_alloc :: "u64 \<Rightarrow> u64 \<Rightarrow> (umf_result \<times> u64, bump) eff" where
  "bump_alloc sz al w = (let n = (unat sz + 4095) div 4096 * 4096 in
     if unat al \<le> 4096 \<and> next_page w + n < 2 ^ 63
     then Some ((UMF_RESULT_SUCCESS, of_nat (next_page w)), w\<lparr>handed := (next_page w, unat sz) # handed w, next_page := next_page w + n\<rparr>)
     else Some ((UMF_RESULT_ERROR_OUT_OF_HOST_MEMORY, 0), w))"

definition bump_free :: "u64 \<Rightarrow> u64 \<Rightarrow> (umf_result, bump) eff" where
  "bump_free p n w =
     (if (unat p, unat n) \<in> set (handed w)
      then Some (UMF_RESULT_SUCCESS, w\<lparr>handed := filter (\<lambda>r. r \<noteq> (unat p, unat n)) (handed w)\<rparr>)
      else Some (UMF_RESULT_ERROR_INVALID_ARGUMENT, w))"

definition bump_info :: "u64 \<Rightarrow> bump \<Rightarrow> (umf_result \<times> umf_alloc_info_t option) option" where
  "bump_info p w = Some (case find (\<lambda>r. fst r \<le> unat p \<and> unat p < fst r + snd r) (handed w) of
     None \<Rightarrow> (UMF_RESULT_ERROR_INVALID_ARGUMENT, None)
   | Some r \<Rightarrow> (UMF_RESULT_SUCCESS, Some \<lparr>info_base = of_nat (fst r), info_baseSize = of_nat (snd r), info_pool = 1\<rparr>))"

definition bump_host :: "bump pool_host" where
  "bump_host = \<lparr>host_alloc = bump_alloc, host_free = bump_free, host_info = bump_info,
     host_min_page_size = (\<lambda>w. Some ((UMF_RESULT_SUCCESS, 4096), w))\<rparr>"

definition bump_ok :: "bump \<Rightarrow> bool" where
  "bump_ok w \<longleftrightarrow> 4096 dvd next_page w \<and> 0 < next_page w \<and> next_page w < 2 ^ 63 \<and> ranges_ok (set (handed w))
     \<and> (\<forall>r\<in>set (handed w). 4096 dvd fst r \<and> fst r + snd r \<le> next_page w)"

definition bump_ranges :: "bump \<Rightarrow> range set" where
  "bump_ranges w = (if bump_ok w then set (handed w) else {(0, 0)})"

lemma bump_ranges_ok: "ranges_ok (bump_ranges w) \<longleftrightarrow> bump_ok w"
  by (auto simp: bump_ranges_def ranges_ok_def bump_ok_def)

lemma ranges_ok_insert:
  assumes "ranges_ok R" "0 < a" "0 < n" "a + n < 2 ^ 64" "\<forall>r\<in>R. fst r + snd r \<le> a"
  shows "ranges_ok (insert (a, n) R)"
  using assms unfolding ranges_ok_def by (auto simp: ranges_apart_def)

lemma bump_alloc_law:
  assumes w: "bump_ok w" and sz: "sz \<noteq> 0"
  shows "\<exists>r p w1. bump_alloc sz al w = Some ((r, p), w1) \<and> ranges_ok (bump_ranges w1) \<and>
      (if r = UMF_RESULT_SUCCESS
       then (unat p, unat sz) \<notin> bump_ranges w \<and> bump_ranges w1 = insert (unat p, unat sz) (bump_ranges w)
       else bump_ranges w1 = bump_ranges w)"
proof -
  let ?n = "(unat sz + 4095) div 4096 * 4096"
  show ?thesis
  proof (cases "unat al \<le> 4096 \<and> next_page w + ?n < 2 ^ 63")
    case True
    let ?w = "w\<lparr>handed := (next_page w, unat sz) # handed w, next_page := next_page w + ?n\<rparr>"
    have "unat sz + 4095 = ?n + (unat sz + 4095) mod 4096" by (simp only: div_mult_mod_eq)
    moreover have "(unat sz + 4095) mod 4096 < 4096" by simp
    ultimately have n: "unat sz \<le> ?n" by linarith
    have pos: "0 < unat sz" using sz by (simp add: unat_gt_0)
    have top_word: "unat (of_nat (next_page w) :: u64) = next_page w"
      by (rule unat_of_nat_small) (use w in \<open>simp add: bump_ok_def\<close>)
    have small: "next_page w + unat sz < 2 ^ 64" using conjunct2 [OF True] n power_strict_increasing [of 63 64 "2 :: nat"] by linarith
    have low: "fst r + snd r \<le> next_page w" if "r \<in> set (handed w)" for r using w that by (simp add: bump_ok_def)
    have "ranges_ok (insert (next_page w, unat sz) (set (handed w)))"
      using ranges_ok_insert [of "set (handed w)" "next_page w" "unat sz"] w pos small by (simp add: bump_ok_def)
    then have ok: "bump_ok ?w"
      using w True n low by (auto simp: bump_ok_def trans_le_add1 intro!: dvd_add)
    have "(next_page w, unat sz) \<notin> set (handed w)" using low [of "(next_page w, unat sz)"] pos by auto
    then have "(top_of, unat sz) \<notin> bump_ranges w \<and> bump_ranges ?w = insert (top_of, unat sz) (bump_ranges w)"
      if "top_of = next_page w" for top_of
      using that ok w by (simp add: bump_ranges_def)
    moreover have "bump_alloc sz al w = Some ((UMF_RESULT_SUCCESS, of_nat (next_page w)), ?w)"
      using True by (simp only: bump_alloc_def Let_def if_True simp_thms)
    ultimately show ?thesis using top_word bump_ranges_ok [of ?w] ok by auto
  next
    case False
    then have "bump_alloc sz al w = Some ((UMF_RESULT_ERROR_OUT_OF_HOST_MEMORY, 0), w)"
      by (simp only: bump_alloc_def Let_def if_False simp_thms)
    then show ?thesis using w bump_ranges_ok [of w] by simp
  qed
qed

lemma bump_ok_filter: "bump_ok w \<Longrightarrow> bump_ok (w\<lparr>handed := filter Q (handed w)\<rparr>)"
  using ranges_ok_subset [of "set (handed w)" "set (filter Q (handed w))"] by (auto simp: bump_ok_def)

lemma bump_free_law:
  assumes w: "bump_ok w" and r: "(unat p, unat n) \<in> bump_ranges w"
  shows "\<exists>w1. bump_free p n w = Some (UMF_RESULT_SUCCESS, w1) \<and> bump_ranges w1 = bump_ranges w - {(unat p, unat n)}"
  using assms bump_ok_filter [OF w, of "\<lambda>r. r \<noteq> (unat p, unat n)"] by (auto simp: bump_free_def bump_ranges_def)

lemma bump_info_law:
  assumes w: "bump_ok w" and r: "(unat p, unat n) \<in> bump_ranges w"
  shows "\<exists>i. bump_info p w = Some (UMF_RESULT_SUCCESS, Some i) \<and> info_baseSize i = n"
proof -
  let ?P = "\<lambda>r. fst r \<le> unat p \<and> unat p < fst r + snd r"
  have R: "ranges_ok (set (handed w))" and h: "(unat p, unat n) \<in> set (handed w)"
    using assms by (simp_all add: bump_ok_def bump_ranges_def)
  have "?P (unat p, unat n)" using ranges_okD(2) [OF R h] by simp
  then have "find ?P (handed w) \<noteq> None" using h unfolding find_None_iff by blast
  then obtain q where q: "find ?P (handed w) = Some q" by blast
  then have "q \<in> set (handed w)" "?P q" by (auto simp: find_Some_iff)
  then have "q = (unat p, unat n)"
    using ranges_ok_apart [OF R _ h, of q] ranges_okD(2) [OF R h] by (fastforce simp: ranges_apart_def)
  then show ?thesis using q by (simp add: bump_info_def)
qed

lemma bump_host_ok: "host_ok bump_host bump_ranges"
  unfolding host_ok_def
  using bump_alloc_law bump_free_law bump_info_law by (simp add: bump_host_def bump_ranges_ok)

lemma bump_host_aligns: "host_aligns bump_host bump_ranges"
  unfolding host_aligns_def
proof (intro allI impI)
  fix w sz m p w1
  assume w: "ranges_ok (bump_ranges w)" and m: "m < 64"
    and a: "host_alloc bump_host sz (2 ^ m) w = Some ((UMF_RESULT_SUCCESS, p), w1)"
  have "(2 :: nat) ^ m \<le> 2 ^ 12" "p = of_nat (next_page w)"
    using a m by (simp_all add: bump_host_def bump_alloc_def Let_def split: if_splits)
  moreover from this(1) have "m \<le> 12" by (rule power_le_imp_le_exp [rotated]) simp
  then have "(2 :: nat) ^ m dvd 2 ^ 12" by (rule le_imp_power_dvd)
  moreover have "4096 dvd next_page w" "unat (of_nat (next_page w) :: u64) = next_page w"
    using w by (auto simp: bump_ranges_ok bump_ok_def intro!: unat_of_nat_small)
  ultimately show "2 ^ m dvd unat p" using dvd_trans [of "2 ^ m" "4096 :: nat" "next_page w"] by simp
qed

lemma bump_paged: "paged bump_ranges (2 ^ 12)"
  unfolding paged_def by (auto simp: bump_ranges_ok) (auto simp: bump_ranges_def bump_ok_def)

section \<open>A small pool\<close>

definition small_params :: umf_disjoint_pool_params_t where
  "small_params = \<lparr>SlabMinSize = 4096, MaxPoolableSize = 65536, Capacity = 4, MinBucketSize = 8, CurPoolSize = 0,
     PoolTrace = 2, SharedLimits = None\<rparr>"

definition fresh_bump :: bump where
  "fresh_bump = \<lparr>handed = [], next_page = 4096\<rparr>"

lemma fresh_bump_ok: "bump_ok fresh_bump" "bump_ranges fresh_bump = {}"
  by (simp_all add: bump_ok_def fresh_bump_def ranges_ok_def bump_ranges_def)

lemma small_pool:
  obtains s where "DisjointPool_initialize bump_host (Some (Direct 1)) small_params fresh_bump = Some (UMF_RESULT_SUCCESS, Some s)"
    "pool_inv bump_ranges 3 12 (core s)" "live bump_ranges (core s) = {}" "slabs s = Map.empty" "ProviderMinPageSize s = 2 ^ 12"
proof -
  have R: "ranges_ok (bump_ranges fresh_bump)" using fresh_bump_ok by (simp add: ranges_ok_def)
  have page: "host_min_page_size bump_host fresh_bump = Some ((UMF_RESULT_SUCCESS, 4096), fresh_bump)"
    by (simp add: bump_host_def)
  show thesis
    by (rule initialize_ok [where b = 3 and e = 12 and k = 3 and ps = small_params and
          V = bump_ranges and H = bump_host and w = fresh_bump, OF _ _ _ _ _ _ _ R page])
      (use that fresh_bump_ok in \<open>simp_all add: small_params_def\<close>)
qed

chapter \<open>Clients of a pool\<close>

text \<open>
  What the clients of a pool of memory rely on, as a locale: a request adds a range or none, and
  a release removes the range of the address. The disjoint pool provides it, and steps of a
  client with the disjoint pool never give it memory that it holds already.
\<close>

section \<open>Pools of ranges\<close>

definition holds :: "range set \<Rightarrow> (u64 \<times> u64) set \<Rightarrow> bool" where
  "holds L A \<longleftrightarrow> (\<forall>(p, sz)\<in>A. \<exists>n. unat sz \<le> n \<and> (unat p, n) \<in> L)
     \<and> (\<forall>p a b. (p, a) \<in> A \<longrightarrow> (p, b) \<in> A \<longrightarrow> a = b)
     \<and> (\<forall>a n. (a, n) \<in> L \<longrightarrow> (\<exists>p sz. (p, sz) \<in> A \<and> unat p = a))"

lemma holdsI:
  assumes "\<And>p sz. (p, sz) \<in> A \<Longrightarrow> \<exists>n. unat sz \<le> n \<and> (unat p, n) \<in> L"
    and "\<And>p a b. (p, a) \<in> A \<Longrightarrow> (p, b) \<in> A \<Longrightarrow> a = b"
    and "\<And>a n. (a, n) \<in> L \<Longrightarrow> \<exists>p sz. (p, sz) \<in> A \<and> unat p = a"
  shows "holds L A"
  using assms unfolding holds_def by blast

lemma holdsD:
  assumes "holds L A"
  shows "(p, sz) \<in> A \<Longrightarrow> \<exists>n. unat sz \<le> n \<and> (unat p, n) \<in> L"
    and "(p, a) \<in> A \<Longrightarrow> (p, b) \<in> A \<Longrightarrow> a = b"
    and "(q, n) \<in> L \<Longrightarrow> \<exists>p sz. (p, sz) \<in> A \<and> unat p = q"
  using assms unfolding holds_def by blast+

locale range_pool =
  fixes inv :: "'s \<Rightarrow> bool"
    and lv :: "'s \<Rightarrow> range set"
    and request :: "'o \<Rightarrow> u64 \<Rightarrow> 's \<Rightarrow> u64 \<Rightarrow> 's \<Rightarrow> bool"
    and release :: "u64 \<Rightarrow> 's \<Rightarrow> 's \<Rightarrow> bool"
  assumes lv_ok: "inv s \<Longrightarrow> ranges_ok (lv s)"
    and request_law: "inv s \<Longrightarrow> request os sz s p t \<Longrightarrow> inv t \<and>
      (p = 0 \<and> lv t = lv s \<or> (\<exists>n. unat sz \<le> n \<and> (unat p, n) \<notin> lv s \<and> lv t = insert (unat p, n) (lv s)))"
    and release_law: "inv s \<Longrightarrow> (unat p, n) \<in> lv s \<Longrightarrow> release p s t \<Longrightarrow> inv t \<and> lv t = lv s - {(unat p, n)}"
begin

lemma holds_apart:
  assumes "inv s" "holds (lv s) A" "(p, a) \<in> A" "(q, b) \<in> A" "(p, a) \<noteq> (q, b)"
  shows "unat p + unat a \<le> unat q \<or> unat q + unat b \<le> unat p"
proof -
  obtain n m where nm: "unat a \<le> n" "(unat p, n) \<in> lv s" "unat b \<le> m" "(unat q, m) \<in> lv s"
    using assms(2-4) unfolding holds_def by blast
  have "p \<noteq> q" using assms(2-5) unfolding holds_def by blast
  then have "(unat p, n) \<noteq> (unat q, m)" using unat_eqD64 by blast
  then have "ranges_apart (unat p, n) (unat q, m)" by (rule ranges_ok_apart [OF lv_ok [OF assms(1)] nm(2,4)])
  then show ?thesis using nm(1,3) by (auto simp: ranges_apart_def)
qed

lemma holds_request:
  assumes "inv s" "holds (lv s) A" "request os sz s p t"
  shows "inv t \<and> holds (lv t) (if p = 0 then A else insert (p, sz) A)"
proof -
  have t: "inv t" and r: "p = 0 \<and> lv t = lv s \<or> (\<exists>n. unat sz \<le> n \<and> (unat p, n) \<notin> lv s \<and> lv t = insert (unat p, n) (lv s))"
    using request_law [OF assms(1,3)] by blast+
  show ?thesis
  proof (cases "p = 0")
    case True
    then have "lv t = lv s \<or> (\<exists>n. (0, n) \<in> lv t)" using r by auto
    then have "lv t = lv s" using ranges_okD(1) [OF lv_ok [OF t]] by auto
    then show ?thesis using t assms(2) True by simp
  next
    case False
    then obtain n where n: "unat sz \<le> n" "(unat p, n) \<notin> lv s" "lv t = insert (unat p, n) (lv s)" using r by blast
    have new: "(p, b) \<notin> A" for b
    proof
      assume "(p, b) \<in> A"
      then obtain m where "(unat p, m) \<in> lv s" using holdsD(1) [OF assms(2)] by blast
      moreover from this have "m = n" using apart_same_start [OF lv_ok [OF t]] n(3) by blast
      ultimately show False using n(2) by simp
    qed
    have "holds (lv t) (insert (p, sz) A)"
    proof (rule holdsI)
      fix q b assume "(q, b) \<in> insert (p, sz) A"
      then show "\<exists>m. unat b \<le> m \<and> (unat q, m) \<in> lv t"
        using holdsD(1) [OF assms(2)] n(1,3) by blast
    next
      fix q a b assume "(q, a) \<in> insert (p, sz) A" "(q, b) \<in> insert (p, sz) A"
      then show "a = b" using holdsD(2) [OF assms(2)] new by auto
    next
      fix q m assume "(q, m) \<in> lv t"
      then consider "q = unat p" | "(q, m) \<in> lv s" using n(3) by auto
      then show "\<exists>r b. (r, b) \<in> insert (p, sz) A \<and> unat r = q"
      proof cases
        case 2
        obtain r b where "(r, b) \<in> A" "unat r = q" using holdsD(3) [OF assms(2) 2] by blast
        then show ?thesis by auto
      qed auto
    qed
    then show ?thesis using t False by simp
  qed
qed

lemma holds_release:
  assumes "inv s" "holds (lv s) A" "(p, sz) \<in> A" "release p s t"
  shows "inv t \<and> holds (lv t) (A - {(p, sz)})"
proof -
  obtain n where n: "(unat p, n) \<in> lv s" using assms(2,3) unfolding holds_def by blast
  have t: "inv t" "lv t = lv s - {(unat p, n)}" using release_law [OF assms(1) n assms(4)] by blast+
  have "q \<noteq> p" if "(q, b) \<in> A - {(p, sz)}" for q b using assms(2,3) that unfolding holds_def by blast
  then have neq: "unat q \<noteq> unat p" if "(q, b) \<in> A - {(p, sz)}" for q b using that unat_eqD64 by blast
  have "holds (lv t) (A - {(p, sz)})"
  proof (rule holdsI)
    fix q b assume q: "(q, b) \<in> A - {(p, sz)}"
    then obtain m where m: "unat b \<le> m" "(unat q, m) \<in> lv s" using holdsD(1) [OF assms(2)] by blast
    moreover have "(unat q, m) \<noteq> (unat p, n)" using neq [OF q] by simp
    ultimately show "\<exists>m. unat b \<le> m \<and> (unat q, m) \<in> lv t" unfolding t(2) by blast
  next
    fix q a b assume "(q, a) \<in> A - {(p, sz)}" "(q, b) \<in> A - {(p, sz)}"
    then show "a = b" using holdsD(2) [OF assms(2)] by blast
  next
    fix q m assume q: "(q, m) \<in> lv t"
    then obtain r b where r: "(r, b) \<in> A" "unat r = q" using holdsD(3) [OF assms(2)] unfolding t(2) by blast
    have "r \<noteq> p"
    proof
      assume "r = p"
      then have "(unat p, m) \<in> lv s" using q r(2) unfolding t(2) by simp
      then have "m = n" by (rule apart_same_start [OF lv_ok [OF assms(1)] _ n])
      then show False using q r(2) \<open>r = p\<close> unfolding t(2) by simp
    qed
    then show "\<exists>r b. (r, b) \<in> A - {(p, sz)} \<and> unat r = q" using r by blast
  qed
  then show ?thesis using t(1) by simp
qed

end

section \<open>The disjoint pool is one\<close>

definition dp_inv :: "'w pool_host \<Rightarrow> ('w \<Rightarrow> range set) \<Rightarrow> nat \<Rightarrow> nat \<Rightarrow> 'w alloc_impl \<Rightarrow> bool" where
  "dp_inv H V k e s \<longleftrightarrow> host_ok H V \<and> pool_inv V k e (core s)"

definition dp_request :: "'w pool_host \<Rightarrow> ptr \<Rightarrow> u64 \<Rightarrow> 'w alloc_impl \<Rightarrow> u64 \<Rightarrow> 'w alloc_impl \<Rightarrow> bool" where
  "dp_request H obj sz s p t \<longleftrightarrow> obj \<noteq> NULL \<and> slabs s obj = None \<and> DisjointPool_malloc H obj sz s = Some (p, t)"

definition dp_release :: "'w pool_host \<Rightarrow> u64 \<Rightarrow> 'w alloc_impl \<Rightarrow> 'w alloc_impl \<Rightarrow> bool" where
  "dp_release H p s t \<longleftrightarrow> (\<exists>r. DisjointPool_free H p s = Some (r, t))"

lemma malloc_cases:
  assumes H: "host_ok H V" and inv: "pool_inv V k e (core s)" and obj: "obj \<noteq> NULL" "slabs s obj = None"
  obtains (none) t where "DisjointPool_malloc H obj sz s = Some (0, t)" "pool_inv V k e (core t)" "live V (core t) = live V (core s)"
      "sz = 0 \<or> pool_last_status t \<noteq> UMF_RESULT_SUCCESS"
  | (gave) p n t where "DisjointPool_malloc H obj sz s = Some (p, t)" "gave V k e s (unat p, n) t" "unat sz \<le> n" "sz \<noteq> 0"
proof (cases "sz = 0")
  case True
  then show thesis using that(1) inv by (simp add: DisjointPool_malloc_def allocate_def)
next
  case False
  from assms False show thesis
  proof (cases rule: allocate_cases)
    case (none t)
    then show thesis using that(1) by (simp add: DisjointPool_malloc_def no_memory_def)
  next
    case (gave p n t)
    then show thesis using that(2) False by (simp add: DisjointPool_malloc_def)
  qed
qed

interpretation dp: range_pool "dp_inv H V k e" "\<lambda>s. live V (core s)" "dp_request H" "dp_release H" for H V k e
proof
  fix s assume "dp_inv H V k e s"
  then show "ranges_ok (live V (core s))" using live_ranges_ok by (auto simp: dp_inv_def)
next
  fix s obj sz p t
  assume "dp_inv H V k e s" "dp_request H obj sz s p t"
  then have s: "host_ok H V" "pool_inv V k e (core s)" "obj \<noteq> NULL" "slabs s obj = None" "DisjointPool_malloc H obj sz s = Some (p, t)"
    by (simp_all add: dp_inv_def dp_request_def)
  from s(1-4) show "dp_inv H V k e t \<and> (p = 0 \<and> live V (core t) = live V (core s) \<or>
      (\<exists>n. unat sz \<le> n \<and> (unat p, n) \<notin> live V (core s) \<and> live V (core t) = insert (unat p, n) (live V (core s))))"
    by (cases rule: malloc_cases [where sz = sz]) (use s(1,5) in \<open>auto simp: dp_inv_def gave_def\<close>)
next
  fix s p n t
  assume "dp_inv H V k e s" and r: "(unat p, n) \<in> live V (core s)" and "dp_release H p s t"
  then obtain q where s: "host_ok H V" "pool_inv V k e (core s)" "DisjointPool_free H p s = Some (q, t)"
    by (auto simp: dp_inv_def dp_release_def)
  obtain u where "DisjointPool_free H p s = Some (UMF_RESULT_SUCCESS, u)" "took V k e (core s) (unat p, n) u"
    by (rule free_live [OF s(1,2) r])
  then show "dp_inv H V k e t \<and> live V (core t) = live V (core s) - {(unat p, n)}"
    using s(1,3) by (simp add: dp_inv_def took_def)
qed

section \<open>Clients of the disjoint pool\<close>

inductive pool_step :: "'w pool_host \<Rightarrow> 'w alloc_impl \<times> (u64 \<times> u64) set \<Rightarrow> 'w alloc_impl \<times> (u64 \<times> u64) set \<Rightarrow> bool"
  for H where
  step_malloc: "dp_request H obj sz s p t \<Longrightarrow> pool_step H (s, A) (t, if p = 0 then A else insert (p, sz) A)"
| step_calloc: "DisjointPool_calloc num sz s = Some (p, t) \<Longrightarrow> pool_step H (s, A) (t, A)"
| step_realloc: "DisjointPool_realloc q sz s = Some (p, t) \<Longrightarrow> pool_step H (s, A) (t, A)"
| step_usable: "DisjointPool_malloc_usable_size q s = Some (n, t) \<Longrightarrow> pool_step H (s, A) (t, A)"
| step_error: "DisjointPool_get_last_allocation_error s = Some (r, t) \<Longrightarrow> pool_step H (s, A) (t, A)"
| step_free: "(p, sz) \<in> A \<Longrightarrow> dp_release H p s t \<Longrightarrow> pool_step H (s, A) (t, A - {(p, sz)})"

lemma other_requests:
  "DisjointPool_calloc num sz s = Some (p, t) \<Longrightarrow> core t = core s"
  "DisjointPool_realloc q sz s = Some (p, t) \<Longrightarrow> core t = core s"
  "DisjointPool_malloc_usable_size q s = Some (n, t) \<Longrightarrow> core t = core s"
  "DisjointPool_get_last_allocation_error s = Some (r, t) \<Longrightarrow> core t = core s"
  by (auto simp: DisjointPool_calloc_def DisjointPool_realloc_def DisjointPool_malloc_usable_size_def
      DisjointPool_get_last_allocation_error_def)

lemma dp_inv_core: "core t = core s \<Longrightarrow> dp_inv H V k e t = dp_inv H V k e s"
  by (simp add: dp_inv_def)

lemma pool_step_holds:
  assumes "pool_step H x y" "dp_inv H V k e (fst x)" "holds (live V (core (fst x))) (snd x)"
  shows "dp_inv H V k e (fst y) \<and> holds (live V (core (fst y))) (snd y)"
  using assms
proof (induction rule: pool_step.induct)
  case (step_malloc obj sz s p t A)
  then show ?case using dp.holds_request [of H V k e s A obj sz p t] by simp
next
  case (step_free p sz A s t)
  then show ?case using dp.holds_release [of H V k e s A p sz t] by simp
qed (use other_requests dp_inv_core in \<open>metis fst_conv snd_conv\<close>)+

lemma pool_run_holds:
  assumes "(pool_step H)\<^sup>*\<^sup>* x y" "dp_inv H V k e (fst x)" "holds (live V (core (fst x))) (snd x)"
  shows "dp_inv H V k e (fst y) \<and> holds (live V (core (fst y))) (snd y)"
  using assms by (induction rule: rtranclp_induct) (use pool_step_holds in blast)+

chapter \<open>The promise of the pool\<close>

text \<open>
  The disjoint pool as its clients see it, from its creation to its destruction, and the choice
  of the bucket for a request.
\<close>

section \<open>What clients hold\<close>

lemma live_backed:
  assumes inv: "pool_inv V k e c" and r: "r \<in> live V c"
  shows "\<exists>q\<in>V (c_world c). within r q"
proof -
  obtain a n where an: "r = (a, n)" by (cases r)
  consider x sl where "c_slabs c x = Some sl" "r \<in> slab_live c sl" | "r \<in> V (c_world c)"
    using r unfolding an in_live by blast
  then show ?thesis
  proof cases
    case 1
    then show ?thesis using slab_live_within [OF inv] slab_facts(2) [OF inv] by blast
  next
    case 2
    moreover have "0 < snd r" using ranges_okD(2) [OF pool_invD(2) [OF inv]] 2 an by auto
    ultimately show ?thesis by (intro bexI [of _ r]) (simp_all add: within_def)
  qed
qed

lemma held_backed:
  assumes "dp_inv H V k e s" "holds (live V (core s)) A" "(p, sz) \<in> A"
  shows "\<exists>q\<in>V (provider_world s). fst q \<le> unat p \<and> unat p + unat sz \<le> fst q + snd q"
proof -
  obtain n where n: "unat sz \<le> n" "(unat p, n) \<in> live V (core s)" using holdsD(1) [OF assms(2,3)] by blast
  have "pool_inv V k e (core s)" using assms(1) by (simp add: dp_inv_def)
  from live_backed [OF this n(2)] obtain q where q: "q \<in> V (provider_world s)" "within (unat p, n) q" by auto
  then show ?thesis using n(1) by (intro bexI [of _ q]) (auto simp: within_def)
qed

lemma held_freed:
  assumes "dp_inv H V k e s" "holds (live V (core s)) A" "(p, sz) \<in> A"
  obtains t where "DisjointPool_free H p s = Some (UMF_RESULT_SUCCESS, t)"
proof -
  obtain n where "(unat p, n) \<in> live V (core s)" using holdsD(1) [OF assms(2,3)] by blast
  moreover have "host_ok H V" "pool_inv V k e (core s)" using assms(1) by (simp_all add: dp_inv_def)
  ultimately show thesis using free_live that by metis
qed

lemma nothing_held:
  assumes "dp_inv H V k e s" "holds (live V (core s)) {}"
  obtains w where "DisjointPool_finalize H s = Some w" "V w = {}"
proof -
  have s: "host_ok H V" "pool_inv V k e (core s)" using assms(1) by (simp_all add: dp_inv_def)
  obtain w where w: "DisjointPool_finalize H s = Some w" "V w = V (provider_world s) - backing (core s)"
    by (rule destroy_ok [OF s])
  have "live V (core s) = {}" using holdsD(3) [OF assms(2)] by auto
  then show thesis using that w by (auto simp: live_def)
qed

section \<open>Properties\<close>

text \<open>
  What holds of a pool and the addresses and sizes that its clients hold: these ranges are pairwise
  disjoint; each of them lies in memory that the provider has handed out, and can be released; a
  request returns, with the null pointer only for no bytes or with the error of the provider;
  and when nothing is held, the destruction of the pool gives all memory back.
\<close>

definition pool_promise :: "'w pool_host \<Rightarrow> ('w \<Rightarrow> range set) \<Rightarrow> 'w alloc_impl \<Rightarrow> (u64 \<times> u64) set \<Rightarrow> bool" where
  "pool_promise H V s A \<longleftrightarrow>
     (\<forall>p a q b. (p, a) \<in> A \<and> (q, b) \<in> A \<and> (p, a) \<noteq> (q, b) \<longrightarrow> unat p + unat a \<le> unat q \<or> unat q + unat b \<le> unat p)
   \<and> (\<forall>p a. (p, a) \<in> A \<longrightarrow> (\<exists>v\<in>V (provider_world s). fst v \<le> unat p \<and> unat p + unat a \<le> fst v + snd v)
        \<and> (\<exists>t. DisjointPool_free H p s = Some (UMF_RESULT_SUCCESS, t)))
   \<and> (\<forall>obj sz. obj \<noteq> NULL \<and> slabs s obj = None \<longrightarrow> (\<exists>p t. DisjointPool_malloc H obj sz s = Some (p, t)
        \<and> (p = 0 \<longrightarrow> sz = 0 \<or> pool_last_status t \<noteq> UMF_RESULT_SUCCESS)))
   \<and> (A = {} \<longrightarrow> (\<exists>w. DisjointPool_finalize H s = Some w \<and> V w = {}))"

lemma malloc_answers:
  assumes inv: "dp_inv H V k e s" and obj: "obj \<noteq> NULL" "slabs s obj = None"
  shows "\<exists>p t. DisjointPool_malloc H obj sz s = Some (p, t) \<and> (p = 0 \<longrightarrow> sz = 0 \<or> pool_last_status t \<noteq> UMF_RESULT_SUCCESS)"
proof -
  have s: "host_ok H V" "pool_inv V k e (core s)" using inv by (simp_all add: dp_inv_def)
  from s obj show ?thesis
  proof (cases rule: malloc_cases [where sz = sz])
    case (gave p n t)
    then have "(unat p, n) \<in> live V (core t)" "pool_inv V k e (core t)" by (simp_all add: gave_def)
    then have "p \<noteq> 0" using ranges_okD(1) [OF live_ranges_ok] by fastforce
    then show ?thesis using gave by blast
  qed blast
qed

lemma promise_kept:
  assumes "dp_inv H V k e s" "holds (live V (core s)) A"
  shows "pool_promise H V s A"
proof -
  have "\<forall>p a q b. (p, a) \<in> A \<and> (q, b) \<in> A \<and> (p, a) \<noteq> (q, b) \<longrightarrow> unat p + unat a \<le> unat q \<or> unat q + unat b \<le> unat p"
    using dp.holds_apart [OF assms] by blast
  moreover have "\<forall>p a. (p, a) \<in> A \<longrightarrow> (\<exists>v\<in>V (provider_world s). fst v \<le> unat p \<and> unat p + unat a \<le> fst v + snd v) \<and>
      (\<exists>t. DisjointPool_free H p s = Some (UMF_RESULT_SUCCESS, t))"
    using held_backed [OF assms] held_freed [OF assms] by metis
  moreover have "A = {} \<longrightarrow> (\<exists>w. DisjointPool_finalize H s = Some w \<and> V w = {})"
    using nothing_held [OF assms(1)] assms(2) by metis
  ultimately show ?thesis using malloc_answers [OF assms(1)] unfolding pool_promise_def by simp
qed

lemma promiseD:
  assumes "pool_promise H V s A"
  shows "(p, a) \<in> A \<Longrightarrow> \<exists>t. DisjointPool_free H p s = Some (UMF_RESULT_SUCCESS, t)"
    "obj \<noteq> NULL \<Longrightarrow> slabs s obj = None \<Longrightarrow> \<exists>p t. DisjointPool_malloc H obj sz s = Some (p, t)"
    "A = {} \<Longrightarrow> \<exists>w. DisjointPool_finalize H s = Some w \<and> V w = {}"
  using assms unfolding pool_promise_def by simp_all blast+

text \<open>C35: A disjoint pool over a provider that hands out disjoint ranges and takes them back is created
  when its parameters fit together, and however its clients then allocate and release, the promise holds:
  the memory that they hold is pairwise disjoint and backed by the provider, every request
  returns, every address that is held can be released, and when nothing is held any more the destruction
  of the pool gives all memory back to the provider.\<close>

theorem disjoint_pool_runs:
  assumes "host_ok H V"
    and "MinBucketSize ps = 2 ^ b" "b < 64" "SlabMinSize ps = 2 ^ e" "max 3 (min b 31) < e" "e < 64" "unat (MaxPoolableSize ps) \<le> 2 ^ 31"
    and "V w = {}" "host_min_page_size H w = Some ((r, g), w1)" "V w1 = {}"
  shows "\<exists>s. DisjointPool_initialize H (Some h) ps w = Some (UMF_RESULT_SUCCESS, Some s) \<and>
    (\<forall>t A. (pool_step H)\<^sup>*\<^sup>* (s, {}) (t, A) \<longrightarrow> pool_promise H V t A)"
proof -
  define k where "k = max 3 (min b 31)"
  obtain s where s: "DisjointPool_initialize H (Some h) ps w = Some (UMF_RESULT_SUCCESS, Some s)"
    "pool_inv V k e (core s)" "live V (core s) = {}"
    by (rule initialize_ok [where V = V and w = w and H = H and h = h, OF assms(2,3) k_def assms(4) _ assms(6,7) _ assms(9)])
      (use assms(5,8,10) in \<open>auto simp: ranges_ok_def k_def\<close>)
  have start: "dp_inv H V k e s" "holds (live V (core s)) {}" using assms(1) s by (simp_all add: dp_inv_def holds_def)
  have "pool_promise H V t A" if "(pool_step H)\<^sup>*\<^sup>* (s, {}) (t, A)" for t A
    using pool_run_holds [OF that, of V k e] start promise_kept [of H V k e t A] by simp
  then show ?thesis using s(1) by blast
qed

theorem disjoint_pool_runs_witness:
  "\<exists>s t. DisjointPool_initialize bump_host (Some (Direct 1)) small_params fresh_bump = Some (UMF_RESULT_SUCCESS, Some s) \<and>
     (pool_step bump_host)\<^sup>*\<^sup>* (s, {}) (t, {(4096, 100000)}) \<and> (\<exists>p u. DisjointPool_malloc bump_host 1 100 t = Some (p, u)) \<and>
     (\<exists>u. DisjointPool_free bump_host 4096 t = Some (UMF_RESULT_SUCCESS, u)) \<and>
     (\<exists>w. DisjointPool_finalize bump_host s = Some w \<and> bump_ranges w = {})"
proof -
  have page: "host_min_page_size bump_host fresh_bump = Some ((UMF_RESULT_SUCCESS, 4096), fresh_bump)"
    by (simp add: bump_host_def)
  have ps: "MinBucketSize small_params = 2 ^ 3" "(3 :: nat) < 64" "SlabMinSize small_params = 2 ^ 12" "max 3 (min 3 31) < (12 :: nat)" "(12 :: nat) < 64"
    "unat (MaxPoolableSize small_params) \<le> 2 ^ 31" by (simp_all add: small_params_def)
  have R: "ranges_ok (bump_ranges fresh_bump)" using fresh_bump_ok by (simp add: ranges_ok_def)
  obtain s where s: "DisjointPool_initialize bump_host (Some (Direct 1)) small_params fresh_bump = Some (UMF_RESULT_SUCCESS, Some s)"
    "slabs s = Map.empty" "params s = small_params" "provider_world s = fresh_bump"
    by (rule initialize_ok [where b = 3 and e = 12 and k = 3 and ps = small_params and h = "Direct 1" and
          V = bump_ranges and H = bump_host and w = fresh_bump, OF _ _ _ _ _ _ _ R page])
      (simp_all add: small_params_def)
  from disjoint_pool_runs [OF bump_host_ok ps fresh_bump_ok(2) page fresh_bump_ok(2), of "Direct 1"] s(1)
  have runs: "(pool_step bump_host)\<^sup>*\<^sup>* (s, {}) (t, A) \<Longrightarrow> pool_promise bump_host bump_ranges t A" for t A by auto
  define t where "t = s\<lparr>provider_world := fresh_bump\<lparr>handed := [(4096, 100000)], next_page := 106496\<rparr>\<rparr>"
  have run: "DisjointPool_malloc bump_host 1 100000 s = Some (4096, t)"
    using s(3,4) by (simp add: DisjointPool_malloc_def allocate_def catch_status_def memoryProviderAlloc_def small_params_def
        bump_host_def bump_alloc_def fresh_bump_def t_def)
  have "dp_request bump_host 1 100000 s 4096 t" using run s(2) by (simp add: dp_request_def)
  then have "pool_step bump_host (s, {}) (t, if (4096 :: u64) = 0 then {} else insert (4096, 100000) {})" by (rule step_malloc)
  then have step: "(pool_step bump_host)\<^sup>*\<^sup>* (s, {}) (t, {(4096, 100000)})" by simp
  have "slabs t 1 = None" using s(2) by (simp add: t_def)
  then have "\<exists>p u. DisjointPool_malloc bump_host 1 100 t = Some (p, u)" by (intro promiseD(2) [OF runs [OF step]]) simp_all
  moreover have "\<exists>u. DisjointPool_free bump_host 4096 t = Some (UMF_RESULT_SUCCESS, u)" by (rule promiseD(1) [OF runs [OF step]]) simp
  moreover have "\<exists>w. DisjointPool_finalize bump_host s = Some w \<and> bump_ranges w = {}"
    by (rule promiseD(3) [OF runs [OF rtranclp.rtrancl_refl] refl])
  ultimately show ?thesis using s(1) step by blast
qed

end
