(* ===== verification/Spec2Isabelle.thy ===== *)
theory Spec2Isabelle
  imports Pm_Contracts Ravl_Properties Memory_Pool_Properties Coarse_Properties Disjoint_Properties
begin

text \<open>
  \<^bold>\<open>A verification of the library of persistent types and of the core of the Unified Memory Framework.\<close>

  The repository adds persistent and NUMA-aware types to C++ programs. It has two libraries under
  those types, and this development models both. The library of persistent types, in C++ under
  \<^verbatim>\<open>src/persistentLib\<close>, keeps objects in a pool of persistent memory through libpmemobj: pointers
  that survive the process, scalars whose stores are entered in an undo log, and strings. The
  programs under \<^verbatim>\<open>src/concept\<close> are written with it, in the form that the tool of the repository
  produces. The Unified Memory Framework (UMF), in C under \<^verbatim>\<open>src/unified-memory-framework\<close>, manages the memory of
  typed objects; its file names below are relative to its directory \<^verbatim>\<open>src\<close>. Its data structures, the allocator of
  its own memory, the layer of memory providers, the tracker of allocated ranges, the layer of pools, a
  provider that divides large blocks, the coarse provider, and a pool with a bucket for each size, the disjoint pool, are modelled.

  \<^bold>\<open>The library of persistent types.\<close> A program opens the one pool of the process (\<^verbatim>\<open>pmem_alloc_init\<close>), gets the
  root object, finds or creates its objects through slots of the root (\<^verbatim>\<open>pmem_get_or_create\<close>), changes them inside
  transactions, and closes the pool. Every operation is a computation of the machine of \<open>Pm_Machine\<close>: it
  returns, throws, is ended by \<open>std::terminate\<close>, or faults (a read of memory without a value, a store through
  the null pointer, an undefined operator), and it yields the list of all states it went through, the
  states in which the process can be killed. The pool is an image of cells by offset, one cell for each
  scalar, that survives the process; the next run maps it at another address. The functions of libpmemobj are
  parameters; \<open>pmdk_ok\<close> has their documented behaviour, over a view of the transaction, the
  objects and the undo log, and every theorem holds for every such libpmemobj. When a process is killed, the
  cells that are in the undo log may hold anything (\<open>torn\<close>), and so may memory of no object; opening the pool undoes the log.
  \<open>recovers\<close> says what holds after that, \<open>durable\<close> says it of a state at rest or inside a transaction.

  \<^item> \<open>Pm_Machine\<close> has the machine, the record of the functions of libpmemobj, \<open>transaction::run\<close> and the functions of the C
    library; \<open>Pm_Library\<close> translates \<^verbatim>\<open>pmem_allocator.hpp\<close> and \<^verbatim>\<open>persistenttype.hpp\<close>, \<open>Pm_String\<close> translates
    \<^verbatim>\<open>pmem_string.hpp\<close>, and \<open>Pm_Programs\<close> the transformed counter, stack and towers of Hanoi.

  \<^item> \<open>Pm_Laws\<close> states the hypotheses, \<open>Pm_Logic\<close> a logic of triples with an assertion on every state on the way,
    \<open>Pm_Rules\<close> the rules for stores, allocation and release inside a transaction, \<open>Pm_Recovery\<close> those for transactions
    and for a crash, \<open>Pm_Runs\<close> those for whole programs.

  \<^item> \<open>Pm_Counter\<close>, \<open>Pm_Stack\<close>, \<open>Pm_Stack_Program\<close>, \<open>Pm_Hanoi\<close>, \<open>Pm_Hanoi_Program\<close> and \<open>Pm_Strings\<close> relate the cells of the
    pool to numbers, lists, pegs and strings and prove the operations and the programs.

  \<^item> \<open>Pm_Undo_Log\<close> is an executable undo log, in place of libpmemobj, for which the hypotheses are proved; \<open>Pm_Properties\<close>
    has the properties of the programs and \<open>Pm_Contracts\<close> those of the single operations, with witnesses that
    run the programs on it.

  \<^bold>\<open>The memory framework.\<close> An application creates a memory provider from a table of
  operations, and a pool on top of the provider. \<^verbatim>\<open>memory_pool.c\<close> wraps the provider with a tracking
  provider (\<^verbatim>\<open>provider/provider_tracking.c\<close>), so that every range the provider hands out is
  entered, with its pool and size, in one global tracker; the pool that owns an address is then
  found from the address alone, which is how memory is released and shared between processes
  (\<^verbatim>\<open>ipc.c\<close>). The tracker is a critnib (\<^verbatim>\<open>critnib/critnib.c\<close>), a radix tree from addresses to pointers,
  whose values live in chunks of a base allocator (\<^verbatim>\<open>base_alloc\<close>). The coarse provider
  (\<^verbatim>\<open>provider/provider_coarse.c\<close>) takes large blocks from another provider or from a buffer, divides them, and keeps
  the blocks in three rank-balanced search trees (\<^verbatim>\<open>ravl/ravl.c\<close>): the blocks from upstream, all blocks, and the
  lists of free blocks of each size. The disjoint pool (\<^verbatim>\<open>pool/pool_disjoint.cpp\<close>) rounds a request up to the size of a
  bucket and serves it from a slab, memory of a provider, either by a chunk of the slab or by the slab as a whole.

  \<^bold>\<open>How its code is modelled.\<close> Every function becomes a function of the same name that maps its
  arguments and an explicit state to a result of type \<open>option\<close>. The value \<open>None\<close> stands for what
  the C program must not do: follow a pointer that is not valid, fail an assertion of the debug
  build, lock a mutex it holds, or run forever. So a theorem that a call gives \<open>Some\<close> is also a theorem of memory safety
  and termination. Error codes are values of the type \<open>umf_result\<close> (or \<open>errno\<close>). Sizes and addresses of
  managed memory are 64-bit words that wrap around; addresses of objects of the library are natural
  numbers, and \<open>NULL\<close> is 0. What the system or the allocator of host memory answers is an argument
  of the definitions. Loops are recursive functions, with a termination proof or as
  \<^theory_text>\<open>partial_function\<close> in the option monad; the recursive walks \<open>iter\<close> and \<open>delete_node\<close> of the critnib carry a depth
  of 17, enough since a path has at most 16 nodes and a leaf. A single thread is modelled.

  \<^bold>\<open>Its theories.\<close>

  \<^item> \<open>UMF_Prelude\<close>: words, addresses, results, and the option monad.

  \<^item> \<open>Critnib_Model\<close> translates \<^verbatim>\<open>critnib.c\<close>: nodes and leaves in stores, the lists of deleted and
    pending objects, insertion, removal, lookup, ordered search, iteration and deletion. \<open>Critnib_Bits\<close>,
    \<open>Critnib_Trie\<close>, \<open>Critnib_Heap\<close>, \<open>Critnib_State\<close>, \<open>Critnib_Update\<close>, \<open>Critnib_Remove\<close>, \<open>Critnib_Query\<close> and
    \<open>Critnib_Delete\<close> relate the heap to an abstract trie and prove each operation. \<open>Address_Map\<close> states the
    contract of the structure as a locale, a finite map with ordered search, and interprets it on the model.

  \<^item> \<open>Ravl_Model\<close> translates \<^verbatim>\<open>ravl.c\<close>, with parent pointers; \<open>Ravl_Tree\<close>, \<open>Ravl_Rotate\<close>, \<open>Ravl_Balance\<close>,
    \<open>Ravl_Search\<close>, \<open>Ravl_Correct\<close> and \<open>Ravl_Properties\<close> show that it is a sorted sequence under insertion,
    removal, search and navigation, and that the rank rule bounds the height.

  \<^item> \<open>UMF_Utils\<close> models \<^verbatim>\<open>utils_common.c\<close> and the bit arithmetic of \<^verbatim>\<open>utils_posix_math.c\<close>: alignment of
    addresses and sizes, translation of flags, search in strings.

  \<^item> \<open>Base_Alloc\<close> translates \<^verbatim>\<open>base_alloc.c\<close> on a memory of mapped ranges, with the free list threaded
    through the chunks; \<open>Base_Alloc_Correct\<close>, \<open>Base_Alloc_Invariant\<close>, \<open>Base_Alloc_Ops\<close> and
    \<open>Base_Alloc_Properties\<close> show that chunks never overlap, for every run of requests, and give the
    locale \<open>chunk_allocator\<close> with its interpretation. \<open>Base_Alloc_Global\<close> and \<open>Base_Alloc_Classes\<close> treat the
    size classes and the metadata in front of a block (\<^verbatim>\<open>base_alloc_global.c\<close>).

  \<^item> \<open>Memory_Provider\<close> translates \<^verbatim>\<open>memory_provider.c\<close>: tables of operations over an arbitrary state,
    the defaults, and the checks of arguments. The operations work on the state behind the provider together
    with the variable of the thread for the provider that failed last, since a provider that calls another one changes
    it on the way; \<open>Memory_Provider_Properties\<close> has the contract of the layer.

  \<^item> \<open>Memory_Tracker\<close>, \<open>Memory_Tracker_Correct\<close> and \<open>Memory_Tracker_Properties\<close>: the tracker as a map of
    disjoint ranges, with the locale \<open>range_tracker\<close> and its interpretation; its proofs use the critnib
    and the base allocator only through their locales.

  \<^item> \<open>Tracking_Provider\<close>, \<open>Tracking_Provider_Correct\<close> and \<open>Tracking_Provider_Properties\<close>: the tracking provider
    as a table of operations of the provider layer; allocation, release, split, merge and the cache
    of handles for sharing.

  \<^item> \<open>Memory_Pool\<close> and \<open>Memory_Pool_Properties\<close>: \<^verbatim>\<open>memory_pool.c\<close>, \<^verbatim>\<open>pool/pool_proxy.c\<close> and \<^verbatim>\<open>ipc.c\<close>; the properties
    follow a request through all layers.

  \<^item> \<open>Coarse_Blocks\<close>, \<open>Coarse_Provider\<close> and \<open>Coarse_Ops\<close> translate \<^verbatim>\<open>provider_coarse.c\<close> as a whole, with the consistency
    check that the debug build runs before and after each request (\<open>debug_check\<close>). \<open>Coarse_Trees\<close> and \<open>Coarse_Lists\<close> treat the trees and the
    doubly linked lists. \<open>Coarse_Layout\<close> has the invariant \<open>coarse_ok s us bs\<close>: the state holds the sequence \<open>us\<close> of blocks
    from upstream and the sequence \<open>bs\<close> of blocks they are divided into. \<open>Coarse_Check\<close> shows that the invariant implies the
    consistency check; \<open>Coarse_Steps\<close> and \<open>Coarse_Merge\<close> treat the steps that the operations share, \<open>Coarse_Free\<close> the release,
    \<open>Coarse_Alloc\<close> and \<open>Coarse_Request\<close> the allocation from a free block, \<open>Coarse_User\<close> the split and merge of
    allocations, \<open>Coarse_Upstream\<close> the memory from upstream, with \<open>grown\<close>, which says with which neighbours a new range is joined, \<open>Coarse_Service\<close> requests with arbitrary arguments,
    \<open>Coarse_System\<close> the creation over a buffer and the locale \<open>service\<close> with its interpretation, which gives sequences of requests, and \<open>Coarse_Finish\<close> the destruction.
    \<open>Coarse_Properties\<close> has the properties.

  \<^item> \<open>Disjoint_Model\<close> translates \<^verbatim>\<open>pool_disjoint.cpp\<close>: the parameters and limits, slabs in a store, the two lists of
    each bucket, the table from addresses to slabs, and the operations of the pool; \<open>library_host\<close> has the functions of the
    provider layer and of the tracker that it calls, the theorems are about any record \<open>pool_host\<close> of such functions. \<open>Disjoint_Core\<close> treats the sizes of
    the buckets and the choice of one, and takes the parts of the state that matter for correctness from it, without the statistics.
    \<open>Disjoint_Invariant\<close> has the invariant \<open>pool_inv\<close>, the ranges \<open>live\<close> that clients hold, and the
    steps on lists and on the table; \<open>Disjoint_Slabs\<close> the chunks of a slab and its creation and destruction,
    \<open>Disjoint_Alloc\<close> the requests, \<open>Disjoint_Pool\<close> the releases and the life cycle.
    \<open>Disjoint_Properties\<close> has a provider for the witness, states what clients rely on as the locale \<open>range_pool\<close>, interprets it on
    the model, has the steps of clients, and the property. Aligned requests have the lemma
    \<open>allocate_aligned_cases\<close> and are not steps of the clients, since the code does not find every aligned address again.

  \<^bold>\<open>Hypotheses.\<close> Of libpmemobj: \<open>pmdk_ok\<close>, and for whole programs \<open>pmdk_root_found\<close>, that an empty pool has room for a root object of at
  most one page; what happens without it is a theorem. Nothing is assumed of a range that is added outside a transaction. A failing call of libpmemobj inside a
  transaction is allowed everywhere and aborts it. An exception that no handler catches unwinds the transaction in the
  model; an implementation that ends the process at once is covered by the states on the way. The operations of a provider or a pool are supplied by the user: the theorems assume only that the calls they mention return, and the
  witnesses instantiate them with a concrete provider. Answers of the system are assumed to be new
  objects (\<open>ready\<close> and \<open>hosts_ready\<close> for the coarse provider, where ten objects per request are enough). The counter of removals of the critnib must not come close to $2^{64}$ (\<open>critnib_room\<close>); that this
  bound is needed is itself a theorem. The allocation of the coarse provider is treated for the search that the code
  gets right (\<open>plain_search\<close>: the fastest strategy, or any strategy without an alignment); its paths after a failure
  of host memory lose blocks and are modelled, but no property is claimed of them. Of the provider below a disjoint pool
  \<open>host_ok\<close> is assumed: what it hands out overlaps nothing that it has handed out, and can be found in the tracker and taken back;
  for aligned requests also \<open>host_aligns\<close> and \<open>paged\<close>, that it respects alignments.

  \<^bold>\<open>Where the model idealises.\<close> The rank of a node of the tree is an unbounded integer for an \<^verbatim>\<open>int32_t\<close>; the numbers of
  nodes that fit into memory keep it small. Objects from the allocator of host memory have addresses that were never used
  before, although the allocator gives released objects out again. A mutex can be locked whenever nobody holds it, so that the error paths of a failing lock
  are left out. The tracker always has a map, so that the test for a tracker without one is left out. The counter and the sizes of the
  programs are integers of 32 bits, and the additions that the programs themselves make on them wrap around;
  operations of \<open>persistent\<close> fault where the language leaves the result undefined. The limits
  that disjoint pools can share are modelled for the one pool.

  \<^bold>\<open>Not modelled.\<close> Concurrency of several threads (the critnib's lock-free readers are modelled
  without writers in between). Of the library of persistent types: fundamental types other than \<open>int\<close>, for which the
  template has the same code, and arrays. Of UMF: the log; the providers and pools whose substance is calls of the
  system (mmap, mbind, files), of hwloc, of drivers or of third-party allocators; the proxy library, which depends on
  the dynamic loader; the linear base allocator and the reference count of the library. Of the rest of the repository: the tool that rewrites
  programs, which works on the syntax trees of clang, and the data structures, experiments and benchmarks that
  exercise the NUMA annotation, whose directories are largely copies of each other.
\<close>

end
